(* ===== verification/PTM_Prelude.thy ===== *)
theory PTM_Prelude
  imports Main "HOL-Library.Word" "HOL-Library.Monad_Syntax"
begin

text \<open>
  Shared vocabulary of the development: the C++ integer types as words, machine pointers as
  natural numbers (the null pointer is 0), operations that may fail to return as
  \<^typ>\<open>'a option\<close> (the value None stands for a failed assertion, a dereference of a
  dangling pointer or a loop that does not end), and the generic lemmas on lists, maps and
  words that several components use.
\<close>

unbundle bit_operations_syntax

subsection \<open>Machine types\<close>

type_synonym u8 = "8 word"
type_synonym u32 = "32 word"
type_synonym u64 = "64 word"
type_synonym ptr = nat

abbreviation (input) nullptr :: ptr where "nullptr \<equiv> 0"

named_theorems heap_simps \<open>effect of single heap reads and writes\<close>
named_theorems ret_simps \<open>inversion of operations that returned\<close>

subsection \<open>Options\<close>

lemma bind_eq_Some [ret_simps]:
  "(m \<bind> f = Some y) \<longleftrightarrow> (\<exists>x. m = Some x \<and> f x = Some y)"
  by (cases m) auto

text \<open>
  Evaluation of monadic code proceeds case by case, so that the rest of a computation is not
  unfolded before its first step has a value.
\<close>

lemma bind_case [code_unfold]:
  "m \<bind> f = (case m of None \<Rightarrow> None | Some x \<Rightarrow> f x)"
  by (cases m) auto

lemma if_option_eq_Some [ret_simps]:
  "((if b then Some x else None) = Some y) \<longleftrightarrow> b \<and> x = y"
  "((if b then None else Some x) = Some y) \<longleftrightarrow> \<not> b \<and> x = y"
  by auto

subsection \<open>Lists\<close>

lemma in_set_tl: "x \<in> set (tl xs) \<Longrightarrow> x \<in> set xs"
  by (cases xs) auto

text \<open>The last index below n that satisfies a predicate.\<close>

fun last_index :: "(nat \<Rightarrow> bool) \<Rightarrow> nat \<Rightarrow> nat option" where
  "last_index P 0 = None"
| "last_index P (Suc n) = (if P n then Some n else last_index P n)"

lemma last_index_None: "last_index P n = None \<longleftrightarrow> (\<forall>k<n. \<not> P k)"
  by (induction n) (auto simp: less_Suc_eq)

lemma last_index_Some: "last_index P n = Some k \<longleftrightarrow> k < n \<and> P k \<and> (\<forall>l<n. k < l \<longrightarrow> \<not> P l)"
proof (induction n)
  case (Suc n)
  then show ?case by (auto simp: less_Suc_eq)
qed simp

lemma last_index_cong: "(\<And>k. k < n \<Longrightarrow> P k = Q k) \<Longrightarrow> last_index P n = last_index Q n"
  by (induction n) auto

lemma last_index_skip:
  "m \<le> n \<Longrightarrow> (\<And>k. m \<le> k \<Longrightarrow> k < n \<Longrightarrow> \<not> P k) \<Longrightarrow> last_index P n = last_index P m"
proof (induction n)
  case (Suc n)
  then show ?case by (cases "m = Suc n") auto
qed simp

subsection \<open>Words\<close>

lemma unat_and_mask: "unat (w AND mask n) = unat (w :: 'a::len word) mod 2 ^ n"
  by (simp only: take_bit_eq_mask [symmetric] unsigned_take_bit_eq) (simp add: take_bit_eq_mod)

lemma unat_drop_bit: "unat (drop_bit n w) = unat (w :: 'a::len word) div 2 ^ n"
  by (simp only: unsigned_drop_bit_eq) (simp add: drop_bit_eq_div take_bit_eq_mod)

lemma unat_ucast_mod:
  "unat (ucast (w :: 'a::len word) :: 'b::len word) = unat w mod 2 ^ LENGTH('b)"
  by (simp only: unsigned_ucast_eq) (simp add: take_bit_eq_mod)

lemma uint_two_power:
  assumes "n < LENGTH('a)" shows "uint (2 ^ n :: 'a::len word) = 2 ^ n"
proof -
  have "(2 :: 'a word) ^ n = word_of_int (2 ^ n)" by simp
  moreover have "take_bit LENGTH('a) (2 ^ n :: int) = 2 ^ n"
    using assms by (intro take_bit_int_eq_self) (auto intro: power_strict_increasing)
  ultimately show ?thesis by (simp only: uint_word_of_int_eq)
qed

lemma unat_two_power: "n < LENGTH('a) \<Longrightarrow> unat (2 ^ n :: 'a::len word) = 2 ^ n"
  by (simp add: unat_eq_nat_uint uint_two_power nat_power_eq)

end
