(* ===== verification/RandomGen.thy ===== *)
theory RandomGen
  imports PTM_Prelude
begin

text \<open>
  The pseudo-random generator of the benchmarks (ptmdb/util/random.h): a Lehmer generator
  modulo the Mersenne prime 2^31-1 whose reduction is done with a shift, a mask and one
  conditional subtraction on 32/64-bit words.
\<close>

definition random_M :: u32 where "random_M = 2147483647"

text \<open>The constructor clears the top bit and replaces the two bad seeds.\<close>

definition random_init :: "u32 \<Rightarrow> u32" where
  "random_init s =
     (let seed = s AND 0x7fffffff in if seed = 0 \<or> seed = 2147483647 then 1 else seed)"

definition random_next :: "u32 \<Rightarrow> u32" where
  "random_next seed =
     (let product = ucast seed * (16807 :: u64);
          seed' = ucast (drop_bit 31 product + (product AND ucast random_M)) :: u32
      in if seed' > random_M then seed' - random_M else seed')"

text \<open>Uniform and Skewed advance the seed and return a value: (value, new seed).\<close>

definition random_uniform :: "u32 \<Rightarrow> u32 \<Rightarrow> u32 \<times> u32" where
  "random_uniform n seed = (let s = random_next seed in (s mod n, s))"

definition random_oneIn :: "u32 \<Rightarrow> u32 \<Rightarrow> bool \<times> u32" where
  "random_oneIn n seed = (let s = random_next seed in (s mod n = 0, s))"

definition random_skewed :: "u32 \<Rightarrow> u32 \<Rightarrow> u32 \<times> u32" where
  "random_skewed max_log seed =
     (let (k, s) = random_uniform (max_log + 1) seed
      in random_uniform (push_bit (unat k) 1) s)"

subsection \<open>The reduction is exact\<close>

lemma mersenne_reduction:
  fixes p :: nat
  assumes "p < 2 ^ 62" "0 < p mod 2147483647"
  shows "(let s = p div 2 ^ 31 + p mod 2 ^ 31
          in if s > 2147483647 then s - 2147483647 else s) = p mod 2147483647"
proof -
  define q where "q = p div 2 ^ 31"
  define r where "r = p mod 2 ^ 31"
  have p: "p = q * 2147483647 + (q + r)"
    unfolding q_def r_def using div_mult_mod_eq [of p "2 ^ 31"] by simp
  have r: "r < 2147483648" by (simp add: r_def)
  have q: "q < 2147483648" using assms(1) unfolding q_def by (simp add: less_mult_imp_div_less)
  have pm: "p mod 2147483647 = (q + r) mod 2147483647"
    by (subst p) (simp only: mod_mult_self3)
  show ?thesis
  proof (cases "q + r > 2147483647")
    case True
    then have "(q + r) mod 2147483647 = (q + r - 2147483647) mod 2147483647"
      by (simp add: le_mod_geq)
    moreover have "q + r - 2147483647 \<le> 2147483647" using q r by simp
    ultimately show ?thesis using True pm assms(2)
      unfolding q_def [symmetric] r_def [symmetric] Let_def
      by (metis le_neq_implies_less mod_less mod_self not_less_zero)
  next
    case False
    then have "q + r \<le> 2147483647" by simp
    then show ?thesis using False pm assms(2)
      unfolding q_def [symmetric] r_def [symmetric] Let_def
      by (metis le_neq_implies_less mod_less mod_self not_less_zero)
  qed
qed

lemma coprime_M_A: "coprime (2147483647 :: nat) 16807"
proof -
  have "gcd (2147483647 :: nat) 16807 = 1" by (simp add: gcd_non_0_nat)
  then show ?thesis by (simp only: coprime_iff_gcd_eq_1)
qed

lemma product_mod_pos:
  assumes "0 < n" "n < (2147483647 :: nat)"
  shows "0 < n * 16807 mod 2147483647"
proof (rule ccontr)
  assume "\<not> 0 < n * 16807 mod 2147483647"
  then have "2147483647 dvd n * 16807" by (simp add: dvd_eq_mod_eq_0)
  then have "2147483647 dvd n" using coprime_M_A by (simp only: coprime_dvd_mult_left_iff)
  then have "2147483647 \<le> n" using assms(1) by (rule dvd_imp_le)
  with assms(2) show False by (simp only: not_le)
qed

lemma unat_random_next:
  assumes "0 < seed" "seed < random_M"
  shows "unat (random_next seed) = unat seed * 16807 mod 2147483647"
proof -
  define n where "n = unat seed"
  define product where "product = ucast seed * (16807 :: u64)"
  define t where "t = n * 16807 div 2 ^ 31 + n * 16807 mod 2 ^ 31"
  have n: "0 < n" "n < 2147483647"
    using assms by (simp_all add: n_def random_M_def word_less_nat_alt)
  have pn: "unat product = n * 16807"
    using n by (simp add: product_def n_def unat_word_ariths unat_ucast_mod)
  have M: "ucast random_M = (mask 31 :: u64)" by (simp add: random_M_def mask_eq_exp_minus_1)
  have hi: "unat (drop_bit 31 product) = n * 16807 div 2 ^ 31"
    by (simp only: unat_drop_bit pn)
  have lo: "unat (product AND ucast random_M) = n * 16807 mod 2 ^ 31"
    by (simp only: M unat_and_mask pn)
  have "n * 16807 div 2 ^ 31 < 2 ^ 31"
    using n by (intro less_mult_imp_div_less) simp
  moreover have "n * 16807 mod 2 ^ 31 < 2 ^ 31" by simp
  ultimately have t_small: "t < 2 ^ 32" unfolding t_def by simp
  have sum: "unat (drop_bit 31 product + (product AND ucast random_M)) = t"
    using t_small unfolding t_def by (simp add: unat_word_ariths hi lo)
  have seed': "unat (ucast (drop_bit 31 product + (product AND ucast random_M)) :: u32) = t"
    using t_small by (simp add: unat_ucast_mod sum)
  have red: "(if t > 2147483647 then t - 2147483647 else t) = n * 16807 mod 2147483647"
    using mersenne_reduction [of "n * 16807"] product_mod_pos [OF n] n
    unfolding t_def Let_def by simp
  show ?thesis
    unfolding random_next_def Let_def product_def [symmetric]
    using red seed' t_small
    by (auto simp: word_less_nat_alt unat_sub_if' random_M_def n_def [symmetric] split: if_splits)
qed

subsection \<open>The stream of seeds\<close>

lemma unat_random_next_bounds:
  assumes "0 < seed" "seed < random_M"
  shows "0 < random_next seed \<and> random_next seed < random_M"
proof -
  have n: "0 < unat seed" "unat seed < 2147483647"
    using assms by (simp_all add: random_M_def word_less_nat_alt)
  from product_mod_pos [OF n] unat_random_next [OF assms] show ?thesis
    by (simp add: random_M_def word_less_nat_alt)
qed

lemma random_init_range: "0 < random_init s \<and> random_init s < random_M"
proof -
  have "unat (s AND 0x7fffffff) = unat s mod 2 ^ 31"
    using unat_and_mask [of s 31] by (simp add: mask_eq_exp_minus_1)
  then have "unat (s AND 0x7fffffff) < 2147483648" by simp
  moreover have "unat (s AND 0x7fffffff) \<noteq> 2147483647" if "s AND 0x7fffffff \<noteq> 2147483647"
    using that by (auto simp: word_unat_eq_iff)
  ultimately show ?thesis
    by (auto simp: random_init_def Let_def random_M_def word_less_nat_alt unat_gt_0)
qed

text \<open>
  From any seed given to the constructor, the n-th state of the generator is the n-th
  term of the Lehmer sequence s * 16807^n mod (2^31-1): the shift-and-mask reduction never
  loses a bit, and the state never becomes 0 or 2^31-1, from which it could not leave.
\<close>

theorem random_stream_lehmer:
  "unat ((random_next ^^ n) (random_init s)) = unat (random_init s) * 16807 ^ n mod 2147483647
   \<and> 0 < (random_next ^^ n) (random_init s) \<and> (random_next ^^ n) (random_init s) < random_M"
proof (induction n)
  case 0
  from random_init_range [of s] show ?case by (simp add: random_M_def word_less_nat_alt)
next
  case (Suc n)
  let ?x = "(random_next ^^ n) (random_init s)"
  from Suc have r: "0 < ?x" "?x < random_M" by simp_all
  have "unat (random_next ?x)
        = (unat (random_init s) * 16807 ^ n mod 2147483647) * 16807 mod 2147483647"
    using unat_random_next [OF r] Suc by simp
  also have "\<dots> = unat (random_init s) * 16807 ^ Suc n mod 2147483647"
    by (simp only: mod_mult_left_eq power_Suc2 mult.assoc)
  finally show ?case using unat_random_next_bounds [OF r] by simp
qed

subsection \<open>Random strings (ptmdb/util/testutil.cc)\<close>

text \<open>The loop of RandomString appends len printable characters, one Uniform(95) each.\<close>

fun random_string :: "nat \<Rightarrow> u32 \<Rightarrow> u8 list \<times> u32" where
  "random_string 0 seed = ([], seed)"
| "random_string (Suc len) seed =
     (let (d, seed1) = random_uniform 95 seed;
          (rest, seed2) = random_string len seed1
      in (ucast (32 + d) # rest, seed2))"

definition kTestChars :: "u8 list" where
  "kTestChars = [0, 1, 97, 98, 99, 100, 101, 0xfd, 0xfe, 0xff]"

fun random_key :: "nat \<Rightarrow> u32 \<Rightarrow> u8 list \<times> u32" where
  "random_key 0 seed = ([], seed)"
| "random_key (Suc len) seed =
     (let (d, seed1) = random_uniform 10 seed;
          (rest, seed2) = random_key len seed1
      in (kTestChars ! unat d # rest, seed2))"

lemma random_uniform_less: "n \<noteq> 0 \<Longrightarrow> fst (random_uniform n seed) < n"
  by (simp add: random_uniform_def Let_def word_mod_less_divisor word_gt_0)

lemma printable_byte:
  assumes "d < (95 :: u32)"
  shows "32 \<le> unat (ucast (32 + d) :: u8) \<and> unat (ucast (32 + d) :: u8) < 127"
proof -
  have d: "unat d < 95" using assms by (simp add: word_less_nat_alt)
  then have "unat (32 + d) = 32 + unat d" by (simp add: unat_word_ariths)
  with d show ?thesis by (simp add: unat_ucast_mod)
qed

text \<open>
  RandomString returns exactly len bytes and every one of them is a printable ASCII
  character, from the space up to the tilde.
\<close>

theorem random_string_printable:
  "length (fst (random_string len seed)) = len
   \<and> list_all (\<lambda>c. 32 \<le> unat c \<and> unat c < 127) (fst (random_string len seed))"
proof (induction len arbitrary: seed)
  case 0
  show ?case by simp
next
  case (Suc len)
  have "fst (random_uniform 95 seed) < 95" by (rule random_uniform_less) simp
  from printable_byte [OF this] Suc [of "snd (random_uniform 95 seed)"] show ?case
    by (simp add: Let_def case_prod_unfold)
qed

end
