(* ===== verification/Allocator.thy ===== *)
theory Allocator
  imports PTM_Prelude
begin

text \<open>
  The interface between a persistent allocator and the data structures that allocate from it:
  what malloc and free promise about the set of allocated pointers. The allocators provide it
  (theory EsLoco), the typed heap of theory TMHeap and everything above it rely on it.
\<close>

locale pm_allocator =
  fixes malloc :: "u64 \<Rightarrow> 'a \<Rightarrow> ptr \<times> 'a"
    and free :: "ptr \<Rightarrow> 'a \<Rightarrow> 'a"
    and alloc_inv :: "'a \<Rightarrow> ptr set \<Rightarrow> bool"
    and max_request :: nat
  assumes malloc_fresh:
      "alloc_inv a L \<Longrightarrow> unat n \<le> max_request \<Longrightarrow> malloc n a = (p, a') \<Longrightarrow> p \<noteq> nullptr \<Longrightarrow>
        p \<notin> L \<and> alloc_inv a' (insert p L)"
    and malloc_null: "malloc n a = (nullptr, a') \<Longrightarrow> a' = a"
    and free_live: "alloc_inv a L \<Longrightarrow> p \<in> L \<Longrightarrow> alloc_inv (free p a) (L - {p})"
    and null_not_live: "alloc_inv a L \<Longrightarrow> nullptr \<notin> L"
begin

lemma malloc_then_free:
  assumes "alloc_inv a L" "unat n \<le> max_request" "malloc n a = (p, a')" "p \<noteq> nullptr"
  shows "alloc_inv (free p a') L"
proof -
  from malloc_fresh [OF assms] have "p \<notin> L" "alloc_inv a' (insert p L)" by auto
  with free_live [of a' "insert p L" p] show ?thesis by simp
qed

end

end
