(* ===== verification/EsLoco.thy ===== *)
theory EsLoco
  imports Allocator
begin

text \<open>
  The persistent memory allocator EsLoco (common/EsLoco.hpp): segregated free lists, one per
  power of two, whose heads, links and block headers all live in the pool itself. The model
  keeps that layout: the memory is a map from byte addresses to 64-bit cells, the pointer to
  the top of the pool is the cell at poolAddr, the 40 list heads follow it, and every block
  starts with a header of two cells (next, size exponent).
\<close>

subsection \<open>State\<close>

record esloco =
  poolAddr :: ptr
  poolSize :: nat
  mem :: "ptr \<Rightarrow> nat"

definition kMaxBlockSize :: nat where "kMaxBlockSize = 40"

definition sizeof_block :: nat where "sizeof_block = 16"

text \<open>Address of freelists[i].next: the array starts right after poolTop.\<close>

definition freelist :: "esloco \<Rightarrow> nat \<Rightarrow> ptr" where
  "freelist e i = poolAddr e + 8 + sizeof_block * i"

definition pload :: "ptr \<Rightarrow> esloco \<Rightarrow> nat" where "pload a e = mem e a"

definition pstore :: "ptr \<Rightarrow> nat \<Rightarrow> esloco \<Rightarrow> esloco" where
  "pstore a v e = e\<lparr>mem := (mem e)(a := v)\<rparr>"

subsection \<open>Block sizes\<close>

text \<open>
  The C++ expression 1<<b is a shift of a 32-bit int; compared with a uint64_t it is sign
  extended, added to a pointer it is a signed offset. For b at most 30 it is 2^b.
\<close>

definition int_shl1 :: "nat \<Rightarrow> 32 word" where "int_shl1 b = push_bit b 1"

lemma drop_bit_nonzero:
  assumes "drop_bit n (v :: u64) \<noteq> 0"
  shows "2 ^ n \<le> unat v" "n < 64"
proof -
  have "unat (drop_bit n v) \<noteq> 0" using assms by (simp add: unat_eq_0)
  then show le: "2 ^ n \<le> unat v" by (simp add: unat_drop_bit div_greater_zero_iff)
  have "(2 :: nat) ^ n < 2 ^ 64" using le unsigned_less [where ?'a = nat, of v] by simp
  then show "n < 64" by (rule power_less_imp_less_exp [rotated]) simp
qed

function highestBit_loop :: "u64 \<Rightarrow> nat \<Rightarrow> nat" where
  "highestBit_loop v b = (if drop_bit (b + 1) v \<noteq> 0 then highestBit_loop v (b + 1) else b)"
  by pat_completeness auto
termination
  by (relation "measure (\<lambda>(v, b). 64 - b)") (auto dest: drop_bit_nonzero(2))

declare highestBit_loop.simps [simp del]

definition highestBit :: "u64 \<Rightarrow> nat" where
  "highestBit val =
     (let b = highestBit_loop val 0
      in if val > scast (int_shl1 b) then b + 1 else b)"

text \<open>Rounds down to a cache line and adds two of them.\<close>

definition aligned :: "ptr \<Rightarrow> ptr" where "aligned addr = addr - addr mod 64 + 128"

definition ptr_plus_shl1 :: "ptr \<Rightarrow> nat \<Rightarrow> ptr" where
  "ptr_plus_shl1 p b = nat (int p + sint (int_shl1 b))"

subsection \<open>Operations\<close>

definition esl_init :: "ptr \<Rightarrow> nat \<Rightarrow> bool \<Rightarrow> (ptr \<Rightarrow> nat) \<Rightarrow> esloco" where
  "esl_init addr sz clearPool m =
     (let e = \<lparr>poolAddr = addr, poolSize = sz, mem = m\<rparr>
      in if clearPool
         then pstore (poolAddr e) (aligned (poolAddr e + 8 + sizeof_block * kMaxBlockSize))
                (fold (\<lambda>i. pstore (freelist e i) nullptr) [0..<kMaxBlockSize] e)
         else e)"

definition esl_reset :: "esloco \<Rightarrow> esloco" where
  "esl_reset e =
     pstore (poolAddr e) nullptr
       (e\<lparr>mem := (\<lambda>a. if poolAddr e \<le> a \<and> a < poolAddr e + sizeof_block * kMaxBlockSize
                      then 0 else mem e a)\<rparr>)"

definition getUsedSize :: "esloco \<Rightarrow> nat" where
  "getUsedSize e = (if poolAddr e = nullptr then 0 else pload (poolAddr e) e - poolAddr e)"

definition esl_malloc :: "u64 \<Rightarrow> esloco \<Rightarrow> ptr \<times> esloco" where
  "esl_malloc req e =
     (let bsize = highestBit (req + of_nat sizeof_block);
          fl = freelist e bsize;
          top = pload (poolAddr e) e
      in if pload fl e \<noteq> nullptr
         then (let myblock = pload fl e
               in (myblock + sizeof_block, pstore fl (pload myblock e) e))
         else if ptr_plus_shl1 top bsize > poolSize e + poolAddr e then (nullptr, e)
         else (let myblock = top
               in (myblock + sizeof_block,
                   pstore (myblock + 8) bsize
                     (pstore (poolAddr e) (ptr_plus_shl1 top bsize) e))))"

definition esl_free :: "ptr \<Rightarrow> esloco \<Rightarrow> esloco" where
  "esl_free p e =
     (if p = nullptr then e
      else let myblock = p - sizeof_block;
               size = pload (myblock + 8) e;
               e1 = pstore myblock (pload (freelist e size) e) e
           in pstore (freelist e size) myblock e1)"

subsection \<open>The size class is the least power of two that fits\<close>

lemma int_shl1_small:
  assumes "b \<le> 30"
  shows "unat (scast (int_shl1 b) :: u64) = 2 ^ b" "sint (int_shl1 b) = 2 ^ b"
proof -
  have lt: "(2 :: int) ^ b < 2 ^ 31" using assms by (intro power_strict_increasing) auto
  have u: "uint (int_shl1 b) = 2 ^ b"
    using assms by (simp add: int_shl1_def push_bit_eq_mult uint_two_power)
  show s: "sint (int_shl1 b) = 2 ^ b"
    using lt order_trans [of "- (2 ^ 31)" 0 "(2 :: int) ^ b"]
    by (simp add: sint_uint u signed_take_bit_int_eq_self)
  have "scast (int_shl1 b) = (2 ^ b :: u64)" by (simp add: scast_eq s)
  then show "unat (scast (int_shl1 b) :: u64) = 2 ^ b"
    using assms by (simp add: unat_two_power)
qed

lemma highestBit_loop_bounds:
  assumes "2 ^ b \<le> unat v"
  shows "2 ^ highestBit_loop v b \<le> unat v \<and> unat v < 2 ^ (highestBit_loop v b + 1)"
  using assms
proof (induction v b rule: highestBit_loop.induct)
  case (1 v b)
  show ?case
  proof (cases "drop_bit (b + 1) v \<noteq> 0")
    case True
    with 1 drop_bit_nonzero(1) [OF True] show ?thesis
      by (simp add: highestBit_loop.simps [of v b])
  next
    case False
    then have "unat v div 2 ^ (b + 1) = 0" by (metis unat_drop_bit unat_0)
    then have "unat v < 2 ^ (b + 1)" by (simp add: div_eq_0_iff)
    with False "1.prems" show ?thesis by (simp add: highestBit_loop.simps [of v b])
  qed
qed

lemma highestBit_least:
  assumes "0 < unat v" "unat v \<le> 2 ^ 30"
  shows "unat v \<le> 2 ^ highestBit v" "highestBit v \<le> 30"
    "\<And>k. unat v \<le> 2 ^ k \<Longrightarrow> highestBit v \<le> k"
proof -
  define b where "b = highestBit_loop v 0"
  have b: "2 ^ b \<le> unat v" "unat v < 2 ^ (b + 1)"
    using highestBit_loop_bounds [of 0 v] assms(1) by (simp_all add: b_def)
  have "(2 :: nat) ^ b \<le> 2 ^ 30" using b(1) assms(2) by linarith
  then have b30: "b \<le> 30" by (rule power_le_imp_le_exp [rotated]) simp
  have cmp: "v > scast (int_shl1 b) \<longleftrightarrow> unat v > 2 ^ b"
    by (simp add: word_less_nat_alt int_shl1_small(1) [OF b30])
  have hb: "highestBit v = (if unat v > 2 ^ b then b + 1 else b)"
    by (simp add: highestBit_def b_def [symmetric] cmp Let_def)
  show "unat v \<le> 2 ^ highestBit v" using b by (simp add: hb)
  show "highestBit v \<le> 30"
  proof (cases "unat v > 2 ^ b")
    case True
    then have "(2 :: nat) ^ b < 2 ^ 30" using assms(2) by linarith
    then have "b < 30" by (rule power_less_imp_less_exp [rotated]) simp
    then show ?thesis by (simp add: hb)
  qed (simp add: hb b30)
  show "highestBit v \<le> k" if k: "unat v \<le> 2 ^ k" for k
  proof (cases "unat v > 2 ^ b")
    case True
    then have "(2 :: nat) ^ b < 2 ^ k" using k by linarith
    then have "b < k" by (rule power_less_imp_less_exp [rotated]) simp
    then show ?thesis by (simp add: hb)
  next
    case False
    have "(2 :: nat) ^ b \<le> 2 ^ k" using k b(1) by linarith
    then have "b \<le> k" by (rule power_le_imp_le_exp [rotated]) simp
    then show ?thesis using False by (simp add: hb)
  qed
qed

subsection \<open>The allocator's invariant\<close>

text \<open>A chain of links in memory, ending in the null pointer.\<close>

fun chain :: "(ptr \<Rightarrow> nat) \<Rightarrow> ptr \<Rightarrow> ptr list \<Rightarrow> bool" where
  "chain m p [] = (p = nullptr)"
| "chain m p (x # xs) = (p = x \<and> x \<noteq> nullptr \<and> chain m (m x) xs)"

definition esl_base :: "esloco \<Rightarrow> ptr" where
  "esl_base e = aligned (poolAddr e + 8 + sizeof_block * kMaxBlockSize)"

definition esl_top :: "esloco \<Rightarrow> ptr" where "esl_top e = mem e (poolAddr e)"

text \<open>
  A block map gives the exponent of every block carved out of the pool so far: the blocks
  lie between the base and the top, carry their exponent in their header and are pairwise
  disjoint.
\<close>

definition blocks_ok :: "esloco \<Rightarrow> (ptr \<rightharpoonup> nat) \<Rightarrow> bool" where
  "blocks_ok e B \<longleftrightarrow>
     (\<forall>b k. B b = Some k \<longrightarrow>
        4 \<le> k \<and> k \<le> 30 \<and> esl_base e \<le> b \<and> b + 2 ^ k \<le> esl_top e \<and> mem e (b + 8) = k)
   \<and> (\<forall>b k b' k'. B b = Some k \<longrightarrow> B b' = Some k' \<longrightarrow> b \<noteq> b' \<longrightarrow> b + 2 ^ k \<le> b' \<or> b' + 2 ^ k' \<le> b)"

definition freelists_ok :: "esloco \<Rightarrow> (ptr \<rightharpoonup> nat) \<Rightarrow> (nat \<Rightarrow> ptr list) \<Rightarrow> bool" where
  "freelists_ok e B fl \<longleftrightarrow>
     (\<forall>k < kMaxBlockSize. chain (mem e) (mem e (freelist e k)) (fl k) \<and> distinct (fl k)
        \<and> (\<forall>b \<in> set (fl k). B b = Some k))"

definition live_ptrs :: "(ptr \<rightharpoonup> nat) \<Rightarrow> (nat \<Rightarrow> ptr list) \<Rightarrow> ptr set" where
  "live_ptrs B fl = {b + sizeof_block | b k. B b = Some k \<and> b \<notin> set (fl k)}"

definition esl_inv_with :: "esloco \<Rightarrow> (ptr \<rightharpoonup> nat) \<Rightarrow> (nat \<Rightarrow> ptr list) \<Rightarrow> bool" where
  "esl_inv_with e B fl \<longleftrightarrow>
     blocks_ok e B \<and> freelists_ok e B fl \<and> esl_base e \<le> esl_top e
     \<and> esl_top e \<le> poolAddr e + poolSize e"

text \<open>The allocator is consistent and exactly the pointers in L are allocated.\<close>

definition esl_inv :: "esloco \<Rightarrow> ptr set \<Rightarrow> bool" where
  "esl_inv e L \<longleftrightarrow> (\<exists>B fl. esl_inv_with e B fl \<and> L = live_ptrs B fl)"

text \<open>Bytes the user may write through an allocated pointer.\<close>

definition usable_size :: "esloco \<Rightarrow> ptr \<Rightarrow> nat" where
  "usable_size e p = 2 ^ mem e (p - 8) - sizeof_block"

lemma chain_cong: "(\<And>x. x \<in> set xs \<Longrightarrow> m' x = m x) \<Longrightarrow> chain m' p xs = chain m p xs"
  by (induction xs arbitrary: p) auto

lemma chain_nonnull: "chain m p xs \<Longrightarrow> x \<in> set xs \<Longrightarrow> x \<noteq> nullptr"
  by (induction xs arbitrary: p) auto

lemma aligned_bounds: "a + 64 < aligned a" "aligned a \<le> a + 128"
proof -
  have "a mod 64 < 64" "a mod 64 \<le> a" by auto
  then show "a + 64 < aligned a" "aligned a \<le> a + 128" by (auto simp: aligned_def)
qed

lemmas esl_layout = freelist_def esl_base_def esl_top_def sizeof_block_def kMaxBlockSize_def

lemma freelist_range:
  assumes "k < kMaxBlockSize"
  shows "poolAddr e < freelist e k" "freelist e k + 16 \<le> esl_base e"
proof -
  show "poolAddr e < freelist e k" by (simp add: freelist_def)
  have "freelist e k + 16 \<le> poolAddr e + 8 + 16 * 40"
    using assms by (simp add: freelist_def sizeof_block_def kMaxBlockSize_def)
  also have "\<dots> \<le> esl_base e"
    using aligned_bounds(1) [of "poolAddr e + 8 + sizeof_block * kMaxBlockSize"]
    by (simp add: esl_base_def sizeof_block_def kMaxBlockSize_def)
  finally show "freelist e k + 16 \<le> esl_base e" .
qed

lemma poolAddr_below_base: "poolAddr e < esl_base e"
  using aligned_bounds(1) [of "poolAddr e + 8 + sizeof_block * kMaxBlockSize"]
  by (simp add: esl_base_def)

lemma freelist_inj: "freelist e i = freelist e j \<longleftrightarrow> i = j"
  by (simp add: freelist_def sizeof_block_def)

lemma pstore_fields [simp]:
  "poolAddr (pstore a v e) = poolAddr e" "poolSize (pstore a v e) = poolSize e"
  "mem (pstore a v e) = (mem e)(a := v)" "freelist (pstore a v e) k = freelist e k"
  "esl_base (pstore a v e) = esl_base e" "pload x (pstore a v e) = (if x = a then v else pload x e)"
  by (simp_all add: pstore_def freelist_def esl_base_def pload_def)

lemma sixteen_le_pow: "4 \<le> k \<Longrightarrow> (16 :: nat) \<le> 2 ^ k"
  using power_increasing [of 4 k "2 :: nat"] by simp

text \<open>
  Two blocks of a consistent block map: equal or at least sixteen bytes apart. This is what
  keeps a write to one header off every other header.
\<close>

lemma blocks_apart:
  assumes "blocks_ok e B" "B b = Some k" "B c = Some l" "b \<noteq> c"
  shows "b + 16 \<le> c \<or> c + 16 \<le> b"
proof -
  have "4 \<le> k" "4 \<le> l" using assms by (auto simp: blocks_ok_def)
  then show ?thesis
    using assms sixteen_le_pow [of k] sixteen_le_pow [of l] unfolding blocks_ok_def by fastforce
qed

lemma blocks_okD:
  assumes "blocks_ok e B" "B b = Some k"
  shows "4 \<le> k" "k \<le> 30" "esl_base e \<le> b" "b + 2 ^ k \<le> esl_top e" "mem e (b + 8) = k"
    "b + 16 \<le> esl_top e"
  using assms sixteen_le_pow [of k] unfolding blocks_ok_def by fastforce+

text \<open>
  Frame rule: a new memory that agrees with the old one on the pool top, on the list heads
  and on every block header keeps the allocator consistent.
\<close>

lemma esl_inv_with_frame:
  assumes "esl_inv_with e B fl"
    and "poolAddr e' = poolAddr e" "poolSize e' = poolSize e"
    and "mem e' (poolAddr e) = mem e (poolAddr e)"
    and "\<And>k. k < kMaxBlockSize \<Longrightarrow> mem e' (freelist e k) = mem e (freelist e k)"
    and "\<And>b k. B b = Some k \<Longrightarrow> mem e' b = mem e b \<and> mem e' (b + 8) = mem e (b + 8)"
  shows "esl_inv_with e' B fl"
proof -
  have flE: "freelist e' k = freelist e k" for k using assms by (simp add: freelist_def)
  have baseE: "esl_base e' = esl_base e" using assms by (simp add: esl_base_def)
  have topE: "esl_top e' = esl_top e" using assms by (simp add: esl_top_def)
  have bl: "blocks_ok e' B"
    using assms(1,6) unfolding esl_inv_with_def blocks_ok_def baseE topE by auto
  have "chain (mem e') (mem e' (freelist e' k)) (fl k)" if "k < kMaxBlockSize" for k
  proof -
    have "mem e' x = mem e x" if "x \<in> set (fl k)" for x
      using assms(1,6) that \<open>k < kMaxBlockSize\<close>
      unfolding esl_inv_with_def freelists_ok_def by blast
    then show ?thesis
      using assms(1,5) that unfolding esl_inv_with_def freelists_ok_def flE
      by (simp add: chain_cong [of "fl k" "mem e'" "mem e"])
  qed
  with assms(1) bl show ?thesis
    using assms(2,3) unfolding esl_inv_with_def freelists_ok_def baseE topE by auto
qed

subsection \<open>Allocation\<close>

lemma freelist_not_block:
  assumes "blocks_ok e B" "B b = Some k" "j < kMaxBlockSize"
  shows "freelist e j < b" "freelist e j + 16 \<le> b" "poolAddr e < b"
  using assms freelist_range [OF assms(3), of e] blocks_okD(3) [OF assms(1,2)] poolAddr_below_base [of e]
  by linarith+

lemma esl_inv_with_pop:
  assumes inv: "esl_inv_with e B fl" and k: "k < kMaxBlockSize"
    and head: "mem e (freelist e k) = x" "x \<noteq> nullptr"
  defines "e' \<equiv> pstore (freelist e k) (mem e x) e"
  obtains "fl k = x # tl (fl k)" "esl_inv_with e' B (fl(k := tl (fl k)))" "B x = Some k"
    "x \<notin> set (tl (fl k))"
proof -
  have bl: "blocks_ok e B" and frl: "freelists_ok e B fl" using inv by (auto simp: esl_inv_with_def)
  have ch: "chain (mem e) x (fl k)" and dist: "distinct (fl k)" and inB: "\<forall>b \<in> set (fl k). B b = Some k"
    using frl k head(1) by (auto simp: freelists_ok_def)
  have fk: "fl k = x # tl (fl k)" using ch head(2) by (cases "fl k") auto
  have tlch: "chain (mem e) (mem e x) (tl (fl k))" using ch by (subst (asm) fk) simp
  have Bx: "B x = Some k" using inB by (subst (asm) fk) simp
  have off: "freelist e k \<noteq> b" "freelist e k \<noteq> b + 8" "b + 8 \<noteq> freelist e k" if "B b = Some j" for b j
    using freelist_not_block [OF bl that k] by auto
  have bl': "blocks_ok e' B"
    using bl off poolAddr_below_base [of e] freelist_range(1) [OF k, of e]
    unfolding e'_def blocks_ok_def by (auto simp: esl_top_def)
  have "chain (mem e') (mem e' (freelist e' j)) ((fl(k := tl (fl k))) j)" if j: "j < kMaxBlockSize" for j
  proof -
    have same: "chain (mem e') q xs = chain (mem e) q xs" if "\<forall>b \<in> set xs. B b = Some j" for q xs
      using that off by (intro chain_cong) (auto simp: e'_def)
    show ?thesis
    proof (cases "j = k")
      case True
      have "\<forall>b \<in> set (tl (fl k)). B b = Some j" using inB True by (metis list.sel(2) list.set_sel(2))
      from same [OF this] tlch True show ?thesis by (simp add: e'_def)
    next
      case False
      then show ?thesis using frl j same [of "fl j"] by (simp add: e'_def freelists_ok_def freelist_inj)
    qed
  qed
  moreover have "distinct ((fl(k := tl (fl k))) j) \<and> (\<forall>b \<in> set ((fl(k := tl (fl k))) j). B b = Some j)"
    if "j < kMaxBlockSize" for j
    using frl that inB dist by (auto simp: freelists_ok_def distinct_tl dest: in_set_tl)
  ultimately have "freelists_ok e' B (fl(k := tl (fl k)))" unfolding freelists_ok_def by blast
  moreover have "esl_base e' \<le> esl_top e' \<and> esl_top e' \<le> poolAddr e' + poolSize e'"
    using inv freelist_range(1) [OF k, of e] by (auto simp: e'_def esl_inv_with_def esl_top_def)
  ultimately have "esl_inv_with e' B (fl(k := tl (fl k)))" using bl' by (simp add: esl_inv_with_def)
  moreover have "x \<notin> set (tl (fl k))" using dist by (subst (asm) fk) simp
  ultimately show ?thesis using fk Bx that by blast
qed

lemma esl_inv_with_bump:
  assumes inv: "esl_inv_with e B fl" and k: "4 \<le> k" "k \<le> 30"
    and fits: "esl_top e + 2 ^ k \<le> poolAddr e + poolSize e"
  defines "e' \<equiv> pstore (esl_top e + 8) k (pstore (poolAddr e) (esl_top e + 2 ^ k) e)"
  shows "esl_inv_with e' (B(esl_top e \<mapsto> k)) fl" "B (esl_top e) = None"
    "\<And>j. j < kMaxBlockSize \<Longrightarrow> esl_top e \<notin> set (fl j)"
proof -
  have bl: "blocks_ok e B" and frl: "freelists_ok e B fl" and bt: "esl_base e \<le> esl_top e"
    using inv by (auto simp: esl_inv_with_def)
  have below: "b + 16 \<le> esl_top e" if "B b = Some j" for b j using blocks_okD(6) [OF bl that] .
  show none: "B (esl_top e) = None" using below by (cases "B (esl_top e)") fastforce+
  show notin: "esl_top e \<notin> set (fl j)" if "j < kMaxBlockSize" for j
    using frl that none unfolding freelists_ok_def by fastforce
  have pne: "poolAddr e \<noteq> esl_top e + 8" using poolAddr_below_base [of e] bt by linarith
  have top': "esl_top e' = esl_top e + 2 ^ k" using pne by (simp add: e'_def esl_top_def)
  have keep: "mem e' b = mem e b" "mem e' (b + 8) = mem e (b + 8)" if "B b = Some j" for b j
    using below [OF that] blocks_okD(3) [OF bl that] poolAddr_below_base [of e] by (auto simp: e'_def)
  have heads: "mem e' (freelist e j) = mem e (freelist e j)" if "j < kMaxBlockSize" for j
    using freelist_range [OF that, of e] bt by (auto simp: e'_def)
  have bl': "blocks_ok e' (B(esl_top e \<mapsto> k))"
  proof -
    have "4 \<le> j \<and> j \<le> 30 \<and> esl_base e' \<le> b \<and> b + 2 ^ j \<le> esl_top e' \<and> mem e' (b + 8) = j"
      if "(B(esl_top e \<mapsto> k)) b = Some j" for b j
    proof (cases "b = esl_top e")
      case True
      then show ?thesis using that k bt top' by (simp add: e'_def)
    next
      case False
      then have "B b = Some j" using that by simp
      then show ?thesis
        using blocks_okD [OF bl, of b j] keep(2) [of b j] top' by (simp add: e'_def)
    qed
    moreover have "b + 2 ^ j \<le> c \<or> c + 2 ^ l \<le> b"
      if "(B(esl_top e \<mapsto> k)) b = Some j" "(B(esl_top e \<mapsto> k)) c = Some l" "b \<noteq> c" for b j c l
      using that bl blocks_okD(4) [OF bl] unfolding blocks_ok_def by (auto split: if_splits)
    ultimately show ?thesis unfolding blocks_ok_def by blast
  qed
  have "freelists_ok e' (B(esl_top e \<mapsto> k)) fl"
  proof -
    have "chain (mem e') (mem e' (freelist e' j)) (fl j)" if j: "j < kMaxBlockSize" for j
    proof -
      have "chain (mem e') q (fl j) = chain (mem e) q (fl j)" for q
        using frl j keep(1) by (intro chain_cong) (auto simp: freelists_ok_def)
      then show ?thesis using frl j heads [OF j] by (simp add: freelists_ok_def) (simp add: e'_def)
    qed
    then show ?thesis using frl notin unfolding freelists_ok_def by auto
  qed
  then show "esl_inv_with e' (B(esl_top e \<mapsto> k)) fl"
    using bl' fits bt top' by (simp add: esl_inv_with_def) (simp add: e'_def)
qed

lemma live_ptrs_image:
  "live_ptrs B fl = (\<lambda>b. b + sizeof_block) ` {b \<in> dom B. b \<notin> set (fl (the (B b)))}"
  by (force simp: live_ptrs_def)

lemma live_ptrs_pop:
  assumes "B x = Some k" "fl k = x # ys" "x \<notin> set ys"
  shows "live_ptrs B (fl(k := ys)) = insert (x + sizeof_block) (live_ptrs B fl)"
    "x + sizeof_block \<notin> live_ptrs B fl"
proof -
  have "{b \<in> dom B. b \<notin> set ((fl(k := ys)) (the (B b)))}
        = insert x {b \<in> dom B. b \<notin> set (fl (the (B b)))}"
    using assms by (auto split: if_splits)
  then show "live_ptrs B (fl(k := ys)) = insert (x + sizeof_block) (live_ptrs B fl)"
    unfolding live_ptrs_image by (simp only: image_insert)
  show "x + sizeof_block \<notin> live_ptrs B fl" using assms by (auto simp: live_ptrs_def)
qed

lemma live_ptrs_bump:
  assumes "B x = None" "x \<notin> set (fl k)"
  shows "live_ptrs (B(x \<mapsto> k)) fl = insert (x + sizeof_block) (live_ptrs B fl)"
    "x + sizeof_block \<notin> live_ptrs B fl"
proof -
  have "{b \<in> dom (B(x \<mapsto> k)). b \<notin> set (fl (the ((B(x \<mapsto> k)) b)))}
        = insert x {b \<in> dom B. b \<notin> set (fl (the (B b)))}"
    using assms by (auto split: if_splits)
  then show "live_ptrs (B(x \<mapsto> k)) fl = insert (x + sizeof_block) (live_ptrs B fl)"
    unfolding live_ptrs_image by (simp only: image_insert)
  show "x + sizeof_block \<notin> live_ptrs B fl" using assms by (auto simp: live_ptrs_def)
qed

lemma ptr_plus_shl1_small: "k \<le> 30 \<Longrightarrow> ptr_plus_shl1 p k = p + 2 ^ k"
  by (simp add: ptr_plus_shl1_def int_shl1_small nat_add_distrib nat_power_eq)

text \<open>The exponent chosen for a request that the 32-bit shifts can represent.\<close>

lemma malloc_exponent:
  assumes "unat req \<le> 2 ^ 30 - 16"
  defines "k \<equiv> highestBit (req + of_nat sizeof_block)"
  shows "4 \<le> k" "k \<le> 30" "unat req + 16 \<le> 2 ^ k" "k < kMaxBlockSize"
proof -
  have u: "unat (req + of_nat sizeof_block) = unat req + 16"
    using assms(1) by (simp add: unat_word_ariths sizeof_block_def)
  have b: "0 < unat (req + of_nat sizeof_block)" "unat (req + of_nat sizeof_block) \<le> 2 ^ 30"
    using assms(1) unfolding u by simp_all
  note hb = highestBit_least [OF b, folded k_def, unfolded u]
  show "unat req + 16 \<le> 2 ^ k" "k \<le> 30" by (fact hb)+
  then show "k < kMaxBlockSize" by (simp add: kMaxBlockSize_def)
  have "(2 :: nat) ^ 4 \<le> 2 ^ k" using hb(1) by simp
  then show "4 \<le> k" by (rule power_le_imp_le_exp [rotated]) simp
qed

lemma esl_malloc_cases:
  assumes inv: "esl_inv_with e B fl" and req: "unat req \<le> 2 ^ 30 - 16"
    and run: "esl_malloc req e = (p, e')" and p: "p \<noteq> nullptr"
  obtains B' fl' k where "esl_inv_with e' B' fl'" "live_ptrs B' fl' = insert p (live_ptrs B fl)"
    "p \<notin> live_ptrs B fl" "B' (p - 16) = Some k" "unat req + 16 \<le> 2 ^ k" "B \<subseteq>\<^sub>m B'" "16 \<le> p"
proof -
  define k where "k = highestBit (req + of_nat sizeof_block)"
  note k = malloc_exponent [OF req, folded k_def]
  define x where "x = mem e (freelist e k)"
  show ?thesis
  proof (cases "x = nullptr")
    case False
    then have pe: "p = x + sizeof_block" "e' = pstore (freelist e k) (mem e x) e"
      using run by (auto simp: esl_malloc_def Let_def k_def [symmetric] x_def pload_def)
    from esl_inv_with_pop [OF inv k(4) x_def [symmetric] False]
    have *: "fl k = x # tl (fl k)" "esl_inv_with e' B (fl(k := tl (fl k)))" "B x = Some k"
      "x \<notin> set (tl (fl k))" unfolding pe(2) by blast+
    show ?thesis
      using that [OF *(2)] live_ptrs_pop [of B x k fl "tl (fl k)", OF *(3,1,4)] *(3) k(3) pe(1)
      by (simp add: sizeof_block_def)
  next
    case True
    define top where "top = esl_top e"
    have "\<not> top + 2 ^ k > poolSize e + poolAddr e" and pe: "p = top + sizeof_block"
      "e' = pstore (esl_top e + 8) k (pstore (poolAddr e) (esl_top e + 2 ^ k) e)"
      using run p True k(2)
      by (auto simp: esl_malloc_def Let_def k_def [symmetric] x_def pload_def top_def esl_top_def
          ptr_plus_shl1_small split: if_splits)
    then have fits: "esl_top e + 2 ^ k \<le> poolAddr e + poolSize e" by (simp add: top_def)
    note * = esl_inv_with_bump [OF inv k(1,2) fits, folded pe(2)]
    have le: "B \<subseteq>\<^sub>m B(esl_top e \<mapsto> k)" using *(2) by (auto simp: map_le_def)
    show ?thesis
      using that [OF *(1)] live_ptrs_bump [of B "esl_top e" fl k, OF *(2) *(3) [OF k(4)]] k(3) pe(1) le
      by (simp add: sizeof_block_def top_def)
  qed
qed

lemma esl_malloc_null:
  assumes "esl_malloc req e = (nullptr, e')" shows "e' = e"
  using assms by (auto simp: esl_malloc_def Let_def sizeof_block_def split: if_splits)

lemma usable_size_block:
  assumes "esl_inv_with e B fl" "B (p - 16) = Some k" "16 \<le> p"
  shows "usable_size e p = 2 ^ k - 16"
proof -
  have "p - 16 + 8 = p - 8" using assms(3) by simp
  with blocks_okD(5) [of e B "p - 16" k] assms show ?thesis
    by (simp add: usable_size_def esl_inv_with_def sizeof_block_def)
qed

lemma live_ptr_block:
  assumes "p \<in> live_ptrs B fl"
  obtains k where "B (p - 16) = Some k" "p - 16 \<notin> set (fl k)" "16 \<le> p"
  using assms that by (fastforce simp: live_ptrs_def sizeof_block_def)

lemma usable_size_mono:
  assumes "esl_inv_with e B fl" "esl_inv_with e' B' fl'" "B \<subseteq>\<^sub>m B'" "q \<in> live_ptrs B fl"
  shows "usable_size e' q = usable_size e q"
proof -
  from assms(4) obtain k where k: "B (q - 16) = Some k" "16 \<le> q" by (rule live_ptr_block)
  with assms(3) have "B' (q - 16) = Some k" by (metis domI map_le_def)
  with k usable_size_block [OF assms(1)] usable_size_block [OF assms(2)] show ?thesis by simp
qed

lemma esl_malloc_ok:
  assumes "esl_inv e L" "unat req \<le> 2 ^ 30 - 16" "esl_malloc req e = (p, e')" "p \<noteq> nullptr"
  shows "esl_inv e' (insert p L) \<and> p \<notin> L \<and> unat req \<le> usable_size e' p
         \<and> (\<forall>q \<in> L. usable_size e' q = usable_size e q)"
proof -
  from assms(1) obtain B fl where inv: "esl_inv_with e B fl" "L = live_ptrs B fl"
    by (auto simp: esl_inv_def)
  from esl_malloc_cases [OF inv(1) assms(2-4)] obtain B' fl' k where
    *: "esl_inv_with e' B' fl'" "live_ptrs B' fl' = insert p L" "p \<notin> L"
      "B' (p - 16) = Some k" "unat req + 16 \<le> 2 ^ k" "B \<subseteq>\<^sub>m B'" "16 \<le> p"
    using inv(2) by metis
  have "esl_inv e' (insert p L)" unfolding esl_inv_def using * by metis
  moreover have "unat req \<le> usable_size e' p"
    using usable_size_block [OF *(1,4,7)] *(5) by simp
  moreover have "\<forall>q \<in> L. usable_size e' q = usable_size e q"
    using usable_size_mono [OF inv(1) *(1,6)] inv(2) by blast
  ultimately show ?thesis using *(3) by blast
qed

subsection \<open>De-allocation\<close>

lemma esl_inv_with_push:
  assumes inv: "esl_inv_with e B fl" and blk: "B b = Some k" "b \<notin> set (fl k)"
  shows "esl_inv_with (esl_free (b + sizeof_block) e) B (fl(k := b # fl k))"
proof -
  have bl: "blocks_ok e B" and frl: "freelists_ok e B fl" using inv by (auto simp: esl_inv_with_def)
  note b = blocks_okD [OF bl blk(1)]
  have k: "k < kMaxBlockSize" using b(2) by (simp add: kMaxBlockSize_def)
  have pos: "0 < b" using b(3) poolAddr_below_base [of e] by linarith
  define e' where "e' = pstore (freelist e k) b (pstore b (mem e (freelist e k)) e)"
  have run: "esl_free (b + sizeof_block) e = e'"
    using b(5) by (simp add: esl_free_def e'_def Let_def pload_def sizeof_block_def)
  have off: "freelist e j \<noteq> c" "freelist e j \<noteq> c + 8" "c \<noteq> freelist e j" "c + 8 \<noteq> freelist e j"
    "poolAddr e \<noteq> c" if "B c = Some l" "j < kMaxBlockSize" for c l j
    using freelist_not_block [OF bl that] by auto
  have nb8: "c + 8 \<noteq> b" if "B c = Some l" for c l
    using blocks_apart [OF bl blk(1) that] by auto
  have hdr: "mem e' (c + 8) = mem e (c + 8)" if "B c = Some l" for c l
    using off [OF that k] nb8 [OF that] by (auto simp: e'_def)
  have bl': "blocks_ok e' B"
    using bl hdr off(5) [OF blk(1) k] freelist_range(1) [OF k, of e]
    unfolding blocks_ok_def by (simp add: esl_top_def) (auto simp: e'_def)
  have "chain (mem e') (mem e' (freelist e' j)) ((fl(k := b # fl k)) j)" if j: "j < kMaxBlockSize" for j
  proof -
    have "chain (mem e') q (fl j) = chain (mem e) q (fl j)" for q
    proof (rule chain_cong)
      fix c assume c: "c \<in> set (fl j)"
      then have "B c = Some j" using frl j by (auto simp: freelists_ok_def)
      moreover from this c blk have "c \<noteq> b" by auto
      ultimately show "mem e' c = mem e c" using off(1) [OF _ k] by (auto simp: e'_def)
    qed
    then show ?thesis
      using frl j pos off(1,3) [OF blk(1) j] off(1,3) [OF blk(1) k]
      by (auto simp: freelists_ok_def freelist_inj) (auto simp: e'_def freelist_inj)
  qed
  then have "freelists_ok e' B (fl(k := b # fl k))"
    using frl blk unfolding freelists_ok_def by auto
  moreover have "esl_base e' \<le> esl_top e' \<and> esl_top e' \<le> poolAddr e' + poolSize e'"
    using inv freelist_range(1) [OF k, of e] off(5) [OF blk(1) k]
    by (auto simp: e'_def esl_inv_with_def esl_top_def)
  ultimately show ?thesis using bl' unfolding run esl_inv_with_def by simp
qed

lemma live_ptrs_push:
  assumes "B b = Some k" "b \<notin> set (fl k)"
  shows "live_ptrs B (fl(k := b # fl k)) = live_ptrs B fl - {b + sizeof_block}"
proof -
  have "{c \<in> dom B. c \<notin> set ((fl(k := b # fl k)) (the (B c)))}
        = {c \<in> dom B. c \<notin> set (fl (the (B c)))} - {b}"
    using assms by (auto split: if_splits)
  then show ?thesis
    unfolding live_ptrs_image by (simp add: image_set_diff inj_on_def)
qed

lemma esl_free_ok:
  assumes "esl_inv e L" "p \<in> L"
  shows "esl_inv (esl_free p e) (L - {p})"
proof -
  from assms obtain B fl where inv: "esl_inv_with e B fl" "L = live_ptrs B fl" "p \<in> live_ptrs B fl"
    by (auto simp: esl_inv_def)
  from inv(3) obtain k where k: "B (p - 16) = Some k" "p - 16 \<notin> set (fl k)" "16 \<le> p"
    by (rule live_ptr_block)
  from esl_inv_with_push [OF inv(1) k(1,2)] live_ptrs_push [of B "p - 16" k fl, OF k(1,2)] k(3) inv(2)
  show ?thesis unfolding esl_inv_def by (auto simp: sizeof_block_def)
qed

lemma esl_inv_nonnull: "esl_inv e L \<Longrightarrow> nullptr \<notin> L"
  by (auto simp: esl_inv_def live_ptrs_def sizeof_block_def)

subsection \<open>Initialisation\<close>

lemma fold_pstore_fields [simp]:
  "poolAddr (fold (\<lambda>i. pstore (f i) v) xs e) = poolAddr e"
  "poolSize (fold (\<lambda>i. pstore (f i) v) xs e) = poolSize e"
  by (induction xs arbitrary: e) auto

lemma fold_pstore_mem:
  "mem (fold (\<lambda>i. pstore (f i) v) xs e) a = (if a \<in> f ` set xs then v else mem e a)"
  by (induction xs arbitrary: e) auto

lemma esl_init_inv:
  assumes "aligned (addr + 648) \<le> addr + sz"
  shows "esl_inv (esl_init addr sz True m) {}"
proof -
  define e where "e = \<lparr>poolAddr = addr, poolSize = sz, mem = m\<rparr>"
  define e1 where "e1 = fold (\<lambda>i. pstore (freelist e i) nullptr) [0..<kMaxBlockSize] e"
  define e' where "e' = pstore addr (aligned (addr + 648)) e1"
  have e': "esl_init addr sz True m = e'"
    by (simp add: esl_init_def e'_def e1_def e_def Let_def sizeof_block_def kMaxBlockSize_def add.commute)
  have f: "poolAddr e' = addr" "poolSize e' = sz" by (simp_all add: e'_def e1_def e_def)
  have top: "esl_top e' = aligned (addr + 648)" by (simp add: esl_top_def f) (simp add: e'_def)
  have base: "esl_base e' = aligned (addr + 648)"
    by (simp add: esl_base_def f sizeof_block_def kMaxBlockSize_def add.commute)
  have "mem e' (freelist e' k) = 0" if "k < kMaxBlockSize" for k
  proof -
    have "freelist e' k = freelist e k" by (simp add: freelist_def f) (simp add: e_def)
    moreover have "freelist e k \<noteq> addr" by (simp add: freelist_def e_def)
    ultimately show ?thesis using that by (simp add: e'_def e1_def fold_pstore_mem)
  qed
  then have "esl_inv_with e' Map.empty (\<lambda>_. [])"
    using assms by (simp add: esl_inv_with_def blocks_ok_def freelists_ok_def top base f)
  then show ?thesis unfolding e' esl_inv_def by (force simp: live_ptrs_def)
qed

subsection \<open>Memory isolation\<close>

lemma esl_inv_live_block:
  assumes "esl_inv_with e B fl" "p \<in> live_ptrs B fl"
  shows "\<exists>k. B (p - 16) = Some k \<and> 16 \<le> p \<and> usable_size e p = 2 ^ k - 16 \<and> p + usable_size e p = p - 16 + 2 ^ k"
proof -
  from assms(2) obtain k where k: "B (p - 16) = Some k" "16 \<le> p" by (rule live_ptr_block)
  with blocks_okD(1) [of e B "p - 16" k] assms(1) have "4 \<le> k" by (simp add: esl_inv_with_def)
  with sixteen_le_pow [of k] k usable_size_block [OF assms(1) k] show ?thesis by auto
qed

lemma esl_inv_disjoint:
  assumes "esl_inv e L" "p \<in> L" "q \<in> L" "p \<noteq> q"
  shows "p + usable_size e p + 16 \<le> q \<or> q + usable_size e q + 16 \<le> p"
proof -
  from assms(1) obtain B fl where inv: "esl_inv_with e B fl" "L = live_ptrs B fl"
    by (auto simp: esl_inv_def)
  from esl_inv_live_block [OF inv(1)] assms(2,3) inv(2) obtain k l where
    *: "B (p - 16) = Some k" "16 \<le> p" "p + usable_size e p = p - 16 + 2 ^ k"
       "B (q - 16) = Some l" "16 \<le> q" "q + usable_size e q = q - 16 + 2 ^ l" by metis
  have "p - 16 \<noteq> q - 16" using assms(4) *(2,5) by linarith
  then have "p - 16 + 2 ^ k \<le> q - 16 \<or> q - 16 + 2 ^ l \<le> p - 16"
    using inv(1) *(1,4) unfolding esl_inv_with_def blocks_ok_def by blast
  then show ?thesis using * by linarith
qed

lemma esl_inv_in_pool:
  assumes "esl_inv e L" "p \<in> L"
  shows "poolAddr e + 648 + 16 < p \<and> p + usable_size e p \<le> poolAddr e + poolSize e"
proof -
  from assms obtain B fl where inv: "esl_inv_with e B fl" "p \<in> live_ptrs B fl"
    by (auto simp: esl_inv_def)
  from esl_inv_live_block [OF this] obtain k where
    k: "B (p - 16) = Some k" "16 \<le> p" "p + usable_size e p = p - 16 + 2 ^ k" by blast
  have bl: "blocks_ok e B" using inv by (simp add: esl_inv_with_def)
  have "poolAddr e + 8 + 16 * 40 < esl_base e"
    using aligned_bounds(1) [of "poolAddr e + 8 + sizeof_block * kMaxBlockSize"]
    by (simp add: esl_base_def sizeof_block_def kMaxBlockSize_def)
  then show ?thesis
    using blocks_okD(3,4) [OF bl k(1)] inv(1) k(2,3) unfolding esl_inv_with_def by linarith
qed

lemma esl_user_write:
  assumes "esl_inv e L" "p \<in> L" "p \<le> a" "a < p + usable_size e p"
  shows "esl_inv (pstore a v e) L"
proof -
  from assms obtain B fl where inv: "esl_inv_with e B fl" "L = live_ptrs B fl" "p \<in> live_ptrs B fl"
    by (auto simp: esl_inv_def)
  from esl_inv_live_block [OF inv(1,3)] obtain k where
    k: "B (p - 16) = Some k" "16 \<le> p" "p + usable_size e p = p - 16 + 2 ^ k" by blast
  have bl: "blocks_ok e B" using inv by (simp add: esl_inv_with_def)
  have lo: "esl_base e + 16 \<le> a" using blocks_okD(3) [OF bl k(1)] assms(3) k(2) by linarith
  have hdr: "a \<noteq> b \<and> a \<noteq> b + 8" if "B b = Some j" for b j
  proof (cases "b = p - 16")
    case True
    then show ?thesis using assms(3) k(2) by auto
  next
    case False
    then have "b + 2 ^ j \<le> p - 16 \<or> p - 16 + 2 ^ k \<le> b"
      using bl that k(1) unfolding blocks_ok_def by blast
    moreover have "16 \<le> (2 :: nat) ^ j" using blocks_okD(1) [OF bl that] by (rule sixteen_le_pow)
    ultimately show ?thesis using assms(3,4) k by linarith
  qed
  have "esl_inv_with (pstore a v e) B fl"
  proof (rule esl_inv_with_frame [OF inv(1)])
    show "mem (pstore a v e) (poolAddr e) = mem e (poolAddr e)"
      using lo poolAddr_below_base [of e] by simp
    show "mem (pstore a v e) (freelist e k) = mem e (freelist e k)" if "k < kMaxBlockSize" for k
      using lo freelist_range(2) [OF that, of e] by simp
    show "mem (pstore a v e) b = mem e b \<and> mem (pstore a v e) (b + 8) = mem e (b + 8)"
      if "B b = Some j" for b j using hdr [OF that] by simp
  qed simp_all
  then show ?thesis using inv(2) unfolding esl_inv_def by blast
qed

text \<open>malloc and free do not touch the bytes of the other objects.\<close>

lemma esl_inv_below_top:
  assumes "esl_inv e L" "p \<in> L"
  shows "p + usable_size e p \<le> esl_top e" "poolAddr e + 664 < p" "\<And>k. k < kMaxBlockSize \<Longrightarrow> freelist e k < p"
proof -
  from assms obtain B fl where inv: "esl_inv_with e B fl" "p \<in> live_ptrs B fl"
    by (auto simp: esl_inv_def)
  from esl_inv_live_block [OF this] obtain k where
    k: "B (p - 16) = Some k" "16 \<le> p" "p + usable_size e p = p - 16 + 2 ^ k" by blast
  have bl: "blocks_ok e B" using inv by (simp add: esl_inv_with_def)
  show "p + usable_size e p \<le> esl_top e" using blocks_okD(4) [OF bl k(1)] k(3) by simp
  show "poolAddr e + 664 < p" using esl_inv_in_pool [OF assms] by simp
  show "freelist e j < p" if "j < kMaxBlockSize" for j
    using blocks_okD(3) [OF bl k(1)] freelist_range(2) [OF that, of e] k(2) by linarith
qed

lemma esl_malloc_frame:
  assumes "esl_inv e L" "unat req \<le> 2 ^ 30 - 16" "esl_malloc req e = (p, e')" "q \<in> L" "q \<le> a" "a < q + usable_size e q"
  shows "mem e' a = mem e a"
proof -
  note b = esl_inv_below_top [OF assms(1,4)]
  note k = malloc_exponent [OF assms(2)]
  have "a \<noteq> freelist e (highestBit (req + of_nat sizeof_block))" "a \<noteq> poolAddr e" "a \<noteq> pload (poolAddr e) e + 8"
    using b(1,2) b(3) [OF k(4)] assms(5,6) by (auto simp: esl_top_def pload_def)
  then show ?thesis using assms(3) by (auto simp: esl_malloc_def Let_def split: if_splits)
qed

lemma esl_free_frame:
  assumes "esl_inv e L" "p \<in> L" "q \<in> L" "q \<noteq> p" "q \<le> a" "a < q + usable_size e q"
  shows "mem (esl_free p e) a = mem e a"
proof -
  from assms(1,2) obtain B fl where inv: "esl_inv_with e B fl" "L = live_ptrs B fl" "p \<in> live_ptrs B fl"
    by (auto simp: esl_inv_def)
  from inv(3) obtain k where k: "B (p - 16) = Some k" "16 \<le> p" by (rule live_ptr_block)
  have bl: "blocks_ok e B" using inv(1) by (simp add: esl_inv_with_def)
  have "p - 16 + 8 = p - 8" using k(2) by simp
  then have "mem e (p - 16 + 8) = k" "k < kMaxBlockSize"
    using blocks_okD(2,5) [OF bl k(1)] by (simp_all add: kMaxBlockSize_def)
  moreover have "a \<noteq> p - 16" using esl_inv_disjoint [OF assms(1,3,2,4)] assms(5,6) k(2) by linarith
  moreover have "a \<noteq> freelist e k" using esl_inv_below_top(3) [OF assms(1,3) \<open>k < kMaxBlockSize\<close>] assms(5) by simp
  ultimately show ?thesis by (auto simp: esl_free_def Let_def pload_def sizeof_block_def)
qed

lemma esl_malloc_pool:
  "esl_malloc req e = (p, e') \<Longrightarrow> poolAddr e' = poolAddr e \<and> poolSize e' = poolSize e"
  by (auto simp: esl_malloc_def Let_def split: if_splits)

lemma esl_free_pool [simp]: "poolAddr (esl_free p e) = poolAddr e" "poolSize (esl_free p e) = poolSize e"
  by (simp_all add: esl_free_def Let_def)

lemma esl_free_usable:
  assumes "esl_inv e L" "p \<in> L" "q \<in> L" "q \<noteq> p"
  shows "usable_size (esl_free p e) q = usable_size e q"
proof -
  from assms(1,2) obtain B fl where inv: "esl_inv_with e B fl" "L = live_ptrs B fl" "p \<in> live_ptrs B fl"
    by (auto simp: esl_inv_def)
  from inv(3) obtain k where k: "B (p - 16) = Some k" "p - 16 \<notin> set (fl k)" "16 \<le> p" by (rule live_ptr_block)
  have "esl_inv_with (esl_free p e) B (fl(k := (p - 16) # fl k))"
    using esl_inv_with_push [OF inv(1) k(1,2)] k(3) by (simp add: sizeof_block_def)
  from usable_size_mono [OF inv(1) this] assms(3) inv(2) show ?thesis by simp
qed

text \<open>malloc answers null only when its class has no free block and the pool no room for one.\<close>

lemma esl_malloc_null_full:
  assumes "unat req \<le> 2 ^ 30 - 16" "esl_malloc req e = (nullptr, e')"
  shows "mem e (freelist e (highestBit (req + 16))) = nullptr
    \<and> poolAddr e + poolSize e < esl_top e + 2 ^ highestBit (req + 16)"
  using assms(2) malloc_exponent(2) [OF assms(1)]
  by (auto simp: esl_malloc_def Let_def sizeof_block_def pload_def esl_top_def ptr_plus_shl1_small split: if_splits)

subsection \<open>EsLoco provides the allocator interface\<close>

definition esl_max_request :: nat where "esl_max_request = 2 ^ 30 - 16"

interpretation esl: pm_allocator esl_malloc esl_free esl_inv esl_max_request
proof unfold_locales
  fix a L p and n :: u64 and a'
  assume "esl_inv a L" "unat n \<le> esl_max_request" "esl_malloc n a = (p, a')" "p \<noteq> nullptr"
  then show "p \<notin> L \<and> esl_inv a' (insert p L)"
    using esl_malloc_ok [of a L n p a'] by (simp add: esl_max_request_def)
qed (simp_all add: esl_malloc_null esl_free_ok esl_inv_nonnull)

subsection \<open>Properties\<close>

definition esl_example :: esloco where "esl_example = esl_init 64 4096 True (\<lambda>_. 0)"

lemma esl_example_inv: "esl_inv esl_example {}"
  unfolding esl_example_def by (rule esl_init_inv) (simp add: aligned_def)

text \<open>
  C20: malloc of at most 2 ^ 30 - 16 bytes. Either it answers null and changes nothing: then the
  size class of the request has no free block and the rest of the pool is too small for a block
  of it. Or it answers a pointer that was not allocated before, whose block has room for the
  bytes asked for. Every other allocation keeps its size and the contents of its bytes, and the
  allocator stays consistent.
\<close>

theorem esl_malloc_correct:
  assumes "esl_inv e L" "unat req \<le> esl_max_request" "esl_malloc req e = (p, e')"
  shows "(if p = nullptr
      then e' = e \<and> mem e (freelist e (highestBit (req + 16))) = nullptr
        \<and> poolAddr e + poolSize e < esl_top e + 2 ^ highestBit (req + 16)
      else p \<notin> L \<and> unat req \<le> usable_size e' p \<and> esl_inv e' (insert p L))
    \<and> (\<forall>q \<in> L. usable_size e' q = usable_size e q \<and> (\<forall>a. q \<le> a \<and> a < q + usable_size e q \<longrightarrow> mem e' a = mem e a))"
proof (cases "p = nullptr")
  case True
  then have "e' = e" using assms(3) esl_malloc_null by simp
  with True assms(2,3) esl_malloc_null_full show ?thesis by (simp add: esl_max_request_def)
next
  case False
  have req: "unat req \<le> 2 ^ 30 - 16" using assms(2) by (simp add: esl_max_request_def)
  from esl_malloc_ok [OF assms(1) req assms(3) False] esl_malloc_frame [OF assms(1) req assms(3)] False
  show ?thesis by simp
qed

lemma esl_example_malloc: "esl_malloc 24 esl_example = (848, snd (esl_malloc 24 esl_example))"
proof -
  have "fst (esl_malloc 24 esl_example) = 848" by code_simp
  then show ?thesis by (metis prod.collapse)
qed

theorem esl_malloc_correct_witness:
  "esl_inv (snd (esl_malloc 24 esl_example)) {848} \<and> 24 \<le> usable_size (snd (esl_malloc 24 esl_example)) 848"
  using esl_malloc_correct [OF esl_example_inv _ esl_example_malloc]
  by (simp add: esl_max_request_def)

text \<open>
  A client of the allocator: it keeps what it has asked for at each pointer it was given, and
  what it last wrote to each address of the objects it still holds.
\<close>

datatype esl_request = Malloc u64 | Free ptr | Write ptr nat nat

record esl_client =
  ec_esl :: esloco
  ec_live :: "ptr \<rightharpoonup> nat"
  ec_written :: "ptr \<rightharpoonup> nat"

fun esl_serve :: "esl_request \<Rightarrow> esl_client \<Rightarrow> esl_client" where
  "esl_serve (Malloc n) c =
     (let (p, e) = esl_malloc n (ec_esl c)
      in c\<lparr>ec_esl := e, ec_live := (if p = nullptr then ec_live c else (ec_live c)(p \<mapsto> unat n))\<rparr>)"
| "esl_serve (Free p) c =
     (case ec_live c p of
        None \<Rightarrow> c
      | Some n \<Rightarrow> \<lparr>ec_esl = esl_free p (ec_esl c), ec_live = (ec_live c)(p := None),
                   ec_written = (\<lambda>a. if p \<le> a \<and> a < p + n then None else ec_written c a)\<rparr>)"
| "esl_serve (Write p off v) c =
     (case ec_live c p of
        None \<Rightarrow> c
      | Some n \<Rightarrow> if off < n then c\<lparr>ec_esl := pstore (p + off) v (ec_esl c), ec_written := (ec_written c)(p + off \<mapsto> v)\<rparr> else c)"

definition esl_start :: "ptr \<Rightarrow> nat \<Rightarrow> (ptr \<Rightarrow> nat) \<Rightarrow> esl_client" where
  "esl_start addr sz m = \<lparr>ec_esl = esl_init addr sz True m, ec_live = Map.empty, ec_written = Map.empty\<rparr>"

fun request_ok :: "esl_request \<Rightarrow> bool" where
  "request_ok (Malloc n) \<longleftrightarrow> unat n \<le> esl_max_request"
| "request_ok _ \<longleftrightarrow> True"

definition client_inv :: "ptr \<Rightarrow> nat \<Rightarrow> esl_client \<Rightarrow> bool" where
  "client_inv addr sz c \<longleftrightarrow> esl_inv (ec_esl c) (dom (ec_live c)) \<and> poolAddr (ec_esl c) = addr \<and> poolSize (ec_esl c) = sz
     \<and> (\<forall>p n. ec_live c p = Some n \<longrightarrow> n \<le> usable_size (ec_esl c) p)
     \<and> (\<forall>a v. ec_written c a = Some v \<longrightarrow> mem (ec_esl c) a = v \<and> (\<exists>p n. ec_live c p = Some n \<and> p \<le> a \<and> a < p + n))"

lemma client_invD:
  assumes "client_inv addr sz c"
  shows "ec_live c q = Some k \<Longrightarrow> k \<le> usable_size (ec_esl c) q \<and> q \<in> dom (ec_live c)"
    "ec_written c a = Some v \<Longrightarrow> mem (ec_esl c) a = v \<and> (\<exists>q k. ec_live c q = Some k \<and> q \<le> a \<and> a < q + k)"
  using assms by (auto simp: client_inv_def)

lemma client_malloc:
  assumes c: "client_inv addr sz c" and n: "unat n \<le> esl_max_request"
  shows "client_inv addr sz (esl_serve (Malloc n) c)"
proof -
  obtain p e where run: "esl_malloc n (ec_esl c) = (p, e)" by fastforce
  have req: "unat n \<le> 2 ^ 30 - 16" using n by (simp add: esl_max_request_def)
  have inv: "esl_inv (ec_esl c) (dom (ec_live c))" using c by (simp add: client_inv_def)
  show ?thesis
  proof (cases "p = nullptr")
    case True
    then have "e = ec_esl c" using run esl_malloc_null by simp
    with True run c show ?thesis by (simp add: client_inv_def)
  next
    case False
    note ok = esl_malloc_ok [OF inv req run False] and fr = esl_malloc_frame [OF inv req run] and pl = esl_malloc_pool [OF run]
    have "mem e a = v \<and> (\<exists>q k. ((ec_live c)(p \<mapsto> unat n)) q = Some k \<and> q \<le> a \<and> a < q + k)" if w: "ec_written c a = Some v" for a v
    proof -
      from w c obtain q k where q: "mem (ec_esl c) a = v" "ec_live c q = Some k" "q \<le> a" "a < q + k" "k \<le> usable_size (ec_esl c) q"
        unfolding client_inv_def by blast
      from fr [of q a] q have "mem e a = v" by (simp add: domI)
      moreover have "q \<noteq> p" using ok q(2) by auto
      ultimately show ?thesis using q by auto
    qed
    moreover have "k \<le> usable_size e q" if "((ec_live c)(p \<mapsto> unat n)) q = Some k" for q k
    proof (cases "q = p")
      case True then show ?thesis using that ok by simp
    next
      case False
      then have "ec_live c q = Some k" using that by simp
      from client_invD(1) [OF c this] ok show ?thesis by auto
    qed
    ultimately show ?thesis using c run ok pl False by (simp add: client_inv_def)
  qed
qed

lemma client_free:
  assumes c: "client_inv addr sz c" and p: "ec_live c p = Some n"
  shows "client_inv addr sz (esl_serve (Free p) c)"
proof -
  have inv: "esl_inv (ec_esl c) (dom (ec_live c))" "p \<in> dom (ec_live c)" using c p by (auto simp: client_inv_def)
  note ok = esl_free_ok [OF inv] and fr = esl_free_frame [OF inv] and us = esl_free_usable [OF inv]
  have "mem (esl_free p (ec_esl c)) a = v \<and> (\<exists>q k. ((ec_live c)(p := None)) q = Some k \<and> q \<le> a \<and> a < q + k)"
    if w: "ec_written c a = Some v" "\<not> (p \<le> a \<and> a < p + n)" for a v
  proof -
    from w(1) c obtain q k where q: "mem (ec_esl c) a = v" "ec_live c q = Some k" "q \<le> a" "a < q + k" "k \<le> usable_size (ec_esl c) q"
      unfolding client_inv_def by blast
    have "q \<noteq> p" using q(2-4) w(2) p by auto
    with fr [of q a] q show ?thesis by (auto simp: domI)
  qed
  moreover have "k \<le> usable_size (esl_free p (ec_esl c)) q" if "((ec_live c)(p := None)) q = Some k" for q k
  proof -
    have q: "q \<noteq> p" "ec_live c q = Some k" using that by (auto split: if_splits)
    from client_invD(1) [OF c q(2)] us [of q] q(1) show ?thesis by auto
  qed
  ultimately show ?thesis using c p ok by (simp add: client_inv_def)
qed

lemma client_write:
  assumes c: "client_inv addr sz c" and p: "ec_live c p = Some n" "off < n"
  shows "client_inv addr sz (esl_serve (Write p off v) c)"
proof -
  have inv: "esl_inv (ec_esl c) (dom (ec_live c))" "p \<in> dom (ec_live c)" "n \<le> usable_size (ec_esl c) p"
    using c p by (auto simp: client_inv_def)
  have hdr: "usable_size (pstore (p + off) v (ec_esl c)) q = usable_size (ec_esl c) q" if "ec_live c q = Some k" for q k
  proof (cases "q = p")
    case True
    have "8 \<le> p" using esl_inv_below_top(2) [OF inv(1,2)] by simp
    then show ?thesis using True by (auto simp: usable_size_def)
  next
    case False
    have q: "q \<in> dom (ec_live c)" using that by blast
    have "p + off \<noteq> q - 8"
      using esl_inv_disjoint [OF inv(1,2) q] False esl_inv_below_top(2) [OF inv(1) q] p(2) inv(3) by linarith
    then show ?thesis by (auto simp: usable_size_def)
  qed
  let ?e = "pstore (p + off) v (ec_esl c)"
  have "mem ?e a = w \<and> (\<exists>q k. ec_live c q = Some k \<and> q \<le> a \<and> a < q + k)"
    if "((ec_written c)(p + off \<mapsto> v)) a = Some w" for a w
  proof (cases "a = p + off")
    case True
    have "ec_live c p = Some n \<and> p \<le> a \<and> a < p + n" using p True by simp
    moreover have "mem ?e a = w" using that True by simp
    ultimately show ?thesis by blast
  next
    case False
    with that client_invD(2) [OF c, of a w] show ?thesis by simp
  qed
  moreover have "k \<le> usable_size ?e q" if "ec_live c q = Some k" for q k
    using client_invD(1) [OF c that] hdr [OF that] by simp
  moreover have "esl_inv ?e (dom (ec_live c))" using esl_user_write [OF inv(1,2), of "p + off" v] inv(3) p(2) by simp
  ultimately show ?thesis using c p by (simp add: client_inv_def)
qed

lemma client_serve: "client_inv addr sz c \<Longrightarrow> request_ok r \<Longrightarrow> client_inv addr sz (esl_serve r c)"
proof (cases r)
  case (Malloc n) then show "client_inv addr sz c \<Longrightarrow> request_ok r \<Longrightarrow> ?thesis" using client_malloc by simp
next
  case (Free p) then show "client_inv addr sz c \<Longrightarrow> request_ok r \<Longrightarrow> ?thesis"
    using client_free by (cases "ec_live c p") auto
next
  case (Write p off v) then show "client_inv addr sz c \<Longrightarrow> request_ok r \<Longrightarrow> ?thesis"
    using client_write by (cases "ec_live c p") auto
qed

lemma client_run:
  "client_inv addr sz c \<Longrightarrow> list_all request_ok rs \<Longrightarrow> client_inv addr sz (fold esl_serve rs c)"
  by (induction rs arbitrary: c) (auto simp: client_serve)

text \<open>
  C21: objects are isolated. A client starts on a freshly cleared pool with room for the
  metadata and makes any sequence of calls of malloc (of at most 2 ^ 30 - 16 bytes each) and
  free and of writes into the bytes it has asked for. Then every object it holds lies inside the
  pool above the allocator's metadata, no two of them overlap, and every address of theirs
  holds what the client last wrote there: neither malloc nor free nor a write to another object
  has changed it.
\<close>

theorem esl_objects_isolated:
  assumes "aligned (addr + 648) \<le> addr + sz" "list_all request_ok rs"
  shows "let c = fold esl_serve rs (esl_start addr sz m) in
     (\<forall>p n. ec_live c p = Some n \<longrightarrow> addr + 648 < p \<and> p + n \<le> addr + sz
        \<and> (\<forall>q k. ec_live c q = Some k \<and> q \<noteq> p \<longrightarrow> p + n \<le> q \<or> q + k \<le> p))
     \<and> (\<forall>a v. ec_written c a = Some v \<longrightarrow> mem (ec_esl c) a = v)"
proof -
  have "client_inv addr sz (esl_start addr sz m)"
    using esl_init_inv [OF assms(1)] by (simp add: client_inv_def esl_start_def) (simp add: esl_init_def Let_def)
  from client_run [OF this assms(2)] have c: "client_inv addr sz (fold esl_serve rs (esl_start addr sz m))" .
  let ?c = "fold esl_serve rs (esl_start addr sz m)"
  have inv: "esl_inv (ec_esl ?c) (dom (ec_live ?c))" "poolAddr (ec_esl ?c) = addr" "poolSize (ec_esl ?c) = sz"
    "\<And>p n. ec_live ?c p = Some n \<Longrightarrow> n \<le> usable_size (ec_esl ?c) p" using c by (simp_all add: client_inv_def)
  have "addr + 648 < p \<and> p + n \<le> addr + sz \<and> (\<forall>q k. ec_live ?c q = Some k \<and> q \<noteq> p \<longrightarrow> p + n \<le> q \<or> q + k \<le> p)"
    if p: "ec_live ?c p = Some n" for p n
  proof (intro conjI allI impI)
    have d: "p \<in> dom (ec_live ?c)" using p by blast
    show "addr + 648 < p" "p + n \<le> addr + sz" using esl_inv_in_pool [OF inv(1) d] inv(2,3) inv(4) [OF p] by simp_all
    fix q k assume q: "ec_live ?c q = Some k \<and> q \<noteq> p"
    then have "q \<in> dom (ec_live ?c)" by blast
    from esl_inv_disjoint [OF inv(1) d this] q inv(4) [OF p] inv(4) [of q k] show "p + n \<le> q \<or> q + k \<le> p" by fastforce
  qed
  moreover have "mem (ec_esl ?c) a = v" if "ec_written ?c a = Some v" for a v using c that by (simp add: client_inv_def)
  ultimately show ?thesis by (simp add: Let_def)
qed

definition ex_requests :: "esl_request list" where
  "ex_requests = [Malloc 24, Malloc 100, Write 848 8 7, Free 912, Malloc 90, Malloc 40]"

theorem esl_objects_isolated_witness:
  "mem (ec_esl (fold esl_serve ex_requests (esl_start 64 4096 (\<lambda>_. 0)))) 856 = 7"
proof -
  have w: "ec_written (fold esl_serve ex_requests (esl_start 64 4096 (\<lambda>_. 0))) 856 = Some 7" by code_simp
  have "aligned (64 + 648) \<le> 64 + 4096" "list_all request_ok ex_requests"
    by (simp_all add: aligned_def ex_requests_def esl_max_request_def)
  from esl_objects_isolated [OF this, of "\<lambda>_. 0"] w show ?thesis unfolding Let_def by blast
qed

text \<open>
  Free followed by a malloc of the same size class hands the same object out again: the
  free lists are last-in first-out, the pool does not grow and the set of allocated pointers
  is what it was.
\<close>

theorem esl_free_malloc_reuse:
  assumes "esl_inv e L" "p \<in> L" "highestBit (req + 16) = mem e (p - 8)"
  shows "\<exists>e'. esl_malloc req (esl_free p e) = (p, e') \<and> esl_inv e' L \<and> esl_top e' = esl_top e"
proof -
  from assms(1,2) obtain B fl where inv: "esl_inv_with e B fl" "L = live_ptrs B fl" "p \<in> live_ptrs B fl"
    by (auto simp: esl_inv_def)
  from inv(3) obtain k where k: "B (p - 16) = Some k" "p - 16 \<notin> set (fl k)" "16 \<le> p"
    by (rule live_ptr_block)
  have bl: "blocks_ok e B" using inv(1) by (simp add: esl_inv_with_def)
  have pe: "p - 16 + sizeof_block = p" "p - 16 + 8 = p - 8" using k(3) by (simp_all add: sizeof_block_def)
  have hk: "mem e (p - 8) = k" and kM: "k < kMaxBlockSize"
    using blocks_okD(2,5) [OF bl k(1)] pe(2) by (simp_all add: kMaxBlockSize_def)
  define e1 where "e1 = esl_free p e"
  have inv1: "esl_inv_with e1 B (fl(k := (p - 16) # fl k))"
    using esl_inv_with_push [OF inv(1) k(1,2)] unfolding pe(1) e1_def .
  have pos: "p - 16 \<noteq> nullptr" using blocks_okD(3) [OF bl k(1)] poolAddr_below_base [of e] by linarith
  have pools: "poolAddr e1 = poolAddr e" by (simp add: e1_def esl_free_def Let_def)
  have head: "mem e1 (freelist e1 k) = p - 16"
    using inv1 kM unfolding esl_inv_with_def freelists_ok_def by (metis chain.simps(2) fun_upd_same)
  from esl_inv_with_pop [OF inv1 kM head pos]
  have inv2: "esl_inv_with (pstore (freelist e1 k) (mem e1 (p - 16)) e1) B fl"
    by (metis fun_upd_same fun_upd_triv fun_upd_upd list.sel(3))
  have run: "esl_malloc req e1 = (p, pstore (freelist e1 k) (mem e1 (p - 16)) e1)"
    using assms(3) head pos pe(1) by (simp add: esl_malloc_def hk pload_def sizeof_block_def)
  have "esl_top e1 = esl_top e"
    using freelist_range(1) [OF kM, of e] freelist_not_block(3) [OF bl k(1) kM] hk k(3)
    unfolding e1_def esl_free_def by (simp add: esl_top_def Let_def sizeof_block_def pload_def)
  then have "esl_top (pstore (freelist e1 k) (mem e1 (p - 16)) e1) = esl_top e"
    using freelist_range(1) [OF kM, of e1] by (simp add: esl_top_def)
  with run inv2 inv(2) show ?thesis unfolding e1_def esl_inv_def by blast
qed

theorem esl_free_malloc_reuse_witness:
  "\<exists>e'. esl_malloc 40 (esl_free 848 (snd (esl_malloc 24 esl_example))) = (848, e') \<and> esl_inv e' {848}"
proof -
  have inv: "esl_inv (snd (esl_malloc 24 esl_example)) {848}"
    using esl_malloc_ok [OF esl_example_inv _ esl_example_malloc] by simp
  have "highestBit (40 + 16) = mem (snd (esl_malloc 24 esl_example)) (848 - 8)" by code_simp
  from esl_free_malloc_reuse [OF inv _ this] show ?thesis by auto
qed

text \<open>
  The size class of a request is the least power of two that holds it, header included,
  as long as that fits the 32-bit shift 1<<b; one byte more than 2^31 and the class chosen
  is too small, and the signed offset makes malloc move the top of the pool down by 2 GiB.
\<close>

theorem esl_size_class:
  "(0 < unat v \<and> unat v \<le> 2 ^ 30 \<longrightarrow>
      unat v \<le> 2 ^ highestBit v \<and> (\<forall>k. unat v \<le> 2 ^ k \<longrightarrow> highestBit v \<le> k))
   \<and> 2 ^ highestBit (0x80000001 :: u64) < unat (0x80000001 :: u64)
   \<and> ptr_plus_shl1 0x7fddc0000400 (highestBit (0x80000001 :: u64)) = 0x7fddc0000400 - 2 ^ 31"
proof (intro conjI)
  show "0 < unat v \<and> unat v \<le> 2 ^ 30 \<longrightarrow>
      unat v \<le> 2 ^ highestBit v \<and> (\<forall>k. unat v \<le> 2 ^ k \<longrightarrow> highestBit v \<le> k)"
    using highestBit_least by blast
  have hb: "highestBit (0x80000001 :: u64) = 31" by code_simp
  show "2 ^ highestBit (0x80000001 :: u64) < unat (0x80000001 :: u64)" by (simp add: hb)
  show "ptr_plus_shl1 0x7fddc0000400 (highestBit (0x80000001 :: u64)) = 0x7fddc0000400 - 2 ^ 31"
    by (simp add: hb ptr_plus_shl1_def int_shl1_def)
qed

theorem esl_size_class_witness: "unat (56 :: u64) \<le> 2 ^ highestBit 56 \<and> highestBit 56 \<le> 6"
  using esl_size_class [of 56] by simp

text \<open>
  reset is documented to restore the defaults, but it leaves the top of the pool at the null
  pointer, so the next malloc carves its block from address 0, outside the pool.
\<close>

lemma esl_reset_leaves_pool:
  "fst (esl_malloc 24 (esl_reset esl_example)) = 16 \<and> 16 < poolAddr (esl_reset esl_example)"
  by code_simp

end
