(* ===== verification/TMHeap.thy ===== *)
theory TMHeap
  imports Allocator
begin

text \<open>
  The heap a transactional data structure lives in. The C++ classes are templates over a
  persistent transactional memory TM; what they use of it is tmNew, tmDelete, pmalloc, pfree
  and interposed loads and stores. The model passes TM as a record of its two allocator
  entry points and keeps the typed objects in maps from addresses, next to the allocator's
  own state. A failed assertion, a load or store through a pointer to no object, and a loop
  that does not end are all the value None.
\<close>

record 'a tm =
  tm_malloc :: "u64 \<Rightarrow> 'a \<Rightarrow> ptr \<times> 'a"
  tm_free :: "ptr \<Rightarrow> 'a \<Rightarrow> 'a"

record ('n, 'a) tmheap =
  nodes :: "ptr \<rightharpoonup> 'n"
  arrays :: "ptr \<rightharpoonup> ptr option list"
  pool :: 'a

subsection \<open>Allocation (RedoOpt::tmNew, tmDelete, pmalloc, pfree)\<close>

definition tmNew :: "'a tm \<Rightarrow> u64 \<Rightarrow> 'n \<Rightarrow> ('n, 'a) tmheap \<Rightarrow> (ptr \<times> ('n, 'a) tmheap) option" where
  "tmNew TM sz obj h =
     (let (addr, a') = tm_malloc TM sz (pool h)
      in if addr \<noteq> nullptr
         then Some (addr, h\<lparr>nodes := (nodes h)(addr \<mapsto> obj), pool := a'\<rparr>)
         else None)"

definition tmDelete :: "'a tm \<Rightarrow> ptr \<Rightarrow> ('n, 'a) tmheap \<Rightarrow> ('n, 'a) tmheap option" where
  "tmDelete TM obj h =
     (if obj = nullptr then Some h
      else if obj \<in> dom (nodes h)
      then Some (h\<lparr>nodes := (nodes h)(obj := None), pool := tm_free TM obj (pool h)\<rparr>)
      else None)"

text \<open>
  Arrays of node pointers. The size is in bytes; the entries hold no value until they are
  stored to (None), and a load of such an entry has no defined result.
\<close>

definition pmalloc :: "'a tm \<Rightarrow> u64 \<Rightarrow> ('n, 'a) tmheap \<Rightarrow> (ptr \<times> ('n, 'a) tmheap) option" where
  "pmalloc TM sz h =
     (let (addr, a') = tm_malloc TM sz (pool h)
      in if addr \<noteq> nullptr
         then Some (addr, h\<lparr>arrays := (arrays h)(addr \<mapsto> replicate (unat sz div 8) None), pool := a'\<rparr>)
         else None)"

definition pfree :: "'a tm \<Rightarrow> ptr \<Rightarrow> ('n, 'a) tmheap \<Rightarrow> ('n, 'a) tmheap option" where
  "pfree TM p h =
     (if p = nullptr then Some h
      else if p \<in> dom (arrays h)
      then Some (h\<lparr>arrays := (arrays h)(p := None), pool := tm_free TM p (pool h)\<rparr>)
      else None)"

subsection \<open>Loads and stores\<close>

definition load :: "('n \<Rightarrow> 'f) \<Rightarrow> ptr \<Rightarrow> ('n, 'a) tmheap \<Rightarrow> 'f option" where
  "load f p h = map_option f (nodes h p)"

definition store :: "('n \<Rightarrow> 'n) \<Rightarrow> ptr \<Rightarrow> ('n, 'a) tmheap \<Rightarrow> ('n, 'a) tmheap option" where
  "store g p h = map_option (\<lambda>n. h\<lparr>nodes := (nodes h)(p \<mapsto> g n)\<rparr>) (nodes h p)"

definition load_arr :: "ptr \<Rightarrow> nat \<Rightarrow> ('n, 'a) tmheap \<Rightarrow> ptr option" where
  "load_arr p i h =
     (case arrays h p of None \<Rightarrow> None | Some xs \<Rightarrow> if i < length xs then xs ! i else None)"

definition store_arr :: "ptr \<Rightarrow> nat \<Rightarrow> ptr \<Rightarrow> ('n, 'a) tmheap \<Rightarrow> ('n, 'a) tmheap option" where
  "store_arr p i v h =
     (case arrays h p of None \<Rightarrow> None
      | Some xs \<Rightarrow> if i < length xs
                  then Some (h\<lparr>arrays := (arrays h)(p \<mapsto> xs[i := Some v])\<rparr>) else None)"

lemma load_Some [heap_simps]: "nodes h p = Some n \<Longrightarrow> load f p h = Some (f n)"
  by (simp add: load_def)

lemma store_Some [heap_simps]:
  "nodes h p = Some n \<Longrightarrow> store g p h = Some (h\<lparr>nodes := (nodes h)(p \<mapsto> g n)\<rparr>)"
  by (simp add: store_def)

lemma load_arr_Some [heap_simps]:
  "arrays h p = Some xs \<Longrightarrow> i < length xs \<Longrightarrow> load_arr p i h = xs ! i"
  by (simp add: load_arr_def)

lemma store_arr_Some [heap_simps]:
  "arrays h p = Some xs \<Longrightarrow> i < length xs \<Longrightarrow>
     store_arr p i v h = Some (h\<lparr>arrays := (arrays h)(p \<mapsto> xs[i := Some v])\<rparr>)"
  by (simp add: store_arr_def)

subsection \<open>A heap whose allocator agrees with its objects\<close>

definition heap_ok :: "('a \<Rightarrow> ptr set \<Rightarrow> bool) \<Rightarrow> ('n, 'a) tmheap \<Rightarrow> bool" where
  "heap_ok ainv h \<longleftrightarrow>
     ainv (pool h) (dom (nodes h) \<union> dom (arrays h)) \<and> dom (nodes h) \<inter> dom (arrays h) = {}"

lemma dom_upd_same: "m p = Some n \<Longrightarrow> dom (m(p \<mapsto> n')) = dom m"
  by auto

lemma heap_ok_upd [heap_simps]:
  "nodes h p = Some n \<Longrightarrow> heap_ok ainv (h\<lparr>nodes := (nodes h)(p \<mapsto> n')\<rparr>) = heap_ok ainv h"
  by (simp add: heap_ok_def dom_upd_same del: dom_fun_upd)

lemma heap_ok_upd_arr [heap_simps]:
  "arrays h p = Some n \<Longrightarrow> heap_ok ainv (h\<lparr>arrays := (arrays h)(p \<mapsto> n')\<rparr>) = heap_ok ainv h"
  by (simp add: heap_ok_def dom_upd_same del: dom_fun_upd)

lemma heap_ok_cong:
  "heap_ok ainv h \<Longrightarrow> dom (nodes h') = dom (nodes h) \<Longrightarrow> dom (arrays h') = dom (arrays h) \<Longrightarrow>
     pool h' = pool h \<Longrightarrow> heap_ok ainv h'"
  by (simp add: heap_ok_def)

lemma heap_ok_store:
  "heap_ok ainv h \<Longrightarrow> store g p h = Some h' \<Longrightarrow> heap_ok ainv h'"
  by (auto simp: store_def heap_ok_upd)

text \<open>The allocator laws lifted to the typed heap, once for every client.\<close>

locale tm_alloc = pm_allocator "tm_malloc TM" "tm_free TM" ainv max_request
  for TM :: "'a tm" and ainv :: "'a \<Rightarrow> ptr set \<Rightarrow> bool" and max_request :: nat
begin

lemma tmNew_ok:
  assumes "heap_ok ainv h" "unat sz \<le> max_request" "tmNew TM sz obj h = Some (p, h')"
  shows "heap_ok ainv h'" "nodes h' = (nodes h)(p \<mapsto> obj)" "arrays h' = arrays h"
    "nodes h p = None" "arrays h p = None" "p \<noteq> nullptr"
proof -
  from assms(3) obtain a' where m: "tm_malloc TM sz (pool h) = (p, a')" "p \<noteq> nullptr"
    and h': "h' = h\<lparr>nodes := (nodes h)(p \<mapsto> obj), pool := a'\<rparr>"
    by (auto simp: tmNew_def Let_def split: prod.splits if_splits)
  from malloc_fresh [OF _ assms(2) m] assms(1)
  have fresh: "p \<notin> dom (nodes h) \<union> dom (arrays h)"
    and inv: "ainv a' (insert p (dom (nodes h) \<union> dom (arrays h)))"
    by (auto simp: heap_ok_def)
  show "heap_ok ainv h'" using fresh inv assms(1) by (auto simp: h' heap_ok_def)
  show "nodes h' = (nodes h)(p \<mapsto> obj)" "arrays h' = arrays h" by (simp_all add: h')
  show "nodes h p = None" "arrays h p = None" using fresh by auto
  show "p \<noteq> nullptr" by (fact m(2))
qed

lemma tmNew_fails:
  "tmNew TM sz obj h = None \<longleftrightarrow> fst (tm_malloc TM sz (pool h)) = nullptr"
  by (auto simp: tmNew_def Let_def split: prod.splits)

lemma tmDelete_ok:
  assumes "heap_ok ainv h" "nodes h p = Some n"
  shows "\<exists>h'. tmDelete TM p h = Some h' \<and> heap_ok ainv h' \<and> nodes h' = (nodes h)(p := None)
          \<and> arrays h' = arrays h"
proof -
  from assms have L: "ainv (pool h) (dom (nodes h) \<union> dom (arrays h))"
    and "p \<in> dom (nodes h) \<union> dom (arrays h)" and disj: "dom (nodes h) \<inter> dom (arrays h) = {}"
    by (auto simp: heap_ok_def)
  from free_live [OF L this(2)] null_not_live [OF L] disj assms(2) show ?thesis
    by (auto simp: tmDelete_def heap_ok_def Un_Diff Diff_triv
        elim!: back_subst [where P = "ainv _"])
qed

lemma pmalloc_ok:
  assumes "heap_ok ainv h" "unat sz \<le> max_request" "pmalloc TM sz h = Some (p, h')"
  shows "heap_ok ainv h'" "nodes h' = nodes h"
    "arrays h' = (arrays h)(p \<mapsto> replicate (unat sz div 8) None)"
    "nodes h p = None" "arrays h p = None" "p \<noteq> nullptr"
proof -
  from assms(3) obtain a' where m: "tm_malloc TM sz (pool h) = (p, a')" "p \<noteq> nullptr"
    and h': "h' = h\<lparr>arrays := (arrays h)(p \<mapsto> replicate (unat sz div 8) None), pool := a'\<rparr>"
    by (auto simp: pmalloc_def Let_def split: prod.splits if_splits)
  from malloc_fresh [OF _ assms(2) m] assms(1)
  have fresh: "p \<notin> dom (nodes h) \<union> dom (arrays h)"
    and inv: "ainv a' (insert p (dom (nodes h) \<union> dom (arrays h)))"
    by (auto simp: heap_ok_def)
  show "heap_ok ainv h'" using fresh inv assms(1) by (auto simp: h' heap_ok_def)
  show "nodes h' = nodes h" "arrays h' = (arrays h)(p \<mapsto> replicate (unat sz div 8) None)"
    by (simp_all add: h')
  show "nodes h p = None" "arrays h p = None" using fresh by auto
  show "p \<noteq> nullptr" by (fact m(2))
qed

lemma pmalloc_fails:
  "pmalloc TM sz h = None \<longleftrightarrow> fst (tm_malloc TM sz (pool h)) = nullptr"
  by (auto simp: pmalloc_def Let_def split: prod.splits)

lemma pfree_ok:
  assumes "heap_ok ainv h" "arrays h p = Some xs"
  shows "\<exists>h'. pfree TM p h = Some h' \<and> heap_ok ainv h' \<and> arrays h' = (arrays h)(p := None)
          \<and> nodes h' = nodes h"
proof -
  from assms have L: "ainv (pool h) (dom (nodes h) \<union> dom (arrays h))"
    and "p \<in> dom (nodes h) \<union> dom (arrays h)" and disj: "dom (nodes h) \<inter> dom (arrays h) = {}"
    by (auto simp: heap_ok_def)
  from free_live [OF L this(2)] null_not_live [OF L] disj assms(2) show ?thesis
    by (auto simp: pfree_def heap_ok_def Un_Diff Diff_triv
        elim!: back_subst [where P = "ainv _"])
qed

end

end
