(* ===== verification/EsHeap.thy ===== *)
theory EsHeap
  imports TMHeap EsLoco
begin

text \<open>
  The typed heap on the allocator of the repository: a transactional memory whose malloc and
  free are those of common/EsLoco.hpp (the build with USE_ESLOCO).
\<close>

definition esl_tm :: "esloco tm" where
  "esl_tm = \<lparr>tm_malloc = esl_malloc, tm_free = esl_free\<rparr>"

interpretation eslh: tm_alloc esl_tm esl_inv esl_max_request
  by unfold_locales
    (simp_all add: esl_tm_def esl.malloc_fresh esl.malloc_null esl.free_live esl.null_not_live)

definition esl_heap :: "('n, esloco) tmheap" where
  "esl_heap = \<lparr>nodes = Map.empty, arrays = Map.empty, pool = esl_example\<rparr>"

lemma esl_heap_ok: "heap_ok esl_inv esl_heap" "nodes esl_heap = Map.empty" "arrays esl_heap = Map.empty"
  by (simp_all add: heap_ok_def esl_heap_def esl_example_inv)

end
