(* ===== verification/LinkedSeg.thy ===== *)
theory LinkedSeg
  imports TMHeap
begin

text \<open>
  Singly linked chains of nodes in a heap, generic in the node type: a segment lists the
  addresses from a first pointer up to (and not including) a last one. The linked-list set,
  the queues, the hash maps and the skip list state their invariants with it.
\<close>

primrec lseg :: "('n \<Rightarrow> ptr) \<Rightarrow> (ptr \<rightharpoonup> 'n) \<Rightarrow> ptr \<Rightarrow> ptr list \<Rightarrow> ptr \<Rightarrow> bool" where
  "lseg nx m p [] q \<longleftrightarrow> p = q"
| "lseg nx m p (x # xs) q \<longleftrightarrow> x = p \<and> (case m p of None \<Rightarrow> False | Some n \<Rightarrow> lseg nx m (nx n) xs q)"

lemma lseg_append [simp]:
  "lseg nx m p (xs @ ys) q \<longleftrightarrow> (\<exists>r. lseg nx m p xs r \<and> lseg nx m r ys q)"
  by (induction xs arbitrary: p) (auto split: option.splits)

lemma lseg_dom: "lseg nx m p xs q \<Longrightarrow> set xs \<subseteq> dom m"
  by (induction xs arbitrary: p) (auto split: option.splits)

lemma lseg_Cons_Some: "m p = Some n \<Longrightarrow> lseg nx m p (x # xs) q \<longleftrightarrow> x = p \<and> lseg nx m (nx n) xs q"
  by simp

lemma lseg_cong:
  "(\<And>x. x \<in> set xs \<Longrightarrow> m x = m' x) \<Longrightarrow> lseg nx m p xs q = lseg nx m' p xs q"
  by (induction xs arbitrary: p) (auto split: option.splits)

lemma lseg_upd [simp]: "a \<notin> set xs \<Longrightarrow> lseg nx (m(a := v)) p xs q = lseg nx m p xs q"
  by (rule lseg_cong) auto

text \<open>An update that keeps the link of a node keeps every segment.\<close>

lemma lseg_same_link:
  "m a = Some n \<Longrightarrow> nx n' = nx n \<Longrightarrow> lseg nx (m(a \<mapsto> n')) p xs q = lseg nx m p xs q"
  by (induction xs arbitrary: p) (auto split: option.splits)

lemma lseg_end_unique: "lseg nx m p xs q \<Longrightarrow> lseg nx m p xs r \<Longrightarrow> q = r"
  by (induction xs arbitrary: p) (auto split: option.splits)

lemma lseg_snoc:
  "lseg nx m p (xs @ [x]) q \<longleftrightarrow> lseg nx m p xs x \<and> (case m x of None \<Rightarrow> False | Some n \<Rightarrow> nx n = q)"
  by (auto split: option.splits)

text \<open>Relinking the last node of a segment moves its end.\<close>

lemma lseg_relink_last:
  assumes "lseg nx m p (xs @ [x]) q" "x \<notin> set xs" "nx n' = r"
  shows "lseg nx (m(x \<mapsto> n')) p (xs @ [x]) r"
  using assms by (auto split: option.splits)

lemma lseg_hd: "lseg nx m p xs q \<Longrightarrow> xs \<noteq> [] \<Longrightarrow> hd xs = p"
  by (cases xs) auto


text \<open>Insertion and deletion behind a node in the middle of a segment.\<close>

lemma lseg_next:
  "lseg nx m a (xs @ x # ys) t \<Longrightarrow> m x = Some n \<Longrightarrow> nx n = hd (ys @ [t])"
  by (cases ys) (auto split: option.splits)

lemma lseg_insert_after:
  assumes "lseg nx m a (xs @ x # ys) t" "m x = Some n" "distinct (xs @ x # ys)"
    "p \<notin> set (xs @ x # ys)" "nx n1 = p" "nx n2 = nx n"
  shows "lseg nx (m(x \<mapsto> n1, p \<mapsto> n2)) a (xs @ x # p # ys) t"
  using assms by (cases ys) (auto split: option.splits)

lemma lseg_remove_after:
  assumes "lseg nx m a (xs @ x # y # ys) t" "m y = Some ny" "distinct (xs @ x # y # ys)" "nx n1 = nx ny"
  shows "lseg nx (m(x \<mapsto> n1, y := v)) a (xs @ x # ys) t"
  using assms by (cases ys) (auto split: option.splits)

text \<open>The values of a field along a list of nodes.\<close>

definition field_seq :: "('n \<Rightarrow> 'f) \<Rightarrow> (ptr \<rightharpoonup> 'n) \<Rightarrow> ptr list \<Rightarrow> 'f option list" where
  "field_seq f m ps = map (\<lambda>p. map_option f (m p)) ps"

lemma field_seq_simps [simp]:
  "field_seq f m [] = []" "field_seq f m (p # ps) = map_option f (m p) # field_seq f m ps"
  "field_seq f m (ps @ qs) = field_seq f m ps @ field_seq f m qs"
  by (simp_all add: field_seq_def)

lemma field_seq_Nil_iff [simp]: "field_seq f m ps = [] \<longleftrightarrow> ps = []"
  by (simp add: field_seq_def)

lemma field_seq_upd [simp]: "a \<notin> set ps \<Longrightarrow> field_seq f (m(a := v)) ps = field_seq f m ps"
  by (simp add: field_seq_def)

lemma field_seq_same:
  "m a = Some n \<Longrightarrow> f n' = f n \<Longrightarrow> field_seq f (m(a \<mapsto> n')) ps = field_seq f m ps"
  by (simp add: field_seq_def)

end
