(* ===== verification/SetContract.thy ===== *)
theory SetContract
  imports PTM_Prelude
begin

text \<open>
  What every set of the library promises: add, remove and contains behave as insertion,
  deletion and membership of an abstract set, and fail only when memory runs out. The client
  is a thread that issues a sequence of requests (and addAll, which issues additions).
\<close>

datatype 'k set_op = Add 'k | Remove 'k | Contains 'k

text \<open>The sequential specification: the results a sequence of requests must return.\<close>

fun set_step :: "'k set_op \<Rightarrow> 'k set \<Rightarrow> bool \<times> 'k set" where
  "set_step (Add k) A = (k \<notin> A, insert k A)"
| "set_step (Remove k) A = (k \<in> A, A - {k})"
| "set_step (Contains k) A = (k \<in> A, A)"

fun set_run :: "'k set_op list \<Rightarrow> 'k set \<Rightarrow> bool list \<times> 'k set" where
  "set_run [] A = ([], A)"
| "set_run (x # xs) A =
     (let (r, A1) = set_step x A; (rs, A2) = set_run xs A1 in (r # rs, A2))"

text \<open>The same requests on an implementation.\<close>

fun impl_step ::
  "('k \<Rightarrow> 's \<Rightarrow> (bool \<times> 's) option) \<Rightarrow> ('k \<Rightarrow> 's \<Rightarrow> (bool \<times> 's) option) \<Rightarrow> ('k \<Rightarrow> 's \<Rightarrow> bool option)
    \<Rightarrow> 'k set_op \<Rightarrow> 's \<Rightarrow> (bool \<times> 's) option" where
  "impl_step add rem con (Add k) s = add k s"
| "impl_step add rem con (Remove k) s = rem k s"
| "impl_step add rem con (Contains k) s = map_option (\<lambda>b. (b, s)) (con k s)"

fun impl_run ::
  "('k \<Rightarrow> 's \<Rightarrow> (bool \<times> 's) option) \<Rightarrow> ('k \<Rightarrow> 's \<Rightarrow> (bool \<times> 's) option) \<Rightarrow> ('k \<Rightarrow> 's \<Rightarrow> bool option)
    \<Rightarrow> 'k set_op list \<Rightarrow> 's \<Rightarrow> (bool list \<times> 's) option" where
  "impl_run add rem con [] s = Some ([], s)"
| "impl_run add rem con (x # xs) s =
     do { (r, s1) \<leftarrow> impl_step add rem con x s;
          (rs, s2) \<leftarrow> impl_run add rem con xs s1;
          Some (r # rs, s2) }"

text \<open>addAll: add every key of an array, ignore the results.\<close>

fun addAll :: "('k \<Rightarrow> 's \<Rightarrow> (bool \<times> 's) option) \<Rightarrow> 'k list \<Rightarrow> 's \<Rightarrow> (bool \<times> 's) option" where
  "addAll add [] s = Some (True, s)"
| "addAll add (k # ks) s = do { (_, s1) \<leftarrow> add k s; addAll add ks s1 }"

locale set_contract =
  fixes rep :: "'s \<Rightarrow> 'k set \<Rightarrow> bool"
    and valid :: "'k \<Rightarrow> bool"
    and room :: "'k \<Rightarrow> 's \<Rightarrow> bool"
    and add :: "'k \<Rightarrow> 's \<Rightarrow> (bool \<times> 's) option"
    and rem :: "'k \<Rightarrow> 's \<Rightarrow> (bool \<times> 's) option"
    and con :: "'k \<Rightarrow> 's \<Rightarrow> bool option"
  assumes add_correct: "rep s A \<Longrightarrow> valid k \<Longrightarrow> add k s = Some (r, s') \<Longrightarrow> r = (k \<notin> A) \<and> rep s' (insert k A)"
    and add_returns: "rep s A \<Longrightarrow> valid k \<Longrightarrow> room k s \<Longrightarrow> add k s \<noteq> None"
    and rem_correct: "rep s A \<Longrightarrow> \<exists>s'. rem k s = Some (k \<in> A, s') \<and> rep s' (A - {k})"
    and con_correct: "rep s A \<Longrightarrow> con k s = Some (k \<in> A)"
begin

lemma step_correct:
  assumes "rep s A" "\<forall>k. x = Add k \<longrightarrow> valid k" "impl_step add rem con x s = Some (r, s')"
  shows "r = fst (set_step x A) \<and> rep s' (snd (set_step x A))"
proof (cases x)
  case (Add k) with assms add_correct show ?thesis by auto
next
  case (Remove k) with assms rem_correct [OF assms(1), of k] show ?thesis by auto
next
  case (Contains k) with assms con_correct [OF assms(1), of k] show ?thesis by auto
qed

lemma run_correct:
  "rep s A \<Longrightarrow> \<forall>k. Add k \<in> set xs \<longrightarrow> valid k \<Longrightarrow> impl_run add rem con xs s = Some (rs, s') \<Longrightarrow>
     rs = fst (set_run xs A) \<and> rep s' (snd (set_run xs A))"
proof (induction xs arbitrary: s A rs)
  case Nil then show ?case by simp
next
  case (Cons x xs)
  from Cons.prems(3) obtain r s1 rs1 where
    st: "impl_step add rem con x s = Some (r, s1)" and
    run: "impl_run add rem con xs s1 = Some (rs1, s')" and rs: "rs = r # rs1"
    by (auto simp: ret_simps)
  have valid: "\<forall>k. x = Add k \<longrightarrow> valid k" "\<forall>k. Add k \<in> set xs \<longrightarrow> valid k" using Cons.prems(2) by auto
  from step_correct [OF Cons.prems(1) valid(1) st] have "r = fst (set_step x A)" "rep s1 (snd (set_step x A))"
    by auto
  with Cons.IH [OF this(2) valid(2) run] rs show ?case by (auto simp: Let_def split: prod.splits)
qed

text \<open>A sequence of requests stops early only at an addition that finds no memory.\<close>

lemma run_stuck:
  "rep s A \<Longrightarrow> \<forall>k. Add k \<in> set xs \<longrightarrow> valid k \<Longrightarrow> impl_run add rem con xs s = None \<Longrightarrow>
     \<exists>ys k zs rs s1. xs = ys @ Add k # zs \<and> impl_run add rem con ys s = Some (rs, s1) \<and> \<not> room k s1"
proof (induction xs arbitrary: s A)
  case Nil then show ?case by simp
next
  case (Cons x xs)
  have valid: "\<forall>k. x = Add k \<longrightarrow> valid k" "\<forall>k. Add k \<in> set xs \<longrightarrow> valid k" using Cons.prems(2) by auto
  show ?case
  proof (cases "impl_step add rem con x s")
    case None
    obtain k where x: "x = Add k"
      using None rem_correct [OF Cons.prems(1)] con_correct [OF Cons.prems(1)]
      by (cases x) (auto, metis option.distinct(1))
    with None have "add k s = None" by simp
    with add_returns [OF Cons.prems(1)] valid(1) x have "\<not> room k s" by blast
    then show ?thesis by (intro exI [of _ "[]"]) (simp add: x)
  next
    case (Some y)
    obtain r s1 where y: "y = (r, s1)" by (cases y)
    have rep1: "rep s1 (snd (set_step x A))" using step_correct [OF Cons.prems(1) valid(1)] Some y by auto
    have "impl_run add rem con xs s1 = None"
      using Cons.prems(3) Some y by (cases "impl_run add rem con xs s1") auto
    from Cons.IH [OF rep1 valid(2) this] obtain ys k zs rs s2 where
      "xs = ys @ Add k # zs" "impl_run add rem con ys s1 = Some (rs, s2)" "\<not> room k s2" by blast
    then show ?thesis using Some y
      by (intro exI [of _ "x # ys"] exI [of _ k] exI [of _ zs] exI [of _ "r # rs"] exI [of _ s2]) simp
  qed
qed

lemma addAll_correct:
  "rep s A \<Longrightarrow> \<forall>k\<in>set ks. valid k \<Longrightarrow> addAll add ks s = Some (r, s') \<Longrightarrow> r \<and> rep s' (A \<union> set ks)"
proof (induction ks arbitrary: s A)
  case Nil then show ?case by simp
next
  case (Cons k ks)
  from Cons.prems(3) obtain r1 s1 where "add k s = Some (r1, s1)" "addAll add ks s1 = Some (r, s')"
    by (auto simp: ret_simps)
  with add_correct [OF Cons.prems(1)] Cons.prems(2) Cons.IH [of s1 "insert k A"] show ?case by auto
qed

end

end
