(* ===== verification/LinkedListSet.thy ===== *)
theory LinkedListSet
  imports LinkedSeg SetContract EsHeap
begin

text \<open>
  The sorted linked-list set of pdatastructures/TMLinkedListSet.hpp, between two sentinel
  nodes whose keys are never initialised. Every operation body runs inside one transaction,
  so it is modelled as a sequential function on the heap.
\<close>

record 'k lnode =
  lkey :: "'k option"
  lnext :: ptr

record ('k, 'a) llset =
  ll_head :: ptr
  ll_tail :: ptr
  ll_heap :: "('k lnode, 'a) tmheap"

definition lnode_of :: "'k \<Rightarrow> 'k lnode" where
  "lnode_of k = \<lparr>lkey = Some k, lnext = nullptr\<rparr>"

definition lnode_empty :: "'k lnode" where
  "lnode_empty = \<lparr>lkey = None, lnext = nullptr\<rparr>"

definition lls_new :: "'a tm \<Rightarrow> u64 \<Rightarrow> ('k lnode, 'a) tmheap \<Rightarrow> ('k, 'a) llset option" where
  "lls_new TM sz h =
     do { (lhead, h1) \<leftarrow> tmNew TM sz lnode_empty h;
          (ltail, h2) \<leftarrow> tmNew TM sz lnode_empty h1;
          h3 \<leftarrow> store (\<lambda>n. n\<lparr>lnext := ltail\<rparr>) lhead h2;
          Some \<lparr>ll_head = lhead, ll_tail = ltail, ll_heap = h3\<rparr> }"

text \<open>The destructor walks the list with a trailing pointer and deletes behind itself.\<close>

partial_function (option) lls_delete_loop ::
  "'a tm \<Rightarrow> ptr \<Rightarrow> ptr \<Rightarrow> ptr \<Rightarrow> ('k lnode, 'a) tmheap \<Rightarrow> ('k lnode, 'a) tmheap option" where
  "lls_delete_loop TM ltail prev node h =
     (if node = ltail
      then do { h1 \<leftarrow> tmDelete TM prev h; tmDelete TM ltail h1 }
      else do { h1 \<leftarrow> tmDelete TM prev h;
                nxt \<leftarrow> load lnext node h1;
                lls_delete_loop TM ltail node nxt h1 })"

declare lls_delete_loop.simps [code]

definition lls_delete :: "'a tm \<Rightarrow> ('k, 'a) llset \<Rightarrow> ('k lnode, 'a) tmheap option" where
  "lls_delete TM s =
     do { node \<leftarrow> load lnext (ll_head s) (ll_heap s);
          lls_delete_loop TM (ll_tail s) (ll_head s) node (ll_heap s) }"

partial_function (option) lls_find_loop ::
  "('k::linorder) \<Rightarrow> ptr \<Rightarrow> ('k lnode, 'a) tmheap \<Rightarrow> ptr \<Rightarrow> (ptr \<times> ptr) option" where
  "lls_find_loop k ltail h prev =
     do { node \<leftarrow> load lnext prev h;
          if node = ltail then Some (prev, node)
          else do { nk \<leftarrow> load lkey node h;
                    nk' \<leftarrow> nk;
                    if \<not> nk' < k then Some (prev, node) else lls_find_loop k ltail h node } }"

declare lls_find_loop.simps [code]

definition lls_find :: "('k::linorder) \<Rightarrow> ('k, 'a) llset \<Rightarrow> (ptr \<times> ptr) option" where
  "lls_find k s = lls_find_loop k (ll_tail s) (ll_heap s) (ll_head s)"

text \<open>The test that follows find in every operation: the node is not the tail and has the key.\<close>

definition lls_match :: "('k::linorder) \<Rightarrow> ptr \<Rightarrow> ('k, 'a) llset \<Rightarrow> bool option" where
  "lls_match k node s =
     (if node = ll_tail s then Some False
      else do { nk \<leftarrow> load lkey node (ll_heap s); nk' \<leftarrow> nk; Some (k = nk') })"

definition lls_add :: "'a tm \<Rightarrow> u64 \<Rightarrow> ('k::linorder) \<Rightarrow> ('k, 'a) llset \<Rightarrow> (bool \<times> ('k, 'a) llset) option" where
  "lls_add TM sz k s =
     do { (prev, node) \<leftarrow> lls_find k s;
          found \<leftarrow> lls_match k node s;
          if found then Some (False, s)
          else do { (newNode, h1) \<leftarrow> tmNew TM sz (lnode_of k) (ll_heap s);
                    h2 \<leftarrow> store (\<lambda>n. n\<lparr>lnext := newNode\<rparr>) prev h1;
                    h3 \<leftarrow> store (\<lambda>n. n\<lparr>lnext := node\<rparr>) newNode h2;
                    Some (True, s\<lparr>ll_heap := h3\<rparr>) } }"

definition lls_remove :: "'a tm \<Rightarrow> ('k::linorder) \<Rightarrow> ('k, 'a) llset \<Rightarrow> (bool \<times> ('k, 'a) llset) option" where
  "lls_remove TM k s =
     do { (prev, node) \<leftarrow> lls_find k s;
          found \<leftarrow> lls_match k node s;
          if \<not> found then Some (False, s)
          else do { nxt \<leftarrow> load lnext node (ll_heap s);
                    h1 \<leftarrow> store (\<lambda>n. n\<lparr>lnext := nxt\<rparr>) prev (ll_heap s);
                    h2 \<leftarrow> tmDelete TM node h1;
                    Some (True, s\<lparr>ll_heap := h2\<rparr>) } }"

definition lls_contains :: "('k::linorder) \<Rightarrow> ('k, 'a) llset \<Rightarrow> bool option" where
  "lls_contains k s = do { (prev, node) \<leftarrow> lls_find k s; lls_match k node s }"

subsection \<open>Representation\<close>

text \<open>
  The list runs from the head sentinel through the key nodes, in strictly increasing key
  order, to the tail sentinel; the heap holds these nodes and nothing else.
\<close>

definition keys_at :: "(ptr \<rightharpoonup> 'k lnode) \<Rightarrow> ptr list \<Rightarrow> 'k list \<Rightarrow> bool" where
  "keys_at m ps ks \<longleftrightarrow> list_all2 (\<lambda>p k. \<exists>n. m p = Some n \<and> lkey n = Some k) ps ks"

definition lls_rep :: "('a \<Rightarrow> ptr set \<Rightarrow> bool) \<Rightarrow> ('k::linorder, 'a) llset \<Rightarrow> 'k list \<Rightarrow> bool" where
  "lls_rep ainv s ks \<longleftrightarrow>
     (\<exists>ps. lseg lnext (nodes (ll_heap s)) (ll_head s) (ll_head s # ps) (ll_tail s)
         \<and> distinct (ll_head s # ps @ [ll_tail s])
         \<and> keys_at (nodes (ll_heap s)) ps ks
         \<and> dom (nodes (ll_heap s)) = set (ll_head s # ps @ [ll_tail s])
         \<and> dom (arrays (ll_heap s)) = {}
         \<and> heap_ok ainv (ll_heap s) \<and> sorted_wrt (<) ks)"


subsection \<open>find\<close>

lemma keys_at_Cons [simp]:
  "keys_at m (p # ps) ks \<longleftrightarrow>
     (\<exists>n k ks'. ks = k # ks' \<and> m p = Some n \<and> lkey n = Some k \<and> keys_at m ps ks')"
  by (auto simp: keys_at_def list_all2_Cons1)

lemma keys_at_Nil [simp]: "keys_at m [] ks \<longleftrightarrow> ks = []"
  by (simp add: keys_at_def)

lemma keys_at_length: "keys_at m ps ks \<Longrightarrow> length ps = length ks"
  by (simp add: keys_at_def list_all2_lengthD)

lemma keys_at_upd [simp]: "a \<notin> set ps \<Longrightarrow> keys_at (m(a := v)) ps ks = keys_at m ps ks"
  by (induction ps arbitrary: ks) auto

lemma keys_at_same_key:
  "m a = Some n \<Longrightarrow> lkey n' = lkey n \<Longrightarrow> keys_at (m(a \<mapsto> n')) ps ks = keys_at m ps ks"
  by (induction ps arbitrary: ks) auto

lemma keys_at_append:
  "length ps1 = length ks1 \<Longrightarrow>
     keys_at m (ps1 @ ps2) (ks1 @ ks2) \<longleftrightarrow> keys_at m ps1 ks1 \<and> keys_at m ps2 ks2"
  by (simp add: keys_at_def list_all2_append)

lemma lls_find_loop_takeWhile:
  assumes "lseg lnext (nodes h) p (p # ps) t" "keys_at (nodes h) ps ks" "t \<notin> set ps"
  shows "lls_find_loop k t h p =
      (let n = length (takeWhile (\<lambda>x. x < k) ks)
       in Some (last (p # take n ps), hd (drop n ps @ [t])))"
  using assms
proof (induction ps arbitrary: p ks)
  case Nil
  then show ?case
    by (subst lls_find_loop.simps) (auto simp: heap_simps split: option.splits)
next
  case (Cons q ps)
  from Cons.prems(1) obtain np where np: "nodes h p = Some np" "lnext np = q"
    and seg: "lseg lnext (nodes h) q (q # ps) t" by (auto split: option.splits)
  from Cons.prems(2) obtain nq k0 ks0 where q: "nodes h q = Some nq" "lkey nq = Some k0"
    and ks: "ks = k0 # ks0" "keys_at (nodes h) ps ks0" by auto
  have "t \<notin> set ps" "q \<noteq> t" using Cons.prems(3) by auto
  with Cons.IH [OF seg ks(2)] np q ks show ?case
    by (subst lls_find_loop.simps) (simp add: heap_simps Let_def)
qed

lemma sorted_split:
  assumes "sorted_wrt (<) (ks :: 'k::linorder list)"
  shows "\<exists>ks1 ks2. ks = ks1 @ ks2 \<and> (\<forall>x\<in>set ks1. x < k) \<and> (\<forall>x\<in>set ks2. k \<le> x)
           \<and> length (takeWhile (\<lambda>x. x < k) ks) = length ks1"
proof (intro exI conjI)
  show "ks = takeWhile (\<lambda>x. x < k) ks @ dropWhile (\<lambda>x. x < k) ks" by simp
  show "\<forall>x\<in>set (takeWhile (\<lambda>x. x < k) ks). x < k" by (auto dest: set_takeWhileD)
  show "\<forall>x\<in>set (dropWhile (\<lambda>x. x < k) ks). k \<le> x"
    using assms by (induction ks) (auto simp: less_imp_le)
qed simp

text \<open>What find returns on a list that represents ks: the split of the nodes at the key.\<close>

lemma lls_find_split:
  assumes "lls_rep ainv s ks"
  obtains ps1 ps2 ks1 ks2 xs prev where
    "ks = ks1 @ ks2" "\<forall>x\<in>set ks1. x < k" "\<forall>x\<in>set ks2. k \<le> x"
    "ll_head s # ps1 = xs @ [prev]"
    "lls_find k s = Some (prev, hd (ps2 @ [ll_tail s]))"
    "lseg lnext (nodes (ll_heap s)) (ll_head s) (xs @ prev # ps2) (ll_tail s)"
    "distinct (xs @ prev # ps2 @ [ll_tail s])"
    "keys_at (nodes (ll_heap s)) ps1 ks1" "keys_at (nodes (ll_heap s)) ps2 ks2"
    "dom (nodes (ll_heap s)) = set (xs @ prev # ps2 @ [ll_tail s])"
proof -
  from assms obtain ps where
    ps: "lseg lnext (nodes (ll_heap s)) (ll_head s) (ll_head s # ps) (ll_tail s)"
      "distinct (ll_head s # ps @ [ll_tail s])" "keys_at (nodes (ll_heap s)) ps ks"
      "dom (nodes (ll_heap s)) = set (ll_head s # ps @ [ll_tail s])" and "sorted_wrt (<) ks"
    by (auto simp: lls_rep_def)
  from sorted_split [OF this(5)] obtain ks1 ks2 where
    ks: "ks = ks1 @ ks2" "\<forall>x\<in>set ks1. x < k" "\<forall>x\<in>set ks2. k \<le> x"
      "length (takeWhile (\<lambda>x. x < k) ks) = length ks1" by blast
  obtain ps1 ps2 where split: "ps = ps1 @ ps2" "length ps1 = length ks1"
    using that [of "take (length ks1) ps" "drop (length ks1) ps"] keys_at_length [OF ps(3)] ks(1)
    by simp
  have keys: "keys_at (nodes (ll_heap s)) ps1 ks1" "keys_at (nodes (ll_heap s)) ps2 ks2"
    using keys_at_append [OF split(2), of _ ps2 ks2] ps(3) ks(1) split(1) by auto
  obtain xs prev where xs: "ll_head s # ps1 = xs @ [prev]"
    by (metis append_butlast_last_id list.distinct(1))
  then have whole: "ll_head s # ps = xs @ prev # ps2" and last: "last (ll_head s # ps1) = prev"
    using split(1) by (metis append_Cons append_assoc append_Nil, metis last_snoc)
  have "lls_find k s = Some (last (ll_head s # ps1), hd (ps2 @ [ll_tail s]))"
    using lls_find_loop_takeWhile [OF ps(1) ps(3), of k] ps(2)
    unfolding split(1) ks(4) split(2) [symmetric] lls_find_def by (simp add: Let_def)
  with last have find: "lls_find k s = Some (prev, hd (ps2 @ [ll_tail s]))" by simp
  have "ll_head s # ps @ [ll_tail s] = xs @ prev # ps2 @ [ll_tail s]" using whole by simp
  with that [OF ks(1,2,3) xs find _ _ keys] ps(1,2,4) whole show ?thesis by simp
qed

lemma lls_match_hd:
  assumes "keys_at (nodes (ll_heap s)) ps ks" "ll_tail s \<notin> set ps" "\<forall>x\<in>set ks. k \<le> x"
    "sorted_wrt (<) ks"
  shows "lls_match k (hd (ps @ [ll_tail s])) s = Some (k \<in> set ks)"
  using assms by (cases ps) (force simp: lls_match_def heap_simps)+

lemma lls_contains_correct:
  assumes "lls_rep ainv s ks" shows "lls_contains k s = Some (k \<in> set ks)"
proof -
  obtain ps1 ps2 ks1 ks2 xs prev where sp:
    "ks = ks1 @ ks2" "\<forall>x\<in>set ks1. x < k" "\<forall>x\<in>set ks2. k \<le> x"
    "lls_find k s = Some (prev, hd (ps2 @ [ll_tail s]))"
    "distinct (xs @ prev # ps2 @ [ll_tail s])" "keys_at (nodes (ll_heap s)) ps2 ks2"
    by (rule lls_find_split [OF assms, of k]) blast
  have "sorted_wrt (<) ks2" using assms sp(1) by (auto simp: lls_rep_def sorted_wrt_append)
  with lls_match_hd [of s ps2 ks2 k] sp show ?thesis by (auto simp: lls_contains_def)
qed


subsection \<open>The operations refine the abstract set\<close>

lemma lls_repI:
  assumes "ll_head s = a" "ll_tail s = t" "ll_heap s = h" "lseg lnext m a (a # ps) t" "distinct (a # ps @ [t])" "keys_at m ps ks"
    "dom m = set (a # ps @ [t])" "nodes h = m" "arrays h = Map.empty" "heap_ok ainv h" "sorted_wrt (<) ks"
  shows "lls_rep ainv s ks"
  unfolding lls_rep_def using assms by (intro exI [of _ ps]) simp

context tm_alloc
begin

lemma lls_add_correct:
  assumes rep: "lls_rep ainv s ks" and sz: "unat sz \<le> max_request"
    and ret: "lls_add TM sz k s = Some (r, s')"
  shows "r = (k \<notin> set ks) \<and> (\<exists>ks'. lls_rep ainv s' ks' \<and> set ks' = insert k (set ks))"
proof -
  let ?m = "nodes (ll_heap s)" and ?t = "ll_tail s"
  obtain ps1 ps2 ks1 ks2 xs prev where sp:
    "ks = ks1 @ ks2" "\<forall>x\<in>set ks1. x < k" "\<forall>x\<in>set ks2. k \<le> x"
    "ll_head s # ps1 = xs @ [prev]" "lls_find k s = Some (prev, hd (ps2 @ [?t]))"
    "lseg lnext ?m (ll_head s) (xs @ prev # ps2) ?t"
    "distinct (xs @ prev # ps2 @ [?t])" "keys_at ?m ps1 ks1" "keys_at ?m ps2 ks2"
    "dom ?m = set (xs @ prev # ps2 @ [?t])"
    by (rule lls_find_split [OF rep, of k]) blast
  have sorted: "sorted_wrt (<) ks1" "sorted_wrt (<) ks2" "arrays (ll_heap s) = Map.empty"
    "heap_ok ainv (ll_heap s)" "\<forall>x\<in>set ks1. \<forall>y\<in>set ks2. x < y"
    using rep sp(1) by (auto simp: lls_rep_def sorted_wrt_append)
  have match: "lls_match k (hd (ps2 @ [?t])) s = Some (k \<in> set ks)"
    using lls_match_hd [of s ps2 ks2 k] sp sorted by auto
  show ?thesis
  proof (cases "k \<in> set ks")
    case True
    with match sp(5) ret have "r = False" "s' = s" by (auto simp: lls_add_def)
    with True rep show ?thesis by (auto simp: insert_absorb)
  next
    case False
    from False match sp(5) ret obtain p h1 h2 h3 where
      new: "tmNew TM sz (lnode_of k) (ll_heap s) = Some (p, h1)"
      and st1: "store (\<lambda>n. n\<lparr>lnext := p\<rparr>) prev h1 = Some h2"
      and st2: "store (\<lambda>n. n\<lparr>lnext := hd (ps2 @ [?t])\<rparr>) p h2 = Some h3"
      and s': "r" "s' = s\<lparr>ll_heap := h3\<rparr>"
      by (auto simp: lls_add_def ret_simps)
    note fresh = tmNew_ok [OF sorted(4) sz new]
    obtain np where np: "?m prev = Some np" using sp(10) by auto
    have p: "p \<notin> set (xs @ prev # ps2 @ [?t])" using fresh(4) sp(10) by auto
    let ?m' = "?m(prev \<mapsto> np\<lparr>lnext := p\<rparr>, p \<mapsto> \<lparr>lkey = Some k, lnext = hd (ps2 @ [?t])\<rparr>)"
    have h3: "nodes h3 = ?m'" "arrays h3 = Map.empty"
      using st1 st2 fresh(2,3) np p sorted(3)
      by (auto simp: store_def lnode_of_def fun_upd_twist)
    have ok: "heap_ok ainv h3"
      using heap_ok_store [OF heap_ok_store [OF fresh(1) st1] st2] .
    have nxt: "lnext np = hd (ps2 @ [?t])" by (rule lseg_next [OF sp(6) np])
    have seg: "lseg lnext ?m' (ll_head s) (xs @ prev # p # ps2) ?t"
      by (rule lseg_insert_after [OF sp(6) np]) (use sp(7) p nxt in auto)
    have list: "xs @ prev # p # ps2 = ll_head s # ps1 @ p # ps2" using sp(4) by (metis append_Cons append_assoc append_Nil)
    have "keys_at ?m' (ps1 @ p # ps2) (ks1 @ k # ks2)"
    proof -
      have "set ps1 \<subseteq> set (xs @ [prev])" unfolding sp(4) [symmetric] by auto
      then have "prev \<notin> set ps2" "p \<notin> set ps1" "p \<notin> set ps2" using sp(7) p by auto
      then have "keys_at ?m' ps1 ks1 = keys_at ?m ps1 ks1" "keys_at ?m' ps2 ks2 = keys_at ?m ps2 ks2"
        using np by (simp_all add: keys_at_same_key)
      with sp(8,9) keys_at_length [OF sp(8)] show ?thesis by (simp add: keys_at_append)
    qed
    moreover have "sorted_wrt (<) (ks1 @ k # ks2)"
      using sorted sp(1-3) False by (auto simp: sorted_wrt_append order.strict_iff_order)
    moreover have "dom ?m' = set (ll_head s # (ps1 @ p # ps2) @ [?t])"
    proof -
      have "set (ll_head s # (ps1 @ p # ps2) @ [?t]) = insert p (set (xs @ prev # ps2 @ [?t]))"
        using arg_cong [OF list, of set] by auto
      moreover have "dom ?m' = insert p (dom ?m)" using np by auto
      ultimately show ?thesis using sp(10) by simp
    qed
    moreover have "distinct (ll_head s # (ps1 @ p # ps2) @ [?t])"
      using sp(7) p arg_cong [OF list, of "\<lambda>l. distinct (l @ [?t])"] by auto
    ultimately have "lls_rep ainv s' (ks1 @ k # ks2)"
      using lls_repI [OF _ _ _ seg [unfolded list] _ _ _ h3 ok] s'(2) by simp
    then show ?thesis using False s'(1) sp(1) by auto
  qed
qed

lemma lls_add_returns:
  assumes rep: "lls_rep ainv s ks" and sz: "unat sz \<le> max_request"
    and room: "fst (tm_malloc TM sz (pool (ll_heap s))) \<noteq> nullptr"
  shows "lls_add TM sz k s \<noteq> None"
proof -
  let ?m = "nodes (ll_heap s)" and ?t = "ll_tail s"
  obtain ps1 ps2 ks1 ks2 xs prev where sp:
    "ks = ks1 @ ks2" "\<forall>x\<in>set ks2. k \<le> x" "lls_find k s = Some (prev, hd (ps2 @ [?t]))"
    "distinct (xs @ prev # ps2 @ [?t])" "keys_at ?m ps2 ks2"
    "dom ?m = set (xs @ prev # ps2 @ [?t])"
    by (rule lls_find_split [OF rep, of k]) blast
  have sorted: "sorted_wrt (<) ks2" "heap_ok ainv (ll_heap s)"
    using rep sp(1) by (auto simp: lls_rep_def sorted_wrt_append)
  have match: "lls_match k (hd (ps2 @ [?t])) s = Some (k \<in> set ks2)"
    using lls_match_hd [of s ps2 ks2 k] sp sorted by auto
  obtain p h1 where new: "tmNew TM sz (lnode_of k) (ll_heap s) = Some (p, h1)"
    using room tmNew_fails by (metis option.exhaust surj_pair)
  note fresh = tmNew_ok [OF sorted(2) sz new]
  obtain np where "?m prev = Some np" using sp(6) by auto
  with fresh have "nodes h1 prev = Some np" "nodes h1 p = Some (lnode_of k)" by auto
  then show ?thesis
    using sp(3) match new by (auto simp: lls_add_def store_def)
qed

lemma lls_remove_correct:
  assumes rep: "lls_rep ainv s ks"
  shows "\<exists>s' ks'. lls_remove TM k s = Some (k \<in> set ks, s') \<and> lls_rep ainv s' ks' \<and> set ks' = set ks - {k}"
proof -
  let ?m = "nodes (ll_heap s)" and ?t = "ll_tail s"
  obtain ps1 ps2 ks1 ks2 xs prev where sp:
    "ks = ks1 @ ks2" "\<forall>x\<in>set ks1. x < k" "\<forall>x\<in>set ks2. k \<le> x"
    "ll_head s # ps1 = xs @ [prev]" "lls_find k s = Some (prev, hd (ps2 @ [?t]))"
    "lseg lnext ?m (ll_head s) (xs @ prev # ps2) ?t"
    "distinct (xs @ prev # ps2 @ [?t])" "keys_at ?m ps1 ks1" "keys_at ?m ps2 ks2"
    "dom ?m = set (xs @ prev # ps2 @ [?t])"
    by (rule lls_find_split [OF rep, of k]) blast
  have sorted: "sorted_wrt (<) (ks1 @ ks2)" "arrays (ll_heap s) = Map.empty" "heap_ok ainv (ll_heap s)"
    "sorted_wrt (<) ks2"
    using rep sp(1) by (auto simp: lls_rep_def sorted_wrt_append)
  have match: "lls_match k (hd (ps2 @ [?t])) s = Some (k \<in> set ks)"
    using lls_match_hd [of s ps2 ks2 k] sp sorted by auto
  show ?thesis
  proof (cases "k \<in> set ks")
    case False
    with match sp(5) have "lls_remove TM k s = Some (False, s)" by (simp add: lls_remove_def)
    with False rep show ?thesis by auto
  next
    case True
    then have "k \<in> set ks2" using sp(1,2) by auto
    with sp(3,9) sorted(4) obtain q qs ks2' nq where q: "ps2 = q # qs" "ks2 = k # ks2'" "?m q = Some nq"
      "keys_at ?m qs ks2'"
      by (cases ps2) force+
    obtain np where np: "?m prev = Some np" using sp(10) by auto
    let ?h1 = "(ll_heap s)\<lparr>nodes := ?m(prev \<mapsto> np\<lparr>lnext := lnext nq\<rparr>)\<rparr>"
    have q1: "nodes ?h1 q = Some nq" using q sp(7) by auto
    have ok1: "heap_ok ainv ?h1" using np sorted(3) by (simp add: heap_ok_upd)
    from tmDelete_ok [OF ok1 q1] obtain h2 where del: "tmDelete TM q ?h1 = Some h2" "heap_ok ainv h2"
      "nodes h2 = ?m(prev \<mapsto> np\<lparr>lnext := lnext nq\<rparr>, q := None)" "arrays h2 = Map.empty"
      using sorted(2) by auto
    have seg: "lseg lnext (nodes h2) (ll_head s) (xs @ prev # qs) ?t"
      unfolding del(3) by (rule lseg_remove_after [OF sp(6) [unfolded q(1)] q(3)]) (use sp(7) q(1) in auto)
    have list: "xs @ prev # qs = ll_head s # ps1 @ qs" using sp(4) by (metis append_Cons append_assoc append_Nil)
    have "set ps1 \<subseteq> set (xs @ [prev])" unfolding sp(4) [symmetric] by auto
    then have "q \<notin> set ps1" "prev \<notin> set qs" "q \<notin> set qs" "q \<noteq> prev" using sp(7) q(1) by auto
    then have keys: "keys_at (nodes h2) (ps1 @ qs) (ks1 @ ks2')"
      using sp(8) q(4) np keys_at_length [OF sp(8)] by (simp add: del(3) keys_at_append keys_at_same_key)
    have "dom (nodes h2) = set (xs @ prev # qs @ [?t])" "distinct (xs @ prev # qs @ [?t])"
      using sp(7,10) q(1) by (auto simp: del(3))
    moreover have "xs @ prev # qs @ [?t] = ll_head s # (ps1 @ qs) @ [?t]" using list by simp
    ultimately have dd: "dom (nodes h2) = set (ll_head s # (ps1 @ qs) @ [?t])"
      "distinct (ll_head s # (ps1 @ qs) @ [?t])" by simp_all
    have "sorted_wrt (<) (ks1 @ ks2')" "k \<notin> set ks2'" using sorted(1) q(2) by (auto simp: sorted_wrt_append)
    moreover from this have "lls_rep ainv (s\<lparr>ll_heap := h2\<rparr>) (ks1 @ ks2')"
      using lls_repI [OF _ _ _ seg [unfolded list] dd(2) keys dd(1) refl del(4,2)] by simp
    moreover have "lls_remove TM k s = Some (True, s\<lparr>ll_heap := h2\<rparr>)"
      using sp(5) match True q(1,3) np del(1) by (simp add: lls_remove_def heap_simps)
    moreover have "set (ks1 @ ks2') = set ks - {k}"
      using sp(1,2) q(2) \<open>k \<notin> set ks2'\<close> by auto
    ultimately show ?thesis using True
      by (intro exI [of _ "s\<lparr>ll_heap := h2\<rparr>"] exI [of _ "ks1 @ ks2'"]) simp
  qed
qed

text \<open>Construction and destruction.\<close>

lemma lls_new_rep:
  assumes "heap_ok ainv h" "nodes h = Map.empty" "arrays h = Map.empty" "unat sz \<le> max_request"
    "lls_new TM sz h = Some s"
  shows "lls_rep ainv s []"
proof -
  from assms(5) obtain a t h1 h2 h3 where
    n1: "tmNew TM sz lnode_empty h = Some (a, h1)" and n2: "tmNew TM sz lnode_empty h1 = Some (t, h2)"
    and st: "store (\<lambda>n. n\<lparr>lnext := t\<rparr>) a h2 = Some h3"
    and s: "s = \<lparr>ll_head = a, ll_tail = t, ll_heap = h3\<rparr>"
    by (auto simp: lls_new_def ret_simps)
  note f1 = tmNew_ok [OF assms(1,4) n1]
  note f2 = tmNew_ok [OF f1(1) assms(4) n2]
  have "t \<noteq> a" using f1(2) f2(4) by auto
  then have h3: "nodes h3 = [t \<mapsto> lnode_empty, a \<mapsto> lnode_empty\<lparr>lnext := t\<rparr>]" "arrays h3 = Map.empty"
    using f1 f2 st assms(2,3) by (auto simp: store_def)
  show ?thesis
    unfolding lls_rep_def
    using h3 \<open>t \<noteq> a\<close> heap_ok_store [OF f2(1) st] by (intro exI [of _ "[]"]) (auto simp: s)
qed

lemma lls_delete_loop_ok:
  assumes "heap_ok ainv h" "lseg lnext (nodes h) p ps t" "distinct (a # ps @ [t])"
    "dom (nodes h) = set (a # ps @ [t])" "arrays h = Map.empty"
  shows "\<exists>h'. lls_delete_loop TM t a p h = Some h' \<and> heap_ok ainv h' \<and> nodes h' = Map.empty
           \<and> arrays h' = Map.empty"
  using assms
proof (induction ps arbitrary: a p h)
  case Nil
  then obtain na where "nodes h a = Some na" by auto
  from tmDelete_ok [OF Nil.prems(1) this] obtain h1 where h1: "tmDelete TM a h = Some h1"
    "heap_ok ainv h1" "nodes h1 = (nodes h)(a := None)" "arrays h1 = Map.empty"
    using Nil.prems(5) by auto
  obtain nt where "nodes h1 t = Some nt" using Nil.prems h1(3) by auto
  from tmDelete_ok [OF h1(2) this] h1 obtain h2 where "tmDelete TM t h1 = Some h2"
    "heap_ok ainv h2" "nodes h2 = (nodes h)(a := None, t := None)" "arrays h2 = Map.empty"
    by auto
  moreover from this(3) have "dom (nodes h2) = {}" using Nil.prems(4) by auto
  then have "nodes h2 = Map.empty" by (simp only: dom_eq_empty_conv)
  ultimately show ?case
    using h1(1) Nil.prems(2) by (subst lls_delete_loop.simps) auto
next
  case (Cons q ps)
  then have "a \<in> dom (nodes h)" by simp
  then obtain na where "nodes h a = Some na" by blast
  from tmDelete_ok [OF Cons.prems(1) this] obtain h1 where h1: "tmDelete TM a h = Some h1"
    "heap_ok ainv h1" "nodes h1 = (nodes h)(a := None)" "arrays h1 = Map.empty"
    using Cons.prems(5) by auto
  from Cons.prems(2) obtain nq where nq0: "nodes h p = Some nq" "q = p"
    and seg0: "lseg lnext (nodes h) (lnext nq) ps t"
    by (simp split: option.splits)
  have nq: "nodes h1 q = Some nq" "p = q" "q \<noteq> t" using nq0 Cons.prems(3) by (simp_all add: h1(3))
  have seg: "lseg lnext (nodes h1) (lnext nq) ps t" using seg0 Cons.prems(3) by (simp add: h1(3))
  have dom: "dom (nodes h1) = set (q # ps @ [t])" using Cons.prems(3,4) h1(3) by auto
  have dist: "distinct (q # ps @ [t])" using Cons.prems(3) by auto
  have "lls_delete_loop TM t a p h = lls_delete_loop TM t q (lnext nq) h1"
    using h1(1) nq by (subst lls_delete_loop.simps) (simp add: heap_simps)
  with Cons.IH [OF h1(2) seg dist dom h1(4)] show ?case by simp
qed

lemma lls_delete_ok:
  assumes "lls_rep ainv s ks"
  shows "\<exists>h'. lls_delete TM s = Some h' \<and> heap_ok ainv h' \<and> nodes h' = Map.empty \<and> arrays h' = Map.empty"
proof -
  from assms obtain ps where
    ps: "lseg lnext (nodes (ll_heap s)) (ll_head s) (ll_head s # ps) (ll_tail s)"
      "distinct (ll_head s # ps @ [ll_tail s])" "arrays (ll_heap s) = Map.empty"
      "dom (nodes (ll_heap s)) = set (ll_head s # ps @ [ll_tail s])" and "heap_ok ainv (ll_heap s)"
    by (auto simp: lls_rep_def)
  from ps(1) obtain n where "nodes (ll_heap s) (ll_head s) = Some n"
    "lseg lnext (nodes (ll_heap s)) (lnext n) ps (ll_tail s)" by (auto split: option.splits)
  with lls_delete_loop_ok [OF _ this(2) ps(2,4)] ps(3) \<open>heap_ok ainv (ll_heap s)\<close> show ?thesis
    by (simp add: lls_delete_def heap_simps)
qed

end

subsection \<open>The contract, on the allocator of the repository\<close>

definition lls_set :: "u64 \<Rightarrow> ('k::linorder, esloco) llset \<Rightarrow> 'k set \<Rightarrow> bool" where
  "lls_set sz s A \<longleftrightarrow> unat sz \<le> esl_max_request \<and> (\<exists>ks. lls_rep esl_inv s ks \<and> set ks = A)"

definition lls_room :: "u64 \<Rightarrow> 'k \<Rightarrow> ('k, esloco) llset \<Rightarrow> bool" where
  "lls_room sz k s \<longleftrightarrow> fst (esl_malloc sz (pool (ll_heap s))) \<noteq> nullptr"

interpretation lls: set_contract "lls_set sz" "\<lambda>_. True" "lls_room sz" "lls_add esl_tm sz" "lls_remove esl_tm" lls_contains
  for sz
proof unfold_locales
  fix s A and k and r s'
  assume "lls_set sz s A" "lls_add esl_tm sz k s = Some (r, s')"
  then show "r = (k \<notin> A) \<and> lls_set sz s' (insert k A)"
    using eslh.lls_add_correct [of s _ sz k r s'] by (auto simp: lls_set_def)
next
  fix s A and k
  assume "lls_set sz s A" "lls_room sz k s"
  then show "lls_add esl_tm sz k s \<noteq> None"
    using eslh.lls_add_returns [of s _ sz k] by (auto simp: lls_set_def lls_room_def esl_tm_def)
next
  fix s A and k
  assume "lls_set sz s A"
  then show "\<exists>s'. lls_remove esl_tm k s = Some (k \<in> A, s') \<and> lls_set sz s' (A - {k})"
    using eslh.lls_remove_correct [of s _ k] by (fastforce simp: lls_set_def)
next
  fix s A and k
  assume "lls_set sz s A"
  then show "lls_contains k s = Some (k \<in> A)"
    by (auto simp: lls_set_def lls_contains_correct)
qed

subsection \<open>Property\<close>

text \<open>
  A linked-list set built on an empty heap answers any sequence of add, remove and contains
  requests exactly as an abstract set does; the sequence stops only at an addition for which
  the allocator has no memory; and the destructor then always returns and frees every node,
  so that no node is leaked, freed twice or dereferenced after its deletion.
\<close>

theorem lls_requests_correct:
  fixes ops :: "('k::linorder) set_op list"
  assumes "heap_ok esl_inv h" "nodes h = Map.empty" "arrays h = Map.empty"
    "unat sz \<le> esl_max_request" "lls_new esl_tm sz h = Some s"
  shows "case impl_run (lls_add esl_tm sz) (lls_remove esl_tm) lls_contains ops s of
      Some (rs, s') \<Rightarrow> rs = fst (set_run ops {})
        \<and> (\<exists>h'. lls_delete esl_tm s' = Some h' \<and> nodes h' = Map.empty \<and> esl_inv (pool h') {})
    | None \<Rightarrow> \<exists>ys k zs rs s1. ops = ys @ Add k # zs
        \<and> impl_run (lls_add esl_tm sz) (lls_remove esl_tm) lls_contains ys s = Some (rs, s1)
        \<and> fst (esl_malloc sz (pool (ll_heap s1))) = nullptr"
proof -
  have rep: "lls_set sz s {}"
    using eslh.lls_new_rep [OF assms] assms(4) by (auto simp: lls_set_def)
  show ?thesis
  proof (cases "impl_run (lls_add esl_tm sz) (lls_remove esl_tm) lls_contains ops s")
    case None
    from lls.run_stuck [OF rep _ this] None show ?thesis by (auto simp: lls_room_def)
  next
    case (Some y)
    obtain rs s' where y: "y = (rs, s')" by (cases y)
    from lls.run_correct [OF rep _, of ops rs s'] Some y obtain ks where
      "rs = fst (set_run ops {})" "lls_rep esl_inv s' ks" by (auto simp: lls_set_def)
    with eslh.lls_delete_ok [OF this(2)] Some y show ?thesis by (auto simp: heap_ok_def)
  qed
qed

lemma lls_example_new: "lls_new esl_tm 16 esl_heap = Some (the (lls_new esl_tm 16 esl_heap) :: (nat, esloco) llset)"
proof -
  have "\<not> Option.is_none (lls_new esl_tm 16 esl_heap :: (nat, esloco) llset option)" by code_simp
  then show ?thesis by (auto simp: Option.is_none_def)
qed

theorem lls_requests_correct_witness:
  "map_option fst (impl_run (lls_add esl_tm 16) (lls_remove esl_tm) lls_contains
     [Add 5, Add 3, Add 5, Remove 5, Contains 3, Contains (5::nat)] (the (lls_new esl_tm 16 esl_heap)))
   = Some [True, True, False, True, True, False]"
proof -
  let ?ops = "[Add 5, Add 3, Add 5, Remove 5, Contains 3, Contains (5::nat)]"
  let ?r = "impl_run (lls_add esl_tm 16) (lls_remove esl_tm) lls_contains ?ops (the (lls_new esl_tm 16 esl_heap))"
  have "\<not> Option.is_none ?r" by code_simp
  then obtain rs s' where r: "?r = Some (rs, s')" by (auto simp: Option.is_none_def)
  have "unat (16 :: u64) \<le> esl_max_request" by (simp add: esl_max_request_def)
  from lls_requests_correct [OF esl_heap_ok this lls_example_new, of ?ops] r
  have "rs = fst (set_run ?ops {})" by simp
  also have "\<dots> = [True, True, False, True, True, False]" by simp
  finally show ?thesis using r by simp
qed

end
