(* ===== verification/SkipList.thy ===== *)
theory SkipList
  imports SetContract EsHeap
begin

text \<open>
  The skip list of pdatastructures/TMSkipList.hpp: a header and nodes with up to 24 forward
  pointers, where every level is a sublist of the one below. Every operation body runs inside
  one transaction, so it is modelled as a sequential function on the heap.
\<close>

subsection \<open>Nodes\<close>

abbreviation (input) SK_MAX_LEVEL :: nat where "SK_MAX_LEVEL \<equiv> 23"

text \<open>
  The constructor of a node stores null in the pointers up to its level; the rest of the array
  is never initialised (None), and a load of such an entry has no defined result.
\<close>

record 'k snode =
  sk_key :: 'k
  sk_forw :: "nat \<rightharpoonup> ptr"

definition snode_new :: "int \<Rightarrow> 'k \<Rightarrow> 'k snode" where
  "snode_new level k = \<lparr>sk_key = k, sk_forw = (\<lambda>i. if int i < level + 1 then Some nullptr else None)\<rparr>"

record ('k, 'r, 'a) skiplist =
  sk_header :: ptr
  sk_level :: nat
  sk_rand :: 'r
  sk_heap :: "('k snode, 'a) tmheap"

definition load_forw :: "nat \<Rightarrow> ptr \<Rightarrow> ('k snode, 'a) tmheap \<Rightarrow> ptr option" where
  "load_forw i p h = (if i \<le> SK_MAX_LEVEL then do { f \<leftarrow> load sk_forw p h; f i } else None)"

definition store_forw :: "nat \<Rightarrow> ptr \<Rightarrow> ptr \<Rightarrow> ('k snode, 'a) tmheap \<Rightarrow> ('k snode, 'a) tmheap option" where
  "store_forw i v p h =
     (if i \<le> SK_MAX_LEVEL then store (\<lambda>n. n\<lparr>sk_forw := (sk_forw n)(i \<mapsto> v)\<rparr>) p h else None)"

subsection \<open>Operations\<close>

definition sk_new :: "'a tm \<Rightarrow> u64 \<Rightarrow> 'r \<Rightarrow> ('k::{linorder,zero} snode, 'a) tmheap \<Rightarrow> ('k, 'r, 'a) skiplist option" where
  "sk_new TM sz r h =
     do { (hdr, h1) \<leftarrow> tmNew TM sz (snode_new (int SK_MAX_LEVEL) 0) h;
          Some \<lparr>sk_header = hdr, sk_level = 0, sk_rand = r, sk_heap = h1\<rparr> }"

text \<open>The destructor deletes the header only.\<close>

definition sk_delete :: "'a tm \<Rightarrow> ('k, 'r, 'a) skiplist \<Rightarrow> ('k snode, 'a) tmheap option" where
  "sk_delete TM s = tmDelete TM (sk_header s) (sk_heap s)"

text \<open>
  The level of a new node. The generator of the C library, and the value of the int that the
  logarithm of its output is cast to, are the parameter draw.
\<close>

definition random_level :: "('r \<Rightarrow> int \<times> 'r) \<Rightarrow> 'r \<Rightarrow> int \<times> 'r" where
  "random_level draw r = (let (lvl, r') = draw r in (if lvl < int SK_MAX_LEVEL then lvl else int SK_MAX_LEVEL, r'))"

text \<open>One level of the search, and the search from a level down to level 0.\<close>

partial_function (option) sk_walk :: "('k::linorder) \<Rightarrow> nat \<Rightarrow> ('k snode, 'a) tmheap \<Rightarrow> ptr \<Rightarrow> ptr option" where
  "sk_walk key i h x =
     do { nx \<leftarrow> load_forw i x h;
          if nx = nullptr then Some x
          else do { nk \<leftarrow> load sk_key nx h;
                    if nk < key then sk_walk key i h nx else Some x } }"

declare sk_walk.simps [code]

fun sk_search :: "('k::linorder) \<Rightarrow> ('k snode, 'a) tmheap \<Rightarrow> nat \<Rightarrow> ptr \<Rightarrow> (nat \<Rightarrow> ptr) \<Rightarrow> (ptr \<times> (nat \<Rightarrow> ptr)) option" where
  "sk_search key h 0 x upd = Some (x, upd)"
| "sk_search key h (Suc i) x upd = do { y \<leftarrow> sk_walk key i h x; sk_search key h i y (upd(i := y)) }"

fun sk_find :: "('k::linorder) \<Rightarrow> ('k snode, 'a) tmheap \<Rightarrow> nat \<Rightarrow> ptr \<Rightarrow> ptr option" where
  "sk_find key h 0 x = Some x"
| "sk_find key h (Suc i) x = do { y \<leftarrow> sk_walk key i h x; sk_find key h i y }"

definition sk_match :: "('k::linorder) \<Rightarrow> ptr \<Rightarrow> ('k snode, 'a) tmheap \<Rightarrow> bool option" where
  "sk_match key x h = (if x = nullptr then Some False else do { xk \<leftarrow> load sk_key x h; Some (xk = key) })"

definition sk_contains :: "('k::linorder) \<Rightarrow> ('k, 'r, 'a) skiplist \<Rightarrow> bool option" where
  "sk_contains key s =
     do { x \<leftarrow> sk_find key (sk_heap s) (Suc (sk_level s)) (sk_header s);
          x0 \<leftarrow> load_forw 0 x (sk_heap s);
          sk_match key x0 (sk_heap s) }"

text \<open>The loops that link a new node x into the levels from i on, and unlink an old one.\<close>

fun sk_link :: "(nat \<Rightarrow> ptr) \<Rightarrow> ptr \<Rightarrow> nat \<Rightarrow> nat \<Rightarrow> ('k snode, 'a) tmheap \<Rightarrow> ('k snode, 'a) tmheap option" where
  "sk_link upd x i 0 h = Some h"
| "sk_link upd x i (Suc n) h =
     do { nx \<leftarrow> load_forw i (upd i) h;
          h1 \<leftarrow> store_forw i nx x h;
          h2 \<leftarrow> store_forw i x (upd i) h1;
          sk_link upd x (i + 1) n h2 }"

fun sk_unlink :: "(nat \<Rightarrow> ptr) \<Rightarrow> ptr \<Rightarrow> nat \<Rightarrow> nat \<Rightarrow> ('k snode, 'a) tmheap \<Rightarrow> ('k snode, 'a) tmheap option" where
  "sk_unlink upd x i 0 h = Some h"
| "sk_unlink upd x i (Suc n) h =
     do { ux \<leftarrow> load_forw i (upd i) h;
          if ux \<noteq> x then Some h
          else do { nx \<leftarrow> load_forw i x h;
                    h1 \<leftarrow> store_forw i nx (upd i) h;
                    sk_unlink upd x (i + 1) n h1 } }"

fun sk_lower :: "ptr \<Rightarrow> ('k snode, 'a) tmheap \<Rightarrow> nat \<Rightarrow> nat option" where
  "sk_lower hdr h 0 = Some 0"
| "sk_lower hdr h (Suc l) = do { f \<leftarrow> load_forw (Suc l) hdr h; if f = nullptr then sk_lower hdr h l else Some (Suc l) }"

definition sk_add :: "('r \<Rightarrow> int \<times> 'r) \<Rightarrow> 'a tm \<Rightarrow> u64 \<Rightarrow> ('k::linorder) \<Rightarrow> ('k, 'r, 'a) skiplist \<Rightarrow> (bool \<times> ('k, 'r, 'a) skiplist) option" where
  "sk_add draw TM sz key s =
     do { (x, upd) \<leftarrow> sk_search key (sk_heap s) (Suc (sk_level s)) (sk_header s) (\<lambda>_. nullptr);
          x0 \<leftarrow> load_forw 0 x (sk_heap s);
          found \<leftarrow> sk_match key x0 (sk_heap s);
          if found then Some (False, s)
          else (let (lvl, r) = random_level draw (sk_rand s);
                    (upd1, level1) = (if lvl > int (sk_level s)
                      then (\<lambda>i. if sk_level s < i \<and> int i \<le> lvl then sk_header s else upd i, nat lvl)
                      else (upd, sk_level s))
                in do { (p, h1) \<leftarrow> tmNew TM sz (snode_new lvl key) (sk_heap s);
                        h2 \<leftarrow> sk_link upd1 p 0 (nat (lvl + 1)) h1;
                        Some (True, s\<lparr>sk_level := level1, sk_rand := r, sk_heap := h2\<rparr>) }) }"

definition sk_remove :: "'a tm \<Rightarrow> ('k::linorder) \<Rightarrow> ('k, 'r, 'a) skiplist \<Rightarrow> (bool \<times> ('k, 'r, 'a) skiplist) option" where
  "sk_remove TM key s =
     do { (x, upd) \<leftarrow> sk_search key (sk_heap s) (Suc (sk_level s)) (sk_header s) (\<lambda>_. nullptr);
          x0 \<leftarrow> load_forw 0 x (sk_heap s);
          found \<leftarrow> sk_match key x0 (sk_heap s);
          if \<not> found then Some (False, s)
          else do { h1 \<leftarrow> sk_unlink upd x0 0 (Suc (sk_level s)) (sk_heap s);
                    h2 \<leftarrow> tmDelete TM x0 h1;
                    l \<leftarrow> sk_lower (sk_header s) h2 (sk_level s);
                    Some (True, s\<lparr>sk_level := l, sk_heap := h2\<rparr>) } }"
subsection \<open>Levels\<close>

text \<open>
  A forward pointer and a key as functions of an address, and the segment of one level that
  runs from a node p through the nodes xs to q.
\<close>

definition fw :: "('k snode, 'a) tmheap \<Rightarrow> nat \<Rightarrow> ptr \<Rightarrow> ptr option" where
  "fw h i p = (case nodes h p of None \<Rightarrow> None | Some n \<Rightarrow> sk_forw n i)"

definition key_at :: "('k snode, 'a) tmheap \<Rightarrow> ptr \<Rightarrow> 'k" where
  "key_at h p = sk_key (the (nodes h p))"

fun fseg :: "(ptr \<Rightarrow> ptr option) \<Rightarrow> ptr \<Rightarrow> ptr list \<Rightarrow> ptr \<Rightarrow> bool" where
  "fseg f p [] q \<longleftrightarrow> p = q"
| "fseg f p (x # xs) q \<longleftrightarrow> x = p \<and> (\<exists>y. f x = Some y \<and> fseg f y xs q)"

lemma fseg_append: "fseg f p (xs @ ys) q \<longleftrightarrow> (\<exists>r. fseg f p xs r \<and> fseg f r ys q)"
  by (induction xs arbitrary: p) auto

lemma fseg_cong: "(\<And>x. x \<in> set xs \<Longrightarrow> f x = g x) \<Longrightarrow> fseg f p xs q = fseg g p xs q"
  by (induction xs arbitrary: p) auto

lemma fseg_start: "fseg f p xs q \<Longrightarrow> p = (if xs = [] then q else hd xs)"
  by (cases xs) auto

lemma fseg_defined: "fseg f p xs q \<Longrightarrow> x \<in> set xs \<Longrightarrow> \<exists>y. f x = Some y"
  by (induction xs arbitrary: p) auto

lemma fseg_last:
  assumes "fseg f p (xs @ ys) q" "xs \<noteq> []"
  shows "f (last xs) = Some (if ys = [] then q else hd ys)"
proof -
  from assms(2) obtain xs' x where xs: "xs = xs' @ [x]" by (metis rev_exhaust)
  with assms(1) obtain r where "f x = Some r" "fseg f r ys q" by (auto simp: fseg_append)
  with fseg_start [OF this(2)] xs show ?thesis by simp
qed

text \<open>Linking and unlinking a node behind the last node of a prefix.\<close>

lemma fseg_insert:
  assumes "fseg f p (xs @ ys) q" "xs \<noteq> []" "distinct (xs @ ys)" "n \<notin> set (xs @ ys)"
    "\<And>x. x \<in> set (xs @ ys) \<Longrightarrow> x \<noteq> last xs \<Longrightarrow> g x = f x" "g (last xs) = Some n" "g n = f (last xs)"
  shows "fseg g p (xs @ n # ys) q"
proof -
  from assms(2) obtain xs' x where xs: "xs = xs' @ [x]" by (metis rev_exhaust)
  with assms(1) obtain r where r: "fseg f p xs' x" "f x = Some r" "fseg f r ys q" by (auto simp: fseg_append)
  have "fseg g p xs' x" using r(1) by (rule fseg_cong [THEN iffD2, rotated]) (use assms(3,5) xs in auto)
  moreover have "fseg g r ys q" using r(3) by (rule fseg_cong [THEN iffD2, rotated]) (use assms(3,5) xs in auto)
  ultimately show ?thesis using r(2) assms(6,7) xs by (auto simp: fseg_append)
qed

lemma fseg_remove:
  assumes "fseg f p (xs @ n # ys) q" "xs \<noteq> []" "distinct (xs @ n # ys)"
    "\<And>x. x \<in> set (xs @ ys) \<Longrightarrow> x \<noteq> last xs \<Longrightarrow> g x = f x" "g (last xs) = f n"
  shows "fseg g p (xs @ ys) q"
proof -
  from assms(2) obtain xs' x where xs: "xs = xs' @ [x]" by (metis rev_exhaust)
  with assms(1) obtain r where r: "fseg f p xs' x" "f n = Some r" "fseg f r ys q" by (auto simp: fseg_append)
  have "fseg g p xs' x" using r(1) by (rule fseg_cong [THEN iffD2, rotated]) (use assms(3,4) xs in auto)
  moreover have "fseg g r ys q" using r(3) by (rule fseg_cong [THEN iffD2, rotated]) (use assms(3,4) xs in auto)
  ultimately show ?thesis using r(2) assms(5) xs by (auto simp: fseg_append)
qed

subsection \<open>Representation\<close>

text \<open>The nodes ps of level 0 in key order; level i is the sublist of those that have a pointer i.\<close>

definition lev :: "('k snode, 'a) tmheap \<Rightarrow> nat \<Rightarrow> ptr list \<Rightarrow> ptr list" where
  "lev h i ps = filter (\<lambda>p. fw h i p \<noteq> None) ps"

definition lev_lt :: "('k::linorder) \<Rightarrow> ('k snode, 'a) tmheap \<Rightarrow> nat \<Rightarrow> ptr list \<Rightarrow> ptr list" where
  "lev_lt k h i ps = filter (\<lambda>p. fw h i p \<noteq> None \<and> key_at h p < k) ps"

definition lev_ge :: "('k::linorder) \<Rightarrow> ('k snode, 'a) tmheap \<Rightarrow> nat \<Rightarrow> ptr list \<Rightarrow> ptr list" where
  "lev_ge k h i ps = filter (\<lambda>p. fw h i p \<noteq> None \<and> \<not> key_at h p < k) ps"

definition sk_shape :: "ptr \<Rightarrow> nat \<Rightarrow> ('k::linorder snode, 'a) tmheap \<Rightarrow> ptr list \<Rightarrow> bool" where
  "sk_shape hdr l h ps \<longleftrightarrow> distinct (hdr # ps) \<and> nullptr \<notin> set ps \<and> dom (nodes h) = set (hdr # ps)
     \<and> sorted_wrt (<) (map (key_at h) ps) \<and> l \<le> SK_MAX_LEVEL
     \<and> (\<forall>i \<le> SK_MAX_LEVEL. fseg (fw h i) hdr (hdr # lev h i ps) nullptr)
     \<and> (\<forall>p \<in> set ps. fw h 0 p \<noteq> None \<and> (\<forall>i. fw h (Suc i) p \<noteq> None \<longrightarrow> fw h i p \<noteq> None))
     \<and> (\<forall>p \<in> set ps. \<forall>i > l. fw h i p = None)"

definition sk_rep :: "('a \<Rightarrow> ptr set \<Rightarrow> bool) \<Rightarrow> ('k::linorder, 'r, 'a) skiplist \<Rightarrow> 'k set \<Rightarrow> bool" where
  "sk_rep ainv s A \<longleftrightarrow> (\<exists>ps. sk_shape (sk_header s) (sk_level s) (sk_heap s) ps
     \<and> A = key_at (sk_heap s) ` set ps \<and> arrays (sk_heap s) = Map.empty \<and> heap_ok ainv (sk_heap s))"

lemma filter_sorted_split:
  "sorted_wrt (<) (map f xs) \<Longrightarrow> filter P xs = filter (\<lambda>x. P x \<and> f x < k) xs @ filter (\<lambda>x. P x \<and> \<not> f x < (k :: 'k::linorder)) xs"
proof (induction xs)
  case (Cons x xs)
  show ?case
  proof (cases "f x < k")
    case False
    then have "\<forall>y \<in> set xs. \<not> f y < k" using Cons.prems by auto
    then have "filter (\<lambda>x. P x \<and> f x < k) xs = []" by (simp add: filter_empty_conv)
    then show ?thesis using Cons False by simp
  qed (use Cons in simp)
qed simp

lemma lev_split: "sk_shape hdr l h ps \<Longrightarrow> lev h i ps = lev_lt k h i ps @ lev_ge k h i ps"
  unfolding lev_def lev_lt_def lev_ge_def sk_shape_def using filter_sorted_split by blast

lemma shape_level:
  assumes "sk_shape hdr l h ps" "i \<le> SK_MAX_LEVEL"
  shows "fseg (fw h i) hdr ((hdr # lev_lt k h i ps) @ lev_ge k h i ps) nullptr"
    "distinct ((hdr # lev_lt k h i ps) @ lev_ge k h i ps)"
proof -
  have s: "(hdr # lev_lt k h i ps) @ lev_ge k h i ps = hdr # lev h i ps" using lev_split [OF assms(1)] by simp
  show "fseg (fw h i) hdr ((hdr # lev_lt k h i ps) @ lev_ge k h i ps) nullptr"
    unfolding s using assms by (auto simp: sk_shape_def)
  show "distinct ((hdr # lev_lt k h i ps) @ lev_ge k h i ps)"
    unfolding s using assms by (auto simp: sk_shape_def lev_def)
qed

lemma load_forw_fw: "i \<le> SK_MAX_LEVEL \<Longrightarrow> load_forw i p h = fw h i p"
  by (simp add: load_forw_def load_def fw_def split: option.splits)

subsection \<open>The search\<close>

definition pred_at :: "('k::linorder) \<Rightarrow> ptr \<Rightarrow> ('k snode, 'a) tmheap \<Rightarrow> ptr list \<Rightarrow> nat \<Rightarrow> ptr" where
  "pred_at k hdr h ps i = last (hdr # lev_lt k h i ps)"

lemma sk_walk_seg:
  assumes "fseg (fw h i) x ((x # ys) @ zs) nullptr" "i \<le> SK_MAX_LEVEL" "nullptr \<notin> set (ys @ zs)"
    "\<forall>y \<in> set ys. key_at h y < k" "\<forall>z \<in> set zs. \<not> key_at h z < k" "set (ys @ zs) \<subseteq> dom (nodes h)"
  shows "sk_walk k i h x = Some (last (x # ys))"
  using assms
proof (induction ys arbitrary: x)
  case Nil
  then have f: "load_forw i x h = Some (if zs = [] then nullptr else hd zs)"
    using fseg_last [of _ _ "[x]" zs] by (simp add: load_forw_fw)
  show ?case
  proof (cases zs)
    case (Cons z zs')
    then obtain n where "nodes h z = Some n" using Nil.prems(6) by auto
    then show ?thesis using f Cons Nil.prems(3,5) by (subst sk_walk.simps) (auto simp: heap_simps key_at_def)
  qed (use f in \<open>simp add: sk_walk.simps\<close>)
next
  case (Cons y ys)
  then have f: "load_forw i x h = Some y" using fseg_last [of _ _ "[x]" "(y # ys) @ zs"] by (simp add: load_forw_fw)
  from Cons.prems(6) obtain n where n: "nodes h y = Some n" by auto
  have "sk_walk k i h x = sk_walk k i h y"
    using f n Cons.prems(3,4) by (subst sk_walk.simps) (auto simp: heap_simps key_at_def)
  moreover have "fseg (fw h i) y ((y # ys) @ zs) nullptr" using Cons.prems(1) by auto
  ultimately show ?case using Cons by simp
qed

lemma lev_lt_set: "x \<in> set (lev_lt k h i ps) \<longleftrightarrow> x \<in> set ps \<and> fw h i x \<noteq> None \<and> key_at h x < k"
  by (auto simp: lev_lt_def)

lemma lev_ge_set: "x \<in> set (lev_ge k h i ps) \<longleftrightarrow> x \<in> set ps \<and> fw h i x \<noteq> None \<and> \<not> key_at h x < k"
  by (auto simp: lev_ge_def)

lemma sk_walk_pred:
  assumes shape: "sk_shape hdr l h ps" and i: "i \<le> SK_MAX_LEVEL" and x: "x \<in> set (hdr # lev_lt k h i ps)"
  shows "sk_walk k i h x = Some (pred_at k hdr h ps i)"
proof -
  from x obtain xs ys where sp: "hdr # lev_lt k h i ps = xs @ x # ys" using split_list by metis
  have seg: "fseg (fw h i) hdr (xs @ (x # ys) @ lev_ge k h i ps) nullptr"
    using shape_level(1) [OF shape i, of k] unfolding sp by simp
  then obtain r where "fseg (fw h i) r ((x # ys) @ lev_ge k h i ps) nullptr" unfolding fseg_append [of _ _ xs] by blast
  then have "fseg (fw h i) x ((x # ys) @ lev_ge k h i ps) nullptr" unfolding append_Cons fseg.simps by blast
  moreover have "set ys \<subseteq> set (lev_lt k h i ps)"
    using sp by (cases xs) auto
  ultimately have "sk_walk k i h x = Some (last (x # ys))"
    using shape i by (intro sk_walk_seg) (auto simp: sk_shape_def lev_lt_set lev_ge_set subset_iff)
  then show ?thesis by (simp only: pred_at_def sp) simp
qed

lemma pred_at_in: "pred_at k hdr h ps i \<in> set (hdr # lev_lt k h i ps)"
  unfolding pred_at_def by (rule last_in_set) simp

lemma pred_at_down:
  assumes "sk_shape hdr l h ps" shows "pred_at k hdr h ps (Suc i) \<in> set (hdr # lev_lt k h i ps)"
  using pred_at_in [of k hdr h ps "Suc i"] assms by (auto simp: lev_lt_set sk_shape_def)

lemma sk_search_ok:
  assumes shape: "sk_shape hdr l h ps"
  shows "i \<le> SK_MAX_LEVEL \<Longrightarrow> x \<in> set (hdr # lev_lt k h i ps) \<Longrightarrow>
    sk_search k h (Suc i) x upd = Some (pred_at k hdr h ps 0, \<lambda>j. if j \<le> i then pred_at k hdr h ps j else upd j)"
proof (induction i arbitrary: x upd)
  case 0
  then show ?case using sk_walk_pred [OF shape] by (auto simp: fun_upd_def)
next
  case (Suc i)
  have "sk_search k h (Suc (Suc i)) x upd = sk_search k h (Suc i) (pred_at k hdr h ps (Suc i)) (upd(Suc i := pred_at k hdr h ps (Suc i)))"
    using sk_walk_pred [OF shape Suc.prems] by simp
  also have "\<dots> = Some (pred_at k hdr h ps 0, \<lambda>j. if j \<le> Suc i then pred_at k hdr h ps j else upd j)"
    using Suc.IH [OF _ pred_at_down [OF shape]] Suc.prems(1) by (auto simp: fun_eq_iff le_Suc_eq simp del: sk_search.simps)
  finally show ?case .
qed

lemma sk_find_search: "sk_find k h n x = map_option fst (sk_search k h n x upd)"
proof (induction n arbitrary: x upd)
  case (Suc n)
  show ?case using Suc.IH by (cases "sk_walk k n h x") auto
qed simp

text \<open>The successor of the search at level 0 carries the key if any node does.\<close>

definition succ_at :: "('k::linorder) \<Rightarrow> ('k snode, 'a) tmheap \<Rightarrow> ptr list \<Rightarrow> nat \<Rightarrow> ptr" where
  "succ_at k h ps i = (case lev_ge k h i ps of [] \<Rightarrow> nullptr | z # zs \<Rightarrow> z)"

lemma fw_pred: "sk_shape hdr l h ps \<Longrightarrow> i \<le> SK_MAX_LEVEL \<Longrightarrow> fw h i (pred_at k hdr h ps i) = Some (succ_at k h ps i)"
  using fseg_last [OF shape_level(1), of hdr l h ps i k]
  unfolding pred_at_def succ_at_def by (cases "lev_ge k h i ps") auto
lemma shape_node:
  assumes "sk_shape hdr l h ps" "p \<in> set ps" shows "p \<noteq> nullptr" "p \<noteq> hdr" "\<exists>n. nodes h p = Some n"
proof -
  from assms have "nullptr \<notin> set ps" "hdr \<notin> set ps" "p \<in> dom (nodes h)" by (simp_all add: sk_shape_def)
  with assms(2) show "p \<noteq> nullptr" "p \<noteq> hdr" "\<exists>n. nodes h p = Some n" by (metis, metis, blast)
qed

lemma lev_ge_sorted: "sk_shape hdr l h ps \<Longrightarrow> sorted_wrt (\<lambda>p q. key_at h p < key_at h q) (lev_ge k h i ps)"
  by (auto simp: sk_shape_def lev_ge_def sorted_wrt_map intro: sorted_wrt_filter)

lemma succ_at_key:
  assumes shape: "sk_shape hdr l h ps" and z: "z \<in> set ps" "key_at h z = k"
  shows "succ_at k h ps i = z \<longleftrightarrow> fw h i z \<noteq> None" and "fw h i z \<noteq> None \<Longrightarrow> \<exists>zs. lev_ge k h i ps = z # zs"
proof -
  have zn: "z \<noteq> nullptr" by (rule shape_node(1) [OF shape z(1)])
  show ex: "\<exists>zs. lev_ge k h i ps = z # zs" if "fw h i z \<noteq> None"
  proof -
    have zin: "z \<in> set (lev_ge k h i ps)" using that z by (simp add: lev_ge_set)
    then obtain y ys where ys: "lev_ge k h i ps = y # ys" by (cases "lev_ge k h i ps") auto
    with lev_ge_sorted [OF shape, of k i] have lt: "\<forall>q \<in> set ys. key_at h y < key_at h q" by simp
    have "\<not> key_at h y < k" using ys lev_ge_set [of y k h i ps] by simp
    then have "z \<notin> set ys" using lt z(2) by auto
    with zin ys show ?thesis by simp
  qed
  show "succ_at k h ps i = z \<longleftrightarrow> fw h i z \<noteq> None"
  proof
    assume "succ_at k h ps i = z"
    then have "z \<in> set (lev_ge k h i ps)" using zn by (auto simp: succ_at_def split: list.splits)
    then show "fw h i z \<noteq> None" by (simp add: lev_ge_set)
  next
    assume "fw h i z \<noteq> None"
    with ex show "succ_at k h ps i = z" by (auto simp: succ_at_def)
  qed
qed

lemma sk_match_succ:
  assumes shape: "sk_shape hdr l h ps"
  shows "sk_match k (succ_at k h ps 0) h = Some (k \<in> key_at h ` set ps)"
    and "k \<in> key_at h ` set ps \<Longrightarrow> succ_at k h ps 0 \<in> set ps \<and> key_at h (succ_at k h ps 0) = k"
proof -
  have all: "fw h 0 p \<noteq> None" if "p \<in> set ps" for p using shape that by (auto simp: sk_shape_def)
  show found: "succ_at k h ps 0 \<in> set ps \<and> key_at h (succ_at k h ps 0) = k" if "k \<in> key_at h ` set ps"
    using that all succ_at_key(1) [OF shape, of _ k 0] by auto
  show "sk_match k (succ_at k h ps 0) h = Some (k \<in> key_at h ` set ps)"
  proof (cases "lev_ge k h 0 ps")
    case Nil
    then have "key_at h p < k" if "p \<in> set ps" for p using that all lev_ge_set [of p k h 0 ps] by auto
    then show ?thesis using Nil by (auto simp: succ_at_def sk_match_def)
  next
    case (Cons z zs)
    then have z: "succ_at k h ps 0 = z" "z \<in> set ps" using lev_ge_set [of z k h 0 ps] by (auto simp: succ_at_def)
    then obtain n where n: "nodes h z = Some n" "z \<noteq> nullptr" using shape_node [OF shape] by blast
    have "k \<in> key_at h ` set ps \<longleftrightarrow> key_at h z = k" using found z image_eqI by metis
    with n z(1) show ?thesis by (simp add: sk_match_def heap_simps key_at_def)
  qed
qed

lemma sk_search_top:
  assumes "sk_shape hdr l h ps"
  shows "sk_search k h (Suc l) hdr upd = Some (pred_at k hdr h ps 0, \<lambda>j. if j \<le> l then pred_at k hdr h ps j else upd j)"
  using assms by (intro sk_search_ok) (auto simp: sk_shape_def)

lemma sk_contains_shape:
  assumes "sk_shape (sk_header s) (sk_level s) (sk_heap s) ps"
  shows "sk_contains k s = Some (k \<in> key_at (sk_heap s) ` set ps)"
  using sk_search_top [OF assms, of k "\<lambda>_. nullptr"] fw_pred [OF assms, of 0 k] sk_match_succ(1) [OF assms, of k]
  unfolding sk_contains_def sk_find_search [of k "sk_heap s" _ _ "\<lambda>_. nullptr"]
  by (simp add: load_forw_fw del: sk_search.simps)

subsection \<open>Stores to forward pointers\<close>

definition same_frame :: "('k snode, 'a) tmheap \<Rightarrow> ('k snode, 'a) tmheap \<Rightarrow> bool" where
  "same_frame h h' \<longleftrightarrow> dom (nodes h') = dom (nodes h) \<and> key_at h' = key_at h \<and> arrays h' = arrays h \<and> pool h' = pool h"

lemma same_frame_refl [simp]: "same_frame h h"
  by (simp add: same_frame_def)

lemma same_frame_trans: "same_frame h h1 \<Longrightarrow> same_frame h1 h2 \<Longrightarrow> same_frame h h2"
  by (simp add: same_frame_def)

lemma store_forw_ok:
  assumes "p \<in> dom (nodes h)" "i \<le> SK_MAX_LEVEL"
  shows "\<exists>h'. store_forw i v p h = Some h' \<and> same_frame h h' \<and> fw h' = (\<lambda>j q. if j = i \<and> q = p then Some v else fw h j q)"
proof -
  from assms(1) obtain n where n: "nodes h p = Some n" by auto
  then show ?thesis using assms(2)
    by (auto simp: store_forw_def heap_simps same_frame_def key_at_def fw_def fun_eq_iff)
qed

lemma sk_link_ok:
  assumes "i + n \<le> Suc SK_MAX_LEVEL" "x \<in> dom (nodes h)"
    "\<And>j. i \<le> j \<Longrightarrow> j < i + n \<Longrightarrow> upd j \<in> dom (nodes h) \<and> upd j \<noteq> x \<and> fw h j (upd j) \<noteq> None"
  shows "\<exists>h'. sk_link upd x i n h = Some h' \<and> same_frame h h' \<and>
    fw h' = (\<lambda>j q. if i \<le> j \<and> j < i + n then (if q = upd j then Some x else if q = x then fw h j (upd j) else fw h j q) else fw h j q)"
  using assms
proof (induction n arbitrary: i h)
  case (Suc n)
  from Suc.prems(3) [of i] obtain nx where nx: "upd i \<in> dom (nodes h)" "upd i \<noteq> x" "fw h i (upd i) = Some nx" by auto
  have i: "i \<le> SK_MAX_LEVEL" using Suc.prems(1) by simp
  from store_forw_ok [OF Suc.prems(2) i, of nx] obtain h1 where h1: "store_forw i nx x h = Some h1" "same_frame h h1"
    "fw h1 = (\<lambda>j q. if j = i \<and> q = x then Some nx else fw h j q)" by blast
  have d1: "upd i \<in> dom (nodes h1)" using nx(1) h1(2) by (simp add: same_frame_def)
  from store_forw_ok [OF d1 i, of x] obtain h2 where h2: "store_forw i x (upd i) h1 = Some h2" "same_frame h1 h2"
    "fw h2 = (\<lambda>j q. if j = i \<and> q = upd i then Some x else fw h1 j q)" by blast
  have fr: "same_frame h h2" using h1(2) h2(2) by (rule same_frame_trans)
  then have "x \<in> dom (nodes h2)" using Suc.prems(2) by (simp add: same_frame_def)
  moreover have "upd j \<in> dom (nodes h2) \<and> upd j \<noteq> x \<and> fw h2 j (upd j) \<noteq> None" if "i + 1 \<le> j" "j < i + 1 + n" for j
    using Suc.prems(3) [of j] that fr by (simp add: same_frame_def h1(3) h2(3))
  ultimately obtain h' where h': "sk_link upd x (i + 1) n h2 = Some h'" "same_frame h2 h'"
    "fw h' = (\<lambda>j q. if i + 1 \<le> j \<and> j < i + 1 + n then (if q = upd j then Some x else if q = x then fw h2 j (upd j) else fw h2 j q) else fw h2 j q)"
    using Suc.IH [of "i + 1" h2] Suc.prems(1) by auto
  have "sk_link upd x i (Suc n) h = Some h'" using nx i h1(1) h2(1) h'(1) by (simp add: load_forw_fw)
  moreover have "fw h' = (\<lambda>j q. if i \<le> j \<and> j < i + Suc n then (if q = upd j then Some x else if q = x then fw h j (upd j) else fw h j q) else fw h j q)"
    using nx by (auto simp: fun_eq_iff h'(3) h2(3) h1(3))
  ultimately show ?case using same_frame_trans [OF fr h'(2)] by blast
qed (auto simp: fun_eq_iff intro!: exI)

lemma sk_unlink_ok:
  assumes "i + n \<le> Suc SK_MAX_LEVEL" "\<And>j. fw h (Suc j) x \<noteq> None \<Longrightarrow> fw h j x \<noteq> None"
    "\<And>j. i \<le> j \<Longrightarrow> j < i + n \<Longrightarrow> upd j \<in> dom (nodes h) \<and> upd j \<noteq> x \<and> fw h j (upd j) \<noteq> None
       \<and> (fw h j (upd j) = Some x \<longleftrightarrow> fw h j x \<noteq> None)"
  shows "\<exists>h'. sk_unlink upd x i n h = Some h' \<and> same_frame h h' \<and>
    fw h' = (\<lambda>j q. if i \<le> j \<and> j < i + n \<and> q = upd j \<and> fw h j x \<noteq> None then fw h j x else fw h j q)"
  using assms
proof (induction n arbitrary: i h)
  case (Suc n)
  note down = Suc.prems(2)
  from Suc.prems(3) [of i] obtain ux where ux: "upd i \<in> dom (nodes h)" "upd i \<noteq> x" "fw h i (upd i) = Some ux"
    "ux = x \<longleftrightarrow> fw h i x \<noteq> None" by auto
  have i: "i \<le> SK_MAX_LEVEL" using Suc.prems(1) by simp
  show ?case
  proof (cases "ux = x")
    case False
    have above: "fw h (i + j) x = None" for j
    proof (induction j)
      case (Suc j)
      then show ?case using down [of "i + j"] by (cases "fw h (Suc (i + j)) x") auto
    qed (use False ux in auto)
    have high: "fw h j x = None" if "i \<le> j" for j using above [of "j - i"] that by simp
    then have "fw h = (\<lambda>j q. if i \<le> j \<and> j < i + Suc n \<and> q = upd j \<and> fw h j x \<noteq> None then fw h j x else fw h j q)"
      by (intro ext) (use high in auto)
    moreover have "sk_unlink upd x i (Suc n) h = Some h" using False ux i by (simp add: load_forw_fw)
    ultimately show ?thesis using same_frame_refl by blast
  next
    case True
    with ux obtain nx where nx: "fw h i x = Some nx" by auto
    from store_forw_ok [OF ux(1) i, of nx] obtain h1 where h1: "store_forw i nx (upd i) h = Some h1" "same_frame h h1"
      "fw h1 = (\<lambda>j q. if j = i \<and> q = upd i then Some nx else fw h j q)" by blast
    have fx: "fw h1 j x = fw h j x" for j using ux(2) by (simp add: h1(3))
    have "upd j \<in> dom (nodes h1) \<and> upd j \<noteq> x \<and> fw h1 j (upd j) \<noteq> None \<and> (fw h1 j (upd j) = Some x \<longleftrightarrow> fw h1 j x \<noteq> None)"
      if "i + 1 \<le> j" "j < i + 1 + n" for j
      using Suc.prems(3) [of j] that h1(2) fx by (simp add: same_frame_def h1(3))
    then obtain h' where h': "sk_unlink upd x (i + 1) n h1 = Some h'" "same_frame h1 h'"
      "fw h' = (\<lambda>j q. if i + 1 \<le> j \<and> j < i + 1 + n \<and> q = upd j \<and> fw h1 j x \<noteq> None then fw h1 j x else fw h1 j q)"
      using Suc.IH [of "i + 1" h1] Suc.prems(1,2) fx by auto
    have "sk_unlink upd x i (Suc n) h = Some h'" using ux nx i h1(1) h'(1) True by (simp add: load_forw_fw)
    moreover have "fw h' j q = (if i \<le> j \<and> j < i + Suc n \<and> q = upd j \<and> fw h j x \<noteq> None then fw h j x else fw h j q)" for j q
      using nx ux(2) by (cases "j = i") (auto simp: h'(3) h1(3))
    then have "fw h' = (\<lambda>j q. if i \<le> j \<and> j < i + Suc n \<and> q = upd j \<and> fw h j x \<noteq> None then fw h j x else fw h j q)"
      by (intro ext)
    ultimately show ?thesis using same_frame_trans [OF h1(2) h'(2)] by blast
  qed
qed (auto simp: fun_eq_iff intro!: exI)

lemma sk_lower_ok:
  assumes "l \<le> SK_MAX_LEVEL" "\<And>i. i \<le> l \<Longrightarrow> fw h i hdr \<noteq> None"
  shows "\<exists>l'. sk_lower hdr h l = Some l' \<and> l' \<le> l \<and> (\<forall>i. l' < i \<and> i \<le> l \<longrightarrow> fw h i hdr = Some nullptr)"
  using assms
proof (induction l)
  case (Suc l)
  from Suc.prems(2) [of "Suc l"] obtain f where f: "fw h (Suc l) hdr = Some f" by auto
  show ?case
  proof (cases "f = nullptr")
    case True
    with Suc obtain l' where "sk_lower hdr h l = Some l'" "l' \<le> l" "\<forall>i. l' < i \<and> i \<le> l \<longrightarrow> fw h i hdr = Some nullptr" by auto
    then show ?thesis using f True Suc.prems(1) by (intro exI [of _ l']) (auto simp: load_forw_fw le_Suc_eq)
  qed (use f Suc.prems(1) in \<open>auto simp: load_forw_fw\<close>)
qed simp
subsection \<open>Insertion and removal of a node\<close>

lemma pred_at_dom: "sk_shape hdr l h ps \<Longrightarrow> pred_at k hdr h ps i \<in> insert hdr (set ps)"
  using pred_at_in [of k hdr h ps i] by (auto simp: lev_lt_def)

lemma shape_insert:
  assumes shape: "sk_shape hdr l h ps" and k: "k \<notin> key_at h ` set ps" and x: "x \<notin> dom (nodes h)" "x \<noteq> nullptr"
    and n: "n \<le> SK_MAX_LEVEL" and dom: "dom (nodes h2) = insert x (dom (nodes h))" and key: "key_at h2 = (key_at h)(x := k)"
    and fw2: "fw h2 = (\<lambda>j q. if j \<le> n \<and> q = pred_at k hdr h ps j then Some x
      else if q = x then (if j \<le> n then Some (succ_at k h ps j) else None) else fw h j q)"
  shows "sk_shape hdr (max l n) h2 (filter (\<lambda>p. key_at h p < k) ps @ x # filter (\<lambda>p. \<not> key_at h p < k) ps)" (is "sk_shape _ _ _ ?qs")
proof -
  have d: "dom (nodes h) = insert hdr (set ps)" "distinct (hdr # ps)" "l \<le> SK_MAX_LEVEL" using shape by (simp_all add: sk_shape_def)
  have xp: "x \<noteq> hdr" "x \<notin> set ps" using x(1) d(1) by auto
  have px: "pred_at k hdr h ps j \<noteq> x" for j using pred_at_dom [OF shape, of k j] xp by auto
  have def2: "fw h2 j q \<noteq> None \<longleftrightarrow> fw h j q \<noteq> None" if "q \<in> set ps" for j q
    using that xp n fw_pred [OF shape, of j k] by (auto simp: fw2)
  have setq: "set ?qs = insert x (set ps)" by auto
  have part: "filter (\<lambda>p. fw h2 j p \<noteq> None) (filter (\<lambda>p. key_at h p < k) ps) = lev_lt k h j ps"
    "filter (\<lambda>p. fw h2 j p \<noteq> None) (filter (\<lambda>p. \<not> key_at h p < k) ps) = lev_ge k h j ps" for j
    unfolding filter_filter lev_lt_def lev_ge_def by (rule filter_cong; use def2 in auto)+
  have x2: "fw h2 j x \<noteq> None \<longleftrightarrow> j \<le> n" for j using px [of j] by (auto simp: fw2)
  have levq: "lev h2 j ?qs = lev_lt k h j ps @ (if j \<le> n then x # lev_ge k h j ps else lev_ge k h j ps)" for j
    unfolding lev_def filter_append part filter.simps(2) x2 by simp
  have seg: "fseg (fw h2 j) hdr (hdr # lev h2 j ?qs) nullptr" if j: "j \<le> SK_MAX_LEVEL" for j
  proof (cases "j \<le> n")
    case True
    have "fseg (fw h2 j) hdr ((hdr # lev_lt k h j ps) @ x # lev_ge k h j ps) nullptr"
    proof (rule fseg_insert [OF shape_level(1) [OF shape j] _ shape_level(2) [OF shape j]])
      show "x \<notin> set ((hdr # lev_lt k h j ps) @ lev_ge k h j ps)" using xp by (auto simp: lev_lt_def lev_ge_def)
      then show "fw h2 j q = fw h j q" if "q \<in> set ((hdr # lev_lt k h j ps) @ lev_ge k h j ps)" "q \<noteq> last (hdr # lev_lt k h j ps)" for q
        using that by (auto simp: fw2 pred_at_def)
      show "fw h2 j (last (hdr # lev_lt k h j ps)) = Some x" using True by (simp add: fw2 pred_at_def)
      show "fw h2 j x = fw h j (last (hdr # lev_lt k h j ps))"
        using fw_pred [OF shape j, of k] True px [of j] unfolding pred_at_def [symmetric] by (simp add: fw2)
    qed simp
    then show ?thesis using True levq by simp
  next
    case False
    then have "fw h2 j q = fw h j q" if "q \<in> set (hdr # lev h2 j ?qs)" for q
      using that xp by (auto simp: fw2 levq lev_lt_def lev_ge_def)
    moreover have "hdr # lev h2 j ?qs = hdr # lev h j ps" using False lev_split [OF shape] by (simp add: levq)
    ultimately have "fseg (fw h2 j) hdr (hdr # lev h2 j ?qs) nullptr = fseg (fw h j) hdr (hdr # lev h j ps) nullptr"
      by (metis fseg_cong)
    then show ?thesis using shape j unfolding sk_shape_def by blast
  qed
  have "distinct (hdr # ?qs)" using d(2) xp by auto
  moreover have "nullptr \<notin> set ?qs" unfolding setq using x(2) shape by (auto simp: sk_shape_def)
  moreover have "dom (nodes h2) = set (hdr # ?qs)" unfolding dom d(1) by auto
  moreover have "sorted_wrt (<) (map (key_at h2) ?qs)"
  proof -
    have same: "map (key_at h2) (filter P ps) = map (key_at h) (filter P ps)" for P
      by (rule map_cong) (use xp in \<open>auto simp: key\<close>)
    have sorted: "sorted_wrt (<) (map (key_at h) (filter P ps))" for P
      using shape by (auto simp: sk_shape_def sorted_wrt_map intro: sorted_wrt_filter)
    have gt: "k < key_at h p" if "p \<in> set ps" "\<not> key_at h p < k" for p
      using that k by (metis image_eqI linorder_neqE)
    have le: "a < b" if "a \<in> set (map (key_at h) (filter (\<lambda>p. key_at h p < k) ps))"
        "b \<in> insert k (set (map (key_at h) (filter (\<lambda>p. \<not> key_at h p < k) ps)))" for a b
      using that gt less_trans [of a k b] by auto
    have "key_at h2 x = k" by (simp add: key)
    then have "map (key_at h2) ?qs = map (key_at h) (filter (\<lambda>p. key_at h p < k) ps) @ k # map (key_at h) (filter (\<lambda>p. \<not> key_at h p < k) ps)"
      by (simp only: map_append list.map same)
    moreover have "\<forall>b \<in> set (map (key_at h) (filter (\<lambda>p. \<not> key_at h p < k) ps)). k < b" using gt by auto
    ultimately show ?thesis using sorted le by (simp only: sorted_wrt_append sorted_wrt.simps list.set) blast
  qed
  moreover have "\<forall>p \<in> set ?qs. fw h2 0 p \<noteq> None \<and> (\<forall>i. fw h2 (Suc i) p \<noteq> None \<longrightarrow> fw h2 i p \<noteq> None)"
    unfolding setq using x2 def2 shape by (auto simp: sk_shape_def)
  moreover have "\<forall>p \<in> set ?qs. \<forall>i > max l n. fw h2 i p = None"
  proof (intro ballI allI impI)
    fix p i assume "p \<in> set ?qs" "i > max l n"
    then show "fw h2 i p = None" unfolding setq using x2 [of i] def2 [of p i] shape by (auto simp: sk_shape_def)
  qed
  moreover have "max l n \<le> SK_MAX_LEVEL" using d(3) n by simp
  ultimately show ?thesis using seg unfolding sk_shape_def by metis
qed

lemma shape_remove:
  assumes shape: "sk_shape hdr l h ps" and z: "z \<in> set ps" "key_at h z = k"
    and dom: "dom (nodes h2) = dom (nodes h) - {z}" and key: "\<And>q. q \<noteq> z \<Longrightarrow> key_at h2 q = key_at h q"
    and fw2: "fw h2 = (\<lambda>j q. if q = z then None else if j \<le> l \<and> q = pred_at k hdr h ps j \<and> fw h j z \<noteq> None then fw h j z else fw h j q)"
    and l': "l' \<le> l" "\<forall>i. l' < i \<and> i \<le> l \<longrightarrow> fw h2 i hdr = Some nullptr"
  shows "sk_shape hdr l' h2 (filter (\<lambda>p. p \<noteq> z) ps)" (is "sk_shape _ _ _ ?qs")
proof -
  have d: "dom (nodes h) = insert hdr (set ps)" "distinct (hdr # ps)" "l \<le> SK_MAX_LEVEL" using shape by (simp_all add: sk_shape_def)
  have up: "fw h j z = None" if "j > l" for j using shape z(1) that by (auto simp: sk_shape_def)
  have def2: "fw h2 j q \<noteq> None \<longleftrightarrow> fw h j q \<noteq> None" if "q \<in> set ?qs" for j q
    using that d(3) fw_pred [OF shape, of j k] by (auto simp: fw2)
  have levq: "lev h2 j ?qs = lev_lt k h j ps @ filter (\<lambda>p. p \<noteq> z) (lev_ge k h j ps)" for j
  proof -
    have "lev h2 j ?qs = filter (\<lambda>p. p \<noteq> z) (lev h j ps)"
      unfolding lev_def filter_filter by (rule filter_cong) (use def2 in auto)
    also have "\<dots> = filter (\<lambda>p. p \<noteq> z) (lev_lt k h j ps) @ filter (\<lambda>p. p \<noteq> z) (lev_ge k h j ps)"
      by (simp add: lev_split [OF shape, of j k])
    also have "filter (\<lambda>p. p \<noteq> z) (lev_lt k h j ps) = lev_lt k h j ps"
      using z(2) by (auto simp: filter_id_conv lev_lt_set)
    finally show ?thesis .
  qed
  have seg: "fseg (fw h2 j) hdr (hdr # lev h2 j ?qs) nullptr" if j: "j \<le> SK_MAX_LEVEL" for j
  proof (cases "fw h j z = None")
    case True
    then have "filter (\<lambda>p. p \<noteq> z) (lev_ge k h j ps) = lev_ge k h j ps" by (auto simp: filter_id_conv lev_ge_set)
    then have same: "hdr # lev h2 j ?qs = hdr # lev h j ps" using lev_split [OF shape] by (simp add: levq)
    have "z \<notin> set (hdr # lev h j ps)" using True z(1) d(2) by (auto simp: lev_def)
    then have "fseg (fw h2 j) hdr (hdr # lev h j ps) nullptr = fseg (fw h j) hdr (hdr # lev h j ps) nullptr"
      using True by (intro fseg_cong) (auto simp: fw2)
    then show ?thesis unfolding same using shape j by (auto simp: sk_shape_def)
  next
    case False
    then have jl: "j \<le> l" using up [of j] by (cases "j \<le> l") auto
    from succ_at_key(2) [OF shape z False] obtain zs where zs: "lev_ge k h j ps = z # zs" by blast
    note dist = shape_level(2) [OF shape j, of k, unfolded zs]
    then have "filter (\<lambda>p. p \<noteq> z) (lev_ge k h j ps) = zs" unfolding zs by (auto simp: filter_id_conv)
    then have eq: "hdr # lev h2 j ?qs = (hdr # lev_lt k h j ps) @ zs" by (simp add: levq)
    have lz: "last (hdr # lev_lt k h j ps) \<noteq> z"
      using dist last_in_set [of "hdr # lev_lt k h j ps"] by (auto simp del: last.simps)
    show ?thesis
      unfolding eq
    proof (rule fseg_remove [OF shape_level(1) [OF shape j, of k, unfolded zs] _ dist])
      show "fw h2 j q = fw h j q" if "q \<in> set ((hdr # lev_lt k h j ps) @ zs)" "q \<noteq> last (hdr # lev_lt k h j ps)" for q
        using that dist by (auto simp: fw2 pred_at_def)
      show "fw h2 j (last (hdr # lev_lt k h j ps)) = fw h j z" using False jl lz by (simp add: fw2 pred_at_def)
    qed simp
  qed
  have empty: "fw h2 i p = None" if "p \<in> set ?qs" "i > l'" for i p
  proof (cases "i \<le> l")
    case True
    then have i: "i \<le> SK_MAX_LEVEL" "fw h2 i hdr = Some nullptr" using d(3) l' that by auto
    then have "fseg (fw h2 i) nullptr (lev h2 i ?qs) nullptr" using seg [OF i(1)] by auto
    from fseg_start [OF this] have "lev h2 i ?qs = [] \<or> hd (lev h2 i ?qs) = nullptr" by metis
    moreover have "nullptr \<notin> set (lev h2 i ?qs)" using shape by (auto simp: sk_shape_def lev_def)
    ultimately have "lev h2 i ?qs = []" using hd_in_set by metis
    then show ?thesis using that(1) unfolding lev_def filter_empty_conv by blast
  next
    case False
    then have "fw h i p = None" using that shape by (auto simp: sk_shape_def)
    then show ?thesis using def2 [OF that(1), of i] by simp
  qed
  have "map (key_at h2) ?qs = map (key_at h) ?qs" using key by simp
  moreover have "sorted_wrt (<) (map (key_at h) ?qs)"
    using shape by (auto simp: sk_shape_def sorted_wrt_map intro: sorted_wrt_filter)
  moreover have "dom (nodes h2) = set (hdr # ?qs)" unfolding dom d(1) using d(2) z(1) by auto
  moreover have "\<forall>p \<in> set ?qs. fw h2 0 p \<noteq> None \<and> (\<forall>i. fw h2 (Suc i) p \<noteq> None \<longrightarrow> fw h2 i p \<noteq> None)"
  proof (intro ballI)
    fix p assume p: "p \<in> set ?qs"
    then show "fw h2 0 p \<noteq> None \<and> (\<forall>i. fw h2 (Suc i) p \<noteq> None \<longrightarrow> fw h2 i p \<noteq> None)"
      unfolding def2 [OF p] using shape by (auto simp: sk_shape_def)
  qed
  moreover have "distinct (hdr # ?qs)" "nullptr \<notin> set ?qs" "l' \<le> SK_MAX_LEVEL"
    using d(2,3) l'(1) shape_node(1) [OF shape] by auto
  ultimately show ?thesis using seg empty unfolding sk_shape_def by metis
qed
subsection \<open>Every operation implements the set\<close>

lemma key_image_insert:
  "key_at h2 = (key_at h)(x := k) \<Longrightarrow> x \<notin> set ps \<Longrightarrow>
    key_at h2 ` set (filter (\<lambda>p. key_at h p < k) ps @ x # filter (\<lambda>p. \<not> key_at h p < (k :: 'k::linorder)) ps) = insert k (key_at h ` set ps)"
  by (auto simp: image_iff)

lemma fst_random_level: "fst (random_level draw r) = min (fst (draw r)) (int SK_MAX_LEVEL)"
  by (auto simp: random_level_def Let_def split: prod.splits)

lemma sk_repI:
  "sk_shape hdr l h ps \<Longrightarrow> key_at h ` set ps = A \<Longrightarrow> arrays h = Map.empty \<Longrightarrow> heap_ok ainv h \<Longrightarrow>
    sk_header s = hdr \<Longrightarrow> sk_level s = l \<Longrightarrow> sk_heap s = h \<Longrightarrow> sk_rep ainv s A"
  unfolding sk_rep_def by blast

context tm_alloc
begin

lemma sk_add_ok:
  assumes rep: "sk_rep ainv s A" and sz: "unat sz \<le> max_request" and draw: "0 \<le> fst (draw (sk_rand s))"
  shows "sk_add draw TM sz k s = Some (r, s') \<Longrightarrow> r = (k \<notin> A) \<and> sk_rep ainv s' (insert k A)"
    and "fst (tm_malloc TM sz (pool (sk_heap s))) \<noteq> nullptr \<Longrightarrow> sk_add draw TM sz k s \<noteq> None"
proof -
  let ?h = "sk_heap s" and ?hd = "sk_header s" and ?l = "sk_level s"
  from rep obtain ps where shape: "sk_shape ?hd ?l ?h ps" and A: "A = key_at ?h ` set ps"
    and ok: "arrays ?h = Map.empty" "heap_ok ainv ?h" by (auto simp: sk_rep_def)
  have l: "?l \<le> SK_MAX_LEVEL" using shape by (simp add: sk_shape_def)
  define upd where "upd = (\<lambda>j. if j \<le> ?l then pred_at k ?hd ?h ps j else nullptr)"
  obtain lvl rr where lr: "random_level draw (sk_rand s) = (lvl, rr)" by (rule prod.exhaust)
  have lvl: "0 \<le> lvl" "lvl \<le> int SK_MAX_LEVEL" using fst_random_level [of draw "sk_rand s"] draw lr by auto
  define upd1 where "upd1 = (if lvl > int ?l then (\<lambda>i. if ?l < i \<and> int i \<le> lvl then ?hd else upd i) else upd)"
  define l1 where "l1 = (if lvl > int ?l then nat lvl else ?l)"
  have l1: "l1 = max ?l (nat lvl)" using lvl by (auto simp: l1_def)
  have high: "lev_lt k ?h j ps = []" if "j > ?l" for j using shape that by (auto simp: lev_lt_def filter_empty_conv sk_shape_def)
  have upd1: "upd1 j = pred_at k ?hd ?h ps j" if "int j \<le> lvl" for j
    using that high [of j] by (auto simp: upd1_def upd_def pred_at_def)
  have step: "sk_add draw TM sz k s = (if k \<in> A then Some (False, s)
      else do { (p, h1) \<leftarrow> tmNew TM sz (snode_new lvl k) ?h;
                h2 \<leftarrow> sk_link upd1 p 0 (Suc (nat lvl)) h1;
                Some (True, s\<lparr>sk_level := l1, sk_rand := rr, sk_heap := h2\<rparr>) })"
    using sk_search_top [OF shape, of k "\<lambda>_. nullptr"] fw_pred [OF shape, of 0 k] sk_match_succ(1) [OF shape, of k] lr lvl(1)
    by (simp add: sk_add_def load_forw_fw upd_def [symmetric] A [symmetric] Let_def upd1_def l1_def Suc_nat_eq_nat_zadd1 add.commute
        del: sk_search.simps sk_link.simps)
  have link: "\<exists>h2. sk_link upd1 p 0 (Suc (nat lvl)) h1 = Some h2 \<and> sk_rep ainv (s\<lparr>sk_level := l1, sk_rand := rr, sk_heap := h2\<rparr>) (insert k A)"
    if new: "tmNew TM sz (snode_new lvl k) ?h = Some (p, h1)" and kA: "k \<notin> A" for p h1
  proof -
    note fresh = tmNew_ok [OF ok(2) sz new]
    have p: "p \<notin> dom (nodes ?h)" using fresh(4) by auto
    have d: "dom (nodes ?h) = insert ?hd (set ps)" using shape by (simp add: sk_shape_def)
    have fw1: "fw h1 = (\<lambda>j q. if q = p then (if int j \<le> lvl then Some nullptr else None) else fw ?h j q)"
      and key1: "key_at h1 = (key_at ?h)(p := k)"
      by (auto simp: fw_def key_at_def fresh(2) snode_new_def fun_eq_iff)
    have u: "upd1 j \<in> dom (nodes h1) \<and> upd1 j \<noteq> p \<and> fw h1 j (upd1 j) = Some (succ_at k ?h ps j)" if "int j \<le> lvl" for j
    proof -
      have "upd1 j \<in> insert ?hd (set ps)" using pred_at_dom [OF shape, of k j] upd1 [OF that] by simp
      then have "upd1 j \<in> dom (nodes ?h)" by (simp add: d)
      moreover from this p have "upd1 j \<noteq> p" by metis
      ultimately show ?thesis using fw_pred [OF shape, of j k] that lvl(2) by (simp add: fw1 fresh(2) upd1)
    qed
    have n24: "0 + Suc (nat lvl) \<le> Suc SK_MAX_LEVEL" and pin: "p \<in> dom (nodes h1)" using lvl fresh(2) by auto
    have uu: "upd1 j \<in> dom (nodes h1) \<and> upd1 j \<noteq> p \<and> fw h1 j (upd1 j) \<noteq> None" if "0 \<le> j" "j < 0 + Suc (nat lvl)" for j
    proof -
      have "int j \<le> lvl" using that lvl(1) by linarith
      from u [OF this] show ?thesis by simp
    qed
    obtain h2 where h2: "sk_link upd1 p 0 (Suc (nat lvl)) h1 = Some h2" "same_frame h1 h2"
      "fw h2 = (\<lambda>j q. if 0 \<le> j \<and> j < 0 + Suc (nat lvl) then (if q = upd1 j then Some p else if q = p then fw h1 j (upd1 j) else fw h1 j q) else fw h1 j q)"
      using sk_link_ok [OF n24 pin uu] by blast
    have "fw h2 j q = (if j \<le> nat lvl \<and> q = pred_at k ?hd ?h ps j then Some p
        else if q = p then (if j \<le> nat lvl then Some (succ_at k ?h ps j) else None) else fw ?h j q)" for j q
    proof (cases "j \<le> nat lvl")
      case True
      then have j: "int j \<le> lvl" using lvl(1) by linarith
      then show ?thesis using True u [OF j] upd1 [OF j] by (simp add: h2(3)) (simp add: fw1)
    next
      case False
      then have "\<not> int j \<le> lvl" by linarith
      with False show ?thesis by (simp add: h2(3) fw1)
    qed
    then have fw2: "fw h2 = (\<lambda>j q. if j \<le> nat lvl \<and> q = pred_at k ?hd ?h ps j then Some p
        else if q = p then (if j \<le> nat lvl then Some (succ_at k ?h ps j) else None) else fw ?h j q)" by (intro ext)
    have fr: "dom (nodes h2) = insert p (dom (nodes ?h))" "key_at h2 = (key_at ?h)(p := k)" "arrays h2 = arrays ?h" "heap_ok ainv h2"
      using h2(2) fresh(1,2,3) key1 heap_ok_cong [of ainv h1 h2] by (auto simp: same_frame_def)
    have pps: "p \<notin> set ps" using p by (simp add: d)
    have "nat lvl \<le> SK_MAX_LEVEL" using lvl by simp
    note shape2 = shape_insert [OF shape kA [unfolded A] p fresh(6) this fr(1,2) fw2]
    have "sk_rep ainv (s\<lparr>sk_level := l1, sk_rand := rr, sk_heap := h2\<rparr>) (insert k A)"
      unfolding A l1 by (rule sk_repI [OF shape2 key_image_insert [OF fr(2) pps]]) (simp_all add: fr(3,4) ok(1))
    with h2(1) show ?thesis by blast
  qed
  show "r = (k \<notin> A) \<and> sk_rep ainv s' (insert k A)" if run: "sk_add draw TM sz k s = Some (r, s')"
  proof (cases "k \<in> A")
    case True
    then show ?thesis using run rep unfolding step by (auto simp: insert_absorb)
  next
    case False
    then obtain p h1 where "tmNew TM sz (snode_new lvl k) ?h = Some (p, h1)" using run unfolding step by (auto simp: ret_simps simp del: sk_link.simps)
    with link [OF this False] run False show ?thesis unfolding step by (auto simp del: sk_link.simps)
  qed
  show "sk_add draw TM sz k s \<noteq> None" if room: "fst (tm_malloc TM sz (pool ?h)) \<noteq> nullptr"
  proof (cases "k \<in> A")
    case False
    obtain p h1 where new: "tmNew TM sz (snode_new lvl k) ?h = Some (p, h1)"
      using room tmNew_fails by (metis option.exhaust surj_pair)
    with link [OF new False] False show ?thesis unfolding step by (auto simp del: sk_link.simps)
  qed (simp add: step)
qed

lemma sk_add_rand:
  assumes "sk_rep ainv s A" "sk_add draw TM sz k s = Some (r, s')"
  shows "sk_rand s' = sk_rand s \<or> sk_rand s' = snd (draw (sk_rand s))"
  using assms(2)
  by (auto simp: sk_add_def random_level_def Let_def ret_simps split: prod.splits if_splits)

lemma sk_remove_ok:
  assumes rep: "sk_rep ainv s A"
  shows "\<exists>s'. sk_remove TM k s = Some (k \<in> A, s') \<and> sk_rep ainv s' (A - {k})"
proof -
  let ?h = "sk_heap s" and ?hd = "sk_header s" and ?l = "sk_level s"
  from rep obtain ps where shape: "sk_shape ?hd ?l ?h ps" and A: "A = key_at ?h ` set ps"
    and ok: "arrays ?h = Map.empty" "heap_ok ainv ?h" by (auto simp: sk_rep_def)
  have l: "?l \<le> SK_MAX_LEVEL" using shape by (simp add: sk_shape_def)
  have d: "dom (nodes ?h) = insert ?hd (set ps)" "distinct (?hd # ps)" using shape by (simp_all add: sk_shape_def)
  define upd where "upd = (\<lambda>j. if j \<le> ?l then pred_at k ?hd ?h ps j else nullptr)"
  let ?z = "succ_at k ?h ps 0"
  have step: "sk_remove TM k s = (if k \<notin> A then Some (False, s)
      else do { h1 \<leftarrow> sk_unlink upd ?z 0 (Suc ?l) ?h; h2 \<leftarrow> tmDelete TM ?z h1; l \<leftarrow> sk_lower ?hd h2 ?l;
                Some (True, s\<lparr>sk_level := l, sk_heap := h2\<rparr>) })"
    using sk_search_top [OF shape, of k "\<lambda>_. nullptr"] fw_pred [OF shape, of 0 k] sk_match_succ(1) [OF shape, of k]
    by (simp add: sk_remove_def load_forw_fw upd_def [symmetric] A [symmetric] del: sk_search.simps sk_unlink.simps)
  show ?thesis
  proof (cases "k \<in> A")
    case False
    then show ?thesis using rep by (simp add: step)
  next
    case True
    then have z: "?z \<in> set ps" "key_at ?h ?z = k" using sk_match_succ(2) [OF shape, of k] by (auto simp: A)
    have down: "fw ?h (Suc j) ?z \<noteq> None \<Longrightarrow> fw ?h j ?z \<noteq> None" for j using shape z(1) unfolding sk_shape_def by blast
    have zh: "?z \<noteq> ?hd" by (rule shape_node(2) [OF shape z(1)])
    have pz: "pred_at k ?hd ?h ps j \<noteq> ?z" for j
      using pred_at_in [of k ?hd ?h ps j] z(2) zh by (auto simp: lev_lt_set)
    have "upd j \<in> dom (nodes ?h) \<and> upd j \<noteq> ?z \<and> fw ?h j (upd j) \<noteq> None \<and> (fw ?h j (upd j) = Some ?z \<longleftrightarrow> fw ?h j ?z \<noteq> None)"
      if "j < Suc ?l" for j
    proof -
      have "upd j = pred_at k ?hd ?h ps j" using that by (simp add: upd_def)
      then show ?thesis
        using pred_at_dom [OF shape, of k j] pz [of j] fw_pred [OF shape, of j k] succ_at_key(1) [OF shape z, of j] that l by (simp add: d(1))
    qed
    then obtain h1 where h1: "sk_unlink upd ?z 0 (Suc ?l) ?h = Some h1" "same_frame ?h h1"
      "fw h1 = (\<lambda>j q. if 0 \<le> j \<and> j < 0 + Suc ?l \<and> q = upd j \<and> fw ?h j ?z \<noteq> None then fw ?h j ?z else fw ?h j q)"
      using sk_unlink_ok [of 0 "Suc ?l" ?h ?z upd] l down by auto
    have ok1: "heap_ok ainv h1" "arrays h1 = Map.empty" using h1(2) ok heap_ok_cong [of ainv ?h h1] by (auto simp: same_frame_def)
    have "?z \<in> dom (nodes h1)" using h1(2) z(1) by (simp add: same_frame_def d(1))
    then obtain nz where nz: "nodes h1 ?z = Some nz" by blast
    from tmDelete_ok [OF ok1(1) nz] ok1(2) obtain h2 where h2: "tmDelete TM ?z h1 = Some h2" "heap_ok ainv h2"
      "nodes h2 = (nodes h1)(?z := None)" "arrays h2 = Map.empty" by auto
    have fw2: "fw h2 = (\<lambda>j q. if q = ?z then None else if j \<le> ?l \<and> q = pred_at k ?hd ?h ps j \<and> fw ?h j ?z \<noteq> None then fw ?h j ?z else fw ?h j q)"
    proof (intro ext)
      fix j q
      have "fw h2 j q = (if q = ?z then None else fw h1 j q)" by (simp add: fw_def h2(3))
      then show "fw h2 j q = (if q = ?z then None else if j \<le> ?l \<and> q = pred_at k ?hd ?h ps j \<and> fw ?h j ?z \<noteq> None then fw ?h j ?z else fw ?h j q)"
        by (auto simp: h1(3) upd_def less_Suc_eq_le)
    qed
    have dom2: "dom (nodes h2) = dom (nodes ?h) - {?z}" using h1(2) by (simp add: h2(3) same_frame_def)
    have key2: "key_at h2 q = key_at ?h q" if "q \<noteq> ?z" for q
      using that fun_cong [OF h1(2) [unfolded same_frame_def, THEN conjunct2, THEN conjunct1], of q] by (simp add: key_at_def h2(3))
    have hdr: "fw h2 i ?hd \<noteq> None" if "i \<le> ?l" for i
    proof -
      have "fw ?h i ?hd \<noteq> None" using shape that l fseg_defined [of "fw ?h i" ?hd "?hd # lev ?h i ps" nullptr ?hd] by (auto simp: sk_shape_def)
      then show ?thesis using zh by (auto simp: fw2)
    qed
    obtain l' where l': "sk_lower ?hd h2 ?l = Some l'" "l' \<le> ?l" "\<forall>i. l' < i \<and> i \<le> ?l \<longrightarrow> fw h2 i ?hd = Some nullptr"
      using sk_lower_ok [OF l hdr] by blast
    note shape2 = shape_remove [OF shape z dom2 key2 fw2 l'(2,3)]
    have "key_at h2 ` set (filter (\<lambda>p. p \<noteq> ?z) ps) = key_at ?h ` (set ps - {?z})" using key2 by (intro image_cong) auto
    also have "\<dots> = A - {k}"
    proof -
      have "distinct (map (key_at ?h) ps)" using shape strict_sorted_iff [of "map (key_at ?h) ps"] by (simp add: sk_shape_def)
      then have "inj_on (key_at ?h) (set ps)" by (simp add: distinct_map)
      from inj_on_image_set_diff [OF this, of "set ps" "{?z}"] show ?thesis using z by (simp add: A)
    qed
    finally have img: "key_at h2 ` set (filter (\<lambda>p. p \<noteq> ?z) ps) = A - {k}" .
    have "sk_rep ainv (s\<lparr>sk_level := l', sk_heap := h2\<rparr>) (A - {k})"
      by (rule sk_repI [OF shape2 img h2(4,2)]) simp_all
    then show ?thesis using True h1(1) h2(1) l'(1) by (intro exI [of _ "s\<lparr>sk_level := l', sk_heap := h2\<rparr>"]) (simp add: step del: sk_unlink.simps)
  qed
qed

lemma sk_new_ok:
  assumes "heap_ok ainv h" "nodes h = Map.empty" "arrays h = Map.empty" "unat sz \<le> max_request" "sk_new TM sz r h = Some s"
  shows "sk_rep ainv s {}"
proof -
  from assms(5) obtain p h1 where new: "tmNew TM sz (snode_new (int SK_MAX_LEVEL) 0) h = Some (p, h1)"
    and s: "s = \<lparr>sk_header = p, sk_level = 0, sk_rand = r, sk_heap = h1\<rparr>"
    by (auto simp: sk_new_def ret_simps)
  note fresh = tmNew_ok [OF assms(1,4) new]
  have "fw h1 i p = Some nullptr" if "i \<le> SK_MAX_LEVEL" for i using that by (simp add: fw_def fresh(2) snode_new_def)
  then have "sk_shape p 0 h1 []" using fresh(2) assms(2) by (simp add: sk_shape_def lev_def)
  then show ?thesis using fresh(1,3) assms(3) unfolding sk_rep_def s by (intro exI [of _ "[]"]) simp
qed

end


subsection \<open>The contract, on the allocator of the repository\<close>

text \<open>
  Every number the generator will draw is a level: rand never returns 0, whose logarithm is
  infinite and has no defined value as an int.
\<close>

definition draws_ok :: "('r \<Rightarrow> int \<times> 'r) \<Rightarrow> 'r \<Rightarrow> bool" where
  "draws_ok draw r \<longleftrightarrow> (\<forall>n. 0 \<le> fst (draw (((\<lambda>r. snd (draw r)) ^^ n) r)))"

lemma draws_ok_next: "draws_ok draw r \<Longrightarrow> 0 \<le> fst (draw r) \<and> draws_ok draw (snd (draw r))"
proof -
  assume ok: "draws_ok draw r"
  then have all: "0 \<le> fst (draw (((\<lambda>r. snd (draw r)) ^^ n) r))" for n by (simp add: draws_ok_def)
  have "((\<lambda>r. snd (draw r)) ^^ Suc n) r = ((\<lambda>r. snd (draw r)) ^^ n) (snd (draw r))" for n
    by (simp only: funpow_Suc_right comp_apply)
  then show ?thesis using all [of 0] all [of "Suc n" for n] unfolding draws_ok_def by simp
qed

definition sk_set :: "('r \<Rightarrow> int \<times> 'r) \<Rightarrow> u64 \<Rightarrow> ('k::{linorder,zero}, 'r, esloco) skiplist \<Rightarrow> 'k set \<Rightarrow> bool" where
  "sk_set draw sz s A \<longleftrightarrow> unat sz \<le> esl_max_request \<and> sk_rep esl_inv s A \<and> draws_ok draw (sk_rand s)"

definition sk_room :: "u64 \<Rightarrow> 'k \<Rightarrow> ('k, 'r, esloco) skiplist \<Rightarrow> bool" where
  "sk_room sz k s \<longleftrightarrow> fst (esl_malloc sz (pool (sk_heap s))) \<noteq> nullptr"

interpretation sk: set_contract "sk_set draw sz" "\<lambda>_. True" "sk_room sz" "sk_add draw esl_tm sz" "sk_remove esl_tm" sk_contains
  for draw sz
proof unfold_locales
  fix s A and k and r s'
  assume s: "sk_set draw sz s A" and add: "sk_add draw esl_tm sz k s = Some (r, s')"
  then have "sk_rand s' = sk_rand s \<or> sk_rand s' = snd (draw (sk_rand s))" "draws_ok draw (sk_rand s)"
    using eslh.sk_add_rand [OF _ add] by (auto simp: sk_set_def)
  then have "draws_ok draw (sk_rand s')" using draws_ok_next by metis
  with s add show "r = (k \<notin> A) \<and> sk_set draw sz s' (insert k A)"
    using eslh.sk_add_ok(1) [of s A sz draw k r s'] draws_ok_next [of draw "sk_rand s"] by (auto simp: sk_set_def)
next
  fix s A and k
  assume "sk_set draw sz s A" "sk_room sz k s"
  then show "sk_add draw esl_tm sz k s \<noteq> None"
    using eslh.sk_add_ok(2) [of s A sz draw k] draws_ok_next [of draw "sk_rand s"] by (auto simp: sk_set_def sk_room_def esl_tm_def)
next
  fix s A and k
  assume s: "sk_set draw sz s A"
  moreover obtain s' where "sk_remove esl_tm k s = Some (k \<in> A, s')" "sk_rep esl_inv s' (A - {k})"
    using s eslh.sk_remove_ok [of s A k] by (auto simp: sk_set_def)
  moreover from this(1) have "sk_rand s' = sk_rand s" by (auto simp: sk_remove_def ret_simps split: if_splits)
  ultimately show "\<exists>s'. sk_remove esl_tm k s = Some (k \<in> A, s') \<and> sk_set draw sz s' (A - {k})"
    by (auto simp: sk_set_def)
next
  fix s A and k
  assume "sk_set draw sz s A"
  then show "sk_contains k s = Some (k \<in> A)"
    by (auto simp: sk_set_def sk_rep_def sk_contains_shape)
qed

text \<open>What the destructor leaves behind.\<close>

lemma sk_delete_leaks:
  assumes "sk_rep esl_inv s A"
  shows "\<exists>h'. sk_delete esl_tm s = Some h' \<and> card (dom (nodes h')) = card A"
proof -
  from assms obtain ps where shape: "sk_shape (sk_header s) (sk_level s) (sk_heap s) ps" and A: "A = key_at (sk_heap s) ` set ps"
    and ok: "heap_ok esl_inv (sk_heap s)" by (auto simp: sk_rep_def)
  then have d: "dom (nodes (sk_heap s)) = insert (sk_header s) (set ps)" "sk_header s \<notin> set ps" by (simp_all add: sk_shape_def)
  then obtain n where "nodes (sk_heap s) (sk_header s) = Some n" by blast
  from eslh.tmDelete_ok [OF ok this] obtain h' where h': "tmDelete esl_tm (sk_header s) (sk_heap s) = Some h'"
    "nodes h' = (nodes (sk_heap s))(sk_header s := None)" by blast
  have "distinct (map (key_at (sk_heap s)) ps)" using shape strict_sorted_iff [of "map (key_at (sk_heap s)) ps"] by (simp add: sk_shape_def)
  then have "card A = card (set ps)" unfolding A by (simp add: distinct_map card_image)
  moreover have "dom (nodes h') = set ps" using d by (auto simp: h'(2))
  ultimately show ?thesis using h'(1) by (simp add: sk_delete_def)
qed

subsection \<open>Property\<close>

text \<open>
  C36: as long as no negative level is drawn (the generator of the C library does draw one when
  rand() is 0, and the added key is then lost), a skip list answers any sequence of add, remove
  and contains requests exactly as an abstract set does, whatever the levels are, and the
  sequence stops only at an addition for which the allocator has no memory. The destructor then
  returns, but leaves every element of the set allocated.
\<close>

theorem sk_requests_correct:
  fixes ops :: "('k::{linorder,zero}) set_op list"
  assumes "heap_ok esl_inv h" "nodes h = Map.empty" "arrays h = Map.empty"
    "unat sz \<le> esl_max_request" "sk_new esl_tm sz r h = Some s" "draws_ok draw r"
  shows "case impl_run (sk_add draw esl_tm sz) (sk_remove esl_tm) sk_contains ops s of
      Some (rs, s') \<Rightarrow> (rs, key_at (sk_heap s') ` (dom (nodes (sk_heap s')) - {sk_header s'})) = set_run ops {}
        \<and> (\<exists>h'. sk_delete esl_tm s' = Some h' \<and> card (dom (nodes h')) = card (snd (set_run ops {})))
    | None \<Rightarrow> \<exists>ys k zs rs s1. ops = ys @ Add k # zs
        \<and> impl_run (sk_add draw esl_tm sz) (sk_remove esl_tm) sk_contains ys s = Some (rs, s1)
        \<and> fst (esl_malloc sz (pool (sk_heap s1))) = nullptr"
proof -
  have "sk_rand s = r" using assms(5) by (auto simp: sk_new_def ret_simps)
  then have rep: "sk_set draw sz s {}"
    using eslh.sk_new_ok [OF assms(1-5)] assms(4,6) by (simp add: sk_set_def)
  show ?thesis
  proof (cases "impl_run (sk_add draw esl_tm sz) (sk_remove esl_tm) sk_contains ops s")
    case None
    from sk.run_stuck [OF rep _ this] None show ?thesis by (auto simp: sk_room_def)
  next
    case (Some y)
    obtain rs s' where y: "y = (rs, s')" by (cases y)
    from sk.run_correct [OF rep _, of ops rs s'] Some y
    have r: "rs = fst (set_run ops {})" "sk_rep esl_inv s' (snd (set_run ops {}))" by (auto simp: sk_set_def)
    moreover have "key_at (sk_heap s') ` (dom (nodes (sk_heap s')) - {sk_header s'}) = snd (set_run ops {})"
    proof -
      from r(2) obtain ps where "sk_shape (sk_header s') (sk_level s') (sk_heap s') ps"
        "snd (set_run ops {}) = key_at (sk_heap s') ` set ps" by (auto simp: sk_rep_def)
      moreover from this(1) have "dom (nodes (sk_heap s')) - {sk_header s'} = set ps" by (auto simp: sk_shape_def)
      ultimately show ?thesis by simp
    qed
    ultimately show ?thesis using sk_delete_leaks [OF r(2)] Some y by (simp add: prod_eq_iff)
  qed
qed

definition sk_example :: "(nat, int list, esloco) skiplist" where
  "sk_example = the (sk_new esl_tm 208 [1, 0] esl_heap)"

definition draw_example :: "int list \<Rightarrow> int \<times> int list" where
  "draw_example r = (case r of [] \<Rightarrow> (1, []) | x # xs \<Rightarrow> (\<bar>x\<bar>, xs))"

lemma draw_example_ok: "draws_ok draw_example r"
  by (auto simp: draws_ok_def draw_example_def split: list.splits)

lemma sk_example_new: "sk_new esl_tm 208 [1, 0] esl_heap = Some sk_example"
proof -
  have "\<not> Option.is_none (sk_new esl_tm 208 [1, 0 :: int] esl_heap :: (nat, int list, esloco) skiplist option)" by code_simp
  then show ?thesis by (auto simp: Option.is_none_def sk_example_def)
qed

theorem sk_requests_correct_witness:
  "map_option fst (impl_run (sk_add draw_example esl_tm 208) (sk_remove esl_tm) sk_contains
     [Add 5, Add 3, Remove 5, Contains (3::nat)] sk_example)
   = Some [True, True, True, True]"
proof -
  let ?ops = "[Add 5, Add 3, Remove 5, Contains (3::nat)]"
  let ?r = "impl_run (sk_add draw_example esl_tm 208) (sk_remove esl_tm) sk_contains ?ops sk_example"
  have "\<not> Option.is_none ?r" by code_simp
  then obtain rs s' where r: "?r = Some (rs, s')" by (auto simp: Option.is_none_def)
  have "unat (208 :: u64) \<le> esl_max_request" by (simp add: esl_max_request_def)
  from sk_requests_correct [OF esl_heap_ok this sk_example_new draw_example_ok, of ?ops] r
  have "rs = fst (set_run ?ops {})" by (simp add: prod_eq_iff)
  also have "\<dots> = [True, True, True, True]" by simp
  finally show ?thesis using r by simp
qed

end
