(* ===== verification/QueueContract.thy ===== *)
theory QueueContract
  imports PTM_Prelude
begin

text \<open>
  What a first-in first-out queue promises: enqueue appends when the queue accepts the item,
  dequeue takes the oldest item or answers EMPTY. A queue is bounded when it stops accepting.
\<close>

datatype 'x q_op = Enq 'x | Deq

text \<open>The sequential specification; a request returns whether it enqueued, or what it dequeued.\<close>

fun q_step :: "('x list \<Rightarrow> bool) \<Rightarrow> 'x \<Rightarrow> 'x q_op \<Rightarrow> 'x list \<Rightarrow> (bool + 'x) \<times> 'x list" where
  "q_step acc emp (Enq x) xs = (if acc xs then (Inl True, xs @ [x]) else (Inl False, xs))"
| "q_step acc emp Deq xs = (case xs of [] \<Rightarrow> (Inr emp, []) | y # ys \<Rightarrow> (Inr y, ys))"

fun q_run :: "('x list \<Rightarrow> bool) \<Rightarrow> 'x \<Rightarrow> 'x q_op list \<Rightarrow> 'x list \<Rightarrow> (bool + 'x) list \<times> 'x list" where
  "q_run acc emp [] xs = ([], xs)"
| "q_run acc emp (x # ops) xs =
     (let (r, xs1) = q_step acc emp x xs; (rs, xs2) = q_run acc emp ops xs1 in (r # rs, xs2))"

fun q_impl_step ::
  "('x \<Rightarrow> 's \<Rightarrow> (bool \<times> 's) option) \<Rightarrow> ('s \<Rightarrow> ('x \<times> 's) option) \<Rightarrow> 'x q_op \<Rightarrow> 's
    \<Rightarrow> ((bool + 'x) \<times> 's) option" where
  "q_impl_step enq deq (Enq x) s = map_option (\<lambda>(b, s'). (Inl b, s')) (enq x s)"
| "q_impl_step enq deq Deq s = map_option (\<lambda>(x, s'). (Inr x, s')) (deq s)"

fun q_impl_run ::
  "('x \<Rightarrow> 's \<Rightarrow> (bool \<times> 's) option) \<Rightarrow> ('s \<Rightarrow> ('x \<times> 's) option) \<Rightarrow> 'x q_op list \<Rightarrow> 's
    \<Rightarrow> ((bool + 'x) list \<times> 's) option" where
  "q_impl_run enq deq [] s = Some ([], s)"
| "q_impl_run enq deq (x # xs) s =
     do { (r, s1) \<leftarrow> q_impl_step enq deq x s;
          (rs, s2) \<leftarrow> q_impl_run enq deq xs s1;
          Some (r # rs, s2) }"

text \<open>The items a run accepted, and the items it handed out, in the order of the requests.\<close>

fun enqueued :: "'x q_op list \<Rightarrow> (bool + 'x) list \<Rightarrow> 'x list" where
  "enqueued (Enq x # ops) (Inl True # rs) = x # enqueued ops rs"
| "enqueued (_ # ops) (_ # rs) = enqueued ops rs"
| "enqueued _ _ = []"

fun dequeued :: "'x \<Rightarrow> (bool + 'x) list \<Rightarrow> 'x list" where
  "dequeued emp (Inr y # rs) = (if y = emp then dequeued emp rs else y # dequeued emp rs)"
| "dequeued emp (_ # rs) = dequeued emp rs"
| "dequeued emp [] = []"

lemma q_run_fifo:
  assumes "emp \<notin> set xs" "Enq emp \<notin> set ops" "q_run acc emp ops xs = (rs, ys)"
  shows "xs @ enqueued ops rs = dequeued emp rs @ ys"
  using assms
proof (induction ops arbitrary: xs rs)
  case (Cons x ops)
  let ?r = "fst (q_step acc emp x xs)" and ?xs1 = "snd (q_step acc emp x xs)"
  obtain rs1 where run: "q_run acc emp ops ?xs1 = (rs1, ys)" and rs: "rs = ?r # rs1"
    using Cons.prems(3) by (auto simp: Let_def split: prod.splits)
  show ?case
  proof (cases x)
    case (Enq y)
    then have "emp \<notin> set ?xs1" "Enq emp \<notin> set ops" using Cons.prems(1,2) by auto
    from Cons.IH [OF this run] rs Enq show ?thesis by (cases "acc xs") auto
  next
    case Deq
    then have "emp \<notin> set ?xs1" "Enq emp \<notin> set ops" using Cons.prems(1,2)
      by (auto split: list.splits)
    from Cons.IH [OF this run] rs Deq Cons.prems(1) show ?thesis by (cases xs) auto
  qed
qed simp

locale queue_contract =
  fixes rep :: "'s \<Rightarrow> 'x list \<Rightarrow> bool"
    and room :: "'s \<Rightarrow> bool"
    and accepts :: "'x list \<Rightarrow> bool"
    and empty :: 'x
    and enq :: "'x \<Rightarrow> 's \<Rightarrow> (bool \<times> 's) option"
    and deq :: "'s \<Rightarrow> ('x \<times> 's) option"
  assumes enq_correct:
      "rep s xs \<Longrightarrow> enq x s = Some (r, s') \<Longrightarrow>
         r = accepts xs \<and> rep s' (if accepts xs then xs @ [x] else xs)"
    and enq_returns: "rep s xs \<Longrightarrow> room s \<Longrightarrow> enq x s \<noteq> None"
    and deq_correct:
      "rep s xs \<Longrightarrow> deq s = Some (y, s') \<Longrightarrow>
         y = (case xs of [] \<Rightarrow> empty | x # _ \<Rightarrow> x) \<and> rep s' (tl xs)"
    and deq_returns: "rep s xs \<Longrightarrow> deq s \<noteq> None"
begin

lemma step_correct:
  assumes "rep s xs" "q_impl_step enq deq x s = Some (r, s')"
  shows "r = fst (q_step accepts empty x xs) \<and> rep s' (snd (q_step accepts empty x xs))"
proof (cases x)
  case (Enq y) with assms enq_correct [OF assms(1), of y] show ?thesis by (auto split: if_splits)
next
  case Deq with assms deq_correct [OF assms(1)] show ?thesis by (cases xs) auto
qed

lemma run_correct:
  "rep s xs \<Longrightarrow> q_impl_run enq deq ops s = Some (rs, s') \<Longrightarrow>
     rs = fst (q_run accepts empty ops xs) \<and> rep s' (snd (q_run accepts empty ops xs))"
proof (induction ops arbitrary: s xs rs)
  case Nil then show ?case by simp
next
  case (Cons x ops)
  from Cons.prems(2) obtain r s1 rs1 where
    st: "q_impl_step enq deq x s = Some (r, s1)" and
    run: "q_impl_run enq deq ops s1 = Some (rs1, s')" and rs: "rs = r # rs1"
    by (auto simp: ret_simps)
  from step_correct [OF Cons.prems(1) st]
  have "r = fst (q_step accepts empty x xs)" "rep s1 (snd (q_step accepts empty x xs))"
    by auto
  with Cons.IH [OF this(2) run] rs show ?case by (auto simp: Let_def split: prod.splits)
qed

lemma run_stuck:
  "rep s xs \<Longrightarrow> q_impl_run enq deq ops s = None \<Longrightarrow>
     \<exists>ys x zs rs s1. ops = ys @ Enq x # zs \<and> q_impl_run enq deq ys s = Some (rs, s1) \<and> \<not> room s1"
proof (induction ops arbitrary: s xs)
  case Nil then show ?case by simp
next
  case (Cons x ops)
  show ?case
  proof (cases "q_impl_step enq deq x s")
    case None
    obtain y where x: "x = Enq y"
      using None deq_returns [OF Cons.prems(1)] by (cases x) auto
    from None x have "enq y s = None" by simp
    with enq_returns [OF Cons.prems(1)] have "\<not> room s" by blast
    then show ?thesis by (intro exI [of _ "[]"]) (simp add: x)
  next
    case (Some y)
    obtain r s1 where y: "y = (r, s1)" by (cases y)
    have rep1: "rep s1 (snd (q_step accepts empty x xs))"
      using step_correct [OF Cons.prems(1)] Some y by auto
    have "q_impl_run enq deq ops s1 = None"
      using Cons.prems(2) Some y by (cases "q_impl_run enq deq ops s1") auto
    from Cons.IH [OF rep1 this] obtain ys k zs rs s2 where
      "ops = ys @ Enq k # zs" "q_impl_run enq deq ys s1 = Some (rs, s2)" "\<not> room s2" by blast
    then show ?thesis using Some y
      by (intro exI [of _ "x # ys"] exI [of _ k] exI [of _ zs] exI [of _ "r # rs"] exI [of _ s2]) simp
  qed
qed

end

end
