(* ===== verification/Queues.thy ===== *)
theory Queues
  imports LinkedSeg QueueContract EsHeap
begin

text \<open>
  The queues of pdatastructures/pqueues: TMLinkedListQueue, the bounded TMArrayQueue and
  TMLinkedListFatQueue, and the sequential PLinkedListQueue of pdatastructures/psequential,
  whose copy constructor the universal construct CXPUC relies on.
\<close>

subsection \<open>TMLinkedListQueue\<close>

record qnode =
  qitem :: ptr
  qnext :: ptr

record 'a llqueue =
  q_head :: ptr
  q_tail :: ptr
  q_heap :: "(qnode, 'a) tmheap"

definition qnode_of :: "ptr \<Rightarrow> qnode" where
  "qnode_of userItem = \<lparr>qitem = userItem, qnext = nullptr\<rparr>"

definition llq_new :: "'a tm \<Rightarrow> u64 \<Rightarrow> (qnode, 'a) tmheap \<Rightarrow> 'a llqueue option" where
  "llq_new TM sz h =
     do { (sentinelNode, h1) \<leftarrow> tmNew TM sz (qnode_of nullptr) h;
          Some \<lparr>q_head = sentinelNode, q_tail = sentinelNode, q_heap = h1\<rparr> }"

definition llq_enqueue :: "'a tm \<Rightarrow> u64 \<Rightarrow> ptr \<Rightarrow> 'a llqueue \<Rightarrow> (bool \<times> 'a llqueue) option" where
  "llq_enqueue TM sz item s =
     do { (newNode, h1) \<leftarrow> tmNew TM sz (qnode_of item) (q_heap s);
          h2 \<leftarrow> store (\<lambda>n. n\<lparr>qnext := newNode\<rparr>) (q_tail s) h1;
          Some (True, s\<lparr>q_tail := newNode, q_heap := h2\<rparr>) }"

definition llq_dequeue :: "'a tm \<Rightarrow> 'a llqueue \<Rightarrow> (ptr \<times> 'a llqueue) option" where
  "llq_dequeue TM s =
     (if q_head s = q_tail s then Some (nullptr, s)
      else do { nxt \<leftarrow> load qnext (q_head s) (q_heap s);
                h1 \<leftarrow> tmDelete TM (q_head s) (q_heap s);
                item \<leftarrow> load qitem nxt h1;
                Some (item, s\<lparr>q_head := nxt, q_heap := h1\<rparr>) })"

text \<open>The destructor: dequeue until the answer is the null pointer, then delete the sentinel.\<close>

partial_function (option) llq_drain :: "'a tm \<Rightarrow> 'a llqueue \<Rightarrow> 'a llqueue option" where
  "llq_drain TM s =
     do { (item, s1) \<leftarrow> llq_dequeue TM s;
          if item \<noteq> nullptr then llq_drain TM s1 else Some s1 }"

declare llq_drain.simps [code]

definition llq_delete :: "'a tm \<Rightarrow> 'a llqueue \<Rightarrow> (qnode, 'a) tmheap option" where
  "llq_delete TM s = do { s1 \<leftarrow> llq_drain TM s; tmDelete TM (q_head s1) (q_heap s1) }"

subsection \<open>PLinkedListQueue\<close>

text \<open>
  enqueue refuses EMPTY by an exception (Inl); the copy constructor clones the nodes behind
  the other queue's sentinel one by one.
\<close>

datatype q_error = Invalid_argument

definition plq_enqueue :: "'a tm \<Rightarrow> u64 \<Rightarrow> ptr \<Rightarrow> 'a llqueue \<Rightarrow> (q_error + bool \<times> 'a llqueue) option" where
  "plq_enqueue TM sz item s =
     (if item = nullptr then Some (Inl Invalid_argument)
      else map_option Inr (llq_enqueue TM sz item s))"

partial_function (option) plq_copy_loop ::
  "'a tm \<Rightarrow> u64 \<Rightarrow> (qnode, 'a) tmheap \<Rightarrow> ptr \<Rightarrow> ptr \<Rightarrow> (qnode, 'a) tmheap \<Rightarrow> (ptr \<times> (qnode, 'a) tmheap) option" where
  "plq_copy_loop TM sz other onode node h =
     (if onode = nullptr then Some (node, h)
      else do { item \<leftarrow> load qitem onode other;
                (p, h1) \<leftarrow> tmNew TM sz (qnode_of item) h;
                h2 \<leftarrow> store (\<lambda>n. n\<lparr>qnext := p\<rparr>) node h1;
                onode' \<leftarrow> load qnext onode other;
                plq_copy_loop TM sz other onode' p h2 })"

declare plq_copy_loop.simps [code]

definition plq_copy :: "'a tm \<Rightarrow> u64 \<Rightarrow> 'a llqueue \<Rightarrow> (qnode, 'a) tmheap \<Rightarrow> 'a llqueue option" where
  "plq_copy TM sz other h =
     do { (head, h1) \<leftarrow> tmNew TM sz (qnode_of nullptr) h;
          onode \<leftarrow> load qnext (q_head other) (q_heap other);
          (tail, h2) \<leftarrow> plq_copy_loop TM sz (q_heap other) onode head h1;
          Some \<lparr>q_head = head, q_tail = tail, q_heap = h2\<rparr> }"

subsection \<open>TMArrayQueue\<close>

text \<open>
  Two 64-bit signed counters that only grow and an array of SIZE items; an increment past the
  largest signed value has no defined result.
\<close>

record 'x arrqueue =
  aq_head :: int
  aq_tail :: int
  aq_items :: "'x option list"

definition int64_add :: "int \<Rightarrow> int \<Rightarrow> int option" where
  "int64_add a b = (if - (2 ^ 63) \<le> a + b \<and> a + b < 2 ^ 63 then Some (a + b) else None)"

definition aq_new :: "nat \<Rightarrow> 'x arrqueue" where
  "aq_new SIZE = \<lparr>aq_head = 0, aq_tail = 0, aq_items = replicate SIZE None\<rparr>"

definition aq_enqueue :: "nat \<Rightarrow> 'x \<Rightarrow> 'x arrqueue \<Rightarrow> (bool \<times> 'x arrqueue) option" where
  "aq_enqueue SIZE item s =
     do { lim \<leftarrow> int64_add (aq_head s) (int SIZE);
          if lim = aq_tail s then Some (False, s)
          else do { t \<leftarrow> int64_add (aq_tail s) 1;
                    Some (True, s\<lparr>aq_items := (aq_items s)[nat (aq_tail s mod int SIZE) := Some item],
                                   aq_tail := t\<rparr>) } }"

definition aq_dequeue :: "nat \<Rightarrow> 'x \<Rightarrow> 'x arrqueue \<Rightarrow> ('x \<times> 'x arrqueue) option" where
  "aq_dequeue SIZE EMPTY s =
     (if aq_head s = aq_tail s then Some (EMPTY, s)
      else do { item \<leftarrow> aq_items s ! nat (aq_head s mod int SIZE);
                nh \<leftarrow> int64_add (aq_head s) 1;
                Some (item, s\<lparr>aq_head := nh\<rparr>) })"

subsection \<open>Linked-list queue: representation and operations\<close>

definition llq_rep :: "('a \<Rightarrow> ptr set \<Rightarrow> bool) \<Rightarrow> 'a llqueue \<Rightarrow> ptr list \<Rightarrow> bool" where
  "llq_rep ainv s xs \<longleftrightarrow>
     (\<exists>ps. lseg qnext (nodes (q_heap s)) (q_head s) (q_head s # ps) nullptr
         \<and> distinct (q_head s # ps) \<and> q_tail s = last (q_head s # ps)
         \<and> field_seq qitem (nodes (q_heap s)) ps = map Some xs
         \<and> dom (nodes (q_heap s)) = set (q_head s # ps)
         \<and> arrays (q_heap s) = Map.empty \<and> heap_ok ainv (q_heap s))"

context tm_alloc
begin

lemma llq_new_rep:
  assumes "heap_ok ainv h" "nodes h = Map.empty" "arrays h = Map.empty" "unat sz \<le> max_request"
    "llq_new TM sz h = Some s"
  shows "llq_rep ainv s []"
proof -
  from assms(5) obtain p h1 where n: "tmNew TM sz (qnode_of nullptr) h = Some (p, h1)"
    and s: "s = \<lparr>q_head = p, q_tail = p, q_heap = h1\<rparr>"
    by (auto simp: llq_new_def ret_simps)
  from tmNew_ok [OF assms(1,4) n] show ?thesis
    unfolding llq_rep_def using assms(2,3)
    by (intro exI [of _ "[]"]) (auto simp: s qnode_of_def)
qed

lemma llq_enqueue_ok:
  assumes rep: "llq_rep ainv s xs" and sz: "unat sz \<le> max_request"
    and ret: "llq_enqueue TM sz x s = Some (r, s')"
  shows "r \<and> llq_rep ainv s' (xs @ [x])"
proof -
  let ?m = "nodes (q_heap s)"
  from rep obtain ps where ps: "lseg qnext ?m (q_head s) (q_head s # ps) nullptr"
    "distinct (q_head s # ps)" "q_tail s = last (q_head s # ps)" "field_seq qitem ?m ps = map Some xs"
    "dom ?m = set (q_head s # ps)" "arrays (q_heap s) = Map.empty" "heap_ok ainv (q_heap s)"
    by (auto simp: llq_rep_def)
  from ret obtain p h1 h2 where new: "tmNew TM sz (qnode_of x) (q_heap s) = Some (p, h1)"
    and st: "store (\<lambda>n. n\<lparr>qnext := p\<rparr>) (q_tail s) h1 = Some h2"
    and s': "r" "s' = s\<lparr>q_tail := p, q_heap := h2\<rparr>"
    by (auto simp: llq_enqueue_def ret_simps)
  note fresh = tmNew_ok [OF ps(7) sz new]
  obtain qs where qs: "q_head s # ps = qs @ [q_tail s]"
    using ps(3) by (metis append_butlast_last_id list.distinct(1))
  have "q_tail s \<in> dom ?m" using ps(5) unfolding qs by simp
  then obtain nt where nt: "?m (q_tail s) = Some nt" by blast
  have p: "p \<notin> set (q_head s # ps)" using fresh(4) ps(5) by (metis domIff)
  have h2: "nodes h2 = ?m(q_tail s \<mapsto> nt\<lparr>qnext := p\<rparr>, p \<mapsto> qnode_of x)" "arrays h2 = Map.empty"
    using st fresh(2,3,4) nt ps(6) by (auto simp: store_def fun_upd_twist split: if_splits)
  have seg: "lseg qnext (nodes h2) (q_head s) (qs @ q_tail s # p # []) nullptr"
    unfolding h2(1)
  proof (rule lseg_insert_after [where n = nt])
    show "?m (q_tail s) = Some nt" by (fact nt)
    show "lseg qnext ?m (q_head s) (qs @ [q_tail s]) nullptr" using ps(1) unfolding qs .
    show "qnext (qnode_of x) = qnext nt"
      using lseg_next [of qnext ?m "q_head s" qs "q_tail s" "[]" nullptr nt] ps(1) nt qs
      by (simp add: qnode_of_def)
  qed (use ps(2) p qs in auto)
  have list: "qs @ [q_tail s, p] = q_head s # ps @ [p]" using qs by simp
  have "field_seq qitem (nodes h2) (ps @ [p]) = map Some (xs @ [x])"
    using p ps(4) nt unfolding h2(1) by (simp add: field_seq_same qnode_of_def)
  moreover have "dom (nodes h2) = set (q_head s # ps @ [p])" using ps(5) nt unfolding h2(1) by auto
  ultimately show ?thesis
    unfolding llq_rep_def using s' seg [unfolded list] p ps(2) h2(2) heap_ok_store [OF fresh(1) st]
    by (intro conjI exI [of _ "ps @ [p]"]) simp_all
qed

lemma llq_enqueue_returns:
  assumes rep: "llq_rep ainv s xs" and sz: "unat sz \<le> max_request"
    and room: "fst (tm_malloc TM sz (pool (q_heap s))) \<noteq> nullptr"
  shows "llq_enqueue TM sz x s \<noteq> None"
proof -
  from rep have "q_tail s \<in> dom (nodes (q_heap s))" "heap_ok ainv (q_heap s)"
    unfolding llq_rep_def by (metis last_in_set list.distinct(1))+
  then obtain nt where "nodes (q_heap s) (q_tail s) = Some nt" "heap_ok ainv (q_heap s)" by blast
  moreover obtain p h1 where new: "tmNew TM sz (qnode_of x) (q_heap s) = Some (p, h1)"
    using room tmNew_fails by (metis option.exhaust surj_pair)
  ultimately show ?thesis
    using tmNew_ok(2) [OF _ sz new] by (auto simp: llq_enqueue_def store_def split: if_splits)
qed

lemma llq_dequeue_ok:
  assumes rep: "llq_rep ainv s xs"
  shows "\<exists>s'. llq_dequeue TM s = Some (case xs of [] \<Rightarrow> nullptr | x # _ \<Rightarrow> x, s')
           \<and> llq_rep ainv s' (tl xs)"
proof -
  let ?m = "nodes (q_heap s)"
  from rep obtain ps where ps: "lseg qnext ?m (q_head s) (q_head s # ps) nullptr"
    "distinct (q_head s # ps)" "q_tail s = last (q_head s # ps)" "field_seq qitem ?m ps = map Some xs"
    "dom ?m = set (q_head s # ps)" "arrays (q_heap s) = Map.empty" "heap_ok ainv (q_heap s)"
    by (auto simp: llq_rep_def)
  show ?thesis
  proof (cases ps)
    case Nil
    with ps have "xs = []" "llq_dequeue TM s = Some (nullptr, s)" by (simp_all add: llq_dequeue_def)
    with rep show ?thesis by simp
  next
    case (Cons q qs)
    then have ne: "q_head s \<noteq> q_tail s" using ps(2,3) by (metis distinct.simps(2) last_ConsR last_in_set list.distinct(1))
    from ps(1) Cons obtain nh where nh: "?m (q_head s) = Some nh" "qnext nh = q"
      and seg: "lseg qnext ?m q (q # qs) nullptr" by (auto split: option.splits)
    from ps(4) Cons obtain nq x ys where nq: "?m q = Some nq" "qitem nq = x" "xs = x # ys"
      and items: "field_seq qitem ?m qs = map Some ys" by (cases xs) auto
    from tmDelete_ok [OF ps(7) nh(1)] ps(6) obtain h1 where h1: "tmDelete TM (q_head s) (q_heap s) = Some h1"
      "heap_ok ainv h1" "nodes h1 = ?m(q_head s := None)" "arrays h1 = Map.empty" by auto
    have fresh: "q_head s \<notin> set (q # qs)" using ps(2) Cons by simp
    have "llq_dequeue TM s = Some (x, s\<lparr>q_head := q, q_heap := h1\<rparr>)"
      using ne nh h1 nq fresh by (auto simp: llq_dequeue_def heap_simps)
    moreover have "llq_rep ainv (s\<lparr>q_head := q, q_heap := h1\<rparr>) ys"
      unfolding llq_rep_def
    proof (intro exI [of _ qs] conjI)
      have "lseg qnext (nodes h1) q (q # qs) nullptr"
        unfolding h1(3) using lseg_upd [OF fresh] seg by blast
      then show "lseg qnext (nodes (q_heap (s\<lparr>q_head := q, q_heap := h1\<rparr>)))
            (q_head (s\<lparr>q_head := q, q_heap := h1\<rparr>)) (q_head (s\<lparr>q_head := q, q_heap := h1\<rparr>) # qs) nullptr"
        by simp
    qed (use ps Cons h1 items fresh in auto)
    ultimately show ?thesis using nq(3) by simp
  qed
qed

lemma llq_drain_ok:
  "llq_rep ainv s xs \<Longrightarrow> nullptr \<notin> set xs \<Longrightarrow> \<exists>s'. llq_drain TM s = Some s' \<and> llq_rep ainv s' []"
proof (induction xs arbitrary: s)
  case Nil
  with llq_dequeue_ok [OF Nil.prems(1)] show ?case by (subst llq_drain.simps) auto
next
  case (Cons x xs)
  from llq_dequeue_ok [OF Cons.prems(1)] obtain s1 where "llq_dequeue TM s = Some (x, s1)" "llq_rep ainv s1 xs"
    by auto
  with Cons.IH [of s1] Cons.prems(2) show ?case by (subst llq_drain.simps) auto
qed

lemma llq_delete_ok:
  assumes "llq_rep ainv s xs" "nullptr \<notin> set xs"
  shows "\<exists>h'. llq_delete TM s = Some h' \<and> heap_ok ainv h' \<and> nodes h' = Map.empty \<and> arrays h' = Map.empty"
proof -
  from llq_drain_ok [OF assms] obtain s' where s': "llq_drain TM s = Some s'" "llq_rep ainv s' []" by blast
  from s'(2) have "dom (nodes (q_heap s')) = {q_head s'}" "heap_ok ainv (q_heap s')" "arrays (q_heap s') = Map.empty"
    by (auto simp: llq_rep_def)
  moreover from this obtain n where "nodes (q_heap s') (q_head s') = Some n" by blast
  ultimately show ?thesis
    using tmDelete_ok [of "q_heap s'" "q_head s'" n] s'(1) dom_eq_empty_conv
    by (fastforce simp: llq_delete_def)
qed

end

subsection \<open>The copy constructor\<close>

text \<open>Every node of the other queue from onode on is cloned behind the last node of the copy.\<close>

context tm_alloc
begin

lemma llq_enqueue_decomp:
  "llq_enqueue TM sz x s = Some (r, s') \<longleftrightarrow>
     r \<and> (\<exists>p h1 h2. tmNew TM sz (qnode_of x) (q_heap s) = Some (p, h1)
          \<and> store (\<lambda>n. n\<lparr>qnext := p\<rparr>) (q_tail s) h1 = Some h2
          \<and> s' = s\<lparr>q_tail := p, q_heap := h2\<rparr>)"
  by (auto simp: llq_enqueue_def ret_simps)

lemma plq_copy_loop_ok:
  assumes "lseg qnext (nodes other) onode ps nullptr" "nullptr \<notin> set ps"
    "field_seq qitem (nodes other) ps = map Some xs"
    "llq_rep ainv s ys" "q_tail s = node" "q_heap s = h" "unat sz \<le> max_request"
    "plq_copy_loop TM sz other onode node h = Some (t', h')"
  shows "llq_rep ainv (s\<lparr>q_tail := t', q_heap := h'\<rparr>) (ys @ xs)"
  using assms
proof (induction ps arbitrary: onode xs ys s node h)
  case Nil
  then show ?case by (subst (asm) plq_copy_loop.simps) auto
next
  case (Cons p ps)
  from Cons.prems(1-3) obtain n x xs' where n: "nodes other onode = Some n" "onode \<noteq> nullptr" "p = onode"
    and seg: "lseg qnext (nodes other) (qnext n) ps nullptr" and x: "xs = x # xs'" "qitem n = x"
    and items: "field_seq qitem (nodes other) ps = map Some xs'"
    by (cases xs) (auto split: option.splits)
  from Cons.prems(8) n x obtain q h1 h2 where new: "tmNew TM sz (qnode_of x) h = Some (q, h1)"
    and st: "store (\<lambda>n. n\<lparr>qnext := q\<rparr>) node h1 = Some h2"
    and rest: "plq_copy_loop TM sz other (qnext n) q h2 = Some (t', h')"
    by (subst (asm) plq_copy_loop.simps) (auto simp: heap_simps ret_simps)
  have "llq_enqueue TM sz x s = Some (True, s\<lparr>q_tail := q, q_heap := h2\<rparr>)"
    using new st Cons.prems(5,6) by (simp add: llq_enqueue_decomp)
  then have rep1: "llq_rep ainv (s\<lparr>q_tail := q, q_heap := h2\<rparr>) (ys @ [x])"
    using llq_enqueue_ok [OF Cons.prems(4,7)] by blast
  have "nullptr \<notin> set ps" using Cons.prems(2) by simp
  from Cons.IH [OF seg this items rep1 _ _ Cons.prems(7) rest] show ?case by (simp add: x)
qed

lemma llq_rep_no_null:
  assumes "llq_rep ainv s xs" shows "nullptr \<notin> dom (nodes (q_heap s))"
  using assms null_not_live by (auto simp: llq_rep_def heap_ok_def)

lemma plq_copy_ok:
  assumes rep: "llq_rep ainv s xs" and sz: "unat sz \<le> max_request"
    and h: "heap_ok ainv h" "nodes h = Map.empty" "arrays h = Map.empty"
    and ret: "plq_copy TM sz s h = Some s'"
  shows "llq_rep ainv s' xs"
proof -
  from ret obtain a h1 onode t' h2 where
    new: "tmNew TM sz (qnode_of nullptr) h = Some (a, h1)"
    and on: "load qnext (q_head s) (q_heap s) = Some onode"
    and loop: "plq_copy_loop TM sz (q_heap s) onode a h1 = Some (t', h2)"
    and s': "s' = \<lparr>q_head = a, q_tail = t', q_heap = h2\<rparr>"
    by (auto simp: plq_copy_def ret_simps)
  let ?s0 = "\<lparr>q_head = a, q_tail = a, q_heap = h1\<rparr>"
  have rep0: "llq_rep ainv ?s0 []"
    using llq_new_rep [OF h sz, of ?s0] new by (simp add: llq_new_def)
  from rep obtain ps where ps: "lseg qnext (nodes (q_heap s)) (q_head s) (q_head s # ps) nullptr"
    "field_seq qitem (nodes (q_heap s)) ps = map Some xs" "dom (nodes (q_heap s)) = set (q_head s # ps)"
    by (auto simp: llq_rep_def)
  from ps(1) on have seg: "lseg qnext (nodes (q_heap s)) onode ps nullptr"
    by (auto simp: load_def split: option.splits)
  have "nullptr \<notin> set ps" using llq_rep_no_null [OF rep] ps(3) by simp
  from plq_copy_loop_ok [OF seg this ps(2) rep0 _ _ sz] loop show ?thesis by (simp add: s')
qed

end

subsection \<open>Array queue\<close>

definition aq_rep :: "nat \<Rightarrow> 'x arrqueue \<Rightarrow> 'x list \<Rightarrow> bool" where
  "aq_rep SIZE s xs \<longleftrightarrow>
     0 < SIZE \<and> 0 \<le> aq_head s \<and> aq_tail s = aq_head s + int (length xs) \<and> length xs \<le> SIZE
     \<and> aq_tail s < 2 ^ 63 \<and> length (aq_items s) = SIZE
     \<and> (\<forall>i < length xs. aq_items s ! nat ((aq_head s + int i) mod int SIZE) = Some (xs ! i))"

lemma ring_slots_differ:
  assumes "i < j" "j < i + SIZE"
  shows "(h + int i) mod int SIZE \<noteq> (h + int j) mod int SIZE"
proof
  assume "(h + int i) mod int SIZE = (h + int j) mod int SIZE"
  then have "int SIZE dvd (h + int j) - (h + int i)" by (simp add: mod_eq_dvd_iff dvd_diff_commute)
  then have "int SIZE dvd int (j - i)" using assms by (simp add: of_nat_diff)
  then have "SIZE dvd j - i" by simp
  then show False using assms by (auto dest: dvd_imp_le)
qed

lemma aq_enqueue_ok:
  assumes rep: "aq_rep SIZE s xs" and ret: "aq_enqueue SIZE x s = Some (r, s')"
  shows "r = (length xs < SIZE) \<and> aq_rep SIZE s' (if length xs < SIZE then xs @ [x] else xs)"
proof (cases "length xs < SIZE")
  case False
  with rep ret show ?thesis
    by (auto simp: aq_enqueue_def aq_rep_def ret_simps int64_add_def split: if_splits)
next
  case True
  let ?n = "length xs"
  from rep True ret have t: "aq_tail s + 1 < 2 ^ 63" and r: "r"
    and s': "s' = s\<lparr>aq_items := (aq_items s)[nat (aq_tail s mod int SIZE) := Some x], aq_tail := aq_tail s + 1\<rparr>"
    by (auto simp: aq_enqueue_def aq_rep_def ret_simps int64_add_def split: if_splits)
  have pos: "0 < SIZE" "0 \<le> aq_head s" "aq_tail s = aq_head s + int ?n" "length (aq_items s) = SIZE"
    and items: "\<And>i. i < ?n \<Longrightarrow> aq_items s ! nat ((aq_head s + int i) mod int SIZE) = Some (xs ! i)"
    using rep by (auto simp: aq_rep_def)
  have slot: "nat ((aq_head s + int ?n) mod int SIZE) < SIZE" using pos by (simp add: nat_less_iff)
  have "aq_items s' ! nat ((aq_head s' + int i) mod int SIZE) = Some ((xs @ [x]) ! i)" if "i < Suc ?n" for i
  proof (cases "i = ?n")
    case True
    with slot show ?thesis by (simp add: s' pos(3,4))
  next
    case False
    with that have i: "i < ?n" by simp
    have "(aq_head s + int i) mod int SIZE \<noteq> (aq_head s + int ?n) mod int SIZE"
      by (rule ring_slots_differ) (use i True in auto)
    then have "nat ((aq_head s + int i) mod int SIZE) \<noteq> nat ((aq_head s + int ?n) mod int SIZE)"
      using pos(1) by (simp add: nat_eq_iff2)
    with items [OF i] i show ?thesis by (simp add: s' pos(3) nth_append)
  qed
  with r t pos True show ?thesis by (auto simp: aq_rep_def s')
qed

lemma aq_dequeue_ok:
  assumes rep: "aq_rep SIZE s xs"
  shows "\<exists>s'. aq_dequeue SIZE E s = Some (case xs of [] \<Rightarrow> E | x # _ \<Rightarrow> x, s') \<and> aq_rep SIZE s' (tl xs)"
proof (cases xs)
  case Nil
  with rep show ?thesis by (auto simp: aq_dequeue_def aq_rep_def)
next
  case (Cons x ys)
  have pos: "0 < SIZE" "0 \<le> aq_head s" "aq_tail s = aq_head s + int (Suc (length ys))"
      "length (aq_items s) = SIZE" "aq_tail s < 2 ^ 63" "Suc (length ys) \<le> SIZE"
    and items: "\<And>i. i < Suc (length ys) \<Longrightarrow>
        aq_items s ! nat ((aq_head s + int i) mod int SIZE) = Some ((x # ys) ! i)"
    using rep by (auto simp: aq_rep_def Cons)
  have "aq_dequeue SIZE E s = Some (x, s\<lparr>aq_head := aq_head s + 1\<rparr>)"
    using pos items [of 0] by (simp add: aq_dequeue_def int64_add_def)
  moreover have "aq_rep SIZE (s\<lparr>aq_head := aq_head s + 1\<rparr>) ys"
    using pos items [of "Suc i" for i] by (auto simp: aq_rep_def ac_simps)
  ultimately show ?thesis by (simp add: Cons)
qed

subsection \<open>The contracts\<close>

definition llq_fifo :: "u64 \<Rightarrow> esloco llqueue \<Rightarrow> ptr list \<Rightarrow> bool" where
  "llq_fifo sz s xs \<longleftrightarrow> unat sz \<le> esl_max_request \<and> llq_rep esl_inv s xs"

definition llq_room :: "u64 \<Rightarrow> esloco llqueue \<Rightarrow> bool" where
  "llq_room sz s \<longleftrightarrow> fst (esl_malloc sz (pool (q_heap s))) \<noteq> nullptr"

interpretation llq: queue_contract "llq_fifo sz" "llq_room sz" "\<lambda>_. True" nullptr
    "llq_enqueue esl_tm sz" "llq_dequeue esl_tm" for sz
proof unfold_locales
  fix s xs x r s'
  assume "llq_fifo sz s xs" "llq_enqueue esl_tm sz x s = Some (r, s')"
  then show "r = True \<and> llq_fifo sz s' (if True then xs @ [x] else xs)"
    using eslh.llq_enqueue_ok [of s xs sz x r s'] by (auto simp: llq_fifo_def)
next
  fix s xs x
  assume "llq_fifo sz s xs" "llq_room sz s"
  then show "llq_enqueue esl_tm sz x s \<noteq> None"
    using eslh.llq_enqueue_returns [of s xs sz x] by (auto simp: llq_fifo_def llq_room_def esl_tm_def)
next
  fix s xs y s'
  assume "llq_fifo sz s xs" "llq_dequeue esl_tm s = Some (y, s')"
  then show "y = (case xs of [] \<Rightarrow> nullptr | x # _ \<Rightarrow> x) \<and> llq_fifo sz s' (tl xs)"
    using eslh.llq_dequeue_ok [of s xs] by (auto simp: llq_fifo_def)
next
  fix s xs
  assume "llq_fifo sz s xs"
  then show "llq_dequeue esl_tm s \<noteq> None"
    using eslh.llq_dequeue_ok [of s xs] by (auto simp: llq_fifo_def)
qed

interpretation aq: queue_contract "aq_rep SIZE" "\<lambda>s. aq_tail s + int SIZE < 2 ^ 63 - 1"
    "\<lambda>xs. length xs < SIZE" E "aq_enqueue SIZE" "aq_dequeue SIZE E" for SIZE E
proof unfold_locales
  fix s :: "'a arrqueue" and xs x r s'
  assume "aq_rep SIZE s xs" "aq_enqueue SIZE x s = Some (r, s')"
  then show "r = (length xs < SIZE) \<and> aq_rep SIZE s' (if length xs < SIZE then xs @ [x] else xs)"
    by (rule aq_enqueue_ok)
next
  fix s :: "'a arrqueue" and xs x
  assume "aq_rep SIZE s xs" "aq_tail s + int SIZE < 2 ^ 63 - 1"
  then show "aq_enqueue SIZE x s \<noteq> None"
    by (auto simp: aq_enqueue_def aq_rep_def int64_add_def)
next
  fix s :: "'a arrqueue" and xs y s'
  assume "aq_rep SIZE s xs" "aq_dequeue SIZE E s = Some (y, s')"
  then show "y = (case xs of [] \<Rightarrow> E | x # _ \<Rightarrow> x) \<and> aq_rep SIZE s' (tl xs)"
    using aq_dequeue_ok [of SIZE s xs E] by auto
next
  fix s :: "'a arrqueue" and xs
  assume "aq_rep SIZE s xs"
  then show "aq_dequeue SIZE E s \<noteq> None" using aq_dequeue_ok [of SIZE s xs E] by auto
qed

subsection \<open>Properties\<close>

text \<open>
  C25: a linked-list queue built on an empty heap answers every sequence of enqueues and
  dequeues first-in first-out (the null pointer exactly when it is empty), stopping only at
  an enqueue for which the allocator has no memory; when no null item was enqueued, the
  destructor returns and frees every node.
\<close>

theorem llq_requests_correct:
  assumes "heap_ok esl_inv h" "nodes h = Map.empty" "arrays h = Map.empty"
    "unat sz \<le> esl_max_request" "llq_new esl_tm sz h = Some s"
  shows "case q_impl_run (llq_enqueue esl_tm sz) (llq_dequeue esl_tm) ops s of
      Some (rs, s') \<Rightarrow> (let spec = q_run (\<lambda>_. True) nullptr ops [] in
        rs = fst spec
        \<and> (nullptr \<in> set (snd spec) \<or>
             (\<exists>h'. llq_delete esl_tm s' = Some h' \<and> nodes h' = Map.empty \<and> esl_inv (pool h') {})))
    | None \<Rightarrow> \<exists>ys x zs rs s1. ops = ys @ Enq x # zs
        \<and> q_impl_run (llq_enqueue esl_tm sz) (llq_dequeue esl_tm) ys s = Some (rs, s1)
        \<and> fst (esl_malloc sz (pool (q_heap s1))) = nullptr"
proof -
  have rep: "llq_fifo sz s []"
    using eslh.llq_new_rep [OF assms] assms(4) by (auto simp: llq_fifo_def)
  show ?thesis
  proof (cases "q_impl_run (llq_enqueue esl_tm sz) (llq_dequeue esl_tm) ops s")
    case None
    from llq.run_stuck [OF rep this] None show ?thesis by (auto simp: llq_room_def)
  next
    case (Some y)
    obtain rs s' where y: "y = (rs, s')" by (cases y)
    from llq.run_correct [OF rep, of ops rs s'] Some y have
      "rs = fst (q_run (\<lambda>_. True) nullptr ops [])"
      "llq_rep esl_inv s' (snd (q_run (\<lambda>_. True) nullptr ops []))" by (auto simp: llq_fifo_def)
    moreover have "\<exists>h'. llq_delete esl_tm s' = Some h' \<and> nodes h' = Map.empty \<and> esl_inv (pool h') {}"
      if "nullptr \<notin> set (snd (q_run (\<lambda>_. True) nullptr ops []))"
      using eslh.llq_delete_ok [OF calculation(2) that] by (auto simp: heap_ok_def)
    ultimately show ?thesis using Some y by (simp add: Let_def) blast
  qed
qed

lemma llq_example_new: "llq_new esl_tm 16 esl_heap = Some (the (llq_new esl_tm 16 esl_heap))"
proof -
  have "\<not> Option.is_none (llq_new esl_tm 16 esl_heap)" by code_simp
  then show ?thesis by (auto simp: Option.is_none_def)
qed

theorem llq_requests_correct_witness:
  "map_option fst (q_impl_run (llq_enqueue esl_tm 16) (llq_dequeue esl_tm)
     [Enq 7, Enq 8, Deq, Deq, Deq] (the (llq_new esl_tm 16 esl_heap)))
   = Some [Inl True, Inl True, Inr 7, Inr 8, Inr 0]"
proof -
  let ?ops = "[Enq 7, Enq 8, Deq, Deq, Deq]"
  let ?r = "q_impl_run (llq_enqueue esl_tm 16) (llq_dequeue esl_tm) ?ops (the (llq_new esl_tm 16 esl_heap))"
  have "\<not> Option.is_none ?r" by code_simp
  then obtain rs s' where r: "?r = Some (rs, s')" by (auto simp: Option.is_none_def)
  have "unat (16 :: u64) \<le> esl_max_request" by (simp add: esl_max_request_def)
  from llq_requests_correct [OF esl_heap_ok this llq_example_new, of ?ops] r
  have "rs = fst (q_run (\<lambda>_. True) nullptr ?ops [])" by (simp add: Let_def)
  also have "\<dots> = [Inl True, Inl True, Inr 7, Inr 8, Inr 0]" by simp
  finally show ?thesis using r by simp
qed

text \<open>
  The array queue is a bounded first-in first-out queue: from a new queue, as long as the
  64-bit counters do not reach their limit, every request returns, enqueue answers false
  exactly when SIZE items are held, and the items come out in order although the slots are
  reused cyclically.
\<close>

theorem aq_requests_correct:
  assumes "0 < SIZE" "length ops + SIZE < 2 ^ 63 - 1"
  shows "map_option fst (q_impl_run (aq_enqueue SIZE) (aq_dequeue SIZE E) ops (aq_new SIZE))
       = Some (fst (q_run (\<lambda>xs. length xs < SIZE) E ops []))"
proof -
  have bound: "aq_tail s' \<le> aq_tail s + int (length xs)"
    if "q_impl_run (aq_enqueue SIZE) (aq_dequeue SIZE E) xs s = Some (rs, s')" for xs s rs s'
    using that
  proof (induction xs arbitrary: s rs)
    case (Cons x xs)
    from Cons.prems obtain r s1 rs1 where st: "q_impl_step (aq_enqueue SIZE) (aq_dequeue SIZE E) x s = Some (r, s1)"
      and run: "q_impl_run (aq_enqueue SIZE) (aq_dequeue SIZE E) xs s1 = Some (rs1, s')"
      by (auto simp: ret_simps)
    have "aq_tail s1 \<le> aq_tail s + 1"
      using st by (cases x) (auto simp: aq_enqueue_def aq_dequeue_def ret_simps int64_add_def split: if_splits)
    with Cons.IH [OF run] show ?case by simp
  qed simp
  have rep: "aq_rep SIZE (aq_new SIZE :: 'a arrqueue) []" using assms(1) by (simp add: aq_rep_def aq_new_def)
  show ?thesis
  proof (cases "q_impl_run (aq_enqueue SIZE) (aq_dequeue SIZE E) ops (aq_new SIZE)")
    case None
    from aq.run_stuck [OF rep this] obtain ys x zs rs s1 where
      *: "ops = ys @ Enq x # zs" "q_impl_run (aq_enqueue SIZE) (aq_dequeue SIZE E) ys (aq_new SIZE) = Some (rs, s1)"
         "\<not> aq_tail s1 + int SIZE < 2 ^ 63 - 1" by blast
    from bound [OF *(2)] *(1,3) assms(2) have False by (simp add: aq_new_def)
    then show ?thesis ..
  next
    case (Some y)
    with aq.run_correct [OF rep, of E ops "fst y" "snd y"] show ?thesis by simp
  qed
qed

theorem aq_requests_correct_witness:
  "map_option fst (q_impl_run (aq_enqueue 2) (aq_dequeue 2 0) [Enq 5, Enq 6, Enq 7, Deq, Enq (8::nat), Deq, Deq, Deq] (aq_new 2))
   = Some [Inl True, Inl True, Inl False, Inr 5, Inl True, Inr 6, Inr 8, Inr 0]"
  using aq_requests_correct [of 2 "[Enq 5, Enq 6, Enq 7, Deq, Enq (8::nat), Deq, Deq, Deq]" 0] by simp

text \<open>
  The copy constructor of PLinkedListQueue, on which the universal construct builds its
  replicas, yields a queue with exactly the items of the original, in the same order.
\<close>

theorem plq_copy_correct:
  assumes "llq_rep esl_inv s xs" "unat sz \<le> esl_max_request"
    "heap_ok esl_inv h" "nodes h = Map.empty" "arrays h = Map.empty" "plq_copy esl_tm sz s h = Some s'"
  shows "llq_rep esl_inv s' xs"
  by (rule eslh.plq_copy_ok [OF assms])

definition plq_example :: "esloco llqueue" where
  "plq_example = snd (the (llq_enqueue esl_tm 16 7 (the (llq_new esl_tm 16 esl_heap))))"

lemma plq_example_rep: "llq_rep esl_inv plq_example [7]"
proof -
  have sz: "unat (16 :: u64) \<le> esl_max_request" by (simp add: esl_max_request_def)
  have "\<not> Option.is_none (llq_enqueue esl_tm 16 7 (the (llq_new esl_tm 16 esl_heap)))" by code_simp
  then obtain r where "llq_enqueue esl_tm 16 7 (the (llq_new esl_tm 16 esl_heap)) = Some (r, plq_example)"
    by (auto simp: Option.is_none_def plq_example_def)
  from eslh.llq_enqueue_ok [OF eslh.llq_new_rep [OF esl_heap_ok sz llq_example_new] sz this]
  show ?thesis by simp
qed

theorem plq_copy_correct_witness: "llq_rep esl_inv (the (plq_copy esl_tm 16 plq_example esl_heap)) [7]"
proof -
  have sz: "unat (16 :: u64) \<le> esl_max_request" by (simp add: esl_max_request_def)
  have "\<not> Option.is_none (plq_copy esl_tm 16 plq_example esl_heap)" by code_simp
  then have "plq_copy esl_tm 16 plq_example esl_heap = Some (the (plq_copy esl_tm 16 plq_example esl_heap))"
    by (auto simp: Option.is_none_def)
  from plq_copy_correct [OF plq_example_rep sz esl_heap_ok this] show ?thesis .
qed

end
