(* ===== verification/FatQueue.thy ===== *)
theory FatQueue
  imports Queues
begin

text \<open>
  The queue with fat nodes of pdatastructures/pqueues/TMLinkedListFatQueue.hpp: each node
  holds up to 13 items between an index ih of the next one to take and an index it of the
  next free slot.
\<close>

abbreviation (input) NUM_ITEMS :: nat where "NUM_ITEMS \<equiv> 13"
abbreviation (input) EMPTY_ITEM :: ptr where "EMPTY_ITEM \<equiv> 0"

record fnode =
  f_it :: nat
  f_ih :: nat
  f_items :: "ptr option list"
  f_next :: ptr

record 'a fatqueue =
  fq_head :: ptr
  fq_tail :: ptr
  fq_heap :: "(fnode, 'a) tmheap"

definition fnode_of :: "ptr \<Rightarrow> fnode" where
  "fnode_of userItem =
     \<lparr>f_it = 1, f_ih = 0, f_items = (replicate NUM_ITEMS None)[0 := Some userItem], f_next = nullptr\<rparr>"

definition fq_new :: "'a tm \<Rightarrow> u64 \<Rightarrow> (fnode, 'a) tmheap \<Rightarrow> 'a fatqueue option" where
  "fq_new TM sz h =
     do { (sentinelNode, h1) \<leftarrow> tmNew TM sz (fnode_of EMPTY_ITEM) h;
          h2 \<leftarrow> store (\<lambda>n. n\<lparr>f_it := NUM_ITEMS\<rparr>) sentinelNode h1;
          h3 \<leftarrow> store (\<lambda>n. n\<lparr>f_ih := NUM_ITEMS\<rparr>) sentinelNode h2;
          Some \<lparr>fq_head = sentinelNode, fq_tail = sentinelNode, fq_heap = h3\<rparr> }"

definition fq_enqueue :: "'a tm \<Rightarrow> u64 \<Rightarrow> ptr \<Rightarrow> 'a fatqueue \<Rightarrow> (q_error + bool \<times> 'a fatqueue) option" where
  "fq_enqueue TM sz item s =
     (if item = EMPTY_ITEM then Some (Inl Invalid_argument)
      else do {
        it \<leftarrow> load f_it (fq_tail s) (fq_heap s);
        if it = NUM_ITEMS
        then do { (newNode, h1) \<leftarrow> tmNew TM sz (fnode_of item) (fq_heap s);
                  h2 \<leftarrow> store (\<lambda>n. n\<lparr>f_next := newNode\<rparr>) (fq_tail s) h1;
                  Some (Inr (True, s\<lparr>fq_tail := newNode, fq_heap := h2\<rparr>)) }
        else do { h1 \<leftarrow> store (\<lambda>n. n\<lparr>f_items := (f_items n)[it := Some item]\<rparr>) (fq_tail s) (fq_heap s);
                  h2 \<leftarrow> store (\<lambda>n. n\<lparr>f_it := it + 1\<rparr>) (fq_tail s) h1;
                  Some (Inr (True, s\<lparr>fq_heap := h2\<rparr>)) } })"

definition fq_dequeue :: "'a tm \<Rightarrow> 'a fatqueue \<Rightarrow> (ptr \<times> 'a fatqueue) option" where
  "fq_dequeue TM s =
     (if fq_head s = fq_tail s then Some (EMPTY_ITEM, s)
      else do {
        ih \<leftarrow> load f_ih (fq_head s) (fq_heap s);
        s1 \<leftarrow> (if ih = NUM_ITEMS
              then do { nxt \<leftarrow> load f_next (fq_head s) (fq_heap s);
                        h1 \<leftarrow> tmDelete TM (fq_head s) (fq_heap s);
                        Some (s\<lparr>fq_head := nxt, fq_heap := h1\<rparr>) }
              else Some s);
        ih1 \<leftarrow> load f_ih (fq_head s1) (fq_heap s1);
        items \<leftarrow> load f_items (fq_head s1) (fq_heap s1);
        item \<leftarrow> (if ih1 < NUM_ITEMS then items ! ih1 else None);
        h2 \<leftarrow> store (\<lambda>n. n\<lparr>f_ih := ih1 + 1\<rparr>) (fq_head s1) (fq_heap s1);
        Some (item, s1\<lparr>fq_heap := h2\<rparr>) })"

partial_function (option) fq_drain :: "'a tm \<Rightarrow> 'a fatqueue \<Rightarrow> 'a fatqueue option" where
  "fq_drain TM s =
     do { (item, s1) \<leftarrow> fq_dequeue TM s;
          if item \<noteq> EMPTY_ITEM then fq_drain TM s1 else Some s1 }"

declare fq_drain.simps [code]

definition fq_delete :: "'a tm \<Rightarrow> 'a fatqueue \<Rightarrow> (fnode, 'a) tmheap option" where
  "fq_delete TM s = do { s1 \<leftarrow> fq_drain TM s; tmDelete TM (fq_head s1) (fq_heap s1) }"

subsection \<open>Representation\<close>

text \<open>
  The items held are the windows between ih and it of the nodes, in order. Only the first
  node may have been taken from, and only the last may have free slots.
\<close>

definition fwin :: "fnode \<Rightarrow> ptr option list" where
  "fwin n = drop (f_ih n) (take (f_it n) (f_items n))"

definition fnode_ok :: "fnode \<Rightarrow> bool" where
  "fnode_ok n \<longleftrightarrow> length (f_items n) = NUM_ITEMS \<and> f_ih n \<le> f_it n \<and> f_it n \<le> NUM_ITEMS"

definition fshape :: "fnode list \<Rightarrow> bool" where
  "fshape ns \<longleftrightarrow> ns \<noteq> [] \<and> (\<forall>n\<in>set ns. fnode_ok n)
     \<and> (\<forall>n\<in>set (tl ns). f_ih n = 0 \<and> 1 \<le> f_it n) \<and> (\<forall>n\<in>set (butlast ns). f_it n = NUM_ITEMS)"

definition fq_rep :: "('a \<Rightarrow> ptr set \<Rightarrow> bool) \<Rightarrow> 'a fatqueue \<Rightarrow> ptr list \<Rightarrow> bool" where
  "fq_rep ainv s xs \<longleftrightarrow>
     (\<exists>ps ns. lseg f_next (nodes (fq_heap s)) (fq_head s) ps nullptr
         \<and> distinct ps \<and> ps \<noteq> [] \<and> fq_tail s = last ps
         \<and> map (nodes (fq_heap s)) ps = map Some ns \<and> fshape ns
         \<and> concat (map fwin ns) = map Some xs \<and> EMPTY_ITEM \<notin> set xs
         \<and> dom (nodes (fq_heap s)) = set ps
         \<and> arrays (fq_heap s) = Map.empty \<and> heap_ok ainv (fq_heap s))"

lemma fwin_new: "fwin (fnode_of x) = [Some x]"
  by (simp add: fwin_def fnode_of_def numeral_eq_Suc)

lemma fwin_push:
  assumes "fnode_ok n" "f_it n < NUM_ITEMS"
  shows "fwin (n\<lparr>f_items := (f_items n)[f_it n := Some x], f_it := Suc (f_it n)\<rparr>) = fwin n @ [Some x]"
  using assms by (simp add: fwin_def fnode_ok_def take_Suc_conv_app_nth)

lemma fwin_pop:
  assumes "fnode_ok n" "f_ih n < f_it n"
  shows "fwin n = f_items n ! f_ih n # fwin (n\<lparr>f_ih := Suc (f_ih n)\<rparr>)"
  using assms by (simp add: fwin_def fnode_ok_def Cons_nth_drop_Suc [symmetric])

lemma map_upd_notin [simp]: "a \<notin> set ps \<Longrightarrow> map (m(a := v)) ps = map m ps"
  by simp

lemma fq_rep_head_tail:
  assumes "distinct ps" "ps \<noteq> []"
  shows "hd ps = last ps \<longleftrightarrow> (\<exists>p. ps = [p])"
  using assms by (cases ps) (auto dest: last_in_set)


subsection \<open>Operations\<close>

lemma fq_repE:
  assumes "fq_rep ainv s xs"
  obtains ps ns where "lseg f_next (nodes (fq_heap s)) (fq_head s) ps nullptr"
    "distinct ps" "ps \<noteq> []" "fq_tail s = last ps" "map (nodes (fq_heap s)) ps = map Some ns"
    "fshape ns" "concat (map fwin ns) = map Some xs" "EMPTY_ITEM \<notin> set xs"
    "dom (nodes (fq_heap s)) = set ps" "arrays (fq_heap s) = Map.empty" "heap_ok ainv (fq_heap s)"
  using assms unfolding fq_rep_def by blast

text \<open>The node list seen from its last element.\<close>

lemma fq_rep_lastE:
  assumes "fq_rep ainv s xs"
  obtains ps p ns n where "lseg f_next (nodes (fq_heap s)) (fq_head s) (ps @ [p]) nullptr"
    "distinct (ps @ [p])" "fq_tail s = p" "map (nodes (fq_heap s)) ps = map Some ns"
    "nodes (fq_heap s) p = Some n" "fshape (ns @ [n])" "concat (map fwin ns) @ fwin n = map Some xs"
    "EMPTY_ITEM \<notin> set xs" "dom (nodes (fq_heap s)) = set (ps @ [p])"
    "arrays (fq_heap s) = Map.empty" "heap_ok ainv (fq_heap s)"
proof -
  from assms obtain qs ms where q: "lseg f_next (nodes (fq_heap s)) (fq_head s) qs nullptr"
    "distinct qs" "qs \<noteq> []" "fq_tail s = last qs" "map (nodes (fq_heap s)) qs = map Some ms"
    "fshape ms" "concat (map fwin ms) = map Some xs" "EMPTY_ITEM \<notin> set xs"
    "dom (nodes (fq_heap s)) = set qs" "arrays (fq_heap s) = Map.empty" "heap_ok ainv (fq_heap s)"
    by (rule fq_repE)
  from q(3) obtain ps p where qs: "qs = ps @ [p]" by (metis append_butlast_last_id)
  from q(6) obtain ns n where ms: "ms = ns @ [n]" by (metis append_butlast_last_id fshape_def)
  from q(5) have eqs: "map (nodes (fq_heap s)) ps = map Some ns" "nodes (fq_heap s) p = Some n"
    by (simp_all add: qs ms)
  show ?thesis
    using that [OF q(1) [unfolded qs] _ _ eqs] q(2,4,6-11) by (simp add: qs ms)
qed

lemma fq_rep_head:
  assumes "lseg f_next m a (ps @ [p]) nullptr" "distinct (ps @ [p])"
  shows "a = p \<longleftrightarrow> ps = []"
  using assms by (cases ps) auto

context tm_alloc
begin

lemma fq_new_rep:
  assumes "heap_ok ainv h" "nodes h = Map.empty" "arrays h = Map.empty" "unat sz \<le> max_request"
    "fq_new TM sz h = Some s"
  shows "fq_rep ainv s []"
proof -
  from assms(5) obtain p h1 h2 h3 where n: "tmNew TM sz (fnode_of EMPTY_ITEM) h = Some (p, h1)"
    and st: "store (\<lambda>n. n\<lparr>f_it := NUM_ITEMS\<rparr>) p h1 = Some h2" "store (\<lambda>n. n\<lparr>f_ih := NUM_ITEMS\<rparr>) p h2 = Some h3"
    and s: "s = \<lparr>fq_head = p, fq_tail = p, fq_heap = h3\<rparr>"
    by (auto simp: fq_new_def ret_simps)
  note f = tmNew_ok [OF assms(1,4) n]
  let ?n = "(fnode_of EMPTY_ITEM)\<lparr>f_it := NUM_ITEMS, f_ih := NUM_ITEMS\<rparr>"
  have h3: "nodes h3 = [p \<mapsto> ?n]" "arrays h3 = Map.empty"
    using st f(2,3) assms(2,3) by (auto simp: store_def)
  have "heap_ok ainv h3" using heap_ok_store [OF heap_ok_store [OF f(1) st(1)] st(2)] .
  moreover have "fshape [?n]" "fwin ?n = []" by (simp_all add: fshape_def fnode_ok_def fnode_of_def fwin_def)
  moreover have "f_next ?n = nullptr" by (simp add: fnode_of_def)
  ultimately show ?thesis
    unfolding fq_rep_def using h3 by (intro exI [of _ "[p]"] exI [of _ "[?n]"]) (simp add: s)
qed

lemma fq_enqueue_ok:
  assumes rep: "fq_rep ainv s xs" and sz: "unat sz \<le> max_request" and x: "x \<noteq> EMPTY_ITEM"
    and ret: "fq_enqueue TM sz x s = Some r"
  shows "\<exists>s'. r = Inr (True, s') \<and> fq_rep ainv s' (xs @ [x])"
proof -
  let ?m = "nodes (fq_heap s)" and ?t = "fq_tail s"
  from rep obtain ps p ns n where q: "lseg f_next ?m (fq_head s) (ps @ [p]) nullptr"
    "distinct (ps @ [p])" "?t = p" "map ?m ps = map Some ns" "?m p = Some n" "fshape (ns @ [n])"
    "concat (map fwin ns) @ fwin n = map Some xs" "EMPTY_ITEM \<notin> set xs" "dom ?m = set (ps @ [p])"
    "arrays (fq_heap s) = Map.empty" "heap_ok ainv (fq_heap s)"
    by (rule fq_rep_lastE)
  show ?thesis
  proof (cases "f_it n = NUM_ITEMS")
    case True
    with ret x q(3,5) obtain a h1 h2 where new: "tmNew TM sz (fnode_of x) (fq_heap s) = Some (a, h1)"
      and st: "store (\<lambda>n. n\<lparr>f_next := a\<rparr>) p h1 = Some h2"
      and r: "r = Inr (True, s\<lparr>fq_tail := a, fq_heap := h2\<rparr>)"
      by (auto simp: fq_enqueue_def heap_simps ret_simps)
    note fresh = tmNew_ok [OF q(11) sz new]
    have a: "a \<notin> set (ps @ [p])" using fresh(4) q(9) by (metis domIff)
    have h2: "nodes h2 = ?m(p \<mapsto> n\<lparr>f_next := a\<rparr>, a \<mapsto> fnode_of x)" "arrays h2 = Map.empty"
      using st fresh(2,3,4) q(5,10) by (auto simp: store_def fun_upd_twist split: if_splits)
    have seg: "lseg f_next (nodes h2) (fq_head s) (ps @ p # a # []) nullptr"
      unfolding h2(1)
    proof (rule lseg_insert_after [where n = n])
      show "f_next (fnode_of x) = f_next n"
        using lseg_next [OF q(1) q(5)] by (simp add: fnode_of_def)
    qed (use q(1,2,5) a in simp_all)
    have "map (nodes h2) (ps @ [p, a]) = map Some (ns @ [n\<lparr>f_next := a\<rparr>, fnode_of x])"
      using q(2,4) a unfolding h2(1) by simp
    moreover have "fshape (ns @ [n\<lparr>f_next := a\<rparr>, fnode_of x])"
      using q(6) True
      by (cases ns) (auto simp: fshape_def fnode_ok_def fnode_of_def butlast_append split: if_splits)
    moreover have "concat (map fwin (ns @ [n\<lparr>f_next := a\<rparr>, fnode_of x])) = map Some (xs @ [x])"
      using q(7) by (simp add: fwin_new) (simp add: fwin_def)
    moreover have "dom (nodes h2) = set (ps @ [p, a])" using q(9) unfolding h2(1) by auto
    ultimately have "fq_rep ainv (s\<lparr>fq_tail := a, fq_heap := h2\<rparr>) (xs @ [x])"
      unfolding fq_rep_def using seg q(2,8) a x h2(2) heap_ok_store [OF fresh(1) st]
      by (intro exI [of _ "ps @ [p, a]"] exI [of _ "ns @ [n\<lparr>f_next := a\<rparr>, fnode_of x]"]) simp
    with r show ?thesis by blast
  next
    case False
    have nok: "fnode_ok n" "f_it n < NUM_ITEMS" using q(6) False by (auto simp: fshape_def fnode_ok_def)
    let ?n = "n\<lparr>f_items := (f_items n)[f_it n := Some x], f_it := Suc (f_it n)\<rparr>"
    let ?h = "(fq_heap s)\<lparr>nodes := ?m(p \<mapsto> ?n)\<rparr>"
    have r: "r = Inr (True, s\<lparr>fq_heap := ?h\<rparr>)"
      using ret x q(3,5) False by (auto simp: fq_enqueue_def heap_simps ret_simps store_def)
    have seg: "lseg f_next (nodes ?h) (fq_head s) (ps @ [p]) nullptr"
      using q(1,5) lseg_same_link [of ?m p n f_next ?n] by simp
    have maps: "map (nodes ?h) (ps @ [p]) = map Some (ns @ [?n])" using q(2,4) by simp
    have shape: "fshape (ns @ [?n])"
      using q(6) nok by (cases ns) (auto simp: fshape_def fnode_ok_def)
    have items: "concat (map fwin (ns @ [?n])) = map Some (xs @ [x])"
      using q(7) fwin_push [OF nok] by simp
    have dm: "dom (nodes ?h) = set (ps @ [p])" using q(5,9) by auto
    have ok: "heap_ok ainv ?h" using heap_ok_upd [OF q(5)] q(11) by simp
    have "fq_rep ainv (s\<lparr>fq_heap := ?h\<rparr>) (xs @ [x])"
      unfolding fq_rep_def using seg maps shape items dm ok q(2,3,8,10) x
      by (intro exI [of _ "ps @ [p]"] exI [of _ "ns @ [?n]"]) simp
    with r show ?thesis by blast
  qed
qed

end

text \<open>Taking an item from the first node.\<close>

definition fq_nodes :: "('a \<Rightarrow> ptr set \<Rightarrow> bool) \<Rightarrow> (fnode, 'a) tmheap \<Rightarrow> ptr \<Rightarrow> ptr list \<Rightarrow> fnode list \<Rightarrow> bool" where
  "fq_nodes ainv h a ps ns \<longleftrightarrow>
     lseg f_next (nodes h) a ps nullptr \<and> distinct ps \<and> map (nodes h) ps = map Some ns
     \<and> fshape ns \<and> dom (nodes h) = set ps \<and> arrays h = Map.empty \<and> heap_ok ainv h"

lemma fq_pop:
  assumes "fq_nodes ainv h a (a # qs) (n # ms)" "f_ih n < f_it n"
    "concat (map fwin (n # ms)) = map Some xs"
  shows "\<exists>x ys. xs = x # ys \<and> f_items n ! f_ih n = Some x
     \<and> fq_nodes ainv (h\<lparr>nodes := (nodes h)(a \<mapsto> n\<lparr>f_ih := Suc (f_ih n)\<rparr>)\<rparr>) a (a # qs) (n\<lparr>f_ih := Suc (f_ih n)\<rparr> # ms)
     \<and> concat (map fwin (n\<lparr>f_ih := Suc (f_ih n)\<rparr> # ms)) = map Some ys"
proof -
  let ?n = "n\<lparr>f_ih := Suc (f_ih n)\<rparr>"
  from assms(1) have na: "nodes h a = Some n" and ok: "fnode_ok n" and shape: "fshape (n # ms)"
    by (auto simp: fq_nodes_def fshape_def)
  from assms(3) fwin_pop [OF ok assms(2)] obtain x ys where
    x: "xs = x # ys" "f_items n ! f_ih n = Some x" "fwin ?n @ concat (map fwin ms) = map Some ys"
    by (cases xs) auto
  have "fq_nodes ainv (h\<lparr>nodes := (nodes h)(a \<mapsto> ?n)\<rparr>) a (a # qs) (?n # ms)"
    using assms(1) na lseg_same_link [of "nodes h" a n f_next ?n] heap_ok_upd [OF na] shape ok assms(2)
    by (auto simp: fq_nodes_def fshape_def fnode_ok_def)
  with x show ?thesis by simp
qed

context tm_alloc
begin

lemma fq_dequeue_ok:
  assumes rep: "fq_rep ainv s xs"
  shows "\<exists>y s'. fq_dequeue TM s = Some (y, s') \<and>
      (if fq_head s = fq_tail s then y = EMPTY_ITEM \<and> s' = s
       else xs \<noteq> [] \<and> y = hd xs \<and> fq_rep ainv s' (tl xs))"
proof (cases "fq_head s = fq_tail s")
  case True then show ?thesis by (simp add: fq_dequeue_def)
next
  case False
  from rep obtain ps p ns n where q: "lseg f_next (nodes (fq_heap s)) (fq_head s) (ps @ [p]) nullptr"
    "distinct (ps @ [p])" "fq_tail s = p" "map (nodes (fq_heap s)) ps = map Some ns"
    "nodes (fq_heap s) p = Some n" "fshape (ns @ [n])"
    "concat (map fwin ns) @ fwin n = map Some xs" "EMPTY_ITEM \<notin> set xs"
    "dom (nodes (fq_heap s)) = set (ps @ [p])"
    "arrays (fq_heap s) = Map.empty" "heap_ok ainv (fq_heap s)"
    by (rule fq_rep_lastE)
  from False q(3) fq_rep_head [OF q(1,2)] obtain a qs where ps: "ps = a # qs" by (cases ps) auto
  from q(4) ps obtain n0 ms where ns: "ns = n0 # ms" by (cases ns) auto
  have a: "fq_head s = a" using q(1) ps by simp
  have all: "fq_nodes ainv (fq_heap s) a (a # qs @ [p]) (n0 # ms @ [n])"
    using q a by (simp add: fq_nodes_def ps ns)
  have n0: "nodes (fq_heap s) a = Some n0" "f_it n0 = NUM_ITEMS" "fnode_ok n0"
    using q(4,6) by (auto simp: ps ns fshape_def butlast_append)
  have items: "concat (map fwin (n0 # ms @ [n])) = map Some xs" using q(7) by (simp add: ns)
  have fin: "fq_rep ainv (s\<lparr>fq_head := b, fq_heap := h\<rparr>) ys"
    if "fq_nodes ainv h b (rs @ [p]) ks" "concat (map fwin ks) = map Some ys" "set ys \<subseteq> set xs" for b h rs ks ys
    using that q(3,8) unfolding fq_rep_def fq_nodes_def
    by (intro exI [of _ "rs @ [p]"] exI [of _ ks]) auto
  show ?thesis
  proof (cases "f_ih n0 = NUM_ITEMS")
    case False
    then have "f_ih n0 < f_it n0" using n0(2,3) by (simp add: fnode_ok_def)
    from fq_pop [OF all this items] obtain x ys where x: "xs = x # ys" "f_items n0 ! f_ih n0 = Some x"
      "fq_nodes ainv ((fq_heap s)\<lparr>nodes := (nodes (fq_heap s))(a \<mapsto> n0\<lparr>f_ih := Suc (f_ih n0)\<rparr>)\<rparr>) a
         (a # qs @ [p]) (n0\<lparr>f_ih := Suc (f_ih n0)\<rparr> # ms @ [n])"
      "concat (map fwin (n0\<lparr>f_ih := Suc (f_ih n0)\<rparr> # ms @ [n])) = map Some ys" by blast
    have "f_ih n0 < NUM_ITEMS" using \<open>f_ih n0 < f_it n0\<close> n0(2) by simp
    then have "fq_dequeue TM s = Some (x, s\<lparr>fq_head := a, fq_heap :=
        (fq_heap s)\<lparr>nodes := (nodes (fq_heap s))(a \<mapsto> n0\<lparr>f_ih := Suc (f_ih n0)\<rparr>)\<rparr>\<rparr>)"
      using \<open>fq_head s \<noteq> fq_tail s\<close> a n0(1) x(2) by (simp add: fq_dequeue_def heap_simps)
    moreover have "fq_rep ainv (s\<lparr>fq_head := a, fq_heap :=
        (fq_heap s)\<lparr>nodes := (nodes (fq_heap s))(a \<mapsto> n0\<lparr>f_ih := Suc (f_ih n0)\<rparr>)\<rparr>\<rparr>) ys"
      by (rule fin [of _ a "a # qs", OF _ x(4)]) (use x(1,3) in auto)
    ultimately show ?thesis using \<open>fq_head s \<noteq> fq_tail s\<close> x(1) by simp
  next
    case True
    from tmDelete_ok [OF q(11) n0(1)] q(10) obtain h1 where h1: "tmDelete TM a (fq_heap s) = Some h1"
      "heap_ok ainv h1" "nodes h1 = (nodes (fq_heap s))(a := None)" "arrays h1 = Map.empty" by auto
    obtain b bs where bs: "qs @ [p] = b # bs" by (cases "qs @ [p]") auto
    obtain n1 ks where ks: "ms @ [n] = n1 # ks" by (cases "ms @ [n]") auto
    have fresh: "a \<notin> set (b # bs)" using q(2) bs by (metis append_Cons distinct.simps(2) ps)
    from all have seg: "lseg f_next (nodes (fq_heap s)) (f_next n0) (b # bs) nullptr" "f_next n0 = b"
      using n0(1) by (auto simp: fq_nodes_def bs split: option.splits)
    have all1: "fq_nodes ainv h1 b (b # bs) (n1 # ks)"
    proof -
      have "lseg f_next (nodes h1) b (b # bs) nullptr"
        unfolding h1(3) using lseg_upd [OF fresh] seg by blast
      moreover have "map (nodes h1) (b # bs) = map Some (n1 # ks)"
        using all fresh unfolding fq_nodes_def bs ks h1(3) by simp
      moreover have "fshape (n1 # ks)"
        using all unfolding fq_nodes_def bs ks by (auto simp: fshape_def split: if_splits)
      moreover have "dom (nodes h1) = set (b # bs)" "distinct (b # bs)"
        using all fresh unfolding fq_nodes_def bs ks h1(3) by auto
      ultimately show ?thesis using h1(2,4) by (simp add: fq_nodes_def)
    qed
    have n1: "f_ih n1 = 0" "1 \<le> f_it n1" using all by (auto simp: fq_nodes_def fshape_def ks)
    have "fwin n0 = []" using True n0(2,3) by (simp add: fwin_def fnode_ok_def)
    then have items1: "concat (map fwin (n1 # ks)) = map Some xs" using items by (simp flip: ks)
    have "f_ih n1 < f_it n1" using n1 by simp
    from fq_pop [OF all1 this items1] obtain x ys where x: "xs = x # ys" "f_items n1 ! f_ih n1 = Some x"
      "fq_nodes ainv (h1\<lparr>nodes := (nodes h1)(b \<mapsto> n1\<lparr>f_ih := Suc (f_ih n1)\<rparr>)\<rparr>) b
         (b # bs) (n1\<lparr>f_ih := Suc (f_ih n1)\<rparr> # ks)"
      "concat (map fwin (n1\<lparr>f_ih := Suc (f_ih n1)\<rparr> # ks)) = map Some ys" by blast
    have nb: "nodes h1 b = Some n1" using all1 by (simp add: fq_nodes_def)
    have "fq_dequeue TM s = Some (x, s\<lparr>fq_head := b, fq_heap :=
        h1\<lparr>nodes := (nodes h1)(b \<mapsto> n1\<lparr>f_ih := Suc (f_ih n1)\<rparr>)\<rparr>\<rparr>)"
      using \<open>fq_head s \<noteq> fq_tail s\<close> a n0(1) x(2) True seg(2) h1(1) nb n1(1)
      by (simp add: fq_dequeue_def heap_simps)
    moreover have "fq_rep ainv (s\<lparr>fq_head := b, fq_heap :=
        h1\<lparr>nodes := (nodes h1)(b \<mapsto> n1\<lparr>f_ih := Suc (f_ih n1)\<rparr>)\<rparr>\<rparr>) ys"
      by (rule fin [OF x(3) [folded bs] x(4)]) (use x(1) in auto)
    ultimately show ?thesis using \<open>fq_head s \<noteq> fq_tail s\<close> x(1) by simp
  qed
qed

lemma fq_drain_ok:
  "fq_rep ainv s xs \<Longrightarrow> \<exists>s'. fq_drain TM s = Some s' \<and> fq_head s' = fq_tail s' \<and> (\<exists>ys. fq_rep ainv s' ys)"
proof (induction "length xs" arbitrary: s xs)
  case 0
  from fq_dequeue_ok [OF 0(2)] 0 have "fq_dequeue TM s = Some (EMPTY_ITEM, s)" "fq_head s = fq_tail s"
    by (auto split: if_splits)
  with 0(2) show ?case by (subst fq_drain.simps) auto
next
  case (Suc k)
  from fq_dequeue_ok [OF Suc(3)] obtain y s1 where d: "fq_dequeue TM s = Some (y, s1)"
    "if fq_head s = fq_tail s then y = EMPTY_ITEM \<and> s1 = s else xs \<noteq> [] \<and> y = hd xs \<and> fq_rep ainv s1 (tl xs)"
    by blast
  show ?case
  proof (cases "fq_head s = fq_tail s")
    case True
    with d Suc(3) show ?thesis by (subst fq_drain.simps) auto
  next
    case False
    have "EMPTY_ITEM \<notin> set xs" using Suc(3) by (auto simp: fq_rep_def)
    with d False have "y \<noteq> EMPTY_ITEM" by (metis hd_in_set)
    with Suc(1) [of "tl xs" s1] Suc(2) d False show ?thesis by (subst fq_drain.simps) auto
  qed
qed

lemma fq_delete_ok:
  assumes "fq_rep ainv s xs"
  shows "\<exists>h'. fq_delete TM s = Some h' \<and> heap_ok ainv h' \<and> nodes h' = Map.empty \<and> arrays h' = Map.empty"
proof -
  from fq_drain_ok [OF assms] obtain s' ys where s': "fq_drain TM s = Some s'" "fq_head s' = fq_tail s'"
    "fq_rep ainv s' ys" by blast
  from s'(3) obtain ps p ns n where q: "lseg f_next (nodes (fq_heap s')) (fq_head s') (ps @ [p]) nullptr"
    "distinct (ps @ [p])" "fq_tail s' = p" "nodes (fq_heap s') p = Some n"
    "dom (nodes (fq_heap s')) = set (ps @ [p])" "arrays (fq_heap s') = Map.empty" "heap_ok ainv (fq_heap s')"
    by (rule fq_rep_lastE) blast
  from fq_rep_head [OF q(1,2)] s'(2) q(3) have "ps = []" by simp
  with q(5) have dm: "dom (nodes (fq_heap s')) = {p}" by simp
  from tmDelete_ok [OF q(7,4)] q(6) obtain h where h: "tmDelete TM p (fq_heap s') = Some h" "heap_ok ainv h"
    "nodes h = (nodes (fq_heap s'))(p := None)" "arrays h = Map.empty" by auto
  from h(3) dm have "dom (nodes h) = {}" by auto
  then have "nodes h = Map.empty" by (simp only: dom_eq_empty_conv)
  with h s'(1,2) q(3) show ?thesis by (simp add: fq_delete_def)
qed

end

subsection \<open>Property\<close>

text \<open>An enqueue that does not throw.\<close>

definition fq_enq :: "u64 \<Rightarrow> ptr \<Rightarrow> esloco fatqueue \<Rightarrow> (bool \<times> esloco fatqueue) option" where
  "fq_enq sz x s = (case fq_enqueue esl_tm sz x s of Some (Inr y) \<Rightarrow> Some y | _ \<Rightarrow> None)"

text \<open>
  C26: the fat queue never loses, duplicates or reorders an item: after any sequence of
  requests, the accepted items are those handed out, in the same order, followed by those
  still held; and the destructor frees every node.
\<close>

theorem fq_requests_fifo:
  assumes "heap_ok esl_inv h" "nodes h = Map.empty" "arrays h = Map.empty"
    "unat sz \<le> esl_max_request" "fq_new esl_tm sz h = Some s" "Enq EMPTY_ITEM \<notin> set ops"
    "q_impl_run (fq_enq sz) (fq_dequeue esl_tm) ops s = Some (rs, s')"
  shows "\<exists>held. fq_rep esl_inv s' held \<and> enqueued ops rs = dequeued EMPTY_ITEM rs @ held
       \<and> (\<exists>h'. fq_delete esl_tm s' = Some h' \<and> nodes h' = Map.empty \<and> esl_inv (pool h') {})"
proof -
  have step: "\<exists>held. fq_rep esl_inv s' held \<and> xs @ enqueued ops rs = dequeued EMPTY_ITEM rs @ held"
    if "fq_rep esl_inv s xs" "Enq EMPTY_ITEM \<notin> set ops"
       "q_impl_run (fq_enq sz) (fq_dequeue esl_tm) ops s = Some (rs, s')" for xs ops s rs
    using that
  proof (induction ops arbitrary: s xs rs)
    case (Cons x ops)
    from Cons.prems(3) obtain r s1 rs1 where st: "q_impl_step (fq_enq sz) (fq_dequeue esl_tm) x s = Some (r, s1)"
      and run: "q_impl_run (fq_enq sz) (fq_dequeue esl_tm) ops s1 = Some (rs1, s')" and rs: "rs = r # rs1"
      by (auto simp: ret_simps)
    have ne: "Enq EMPTY_ITEM \<notin> set ops" using Cons.prems(2) by simp
    show ?case
    proof (cases x)
      case (Enq y)
      from st Enq obtain b where e: "fq_enqueue esl_tm sz y s = Some (Inr (b, s1))" "r = Inl b"
        by (auto simp: fq_enq_def split: option.splits sum.splits)
      have "y \<noteq> EMPTY_ITEM" using Cons.prems(2) Enq by auto
      from eslh.fq_enqueue_ok [OF Cons.prems(1) assms(4) this e(1)] have "b" "fq_rep esl_inv s1 (xs @ [y])"
        by auto
      with Cons.IH [OF this(2) ne run] e(2) show ?thesis by (simp add: rs Enq)
    next
      case Deq
      from st Deq obtain y where d: "fq_dequeue esl_tm s = Some (y, s1)" "r = Inr y" by auto
      with eslh.fq_dequeue_ok [OF Cons.prems(1)]
      have d2: "if fq_head s = fq_tail s then y = EMPTY_ITEM \<and> s1 = s
             else xs \<noteq> [] \<and> y = hd xs \<and> fq_rep esl_inv s1 (tl xs)" by simp
      show ?thesis
      proof (cases "fq_head s = fq_tail s")
        case True
        with d2 Cons.IH [OF Cons.prems(1) ne] run d(2) show ?thesis by (simp add: rs Deq)
      next
        case False
        have "EMPTY_ITEM \<notin> set xs" using Cons.prems(1) by (auto simp: fq_rep_def)
        with d2 False have "y \<noteq> EMPTY_ITEM" "xs = y # tl xs" "fq_rep esl_inv s1 (tl xs)"
          by (metis hd_in_set, metis list.collapse, metis)
        from Cons.IH [OF this(3) ne run] obtain held where
          "fq_rep esl_inv s' held" "tl xs @ enqueued ops rs1 = dequeued EMPTY_ITEM rs1 @ held" by blast
        moreover from this(2) have "(y # tl xs) @ enqueued ops rs1 = (y # dequeued EMPTY_ITEM rs1) @ held"
          by simp
        ultimately show ?thesis using \<open>y \<noteq> EMPTY_ITEM\<close> \<open>xs = y # tl xs\<close> d(2)
          by (auto simp: rs Deq)
      qed
    qed
  qed auto
  from step [OF eslh.fq_new_rep [OF assms(1-5)] assms(6,7)] obtain held where
    held: "fq_rep esl_inv s' held" "enqueued ops rs = dequeued EMPTY_ITEM rs @ held" by auto
  from eslh.fq_delete_ok [OF held(1)] obtain h' where
    "fq_delete esl_tm s' = Some h'" "nodes h' = Map.empty" "esl_inv (pool h') {}"
    by (auto simp: heap_ok_def)
  with held show ?thesis by blast
qed

definition fq_example :: "esloco fatqueue" where
  "fq_example = the (fq_new esl_tm 128 esl_heap)"

lemma fq_example_new: "fq_new esl_tm 128 esl_heap = Some fq_example"
proof -
  have "\<not> Option.is_none (fq_new esl_tm 128 esl_heap)" by code_simp
  then show ?thesis by (auto simp: Option.is_none_def fq_example_def)
qed

definition fq_example_run :: "((bool + ptr) list \<times> esloco fatqueue) option" where
  "fq_example_run = q_impl_run (fq_enq 128) (fq_dequeue esl_tm) [Enq 5, Deq, Enq 6, Deq] fq_example"

text \<open>
  The last dequeue of this run answers EMPTY although the item 6 is in the queue: dequeue
  compares head with tail before it looks at the items of the only node.
\<close>

lemma fq_dequeue_misses: "map_option fst fq_example_run = Some [Inl True, Inr 5, Inl True, Inr 0]"
  by code_simp

theorem fq_requests_fifo_witness:
  "\<exists>s' held. fq_example_run = Some ([Inl True, Inr 5, Inl True, Inr 0], s')
     \<and> fq_rep esl_inv s' held \<and> [5, 6] = 5 # held"
proof -
  from fq_dequeue_misses obtain s' where r: "fq_example_run = Some ([Inl True, Inr 5, Inl True, Inr 0], s')"
    by auto
  have sz: "unat (128 :: u64) \<le> esl_max_request" by (simp add: esl_max_request_def)
  have ne: "Enq EMPTY_ITEM \<notin> set [Enq 5, Deq, Enq 6, Deq]" by simp
  from fq_requests_fifo [OF esl_heap_ok sz fq_example_new ne r [unfolded fq_example_run_def]] r
  show ?thesis by auto
qed

end
