(* ===== verification/HashMap.thy ===== *)
theory HashMap
  imports LinkedSeg SetContract EsHeap
begin

text \<open>
  The resizable hash map of pdatastructures/TMHashMap.hpp: an array of buckets, each the first
  node of a null-terminated chain, that doubles when the load factor 0.75 is exceeded. The hash
  function is a parameter of the model (std::hash of the key type).
\<close>

record ('k, 'v) hnode =
  hkey :: 'k
  hval :: 'v
  hnext :: ptr

record ('k, 'v, 'a) hashmap =
  hm_capacity :: u64
  hm_size :: u64
  hm_buckets :: ptr
  hm_heap :: "(('k, 'v) hnode, 'a) tmheap"

definition hnode_of :: "'k \<Rightarrow> 'v \<Rightarrow> ('k, 'v) hnode" where
  "hnode_of k v = \<lparr>hkey = k, hval = v, hnext = nullptr\<rparr>"

subsection \<open>The load factor test\<close>

text \<open>
  The test compares sizeHM with capacity times 0.75f: both integers are rounded to the nearest
  single-precision value (24 significant bits, ties to even), and so is the product.
\<close>

function bit_length :: "int \<Rightarrow> nat" where
  "bit_length n = (if n \<le> 0 then 0 else Suc (bit_length (n div 2)))"
  by auto
termination by (relation "measure nat") auto

declare bit_length.simps [simp del]

definition round_f32 :: "int \<Rightarrow> int" where
  "round_f32 n =
     (if n < 2 ^ 24 then n
      else let ulp = 2 ^ (bit_length n - 24); q = n div ulp; r = n mod ulp
           in if 2 * r < ulp \<or> 2 * r = ulp \<and> even q then q * ulp else (q + 1) * ulp)"

definition hm_over_load :: "u64 \<Rightarrow> u64 \<Rightarrow> bool" where
  "hm_over_load sizeHM capacity \<longleftrightarrow>
     round_f32 (3 * round_f32 (uint capacity)) < 4 * round_f32 (uint sizeHM)"

subsection \<open>Operations\<close>

text \<open>
  The loops over the buckets count with a 32-bit int, so they have no defined result beyond
  2147483647 buckets.
\<close>

definition int_counter_ok :: "u64 \<Rightarrow> bool" where
  "int_counter_ok n \<longleftrightarrow> n < 2147483648"

lemma int_counter_ok_iff: "int_counter_ok n \<longleftrightarrow> unat n < 2 ^ 31"
  by (simp add: int_counter_ok_def word_less_nat_alt)

fun init_loop :: "ptr \<Rightarrow> nat list \<Rightarrow> ('n, 'a) tmheap \<Rightarrow> ('n, 'a) tmheap option" where
  "init_loop p [] h = Some h"
| "init_loop p (i # is) h = do { h1 \<leftarrow> store_arr p i nullptr h; init_loop p is h1 }"

definition alloc_buckets :: "'a tm \<Rightarrow> u64 \<Rightarrow> ('n, 'a) tmheap \<Rightarrow> (ptr \<times> ('n, 'a) tmheap) option" where
  "alloc_buckets TM cap h =
     do { (p, h1) \<leftarrow> pmalloc TM (cap * 8) h;
          h2 \<leftarrow> (if int_counter_ok cap then init_loop p [0..<unat cap] h1 else None);
          Some (p, h2) }"

definition hm_new :: "'a tm \<Rightarrow> u64 \<Rightarrow> (('k, 'v) hnode, 'a) tmheap \<Rightarrow> ('k, 'v, 'a) hashmap option" where
  "hm_new TM cap h =
     do { (p, h1) \<leftarrow> alloc_buckets TM cap h;
          Some \<lparr>hm_capacity = cap, hm_size = 0, hm_buckets = p, hm_heap = h1\<rparr> }"

definition hm_index :: "('k \<Rightarrow> u64) \<Rightarrow> 'k \<Rightarrow> u64 \<Rightarrow> nat option" where
  "hm_index hash k cap = (if cap = 0 then None else Some (unat (hash k mod cap)))"

text \<open>Rehashing one chain into the new buckets, then every chain.\<close>

partial_function (option) rehash_chain ::
  "('k \<Rightarrow> u64) \<Rightarrow> u64 \<Rightarrow> ptr \<Rightarrow> ptr \<Rightarrow> (('k, 'v) hnode, 'a) tmheap \<Rightarrow> (('k, 'v) hnode, 'a) tmheap option" where
  "rehash_chain hash newcapacity newbuckets node h =
     (if node = nullptr then Some h
      else do { nxt \<leftarrow> load hnext node h;
                k \<leftarrow> load hkey node h;
                i \<leftarrow> hm_index hash k newcapacity;
                b \<leftarrow> load_arr newbuckets i h;
                h1 \<leftarrow> store (\<lambda>n. n\<lparr>hnext := b\<rparr>) node h;
                h2 \<leftarrow> store_arr newbuckets i node h1;
                rehash_chain hash newcapacity newbuckets nxt h2 })"

declare rehash_chain.simps [code]

fun rehash_all ::
  "('k \<Rightarrow> u64) \<Rightarrow> u64 \<Rightarrow> ptr \<Rightarrow> ptr \<Rightarrow> nat list \<Rightarrow> (('k, 'v) hnode, 'a) tmheap \<Rightarrow> (('k, 'v) hnode, 'a) tmheap option" where
  "rehash_all hash newcapacity newbuckets buckets [] h = Some h"
| "rehash_all hash newcapacity newbuckets buckets (i # is) h =
     do { node \<leftarrow> load_arr buckets i h;
          h1 \<leftarrow> rehash_chain hash newcapacity newbuckets node h;
          rehash_all hash newcapacity newbuckets buckets is h1 }"

definition hm_rebuild :: "'a tm \<Rightarrow> ('k \<Rightarrow> u64) \<Rightarrow> ('k, 'v, 'a) hashmap \<Rightarrow> ('k, 'v, 'a) hashmap option" where
  "hm_rebuild TM hash s =
     do { let newcapacity = 2 * hm_capacity s;
          (newbuckets, h1) \<leftarrow> alloc_buckets TM newcapacity (hm_heap s);
          h2 \<leftarrow> rehash_all hash newcapacity newbuckets (hm_buckets s) [0..<unat (hm_capacity s)] h1;
          h3 \<leftarrow> pfree TM (hm_buckets s) h2;
          Some (s\<lparr>hm_buckets := newbuckets, hm_capacity := newcapacity, hm_heap := h3\<rparr>) }"

text \<open>
  oldValue is a reference parameter that is written when a mapping is found and saveOldValue
  is set; None stands for a variable that holds no value yet.
\<close>

partial_function (option) hm_put_loop ::
  "'a tm \<Rightarrow> u64 \<Rightarrow> 'k \<Rightarrow> 'v \<Rightarrow> 'v option \<Rightarrow> bool \<Rightarrow> nat \<Rightarrow> ptr \<Rightarrow> ptr \<Rightarrow> ('k, 'v, 'a) hashmap
    \<Rightarrow> (bool \<times> 'v option \<times> ('k, 'v, 'a) hashmap) option" where
  "hm_put_loop TM sz key newval oldValue saveOldValue i node prev s =
     (if node = nullptr
      then do { (newnode, h1) \<leftarrow> tmNew TM sz (hnode_of key newval) (hm_heap s);
                h2 \<leftarrow> (if node = prev then store_arr (hm_buckets s) i newnode h1
                       else store (\<lambda>n. n\<lparr>hnext := newnode\<rparr>) prev h1);
                Some (True, oldValue, s\<lparr>hm_heap := h2, hm_size := hm_size s + 1\<rparr>) }
      else do { k \<leftarrow> load hkey node (hm_heap s);
                if key = k
                then do { v \<leftarrow> load hval node (hm_heap s);
                          h1 \<leftarrow> store (\<lambda>n. n\<lparr>hval := newval\<rparr>) node (hm_heap s);
                          Some (False, if saveOldValue then Some v else oldValue, s\<lparr>hm_heap := h1\<rparr>) }
                else do { nxt \<leftarrow> load hnext node (hm_heap s);
                          hm_put_loop TM sz key newval oldValue saveOldValue i nxt node s } })"

declare hm_put_loop.simps [code]

definition hm_innerPut ::
  "'a tm \<Rightarrow> u64 \<Rightarrow> ('k \<Rightarrow> u64) \<Rightarrow> 'k \<Rightarrow> 'v \<Rightarrow> 'v option \<Rightarrow> bool \<Rightarrow> ('k, 'v, 'a) hashmap
    \<Rightarrow> (bool \<times> 'v option \<times> ('k, 'v, 'a) hashmap) option" where
  "hm_innerPut TM sz hash key newval oldValue saveOldValue s =
     do { s1 \<leftarrow> (if hm_over_load (hm_size s) (hm_capacity s) then hm_rebuild TM hash s else Some s);
          i \<leftarrow> hm_index hash key (hm_capacity s1);
          node \<leftarrow> load_arr (hm_buckets s1) i (hm_heap s1);
          hm_put_loop TM sz key newval oldValue saveOldValue i node node s1 }"

partial_function (option) hm_remove_loop ::
  "'a tm \<Rightarrow> 'k \<Rightarrow> 'v option \<Rightarrow> bool \<Rightarrow> nat \<Rightarrow> ptr \<Rightarrow> ptr \<Rightarrow> ('k, 'v, 'a) hashmap
    \<Rightarrow> (bool \<times> 'v option \<times> ('k, 'v, 'a) hashmap) option" where
  "hm_remove_loop TM key oldValue saveOldValue i node prev s =
     (if node = nullptr then Some (False, oldValue, s)
      else do { k \<leftarrow> load hkey node (hm_heap s);
                nxt \<leftarrow> load hnext node (hm_heap s);
                if key = k
                then do { v \<leftarrow> load hval node (hm_heap s);
                          h1 \<leftarrow> (if node = prev then store_arr (hm_buckets s) i nxt (hm_heap s)
                                 else store (\<lambda>n. n\<lparr>hnext := nxt\<rparr>) prev (hm_heap s));
                          h2 \<leftarrow> tmDelete TM node h1;
                          Some (True, if saveOldValue then Some v else oldValue,
                                s\<lparr>hm_heap := h2, hm_size := hm_size s - 1\<rparr>) }
                else hm_remove_loop TM key oldValue saveOldValue i nxt node s })"

declare hm_remove_loop.simps [code]

definition hm_innerRemove ::
  "'a tm \<Rightarrow> ('k \<Rightarrow> u64) \<Rightarrow> 'k \<Rightarrow> 'v option \<Rightarrow> bool \<Rightarrow> ('k, 'v, 'a) hashmap
    \<Rightarrow> (bool \<times> 'v option \<times> ('k, 'v, 'a) hashmap) option" where
  "hm_innerRemove TM hash key oldValue saveOldValue s =
     do { i \<leftarrow> hm_index hash key (hm_capacity s);
          node \<leftarrow> load_arr (hm_buckets s) i (hm_heap s);
          hm_remove_loop TM key oldValue saveOldValue i node node s }"

partial_function (option) hm_get_loop ::
  "'k \<Rightarrow> 'v option \<Rightarrow> bool \<Rightarrow> ptr \<Rightarrow> (('k, 'v) hnode, 'a) tmheap \<Rightarrow> (bool \<times> 'v option) option" where
  "hm_get_loop key oldValue saveOldValue node h =
     (if node = nullptr then Some (False, oldValue)
      else do { k \<leftarrow> load hkey node h;
                if key = k
                then do { v \<leftarrow> load hval node h; Some (True, if saveOldValue then Some v else oldValue) }
                else do { nxt \<leftarrow> load hnext node h; hm_get_loop key oldValue saveOldValue nxt h } })"

declare hm_get_loop.simps [code]

definition hm_innerGet ::
  "('k \<Rightarrow> u64) \<Rightarrow> 'k \<Rightarrow> 'v option \<Rightarrow> bool \<Rightarrow> ('k, 'v, 'a) hashmap \<Rightarrow> (bool \<times> 'v option) option" where
  "hm_innerGet hash key oldValue saveOldValue s =
     do { i \<leftarrow> hm_index hash key (hm_capacity s);
          node \<leftarrow> load_arr (hm_buckets s) i (hm_heap s);
          hm_get_loop key oldValue saveOldValue node (hm_heap s) }"

text \<open>The set interface maps a key to itself.\<close>

definition hm_add :: "'a tm \<Rightarrow> u64 \<Rightarrow> ('k \<Rightarrow> u64) \<Rightarrow> 'k \<Rightarrow> ('k, 'k, 'a) hashmap \<Rightarrow> (bool \<times> ('k, 'k, 'a) hashmap) option" where
  "hm_add TM sz hash key s = map_option (\<lambda>(r, _, s'). (r, s')) (hm_innerPut TM sz hash key key None False s)"

definition hm_remove :: "'a tm \<Rightarrow> ('k \<Rightarrow> u64) \<Rightarrow> 'k \<Rightarrow> ('k, 'k, 'a) hashmap \<Rightarrow> (bool \<times> ('k, 'k, 'a) hashmap) option" where
  "hm_remove TM hash key s = map_option (\<lambda>(r, _, s'). (r, s')) (hm_innerRemove TM hash key None False s)"

definition hm_contains :: "('k \<Rightarrow> u64) \<Rightarrow> 'k \<Rightarrow> ('k, 'k, 'a) hashmap \<Rightarrow> bool option" where
  "hm_contains hash key s = map_option fst (hm_innerGet hash key None False s)"

text \<open>The destructor frees every chain, then the array.\<close>

partial_function (option) free_chain ::
  "'a tm \<Rightarrow> ptr \<Rightarrow> (('k, 'v) hnode, 'a) tmheap \<Rightarrow> (('k, 'v) hnode, 'a) tmheap option" where
  "free_chain TM node h =
     (if node = nullptr then Some h
      else do { nxt \<leftarrow> load hnext node h; h1 \<leftarrow> tmDelete TM node h; free_chain TM nxt h1 })"

declare free_chain.simps [code]

fun free_chains ::
  "'a tm \<Rightarrow> ptr \<Rightarrow> nat list \<Rightarrow> (('k, 'v) hnode, 'a) tmheap \<Rightarrow> (('k, 'v) hnode, 'a) tmheap option" where
  "free_chains TM buckets [] h = Some h"
| "free_chains TM buckets (i # is) h =
     do { node \<leftarrow> load_arr buckets i h; h1 \<leftarrow> free_chain TM node h; free_chains TM buckets is h1 }"

definition hm_delete :: "'a tm \<Rightarrow> ('k, 'v, 'a) hashmap \<Rightarrow> (('k, 'v) hnode, 'a) tmheap option" where
  "hm_delete TM s =
     do { h1 \<leftarrow> (if int_counter_ok (hm_capacity s)
                then free_chains TM (hm_buckets s) [0..<unat (hm_capacity s)] (hm_heap s) else None);
          pfree TM (hm_buckets s) h1 }"

subsection \<open>Chains and buckets\<close>

abbreviation kv_of :: "('k, 'v) hnode \<Rightarrow> 'k \<times> 'v" where
  "kv_of n \<equiv> (hkey n, hval n)"

text \<open>A null-terminated chain from b through the addresses ps that holds the mappings kvs.\<close>

definition hchain :: "(ptr \<rightharpoonup> ('k, 'v) hnode) \<Rightarrow> ptr \<Rightarrow> ptr list \<Rightarrow> ('k \<times> 'v) list \<Rightarrow> bool" where
  "hchain m b ps kvs \<longleftrightarrow>
     lseg hnext m b ps nullptr \<and> distinct ps \<and> nullptr \<notin> set ps
     \<and> field_seq kv_of m ps = map Some kvs \<and> distinct (map fst kvs)"

lemma hchain_Nil [simp]: "hchain m b [] kvs \<longleftrightarrow> b = nullptr \<and> kvs = []"
  by (auto simp: hchain_def)

lemma hchain_Cons:
  "hchain m b (p # ps) kvs \<longleftrightarrow>
     (\<exists>n kvs'. p = b \<and> b \<noteq> nullptr \<and> m b = Some n \<and> kvs = kv_of n # kvs' \<and> b \<notin> set ps
        \<and> hchain m (hnext n) ps kvs' \<and> hkey n \<notin> fst ` set kvs')"
  by (cases kvs) (auto simp: hchain_def split: option.splits intro: rev_image_eqI)

lemma hchain_cong: "(\<And>x. x \<in> set ps \<Longrightarrow> m' x = m x) \<Longrightarrow> hchain m' b ps kvs = hchain m b ps kvs"
  unfolding hchain_def field_seq_def using lseg_cong [of ps m' m] by (auto cong: map_cong)

definition hidx :: "('k \<Rightarrow> u64) \<Rightarrow> u64 \<Rightarrow> 'k \<Rightarrow> nat" where
  "hidx hash cap k = unat (hash k mod cap)"

lemma hidx_less: "cap \<noteq> 0 \<Longrightarrow> hidx hash cap k < unat cap"
  by (simp add: hidx_def unat_mod_distrib unat_gt_0)

lemma hm_index_hidx: "cap \<noteq> 0 \<Longrightarrow> hm_index hash k cap = Some (hidx hash cap k)"
  by (simp add: hm_index_def hidx_def)

definition hm_at ::
  "('k \<Rightarrow> u64) \<Rightarrow> u64 \<Rightarrow> (ptr \<rightharpoonup> ('k, 'v) hnode) \<Rightarrow> ptr option list \<Rightarrow> (nat \<Rightarrow> ptr list)
    \<Rightarrow> (nat \<Rightarrow> ('k \<times> 'v) list) \<Rightarrow> bool" where
  "hm_at hash cap m bs ps kv \<longleftrightarrow>
     length bs = unat cap
     \<and> (\<forall>i < unat cap. \<exists>b. bs ! i = Some b \<and> hchain m b (ps i) (kv i) \<and> (\<forall>x\<in>set (kv i). hidx hash cap (fst x) = i))
     \<and> (\<forall>i < unat cap. \<forall>j < unat cap. i \<noteq> j \<longrightarrow> set (ps i) \<inter> set (ps j) = {})"

definition hm_map :: "('k \<Rightarrow> u64) \<Rightarrow> u64 \<Rightarrow> (nat \<Rightarrow> ('k \<times> 'v) list) \<Rightarrow> 'k \<rightharpoonup> 'v" where
  "hm_map hash cap kv k = map_of (kv (hidx hash cap k)) k"

definition hm_rep :: "('a \<Rightarrow> ptr set \<Rightarrow> bool) \<Rightarrow> ('k \<Rightarrow> u64) \<Rightarrow> ('k, 'v, 'a) hashmap \<Rightarrow> ('k \<rightharpoonup> 'v) \<Rightarrow> bool" where
  "hm_rep ainv hash s M \<longleftrightarrow>
     (\<exists>bs ps kv. hm_capacity s \<noteq> 0 \<and> int_counter_ok (hm_capacity s)
        \<and> arrays (hm_heap s) = [hm_buckets s \<mapsto> bs]
        \<and> hm_at hash (hm_capacity s) (nodes (hm_heap s)) bs ps kv
        \<and> dom (nodes (hm_heap s)) = (\<Union>i < unat (hm_capacity s). set (ps i))
        \<and> M = hm_map hash (hm_capacity s) kv \<and> hm_size s = of_nat (card (dom M))
        \<and> heap_ok ainv (hm_heap s))"

lemma hm_at_upd:
  assumes "hm_at hash cap m bs ps kv" "i < unat cap" "hchain m' b' ps' kvs'"
    "\<forall>x\<in>set kvs'. hidx hash cap (fst x) = i"
    "\<And>j. j < unat cap \<Longrightarrow> j \<noteq> i \<Longrightarrow> set ps' \<inter> set (ps j) = {} \<and> (\<forall>x\<in>set (ps j). m' x = m x)"
  shows "hm_at hash cap m' (bs[i := Some b']) (ps(i := ps')) (kv(i := kvs'))"
proof -
  have len: "length bs = unat cap" using assms(1) by (simp add: hm_at_def)
  have "\<exists>b. bs[i := Some b'] ! j = Some b \<and> hchain m' b ((ps(i := ps')) j) ((kv(i := kvs')) j)
          \<and> (\<forall>x\<in>set ((kv(i := kvs')) j). hidx hash cap (fst x) = j)" if "j < unat cap" for j
  proof (cases "j = i")
    case True
    with assms(2-4) len show ?thesis by simp
  next
    case False
    with assms(1) that obtain b where "bs ! j = Some b" "hchain m b (ps j) (kv j)"
      "\<forall>x\<in>set (kv j). hidx hash cap (fst x) = j" by (auto simp: hm_at_def)
    moreover have "hchain m' b (ps j) (kv j) = hchain m b (ps j) (kv j)"
      by (rule hchain_cong) (use assms(5) that False in blast)
    ultimately show ?thesis using False by auto
  qed
  moreover have "set ((ps(i := ps')) j) \<inter> set ((ps(i := ps')) l) = {}"
    if "j < unat cap" "l < unat cap" "j \<noteq> l" for j l
  proof (cases "j = i \<or> l = i")
    case True
    with assms(5) that show ?thesis by (auto simp: Int_commute)
  next
    case False
    with assms(1) that show ?thesis by (simp add: hm_at_def)
  qed
  ultimately show ?thesis unfolding hm_at_def using len by simp
qed

lemma hm_map_upd:
  "hm_map hash cap (kv(i := kvs)) k = (if hidx hash cap k = i then map_of kvs k else hm_map hash cap kv k)"
  by (simp add: hm_map_def)

lemma hm_at_bucket:
  assumes "hm_at hash cap m bs ps kv" "i < unat cap"
  obtains b where "bs ! i = Some b" "hchain m b (ps i) (kv i)" "\<forall>x\<in>set (kv i). hidx hash cap (fst x) = i"
  using assms by (auto simp: hm_at_def)

lemma hm_map_finite:
  assumes "cap \<noteq> 0" shows "finite (dom (hm_map hash cap kv))"
proof (rule finite_subset)
  show "dom (hm_map hash cap kv) \<subseteq> (\<Union>i < unat cap. fst ` set (kv i))"
    using hidx_less [OF assms] by (auto simp: hm_map_def dest!: map_of_SomeD) force
qed simp

subsection \<open>Loops over one chain\<close>

lemma hchain_lookup:
  assumes "hchain m b ps kvs"
  shows "(map_of kvs key = None \<longrightarrow> (\<forall>p\<in>set ps. \<exists>n. m p = Some n \<and> hkey n \<noteq> key))
     \<and> (\<forall>v. map_of kvs key = Some v \<longrightarrow> (\<exists>ps1 p ps2 n kvs1 kvs2. ps = ps1 @ p # ps2 \<and> m p = Some n
          \<and> kv_of n = (key, v) \<and> kvs = kvs1 @ (key, v) # kvs2 \<and> length kvs1 = length ps1
          \<and> lseg hnext m b ps1 p \<and> (\<forall>q\<in>set ps1. \<exists>n. m q = Some n \<and> hkey n \<noteq> key)))"
  using assms
proof (induction ps arbitrary: b kvs)
  case (Cons p ps)
  from Cons.prems obtain n kvs' where n: "p = b" "b \<noteq> nullptr" "m b = Some n" "kvs = kv_of n # kvs'"
    and rest: "hchain m (hnext n) ps kvs'" by (auto simp: hchain_Cons)
  show ?case
  proof (cases "hkey n = key")
    case True
    have "\<exists>ps1 q ps2 n' kvs1 kvs2. p # ps = ps1 @ q # ps2 \<and> m q = Some n' \<and> kv_of n' = (key, hval n)
        \<and> kvs = kvs1 @ (key, hval n) # kvs2 \<and> length kvs1 = length ps1
        \<and> lseg hnext m b ps1 q \<and> (\<forall>q\<in>set ps1. \<exists>n. m q = Some n \<and> hkey n \<noteq> key)"
      using n True by (intro exI [of _ "[]"] exI [of _ p] exI [of _ ps] exI [of _ n] exI [of _ "kvs'"]) auto
    with n True show ?thesis by auto
  next
    case False
    have "\<exists>ps1 q ps2 n' kvs1 kvs2. p # ps = ps1 @ q # ps2 \<and> m q = Some n' \<and> kv_of n' = (key, v)
        \<and> kvs = kvs1 @ (key, v) # kvs2 \<and> length kvs1 = length ps1
        \<and> lseg hnext m b ps1 q \<and> (\<forall>q\<in>set ps1. \<exists>n. m q = Some n \<and> hkey n \<noteq> key)"
      if v: "map_of kvs' key = Some v" for v
    proof -
      from Cons.IH [OF rest] v obtain ps1 q ps2 n' kvs1 kvs2 where *: "ps = ps1 @ q # ps2" "m q = Some n'"
        "kv_of n' = (key, v)" "kvs' = kvs1 @ (key, v) # kvs2" "length kvs1 = length ps1"
        "lseg hnext m (hnext n) ps1 q" "\<forall>q\<in>set ps1. \<exists>n. m q = Some n \<and> hkey n \<noteq> key" by blast
      then show ?thesis using n False
        by (intro exI [of _ "p # ps1"] exI [of _ q] exI [of _ ps2] exI [of _ n'] exI [of _ "kv_of n # kvs1"]
             exI [of _ kvs2]) simp
    qed
    with n False Cons.IH [OF rest] show ?thesis by simp
  qed
qed simp

lemma skip_node:
  assumes "lseg hnext m node (p # ps) q" "\<forall>p\<in>set (p # ps). \<exists>n. m p = Some n \<and> hkey n \<noteq> key"
  obtains n where "node = p" "m p = Some n" "hkey n \<noteq> key" "lseg hnext m (hnext n) ps q"
  using assms by (auto split: option.splits)

lemma hm_get_loop_skip:
  assumes "lseg hnext (nodes h) node ps q" "nullptr \<notin> set ps"
    "\<forall>p\<in>set ps. \<exists>n. nodes h p = Some n \<and> hkey n \<noteq> key"
  shows "hm_get_loop key old save node h = hm_get_loop key old save q h"
  using assms
proof (induction ps arbitrary: node)
  case (Cons p ps)
  from Cons.prems(1,3) obtain n where n: "node = p" "nodes h p = Some n" "hkey n \<noteq> key"
    "lseg hnext (nodes h) (hnext n) ps q" by (rule skip_node)
  with Cons.prems(2) have "hm_get_loop key old save node h = hm_get_loop key old save (hnext n) h"
    by (subst hm_get_loop.simps) (simp add: heap_simps)
  with Cons.IH [OF n(4)] Cons.prems show ?case by simp
qed simp

lemma hm_put_loop_skip:
  assumes "lseg hnext (nodes (hm_heap s)) node ps q" "nullptr \<notin> set ps"
    "\<forall>p\<in>set ps. \<exists>n. nodes (hm_heap s) p = Some n \<and> hkey n \<noteq> key"
  shows "hm_put_loop TM sz key v old save i node prev s = hm_put_loop TM sz key v old save i q (last (prev # ps)) s"
  using assms
proof (induction ps arbitrary: node prev)
  case (Cons p ps)
  from Cons.prems(1,3) obtain n where n: "node = p" "nodes (hm_heap s) p = Some n" "hkey n \<noteq> key"
    "lseg hnext (nodes (hm_heap s)) (hnext n) ps q" by (rule skip_node)
  with Cons.prems(2) have "hm_put_loop TM sz key v old save i node prev s
      = hm_put_loop TM sz key v old save i (hnext n) p s"
    by (subst hm_put_loop.simps) (simp add: heap_simps)
  with Cons.IH [OF n(4)] Cons.prems show ?case by simp
qed simp

lemma hm_remove_loop_skip:
  assumes "lseg hnext (nodes (hm_heap s)) node ps q" "nullptr \<notin> set ps"
    "\<forall>p\<in>set ps. \<exists>n. nodes (hm_heap s) p = Some n \<and> hkey n \<noteq> key"
  shows "hm_remove_loop TM key old save i node prev s = hm_remove_loop TM key old save i q (last (prev # ps)) s"
  using assms
proof (induction ps arbitrary: node prev)
  case (Cons p ps)
  from Cons.prems(1,3) obtain n where n: "node = p" "nodes (hm_heap s) p = Some n" "hkey n \<noteq> key"
    "lseg hnext (nodes (hm_heap s)) (hnext n) ps q" by (rule skip_node)
  with Cons.prems(2) have "hm_remove_loop TM key old save i node prev s
      = hm_remove_loop TM key old save i (hnext n) p s"
    by (subst hm_remove_loop.simps) (simp add: heap_simps)
  with Cons.IH [OF n(4)] Cons.prems show ?case by simp
qed simp

subsection \<open>Lookup\<close>

lemma hm_repE:
  assumes "hm_rep ainv hash s M"
  obtains bs ps kv b where "hm_capacity s \<noteq> 0" "int_counter_ok (hm_capacity s)"
    "arrays (hm_heap s) = [hm_buckets s \<mapsto> bs]"
    "hm_at hash (hm_capacity s) (nodes (hm_heap s)) bs ps kv"
    "dom (nodes (hm_heap s)) = (\<Union>i < unat (hm_capacity s). set (ps i))"
    "M = hm_map hash (hm_capacity s) kv" "hm_size s = of_nat (card (dom M))"
    "heap_ok ainv (hm_heap s)"
    "hidx hash (hm_capacity s) key < unat (hm_capacity s)"
    "bs ! hidx hash (hm_capacity s) key = Some b"
    "hchain (nodes (hm_heap s)) b (ps (hidx hash (hm_capacity s) key)) (kv (hidx hash (hm_capacity s) key))"
    "hm_index hash key (hm_capacity s) = Some (hidx hash (hm_capacity s) key)"
    "load_arr (hm_buckets s) (hidx hash (hm_capacity s) key) (hm_heap s) = Some b"
    "M key = map_of (kv (hidx hash (hm_capacity s) key)) key"
proof -
  let ?i = "hidx hash (hm_capacity s) key"
  from assms obtain bs ps kv where r: "hm_capacity s \<noteq> 0" "int_counter_ok (hm_capacity s)"
    "arrays (hm_heap s) = [hm_buckets s \<mapsto> bs]"
    "hm_at hash (hm_capacity s) (nodes (hm_heap s)) bs ps kv"
    "dom (nodes (hm_heap s)) = (\<Union>i < unat (hm_capacity s). set (ps i))"
    "M = hm_map hash (hm_capacity s) kv" "hm_size s = of_nat (card (dom M))"
    "heap_ok ainv (hm_heap s)" by (auto simp: hm_rep_def)
  have i: "?i < unat (hm_capacity s)" using r(1) by (rule hidx_less)
  from hm_at_bucket [OF r(4) i] obtain b where b: "bs ! ?i = Some b"
    "hchain (nodes (hm_heap s)) b (ps ?i) (kv ?i)" by blast
  have "load_arr (hm_buckets s) ?i (hm_heap s) = Some b"
    using r(3,4) i b(1) by (simp add: load_arr_def hm_at_def)
  with that [OF r i b hm_index_hidx [OF r(1)]] show ?thesis by (simp add: r(6) hm_map_def)
qed

lemma hm_get_loop_ok:
  assumes "hchain (nodes h) b ps kvs"
  shows "hm_get_loop key old save b h =
     Some (case map_of kvs key of None \<Rightarrow> (False, old) | Some v \<Rightarrow> (True, if save then Some v else old))"
proof (cases "map_of kvs key")
  case None
  with hchain_lookup [OF assms, of key] have "\<forall>p\<in>set ps. \<exists>n. nodes h p = Some n \<and> hkey n \<noteq> key" by simp
  from hm_get_loop_skip [OF _ _ this, of b nullptr] assms None show ?thesis
    by (simp add: hchain_def hm_get_loop.simps [of _ _ _ 0])
next
  case (Some v)
  with hchain_lookup [OF assms, of key] obtain ps1 p ps2 n where *: "ps = ps1 @ p # ps2"
    "nodes h p = Some n" "kv_of n = (key, v)" "lseg hnext (nodes h) b ps1 p"
    "\<forall>q\<in>set ps1. \<exists>n. nodes h q = Some n \<and> hkey n \<noteq> key" by blast
  have nn: "nullptr \<notin> set ps1" "p \<noteq> nullptr" using assms *(1) by (auto simp: hchain_def)
  from hm_get_loop_skip [OF *(4) nn(1) *(5), of old save] nn(2) *(2,3) Some show ?thesis
    by (simp add: hm_get_loop.simps [of _ _ _ p] heap_simps)
qed

lemma hm_innerGet_ok:
  assumes "hm_rep ainv hash s M"
  shows "hm_innerGet hash key old save s =
     Some (case M key of None \<Rightarrow> (False, old) | Some v \<Rightarrow> (True, if save then Some v else old))"
  using assms by (rule hm_repE [of ainv hash s M key]) (simp add: hm_innerGet_def hm_get_loop_ok)

subsection \<open>Insertion\<close>

lemma hchain_set_value:
  assumes "hchain m b (ps1 @ p # ps2) (kvs1 @ (key, v) # kvs2)" "length kvs1 = length ps1" "m p = Some n"
  shows "hchain (m(p \<mapsto> n\<lparr>hval := v'\<rparr>)) b (ps1 @ p # ps2) (kvs1 @ (key, v') # kvs2)"
proof -
  have "hkey n = key" "p \<notin> set ps1" "p \<notin> set ps2" "field_seq kv_of m ps1 = map Some kvs1"
    "field_seq kv_of m ps2 = map Some kvs2"
    using assms by (auto simp: hchain_def field_seq_def)
  then show ?thesis
    using assms lseg_same_link [of m p n hnext "n\<lparr>hval := v'\<rparr>"] by (auto simp: hchain_def)
qed

lemma map_of_set_value:
  "distinct (map fst (kvs1 @ (key, v) # kvs2)) \<Longrightarrow>
     map_of (kvs1 @ (key, v') # kvs2) k = ((map_of (kvs1 @ (key, v) # kvs2))(key \<mapsto> v')) k"
  by (induction kvs1) auto

lemma hchain_append:
  assumes "hchain m b ps kvs" "p \<notin> set ps" "p \<noteq> nullptr" "key \<notin> fst ` set kvs"
    "m' = (if ps = [] then m(p \<mapsto> hnode_of key v)
           else m(last ps \<mapsto> (the (m (last ps)))\<lparr>hnext := p\<rparr>, p \<mapsto> hnode_of key v))"
  shows "hchain m' (if ps = [] then p else b) (ps @ [p]) (kvs @ [(key, v)])"
proof (cases ps rule: rev_cases)
  case Nil
  with assms show ?thesis by (simp add: hchain_Cons hnode_of_def)
next
  case (snoc qs q)
  from assms(1) have ch: "lseg hnext m b (qs @ [q]) nullptr" "distinct (qs @ [q])" "nullptr \<notin> set (qs @ [q])"
    "field_seq kv_of m (qs @ [q]) = map Some kvs" "distinct (map fst kvs)"
    by (simp_all add: hchain_def snoc)
  from ch(1) obtain n where n: "m q = Some n" by (auto split: option.splits)
  have m': "m' = m(q \<mapsto> n\<lparr>hnext := p\<rparr>, p \<mapsto> hnode_of key v)" using assms(5) n by (simp add: snoc)
  have "lseg hnext m' b (qs @ q # p # []) nullptr"
    unfolding m'
  proof (rule lseg_insert_after [where n = n])
    show "hnext (hnode_of key v) = hnext n" using lseg_next [OF ch(1) n] by (simp add: hnode_of_def)
  qed (use ch n assms(2) in \<open>auto simp: snoc\<close>)
  moreover have "field_seq kv_of m' (qs @ [q, p]) = map Some (kvs @ [(key, v)])"
  proof -
    have "p \<notin> set (qs @ [q])" using assms(2) by (simp add: snoc)
    then have "field_seq kv_of m' (qs @ [q]) = field_seq kv_of m (qs @ [q])"
      unfolding m' using n by (simp add: field_seq_same)
    moreover have "field_seq kv_of m' [p] = [Some (key, v)]" by (simp add: m' hnode_of_def)
    moreover have "qs @ [q, p] = (qs @ [q]) @ [p]" by simp
    ultimately show ?thesis using ch(4) by (simp only: field_seq_simps(3) map_append list.map)
  qed
  ultimately show ?thesis
    using ch assms(2-4) by (auto simp: hchain_def snoc)
qed

text \<open>A state whose chain at index i changed, the nodes of the other chains being untouched.\<close>

lemma hm_rep_upd:
  assumes at: "hm_at hash cap (nodes h) bs ps kv" and i: "i < unat cap" and cap: "cap \<noteq> 0" "int_counter_ok cap"
    and ch: "hchain (nodes h') b' ps' kvs'" and keys: "\<forall>x\<in>set kvs'. hidx hash cap (fst x) = i"
    and arr: "arrays h' = [p \<mapsto> bs[i := Some b']]"
    and other: "\<And>j. j < unat cap \<Longrightarrow> j \<noteq> i \<Longrightarrow> set ps' \<inter> set (ps j) = {} \<and> (\<forall>x\<in>set (ps j). nodes h' x = nodes h x)"
    and dm: "dom (nodes h') = set ps' \<union> (\<Union>j \<in> {..< unat cap} - {i}. set (ps j))"
    and M: "\<And>k. M' k = (if hidx hash cap k = i then map_of kvs' k else hm_map hash cap kv k)"
    and ok: "heap_ok ainv h'" and sz: "n = of_nat (card (dom M'))"
  shows "hm_rep ainv hash \<lparr>hm_capacity = cap, hm_size = n, hm_buckets = p, hm_heap = h'\<rparr> M'"
proof -
  have "hm_at hash cap (nodes h') (bs[i := Some b']) (ps(i := ps')) (kv(i := kvs'))"
    by (rule hm_at_upd [OF at i ch keys other])
  moreover have "dom (nodes h') = (\<Union>j < unat cap. set ((ps(i := ps')) j))"
    unfolding dm using i by (auto split: if_splits)
  moreover have "M' = hm_map hash cap (kv(i := kvs'))" using M by (simp add: fun_eq_iff hm_map_upd)
  ultimately show ?thesis
    unfolding hm_rep_def using cap arr ok sz
    by (intro exI [of _ "bs[i := Some b']"] exI [of _ "ps(i := ps')"] exI [of _ "kv(i := kvs')"]) simp
qed

lemma hm_rep_no_null: "hm_at hash cap m bs ps kv \<Longrightarrow> dom m = (\<Union>i < unat cap. set (ps i)) \<Longrightarrow> nullptr \<notin> dom m"
  by (auto simp: hm_at_def hchain_def)

lemma hm_put_found:
  assumes ch: "hchain (nodes (hm_heap s)) b ps kvs" and some: "map_of kvs key = Some v"
  obtains ps1 p ps2 n kvs1 kvs2 where "ps = ps1 @ p # ps2" "kvs = kvs1 @ (key, v) # kvs2" "length kvs1 = length ps1"
    "nodes (hm_heap s) p = Some n"
    "hm_put_loop TM sz key newval old save i b prev s = Some (False, if save then Some v else old,
       s\<lparr>hm_heap := (hm_heap s)\<lparr>nodes := (nodes (hm_heap s))(p \<mapsto> n\<lparr>hval := newval\<rparr>)\<rparr>\<rparr>)"
proof -
  from hchain_lookup [OF ch, of key] some obtain ps1 p ps2 n kvs1 kvs2 where *: "ps = ps1 @ p # ps2"
    "nodes (hm_heap s) p = Some n" "kv_of n = (key, v)" "kvs = kvs1 @ (key, v) # kvs2" "length kvs1 = length ps1"
    "lseg hnext (nodes (hm_heap s)) b ps1 p"
    "\<forall>q\<in>set ps1. \<exists>n. nodes (hm_heap s) q = Some n \<and> hkey n \<noteq> key" by blast
  have nn: "nullptr \<notin> set ps1" "p \<noteq> nullptr" using ch *(1) by (auto simp: hchain_def)
  from hm_put_loop_skip [OF *(6) nn(1) *(7), of TM sz newval old save i prev] nn(2) *(2,3)
  have "hm_put_loop TM sz key newval old save i b prev s = Some (False, if save then Some v else old,
       s\<lparr>hm_heap := (hm_heap s)\<lparr>nodes := (nodes (hm_heap s))(p \<mapsto> n\<lparr>hval := newval\<rparr>)\<rparr>\<rparr>)"
    by (simp add: hm_put_loop.simps [of _ _ _ _ _ _ _ p] heap_simps)
  with that * show ?thesis by blast
qed

lemma hm_put_missing:
  assumes ch: "hchain (nodes (hm_heap s)) b ps kvs" and none: "map_of kvs key = None"
  shows "hm_put_loop TM sz key newval old save i b b s =
     do { (newnode, h1) \<leftarrow> tmNew TM sz (hnode_of key newval) (hm_heap s);
          h2 \<leftarrow> (if ps = [] then store_arr (hm_buckets s) i newnode h1
                else store (\<lambda>n. n\<lparr>hnext := newnode\<rparr>) (last ps) h1);
          Some (True, old, s\<lparr>hm_heap := h2, hm_size := hm_size s + 1\<rparr>) }"
proof -
  from hchain_lookup [OF ch, of key] none
  have "\<forall>p\<in>set ps. \<exists>n. nodes (hm_heap s) p = Some n \<and> hkey n \<noteq> key" by simp
  moreover have seg: "lseg hnext (nodes (hm_heap s)) b ps nullptr" "nullptr \<notin> set ps"
    using ch by (auto simp: hchain_def)
  ultimately have "hm_put_loop TM sz key newval old save i b b s
      = hm_put_loop TM sz key newval old save i nullptr (last (b # ps)) s"
    by (intro hm_put_loop_skip)
  moreover have "ps \<noteq> [] \<Longrightarrow> last ps \<noteq> nullptr" using seg(2) last_in_set [of ps] by metis
  then have "last (b # ps) = nullptr \<longleftrightarrow> ps = []" "ps \<noteq> [] \<Longrightarrow> last (b # ps) = last ps"
    using seg(1) by auto
  ultimately show ?thesis
    by (subst (asm) (2) hm_put_loop.simps) (auto cong: if_cong)
qed

lemma card_dom_upd:
  "finite (dom M) \<Longrightarrow> card (dom (M(k \<mapsto> v))) = (if M k = None then Suc (card (dom M)) else card (dom M))"
  by (auto simp: insert_absorb domIff)

context tm_alloc
begin

lemma hm_put_replaces:
  assumes rep: "hm_rep ainv hash s M" and sz: "unat sz \<le> max_request"
    and node: "load_arr (hm_buckets s) (hidx hash (hm_capacity s) key) (hm_heap s) = Some node"
    and ret: "hm_put_loop TM sz key newval old save (hidx hash (hm_capacity s) key) node node s = Some (r, old', s')"
    and Some: "M key = Some v"
  shows "\<not> r \<and> old' = (if save then Some v else old) \<and> hm_rep ainv hash s' (M(key \<mapsto> newval))
     \<and> hm_capacity s' = hm_capacity s"
proof -
  let ?i = "hidx hash (hm_capacity s) key" and ?m = "nodes (hm_heap s)"
  from rep obtain bs ps kv b where cap: "hm_capacity s \<noteq> 0" "int_counter_ok (hm_capacity s)"
    and arr: "arrays (hm_heap s) = [hm_buckets s \<mapsto> bs]"
    and at: "hm_at hash (hm_capacity s) ?m bs ps kv" and dm: "dom ?m = (\<Union>i < unat (hm_capacity s). set (ps i))"
    and M: "M = hm_map hash (hm_capacity s) kv" and size: "hm_size s = of_nat (card (dom M))"
    and ok: "heap_ok ainv (hm_heap s)" and i: "?i < unat (hm_capacity s)" and b: "bs ! ?i = Some b"
    and ch: "hchain ?m b (ps ?i) (kv ?i)" and ld: "load_arr (hm_buckets s) ?i (hm_heap s) = Some b"
    and Mk: "M key = map_of (kv ?i) key"
    by (rule hm_repE [where key = key])
  have node: "node = b" using node ld by simp
  have len: "length bs = unat (hm_capacity s)" using at by (simp add: hm_at_def)
  have keys: "\<forall>x\<in>set (kv ?i). hidx hash (hm_capacity s) (fst x) = ?i" using at i by (auto simp: hm_at_def)
  have disj: "set (ps ?i) \<inter> set (ps j) = {}" if "j < unat (hm_capacity s)" "j \<noteq> ?i" for j
    using at i that by (simp add: hm_at_def)
  have dm2: "dom ?m = set (ps ?i) \<union> (\<Union>j \<in> {..< unat (hm_capacity s)} - {?i}. set (ps j))" using dm i by auto
  from hm_put_found [OF ch Some [unfolded Mk]] obtain ps1 p ps2 n kvs1 kvs2 where
    *: "ps ?i = ps1 @ p # ps2" "kv ?i = kvs1 @ (key, v) # kvs2" "length kvs1 = length ps1" "?m p = Some n"
    "hm_put_loop TM sz key newval old save ?i b b s = Some (False, if save then Some v else old,
       s\<lparr>hm_heap := (hm_heap s)\<lparr>nodes := ?m(p \<mapsto> n\<lparr>hval := newval\<rparr>)\<rparr>\<rparr>)" by metis
  let ?h = "(hm_heap s)\<lparr>nodes := ?m(p \<mapsto> n\<lparr>hval := newval\<rparr>)\<rparr>"
  have p: "p \<in> set (ps ?i)" using *(1) by simp
  have res: "\<not> r" "old' = (if save then Some v else old)" "s' = s\<lparr>hm_heap := ?h\<rparr>"
    using ret *(5) node by auto
  have "hm_rep ainv hash \<lparr>hm_capacity = hm_capacity s, hm_size = hm_size s, hm_buckets = hm_buckets s, hm_heap = ?h\<rparr>
      (M(key \<mapsto> newval))"
  proof (rule hm_rep_upd [OF at i cap, of _ b "ps ?i" "kvs1 @ (key, newval) # kvs2"])
    show "hchain (nodes ?h) b (ps ?i) (kvs1 @ (key, newval) # kvs2)"
      using hchain_set_value [OF ch [unfolded *(1,2)] *(3,4)] *(1) by simp
    show "\<forall>x\<in>set (kvs1 @ (key, newval) # kvs2). hidx hash (hm_capacity s) (fst x) = ?i"
      using keys *(2) by auto
    show "arrays ?h = [hm_buckets s \<mapsto> bs[?i := Some b]]" using arr b by (simp add: list_update_id [of bs ?i, unfolded b])
    show "set (ps ?i) \<inter> set (ps j) = {} \<and> (\<forall>x\<in>set (ps j). nodes ?h x = ?m x)"
      if "j < unat (hm_capacity s)" "j \<noteq> ?i" for j
      using disj [OF that] p by auto
    show "dom (nodes ?h) = set (ps ?i) \<union> (\<Union>j \<in> {..< unat (hm_capacity s)} - {?i}. set (ps j))"
      using dm2 dom_upd_same [of ?m p n, OF *(4)] by simp
    show "(M(key \<mapsto> newval)) k = (if hidx hash (hm_capacity s) k = ?i then map_of (kvs1 @ (key, newval) # kvs2) k
        else hm_map hash (hm_capacity s) kv k)" for k
    proof -
      have "distinct (map fst (kvs1 @ (key, v) # kvs2))" using ch *(2) by (simp add: hchain_def)
      from map_of_set_value [OF this, of newval k] show ?thesis
        by (simp add: M hm_map_def *(2) del: map_of_append)
    qed
    show "heap_ok ainv ?h" using ok heap_ok_upd [OF *(4)] by simp
    show "hm_size s = of_nat (card (dom (M(key \<mapsto> newval))))"
      using size Some by (simp add: insert_absorb domIff)
  qed
  then show ?thesis using res by (cases s) auto
qed

lemma hm_put_inserts:
  assumes rep: "hm_rep ainv hash s M" and sz: "unat sz \<le> max_request"
    and node: "load_arr (hm_buckets s) (hidx hash (hm_capacity s) key) (hm_heap s) = Some node"
    and ret: "hm_put_loop TM sz key newval old save (hidx hash (hm_capacity s) key) node node s = Some (r, old', s')"
    and None: "M key = None"
  shows "r \<and> old' = old \<and> hm_rep ainv hash s' (M(key \<mapsto> newval)) \<and> hm_capacity s' = hm_capacity s"
proof -
  let ?i = "hidx hash (hm_capacity s) key" and ?m = "nodes (hm_heap s)"
  from rep obtain bs ps kv b where cap: "hm_capacity s \<noteq> 0" "int_counter_ok (hm_capacity s)"
    and arr: "arrays (hm_heap s) = [hm_buckets s \<mapsto> bs]"
    and at: "hm_at hash (hm_capacity s) ?m bs ps kv" and dm: "dom ?m = (\<Union>i < unat (hm_capacity s). set (ps i))"
    and M: "M = hm_map hash (hm_capacity s) kv" and size: "hm_size s = of_nat (card (dom M))"
    and ok: "heap_ok ainv (hm_heap s)" and i: "?i < unat (hm_capacity s)" and b: "bs ! ?i = Some b"
    and ch: "hchain ?m b (ps ?i) (kv ?i)" and ld: "load_arr (hm_buckets s) ?i (hm_heap s) = Some b"
    and Mk: "M key = map_of (kv ?i) key"
    by (rule hm_repE [where key = key])
  have node: "node = b" using node ld by simp
  have len: "length bs = unat (hm_capacity s)" using at by (simp add: hm_at_def)
  have keys: "\<forall>x\<in>set (kv ?i). hidx hash (hm_capacity s) (fst x) = ?i" using at i by (auto simp: hm_at_def)
  have disj: "set (ps ?i) \<inter> set (ps j) = {}" if "j < unat (hm_capacity s)" "j \<noteq> ?i" for j
    using at i that by (simp add: hm_at_def)
  have dm2: "dom ?m = set (ps ?i) \<union> (\<Union>j \<in> {..< unat (hm_capacity s)} - {?i}. set (ps j))" using dm i by auto
  note miss = hm_put_missing [OF ch None [unfolded Mk], of TM sz newval old save ?i]
  from ret [unfolded node miss] obtain p h1 h2 where
    new: "tmNew TM sz (hnode_of key newval) (hm_heap s) = Some (p, h1)"
    and st: "(if ps ?i = [] then store_arr (hm_buckets s) ?i p h1
              else store (\<lambda>n. n\<lparr>hnext := p\<rparr>) (last (ps ?i)) h1) = Some h2"
    and res: "r" "old' = old" "s' = s\<lparr>hm_heap := h2, hm_size := hm_size s + 1\<rparr>"
    by (auto simp: ret_simps)
  note fresh = tmNew_ok [OF ok sz new]
  have p: "p \<notin> dom ?m" using fresh(4) by (simp add: domIff)
  then have pp: "p \<notin> set (ps j)" if "j < unat (hm_capacity s)" for j using dm that by auto
  let ?m' = "if ps ?i = [] then ?m(p \<mapsto> hnode_of key newval)
     else ?m(last (ps ?i) \<mapsto> (the (?m (last (ps ?i))))\<lparr>hnext := p\<rparr>, p \<mapsto> hnode_of key newval)"
  let ?b = "if ps ?i = [] then p else b"
  have lst: "ps ?i \<noteq> [] \<Longrightarrow> last (ps ?i) \<in> dom ?m" using dm2 by auto
  have h2: "nodes h2 = ?m' \<and> arrays h2 = [hm_buckets s \<mapsto> bs[?i := Some ?b]] \<and> heap_ok ainv h2"
  proof (cases "ps ?i = []")
    case True
    with st fresh(1-3) arr len i heap_ok_upd_arr [of h1 "hm_buckets s" bs ainv "bs[?i := Some p]"]
    show ?thesis by (auto simp: store_arr_def split: if_splits)
  next
    case False
    with lst obtain n where n: "?m (last (ps ?i)) = Some n" by blast
    then have "last (ps ?i) \<noteq> p" using p by auto
    moreover have "store (\<lambda>n. n\<lparr>hnext := p\<rparr>) (last (ps ?i)) h1 = Some h2" using st False by simp
    moreover from heap_ok_store [OF fresh(1) this] have "heap_ok ainv h2" .
    ultimately show ?thesis using False fresh(2,3) arr n
      by (auto simp: store_def fun_upd_twist list_update_id [of bs ?i, unfolded b])
  qed
  have "hm_rep ainv hash \<lparr>hm_capacity = hm_capacity s, hm_size = hm_size s + 1, hm_buckets = hm_buckets s, hm_heap = h2\<rparr>
      (M(key \<mapsto> newval))"
  proof (rule hm_rep_upd [OF at i cap, of _ ?b "ps ?i @ [p]" "kv ?i @ [(key, newval)]"])
    show "hchain (nodes h2) ?b (ps ?i @ [p]) (kv ?i @ [(key, newval)])"
    proof (rule hchain_append [OF ch])
      show "key \<notin> fst ` set (kv ?i)" using None Mk by (simp add: map_of_eq_None_iff)
    qed (use pp i fresh(6) h2 in auto)
    show "\<forall>x\<in>set (kv ?i @ [(key, newval)]). hidx hash (hm_capacity s) (fst x) = ?i" using keys by auto
    show "arrays h2 = [hm_buckets s \<mapsto> bs[?i := Some ?b]]" using h2 by simp
    show "set (ps ?i @ [p]) \<inter> set (ps j) = {} \<and> (\<forall>x\<in>set (ps j). nodes h2 x = ?m x)"
      if "j < unat (hm_capacity s)" "j \<noteq> ?i" for j
    proof -
      have "last (ps ?i) \<notin> set (ps j)" if "ps ?i \<noteq> []"
        using disj [OF \<open>j < _\<close> \<open>j \<noteq> _\<close>] last_in_set [OF that] by blast
      then show ?thesis using disj [OF that] pp [OF that(1)] h2 by auto
    qed
    have "dom ?m' = insert p (dom ?m)" using lst by auto
    then show "dom (nodes h2) = set (ps ?i @ [p]) \<union> (\<Union>j \<in> {..< unat (hm_capacity s)} - {?i}. set (ps j))"
      using h2 dm2 by simp
    show "(M(key \<mapsto> newval)) k = (if hidx hash (hm_capacity s) k = ?i then map_of (kv ?i @ [(key, newval)]) k
        else hm_map hash (hm_capacity s) kv k)" for k
      using None Mk by (auto simp: M hm_map_def map_add_def split: option.splits)
    show "heap_ok ainv h2" using h2 by simp
    show "hm_size s + 1 = of_nat (card (dom (M(key \<mapsto> newval))))"
      using size None hm_map_finite [OF cap(1)] by (subst card_dom_upd) (auto simp: M)
  qed
  then show ?thesis using res by (cases s) auto
qed

lemma hm_put_loop_ok:
  assumes rep: "hm_rep ainv hash s M" and sz: "unat sz \<le> max_request"
    and node: "load_arr (hm_buckets s) (hidx hash (hm_capacity s) key) (hm_heap s) = Some node"
    and ret: "hm_put_loop TM sz key newval old save (hidx hash (hm_capacity s) key) node node s = Some (r, old', s')"
  shows "r = (M key = None)" "old' = (if save \<and> M key \<noteq> None then M key else old)"
    "hm_rep ainv hash s' (M(key \<mapsto> newval))" "hm_capacity s' = hm_capacity s"
  using hm_put_replaces [OF assms] hm_put_inserts [OF assms] by (cases "M key"; auto)+

end

subsection \<open>Removal\<close>

lemma hchain_remove:
  assumes ch: "hchain m b (ps1 @ p # ps2) (kvs1 @ (key, v) # kvs2)" "length kvs1 = length ps1" and n: "m p = Some n"
    and m': "m' = (if ps1 = [] then m(p := None)
       else m(last ps1 \<mapsto> (the (m (last ps1)))\<lparr>hnext := hnext n\<rparr>, p := None))"
  shows "hchain m' (if ps1 = [] then hnext n else b) (ps1 @ ps2) (kvs1 @ kvs2)"
proof -
  have d: "distinct (ps1 @ p # ps2)" "nullptr \<notin> set (ps1 @ ps2)" "distinct (map fst (kvs1 @ kvs2))"
    and seg: "lseg hnext m b (ps1 @ p # ps2) nullptr"
    and f: "field_seq kv_of m ps1 = map Some kvs1" "field_seq kv_of m ps2 = map Some kvs2"
    using ch by (auto simp: hchain_def field_seq_def)
  have "p \<notin> set ps1" "p \<notin> set ps2" using d(1) by auto
  show ?thesis
  proof (cases ps1 rule: rev_cases)
    case Nil
    with seg n have "lseg hnext m (hnext n) ps2 nullptr" by simp
    with Nil f d \<open>p \<notin> set ps2\<close> show ?thesis using ch(2) by (simp add: hchain_def m')
  next
    case (snoc qs q)
    from seg obtain nq where nq: "m q = Some nq" unfolding snoc by (auto split: option.splits)
    have m'': "m' = m(q \<mapsto> nq\<lparr>hnext := hnext n\<rparr>, p := None)" using nq by (simp add: m' snoc)
    have "lseg hnext m' b (qs @ q # ps2) nullptr"
      unfolding m'' by (rule lseg_remove_after [where ny = n]) (use seg n d(1) in \<open>simp_all add: snoc\<close>)
    moreover have "field_seq kv_of m' ps1 = map Some kvs1" "field_seq kv_of m' ps2 = map Some kvs2"
      unfolding m'' using f nq \<open>p \<notin> set ps1\<close> \<open>p \<notin> set ps2\<close> by (simp_all add: field_seq_same)
    ultimately show ?thesis using d by (auto simp: hchain_def snoc)
  qed
qed

lemma map_of_remove_mid:
  "distinct (map fst (kvs1 @ (key, v) # kvs2)) \<Longrightarrow>
     map_of (kvs1 @ kvs2) k = ((map_of (kvs1 @ (key, v) # kvs2))(key := None)) k"
  by (induction kvs1) (auto simp: map_of_eq_None_iff)

lemma hm_remove_missing:
  assumes ch: "hchain (nodes (hm_heap s)) b ps kvs" and none: "map_of kvs key = None"
  shows "hm_remove_loop TM key old save i b prev s = Some (False, old, s)"
proof -
  from hchain_lookup [OF ch, of key] none
  have "\<forall>p\<in>set ps. \<exists>n. nodes (hm_heap s) p = Some n \<and> hkey n \<noteq> key" by simp
  moreover have "lseg hnext (nodes (hm_heap s)) b ps nullptr" "nullptr \<notin> set ps"
    using ch by (auto simp: hchain_def)
  ultimately have "hm_remove_loop TM key old save i b prev s
      = hm_remove_loop TM key old save i nullptr (last (prev # ps)) s"
    by (intro hm_remove_loop_skip)
  then show ?thesis by (simp add: hm_remove_loop.simps [of _ _ _ _ _ 0])
qed

lemma hm_remove_found:
  assumes ch: "hchain (nodes (hm_heap s)) b ps kvs" and some: "map_of kvs key = Some v"
  obtains ps1 p ps2 n kvs1 kvs2 where "ps = ps1 @ p # ps2" "kvs = kvs1 @ (key, v) # kvs2" "length kvs1 = length ps1"
    "nodes (hm_heap s) p = Some n"
    "hm_remove_loop TM key old save i b b s =
       do { h1 \<leftarrow> (if ps1 = [] then store_arr (hm_buckets s) i (hnext n) (hm_heap s)
                  else store (\<lambda>m. m\<lparr>hnext := hnext n\<rparr>) (last ps1) (hm_heap s));
            h2 \<leftarrow> tmDelete TM p h1;
            Some (True, if save then Some v else old, s\<lparr>hm_heap := h2, hm_size := hm_size s - 1\<rparr>) }"
proof -
  from hchain_lookup [OF ch, of key] some obtain ps1 p ps2 n kvs1 kvs2 where *: "ps = ps1 @ p # ps2"
    "nodes (hm_heap s) p = Some n" "kv_of n = (key, v)" "kvs = kvs1 @ (key, v) # kvs2" "length kvs1 = length ps1"
    "lseg hnext (nodes (hm_heap s)) b ps1 p"
    "\<forall>q\<in>set ps1. \<exists>n. nodes (hm_heap s) q = Some n \<and> hkey n \<noteq> key" by blast
  have nn: "nullptr \<notin> set ps1" "p \<noteq> nullptr" "p \<notin> set ps1" using ch *(1) by (auto simp: hchain_def)
  have "p = last (b # ps1) \<longleftrightarrow> ps1 = []"
    using *(6) nn(3) last_in_set [of ps1] by (cases ps1) auto
  with hm_remove_loop_skip [OF *(6) nn(1) *(7), of TM old save i b] nn(2) *(2,3)
  show ?thesis
    by (intro that [OF *(1,4,5,2)])
       (simp add: hm_remove_loop.simps [of _ _ _ _ _ p] heap_simps cong: if_cong)
qed

context tm_alloc
begin

lemma hm_remove_deletes:
  assumes rep: "hm_rep ainv hash s M" and Some: "M key = Some v"
    and node: "load_arr (hm_buckets s) (hidx hash (hm_capacity s) key) (hm_heap s) = Some node"
  shows "\<exists>s'. hm_remove_loop TM key old save (hidx hash (hm_capacity s) key) node node s
       = Some (True, if save then Some v else old, s') \<and> hm_rep ainv hash s' (M(key := None))
         \<and> hm_capacity s' = hm_capacity s"
proof -
  let ?i = "hidx hash (hm_capacity s) key" and ?m = "nodes (hm_heap s)"
  from rep obtain bs ps kv b where cap: "hm_capacity s \<noteq> 0" "int_counter_ok (hm_capacity s)"
    and arr: "arrays (hm_heap s) = [hm_buckets s \<mapsto> bs]"
    and at: "hm_at hash (hm_capacity s) ?m bs ps kv" and dm: "dom ?m = (\<Union>i < unat (hm_capacity s). set (ps i))"
    and M: "M = hm_map hash (hm_capacity s) kv" and size: "hm_size s = of_nat (card (dom M))"
    and ok: "heap_ok ainv (hm_heap s)" and i: "?i < unat (hm_capacity s)" and b: "bs ! ?i = Some b"
    and ch: "hchain ?m b (ps ?i) (kv ?i)" and ld: "load_arr (hm_buckets s) ?i (hm_heap s) = Some b"
    and Mk: "M key = map_of (kv ?i) key"
    by (rule hm_repE [where key = key])
  have node: "node = b" using node ld by simp
  have len: "length bs = unat (hm_capacity s)" using at by (simp add: hm_at_def)
  have keys: "\<forall>x\<in>set (kv ?i). hidx hash (hm_capacity s) (fst x) = ?i" using at i by (auto simp: hm_at_def)
  have disj: "set (ps ?i) \<inter> set (ps j) = {}" if "j < unat (hm_capacity s)" "j \<noteq> ?i" for j
    using at i that by (simp add: hm_at_def)
  have dm2: "dom ?m = set (ps ?i) \<union> (\<Union>j \<in> {..< unat (hm_capacity s)} - {?i}. set (ps j))" using dm i by auto
  from hm_remove_found [OF ch Some [unfolded Mk]] obtain ps1 p ps2 n kvs1 kvs2 where
    *: "ps ?i = ps1 @ p # ps2" "kv ?i = kvs1 @ (key, v) # kvs2" "length kvs1 = length ps1" "?m p = Some n"
    "hm_remove_loop TM key old save ?i b b s =
       do { h1 \<leftarrow> (if ps1 = [] then store_arr (hm_buckets s) ?i (hnext n) (hm_heap s)
                  else store (\<lambda>m. m\<lparr>hnext := hnext n\<rparr>) (last ps1) (hm_heap s));
            h2 \<leftarrow> tmDelete TM p h1;
            Some (True, if save then Some v else old, s\<lparr>hm_heap := h2, hm_size := hm_size s - 1\<rparr>) }" by metis
  let ?m1 = "if ps1 = [] then ?m else ?m(last ps1 \<mapsto> (the (?m (last ps1)))\<lparr>hnext := hnext n\<rparr>)"
  let ?b = "if ps1 = [] then hnext n else b"
  have sub1: "set ps1 \<subseteq> dom ?m" using dm2 *(1) by auto
  have dist: "distinct (ps1 @ p # ps2)" using ch *(1) by (simp add: hchain_def)
  obtain h1 where h1: "(if ps1 = [] then store_arr (hm_buckets s) ?i (hnext n) (hm_heap s)
       else store (\<lambda>m. m\<lparr>hnext := hnext n\<rparr>) (last ps1) (hm_heap s)) = Some h1"
      "nodes h1 = ?m1" "arrays h1 = [hm_buckets s \<mapsto> bs[?i := Some ?b]]" "heap_ok ainv h1"
  proof (cases "ps1 = []")
    case True
    with that [of "(hm_heap s)\<lparr>arrays := [hm_buckets s \<mapsto> bs[?i := Some ?b]]\<rparr>"] arr len i ok
      heap_ok_upd_arr [of "hm_heap s" "hm_buckets s" bs ainv "bs[?i := Some ?b]"]
    show ?thesis by (simp add: store_arr_def)
  next
    case False
    then have "last ps1 \<in> dom ?m" using sub1 last_in_set [of ps1] by blast
    then obtain nl where nl: "?m (last ps1) = Some nl" by blast
    with False that [of "(hm_heap s)\<lparr>nodes := ?m1\<rparr>"] arr ok heap_ok_upd [OF nl]
    show ?thesis by (simp add: store_def list_update_id [of bs ?i, unfolded b])
  qed
  have n1: "\<exists>n'. nodes h1 p = Some n'" using h1(2) *(4) by auto
  then obtain n' where "nodes h1 p = Some n'" by blast
  from tmDelete_ok [OF h1(4) this] obtain h2 where h2: "tmDelete TM p h1 = Some h2" "heap_ok ainv h2"
    "nodes h2 = ?m1(p := None)" "arrays h2 = [hm_buckets s \<mapsto> bs[?i := Some ?b]]"
    unfolding h1(2,3) by blast
  have step: "hm_remove_loop TM key old save ?i b b s
      = Some (True, if save then Some v else old, s\<lparr>hm_heap := h2, hm_size := hm_size s - 1\<rparr>)"
    using *(5) h1(1) h2(1) by simp
  have dch: "distinct (map fst (kvs1 @ (key, v) # kvs2))" using ch *(2) by (simp add: hchain_def)
  have "hm_rep ainv hash \<lparr>hm_capacity = hm_capacity s, hm_size = hm_size s - 1, hm_buckets = hm_buckets s, hm_heap = h2\<rparr>
      (M(key := None))"
  proof (rule hm_rep_upd [OF at i cap, of _ ?b "ps1 @ ps2" "kvs1 @ kvs2"])
    show "hchain (nodes h2) ?b (ps1 @ ps2) (kvs1 @ kvs2)"
      by (rule hchain_remove [OF ch [unfolded *(1,2)] *(3,4)]) (simp add: h2(3))
    show "\<forall>x\<in>set (kvs1 @ kvs2). hidx hash (hm_capacity s) (fst x) = ?i" using keys *(2) by auto
    show "arrays h2 = [hm_buckets s \<mapsto> bs[?i := Some ?b]]" by (fact h2(4))
    show "set (ps1 @ ps2) \<inter> set (ps j) = {} \<and> (\<forall>x\<in>set (ps j). nodes h2 x = ?m x)"
      if "j < unat (hm_capacity s)" "j \<noteq> ?i" for j
    proof -
      have "set (ps1 @ p # ps2) \<inter> set (ps j) = {}" using disj [OF that] *(1) by simp
      moreover from this have "last ps1 \<notin> set (ps j)" if "ps1 \<noteq> []" using last_in_set [OF that] by auto
      ultimately show ?thesis by (auto simp: h2(3))
    qed
    have "last ps1 \<in> dom ?m" if "ps1 \<noteq> []" using sub1 last_in_set [OF that] by blast
    then have "dom (nodes h2) = dom ?m - {p}" by (auto simp: h2(3))
    moreover have "p \<notin> set (ps j)" if "j < unat (hm_capacity s)" "j \<noteq> ?i" for j using disj [OF that] *(1) by auto
    ultimately show "dom (nodes h2) = set (ps1 @ ps2) \<union> (\<Union>j \<in> {..< unat (hm_capacity s)} - {?i}. set (ps j))"
      using dm2 *(1) dist by auto
    show "(M(key := None)) k = (if hidx hash (hm_capacity s) k = ?i then map_of (kvs1 @ kvs2) k
        else hm_map hash (hm_capacity s) kv k)" for k
      using map_of_remove_mid [OF dch, of k] by (auto simp: M hm_map_def *(2) simp del: map_of_append)
    show "heap_ok ainv h2" by (fact h2(2))
    have fin: "finite (dom M)" using hm_map_finite [OF cap(1)] by (simp only: M)
    have "key \<in> dom M" using Some by blast
    then have "card (dom (M(key := None))) = card (dom M) - 1" "card (dom M) \<noteq> 0"
      using fin by (simp, metis card_eq_0_iff empty_iff)
    then show "hm_size s - 1 = of_nat (card (dom (M(key := None))))"
      using size by (simp add: of_nat_diff)
  qed
  then show ?thesis using step node by (cases s) auto
qed

lemma hm_innerRemove_ok:
  assumes rep: "hm_rep ainv hash s M"
  shows "\<exists>s'. hm_innerRemove TM hash key old save s
     = Some (M key \<noteq> None, if save \<and> M key \<noteq> None then M key else old, s')
       \<and> hm_rep ainv hash s' (M(key := None)) \<and> hm_capacity s' = hm_capacity s"
proof -
  let ?i = "hidx hash (hm_capacity s) key"
  from rep obtain ps kv b where *: "hm_index hash key (hm_capacity s) = Some ?i"
    "load_arr (hm_buckets s) ?i (hm_heap s) = Some b" "hchain (nodes (hm_heap s)) b (ps ?i) (kv ?i)"
    "M key = map_of (kv ?i) key" by (rule hm_repE [where key = key])
  show ?thesis
  proof (cases "M key")
    case None
    with *(4) hm_remove_missing [OF *(3)] *(1,2) rep show ?thesis
      by (auto simp: hm_innerRemove_def fun_upd_idem)
  next
    case (Some v)
    with hm_remove_deletes [OF rep Some *(2), of old save] *(1,2) show ?thesis by (auto simp: hm_innerRemove_def)
  qed
qed

end

subsection \<open>Rebuilding with twice the buckets\<close>

lemma init_loop_ok:
  assumes "arrays h p = Some bs" "\<forall>i\<in>set is. i < length bs"
  shows "\<exists>h' bs'. init_loop p is h = Some h' \<and> nodes h' = nodes h \<and> pool h' = pool h
     \<and> arrays h' = (arrays h)(p \<mapsto> bs') \<and> length bs' = length bs
     \<and> (\<forall>i\<in>set is. bs' ! i = Some nullptr) \<and> (\<forall>i. i \<notin> set is \<longrightarrow> bs' ! i = bs ! i)"
  using assms
proof (induction "is" arbitrary: h bs)
  case Nil then show ?case by (intro exI [of _ h] exI [of _ bs]) (auto simp: fun_upd_idem)
next
  case (Cons i "is")
  let ?h1 = "h\<lparr>arrays := (arrays h)(p \<mapsto> bs[i := Some nullptr])\<rparr>"
  have st: "store_arr p i nullptr h = Some ?h1" using Cons.prems by (simp add: store_arr_def)
  have arr1: "arrays ?h1 p = Some (bs[i := Some nullptr])" "\<forall>j\<in>set is. j < length (bs[i := Some nullptr])"
    using Cons.prems(2) by simp_all
  from Cons.IH [OF arr1] obtain h' bs' where
    *: "init_loop p is ?h1 = Some h'" "nodes h' = nodes h" "pool h' = pool h"
    "arrays h' = (arrays h)(p \<mapsto> bs')" "length bs' = length bs"
    "\<forall>i\<in>set is. bs' ! i = Some nullptr" "\<forall>j. j \<notin> set is \<longrightarrow> bs' ! j = bs[i := Some nullptr] ! j"
    by (simp del: fun_upd_apply) blast
  have "bs' ! j = Some nullptr" if "j \<in> set (i # is)" for j
    using *(6,7) that Cons.prems(2) by (cases "j \<in> set is") auto
  moreover have "bs' ! j = bs ! j" if "j \<notin> set (i # is)" for j using *(7) that by auto
  ultimately show ?case using st *(1-5)
    by (intro exI [of _ h'] exI [of _ bs'] conjI) (simp_all del: fun_upd_apply)
qed

text \<open>A fresh bucket array is empty, and represents the empty map.\<close>

lemma hm_at_empty:
  "length bs = unat cap \<Longrightarrow> \<forall>i < unat cap. bs ! i = Some nullptr \<Longrightarrow> hm_at hash cap m bs (\<lambda>_. []) (\<lambda>_. [])"
  by (simp add: hm_at_def)

context tm_alloc
begin

lemma alloc_buckets_ok:
  assumes ok: "heap_ok ainv h" and small: "unat cap * 8 \<le> max_request" "unat cap * 8 < 2 ^ 64"
    and ret: "alloc_buckets TM cap h = Some (p, h')"
  shows "\<exists>bs. heap_ok ainv h' \<and> nodes h' = nodes h \<and> arrays h' = (arrays h)(p \<mapsto> bs)
     \<and> arrays h p = None \<and> nodes h p = None \<and> length bs = unat cap \<and> (\<forall>i < unat cap. bs ! i = Some nullptr)
     \<and> int_counter_ok cap"
proof -
  from ret obtain h1 where m: "pmalloc TM (cap * 8) h = Some (p, h1)"
    and i: "int_counter_ok cap" and l: "init_loop p [0..<unat cap] h1 = Some h'"
    by (auto simp: alloc_buckets_def ret_simps split: if_splits)
  have u: "unat (cap * 8) = unat cap * 8" using small(2) by (simp add: unat_word_ariths)
  note f = pmalloc_ok [OF ok _ m]
  have sz: "unat (cap * 8) \<le> max_request" using small u by simp
  have arr: "arrays h1 p = Some (replicate (unat cap) None)" using f(3) [OF sz] u by simp
  from init_loop_ok [OF arr, of "[0..<unat cap]"] l obtain bs where
    "nodes h' = nodes h1" "pool h' = pool h1" "arrays h' = (arrays h1)(p \<mapsto> bs)" "length bs = unat cap"
    "\<forall>i\<in>set [0..<unat cap]. bs ! i = Some nullptr" by auto
  with f [OF sz] i arr heap_ok_cong [of ainv h1 h'] show ?thesis
    by (auto simp: insert_absorb domI)
qed

end

text \<open>
  One node at a time moves to the head of its new bucket. The new buckets represent the part
  of the map whose keys have moved.
\<close>

lemma hm_at_push:
  assumes at: "hm_at hash cap m bs ps kv" and cap: "cap \<noteq> 0" and n: "m q = Some n" "q \<noteq> nullptr"
    and q: "\<And>j. j < unat cap \<Longrightarrow> q \<notin> set (ps j)" and new: "hm_map hash cap kv (hkey n) = None"
    and i: "i = hidx hash cap (hkey n)" and b: "bs ! i = Some b"
  shows "hm_at hash cap (m(q \<mapsto> n\<lparr>hnext := b\<rparr>)) (bs[i := Some q]) (ps(i := q # ps i)) (kv(i := kv_of n # kv i))"
proof (rule hm_at_upd [OF at])
  show lt: "i < unat cap" using hidx_less [OF cap] i by simp
  from hm_at_bucket [OF at lt] b have ch: "hchain m b (ps i) (kv i)"
    and keys: "\<forall>x\<in>set (kv i). hidx hash cap (fst x) = i" by auto
  have "hchain (m(q \<mapsto> n\<lparr>hnext := b\<rparr>)) b (ps i) (kv i) = hchain m b (ps i) (kv i)"
    by (rule hchain_cong) (use q [OF lt] in auto)
  moreover have "hkey n \<notin> fst ` set (kv i)" using new by (simp add: hm_map_def i map_of_eq_None_iff)
  ultimately show "hchain (m(q \<mapsto> n\<lparr>hnext := b\<rparr>)) q (q # ps i) (kv_of n # kv i)"
    using n q [OF lt] ch by (auto simp: hchain_Cons)
  show "\<forall>x\<in>set (kv_of n # kv i). hidx hash cap (fst x) = i" using keys i by simp
  show "set (q # ps i) \<inter> set (ps j) = {} \<and> (\<forall>x\<in>set (ps j). (m(q \<mapsto> n\<lparr>hnext := b\<rparr>)) x = m x)"
    if "j < unat cap" "j \<noteq> i" for j
    using q [OF that(1)] at that lt unfolding hm_at_def by auto
qed

lemma hm_map_push:
  "hm_map hash cap (kv(hidx hash cap k := (k, v) # kv (hidx hash cap k))) = (hm_map hash cap kv)(k \<mapsto> v)"
  by (auto simp: fun_eq_iff hm_map_def)

lemma rehash_chain_ok:
  assumes "hm_at hash cap (nodes h) bs ps kv" "arrays h nb = Some bs" "cap \<noteq> 0"
    "hchain (nodes h) node qs kvs" "\<forall>j < unat cap. set qs \<inter> set (ps j) = {}"
    "hm_map hash cap kv = M |` K" "fst ` set kvs \<inter> K = {}" "\<forall>(k, v)\<in>set kvs. M k = Some v"
  shows "\<exists>h' bs' ps' kv'. rehash_chain hash cap nb node h = Some h' \<and> pool h' = pool h
     \<and> arrays h' = (arrays h)(nb \<mapsto> bs') \<and> hm_at hash cap (nodes h') bs' ps' kv'
     \<and> hm_map hash cap kv' = M |` (K \<union> fst ` set kvs)
     \<and> (\<Union>j < unat cap. set (ps' j)) = (\<Union>j < unat cap. set (ps j)) \<union> set qs
     \<and> dom (nodes h') = dom (nodes h)
     \<and> (\<forall>x. x \<notin> set qs \<longrightarrow> nodes h' x = nodes h x)"
  using assms
proof (induction qs arbitrary: node kvs h bs ps kv K)
  case Nil
  then show ?case
    by (intro exI [of _ h] exI [of _ bs] exI [of _ ps] exI [of _ kv])
       (auto simp: rehash_chain.simps [of _ _ _ 0] fun_upd_idem)
next
  case (Cons q qs)
  from Cons.prems(4) obtain n kvs' where n: "q = node" "node \<noteq> nullptr" "nodes h node = Some n" "node \<notin> set qs"
    and kvs: "kvs = kv_of n # kvs'" and ch: "hchain (nodes h) (hnext n) qs kvs'" "hkey n \<notin> fst ` set kvs'"
    by (auto simp: hchain_Cons)
  let ?i = "hidx hash cap (hkey n)"
  have i: "?i < unat cap" using Cons.prems(3) by (rule hidx_less)
  from hm_at_bucket [OF Cons.prems(1) i] obtain b where b: "bs ! ?i = Some b" by blast
  have len: "length bs = unat cap" using Cons.prems(1) by (simp add: hm_at_def)
  have new: "hm_map hash cap kv (hkey n) = None"
    using Cons.prems(6,7) kvs by (simp add: restrict_map_def)
  let ?m1 = "(nodes h)(node \<mapsto> n\<lparr>hnext := b\<rparr>)" and ?bs1 = "bs[?i := Some node]"
    and ?ps1 = "ps(?i := node # ps ?i)" and ?kv1 = "kv(?i := kv_of n # kv ?i)"
  let ?h1 = "h\<lparr>nodes := ?m1, arrays := (arrays h)(nb \<mapsto> ?bs1)\<rparr>"
  have fresh: "\<And>j. j < unat cap \<Longrightarrow> node \<notin> set (ps j)" using Cons.prems(5) n(1) by auto
  have at1: "hm_at hash cap ?m1 ?bs1 ?ps1 ?kv1"
    by (rule hm_at_push [OF Cons.prems(1,3) n(3,2) fresh new refl b])
  have map1: "hm_map hash cap ?kv1 = M |` (insert (hkey n) K)"
    using Cons.prems(6,8) kvs unfolding hm_map_push by (auto simp: fun_eq_iff restrict_map_def)
  have step: "rehash_chain hash cap nb node h = rehash_chain hash cap nb (hnext n) ?h1"
    using n(2,3) hm_index_hidx [OF Cons.prems(3), of hash "hkey n"] Cons.prems(2) i len b
    by (subst rehash_chain.simps) (simp add: load_def store_def load_arr_def store_arr_def)
  have "hchain ?m1 (hnext n) qs kvs' = hchain (nodes h) (hnext n) qs kvs'"
    by (rule hchain_cong) (use n(4) in auto)
  with ch(1) have ch1: "hchain (nodes ?h1) (hnext n) qs kvs'" by simp
  have "\<exists>h' bs' ps' kv'. rehash_chain hash cap nb (hnext n) ?h1 = Some h' \<and> pool h' = pool ?h1
     \<and> arrays h' = (arrays ?h1)(nb \<mapsto> bs') \<and> hm_at hash cap (nodes h') bs' ps' kv'
     \<and> hm_map hash cap kv' = M |` (insert (hkey n) K \<union> fst ` set kvs')
     \<and> (\<Union>j < unat cap. set (ps' j)) = (\<Union>j < unat cap. set (?ps1 j)) \<union> set qs
     \<and> dom (nodes h') = dom (nodes ?h1) \<and> (\<forall>x. x \<notin> set qs \<longrightarrow> nodes h' x = nodes ?h1 x)"
  proof (rule Cons.IH)
    show "hm_at hash cap (nodes ?h1) ?bs1 ?ps1 ?kv1" using at1 by simp
    show "\<forall>j < unat cap. set qs \<inter> set (?ps1 j) = {}" using Cons.prems(5) n(4) by auto
    show "fst ` set kvs' \<inter> insert (hkey n) K = {}" using Cons.prems(7) kvs ch(2) by auto
    show "\<forall>(k, v)\<in>set kvs'. M k = Some v" using Cons.prems(8) kvs by auto
  qed (use Cons.prems(2,3) ch1 map1 in \<open>simp_all del: fun_upd_apply\<close>, simp)
  then obtain h' bs' ps' kv' where *: "rehash_chain hash cap nb (hnext n) ?h1 = Some h'" "pool h' = pool h"
    "arrays h' = (arrays h)(nb \<mapsto> bs')" "hm_at hash cap (nodes h') bs' ps' kv'"
    "hm_map hash cap kv' = M |` (K \<union> fst ` set kvs)"
    "(\<Union>j < unat cap. set (ps' j)) = (\<Union>j < unat cap. set (?ps1 j)) \<union> set qs"
    "dom (nodes h') = insert node (dom (nodes h))" "\<forall>x. x \<notin> set qs \<longrightarrow> nodes h' x = ?m1 x"
    by (auto simp: kvs)
  have "(\<Union>j < unat cap. set (?ps1 j)) = insert node (\<Union>j < unat cap. set (ps j))" using i by (auto split: if_splits)
  then have "(\<Union>j < unat cap. set (ps' j)) = (\<Union>j < unat cap. set (ps j)) \<union> set (q # qs)"
    using *(6) n(1) by auto
  moreover have "dom (nodes h') = dom (nodes h)" using *(7) n(3) by auto
  moreover have "\<forall>x. x \<notin> set (q # qs) \<longrightarrow> nodes h' x = nodes h x" using *(8) n(1) by auto
  ultimately show ?case using step *(1-5) by metis
qed

lemma rehash_all_ok:
  assumes "hm_at hash cap' (nodes h) bs ps kv" "arrays h nb = Some bs" "arrays h ob = Some obs" "nb \<noteq> ob"
    "cap' \<noteq> 0" "distinct is"
    "\<forall>i\<in>set is. i < length obs \<and> (\<exists>b. obs ! i = Some b \<and> hchain (nodes h) b (ops i) (okv i))
       \<and> (\<forall>x\<in>set (okv i). hidx hash cap (fst x) = i)"
    "\<forall>i\<in>set is. \<forall>j\<in>set is. i \<noteq> j \<longrightarrow> set (ops i) \<inter> set (ops j) = {}"
    "\<forall>i\<in>set is. \<forall>j < unat cap'. set (ops i) \<inter> set (ps j) = {}"
    "hm_map hash cap' kv = M |` {k. hidx hash cap k \<in> D}" "D \<inter> set is = {}"
    "\<forall>k. hidx hash cap k \<in> set is \<longrightarrow> M k = map_of (okv (hidx hash cap k)) k"
  shows "\<exists>h' bs' ps' kv'. rehash_all hash cap' nb ob is h = Some h' \<and> pool h' = pool h
     \<and> arrays h' = (arrays h)(nb \<mapsto> bs') \<and> hm_at hash cap' (nodes h') bs' ps' kv'
     \<and> hm_map hash cap' kv' = M |` {k. hidx hash cap k \<in> D \<union> set is}
     \<and> (\<Union>j < unat cap'. set (ps' j)) = (\<Union>j < unat cap'. set (ps j)) \<union> (\<Union>i\<in>set is. set (ops i))
     \<and> dom (nodes h') = dom (nodes h)"
  using assms
proof (induction "is" arbitrary: h bs ps kv D)
  case Nil
  then show ?case
    by (intro exI [of _ h] exI [of _ bs] exI [of _ ps] exI [of _ kv]) (simp add: fun_upd_idem)
next
  case (Cons i "is")
  from Cons.prems(7) obtain b where b: "i < length obs" "obs ! i = Some b" "hchain (nodes h) b (ops i) (okv i)"
    and keys: "\<forall>x\<in>set (okv i). hidx hash cap (fst x) = i" by auto
  have dk: "distinct (map fst (okv i))" using b(3) by (simp add: hchain_def)
  have "\<exists>h' bs' ps' kv'. rehash_chain hash cap' nb b h = Some h' \<and> pool h' = pool h
     \<and> arrays h' = (arrays h)(nb \<mapsto> bs') \<and> hm_at hash cap' (nodes h') bs' ps' kv'
     \<and> hm_map hash cap' kv' = M |` ({k. hidx hash cap k \<in> D} \<union> fst ` set (okv i))
     \<and> (\<Union>j < unat cap'. set (ps' j)) = (\<Union>j < unat cap'. set (ps j)) \<union> set (ops i)
     \<and> dom (nodes h') = dom (nodes h) \<and> (\<forall>x. x \<notin> set (ops i) \<longrightarrow> nodes h' x = nodes h x)"
  proof (rule rehash_chain_ok [OF Cons.prems(1,2,5) b(3) _ Cons.prems(10)])
    show "\<forall>j < unat cap'. set (ops i) \<inter> set (ps j) = {}" using Cons.prems(9) by simp
    show "fst ` set (okv i) \<inter> {k. hidx hash cap k \<in> D} = {}" using keys Cons.prems(11) by auto
    show "\<forall>(k, v)\<in>set (okv i). M k = Some v" using keys Cons.prems(12) dk by auto
  qed
  then obtain h1 bs1 ps1 kv1 where *: "rehash_chain hash cap' nb b h = Some h1" "pool h1 = pool h"
    "arrays h1 = (arrays h)(nb \<mapsto> bs1)" "hm_at hash cap' (nodes h1) bs1 ps1 kv1"
    "hm_map hash cap' kv1 = M |` ({k. hidx hash cap k \<in> D} \<union> fst ` set (okv i))"
    "(\<Union>j < unat cap'. set (ps1 j)) = (\<Union>j < unat cap'. set (ps j)) \<union> set (ops i)"
    "dom (nodes h1) = dom (nodes h)" "\<forall>x. x \<notin> set (ops i) \<longrightarrow> nodes h1 x = nodes h x" by blast
  have map1: "hm_map hash cap' kv1 = M |` {k. hidx hash cap k \<in> insert i D}"
  proof
    fix k
    show "hm_map hash cap' kv1 k = (M |` {k. hidx hash cap k \<in> insert i D}) k"
      using Cons.prems(12) keys
      by (auto simp: *(5) restrict_map_def map_of_eq_None_iff [symmetric])
  qed
  have "\<exists>h' bs' ps' kv'. rehash_all hash cap' nb ob is h1 = Some h' \<and> pool h' = pool h1
     \<and> arrays h' = (arrays h1)(nb \<mapsto> bs') \<and> hm_at hash cap' (nodes h') bs' ps' kv'
     \<and> hm_map hash cap' kv' = M |` {k. hidx hash cap k \<in> insert i D \<union> set is}
     \<and> (\<Union>j < unat cap'. set (ps' j)) = (\<Union>j < unat cap'. set (ps1 j)) \<union> (\<Union>i\<in>set is. set (ops i))
     \<and> dom (nodes h') = dom (nodes h1)"
  proof (rule Cons.IH [OF *(4) _ _ Cons.prems(4,5)])
    show "arrays h1 nb = Some bs1" "arrays h1 ob = Some obs" using *(3) Cons.prems(3,4) by simp_all
    have sep: "x \<notin> set (ops i)" if "x \<in> set (ops j)" "j \<in> set is" for x j
    proof -
      have "i \<noteq> j" using Cons.prems(6) that(2) by auto
      then have "set (ops i) \<inter> set (ops j) = {}" using Cons.prems(8) that(2) by simp
      with that(1) show ?thesis by auto
    qed
    show "\<forall>j\<in>set is. j < length obs \<and> (\<exists>b. obs ! j = Some b \<and> hchain (nodes h1) b (ops j) (okv j))
        \<and> (\<forall>x\<in>set (okv j). hidx hash cap (fst x) = j)"
    proof
      fix j assume j: "j \<in> set is"
      have "hchain (nodes h1) c (ops j) (okv j) = hchain (nodes h) c (ops j) (okv j)" for c
        by (rule hchain_cong) (use *(8) sep j in blast)
      with Cons.prems(7) j show "j < length obs \<and> (\<exists>b. obs ! j = Some b \<and> hchain (nodes h1) b (ops j) (okv j))
        \<and> (\<forall>x\<in>set (okv j). hidx hash cap (fst x) = j)" by auto
    qed
    show "\<forall>l\<in>set is. \<forall>j < unat cap'. set (ops l) \<inter> set (ps1 j) = {}"
    proof (intro ballI allI impI)
      fix l j assume l: "l \<in> set is" and j: "j < unat cap'"
      have "set (ps1 j) \<subseteq> (\<Union>j < unat cap'. set (ps j)) \<union> set (ops i)" using *(6) j by blast
      moreover have "set (ops l) \<inter> (\<Union>j < unat cap'. set (ps j)) = {}" using Cons.prems(9) l by simp blast
      ultimately show "set (ops l) \<inter> set (ps1 j) = {}" using sep [OF _ l] by blast
    qed
    show "hm_map hash cap' kv1 = M |` {k. hidx hash cap k \<in> insert i D}" by (fact map1)
  qed (use Cons.prems(6,8,11,12) in auto)
  then obtain h' bs' ps' kv' where **: "rehash_all hash cap' nb ob is h1 = Some h'" "pool h' = pool h"
    "arrays h' = (arrays h)(nb \<mapsto> bs')" "hm_at hash cap' (nodes h') bs' ps' kv'"
    "hm_map hash cap' kv' = M |` {k. hidx hash cap k \<in> insert i D \<union> set is}"
    "(\<Union>j < unat cap'. set (ps' j)) = (\<Union>j < unat cap'. set (ps1 j)) \<union> (\<Union>i\<in>set is. set (ops i))"
    "dom (nodes h') = dom (nodes h)" unfolding *(2,3,7) fun_upd_upd by (elim exE conjE) (rule that; assumption)
  have "load_arr ob i h = Some b" using Cons.prems(3) b by (simp add: load_arr_def)
  then have "rehash_all hash cap' nb ob (i # is) h = Some h'" using *(1) **(1) by simp
  moreover have "insert i D \<union> set is = D \<union> set (i # is)" by auto
  moreover have "(\<Union>j < unat cap'. set (ps' j)) = (\<Union>j < unat cap'. set (ps j)) \<union> (\<Union>i\<in>set (i # is). set (ops i))"
    unfolding **(6) *(6) by auto
  ultimately show ?case using **(2-5,7) by metis
qed

context tm_alloc
begin

lemma hm_rehash:
  assumes rep: "hm_rep ainv hash s M" and small: "16 * unat (hm_capacity s) \<le> max_request"
    and al: "alloc_buckets TM (2 * hm_capacity s) (hm_heap s) = Some (nb, h1)"
  obtains obs h2 bs ps kv where "hm_buckets s \<noteq> nb" "2 * hm_capacity s \<noteq> 0" "int_counter_ok (2 * hm_capacity s)"
    "rehash_all hash (2 * hm_capacity s) nb (hm_buckets s) [0..<unat (hm_capacity s)] h1 = Some h2"
    "heap_ok ainv h2" "arrays h2 = [hm_buckets s \<mapsto> obs, nb \<mapsto> bs]"
    "hm_at hash (2 * hm_capacity s) (nodes h2) bs ps kv" "hm_map hash (2 * hm_capacity s) kv = M"
    "(\<Union>j < unat (2 * hm_capacity s). set (ps j)) = dom (nodes h2)"
proof -
  let ?c = "hm_capacity s" and ?c' = "2 * hm_capacity s" and ?ob = "hm_buckets s"
  from rep obtain obs ops okv where r: "?c \<noteq> 0" "int_counter_ok ?c" "arrays (hm_heap s) = [?ob \<mapsto> obs]"
    "hm_at hash ?c (nodes (hm_heap s)) obs ops okv" "dom (nodes (hm_heap s)) = (\<Union>i < unat ?c. set (ops i))"
    "M = hm_map hash ?c okv" "heap_ok ainv (hm_heap s)"
    by (auto simp: hm_rep_def)
  have u: "unat ?c' = 2 * unat ?c" using r(2) by (simp add: int_counter_ok_iff unat_word_ariths)
  from alloc_buckets_ok [OF r(7) _ _ al] obtain bs where a: "heap_ok ainv h1" "nodes h1 = nodes (hm_heap s)"
    "arrays h1 = (arrays (hm_heap s))(nb \<mapsto> bs)" "arrays (hm_heap s) nb = None"
    "length bs = unat ?c'" "\<forall>i < unat ?c'. bs ! i = Some nullptr" "int_counter_ok ?c'"
    using small r(2) by (auto simp: u int_counter_ok_iff)
  have c': "?c' \<noteq> 0" using r(1) u by (simp add: word_unat_eq_iff)
  have nb: "nb \<noteq> ?ob" using a(4) r(3) by auto
  have "\<exists>h' bs' ps' kv'. rehash_all hash ?c' nb ?ob [0..<unat ?c] h1 = Some h' \<and> pool h' = pool h1
     \<and> arrays h' = (arrays h1)(nb \<mapsto> bs') \<and> hm_at hash ?c' (nodes h') bs' ps' kv'
     \<and> hm_map hash ?c' kv' = M |` {k. hidx hash ?c k \<in> {} \<union> set [0..<unat ?c]}
     \<and> (\<Union>j < unat ?c'. set (ps' j)) = (\<Union>j < unat ?c'. set []) \<union> (\<Union>i\<in>set [0..<unat ?c]. set (ops i))
     \<and> dom (nodes h') = dom (nodes h1)"
  proof (rule rehash_all_ok [OF hm_at_empty [OF a(5,6)] _ _ nb c'])
    show "arrays h1 nb = Some bs" "arrays h1 ?ob = Some obs" using a(3) r(3) nb by simp_all
    show "\<forall>i\<in>set [0..<unat ?c]. i < length obs \<and> (\<exists>b. obs ! i = Some b \<and> hchain (nodes h1) b (ops i) (okv i))
       \<and> (\<forall>x\<in>set (okv i). hidx hash ?c (fst x) = i)"
      using r(4) by (auto simp: hm_at_def a(2))
    show "\<forall>i\<in>set [0..<unat ?c]. \<forall>j\<in>set [0..<unat ?c]. i \<noteq> j \<longrightarrow> set (ops i) \<inter> set (ops j) = {}"
      using r(4) by (auto simp: hm_at_def)
  qed (auto simp: hm_map_def r(6) restrict_map_def)
  then obtain h2 bs' ps' kv' where n: "rehash_all hash ?c' nb ?ob [0..<unat ?c] h1 = Some h2" "pool h2 = pool h1"
    "arrays h2 = (arrays h1)(nb \<mapsto> bs')"
    "hm_at hash ?c' (nodes h2) bs' ps' kv'" "hm_map hash ?c' kv' = M |` {k. hidx hash ?c k < unat ?c}"
    "(\<Union>j < unat ?c'. set (ps' j)) = dom (nodes h2)" "dom (nodes h2) = dom (nodes h1)"
    using r(5) a(2) by (auto simp: atLeast0LessThan)
  have "{k. hidx hash ?c k < unat ?c} = UNIV" using hidx_less [OF r(1)] by auto
  then have map: "hm_map hash ?c' kv' = M" using n(5) by (simp add: restrict_map_def)
  have ok2: "heap_ok ainv h2" by (rule heap_ok_cong [OF a(1)]) (use n a(3) in auto)
  have arr2: "arrays h2 = [?ob \<mapsto> obs, nb \<mapsto> bs']" using n(3) a(3) r(3) by simp
  from that [OF nb [symmetric] c' a(7) n(1) ok2 arr2 n(4) map n(6)] show ?thesis .
qed

lemma hm_rebuild_ok:
  assumes rep: "hm_rep ainv hash s M" and small: "16 * unat (hm_capacity s) \<le> max_request"
    and ret: "hm_rebuild TM hash s = Some s'"
  shows "hm_rep ainv hash s' M \<and> hm_capacity s' = 2 * hm_capacity s \<and> int_counter_ok (2 * hm_capacity s)"
proof -
  from ret obtain nb h1 h2 h3 where al: "alloc_buckets TM (2 * hm_capacity s) (hm_heap s) = Some (nb, h1)"
    and re: "rehash_all hash (2 * hm_capacity s) nb (hm_buckets s) [0..<unat (hm_capacity s)] h1 = Some h2"
    and fr: "pfree TM (hm_buckets s) h2 = Some h3"
    and s': "s' = s\<lparr>hm_buckets := nb, hm_capacity := 2 * hm_capacity s, hm_heap := h3\<rparr>"
    by (auto simp: hm_rebuild_def ret_simps Let_def)
  obtain obs h2' bs ps kv where n': "hm_buckets s \<noteq> nb" "2 * hm_capacity s \<noteq> 0"
    "int_counter_ok (2 * hm_capacity s)"
    "rehash_all hash (2 * hm_capacity s) nb (hm_buckets s) [0..<unat (hm_capacity s)] h1 = Some h2'"
    "heap_ok ainv h2'" "arrays h2' = [hm_buckets s \<mapsto> obs, nb \<mapsto> bs]"
    "hm_at hash (2 * hm_capacity s) (nodes h2') bs ps kv" "hm_map hash (2 * hm_capacity s) kv = M"
    "(\<Union>j < unat (2 * hm_capacity s). set (ps j)) = dom (nodes h2')"
    by (rule hm_rehash [OF rep small al])
  have "h2' = h2" using n'(4) re by simp
  note n = n'(1-3,5-9) [unfolded this]
  have "arrays h2 (hm_buckets s) = Some obs" using n(1,5) by simp
  from pfree_ok [OF n(4) this] fr have h3: "heap_ok ainv h3" "arrays h3 = (arrays h2)(hm_buckets s := None)"
    "nodes h3 = nodes h2" by auto
  have "arrays h3 = [nb \<mapsto> bs]" using n(1) by (auto simp: h3(2) n(5))
  moreover have "hm_size s = of_nat (card (dom M))" using rep by (auto simp: hm_rep_def)
  ultimately show ?thesis
    unfolding hm_rep_def using n h3 s'
    by (intro conjI exI [of _ bs] exI [of _ ps] exI [of _ kv]) simp_all
qed

end

subsection \<open>Construction, insertion and destruction\<close>

context tm_alloc
begin

lemma hm_new_ok:
  assumes "heap_ok ainv h" "nodes h = Map.empty" "arrays h = Map.empty" "cap \<noteq> 0"
    "8 * unat cap \<le> max_request" "unat cap < 2 ^ 61" "hm_new TM cap h = Some s"
  shows "hm_rep ainv hash s Map.empty \<and> hm_capacity s = cap"
proof -
  from assms(7) obtain p h1 where al: "alloc_buckets TM cap h = Some (p, h1)"
    and s: "s = \<lparr>hm_capacity = cap, hm_size = 0, hm_buckets = p, hm_heap = h1\<rparr>"
    by (auto simp: hm_new_def ret_simps)
  from alloc_buckets_ok [OF assms(1) _ _ al] assms(2,3,5,6) obtain bs where a: "heap_ok ainv h1"
    "nodes h1 = Map.empty" "arrays h1 = [p \<mapsto> bs]" "length bs = unat cap" "\<forall>i < unat cap. bs ! i = Some nullptr"
    "int_counter_ok cap" by auto
  have "dom (hm_map hash cap (\<lambda>_. [])) = {}" by (auto simp: hm_map_def)
  then show ?thesis
    unfolding hm_rep_def using a assms(4) hm_at_empty [OF a(4,5)]
    by (intro conjI exI [of _ bs] exI [of _ "\<lambda>_. []"]) (auto simp: s hm_map_def)
qed

lemma hm_innerPut_ok:
  assumes rep: "hm_rep ainv hash s M" and sz: "unat sz \<le> max_request"
    and small: "hm_over_load (hm_size s) (hm_capacity s) \<Longrightarrow> 16 * unat (hm_capacity s) \<le> max_request"
    and ret: "hm_innerPut TM sz hash key newval old save s = Some (r, old', s')"
  shows "r = (M key = None)" "old' = (if save \<and> M key \<noteq> None then M key else old)"
    "hm_rep ainv hash s' (M(key \<mapsto> newval))"
    "hm_capacity s' = (if hm_over_load (hm_size s) (hm_capacity s) then 2 * hm_capacity s else hm_capacity s)"
proof -
  let ?o = "hm_over_load (hm_size s) (hm_capacity s)"
  from ret obtain s1 i node where s1: "(if ?o then hm_rebuild TM hash s else Some s) = Some s1"
    and i: "hm_index hash key (hm_capacity s1) = Some i"
    and node: "load_arr (hm_buckets s1) i (hm_heap s1) = Some node"
    and put: "hm_put_loop TM sz key newval old save i node node s1 = Some (r, old', s')"
    by (auto simp: hm_innerPut_def ret_simps)
  have rep1: "hm_rep ainv hash s1 M" and cap1: "hm_capacity s1 = (if ?o then 2 * hm_capacity s else hm_capacity s)"
    using s1 rep hm_rebuild_ok [OF rep small, of s1] by (auto split: if_splits)
  have "i = hidx hash (hm_capacity s1) key" using i by (simp add: hm_index_def hidx_def split: if_splits)
  with hm_put_loop_ok [OF rep1 sz, of key node newval old save r old' s'] node put cap1
  show "r = (M key = None)" "old' = (if save \<and> M key \<noteq> None then M key else old)"
    "hm_rep ainv hash s' (M(key \<mapsto> newval))" "hm_capacity s' = (if ?o then 2 * hm_capacity s else hm_capacity s)"
    by auto
qed

lemma hm_innerPut_returns:
  assumes rep: "hm_rep ainv hash s M" and sz: "unat sz \<le> max_request"
    and small: "hm_over_load (hm_size s) (hm_capacity s) \<Longrightarrow> 16 * unat (hm_capacity s) \<le> max_request"
    and room: "(if hm_over_load (hm_size s) (hm_capacity s) then hm_rebuild TM hash s else Some s) = Some s1"
      "fst (tm_malloc TM sz (pool (hm_heap s1))) \<noteq> nullptr"
  shows "hm_innerPut TM sz hash key newval old save s \<noteq> None"
proof -
  have rep1: "hm_rep ainv hash s1 M"
    using room(1) rep hm_rebuild_ok [OF rep small, of s1] by (auto split: if_splits)
  let ?i = "hidx hash (hm_capacity s1) key"
  from rep1 obtain bs ps kv b where *: "arrays (hm_heap s1) = [hm_buckets s1 \<mapsto> bs]"
    "hm_at hash (hm_capacity s1) (nodes (hm_heap s1)) bs ps kv" "heap_ok ainv (hm_heap s1)"
    "dom (nodes (hm_heap s1)) = (\<Union>i < unat (hm_capacity s1). set (ps i))" "?i < unat (hm_capacity s1)"
    "hm_index hash key (hm_capacity s1) = Some ?i" "load_arr (hm_buckets s1) ?i (hm_heap s1) = Some b"
    "hchain (nodes (hm_heap s1)) b (ps ?i) (kv ?i)" by (rule hm_repE [where key = key])
  have "hm_put_loop TM sz key newval old save ?i b b s1 \<noteq> None"
  proof (cases "map_of (kv ?i) key")
    case (Some v)
    from hm_put_found [OF *(8) Some] show ?thesis by (metis option.distinct(1))
  next
    case None
    obtain p h1 where new: "tmNew TM sz (hnode_of key newval) (hm_heap s1) = Some (p, h1)"
      using room(2) tmNew_fails by (metis option.exhaust surj_pair)
    note f = tmNew_ok [OF *(3) sz new]
    have "last (ps ?i) \<in> dom (nodes (hm_heap s1))" if "ps ?i \<noteq> []"
      using *(4,5) last_in_set [OF that] by auto
    then have "\<exists>n. nodes h1 (last (ps ?i)) = Some n" if "ps ?i \<noteq> []" using that f(2) by auto
    moreover have "arrays h1 (hm_buckets s1) = Some bs" "length bs = unat (hm_capacity s1)"
      using f(3) *(1,2) by (auto simp: hm_at_def)
    ultimately show ?thesis
      using new *(5) unfolding hm_put_missing [OF *(8) None]
      by (auto simp: store_def store_arr_def) (rule exI [of _ True], rule TrueI)
  qed
  then show ?thesis using room(1) *(6,7) by (simp add: hm_innerPut_def)
qed

lemma free_chain_ok:
  assumes "heap_ok ainv h" "hchain (nodes h) b ps kvs"
  shows "\<exists>h'. free_chain TM b h = Some h' \<and> heap_ok ainv h' \<and> arrays h' = arrays h
     \<and> nodes h' = (\<lambda>x. if x \<in> set ps then None else nodes h x)"
  using assms
proof (induction ps arbitrary: b kvs h)
  case Nil
  then show ?case by (simp add: free_chain.simps [of _ 0])
next
  case (Cons p ps)
  from Cons.prems(2) obtain n kvs' where n: "p = b" "b \<noteq> nullptr" "nodes h b = Some n" "b \<notin> set ps"
    and ch: "hchain (nodes h) (hnext n) ps kvs'" by (auto simp: hchain_Cons)
  from tmDelete_ok [OF Cons.prems(1) n(3)] obtain h1 where h1: "tmDelete TM b h = Some h1" "heap_ok ainv h1"
    "nodes h1 = (nodes h)(b := None)" "arrays h1 = arrays h" by blast
  have "hchain (nodes h1) (hnext n) ps kvs' = hchain (nodes h) (hnext n) ps kvs'"
    by (rule hchain_cong) (use n(4) h1(3) in auto)
  with ch have "hchain (nodes h1) (hnext n) ps kvs'" by simp
  from Cons.IH [OF h1(2) this] obtain h' where h': "free_chain TM (hnext n) h1 = Some h'" "heap_ok ainv h'"
    "arrays h' = arrays h1" "nodes h' = (\<lambda>x. if x \<in> set ps then None else nodes h1 x)" by blast
  have "free_chain TM b h = Some h'" using n h1(1) h'(1) by (subst free_chain.simps) (simp add: heap_simps)
  then show ?case using h'(2-4) h1(3,4) n(1) by (intro exI [of _ h']) (auto simp: fun_eq_iff)
qed

lemma free_chains_ok:
  assumes "heap_ok ainv h" "arrays h p = Some bs" "distinct is"
    "\<forall>i\<in>set is. i < length bs \<and> (\<exists>b. bs ! i = Some b \<and> hchain (nodes h) b (ps i) (kv i))"
    "\<forall>i\<in>set is. \<forall>j\<in>set is. i \<noteq> j \<longrightarrow> set (ps i) \<inter> set (ps j) = {}"
  shows "\<exists>h'. free_chains TM p is h = Some h' \<and> heap_ok ainv h' \<and> arrays h' = arrays h
     \<and> nodes h' = (\<lambda>x. if x \<in> (\<Union>i\<in>set is. set (ps i)) then None else nodes h x)"
  using assms
proof (induction "is" arbitrary: h)
  case Nil then show ?case by simp
next
  case (Cons i "is")
  from Cons.prems(4) obtain b where b: "i < length bs" "bs ! i = Some b" "hchain (nodes h) b (ps i) (kv i)" by auto
  from free_chain_ok [OF Cons.prems(1) b(3)] obtain h1 where h1: "free_chain TM b h = Some h1" "heap_ok ainv h1"
    "arrays h1 = arrays h" "nodes h1 = (\<lambda>x. if x \<in> set (ps i) then None else nodes h x)" by blast
  have keep: "hchain (nodes h1) c (ps j) (kv j) = hchain (nodes h) c (ps j) (kv j)" if "j \<in> set is" for c j
  proof (rule hchain_cong)
    fix x assume "x \<in> set (ps j)"
    moreover have "set (ps i) \<inter> set (ps j) = {}" using Cons.prems(3,5) that by auto
    ultimately show "nodes h1 x = nodes h x" by (auto simp: h1(4))
  qed
  have "\<exists>h'. free_chains TM p is h1 = Some h' \<and> heap_ok ainv h' \<and> arrays h' = arrays h1
     \<and> nodes h' = (\<lambda>x. if x \<in> (\<Union>i\<in>set is. set (ps i)) then None else nodes h1 x)"
    by (rule Cons.IH [OF h1(2)]) (use Cons.prems(2-5) h1(3) keep in auto)
  moreover have "load_arr p i h = Some b" using Cons.prems(2) b by (simp add: load_arr_def)
  ultimately show ?case using h1 by (auto simp: fun_eq_iff)
qed

lemma hm_delete_ok:
  assumes rep: "hm_rep ainv hash s M"
  shows "\<exists>h'. hm_delete TM s = Some h' \<and> heap_ok ainv h' \<and> nodes h' = Map.empty \<and> arrays h' = Map.empty"
proof -
  let ?c = "hm_capacity s"
  from rep obtain bs ps kv where r: "int_counter_ok ?c" "arrays (hm_heap s) = [hm_buckets s \<mapsto> bs]"
    "hm_at hash ?c (nodes (hm_heap s)) bs ps kv" "dom (nodes (hm_heap s)) = (\<Union>i < unat ?c. set (ps i))"
    "heap_ok ainv (hm_heap s)" by (auto simp: hm_rep_def)
  have "\<exists>h'. free_chains TM (hm_buckets s) [0..<unat ?c] (hm_heap s) = Some h' \<and> heap_ok ainv h'
     \<and> arrays h' = arrays (hm_heap s)
     \<and> nodes h' = (\<lambda>x. if x \<in> (\<Union>i\<in>set [0..<unat ?c]. set (ps i)) then None else nodes (hm_heap s) x)"
    by (rule free_chains_ok [OF r(5)]) (use r(2,3) in \<open>auto simp: hm_at_def\<close>)
  then obtain h1 where h1: "free_chains TM (hm_buckets s) [0..<unat ?c] (hm_heap s) = Some h1" "heap_ok ainv h1"
    "arrays h1 = [hm_buckets s \<mapsto> bs]"
    "nodes h1 = (\<lambda>x. if x \<in> dom (nodes (hm_heap s)) then None else nodes (hm_heap s) x)"
    using r(2,4) by (auto simp: atLeast0LessThan)
  have "nodes h1 = Map.empty" using h1(4) by (auto simp: fun_eq_iff domIff)
  moreover from h1(3) have "arrays h1 (hm_buckets s) = Some bs" by simp
  from pfree_ok [OF h1(2) this] obtain h2 where "pfree TM (hm_buckets s) h1 = Some h2" "heap_ok ainv h2"
    "arrays h2 = (arrays h1)(hm_buckets s := None)" "nodes h2 = nodes h1" by blast
  ultimately show ?thesis using h1(1,3) r(1) by (auto simp: hm_delete_def)
qed

end

context tm_alloc
begin

lemma hm_rebuild_returns:
  assumes rep: "hm_rep ainv hash s M" and small: "16 * unat (hm_capacity s) \<le> max_request"
    and counter: "int_counter_ok (2 * hm_capacity s)"
    and room: "fst (tm_malloc TM (2 * hm_capacity s * 8) (pool (hm_heap s))) \<noteq> nullptr"
  shows "hm_rebuild TM hash s \<noteq> None"
proof -
  let ?c = "hm_capacity s" and ?c' = "2 * hm_capacity s"
  from rep have r: "int_counter_ok ?c" "heap_ok ainv (hm_heap s)" by (auto simp: hm_rep_def)
  have u: "unat ?c' = 2 * unat ?c" using r(1) by (simp add: int_counter_ok_iff unat_word_ariths)
  obtain nb h0 where m: "pmalloc TM (?c' * 8) (hm_heap s) = Some (nb, h0)"
    using room pmalloc_fails by (metis option.exhaust surj_pair)
  have u8: "unat (?c' * 8) = 16 * unat ?c" using r(1) by (simp add: int_counter_ok_iff unat_word_ariths u)
  have "unat (?c' * 8) \<le> max_request" using small unfolding u8 .
  from pmalloc_ok(3) [OF r(2) this m] have "arrays h0 nb = Some (replicate (unat ?c') None)"
    unfolding u8 u by simp
  from init_loop_ok [OF this, of "[0..<unat ?c']"] obtain h1 where "init_loop nb [0..<unat ?c'] h0 = Some h1" by auto
  with m counter have al: "alloc_buckets TM ?c' (hm_heap s) = Some (nb, h1)" by (simp add: alloc_buckets_def)
  from hm_rehash [OF rep small al] obtain obs h2 bs where n: "hm_buckets s \<noteq> nb"
    "rehash_all hash ?c' nb (hm_buckets s) [0..<unat ?c] h1 = Some h2" "heap_ok ainv h2"
    "arrays h2 = [hm_buckets s \<mapsto> obs, nb \<mapsto> bs]" by metis
  from n(1,4) have "arrays h2 (hm_buckets s) = Some obs" by simp
  from pfree_ok [OF n(3) this] n(2) al show ?thesis by (auto simp: hm_rebuild_def Let_def)
qed

end

subsection \<open>The contract\<close>

text \<open>
  A set of at most 2^20 distinct keys from U never makes the map exceed 2^22 buckets: below
  2^24 the floating-point load test is exact.
\<close>

definition hm_set :: "'k set \<Rightarrow> u64 \<Rightarrow> ('k \<Rightarrow> u64) \<Rightarrow> ('k, 'k, esloco) hashmap \<Rightarrow> 'k set \<Rightarrow> bool" where
  "hm_set U sz hash s A \<longleftrightarrow>
     unat sz \<le> esl_max_request \<and> finite U \<and> card U \<le> 2 ^ 20 \<and> A \<subseteq> U \<and> unat (hm_capacity s) \<le> 2 ^ 22
     \<and> (\<exists>M. hm_rep esl_inv hash s M \<and> dom M = A)"

text \<open>Memory for the new bucket array, if one is needed, and for the new node.\<close>

definition hm_room :: "u64 \<Rightarrow> ('k \<Rightarrow> u64) \<Rightarrow> ('k, 'v, esloco) hashmap \<Rightarrow> bool" where
  "hm_room sz hash s \<longleftrightarrow>
     (if hm_over_load (hm_size s) (hm_capacity s)
      then fst (esl_malloc (2 * hm_capacity s * 8) (pool (hm_heap s))) \<noteq> nullptr
         \<and> (\<forall>s1. hm_rebuild esl_tm hash s = Some s1 \<longrightarrow> fst (esl_malloc sz (pool (hm_heap s1))) \<noteq> nullptr)
      else fst (esl_malloc sz (pool (hm_heap s))) \<noteq> nullptr)"

lemma round_f32_small: "n < 2 ^ 24 \<Longrightarrow> round_f32 n = n"
  by (simp add: round_f32_def)

lemma over_load_small:
  assumes "unat cap \<le> 2 ^ 22" "n \<le> 2 ^ 20" "hm_over_load (of_nat n) cap"
  shows "3 * unat cap < 4 * n"
proof -
  have "unat (of_nat n :: u64) = n" using assms(2) by (simp add: unat_of_nat take_bit_eq_mod)
  then have n: "uint (of_nat n :: u64) = int n" by (simp only: uint_nat)
  obtain x where x: "unat cap = x" by blast
  have c: "uint cap = int x" using x by (simp only: uint_nat)
  have "round_f32 (int x) = int x" "round_f32 (int n) = int n" "round_f32 (3 * int x) = 3 * int x"
    using assms(1,2) unfolding x by (auto intro!: round_f32_small)
  with assms(3) x show ?thesis unfolding hm_over_load_def n c by simp
qed

lemma hm_set_grows:
  assumes "hm_set U sz hash s A" "hm_over_load (hm_size s) (hm_capacity s)"
  shows "2 * unat (hm_capacity s) \<le> 2 ^ 22" "unat (2 * hm_capacity s) = 2 * unat (hm_capacity s)"
    "16 * unat (hm_capacity s) \<le> esl_max_request" "int_counter_ok (2 * hm_capacity s)"
proof -
  from assms(1) obtain M where M: "hm_rep esl_inv hash s M" "dom M \<subseteq> U" "finite U" "card U \<le> 2 ^ 20"
    "unat (hm_capacity s) \<le> 2 ^ 22" by (auto simp: hm_set_def)
  have "hm_size s = of_nat (card (dom M))" using M(1) by (auto simp: hm_rep_def)
  moreover have n: "card (dom M) \<le> 2 ^ 20" using M(2-4) card_mono [of U "dom M"] by simp
  ultimately have "3 * unat (hm_capacity s) < 4 * card (dom M)" using over_load_small M(5) assms(2) by metis
  then show c: "2 * unat (hm_capacity s) \<le> 2 ^ 22" using n by simp
  then show "unat (2 * hm_capacity s) = 2 * unat (hm_capacity s)" by (simp add: unat_word_ariths)
  with c show "16 * unat (hm_capacity s) \<le> esl_max_request" "int_counter_ok (2 * hm_capacity s)"
    by (simp_all add: esl_max_request_def int_counter_ok_iff)
qed

lemma hm_add_set:
  assumes set: "hm_set U sz hash s A" and k: "k \<in> U" and ret: "hm_add esl_tm sz hash k s = Some (r, s')"
  shows "r = (k \<notin> A) \<and> hm_set U sz hash s' (insert k A)"
proof -
  from set obtain M where M: "hm_rep esl_inv hash s M" "dom M = A" "unat sz \<le> esl_max_request" by (auto simp: hm_set_def)
  from ret obtain old' where put: "hm_innerPut esl_tm sz hash k k None False s = Some (r, old', s')"
    by (auto simp: hm_add_def)
  note p = eslh.hm_innerPut_ok [OF M(1,3) hm_set_grows(3) [OF set] put]
  have "unat (hm_capacity s') \<le> 2 ^ 22"
    using p(4) hm_set_grows(1,2) [OF set] set by (auto simp: hm_set_def split: if_splits)
  then show ?thesis using p(1,3) M k set unfolding hm_set_def by (auto simp: domIff)
qed

interpretation hms: set_contract "hm_set U sz hash" "\<lambda>k. k \<in> U" "\<lambda>_. hm_room sz hash"
    "hm_add esl_tm sz hash" "hm_remove esl_tm hash" "hm_contains hash" for U sz hash
proof unfold_locales
  fix s A k r s'
  assume "hm_set U sz hash s A" "k \<in> U" "hm_add esl_tm sz hash k s = Some (r, s')"
  then show "r = (k \<notin> A) \<and> hm_set U sz hash s' (insert k A)" by (rule hm_add_set)
next
  fix s A k
  assume set: "hm_set U sz hash s A" and k: "k \<in> U" and room: "hm_room sz hash s"
  from set obtain M where M: "hm_rep esl_inv hash s M" "unat sz \<le> esl_max_request" by (auto simp: hm_set_def)
  let ?o = "hm_over_load (hm_size s) (hm_capacity s)"
  have "hm_rebuild esl_tm hash s \<noteq> None" if ?o
    using eslh.hm_rebuild_returns [OF M(1) hm_set_grows(3,4) [OF set that]] room that
    by (simp add: hm_room_def esl_tm_def)
  then obtain s1 where s1: "(if ?o then hm_rebuild esl_tm hash s else Some s) = Some s1" by (cases ?o) auto
  moreover have "fst (tm_malloc esl_tm sz (pool (hm_heap s1))) \<noteq> nullptr"
    using s1 room by (auto simp: hm_room_def esl_tm_def split: if_splits)
  ultimately show "hm_add esl_tm sz hash k s \<noteq> None"
    using eslh.hm_innerPut_returns [OF M hm_set_grows(3) [OF set]] by (auto simp: hm_add_def)
next
  fix s A k
  assume set: "hm_set U sz hash s A"
  then obtain M where M: "hm_rep esl_inv hash s M" "dom M = A" by (auto simp: hm_set_def)
  from eslh.hm_innerRemove_ok [OF M(1), of k None False] obtain s' where
    s': "hm_innerRemove esl_tm hash k None False s = Some (M k \<noteq> None, None, s')"
    "hm_rep esl_inv hash s' (M(k := None))" "hm_capacity s' = hm_capacity s" by auto
  have "dom (M(k := None)) = A - {k}" using M(2) by simp
  with s'(2,3) set have "hm_set U sz hash s' (A - {k})" unfolding hm_set_def by (metis Diff_subset subset_trans)
  then show "\<exists>s'. hm_remove esl_tm hash k s = Some (k \<in> A, s') \<and> hm_set U sz hash s' (A - {k})"
    using s'(1) M(2) by (auto simp: hm_remove_def domIff)
next
  fix s A k
  assume "hm_set U sz hash s A"
  then obtain M where M: "hm_rep esl_inv hash s M" "dom M = A" by (auto simp: hm_set_def)
  with hm_innerGet_ok [OF M(1)] show "hm_contains hash k s = Some (k \<in> A)"
    by (auto simp: hm_contains_def split: option.splits)
qed

subsection \<open>Properties\<close>

text \<open>
  Rebuild doubles the number of buckets and keeps every mapping, moving nodes without
  allocating or losing one, for every hash function.
\<close>

theorem hm_rebuild_preserves:
  assumes "hm_rep esl_inv hash s M" "16 * unat (hm_capacity s) \<le> esl_max_request"
    "hm_rebuild esl_tm hash s = Some s'"
  shows "hm_rep esl_inv hash s' M \<and> hm_capacity s' = 2 * hm_capacity s \<and> hm_size s' = hm_size s
     \<and> (\<forall>key. hm_innerGet hash key None True s' = hm_innerGet hash key None True s)"
proof -
  have "hm_rep esl_inv hash s' M" "hm_capacity s' = 2 * hm_capacity s"
    using eslh.hm_rebuild_ok [OF assms] by auto
  moreover have "hm_size s' = hm_size s" using assms(3) by (auto simp: hm_rebuild_def ret_simps Let_def)
  ultimately show ?thesis using hm_innerGet_ok assms(1) by metis
qed

text \<open>
  InnerPut binds the key to the value, reports whether it was absent, hands out the
  replaced value when asked to, and leaves every other binding alone, whether or not it had
  to rebuild first.
\<close>

theorem hm_put_then_get:
  assumes "hm_rep esl_inv hash s M" "unat sz \<le> esl_max_request" "16 * unat (hm_capacity s) \<le> esl_max_request"
    "hm_innerPut esl_tm sz hash key v old save s = Some (r, old', s')"
  shows "r = (M key = None) \<and> old' = (if save \<and> M key \<noteq> None then M key else old)
     \<and> hm_innerGet hash key None True s' = Some (True, Some v)
     \<and> (\<forall>k. k \<noteq> key \<longrightarrow> hm_innerGet hash k None True s' = hm_innerGet hash k None True s)"
proof -
  note p = eslh.hm_innerPut_ok [OF assms(1,2) assms(3) assms(4)]
  have "hm_innerGet hash key None True s' = Some (True, Some v)"
    using hm_innerGet_ok [OF p(3), of key None True] by simp
  moreover have "hm_innerGet hash k None True s' = hm_innerGet hash k None True s" if "k \<noteq> key" for k
    using hm_innerGet_ok [OF p(3), of k None True] hm_innerGet_ok [OF assms(1), of k None True] that by simp
  ultimately show ?thesis using p(1,2) by blast
qed

text \<open>
  C22: a hash map built on an empty heap answers every sequence of at most 2^20 requests as an
  abstract set does, through all its rebuilds and for every hash function, stops only when the
  allocator has no memory for a node or a larger bucket array, and its destructor frees every
  node and the array.
\<close>

theorem hm_requests_correct:
  assumes "heap_ok esl_inv h" "nodes h = Map.empty" "arrays h = Map.empty" "unat sz \<le> esl_max_request"
    "cap \<noteq> 0" "unat cap \<le> 2 ^ 22" "hm_new esl_tm cap h = Some s" "length ops \<le> 2 ^ 20"
  shows "case impl_run (hm_add esl_tm sz hash) (hm_remove esl_tm hash) (hm_contains hash) ops s of
      Some (rs, s') \<Rightarrow> rs = fst (set_run ops {})
        \<and> (\<exists>h'. hm_delete esl_tm s' = Some h' \<and> nodes h' = Map.empty \<and> esl_inv (pool h') {})
    | None \<Rightarrow> \<exists>ys k zs rs s1. ops = ys @ Add k # zs
        \<and> impl_run (hm_add esl_tm sz hash) (hm_remove esl_tm hash) (hm_contains hash) ys s = Some (rs, s1)
        \<and> \<not> hm_room sz hash s1"
proof -
  let ?U = "{k. Add k \<in> set ops}"
  have sub: "?U \<subseteq> (\<lambda>x. case x of Add k \<Rightarrow> k | Remove k \<Rightarrow> k | Contains k \<Rightarrow> k) ` set ops"
    by (force simp: image_iff)
  then have U: "finite ?U" "card ?U \<le> 2 ^ 20"
    using surj_card_le [OF _ sub] card_length [of ops] assms(8) by (auto intro: finite_subset)
  have caps: "8 * unat cap \<le> esl_max_request" "unat cap < 2 ^ 61" using assms(6) by (simp_all add: esl_max_request_def)
  from eslh.hm_new_ok [OF assms(1-3,5) caps assms(7)] have "hm_rep esl_inv hash s Map.empty" "hm_capacity s = cap" by auto
  then have rep: "hm_set ?U sz hash s {}" using U assms(4,6) by (auto simp: hm_set_def)
  have valid: "\<forall>k. Add k \<in> set ops \<longrightarrow> k \<in> ?U" by simp
  show ?thesis
  proof (cases "impl_run (hm_add esl_tm sz hash) (hm_remove esl_tm hash) (hm_contains hash) ops s")
    case None
    from hms.run_stuck [OF rep valid this] None show ?thesis by simp
  next
    case (Some y)
    obtain rs s' where y: "y = (rs, s')" by (cases y)
    from hms.run_correct [OF rep valid, of rs s'] Some y obtain M where
      "rs = fst (set_run ops {})" "hm_rep esl_inv hash s' M" by (auto simp: hm_set_def)
    with eslh.hm_delete_ok [OF this(2)] Some y show ?thesis by (auto simp: heap_ok_def)
  qed
qed

lemma hm_example_new: "hm_new esl_tm 2 esl_heap = Some (the (hm_new esl_tm 2 esl_heap) :: (nat, nat, esloco) hashmap)"
proof -
  have "\<not> Option.is_none (hm_new esl_tm 2 esl_heap :: (nat, nat, esloco) hashmap option)" by code_simp
  then show ?thesis by (auto simp: Option.is_none_def)
qed

definition hm_example_hash :: "nat \<Rightarrow> u64" where "hm_example_hash k = of_nat k"

text \<open>Three additions exceed the load factor of two buckets, so the fourth request rebuilds.\<close>

definition hm_example_run :: "(bool list \<times> (nat, nat, esloco) hashmap) option" where
  "hm_example_run = impl_run (hm_add esl_tm 24 hm_example_hash) (hm_remove esl_tm hm_example_hash)
     (hm_contains hm_example_hash) [Add 5, Add 3, Add 5, Add 7, Remove 3, Contains 5, Contains 3] (the (hm_new esl_tm 2 esl_heap))"

lemma hm_example_returns: "map_option (\<lambda>(rs, s). hm_capacity s) hm_example_run = Some 4"
  by code_simp

theorem hm_requests_correct_witness:
  "map_option fst hm_example_run = Some [True, True, False, True, True, True, False]"
proof -
  let ?ops = "[Add 5, Add 3, Add 5, Add 7, Remove 3, Contains 5, Contains (3::nat)]"
  obtain rs s' where r: "hm_example_run = Some (rs, s')" using hm_example_returns by auto
  have sz: "unat (24 :: u64) \<le> esl_max_request" by (simp add: esl_max_request_def)
  have cap: "(2 :: u64) \<noteq> 0" "unat (2 :: u64) \<le> 2 ^ 22" "length ?ops \<le> 2 ^ 20" by simp_all
  from hm_requests_correct [OF esl_heap_ok sz cap(1,2) hm_example_new cap(3), of hm_example_hash]
  have "rs = fst (set_run ?ops {})" using r by (simp add: hm_example_run_def)
  also have "\<dots> = [True, True, False, True, True, True, False]" by simp
  finally show ?thesis by (simp only: r option.map fst_conv)
qed

definition hm_example :: "(nat, nat, esloco) hashmap" where
  "hm_example = the (hm_new esl_tm 2 esl_heap)"

lemma hm_example_rep: "hm_rep esl_inv hm_example_hash hm_example Map.empty" "hm_capacity hm_example = 2"
proof -
  have "(2 :: u64) \<noteq> 0" "8 * unat (2 :: u64) \<le> esl_max_request" "unat (2 :: u64) < 2 ^ 61"
    by (simp_all add: esl_max_request_def)
  from eslh.hm_new_ok [OF esl_heap_ok this hm_example_new]
  show "hm_rep esl_inv hm_example_hash hm_example Map.empty" "hm_capacity hm_example = 2"
    by (simp_all add: hm_example_def)
qed

theorem hm_rebuild_preserves_witness:
  "\<exists>s'. hm_rebuild esl_tm hm_example_hash hm_example = Some s' \<and> hm_rep esl_inv hm_example_hash s' Map.empty
     \<and> hm_capacity s' = 4"
proof -
  have "\<not> Option.is_none (hm_rebuild esl_tm hm_example_hash hm_example)" by code_simp
  then obtain s' where s': "hm_rebuild esl_tm hm_example_hash hm_example = Some s'" by (auto simp: Option.is_none_def)
  have "16 * unat (hm_capacity hm_example) \<le> esl_max_request" by (simp add: hm_example_rep(2) esl_max_request_def)
  from hm_rebuild_preserves [OF hm_example_rep(1) this s'] s' show ?thesis by (simp add: hm_example_rep(2))
qed

theorem hm_put_then_get_witness:
  "\<exists>r old' s'. hm_innerPut esl_tm 24 hm_example_hash 5 9 None True hm_example = Some (r, old', s')
     \<and> r \<and> old' = None \<and> hm_innerGet hm_example_hash 5 None True s' = Some (True, Some 9)"
proof -
  have "\<not> Option.is_none (hm_innerPut esl_tm 24 hm_example_hash 5 9 None True hm_example)" by code_simp
  then obtain r old' s' where s': "hm_innerPut esl_tm 24 hm_example_hash 5 9 None True hm_example = Some (r, old', s')"
    by (auto simp: Option.is_none_def)
  have "16 * unat (hm_capacity hm_example) \<le> esl_max_request" "unat (24 :: u64) \<le> esl_max_request"
    by (simp_all add: hm_example_rep(2) esl_max_request_def)
  from hm_put_then_get [OF hm_example_rep(1) this(2,1) s'] s' show ?thesis
    by (intro exI [of _ r] exI [of _ old'] exI [of _ s']) simp
qed

end
