(* ===== verification/RedBlackTree.thy ===== *)
theory RedBlackTree
  imports EsHeap SetContract "HOL-Library.Multiset"
begin

text \<open>
  The left-leaning red-black tree of pdatastructures/TMRedBlackTree.hpp. Every node is referenced
  once, from its parent or from root, so the nodes of the tree form a datatype whose
  constructor carries the node's address; an assignment through a node pointer rebuilds that
  node. Allocation and deletion go to the allocator state of the heap. Dereferencing the null
  pointer is the value None.
\<close>

subsection \<open>State\<close>

definition RBT_COLOR_RED :: int where "RBT_COLOR_RED = 0"
definition RBT_COLOR_BLACK :: int where "RBT_COLOR_BLACK = 1"

lemmas colors = RBT_COLOR_RED_def RBT_COLOR_BLACK_def

text \<open>The fields of a node: address, key, val, left, right, color, size.\<close>

datatype ('k, 'v) rbnode = Null | Node ptr 'k 'v "('k, 'v) rbnode" "('k, 'v) rbnode" int int

record ('k, 'v, 'a) rbtree =
  rb_root :: "('k, 'v) rbnode"
  rb_pool :: 'a

definition rb_new :: "'a \<Rightarrow> ('k, 'v, 'a) rbtree" where
  "rb_new a = \<lparr>rb_root = Null, rb_pool = a\<rparr>"

subsection \<open>Node helper methods\<close>

fun isRed :: "('k, 'v) rbnode \<Rightarrow> bool" where
  "isRed Null = False"
| "isRed (Node p k v l r c s) = (c = RBT_COLOR_RED)"

fun size_of :: "('k, 'v) rbnode \<Rightarrow> int" where
  "size_of Null = 0"
| "size_of (Node p k v l r c s) = s"

fun left_of :: "('k, 'v) rbnode \<Rightarrow> ('k, 'v) rbnode option" where
  "left_of Null = None"
| "left_of (Node p k v l r c s) = Some l"

fun right_of :: "('k, 'v) rbnode \<Rightarrow> ('k, 'v) rbnode option" where
  "right_of Null = None"
| "right_of (Node p k v l r c s) = Some r"

fun set_left :: "('k, 'v) rbnode \<Rightarrow> ('k, 'v) rbnode \<Rightarrow> ('k, 'v) rbnode option" where
  "set_left x Null = None"
| "set_left x (Node p k v l r c s) = Some (Node p k v x r c s)"

fun set_right :: "('k, 'v) rbnode \<Rightarrow> ('k, 'v) rbnode \<Rightarrow> ('k, 'v) rbnode option" where
  "set_right x Null = None"
| "set_right x (Node p k v l r c s) = Some (Node p k v l x c s)"

fun set_color :: "int \<Rightarrow> ('k, 'v) rbnode \<Rightarrow> ('k, 'v) rbnode option" where
  "set_color c' Null = None"
| "set_color c' (Node p k v l r c s) = Some (Node p k v l r c' s)"

fun free_node :: "'a tm \<Rightarrow> ('k, 'v) rbnode \<Rightarrow> 'a \<Rightarrow> 'a" where
  "free_node TM Null a = a"
| "free_node TM (Node p k v l r c s) a = tm_free TM p a"

text \<open>What assignAndFreeIfNull does to the allocator when w replaces z.\<close>

definition assignAndFreeIfNull :: "'a tm \<Rightarrow> ('k, 'v) rbnode \<Rightarrow> ('k, 'v) rbnode \<Rightarrow> 'a \<Rightarrow> 'a" where
  "assignAndFreeIfNull TM z w a = (if w = Null then free_node TM z a else a)"

definition isEmpty :: "('k, 'v, 'a) rbtree \<Rightarrow> bool" where
  "isEmpty T \<longleftrightarrow> rb_root T = Null"

fun deleteAll :: "'a tm \<Rightarrow> ('k, 'v) rbnode \<Rightarrow> 'a \<Rightarrow> 'a option" where
  "deleteAll TM Null a = None"
| "deleteAll TM (Node p k v l r c s) a =
     do { a1 \<leftarrow> if l \<noteq> Null then deleteAll TM l a else Some a;
          a2 \<leftarrow> if r \<noteq> Null then deleteAll TM r a1 else Some a1;
          Some (tm_free TM p a2) }"

definition rb_delete :: "'a tm \<Rightarrow> ('k, 'v, 'a) rbtree \<Rightarrow> 'a option" where
  "rb_delete TM T = (if rb_root T = Null then Some (rb_pool T) else deleteAll TM (rb_root T) (rb_pool T))"

subsection \<open>Search\<close>

fun rb_get :: "'k::linorder \<Rightarrow> ('k, 'v) rbnode \<Rightarrow> bool" where
  "rb_get key Null = False"
| "rb_get key (Node p k v l r c s) =
     (if key < k then rb_get key l else if k < key then rb_get key r else True)"

definition rb_innerGet :: "'k::linorder \<Rightarrow> ('k, 'v, 'a) rbtree \<Rightarrow> bool" where
  "rb_innerGet key T = rb_get key (rb_root T)"

text \<open>getValue answers the null pointer, here None, for an absent key.\<close>

fun rb_find :: "'k::linorder \<Rightarrow> ('k, 'v) rbnode \<Rightarrow> 'v option" where
  "rb_find key Null = None"
| "rb_find key (Node p k v l r c s) =
     (if key < k then rb_find key l else if k < key then rb_find key r else Some v)"

definition getValue :: "'k::linorder \<Rightarrow> ('k, 'v, 'a) rbtree \<Rightarrow> 'v option" where
  "getValue key T = rb_find key (rb_root T)"

subsection \<open>Helper functions\<close>

fun rotateRight :: "('k, 'v) rbnode \<Rightarrow> ('k, 'v) rbnode option" where
  "rotateRight (Node p k v (Node xp xk xv xl xr xc xs) r c s) =
     Some (Node xp xk xv xl (Node p k v xr r RBT_COLOR_RED (size_of xr + size_of r + 1)) c s)"
| "rotateRight _ = None"

fun rotateLeft :: "('k, 'v) rbnode \<Rightarrow> ('k, 'v) rbnode option" where
  "rotateLeft (Node p k v l (Node xp xk xv xl xr xc xs) c s) =
     Some (Node xp xk xv (Node p k v l xl RBT_COLOR_RED (size_of l + size_of xl + 1)) xr c s)"
| "rotateLeft _ = None"

definition not_color :: "int \<Rightarrow> int" where
  "not_color c = (if c = 0 then 1 else 0)"

fun flipColors :: "('k, 'v) rbnode \<Rightarrow> ('k, 'v) rbnode option" where
  "flipColors (Node p k v (Node p1 k1 v1 l1 r1 c1 s1) (Node p2 k2 v2 l2 r2 c2 s2) c s) =
     Some (Node p k v (Node p1 k1 v1 l1 r1 (not_color c1) s1) (Node p2 k2 v2 l2 r2 (not_color c2) s2)
             (not_color c) s)"
| "flipColors _ = None"

definition moveRedLeft :: "('k, 'v) rbnode \<Rightarrow> ('k, 'v) rbnode option" where
  "moveRedLeft h =
     do { h1 \<leftarrow> flipColors h;
          r \<leftarrow> right_of h1;
          rl \<leftarrow> left_of r;
          if isRed rl
          then do { r' \<leftarrow> rotateRight r;
                    h2 \<leftarrow> set_right r' h1;
                    h3 \<leftarrow> rotateLeft h2;
                    flipColors h3 }
          else Some h1 }"

definition moveRedRight :: "('k, 'v) rbnode \<Rightarrow> ('k, 'v) rbnode option" where
  "moveRedRight h =
     do { h1 \<leftarrow> flipColors h;
          l \<leftarrow> left_of h1;
          ll \<leftarrow> left_of l;
          if isRed ll then do { h2 \<leftarrow> rotateRight h1; flipColors h2 } else Some h1 }"

text \<open>The last three statements of put and of balance.\<close>

fun recount :: "('k, 'v) rbnode \<Rightarrow> ('k, 'v) rbnode option" where
  "recount Null = None"
| "recount (Node p k v l r c s) = Some (Node p k v l r c (size_of l + size_of r + 1))"

definition fix_left :: "('k, 'v) rbnode \<Rightarrow> ('k, 'v) rbnode option" where
  "fix_left h =
     do { l \<leftarrow> left_of h;
          ll \<leftarrow> if isRed l then left_of l else Some Null;
          h1 \<leftarrow> if isRed l \<and> isRed ll then rotateRight h else Some h;
          l1 \<leftarrow> left_of h1;
          r1 \<leftarrow> right_of h1;
          h2 \<leftarrow> if isRed l1 \<and> isRed r1 then flipColors h1 else Some h1;
          recount h2 }"

definition balance :: "('k, 'v) rbnode \<Rightarrow> ('k, 'v) rbnode option" where
  "balance h = do { r \<leftarrow> right_of h; h1 \<leftarrow> if isRed r then rotateLeft h else Some h; fix_left h1 }"

subsection \<open>Insertion\<close>

definition put_fixup :: "('k, 'v) rbnode \<Rightarrow> ('k, 'v) rbnode option" where
  "put_fixup h =
     do { l \<leftarrow> left_of h;
          r \<leftarrow> right_of h;
          h1 \<leftarrow> if isRed r \<and> \<not> isRed l then rotateLeft h else Some h;
          fix_left h1 }"

text \<open>put answers ret, the new subtree and the allocator.\<close>

fun rb_put :: "'a tm \<Rightarrow> u64 \<Rightarrow> 'k::linorder \<Rightarrow> 'v \<Rightarrow> ('k, 'v) rbnode \<Rightarrow> 'a \<Rightarrow> (bool \<times> ('k, 'v) rbnode \<times> 'a) option" where
  "rb_put TM nsz key val Null a =
     (let (p, a') = tm_malloc TM nsz a
      in if p \<noteq> nullptr then Some (True, Node p key val Null Null RBT_COLOR_RED 1, a') else None)"
| "rb_put TM nsz key val (Node p k v l r c s) a =
     (if key < k
      then do { (ret, l', a') \<leftarrow> rb_put TM nsz key val l a;
                h \<leftarrow> put_fixup (Node p k v l' r c s); Some (ret, h, a') }
      else if k < key
      then do { (ret, r', a') \<leftarrow> rb_put TM nsz key val r a;
                h \<leftarrow> put_fixup (Node p k v l r' c s); Some (ret, h, a') }
      else do { h \<leftarrow> put_fixup (Node p k val l r c s); Some (False, h, a) })"

definition rb_innerPut :: "'a tm \<Rightarrow> u64 \<Rightarrow> 'k::linorder \<Rightarrow> 'v \<Rightarrow> ('k, 'v, 'a) rbtree \<Rightarrow> (bool \<times> ('k, 'v, 'a) rbtree) option" where
  "rb_innerPut TM nsz key val T =
     do { (ret, t, a) \<leftarrow> rb_put TM nsz key val (rb_root T) (rb_pool T);
          t' \<leftarrow> set_color RBT_COLOR_BLACK t;
          Some (ret, \<lparr>rb_root = t', rb_pool = a\<rparr>) }"

subsection \<open>The nodes of a tree, in order\<close>

fun nods :: "('k, 'v) rbnode \<Rightarrow> (ptr \<times> 'k \<times> 'v) list" where
  "nods Null = []"
| "nods (Node p k v l r c s) = nods l @ (p, k, v) # nods r"

lemma rotateRight_nods: "rotateRight h = Some t \<Longrightarrow> nods t = nods h"
  by (cases h rule: rotateRight.cases) auto

lemma rotateLeft_nods: "rotateLeft h = Some t \<Longrightarrow> nods t = nods h"
  by (cases h rule: rotateLeft.cases) auto

lemma flipColors_nods: "flipColors h = Some t \<Longrightarrow> nods t = nods h"
  by (cases h rule: flipColors.cases) auto

lemma set_right_nods: "set_right x h = Some t \<Longrightarrow> right_of h = Some r \<Longrightarrow> nods x = nods r \<Longrightarrow> nods t = nods h"
  by (cases h) auto

lemma moveRedLeft_nods: "moveRedLeft h = Some t \<Longrightarrow> nods t = nods h"
  by (auto simp: moveRedLeft_def ret_simps split: if_splits
      dest!: rotateRight_nods rotateLeft_nods flipColors_nods dest: set_right_nods)

lemma moveRedRight_nods: "moveRedRight h = Some t \<Longrightarrow> nods t = nods h"
  by (auto simp: moveRedRight_def ret_simps split: if_splits dest!: rotateRight_nods flipColors_nods)

lemma recount_nods: "recount h = Some t \<Longrightarrow> nods t = nods h"
  by (cases h) auto

lemma fix_left_nods: "fix_left h = Some t \<Longrightarrow> nods t = nods h"
  by (auto simp: fix_left_def ret_simps split: if_splits
      dest!: rotateRight_nods flipColors_nods recount_nods)

lemma balance_nods: "balance h = Some t \<Longrightarrow> nods t = nods h"
  by (auto simp: balance_def ret_simps split: if_splits dest!: rotateLeft_nods fix_left_nods)

lemma put_fixup_nods: "put_fixup h = Some t \<Longrightarrow> nods t = nods h"
  by (auto simp: put_fixup_def ret_simps split: if_splits dest!: rotateLeft_nods fix_left_nods)

lemmas nods_same = rotateRight_nods rotateLeft_nods moveRedLeft_nods moveRedRight_nods balance_nods put_fixup_nods

lemma kid_smaller: "left_of h = Some l \<Longrightarrow> length (nods l) < length (nods h)"
  "right_of h = Some r \<Longrightarrow> length (nods r) < length (nods h)"
  by (cases h; simp)+

subsection \<open>Deletion\<close>

text \<open>The preparation before the descent to the left, shared by deleteMin and deleteKey.\<close>

definition prepare_left :: "('k, 'v) rbnode \<Rightarrow> ('k, 'v) rbnode option" where
  "prepare_left h =
     do { l \<leftarrow> left_of h;
          ll \<leftarrow> if \<not> isRed l then left_of l else Some Null;
          if \<not> isRed l \<and> \<not> isRed ll then moveRedLeft h else Some h }"

definition prepare_right :: "('k, 'v) rbnode \<Rightarrow> ('k, 'v) rbnode option" where
  "prepare_right h =
     do { r \<leftarrow> right_of h;
          rl \<leftarrow> if \<not> isRed r then left_of r else Some Null;
          if \<not> isRed r \<and> \<not> isRed rl then moveRedRight h else Some h }"

definition lean_right :: "('k, 'v) rbnode \<Rightarrow> ('k, 'v) rbnode option" where
  "lean_right h = do { l \<leftarrow> left_of h; if isRed l then rotateRight h else Some h }"

lemma prepare_nods:
  "prepare_left h = Some t \<Longrightarrow> nods t = nods h" "prepare_right h = Some t \<Longrightarrow> nods t = nods h"
  "lean_right h = Some t \<Longrightarrow> nods t = nods h"
  by (auto simp: prepare_left_def prepare_right_def lean_right_def ret_simps split: if_splits dest!: nods_same)

function rb_deleteMin :: "'a tm \<Rightarrow> ('k, 'v) rbnode \<Rightarrow> 'a \<Rightarrow> (('k, 'v) rbnode \<times> 'a) option" where
  "rb_deleteMin TM h a =
     do { l0 \<leftarrow> left_of h;
          if l0 = Null then Some (Null, a)
          else do { h1 \<leftarrow> prepare_left h;
                    l \<leftarrow> left_of h1;
                    (w, a1) \<leftarrow> rb_deleteMin TM l a;
                    h2 \<leftarrow> set_left w h1;
                    h3 \<leftarrow> balance h2;
                    Some (h3, assignAndFreeIfNull TM l w a1) } }"
  by pat_completeness auto
termination
  by (relation "measure (\<lambda>(TM, h, a). length (nods h))") (auto dest!: prepare_nods dest: kid_smaller)

declare rb_deleteMin.simps [simp del]

function rb_deleteMax :: "('k, 'v) rbnode \<Rightarrow> ('k, 'v) rbnode option" where
  "rb_deleteMax h =
     do { h0 \<leftarrow> lean_right h;
          r0 \<leftarrow> right_of h0;
          if r0 = Null then Some Null
          else do { h1 \<leftarrow> prepare_right h0;
                    r \<leftarrow> right_of h1;
                    w \<leftarrow> rb_deleteMax r;
                    h2 \<leftarrow> set_right w h1;
                    balance h2 } }"
  by pat_completeness auto
termination
  by (relation "measure (\<lambda>h. length (nods h))") (auto dest!: prepare_nods dest: kid_smaller)

declare rb_deleteMax.simps [simp del]

fun rb_min :: "('k, 'v) rbnode \<Rightarrow> (ptr \<times> 'k \<times> 'v) option" where
  "rb_min Null = None"
| "rb_min (Node p k v l r c s) = (if l = Null then Some (p, k, v) else rb_min l)"

fun key_of :: "('k, 'v) rbnode \<Rightarrow> 'k option" where
  "key_of Null = None"
| "key_of (Node p k v l r c s) = Some k"

fun set_entry :: "'k \<Rightarrow> 'v \<Rightarrow> ('k, 'v) rbnode \<Rightarrow> ('k, 'v) rbnode option" where
  "set_entry k' v' Null = None"
| "set_entry k' v' (Node p k v l r c s) = Some (Node p k' v' l r c s)"

function rb_deleteKey :: "'a tm \<Rightarrow> ('k::linorder) \<Rightarrow> ('k, 'v) rbnode \<Rightarrow> 'a \<Rightarrow> (('k, 'v) rbnode \<times> 'a) option" where
  "rb_deleteKey TM key h a =
     do { k \<leftarrow> key_of h;
          if key < k
          then do { h1 \<leftarrow> prepare_left h;
                    l \<leftarrow> left_of h1;
                    (w, a1) \<leftarrow> rb_deleteKey TM key l a;
                    h2 \<leftarrow> set_left w h1;
                    h3 \<leftarrow> balance h2;
                    Some (h3, assignAndFreeIfNull TM l w a1) }
          else do { h0 \<leftarrow> lean_right h;
                    k0 \<leftarrow> key_of h0;
                    r0 \<leftarrow> right_of h0;
                    if key = k0 \<and> r0 = Null then Some (Null, a)
                    else do {
                      h1 \<leftarrow> prepare_right h0;
                      k1 \<leftarrow> key_of h1;
                      r \<leftarrow> right_of h1;
                      if key = k1
                      then do { (xp, xk, xv) \<leftarrow> rb_min r;
                                h2 \<leftarrow> set_entry xk xv h1;
                                (w, a1) \<leftarrow> rb_deleteMin TM r a;
                                h3 \<leftarrow> set_right w h2;
                                h4 \<leftarrow> balance h3;
                                Some (h4, assignAndFreeIfNull TM r w a1) }
                      else do { (w, a1) \<leftarrow> rb_deleteKey TM key r a;
                                h2 \<leftarrow> set_right w h1;
                                h3 \<leftarrow> balance h2;
                                Some (h3, assignAndFreeIfNull TM r w a1) } } } }"
  by pat_completeness auto
termination
  by (relation "measure (\<lambda>(TM, key, h, a). length (nods h))") (auto dest!: prepare_nods dest: kid_smaller)

declare rb_deleteKey.simps [simp del]

text \<open>The two operations on the root start by making it red when both its children are black.\<close>

definition redden :: "('k, 'v) rbnode \<Rightarrow> ('k, 'v) rbnode option" where
  "redden h = do { l \<leftarrow> left_of h; r \<leftarrow> right_of h;
                   if \<not> isRed l \<and> \<not> isRed r then set_color RBT_COLOR_RED h else Some h }"

definition blacken :: "('k, 'v) rbnode \<Rightarrow> ('k, 'v) rbnode option" where
  "blacken h = (if h \<noteq> Null then set_color RBT_COLOR_BLACK h else Some h)"

definition rb_removeMin :: "'a tm \<Rightarrow> ('k, 'v, 'a) rbtree \<Rightarrow> ('k, 'v, 'a) rbtree option" where
  "rb_removeMin TM T =
     (if isEmpty T then Some T
      else do { h \<leftarrow> redden (rb_root T);
                (w, a) \<leftarrow> rb_deleteMin TM h (rb_pool T);
                t \<leftarrow> blacken w;
                Some \<lparr>rb_root = t, rb_pool = assignAndFreeIfNull TM h w a\<rparr> })"

definition rb_removeMax :: "('k, 'v, 'a) rbtree \<Rightarrow> ('k, 'v, 'a) rbtree option" where
  "rb_removeMax T =
     (if isEmpty T then Some T
      else do { h \<leftarrow> redden (rb_root T);
                w \<leftarrow> rb_deleteMax h;
                t \<leftarrow> blacken w;
                Some (T\<lparr>rb_root := t\<rparr>) })"

definition rb_innerRemove :: "'a tm \<Rightarrow> 'k::linorder \<Rightarrow> ('k, 'v, 'a) rbtree \<Rightarrow> ('k, 'v, 'a) rbtree option" where
  "rb_innerRemove TM key T =
     do { h \<leftarrow> redden (rb_root T);
          (w, a) \<leftarrow> rb_deleteKey TM key h (rb_pool T);
          t \<leftarrow> blacken w;
          Some \<lparr>rb_root = t, rb_pool = assignAndFreeIfNull TM h w a\<rparr> }"

subsection \<open>The set operations\<close>

definition rb_add :: "'a tm \<Rightarrow> u64 \<Rightarrow> 'k::linorder \<Rightarrow> ('k, 'k, 'a) rbtree \<Rightarrow> (bool \<times> ('k, 'k, 'a) rbtree) option" where
  "rb_add TM nsz key T = rb_innerPut TM nsz key key T"

definition rb_remove :: "'a tm \<Rightarrow> 'k::linorder \<Rightarrow> ('k, 'v, 'a) rbtree \<Rightarrow> (bool \<times> ('k, 'v, 'a) rbtree) option" where
  "rb_remove TM key T =
     (if rb_innerGet key T then do { T' \<leftarrow> rb_innerRemove TM key T; Some (True, T') } else Some (False, T))"

definition rb_contains :: "'k::linorder \<Rightarrow> ('k, 'v, 'a) rbtree \<Rightarrow> bool" where
  "rb_contains key T = rb_innerGet key T"

subsection \<open>The invariant\<close>

text \<open>
  Red links lean left, no two of them follow each other, and every path to a null link has n
  black nodes.
\<close>

fun ok :: "nat \<Rightarrow> ('k, 'v) rbnode \<Rightarrow> bool" where
  "ok n Null \<longleftrightarrow> n = 0"
| "ok n (Node p k v l r c s) \<longleftrightarrow> \<not> isRed r \<and>
     (if c = RBT_COLOR_RED then \<not> isRed l \<and> ok n l \<and> ok n r
      else c = RBT_COLOR_BLACK \<and> (case n of 0 \<Rightarrow> False | Suc m \<Rightarrow> ok m l \<and> ok m r))"

fun sized :: "('k, 'v) rbnode \<Rightarrow> bool" where
  "sized Null \<longleftrightarrow> True"
| "sized (Node p k v l r c s) \<longleftrightarrow> s = int (length (nods l) + length (nods r) + 1) \<and> sized l \<and> sized r"

fun kids_sized :: "('k, 'v) rbnode \<Rightarrow> bool" where
  "kids_sized Null \<longleftrightarrow> True"
| "kids_sized (Node p k v l r c s) \<longleftrightarrow> sized l \<and> sized r"

lemma size_of_sized: "sized t \<Longrightarrow> size_of t = int (length (nods t))"
  by (cases t) auto

lemma sized_kids: "sized t \<Longrightarrow> kids_sized t"
  by (cases t) auto

lemma sized_left: "kids_sized h \<Longrightarrow> left_of h = Some l \<Longrightarrow> sized l"
  by (cases h) auto

lemma sized_right: "kids_sized h \<Longrightarrow> right_of h = Some r \<Longrightarrow> sized r"
  by (cases h) auto

lemma rotate_kids_sized:
  "rotateRight h = Some t \<Longrightarrow> kids_sized h \<Longrightarrow> kids_sized t"
  "rotateLeft h = Some t \<Longrightarrow> kids_sized h \<Longrightarrow> kids_sized t"
  "flipColors h = Some t \<Longrightarrow> kids_sized h \<Longrightarrow> kids_sized t"
  subgoal by (cases h rule: rotateRight.cases) (auto simp: size_of_sized)
  subgoal by (cases h rule: rotateLeft.cases) (auto simp: size_of_sized)
  subgoal by (cases h rule: flipColors.cases) auto
  done

lemma rotateRight_sized: "rotateRight h = Some t \<Longrightarrow> sized h \<Longrightarrow> sized t"
  by (cases h rule: rotateRight.cases) (auto simp: size_of_sized)

lemma set_right_sized: "set_right x h = Some t \<Longrightarrow> sized x \<Longrightarrow> kids_sized h \<Longrightarrow> kids_sized t"
  by (cases h) auto

lemma set_left_sized: "set_left x h = Some t \<Longrightarrow> sized x \<Longrightarrow> kids_sized h \<Longrightarrow> kids_sized t"
  by (cases h) auto

lemma set_color_sized: "set_color c h = Some t \<Longrightarrow> sized h \<Longrightarrow> sized t"
  by (cases h) auto

lemma recount_sized: "recount h = Some t \<Longrightarrow> kids_sized h \<Longrightarrow> sized t"
  by (cases h) (auto simp: size_of_sized)

lemma fix_left_sized: "fix_left h = Some t \<Longrightarrow> kids_sized h \<Longrightarrow> sized t"
  by (auto simp: fix_left_def ret_simps split: if_splits dest: rotate_kids_sized recount_sized)

lemma balance_sized: "balance h = Some t \<Longrightarrow> kids_sized h \<Longrightarrow> sized t"
  by (auto simp: balance_def ret_simps split: if_splits dest: rotate_kids_sized fix_left_sized)

lemma put_fixup_sized: "put_fixup h = Some t \<Longrightarrow> kids_sized h \<Longrightarrow> sized t"
  by (auto simp: put_fixup_def ret_simps split: if_splits dest: rotate_kids_sized fix_left_sized)

lemma moveRedRight_sized: "moveRedRight h = Some t \<Longrightarrow> kids_sized h \<Longrightarrow> kids_sized t"
  by (auto simp: moveRedRight_def ret_simps split: if_splits dest: rotate_kids_sized)

lemma moveRedLeft_sized: "moveRedLeft h = Some t \<Longrightarrow> kids_sized h \<Longrightarrow> kids_sized t"
proof -
  assume a: "moveRedLeft h = Some t" "kids_sized h"
  then obtain h1 r rl where h1: "flipColors h = Some h1" "right_of h1 = Some r" "left_of r = Some rl"
    "(if isRed rl then do { r' \<leftarrow> rotateRight r; h2 \<leftarrow> set_right r' h1; h3 \<leftarrow> rotateLeft h2; flipColors h3 } else Some h1) = Some t"
    by (auto simp: moveRedLeft_def ret_simps)
  have k1: "kids_sized h1" using rotate_kids_sized(3) [OF h1(1) a(2)] .
  show ?thesis
  proof (cases "isRed rl")
    case True
    with h1(4) obtain r' h2 h3 where s: "rotateRight r = Some r'" "set_right r' h1 = Some h2" "rotateLeft h2 = Some h3" "flipColors h3 = Some t"
      by (auto simp: ret_simps)
    have "sized r'" using rotateRight_sized [OF s(1) sized_right [OF k1 h1(2)]] .
    then have "kids_sized h2" using set_right_sized [OF s(2)] k1 by simp
    then show ?thesis using rotate_kids_sized(2) [OF s(3)] rotate_kids_sized(3) [OF s(4)] by simp
  next
    case False with h1(4) k1 show ?thesis by simp
  qed
qed

lemma prepare_sized:
  "prepare_left h = Some t \<Longrightarrow> kids_sized h \<Longrightarrow> kids_sized t"
  "prepare_right h = Some t \<Longrightarrow> kids_sized h \<Longrightarrow> kids_sized t"
  "lean_right h = Some t \<Longrightarrow> kids_sized h \<Longrightarrow> kids_sized t"
  by (auto simp: prepare_left_def prepare_right_def lean_right_def ret_simps split: if_splits
      intro: moveRedLeft_sized moveRedRight_sized rotate_kids_sized)

subsection \<open>Colors: insertion\<close>

lemma ok_red_iff: "isRed t \<Longrightarrow> ok n t \<longleftrightarrow> (\<exists>p k v l r s. t = Node p k v l r RBT_COLOR_RED s \<and> \<not> isRed l \<and> \<not> isRed r \<and> ok n l \<and> ok n r)"
  by (cases t) auto

lemma ok_black_iff: "\<not> isRed t \<Longrightarrow> ok (Suc n) t \<longleftrightarrow> (\<exists>p k v l r s. t = Node p k v l r RBT_COLOR_BLACK s \<and> \<not> isRed r \<and> ok n l \<and> ok n r)"
  by (cases t) auto

text \<open>A red node whose left link may be red too: what put returns below a red node.\<close>

fun semi :: "nat \<Rightarrow> ('k, 'v) rbnode \<Rightarrow> bool" where
  "semi n Null \<longleftrightarrow> False"
| "semi n (Node p k v l r c s) \<longleftrightarrow> c = RBT_COLOR_RED \<and> \<not> isRed r \<and> ok n l \<and> ok n r"

lemma colors_neq [simp]: "RBT_COLOR_BLACK \<noteq> RBT_COLOR_RED" "RBT_COLOR_RED \<noteq> RBT_COLOR_BLACK"
  "not_color RBT_COLOR_RED = RBT_COLOR_BLACK" "not_color RBT_COLOR_BLACK = RBT_COLOR_RED"
  by (simp_all add: colors not_color_def)

text \<open>What fix_left does, case by case.\<close>

lemma fix_left_id:
  assumes "\<not> isRed l \<or> \<not> isRed r \<and> (\<forall>ll. left_of l = Some ll \<longrightarrow> \<not> isRed ll)"
  shows "fix_left (Node p k v l r c s) = Some (Node p k v l r c (size_of l + size_of r + 1))"
  using assms by (cases l) (auto simp: fix_left_def)

lemma fix_left_flip:
  assumes "\<not> isRed ll" "isRed (Node rp rk rv rl rr rc rs)"
  shows "fix_left (Node p k v (Node lp lk lv ll lr RBT_COLOR_RED ls) (Node rp rk rv rl rr rc rs) c s) =
    Some (Node p k v (Node lp lk lv ll lr RBT_COLOR_BLACK ls) (Node rp rk rv rl rr RBT_COLOR_BLACK rs) (not_color c) (ls + rs + 1))"
  using assms by (simp add: fix_left_def)

lemma fix_left_rotate:
  "fix_left (Node p k v (Node lp lk lv (Node ap ak av al ar RBT_COLOR_RED as) lr RBT_COLOR_RED ls) r RBT_COLOR_BLACK s) =
    Some (Node lp lk lv (Node ap ak av al ar RBT_COLOR_BLACK as)
       (Node p k v lr r RBT_COLOR_BLACK (size_of lr + size_of r + 1)) RBT_COLOR_RED (as + (size_of lr + size_of r + 1) + 1))"
  by (simp add: fix_left_def)

lemma put_fixup_red:
  assumes "ok n l" "ok n r" "\<not> (isRed l \<and> isRed r)"
  shows "\<exists>t. put_fixup (Node p k v l r RBT_COLOR_RED s) = Some t \<and> semi n t"
proof (cases "isRed r")
  case True
  with assms have "\<not> isRed l" by simp
  moreover from True assms(2) obtain rp rk rv rl rr rs where "r = Node rp rk rv rl rr RBT_COLOR_RED rs"
    "\<not> isRed rl" "\<not> isRed rr" "ok n rl" "ok n rr" by (auto simp: ok_red_iff)
  ultimately show ?thesis using assms(1) by (simp add: put_fixup_def fix_left_id)
next
  case False
  have "\<forall>ll. left_of l = Some ll \<longrightarrow> \<not> isRed ll" if "isRed l" using assms(1) that by (auto simp: ok_red_iff)
  with False assms show ?thesis by (simp add: put_fixup_def fix_left_id)
qed

text \<open>Below a black node at most one of the two subtrees was red, and at most that one is semi.\<close>

lemma put_fixup_black:
  assumes "ok n l \<and> ok n r \<or> semi n l \<and> ok n r \<and> \<not> isRed r"
  shows "\<exists>t. put_fixup (Node p k v l r RBT_COLOR_BLACK s) = Some t \<and> ok (Suc n) t"
  using assms
proof
  assume a: "ok n l \<and> ok n r"
  show ?thesis
  proof (cases "isRed r")
    case True
    with a obtain rp rk rv rl rr rs where r: "r = Node rp rk rv rl rr RBT_COLOR_RED rs"
      "\<not> isRed rl" "\<not> isRed rr" "ok n rl" "ok n rr" by (auto simp: ok_red_iff)
    show ?thesis
    proof (cases "isRed l")
      case True
      with a obtain lp lk lv ll lr ls where "l = Node lp lk lv ll lr RBT_COLOR_RED ls"
        "\<not> isRed ll" "\<not> isRed lr" "ok n ll" "ok n lr" by (auto simp: ok_red_iff)
      with r show ?thesis by (simp add: put_fixup_def fix_left_flip)
    next
      case False
      have "put_fixup (Node p k v l r RBT_COLOR_BLACK s)
          = fix_left (Node rp rk rv (Node p k v l rl RBT_COLOR_RED (size_of l + size_of rl + 1)) rr RBT_COLOR_BLACK s)"
        using False r by (simp add: put_fixup_def)
      also have "\<dots> = Some (Node rp rk rv (Node p k v l rl RBT_COLOR_RED (size_of l + size_of rl + 1)) rr RBT_COLOR_BLACK
          (size_of l + size_of rl + 1 + size_of rr + 1))" using False r by (simp add: fix_left_id)
      finally show ?thesis using a r False by simp
    qed
  next
    case False
    have "\<forall>ll. left_of l = Some ll \<longrightarrow> \<not> isRed ll" if "isRed l" using a that by (auto simp: ok_red_iff)
    with False a show ?thesis by (simp add: put_fixup_def fix_left_id)
  qed
next
  assume a: "semi n l \<and> ok n r \<and> \<not> isRed r"
  then obtain lp lk lv ll lr ls where l: "l = Node lp lk lv ll lr RBT_COLOR_RED ls" "\<not> isRed lr" "ok n ll" "ok n lr"
    by (cases l) auto
  show ?thesis
  proof (cases "isRed ll")
    case True
    with l obtain ap ak av al ar as where "ll = Node ap ak av al ar RBT_COLOR_RED as"
      "\<not> isRed al" "\<not> isRed ar" "ok n al" "ok n ar" by (auto simp: ok_red_iff)
    with l a show ?thesis by (simp add: put_fixup_def fix_left_rotate)
  next
    case False
    with l a show ?thesis by (simp add: put_fixup_def fix_left_id)
  qed
qed

lemma rb_put_ok:
  "ok n h \<Longrightarrow> (rb_put TM nsz key v h a = None \<and> fst (tm_malloc TM nsz a) = nullptr \<and> \<not> rb_get key h)
     \<or> (\<exists>ret t a'. rb_put TM nsz key v h a = Some (ret, t, a') \<and> (if isRed h then semi n t else ok n t))"
proof (induction h arbitrary: n)
  case Null
  then show ?case by (auto simp: Let_def split: prod.splits)
next
  case (Node p k w l r c s)
  show ?case
  proof (cases "c = RBT_COLOR_RED")
    case True
    with Node.prems have o: "\<not> isRed l" "\<not> isRed r" "ok n l" "ok n r" by auto
    have fx: "\<exists>t. put_fixup (Node p k w' l' r' c s) = Some t \<and> semi n t"
      if "ok n l'" "ok n r'" "\<not> isRed l' \<or> \<not> isRed r'" for w' l' r'
      using put_fixup_red [OF that(1,2)] that(3) True by auto
    consider "key < k" | "\<not> key < k" "k < key" | "key = k" by fastforce
    then show ?thesis
    proof cases
      case 1
      from Node.IH(1) [OF o(3)] show ?thesis
      proof (elim disjE exE conjE)
        fix ret t a' assume t: "rb_put TM nsz key v l a = Some (ret, t, a')" "if isRed l then semi n t else ok n t"
        with o fx [of t r w] obtain t' where "put_fixup (Node p k w t r c s) = Some t'" "semi n t'" by auto
        with 1 t(1) True show ?thesis by simp
      qed (use 1 in auto)
    next
      case 2
      from Node.IH(2) [OF o(4)] show ?thesis
      proof (elim disjE exE conjE)
        fix ret t a' assume t: "rb_put TM nsz key v r a = Some (ret, t, a')" "if isRed r then semi n t else ok n t"
        with o fx [of l t w] obtain t' where "put_fixup (Node p k w l t c s) = Some t'" "semi n t'" by auto
        with 2 t(1) True show ?thesis by simp
      qed (use 2 in auto)
    next
      case 3 with o fx [of l r v] show ?thesis by (auto simp: True)
    qed
  next
    case False
    with Node.prems obtain m where o: "c = RBT_COLOR_BLACK" "n = Suc m" "\<not> isRed r" "ok m l" "ok m r"
      by (auto split: nat.splits)
    have fx: "\<exists>t. put_fixup (Node p k w' l' r' c s) = Some t \<and> ok n t"
      if "ok m l' \<and> ok m r' \<or> semi m l' \<and> ok m r' \<and> \<not> isRed r'" for w' l' r'
      using put_fixup_black [OF that] o by auto
    consider "key < k" | "\<not> key < k" "k < key" | "key = k" by fastforce
    then show ?thesis
    proof cases
      case 1
      from Node.IH(1) [OF o(4)] show ?thesis
      proof (elim disjE exE conjE)
        fix ret t a' assume t: "rb_put TM nsz key v l a = Some (ret, t, a')" "if isRed l then semi m t else ok m t"
        with o fx [of t r w] obtain t' where "put_fixup (Node p k w t r c s) = Some t'" "ok n t'"
          by (auto split: if_splits)
        with 1 t(1) False show ?thesis by simp
      qed (use 1 in auto)
    next
      case 2
      from Node.IH(2) [OF o(5)] show ?thesis
      proof (elim disjE exE conjE)
        fix ret t a' assume t: "rb_put TM nsz key v r a = Some (ret, t, a')" "if isRed r then semi m t else ok m t"
        with o fx [of l t w] obtain t' where "put_fixup (Node p k w l t c s) = Some t'" "ok n t'" by auto
        with 2 t(1) False show ?thesis by simp
      qed (use 2 in auto)
    next
      case 3 with o fx [of l r v] False show ?thesis by auto
    qed
  qed
qed

lemma rb_put_sized: "rb_put TM nsz key v h a = Some (ret, t, a') \<Longrightarrow> sized h \<Longrightarrow> sized t"
proof (induction h arbitrary: ret t a')
  case Null then show ?case by (auto simp: Let_def split: prod.splits if_splits)
next
  case (Node p k w l r c s)
  then show ?case by (fastforce simp: ret_simps split: if_splits intro: put_fixup_sized)
qed

subsection \<open>Contents: insertion\<close>

definition keys :: "(ptr \<times> 'k \<times> 'v) list \<Rightarrow> 'k list" where "keys xs = map (\<lambda>(p, k, v). k) xs"
definition addrs :: "(ptr \<times> 'k \<times> 'v) list \<Rightarrow> ptr list" where "addrs xs = map fst xs"

lemma keys_simps [simp]:
  "keys [] = []" "keys ((p, k, v) # xs) = k # keys xs" "keys (xs @ ys) = keys xs @ keys ys" "length (keys xs) = length xs"
  by (simp_all add: keys_def)

lemma addrs_simps [simp]:
  "addrs [] = []" "addrs (x # xs) = fst x # addrs xs" "addrs (xs @ ys) = addrs xs @ addrs ys"
  by (simp_all add: addrs_def)

abbreviation sorted_keys :: "(ptr \<times> 'k::linorder \<times> 'v) list \<Rightarrow> bool" where
  "sorted_keys xs \<equiv> sorted_wrt (<) (keys xs)"

fun put_nods :: "ptr \<Rightarrow> 'k::linorder \<Rightarrow> 'v \<Rightarrow> (ptr \<times> 'k \<times> 'v) list \<Rightarrow> (ptr \<times> 'k \<times> 'v) list" where
  "put_nods p key v [] = [(p, key, v)]"
| "put_nods p key v ((q, k, w) # xs) =
     (if key < k then (p, key, v) # (q, k, w) # xs
      else if k < key then (q, k, w) # put_nods p key v xs else (q, key, v) # xs)"

lemma put_nods_left: "sorted_keys (xs @ (q, k, w) # ys) \<Longrightarrow> key < k \<Longrightarrow>
   put_nods p key v (xs @ (q, k, w) # ys) = put_nods p key v xs @ (q, k, w) # ys"
  by (induction p key v xs rule: put_nods.induct) (auto simp: sorted_wrt_append)

lemma put_nods_right: "sorted_keys (xs @ (q, k, w) # ys) \<Longrightarrow> \<not> key < k \<Longrightarrow>
   put_nods p key v (xs @ (q, k, w) # ys) = xs @ put_nods p key v ((q, k, w) # ys)"
  by (induction p key v xs rule: put_nods.induct) (auto simp: sorted_wrt_append)

lemma put_nods_keys: "set (keys (put_nods p key v xs)) = insert key (set (keys xs))"
  by (induction p key v xs rule: put_nods.induct) auto

lemma put_nods_sorted: "sorted_keys xs \<Longrightarrow> sorted_keys (put_nods p key v xs)"
  by (induction p key v xs rule: put_nods.induct) (auto simp: put_nods_keys)

lemma put_nods_addrs_hit:
  "sorted_keys xs \<Longrightarrow> key \<in> set (keys xs) \<Longrightarrow> addrs (put_nods p key v xs) = addrs xs"
  by (induction p key v xs rule: put_nods.induct) auto

lemma put_nods_addrs_new:
  "key \<notin> set (keys xs) \<Longrightarrow> mset (addrs (put_nods p key v xs)) = add_mset p (mset (addrs xs))"
  by (induction p key v xs rule: put_nods.induct) auto

lemma put_nods_map: "map_of (map snd (put_nods p key v xs)) = (map_of (map snd xs))(key \<mapsto> v)"
  by (induction p key v xs rule: put_nods.induct) (auto simp: fun_eq_iff)

lemma put_nods_hit: "key \<in> set (keys xs) \<Longrightarrow> sorted_keys xs \<Longrightarrow> put_nods p key v xs = put_nods q key v xs"
  by (induction p key v xs rule: put_nods.induct) auto

lemma rb_get_keys: "sorted_keys (nods t) \<Longrightarrow> rb_get key t \<longleftrightarrow> key \<in> set (keys (nods t))"
proof (induction t)
  case (Node p k v l r c s)
  then have "\<forall>x\<in>set (keys (nods l)). x < k" "\<forall>x\<in>set (keys (nods r)). k < x" by (auto simp: sorted_wrt_append)
  with Node show ?case by (auto simp: sorted_wrt_append)
qed simp

lemma rb_find_map: "sorted_keys (nods t) \<Longrightarrow> rb_find key t = map_of (map snd (nods t)) key"
proof (induction t)
  case (Node p k v l r c s)
  have "map_of (map snd (nods l)) key = None" if "\<not> key < k"
    using Node.prems that by (auto simp: map_of_eq_None_iff sorted_wrt_append keys_def image_iff)
  moreover have "map_of (map snd (nods r)) key = None" if "\<not> k < key"
    using Node.prems that by (auto simp: map_of_eq_None_iff sorted_wrt_append keys_def image_iff)
  ultimately show ?case using Node by (auto simp: sorted_wrt_append map_add_def split: option.splits)
qed simp

lemma rb_put_nods:
  "rb_put TM nsz key v h a = Some (ret, t, a') \<Longrightarrow> sorted_keys (nods h) \<Longrightarrow>
     \<exists>p. nods t = put_nods p key v (nods h) \<and> ret = (key \<notin> set (keys (nods h)))
       \<and> (if ret then tm_malloc TM nsz a = (p, a') \<and> p \<noteq> nullptr else a' = a)"
proof (induction h arbitrary: ret t a')
  case Null then show ?case by (auto simp: Let_def split: prod.splits if_splits)
next
  case (Node q k w l r c s)
  have sl: "sorted_keys (nods l)" "sorted_keys (nods r)" "\<forall>x\<in>set (keys (nods l)). x < k" "\<forall>x\<in>set (keys (nods r)). k < x"
    using Node.prems(2) by (auto simp: sorted_wrt_append)
  have srt: "sorted_keys (nods l @ (q, k, w) # nods r)" using Node.prems(2) by simp
  consider "key < k" | "\<not> key < k" "k < key" | "key = k" by fastforce
  then show ?case
  proof cases
    case 1
    with Node.prems(1) obtain l' where "rb_put TM nsz key v l a = Some (ret, l', a')" "put_fixup (Node q k w l' r c s) = Some t"
      by (auto simp: ret_simps)
    with Node.IH(1) [OF this(1) sl(1)] put_fixup_nods [OF this(2)] put_nods_left [OF srt 1] sl 1 show ?thesis by fastforce
  next
    case 2
    with Node.prems(1) obtain r' where "rb_put TM nsz key v r a = Some (ret, r', a')" "put_fixup (Node q k w l r' c s) = Some t"
      by (auto simp: ret_simps)
    with Node.IH(2) [OF this(1) sl(2)] put_fixup_nods [OF this(2)] put_nods_right [OF srt, of key] sl 2 show ?thesis by fastforce
  next
    case 3
    with Node.prems(1) put_nods_right [OF srt, of key] show ?thesis by (auto simp: ret_simps dest!: put_fixup_nods)
  qed
qed

subsection \<open>Colors: deletion\<close>

lemma balance_black:
  assumes "ok n l" "ok n r"
  shows "\<exists>t. balance (Node p k v l r RBT_COLOR_BLACK s) = Some t \<and> ok (Suc n) t \<and> (\<not> (isRed l \<and> isRed r) \<longrightarrow> \<not> isRed t)"
proof (cases "isRed r")
  case True
  with assms obtain rp rk rv rl rr rs where r: "r = Node rp rk rv rl rr RBT_COLOR_RED rs"
    "\<not> isRed rl" "\<not> isRed rr" "ok n rl" "ok n rr" by (auto simp: ok_red_iff)
  show ?thesis
  proof (cases "isRed l")
    case True
    with assms obtain lp lk lv ll lr ls where "l = Node lp lk lv ll lr RBT_COLOR_RED ls"
      "\<not> isRed ll" "\<not> isRed lr" "ok n ll" "ok n lr" by (auto simp: ok_red_iff)
    with r show ?thesis by (simp add: balance_def fix_left_rotate)
  next
    case False
    have "balance (Node p k v l r RBT_COLOR_BLACK s)
        = fix_left (Node rp rk rv (Node p k v l rl RBT_COLOR_RED (size_of l + size_of rl + 1)) rr RBT_COLOR_BLACK s)"
      using r by (simp add: balance_def)
    also have "\<dots> = Some (Node rp rk rv (Node p k v l rl RBT_COLOR_RED (size_of l + size_of rl + 1)) rr RBT_COLOR_BLACK
          (size_of l + size_of rl + 1 + size_of rr + 1))" using False r by (simp add: fix_left_id)
    finally show ?thesis using assms r False by simp
  qed
next
  case False
  have "\<forall>ll. left_of l = Some ll \<longrightarrow> \<not> isRed ll" if "isRed l" using assms(1) that by (auto simp: ok_red_iff)
  with False assms show ?thesis by (simp add: balance_def fix_left_id)
qed

lemma balance_red:
  assumes "ok n l" "ok n r" "\<not> isRed l" "\<not> isRed r"
  shows "\<exists>t. balance (Node p k v l r RBT_COLOR_RED s) = Some t \<and> ok n t"
  using assms by (simp add: balance_def fix_left_id)

text \<open>
  A deletion descends into a subtree that is red or has a red left child, or, to the right,
  into a black node with a red right child whose key the sought key is not below.
\<close>

definition dnorm :: "nat \<Rightarrow> ('k, 'v) rbnode \<Rightarrow> bool" where
  "dnorm n h \<longleftrightarrow> ok n h \<and> (isRed h \<or> (\<exists>l. left_of h = Some l \<and> isRed l))"

definition dspec :: "nat \<Rightarrow> 'k \<Rightarrow> ('k, 'v) rbnode \<Rightarrow> bool" where
  "dspec n k0 h \<longleftrightarrow> (\<exists>p v l r s m. h = Node p k0 v l r RBT_COLOR_BLACK s \<and> n = Suc m \<and> ok m l \<and> ok m r \<and> \<not> isRed l \<and> isRed r)"

lemma dnorm_red: "ok n h \<Longrightarrow> isRed h \<Longrightarrow> dnorm n h"
  by (simp add: dnorm_def)

lemma dnorm_not_null: "dnorm n h \<Longrightarrow> h \<noteq> Null"
  by (auto simp: dnorm_def)

lemma ok_zero_black: "ok 0 t \<Longrightarrow> \<not> isRed t \<Longrightarrow> t = Null"
  by (cases t) auto

lemma dnorm_cases:
  assumes "dnorm n h"
  obtains (red) p k v l r s where "h = Node p k v l r RBT_COLOR_RED s" "\<not> isRed l" "\<not> isRed r" "ok n l" "ok n r"
  | (black) p k v l r s m where "h = Node p k v l r RBT_COLOR_BLACK s" "n = Suc m" "isRed l" "\<not> isRed r" "ok m l" "ok m r"
proof (cases "isRed h")
  case True with assms red show ?thesis by (auto simp: dnorm_def ok_red_iff)
next
  case False
  with assms obtain l where l: "left_of h = Some l" "isRed l" "ok n h" by (auto simp: dnorm_def)
  then obtain m where "n = Suc m" using False by (cases h) (auto split: nat.splits)
  with l False black show ?thesis by (auto simp: ok_black_iff)
qed

text \<open>The two shapes a node has before the descent: D black with a red child, or red.\<close>

lemma prepare_left_shape:
  assumes "dnorm n h" "left_of h \<noteq> Some Null" "key_of h = Some k"
  obtains p' k' v' l' r' c' s' m where "prepare_left h = Some (Node p' k' v' l' r' c' s')" "dnorm m l'"
    "k' = k \<or> k \<in> set (keys (nods l'))"
    "c' = RBT_COLOR_BLACK \<and> n = Suc m \<and> ok m r' \<and> (isRed h \<or> \<not> isRed r')
      \<or> c' = RBT_COLOR_RED \<and> isRed h \<and> n = m \<and> \<not> isRed l' \<and> \<not> isRed r' \<and> ok m r'"
  using assms(1)
proof (cases rule: dnorm_cases)
  case (black p k v l r s m)
  then have "prepare_left h = Some h" by (simp add: prepare_left_def)
  with black assms(3) that [of p k v l r RBT_COLOR_BLACK s m] show ?thesis by (simp add: dnorm_def)
next
  case (red p k1 v l r s)
  with assms(3) have k: "k1 = k" by simp
  from red assms(2) have "l \<noteq> Null" by auto
  with red obtain m where n: "n = Suc m" by (cases n) (auto dest: ok_zero_black)
  from red n obtain lp lk lv ll lr ls where l: "l = Node lp lk lv ll lr RBT_COLOR_BLACK ls" "\<not> isRed lr" "ok m ll" "ok m lr"
    by (auto simp: ok_black_iff)
  from red n obtain rp rk rv rl rr rs where r: "r = Node rp rk rv rl rr RBT_COLOR_BLACK rs" "\<not> isRed rr" "ok m rl" "ok m rr"
    by (auto simp: ok_black_iff)
  show ?thesis
  proof (cases "isRed ll")
    case True
    with red l have "prepare_left h = Some h" by (simp add: prepare_left_def)
    with red that [of p k1 v l r RBT_COLOR_RED s n] k True l show ?thesis by (simp add: dnorm_def)
  next
    case False
    with red l have mv: "prepare_left h = moveRedLeft h" by (simp add: prepare_left_def)
    show ?thesis
    proof (cases "isRed rl")
      case rl: True
      then obtain xp xk xv xl xr xs where x: "rl = Node xp xk xv xl xr RBT_COLOR_RED xs"
        "\<not> isRed xl" "\<not> isRed xr" "ok m xl" "ok m xr" using r by (auto simp: ok_red_iff)
      let ?l' = "Node p k1 v (Node lp lk lv ll lr RBT_COLOR_RED ls) xl RBT_COLOR_BLACK (ls + size_of xl + 1)"
      have "moveRedLeft h = Some (Node xp xk xv ?l'
          (Node rp rk rv xr rr RBT_COLOR_BLACK (size_of xr + size_of rr + 1)) RBT_COLOR_RED s)"
        using red l r x by (simp add: moveRedLeft_def)
      with that [OF mv [THEN trans], where m = n] k n l r x red(1) False show ?thesis by (auto simp: dnorm_def)
    next
      case rl: False
      have "moveRedLeft h = Some (Node p k1 v (Node lp lk lv ll lr RBT_COLOR_RED ls) (Node rp rk rv rl rr RBT_COLOR_RED rs) RBT_COLOR_BLACK s)"
        using red l r rl by (simp add: moveRedLeft_def)
      with that [OF mv [THEN trans], where m = m] k n l r rl red(1) False show ?thesis by (auto simp: dnorm_def)
    qed
  qed
qed

text \<open>lean_right brings a node into one of two shapes, and prepare_right goes on from them.\<close>

lemma lean_right_shape:
  assumes "dnorm n h \<or> dspec n k0 h \<and> k0 \<le> key" "key_of h = Some k" "\<not> key < (k :: 'k::linorder)" "sorted_keys (nods h)"
  obtains (red) p k v l r s where "lean_right h = Some (Node p k v l r RBT_COLOR_RED s)" "isRed h"
      "\<not> isRed l" "\<not> isRed r" "ok n l" "ok n r" "k \<le> key"
  | (black) p k v l r s m where "lean_right h = Some (Node p k v l r RBT_COLOR_BLACK s)"
      "n = Suc m" "\<not> isRed l" "isRed r" "ok m l" "ok m r" "k \<le> key"
  using assms(1)
proof
  assume "dspec n k0 h \<and> k0 \<le> key"
  with black show ?thesis by (auto simp: dspec_def lean_right_def)
next
  assume "dnorm n h"
  then show ?thesis
  proof (cases rule: dnorm_cases)
    case (red p k1 v l r s)
    with assms(2,3) that(1) show ?thesis by (auto simp: lean_right_def)
  next
    case (black p k1 v l r s m)
    then obtain lp lk lv ll lr ls where l: "l = Node lp lk lv ll lr RBT_COLOR_RED ls" "\<not> isRed ll" "\<not> isRed lr" "ok m ll" "ok m lr"
      by (auto simp: ok_red_iff)
    with black have "lean_right h = Some (Node lp lk lv ll (Node p k1 v lr r RBT_COLOR_RED (size_of lr + size_of r + 1)) RBT_COLOR_BLACK s)"
      by (simp add: lean_right_def)
    moreover have "lk \<le> key" using assms(2-4) black l by (auto simp: sorted_wrt_append)
    ultimately show ?thesis using that(2) black l by simp
  qed
qed

text \<open>
  For a red node with a right child; the third possibility descends into a black node with a
  red right child, which is the old node.
\<close>

lemma prepare_right_red:
  assumes "h = Node p k v l r RBT_COLOR_RED s" "\<not> isRed l" "\<not> isRed r" "ok n l" "ok n r" "r \<noteq> Null" "sorted_keys (nods h)"
  obtains (flipped) l' r' m where "prepare_right h = Some (Node p k v l' r' RBT_COLOR_BLACK s)"
      "n = Suc m" "ok m l'" "ok m r'" "isRed r'"
  | (same) "prepare_right h = Some h" "dnorm n r"
  | (rotated) p' k' v' l' r' where "prepare_right h = Some (Node p' k' v' l' r' RBT_COLOR_RED s)"
      "\<not> isRed l'" "\<not> isRed r'" "ok n l'" "dspec n k r'" "k' < (k :: 'k::linorder)"
proof -
  from assms obtain m where n: "n = Suc m" by (cases n) (auto dest: ok_zero_black)
  from assms n obtain lp lk lv ll lr ls where l: "l = Node lp lk lv ll lr RBT_COLOR_BLACK ls" "\<not> isRed lr" "ok m ll" "ok m lr"
    by (auto simp: ok_black_iff)
  from assms n obtain rp rk rv rl rr rs where r: "r = Node rp rk rv rl rr RBT_COLOR_BLACK rs" "\<not> isRed rr" "ok m rl" "ok m rr"
    by (auto simp: ok_black_iff)
  show ?thesis
  proof (cases "isRed rl")
    case True
    with assms r same show ?thesis by (simp add: prepare_right_def dnorm_def)
  next
    case rl: False
    with assms r have mv: "prepare_right h = moveRedRight h" by (simp add: prepare_right_def)
    show ?thesis
    proof (cases "isRed ll")
      case True
      then obtain xp xk xv xl xr xs where x: "ll = Node xp xk xv xl xr RBT_COLOR_RED xs"
        "\<not> isRed xl" "\<not> isRed xr" "ok m xl" "ok m xr" using l by (auto simp: ok_red_iff)
      have "moveRedRight h = Some (Node lp lk lv (Node xp xk xv xl xr RBT_COLOR_BLACK xs)
          (Node p k v lr (Node rp rk rv rl rr RBT_COLOR_RED rs) RBT_COLOR_BLACK (size_of lr + rs + 1)) RBT_COLOR_RED s)"
        using assms l r x by (simp add: moveRedRight_def)
      moreover have "lk < k" using assms(1,7) l by (auto simp: sorted_wrt_append)
      ultimately show ?thesis using rotated mv n l r x rl by (auto simp: dspec_def)
    next
      case False
      have "moveRedRight h = Some (Node p k v (Node lp lk lv ll lr RBT_COLOR_RED ls) (Node rp rk rv rl rr RBT_COLOR_RED rs) RBT_COLOR_BLACK s)"
        using assms l r False by (simp add: moveRedRight_def)
      with flipped mv n l r rl False show ?thesis by simp
    qed
  qed
qed

subsection \<open>Deletion is correct\<close>

text \<open>What a deletion leaves to its caller: the node freed is q, unless the subtree became empty.\<close>

definition freed :: "'a tm \<Rightarrow> ('k, 'v) rbnode \<Rightarrow> ptr \<Rightarrow> 'a \<Rightarrow> 'a" where
  "freed TM t q a = (if t = Null then a else tm_free TM q a)"

lemma nods_Null [simp]: "nods t = [] \<longleftrightarrow> t = Null"
  by (cases t) auto

lemma assign_freed:
  assumes "a1 = freed TM w q a" "w = Null \<Longrightarrow> addrs (nods l) = [q]"
  shows "assignAndFreeIfNull TM l w a1 = tm_free TM q a"
proof (cases "w = Null")
  case True
  with assms(2) have "addrs (nods l) = [q]" by simp
  then have "free_node TM l a = tm_free TM q a" by (cases l) (auto simp: append_eq_Cons_conv addrs_def)
  with True assms(1) show ?thesis by (simp add: assignAndFreeIfNull_def freed_def)
qed (use assms(1) in \<open>simp add: assignAndFreeIfNull_def freed_def\<close>)

lemma nods_nonempty: "nods t \<noteq> [] \<Longrightarrow> freed TM t q a = tm_free TM q a"
  by (auto simp: freed_def)

lemma balance_shape:
  assumes "c' = RBT_COLOR_BLACK \<and> n = Suc m \<and> ok m l \<and> ok m r \<and> (isRed h \<or> \<not> (isRed l \<and> isRed r))
      \<or> c' = RBT_COLOR_RED \<and> n = m \<and> \<not> isRed l \<and> \<not> isRed r \<and> ok m l \<and> ok m r"
    "\<not> isRed h \<Longrightarrow> c' = RBT_COLOR_BLACK"
  shows "\<exists>t. balance (Node p k v l r c' s) = Some t \<and> ok n t \<and> (\<not> isRed h \<longrightarrow> \<not> isRed t)"
  using assms balance_black [of m l r p k v s] balance_red [of m l r p k v s] by auto

lemma rb_deleteMin_ok:
  "dnorm n h \<Longrightarrow> \<exists>t a' x. rb_deleteMin TM h a = Some (t, a') \<and> ok n t \<and> (\<not> isRed h \<longrightarrow> \<not> isRed t)
     \<and> nods h = x # nods t \<and> a' = freed TM t (fst x) a \<and> (kids_sized h \<longrightarrow> sized t)"
proof (induction "length (nods h)" arbitrary: h n rule: less_induct)
  case less
  obtain k where k: "key_of h = Some k" using dnorm_not_null [OF less.prems] by (cases h) auto
  show ?case
  proof (cases "left_of h = Some Null")
    case True
    from less.prems show ?thesis
    proof (cases rule: dnorm_cases)
      case (red p k v l r s)
      with True have "n = 0" "l = Null" by auto
      with red have "r = Null" by (auto dest: ok_zero_black)
      with red \<open>l = Null\<close> have "rb_deleteMin TM h a = Some (Null, a)" by (subst rb_deleteMin.simps) simp
      with red \<open>n = 0\<close> \<open>l = Null\<close> \<open>r = Null\<close> show ?thesis by (simp add: freed_def)
    qed (use True in auto)
  next
    case False
    from prepare_left_shape [OF less.prems False k] obtain p' k' v' l' r' c' s' m where
      pl: "prepare_left h = Some (Node p' k' v' l' r' c' s')" and dl: "dnorm m l'"
      and sh: "c' = RBT_COLOR_BLACK \<and> n = Suc m \<and> ok m r' \<and> (isRed h \<or> \<not> isRed r')
        \<or> c' = RBT_COLOR_RED \<and> isRed h \<and> n = m \<and> \<not> isRed l' \<and> \<not> isRed r' \<and> ok m r'" by metis
    have nods: "nods h = nods l' @ (p', k', v') # nods r'" using prepare_nods(1) [OF pl] by simp
    then have "length (nods l') < length (nods h)" by simp
    from less.hyps [OF this dl] obtain w a1 x where w: "rb_deleteMin TM l' a = Some (w, a1)" "ok m w" "\<not> isRed l' \<longrightarrow> \<not> isRed w"
      "nods l' = x # nods w" "a1 = freed TM w (fst x) a" "kids_sized l' \<longrightarrow> sized w" by blast
    have "\<exists>t. balance (Node p' k' v' w r' c' s') = Some t \<and> ok n t \<and> (\<not> isRed h \<longrightarrow> \<not> isRed t)"
      by (rule balance_shape [where m = m]) (use sh w(2,3) in auto)
    then obtain t where t: "balance (Node p' k' v' w r' c' s') = Some t" "ok n t" "\<not> isRed h \<longrightarrow> \<not> isRed t" by blast
    obtain l0 where l0: "left_of h = Some l0" "l0 \<noteq> Null" using False k by (cases h) auto
    have nt: "nods t = nods w @ (p', k', v') # nods r'" using balance_nods [OF t(1)] by simp
    have "assignAndFreeIfNull TM l' w a1 = tm_free TM (fst x) a"
      by (rule assign_freed [OF w(5)]) (simp add: w(4))
    then have "assignAndFreeIfNull TM l' w a1 = freed TM t (fst x) a" using nt by (simp add: nods_nonempty)
    moreover have "kids_sized h \<longrightarrow> sized t"
      using prepare_sized(1) [OF pl] w(6) balance_sized [OF t(1)] by (auto intro: sized_kids)
    ultimately show ?thesis using t l0 pl w(1,4) nods nt by (simp add: rb_deleteMin.simps [of TM h])
  qed
qed

lemma rb_min_nods: "nods t = x # xs \<Longrightarrow> rb_min t = Some x"
proof (induction t arbitrary: xs)
  case (Node p k v l r c s)
  show ?case
  proof (cases "nods l")
    case Nil with Node.prems show ?thesis by (cases x) simp
  next
    case (Cons y ys) with Node show ?thesis by auto
  qed
qed simp

definition ents :: "(ptr \<times> 'k \<times> 'v) list \<Rightarrow> ('k \<times> 'v) list" where "ents xs = map snd xs"

lemma ents_simps [simp]: "ents [] = []" "ents (x # xs) = snd x # ents xs" "ents (xs @ ys) = ents xs @ ents ys"
  by (simp_all add: ents_def)

definition without :: "'k \<Rightarrow> ('k \<times> 'v) list \<Rightarrow> ('k \<times> 'v) list" where
  "without key xs = filter (\<lambda>e. fst e \<noteq> key) xs"

lemma without_simps [simp]:
  "without key [] = []" "without key (xs @ ys) = without key xs @ without key ys"
  "without key ((k, v) # xs) = (if k = key then without key xs else (k, v) # without key xs)"
  by (simp_all add: without_def)

lemma without_absent: "key \<notin> set (keys xs) \<Longrightarrow> without key (ents xs) = ents xs"
  by (induction xs) (auto simp: keys_def)

text \<open>The effect of deleting key from the nodes xs: ys are left, and q was freed.\<close>

definition deletes :: "'k \<Rightarrow> ptr \<Rightarrow> (ptr \<times> 'k \<times> 'v) list \<Rightarrow> (ptr \<times> 'k \<times> 'v) list \<Rightarrow> bool" where
  "deletes key q xs ys \<longleftrightarrow> ents ys = without key (ents xs) \<and> mset (addrs xs) = add_mset q (mset (addrs ys))"

lemma deletes_left:
  "deletes key q xs ys \<Longrightarrow> sorted_keys (xs @ (p, k, v) # zs) \<Longrightarrow> key < k \<Longrightarrow>
     deletes key q (xs @ (p, k, v) # zs) (ys @ (p, k, v) # zs)"
proof -
  assume a: "deletes key q xs ys" "sorted_keys (xs @ (p, k, v) # zs)" "key < k"
  then have "key \<notin> set (keys zs)" by (auto simp: sorted_wrt_append)
  with a show ?thesis using without_absent [of key zs] by (simp add: deletes_def)
qed

lemma deletes_right:
  "deletes key q xs ys \<Longrightarrow> sorted_keys (zs @ (p, k, v) # xs) \<Longrightarrow> k < key \<Longrightarrow>
     deletes key q (zs @ (p, k, v) # xs) (zs @ (p, k, v) # ys)"
proof -
  assume a: "deletes key q xs ys" "sorted_keys (zs @ (p, k, v) # xs)" "k < key"
  then have "key \<notin> set (keys zs)" by (auto simp: sorted_wrt_append)
  with a show ?thesis using without_absent [of key zs] by (simp add: deletes_def)
qed

lemma deletes_successor:
  assumes "sorted_keys (zs @ (p, key, v) # x # ys)"
  shows "deletes key (fst x) (zs @ (p, key, v) # x # ys) (zs @ (p, snd x) # ys)"
proof -
  have "key \<notin> set (keys zs)" "key \<notin> set (keys (x # ys))"
    using assms by (cases x; auto simp: sorted_wrt_append)+
  from without_absent [OF this(1)] without_absent [OF this(2)] show ?thesis
    by (cases x) (auto simp: deletes_def)
qed

lemma deletes_last: "deletes key p [(p, key, v)] []"
  by (simp add: deletes_def)

lemma deletes_all: "deletes key q xs [] \<Longrightarrow> addrs xs = [q]"
  by (auto simp: deletes_def)

lemma sorted_in_left:
  "sorted_keys (nods l @ (p, k, v) # nods r) \<Longrightarrow> key < k \<Longrightarrow> key \<in> set (keys (nods l @ (p, k, v) # nods r)) \<Longrightarrow> key \<in> set (keys (nods l))"
  by (auto simp: sorted_wrt_append)

lemma sorted_in_right:
  "sorted_keys (nods l @ (p, k, v) # nods r) \<Longrightarrow> k < key \<Longrightarrow> key \<in> set (keys (nods l @ (p, k, v) # nods r)) \<Longrightarrow> key \<in> set (keys (nods r))"
  by (auto simp: sorted_wrt_append)

lemma rb_deleteKey_ok:
  assumes "dnorm n h \<or> dspec n k0 h \<and> k0 \<le> key" "sorted_keys (nods h)" "key \<in> set (keys (nods h))"
  shows "\<exists>t a' q. rb_deleteKey TM key h a = Some (t, a') \<and> ok n t \<and> (\<not> isRed h \<longrightarrow> \<not> isRed t)
     \<and> deletes key q (nods h) (nods t) \<and> a' = freed TM t q a \<and> (kids_sized h \<longrightarrow> sized t)"
  using assms
proof (induction "length (nods h)" arbitrary: h n k0 rule: less_induct)
  case less
  note d = less.prems(1) and srt = less.prems(2) and mem = less.prems(3)
  obtain k where k: "key_of h = Some k" using mem by (cases h) auto
  show ?case
  proof (cases "key < k")
    case True
    then have dn: "dnorm n h" using d k by (auto simp: dspec_def)
    have "left_of h \<noteq> Some Null"
    proof
      assume "left_of h = Some Null"
      then obtain p v r c s where "h = Node p k v Null r c s" using k by (cases h) auto
      with sorted_in_left [of Null p k v r key] mem srt True show False by simp
    qed
    from prepare_left_shape [OF dn this k] obtain p' k' v' l' r' c' s' m where
      pl: "prepare_left h = Some (Node p' k' v' l' r' c' s')" and dl: "dnorm m l'"
      and kk: "k' = k \<or> k \<in> set (keys (nods l'))"
      and sh: "c' = RBT_COLOR_BLACK \<and> n = Suc m \<and> ok m r' \<and> (isRed h \<or> \<not> isRed r')
        \<or> c' = RBT_COLOR_RED \<and> isRed h \<and> n = m \<and> \<not> isRed l' \<and> \<not> isRed r' \<and> ok m r'" by metis
    have nods: "nods h = nods l' @ (p', k', v') # nods r'" using prepare_nods(1) [OF pl] by simp
    have lt: "key < k'" using kk True srt unfolding nods by (auto simp: sorted_wrt_append)
    have srtl: "sorted_keys (nods l')" using srt unfolding nods by (simp add: sorted_wrt_append)
    have len: "length (nods l') < length (nods h)" by (simp add: nods)
    from less.hyps [OF len disjI1 [OF dl] srtl sorted_in_left [OF srt [unfolded nods] lt mem [unfolded nods]]]
    obtain w a1 q where w: "rb_deleteKey TM key l' a = Some (w, a1)" "ok m w" "\<not> isRed l' \<longrightarrow> \<not> isRed w"
      "deletes key q (nods l') (nods w)" "a1 = freed TM w q a" "kids_sized l' \<longrightarrow> sized w" by blast
    have "\<exists>t. balance (Node p' k' v' w r' c' s') = Some t \<and> ok n t \<and> (\<not> isRed h \<longrightarrow> \<not> isRed t)"
      by (rule balance_shape [where m = m]) (use sh w(2,3) in auto)
    then obtain t where t: "balance (Node p' k' v' w r' c' s') = Some t" "ok n t" "\<not> isRed h \<longrightarrow> \<not> isRed t" by blast
    have nt: "nods t = nods w @ (p', k', v') # nods r'" using balance_nods [OF t(1)] by simp
    have "assignAndFreeIfNull TM l' w a1 = tm_free TM q a"
      by (rule assign_freed [OF w(5)]) (use w(4) deletes_all in auto)
    then have "assignAndFreeIfNull TM l' w a1 = freed TM t q a" using nt by (simp add: nods_nonempty)
    moreover have "kids_sized h \<longrightarrow> sized t"
      using prepare_sized(1) [OF pl] w(6) balance_sized [OF t(1)] by (auto intro: sized_kids)
    moreover have "deletes key q (nods h) (nods t)"
      unfolding nods nt by (rule deletes_left [OF w(4) srt [unfolded nods] lt])
    ultimately show ?thesis using t k pl w(1) True by (simp add: rb_deleteKey.simps [of TM key h]) blast
  next
    case False
    have finish: ?thesis
      if lr: "lean_right h = Some h0" and nl: "\<not> (key_of h0 = Some key \<and> right_of h0 = Some Null)" "h0 \<noteq> Null"
        and pr: "prepare_right h0 = Some (Node p1 k1 v1 l1 r1 c1 s1)" and le: "k1 \<le> key"
        and dr: "dnorm m r1 \<or> dspec m k2 r1 \<and> k2 \<le> key \<and> k1 < key"
        and sh: "c1 = RBT_COLOR_BLACK \<and> n = Suc m \<and> ok m l1 \<and> (isRed h \<or> \<not> isRed l1)
          \<or> c1 = RBT_COLOR_RED \<and> isRed h \<and> n = m \<and> \<not> isRed l1 \<and> \<not> isRed r1 \<and> ok m l1"
      for h0 p1 k1 v1 l1 r1 c1 s1 m k2
    proof -
      have nods: "nods h = nods l1 @ (p1, k1, v1) # nods r1"
        using prepare_nods(3) [OF lr] prepare_nods(2) [OF pr] by simp
      have sized1: "sized l1 \<and> sized r1" if "kids_sized h"
        using prepare_sized(2) [OF pr prepare_sized(3) [OF lr that]] by simp
      have srtr: "sorted_keys (nods r1)" using srt unfolding nods by (simp add: sorted_wrt_append)
      have bal: "\<exists>t. balance (Node p1 k' v' l1 w c1 s1) = Some t \<and> ok n t \<and> (\<not> isRed h \<longrightarrow> \<not> isRed t)"
        if "ok m w" "\<not> isRed r1 \<longrightarrow> \<not> isRed w" for k' v' w
        by (rule balance_shape [where m = m]) (use sh that in auto)
      obtain k0' r0 where h0: "key_of h0 = Some k0'" "right_of h0 = Some r0" using nl(2) by (cases h0) auto
      show ?thesis
      proof (cases "key = k1")
        case True
        with dr have "dnorm m r1" by auto
        from rb_deleteMin_ok [OF this, of TM a] obtain w a1 x where w: "rb_deleteMin TM r1 a = Some (w, a1)" "ok m w"
          "\<not> isRed r1 \<longrightarrow> \<not> isRed w" "nods r1 = x # nods w" "a1 = freed TM w (fst x) a" "kids_sized r1 \<longrightarrow> sized w" by blast
        obtain xp xk xv where x: "x = (xp, xk, xv)" by (cases x)
        from bal [OF w(2,3)] obtain t where t: "balance (Node p1 xk xv l1 w c1 s1) = Some t" "ok n t" "\<not> isRed h \<longrightarrow> \<not> isRed t" by blast
        have nt: "nods t = nods l1 @ (p1, xk, xv) # nods w" using balance_nods [OF t(1)] by simp
        have "assignAndFreeIfNull TM r1 w a1 = tm_free TM xp a"
          by (rule assign_freed [of _ _ _ xp]) (simp_all add: w(4,5) x)
        then have fr: "assignAndFreeIfNull TM r1 w a1 = freed TM t xp a" using nt by (simp add: nods_nonempty)
        have "deletes key xp (nods h) (nods t)"
          using deletes_successor [of "nods l1" p1 key v1 x "nods w"] srt w(4) True unfolding nods nt by (simp add: x)
        moreover have "kids_sized h \<longrightarrow> sized t"
          using sized1 w(6) balance_sized [OF t(1)] by (auto intro: sized_kids)
        ultimately show ?thesis
          using t k lr pr w(1) rb_min_nods [OF w(4)] False True h0 nl fr x
          by (simp add: rb_deleteKey.simps [of TM k1 h]) blast
      next
        case neq: False
        with le have lt: "k1 < key" by simp
        have len: "length (nods r1) < length (nods h)" by (simp add: nods)
        from dr have "dnorm m r1 \<or> dspec m k2 r1 \<and> k2 \<le> key" by auto
        from less.hyps [OF len this srtr sorted_in_right [OF srt [unfolded nods] lt mem [unfolded nods]]]
        obtain w a1 q where w: "rb_deleteKey TM key r1 a = Some (w, a1)" "ok m w" "\<not> isRed r1 \<longrightarrow> \<not> isRed w"
          "deletes key q (nods r1) (nods w)" "a1 = freed TM w q a" "kids_sized r1 \<longrightarrow> sized w" by blast
        from bal [OF w(2,3)] obtain t where t: "balance (Node p1 k1 v1 l1 w c1 s1) = Some t" "ok n t" "\<not> isRed h \<longrightarrow> \<not> isRed t" by blast
        have nt: "nods t = nods l1 @ (p1, k1, v1) # nods w" using balance_nods [OF t(1)] by simp
        have "assignAndFreeIfNull TM r1 w a1 = tm_free TM q a"
          by (rule assign_freed [OF w(5)]) (use w(4) deletes_all in auto)
        then have fr: "assignAndFreeIfNull TM r1 w a1 = freed TM t q a" using nt by (simp add: nods_nonempty)
        have "deletes key q (nods h) (nods t)"
          unfolding nods nt by (rule deletes_right [OF w(4) srt [unfolded nods] lt])
        moreover have "kids_sized h \<longrightarrow> sized t"
          using sized1 w(6) balance_sized [OF t(1)] by (auto intro: sized_kids)
        ultimately show ?thesis
          using t k lr pr w(1) False neq h0 nl fr by (simp add: rb_deleteKey.simps [of TM key h]) blast
      qed
    qed
    from d k False srt show ?thesis
    proof (cases rule: lean_right_shape)
      case (red p k1 v l r s)
      have nods: "nods h = nods l @ (p, k1, v) # nods r" using prepare_nods(3) [OF red(1)] by simp
      show ?thesis
      proof (cases "r = Null")
        case True
        with red have "n = 0" "l = Null" by (auto dest: ok_zero_black)
        with True nods mem have "nods h = [(p, key, v)]" "k1 = key" by auto
        moreover from this have "deletes key p (nods h) (nods Null)" by (simp add: deletes_last)
        ultimately show ?thesis using k False red(1) True \<open>n = 0\<close>
          by (simp add: rb_deleteKey.simps [of TM key h] freed_def) blast
      next
        case rn: False
        have "sorted_keys (nods (Node p k1 v l r RBT_COLOR_RED s))" using srt nods by simp
        from refl red(3-6) rn this show ?thesis
        proof (cases rule: prepare_right_red)
          case (flipped l' r' m)
          show ?thesis by (rule finish [OF red(1) _ _ flipped(1) red(7), where m = m])
            (use flipped red(2) rn in \<open>auto intro: dnorm_red\<close>)
        next
          case same
          show ?thesis by (rule finish [OF red(1) _ _ same(1) red(7), where m = n])
            (use same red rn in auto)
        next
          case (rotated p' k' v' l' r')
          have "k' \<le> key" "k' < key" using rotated(6) red(7) by auto
          show ?thesis by (rule finish [OF red(1) _ _ rotated(1) \<open>k' \<le> key\<close>, where m = n and ?k2.0 = k1])
            (use rotated red(2,7) rn \<open>k' < key\<close> in auto)
        qed
      qed
    next
      case (black p k1 v l r s m)
      have "prepare_right (Node p k1 v l r RBT_COLOR_BLACK s) = Some (Node p k1 v l r RBT_COLOR_BLACK s)"
        using black(4) by (simp add: prepare_right_def)
      from finish [OF black(1) _ _ this black(7), where m = m] show ?thesis
        using black(2-6) dnorm_red [OF black(6,4)] by (cases r) auto
    qed
  qed
qed

lemma rb_deleteMax_ok:
  assumes "dnorm n h \<or> dspec n k0 h" "sorted_keys (nods (h :: ('k::linorder, 'v) rbnode))"
  shows "\<exists>t x. rb_deleteMax h = Some t \<and> ok n t \<and> (\<not> isRed h \<longrightarrow> \<not> isRed t) \<and> nods h = nods t @ [x]
     \<and> (kids_sized h \<longrightarrow> sized t)"
  using assms
proof (induction "length (nods h)" arbitrary: h n k0 rule: less_induct)
  case less
  note d = less.prems(1) and srt = less.prems(2)
  have "h \<noteq> Null" using d by (auto simp: dspec_def dest: dnorm_not_null)
  then obtain k where k: "key_of h = Some k" by (cases h) auto
  obtain key where key: "k \<le> key" "k0 \<le> key" using max.cobounded1 [of k k0] max.cobounded2 [of k0 k] by (metis max.commute)
  have finish: ?case
    if lr: "lean_right h = Some h0" and nl: "right_of h0 = Some r0" "r0 \<noteq> Null"
      and pr: "prepare_right h0 = Some (Node p1 k1 v1 l1 r1 c1 s1)"
      and dr: "dnorm m r1 \<or> dspec m k2 r1"
      and sh: "c1 = RBT_COLOR_BLACK \<and> n = Suc m \<and> ok m l1 \<and> (isRed h \<or> \<not> isRed l1)
        \<or> c1 = RBT_COLOR_RED \<and> isRed h \<and> n = m \<and> \<not> isRed l1 \<and> \<not> isRed r1 \<and> ok m l1"
    for h0 r0 p1 k1 v1 l1 r1 c1 s1 m k2
  proof -
    have nods: "nods h = nods l1 @ (p1, k1, v1) # nods r1"
      using prepare_nods(3) [OF lr] prepare_nods(2) [OF pr] by simp
    have sized1: "sized l1 \<and> sized r1" if "kids_sized h"
      using prepare_sized(2) [OF pr prepare_sized(3) [OF lr that]] by simp
    have srtr: "sorted_keys (nods r1)" using srt unfolding nods by (simp add: sorted_wrt_append)
    have len: "length (nods r1) < length (nods h)" by (simp add: nods)
    from less.hyps [OF len dr srtr] obtain w x where w: "rb_deleteMax r1 = Some w" "ok m w" "\<not> isRed r1 \<longrightarrow> \<not> isRed w"
      "nods r1 = nods w @ [x]" "kids_sized r1 \<longrightarrow> sized w" by blast
    have "\<exists>t. balance (Node p1 k1 v1 l1 w c1 s1) = Some t \<and> ok n t \<and> (\<not> isRed h \<longrightarrow> \<not> isRed t)"
      by (rule balance_shape [where m = m]) (use sh w(2,3) in auto)
    then obtain t where t: "balance (Node p1 k1 v1 l1 w c1 s1) = Some t" "ok n t" "\<not> isRed h \<longrightarrow> \<not> isRed t" by blast
    have nt: "nods t = nods l1 @ (p1, k1, v1) # nods w" using balance_nods [OF t(1)] by simp
    have "kids_sized h \<longrightarrow> sized t"
      using sized1 w(5) balance_sized [OF t(1)] by (auto intro: sized_kids)
    then show ?thesis using t lr nl pr w(1,4) nods nt by (cases x) (simp add: rb_deleteMax.simps [of h])
  qed
  have "dnorm n h \<or> dspec n k0 h \<and> k0 \<le> key" "\<not> key < k" using d key by auto
  from this(1) k this(2) srt show ?case
  proof (cases rule: lean_right_shape)
    case (red p k1 v l r s)
    have nods: "nods h = nods l @ (p, k1, v) # nods r" using prepare_nods(3) [OF red(1)] by simp
    show ?thesis
    proof (cases "r = Null")
      case True
      with red have "n = 0" "l = Null" by (auto dest: ok_zero_black)
      with True nods red(1) show ?thesis by (simp add: rb_deleteMax.simps [of h])
    next
      case rn: False
      have "sorted_keys (nods (Node p k1 v l r RBT_COLOR_RED s))" using srt nods by simp
      from refl red(3-6) rn this show ?thesis
      proof (cases rule: prepare_right_red)
        case (flipped l' r' m)
        show ?thesis by (rule finish [OF red(1) _ rn flipped(1), where m = m])
          (use flipped red(2) in \<open>auto intro: dnorm_red\<close>)
      next
        case same
        show ?thesis by (rule finish [OF red(1) _ rn same(1), where m = n]) (use same red in auto)
      next
        case (rotated p' k' v' l' r')
        show ?thesis by (rule finish [OF red(1) _ rn rotated(1), where m = n and ?k2.0 = k1]) (use rotated red(2) in auto)
      qed
    qed
  next
    case (black p k1 v l r s m)
    have "prepare_right (Node p k1 v l r RBT_COLOR_BLACK s) = Some (Node p k1 v l r RBT_COLOR_BLACK s)"
      using black(4) by (simp add: prepare_right_def)
    from finish [OF black(1) _ _ this, where m = m] show ?thesis
      using black(2-6) dnorm_red [OF black(6,4)] by (cases r) auto
  qed
qed

subsection \<open>The whole tree\<close>

text \<open>A tree whose nodes are exactly the allocated objects.\<close>

definition rb_inv :: "('a \<Rightarrow> ptr set \<Rightarrow> bool) \<Rightarrow> ('k::linorder, 'v, 'a) rbtree \<Rightarrow> bool" where
  "rb_inv ainv T \<longleftrightarrow> (\<exists>n. ok n (rb_root T)) \<and> \<not> isRed (rb_root T) \<and> sized (rb_root T)
     \<and> sorted_keys (nods (rb_root T)) \<and> distinct (addrs (nods (rb_root T)))
     \<and> ainv (rb_pool T) (set (addrs (nods (rb_root T))))"

definition rb_map :: "('k::linorder, 'v, 'a) rbtree \<Rightarrow> 'k \<rightharpoonup> 'v" where
  "rb_map T = map_of (ents (nods (rb_root T)))"

lemma ents_keys: "map fst (ents xs) = keys xs"
  by (induction xs) (auto simp: ents_def keys_def)

lemma rb_map_dom: "dom (rb_map T) = set (keys (nods (rb_root T)))"
  by (simp add: rb_map_def dom_map_of_conv_image_fst flip: ents_keys)

lemma redden_ok:
  assumes "ok n h" "\<not> isRed h" "h \<noteq> Null"
  obtains h' n' where "redden h = Some h'" "dnorm n' h'" "nods h' = nods h" "sized h \<Longrightarrow> sized h'"
proof -
  from assms obtain m where n: "n = Suc m" by (cases n; cases h) auto
  with assms obtain p k v l r s where h: "h = Node p k v l r RBT_COLOR_BLACK s" "\<not> isRed r" "ok m l" "ok m r"
    by (auto simp: ok_black_iff)
  show ?thesis
  proof (cases "isRed l")
    case True
    with h n that [of h n] show ?thesis by (simp add: redden_def dnorm_def)
  next
    case False
    with h that [of "Node p k v l r RBT_COLOR_RED s" m] show ?thesis by (simp add: redden_def dnorm_def)
  qed
qed

lemma blacken_ok:
  assumes "ok n t"
  obtains t' n' where "blacken t = Some t'" "ok n' t'" "\<not> isRed t'" "nods t' = nods t" "sized t \<Longrightarrow> sized t'"
proof (cases t)
  case Null
  with assms that [of Null n] show ?thesis by (simp add: blacken_def)
next
  case (Node p k v l r c s)
  show ?thesis
  proof (cases "c = RBT_COLOR_RED")
    case True
    with Node assms that [of "Node p k v l r RBT_COLOR_BLACK s" "Suc n"] show ?thesis by (simp add: blacken_def)
  next
    case False
    with Node assms that [of t n] show ?thesis by (simp add: blacken_def)
  qed
qed

lemma paint_black: "ok n t \<Longrightarrow> set_color RBT_COLOR_BLACK t = Some t' \<Longrightarrow> \<exists>n'. ok n' t' \<and> \<not> isRed t'"
proof (cases t)
  case (Node p k v l r c s)
  assume "ok n t" "set_color RBT_COLOR_BLACK t = Some t'"
  with Node show ?thesis
    by (cases "c = RBT_COLOR_RED") (auto intro: exI [of _ "Suc n"] exI [of _ n])
qed auto

lemma map_of_without: "map_of (without key xs) = (map_of xs)(key := None)"
  by (induction xs) (auto simp: without_def fun_eq_iff)

lemma sorted_without: "sorted_wrt (<) (map fst xs) \<Longrightarrow> sorted_wrt (<) (map fst (without key xs))"
  by (induction xs) (auto simp: without_def)

context tm_alloc
begin

lemma rb_innerPut_ok:
  assumes "rb_inv ainv T" "unat nsz \<le> max_request" "rb_innerPut TM nsz key v T = Some (ret, T')"
  shows "rb_inv ainv T' \<and> ret = (rb_map T key = None) \<and> rb_map T' = (rb_map T)(key \<mapsto> v)"
proof -
  from assms(3) obtain t t' where put: "rb_put TM nsz key v (rb_root T) (rb_pool T) = Some (ret, t, rb_pool T')"
    and col: "set_color RBT_COLOR_BLACK t = Some t'" and T': "rb_root T' = t'"
    by (auto simp: rb_innerPut_def ret_simps)
  from assms(1) obtain n where inv: "ok n (rb_root T)" "\<not> isRed (rb_root T)" "sized (rb_root T)"
    "sorted_keys (nods (rb_root T))" "distinct (addrs (nods (rb_root T)))"
    "ainv (rb_pool T) (set (addrs (nods (rb_root T))))" by (auto simp: rb_inv_def)
  have "ok n t" using rb_put_ok [OF inv(1), of TM nsz key v "rb_pool T"] inv(2) put by auto
  from paint_black [OF this col] obtain n' where "ok n' t'" "\<not> isRed t'" by blast
  moreover have "sized t'" using set_color_sized [OF col rb_put_sized [OF put inv(3)]] .
  moreover have nt: "nods t' = nods t" using col by (cases t) auto
  from rb_put_nods [OF put inv(4)] obtain p where p: "nods t = put_nods p key v (nods (rb_root T))"
    "ret = (key \<notin> set (keys (nods (rb_root T))))"
    "if ret then tm_malloc TM nsz (rb_pool T) = (p, rb_pool T') \<and> p \<noteq> nullptr else rb_pool T' = rb_pool T" by blast
  have "sorted_keys (nods t')" unfolding nt p(1) by (rule put_nods_sorted [OF inv(4)])
  moreover have "distinct (addrs (nods t')) \<and> ainv (rb_pool T') (set (addrs (nods t')))"
  proof (cases ret)
    case True
    with p(2,3) have m: "key \<notin> set (keys (nods (rb_root T)))" "tm_malloc TM nsz (rb_pool T) = (p, rb_pool T')" "p \<noteq> nullptr" by auto
    from malloc_fresh [OF inv(6) assms(2) m(2,3)]
    have fr: "p \<notin> set (addrs (nods (rb_root T)))" "ainv (rb_pool T') (insert p (set (addrs (nods (rb_root T)))))" by auto
    have ms: "mset (addrs (nods t')) = add_mset p (mset (addrs (nods (rb_root T))))"
      unfolding nt p(1) by (rule put_nods_addrs_new [OF m(1)])
    then have "mset (addrs (nods t')) = mset (p # addrs (nods (rb_root T)))" by simp
    from mset_eq_imp_distinct_iff [OF this] mset_eq_setD [OF this] fr inv(5) show ?thesis by simp
  next
    case False
    with p have "addrs (nods t') = addrs (nods (rb_root T))" "rb_pool T' = rb_pool T"
      unfolding nt using put_nods_addrs_hit [OF inv(4)] by auto
    with inv(5,6) show ?thesis by simp
  qed
  moreover have "ret = (rb_map T key = None)" using p(2) rb_map_dom [of T] by auto
  moreover have "rb_map T' = (rb_map T)(key \<mapsto> v)"
    using put_nods_map [of p key v "nods (rb_root T)"] p(1) nt T' by (simp add: rb_map_def ents_def)
  ultimately show ?thesis unfolding rb_inv_def T' by blast
qed

lemma rb_innerPut_returns:
  assumes "rb_inv ainv T" "fst (tm_malloc TM nsz (rb_pool T)) \<noteq> nullptr"
  shows "rb_innerPut TM nsz key v T \<noteq> None"
proof -
  from assms(1) obtain n where "ok n (rb_root T)" "\<not> isRed (rb_root T)" by (auto simp: rb_inv_def)
  with rb_put_ok [OF this(1), of TM nsz key v "rb_pool T"] assms(2) obtain ret t a' where
    put: "rb_put TM nsz key v (rb_root T) (rb_pool T) = Some (ret, t, a')" by auto
  from assms(1) have "sorted_keys (nods (rb_root T))" by (simp add: rb_inv_def)
  from rb_put_nods [OF put this] obtain p where "nods t = put_nods p key v (nods (rb_root T))" by blast
  then have "nods t \<noteq> []" using put_nods_keys [of p key v "nods (rb_root T)"] by auto
  then show ?thesis using put by (cases t) (auto simp: rb_innerPut_def)
qed

lemma rb_delete_common:
  assumes inv: "rb_inv ainv T" and del: "deletes key q (nods (rb_root T)) (nods t)" and t: "ok n t" "\<not> isRed t" "sized t"
    and T': "rb_root T' = t" "rb_pool T' = tm_free TM q (rb_pool T)"
  shows "rb_inv ainv T' \<and> rb_map T' = (rb_map T)(key := None)"
proof -
  have ms: "mset (addrs (nods (rb_root T))) = mset (q # addrs (nods t))" using del by (simp add: deletes_def)
  have I: "distinct (addrs (nods (rb_root T)))" "ainv (rb_pool T) (set (addrs (nods (rb_root T))))" "sorted_keys (nods (rb_root T))"
    using inv by (auto simp: rb_inv_def)
  have st: "set (addrs (nods (rb_root T))) = insert q (set (addrs (nods t)))" using mset_eq_setD [OF ms] by simp
  have "distinct (q # addrs (nods t))" using I(1) mset_eq_imp_distinct_iff [OF ms] by simp
  then have "distinct (addrs (nods t))" "q \<notin> set (addrs (nods t))" by auto
  moreover have "ainv (tm_free TM q (rb_pool T)) (set (addrs (nods (rb_root T))) - {q})"
    by (rule free_live [OF I(2)]) (simp add: st)
  moreover have "sorted_keys (nods t)"
    using sorted_without [of "ents (nods (rb_root T))" key] I(3) del by (simp add: ents_keys deletes_def flip: ents_keys)
  moreover have "set (addrs (nods (rb_root T))) - {q} = set (addrs (nods t))" using st calculation(2) by auto
  ultimately have "rb_inv ainv T'" using t T' by (auto simp: rb_inv_def)
  moreover have "rb_map T' = (rb_map T)(key := None)"
    using del by (simp add: rb_map_def T' deletes_def map_of_without)
  ultimately show ?thesis ..
qed

lemma rb_innerRemove_ok:
  assumes "rb_inv ainv T" "key \<in> dom (rb_map T)"
  shows "\<exists>T'. rb_innerRemove TM key T = Some T' \<and> rb_inv ainv T' \<and> rb_map T' = (rb_map T)(key := None)"
proof -
  from assms(1) obtain n where inv: "ok n (rb_root T)" "\<not> isRed (rb_root T)" "sized (rb_root T)"
    "sorted_keys (nods (rb_root T))" by (auto simp: rb_inv_def)
  have mem: "key \<in> set (keys (nods (rb_root T)))" using assms(2) by (simp add: rb_map_dom)
  then have "rb_root T \<noteq> Null" by auto
  from redden_ok [OF inv(1,2) this] obtain h n' where h: "redden (rb_root T) = Some h" "dnorm n' h" "nods h = nods (rb_root T)" "sized h"
    using inv(3) by metis
  from rb_deleteKey_ok [OF disjI1 [OF h(2)], of key TM "rb_pool T"] inv(4) mem h(3) obtain w a' q where
    w: "rb_deleteKey TM key h (rb_pool T) = Some (w, a')" "ok n' w" "deletes key q (nods (rb_root T)) (nods w)"
      "a' = freed TM w q (rb_pool T)" "sized w" using sized_kids [OF h(4)] by auto
  from blacken_ok [OF w(2)] obtain t n'' where t: "blacken w = Some t" "ok n'' t" "\<not> isRed t" "nods t = nods w" "sized t"
    using w(5) by metis
  have "assignAndFreeIfNull TM h w a' = tm_free TM q (rb_pool T)"
    by (rule assign_freed [OF w(4)]) (use w(3) h(3) deletes_all in auto)
  then have "rb_innerRemove TM key T = Some \<lparr>rb_root = t, rb_pool = tm_free TM q (rb_pool T)\<rparr>"
    using h(1) w(1) t(1) by (simp add: rb_innerRemove_def)
  with rb_delete_common [OF assms(1), of key q t n'' "\<lparr>rb_root = t, rb_pool = tm_free TM q (rb_pool T)\<rparr>"] w(3) t
  show ?thesis by simp
qed

lemma deleteAll_ok:
  "h \<noteq> Null \<Longrightarrow> distinct (addrs (nods h)) \<Longrightarrow> set (addrs (nods h)) \<subseteq> S \<Longrightarrow> ainv a S \<Longrightarrow>
     \<exists>a'. deleteAll TM h a = Some a' \<and> ainv a' (S - set (addrs (nods h)))"
proof (induction h arbitrary: a S)
  case (Node p k v l r c s)
  have l: "\<exists>a1. (if l \<noteq> Null then deleteAll TM l a else Some a) = Some a1 \<and> ainv a1 (S - set (addrs (nods l)))"
    using Node.IH(1) [of S a] Node.prems by auto
  then obtain a1 where a1: "(if l \<noteq> Null then deleteAll TM l a else Some a) = Some a1" "ainv a1 (S - set (addrs (nods l)))" by blast
  have r: "\<exists>a2. (if r \<noteq> Null then deleteAll TM r a1 else Some a1) = Some a2 \<and> ainv a2 (S - set (addrs (nods l)) - set (addrs (nods r)))"
    using Node.IH(2) [of "S - set (addrs (nods l))" a1] Node.prems a1(2) by auto
  then obtain a2 where a2: "(if r \<noteq> Null then deleteAll TM r a1 else Some a1) = Some a2" "ainv a2 (S - set (addrs (nods l)) - set (addrs (nods r)))" by blast
  have "ainv (tm_free TM p a2) (S - set (addrs (nods l)) - set (addrs (nods r)) - {p})"
    by (rule free_live [OF a2(2)]) (use Node.prems in auto)
  moreover have "S - set (addrs (nods l)) - set (addrs (nods r)) - {p} = S - set (addrs (nods (Node p k v l r c s)))" by auto
  moreover have "deleteAll TM (Node p k v l r c s) a = Some (tm_free TM p a2)"
    using a1(1) a2(1) by (simp only: deleteAll.simps bind.bind_lunit)
  ultimately show ?case by simp
qed simp

lemma rb_delete_ok:
  assumes "rb_inv ainv T" shows "\<exists>a'. rb_delete TM T = Some a' \<and> ainv a' {}"
proof (cases "rb_root T = Null")
  case True with assms show ?thesis by (simp add: rb_delete_def rb_inv_def)
next
  case False
  with deleteAll_ok [OF False _ subset_refl] assms show ?thesis by (auto simp: rb_delete_def rb_inv_def)
qed

end

subsection \<open>Ordered queries\<close>

fun rb_height :: "('k, 'v) rbnode \<Rightarrow> int" where
  "rb_height Null = - 1"
| "rb_height (Node p k v l r c s) = 1 + max (rb_height l) (rb_height r)"

fun rb_max :: "('k, 'v) rbnode \<Rightarrow> (ptr \<times> 'k \<times> 'v) option" where
  "rb_max Null = None"
| "rb_max (Node p k v l r c s) = (if r = Null then Some (p, k, v) else rb_max r)"

text \<open>floor and ceiling answer a node, or the null pointer, here None.\<close>

fun rb_floor :: "'k::linorder \<Rightarrow> ('k, 'v) rbnode \<Rightarrow> (ptr \<times> 'k \<times> 'v) option" where
  "rb_floor key Null = None"
| "rb_floor key (Node p k v l r c s) =
     (if key = k then Some (p, k, v)
      else if key < k then rb_floor key l
      else (case rb_floor key r of Some t \<Rightarrow> Some t | None \<Rightarrow> Some (p, k, v)))"

fun rb_ceiling :: "'k::linorder \<Rightarrow> ('k, 'v) rbnode \<Rightarrow> (ptr \<times> 'k \<times> 'v) option" where
  "rb_ceiling key Null = None"
| "rb_ceiling key (Node p k v l r c s) =
     (if key = k then Some (p, k, v)
      else if k < key then rb_ceiling key r
      else (case rb_ceiling key l of Some t \<Rightarrow> Some t | None \<Rightarrow> Some (p, k, v)))"

fun rb_select :: "int \<Rightarrow> ('k, 'v) rbnode \<Rightarrow> (ptr \<times> 'k \<times> 'v) option" where
  "rb_select i Null = None"
| "rb_select i (Node p k v l r c s) =
     (let t = size_of l
      in if t > i then rb_select i l else if t < i then rb_select (i - t - 1) r else Some (p, k, v))"

fun rb_rank :: "'k::linorder \<Rightarrow> ('k, 'v) rbnode \<Rightarrow> int" where
  "rb_rank key Null = 0"
| "rb_rank key (Node p k v l r c s) =
     (if key < k then rb_rank key l
      else if k < key then 1 + size_of l + rb_rank key r
      else size_of l)"

fun isSizeConsistent :: "('k, 'v) rbnode \<Rightarrow> bool" where
  "isSizeConsistent Null = True"
| "isSizeConsistent (Node p k v l r c s) =
     (if s \<noteq> size_of l + size_of r + 1 then False else isSizeConsistent l \<and> isSizeConsistent r)"

text \<open>is23 compares node pointers with root.\<close>

fun is23 :: "ptr \<Rightarrow> ('k, 'v) rbnode \<Rightarrow> bool" where
  "is23 root Null = True"
| "is23 root (Node p k v l r c s) =
     (if isRed r then False
      else if p \<noteq> root \<and> isRed (Node p k v l r c s) \<and> isRed l then False
      else is23 root l \<and> is23 root r)"

fun isBalanced :: "int \<Rightarrow> ('k, 'v) rbnode \<Rightarrow> bool" where
  "isBalanced black Null = (black = 0)"
| "isBalanced black (Node p k v l r c s) =
     (let black' = (if \<not> isRed (Node p k v l r c s) then black - 1 else black)
      in isBalanced black' l \<and> isBalanced black' r)"

lemma rb_max_nods: "nods t = xs @ [x] \<Longrightarrow> rb_max t = Some x"
proof (induction t arbitrary: xs)
  case (Node p k v l r c s)
  show ?case
  proof (cases "nods r" rule: rev_cases)
    case Nil with Node.prems show ?thesis by (cases x) simp
  next
    case (snoc ys y) with Node show ?thesis by auto
  qed
qed simp

lemma filter_keys_append: "length (filter P (keys (xs @ ys))) = length (filter P (keys xs)) + length (filter P (keys ys))"
  by simp

lemma rb_rank_count:
  "sized t \<Longrightarrow> sorted_keys (nods t) \<Longrightarrow> rb_rank key t = int (length (filter (\<lambda>k. k < key) (keys (nods t))))"
proof (induction t)
  case (Node p k v l r c s)
  have b: "\<forall>x\<in>set (keys (nods l)). x < k" "\<forall>x\<in>set (keys (nods r)). k < x" "sorted_keys (nods l)" "sorted_keys (nods r)"
    using Node.prems(2) by (auto simp: sorted_wrt_append)
  have all: "filter (\<lambda>x. x < key) (keys (nods l)) = keys (nods l)" if "k \<le> key"
    using b(1) that by (auto simp: filter_id_conv)
  have none: "filter (\<lambda>x. x < key) (keys (nods r)) = []" if "key \<le> k"
    using b(2) that by (auto simp: filter_empty_conv)
  consider "key < k" | "\<not> key < k" "k < key" | "key = k" by fastforce
  then show ?case
  proof cases
    case 1 with Node b none show ?thesis by simp
  next
    case 2 with Node b all show ?thesis by (simp add: size_of_sized)
  next
    case 3 with Node b all none show ?thesis by (simp add: size_of_sized)
  qed
qed simp

lemma rb_select_nth:
  "sized t \<Longrightarrow> 0 \<le> i \<Longrightarrow> i < int (length (nods t)) \<Longrightarrow> rb_select i t = Some (nods t ! nat i)"
proof (induction t arbitrary: i)
  case (Node p k v l r c s)
  have sz: "size_of l = int (length (nods l))" using Node.prems(1) by (simp add: size_of_sized)
  consider "i < int (length (nods l))" | "i = int (length (nods l))" | "int (length (nods l)) < i" by linarith
  then show ?case
  proof cases
    case 1
    then have "nat i < length (nods l)" using Node.prems(2) by linarith
    with 1 Node.IH(1) [of i] Node.prems sz show ?thesis by (simp add: nth_append)
  next
    case 2
    with sz show ?thesis by (simp add: nth_append)
  next
    case 3
    have "nat i - length (nods l) = Suc (nat (i - int (length (nods l)) - 1))" "\<not> nat i < length (nods l)" using 3 by linarith+
    with 3 Node.IH(2) [of "i - int (length (nods l)) - 1"] Node.prems sz show ?thesis
      by (simp add: nth_append)
  qed
qed simp

lemma rb_floor_spec:
  "sorted_keys (nods t) \<Longrightarrow> rb_floor key t =
     (let xs = filter (\<lambda>(p, k, v). k \<le> key) (nods t) in if xs = [] then None else Some (last xs))"
proof (induction t)
  case (Node p k v l r c s)
  have b: "\<forall>x\<in>set (keys (nods l)). x < k" "\<forall>x\<in>set (keys (nods r)). k < x" "sorted_keys (nods l)" "sorted_keys (nods r)"
    using Node.prems by (auto simp: sorted_wrt_append)
  have none: "filter (\<lambda>(p, k, v). k \<le> key) (nods r) = []" if "key \<le> k"
    using b(2) that by (fastforce simp: filter_empty_conv keys_def)
  consider "key < k" | "key = k" | "k < key" by fastforce
  then show ?case
  proof cases
    case 1 with Node b none show ?thesis by (auto simp: Let_def)
  next
    case 2 with none show ?thesis by (auto simp: Let_def)
  next
    case 3 with Node b show ?thesis by (auto simp: Let_def)
  qed
qed simp

lemma rb_ceiling_spec:
  "sorted_keys (nods t) \<Longrightarrow> rb_ceiling key t =
     (let xs = filter (\<lambda>(p, k, v). key \<le> k) (nods t) in if xs = [] then None else Some (hd xs))"
proof (induction t)
  case (Node p k v l r c s)
  have b: "\<forall>x\<in>set (keys (nods l)). x < k" "\<forall>x\<in>set (keys (nods r)). k < x" "sorted_keys (nods l)" "sorted_keys (nods r)"
    using Node.prems by (auto simp: sorted_wrt_append)
  have none: "filter (\<lambda>(p, k, v). key \<le> k) (nods l) = []" if "k \<le> key"
    using b(1) that by (fastforce simp: filter_empty_conv keys_def)
  consider "key < k" | "key = k" | "k < key" by fastforce
  then show ?case
  proof cases
    case 1 with Node b show ?thesis by (auto simp: Let_def)
  next
    case 2 with none show ?thesis by (auto simp: Let_def)
  next
    case 3 with Node b none show ?thesis by (auto simp: Let_def)
  qed
qed simp

text \<open>The integrity checks of the class accept every tree that satisfies the invariant.\<close>

lemma sized_isSizeConsistent: "sized t \<Longrightarrow> isSizeConsistent t"
  by (induction t) (auto simp: size_of_sized)

lemma ok_is23: "ok n t \<Longrightarrow> is23 root t"
  by (induction t arbitrary: n) (auto split: if_splits nat.splits)

lemma ok_isBalanced: "ok n t \<Longrightarrow> isBalanced (int n) t"
proof (induction t arbitrary: n)
  case (Node p k v l r c s)
  show ?case
  proof (cases "c = RBT_COLOR_RED")
    case True with Node show ?thesis by simp
  next
    case False
    with Node.prems obtain m where "n = Suc m" "ok m l" "ok m r" by (auto split: nat.splits)
    with Node.IH False show ?thesis by simp
  qed
qed simp

lemma ok_count: "ok n t \<Longrightarrow> 2 ^ n \<le> length (nods t) + 1"
proof (induction t arbitrary: n)
  case (Node p k v l r c s)
  show ?case
  proof (cases "c = RBT_COLOR_RED")
    case True with Node show ?thesis by fastforce
  next
    case False
    with Node.prems obtain m where "n = Suc m" "ok m l" "ok m r" by (auto split: nat.splits)
    with Node.IH(1) [of m] Node.IH(2) [of m] show ?thesis by simp
  qed
qed simp

lemma ok_height: "ok n t \<Longrightarrow> rb_height t + 1 \<le> 2 * int n + (if isRed t then 1 else 0)"
proof (induction t arbitrary: n)
  case (Node p k v l r c s)
  show ?case
  proof (cases "c = RBT_COLOR_RED")
    case True with Node.IH(1) [of n] Node.IH(2) [of n] Node.prems show ?thesis by auto
  next
    case False
    with Node.prems obtain m where "n = Suc m" "ok m l" "ok m r" by (auto split: nat.splits)
    with Node.IH(1) [of m] Node.IH(2) [of m] False show ?thesis by (auto split: if_splits)
  qed
qed simp

subsection \<open>The contract, on the allocator of the repository\<close>

definition rb_set :: "u64 \<Rightarrow> ('k::linorder, 'k, esloco) rbtree \<Rightarrow> 'k set \<Rightarrow> bool" where
  "rb_set nsz T A \<longleftrightarrow> unat nsz \<le> esl_max_request \<and> rb_inv esl_inv T \<and> dom (rb_map T) = A"

definition rb_room :: "u64 \<Rightarrow> 'k \<Rightarrow> ('k, 'k, esloco) rbtree \<Rightarrow> bool" where
  "rb_room nsz k T \<longleftrightarrow> fst (esl_malloc nsz (rb_pool T)) \<noteq> nullptr"

lemma rb_innerGet_dom: "rb_inv ainv T \<Longrightarrow> rb_innerGet key T \<longleftrightarrow> key \<in> dom (rb_map T)"
  unfolding rb_map_dom by (simp add: rb_innerGet_def rb_inv_def rb_get_keys)

interpretation rbs: set_contract "rb_set nsz" "\<lambda>_. True" "rb_room nsz" "rb_add esl_tm nsz" "rb_remove esl_tm"
  "\<lambda>k T. Some (rb_contains k T)"
  for nsz
proof unfold_locales
  fix T A and k and r T'
  assume "rb_set nsz T A" "rb_add esl_tm nsz k T = Some (r, T')"
  then show "r = (k \<notin> A) \<and> rb_set nsz T' (insert k A)"
    using eslh.rb_innerPut_ok [of T nsz k k r T'] by (auto simp: rb_set_def rb_add_def)
next
  fix T A and k
  assume "rb_set nsz T A" "rb_room nsz k T"
  then show "rb_add esl_tm nsz k T \<noteq> None"
    using eslh.rb_innerPut_returns [of T nsz k k] by (auto simp: rb_set_def rb_add_def rb_room_def esl_tm_def)
next
  fix T A and k
  assume r: "rb_set nsz T A"
  then have inv: "rb_inv esl_inv T" "dom (rb_map T) = A" by (simp_all add: rb_set_def)
  show "\<exists>T'. rb_remove esl_tm k T = Some (k \<in> A, T') \<and> rb_set nsz T' (A - {k})"
  proof (cases "k \<in> A")
    case True
    with eslh.rb_innerRemove_ok [OF inv(1), of k] inv(2) obtain T' where
      "rb_innerRemove esl_tm k T = Some T'" "rb_inv esl_inv T'" "rb_map T' = (rb_map T)(k := None)" by blast
    with True inv r show ?thesis by (simp add: rb_remove_def rb_innerGet_dom rb_set_def)
  next
    case False
    with inv r show ?thesis by (simp add: rb_remove_def rb_innerGet_dom rb_set_def)
  qed
next
  fix T A and k
  assume "rb_set nsz T A"
  then show "Some (rb_contains k T) = Some (k \<in> A)"
    using rb_innerGet_dom [of esl_inv T k] by (simp add: rb_set_def rb_contains_def)
qed

lemma rb_new_set: "esl_inv a {} \<Longrightarrow> unat nsz \<le> esl_max_request \<Longrightarrow> rb_set nsz (rb_new a) {}"
  by (auto simp: rb_set_def rb_inv_def rb_new_def rb_map_def)

context tm_alloc
begin

text \<open>deleteMin removes the smallest key and frees one node; deleteMax removes the largest key, but its node stays allocated.\<close>

lemma rb_removeMin_ok:
  assumes "rb_inv ainv T" "nods (rb_root T) = x # xs"
  shows "\<exists>T'. rb_removeMin TM T = Some T' \<and> rb_inv ainv T' \<and> nods (rb_root T') = xs"
proof -
  from assms(1) obtain n where inv: "ok n (rb_root T)" "\<not> isRed (rb_root T)" "sized (rb_root T)"
    "sorted_keys (nods (rb_root T))" by (auto simp: rb_inv_def)
  have ne: "rb_root T \<noteq> Null" using assms(2) by auto
  from redden_ok [OF inv(1,2) ne] obtain h n' where h: "redden (rb_root T) = Some h" "dnorm n' h" "nods h = nods (rb_root T)" "sized h"
    using inv(3) by metis
  from rb_deleteMin_ok [OF h(2), of TM "rb_pool T"] obtain w a' y where
    w: "rb_deleteMin TM h (rb_pool T) = Some (w, a')" "ok n' w" "nods h = y # nods w" "a' = freed TM w (fst y) (rb_pool T)" "sized w"
    using sized_kids [OF h(4)] by auto
  have y: "y = x" "nods w = xs" using w(3) h(3) assms(2) by auto
  from blacken_ok [OF w(2)] obtain t n'' where t: "blacken w = Some t" "ok n'' t" "\<not> isRed t" "nods t = nods w" "sized t"
    using w(5) by metis
  have "assignAndFreeIfNull TM h w a' = tm_free TM (fst x) (rb_pool T)"
    by (rule assign_freed) (use w(4) y in auto, use assms(2) h(3) y in auto)
  then have rm: "rb_removeMin TM T = Some \<lparr>rb_root = t, rb_pool = tm_free TM (fst x) (rb_pool T)\<rparr>"
    using h(1) w(1) t(1) ne by (simp add: rb_removeMin_def isEmpty_def)
  have "deletes (fst (snd x)) (fst x) (nods (rb_root T)) (nods t)"
  proof -
    have "fst (snd x) \<notin> set (keys xs)" using inv(4) assms(2) by (cases x) auto
    from without_absent [OF this] show ?thesis
      using assms(2) y t(4) by (cases x) (simp add: deletes_def)
  qed
  from rb_delete_common [OF assms(1) this t(2,3,5), of "\<lparr>rb_root = t, rb_pool = tm_free TM (fst x) (rb_pool T)\<rparr>"] rm t(4) y
  show ?thesis by simp
qed

lemma rb_removeMax_leaks:
  assumes "rb_inv ainv T" "rb_root T \<noteq> Null"
  shows "\<exists>T' x. rb_removeMax T = Some T' \<and> nods (rb_root T) = nods (rb_root T') @ [x] \<and> rb_pool T' = rb_pool T"
proof -
  from assms(1) obtain n where inv: "ok n (rb_root T)" "\<not> isRed (rb_root T)" "sized (rb_root T)"
    "sorted_keys (nods (rb_root T))" by (auto simp: rb_inv_def)
  from redden_ok [OF inv(1,2) assms(2)] obtain h n' where h: "redden (rb_root T) = Some h" "dnorm n' h" "nods h = nods (rb_root T)"
    using inv(3) by metis
  from rb_deleteMax_ok [OF disjI1 [OF h(2)]] inv(4) h(3) obtain w x where
    w: "rb_deleteMax h = Some w" "ok n' w" "nods h = nods w @ [x]" by auto
  from blacken_ok [OF w(2)] obtain t n'' where t: "blacken w = Some t" "nods t = nods w" by metis
  have rm: "rb_removeMax T = Some (T\<lparr>rb_root := t\<rparr>)"
    using h(1) w(1) t(1) assms(2) by (simp add: rb_removeMax_def isEmpty_def)
  have e: "nods (rb_root T) = nods t @ [x]" using h(3) w(3) t(2) by simp
  with rm show ?thesis by (cases x) simp
qed

end

subsection \<open>Properties\<close>

text \<open>
  C23: the red-black tree answers any sequence of add, remove and contains requests exactly as
  an abstract set does; no request dereferences a null pointer, the sequence stops only at an
  addition for which the allocator has no memory, and the destructor frees every node.
\<close>

theorem rb_requests_correct:
  fixes ops :: "('k::linorder) set_op list"
  assumes "esl_inv a {}" "unat nsz \<le> esl_max_request"
  shows "case impl_run (rb_add esl_tm nsz) (rb_remove esl_tm) (\<lambda>k T. Some (rb_contains k T)) ops (rb_new a) of
      Some (rs, T') \<Rightarrow> rs = fst (set_run ops {})
        \<and> (\<exists>a'. rb_delete esl_tm T' = Some a' \<and> esl_inv a' {})
    | None \<Rightarrow> \<exists>ys k zs rs T1. ops = ys @ Add k # zs
        \<and> impl_run (rb_add esl_tm nsz) (rb_remove esl_tm) (\<lambda>k T. Some (rb_contains k T)) ys (rb_new a) = Some (rs, T1)
        \<and> fst (esl_malloc nsz (rb_pool T1)) = nullptr"
proof -
  let ?run = "impl_run (rb_add esl_tm nsz) (rb_remove esl_tm) (\<lambda>k T. Some (rb_contains k T)) ops (rb_new a)"
  have rep: "rb_set nsz (rb_new a) {}" by (rule rb_new_set [OF assms])
  show ?thesis
  proof (cases ?run)
    case None
    from rbs.run_stuck [OF rep _ this] None show ?thesis by (auto simp: rb_room_def)
  next
    case (Some y)
    obtain rs T' where y: "y = (rs, T')" by (cases y)
    from rbs.run_correct [OF rep _, of ops rs T'] Some y have "rs = fst (set_run ops {})" "rb_inv esl_inv T'"
      by (auto simp: rb_set_def)
    with eslh.rb_delete_ok [OF this(2)] Some y show ?thesis by auto
  qed
qed

text \<open>
  C24: after any sequence of requests the tree is a red-black tree: its keys are in order, its
  subtree counts are right, it passes the class's own checks is23 and isBalanced, and its
  height is logarithmic in the number of its nodes.
\<close>

theorem rb_tree_balanced:
  fixes ops :: "('k::linorder) set_op list"
  assumes "esl_inv a {}" "unat nsz \<le> esl_max_request"
    "impl_run (rb_add esl_tm nsz) (rb_remove esl_tm) (\<lambda>k T. Some (rb_contains k T)) ops (rb_new a) = Some (rs, T)"
  shows "sorted_wrt (<) (keys (nods (rb_root T))) \<and> isSizeConsistent (rb_root T) \<and> is23 r0 (rb_root T)
    \<and> (\<exists>black. isBalanced black (rb_root T))
    \<and> 2 ^ nat ((rb_height (rb_root T) + 2) div 2) \<le> size_of (rb_root T) + 1"
proof -
  from rbs.run_correct [OF rb_new_set [OF assms(1,2)] _ assms(3)] have "rb_inv esl_inv T" by (simp add: rb_set_def)
  then obtain n where inv: "ok n (rb_root T)" "\<not> isRed (rb_root T)" "sized (rb_root T)" "sorted_keys (nods (rb_root T))"
    by (auto simp: rb_inv_def)
  have "nat ((rb_height (rb_root T) + 2) div 2) \<le> n" using ok_height [OF inv(1)] inv(2) by simp
  then have "(2 :: int) ^ nat ((rb_height (rb_root T) + 2) div 2) \<le> 2 ^ n" by (rule power_increasing) simp
  also have "\<dots> \<le> int (length (nods (rb_root T)) + 1)"
    using ok_count [OF inv(1)] by (metis of_nat_le_iff of_nat_numeral of_nat_power)
  also have "\<dots> = size_of (rb_root T) + 1" by (simp add: size_of_sized [OF inv(3)])
  finally show ?thesis
    using inv(4) sized_isSizeConsistent [OF inv(3)] ok_is23 [OF inv(1)] ok_isBalanced [OF inv(1)] by blast
qed

text \<open>
  Rank and select are inverse to each other on a tree that satisfies the invariant: select
  of a valid index answers a node whose key has that rank, and select of the rank of a key that
  is present answers the node of that key.
\<close>

theorem rb_rank_select:
  assumes "rb_inv ainv T"
  shows "(0 \<le> i \<and> i < size_of (rb_root T) \<longrightarrow>
            (\<exists>p k v. rb_select i (rb_root T) = Some (p, k, v) \<and> rb_rank k (rb_root T) = i \<and> rb_map T k = Some v))
    \<and> (key \<in> dom (rb_map T) \<longrightarrow> (\<exists>p v. rb_select (rb_rank key (rb_root T)) (rb_root T) = Some (p, key, v)))"
proof -
  let ?xs = "nods (rb_root T)"
  have inv: "sized (rb_root T)" "sorted_keys ?xs" using assms by (auto simp: rb_inv_def)
  note sz = size_of_sized [OF inv(1)]
  have rank: "rb_rank (keys ?xs ! j) (rb_root T) = int j" if j: "j < length ?xs" for j
  proof -
    have "filter (\<lambda>k. k < keys ?xs ! j) (keys ?xs) = take j (keys ?xs)"
    proof -
      have "keys ?xs = take j (keys ?xs) @ drop j (keys ?xs)" by simp
      moreover have "filter (\<lambda>k. k < keys ?xs ! j) (take j (keys ?xs)) = take j (keys ?xs)"
        using inv(2) j by (auto simp: filter_id_conv in_set_conv_nth sorted_wrt_iff_nth_less)
      moreover have "filter (\<lambda>k. k < keys ?xs ! j) (drop j (keys ?xs)) = []"
      proof -
        have "\<not> x < keys ?xs ! j" if "x \<in> set (drop j (keys ?xs))" for x
        proof -
          from that j obtain i where i: "x = keys ?xs ! (j + i)" "j + i < length (keys ?xs)" by (auto simp: in_set_conv_nth)
          show ?thesis
          proof (cases "i = 0")
            case False
            with sorted_wrt_nth_less [OF inv(2), of j "j + i"] i show ?thesis by auto
          qed (use i in simp)
        qed
        then show ?thesis by (simp add: filter_empty_conv)
      qed
      ultimately show ?thesis by (metis append_Nil2 filter_append)
    qed
    then show ?thesis using j by (simp add: rb_rank_count [OF inv])
  qed
  have nth: "keys ?xs ! j = fst (snd (?xs ! j))" if "j < length ?xs" for j
    using that by (cases "?xs ! j") (simp add: keys_def)
  have sel: "\<exists>p k v. rb_select (int j) (rb_root T) = Some (p, k, v) \<and> k = keys ?xs ! j \<and> rb_map T k = Some v"
    if j: "j < length ?xs" for j
  proof -
    obtain p k v where e: "?xs ! j = (p, k, v)" by (cases "?xs ! j")
    have "distinct (map fst (ents ?xs))" using inv(2) by (simp add: ents_keys strict_sorted_iff)
    moreover have "(k, v) \<in> set (ents ?xs)" using nth_mem [OF j] e by (force simp: ents_def)
    ultimately have "rb_map T k = Some v" by (simp add: rb_map_def)
    with e rb_select_nth [OF inv(1), of "int j"] j nth [OF j] show ?thesis by simp
  qed
  show ?thesis
  proof (intro conjI impI)
    assume i: "0 \<le> i \<and> i < size_of (rb_root T)"
    then have "nat i < length ?xs" using sz by (simp add: nat_less_iff)
    with sel [OF this] rank [OF this] i show "\<exists>p k v. rb_select i (rb_root T) = Some (p, k, v) \<and> rb_rank k (rb_root T) = i \<and> rb_map T k = Some v"
      by auto
  next
    assume "key \<in> dom (rb_map T)"
    then obtain j where j: "j < length ?xs" "key = keys ?xs ! j" unfolding rb_map_dom by (auto simp: in_set_conv_nth)
    with sel [OF j(1)] rank [OF j(1)] show "\<exists>p v. rb_select (rb_rank key (rb_root T)) (rb_root T) = Some (p, key, v)" by auto
  qed
qed

text \<open>
  Floor answers the entry with the greatest key at most the one asked for, and the null
  pointer exactly when there is none.
\<close>

theorem rb_floor_greatest:
  assumes "rb_inv ainv T"
  shows "case rb_floor key (rb_root T) of
      None \<Rightarrow> \<forall>k\<in>dom (rb_map T). key < k
    | Some (p, k, v) \<Rightarrow> k \<in> dom (rb_map T) \<and> k \<le> key \<and> (\<forall>k'\<in>dom (rb_map T). k' \<le> key \<longrightarrow> k' \<le> k)"
proof -
  let ?xs = "nods (rb_root T)" and ?ys = "filter (\<lambda>(p, k, v). k \<le> key) (nods (rb_root T))"
  have srt: "sorted_keys ?xs" using assms by (simp add: rb_inv_def)
  have keysys: "keys ?ys = filter (\<lambda>k. k \<le> key) (keys ?xs)" by (induction ?xs) (auto simp: keys_def filter_map comp_def split_def)
  show ?thesis
  proof (cases "?ys" rule: rev_cases)
    case Nil
    with keysys have "filter (\<lambda>k. k \<le> key) (keys ?xs) = []" by (simp del: filter_empty_conv)
    then have "\<forall>k\<in>set (keys ?xs). \<not> k \<le> key" by (simp only: filter_empty_conv)
    with Nil rb_floor_spec [OF srt, of key] show ?thesis by (auto simp: rb_map_dom)
  next
    case (snoc zs z)
    obtain p k v where z: "z = (p, k, v)" by (cases z)
    have "sorted_wrt (<) (keys zs @ [k])"
      using sorted_wrt_filter [OF srt, of "\<lambda>k. k \<le> key"] keysys snoc z by simp
    then have "\<forall>k'\<in>set (keys zs). k' < k" by (simp add: sorted_wrt_append)
    moreover have set: "insert k (set (keys zs)) = {k' \<in> set (keys ?xs). k' \<le> key}"
      using arg_cong [OF keysys, of set] snoc z by auto
    moreover have "rb_floor key (rb_root T) = Some (p, k, v)" using rb_floor_spec [OF srt, of key] snoc z by simp
    ultimately show ?thesis unfolding rb_map_dom by fastforce
  qed
qed

subsection \<open>Concrete instances\<close>

definition rb_example_run :: "(bool list \<times> (nat, nat, esloco) rbtree) option" where
  "rb_example_run = impl_run (rb_add esl_tm 64) (rb_remove esl_tm) (\<lambda>k T. Some (rb_contains k T))
     [Add 5, Add 3, Add 8, Add 1, Add 5, Add 9, Remove 3, Contains 3, Contains 8] (rb_new esl_example)"

definition rb_example :: "(nat, nat, esloco) rbtree" where
  "rb_example = snd (the rb_example_run)"

lemma rb_example_request: "unat (64 :: u64) \<le> esl_max_request"
  by (simp add: esl_max_request_def)

lemma rb_example_Some: "rb_example_run = Some (fst (the rb_example_run), rb_example)"
proof -
  have "\<not> Option.is_none rb_example_run" by code_simp
  then show ?thesis by (auto simp: Option.is_none_def rb_example_def)
qed

lemma rb_example_inv: "rb_inv esl_inv rb_example"
  using rbs.run_correct [OF rb_new_set [OF esl_example_inv rb_example_request] _ rb_example_Some [unfolded rb_example_run_def]]
  by (simp add: rb_set_def)

theorem rb_requests_correct_witness:
  "map_option fst rb_example_run = Some [True, True, True, True, False, True, True, False, True]"
proof -
  let ?ops = "[Add 5, Add 3, Add 8, Add 1, Add 5, Add 9, Remove 3, Contains 3, Contains (8 :: nat)]"
  from rb_requests_correct [OF esl_example_inv rb_example_request, of ?ops, folded rb_example_run_def]
  have "fst (the rb_example_run) = fst (set_run ?ops {})" by (subst (asm) rb_example_Some) (simp only: option.case prod.case)
  also have "\<dots> = [True, True, True, True, False, True, True, False, True]" by simp
  finally show ?thesis by (subst rb_example_Some) simp
qed

theorem rb_tree_balanced_witness: "is23 0 (rb_root rb_example) \<and> isSizeConsistent (rb_root rb_example)"
  using rb_tree_balanced [OF esl_example_inv rb_example_request rb_example_Some [unfolded rb_example_run_def]] by blast

theorem rb_rank_select_witness: "map_option (\<lambda>(p, k, v). k) (rb_select (rb_rank 8 (rb_root rb_example)) (rb_root rb_example)) = Some 8"
proof -
  have "rb_get 8 (rb_root rb_example)" by code_simp
  then have "8 \<in> dom (rb_map rb_example)"
    using rb_innerGet_dom [OF rb_example_inv, of 8] by (simp add: rb_innerGet_def)
  with rb_rank_select [OF rb_example_inv, of 0 8] show ?thesis by auto
qed

theorem rb_floor_greatest_witness:
  "map_option (fst \<circ> snd) (rb_floor 7 (rb_root rb_example)) = Some 5 \<and> 5 \<in> dom (rb_map rb_example)"
proof -
  have fl: "map_option (fst \<circ> snd) (rb_floor 7 (rb_root rb_example)) = Some 5" by code_simp
  then obtain p v where "rb_floor 7 (rb_root rb_example) = Some (p, 5, v)" by auto
  with fl rb_floor_greatest [OF rb_example_inv, of 7] show ?thesis by simp
qed

end
