(* ===== verification/PMem.thy ===== *)
theory PMem
  imports PTM_Prelude
begin

text \<open>
  Persistent memory behind a volatile cache. A store changes the cache; a changed location may
  reach the medium at any time (eviction); PWB (common/pfences.h) schedules the write-back of
  the cache line of an address, and PFENCE or PSYNC waits for the scheduled ones. After a
  crash each location holds one of the values it may have had on the medium. Locations are
  tracked byte by byte, which allows every crash image of the real hardware and more.
\<close>

datatype pm_loc = LState | LUsed | LByte nat

text \<open>Instructions that touch persistent memory, and the answer given to thread i.\<close>

datatype pm_instr = St pm_loc u64 | Cp nat nat | Pwb pm_loc | Fence | Ack nat

record pm =
  pm_cur :: "pm_loc \<Rightarrow> u64"
  pm_dur :: "pm_loc \<Rightarrow> u64 set"
  pm_since :: "pm_loc \<Rightarrow> u64 set"
  pm_flush :: "pm_loc \<Rightarrow> bool"

fun same_line :: "pm_loc \<Rightarrow> pm_loc \<Rightarrow> bool" where
  "same_line (LByte a) (LByte b) \<longleftrightarrow> a div 64 = b div 64"
| "same_line l l' \<longleftrightarrow> l = l'"

definition pm_store :: "pm_loc \<Rightarrow> u64 \<Rightarrow> pm \<Rightarrow> pm" where
  "pm_store l v m = m\<lparr>pm_cur := (pm_cur m)(l := v), pm_dur := (pm_dur m)(l := insert v (pm_dur m l)),
                     pm_since := (pm_since m)(l := insert v (pm_since m l))\<rparr>"

fun pm_exec1 :: "pm_instr \<Rightarrow> pm \<Rightarrow> pm" where
  "pm_exec1 (St l v) m = pm_store l v m"
| "pm_exec1 (Cp to from) m = pm_store (LByte to) (pm_cur m (LByte from)) m"
| "pm_exec1 (Pwb l) m =
     m\<lparr>pm_since := (\<lambda>l'. if same_line l l' then {pm_cur m l'} else pm_since m l'),
       pm_flush := (\<lambda>l'. same_line l l' \<or> pm_flush m l')\<rparr>"
| "pm_exec1 Fence m =
     m\<lparr>pm_dur := (\<lambda>l. if pm_flush m l then pm_since m l else pm_dur m l), pm_flush := (\<lambda>_. False)\<rparr>"
| "pm_exec1 (Ack i) m = m"

definition pm_exec :: "pm_instr list \<Rightarrow> pm \<Rightarrow> pm" where
  "pm_exec is m = fold pm_exec1 is m"

lemma pm_exec_simps [simp]:
  "pm_exec [] m = m" "pm_exec (i # is) m = pm_exec is (pm_exec1 i m)"
  "pm_exec (is @ js) m = pm_exec js (pm_exec is m)"
  by (simp_all add: pm_exec_def)

text \<open>The contents of the medium a crash may leave.\<close>

definition crash_image :: "pm \<Rightarrow> (pm_loc \<Rightarrow> u64) \<Rightarrow> bool" where
  "crash_image m img \<longleftrightarrow> (\<forall>l. img l \<in> pm_dur m l)"

text \<open>The state of the machine that restarts on an image.\<close>

definition pm_boot :: "(pm_loc \<Rightarrow> u64) \<Rightarrow> pm" where
  "pm_boot img = \<lparr>pm_cur = img, pm_dur = (\<lambda>l. {img l}), pm_since = (\<lambda>l. {img l}), pm_flush = (\<lambda>_. False)\<rparr>"

text \<open>
  A well-formed memory: the cached value may reach the medium at any time, so it is always
  among the possible ones, also after a pending write-back.
\<close>

definition pm_ok :: "pm \<Rightarrow> bool" where
  "pm_ok m \<longleftrightarrow> (\<forall>l. pm_cur m l \<in> pm_dur m l \<and> (pm_flush m l \<longrightarrow> pm_cur m l \<in> pm_since m l))"

lemma pm_ok_exec1: "pm_ok m \<Longrightarrow> pm_ok (pm_exec1 i m)"
  by (cases i) (auto simp: pm_ok_def pm_store_def)

lemma pm_ok_exec: "pm_ok m \<Longrightarrow> pm_ok (pm_exec is m)"
  by (induction "is" arbitrary: m) (simp_all add: pm_ok_exec1)

lemma pm_ok_boot: "pm_ok (pm_boot img)"
  by (simp add: pm_ok_def pm_boot_def)

subsection \<open>Which locations a sequence of instructions may change\<close>

fun instr_writes :: "pm_instr \<Rightarrow> pm_loc set" where
  "instr_writes (St l v) = {l}"
| "instr_writes (Cp to from) = {LByte to}"
| "instr_writes _ = {}"

definition writes :: "pm_instr list \<Rightarrow> pm_loc set" where
  "writes is = (\<Union>i\<in>set is. instr_writes i)"

lemma writes_simps [simp]:
  "writes [] = {}" "writes (i # is) = instr_writes i \<union> writes is" "writes (is @ js) = writes is \<union> writes js"
  by (auto simp: writes_def)

lemma cur_unwritten: "l \<notin> writes is \<Longrightarrow> pm_cur (pm_exec is m) l = pm_cur m l"
proof (induction "is" arbitrary: m)
  case (Cons i "is")
  then show ?case by (cases i) (auto simp: pm_store_def)
qed simp

text \<open>
  A location whose medium holds a single value, the cached one, and that is not written keeps
  it through any write-backs and fences.
\<close>

definition settled :: "pm \<Rightarrow> pm_loc \<Rightarrow> bool" where
  "settled m l \<longleftrightarrow> pm_dur m l = {pm_cur m l} \<and> (pm_flush m l \<longrightarrow> pm_since m l = {pm_cur m l})"

lemma settled_exec1: "settled m l \<Longrightarrow> l \<notin> instr_writes i \<Longrightarrow> settled (pm_exec1 i m) l"
  by (cases i) (auto simp: settled_def pm_store_def)

lemma settled_exec: "settled m l \<Longrightarrow> l \<notin> writes is \<Longrightarrow> settled (pm_exec is m) l"
  by (induction "is" arbitrary: m) (auto simp: settled_exec1)

lemma settled_boot: "settled (pm_boot img) l"
  by (simp add: settled_def pm_boot_def)

text \<open>A location that was written back after its last store is settled by the next fence.\<close>

definition flushed :: "pm \<Rightarrow> pm_loc \<Rightarrow> bool" where
  "flushed m l \<longleftrightarrow> pm_flush m l \<and> pm_since m l = {pm_cur m l}"

lemma flushed_pwb: "same_line l l' \<Longrightarrow> flushed (pm_exec1 (Pwb l) m) l'"
  by (simp add: flushed_def)

lemma flushed_or_settled_exec1:
  "flushed m l \<or> settled m l \<Longrightarrow> l \<notin> instr_writes i \<Longrightarrow>
     flushed (pm_exec1 i m) l \<or> settled (pm_exec1 i m) l"
  by (cases i) (auto simp: flushed_def settled_def pm_store_def)

lemma flushed_exec:
  "flushed m l \<or> settled m l \<Longrightarrow> l \<notin> writes is \<Longrightarrow>
     flushed (pm_exec is m) l \<or> settled (pm_exec is m) l"
proof (induction "is" arbitrary: m)
  case (Cons i "is")
  then show ?case using flushed_or_settled_exec1 [of m l i] by auto
qed simp

lemma fence_settles: "flushed m l \<or> settled m l \<Longrightarrow> settled (pm_exec1 Fence m) l"
  by (auto simp: flushed_def settled_def)

lemma settled_pwb_range:
  "Pwb l \<in> set is \<Longrightarrow> same_line l l' \<Longrightarrow> l' \<notin> writes is \<Longrightarrow>
     flushed (pm_exec is m) l' \<or> settled (pm_exec is m) l'"
proof (induction "is" arbitrary: m)
  case (Cons i "is")
  show ?case
  proof (cases "i = Pwb l")
    case True
    with Cons.prems flushed_exec [of "pm_exec1 i m" l' "is"] flushed_pwb [of l l' m] show ?thesis by simp
  next
    case False
    with Cons show ?thesis by simp
  qed
qed simp

text \<open>A value the medium may hold, of a location with no write-back on its way.\<close>

definition lingers :: "u64 \<Rightarrow> pm_loc \<Rightarrow> pm \<Rightarrow> bool" where
  "lingers v l m \<longleftrightarrow> v \<in> pm_dur m l \<and> \<not> pm_flush m l \<and> pm_ok m"

lemma lingers_exec1: "lingers v l m \<Longrightarrow> (\<And>l'. i = Pwb l' \<Longrightarrow> \<not> same_line l' l) \<Longrightarrow> lingers v l (pm_exec1 i m)"
  using pm_ok_exec1 [of m i] by (cases i) (auto simp: lingers_def pm_store_def)

lemma lingers_exec: "lingers v l m \<Longrightarrow> (\<And>l'. Pwb l' \<in> set is \<Longrightarrow> \<not> same_line l' l) \<Longrightarrow> lingers v l (pm_exec is m)"
  by (induction "is" arbitrary: m) (auto simp: lingers_exec1)

text \<open>A property of the memory that holds before and after every instruction of a sequence.\<close>

definition always :: "(pm \<Rightarrow> bool) \<Rightarrow> pm_instr list \<Rightarrow> pm \<Rightarrow> bool" where
  "always P is m \<longleftrightarrow> (\<forall>k. P (pm_exec (take k is) m))"

lemma always_Nil [simp]: "always P [] m \<longleftrightarrow> P m"
  by (simp add: always_def)

lemma always_Cons [simp]: "always P (i # is) m \<longleftrightarrow> P m \<and> always P is (pm_exec1 i m)"
proof
  assume a: "always P (i # is) m"
  from a have "P (pm_exec (take 0 (i # is)) m)" unfolding always_def by blast
  moreover from a have "P (pm_exec (take (Suc k) (i # is)) m)" for k unfolding always_def by blast
  ultimately show "P m \<and> always P is (pm_exec1 i m)" by (simp add: always_def)
next
  assume a: "P m \<and> always P is (pm_exec1 i m)"
  show "always P (i # is) m" unfolding always_def
  proof
    fix k show "P (pm_exec (take k (i # is)) m)" using a by (cases k) (auto simp: always_def)
  qed
qed

lemma always_append: "always P (is @ js) m \<longleftrightarrow> always P is m \<and> always P js (pm_exec is m)"
proof (induction "is" arbitrary: m)
  case Nil
  show ?case by (cases js) auto
qed auto

lemma always_last: "always P is m \<Longrightarrow> P (pm_exec is m)"
  by (metis always_def order_refl take_all)

text \<open>An invariant that every instruction of the sequence preserves.\<close>

lemma always_inv:
  "I m \<Longrightarrow> (\<And>i m. i \<in> set is \<Longrightarrow> I m \<Longrightarrow> I (pm_exec1 i m)) \<Longrightarrow> (\<And>m. I m \<Longrightarrow> P m) \<Longrightarrow> always P is m"
  by (induction "is" arbitrary: m) auto

lemma exec_inv:
  "I m \<Longrightarrow> (\<And>i m. i \<in> set is \<Longrightarrow> I m \<Longrightarrow> I (pm_exec1 i m)) \<Longrightarrow> I (pm_exec is m)"
  by (induction "is" arbitrary: m) auto

lemma writes_take: "l \<notin> writes is \<Longrightarrow> l \<notin> writes (take k is)"
  by (auto simp: writes_def dest: in_set_takeD)

lemma always_settled:
  assumes "settled m l" "l \<notin> writes is"
  shows "always (\<lambda>m'. settled m' l \<and> pm_cur m' l = pm_cur m l) is m"
  unfolding always_def using settled_exec cur_unwritten writes_take assms by metis

lemma always_settled_val:
  "settled m l \<and> pm_cur m l = v \<Longrightarrow> l \<notin> writes is \<Longrightarrow> always (\<lambda>m'. settled m' l \<and> pm_cur m' l = v) is m"
  using always_settled by blast

lemma always_mono: "always P is m \<Longrightarrow> (\<And>m. P m \<Longrightarrow> Q m) \<Longrightarrow> always Q is m"
  by (simp add: always_def)

lemma always_conj: "always P is m \<Longrightarrow> always Q is m \<Longrightarrow> always (\<lambda>m. P m \<and> Q m) is m"
  by (simp add: always_def)

lemma always_all: "(\<And>x. x \<in> A \<Longrightarrow> always (P x) is m) \<Longrightarrow> always (\<lambda>m. \<forall>x\<in>A. P x m) is m"
  by (simp add: always_def)

text \<open>Without stores to it, the possible durable values of a location do not grow.\<close>

lemma dur_unwritten_subset:
  assumes "l \<notin> writes is" "pm_dur m l \<subseteq> S" "pm_since m l \<subseteq> S" "pm_cur m l \<in> S"
  shows "always (\<lambda>m'. pm_dur m' l \<subseteq> S \<and> pm_since m' l \<subseteq> S \<and> pm_cur m' l \<in> S) is m"
proof (rule always_inv)
  fix i and m' :: pm assume i: "i \<in> set is" and I: "pm_dur m' l \<subseteq> S \<and> pm_since m' l \<subseteq> S \<and> pm_cur m' l \<in> S"
  have "l \<notin> instr_writes i" using assms(1) i by (auto simp: writes_def)
  with I show "pm_dur (pm_exec1 i m') l \<subseteq> S \<and> pm_since (pm_exec1 i m') l \<subseteq> S \<and> pm_cur (pm_exec1 i m') l \<in> S"
    by (cases i) (auto simp: pm_store_def)
qed (use assms in auto)

end
