(* ===== verification/RomulusLog.thy ===== *)
theory RomulusLog
  imports PMem
begin

text \<open>
  The persistent transactional memory RomulusLog (ptms/romuluslog/RomulusLog.hpp and .cpp):
  two replicas main and back of the heap, a three-valued state in the persistent header, and a
  volatile log of the ranges a transaction has modified. Every function is translated to the
  sequence of persistent-memory instructions it issues, so a crash may strike between any two.
\<close>

subsection \<open>State\<close>

abbreviation (input) IDLE :: u64 where "IDLE \<equiv> 0"
abbreviation (input) MUTATING :: u64 where "MUTATING \<equiv> 1"
abbreviation (input) COPYING :: u64 where "COPYING \<equiv> 2"

definition CHUNK_SIZE :: nat where "CHUNK_SIZE = 1024"

text \<open>
  A log entry is an offset relative to main and a length. The offset is a size_t; as it is only
  ever added to a base address, an integer stands for it.
\<close>

type_synonym log_entry = "int \<times> nat"

record romlayout =
  main_addr :: nat
  main_size :: nat

definition back_addr :: "romlayout \<Rightarrow> nat" where
  "back_addr L = main_addr L + main_size L"

text \<open>The volatile part: the chunks of the log from head to tail, and two counters.\<close>

record romvol =
  r_chunks :: "log_entry list list"
  r_log_size :: nat
  r_logEnabled :: bool
  r_nested :: int

definition rom_init :: romvol where
  "rom_init = \<lparr>r_chunks = [[]], r_log_size = 0, r_logEnabled = True, r_nested = 0\<rparr>"

definition r_log :: "romvol \<Rightarrow> log_entry list" where
  "r_log v = concat (r_chunks v)"

subsection \<open>Write-backs and copies\<close>

definition flush_range :: "nat \<Rightarrow> nat \<Rightarrow> pm_instr list" where
  "flush_range addr len = map (\<lambda>i. Pwb (LByte (addr + 64 * i))) [0..<(len + 63) div 64]"

definition memcpy :: "nat \<Rightarrow> nat \<Rightarrow> nat \<Rightarrow> pm_instr list" where
  "memcpy to from len = map (\<lambda>i. Cp (to + i) (from + i)) [0..<len]"

definition copyMainToBack :: "romlayout \<Rightarrow> u64 \<Rightarrow> pm_instr list" where
  "copyMainToBack L used =
     (let sz = min (unat used) (main_size L)
      in memcpy (back_addr L) (main_addr L) sz @ flush_range (back_addr L) sz)"

definition copyBackToMain :: "romlayout \<Rightarrow> u64 \<Rightarrow> pm_instr list" where
  "copyBackToMain L used =
     (let sz = min (unat used) (main_size L)
      in memcpy (main_addr L) (back_addr L) sz @ flush_range (main_addr L) sz)"

definition rel_addr :: "nat \<Rightarrow> int \<Rightarrow> nat" where
  "rel_addr base off = nat (int base + off)"

definition apply_pwb :: "nat \<Rightarrow> romvol \<Rightarrow> pm_instr list" where
  "apply_pwb from_addr v = concat (map (\<lambda>(off, len). flush_range (rel_addr from_addr off) len) (r_log v))"

definition apply_log :: "nat \<Rightarrow> nat \<Rightarrow> romvol \<Rightarrow> pm_instr list" where
  "apply_log from_addr to_addr v =
     concat (map (\<lambda>(off, len). memcpy (rel_addr to_addr off) (rel_addr from_addr off) len) (r_log v))"

definition clear_log :: "romvol \<Rightarrow> romvol" where
  "clear_log v = v\<lparr>r_chunks := [[]]\<rparr>"

subsection \<open>The log\<close>

text \<open>An entry for the whole cache line cl.\<close>

definition is_line_entry :: "romlayout \<Rightarrow> nat \<Rightarrow> log_entry \<Rightarrow> bool" where
  "is_line_entry L cl e \<longleftrightarrow>
     (let a = fst e + int (main_addr L) in snd e = 64 \<and> a div 64 * 64 = a \<and> a div 64 = int cl)"

text \<open>
  A store that stays in its cache line is logged as that line, unless the line is among the
  last 15 entries of the current chunk. Any other store is logged as the exact range. When
  the log has grown past a quarter of the used size, logging is switched off.
\<close>

definition add_to_log :: "romlayout \<Rightarrow> u64 \<Rightarrow> nat \<Rightarrow> nat \<Rightarrow> romvol \<Rightarrow> romvol" where
  "add_to_log L used addr len v =
     (if \<not> r_logEnabled v then v
      else if r_log_size v > unat (used div 4) then v\<lparr>r_logEnabled := False\<rparr>
      else let addrCL = addr div 64;
               chunk = last (r_chunks v);
               sameCL = (addrCL = (addr + len) div 64)
           in if sameCL \<and> list_ex (is_line_entry L addrCL) (take 15 (rev chunk)) then v
              else let e = (if sameCL then (int (addrCL * 64) - int (main_addr L), 64)
                            else (int addr - int (main_addr L), len));
                       chunks = (if length chunk = CHUNK_SIZE then r_chunks v @ [[e]]
                                 else butlast (r_chunks v) @ [chunk @ [e]])
                   in v\<lparr>r_chunks := chunks, r_log_size := r_log_size v + len\<rparr>)"

subsection \<open>Transactions\<close>

text \<open>
  What a transaction does to persistent memory: interposed stores of values (persist::pstore)
  and growth of the used size (tmNew and pmalloc).
\<close>

datatype tx_op = PStore nat "u8 list" | Grow u64

definition store_bytes :: "nat \<Rightarrow> u8 list \<Rightarrow> pm_instr list" where
  "store_bytes addr bs = map (\<lambda>i. St (LByte (addr + i)) (ucast (bs ! i))) [0..<length bs]"

fun rom_op :: "romlayout \<Rightarrow> tx_op \<Rightarrow> u64 \<Rightarrow> romvol \<Rightarrow> pm_instr list \<times> romvol" where
  "rom_op L (PStore addr bs) used v =
     (store_bytes addr bs,
      if main_addr L \<le> addr \<and> addr < main_addr L + main_size L
      then add_to_log L used addr (length bs) v else v)"
| "rom_op L (Grow sz) used v = (if used < sz then [St LUsed sz, Pwb LUsed] else [], v)"

fun rom_body :: "romlayout \<Rightarrow> tx_op list \<Rightarrow> romvol \<Rightarrow> pm \<Rightarrow> pm_instr list \<times> romvol" where
  "rom_body L [] v m = ([], v)"
| "rom_body L (x # xs) v m =
     (let (is, v1) = rom_op L x (pm_cur m LUsed) v;
          (js, v2) = rom_body L xs v1 (pm_exec is m)
      in (is @ js, v2))"

definition begin_transaction :: "romvol \<Rightarrow> pm_instr list \<times> romvol" where
  "begin_transaction v =
     (let v1 = v\<lparr>r_nested := r_nested v + 1\<rparr>
      in if r_nested v1 \<noteq> 1 then ([], v1) else ([St LState MUTATING, Pwb LState, Fence], v1))"

definition commit_main :: "romlayout \<Rightarrow> romvol \<Rightarrow> pm_instr list" where
  "commit_main L v = apply_pwb (main_addr L) v @ [Fence, St LState COPYING, Pwb LState]"

definition replicate_back :: "romlayout \<Rightarrow> romvol \<Rightarrow> u64 \<Rightarrow> pm_instr list \<times> romvol" where
  "replicate_back L v used =
     ((if r_logEnabled v
       then apply_log (main_addr L) (back_addr L) v @ apply_pwb (back_addr L) v
       else copyMainToBack L used)
        @ [Fence, St LState IDLE],
      (clear_log v)\<lparr>r_logEnabled := True, r_log_size := 0\<rparr>)"

definition end_transaction :: "romlayout \<Rightarrow> romvol \<Rightarrow> u64 \<Rightarrow> pm_instr list \<times> romvol" where
  "end_transaction L v used =
     (let v1 = v\<lparr>r_nested := r_nested v - 1\<rparr>
      in if r_nested v1 \<noteq> 0 then ([], v1)
         else let (js, v2) = replicate_back L v1 used
              in (commit_main L v1 @ [Pwb LUsed, Fence] @ js, v2))"

text \<open>begin_transaction, the body, end_transaction: the function transaction.\<close>

definition rom_transaction :: "romlayout \<Rightarrow> tx_op list \<Rightarrow> romvol \<Rightarrow> pm \<Rightarrow> pm_instr list \<times> romvol" where
  "rom_transaction L ops v m =
     (let (is, v1) = begin_transaction v;
          (js, v2) = rom_body L ops v1 (pm_exec is m);
          (ks, v3) = end_transaction L v2 (pm_cur (pm_exec (is @ js) m) LUsed)
      in (is @ js @ ks, v3))"

text \<open>
  ns_write_transaction with flat combining: a nested call just runs its own mutation;
  otherwise the snapshot lfc holds the announced mutation of
  every thread; the combiner runs them all in one transaction and answers each thread after
  the PSYNC that makes main durable.
\<close>

definition announced :: "tx_op list option list \<Rightarrow> tx_op list" where
  "announced lfc = concat (map (\<lambda>f. case f of None \<Rightarrow> [] | Some ops \<Rightarrow> ops) lfc)"

definition ns_write_transaction ::
  "romlayout \<Rightarrow> tx_op list \<Rightarrow> tx_op list option list \<Rightarrow> romvol \<Rightarrow> pm \<Rightarrow> pm_instr list \<times> romvol" where
  "ns_write_transaction L mutativeFunc lfc v m =
     (if r_nested v > 0 then rom_body L mutativeFunc v m
      else if \<not> list_ex (\<lambda>f. f \<noteq> None) lfc then ([], v)
      else let is = [St LState MUTATING, Pwb LState, Fence];
               v0 = v\<lparr>r_nested := r_nested v + 1\<rparr>;
               (js, v1) = rom_body L (announced lfc) v0 (pm_exec is m);
               acks = map Ack (filter (\<lambda>i. lfc ! i \<noteq> None) [0..<length lfc]);
               (ks, v2) = replicate_back L v1 (pm_cur (pm_exec (is @ js) m) LUsed)
           in (is @ js @ commit_main L v1 @ [Fence] @ acks @ ks, v2\<lparr>r_nested := r_nested v2 - 1\<rparr>))"

subsection \<open>Recovery and rollback\<close>

definition recover :: "romlayout \<Rightarrow> (pm_loc \<Rightarrow> u64) \<Rightarrow> pm_instr list option" where
  "recover L img =
     (if img LState = IDLE then Some []
      else if img LState = COPYING then Some (copyMainToBack L (img LUsed) @ [Fence, St LState IDLE])
      else if img LState = MUTATING then Some (copyBackToMain L (img LUsed) @ [Fence, St LState IDLE])
      else None)"

definition abort_transaction :: "romlayout \<Rightarrow> romvol \<Rightarrow> pm_instr list \<times> romvol" where
  "abort_transaction L v =
     (let v1 = v\<lparr>r_nested := r_nested v - 1\<rparr>
      in if r_nested v1 \<noteq> 0 then ([], v1) else (apply_log (back_addr L) (main_addr L) v1, v1))"

text \<open>
  The objects directory: put_object logs the slot before it stores to it and writes it back at
  once.
\<close>

definition put_object :: "romlayout \<Rightarrow> nat \<Rightarrow> nat \<Rightarrow> u8 list \<Rightarrow> u64 \<Rightarrow> romvol \<Rightarrow> pm_instr list \<times> romvol" where
  "put_object L objects idx obj used v =
     (store_bytes (objects + 8 * idx) obj @ [Pwb (LByte (objects + 8 * idx))],
      add_to_log L used (objects + 8 * idx) 8 v)"

definition get_object :: "nat \<Rightarrow> nat \<Rightarrow> pm \<Rightarrow> u64 list" where
  "get_object objects idx m = map (\<lambda>i. pm_cur m (LByte (objects + 8 * idx + i))) [0..<8]"

subsection \<open>The log covers every store while it is enabled\<close>

definition entry_ok :: "romlayout \<Rightarrow> log_entry \<Rightarrow> bool" where
  "entry_ok L e \<longleftrightarrow> (case e of (off, len) \<Rightarrow>
     0 \<le> off \<and> off + int len \<le> int (main_size L) \<and> 0 < len \<and> len \<le> 64
     \<and> (nat off + main_addr L) div 64 = (nat off + main_addr L + len - 1) div 64)"

definition entry_covers :: "romlayout \<Rightarrow> log_entry \<Rightarrow> nat \<Rightarrow> bool" where
  "entry_covers L e a \<longleftrightarrow> (case e of (off, len) \<Rightarrow>
     off \<le> int a - int (main_addr L) \<and> int a - int (main_addr L) < off + int len)"

definition log_ok :: "romlayout \<Rightarrow> romvol \<Rightarrow> bool" where
  "log_ok L v \<longleftrightarrow> r_chunks v \<noteq> [] \<and> (\<forall>c\<in>set (r_chunks v). length c \<le> CHUNK_SIZE) \<and> (\<forall>e\<in>set (r_log v). entry_ok L e)"

definition log_covers :: "romlayout \<Rightarrow> romvol \<Rightarrow> nat set \<Rightarrow> bool" where
  "log_covers L v S \<longleftrightarrow> (\<forall>a\<in>S. \<exists>e\<in>set (r_log v). entry_covers L e a)"

text \<open>A store inside main, a cache line away from its ends, that does not cross a line.\<close>

definition store_ok :: "romlayout \<Rightarrow> nat \<Rightarrow> nat \<Rightarrow> bool" where
  "store_ok L addr len \<longleftrightarrow> 0 < len \<and> main_addr L + 64 \<le> addr \<and> addr + len + 64 \<le> main_addr L + main_size L
     \<and> addr div 64 = (addr + len - 1) div 64"

lemma same_line_bounds:
  "addr div 64 = (addr + len - 1) div 64 \<Longrightarrow> 0 < len \<Longrightarrow>
     addr div 64 * 64 \<le> addr \<and> addr + len \<le> addr div 64 * 64 + (64 :: nat)"
proof -
  assume a: "addr div 64 = (addr + len - 1) div 64" "0 < len"
  have "x < x div 64 * 64 + 64" for x :: nat by presburger
  from this [of "addr + len - 1"] a have "addr + len - 1 < addr div 64 * 64 + 64" by simp
  with a(2) show ?thesis by simp
qed

lemma line_entry_covers:
  assumes "store_ok L addr len" "is_line_entry L (addr div 64) e" "addr \<le> a" "a < addr + len"
  shows "entry_covers L e a"
proof -
  obtain off where e: "e = (off, 64)" "off + int (main_addr L) = int (addr div 64 * 64)"
    using assms(2) by (cases e) (auto simp: is_line_entry_def Let_def)
  from same_line_bounds [of addr len] assms(1) have "addr div 64 * 64 \<le> addr" "addr + len \<le> addr div 64 * 64 + 64"
    by (auto simp: store_ok_def)
  with assms(3,4) have "addr div 64 * 64 \<le> a" "a < addr div 64 * 64 + 64" by linarith+
  then have "int (addr div 64 * 64) \<le> int a" "int a < int (addr div 64 * 64) + 64" by linarith+
  with e show ?thesis by (simp add: entry_covers_def del: of_nat_mult)
qed

lemma new_line_entry:
  assumes "store_ok L addr len"
  shows "entry_ok L (int (addr div 64 * 64) - int (main_addr L), 64)"
    "is_line_entry L (addr div 64) (int (addr div 64 * 64) - int (main_addr L), 64)"
proof -
  define c where "c = addr div 64"
  have b: "c * 64 \<le> addr" "addr < c * 64 + 64" by (simp_all add: c_def)
  with assms have lo: "main_addr L \<le> c * 64" and hi: "c * 64 + 64 \<le> main_addr L + main_size L"
    by (auto simp: store_ok_def)
  have "nat (int (c * 64) - int (main_addr L)) + main_addr L = c * 64" using lo by linarith
  then show "entry_ok L (int (addr div 64 * 64) - int (main_addr L), 64)"
    using lo hi unfolding entry_ok_def c_def [symmetric] by auto
  show "is_line_entry L (addr div 64) (int (addr div 64 * 64) - int (main_addr L), 64)"
    by (simp add: is_line_entry_def Let_def)
qed

lemma new_range_entry:
  assumes "store_ok L addr len"
  shows "entry_ok L (int addr - int (main_addr L), len)"
proof -
  have "len \<le> 64" using same_line_bounds [of addr len] assms by (auto simp: store_ok_def)
  moreover have "nat (int addr - int (main_addr L)) + main_addr L = addr" using assms by (auto simp: store_ok_def)
  ultimately show ?thesis using assms by (auto simp: entry_ok_def store_ok_def)
qed

text \<open>What add_to_log does to the log, on each of its paths.\<close>

lemma add_to_log_cases:
  assumes "log_ok L v" "store_ok L addr len" "r_logEnabled v"
  obtains (off) "r_logEnabled (add_to_log L used addr len v) = False" "r_log (add_to_log L used addr len v) = r_log v"
      "log_ok L (add_to_log L used addr len v)"
  | (dup) e where "add_to_log L used addr len v = v" "e \<in> set (r_log v)" "is_line_entry L (addr div 64) e"
  | (new) e where "r_log (add_to_log L used addr len v) = r_log v @ [e]" "log_ok L (add_to_log L used addr len v)"
      "r_logEnabled (add_to_log L used addr len v)" "\<And>a. addr \<le> a \<Longrightarrow> a < addr + len \<Longrightarrow> entry_covers L e a"
proof -
  let ?chunk = "last (r_chunks v)" and ?same = "addr div 64 = (addr + len) div 64"
  let ?dup = "?same \<and> list_ex (is_line_entry L (addr div 64)) (take 15 (rev ?chunk))"
  let ?e = "if ?same then (int (addr div 64 * 64) - int (main_addr L), 64) else (int addr - int (main_addr L), len)"
  let ?chunks = "if length ?chunk = CHUNK_SIZE then r_chunks v @ [[?e]] else butlast (r_chunks v) @ [?chunk @ [?e]]"
  have ne: "r_chunks v \<noteq> []" and small: "\<forall>c\<in>set (r_chunks v). length c \<le> CHUNK_SIZE" using assms(1) by (auto simp: log_ok_def)
  then have split: "r_chunks v = butlast (r_chunks v) @ [?chunk]" by simp
  show ?thesis
  proof (cases "r_log_size v > unat (used div 4)")
    case True
    with assms show ?thesis by (intro off) (auto simp: add_to_log_def log_ok_def r_log_def)
  next
    case small_log: False
    show ?thesis
    proof (cases ?dup)
      case True
      then obtain e where "e \<in> set ?chunk" "is_line_entry L (addr div 64) e"
        by (auto simp: list_ex_iff dest: in_set_takeD)
      moreover have "set ?chunk \<subseteq> set (r_log v)" using last_in_set [OF ne] by (auto simp: r_log_def)
      ultimately show ?thesis using True small_log assms(3) by (intro dup [of e]) (auto simp: add_to_log_def Let_def)
    next
      case False
      have eq: "add_to_log L used addr len v = v\<lparr>r_chunks := ?chunks, r_log_size := r_log_size v + len\<rparr>"
        using False small_log assms(3) by (auto simp: add_to_log_def Let_def)
      have log: "r_log (add_to_log L used addr len v) = r_log v @ [?e]"
      proof -
        have "concat ?chunks = concat (r_chunks v) @ [?e]"
          by (cases "length ?chunk = CHUNK_SIZE") (simp, subst (3) split, simp)
        then show ?thesis unfolding r_log_def eq by simp
      qed
      have eok: "entry_ok L ?e"
        using new_line_entry(1) [OF assms(2)] new_range_entry [OF assms(2)] by (simp only: split: if_split) blast
      have "length ?chunk \<le> CHUNK_SIZE" using small last_in_set [OF ne] by blast
      then have "\<forall>c\<in>set ?chunks. length c \<le> CHUNK_SIZE"
        using small by (auto simp: CHUNK_SIZE_def dest: in_set_butlastD)
      then have "log_ok L (add_to_log L used addr len v)"
        using assms(1) eok log by (simp add: log_ok_def eq)
      moreover have "entry_covers L ?e a" if "addr \<le> a" "a < addr + len" for a
        using line_entry_covers [OF assms(2) new_line_entry(2) [OF assms(2)] that] that
        by (auto simp: entry_covers_def)
      ultimately show ?thesis using log assms(3) by (intro new [of ?e]) (auto simp: eq)
    qed
  qed
qed

subsection \<open>The body of a transaction\<close>

fun op_ok :: "romlayout \<Rightarrow> tx_op \<Rightarrow> bool" where
  "op_ok L (PStore addr bs) \<longleftrightarrow> store_ok L addr (length bs)"
| "op_ok L (Grow sz) \<longleftrightarrow> unat sz \<le> main_size L"

fun op_stored :: "tx_op \<Rightarrow> nat set" where
  "op_stored (PStore addr bs) = {addr..<addr + length bs}"
| "op_stored (Grow sz) = {}"

definition tx_stored :: "tx_op list \<Rightarrow> nat set" where
  "tx_stored ops = (\<Union>x\<in>set ops. op_stored x)"

lemma rom_op_log:
  assumes "log_ok L v" "op_ok L x" "rom_op L x used v = (is, v')"
  shows "log_ok L v' \<and> r_nested v' = r_nested v \<and> set (r_log v) \<subseteq> set (r_log v')
     \<and> (r_logEnabled v' \<longrightarrow> r_logEnabled v \<and> log_covers L v' (op_stored x))"
proof (cases x)
  case (Grow sz)
  with assms show ?thesis by (auto simp: log_covers_def)
next
  case (PStore addr bs)
  with assms(2) have ok: "store_ok L addr (length bs)" by simp
  then have "main_addr L \<le> addr \<and> addr < main_addr L + main_size L" by (auto simp: store_ok_def)
  with assms(3) PStore have v': "v' = add_to_log L used addr (length bs) v" by simp
  have nested: "r_nested v' = r_nested v" unfolding v' by (simp add: add_to_log_def Let_def)
  show ?thesis
  proof (cases "r_logEnabled v")
    case False
    then have "v' = v" by (simp add: v' add_to_log_def)
    with False assms(1) show ?thesis by simp
  next
    case True
    from assms(1) ok True show ?thesis
    proof (cases rule: add_to_log_cases [where used = used])
      case off
      with nested show ?thesis by (simp add: v')
    next
      case (dup e)
      have "\<exists>e\<in>set (r_log v'). entry_covers L e a" if "a \<in> op_stored x" for a
        using line_entry_covers [OF ok dup(3)] dup(1,2) that by (auto simp: v' PStore)
      with dup(1) assms(1) True show ?thesis by (auto simp: v' log_covers_def)
    next
      case (new e)
      have "\<exists>e\<in>set (r_log v'). entry_covers L e a" if "a \<in> op_stored x" for a
        using new(1,4) that by (auto simp: v' PStore)
      with new nested True show ?thesis by (auto simp: v' log_covers_def)
    qed
  qed
qed

lemma rom_body_log:
  assumes "log_ok L v" "\<forall>x\<in>set ops. op_ok L x" "rom_body L ops v m = (is, v')"
  shows "log_ok L v' \<and> r_nested v' = r_nested v \<and> set (r_log v) \<subseteq> set (r_log v')
     \<and> (r_logEnabled v' \<longrightarrow> r_logEnabled v \<and> log_covers L v' (tx_stored ops))"
  using assms
proof (induction ops arbitrary: v m "is")
  case Nil then show ?case by (simp add: log_covers_def tx_stored_def)
next
  case (Cons x ops)
  from Cons.prems(3) obtain js v1 ks where op: "rom_op L x (pm_cur m LUsed) v = (js, v1)"
    and rest: "rom_body L ops v1 (pm_exec js m) = (ks, v')"
    by (auto simp: Let_def split: prod.splits)
  note a = rom_op_log [OF Cons.prems(1) _ op]
  note b = Cons.IH [OF _ _ rest]
  from a b Cons.prems(2) show ?case by (auto simp: log_covers_def tx_stored_def) blast+
qed

lemma rom_op_instrs:
  "i \<in> set (fst (rom_op L x used v)) \<Longrightarrow> (\<exists>a w. i = St (LByte a) w \<and> a \<in> op_stored x) \<or> (\<exists>w. i = St LUsed w \<and> used < w) \<or> i = Pwb LUsed"
  by (cases x) (auto simp: store_bytes_def split: if_splits)

lemma rom_body_instrs:
  "i \<in> set (fst (rom_body L ops v m)) \<Longrightarrow> (\<exists>a w. i = St (LByte a) w \<and> a \<in> tx_stored ops) \<or> (\<exists>w. i = St LUsed w) \<or> i = Pwb LUsed"
proof (induction ops arbitrary: v m)
  case (Cons x ops)
  obtain js v1 where op: "rom_op L x (pm_cur m LUsed) v = (js, v1)" by (cases "rom_op L x (pm_cur m LUsed) v")
  with Cons.prems consider "i \<in> set js" | "i \<in> set (fst (rom_body L ops v1 (pm_exec js m)))"
    by (auto simp: Let_def split: prod.splits)
  then show ?case
  proof cases
    case 1
    with rom_op_instrs [of i L x "pm_cur m LUsed" v] op show ?thesis by (auto simp: tx_stored_def)
  next
    case 2
    with Cons.IH show ?thesis by (fastforce simp: tx_stored_def)
  qed
qed simp

lemma rom_body_writes: "writes (fst (rom_body L ops v m)) \<subseteq> LByte ` tx_stored ops \<union> {LUsed}"
  using rom_body_instrs by (fastforce simp: writes_def)

text \<open>The used size only grows, on the medium too, and is written back after every growth.\<close>

definition used_at_least :: "u64 \<Rightarrow> pm \<Rightarrow> bool" where
  "used_at_least U m \<longleftrightarrow> U \<le> pm_cur m LUsed \<and> (\<forall>u\<in>pm_dur m LUsed. U \<le> u)
     \<and> (pm_flush m LUsed \<longrightarrow> (\<forall>u\<in>pm_since m LUsed. U \<le> u))"

lemma rom_op_used:
  assumes "used_at_least U m" "rom_op L x (pm_cur m LUsed) v = (is, v')"
  shows "always (used_at_least U) is m"
proof (rule always_inv [where I = "used_at_least U"])
  fix i and m' :: pm assume i: "i \<in> set is" "used_at_least U m'"
  have "U \<le> pm_cur m LUsed" using assms(1) by (simp add: used_at_least_def)
  then show "used_at_least U (pm_exec1 i m')"
    using rom_op_instrs [of i L x "pm_cur m LUsed" v] assms(2) i
    by (auto simp: used_at_least_def pm_store_def)
qed (use assms in auto)

lemma rom_body_used:
  assumes "used_at_least U m" shows "always (used_at_least U) (fst (rom_body L ops v m)) m"
  using assms
proof (induction ops arbitrary: v m)
  case (Cons x ops)
  obtain js v1 where op: "rom_op L x (pm_cur m LUsed) v = (js, v1)" by (cases "rom_op L x (pm_cur m LUsed) v")
  note a = rom_op_used [OF Cons.prems op]
  from Cons.IH [OF always_last [OF a], of v1] a op show ?case
    by (auto simp: Let_def always_append split: prod.splits)
qed simp

lemma rom_body_used_flushed:
  assumes "flushed m LUsed \<or> settled m LUsed"
  shows "flushed (pm_exec (fst (rom_body L ops v m)) m) LUsed \<or> settled (pm_exec (fst (rom_body L ops v m)) m) LUsed"
  using assms
proof (induction ops arbitrary: v m)
  case (Cons x ops)
  obtain js v1 where op: "rom_op L x (pm_cur m LUsed) v = (js, v1)" by (cases "rom_op L x (pm_cur m LUsed) v")
  have "flushed (pm_exec js m) LUsed \<or> settled (pm_exec js m) LUsed"
  proof (cases x)
    case (PStore addr bs)
    then have "LUsed \<notin> writes js" using op by (auto simp: store_bytes_def writes_def)
    with flushed_exec Cons.prems show ?thesis by blast
  next
    case (Grow sz)
    show ?thesis
    proof (cases "pm_cur m LUsed < sz")
      case True
      then have "js = [St LUsed sz, Pwb LUsed]" using op Grow by simp
      then show ?thesis by (simp add: flushed_def)
    next
      case False
      then have "js = []" using op Grow by simp
      with Cons.prems show ?thesis by simp
    qed
  qed
  from Cons.IH [OF this, of v1] op show ?case by (auto simp: Let_def split: prod.splits)
qed simp

subsection \<open>Copies and write-backs\<close>

lemma memcpy_writes: "writes (memcpy to from len) = LByte ` {to..<to + len}"
proof -
  have "{to..<to + len} = (\<lambda>i. to + i) ` {0..<len}" by (simp add: image_add_atLeastLessThan ac_simps)
  moreover have "writes (memcpy to from len) = LByte ` (\<lambda>i. to + i) ` {0..<len}"
    unfolding image_image by (simp add: writes_def memcpy_def) blast
  ultimately show ?thesis by simp
qed

lemma memcpy_Suc: "memcpy to from (Suc len) = memcpy to from len @ [Cp (to + len) (from + len)]"
  by (simp add: memcpy_def)

text \<open>A copy between ranges that do not overlap.\<close>

lemma memcpy_cur:
  assumes "to + len \<le> from \<or> from + len \<le> to"
  shows "pm_cur (pm_exec (memcpy to from len) m) (LByte a) =
     (if to \<le> a \<and> a < to + len then pm_cur m (LByte (from + (a - to))) else pm_cur m (LByte a))"
  using assms
proof (induction len arbitrary: a)
  case 0 then show ?case by (auto simp: memcpy_def)
next
  case (Suc len)
  have "to + len \<le> from \<or> from + len \<le> to" using Suc.prems by auto
  note IH = Suc.IH [OF this]
  show ?case using IH [of a] IH [of "from + len"] Suc.prems
    by (auto simp: memcpy_Suc pm_store_def)
qed

lemma flush_range_writes [simp]: "writes (flush_range addr len) = {}"
  by (simp add: writes_def flush_range_def)

lemma flush_range_cur [simp]: "pm_cur (pm_exec (flush_range addr len) m) = pm_cur m"
  using cur_unwritten [of _ "flush_range addr len" m] by (simp add: fun_eq_iff)

text \<open>
  flush_range starts at an address that need not be aligned, so its last write-back may end
  before the range does: all but the last 63 bytes are certain.
\<close>

lemma flush_range_covers:
  assumes "addr \<le> a" "a + 64 \<le> addr + len"
  shows "\<exists>l. Pwb l \<in> set (flush_range addr len) \<and> same_line l (LByte a)"
proof -
  define i where "i = a div 64 - addr div 64"
  have le: "addr div 64 \<le> a div 64" using assms(1) by (rule div_le_mono)
  have "64 * (a div 64) \<le> a" "addr < 64 * (addr div 64) + 64" by simp_all
  moreover have "64 * (a div 64) = 64 * (addr div 64) + 64 * i" using le by (simp add: i_def diff_mult_distrib2)
  ultimately have "64 * i < len" using assms(2) by linarith
  then have "i < (len + 63) div 64" by simp
  moreover have "(addr + 64 * i) div 64 = a div 64" using le by (simp add: i_def)
  ultimately show ?thesis
    by (intro exI [of _ "LByte (addr + 64 * i)"]) (simp add: flush_range_def)
qed

lemma flush_range_one_line:
  assumes "0 < len" "len \<le> 64" "addr div 64 = (addr + len - 1) div 64" "addr \<le> a" "a < addr + len"
  shows "\<exists>l. Pwb l \<in> set (flush_range addr len) \<and> same_line l (LByte a)"
proof -
  have "(len + 63) div 64 = 1" using assms(1,2) by (auto intro!: div_nat_eqI)
  moreover have "a div 64 = addr div 64"
    using assms(3-5) div_le_mono [of addr a 64] div_le_mono [of a "addr + len - 1" 64] by linarith
  ultimately show ?thesis by (intro exI [of _ "LByte addr"]) (simp add: flush_range_def)
qed

lemma rel_addr_ok: "0 \<le> off \<Longrightarrow> rel_addr base off = base + nat off"
  by (simp add: rel_addr_def nat_add_distrib)

lemma apply_pwb_writes [simp]: "writes (apply_pwb base v) = {}"
proof -
  have "writes (concat (map (\<lambda>(off, len). flush_range (rel_addr base off) len) es)) = {}" for es
    by (induction es) auto
  then show ?thesis by (simp add: apply_pwb_def)
qed

lemma apply_pwb_cur [simp]: "pm_cur (pm_exec (apply_pwb base v) m) = pm_cur m"
  using cur_unwritten [of _ "apply_pwb base v" m] by (simp add: fun_eq_iff)

text \<open>apply_pwb writes back every byte of main that the log covers.\<close>

lemma apply_pwb_main_covers:
  assumes "log_ok L v" "e \<in> set (r_log v)" "entry_covers L e a"
  shows "\<exists>l. Pwb l \<in> set (apply_pwb (main_addr L) v) \<and> same_line l (LByte a)"
proof -
  obtain off len where e: "e = (off, len)" by (cases e)
  with assms have ok: "0 \<le> off" "0 < len" "len \<le> 64"
    "(nat off + main_addr L) div 64 = (nat off + main_addr L + len - 1) div 64"
    "off \<le> int a - int (main_addr L)" "int a - int (main_addr L) < off + int len"
    by (auto simp: log_ok_def entry_ok_def entry_covers_def)
  have "main_addr L + nat off \<le> a" "a < main_addr L + nat off + len" using ok(1,5,6) by linarith+
  then obtain l where "Pwb l \<in> set (flush_range (main_addr L + nat off) len)" "same_line l (LByte a)"
    using flush_range_one_line [of len "main_addr L + nat off" a] ok(2-4) by (auto simp: ac_simps)
  with e assms(2) rel_addr_ok [OF ok(1), of "main_addr L"] show ?thesis by (force simp: apply_pwb_def)
qed

lemma apply_log_writes:
  assumes "\<forall>e\<in>set (r_log v). entry_ok L e"
  shows "writes (apply_log (main_addr L) (back_addr L) v) \<subseteq> LByte ` {back_addr L..<back_addr L + main_size L}"
proof -
  have "\<forall>e\<in>set es. entry_ok L e \<Longrightarrow>
     writes (concat (map (\<lambda>(off, len). memcpy (rel_addr (back_addr L) off) (rel_addr (main_addr L) off) len) es))
       \<subseteq> LByte ` {back_addr L..<back_addr L + main_size L}" for es
  proof (induction es)
    case (Cons e es)
    obtain off len where e: "e = (off, len)" by (cases e)
    with Cons.prems have "0 \<le> off" "nat off + len \<le> main_size L" by (auto simp: entry_ok_def)
    then have "writes (memcpy (rel_addr (back_addr L) off) (rel_addr (main_addr L) off) len)
       \<subseteq> LByte ` {back_addr L..<back_addr L + main_size L}"
      unfolding memcpy_writes by (intro image_mono) (auto simp: rel_addr_ok)
    with Cons e show ?case by simp
  qed simp
  with assms show ?thesis by (simp add: apply_log_def)
qed

text \<open>
  Applying the log makes back equal to main wherever the log covers it, and leaves the rest of
  back, and main, alone.
\<close>

lemma apply_log_back:
  assumes "\<forall>e\<in>set (r_log v). entry_ok L e" "o' < main_size L"
  shows "pm_cur (pm_exec (apply_log (main_addr L) (back_addr L) v) m) (LByte (back_addr L + o')) =
     (if \<exists>e\<in>set (r_log v). entry_covers L e (main_addr L + o')
      then pm_cur m (LByte (main_addr L + o')) else pm_cur m (LByte (back_addr L + o')))"
proof -
  let ?cp = "\<lambda>es. concat (map (\<lambda>(off, len). memcpy (rel_addr (back_addr L) off) (rel_addr (main_addr L) off) len) es)"
  have "\<forall>e\<in>set es. entry_ok L e \<Longrightarrow> pm_cur (pm_exec (?cp es) m) (LByte (back_addr L + o')) =
     (if \<exists>e\<in>set es. entry_covers L e (main_addr L + o')
      then pm_cur m (LByte (main_addr L + o')) else pm_cur m (LByte (back_addr L + o')))" for es
  proof (induction es arbitrary: m)
    case (Cons e es)
    obtain off len where e: "e = (off, len)" by (cases e)
    with Cons.prems have ok: "0 \<le> off" "off + int len \<le> int (main_size L)" by (auto simp: entry_ok_def)
    have sep: "back_addr L + nat off + len \<le> main_addr L + nat off \<or> main_addr L + nat off + len \<le> back_addr L + nat off"
      using ok by (auto simp: back_addr_def)
    let ?m1 = "pm_exec (memcpy (back_addr L + nat off) (main_addr L + nat off) len) m"
    have main: "pm_cur ?m1 (LByte (main_addr L + o')) = pm_cur m (LByte (main_addr L + o'))"
      using memcpy_cur [OF sep] assms(2) ok by (simp add: back_addr_def)
    have bk: "pm_cur ?m1 (LByte (back_addr L + o')) =
        (if entry_covers L e (main_addr L + o') then pm_cur m (LByte (main_addr L + o')) else pm_cur m (LByte (back_addr L + o')))"
    proof -
      have "back_addr L + nat off \<le> back_addr L + o' \<and> back_addr L + o' < back_addr L + nat off + len
          \<longleftrightarrow> entry_covers L e (main_addr L + o')"
        using ok by (auto simp: entry_covers_def e)
      moreover have "main_addr L + nat off + (back_addr L + o' - (back_addr L + nat off)) = main_addr L + o'"
        if "nat off \<le> o'" using that by simp
      ultimately show ?thesis using memcpy_cur [OF sep, of m "back_addr L + o'"] by auto
    qed
    have "pm_exec (?cp (e # es)) m = pm_exec (?cp es) ?m1" using ok by (simp add: e rel_addr_ok)
    then show ?case using Cons.IH [of ?m1] Cons.prems main bk by auto
  qed simp
  with assms(1) show ?thesis by (simp add: apply_log_def)
qed

subsection \<open>What recovery yields\<close>

definition recovered :: "romlayout \<Rightarrow> (pm_loc \<Rightarrow> u64) \<Rightarrow> pm option" where
  "recovered L img = map_option (\<lambda>is. pm_exec is (pm_boot img)) (recover L img)"

lemma recovered_main:
  assumes "img LState \<in> {IDLE, MUTATING, COPYING}"
  shows "\<exists>m. recovered L img = Some m \<and> (\<forall>o' < main_size L. pm_cur m (LByte (main_addr L + o')) =
     (if img LState = MUTATING \<and> o' < unat (img LUsed) then img (LByte (back_addr L + o'))
      else img (LByte (main_addr L + o'))))"
proof -
  consider "img LState = IDLE" | "img LState = COPYING" | "img LState = MUTATING" using assms by auto
  then show ?thesis
  proof cases
    case 1
    then show ?thesis by (simp add: recovered_def recover_def pm_boot_def)
  next
    case 2
    let ?sz = "min (unat (img LUsed)) (main_size L)"
    have sep: "back_addr L + ?sz \<le> main_addr L \<or> main_addr L + ?sz \<le> back_addr L" by (simp add: back_addr_def)
    have "pm_cur (pm_exec (memcpy (back_addr L) (main_addr L) ?sz) (pm_boot img)) (LByte (main_addr L + o'))
        = img (LByte (main_addr L + o'))" if "o' < main_size L" for o'
      using memcpy_cur [OF sep, of "pm_boot img" "main_addr L + o'"] that by (simp add: back_addr_def pm_boot_def)
    with 2 show ?thesis by (simp add: recovered_def recover_def copyMainToBack_def Let_def pm_store_def)
  next
    case 3
    let ?sz = "min (unat (img LUsed)) (main_size L)"
    have sep: "main_addr L + ?sz \<le> back_addr L \<or> back_addr L + ?sz \<le> main_addr L" by (simp add: back_addr_def)
    have "pm_cur (pm_exec (memcpy (main_addr L) (back_addr L) ?sz) (pm_boot img)) (LByte (main_addr L + o'))
        = (if o' < unat (img LUsed) then img (LByte (back_addr L + o')) else img (LByte (main_addr L + o')))"
      if "o' < main_size L" for o'
      using memcpy_cur [OF sep, of "pm_boot img" "main_addr L + o'"] that by (simp add: pm_boot_def)
    with 3 show ?thesis by (simp add: recovered_def recover_def copyBackToMain_def Let_def pm_store_def)
  qed
qed

text \<open>Every crash image recovers to the contents A on the offsets Q.\<close>

definition recovers_to :: "romlayout \<Rightarrow> nat set \<Rightarrow> (nat \<Rightarrow> u64) \<Rightarrow> pm \<Rightarrow> bool" where
  "recovers_to L Q A m \<longleftrightarrow> (\<forall>img. crash_image m img \<longrightarrow>
     (\<exists>m'. recovered L img = Some m' \<and> (\<forall>o'\<in>Q. pm_cur m' (LByte (main_addr L + o')) = A o')))"

text \<open>Every crash image recovers to the contents A on Q, or to the contents B on R.\<close>

definition recovers_either :: "romlayout \<Rightarrow> nat set \<Rightarrow> (nat \<Rightarrow> u64) \<Rightarrow> nat set \<Rightarrow> (nat \<Rightarrow> u64) \<Rightarrow> pm \<Rightarrow> bool" where
  "recovers_either L Q A R B m \<longleftrightarrow> (\<forall>img. crash_image m img \<longrightarrow>
     (\<exists>m'. recovered L img = Some m' \<and>
       ((\<forall>o'\<in>Q. pm_cur m' (LByte (main_addr L + o')) = A o')
        \<or> (\<forall>o'\<in>R. pm_cur m' (LByte (main_addr L + o')) = B o'))))"

lemma recovers_eitherI:
  assumes "pm_dur m LState \<subseteq> {IDLE, MUTATING, COPYING}"
    "Q \<subseteq> {..<main_size L}" "R \<subseteq> {..<main_size L}"
    "\<And>o'. o' \<in> Q \<Longrightarrow> pm_dur m (LByte (back_addr L + o')) = {A o'}"
    "\<And>o' u. o' \<in> Q \<Longrightarrow> u \<in> pm_dur m LUsed \<Longrightarrow> o' < unat u"
    "(\<forall>o'\<in>R. pm_dur m (LByte (main_addr L + o')) = {B o'}) \<or>
     (if pm_dur m LState \<subseteq> {MUTATING} then True else (\<forall>o'\<in>Q. pm_dur m (LByte (main_addr L + o')) = {A o'}))"
  shows "recovers_either L Q A R B m"
  unfolding recovers_either_def
proof (intro allI impI)
  fix img assume "crash_image m img"
  then have img: "\<And>l. img l \<in> pm_dur m l" by (simp add: crash_image_def)
  then have st: "img LState \<in> {IDLE, MUTATING, COPYING}" using assms(1) by blast
  from recovered_main [of img L, OF st] obtain m' where m': "recovered L img = Some m'"
    "\<forall>o' < main_size L. pm_cur m' (LByte (main_addr L + o')) =
     (if img LState = MUTATING \<and> o' < unat (img LUsed) then img (LByte (back_addr L + o'))
      else img (LByte (main_addr L + o')))" by blast
  have "(\<forall>o'\<in>Q. pm_cur m' (LByte (main_addr L + o')) = A o') \<or> (\<forall>o'\<in>R. pm_cur m' (LByte (main_addr L + o')) = B o')"
  proof (cases "img LState = MUTATING")
    case True
    have "pm_cur m' (LByte (main_addr L + o')) = A o'" if "o' \<in> Q" for o'
      using m'(2) True assms(2,4,5) img [of LUsed] img [of "LByte (back_addr L + o')"] that by auto
    then show ?thesis by blast
  next
    case False
    then have "\<not> pm_dur m LState \<subseteq> {MUTATING}" using img [of LState] by auto
    with assms(6) consider "\<forall>o'\<in>R. pm_dur m (LByte (main_addr L + o')) = {B o'}"
      | "\<forall>o'\<in>Q. pm_dur m (LByte (main_addr L + o')) = {A o'}" by auto
    then show ?thesis
    proof cases
      case 1
      have "pm_cur m' (LByte (main_addr L + o')) = B o'" if "o' \<in> R" for o'
        using m'(2) False assms(3) 1 img [of "LByte (main_addr L + o')"] that by auto
      then show ?thesis by blast
    next
      case 2
      have "pm_cur m' (LByte (main_addr L + o')) = A o'" if "o' \<in> Q" for o'
        using m'(2) False assms(2) 2 img [of "LByte (main_addr L + o')"] that by auto
      then show ?thesis by blast
    qed
  qed
  with m'(1) show "\<exists>m'. recovered L img = Some m' \<and>
       ((\<forall>o'\<in>Q. pm_cur m' (LByte (main_addr L + o')) = A o')
        \<or> (\<forall>o'\<in>R. pm_cur m' (LByte (main_addr L + o')) = B o'))" by blast
qed

lemma recovers_toI:
  assumes "pm_dur m LState \<subseteq> {IDLE, COPYING}" "R \<subseteq> {..<main_size L}"
    "\<And>o'. o' \<in> R \<Longrightarrow> pm_dur m (LByte (main_addr L + o')) = {B o'}"
  shows "recovers_to L R B m"
  unfolding recovers_to_def
proof (intro allI impI)
  fix img assume "crash_image m img"
  then have img: "\<And>l. img l \<in> pm_dur m l" by (simp add: crash_image_def)
  then have st: "img LState \<in> {IDLE, MUTATING, COPYING}" "img LState \<noteq> MUTATING" using assms(1) by fastforce+
  from recovered_main [of img L, OF st(1)] st(2) obtain m' where m': "recovered L img = Some m'"
    "\<forall>o' < main_size L. pm_cur m' (LByte (main_addr L + o')) = img (LByte (main_addr L + o'))" by auto
  with assms(2,3) img show "\<exists>m'. recovered L img = Some m' \<and> (\<forall>o'\<in>R. pm_cur m' (LByte (main_addr L + o')) = B o')"
    by fastforce
qed

subsection \<open>The protocol\<close>

text \<open>
  Between transactions main and back agree on the offsets Q that hold data, both on the
  medium, a cache line below the used size.
\<close>

definition both_settled :: "romlayout \<Rightarrow> nat set \<Rightarrow> (nat \<Rightarrow> u64) \<Rightarrow> pm \<Rightarrow> bool" where
  "both_settled L Q A m \<longleftrightarrow> (\<forall>o'\<in>Q.
     settled m (LByte (main_addr L + o')) \<and> pm_cur m (LByte (main_addr L + o')) = A o'
     \<and> settled m (LByte (back_addr L + o')) \<and> pm_cur m (LByte (back_addr L + o')) = A o')"

definition quiescent :: "romlayout \<Rightarrow> nat set \<Rightarrow> (nat \<Rightarrow> u64) \<Rightarrow> pm \<Rightarrow> bool" where
  "quiescent L Q A m \<longleftrightarrow>
     both_settled L Q A m \<and> settled m LUsed \<and> pm_cur m LState = IDLE
     \<and> pm_dur m LState \<subseteq> {IDLE, MUTATING, COPYING}
     \<and> (\<forall>o'\<in>Q. o' + 64 \<le> unat (pm_cur m LUsed)) \<and> unat (pm_cur m LUsed) \<le> main_size L"

text \<open>
  The write-back of a line of back starts at main_size mod 64 in that line, as back starts at
  that distance from main: of the copy of a cache line of main, which then lies in two lines,
  only the first part is written back.
\<close>

definition back_in_line :: "romlayout \<Rightarrow> nat \<Rightarrow> bool" where
  "back_in_line L o' \<longleftrightarrow> (main_addr L + o') mod 64 + main_size L mod 64 < 64"

text \<open>
  The general state between transactions: main holds the contents A durably on the offsets Q
  and back on the offsets G among them.
\<close>

definition rest_settled :: "romlayout \<Rightarrow> nat set \<Rightarrow> nat set \<Rightarrow> (nat \<Rightarrow> u64) \<Rightarrow> pm \<Rightarrow> bool" where
  "rest_settled L Q G A m \<longleftrightarrow> G \<subseteq> Q
     \<and> (\<forall>o'\<in>Q. settled m (LByte (main_addr L + o')) \<and> pm_cur m (LByte (main_addr L + o')) = A o')
     \<and> (\<forall>o'\<in>G. settled m (LByte (back_addr L + o')) \<and> pm_cur m (LByte (back_addr L + o')) = A o')"

definition at_rest :: "romlayout \<Rightarrow> nat set \<Rightarrow> nat set \<Rightarrow> (nat \<Rightarrow> u64) \<Rightarrow> pm \<Rightarrow> bool" where
  "at_rest L Q G A m \<longleftrightarrow>
     rest_settled L Q G A m \<and> settled m LUsed \<and> pm_cur m LState = IDLE
     \<and> pm_dur m LState \<subseteq> {IDLE, MUTATING, COPYING}
     \<and> (\<forall>o'\<in>Q. o' + 64 \<le> unat (pm_cur m LUsed)) \<and> unat (pm_cur m LUsed) \<le> main_size L"

lemma quiescent_at_rest: "quiescent L Q A m \<longleftrightarrow> at_rest L Q Q A m"
  by (auto simp: quiescent_def at_rest_def both_settled_def rest_settled_def)

lemma at_rest_mono: "at_rest L Q G A m \<Longrightarrow> H \<subseteq> G \<Longrightarrow> at_rest L Q H A m"
  by (auto simp: at_rest_def rest_settled_def)

lemma aligned_in_line: "main_size L mod 64 = 0 \<Longrightarrow> back_in_line L o'"
  by (simp add: back_in_line_def)

lemma rest_settled_exec:
  assumes "rest_settled L Q G A m" "\<And>o'. o' \<in> Q \<Longrightarrow> LByte (main_addr L + o') \<notin> writes is \<and> LByte (back_addr L + o') \<notin> writes is"
  shows "always (rest_settled L Q G A) is m"
proof -
  have G: "G \<subseteq> Q" using assms(1) by (simp add: rest_settled_def)
  have "always (\<lambda>m'. \<forall>o'\<in>Q. settled m' (LByte (main_addr L + o')) \<and> pm_cur m' (LByte (main_addr L + o')) = A o') is m"
    by (intro always_all always_settled_val) (use assms in \<open>auto simp: rest_settled_def\<close>)
  moreover have "always (\<lambda>m'. \<forall>o'\<in>G. settled m' (LByte (back_addr L + o')) \<and> pm_cur m' (LByte (back_addr L + o')) = A o') is m"
    by (intro always_all always_settled_val) (use assms G in \<open>auto simp: rest_settled_def\<close>)
  ultimately show ?thesis using G by (simp add: always_def rest_settled_def)
qed

definition begin_instrs :: "pm_instr list" where
  "begin_instrs = [St LState MUTATING, Pwb LState, Fence]"

text \<open>While the transaction mutates main, back holds the old contents.\<close>

definition mutating :: "romlayout \<Rightarrow> nat set \<Rightarrow> (nat \<Rightarrow> u64) \<Rightarrow> u64 \<Rightarrow> pm \<Rightarrow> bool" where
  "mutating L Q A U m \<longleftrightarrow>
     (\<forall>o'\<in>Q. settled m (LByte (back_addr L + o')) \<and> pm_cur m (LByte (back_addr L + o')) = A o')
     \<and> settled m LState \<and> pm_cur m LState = MUTATING \<and> used_at_least U m"

lemma bytes_of_begin [simp]: "LByte a \<notin> writes begin_instrs" "LUsed \<notin> writes begin_instrs"
  by (simp_all add: begin_instrs_def)

lemma rest_either:
  assumes "rest_settled L Q G A m" "settled m LUsed" "\<forall>o'\<in>Q. o' + 64 \<le> unat (pm_cur m LUsed)"
    "unat (pm_cur m LUsed) \<le> main_size L" "R \<subseteq> {..<main_size L}" "pm_dur m LState \<subseteq> {IDLE, MUTATING, COPYING}"
  shows "recovers_either L G A R B m"
proof (rule recovers_eitherI)
  have G: "G \<subseteq> Q" using assms(1) by (simp add: rest_settled_def)
  then show "G \<subseteq> {..<main_size L}" using assms(3,4) by fastforce
  show "pm_dur m (LByte (back_addr L + o')) = {A o'}" if "o' \<in> G" for o'
    using assms(1) that by (auto simp: rest_settled_def settled_def)
  show "o' < unat u" if "o' \<in> G" "u \<in> pm_dur m LUsed" for o' u
    using assms(2,3) that G by (fastforce simp: settled_def)
  show "(\<forall>o'\<in>R. pm_dur m (LByte (main_addr L + o')) = {B o'}) \<or>
     (if pm_dur m LState \<subseteq> {MUTATING} then True else (\<forall>o'\<in>G. pm_dur m (LByte (main_addr L + o')) = {A o'}))"
    using assms(1) by (auto simp: rest_settled_def settled_def)
qed (use assms in auto)

lemma rest_to:
  assumes "at_rest L Q G A m" "pm_dur m LState \<subseteq> {IDLE, COPYING}"
  shows "recovers_to L Q A m"
  by (rule recovers_toI [OF assms(2)]) (use assms(1) in \<open>fastforce simp: at_rest_def rest_settled_def settled_def\<close>)+

lemma begin_ok:
  assumes q: "at_rest L Q G A m" and R: "R \<subseteq> {..<main_size L}"
  shows "always (recovers_either L G A R B) begin_instrs m"
    "rest_settled L Q G A (pm_exec begin_instrs m)" "mutating L G A (pm_cur m LUsed) (pm_exec begin_instrs m)"
    "settled (pm_exec begin_instrs m) LUsed" "pm_cur (pm_exec begin_instrs m) LUsed = pm_cur m LUsed"
proof -
  have bs: "always (rest_settled L Q G A) begin_instrs m"
    using q rest_settled_exec [of L Q G A m begin_instrs] by (simp add: at_rest_def)
  have us: "always (\<lambda>m'. settled m' LUsed \<and> pm_cur m' LUsed = pm_cur m LUsed) begin_instrs m"
    using q always_settled [of m LUsed begin_instrs] by (simp add: at_rest_def)
  have st: "always (\<lambda>m'. pm_dur m' LState \<subseteq> {IDLE, MUTATING, COPYING}) begin_instrs m"
    using q by (auto simp: begin_instrs_def at_rest_def pm_store_def)
  show "always (recovers_either L G A R B) begin_instrs m"
    using bs us st rest_either R q unfolding always_def at_rest_def by metis
  show b: "rest_settled L Q G A (pm_exec begin_instrs m)" using always_last [OF bs] .
  show u: "settled (pm_exec begin_instrs m) LUsed" "pm_cur (pm_exec begin_instrs m) LUsed = pm_cur m LUsed"
    using always_last [OF us] by auto
  have "settled (pm_exec begin_instrs m) LState" "pm_cur (pm_exec begin_instrs m) LState = MUTATING"
    by (simp_all add: begin_instrs_def settled_def pm_store_def)
  moreover have "used_at_least (pm_cur m LUsed) (pm_exec begin_instrs m)"
    using u by (auto simp: used_at_least_def settled_def)
  ultimately show "mutating L G A (pm_cur m LUsed) (pm_exec begin_instrs m)"
    using b by (simp add: mutating_def rest_settled_def)
qed

lemma used_at_least_exec:
  assumes "used_at_least U m" "LUsed \<notin> writes is"
  shows "always (used_at_least U) is m"
proof (rule always_inv [where I = "used_at_least U"])
  fix i and m' :: pm assume i: "i \<in> set is" "used_at_least U m'"
  have "LUsed \<notin> instr_writes i" using assms(2) i(1) by (auto simp: writes_def)
  with i(2) show "used_at_least U (pm_exec1 i m')"
    by (cases i) (auto simp: used_at_least_def pm_store_def)
qed (use assms in auto)

lemma mutating_exec:
  assumes "mutating L Q A U m" "LState \<notin> writes is" "\<And>o'. o' \<in> Q \<Longrightarrow> LByte (back_addr L + o') \<notin> writes is"
    "always (used_at_least U) is m"
  shows "always (mutating L Q A U) is m"
proof -
  have "always (\<lambda>m'. \<forall>o'\<in>Q. settled m' (LByte (back_addr L + o')) \<and> pm_cur m' (LByte (back_addr L + o')) = A o') is m"
  proof (rule always_all)
    fix o' assume o': "o' \<in> Q"
    with assms(1) always_settled [OF _ assms(3) [OF o'], of m]
    show "always (\<lambda>m'. settled m' (LByte (back_addr L + o')) \<and> pm_cur m' (LByte (back_addr L + o')) = A o') is m"
      by (simp add: mutating_def)
  qed
  moreover have "always (\<lambda>m'. settled m' LState \<and> pm_cur m' LState = MUTATING) is m"
    using assms(1) always_settled [OF _ assms(2), of m] by (simp add: mutating_def)
  ultimately show ?thesis using assms(4) by (simp add: always_def mutating_def)
qed

lemma mutating_either:
  assumes "mutating L Q A U m" "\<forall>o'\<in>Q. o' + 64 \<le> unat U" "unat U \<le> main_size L" "R \<subseteq> {..<main_size L}"
  shows "recovers_either L Q A R B m"
proof (rule recovers_eitherI)
  show "Q \<subseteq> {..<main_size L}" using assms(2,3) by auto
  show "pm_dur m (LByte (back_addr L + o')) = {A o'}" if "o' \<in> Q" for o'
    using assms(1) that by (auto simp: mutating_def settled_def)
  show "o' < unat u" if "o' \<in> Q" "u \<in> pm_dur m LUsed" for o' u
    using assms(1,2) that by (fastforce simp: mutating_def used_at_least_def word_le_nat_alt)
qed (use assms in \<open>auto simp: mutating_def settled_def\<close>)

text \<open>After the commit fence main is durable; the state may be either until the PSYNC.\<close>

definition main_durable :: "romlayout \<Rightarrow> nat set \<Rightarrow> (nat \<Rightarrow> u64) \<Rightarrow> pm \<Rightarrow> bool" where
  "main_durable L R B m \<longleftrightarrow>
     (\<forall>o'\<in>R. settled m (LByte (main_addr L + o')) \<and> pm_cur m (LByte (main_addr L + o')) = B o')
     \<and> settled m LUsed"

lemma main_durable_exec:
  assumes "main_durable L R B m" "LUsed \<notin> writes is" "\<And>o'. o' \<in> R \<Longrightarrow> LByte (main_addr L + o') \<notin> writes is"
  shows "always (main_durable L R B) is m"
proof -
  have "always (\<lambda>m'. \<forall>o'\<in>R. settled m' (LByte (main_addr L + o')) \<and> pm_cur m' (LByte (main_addr L + o')) = B o') is m"
  proof (rule always_all)
    fix o' assume o': "o' \<in> R"
    with assms(1) always_settled [OF _ assms(3) [OF o'], of m]
    show "always (\<lambda>m'. settled m' (LByte (main_addr L + o')) \<and> pm_cur m' (LByte (main_addr L + o')) = B o') is m"
      by (simp add: main_durable_def)
  qed
  moreover have "always (\<lambda>m'. settled m' LUsed) is m"
    using assms(1) always_settled [OF _ assms(2), of m] by (simp add: main_durable_def always_def)
  ultimately show ?thesis by (simp add: always_def main_durable_def)
qed

lemma main_durable_to:
  assumes "main_durable L R B m" "pm_dur m LState \<subseteq> {IDLE, COPYING}" "R \<subseteq> {..<main_size L}"
  shows "recovers_to L R B m"
  by (rule recovers_toI [OF assms(2,3)]) (use assms(1) in \<open>auto simp: main_durable_def settled_def\<close>)

lemma apply_log_writes_covered:
  assumes "\<forall>e\<in>set (r_log v). entry_ok L e" "LByte (back_addr L + o') \<in> writes (apply_log (main_addr L) (back_addr L) v)"
  shows "\<exists>e\<in>set (r_log v). entry_covers L e (main_addr L + o')"
proof -
  from assms(2) obtain off len where e: "(off, len) \<in> set (r_log v)"
    "LByte (back_addr L + o') \<in> writes (memcpy (rel_addr (back_addr L) off) (rel_addr (main_addr L) off) len)"
    by (auto simp: writes_def apply_log_def)
  with assms(1) have "0 \<le> off" by (auto simp: entry_ok_def)
  with e show ?thesis by (intro bexI [OF _ e(1)]) (auto simp: memcpy_writes rel_addr_ok entry_covers_def)
qed

lemma always_pwb_path:
  assumes "writes is = {}" "mutating L Q A U m"
  shows "always (mutating L Q A U) is m"
  by (rule mutating_exec [OF assms(2)]) (use assms in \<open>auto simp: mutating_def intro: used_at_least_exec\<close>)

text \<open>
  The mutating phase, up to the fence that makes main durable: back still holds the old
  contents, and afterwards every byte the log covers, and every old byte, is settled in main.
\<close>

lemma mutate_phase:
  assumes q: "at_rest L Q G A m" and log: "log_ok L v" "log_covers L v W"
    and W: "W \<subseteq> {main_addr L..<main_addr L + main_size L}"
    and b: "writes b \<subseteq> LByte ` W \<union> {LUsed}" "always (used_at_least (pm_cur m LUsed)) b (pm_exec begin_instrs m)"
      "flushed (pm_exec (begin_instrs @ b) m) LUsed \<or> settled (pm_exec (begin_instrs @ b) m) LUsed"
    and R: "R = Q \<union> {o'. main_addr L + o' \<in> W}"
    and B: "\<And>o'. B o' = pm_cur (pm_exec (begin_instrs @ b) m) (LByte (main_addr L + o'))"
  shows "always (recovers_either L G A R B) (begin_instrs @ b @ apply_pwb (main_addr L) v @ [Fence]) m"
    "mutating L G A (pm_cur m LUsed) (pm_exec (begin_instrs @ b @ apply_pwb (main_addr L) v @ [Fence]) m)"
    "main_durable L R B (pm_exec (begin_instrs @ b @ apply_pwb (main_addr L) v @ [Fence]) m)"
proof -
  let ?U = "pm_cur m LUsed" and ?m1 = "pm_exec begin_instrs m"
  let ?m2 = "pm_exec b ?m1" and ?f = "apply_pwb (main_addr L) v"
  have Qs: "Q \<subseteq> {..<main_size L}" using q by (auto simp: at_rest_def)
  have Rs: "R \<subseteq> {..<main_size L}" using Qs W R by auto
  note bo = begin_ok [OF q Rs]
  have mutb: "always (mutating L G A ?U) b ?m1"
  proof (rule mutating_exec [OF bo(3)])
    show "LState \<notin> writes b" using b(1) by auto
    show "LByte (back_addr L + o') \<notin> writes b" for o' using b(1) W by (auto simp: back_addr_def)
  qed (use b(2) in auto)
  have m2: "mutating L G A ?U ?m2" by (rule always_last [OF mutb])
  have mutf: "always (mutating L G A ?U) (?f @ [Fence]) ?m2"
    by (rule always_pwb_path [OF _ m2]) simp
  show m4: "mutating L G A ?U (pm_exec (begin_instrs @ b @ ?f @ [Fence]) m)" using always_last [OF mutf] by simp
  have e: "recovers_either L G A R B m'" if "mutating L G A ?U m'" for m'
    by (rule mutating_either [OF that _ _ Rs]) (use q in \<open>auto simp: at_rest_def rest_settled_def\<close>)
  have "always (recovers_either L G A R B) b ?m1" "always (recovers_either L G A R B) (?f @ [Fence]) ?m2"
    by (rule always_mono [OF mutb e] always_mono [OF mutf e], assumption)+
  with bo(1) show "always (recovers_either L G A R B) (begin_instrs @ b @ ?f @ [Fence]) m"
    unfolding always_append pm_exec_simps(3) by blast
  have "flushed (pm_exec ?f ?m2) (LByte (main_addr L + o')) \<or> settled (pm_exec ?f ?m2) (LByte (main_addr L + o'))"
    if "o' \<in> R" for o'
  proof (cases "main_addr L + o' \<in> W")
    case True
    with log(2) obtain e where "e \<in> set (r_log v)" "entry_covers L e (main_addr L + o')" by (auto simp: log_covers_def)
    from apply_pwb_main_covers [OF log(1) this] show ?thesis
      using settled_pwb_range [of _ ?f "LByte (main_addr L + o')"] by auto
  next
    case False
    with that R have "o' \<in> Q" by auto
    then have "settled ?m1 (LByte (main_addr L + o'))" using bo(2) by (simp add: rest_settled_def)
    moreover have "LByte (main_addr L + o') \<notin> writes b" using False b(1) by auto
    ultimately have "settled ?m2 (LByte (main_addr L + o'))" by (rule settled_exec)
    then show ?thesis using settled_exec by simp
  qed
  moreover have "flushed (pm_exec ?f ?m2) LUsed \<or> settled (pm_exec ?f ?m2) LUsed"
    using flushed_exec [of ?m2 LUsed ?f] b(3) by simp
  ultimately show "main_durable L R B (pm_exec (begin_instrs @ b @ ?f @ [Fence]) m)"
    using B fence_settles [of "pm_exec ?f ?m2"] unfolding main_durable_def by simp
qed

text \<open>Writing the state COPYING, up to the PSYNC.\<close>

definition state_instrs :: "pm_instr list \<Rightarrow> pm_instr list" where
  "state_instrs X = [St LState COPYING, Pwb LState] @ X @ [Fence]"

lemma state_phase:
  assumes "mutating L Q A U m" "main_durable L R B m" "\<forall>o'\<in>Q. o' + 64 \<le> unat U" "unat U \<le> main_size L"
    "R \<subseteq> {..<main_size L}" "X = [] \<or> X = [Pwb LUsed]"
  shows "always (recovers_either L Q A R B) (state_instrs X) m"
    "main_durable L R B (pm_exec (state_instrs X) m)"
    "settled (pm_exec (state_instrs X) m) LState" "pm_cur (pm_exec (state_instrs X) m) LState = COPYING"
proof -
  have w: "writes (state_instrs X) = {LState}" using assms(6) by (auto simp: state_instrs_def)
  have md: "always (main_durable L R B) (state_instrs X) m"
    by (rule main_durable_exec [OF assms(2)]) (simp_all add: w)
  have us: "always (used_at_least U) (state_instrs X) m"
    using assms(1) used_at_least_exec [of U m "state_instrs X"] w by (simp add: mutating_def)
  have bk: "always (\<lambda>m'. \<forall>o'\<in>Q. settled m' (LByte (back_addr L + o')) \<and> pm_cur m' (LByte (back_addr L + o')) = A o')
       (state_instrs X) m"
    using assms(1) by (intro always_all always_settled_val) (auto simp: mutating_def w)
  have st: "always (\<lambda>m'. pm_dur m' LState \<subseteq> {IDLE, MUTATING, COPYING}) (state_instrs X) m"
    using assms(1,6) by (auto simp: state_instrs_def mutating_def settled_def pm_store_def)
  have each: "recovers_either L Q A R B m'"
    if "main_durable L R B m'" "used_at_least U m'" "pm_dur m' LState \<subseteq> {IDLE, MUTATING, COPYING}"
      "\<forall>o'\<in>Q. settled m' (LByte (back_addr L + o')) \<and> pm_cur m' (LByte (back_addr L + o')) = A o'" for m'
  proof (rule recovers_eitherI [OF that(3) _ assms(5)])
    note bk' = that(4)
    show "Q \<subseteq> {..<main_size L}" using assms(3,4) by auto
    show "pm_dur m' (LByte (back_addr L + o')) = {A o'}" if "o' \<in> Q" for o'
      using bk' that by (auto simp: settled_def)
    show "o' < unat u" if "o' \<in> Q" "u \<in> pm_dur m' LUsed" for o' u
      using \<open>used_at_least U m'\<close> assms(3) that by (fastforce simp: used_at_least_def word_le_nat_alt)
  qed (use that(1) in \<open>auto simp: main_durable_def settled_def\<close>)
  show "always (recovers_either L Q A R B) (state_instrs X) m"
    using md us bk st each by (auto simp: always_def)
  show "main_durable L R B (pm_exec (state_instrs X) m)" by (rule always_last [OF md])
  show "settled (pm_exec (state_instrs X) m) LState" "pm_cur (pm_exec (state_instrs X) m) LState = COPYING"
    using assms(6) by (auto simp: state_instrs_def settled_def pm_store_def)
qed

text \<open>Copying to back: main stays as it is, and back becomes equal to it on the medium.\<close>

definition copy_instrs :: "romlayout \<Rightarrow> romvol \<Rightarrow> pm_instr list" where
  "copy_instrs L v = apply_log (main_addr L) (back_addr L) v @ apply_pwb (back_addr L) v @ [Fence, St LState IDLE]"

lemma apply_pwb_back_covers:
  assumes "log_ok L v" "e \<in> set (r_log v)" "entry_covers L e (main_addr L + o')" "back_in_line L o'"
  shows "\<exists>l. Pwb l \<in> set (apply_pwb (back_addr L) v) \<and> same_line l (LByte (back_addr L + o'))"
proof -
  obtain off len where e: "e = (off, len)" by (cases e)
  with assms have ok: "0 \<le> off" "0 < len" "len \<le> 64"
    "(nat off + main_addr L) div 64 = (nat off + main_addr L + len - 1) div 64"
    "off \<le> int o'" "int o' < off + int len"
    by (auto simp: log_ok_def entry_ok_def entry_covers_def)
  let ?x = "main_addr L + nat off" and ?y = "main_addr L + o'" and ?s = "main_size L"
  have le: "?x \<le> ?y" "?y \<le> nat off + main_addr L + len - 1" using ok(1,2,5,6) by linarith+
  have line: "?x div 64 = ?y div 64"
    using div_le_mono [OF le(1), of 64] div_le_mono [OF le(2), of 64] ok(4) by (simp add: ac_simps)
  then have "?x mod 64 \<le> ?y mod 64" using le(1) by (metis div_mult_mod_eq nat_add_left_cancel_le)
  then have y: "?y mod 64 + ?s mod 64 < 64" "?x mod 64 + ?s mod 64 < 64"
    using assms(4) by (simp_all add: back_in_line_def)
  have "(?x + ?s) div 64 = (?y + ?s) div 64"
    using y line by (simp only: div_add1_eq [of _ ?s] div_less)
  then have "(back_addr L + nat off) div 64 = (back_addr L + o') div 64" by (simp add: back_addr_def ac_simps)
  moreover have "(len + 63) div 64 = 1" using ok(2,3) by (auto intro!: div_nat_eqI)
  ultimately have "Pwb (LByte (back_addr L + nat off)) \<in> set (flush_range (back_addr L + nat off) len)
      \<and> same_line (LByte (back_addr L + nat off)) (LByte (back_addr L + o'))"
    by (simp add: flush_range_def)
  with e assms(2) rel_addr_ok [OF ok(1), of "back_addr L"] show ?thesis by (force simp: apply_pwb_def)
qed

text \<open>A byte of back that already equals main is not changed when the log is applied again.\<close>

lemma apply_log_keeps:
  assumes "\<forall>e\<in>set (r_log v). entry_ok L e" "o' < main_size L"
    "settled m (LByte (back_addr L + o'))" "pm_cur m (LByte (back_addr L + o')) = B" "pm_cur m (LByte (main_addr L + o')) = B"
  shows "settled (pm_exec (apply_log (main_addr L) (back_addr L) v) m) (LByte (back_addr L + o'))"
proof -
  let ?I = "\<lambda>m. settled m (LByte (back_addr L + o')) \<and> pm_cur m (LByte (back_addr L + o')) = B
      \<and> pm_cur m (LByte (main_addr L + o')) = B"
  have "?I (pm_exec (apply_log (main_addr L) (back_addr L) v) m)"
  proof (rule exec_inv)
    fix i and m' :: pm assume i: "i \<in> set (apply_log (main_addr L) (back_addr L) v)" and I: "?I m'"
    then obtain off len k where k: "(off, len) \<in> set (r_log v)" "k < len"
      "i = Cp (rel_addr (back_addr L) off + k) (rel_addr (main_addr L) off + k)"
      by (auto simp: apply_log_def memcpy_def)
    from k(1) assms(1) have "0 \<le> off" by (auto simp: entry_ok_def)
    then have j: "i = Cp (back_addr L + (nat off + k)) (main_addr L + (nat off + k))"
      using k(3) by (simp add: rel_addr_ok add.assoc)
    show "?I (pm_exec1 i m')"
      using I assms(2) unfolding j by (auto simp: pm_store_def settled_def back_addr_def)
  qed (use assms in auto)
  then show ?thesis by blast
qed

lemma copy_phase:
  assumes md: "main_durable L R B m" and st: "settled m LState" "pm_cur m LState = COPYING"
    and log: "log_ok L v" and R: "R \<subseteq> {..<main_size L}"
    and bk: "\<And>o'. o' \<in> G \<Longrightarrow> (\<exists>e\<in>set (r_log v). entry_covers L e (main_addr L + o')) \<and> back_in_line L o'
       \<or> settled m (LByte (back_addr L + o')) \<and> pm_cur m (LByte (back_addr L + o')) = B o'"
    and G: "G \<subseteq> R"
  shows "always (recovers_to L R B) (copy_instrs L v) m" "rest_settled L R G B (pm_exec (copy_instrs L v) m)"
    "settled (pm_exec (copy_instrs L v) m) LUsed" "pm_cur (pm_exec (copy_instrs L v) m) LUsed = pm_cur m LUsed"
    "pm_cur (pm_exec (copy_instrs L v) m) LState = IDLE" "pm_dur (pm_exec (copy_instrs L v) m) LState \<subseteq> {IDLE, COPYING}"
proof -
  let ?al = "apply_log (main_addr L) (back_addr L) v" and ?ap = "apply_pwb (back_addr L) v"
  have wl: "writes ?al \<subseteq> LByte ` {back_addr L..<back_addr L + main_size L}"
    by (rule apply_log_writes) (use log in \<open>auto simp: log_ok_def\<close>)
  have wc: "writes (copy_instrs L v) \<subseteq> LByte ` {back_addr L..<back_addr L + main_size L} \<union> {LState}"
    using wl by (auto simp: copy_instrs_def)
  have main: "LByte (main_addr L + o') \<notin> writes (copy_instrs L v)" if "o' \<in> R" for o'
  proof
    assume "LByte (main_addr L + o') \<in> writes (copy_instrs L v)"
    with wc have "LByte (main_addr L + o') \<in> LByte ` {back_addr L..<back_addr L + main_size L} \<union> {LState}" by blast
    with R that show False by (auto simp: back_addr_def)
  qed
  have used: "LUsed \<notin> writes (copy_instrs L v)" using wc by auto
  have mdc: "always (main_durable L R B) (copy_instrs L v) m" by (rule main_durable_exec [OF md used main])
  have dur: "pm_dur (pm_exec (?al @ ?ap @ [Fence]) m) LState = {COPYING}" "pm_cur (pm_exec (?al @ ?ap @ [Fence]) m) LState = COPYING"
    "always (\<lambda>m'. settled m' LState \<and> pm_cur m' LState = COPYING) (?al @ ?ap @ [Fence]) m"
  proof -
    have "LState \<notin> writes (?al @ ?ap @ [Fence])" using wl by auto
    from always_settled_val [OF conjI [OF st] this]
    show a: "always (\<lambda>m'. settled m' LState \<and> pm_cur m' LState = COPYING) (?al @ ?ap @ [Fence]) m" .
    from always_last [OF this] show "pm_dur (pm_exec (?al @ ?ap @ [Fence]) m) LState = {COPYING}"
      "pm_cur (pm_exec (?al @ ?ap @ [Fence]) m) LState = COPYING" by (auto simp: settled_def)
  qed
  have split: "copy_instrs L v = (?al @ ?ap @ [Fence]) @ [St LState IDLE]" by (simp add: copy_instrs_def)
  have "always (\<lambda>m'. pm_dur m' LState \<subseteq> {COPYING}) (?al @ ?ap @ [Fence]) m"
    by (rule always_mono [OF dur(3)]) (auto simp: settled_def)
  then have "always (\<lambda>m'. pm_dur m' LState \<subseteq> {IDLE, COPYING}) (?al @ ?ap @ [Fence]) m"
    by (rule always_mono) auto
  then have stc: "always (\<lambda>m'. pm_dur m' LState \<subseteq> {IDLE, COPYING}) (copy_instrs L v) m"
    unfolding split always_append [of _ "?al @ ?ap @ [Fence]"] using dur(1)
    by (simp only: always_Cons always_Nil) (simp add: pm_store_def)
  show "always (recovers_to L R B) (copy_instrs L v) m"
    using mdc stc main_durable_to R by (auto simp: always_def)
  show "settled (pm_exec (copy_instrs L v) m) LUsed" using always_last [OF mdc] by (simp add: main_durable_def)
  show "pm_cur (pm_exec (copy_instrs L v) m) LUsed = pm_cur m LUsed" using cur_unwritten [OF used] .
  show "pm_cur (pm_exec (copy_instrs L v) m) LState = IDLE" by (simp add: copy_instrs_def pm_store_def)
  show "pm_dur (pm_exec (copy_instrs L v) m) LState \<subseteq> {IDLE, COPYING}" using always_last [OF stc] .
  have "settled (pm_exec (copy_instrs L v) m) (LByte (back_addr L + o')) \<and> pm_cur (pm_exec (copy_instrs L v) m) (LByte (back_addr L + o')) = B o'"
    if "o' \<in> G" for o'
  proof -
    let ?l = "LByte (back_addr L + o')"
    have R': "o' \<in> R" and o': "o' < main_size L" using G R that by auto
    note ab = apply_log_back [OF _ o', of v m]
    have mo: "pm_cur m (LByte (main_addr L + o')) = B o'" using md R' by (simp add: main_durable_def)
    have cur: "pm_cur (pm_exec ?al m) ?l = B o'"
      using ab bk [OF that] mo log by (auto simp: log_ok_def)
    have "flushed (pm_exec ?ap (pm_exec ?al m)) ?l \<or> settled (pm_exec ?ap (pm_exec ?al m)) ?l"
      using bk [OF that]
    proof (elim disjE conjE bexE)
      fix e assume "e \<in> set (r_log v)" "entry_covers L e (main_addr L + o')" "back_in_line L o'"
      from apply_pwb_back_covers [OF log this] show ?thesis
        using settled_pwb_range [of _ ?ap ?l] by auto
    next
      assume "settled m ?l" "pm_cur m ?l = B o'"
      then have "settled (pm_exec ?al m) ?l"
        using apply_log_keeps [of v L o' m "B o'"] log o' mo by (auto simp: log_ok_def)
      then show ?thesis using settled_exec by simp
    qed
    then have "settled (pm_exec (?al @ ?ap @ [Fence]) m) ?l" using fence_settles by simp
    moreover have "pm_cur (pm_exec (?al @ ?ap @ [Fence]) m) ?l = B o'" using cur by simp
    ultimately show ?thesis unfolding split by (simp add: settled_def pm_store_def)
  qed
  then show "rest_settled L R G B (pm_exec (copy_instrs L v) m)"
    using always_last [OF mdc] G by (simp add: rest_settled_def main_durable_def)
qed

subsection \<open>The whole protocol\<close>

definition protocol :: "romlayout \<Rightarrow> romvol \<Rightarrow> pm_instr list \<Rightarrow> pm_instr list \<Rightarrow> nat list \<Rightarrow> pm_instr list" where
  "protocol L v b X acks =
     (begin_instrs @ b @ apply_pwb (main_addr L) v @ [Fence]) @ state_instrs X @ map Ack acks @ copy_instrs L v"

definition prologue :: "romlayout \<Rightarrow> romvol \<Rightarrow> pm_instr list \<Rightarrow> pm_instr list \<Rightarrow> pm_instr list" where
  "prologue L v b X = (begin_instrs @ b @ apply_pwb (main_addr L) v @ [Fence]) @ state_instrs X"

lemma recovers_to_either: "recovers_to L R B m \<Longrightarrow> recovers_either L Q A R B m"
  unfolding recovers_to_def recovers_either_def by blast

lemma acks_exec [simp]: "pm_exec (map Ack acks) m = m"
  by (induction acks) auto

lemma acks_always [simp]: "always P (map Ack acks) m \<longleftrightarrow> P m"
  by (induction acks) auto

lemma after_ack:
  assumes "\<forall>i. Ack i \<notin> set is" "always P js (pm_exec is m)" "Ack i \<in> set (take k (is @ js))"
  shows "P (pm_exec (take k (is @ js)) m)"
proof -
  have "Ack i \<notin> set (take k is)" using assms(1) by (auto dest: in_set_takeD)
  with assms(3) have "length is < k" by (cases "length is < k") auto
  with assms(2) show ?thesis by (simp add: always_def)
qed

lemma protocol_ok:
  assumes q: "at_rest L Q G A m" and log: "log_ok L v" "log_covers L v W"
    and W: "W \<subseteq> {main_addr L..<main_addr L + main_size L}"
    and b: "writes b \<subseteq> LByte ` W \<union> {LUsed}" "always (used_at_least (pm_cur m LUsed)) b (pm_exec begin_instrs m)"
      "flushed (pm_exec (begin_instrs @ b) m) LUsed \<or> settled (pm_exec (begin_instrs @ b) m) LUsed"
    and R: "R = Q \<union> {o'. main_addr L + o' \<in> W}"
    and B: "\<And>o'. B o' = pm_cur (pm_exec (begin_instrs @ b) m) (LByte (main_addr L + o'))"
    and X: "X = [] \<or> X = [Pwb LUsed]"
    and G: "H \<subseteq> R" "\<And>o'. o' \<in> H \<Longrightarrow> if main_addr L + o' \<in> W then back_in_line L o' else o' \<in> G"
    and U: "\<forall>o'\<in>R. o' + 64 \<le> unat (pm_cur (pm_exec (begin_instrs @ b) m) LUsed)"
      "unat (pm_cur (pm_exec (begin_instrs @ b) m) LUsed) \<le> main_size L"
  shows "always (recovers_either L G A R B) (protocol L v b X acks) m"
    "always (recovers_to L R B) (map Ack acks @ copy_instrs L v) (pm_exec (prologue L v b X) m)"
    "at_rest L R H B (pm_exec (protocol L v b X acks) m)"
    "recovers_to L R B (pm_exec (protocol L v b X acks) m)"
proof -
  let ?i4 = "begin_instrs @ b @ apply_pwb (main_addr L) v @ [Fence]"
  let ?m4 = "pm_exec ?i4 m"
  let ?m5 = "pm_exec (state_instrs X) ?m4"
  have Rs: "R \<subseteq> {..<main_size L}" using q W R by (auto simp: at_rest_def)
  note mp = mutate_phase [OF q log W b R B]
  have qU: "\<forall>o'\<in>G. o' + 64 \<le> unat (pm_cur m LUsed)" "unat (pm_cur m LUsed) \<le> main_size L"
    using q by (auto simp: at_rest_def rest_settled_def)
  note sp = state_phase [OF mp(2,3) qU Rs X]
  have used4: "pm_cur ?m4 LUsed = pm_cur (pm_exec (begin_instrs @ b) m) LUsed" by simp
  have used5: "pm_cur ?m5 LUsed = pm_cur (pm_exec (begin_instrs @ b) m) LUsed"
    unfolding used4 [symmetric] by (rule cur_unwritten) (use X in \<open>auto simp: state_instrs_def\<close>)
  have bk: "(\<exists>e\<in>set (r_log v). entry_covers L e (main_addr L + o')) \<and> back_in_line L o'
       \<or> settled ?m5 (LByte (back_addr L + o')) \<and> pm_cur ?m5 (LByte (back_addr L + o')) = B o'" if "o' \<in> H" for o'
  proof (cases "main_addr L + o' \<in> W")
    case True
    with log(2) G(2) [OF that] show ?thesis by (auto simp: log_covers_def)
  next
    case False
    with G(2) [OF that] have g: "o' \<in> G" by simp
    then have o': "o' \<in> Q" using q by (auto simp: at_rest_def rest_settled_def)
    have nb: "LByte (main_addr L + o') \<notin> writes (begin_instrs @ b)" using False b(1) by auto
    have "B o' = pm_cur m (LByte (main_addr L + o'))" unfolding B by (rule cur_unwritten [OF nb])
    then have "B o' = A o'" using q o' by (simp add: at_rest_def rest_settled_def)
    then have "settled ?m4 (LByte (back_addr L + o')) \<and> pm_cur ?m4 (LByte (back_addr L + o')) = B o'"
      using mp(2) g by (simp only: mutating_def)
    moreover have "LByte (back_addr L + o') \<notin> writes (state_instrs X)" using X by (auto simp: state_instrs_def)
    ultimately have "settled ?m5 (LByte (back_addr L + o')) \<and> pm_cur ?m5 (LByte (back_addr L + o')) = B o'"
      using always_last [OF always_settled_val] by metis
    then show ?thesis by blast
  qed
  note cp = copy_phase [OF sp(2,3,4) log(1) Rs bk G(1)]
  have ex: "pm_exec (protocol L v b X acks) m = pm_exec (copy_instrs L v) ?m5"
    by (simp add: protocol_def del: append_assoc)
  show to: "always (recovers_to L R B) (map Ack acks @ copy_instrs L v) (pm_exec (prologue L v b X) m)"
  proof -
    have "always (recovers_to L R B) (map Ack acks) ?m5" using always_def [of _ "copy_instrs L v"] cp(1)
      by (metis acks_always pm_exec_simps(1) take_0)
    then show ?thesis using cp(1) unfolding always_append prologue_def pm_exec_simps(3) acks_exec by simp
  qed
  have "always (recovers_either L G A R B) (map Ack acks @ copy_instrs L v) ?m5"
    using always_mono [OF to recovers_to_either] unfolding prologue_def pm_exec_simps(3) .
  then show "always (recovers_either L G A R B) (protocol L v b X acks) m"
    using mp(1) sp(1) unfolding protocol_def always_append [of _ ?i4] always_append [of _ "state_instrs X"] by blast
  show "recovers_to L R B (pm_exec (protocol L v b X acks) m)"
    unfolding ex by (rule always_last [OF cp(1)])
  show "at_rest L R H B (pm_exec (protocol L v b X acks) m)"
    unfolding at_rest_def ex using cp(2-5) subset_trans [OF cp(6), of "{IDLE, MUTATING, COPYING}"] U used5 by simp
qed

subsection \<open>What a transaction computes\<close>

text \<open>The effect of the operations on the contents of the heap, by offset, and on the used size.\<close>

fun op_result :: "romlayout \<Rightarrow> tx_op \<Rightarrow> (nat \<Rightarrow> u64) \<Rightarrow> nat \<Rightarrow> u64" where
  "op_result L (PStore addr bs) A = (\<lambda>o'. if addr \<le> main_addr L + o' \<and> main_addr L + o' < addr + length bs
     then ucast (bs ! (main_addr L + o' - addr)) else A o')"
| "op_result L (Grow sz) A = A"

definition tx_result :: "romlayout \<Rightarrow> tx_op list \<Rightarrow> (nat \<Rightarrow> u64) \<Rightarrow> nat \<Rightarrow> u64" where
  "tx_result L ops A = fold (op_result L) ops A"

fun op_used :: "tx_op \<Rightarrow> u64 \<Rightarrow> u64" where
  "op_used (PStore addr bs) U = U"
| "op_used (Grow sz) U = max U sz"

definition tx_used :: "tx_op list \<Rightarrow> u64 \<Rightarrow> u64" where
  "tx_used ops U = fold op_used ops U"

fun op_length :: "tx_op \<Rightarrow> nat" where
  "op_length (PStore addr bs) = length bs"
| "op_length (Grow sz) = 0"

definition tx_offsets :: "romlayout \<Rightarrow> tx_op list \<Rightarrow> nat set" where
  "tx_offsets L ops = {o'. main_addr L + o' \<in> tx_stored ops}"

lemma store_bytes_Suc: "store_bytes addr (bs @ [b]) = store_bytes addr bs @ [St (LByte (addr + length bs)) (ucast b)]"
proof -
  have "map (\<lambda>i. St (LByte (addr + i)) (ucast ((bs @ [b]) ! i))) [0..<length bs] = store_bytes addr bs"
    unfolding store_bytes_def by (rule map_cong) (auto simp: nth_append)
  then show ?thesis by (simp add: store_bytes_def)
qed

lemma store_bytes_cur:
  "pm_cur (pm_exec (store_bytes addr bs) m) (LByte a) =
     (if addr \<le> a \<and> a < addr + length bs then ucast (bs ! (a - addr)) else pm_cur m (LByte a))"
proof (induction bs rule: rev_induct)
  case Nil then show ?case by (auto simp: store_bytes_def)
next
  case (snoc b bs)
  then show ?case by (auto simp: store_bytes_Suc pm_store_def nth_append)
qed

lemma store_bytes_writes: "LUsed \<notin> writes (store_bytes addr bs)" "LState \<notin> writes (store_bytes addr bs)"
  by (auto simp: store_bytes_def writes_def)

lemma rom_op_cur:
  assumes "rom_op L x (pm_cur m LUsed) v = (is, v')"
  shows "(\<lambda>o'. pm_cur (pm_exec is m) (LByte (main_addr L + o'))) = op_result L x (\<lambda>o'. pm_cur m (LByte (main_addr L + o')))"
    "pm_cur (pm_exec is m) LUsed = op_used x (pm_cur m LUsed)"
proof -
  show "(\<lambda>o'. pm_cur (pm_exec is m) (LByte (main_addr L + o'))) = op_result L x (\<lambda>o'. pm_cur m (LByte (main_addr L + o')))"
    using assms by (cases x) (auto simp: store_bytes_cur pm_store_def split: if_splits)
  show "pm_cur (pm_exec is m) LUsed = op_used x (pm_cur m LUsed)"
    using assms cur_unwritten [OF store_bytes_writes(1)]
    by (cases x) (auto simp: pm_store_def max_def split: if_splits)
qed

lemma rom_body_cur:
  "(\<lambda>o'. pm_cur (pm_exec (fst (rom_body L ops v m)) m) (LByte (main_addr L + o')))
     = tx_result L ops (\<lambda>o'. pm_cur m (LByte (main_addr L + o')))
   \<and> pm_cur (pm_exec (fst (rom_body L ops v m)) m) LUsed = tx_used ops (pm_cur m LUsed)"
proof (induction ops arbitrary: v m)
  case Nil then show ?case by (simp add: tx_result_def tx_used_def)
next
  case (Cons x ops)
  obtain js v1 where op: "rom_op L x (pm_cur m LUsed) v = (js, v1)" by (cases "rom_op L x (pm_cur m LUsed) v")
  obtain ks v2 where ks: "rom_body L ops v1 (pm_exec js m) = (ks, v2)" by (cases "rom_body L ops v1 (pm_exec js m)")
  from Cons.IH [of v1 "pm_exec js m"] rom_op_cur [OF op] op ks show ?case
    by (simp add: tx_result_def tx_used_def)
qed

lemma op_result_cong: "(\<And>o'. o' \<in> Q \<Longrightarrow> A o' = A' o') \<Longrightarrow> o' \<in> Q \<or> main_addr L + o' \<in> op_stored x \<Longrightarrow>
   op_result L x A o' = op_result L x A' o'"
  by (cases x) auto

lemma tx_result_cong:
  "(\<And>o'. o' \<in> Q \<Longrightarrow> A o' = A' o') \<Longrightarrow> o' \<in> Q \<union> tx_offsets L ops \<Longrightarrow> tx_result L ops A o' = tx_result L ops A' o'"
proof (induction ops arbitrary: A A' Q)
  case Nil then show ?case by (simp add: tx_result_def tx_offsets_def tx_stored_def)
next
  case (Cons x ops)
  let ?Q = "Q \<union> {o'. main_addr L + o' \<in> op_stored x}"
  have "op_result L x A p = op_result L x A' p" if "p \<in> ?Q" for p
    using op_result_cong [of Q A A' p L x] Cons.prems(1) that by auto
  from Cons.IH [of ?Q, OF this] Cons.prems(2) show ?case
    by (auto simp: tx_result_def tx_offsets_def tx_stored_def)
qed

text \<open>The log stays enabled while the bytes logged stay within a quarter of the used size.\<close>

lemma add_to_log_enabled:
  assumes "r_logEnabled v" "r_log_size v \<le> unat (used div 4)"
  shows "r_logEnabled (add_to_log L used addr len v) \<and> r_log_size (add_to_log L used addr len v) \<le> r_log_size v + len"
  using assms by (auto simp: add_to_log_def Let_def)

lemma div4_mono: "(U :: u64) \<le> U' \<Longrightarrow> unat (U div 4) \<le> unat (U' div 4)"
  by (simp add: unat_div div_le_mono word_le_nat_alt)

lemma rom_body_enabled:
  assumes "r_logEnabled v" "r_log_size v + sum_list (map op_length ops) \<le> unat (U div 4)" "U \<le> pm_cur m LUsed"
  shows "r_logEnabled (snd (rom_body L ops v m))"
  using assms
proof (induction ops arbitrary: v m)
  case (Cons x ops)
  obtain js v1 where op: "rom_op L x (pm_cur m LUsed) v = (js, v1)" by (cases "rom_op L x (pm_cur m LUsed) v")
  have le: "r_log_size v \<le> unat (pm_cur m LUsed div 4)"
    using Cons.prems(2) div4_mono [OF Cons.prems(3)] by simp
  have v1: "r_logEnabled v1 \<and> r_log_size v1 \<le> r_log_size v + op_length x"
    using op add_to_log_enabled [OF Cons.prems(1) le] Cons.prems(1) by (cases x) (auto split: if_splits)
  have "pm_cur m LUsed \<le> op_used x (pm_cur m LUsed)" by (cases x) auto
  then have "U \<le> pm_cur (pm_exec js m) LUsed" unfolding rom_op_cur(2) [OF op] using Cons.prems(3) by (rule order_trans [rotated])
  with Cons.IH [of v1 "pm_exec js m"] v1 Cons.prems(2) op show ?case by (simp add: split_beta)
qed simp

subsection \<open>Failure atomicity\<close>

text \<open>The volatile log between transactions.\<close>

definition rom_idle :: "romvol \<Rightarrow> bool" where
  "rom_idle v \<longleftrightarrow> r_chunks v = [[]] \<and> r_log_size v = 0 \<and> r_logEnabled v \<and> r_nested v = 0"

text \<open>What is required of a transaction: its stores lie in the data part of main and do not
  cross cache lines, and together fit a quarter of the used size.\<close>

definition tx_ok :: "romlayout \<Rightarrow> tx_op list \<Rightarrow> u64 \<Rightarrow> bool" where
  "tx_ok L ops U \<longleftrightarrow> list_all (op_ok L) ops \<and> sum_list (map op_length ops) \<le> unat (U div 4)
     \<and> unat (tx_used ops U) \<le> main_size L
     \<and> list_all (\<lambda>x. case x of PStore addr bs \<Rightarrow> addr + length bs + 63 \<le> main_addr L + unat (tx_used ops U) | Grow _ \<Rightarrow> True) ops"

lemma rom_init_idle: "rom_idle rom_init"
  by (simp add: rom_idle_def rom_init_def)

lemma used_le: "U \<le> tx_used ops U"
  unfolding tx_used_def
proof (induction ops arbitrary: U)
  case (Cons x ops)
  have "U \<le> op_used x U" by (cases x) auto
  with Cons.IH [of "op_used x U"] show ?case by (simp add: order_trans)
qed simp

lemma tx_ok_offsets:
  assumes "tx_ok L ops U" "o' \<in> tx_offsets L ops"
  shows "o' + 64 \<le> unat (tx_used ops U)"
proof -
  from assms(2) obtain x where x: "x \<in> set ops" "main_addr L + o' \<in> op_stored x" by (auto simp: tx_offsets_def tx_stored_def)
  with assms(1) show ?thesis by (cases x) (fastforce simp: tx_ok_def list_all_iff)+
qed

lemma tx_ok_stored:
  assumes "tx_ok L ops U" shows "tx_stored ops \<subseteq> {main_addr L..<main_addr L + main_size L}"
proof
  fix a assume "a \<in> tx_stored ops"
  then obtain x where x: "x \<in> set ops" "a \<in> op_stored x" by (auto simp: tx_stored_def)
  with assms show "a \<in> {main_addr L..<main_addr L + main_size L}"
    by (cases x) (auto simp: tx_ok_def list_all_iff store_ok_def dest!: bspec [OF _ x(1)])
qed

lemma contents_cong:
  assumes "\<And>o'. o' \<in> R \<Longrightarrow> B o' = B' o'"
  shows "recovers_either L Q A R B = recovers_either L Q A R B'" "recovers_to L R B = recovers_to L R B'"
proof -
  have "(\<forall>o'\<in>R. f o' = B o') \<longleftrightarrow> (\<forall>o'\<in>R. f o' = B' o')" for f :: "nat \<Rightarrow> u64"
    using assms by auto
  then show "recovers_either L Q A R B = recovers_either L Q A R B'" "recovers_to L R B = recovers_to L R B'"
    by (simp_all add: recovers_either_def recovers_to_def fun_eq_iff)
qed

lemma at_rest_cong: "(\<And>o'. o' \<in> R \<Longrightarrow> B o' = B' o') \<Longrightarrow> at_rest L R G B m = at_rest L R G B' m"
  by (auto simp: at_rest_def rest_settled_def)

text \<open>The offsets on which back is durable after a transaction, when it was on G before.\<close>

definition written_back :: "romlayout \<Rightarrow> tx_op list \<Rightarrow> nat set \<Rightarrow> nat set" where
  "written_back L ops G = (G - tx_offsets L ops) \<union> {o' \<in> tx_offsets L ops. back_in_line L o'}"

text \<open>
  The common core of transaction and ns_write_transaction: the body of a transaction run
  between begin and commit.
\<close>

lemma protocol_body:
  assumes q: "at_rest L Q G A m" and v: "rom_idle v"
    and ok: "tx_ok L ops (pm_cur m LUsed)" and X: "X = [] \<or> X = [Pwb LUsed]"
    and body: "rom_body L ops (v\<lparr>r_nested := 1\<rparr>) (pm_exec begin_instrs m) = (b, v2)"
  shows "always (recovers_either L G A (Q \<union> tx_offsets L ops) (tx_result L ops A)) (protocol L v2 b X acks) m"
    "Ack i \<in> set (take k (protocol L v2 b X acks)) \<Longrightarrow>
       recovers_to L (Q \<union> tx_offsets L ops) (tx_result L ops A) (pm_exec (take k (protocol L v2 b X acks)) m)"
    "at_rest L (Q \<union> tx_offsets L ops) (written_back L ops G) (tx_result L ops A) (pm_exec (protocol L v2 b X acks) m)"
    "recovers_to L (Q \<union> tx_offsets L ops) (tx_result L ops A) (pm_exec (protocol L v2 b X acks) m)"
    "r_logEnabled v2 \<and> r_nested v2 = 1"
proof -
  let ?m1 = "pm_exec begin_instrs m" and ?R = "Q \<union> tx_offsets L ops"
  let ?B = "\<lambda>o'. pm_cur (pm_exec (begin_instrs @ b) m) (LByte (main_addr L + o'))"
  have b: "b = fst (rom_body L ops (v\<lparr>r_nested := 1\<rparr>) ?m1)" by (simp add: body)
  have used1: "pm_cur ?m1 LUsed = pm_cur m LUsed" by (rule cur_unwritten) simp
  have set1: "settled ?m1 LUsed" using q by (auto simp: at_rest_def intro: settled_exec)
  have en: "r_logEnabled v2"
    using rom_body_enabled [of "v\<lparr>r_nested := 1\<rparr>" ops "pm_cur m LUsed" ?m1 L] v ok used1
    by (simp add: body rom_idle_def tx_ok_def)
  have lok: "log_ok L (v\<lparr>r_nested := 1\<rparr>)" using v by (simp add: rom_idle_def log_ok_def r_log_def)
  have ops: "\<forall>x\<in>set ops. op_ok L x" using ok by (simp add: tx_ok_def list_all_iff)
  from rom_body_log [OF lok ops body] en
  have log: "log_ok L v2" "log_covers L v2 (tx_stored ops)" "r_nested v2 = 1" by auto
  then show "r_logEnabled v2 \<and> r_nested v2 = 1" using en by simp
  have bw: "writes b \<subseteq> LByte ` tx_stored ops \<union> {LUsed}" unfolding b by (rule rom_body_writes)
  have bu: "always (used_at_least (pm_cur m LUsed)) b ?m1"
    unfolding b by (rule rom_body_used) (use set1 used1 in \<open>auto simp: used_at_least_def settled_def\<close>)
  have bf: "flushed (pm_exec (begin_instrs @ b) m) LUsed \<or> settled (pm_exec (begin_instrs @ b) m) LUsed"
    unfolding b pm_exec_simps(3) by (rule rom_body_used_flushed) (simp add: set1)
  have cur: "?B = tx_result L ops (\<lambda>o'. pm_cur ?m1 (LByte (main_addr L + o')))"
    "pm_cur (pm_exec (begin_instrs @ b) m) LUsed = tx_used ops (pm_cur m LUsed)"
    using rom_body_cur [of L ops "v\<lparr>r_nested := 1\<rparr>" ?m1] used1 by (simp_all add: b)
  have R: "?R = Q \<union> {o'. main_addr L + o' \<in> tx_stored ops}" by (simp add: tx_offsets_def)
  have U: "\<forall>o'\<in>?R. o' + 64 \<le> unat (tx_used ops (pm_cur m LUsed))"
    using tx_ok_offsets [OF ok] q used_le [of "pm_cur m LUsed" ops]
    by (fastforce simp: at_rest_def word_le_nat_alt)
  have U2: "unat (tx_used ops (pm_cur m LUsed)) \<le> main_size L" using ok by (simp add: tx_ok_def)
  have BR: "?B o' = tx_result L ops A o'" if "o' \<in> ?R" for o'
  proof -
    have "pm_cur ?m1 (LByte (main_addr L + p)) = A p" if "p \<in> Q" for p
      using q that cur_unwritten [OF bytes_of_begin(1)] by (simp add: at_rest_def rest_settled_def)
    with that show ?thesis unfolding fun_cong [OF cur(1)] by (intro tx_result_cong [where Q = Q])
  qed
  have H: "written_back L ops G \<subseteq> ?R"
    "\<And>o'. o' \<in> written_back L ops G \<Longrightarrow> if main_addr L + o' \<in> tx_stored ops then back_in_line L o' else o' \<in> G"
    using q by (auto simp: written_back_def tx_offsets_def at_rest_def rest_settled_def)
  note pr = protocol_ok [OF q log(1,2) tx_ok_stored [OF ok] bw bu bf R refl X H, unfolded cur(2), OF _ U U2]
  have either: "recovers_either L G A ?R ?B = recovers_either L G A ?R (tx_result L ops A)"
    and to: "recovers_to L ?R ?B = recovers_to L ?R (tx_result L ops A)"
    and rest: "at_rest L ?R (written_back L ops G) ?B m' = at_rest L ?R (written_back L ops G) (tx_result L ops A) m'" for m'
    by (rule contents_cong [OF BR], assumption | rule at_rest_cong [OF BR], assumption)+
  show "always (recovers_either L G A ?R (tx_result L ops A)) (protocol L v2 b X acks) m"
    using pr(1) by (simp only: either)
  show "at_rest L ?R (written_back L ops G) (tx_result L ops A) (pm_exec (protocol L v2 b X acks) m)"
    using pr(3) by (simp only: rest)
  show "recovers_to L ?R (tx_result L ops A) (pm_exec (protocol L v2 b X acks) m)"
    using pr(4) by (simp only: to)
  assume ack: "Ack i \<in> set (take k (protocol L v2 b X acks))"
  have split: "protocol L v2 b X acks = prologue L v2 b X @ map Ack acks @ copy_instrs L v2"
    by (simp add: protocol_def prologue_def)
  have "\<forall>i. Ack i \<notin> set (apply_pwb (main_addr L) v2)"
    by (auto simp: apply_pwb_def flush_range_def)
  moreover have "\<forall>i. Ack i \<notin> set b" using rom_body_instrs unfolding b by fastforce
  ultimately have "\<forall>i. Ack i \<notin> set (prologue L v2 b X)"
    using X by (auto simp: prologue_def begin_instrs_def state_instrs_def)
  from after_ack [OF this pr(2) ack [unfolded split]]
  show "recovers_to L ?R (tx_result L ops A) (pm_exec (take k (protocol L v2 b X acks)) m)"
    unfolding split to .
qed

text \<open>The instructions of transaction, as the protocol.\<close>

lemma rom_transaction_protocol:
  assumes "rom_idle v" "rom_transaction L ops v m = (is, v')"
    "rom_body L ops (v\<lparr>r_nested := 1\<rparr>) (pm_exec begin_instrs m) = (b, v2)" "r_logEnabled v2 \<and> r_nested v2 = 1"
  shows "is = protocol L v2 b [Pwb LUsed] []" "rom_idle v'"
proof -
  have bt: "begin_transaction v = (begin_instrs, v\<lparr>r_nested := 1\<rparr>)"
    using assms(1) by (simp add: begin_transaction_def rom_idle_def begin_instrs_def)
  have "is = protocol L (v2\<lparr>r_nested := 0\<rparr>) b [Pwb LUsed] []
     \<and> v' = (clear_log (v2\<lparr>r_nested := 0\<rparr>))\<lparr>r_logEnabled := True, r_log_size := 0\<rparr>"
    using assms(2-4)
    by (simp add: rom_transaction_def bt Let_def end_transaction_def replicate_back_def protocol_def
        state_instrs_def copy_instrs_def commit_main_def split: prod.splits)
  moreover have "protocol L (v2\<lparr>r_nested := 0\<rparr>) b [Pwb LUsed] [] = protocol L v2 b [Pwb LUsed] []"
    by (simp add: protocol_def copy_instrs_def apply_log_def apply_pwb_def r_log_def)
  ultimately show "is = protocol L v2 b [Pwb LUsed] []" "rom_idle v'" by (simp_all add: rom_idle_def clear_log_def)
qed



subsection \<open>A store that back misses\<close>

text \<open>
  One store inside a line of main whose copy in back starts in the second line: the log holds
  the line, and its write-back in back does not reach the copy.
\<close>

lemma one_store_protocol:
  assumes v: "rom_idle v" and ok: "store_ok L addr (length bs)" and fit: "addr mod 64 + length bs < 64"
    and body: "rom_body L [PStore addr bs] (v\<lparr>r_nested := 1\<rparr>) m = (b, v2)"
  shows "b = store_bytes addr bs" "r_log v2 = [(int (addr div 64 * 64) - int (main_addr L), 64)]"
proof -
  have "(addr + length bs) div 64 = addr div 64"
  proof -
    have "addr + length bs = (addr mod 64 + length bs) + 64 * (addr div 64)" by simp
    then have "(addr + length bs) div 64 = (addr mod 64 + length bs) div 64 + addr div 64"
      by (metis add.commute div_mult_self2 zero_neq_numeral)
    with fit show ?thesis by simp
  qed
  moreover have "main_addr L \<le> addr \<and> addr < main_addr L + main_size L" using ok by (auto simp: store_ok_def)
  ultimately show "b = store_bytes addr bs" "r_log v2 = [(int (addr div 64 * 64) - int (main_addr L), 64)]"
    using body v by (auto simp: add_to_log_def Let_def rom_idle_def r_log_def CHUNK_SIZE_def)
qed

lemma missed_line:
  assumes ok: "store_ok L addr len" and far: "64 \<le> addr mod 64 + main_size L mod 64" and a: "addr \<le> a" "a < addr + len"
    and e: "r_log v2 = [(int (addr div 64 * 64) - int (main_addr L), 64)]"
    and l: "Pwb l \<in> set (apply_pwb (main_addr L) v2) \<union> set (apply_pwb (back_addr L) v2)"
  shows "\<not> same_line l (LByte (main_size L + a))"
proof -
  let ?c = "addr div 64"
  have b: "main_addr L \<le> ?c * 64" "?c * 64 + 64 \<le> main_addr L + main_size L" "a div 64 = ?c"
  proof -
    have "?c * 64 \<le> addr" "addr < ?c * 64 + 64" by simp_all
    with ok show "main_addr L \<le> ?c * 64" "?c * 64 + 64 \<le> main_addr L + main_size L" by (auto simp: store_ok_def)
    show "a div 64 = ?c"
      using a ok div_le_mono [OF a(1), of 64] div_le_mono [of a "addr + len - 1" 64] by (simp add: store_ok_def)
  qed
  have rel: "rel_addr (main_addr L) (int (?c * 64) - int (main_addr L)) = ?c * 64"
    "rel_addr (back_addr L) (int (?c * 64) - int (main_addr L)) = main_size L + ?c * 64"
    using b(1) by (simp_all add: rel_addr_def back_addr_def)
  have "l = LByte (?c * 64) \<or> l = LByte (main_size L + ?c * 64)"
    using l e rel by (auto simp: apply_pwb_def flush_range_def)
  moreover have "(main_size L + a) div 64 \<noteq> ?c"
  proof -
    have "?c * 64 + 64 \<le> main_size L + a" using b ok a(1) by (auto simp: store_ok_def)
    from div_le_mono [OF this, of 64] show ?thesis by simp
  qed
  moreover have "(main_size L + a) div 64 \<noteq> (main_size L + ?c * 64) div 64"
  proof -
    have "?c * 64 + addr mod 64 = addr" by (simp add: mult.commute)
    moreover have "?c * 64 + a mod 64 = a" using b(3) by (metis div_mult_mod_eq)
    ultimately have "addr mod 64 \<le> a mod 64" using a(1) by linarith
    then have f: "64 \<le> a mod 64 + main_size L mod 64" using far by simp
    have "1 \<le> (a mod 64 + main_size L mod 64) div 64" using div_le_mono [OF f, of 64] by simp
    then have "a div 64 + main_size L div 64 + 1 \<le> (a + main_size L) div 64" by (simp only: div_add1_eq [of a "main_size L"])
    moreover have "(main_size L + ?c * 64) div 64 = main_size L div 64 + ?c" by (simp only: div_mult_self3 [of 64])
    ultimately show ?thesis using b(3) by (simp add: add.commute)
  qed
  ultimately show ?thesis by auto
qed

text \<open>C12: A committed store can be lost on the layouts of this program. A transaction stores once, inside a cache line of main, after a restart; with main_size not a multiple of 64 and the store far enough in its line, the copy of the store in back starts in the next line, which the write-back of back does not reach. The transaction returns and from then on every crash recovers to the stored value, until the next transaction begins: once MUTATING is durable there is a crash, before that transaction has stored anything, after which recovery brings back the old value from back.\<close>
theorem rom_committed_store_lost:
  assumes "quiescent L Q A (pm_boot img)" "rom_idle v" "tx_ok L [PStore addr bs] (img LUsed)"
    "64 \<le> addr mod 64 + main_size L mod 64" "addr mod 64 + length bs < 64" "tx_offsets L [PStore addr bs] \<subseteq> Q"
    "rom_transaction L [PStore addr bs] v (pm_boot img) = (is, v')" "begin_transaction v' = (js, v'')"
  shows "recovers_to L Q (tx_result L [PStore addr bs] A) (pm_exec is (pm_boot img))
    \<and> (\<exists>img' m'. crash_image (pm_exec (is @ js) (pm_boot img)) img' \<and> recovered L img' = Some m'
        \<and> (\<forall>o'\<in>Q. pm_cur m' (LByte (main_addr L + o')) = A o'))"
proof -
  let ?m = "pm_boot img" and ?x = "PStore addr bs"
  have used: "pm_cur ?m LUsed = img LUsed" by (simp add: pm_boot_def)
  have rest: "at_rest L Q Q A ?m" using assms(1) by (simp add: quiescent_at_rest)
  have ok: "tx_ok L [?x] (pm_cur ?m LUsed)" and store: "store_ok L addr (length bs)"
    using assms(3) by (simp_all add: used tx_ok_def)
  obtain b v2 where body: "rom_body L [?x] (v\<lparr>r_nested := 1\<rparr>) (pm_exec begin_instrs ?m) = (b, v2)" by fastforce
  note pb = protocol_body [OF rest assms(2) ok _ body, of "[Pwb LUsed]"]
  note rp = rom_transaction_protocol [OF assms(2,7) body pb(5)]
  note os = one_store_protocol [OF assms(2) store assms(5) body]
  have RQ: "Q \<union> tx_offsets L [?x] = Q" using assms(6) by blast
  have one: "recovers_to L Q (tx_result L [?x] A) (pm_exec is ?m)" using pb(4) [of "[]"] rp(1) by (simp add: RQ)
  have js: "js = begin_instrs" using assms(8) rp(2) by (simp add: begin_transaction_def rom_idle_def begin_instrs_def)
  let ?m3 = "pm_exec (is @ js) ?m"
  let ?off = "tx_offsets L [?x]"
  have range: "addr \<le> main_addr L + o' \<and> main_addr L + o' < addr + length bs" if "o' \<in> ?off" for o'
    using that by (auto simp: tx_offsets_def tx_stored_def)
  have bka: "back_addr L + o' = main_size L + (main_addr L + o')" for o' by (simp add: back_addr_def)
  have old: "A o' \<in> pm_dur ?m3 (LByte (back_addr L + o'))" if "o' \<in> ?off" for o'
  proof -
    have "A o' = img (LByte (back_addr L + o'))"
      using assms(1,6) that by (auto simp: quiescent_def both_settled_def pm_boot_def)
    then have "lingers (A o') (LByte (back_addr L + o')) ?m"
      by (simp add: lingers_def pm_ok_boot) (simp add: pm_boot_def)
    moreover have "\<not> same_line l (LByte (back_addr L + o'))" if l: "Pwb l \<in> set (is @ js)" for l
    proof -
      have "l = LState \<or> l = LUsed \<or> Pwb l \<in> set (apply_pwb (main_addr L) v2) \<union> set (apply_pwb (back_addr L) v2)"
        using l by (auto simp: rp(1) js protocol_def begin_instrs_def state_instrs_def copy_instrs_def os(1) store_bytes_def
            apply_log_def memcpy_def)
      moreover have "\<not> same_line l (LByte (back_addr L + o'))"
        if "Pwb l \<in> set (apply_pwb (main_addr L) v2) \<union> set (apply_pwb (back_addr L) v2)"
        unfolding bka using missed_line [OF store assms(4) _ _ os(2) that] range [OF \<open>o' \<in> ?off\<close>] by blast
      ultimately show ?thesis by auto
    qed
    ultimately have "lingers (A o') (LByte (back_addr L + o')) ?m3" by (rule lingers_exec)
    then show ?thesis by (simp add: lingers_def)
  qed
  define img' where "img' = (\<lambda>l. case l of LState \<Rightarrow> MUTATING | LUsed \<Rightarrow> pm_cur ?m3 LUsed
      | LByte a \<Rightarrow> if back_addr L \<le> a \<and> a - back_addr L \<in> ?off then A (a - back_addr L) else pm_cur ?m3 (LByte a))"
  have iv: "img' LState = MUTATING" "img' LUsed = pm_cur ?m3 LUsed"
    "img' (LByte (back_addr L + o')) = (if o' \<in> ?off then A o' else pm_cur ?m3 (LByte (back_addr L + o')))" for o'
    by (simp_all add: img'_def)
  have st: "pm_dur ?m3 LState = {MUTATING}" by (simp add: js begin_instrs_def pm_store_def)
  have cur3: "pm_cur ?m3 l = pm_cur (pm_exec is ?m) l" if "l \<noteq> LState" for l
    using cur_unwritten [of l js "pm_exec is ?m"] that by (simp add: js begin_instrs_def)
  have ok3: "pm_cur ?m3 l \<in> pm_dur ?m3 l" for l using pm_ok_exec [OF pm_ok_boot, of "is @ js" img] unfolding pm_ok_def by blast
  have crash: "crash_image ?m3 img'"
    unfolding crash_image_def img'_def using st ok3 old [of "a - back_addr L" for a] by (force split: pm_loc.split)
  have rest3: "at_rest L Q (written_back L [?x] Q) (tx_result L [?x] A) (pm_exec is ?m)"
    using pb(3) [of "[]"] rp(1) by (simp add: RQ)
  have U: "o' < unat (pm_cur ?m3 LUsed) \<and> o' < main_size L" if "o' \<in> Q" for o'
    using rest3 that cur3 [of LUsed] by (fastforce simp: at_rest_def)
  have backA: "img' (LByte (back_addr L + o')) = A o'" if "o' \<in> Q" for o'
  proof (cases "o' \<in> ?off")
    case False
    then have "o' \<in> written_back L [?x] Q" using that by (simp add: written_back_def)
    then have "pm_cur (pm_exec is ?m) (LByte (back_addr L + o')) = tx_result L [?x] A o'"
      using rest3 by (simp add: at_rest_def rest_settled_def)
    moreover have "tx_result L [?x] A o' = A o'"
      using False by (auto simp: tx_result_def tx_offsets_def tx_stored_def)
    ultimately show ?thesis using False cur3 by (simp add: iv)
  qed (simp add: iv)
  from recovered_main [of img' L] iv(1,2) obtain m' where m': "recovered L img' = Some m'"
    "\<forall>o' < main_size L. pm_cur m' (LByte (main_addr L + o')) =
       (if o' < unat (pm_cur ?m3 LUsed) then img' (LByte (back_addr L + o')) else img' (LByte (main_addr L + o')))" by auto
  have "pm_cur m' (LByte (main_addr L + o')) = A o'" if "o' \<in> Q" for o'
    using m'(2) U [OF that] backA [OF that] by auto
  with one crash m'(1) show ?thesis by blast
qed

subsection \<open>Recovery can be interrupted\<close>

text \<open>The image holds the contents A: in main, in back or in both, as its state says.\<close>

definition image_of :: "romlayout \<Rightarrow> nat set \<Rightarrow> (nat \<Rightarrow> u64) \<Rightarrow> (pm_loc \<Rightarrow> u64) \<Rightarrow> bool" where
  "image_of L Q A img \<longleftrightarrow> img LState \<in> {IDLE, MUTATING, COPYING} \<and> unat (img LUsed) \<le> main_size L
     \<and> (\<forall>o'\<in>Q. o' + 64 \<le> unat (img LUsed)
          \<and> (img LState \<noteq> MUTATING \<longrightarrow> img (LByte (main_addr L + o')) = A o')
          \<and> (img LState \<noteq> COPYING \<longrightarrow> img (LByte (back_addr L + o')) = A o'))"

lemma images_of:
  assumes "pm_dur m LUsed = {U}" "unat U \<le> main_size L" "\<forall>o'\<in>Q. o' + 64 \<le> unat U"
    "pm_dur m LState \<subseteq> {IDLE, MUTATING, COPYING}"
    "pm_dur m LState \<subseteq> {MUTATING} \<or> (\<forall>o'\<in>Q. pm_dur m (LByte (main_addr L + o')) = {A o'})"
    "pm_dur m LState \<subseteq> {COPYING} \<or> (\<forall>o'\<in>Q. pm_dur m (LByte (back_addr L + o')) = {A o'})"
    "crash_image m img"
  shows "image_of L Q A img"
proof -
  have img: "\<And>l. img l \<in> pm_dur m l" using assms(7) by (simp add: crash_image_def)
  have u: "img LUsed = U" using img [of LUsed] assms(1) by simp
  have "img LState \<noteq> MUTATING \<longrightarrow> (\<forall>o'\<in>Q. img (LByte (main_addr L + o')) = A o')"
    using img assms(5) by (metis singletonD subsetD)
  moreover have "img LState \<noteq> COPYING \<longrightarrow> (\<forall>o'\<in>Q. img (LByte (back_addr L + o')) = A o')"
    using img assms(6) by (metis singletonD subsetD)
  ultimately show ?thesis using assms(2-4) img [of LState] unfolding image_of_def u by blast
qed

definition copied :: "nat \<Rightarrow> nat \<Rightarrow> nat \<Rightarrow> pm_instr list" where
  "copied to from sz = memcpy to from sz @ flush_range to sz @ [Fence]"

lemma copied_writes: "writes (copied to from sz) = LByte ` {to..<to + sz}"
  by (simp add: copied_def memcpy_writes)

lemma copied_settles:
  assumes "to + sz \<le> from \<or> from + sz \<le> to" "to \<le> a" "a + 64 \<le> to + sz"
  shows "settled (pm_exec (copied to from sz) m) (LByte a)
     \<and> pm_cur (pm_exec (copied to from sz) m) (LByte a) = pm_cur m (LByte (from + (a - to)))"
proof -
  let ?m1 = "pm_exec (memcpy to from sz) m"
  from flush_range_covers [OF assms(2,3)] obtain l where "Pwb l \<in> set (flush_range to sz)" "same_line l (LByte a)" by blast
  from settled_pwb_range [OF this, of ?m1]
  have "settled (pm_exec (copied to from sz) m) (LByte a)"
    unfolding copied_def pm_exec_simps by (intro fence_settles) simp
  moreover have "pm_cur (pm_exec (copied to from sz) m) (LByte a) = pm_cur m (LByte (from + (a - to)))"
    using memcpy_cur [OF assms(1), of m a] assms(2,3) by (simp add: copied_def)
  ultimately show ?thesis ..
qed

text \<open>
  Copying one replica, at from, over the other one, at to: the source, the used size and the
  state stay as they are; afterwards both hold A.
\<close>

lemma recovery_copy:
  assumes "img LState = S" "S \<in> {MUTATING, COPYING}" "unat (img LUsed) \<le> main_size L"
    "\<forall>o'\<in>Q. o' + 64 \<le> unat (img LUsed)" "\<forall>o'\<in>Q. img (LByte (from + o')) = A o'"
    "{to, from} = {main_addr L, back_addr L}" "to \<noteq> from" "S = MUTATING \<longleftrightarrow> to = main_addr L"
  defines "C \<equiv> copied to from (unat (img LUsed))"
  shows "always (\<lambda>m'. \<forall>img'. crash_image m' img' \<longrightarrow> image_of L Q A img') (C @ [St LState IDLE]) (pm_boot img)
    \<and> quiescent L Q A (pm_exec (C @ [St LState IDLE]) (pm_boot img))"
proof -
  let ?U = "img LUsed" and ?m0 = "pm_boot img"
  let ?m1 = "pm_exec C ?m0"
  have sep: "to + unat ?U \<le> from \<or> from + unat ?U \<le> to"
    using assms(3,6,7) by (auto simp: back_addr_def doubleton_eq_iff)
  have boot: "pm_cur ?m0 = img" by (simp add: pm_boot_def)
  have w: "LState \<notin> writes C" "LUsed \<notin> writes C" "\<And>o'. o' \<in> Q \<Longrightarrow> LByte (from + o') \<notin> writes C"
    using sep assms(4) by (auto simp: C_def copied_writes)
  define src where "src m' \<longleftrightarrow> settled m' LUsed \<and> pm_cur m' LUsed = ?U
     \<and> (\<forall>o'\<in>Q. settled m' (LByte (from + o')) \<and> pm_cur m' (LByte (from + o')) = A o')" for m'
  have "always (\<lambda>m'. \<forall>o'\<in>Q. settled m' (LByte (from + o')) \<and> pm_cur m' (LByte (from + o')) = A o') C ?m0"
    by (intro always_all always_settled_val) (use assms(5) w(3) in \<open>auto simp: boot settled_boot\<close>)
  moreover have "always (\<lambda>m'. settled m' LUsed \<and> pm_cur m' LUsed = ?U) C ?m0"
    by (rule always_settled_val) (use w(2) in \<open>auto simp: boot settled_boot\<close>)
  ultimately have src: "always src C ?m0" by (simp add: always_def src_def)
  have st: "always (\<lambda>m'. settled m' LState \<and> pm_cur m' LState = S) C ?m0"
    by (rule always_settled_val) (use w(1) assms(1) in \<open>auto simp: boot settled_boot\<close>)
  have dst: "settled ?m1 (LByte (to + o')) \<and> pm_cur ?m1 (LByte (to + o')) = A o'" if "o' \<in> Q" for o'
    using copied_settles [OF sep, of "to + o'" ?m0] assms(4,5) that by (simp add: C_def boot)
  have during: "image_of L Q A img'" if "src m'" "settled m' LState \<and> pm_cur m' LState = S" "crash_image m' img'" for m' img'
  proof (rule images_of [OF _ assms(3,4) _ _ _ that(3)])
    show "pm_dur m' LState \<subseteq> {MUTATING} \<or> (\<forall>o'\<in>Q. pm_dur m' (LByte (main_addr L + o')) = {A o'})"
      "pm_dur m' LState \<subseteq> {COPYING} \<or> (\<forall>o'\<in>Q. pm_dur m' (LByte (back_addr L + o')) = {A o'})"
      using that(1,2) assms(2,6-8) by (auto simp: src_def settled_def doubleton_eq_iff)
  qed (use that(1,2) assms(2) in \<open>auto simp: src_def settled_def\<close>)
  let ?m2 = "pm_exec1 (St LState IDLE) ?m1"
  have both: "both_settled L Q A ?m1"
    using dst always_last [OF src] assms(6,7) by (auto simp: both_settled_def src_def doubleton_eq_iff)
  have used1: "settled ?m1 LUsed" "pm_cur ?m1 LUsed = ?U" using always_last [OF src] by (simp_all add: src_def)
  have both2: "both_settled L Q A ?m2" using both by (simp add: both_settled_def settled_def pm_store_def)
  have dur2: "pm_dur ?m2 LState \<subseteq> {IDLE, MUTATING, COPYING}"
    using always_last [OF st] assms(2) by (auto simp: settled_def pm_store_def)
  have used2: "settled ?m2 LUsed" "pm_cur ?m2 LUsed = ?U" using used1 by (auto simp: settled_def pm_store_def)
  have q: "quiescent L Q A ?m2"
    using both2 dur2 used2 assms(3,4) by (simp add: quiescent_def pm_store_def)
  have after: "image_of L Q A img'" if "crash_image ?m2 img'" for img'
    by (rule images_of [OF _ assms(3,4) dur2 _ _ that])
      (use both2 used2 in \<open>auto simp: both_settled_def settled_def\<close>)
  have "always (\<lambda>m'. \<forall>img'. crash_image m' img' \<longrightarrow> image_of L Q A img') C ?m0"
    by (rule always_mono [OF always_conj [OF src st]]) (use during in blast)
  with after q show ?thesis using always_last [of _ C ?m0] by (simp add: always_append del: pm_exec1.simps)
qed


subsection \<open>Concrete instances\<close>

text \<open>
  The layout of the source: the header of 40 bytes, then main and back, each half of the rest
  of the file of 2 GB. Its main_size is not a multiple of 64, so the cache lines of main and of
  back are shifted against each other.
\<close>

definition rom_layout :: romlayout where
  "rom_layout = \<lparr>main_addr = 40, main_size = 1073741804\<rparr>"

definition ex_image :: "pm_loc \<Rightarrow> u64" where
  "ex_image l = (case l of LState \<Rightarrow> IDLE | LUsed \<Rightarrow> 512 | LByte a \<Rightarrow> 0)"

text \<open>
  Two stores into the cache line at 192: of the first 8 bytes, whose copy in back is written
  back, and of 8 bytes whose copy in back is not.
\<close>

definition ex_ops :: "tx_op list" where
  "ex_ops = [PStore 192 [1, 2, 3, 4, 5, 6, 7, 8], Grow 600, PStore 232 [9, 10, 11, 12, 13, 14, 15, 16]]"

lemma ex_at_rest: "at_rest rom_layout {64..<128} {64..<128} (\<lambda>_. 0) (pm_boot ex_image)"
  by (auto simp: at_rest_def rest_settled_def settled_boot)
    (auto simp: pm_boot_def ex_image_def rom_layout_def)

lemma ex_tx_ok: "tx_ok rom_layout ex_ops (pm_cur (pm_boot ex_image) LUsed)"
  by (simp add: tx_ok_def ex_ops_def store_ok_def rom_layout_def pm_boot_def ex_image_def tx_used_def)

lemma ex_written_back: "{152..<160} \<subseteq> written_back rom_layout ex_ops G" "written_back rom_layout ex_ops G \<inter> {192..<200} = {}"
proof -
  have st: "tx_offsets rom_layout ex_ops = {152..<160} \<union> {192..<200}"
    by (auto simp: tx_offsets_def tx_stored_def ex_ops_def rom_layout_def)
  have m: "main_size rom_layout mod 64 = 44" by (simp add: rom_layout_def)
  have "back_in_line rom_layout o'" if "o' \<in> {152..<160}" for o'
  proof -
    have "(main_addr rom_layout + o') mod 64 = o' - 152" using that by (auto simp: rom_layout_def mod_if)
    with m that show ?thesis unfolding back_in_line_def atLeastLessThan_iff by linarith
  qed
  with st show "{152..<160} \<subseteq> written_back rom_layout ex_ops G" by (auto simp: written_back_def)
  have "\<not> back_in_line rom_layout o'" if "o' \<in> {192..<200}" for o'
  proof -
    have "(main_addr rom_layout + o') mod 64 = o' - 152" using that by (auto simp: rom_layout_def mod_if)
    with m that show ?thesis unfolding back_in_line_def atLeastLessThan_iff by linarith
  qed
  with st show "written_back rom_layout ex_ops G \<inter> {192..<200} = {}" by (auto simp: written_back_def)
qed



text \<open>On the layout of the source: a store of 8 bytes at offset 192 of main, lost after its transaction has returned.\<close>

definition ex_store :: "tx_op list" where "ex_store = [PStore 232 [9, 10, 11, 12, 13, 14, 15, 16]]"

lemma rom_committed_store_lost_witness:
  "\<exists>img' m'. crash_image (pm_exec (fst (rom_transaction rom_layout ex_store rom_init (pm_boot ex_image))
      @ fst (begin_transaction (snd (rom_transaction rom_layout ex_store rom_init (pm_boot ex_image)))))
        (pm_boot ex_image)) img'
     \<and> recovered rom_layout img' = Some m' \<and> pm_cur m' (LByte 232) = 0"
proof -
  have q: "quiescent rom_layout {64..<256} (\<lambda>_. 0) (pm_boot ex_image)"
    by (auto simp: quiescent_def both_settled_def settled_boot) (auto simp: pm_boot_def ex_image_def rom_layout_def)
  have ok: "tx_ok rom_layout ex_store (ex_image LUsed)"
    by (simp add: tx_ok_def store_ok_def rom_layout_def ex_image_def tx_used_def ex_store_def)
  have off: "tx_offsets rom_layout ex_store \<subseteq> {64..<256}"
    by (auto simp: tx_offsets_def tx_stored_def rom_layout_def ex_store_def)
  have far: "64 \<le> 232 mod 64 + main_size rom_layout mod 64" "232 mod 64 + length [9, 10, 11, 12, 13, 14, 15, 16 :: u8] < 64"
    by (simp_all add: rom_layout_def)
  from rom_committed_store_lost [OF q rom_init_idle ok [unfolded ex_store_def] far off [unfolded ex_store_def] surjective_pairing surjective_pairing, folded ex_store_def]
  have "\<exists>img' m'. crash_image (pm_exec (fst (rom_transaction rom_layout ex_store rom_init (pm_boot ex_image))
      @ fst (begin_transaction (snd (rom_transaction rom_layout ex_store rom_init (pm_boot ex_image)))))
        (pm_boot ex_image)) img' \<and> recovered rom_layout img' = Some m'
      \<and> (\<forall>o'\<in>{64..<256}. pm_cur m' (LByte (main_addr rom_layout + o')) = 0)" by blast
  then obtain img' m' where c: "crash_image (pm_exec (fst (rom_transaction rom_layout ex_store rom_init (pm_boot ex_image))
      @ fst (begin_transaction (snd (rom_transaction rom_layout ex_store rom_init (pm_boot ex_image)))))
        (pm_boot ex_image)) img'" "recovered rom_layout img' = Some m'"
      "\<forall>o'\<in>{64..<256}. pm_cur m' (LByte (main_addr rom_layout + o')) = 0" by blast
  have "pm_cur m' (LByte (main_addr rom_layout + 192)) = 0" by (rule c(3) [rule_format]) simp
  then have "pm_cur m' (LByte 232) = 0" by (simp add: rom_layout_def)
  with c(1,2) show ?thesis by blast
qed

definition ex_layout :: romlayout where "ex_layout = \<lparr>main_addr = 40, main_size = 2048\<rparr>"


lemma flush_range_misses:
  assumes "addr mod 64 \<noteq> 0" "Pwb l \<in> set (flush_range addr 64)"
  shows "\<not> same_line l (LByte (addr + 63))"
proof -
  have "l = LByte addr" using assms(2) by (auto simp: flush_range_def)
  moreover have "(addr + 63) div 64 = addr div 64 + 1"
  proof -
    define q where "q = addr div 64"
    obtain r where r: "addr mod 64 = Suc r" using assms(1) by (cases "addr mod 64") auto
    have "addr = 64 * q + Suc r" using mult_div_mod_eq [of 64 addr] r by (simp add: q_def)
    moreover have "r < 64" using mod_less_divisor [of 64 addr] r by simp
    ultimately have "addr + 63 = r + 64 * (q + 1)" "r < 64" by simp_all
    then show ?thesis unfolding q_def [symmetric] by simp
  qed
  ultimately show ?thesis by simp
qed

lemma back_line_misses:
  assumes "is_line_entry rom_layout cl (off, 64)" "0 \<le> off"
    "Pwb l \<in> set (flush_range (rel_addr (back_addr rom_layout) off) 64)"
  shows "\<not> same_line l (LByte (rel_addr (back_addr rom_layout) off + 63))"
proof (rule flush_range_misses [OF _ assms(3)])
  have "off + 40 = int cl * 64"
    using assms(1) by (auto simp: is_line_entry_def Let_def rom_layout_def)
  then obtain k where "nat off + 40 = 64 * k" using assms(2)
    by (metis mult.commute nat_add_distrib nat_int nat_mult_distrib nat_numeral of_nat_0_le_iff zero_le_numeral)
  then have "1073741844 + nat off = 44 + 64 * (k + 16777215)" by simp
  then have "(1073741844 + nat off) mod 64 = 44" by (simp only: mod_mult_self2) simp
  then show "rel_addr (back_addr rom_layout) off mod 64 \<noteq> 0"
    unfolding rel_addr_ok [OF assms(2)] by (simp add: back_addr_def rom_layout_def)
qed

end
