(* ===== verification/RomulusLR.thy ===== *)
theory RomulusLR
  imports RomulusLog
begin

text \<open>
  The persistent transactional memory RomulusLR (ptms/romuluslr/RomulusLR.hpp): the replicas,
  the log and the states of RomulusLog, whose functions it repeats, with wait-free readers. A
  writer sends the readers to back while it mutates main, and to main, once that is durable,
  while it copies to back. The model is the atomic steps of one writer, which combines the
  announced mutations of all threads, and any number of readers.
\<close>

subsection \<open>State\<close>

datatype side = TRAVERSE_LEFT | TRAVERSE_RIGHT

text \<open>Where a reader is in ns_read_transaction, with localVI and the number of its version.\<close>

datatype rpc = R_Idle | R_Arrive nat | R_Side nat | R_Read nat nat

text \<open>
  Where the writer is in toggleVersionAndWait, with nextVI, prevVI and the slot its wait has
  reached, and where it is in ns_write_transaction, with the memory instructions left.
\<close>

datatype tpc = T_Load | T_Wait1 nat nat nat | T_Store nat nat | T_Wait2 nat nat nat

datatype wpc = W_Begin "pm_instr list" | W_Right | W_Toggle tpc | W_Body "pm_instr list" | W_Left
  | W_Toggle2 tpc | W_Copy "pm_instr list"

text \<open>
  writersMutex holds the writer and its place. The list of versions (the offsets that hold data,
  and their contents) records which contents the readers have been sent to; the code keeps no
  such list. A version is numbered by its position.
\<close>

type_synonym version = "nat set \<times> (nat \<Rightarrow> u64)"

record lrtm =
  lr_pm :: pm
  lr_vol :: romvol
  g_right :: bool
  leftRight :: side
  versionIndex :: nat
  ri :: "nat \<Rightarrow> nat \<Rightarrow> bool"
  writersMutex :: "(nat \<times> wpc) option"
  lr_lfc :: "tx_op list option list"
  lr_tids :: nat
  rpcs :: "nat \<Rightarrow> rpc"
  tl_lrromulus :: "nat \<Rightarrow> side"
  lr_hist :: "version list"

definition lr_new :: "version \<Rightarrow> pm \<Rightarrow> lrtm" where
  "lr_new V m = \<lparr>lr_pm = m, lr_vol = rom_init, g_right = False, leftRight = TRAVERSE_LEFT, versionIndex = 0,
     ri = (\<lambda>_ _. False), writersMutex = None, lr_lfc = [], lr_tids = 0, rpcs = (\<lambda>_. R_Idle),
     tl_lrromulus = (\<lambda>_. TRAVERSE_LEFT), lr_hist = [V]\<rparr>"

subsection \<open>Loads\<close>

text \<open>
  pload reads the value of n bytes at an address, from back if the reader has been sent there;
  get_object tests the variable of the thread only.
\<close>

definition pload_addr :: "romlayout \<Rightarrow> lrtm \<Rightarrow> nat \<Rightarrow> nat \<Rightarrow> nat" where
  "pload_addr L s i valaddr =
     (if \<not> g_right s \<or> tl_lrromulus s i = TRAVERSE_LEFT then valaddr
      else if main_addr L < valaddr \<and> valaddr < main_addr L + main_size L then valaddr + main_size L else valaddr)"

definition pload :: "romlayout \<Rightarrow> lrtm \<Rightarrow> nat \<Rightarrow> nat \<Rightarrow> nat \<Rightarrow> u64 list" where
  "pload L s i valaddr n = map (\<lambda>k. pm_cur (lr_pm s) (LByte (pload_addr L s i valaddr + k))) [0..<n]"

definition lr_get_object :: "romlayout \<Rightarrow> lrtm \<Rightarrow> nat \<Rightarrow> nat \<Rightarrow> nat \<Rightarrow> u64 list" where
  "lr_get_object L s i objects idx =
     (let a = (if tl_lrromulus s i = TRAVERSE_LEFT then objects + 8 * idx else objects + 8 * idx + main_size L)
      in map (\<lambda>k. pm_cur (lr_pm s) (LByte (a + k))) [0..<8])"

subsection \<open>Steps\<close>

text \<open>A step of toggleVersionAndWait; a full scan for readers that meets none ends a wait.\<close>

fun toggle_step :: "tpc \<Rightarrow> lrtm \<Rightarrow> lrtm \<times> tpc option" where
  "toggle_step T_Load s = (s, Some (T_Wait1 ((versionIndex s + 1) mod 2) (versionIndex s mod 2) 0))"
| "toggle_step (T_Wait1 nx pv k) s =
     (s, Some (if \<not> k < lr_tids s then T_Store nx pv else if ri s nx k then T_Wait1 nx pv 0 else T_Wait1 nx pv (k + 1)))"
| "toggle_step (T_Store nx pv) s = (s\<lparr>versionIndex := nx\<rparr>, Some (T_Wait2 nx pv 0))"
| "toggle_step (T_Wait2 nx pv k) s =
     (s, if \<not> k < lr_tids s then None else Some (if ri s pv k then T_Wait2 nx pv 0 else T_Wait2 nx pv (k + 1)))"

abbreviation at_wpc :: "nat \<Rightarrow> wpc \<Rightarrow> lrtm \<Rightarrow> lrtm" where
  "at_wpc i p s \<equiv> s\<lparr>writersMutex := Some (i, p)\<rparr>"

abbreviation run_instr :: "pm_instr \<Rightarrow> lrtm \<Rightarrow> lrtm" where
  "run_instr x s \<equiv> s\<lparr>lr_pm := pm_exec1 x (lr_pm s)\<rparr>"

text \<open>
  The instructions of the body up to the PSYNC, and of the rest: the answers to the announced
  mutations, the copy to back, and the state IDLE.
\<close>

definition lr_body :: "romlayout \<Rightarrow> lrtm \<Rightarrow> pm_instr list \<times> romvol" where
  "lr_body L s = (let (js, v1) = rom_body L (announced (lr_lfc s)) (lr_vol s) (lr_pm s)
     in (js @ commit_main L v1 @ [Fence], v1))"

definition lr_copy :: "romlayout \<Rightarrow> lrtm \<Rightarrow> pm_instr list \<times> romvol" where
  "lr_copy L s = (let (ks, v1) = replicate_back L (lr_vol s) (pm_cur (lr_pm s) LUsed)
     in (map Ack (filter (\<lambda>i. lr_lfc s ! i \<noteq> None) [0..<length (lr_lfc s)]) @ ks, v1))"

definition lr_commit :: "romlayout \<Rightarrow> lrtm \<Rightarrow> version" where
  "lr_commit L s = (fst (last (lr_hist s)) \<union> tx_offsets L (announced (lr_lfc s)),
                    tx_result L (announced (lr_lfc s)) (snd (last (lr_hist s))))"

inductive lr_step :: "romlayout \<Rightarrow> nat \<Rightarrow> lrtm \<Rightarrow> lrtm \<Rightarrow> bool" for L i where
  lr_register: "lr_tids s \<le> n \<Longrightarrow> n \<le> 128 \<Longrightarrow> lr_step L i s (s\<lparr>lr_tids := n\<rparr>)"
| rd_version: "rpcs s i = R_Idle \<Longrightarrow> i < lr_tids s \<Longrightarrow> \<forall>p. writersMutex s \<noteq> Some (i, p) \<Longrightarrow>
    lr_step L i s (s\<lparr>rpcs := (rpcs s)(i := R_Arrive (versionIndex s))\<rparr>)"
| rd_arrive: "rpcs s i = R_Arrive vi \<Longrightarrow>
    lr_step L i s (s\<lparr>ri := (ri s)(vi := (ri s vi)(i := True)), rpcs := (rpcs s)(i := R_Side vi)\<rparr>)"
| rd_side: "rpcs s i = R_Side vi \<Longrightarrow>
    lr_step L i s (s\<lparr>tl_lrromulus := (tl_lrromulus s)(i := leftRight s), rpcs := (rpcs s)(i := R_Read vi (length (lr_hist s) - 1))\<rparr>)"
| rd_depart: "rpcs s i = R_Read vi n \<Longrightarrow>
    lr_step L i s (s\<lparr>ri := (ri s)(vi := (ri s vi)(i := False)), rpcs := (rpcs s)(i := R_Idle)\<rparr>)"
| wr_lock: "writersMutex s = None \<Longrightarrow> rpcs s i = R_Idle \<Longrightarrow> i < lr_tids s \<Longrightarrow> list_ex (\<lambda>f. f \<noteq> None) lfc \<Longrightarrow>
    lr_step L i s (at_wpc i (W_Begin [St LState MUTATING, Pwb LState, Fence])
      (s\<lparr>lr_lfc := lfc, lr_vol := (lr_vol s)\<lparr>r_nested := r_nested (lr_vol s) + 1\<rparr>\<rparr>))"
| wr_begin: "writersMutex s = Some (i, W_Begin (x # is)) \<Longrightarrow> lr_step L i s (at_wpc i (W_Begin is) (run_instr x s))"
| wr_g_right: "writersMutex s = Some (i, W_Begin []) \<Longrightarrow> lr_step L i s (at_wpc i W_Right (s\<lparr>g_right := True\<rparr>))"
| wr_to_right: "writersMutex s = Some (i, W_Right) \<Longrightarrow> lr_step L i s
    (at_wpc i (W_Toggle T_Load) (s\<lparr>leftRight := TRAVERSE_RIGHT, tl_lrromulus := (tl_lrromulus s)(i := TRAVERSE_LEFT)\<rparr>))"
| wr_toggle: "writersMutex s = Some (i, W_Toggle t) \<Longrightarrow> toggle_step t s = (s', Some t') \<Longrightarrow> lr_step L i s (at_wpc i (W_Toggle t') s')"
| wr_toggled: "writersMutex s = Some (i, W_Toggle t) \<Longrightarrow> toggle_step t s = (s', None) \<Longrightarrow> lr_body L s' = (js, v) \<Longrightarrow>
    lr_step L i s (at_wpc i (W_Body js) (s'\<lparr>lr_vol := v\<rparr>))"
| wr_body: "writersMutex s = Some (i, W_Body (x # is)) \<Longrightarrow> lr_step L i s (at_wpc i (W_Body is) (run_instr x s))"
| wr_done: "writersMutex s = Some (i, W_Body []) \<Longrightarrow> lr_step L i s (at_wpc i W_Left s)"
| wr_to_left: "writersMutex s = Some (i, W_Left) \<Longrightarrow> lr_step L i s
    (at_wpc i (W_Toggle2 T_Load) (s\<lparr>leftRight := TRAVERSE_LEFT, lr_hist := lr_hist s @ [lr_commit L s]\<rparr>))"
| wr_toggle2: "writersMutex s = Some (i, W_Toggle2 t) \<Longrightarrow> toggle_step t s = (s', Some t') \<Longrightarrow> lr_step L i s (at_wpc i (W_Toggle2 t') s')"
| wr_toggled2: "writersMutex s = Some (i, W_Toggle2 t) \<Longrightarrow> toggle_step t s = (s', None) \<Longrightarrow> lr_copy L s' = (ks, v) \<Longrightarrow>
    lr_step L i s (at_wpc i (W_Copy ks) (s'\<lparr>g_right := False, lr_vol := v\<rparr>))"
| wr_copy: "writersMutex s = Some (i, W_Copy (x # is)) \<Longrightarrow> lr_step L i s (at_wpc i (W_Copy is) (run_instr x s))"
| wr_unlock: "writersMutex s = Some (i, W_Copy []) \<Longrightarrow>
    lr_step L i s (s\<lparr>writersMutex := None, lr_vol := (lr_vol s)\<lparr>r_nested := r_nested (lr_vol s) - 1\<rparr>\<rparr>)"

inductive_cases lr_stepE: "lr_step L i s s'"

text \<open>
  What is required of the transactions: their stores are in the data part of main, below the
  used size, and do not cross cache lines. Small transactions also fit the log.
\<close>

definition tx_in_bounds :: "romlayout \<Rightarrow> tx_op list \<Rightarrow> u64 \<Rightarrow> bool" where
  "tx_in_bounds L ops U \<longleftrightarrow> list_all (op_ok L) ops \<and> unat (tx_used ops U) \<le> main_size L
     \<and> list_all (\<lambda>x. case x of PStore addr bs \<Rightarrow> addr + length bs + 63 \<le> main_addr L + unat (tx_used ops U) | Grow _ \<Rightarrow> True) ops"

definition client_ok :: "romlayout \<Rightarrow> bool \<Rightarrow> lrtm \<Rightarrow> lrtm \<Rightarrow> bool" where
  "client_ok L small s s' \<longleftrightarrow> (writersMutex s = None \<and> writersMutex s' \<noteq> None \<longrightarrow>
     tx_in_bounds L (announced (lr_lfc s')) (pm_cur (lr_pm s) LUsed)
     \<and> (small \<longrightarrow> sum_list (map op_length (announced (lr_lfc s'))) \<le> unat (pm_cur (lr_pm s) LUsed div 4)))"

inductive lr_reach :: "romlayout \<Rightarrow> bool \<Rightarrow> version \<Rightarrow> pm \<Rightarrow> lrtm \<Rightarrow> bool" for L small V m where
  lr_init: "lr_reach L small V m (lr_new V m)"
| lr_next: "lr_reach L small V m s \<Longrightarrow> lr_step L i s s' \<Longrightarrow> client_ok L small s s' \<Longrightarrow> lr_reach L small V m s'"
subsection \<open>What a transaction does to main and to back\<close>

definition holds :: "nat \<Rightarrow> version \<Rightarrow> pm \<Rightarrow> bool" where
  "holds base V m \<longleftrightarrow> (\<forall>o'\<in>fst V. pm_cur m (LByte (base + o')) = snd V o')"

definition after_tx :: "romlayout \<Rightarrow> tx_op list \<Rightarrow> version \<Rightarrow> version" where
  "after_tx L ops V = (fst V \<union> tx_offsets L ops, tx_result L ops (snd V))"

lemma holds_exec: "holds base V m \<Longrightarrow> (\<And>o'. o' \<in> fst V \<Longrightarrow> LByte (base + o') \<notin> writes is) \<Longrightarrow> holds base V (pm_exec is m)"
  by (simp add: holds_def cur_unwritten)

lemma in_bounds_stored: "tx_in_bounds L ops U \<Longrightarrow> tx_stored ops \<subseteq> {main_addr L..<main_addr L + main_size L}"
proof
  fix a assume b: "tx_in_bounds L ops U" and "a \<in> tx_stored ops"
  then obtain x where x: "x \<in> set ops" "a \<in> op_stored x" by (auto simp: tx_stored_def)
  with b show "a \<in> {main_addr L..<main_addr L + main_size L}"
    by (cases x) (auto simp: tx_in_bounds_def list_all_iff store_ok_def dest!: bspec [OF _ x(1)])
qed

lemma in_bounds_offsets:
  assumes "tx_in_bounds L ops U" "o' \<in> tx_offsets L ops"
  shows "o' + 64 \<le> unat (tx_used ops U)" "o' + 64 \<le> main_size L"
proof -
  from assms(2) obtain x where x: "x \<in> set ops" "main_addr L + o' \<in> op_stored x" by (auto simp: tx_offsets_def tx_stored_def)
  with assms(1) show "o' + 64 \<le> unat (tx_used ops U)"
    by (cases x) (fastforce simp: tx_in_bounds_def list_all_iff)+
  with assms(1) show "o' + 64 \<le> main_size L" by (simp add: tx_in_bounds_def)
qed

text \<open>A log that covers a set of addresses, or has been switched off.\<close>

definition log_good :: "romlayout \<Rightarrow> tx_op list \<Rightarrow> romvol \<Rightarrow> bool" where
  "log_good L ops v \<longleftrightarrow> log_ok L v \<and> (r_logEnabled v \<longrightarrow> log_covers L v (tx_stored ops))"

lemma body_result:
  assumes body: "rom_body L ops v m = (b, v')" and main: "holds (main_addr L) V m" and log: "log_ok L v"
    and ok: "tx_in_bounds L ops (pm_cur m LUsed)"
  shows "holds (main_addr L) (after_tx L ops V) (pm_exec (b @ commit_main L v' @ [Fence]) m)" "log_good L ops v'"
    "pm_cur (pm_exec (b @ commit_main L v' @ [Fence]) m) LUsed = tx_used ops (pm_cur m LUsed)"
    "writes (b @ commit_main L v' @ [Fence]) \<subseteq> LByte ` {main_addr L..<main_addr L + main_size L} \<union> {LUsed, LState}"
    "r_nested v' = r_nested v"
proof -
  have b: "b = fst (rom_body L ops v m)" by (simp add: body)
  have wc: "writes (commit_main L v' @ [Fence]) = {LState}" by (simp add: commit_main_def)
  have cur: "pm_cur (pm_exec (b @ commit_main L v' @ [Fence]) m) l = pm_cur (pm_exec b m) l" if "l \<noteq> LState" for l
    using that cur_unwritten [of l "commit_main L v' @ [Fence]" "pm_exec b m"] wc by simp
  have "pm_cur (pm_exec b m) (LByte (main_addr L + o')) = tx_result L ops (snd V) o'" if "o' \<in> fst (after_tx L ops V)" for o'
  proof -
    have "pm_cur (pm_exec b m) (LByte (main_addr L + o')) = tx_result L ops (\<lambda>o'. pm_cur m (LByte (main_addr L + o'))) o'"
      unfolding b by (rule fun_cong [OF conjunct1 [OF rom_body_cur [of L ops v m]]])
    also have "\<dots> = tx_result L ops (snd V) o'"
      using that main by (intro tx_result_cong [where Q = "fst V"]) (auto simp: holds_def after_tx_def)
    finally show ?thesis .
  qed
  then show "holds (main_addr L) (after_tx L ops V) (pm_exec (b @ commit_main L v' @ [Fence]) m)"
    using cur by (simp add: holds_def after_tx_def)
  show "pm_cur (pm_exec (b @ commit_main L v' @ [Fence]) m) LUsed = tx_used ops (pm_cur m LUsed)"
    using rom_body_cur [of L ops v m] cur [of LUsed] unfolding b by simp
  have "\<forall>x\<in>set ops. op_ok L x" using ok by (simp add: tx_in_bounds_def list_all_iff)
  from rom_body_log [OF log this body] show "log_good L ops v'" "r_nested v' = r_nested v" by (auto simp: log_good_def)
  have "writes b \<subseteq> LByte ` tx_stored ops \<union> {LUsed}" unfolding b by (rule rom_body_writes)
  then show "writes (b @ commit_main L v' @ [Fence]) \<subseteq> LByte ` {main_addr L..<main_addr L + main_size L} \<union> {LUsed, LState}"
    using in_bounds_stored [OF ok] wc by (auto 4 3)
qed

lemma copyMainToBack_cur:
  assumes "o' < main_size L" "o' < unat used"
  shows "pm_cur (pm_exec (copyMainToBack L used) m) (LByte (back_addr L + o')) = pm_cur m (LByte (main_addr L + o'))"
proof -
  let ?sz = "min (unat used) (main_size L)"
  have "back_addr L + ?sz \<le> main_addr L \<or> main_addr L + ?sz \<le> back_addr L" by (simp add: back_addr_def)
  from memcpy_cur [OF this, of m "back_addr L + o'"] assms show ?thesis
    by (simp add: copyMainToBack_def Let_def)
qed

lemma replicate_result:
  assumes rep: "replicate_back L v (pm_cur m LUsed) = (ks, v')" and log: "log_good L ops v"
    and main: "holds (main_addr L) (after_tx L ops V) m" and bk: "holds (back_addr L) V m"
    and ok: "\<And>o'. o' \<in> tx_offsets L ops \<Longrightarrow> o' < unat (pm_cur m LUsed) \<and> o' < main_size L" and V: "fst V \<subseteq> {..<main_size L}"
  shows "holds (back_addr L) (after_tx L ops V) (pm_exec (map Ack xs @ ks) m)"
proof -
  let ?W = "after_tx L ops V"
  have enb: "\<forall>e\<in>set (r_log v). entry_ok L e" using log by (simp add: log_good_def log_ok_def)
  have outside: "snd ?W o' = snd V o'" if "o' \<in> fst V" "o' \<notin> tx_offsets L ops" for o'
  proof -
    have "tx_result L ops A o' = A o'" if "o' \<notin> tx_offsets L ops" for A
      using that
    proof (induction ops arbitrary: A)
      case (Cons x ops)
      have "op_result L x A o' = A o'" using Cons.prems by (cases x) (auto simp: tx_offsets_def tx_stored_def)
      moreover have "o' \<notin> tx_offsets L ops" using Cons.prems by (auto simp: tx_offsets_def tx_stored_def)
      ultimately show ?case using Cons.IH [of "op_result L x A"] by (simp add: tx_result_def)
    qed (simp add: tx_result_def)
    with that show ?thesis by (simp add: after_tx_def)
  qed
  have "pm_cur (pm_exec ks m) (LByte (back_addr L + o')) = snd ?W o'" if o': "o' \<in> fst ?W" for o'
  proof -
    have sz: "o' < main_size L" using o' V ok by (auto simp: after_tx_def)
    have mo: "pm_cur m (LByte (main_addr L + o')) = snd ?W o'" using main o' by (simp add: holds_def)
    have un: "o' \<in> fst V \<and> pm_cur m (LByte (back_addr L + o')) = snd ?W o'" if "o' \<notin> tx_offsets L ops"
      using o' that bk outside by (auto simp: holds_def after_tx_def)
    show ?thesis
    proof (cases "r_logEnabled v")
      case True
      have cov: "\<exists>e\<in>set (r_log v). entry_covers L e (main_addr L + o')" if "o' \<in> tx_offsets L ops"
        using log True that by (auto simp: log_good_def log_covers_def tx_offsets_def)
      have "pm_cur (pm_exec ks m) (LByte (back_addr L + o')) = pm_cur (pm_exec (apply_log (main_addr L) (back_addr L) v) m) (LByte (back_addr L + o'))"
        using rep True by (auto simp: replicate_back_def pm_store_def)
      then show ?thesis using apply_log_back [OF enb sz, of m] mo un cov by (cases "o' \<in> tx_offsets L ops") auto
    next
      case False
      let ?c = "copyMainToBack L (pm_cur m LUsed)"
      have ks: "pm_cur (pm_exec ks m) (LByte (back_addr L + o')) = pm_cur (pm_exec ?c m) (LByte (back_addr L + o'))"
        using rep False by (auto simp: replicate_back_def pm_store_def)
      show ?thesis
      proof (cases "o' < unat (pm_cur m LUsed)")
        case True
        then show ?thesis using ks copyMainToBack_cur [OF sz True] mo by simp
      next
        case False
        then have "o' \<notin> tx_offsets L ops" using ok by blast
        moreover have "LByte (back_addr L + o') \<notin> writes ?c" using False by (auto simp: copyMainToBack_def Let_def memcpy_writes)
        ultimately show ?thesis using un ks by (simp add: cur_unwritten)
      qed
    qed
  qed
  then show ?thesis by (simp add: holds_def)
qed

lemma replicate_writes:
  assumes "replicate_back L v used = (ks, v')" "log_ok L v"
  shows "writes (map Ack xs @ ks) \<subseteq> LByte ` {back_addr L..<back_addr L + main_size L} \<union> {LState}"
    "r_chunks v' = [[]]" "r_log_size v' = 0" "r_logEnabled v'" "r_nested v' = r_nested v"
proof -
  have "writes (map Ack xs) = {}" by (induction xs) auto
  moreover have "writes ks \<subseteq> LByte ` {back_addr L..<back_addr L + main_size L} \<union> {LState}"
    using assms apply_log_writes [of v L]
    by (auto simp: replicate_back_def log_ok_def copyMainToBack_def Let_def memcpy_writes split: if_splits)
  ultimately show "writes (map Ack xs @ ks) \<subseteq> LByte ` {back_addr L..<back_addr L + main_size L} \<union> {LState}" by simp
  show "r_chunks v' = [[]]" "r_log_size v' = 0" "r_logEnabled v'" "r_nested v' = r_nested v"
    using assms(1) by (auto simp: replicate_back_def clear_log_def)
qed
subsection \<open>The invariant\<close>

text \<open>A reader is stale when leftRight has changed since it loaded it.\<close>

definition stale_at :: "lrtm \<Rightarrow> nat \<Rightarrow> nat \<Rightarrow> bool" where
  "stale_at s vi j \<longleftrightarrow> (\<exists>n. rpcs s j = R_Read vi n) \<and> tl_lrromulus s j \<noteq> leftRight s"

definition no_stale :: "lrtm \<Rightarrow> bool" where
  "no_stale s \<longleftrightarrow> (\<forall>vi j. \<not> stale_at s vi j)"

text \<open>What the scans of a toggle have ruled out so far.\<close>

definition two_versions :: "nat \<Rightarrow> nat \<Rightarrow> bool" where
  "two_versions nx pv \<longleftrightarrow> nx < 2 \<and> pv < 2 \<and> nx \<noteq> pv"

fun toggle_inv :: "tpc \<Rightarrow> lrtm \<Rightarrow> bool" where
  "toggle_inv T_Load s \<longleftrightarrow> True"
| "toggle_inv (T_Wait1 nx pv k) s \<longleftrightarrow> two_versions nx pv \<and> (\<forall>j < k. \<not> stale_at s nx j)"
| "toggle_inv (T_Store nx pv) s \<longleftrightarrow> two_versions nx pv \<and> (\<forall>j. \<not> stale_at s nx j)"
| "toggle_inv (T_Wait2 nx pv k) s \<longleftrightarrow> two_versions nx pv \<and> (\<forall>j. \<not> stale_at s nx j) \<and> (\<forall>j < k. \<not> stale_at s pv j)"

text \<open>
  The number of the version a reader reads: the last one, or the one before it for the readers
  left in back after the switch to main.
\<close>

definition version_of :: "lrtm \<Rightarrow> nat \<Rightarrow> nat" where
  "version_of s i = (if leftRight s = TRAVERSE_LEFT \<and> tl_lrromulus s i = TRAVERSE_RIGHT
     then length (lr_hist s) - 2 else length (lr_hist s) - 1)"

definition readers_inv :: "lrtm \<Rightarrow> bool" where
  "readers_inv s \<longleftrightarrow> versionIndex s < 2 \<and> (\<forall>i. case rpcs s i of R_Idle \<Rightarrow> True
     | R_Arrive vi \<Rightarrow> vi < 2 \<and> i < lr_tids s
     | R_Side vi \<Rightarrow> vi < 2 \<and> i < lr_tids s \<and> ri s vi i
     | R_Read vi n \<Rightarrow> vi < 2 \<and> i < lr_tids s \<and> ri s vi i \<and> n = version_of s i)
   \<and> (\<forall>i p. writersMutex s = Some (i, p) \<longrightarrow> rpcs s i = R_Idle)"

definition both_hold :: "romlayout \<Rightarrow> version \<Rightarrow> pm \<Rightarrow> bool" where
  "both_hold L V m \<longleftrightarrow> holds (main_addr L) V m \<and> holds (back_addr L) V m"

definition vol_in_tx :: "romvol \<Rightarrow> bool" where
  "vol_in_tx v \<longleftrightarrow> r_chunks v = [[]] \<and> r_log_size v = 0 \<and> r_logEnabled v \<and> r_nested v = 1"

text \<open>Between the commit and the copy: main holds the new version, back the old one.\<close>

definition committed :: "romlayout \<Rightarrow> tx_op list \<Rightarrow> version \<Rightarrow> romvol \<Rightarrow> pm \<Rightarrow> bool" where
  "committed L ops V v m \<longleftrightarrow> holds (main_addr L) (after_tx L ops V) m \<and> holds (back_addr L) V m
     \<and> log_good L ops v \<and> r_nested v = 1
     \<and> (\<forall>o'\<in>tx_offsets L ops. o' + 64 \<le> unat (pm_cur m LUsed) \<and> o' + 64 \<le> main_size L)"

definition phase_inv :: "romlayout \<Rightarrow> lrtm \<Rightarrow> bool" where
  "phase_inv L s \<longleftrightarrow> (let V = last (lr_hist s); ops = announced (lr_lfc s); m = lr_pm s;
       ready = (both_hold L V m \<and> vol_in_tx (lr_vol s) \<and> tx_in_bounds L ops (pm_cur m LUsed)) in
     case map_option snd (writersMutex s) of
       None \<Rightarrow> \<not> g_right s \<and> leftRight s = TRAVERSE_LEFT \<and> no_stale s \<and> both_hold L V m \<and> rom_idle (lr_vol s)
     | Some (W_Begin is) \<Rightarrow> \<not> g_right s \<and> leftRight s = TRAVERSE_LEFT \<and> no_stale s \<and> ready \<and> writes is \<subseteq> {LState}
     | Some W_Right \<Rightarrow> g_right s \<and> leftRight s = TRAVERSE_LEFT \<and> no_stale s \<and> ready
     | Some (W_Toggle t) \<Rightarrow> g_right s \<and> leftRight s = TRAVERSE_RIGHT \<and> toggle_inv t s \<and> ready
     | Some (W_Body is) \<Rightarrow> g_right s \<and> leftRight s = TRAVERSE_RIGHT \<and> no_stale s \<and> holds (back_addr L) V m
         \<and> writes is \<subseteq> LByte ` {main_addr L..<main_addr L + main_size L} \<union> {LUsed, LState}
         \<and> committed L ops V (lr_vol s) (pm_exec is m)
     | Some W_Left \<Rightarrow> g_right s \<and> leftRight s = TRAVERSE_RIGHT \<and> no_stale s \<and> committed L ops V (lr_vol s) m
     | Some (W_Toggle2 t) \<Rightarrow> g_right s \<and> leftRight s = TRAVERSE_LEFT \<and> toggle_inv t s
         \<and> (\<exists>h U. lr_hist s = h @ [U, after_tx L ops U] \<and> committed L ops U (lr_vol s) m)
     | Some (W_Copy is) \<Rightarrow> \<not> g_right s \<and> leftRight s = TRAVERSE_LEFT \<and> no_stale s \<and> holds (main_addr L) V m
         \<and> writes is \<subseteq> LByte ` {back_addr L..<back_addr L + main_size L} \<union> {LState}
         \<and> holds (back_addr L) V (pm_exec is m) \<and> vol_in_tx (lr_vol s))"

definition lr_inv :: "romlayout \<Rightarrow> lrtm \<Rightarrow> bool" where
  "lr_inv L s \<longleftrightarrow> readers_inv s \<and> phase_inv L s \<and> lr_hist s \<noteq> [] \<and> (\<forall>V\<in>set (lr_hist s). fst V \<subseteq> {..<main_size L})"
subsection \<open>Steps of the readers\<close>

definition fewer_stale :: "lrtm \<Rightarrow> lrtm \<Rightarrow> bool" where
  "fewer_stale s s' \<longleftrightarrow> (\<forall>vi j. stale_at s' vi j \<longrightarrow> stale_at s vi j)"

lemma no_stale_mono: "fewer_stale s s' \<Longrightarrow> no_stale s \<Longrightarrow> no_stale s'"
  by (auto simp: fewer_stale_def no_stale_def)

lemma toggle_inv_mono: "fewer_stale s s' \<Longrightarrow> toggle_inv t s \<Longrightarrow> toggle_inv t s'"
  by (cases t) (auto simp: fewer_stale_def)

lemma phase_inv_reader:
  assumes "fewer_stale s s'" "phase_inv L s" "lr_pm s' = lr_pm s" "lr_vol s' = lr_vol s" "g_right s' = g_right s"
    "leftRight s' = leftRight s" "writersMutex s' = writersMutex s" "lr_lfc s' = lr_lfc s" "lr_hist s' = lr_hist s"
  shows "phase_inv L s'"
  using assms(2) no_stale_mono [OF assms(1)] toggle_inv_mono [OF assms(1)]
  unfolding phase_inv_def Let_def assms(3-9) by (auto split: option.splits wpc.splits)

lemma readers_invD:
  assumes "readers_inv s"
  shows "rpcs s i = R_Arrive vi \<Longrightarrow> vi < 2 \<and> i < lr_tids s" "rpcs s i = R_Side vi \<Longrightarrow> vi < 2 \<and> i < lr_tids s \<and> ri s vi i"
    "rpcs s i = R_Read vi n \<Longrightarrow> vi < 2 \<and> i < lr_tids s \<and> ri s vi i \<and> n = version_of s i"
    "writersMutex s = Some (i, p) \<Longrightarrow> rpcs s i = R_Idle" "versionIndex s < 2"
  using assms unfolding readers_inv_def by (auto dest!: spec [of _ i] split: rpc.splits)

lemma readers_invI:
  assumes "versionIndex s < 2" "\<And>i vi. rpcs s i = R_Arrive vi \<Longrightarrow> vi < 2 \<and> i < lr_tids s"
    "\<And>i vi. rpcs s i = R_Side vi \<Longrightarrow> vi < 2 \<and> i < lr_tids s \<and> ri s vi i"
    "\<And>i vi n. rpcs s i = R_Read vi n \<Longrightarrow> vi < 2 \<and> i < lr_tids s \<and> ri s vi i \<and> n = version_of s i"
    "\<And>i p. writersMutex s = Some (i, p) \<Longrightarrow> rpcs s i = R_Idle"
  shows "readers_inv s"
  using assms unfolding readers_inv_def by (auto split: rpc.splits)

text \<open>
  A step that moves the program counter of one thread, which does not write, keeps both
  invariants.
\<close>

definition same_writer :: "lrtm \<Rightarrow> lrtm \<Rightarrow> bool" where
  "same_writer s s' \<longleftrightarrow> writersMutex s' = writersMutex s \<and> lr_pm s' = lr_pm s \<and> lr_vol s' = lr_vol s \<and> g_right s' = g_right s
     \<and> leftRight s' = leftRight s \<and> lr_lfc s' = lr_lfc s \<and> lr_hist s' = lr_hist s \<and> versionIndex s' = versionIndex s"

lemma register_step:
  assumes "readers_inv s" "lr_tids s \<le> n" shows "readers_inv (s\<lparr>lr_tids := n\<rparr>)"
proof (rule readers_invI)
  note d = readers_invD [OF assms(1)]
  show "writersMutex (s\<lparr>lr_tids := n\<rparr>) = Some (i, p) \<Longrightarrow> rpcs (s\<lparr>lr_tids := n\<rparr>) i = R_Idle" for i p using d(4) by simp
qed (use assms(2) readers_invD [OF assms(1)] in \<open>fastforce simp: version_of_def\<close>)+

lemma reader_step:
  assumes inv: "readers_inv s" and sw: "same_writer s s'" and tids: "lr_tids s' = lr_tids s" and i: "\<forall>p. writersMutex s \<noteq> Some (i, p)"
    and pc: "rpcs s' = (rpcs s)(i := q)" and others: "\<And>vi j. j \<noteq> i \<Longrightarrow> ri s' vi j = ri s vi j" "\<And>j. j \<noteq> i \<Longrightarrow> tl_lrromulus s' j = tl_lrromulus s j"
    and q: "case q of R_Idle \<Rightarrow> True | R_Arrive vi \<Rightarrow> vi < 2 \<and> i < lr_tids s | R_Side vi \<Rightarrow> vi < 2 \<and> i < lr_tids s \<and> ri s' vi i
      | R_Read vi n \<Rightarrow> vi < 2 \<and> i < lr_tids s \<and> ri s' vi i \<and> n = length (lr_hist s) - 1 \<and> tl_lrromulus s' i = leftRight s"
  shows "readers_inv s'" "fewer_stale s s'"
proof -
  note d = readers_invD [OF inv]
  show "fewer_stale s s'"
    unfolding fewer_stale_def
  proof (intro allI impI)
    fix vi j assume st: "stale_at s' vi j"
    then have "j \<noteq> i" using q sw pc by (auto simp: stale_at_def same_writer_def)
    with st show "stale_at s vi j" using sw pc others by (simp add: stale_at_def same_writer_def)
  qed
  have ver: "version_of s' j = version_of s j" if "j \<noteq> i" for j
    using sw others(2) [OF that] by (simp add: version_of_def same_writer_def)
  show "readers_inv s'"
    unfolding readers_inv_def
  proof (intro conjI allI impI)
    show "versionIndex s' < 2" using sw d(5) by (simp add: same_writer_def)
    show "rpcs s' j = R_Idle" if "writersMutex s' = Some (j, p)" for j p
    proof -
      have w: "writersMutex s = Some (j, p)" using that sw by (simp add: same_writer_def)
      with i have "j \<noteq> i" by auto
      then show ?thesis using d(4) [OF w] pc by simp
    qed
    show "case rpcs s' j of R_Idle \<Rightarrow> True | R_Arrive vi \<Rightarrow> vi < 2 \<and> j < lr_tids s' | R_Side vi \<Rightarrow> vi < 2 \<and> j < lr_tids s' \<and> ri s' vi j
      | R_Read vi n \<Rightarrow> vi < 2 \<and> j < lr_tids s' \<and> ri s' vi j \<and> n = version_of s' j" for j
    proof (cases "j = i")
      case True
      then show ?thesis using q pc tids sw by (auto simp: version_of_def same_writer_def split: rpc.splits)
    next
      case False
      then show ?thesis using d(1-3) pc tids ver others by (auto split: rpc.splits)
    qed
  qed
qed
subsection \<open>Steps of the writer\<close>

lemma stale_at_cong [simp]:
  "stale_at (s\<lparr>versionIndex := x\<rparr>) = stale_at s" "stale_at (s\<lparr>writersMutex := w\<rparr>) = stale_at s"
  "stale_at (s\<lparr>lr_pm := m\<rparr>) = stale_at s" "stale_at (s\<lparr>lr_vol := v\<rparr>) = stale_at s" "stale_at (s\<lparr>lr_lfc := l\<rparr>) = stale_at s"
  "stale_at (s\<lparr>g_right := b\<rparr>) = stale_at s" "stale_at (s\<lparr>lr_hist := h\<rparr>) = stale_at s"
  by (simp_all add: stale_at_def fun_eq_iff)

lemma no_stale_cong [simp]:
  "no_stale (s\<lparr>versionIndex := x\<rparr>) = no_stale s" "no_stale (s\<lparr>writersMutex := w\<rparr>) = no_stale s"
  "no_stale (s\<lparr>lr_pm := m\<rparr>) = no_stale s" "no_stale (s\<lparr>lr_vol := v\<rparr>) = no_stale s" "no_stale (s\<lparr>lr_lfc := l\<rparr>) = no_stale s"
  "no_stale (s\<lparr>g_right := b\<rparr>) = no_stale s" "no_stale (s\<lparr>lr_hist := h\<rparr>) = no_stale s"
  by (simp_all add: no_stale_def)

lemma toggle_inv_cong [simp]: "toggle_inv t (s\<lparr>writersMutex := w\<rparr>) = toggle_inv t s"
  by (cases t) simp_all

lemma staleD: "readers_inv s \<Longrightarrow> stale_at s vi j \<Longrightarrow> vi < 2 \<and> j < lr_tids s \<and> ri s vi j"
  using readers_invD(3) by (fastforce simp: stale_at_def)

lemma toggle_step_ok:
  assumes inv: "readers_inv s" "toggle_inv t s" and st: "toggle_step t s = (s', r)"
  shows "\<exists>x < 2. s' = s\<lparr>versionIndex := x\<rparr>" "case r of Some t' \<Rightarrow> toggle_inv t' s' | None \<Rightarrow> no_stale s'"
proof -
  have vi: "versionIndex s < 2" using inv(1) by (rule readers_invD)
  note sd = staleD [OF inv(1)]
  show "\<exists>x < 2. s' = s\<lparr>versionIndex := x\<rparr>"
  proof -
    have "s' = s\<lparr>versionIndex := versionIndex s'\<rparr> \<and> versionIndex s' < 2"
      using st vi inv(2) by (cases t) (auto simp: two_versions_def split: if_splits)
    then show ?thesis by blast
  qed
  show "case r of Some t' \<Rightarrow> toggle_inv t' s' | None \<Rightarrow> no_stale s'"
  proof (cases t)
    case T_Load
    then show ?thesis using st vi by (auto simp: two_versions_def less_2_cases_iff)
  next
    case (T_Wait1 nx pv k)
    show ?thesis
    proof (cases "k < lr_tids s")
      case True
      have "\<forall>j < Suc k. \<not> stale_at s nx j" if "\<not> ri s nx k"
        using that sd [of nx k] inv(2) T_Wait1 less_Suc_eq by auto
      then show ?thesis using True st inv(2) T_Wait1 by auto
    next
      case False
      then have "\<not> stale_at s nx j" for j using inv(2) T_Wait1 sd [of nx j] by (cases "j < k") auto
      then show ?thesis using False st inv(2) T_Wait1 by auto
    qed
  next
    case (T_Store nx pv)
    then show ?thesis using st inv(2) by auto
  next
    case (T_Wait2 nx pv k)
    show ?thesis
    proof (cases "k < lr_tids s")
      case True
      have "\<forall>j < Suc k. \<not> stale_at s pv j" if "\<not> ri s pv k"
        using that sd [of pv k] inv(2) T_Wait2 less_Suc_eq by auto
      then show ?thesis using True st inv(2) T_Wait2 by auto
    next
      case False
      have "\<not> stale_at s pv j" for j using False inv(2) T_Wait2 sd [of pv j] by (cases "j < k") auto
      then have "\<not> stale_at s vi j" for vi j
        using inv(2) T_Wait2 sd [of vi j] by (cases "vi = nx"; cases "vi = pv") (auto simp: two_versions_def less_2_cases_iff)
      then show ?thesis using False st T_Wait2 by (auto simp: no_stale_def)
    qed
  qed
qed

lemma readers_inv_writer:
  assumes "readers_inv s" "rpcs s' = rpcs s" "ri s' = ri s" "lr_tids s' = lr_tids s" "versionIndex s' < 2"
    "\<And>j vi n. rpcs s j = R_Read vi n \<Longrightarrow> version_of s' j = version_of s j"
    "\<And>j p. writersMutex s' = Some (j, p) \<Longrightarrow> rpcs s j = R_Idle"
  shows "readers_inv s'"
  using assms(2-7) readers_invD [OF assms(1)] by (intro readers_invI) auto

lemma no_staleD: "no_stale s \<Longrightarrow> rpcs s j = R_Read vi n \<Longrightarrow> tl_lrromulus s j = leftRight s"
  by (auto simp: no_stale_def stale_at_def)

lemma run_ready:
  assumes "holds base V m" "writes (x # is) \<subseteq> S" "\<And>o'. o' \<in> fst V \<Longrightarrow> LByte (base + o') \<notin> S"
  shows "holds base V (pm_exec1 x m)" "writes is \<subseteq> S"
proof -
  have "writes [x] \<subseteq> S" using assms(2) by auto
  then have "\<And>o'. o' \<in> fst V \<Longrightarrow> LByte (base + o') \<notin> writes [x]" using assms(3) by blast
  from holds_exec [OF assms(1) this] show "holds base V (pm_exec1 x m)" by simp
  show "writes is \<subseteq> S" using assms(2) by auto
qed

lemma main_not_back:
  "o' < main_size L \<Longrightarrow> LByte (back_addr L + o') \<notin> LByte ` {main_addr L..<main_addr L + main_size L} \<union> {LUsed, LState}"
  "o' < main_size L \<Longrightarrow> LByte (main_addr L + o') \<notin> LByte ` {back_addr L..<back_addr L + main_size L} \<union> {LState}"
  by (auto simp: back_addr_def)

text \<open>Each step of the writer, with the readers where they are.\<close>

lemma phase_lock:
  assumes "phase_inv L s" "writersMutex s = None" "tx_in_bounds L (announced lfc) (pm_cur (lr_pm s) LUsed)"
  shows "phase_inv L (at_wpc i (W_Begin [St LState MUTATING, Pwb LState, Fence])
     (s\<lparr>lr_lfc := lfc, lr_vol := (lr_vol s)\<lparr>r_nested := r_nested (lr_vol s) + 1\<rparr>\<rparr>))"
  using assms by (auto simp: phase_inv_def Let_def vol_in_tx_def rom_idle_def)

lemma phase_begin:
  assumes "phase_inv L s" "writersMutex s = Some (i, W_Begin (x # is))"
  shows "phase_inv L (at_wpc i (W_Begin is) (run_instr x s))"
proof -
  have w: "writes (x # is) \<subseteq> {LState}" and h: "both_hold L (last (lr_hist s)) (lr_pm s)"
    using assms by (auto simp: phase_inv_def Let_def)
  have "LUsed \<notin> writes [x]" using w by auto
  then have "pm_cur (pm_exec1 x (lr_pm s)) LUsed = pm_cur (lr_pm s) LUsed" using cur_unwritten [of LUsed "[x]" "lr_pm s"] by simp
  then show ?thesis using assms run_ready [OF _ w] h by (auto simp: phase_inv_def Let_def both_hold_def)
qed

lemma phase_toggled:
  assumes p: "phase_inv L s" "writersMutex s = Some (i, W_Toggle t)" and r: "readers_inv s" and st: "toggle_step t s = (s', None)"
    and body: "lr_body L s' = (js, v)" and dom: "fst (last (lr_hist s)) \<subseteq> {..<main_size L}"
  shows "phase_inv L (at_wpc i (W_Body js) (s'\<lparr>lr_vol := v\<rparr>))"
proof -
  have f: "g_right s" "leftRight s = TRAVERSE_RIGHT" "toggle_inv t s" "both_hold L (last (lr_hist s)) (lr_pm s)"
    "vol_in_tx (lr_vol s)" "tx_in_bounds L (announced (lr_lfc s)) (pm_cur (lr_pm s) LUsed)"
    using p by (auto simp: phase_inv_def Let_def)
  from toggle_step_ok [OF r f(3) st] obtain x where s': "s' = s\<lparr>versionIndex := x\<rparr>" and ns: "no_stale s'" by auto
  obtain b where rb: "rom_body L (announced (lr_lfc s)) (lr_vol s) (lr_pm s) = (b, v)" and js: "js = b @ commit_main L v @ [Fence]"
    using body by (auto simp: lr_body_def s' split: prod.splits)
  have log: "log_ok L (lr_vol s)" using f(5) by (simp add: vol_in_tx_def log_ok_def r_log_def)
  note br = body_result [OF rb _ log f(6), of "last (lr_hist s)"]
  let ?V = "last (lr_hist s)" and ?ops = "announced (lr_lfc s)"
  have h: "holds (main_addr L) ?V (lr_pm s)" "holds (back_addr L) ?V (lr_pm s)" using f(4) by (simp_all add: both_hold_def)
  have "LByte (back_addr L + o') \<notin> writes js" if "o' \<in> fst ?V" for o'
    using br(4) [OF h(1)] main_not_back(1) [of o' L] dom that unfolding js by blast
  then have "holds (back_addr L) ?V (pm_exec js (lr_pm s))" by (rule holds_exec [OF h(2)])
  moreover have "o' + 64 \<le> unat (pm_cur (pm_exec js (lr_pm s)) LUsed)" "o' + 64 \<le> main_size L" if "o' \<in> tx_offsets L ?ops" for o'
    using in_bounds_offsets [OF f(6) that] br(3) [OF h(1)] by (simp_all only: js)
  ultimately have "committed L ?ops ?V v (pm_exec js (lr_pm s))"
    using br(1,2,5) [OF h(1)] f(5) unfolding committed_def js vol_in_tx_def by simp
  then show ?thesis using f(1,2) ns h(2) br(4) [OF h(1)] by (simp add: phase_inv_def Let_def s' js)
qed

lemma phase_body:
  assumes p: "phase_inv L s" "writersMutex s = Some (i, W_Body (x # is))" and dom: "fst (last (lr_hist s)) \<subseteq> {..<main_size L}"
  shows "phase_inv L (at_wpc i (W_Body is) (run_instr x s))"
proof -
  have w: "writes (x # is) \<subseteq> LByte ` {main_addr L..<main_addr L + main_size L} \<union> {LUsed, LState}"
    and h: "holds (back_addr L) (last (lr_hist s)) (lr_pm s)" using p by (auto simp: phase_inv_def Let_def)
  have "holds (back_addr L) (last (lr_hist s)) (pm_exec1 x (lr_pm s))" "writes is \<subseteq> LByte ` {main_addr L..<main_addr L + main_size L} \<union> {LUsed, LState}"
    using run_ready [OF h w] main_not_back(1) dom by blast+
  then show ?thesis using p by (simp add: phase_inv_def Let_def)
qed

lemma phase_to_left:
  assumes "phase_inv L s" "writersMutex s = Some (i, W_Left)" "lr_hist s \<noteq> []"
  shows "phase_inv L (at_wpc i (W_Toggle2 T_Load) (s\<lparr>leftRight := TRAVERSE_LEFT, lr_hist := lr_hist s @ [lr_commit L s]\<rparr>))"
proof -
  have "lr_hist s @ [lr_commit L s] = butlast (lr_hist s) @ [last (lr_hist s), after_tx L (announced (lr_lfc s)) (last (lr_hist s))]"
    using assms(3) by (simp add: lr_commit_def after_tx_def)
  moreover have "committed L (announced (lr_lfc s)) (last (lr_hist s)) (lr_vol s) (lr_pm s)" "g_right s"
    using assms(1,2) by (simp_all add: phase_inv_def Let_def)
  ultimately show ?thesis
    by (simp add: phase_inv_def Let_def del: split_paired_Ex) blast
qed

lemma phase_toggled2:
  assumes p: "phase_inv L s" "writersMutex s = Some (i, W_Toggle2 t)" and r: "readers_inv s" and st: "toggle_step t s = (s', None)"
    and copy: "lr_copy L s' = (ks, v)" and dom: "\<forall>V\<in>set (lr_hist s). fst V \<subseteq> {..<main_size L}"
  shows "phase_inv L (at_wpc i (W_Copy ks) (s'\<lparr>g_right := False, lr_vol := v\<rparr>))"
proof -
  let ?ops = "announced (lr_lfc s)"
  from p obtain h U where f: "g_right s" "leftRight s = TRAVERSE_LEFT" "toggle_inv t s" "lr_hist s = h @ [U, after_tx L ?ops U]"
    "committed L ?ops U (lr_vol s) (lr_pm s)" by (auto simp: phase_inv_def Let_def)
  from toggle_step_ok [OF r f(3) st] obtain x where s': "s' = s\<lparr>versionIndex := x\<rparr>" and ns: "no_stale s'" by auto
  obtain cs where rb: "replicate_back L (lr_vol s) (pm_cur (lr_pm s) LUsed) = (cs, v)"
    and ks: "ks = map Ack (filter (\<lambda>i. lr_lfc s ! i \<noteq> None) [0..<length (lr_lfc s)]) @ cs"
    using copy by (auto simp: lr_copy_def s' split: prod.splits)
  have c: "holds (main_addr L) (after_tx L ?ops U) (lr_pm s)" "holds (back_addr L) U (lr_pm s)" "log_good L ?ops (lr_vol s)"
    "r_nested (lr_vol s) = 1" "\<And>o'. o' \<in> tx_offsets L ?ops \<Longrightarrow> o' < unat (pm_cur (lr_pm s) LUsed) \<and> o' < main_size L"
    using f(5) by (fastforce simp: committed_def)+
  have U: "fst U \<subseteq> {..<main_size L}" using dom f(4) by simp
  note rr = replicate_result [OF rb c(3,1,2) c(5) U]
  have "log_ok L (lr_vol s)" using c(3) by (simp add: log_good_def)
  note rw = replicate_writes [OF rb this]
  show ?thesis using f(2,4) ns rr rw c(1,4) by (simp add: phase_inv_def Let_def s' ks vol_in_tx_def)
qed

lemma phase_copy:
  assumes p: "phase_inv L s" "writersMutex s = Some (i, W_Copy (x # is))" and dom: "fst (last (lr_hist s)) \<subseteq> {..<main_size L}"
  shows "phase_inv L (at_wpc i (W_Copy is) (run_instr x s))"
proof -
  have w: "writes (x # is) \<subseteq> LByte ` {back_addr L..<back_addr L + main_size L} \<union> {LState}"
    and h: "holds (main_addr L) (last (lr_hist s)) (lr_pm s)" using p by (auto simp: phase_inv_def Let_def)
  have "holds (main_addr L) (last (lr_hist s)) (pm_exec1 x (lr_pm s))" "writes is \<subseteq> LByte ` {back_addr L..<back_addr L + main_size L} \<union> {LState}"
    using run_ready [OF h w] main_not_back(2) dom by blast+
  then show ?thesis using p by (simp add: phase_inv_def Let_def)
qed
lemma stepped:
  assumes "readers_inv s'" "fewer_stale s s'" "same_writer s s'" "lr_inv L s" shows "lr_inv L s'"
  using assms phase_inv_reader [OF assms(2), of L] by (auto simp: lr_inv_def same_writer_def)

lemma readers_at_wpc:
  assumes "readers_inv s" "writersMutex s = Some (i, p)" "rpcs s' = rpcs s" "ri s' = ri s" "lr_tids s' = lr_tids s"
    "versionIndex s' < 2" "\<And>j vi n. rpcs s j = R_Read vi n \<Longrightarrow> version_of s' j = version_of s j"
    "\<And>j q. writersMutex s' = Some (j, q) \<Longrightarrow> j = i"
  shows "readers_inv s'"
  using assms(1,3-7) readers_invD(4) [OF assms(1,2)] assms(8) by (intro readers_inv_writer [OF assms(1)]) auto

lemma lr_inv_step:
  assumes inv: "lr_inv L s" and st: "lr_step L i s s'" and cl: "client_ok L small s s'"
  shows "lr_inv L s'"
proof -
  have r: "readers_inv s" and p: "phase_inv L s" and h: "lr_hist s \<noteq> []" and dom: "\<forall>V\<in>set (lr_hist s). fst V \<subseteq> {..<main_size L}"
    using inv by (simp_all add: lr_inv_def)
  have doml: "fst (last (lr_hist s)) \<subseteq> {..<main_size L}" using h dom by simp
  note d = readers_invD [OF r]
  have notw: "\<forall>p. writersMutex s \<noteq> Some (i, p)" if "rpcs s i \<noteq> R_Idle" using that d(4) by auto
  note wr = readers_at_wpc [OF r]
  from st show ?thesis
  proof cases
    case (lr_register n)
    then have "readers_inv s'" "fewer_stale s s'" "same_writer s s'"
      using register_step [OF r] by (simp_all add: fewer_stale_def stale_at_def same_writer_def)
    then show ?thesis using inv by (rule stepped)
  next
    case rd_version
    have sw: "same_writer s s'" using rd_version by (simp add: same_writer_def)
    show ?thesis by (rule stepped [OF reader_step [OF r sw, of i "R_Arrive (versionIndex s)"] sw inv]) (use rd_version d(5) in auto)
  next
    case (rd_arrive vi)
    have sw: "same_writer s s'" using rd_arrive by (simp add: same_writer_def)
    show ?thesis by (rule stepped [OF reader_step [OF r sw, of i "R_Side vi"] sw inv]) (use rd_arrive d(1) notw in auto)
  next
    case (rd_side vi)
    have sw: "same_writer s s'" using rd_side by (simp add: same_writer_def)
    show ?thesis
      by (rule stepped [OF reader_step [OF r sw, of i "R_Read vi (length (lr_hist s) - 1)"] sw inv]) (use rd_side d(2) notw in auto)
  next
    case (rd_depart vi n)
    have sw: "same_writer s s'" using rd_depart by (simp add: same_writer_def)
    show ?thesis by (rule stepped [OF reader_step [OF r sw, of i R_Idle] sw inv]) (use rd_depart notw in auto)
  next
    case (wr_lock lfc)
    have "readers_inv s'" by (rule readers_inv_writer [OF r]) (use wr_lock d(5) in \<open>auto simp: version_of_def\<close>)
    moreover have "tx_in_bounds L (announced lfc) (pm_cur (lr_pm s) LUsed)" using cl wr_lock by (simp add: client_ok_def)
    ultimately show ?thesis using phase_lock [OF p wr_lock(2)] dom h by (simp add: lr_inv_def wr_lock(1))
  next
    case (wr_begin x "is")
    have "readers_inv s'" by (rule wr) (use wr_begin d(5) in \<open>auto simp: version_of_def\<close>)
    then show ?thesis using phase_begin [OF p wr_begin(2)] dom h by (simp add: lr_inv_def wr_begin(1))
  next
    case wr_g_right
    have "readers_inv s'" by (rule wr) (use wr_g_right d(5) in \<open>auto simp: version_of_def\<close>)
    moreover have "phase_inv L s'" using p wr_g_right by (simp add: phase_inv_def Let_def)
    ultimately show ?thesis using dom h by (simp add: lr_inv_def wr_g_right(1))
  next
    case wr_to_right
    have f: "no_stale s" "leftRight s = TRAVERSE_LEFT" using p wr_to_right by (simp_all add: phase_inv_def Let_def)
    have "readers_inv s'"
    proof (rule wr [OF wr_to_right(2)])
      show "version_of s' j = version_of s j" if "rpcs s j = R_Read vi n" for j vi n
        using no_staleD [OF f(1) that] f(2) by (simp add: version_of_def wr_to_right(1))
    qed (use wr_to_right d(5) in auto)
    moreover have "phase_inv L s'" using p wr_to_right by (simp add: phase_inv_def Let_def)
    ultimately show ?thesis using dom h by (simp add: lr_inv_def wr_to_right(1))
  next
    case (wr_toggle t s1 t')
    have t: "toggle_inv t s" using p wr_toggle by (simp add: phase_inv_def Let_def)
    from toggle_step_ok [OF r t wr_toggle(3)] obtain x where x: "x < 2" "s1 = s\<lparr>versionIndex := x\<rparr>" "toggle_inv t' s1" by auto
    have "readers_inv s'" by (rule wr [OF wr_toggle(2)]) (use wr_toggle(1) x in \<open>auto simp: version_of_def\<close>)
    moreover have "phase_inv L s'" using p wr_toggle x by (simp add: phase_inv_def Let_def)
    ultimately show ?thesis using dom h x by (simp add: lr_inv_def wr_toggle(1))
  next
    case (wr_toggled t s1 js v)
    have t: "toggle_inv t s" using p wr_toggled by (simp add: phase_inv_def Let_def)
    from toggle_step_ok [OF r t wr_toggled(3)] obtain x where x: "x < 2" "s1 = s\<lparr>versionIndex := x\<rparr>" by auto
    have "readers_inv s'" by (rule wr [OF wr_toggled(2)]) (use wr_toggled(1) x in \<open>auto simp: version_of_def\<close>)
    moreover have "phase_inv L s'" unfolding wr_toggled(1) by (rule phase_toggled [OF p wr_toggled(2) r wr_toggled(3,4) doml])
    ultimately show ?thesis using dom h x by (simp add: lr_inv_def wr_toggled(1))
  next
    case (wr_body x "is")
    have "readers_inv s'" by (rule wr) (use wr_body d(5) in \<open>auto simp: version_of_def\<close>)
    then show ?thesis using phase_body [OF p wr_body(2) doml] dom h by (simp add: lr_inv_def wr_body(1))
  next
    case wr_done
    have "readers_inv s'" by (rule wr) (use wr_done d(5) in \<open>auto simp: version_of_def\<close>)
    moreover have "phase_inv L s'" using p wr_done by (simp add: phase_inv_def Let_def)
    ultimately show ?thesis using dom h by (simp add: lr_inv_def wr_done(1))
  next
    case wr_to_left
    have f: "no_stale s" "leftRight s = TRAVERSE_RIGHT" and c: "committed L (announced (lr_lfc s)) (last (lr_hist s)) (lr_vol s) (lr_pm s)"
      using p wr_to_left by (simp_all add: phase_inv_def Let_def)
    have "readers_inv s'"
    proof (rule wr [OF wr_to_left(2)])
      show "version_of s' j = version_of s j" if "rpcs s j = R_Read vi n" for j vi n
        using no_staleD [OF f(1) that] f(2) by (simp add: version_of_def wr_to_left(1))
    qed (use wr_to_left d(5) in auto)
    moreover have "fst (lr_commit L s) \<subseteq> {..<main_size L}"
      using c doml by (fastforce simp: lr_commit_def committed_def)
    ultimately show ?thesis using phase_to_left [OF p wr_to_left(2) h] dom by (simp add: lr_inv_def wr_to_left(1))
  next
    case (wr_toggle2 t s1 t')
    have t: "toggle_inv t s" using p wr_toggle2 by (simp add: phase_inv_def Let_def)
    from toggle_step_ok [OF r t wr_toggle2(3)] obtain x where x: "x < 2" "s1 = s\<lparr>versionIndex := x\<rparr>" "toggle_inv t' s1" by auto
    have "readers_inv s'" by (rule wr [OF wr_toggle2(2)]) (use wr_toggle2(1) x in \<open>auto simp: version_of_def\<close>)
    moreover have "phase_inv L s'" using p wr_toggle2 x by (simp add: phase_inv_def Let_def)
    ultimately show ?thesis using dom h x by (simp add: lr_inv_def wr_toggle2(1))
  next
    case (wr_toggled2 t s1 ks v)
    have t: "toggle_inv t s" using p wr_toggled2 by (simp add: phase_inv_def Let_def)
    from toggle_step_ok [OF r t wr_toggled2(3)] obtain x where x: "x < 2" "s1 = s\<lparr>versionIndex := x\<rparr>" by auto
    have "readers_inv s'" by (rule wr [OF wr_toggled2(2)]) (use wr_toggled2(1) x in \<open>auto simp: version_of_def\<close>)
    moreover have "phase_inv L s'" unfolding wr_toggled2(1) by (rule phase_toggled2 [OF p wr_toggled2(2) r wr_toggled2(3,4) dom])
    ultimately show ?thesis using dom h x by (simp add: lr_inv_def wr_toggled2(1))
  next
    case (wr_copy x "is")
    have "readers_inv s'" by (rule wr) (use wr_copy d(5) in \<open>auto simp: version_of_def\<close>)
    then show ?thesis using phase_copy [OF p wr_copy(2) doml] dom h by (simp add: lr_inv_def wr_copy(1))
  next
    case wr_unlock
    have "readers_inv s'" by (rule wr) (use wr_unlock d(5) in \<open>auto simp: version_of_def\<close>)
    moreover have "phase_inv L s'" using p wr_unlock by (simp add: phase_inv_def Let_def both_hold_def vol_in_tx_def rom_idle_def)
    ultimately show ?thesis using dom h by (simp add: lr_inv_def wr_unlock(1))
  qed
qed
subsection \<open>Snapshots\<close>

definition reads_version :: "romlayout \<Rightarrow> lrtm \<Rightarrow> nat \<Rightarrow> version \<Rightarrow> bool" where
  "reads_version L s i V \<longleftrightarrow> (\<forall>o' len. 0 < o' \<and> {o'..<o' + len} \<subseteq> fst V \<longrightarrow>
     pload L s i (main_addr L + o') len = map (\<lambda>k. snd V (o' + k)) [0..<len])"

fun versions :: "romlayout \<Rightarrow> version list \<Rightarrow> bool" where
  "versions L (U # V # Vs) \<longleftrightarrow> (\<exists>ops. V = after_tx L ops U) \<and> versions L (V # Vs)"
| "versions L _ \<longleftrightarrow> True"

lemma versions_snoc: "versions L (Vs @ [U]) \<Longrightarrow> versions L (Vs @ [U, after_tx L ops U])"
  by (induction Vs rule: versions.induct) auto

lemma pload_holds:
  assumes "holds (main_addr L) V (lr_pm s)" "\<not> g_right s \<or> tl_lrromulus s i = TRAVERSE_LEFT"
  shows "reads_version L s i V"
  unfolding reads_version_def
proof (intro allI impI)
  fix o' len assume "0 < o' \<and> {o'..<o' + len} \<subseteq> fst V"
  then have "\<And>k. k < len \<Longrightarrow> o' + k \<in> fst V" by auto
  then show "pload L s i (main_addr L + o') len = map (\<lambda>k. snd V (o' + k)) [0..<len]"
    using assms by (auto simp: pload_def pload_addr_def holds_def add.assoc)
qed

lemma pload_holds_back:
  assumes "holds (back_addr L) V (lr_pm s)" "g_right s" "tl_lrromulus s i = TRAVERSE_RIGHT" "fst V \<subseteq> {..<main_size L}"
  shows "reads_version L s i V"
  unfolding reads_version_def
proof (intro allI impI)
  fix o' len assume o': "0 < o' \<and> {o'..<o' + len} \<subseteq> fst V"
  then have k: "o' + k \<in> fst V" if "k < len" for k using that by auto
  show "pload L s i (main_addr L + o') len = map (\<lambda>k. snd V (o' + k)) [0..<len]"
  proof (cases "len = 0")
    case False
    then have "o' < main_size L" using k [of 0] assms(4) by auto
    then have "pload_addr L s i (main_addr L + o') = back_addr L + o'"
      using o' assms(2,3) by (simp add: pload_addr_def back_addr_def)
    then show ?thesis using k assms(1) by (auto simp: pload_def holds_def add.assoc)
  qed (simp add: pload_def)
qed

lemma reader_version:
  assumes inv: "lr_inv L s" and rd: "rpcs s i = R_Read vi n"
  shows "n < length (lr_hist s) \<and> length (lr_hist s) \<le> n + 2 \<and> reads_version L s i (lr_hist s ! n)"
proof -
  have r: "readers_inv s" and p: "phase_inv L s" and h: "lr_hist s \<noteq> []" and dom: "\<forall>V\<in>set (lr_hist s). fst V \<subseteq> {..<main_size L}"
    using inv by (simp_all add: lr_inv_def)
  have n: "n = version_of s i" using readers_invD(3) [OF r rd] by simp
  have last: "lr_hist s ! (length (lr_hist s) - 1) = last (lr_hist s)" using h by (simp add: last_conv_nth)
  have fresh: "no_stale s \<Longrightarrow> tl_lrromulus s i = leftRight s" using rd by (rule no_staleD [rotated])
  have doml: "fst (last (lr_hist s)) \<subseteq> {..<main_size L}" using h dom by simp
  consider (left) "leftRight s = TRAVERSE_LEFT" "no_stale s" "holds (main_addr L) (last (lr_hist s)) (lr_pm s)"
    | (right) "leftRight s = TRAVERSE_RIGHT" "no_stale s" "holds (back_addr L) (last (lr_hist s)) (lr_pm s)" "g_right s"
    | (toggle) "leftRight s = TRAVERSE_RIGHT" "both_hold L (last (lr_hist s)) (lr_pm s)" "g_right s"
    | (toggle2) g U ops where "leftRight s = TRAVERSE_LEFT" "lr_hist s = g @ [U, after_tx L ops U]" "g_right s"
        "holds (main_addr L) (after_tx L ops U) (lr_pm s)" "holds (back_addr L) U (lr_pm s)"
  proof (cases "map_option snd (writersMutex s)")
    case None
    then show ?thesis using p left by (auto simp: phase_inv_def Let_def both_hold_def)
  next
    case (Some w)
    then show ?thesis
      using p left right toggle toggle2
      by (cases w) (auto simp: phase_inv_def Let_def both_hold_def committed_def simp del: split_paired_Ex)
  qed
  then show ?thesis
  proof cases
    case left
    then have "tl_lrromulus s i = TRAVERSE_LEFT" using fresh by simp
    then show ?thesis using left h last pload_holds [OF left(3)] n by (simp add: version_of_def)
  next
    case right
    then show ?thesis using h last pload_holds_back [OF right(3,4) _ doml] n fresh by (simp add: version_of_def)
  next
    case toggle
    then have "reads_version L s i (last (lr_hist s))"
      using pload_holds [of L _ s i] pload_holds_back [of L _ s i, OF _ toggle(3) _ doml] by (cases "tl_lrromulus s i") (auto simp: both_hold_def)
    then show ?thesis using toggle(1) h last n by (simp add: version_of_def)
  next
    case (toggle2 g U ops)
    have "fst U \<subseteq> {..<main_size L}" using dom toggle2(2) by simp
    then have "reads_version L s i (if tl_lrromulus s i = TRAVERSE_LEFT then after_tx L ops U else U)"
      using pload_holds [OF toggle2(4)] pload_holds_back [OF toggle2(5,3)] by (cases "tl_lrromulus s i") auto
    then show ?thesis using toggle2(1,2) n by (cases "tl_lrromulus s i") (simp_all add: version_of_def nth_append)
  qed
qed

lemma lr_reach_inv:
  assumes "lr_reach L small V m s" "both_hold L V m" "fst V \<subseteq> {..<main_size L}"
  shows "lr_inv L s \<and> versions L (lr_hist s) \<and> hd (lr_hist s) = V"
  using assms(1)
proof induction
  case lr_init
  have "readers_inv (lr_new V m)" by (rule readers_invI) (simp_all add: lr_new_def)
  moreover have "phase_inv L (lr_new V m)"
    using assms(2) rom_init_idle by (simp add: phase_inv_def lr_new_def no_stale_def stale_at_def)
  ultimately show ?case using assms(3) by (simp add: lr_inv_def lr_new_def)
next
  case (lr_next s i s')
  then have inv: "lr_inv L s" and h: "lr_hist s \<noteq> []" by (simp_all add: lr_inv_def)
  have "lr_hist s' = lr_hist s \<or> lr_hist s' = lr_hist s @ [lr_commit L s]"
    using lr_next(2) by cases (auto elim!: toggle_step.elims)
  moreover have "versions L (lr_hist s @ [lr_commit L s])"
  proof -
    have eq: "lr_hist s @ [lr_commit L s] = butlast (lr_hist s) @ [last (lr_hist s), after_tx L (announced (lr_lfc s)) (last (lr_hist s))]"
      using h by (simp add: lr_commit_def after_tx_def)
    show ?thesis unfolding eq by (rule versions_snoc) (use lr_next.IH h in simp)
  qed
  ultimately show ?case using lr_inv_step [OF inv lr_next(2,3)] lr_next.IH h by auto
qed

text \<open>A reader keeps its version until it departs.\<close>

definition keeps_version :: "romlayout \<Rightarrow> lrtm \<Rightarrow> nat \<Rightarrow> bool" where
  "keeps_version L s i \<longleftrightarrow> (\<forall>j s'. lr_step L j s s' \<longrightarrow> (rpcs s' i = rpcs s i \<or> rpcs s' i = R_Idle)
     \<and> take (length (lr_hist s)) (lr_hist s') = lr_hist s)"

lemma reader_keeps:
  assumes "rpcs s i = R_Read vi n" shows "keeps_version L s i"
  unfolding keeps_version_def
proof (intro allI impI)
  fix j s' assume "lr_step L j s s'"
  then show "(rpcs s' i = rpcs s i \<or> rpcs s' i = R_Idle) \<and> take (length (lr_hist s)) (lr_hist s') = lr_hist s"
    by cases (use assms in \<open>auto elim!: toggle_step.elims\<close>)
qed

subsection \<open>Versions the readers have seen are never lost\<close>

text \<open>The writer has not sent the readers to its version yet.\<close>

definition committing :: "lrtm \<Rightarrow> bool" where
  "committing s \<longleftrightarrow> (case map_option snd (writersMutex s) of None \<Rightarrow> False | Some (W_Toggle2 t) \<Rightarrow> False | Some (W_Copy is) \<Rightarrow> False | Some _ \<Rightarrow> True)"

text \<open>The instructions a writer issues, split where the readers are sent to its version.\<close>

definition lr_before :: "romlayout \<Rightarrow> pm_instr list \<Rightarrow> romvol \<Rightarrow> pm_instr list" where
  "lr_before L b v2 = begin_instrs @ b @ commit_main L v2 @ [Fence]"

definition answers :: "lrtm \<Rightarrow> nat list" where
  "answers s = filter (\<lambda>i. lr_lfc s ! i \<noteq> None) [0..<length (lr_lfc s)]"

lemma lr_protocol: "protocol L v2 b [] acks = lr_before L b v2 @ map Ack acks @ copy_instrs L v2"
  by (simp add: protocol_def lr_before_def commit_main_def state_instrs_def)

text \<open>A transaction in progress: the memory it started from, and what it has executed since.\<close>

record lr_run =
  run_m0 :: pm
  run_old :: version
  run_v0 :: romvol
  run_b :: "pm_instr list"
  run_v2 :: romvol

text \<open>The offsets of a version whose copies in back the write-back of back reaches.\<close>

definition kept_back :: "romlayout \<Rightarrow> version \<Rightarrow> nat set" where
  "kept_back L V = {o' \<in> fst V. back_in_line L o'}"

definition run_ok :: "romlayout \<Rightarrow> tx_op list \<Rightarrow> lr_run \<Rightarrow> bool" where
  "run_ok L ops r \<longleftrightarrow> at_rest L (fst (run_old r)) (kept_back L (run_old r)) (snd (run_old r)) (run_m0 r) \<and> rom_idle (run_v0 r)
     \<and> tx_ok L ops (pm_cur (run_m0 r) LUsed)
     \<and> rom_body L ops ((run_v0 r)\<lparr>r_nested := 1\<rparr>) (pm_exec begin_instrs (run_m0 r)) = (run_b r, run_v2 r)"

definition run_at :: "romlayout \<Rightarrow> lrtm \<Rightarrow> lr_run \<Rightarrow> bool" where
  "run_at L s r \<longleftrightarrow> (let m0 = run_m0 r; bs = lr_before L (run_b r) (run_v2 r); old = run_old r; new = after_tx L (announced (lr_lfc s)) old;
       V = last (lr_hist s) in
     case map_option snd (writersMutex s) of
       None \<Rightarrow> False
     | Some (W_Begin is) \<Rightarrow> V = old \<and> lr_vol s = (run_v0 r)\<lparr>r_nested := 1\<rparr> \<and> (\<exists>d. d @ is = begin_instrs \<and> lr_pm s = pm_exec d m0)
     | Some W_Right \<Rightarrow> V = old \<and> lr_vol s = (run_v0 r)\<lparr>r_nested := 1\<rparr> \<and> lr_pm s = pm_exec begin_instrs m0
     | Some (W_Toggle t) \<Rightarrow> V = old \<and> lr_vol s = (run_v0 r)\<lparr>r_nested := 1\<rparr> \<and> lr_pm s = pm_exec begin_instrs m0
     | Some (W_Body is) \<Rightarrow> V = old \<and> lr_vol s = run_v2 r \<and> (\<exists>d. begin_instrs @ d @ is = bs \<and> lr_pm s = pm_exec (begin_instrs @ d) m0)
     | Some W_Left \<Rightarrow> V = old \<and> lr_vol s = run_v2 r \<and> lr_pm s = pm_exec bs m0
     | Some (W_Toggle2 t) \<Rightarrow> V = new \<and> lr_vol s = run_v2 r \<and> lr_pm s = pm_exec bs m0
     | Some (W_Copy is) \<Rightarrow> V = new \<and> rom_idle ((lr_vol s)\<lparr>r_nested := 0\<rparr>) \<and> r_nested (lr_vol s) = 1
         \<and> (\<exists>d. d @ is = map Ack (answers s) @ copy_instrs L (run_v2 r) \<and> lr_pm s = pm_exec (bs @ d) m0))"

definition dur_inv :: "romlayout \<Rightarrow> lrtm \<Rightarrow> bool" where
  "dur_inv L s \<longleftrightarrow> lr_hist s \<noteq> [] \<and> (case writersMutex s of
      None \<Rightarrow> (let V = last (lr_hist s) in at_rest L (fst V) (kept_back L V) (snd V) (lr_pm s)
        \<and> recovers_to L (fst V) (snd V) (lr_pm s)) \<and> rom_idle (lr_vol s)
    | Some _ \<Rightarrow> \<exists>r. run_ok L (announced (lr_lfc s)) r \<and> run_at L s r)"

lemma toggle_step_frame:
  "toggle_step t s = (s', r) \<Longrightarrow> lr_pm s' = lr_pm s \<and> lr_vol s' = lr_vol s \<and> lr_lfc s' = lr_lfc s \<and> lr_hist s' = lr_hist s"
  by (cases t) auto

lemma in_bounds_ok: "tx_ok L ops U \<longleftrightarrow> tx_in_bounds L ops U \<and> sum_list (map op_length ops) \<le> unat (U div 4)"
  by (auto simp: tx_ok_def tx_in_bounds_def)

lemma kept_new: "kept_back L (fst V \<union> tx_offsets L ops, B) \<subseteq> written_back L ops (kept_back L V)"
  by (auto simp: kept_back_def written_back_def)

text \<open>What the lemmas on RomulusLog say about the run.\<close>

lemma run_protocol:
  assumes "run_ok L ops r"
  shows "always (recovers_either L (kept_back L (run_old r)) (snd (run_old r)) (fst (after_tx L ops (run_old r))) (snd (after_tx L ops (run_old r))))
      (lr_before L (run_b r) (run_v2 r)) (run_m0 r)"
    "always (recovers_to L (fst (after_tx L ops (run_old r))) (snd (after_tx L ops (run_old r))))
      (map Ack acks @ copy_instrs L (run_v2 r)) (pm_exec (lr_before L (run_b r) (run_v2 r)) (run_m0 r))"
    "at_rest L (fst (after_tx L ops (run_old r))) (kept_back L (after_tx L ops (run_old r))) (snd (after_tx L ops (run_old r)))
      (pm_exec (lr_before L (run_b r) (run_v2 r) @ map Ack acks @ copy_instrs L (run_v2 r)) (run_m0 r))"
    "r_logEnabled (run_v2 r) \<and> r_nested (run_v2 r) = 1"
proof -
  have ok: "at_rest L (fst (run_old r)) (kept_back L (run_old r)) (snd (run_old r)) (run_m0 r)" "rom_idle (run_v0 r)" "tx_ok L ops (pm_cur (run_m0 r) LUsed)"
    "rom_body L ops ((run_v0 r)\<lparr>r_nested := 1\<rparr>) (pm_exec begin_instrs (run_m0 r)) = (run_b r, run_v2 r)"
    using assms by (simp_all add: run_ok_def)
  note pb = protocol_body [OF ok(1-3) _ ok(4), of "[]", simplified]
  show "always (recovers_either L (kept_back L (run_old r)) (snd (run_old r)) (fst (after_tx L ops (run_old r))) (snd (after_tx L ops (run_old r))))
      (lr_before L (run_b r) (run_v2 r)) (run_m0 r)"
    using pb(1) [of "[]"] by (simp add: lr_protocol always_append after_tx_def)
  show "at_rest L (fst (after_tx L ops (run_old r))) (kept_back L (after_tx L ops (run_old r))) (snd (after_tx L ops (run_old r)))
      (pm_exec (lr_before L (run_b r) (run_v2 r) @ map Ack acks @ copy_instrs L (run_v2 r)) (run_m0 r))"
    using at_rest_mono [OF pb(3) [of acks], of "kept_back L (after_tx L ops (run_old r))"]
    by (simp add: lr_protocol after_tx_def kept_new)
  show "r_logEnabled (run_v2 r) \<and> r_nested (run_v2 r) = 1" by (rule pb(5))
  let ?b = "lr_before L (run_b r) (run_v2 r)" and ?c = "copy_instrs L (run_v2 r)"
  have copy: "always (recovers_to L (fst (after_tx L ops (run_old r))) (snd (after_tx L ops (run_old r)))) ?c (pm_exec ?b (run_m0 r))"
    unfolding always_def
  proof
    fix k
    have take: "take (Suc (length ?b) + k) (?b @ map Ack [0] @ ?c) = ?b @ Ack 0 # take k ?c" by simp
    have "Ack 0 \<in> set (take (Suc (length ?b) + k) (protocol L (run_v2 r) (run_b r) [] [0]))" unfolding lr_protocol take by simp
    from pb(2) [OF this] show "recovers_to L (fst (after_tx L ops (run_old r))) (snd (after_tx L ops (run_old r)))
        (pm_exec (take k ?c) (pm_exec ?b (run_m0 r)))"
      unfolding lr_protocol take by (simp add: after_tx_def)
  qed
  then have "recovers_to L (fst (after_tx L ops (run_old r))) (snd (after_tx L ops (run_old r))) (pm_exec ?b (run_m0 r))"
    unfolding always_def by (metis pm_exec_simps(1) take_0)
  with copy show "always (recovers_to L (fst (after_tx L ops (run_old r))) (snd (after_tx L ops (run_old r))))
      (map Ack acks @ ?c) (pm_exec ?b (run_m0 r))"
    by (simp add: always_append)
qed

lemma dur_inv_reader:
  assumes "dur_inv L s" "writersMutex s' = writersMutex s" "lr_pm s' = lr_pm s" "lr_vol s' = lr_vol s" "lr_lfc s' = lr_lfc s"
    "lr_hist s' = lr_hist s"
  shows "dur_inv L s'"
  using assms(1) unfolding dur_inv_def run_at_def Let_def answers_def assms(2-6) .

lemma dur_invI:
  "lr_hist s \<noteq> [] \<Longrightarrow> writersMutex s = Some w \<Longrightarrow> run_ok L (announced (lr_lfc s)) r \<Longrightarrow> run_at L s r \<Longrightarrow> dur_inv L s"
  by (auto simp: dur_inv_def)

lemma dur_inv_run:
  assumes "dur_inv L s" "writersMutex s = Some w"
  obtains r where "lr_hist s \<noteq> []" "run_ok L (announced (lr_lfc s)) r" "run_at L s r"
  using assms by (auto simp: dur_inv_def)

lemma dur_lock:
  assumes inv: "dur_inv L s" and w: "writersMutex s = None"
    and tx: "tx_ok L (announced lfc) (pm_cur (lr_pm s) LUsed)"
    and s': "s' = at_wpc i (W_Begin begin_instrs) (s\<lparr>lr_lfc := lfc, lr_vol := (lr_vol s)\<lparr>r_nested := r_nested (lr_vol s) + 1\<rparr>\<rparr>)"
  shows "dur_inv L s'"
proof -
  let ?V = "last (lr_hist s)"
  have q: "at_rest L (fst ?V) (kept_back L ?V) (snd ?V) (lr_pm s)" "rom_idle (lr_vol s)" "lr_hist s \<noteq> []" using inv w by (simp_all add: dur_inv_def Let_def)
  obtain b v2 where body: "rom_body L (announced lfc) ((lr_vol s)\<lparr>r_nested := 1\<rparr>) (pm_exec begin_instrs (lr_pm s)) = (b, v2)"
    by (rule prod.exhaust)
  let ?r = "\<lparr>run_m0 = lr_pm s, run_old = ?V, run_v0 = lr_vol s, run_b = b, run_v2 = v2\<rparr>"
  have "run_ok L (announced (lr_lfc s')) ?r" using q tx body by (simp add: run_ok_def s')
  moreover have "run_at L s' ?r" using q(2) by (auto simp: run_at_def Let_def s' rom_idle_def intro: exI [of _ "[]"])
  ultimately show ?thesis using q(3) by (intro dur_invI) (simp_all add: s')
qed

lemma dur_toggled:
  assumes inv: "dur_inv L s" and w: "writersMutex s = Some (i, W_Toggle t)" and st: "toggle_step t s = (s1, None)"
    and body: "lr_body L s1 = (js, v)" and s': "s' = at_wpc i (W_Body js) (s1\<lparr>lr_vol := v\<rparr>)"
  shows "dur_inv L s'"
proof -
  obtain r where r: "lr_hist s \<noteq> []" "run_ok L (announced (lr_lfc s)) r" "run_at L s r" by (rule dur_inv_run [OF inv w])
  note f = toggle_step_frame [OF st]
  have at: "last (lr_hist s) = run_old r" "lr_vol s = (run_v0 r)\<lparr>r_nested := 1\<rparr>" "lr_pm s = pm_exec begin_instrs (run_m0 r)"
    using r(3) w by (simp_all add: run_at_def Let_def)
  have "rom_body L (announced (lr_lfc s)) (lr_vol s) (lr_pm s) = (run_b r, run_v2 r)" using r(2) at by (simp add: run_ok_def)
  then have js: "js = run_b r @ commit_main L (run_v2 r) @ [Fence]" "v = run_v2 r" using body f by (auto simp: lr_body_def)
  have "run_at L s' r" using at f js by (auto simp: run_at_def Let_def s' lr_before_def intro: exI [of _ "[]"])
  then show ?thesis using r(1,2) f by (intro dur_invI) (simp_all add: s')
qed

lemma dur_toggled2:
  assumes inv: "dur_inv L s" and w: "writersMutex s = Some (i, W_Toggle2 t)" and st: "toggle_step t s = (s1, None)"
    and copy: "lr_copy L s1 = (ks, v)" and s': "s' = at_wpc i (W_Copy ks) (s1\<lparr>g_right := False, lr_vol := v\<rparr>)"
  shows "dur_inv L s'"
proof -
  obtain r where r: "lr_hist s \<noteq> []" "run_ok L (announced (lr_lfc s)) r" "run_at L s r" by (rule dur_inv_run [OF inv w])
  note f = toggle_step_frame [OF st]
  have at: "last (lr_hist s) = after_tx L (announced (lr_lfc s)) (run_old r)" "lr_vol s = run_v2 r"
    "lr_pm s = pm_exec (lr_before L (run_b r) (run_v2 r)) (run_m0 r)"
    using r(3) w by (simp_all add: run_at_def Let_def)
  have "r_logEnabled (run_v2 r)" "r_nested (run_v2 r) = 1" using run_protocol(4) [OF r(2)] by auto
  then have ks: "ks = map Ack (answers s) @ copy_instrs L (run_v2 r)" "rom_idle (v\<lparr>r_nested := 0\<rparr>)" "r_nested v = 1"
    using copy f at(2) by (auto simp: lr_copy_def answers_def replicate_back_def copy_instrs_def rom_idle_def clear_log_def)
  have "answers s' = answers s" using f by (simp add: answers_def s')
  then have "run_at L s' r" using at f ks by (auto simp: run_at_def Let_def s' intro: exI [of _ "[]"])
  then show ?thesis using r(1,2) f by (intro dur_invI) (simp_all add: s')
qed

text \<open>A step that runs an instruction, or moves on when none is left, stays in the same run.\<close>

lemma dur_advance:
  assumes inv: "dur_inv L s" and w: "writersMutex s = Some (i, p)" and s': "writersMutex s' = Some (i, q)"
    and same: "lr_lfc s' = lr_lfc s" "lr_vol s' = lr_vol s" "lr_hist s' \<noteq> []"
    and at: "\<And>r. run_at L s r \<Longrightarrow> run_at L s' r"
  shows "dur_inv L s'"
proof -
  obtain r where r: "run_ok L (announced (lr_lfc s)) r" "run_at L s r" by (rule dur_inv_run [OF inv w])
  with at same s' show ?thesis by (intro dur_invI [where r = r]) simp_all
qed

lemma snoc_prefix:
  "\<exists>d. d @ x # xs = ys \<and> m = pm_exec d m0 \<Longrightarrow> \<exists>d. d @ xs = ys \<and> pm_exec1 x m = pm_exec d m0"
  "\<exists>d. begin_instrs @ d @ x # xs = ys \<and> m = pm_exec (begin_instrs @ d) m0 \<Longrightarrow>
     \<exists>d. begin_instrs @ d @ xs = ys \<and> pm_exec1 x m = pm_exec (begin_instrs @ d) m0"
  "\<exists>d. d @ x # xs = ys \<and> m = pm_exec (bs @ d) m0 \<Longrightarrow> \<exists>d. d @ xs = ys \<and> pm_exec1 x m = pm_exec (bs @ d) m0"
proof -
  assume "\<exists>d. d @ x # xs = ys \<and> m = pm_exec d m0"
  then obtain d where "d @ x # xs = ys" "m = pm_exec d m0" by blast
  then show "\<exists>d. d @ xs = ys \<and> pm_exec1 x m = pm_exec d m0" by (intro exI [of _ "d @ [x]"]) simp
next
  assume "\<exists>d. begin_instrs @ d @ x # xs = ys \<and> m = pm_exec (begin_instrs @ d) m0"
  then obtain d where "begin_instrs @ d @ x # xs = ys" "m = pm_exec (begin_instrs @ d) m0" by blast
  then show "\<exists>d. begin_instrs @ d @ xs = ys \<and> pm_exec1 x m = pm_exec (begin_instrs @ d) m0" by (intro exI [of _ "d @ [x]"]) simp
next
  assume "\<exists>d. d @ x # xs = ys \<and> m = pm_exec (bs @ d) m0"
  then obtain d where "d @ x # xs = ys" "m = pm_exec (bs @ d) m0" by blast
  then show "\<exists>d. d @ xs = ys \<and> pm_exec1 x m = pm_exec (bs @ d) m0" by (intro exI [of _ "d @ [x]"]) simp
qed

lemma dur_unlock:
  assumes inv: "dur_inv L s" and w: "writersMutex s = Some (i, W_Copy [])"
  shows "dur_inv L (s\<lparr>writersMutex := None, lr_vol := (lr_vol s)\<lparr>r_nested := r_nested (lr_vol s) - 1\<rparr>\<rparr>)"
proof -
  obtain r where r: "lr_hist s \<noteq> []" "run_ok L (announced (lr_lfc s)) r" "run_at L s r" by (rule dur_inv_run [OF inv w])
  have "last (lr_hist s) = after_tx L (announced (lr_lfc s)) (run_old r)" "rom_idle ((lr_vol s)\<lparr>r_nested := 0\<rparr>)" "r_nested (lr_vol s) = 1"
    "lr_pm s = pm_exec (lr_before L (run_b r) (run_v2 r) @ map Ack (answers s) @ copy_instrs L (run_v2 r)) (run_m0 r)"
    using r(3) w by (simp_all add: run_at_def Let_def)
  with run_protocol(3) [OF r(2), of "answers s"] always_last [OF run_protocol(2) [OF r(2), of "answers s"]] r(1)
  show ?thesis by (simp add: dur_inv_def)
qed

lemma dur_inv_step:
  assumes inv: "dur_inv L s" and st: "lr_step L i s s'" and cl: "client_ok L True s s'"
  shows "dur_inv L s'"
proof -
  have h: "lr_hist s \<noteq> []" using inv by (simp add: dur_inv_def)
  from st show ?thesis
  proof cases
    case (wr_lock lfc)
    have "tx_ok L (announced lfc) (pm_cur (lr_pm s) LUsed)" using cl wr_lock by (simp add: client_ok_def in_bounds_ok)
    from dur_lock [OF inv wr_lock(2) this] show ?thesis by (simp add: wr_lock(1) begin_instrs_def)
  next
    case (wr_begin x "is")
    show ?thesis by (rule dur_advance [OF inv wr_begin(2)])
        (use wr_begin h snoc_prefix(1) in \<open>auto simp: run_at_def Let_def\<close>)
  next
    case wr_g_right
    show ?thesis by (rule dur_advance [OF inv wr_g_right(2)]) (use wr_g_right h in \<open>auto simp: run_at_def Let_def\<close>)
  next
    case wr_to_right
    show ?thesis by (rule dur_advance [OF inv wr_to_right(2)]) (use wr_to_right h in \<open>auto simp: run_at_def Let_def\<close>)
  next
    case (wr_toggle t s1 t')
    show ?thesis by (rule dur_advance [OF inv wr_toggle(2)])
        (use wr_toggle h toggle_step_frame [OF wr_toggle(3)] in \<open>auto simp: run_at_def Let_def\<close>)
  next
    case (wr_toggled t s1 js v)
    show ?thesis by (rule dur_toggled [OF inv wr_toggled(2-4)]) (rule wr_toggled(1))
  next
    case (wr_body x "is")
    show ?thesis by (rule dur_advance [OF inv wr_body(2)])
        (use wr_body h snoc_prefix(2) in \<open>auto simp: run_at_def Let_def simp del: pm_exec_simps(3)\<close>)
  next
    case wr_done
    show ?thesis by (rule dur_advance [OF inv wr_done(2)]) (use wr_done h in \<open>auto simp: run_at_def Let_def simp del: pm_exec_simps(3)\<close>)
  next
    case wr_to_left
    show ?thesis by (rule dur_advance [OF inv wr_to_left(2)])
        (use wr_to_left h in \<open>auto simp: run_at_def Let_def lr_commit_def after_tx_def\<close>)
  next
    case (wr_toggle2 t s1 t')
    show ?thesis by (rule dur_advance [OF inv wr_toggle2(2)])
        (use wr_toggle2 h toggle_step_frame [OF wr_toggle2(3)] in \<open>auto simp: run_at_def Let_def\<close>)
  next
    case (wr_toggled2 t s1 ks v)
    show ?thesis by (rule dur_toggled2 [OF inv wr_toggled2(2-4)]) (rule wr_toggled2(1))
  next
    case (wr_copy x "is")
    show ?thesis by (rule dur_advance [OF inv wr_copy(2)])
        (use wr_copy h snoc_prefix(3) in \<open>auto simp: run_at_def Let_def answers_def simp del: pm_exec_simps(3)\<close>)
  next
    case wr_unlock
    show ?thesis unfolding wr_unlock(1) by (rule dur_unlock [OF inv wr_unlock(2)])
  qed (rule dur_inv_reader [OF inv]; simp)+
qed

lemma always_prefix: "always P (d @ rest) m \<Longrightarrow> P (pm_exec d m)"
  using always_last by (auto simp: always_append)

definition lr_durable :: "romlayout \<Rightarrow> lrtm \<Rightarrow> bool" where
  "lr_durable L s \<longleftrightarrow> (let V = last (lr_hist s); W = lr_commit L s in
     if committing s then recovers_either L (kept_back L V) (snd V) (fst W) (snd W) (lr_pm s)
     else recovers_to L (fst V) (snd V) (lr_pm s))"

lemma dur_inv_durable:
  assumes inv: "dur_inv L s"
  shows "lr_durable L s"
proof (cases "writersMutex s")
  case None
  then show ?thesis using inv by (simp add: lr_durable_def dur_inv_def Let_def committing_def)
next
  case (Some w)
  obtain r where r: "run_ok L (announced (lr_lfc s)) r" "run_at L s r" by (rule dur_inv_run [OF inv Some])
  let ?bs = "lr_before L (run_b r) (run_v2 r)" and ?V = "run_old r"
  let ?W = "after_tx L (announced (lr_lfc s)) ?V"
  note rp = run_protocol [OF r(1)]
  have before: "recovers_either L (kept_back L ?V) (snd ?V) (fst ?W) (snd ?W) (pm_exec d (run_m0 r))" if "d @ rest = ?bs" for d rest
    using always_prefix [of _ d rest] rp(1) unfolding that by blast
  have after: "recovers_to L (fst ?W) (snd ?W) (pm_exec (?bs @ d) (run_m0 r))"
    if "d @ rest = map Ack acks @ copy_instrs L (run_v2 r)" for d rest acks
    using always_prefix [of _ d rest "pm_exec ?bs (run_m0 r)"] rp(2) [of acks] unfolding that pm_exec_simps(3) by blast
  have split: "begin_instrs @ (run_b r @ commit_main L (run_v2 r) @ [Fence]) = ?bs" by (simp add: lr_before_def)
  have commit: "lr_commit L s = ?W" if "last (lr_hist s) = ?V" using that by (simp add: lr_commit_def after_tx_def)
  have at: "if committing s then last (lr_hist s) = ?V \<and> (\<exists>d rest. d @ rest = ?bs \<and> lr_pm s = pm_exec d (run_m0 r))
     else last (lr_hist s) = ?W \<and> (\<exists>d rest acks. d @ rest = map Ack acks @ copy_instrs L (run_v2 r) \<and> lr_pm s = pm_exec (?bs @ d) (run_m0 r))"
  proof (cases "snd w")
    case (W_Begin "is")
    with r(2) Some obtain d where d: "d @ is = begin_instrs" "lr_pm s = pm_exec d (run_m0 r)" "last (lr_hist s) = ?V"
      by (auto simp: run_at_def Let_def)
    then have "d @ is @ run_b r @ commit_main L (run_v2 r) @ [Fence] = ?bs" unfolding split [symmetric] append_assoc d(1) [symmetric] by simp
    then show ?thesis using d Some W_Begin by (auto simp: committing_def)
  next
    case W_Right
    then show ?thesis using r(2) Some split by (auto simp: run_at_def Let_def committing_def simp del: append_assoc)
  next
    case (W_Toggle t)
    then show ?thesis using r(2) Some split by (auto simp: run_at_def Let_def committing_def simp del: append_assoc)
  next
    case (W_Body "is")
    with r(2) Some obtain d where d: "begin_instrs @ d @ is = ?bs" "lr_pm s = pm_exec (begin_instrs @ d) (run_m0 r)" "last (lr_hist s) = ?V"
      by (auto simp: run_at_def Let_def simp del: pm_exec_simps(3))
    have "(begin_instrs @ d) @ is = ?bs" using d(1) by simp
    with d(2) have "\<exists>d rest. d @ rest = ?bs \<and> lr_pm s = pm_exec d (run_m0 r)" by blast
    then show ?thesis using d(3) Some W_Body by (simp only: committing_def) simp
  next
    case W_Left
    then show ?thesis using r(2) Some by (auto simp: run_at_def Let_def committing_def intro: exI [of _ ?bs] exI [of _ "[]"])
  next
    case (W_Toggle2 t)
    then have "lr_pm s = pm_exec (?bs @ []) (run_m0 r)" and v: "last (lr_hist s) = ?W"
      using r(2) Some by (simp_all add: run_at_def Let_def)
    moreover have "[] @ copy_instrs L (run_v2 r) = map Ack [] @ copy_instrs L (run_v2 r)" by simp
    ultimately have "\<exists>d rest acks. d @ rest = map Ack acks @ copy_instrs L (run_v2 r) \<and> lr_pm s = pm_exec (?bs @ d) (run_m0 r)" by blast
    then show ?thesis using Some W_Toggle2 v by (simp only: committing_def) simp
  next
    case (W_Copy "is")
    then show ?thesis using r(2) Some by (auto simp: run_at_def Let_def committing_def simp del: pm_exec_simps(3)) 
  qed
  show ?thesis
  proof (cases "committing s")
    case True
    with at obtain d rest where "last (lr_hist s) = ?V" "d @ rest = ?bs" "lr_pm s = pm_exec d (run_m0 r)" by auto
    then show ?thesis using True before [of d rest] commit by (simp add: lr_durable_def Let_def)
  next
    case False
    with at obtain d rest acks where "last (lr_hist s) = ?W" "d @ rest = map Ack acks @ copy_instrs L (run_v2 r)"
      "lr_pm s = pm_exec (?bs @ d) (run_m0 r)" by auto
    then show ?thesis using False after [of d rest acks] by (simp add: lr_durable_def Let_def del: pm_exec_simps(3))
  qed
qed

lemma lr_reach_dur:
  assumes "lr_reach L True V m s" "quiescent L (fst V) (snd V) m"
  shows "dur_inv L s"
  using assms(1)
proof induction
  case lr_init
  have q: "at_rest L (fst V) (fst V) (snd V) m" using assms(2) by (simp add: quiescent_at_rest)
  have "at_rest L (fst V) (kept_back L V) (snd V) m" by (rule at_rest_mono [OF q]) (simp add: kept_back_def)
  moreover have "recovers_either L (fst V) (snd V) (fst V) (snd V) m"
    by (rule rest_either [of L "fst V"]) (use q in \<open>fastforce simp: at_rest_def\<close>)+
  then have "recovers_to L (fst V) (snd V) m" by (simp add: recovers_either_def recovers_to_def)
  ultimately show ?case using rom_init_idle by (simp add: dur_inv_def lr_new_def)
next
  case (lr_next s i s')
  show ?case by (rule dur_inv_step [OF lr_next.IH lr_next(2,3)])
qed


subsection \<open>Concrete instances\<close>

definition ex_version :: version where "ex_version = ({64..<128}, \<lambda>_. 0)"

text \<open>Thread 0 reads while thread 1 has begun a transaction.\<close>

definition ex_lr :: lrtm where
  "ex_lr = (lr_new ex_version (pm_boot ex_image))\<lparr>lr_tids := 2, rpcs := (\<lambda>_. R_Idle)(0 := R_Read 0 0),
     ri := (\<lambda>_ _. False)(0 := (\<lambda>_. False)(0 := True)), writersMutex := Some (1, W_Begin [St LState MUTATING, Pwb LState, Fence]),
     lr_lfc := [None, Some ex_ops], lr_vol := rom_init\<lparr>r_nested := 1\<rparr>\<rparr>"

lemma ex_lr_reach: "lr_reach rom_layout small ex_version (pm_boot ex_image) ex_lr"
proof -
  let ?s0 = "lr_new ex_version (pm_boot ex_image)"
  let ?s1 = "?s0\<lparr>lr_tids := 2\<rparr>"
  let ?s2 = "?s1\<lparr>rpcs := (rpcs ?s1)(0 := R_Arrive 0)\<rparr>"
  let ?s3 = "?s2\<lparr>ri := (ri ?s2)(0 := (ri ?s2 0)(0 := True)), rpcs := (rpcs ?s2)(0 := R_Side 0)\<rparr>"
  let ?s4 = "?s3\<lparr>tl_lrromulus := (tl_lrromulus ?s3)(0 := leftRight ?s3), rpcs := (rpcs ?s3)(0 := R_Read 0 (length (lr_hist ?s3) - 1))\<rparr>"
  have quiet: "client_ok rom_layout small s s'" if "writersMutex s' = None" for s s' using that by (simp add: client_ok_def)
  have "lr_step rom_layout 0 ?s0 ?s1" by (rule lr_register) (simp_all add: lr_new_def)
  then have r1: "lr_reach rom_layout small ex_version (pm_boot ex_image) ?s1"
    by (rule lr_next [OF lr_init]) (rule quiet, simp add: lr_new_def)
  have "lr_step rom_layout 0 ?s1 ?s2" using rd_version [of ?s1 0 rom_layout] by (simp add: lr_new_def)
  then have r2: "lr_reach rom_layout small ex_version (pm_boot ex_image) ?s2"
    by (rule lr_next [OF r1]) (rule quiet, simp add: lr_new_def)
  have "lr_step rom_layout 0 ?s2 ?s3" by (rule rd_arrive) simp
  then have r3: "lr_reach rom_layout small ex_version (pm_boot ex_image) ?s3"
    by (rule lr_next [OF r2]) (rule quiet, simp add: lr_new_def)
  have "lr_step rom_layout 0 ?s3 ?s4" by (rule rd_side) simp
  then have r4: "lr_reach rom_layout small ex_version (pm_boot ex_image) ?s4"
    by (rule lr_next [OF r3]) (rule quiet, simp add: lr_new_def)
  have ex: "ex_lr = at_wpc 1 (W_Begin [St LState MUTATING, Pwb LState, Fence])
      (?s4\<lparr>lr_lfc := [None, Some ex_ops], lr_vol := (lr_vol ?s4)\<lparr>r_nested := r_nested (lr_vol ?s4) + 1\<rparr>\<rparr>)"
    by (simp add: ex_lr_def lr_new_def rom_init_def fun_eq_iff)
  have "lr_step rom_layout 1 ?s4 ex_lr" unfolding ex by (rule wr_lock) (simp_all add: lr_new_def)
  moreover have "client_ok rom_layout small ?s4 ex_lr"
    using ex_tx_ok by (simp add: client_ok_def in_bounds_ok ex_lr_def lr_new_def announced_def)
  ultimately show ?thesis by (rule lr_next [OF r4])
qed

lemma ex_both: "both_hold rom_layout ex_version (pm_boot ex_image)"
  by (simp add: both_hold_def holds_def ex_version_def pm_boot_def ex_image_def)



end
