(* ===== verification/TryLock.thy ===== *)
theory TryLock
  imports PTM_Prelude
begin

text \<open>
  The reader-writer trylock of the Redo PTMs (common/StrongTryRIRWLock.hpp). Its operations are
  given twice: as functions, for a thread that runs alone, and as the atomic steps of any number
  of threads in any order (sequentially consistent, as the atomics of the source are by default).
  The 62-bit sequence number of the lock is a natural number: it would wrap only after 2 ^ 62
  attempts to write within one trylock.
\<close>

subsection \<open>The lock and its operations without interference\<close>

datatype lock_mode = NOLOCK | HLOCK | RLOCK | WLOCK

type_synonym StructData = "nat \<times> lock_mode"

text \<open>A slot of the read indicator is NOT\_READING (0), READING (1) or READING+1 (2).\<close>

record rwlock =
  wstate :: StructData
  states :: "nat \<Rightarrow> nat"

definition rwlock_new :: rwlock where
  "rwlock_new = \<lparr>wstate = (0, NOLOCK), states = (\<lambda>_. 0)\<rparr>"

definition wstate_cas :: "StructData \<Rightarrow> StructData \<Rightarrow> rwlock \<Rightarrow> bool \<times> rwlock" where
  "wstate_cas ws next' lk = (if wstate lk = ws then (True, lk\<lparr>wstate := next'\<rparr>) else (False, lk))"

definition abortRollback :: "nat \<Rightarrow> rwlock \<Rightarrow> rwlock" where
  "abortRollback maxThreads lk =
     fold (\<lambda>tid lk. if states lk tid \<noteq> 1 then lk else lk\<lparr>states := (states lk)(tid := 2)\<rparr>) [0..<maxThreads] lk"

definition rollbackArrive :: "nat \<Rightarrow> rwlock \<Rightarrow> bool \<times> rwlock" where
  "rollbackArrive tid lk = (states lk tid = 1, lk\<lparr>states := (states lk)(tid := states lk tid - 1)\<rparr>)"

definition arrive :: "nat \<Rightarrow> rwlock \<Rightarrow> rwlock" where
  "arrive tid lk = lk\<lparr>states := (states lk)(tid := 1)\<rparr>"

definition depart :: "nat \<Rightarrow> rwlock \<Rightarrow> rwlock" where
  "depart tid lk = lk\<lparr>states := (states lk)(tid := 0)\<rparr>"

definition isEmpty_ri :: "nat \<Rightarrow> rwlock \<Rightarrow> bool" where
  "isEmpty_ri maxThreads lk = list_all (\<lambda>tid. states lk tid = 0) [0..<maxThreads]"

definition sharedTryLock :: "nat \<Rightarrow> rwlock \<Rightarrow> bool \<times> rwlock" where
  "sharedTryLock tid lk =
     (if snd (wstate lk) = WLOCK then (False, lk)
      else let lk1 = arrive tid lk; ws = wstate lk1;
               (won, lk2) = (if snd ws = HLOCK then wstate_cas ws (fst ws, NOLOCK) lk1 else (False, lk1))
           in if won then (True, lk2)
              else if snd (wstate lk2) \<noteq> WLOCK then (True, lk2)
              else let (rolled, lk3) = rollbackArrive tid lk2 in (\<not> rolled, lk3))"

definition sharedUnlock :: "nat \<Rightarrow> rwlock \<Rightarrow> rwlock" where
  "sharedUnlock tid lk = depart tid lk"

definition exclusiveTryLock :: "nat \<Rightarrow> rwlock \<Rightarrow> bool \<times> rwlock" where
  "exclusiveTryLock maxThreads lk =
     (let ws = wstate lk
      in if snd ws = WLOCK \<or> snd ws = RLOCK then (False, lk)
         else if \<not> isEmpty_ri maxThreads lk then (False, lk)
         else if snd ws = HLOCK then
           (if ws \<noteq> wstate lk then (False, lk) else wstate_cas ws (fst ws, WLOCK) lk)
         else let next' = (fst ws + 1, HLOCK); lk1 = snd (wstate_cas ws next' lk)
              in if \<not> isEmpty_ri maxThreads lk1 then (False, lk1)
                 else if wstate lk1 \<noteq> next' then (False, lk1)
                 else wstate_cas next' (fst next', WLOCK) lk1)"

definition exclusiveUnlock :: "nat \<Rightarrow> rwlock \<Rightarrow> rwlock" where
  "exclusiveUnlock maxThreads lk =
     (let ws = wstate lk in (abortRollback maxThreads (lk\<lparr>wstate := (fst ws, RLOCK)\<rparr>))\<lparr>wstate := (fst ws, NOLOCK)\<rparr>)"

definition setReadLock :: "rwlock \<Rightarrow> rwlock" where
  "setReadLock lk = lk\<lparr>wstate := (fst (wstate lk), RLOCK)\<rparr>"

definition isReadLock :: "rwlock \<Rightarrow> bool" where
  "isReadLock lk \<longleftrightarrow> snd (wstate lk) = RLOCK"

definition setReadUnlock :: "rwlock \<Rightarrow> rwlock" where
  "setReadUnlock lk = lk\<lparr>wstate := (fst (wstate lk), NOLOCK)\<rparr>"

definition downgrade :: "nat \<Rightarrow> rwlock \<Rightarrow> rwlock" where
  "downgrade maxThreads lk = abortRollback maxThreads (lk\<lparr>wstate := (fst (wstate lk), RLOCK)\<rparr>)"

lemma wstate_abortRollback [simp]: "wstate (abortRollback n lk) = wstate lk"
  unfolding abortRollback_def by (induction n) auto

lemma states_abortRollback: "states (abortRollback n lk) = (\<lambda>t. if t < n \<and> states lk t = 1 then 2 else states lk t)"
  unfolding abortRollback_def by (induction n) (auto simp: fun_eq_iff less_Suc_eq)

text \<open>Alone, a reader is refused only by a writer, a writer only by a writer or a reader.\<close>

lemma sharedTryLock_alone:
  "fst (sharedTryLock tid lk) \<longleftrightarrow> snd (wstate lk) \<noteq> WLOCK"
  "snd (wstate lk) = WLOCK \<Longrightarrow> snd (sharedTryLock tid lk) = lk"
  "snd (wstate lk) \<noteq> WLOCK \<Longrightarrow> states (snd (sharedTryLock tid lk)) = (states lk)(tid := 1)"
  "snd (wstate lk) \<noteq> WLOCK \<Longrightarrow> wstate (snd (sharedTryLock tid lk)) =
     (if snd (wstate lk) = HLOCK then (fst (wstate lk), NOLOCK) else wstate lk)"
  by (auto simp: sharedTryLock_def wstate_cas_def arrive_def Let_def)

lemma exclusiveTryLock_alone:
  "fst (exclusiveTryLock n lk) \<longleftrightarrow> (snd (wstate lk) = NOLOCK \<or> snd (wstate lk) = HLOCK) \<and> isEmpty_ri n lk"
  "fst (exclusiveTryLock n lk) \<Longrightarrow> snd (wstate (snd (exclusiveTryLock n lk))) = WLOCK"
  "states (snd (exclusiveTryLock n lk)) = states lk"
  by (cases "wstate lk"; cases "snd (wstate lk)"; cases "isEmpty_ri n lk";
      simp add: exclusiveTryLock_def wstate_cas_def isEmpty_ri_def Let_def)+

lemma exclusiveTryLock_failed:
  assumes "\<not> fst (exclusiveTryLock n lk)" shows "snd (exclusiveTryLock n lk) = lk"
proof -
  obtain q m where "wstate lk = (q, m)" by fastforce
  with assms show ?thesis
    by (cases m; cases "isEmpty_ri n lk"; simp add: exclusiveTryLock_def wstate_cas_def isEmpty_ri_def Let_def)
qed

subsection \<open>The steps of concurrent threads\<close>

text \<open>
  Where a thread is in the code. X\_Empty is the scan of isEmpty at a slot, for the state the
  writer has read (NOLOCK) or is about to promote (HLOCK); U\_Store to U\_Final are
  exclusiveUnlock and, with the flag, downgrade.
\<close>

datatype pc =
    Idle | Reading | Writing
  | S_Arrive | S_Load | S_Cas StructData | S_Reload | S_Roll
  | X_Empty StructData nat | X_Hold StructData | X_Check StructData | X_Cas StructData
  | U_Store StructData bool | U_Abort StructData bool nat | U_Cas StructData bool nat | U_Final StructData

text \<open>The flag says that a downgraded lock waits for some thread to call setReadUnlock.\<close>

record lockst =
  lk :: rwlock
  pcs :: "nat \<Rightarrow> pc"
  downgraded :: bool

abbreviation at :: "nat \<Rightarrow> pc \<Rightarrow> lockst \<Rightarrow> lockst" where
  "at i p s \<equiv> s\<lparr>pcs := (pcs s)(i := p)\<rparr>"

abbreviation set_wstate :: "StructData \<Rightarrow> lockst \<Rightarrow> lockst" where
  "set_wstate ws s \<equiv> s\<lparr>lk := (lk s)\<lparr>wstate := ws\<rparr>\<rparr>"

abbreviation set_slot :: "nat \<Rightarrow> nat \<Rightarrow> lockst \<Rightarrow> lockst" where
  "set_slot i v s \<equiv> s\<lparr>lk := (lk s)\<lparr>states := (states (lk s))(i := v)\<rparr>\<rparr>"

inductive lock_step :: "nat \<Rightarrow> nat \<Rightarrow> lockst \<Rightarrow> lockst \<Rightarrow> bool" for N i where
  s_start: "pcs s i = Idle \<Longrightarrow> snd (wstate (lk s)) \<noteq> WLOCK \<Longrightarrow> i < N \<Longrightarrow> lock_step N i s (at i S_Arrive s)"
| s_arrive: "pcs s i = S_Arrive \<Longrightarrow> lock_step N i s (at i S_Load (set_slot i 1 s))"
| s_load: "pcs s i = S_Load \<Longrightarrow> lock_step N i s
    (at i (case snd (wstate (lk s)) of HLOCK \<Rightarrow> S_Cas (wstate (lk s)) | WLOCK \<Rightarrow> S_Roll | _ \<Rightarrow> Reading) s)"
| s_cas_ok: "pcs s i = S_Cas ws \<Longrightarrow> wstate (lk s) = ws \<Longrightarrow> lock_step N i s (at i Reading (set_wstate (fst ws, NOLOCK) s))"
| s_cas_fail: "pcs s i = S_Cas ws \<Longrightarrow> wstate (lk s) \<noteq> ws \<Longrightarrow> lock_step N i s (at i S_Reload s)"
| s_reload: "pcs s i = S_Reload \<Longrightarrow> lock_step N i s (at i (if snd (wstate (lk s)) = WLOCK then S_Roll else Reading) s)"
| s_roll: "pcs s i = S_Roll \<Longrightarrow> lock_step N i s
    (at i (if states (lk s) i = 1 then Idle else Reading) (set_slot i (states (lk s) i - 1) s))"
| s_unlock: "pcs s i = Reading \<Longrightarrow> lock_step N i s (at i Idle (set_slot i 0 s))"
| x_start: "pcs s i = Idle \<Longrightarrow> snd (wstate (lk s)) \<noteq> WLOCK \<Longrightarrow> snd (wstate (lk s)) \<noteq> RLOCK \<Longrightarrow> i < N \<Longrightarrow>
    lock_step N i s (at i (X_Empty (wstate (lk s)) 0) s)"
| x_empty: "pcs s i = X_Empty ws k \<Longrightarrow> k < N \<Longrightarrow>
    lock_step N i s (at i (if states (lk s) k = 0 then X_Empty ws (k + 1) else Idle) s)"
| x_empty_done: "pcs s i = X_Empty ws k \<Longrightarrow> k \<ge> N \<Longrightarrow>
    lock_step N i s (at i (if snd ws = HLOCK then X_Check ws else X_Hold ws) s)"
| x_hold_ok: "pcs s i = X_Hold ws \<Longrightarrow> wstate (lk s) = ws \<Longrightarrow>
    lock_step N i s (at i (X_Empty (fst ws + 1, HLOCK) 0) (set_wstate (fst ws + 1, HLOCK) s))"
| x_hold_fail: "pcs s i = X_Hold ws \<Longrightarrow> wstate (lk s) \<noteq> ws \<Longrightarrow> lock_step N i s (at i (X_Empty (fst ws + 1, HLOCK) 0) s)"
| x_check: "pcs s i = X_Check ws \<Longrightarrow> lock_step N i s (at i (if wstate (lk s) = ws then X_Cas ws else Idle) s)"
| x_cas_ok: "pcs s i = X_Cas ws \<Longrightarrow> wstate (lk s) = ws \<Longrightarrow> lock_step N i s (at i Writing (set_wstate (fst ws, WLOCK) s))"
| x_cas_fail: "pcs s i = X_Cas ws \<Longrightarrow> wstate (lk s) \<noteq> ws \<Longrightarrow> lock_step N i s (at i Idle s)"
| u_load: "pcs s i = Writing \<Longrightarrow> lock_step N i s (at i (U_Store (wstate (lk s)) down) s)"
| u_store: "pcs s i = U_Store ws down \<Longrightarrow> lock_step N i s (at i (U_Abort ws down 0) (set_wstate (fst ws, RLOCK) s))"
| u_abort: "pcs s i = U_Abort ws down k \<Longrightarrow> k < N \<Longrightarrow>
    lock_step N i s (at i (if states (lk s) k = 1 then U_Cas ws down k else U_Abort ws down (k + 1)) s)"
| u_cas: "pcs s i = U_Cas ws down k \<Longrightarrow>
    lock_step N i s (at i (U_Abort ws down (k + 1)) (set_slot k (if states (lk s) k = 1 then 2 else states (lk s) k) s))"
| u_unlock: "pcs s i = U_Abort ws False k \<Longrightarrow> k \<ge> N \<Longrightarrow> lock_step N i s (at i (U_Final ws) s)"
| u_final: "pcs s i = U_Final ws \<Longrightarrow> lock_step N i s (at i Idle (set_wstate (fst ws, NOLOCK) s))"
| u_downgraded: "pcs s i = U_Abort ws True k \<Longrightarrow> k \<ge> N \<Longrightarrow> lock_step N i s ((at i Idle s)\<lparr>downgraded := True\<rparr>)"
| set_read_unlock: "pcs s i = Idle \<Longrightarrow> downgraded s \<Longrightarrow> i < N \<Longrightarrow>
    lock_step N i s ((set_wstate (fst (wstate (lk s)), NOLOCK) s)\<lparr>downgraded := False\<rparr>)"

text \<open>The lock starts free, or set to be read only (setReadLock).\<close>

inductive lock_reach :: "nat \<Rightarrow> lockst \<Rightarrow> bool" for N where
  reach_free: "lock_reach N \<lparr>lk = rwlock_new, pcs = (\<lambda>_. Idle), downgraded = False\<rparr>"
| reach_read: "lock_reach N \<lparr>lk = setReadLock rwlock_new, pcs = (\<lambda>_. Idle), downgraded = True\<rparr>"
| reach_step: "lock_reach N s \<Longrightarrow> lock_step N i s s' \<Longrightarrow> lock_reach N s'"

subsection \<open>The invariant\<close>

fun arrived :: "pc \<Rightarrow> bool" where
  "arrived S_Load = True" | "arrived (S_Cas _) = True" | "arrived S_Reload = True" | "arrived S_Roll = True"
| "arrived Reading = True" | "arrived _ = False"

fun owner :: "pc \<Rightarrow> bool" where
  "owner Writing = True" | "owner (U_Store _ _) = True" | "owner (U_Abort _ _ _) = True" | "owner (U_Cas _ _ _) = True"
| "owner (U_Final _) = True" | "owner _ = False"

text \<open>The state of the lock while its owner is at a point of the code.\<close>

fun owned :: "pc \<Rightarrow> StructData \<Rightarrow> bool" where
  "owned Writing ws \<longleftrightarrow> snd ws = WLOCK" | "owned (U_Store v _) ws \<longleftrightarrow> snd ws = WLOCK \<and> v = ws"
| "owned (U_Abort v _ _) ws \<longleftrightarrow> snd ws = RLOCK \<and> fst v = fst ws" | "owned (U_Cas v _ _) ws \<longleftrightarrow> snd ws = RLOCK \<and> fst v = fst ws"
| "owned (U_Final v) ws \<longleftrightarrow> snd ws = RLOCK \<and> fst v = fst ws" | "owned _ ws \<longleftrightarrow> False"

text \<open>The states a thread has read, and the slots a writer has found empty since HLOCK was set.\<close>

fun seen :: "pc \<Rightarrow> StructData option" where
  "seen (X_Empty ws _) = Some ws" | "seen (X_Hold ws) = Some ws" | "seen (X_Check ws) = Some ws" | "seen (X_Cas ws) = Some ws"
| "seen (S_Cas ws) = Some ws" | "seen _ = None"

fun scanned :: "nat \<Rightarrow> pc \<Rightarrow> (StructData \<times> nat) option" where
  "scanned N (X_Empty ws k) = (if snd ws = HLOCK then Some (ws, k) else None)"
| "scanned N (X_Check ws) = Some (ws, N)" | "scanned N (X_Cas ws) = Some (ws, N)" | "scanned N _ = None"

fun pc_mode :: "pc \<Rightarrow> bool" where
  "pc_mode (X_Hold ws) \<longleftrightarrow> snd ws = NOLOCK" | "pc_mode (X_Check ws) \<longleftrightarrow> snd ws = HLOCK" | "pc_mode (X_Cas ws) \<longleftrightarrow> snd ws = HLOCK"
| "pc_mode (S_Cas ws) \<longleftrightarrow> snd ws = HLOCK" | "pc_mode (X_Empty ws k) \<longleftrightarrow> snd ws = NOLOCK \<or> snd ws = HLOCK" | "pc_mode _ \<longleftrightarrow> True"

definition quiet :: "StructData \<Rightarrow> pc \<Rightarrow> nat \<Rightarrow> bool" where
  "quiet ws p slot \<longleftrightarrow> slot \<le> 1 \<and> p \<noteq> Reading \<and> p \<noteq> S_Reload \<and> p \<noteq> S_Roll \<and> (\<forall>v. p = S_Cas v \<longrightarrow> v = ws)"

definition slot_ok :: "pc \<Rightarrow> nat \<Rightarrow> bool" where
  "slot_ok p slot \<longleftrightarrow> (if arrived p then slot = 1 \<or> slot = 2 else slot = 0)"

definition inv_slots :: "nat \<Rightarrow> lockst \<Rightarrow> bool" where
  "inv_slots N s \<longleftrightarrow> (\<forall>r. slot_ok (pcs s r) (states (lk s) r) \<and> (pcs s r \<noteq> Idle \<longrightarrow> r < N))"

text \<open>There is no owner and the lock is free or downgraded, or there is exactly one.\<close>

definition inv_no_owner :: "lockst \<Rightarrow> bool" where
  "inv_no_owner s \<longleftrightarrow> (\<forall>i. \<not> owner (pcs s i)) \<and> snd (wstate (lk s)) \<noteq> WLOCK \<and> (snd (wstate (lk s)) = RLOCK \<longleftrightarrow> downgraded s)"

definition inv_one_owner :: "nat \<Rightarrow> lockst \<Rightarrow> bool" where
  "inv_one_owner i s \<longleftrightarrow> (\<forall>j. owner (pcs s j) \<longleftrightarrow> j = i) \<and> owned (pcs s i) (wstate (lk s)) \<and> \<not> downgraded s"

definition inv_owner :: "lockst \<Rightarrow> bool" where
  "inv_owner s \<longleftrightarrow> inv_no_owner s \<or> (\<exists>i. inv_one_owner i s)"

definition seen_ok :: "pc \<Rightarrow> StructData \<Rightarrow> bool" where
  "seen_ok p ws \<longleftrightarrow> pc_mode p \<and> (\<forall>v. seen p = Some v \<longrightarrow> fst v \<le> fst ws
     \<and> (snd v = NOLOCK \<and> fst v = fst ws \<longrightarrow> snd ws = NOLOCK))"

definition inv_seen :: "lockst \<Rightarrow> bool" where
  "inv_seen s \<longleftrightarrow> (\<forall>i. seen_ok (pcs s i) (wstate (lk s)))"

definition inv_scan :: "nat \<Rightarrow> lockst \<Rightarrow> bool" where
  "inv_scan N s \<longleftrightarrow>
     (\<forall>i k. scanned N (pcs s i) = Some (wstate (lk s), k) \<longrightarrow> (\<forall>r<k. quiet (wstate (lk s)) (pcs s r) (states (lk s) r)))
     \<and> (snd (wstate (lk s)) = WLOCK \<longrightarrow> (\<forall>r. pcs s r \<noteq> Reading \<and> states (lk s) r \<le> 1))"

definition lock_inv :: "nat \<Rightarrow> lockst \<Rightarrow> bool" where
  "lock_inv N s \<longleftrightarrow> inv_slots N s \<and> inv_owner s \<and> inv_seen s \<and> inv_scan N s"

declare split_paired_All [simp del] split_paired_Ex [simp del]

lemma slots_step:
  assumes "inv_slots N s" "lock_step N i s s'" shows "inv_slots N s'"
proof -
  from assms(1) have all: "slot_ok (pcs s r) (states (lk s) r)" "pcs s r \<noteq> Idle \<Longrightarrow> r < N" for r
    unfolding inv_slots_def by blast+
  have "slot_ok (pcs s' r) (states (lk s') r) \<and> (pcs s' r \<noteq> Idle \<longrightarrow> r < N)" for r
  proof (cases "r = i")
    case True
    from assms(2) show ?thesis
      by cases (use all(1) [of i] all(2) [of i] True in \<open>auto simp: slot_ok_def split: lock_mode.split\<close>)
  next
    case False
    have two: "slot_ok (pcs s r) 2" if "states (lk s) r = 1" using all(1) [of r] that by (simp add: slot_ok_def split: if_splits)
    from assms(2) show ?thesis
      by cases (use False all [of r] two in auto)
  qed
  then show ?thesis by (simp add: inv_slots_def)
qed

lemma no_owner_step:
  assumes "inv_no_owner s" "seen_ok (pcs s i) (wstate (lk s))" "lock_step N i s s'"
  shows "if \<exists>ws. pcs s i = X_Cas ws \<and> wstate (lk s) = ws then inv_one_owner i s' else inv_no_owner s'"
proof -
  from assms(1) have no: "\<not> owner (pcs s j)" "snd (wstate (lk s)) \<noteq> WLOCK" "snd (wstate (lk s)) = RLOCK \<longleftrightarrow> downgraded s" for j
    by (auto simp: inv_no_owner_def)
  from assms(3) show ?thesis
    by cases (use no(1) [of i] no(3) assms(2) in \<open>simp_all add: no(1,2) seen_ok_def inv_no_owner_def inv_one_owner_def split: lock_mode.split\<close>)
qed

lemma owner_own_step:
  assumes "inv_one_owner i s" "lock_step N i s s'"
  shows "inv_one_owner i s' \<or> inv_no_owner s'"
proof -
  from assms(1) have o: "owner (pcs s j) \<longleftrightarrow> j = i" "owned (pcs s i) (wstate (lk s))" "\<not> downgraded s" for j
    by (auto simp: inv_one_owner_def)
  from o(1) [of i] have oi: "owner (pcs s i)" by simp
  from assms(2) show ?thesis
    by cases (use o(2) oi in \<open>simp_all add: o(1,3) inv_one_owner_def inv_no_owner_def\<close>)
qed

lemma owner_other_step:
  assumes "inv_one_owner j s" "j \<noteq> i" "seen_ok (pcs s i) (wstate (lk s))" "lock_step N i s s'"
  shows "inv_one_owner j s'"
proof -
  from assms(1) have o: "owner (pcs s l) \<longleftrightarrow> l = j" "owned (pcs s j) (wstate (lk s))" "\<not> downgraded s" for l
    by (auto simp: inv_one_owner_def)
  from o(1) [of i] assms(2) have oi: "\<not> owner (pcs s i)" by simp
  have m: "snd (wstate (lk s)) = WLOCK \<or> snd (wstate (lk s)) = RLOCK" using o(2) by (cases "pcs s j") auto
  from assms(4) show ?thesis
    by cases (use o(2) oi m assms(2,3) in \<open>auto simp: o(1,3) inv_one_owner_def seen_ok_def split: lock_mode.split\<close>)
qed

lemma owner_step:
  assumes "inv_owner s" "inv_seen s" "lock_step N i s s'" shows "inv_owner s'"
proof -
  from assms(2) have m: "seen_ok (pcs s i) (wstate (lk s))" by (simp add: inv_seen_def)
  show ?thesis
  proof (cases "\<exists>j. inv_one_owner j s")
    case False
    with assms(1) no_owner_step [OF _ m assms(3)] show ?thesis unfolding inv_owner_def by metis
  next
    case True
    then obtain j where j: "inv_one_owner j s" by blast
    show ?thesis
    proof (cases "j = i")
      case True
      with j owner_own_step [OF _ assms(3)] show ?thesis unfolding inv_owner_def by blast
    next
      case False
      from owner_other_step [OF j False m assms(3)] show ?thesis unfolding inv_owner_def by blast
    qed
  qed
qed

lemma inv_ownerD:
  assumes "inv_owner s" shows "owned (pcs s i) (wstate (lk s)) \<or> \<not> owner (pcs s i)"
proof (cases "owner (pcs s i)")
  case True
  with assms obtain j where "inv_one_owner j s" by (auto simp: inv_owner_def inv_no_owner_def)
  with True have "owned (pcs s j) (wstate (lk s))" "i = j" unfolding inv_one_owner_def by simp_all
  then show ?thesis by simp
qed simp

lemma inv_owner_downgraded: "inv_owner s \<Longrightarrow> downgraded s \<Longrightarrow> snd (wstate (lk s)) = RLOCK"
  by (auto simp: inv_owner_def inv_no_owner_def inv_one_owner_def)

lemma seen_step:
  assumes "inv_seen s" "inv_owner s" "lock_step N i s s'" shows "inv_seen s'"
proof -
  from assms(1) have all: "seen_ok (pcs s r) (wstate (lk s))" for r by (simp add: inv_seen_def)
  note own = inv_ownerD [OF assms(2), of i] inv_owner_downgraded [OF assms(2)]
  obtain q m where w: "wstate (lk s) = (q, m)" by fastforce
  have "seen_ok (pcs s' r) (wstate (lk s'))" for r
    using assms(3) all [of r] all [of i] own
    by cases (cases m; auto simp: seen_ok_def w split: lock_mode.split)+
  then show ?thesis by (simp add: inv_seen_def)
qed


lemma scanned_HLOCK: "scanned N p = Some (v, k) \<Longrightarrow> pc_mode p \<Longrightarrow> seen p = Some v \<and> snd v = HLOCK"
  by (cases p) (auto split: if_splits)

lemma wlock_step:
  assumes "lock_inv N s" "lock_step N i s s'" "snd (wstate (lk s')) = WLOCK"
  shows "pcs s' r \<noteq> Reading \<and> states (lk s') r \<le> 1"
proof -
  from assms(1) have sl: "slot_ok (pcs s l) (states (lk s) l)" "pcs s l \<noteq> Idle \<Longrightarrow> l < N" for l
    unfolding lock_inv_def inv_slots_def by blast+
  have own: "owned (pcs s i) (wstate (lk s)) \<or> \<not> owner (pcs s i)" using assms(1) inv_ownerD by (simp add: lock_inv_def)
  show ?thesis
  proof (cases "snd (wstate (lk s)) = WLOCK")
    case True
    then have w: "pcs s l \<noteq> Reading" "states (lk s) l \<le> 1" for l
      using assms(1) by (auto simp: lock_inv_def inv_scan_def)
    from assms(2) show ?thesis
      by cases (use True assms(3) w [of r] w [of i] sl(1) [of i] own in \<open>auto simp: slot_ok_def\<close>)
  next
    case False
    from assms(2,3) False obtain ws where p: "pcs s i = X_Cas ws" "wstate (lk s) = ws" "s' = at i Writing (set_wstate (fst ws, WLOCK) s)"
      by cases (auto split: lock_mode.splits)
    then have "scanned N (pcs s i) = Some (wstate (lk s), N)" by simp
    then have q: "quiet ws (pcs s l) (states (lk s) l)" if "l < N" for l
      using assms(1) that p(2) unfolding lock_inv_def inv_scan_def by blast
    show ?thesis
    proof (cases "r < N")
      case True with q [OF True] p show ?thesis by (auto simp: quiet_def)
    next
      case False
      then have "pcs s r = Idle" using sl(2) by blast
      with sl(1) [of r] p show ?thesis by (auto simp: slot_ok_def)
    qed
  qed
qed

text \<open>The thread that moves, seen by a writer that has passed its slot.\<close>

lemma quiet_step:
  assumes "lock_step N i s s'" "quiet (wstate (lk s)) (pcs s i) (states (lk s) i)" "wstate (lk s') = wstate (lk s)"
    "snd (wstate (lk s)) = HLOCK" "slot_ok (pcs s i) (states (lk s) i)"
    "owned (pcs s i) (wstate (lk s)) \<or> \<not> owner (pcs s i)"
  shows "quiet (wstate (lk s)) (pcs s' i) (states (lk s') i)"
  using assms by cases (auto simp: quiet_def slot_ok_def)

lemma scan_other_step:
  assumes inv: "lock_inv N s" and st: "lock_step N i s s'" and j: "j \<noteq> i"
    and sc: "scanned N (pcs s j) = Some (wstate (lk s'), k)" and r: "r < k"
  shows "quiet (wstate (lk s')) (pcs s' r) (states (lk s') r)"
proof -
  from inv have se: "seen_ok (pcs s l) (wstate (lk s))" for l by (simp add: lock_inv_def inv_seen_def)
  from inv have sl: "slot_ok (pcs s l) (states (lk s) l)" for l by (simp add: lock_inv_def inv_slots_def)
  have own: "owned (pcs s i) (wstate (lk s)) \<or> \<not> owner (pcs s i)" using inv inv_ownerD by (simp add: lock_inv_def)
  from scanned_HLOCK [OF sc] se [of j] have h: "snd (wstate (lk s')) = HLOCK" "fst (wstate (lk s')) \<le> fst (wstate (lk s))"
    by (auto simp: seen_ok_def)
  from st h have eq: "wstate (lk s') = wstate (lk s)" by cases (auto split: lock_mode.splits)
  with sc inv r have q: "quiet (wstate (lk s)) (pcs s r) (states (lk s) r)" by (auto simp: lock_inv_def inv_scan_def)
  show ?thesis
  proof (cases "r = i")
    case True
    with quiet_step [OF st _ eq _ sl own] q h eq show ?thesis by simp
  next
    case False
    with st q h own show ?thesis by cases (auto simp: eq split: lock_mode.splits)
  qed
qed

lemma scan_own_step:
  assumes inv: "lock_inv N s" and st: "lock_step N i s s'"
    and sc: "scanned N (pcs s' i) = Some (wstate (lk s'), k)" and r: "r < k"
  shows "quiet (wstate (lk s')) (pcs s' r) (states (lk s') r)"
proof -
  from inv have sl: "slot_ok (pcs s l) (states (lk s) l)" for l by (simp add: lock_inv_def inv_slots_def)
  from inv have old: "scanned N (pcs s i) = Some (wstate (lk s), k) \<Longrightarrow> l < k \<Longrightarrow> quiet (wstate (lk s)) (pcs s l) (states (lk s) l)" for k l
    by (auto simp: lock_inv_def inv_scan_def)
  have fresh: "quiet ws p 0" if "\<not> arrived p" for ws p using that by (cases p) (auto simp: quiet_def)
  show ?thesis
    using st
  proof cases
    case (x_empty ws k0)
    then have e: "states (lk s) k0 = 0" "k = k0 + 1" "ws = wstate (lk s)" "scanned N (pcs s i) = Some (wstate (lk s), k0)"
      using sc by (auto split: if_splits)
    then have s': "s' = at i (X_Empty ws k) s" using x_empty by simp
    show ?thesis
    proof (cases "r = k0")
      case True
      with e(1) sl [of k0] have "\<not> arrived (pcs s k0)" by (auto simp: slot_ok_def)
      with True e(1) s' fresh show ?thesis by (auto simp: e(3))
    next
      case False
      with r e(2) have "r < k0" by simp
      from old [OF e(4) this] sl [of r] s' x_empty(2) show ?thesis by (auto simp: e(3) quiet_def)
    qed
  next
    case (x_empty_done ws k0)
    then have e: "k = N" "ws = wstate (lk s)" "scanned N (pcs s i) = Some (wstate (lk s), k0)" "s' = at i (X_Check ws) s"
      using sc by (auto split: if_splits)
    with r x_empty_done have "r < k0" by simp
    from old [OF e(3) this] e show ?thesis by (auto simp: quiet_def)
  next
    case (x_check ws)
    then have e: "k = N" "ws = wstate (lk s)" "scanned N (pcs s i) = Some (wstate (lk s), N)" "s' = at i (X_Cas ws) s"
      using sc by (auto split: if_splits)
    from old [OF e(3), of r] r e show ?thesis by (auto simp: quiet_def)
  qed (use sc r in \<open>auto split: lock_mode.splits if_splits\<close>)
qed

lemma lock_inv_step: "lock_inv N s \<Longrightarrow> lock_step N i s s' \<Longrightarrow> lock_inv N s'"
proof -
  assume a: "lock_inv N s" "lock_step N i s s'"
  have "quiet (wstate (lk s')) (pcs s' r) (states (lk s') r)"
    if "scanned N (pcs s' j) = Some (wstate (lk s'), k)" "r < k" for j k r
  proof (cases "j = i")
    case True
    with scan_own_step [OF a] that show ?thesis by blast
  next
    case False
    from a(2) False have "pcs s' j = pcs s j" by cases simp_all
    with scan_other_step [OF a False] that show ?thesis by simp
  qed
  with wlock_step [OF a] have "inv_scan N s'" by (simp add: inv_scan_def)
  with a slots_step owner_step seen_step show "lock_inv N s'" unfolding lock_inv_def by blast
qed

lemma lock_reach_inv: "lock_reach N s \<Longrightarrow> lock_inv N s"
proof (induction rule: lock_reach.induct)
  case (reach_step s i s')
  then show ?case by (blast intro: lock_inv_step)
qed (simp_all add: lock_inv_def inv_slots_def slot_ok_def inv_owner_def inv_no_owner_def inv_seen_def seen_ok_def inv_scan_def
      rwlock_new_def setReadLock_def)

subsection \<open>Properties\<close>

text \<open>
  C18: whatever the threads do and in whatever order their steps fall, while a thread holds the
  lock exclusively no other thread holds it in any mode, and a lock that was downgraded is held
  exclusively by nobody.
\<close>

theorem trylock_mutual_exclusion:
  assumes "lock_reach N s" "pcs s i = Writing" "j \<noteq> i"
  shows "pcs s j \<noteq> Writing \<and> pcs s j \<noteq> Reading \<and> \<not> downgraded s"
proof -
  from lock_reach_inv [OF assms(1)] have o: "inv_owner s" "inv_scan N s" by (auto simp: lock_inv_def)
  have "owner (pcs s i)" by (simp add: assms(2))
  with o(1) obtain k where k: "inv_one_owner k s" unfolding inv_owner_def inv_no_owner_def by metis
  with assms(2) have "k = i" by (metis inv_one_owner_def owner.simps(1))
  with k have i: "owner (pcs s l) \<longleftrightarrow> l = i" "owned (pcs s i) (wstate (lk s))" "\<not> downgraded s" for l
    by (auto simp: inv_one_owner_def)
  then have "pcs s j \<noteq> Reading" using o(2) assms(2) by (simp add: inv_scan_def)
  moreover have "pcs s j \<noteq> Writing" using i(1) [of j] assms(3) by auto
  ultimately show ?thesis using i(3) by simp
qed


text \<open>A run of the first thread of two that takes the lock for writing.\<close>

lemma reach_writing:
  "lock_reach 2 (at 0 Writing \<lparr>lk = rwlock_new\<lparr>wstate := (1, WLOCK)\<rparr>, pcs = (\<lambda>_. Idle), downgraded = False\<rparr>)"
proof -
  let ?s0 = "\<lparr>lk = rwlock_new, pcs = (\<lambda>_. Idle), downgraded = False\<rparr>"
  let ?s1 = "\<lparr>lk = rwlock_new\<lparr>wstate := (1, HLOCK)\<rparr>, pcs = (\<lambda>_. Idle), downgraded = False\<rparr>"
  have 0: "lock_reach 2 ?s0" by (rule reach_free)
  have 1: "lock_reach 2 (at 0 (X_Empty (0, NOLOCK) 0) ?s0)"
    by (rule reach_step [OF 0, of 0]) (use x_start [of ?s0 0 2] in \<open>simp add: rwlock_new_def\<close>)
  have 2: "lock_reach 2 (at 0 (X_Empty (0, NOLOCK) 1) ?s0)"
    by (rule reach_step [OF 1, of 0]) (use x_empty [of "at 0 (X_Empty (0, NOLOCK) 0) ?s0" 0 "(0, NOLOCK)" 0 2] in \<open>simp add: rwlock_new_def\<close>)
  have 3: "lock_reach 2 (at 0 (X_Empty (0, NOLOCK) 2) ?s0)"
    by (rule reach_step [OF 2, of 0]) (use x_empty [of "at 0 (X_Empty (0, NOLOCK) 1) ?s0" 0 "(0, NOLOCK)" 1 2] in \<open>simp add: rwlock_new_def numeral_2_eq_2\<close>)
  have 4: "lock_reach 2 (at 0 (X_Hold (0, NOLOCK)) ?s0)"
    by (rule reach_step [OF 3, of 0]) (use x_empty_done [of "at 0 (X_Empty (0, NOLOCK) 2) ?s0" 0 "(0, NOLOCK)" 2 2] in \<open>simp add: rwlock_new_def\<close>)
  have 5: "lock_reach 2 (at 0 (X_Empty (1, HLOCK) 0) ?s1)"
    by (rule reach_step [OF 4, of 0]) (use x_hold_ok [of "at 0 (X_Hold (0, NOLOCK)) ?s0" 0 "(0, NOLOCK)" 2] in \<open>simp add: rwlock_new_def\<close>)
  have 6: "lock_reach 2 (at 0 (X_Empty (1, HLOCK) 1) ?s1)"
    by (rule reach_step [OF 5, of 0]) (use x_empty [of "at 0 (X_Empty (1, HLOCK) 0) ?s1" 0 "(1, HLOCK)" 0 2] in \<open>simp add: rwlock_new_def\<close>)
  have 7: "lock_reach 2 (at 0 (X_Empty (1, HLOCK) 2) ?s1)"
    by (rule reach_step [OF 6, of 0]) (use x_empty [of "at 0 (X_Empty (1, HLOCK) 1) ?s1" 0 "(1, HLOCK)" 1 2] in \<open>simp add: rwlock_new_def numeral_2_eq_2\<close>)
  have 8: "lock_reach 2 (at 0 (X_Check (1, HLOCK)) ?s1)"
    by (rule reach_step [OF 7, of 0]) (use x_empty_done [of "at 0 (X_Empty (1, HLOCK) 2) ?s1" 0 "(1, HLOCK)" 2 2] in \<open>simp add: rwlock_new_def\<close>)
  have 9: "lock_reach 2 (at 0 (X_Cas (1, HLOCK)) ?s1)"
    by (rule reach_step [OF 8, of 0]) (use x_check [of "at 0 (X_Check (1, HLOCK)) ?s1" 0 "(1, HLOCK)" 2] in \<open>simp add: rwlock_new_def\<close>)
  show ?thesis
    by (rule reach_step [OF 9, of 0]) (use x_cas_ok [of "at 0 (X_Cas (1, HLOCK)) ?s1" 0 "(1, HLOCK)" 2] in \<open>simp add: rwlock_new_def\<close>)
qed

theorem trylock_mutual_exclusion_witness:
  "pcs (at 0 Writing \<lparr>lk = rwlock_new\<lparr>wstate := (1, WLOCK)\<rparr>, pcs = (\<lambda>_. Idle), downgraded = False\<rparr>) 1 \<noteq> Writing
   \<and> pcs (at 0 Writing \<lparr>lk = rwlock_new\<lparr>wstate := (1, WLOCK)\<rparr>, pcs = (\<lambda>_. Idle), downgraded = False\<rparr>) 1 \<noteq> Reading
   \<and> \<not> downgraded (at 0 Writing \<lparr>lk = rwlock_new\<lparr>wstate := (1, WLOCK)\<rparr>, pcs = (\<lambda>_. Idle), downgraded = False\<rparr>)"
  using trylock_mutual_exclusion [OF reach_writing, of 0 1] by simp

text \<open>The steps a thread still has to take, at most, before its call returns.\<close>

fun steps_left :: "nat \<Rightarrow> pc \<Rightarrow> nat" where
  "steps_left N S_Arrive = 5" | "steps_left N S_Load = 4" | "steps_left N (S_Cas _) = 3" | "steps_left N S_Reload = 2"
| "steps_left N S_Roll = 1"
| "steps_left N (X_Empty ws k) = (if snd ws = HLOCK then (N - k) + 3 else (N - k) + N + 5)"
| "steps_left N (X_Hold _) = N + 4" | "steps_left N (X_Check _) = 2" | "steps_left N (X_Cas _) = 1"
| "steps_left N (U_Store _ _) = 2 * N + 3" | "steps_left N (U_Abort _ _ k) = 2 * (N - k) + 2"
| "steps_left N (U_Cas _ _ k) = 2 * (N - Suc k) + 3" | "steps_left N (U_Final _) = 1" | "steps_left N _ = 0"

text \<open>
  C19: every call of the lock (trylock, unlock or downgrade) returns within 2 N + 5 of its
  own steps for N threads, whatever the others do: each step of a thread inside a call ends the
  call or leaves fewer steps to go.
\<close>

theorem trylock_wait_free:
  assumes "lock_step N i s s'" "pcs s i \<notin> {Idle, Reading, Writing}"
  shows "steps_left N (pcs s i) \<le> 2 * N + 5
    \<and> (pcs s' i \<in> {Idle, Reading, Writing} \<or> steps_left N (pcs s' i) < steps_left N (pcs s i))"
proof -
  have "steps_left N p \<le> 2 * N + 5" for p by (cases p) auto
  moreover from assms have "pcs s' i \<in> {Idle, Reading, Writing} \<or> steps_left N (pcs s' i) < steps_left N (pcs s i)"
    by cases (auto split: lock_mode.split)
  ultimately show ?thesis by blast
qed

theorem trylock_wait_free_witness:
  "steps_left 2 (pcs (at 0 S_Arrive \<lparr>lk = rwlock_new, pcs = (\<lambda>_. Idle), downgraded = False\<rparr>) 0) \<le> 2 * 2 + 5
    \<and> (pcs (at 0 S_Load (set_slot 0 1 (at 0 S_Arrive \<lparr>lk = rwlock_new, pcs = (\<lambda>_. Idle), downgraded = False\<rparr>))) 0 \<in> {Idle, Reading, Writing}
       \<or> steps_left 2 (pcs (at 0 S_Load (set_slot 0 1 (at 0 S_Arrive \<lparr>lk = rwlock_new, pcs = (\<lambda>_. Idle), downgraded = False\<rparr>))) 0)
          < steps_left 2 (pcs (at 0 S_Arrive \<lparr>lk = rwlock_new, pcs = (\<lambda>_. Idle), downgraded = False\<rparr>) 0))"
  by (rule trylock_wait_free [OF s_arrive]) simp_all

declare split_paired_All [simp] split_paired_Ex [simp]

end
