(* ===== verification/RWLock.thy ===== *)
theory RWLock
  imports PTM_Prelude
begin

text \<open>
  The reader-writer lock of RomulusLog (ptms/rwlocks/CRWWP\_SpinLock.hpp) as the atomic steps of
  any number of threads: a spin lock for the writers and a flag per reader, with preference for
  the writers. The scan for readers covers the threads registered when it starts; more threads
  may register at any time (theory ThreadRegistry), and a thread registers before it reads.
\<close>

subsection \<open>The steps of a thread\<close>

text \<open>
  sharedLock is arrive, a test of the spin lock, and depart with a wait if a writer holds it.
  W\_Held is a writer with the spin lock only (tryExclusiveLock), W\_Scan one in the loop of
  exclusiveLock or waitForReaders, at a slot of a scan up to the bound read. A writer that finds
  the spin lock taken tries again (exclusiveLock) or gives up (tryExclusiveLock).
\<close>

datatype wpc = L_Idle | L_Arrived | L_Depart | L_Spin | L_Reading | W_Try | W_Cas | W_Held | W_Scan nat nat | W_Writing

abbreviation (input) RI_MAX_THREADS :: nat where "RI_MAX_THREADS \<equiv> 128"

record rwspin =
  writers :: bool
  reading :: "nat \<Rightarrow> bool"
  registered :: nat
  wpcs :: "nat \<Rightarrow> wpc"

definition rwspin_new :: rwspin where
  "rwspin_new = \<lparr>writers = False, reading = (\<lambda>_. False), registered = 0, wpcs = (\<lambda>_. L_Idle)\<rparr>"

abbreviation goto_wpc :: "nat \<Rightarrow> wpc \<Rightarrow> rwspin \<Rightarrow> rwspin" where
  "goto_wpc i p s \<equiv> s\<lparr>wpcs := (wpcs s)(i := p)\<rparr>"

inductive rw_step :: "nat \<Rightarrow> rwspin \<Rightarrow> rwspin \<Rightarrow> bool" for i where
  rw_register: "registered s \<le> n \<Longrightarrow> n \<le> RI_MAX_THREADS \<Longrightarrow> rw_step i s (s\<lparr>registered := n\<rparr>)"
| rd_arrive: "wpcs s i = L_Idle \<Longrightarrow> i < registered s \<Longrightarrow>
    rw_step i s (goto_wpc i L_Arrived (s\<lparr>reading := (reading s)(i := True)\<rparr>))"
| rd_test: "wpcs s i = L_Arrived \<Longrightarrow> rw_step i s (goto_wpc i (if writers s then L_Depart else L_Reading) s)"
| rd_depart: "wpcs s i = L_Depart \<Longrightarrow> rw_step i s (goto_wpc i L_Spin (s\<lparr>reading := (reading s)(i := False)\<rparr>))"
| rd_spin: "wpcs s i = L_Spin \<Longrightarrow> rw_step i s (goto_wpc i (if writers s then L_Spin else L_Idle) s)"
| rd_unlock: "wpcs s i = L_Reading \<Longrightarrow> rw_step i s (goto_wpc i L_Idle (s\<lparr>reading := (reading s)(i := False)\<rparr>))"
| wr_start: "wpcs s i = L_Idle \<Longrightarrow> rw_step i s (goto_wpc i W_Try s)"
| wr_load: "wpcs s i = W_Try \<Longrightarrow> rw_step i s (goto_wpc i (if writers s then W_Try else W_Cas) s)"
| wr_give_up: "wpcs s i = W_Try \<or> wpcs s i = W_Cas \<Longrightarrow> writers s \<Longrightarrow> rw_step i s (goto_wpc i L_Idle s)"
| wr_cas_ok: "wpcs s i = W_Cas \<Longrightarrow> \<not> writers s \<Longrightarrow> rw_step i s (goto_wpc i W_Held (s\<lparr>writers := True\<rparr>))"
| wr_cas_fail: "wpcs s i = W_Cas \<Longrightarrow> writers s \<Longrightarrow> rw_step i s (goto_wpc i W_Try s)"
| wr_scan: "wpcs s i = W_Held \<Longrightarrow> rw_step i s (goto_wpc i (W_Scan (registered s) 0) s)"
| wr_slot: "wpcs s i = W_Scan n k \<Longrightarrow> k < n \<Longrightarrow> rw_step i s (goto_wpc i (if reading s k then W_Held else W_Scan n (k + 1)) s)"
| wr_empty: "wpcs s i = W_Scan n k \<Longrightarrow> k \<ge> n \<Longrightarrow> rw_step i s (goto_wpc i W_Writing s)"
| wr_unlock: "wpcs s i = W_Held \<or> wpcs s i = W_Writing \<Longrightarrow> rw_step i s (goto_wpc i L_Idle (s\<lparr>writers := False\<rparr>))"

inductive rw_reach :: "rwspin \<Rightarrow> bool" where
  rw_init: "rw_reach rwspin_new"
| rw_next: "rw_reach s \<Longrightarrow> rw_step i s s' \<Longrightarrow> rw_reach s'"

subsection \<open>The invariant\<close>

fun holds_writers :: "wpc \<Rightarrow> bool" where
  "holds_writers W_Held = True" | "holds_writers (W_Scan n k) = True" | "holds_writers W_Writing = True" | "holds_writers _ = False"

fun marked :: "wpc \<Rightarrow> bool" where
  "marked L_Arrived = True" | "marked L_Depart = True" | "marked L_Reading = True" | "marked _ = False"

text \<open>The threads a writer knows not to be reading, from where it is in its scan.\<close>

fun cleared :: "wpc \<Rightarrow> nat \<Rightarrow> bool" where
  "cleared (W_Scan n k) j \<longleftrightarrow> j < k \<or> n \<le> j" | "cleared W_Writing j \<longleftrightarrow> True" | "cleared _ j \<longleftrightarrow> False"

definition rd_inv :: "rwspin \<Rightarrow> bool" where
  "rd_inv s \<longleftrightarrow> (\<forall>i. reading s i = marked (wpcs s i)) \<and> (\<forall>i. reading s i \<longrightarrow> i < registered s)"

definition wr_inv :: "rwspin \<Rightarrow> bool" where
  "wr_inv s \<longleftrightarrow> (\<forall>i. holds_writers (wpcs s i) \<longrightarrow> writers s) \<and> (\<forall>i j. holds_writers (wpcs s i) \<and> holds_writers (wpcs s j) \<longrightarrow> i = j)"

definition clear_inv :: "rwspin \<Rightarrow> bool" where
  "clear_inv s \<longleftrightarrow> (\<forall>i j. cleared (wpcs s i) j \<longrightarrow> wpcs s j \<noteq> L_Reading)"

lemma cleared_holds: "cleared p j \<Longrightarrow> holds_writers p"
  by (cases p) auto

lemma rd_inv_step: "rd_inv s \<Longrightarrow> rw_step i s s' \<Longrightarrow> rd_inv s'"
proof -
  assume inv: "rd_inv s" and st: "rw_step i s s'"
  have "reading s' j = marked (wpcs s' j) \<and> (reading s' j \<longrightarrow> j < registered s')" for j
    using st
  proof cases
    case (rw_register n)
    with inv [unfolded rd_inv_def] show ?thesis by (auto dest: spec [of _ j])
  qed (use inv in \<open>auto simp: rd_inv_def split: if_splits\<close>)
  then show ?thesis by (simp add: rd_inv_def)
qed

lemma wr_inv_step: "wr_inv s \<Longrightarrow> rw_step i s s' \<Longrightarrow> wr_inv s'"
proof -
  assume inv: "wr_inv s" and st: "rw_step i s s'"
  have own: "holds_writers (wpcs s i) \<Longrightarrow> writers s" "holds_writers (wpcs s i) \<Longrightarrow> holds_writers (wpcs s j) \<Longrightarrow> j = i"
    "holds_writers (wpcs s j) \<Longrightarrow> writers s" for j using inv by (auto simp: wr_inv_def)
  have "(holds_writers (wpcs s' j) \<longrightarrow> writers s') \<and> (holds_writers (wpcs s' j) \<and> holds_writers (wpcs s' k) \<longrightarrow> j = k)" for j k
    using st by cases (use inv own(1) own(2,3) [of j] own(2,3) [of k] in \<open>auto simp: wr_inv_def split: if_splits\<close>)
  then show ?thesis by (simp add: wr_inv_def)
qed

lemma clear_inv_step:
  assumes inv: "clear_inv s" "rd_inv s" "wr_inv s" and st: "rw_step i s s'"
  shows "clear_inv s'"
  unfolding clear_inv_def
proof (intro allI impI)
  fix w r assume c: "cleared (wpcs s' w) r"
  have old: "cleared (wpcs s w) r \<Longrightarrow> wpcs s r \<noteq> L_Reading" using inv(1) by (auto simp: clear_inv_def)
  have rd: "wpcs s r = L_Reading \<Longrightarrow> reading s r" "wpcs s r = L_Reading \<Longrightarrow> r < registered s"
    using inv(2) by (auto simp: rd_inv_def)
  have wr: "holds_writers (wpcs s w) \<Longrightarrow> writers s" using inv(3) by (auto simp: wr_inv_def)
  from st show "wpcs s' r \<noteq> L_Reading"
  proof cases
    case rd_test
    show ?thesis
    proof (cases "r = i")
      case True
      then have "w \<noteq> i" using c rd_test by (auto split: if_splits)
      then have "writers s" using c rd_test wr cleared_holds by auto
      then show ?thesis using rd_test True by simp
    next
      case False
      then show ?thesis using rd_test c old by (auto split: if_splits)
    qed
  next
    case (wr_slot n k)
    show ?thesis
    proof (cases "w = i")
      case True
      then have "\<not> reading s k" "r < k + 1 \<or> n \<le> r" using c wr_slot by (auto split: if_splits)
      then have "r = k \<or> cleared (wpcs s w) r" using wr_slot True by auto
      then show ?thesis using \<open>\<not> reading s k\<close> rd old wr_slot by auto
    next
      case False
      then show ?thesis using c old wr_slot by (auto split: if_splits)
    qed
  next
    case (wr_scan)
    then show ?thesis using c old rd by (cases "w = i") auto
  next
    case (wr_empty n k)
    then have "r < k \<or> n \<le> r" by linarith
    then have "w = i \<Longrightarrow> cleared (wpcs s w) r" using wr_empty by simp
    then show ?thesis using wr_empty c old by (cases "w = i") auto
  qed (use c old in \<open>auto split: if_splits\<close>)
qed

lemma rw_reach_inv: "rw_reach s \<Longrightarrow> rd_inv s \<and> wr_inv s \<and> clear_inv s"
proof (induction rule: rw_reach.induct)
  case rw_init
  then show ?case by (simp add: rd_inv_def wr_inv_def clear_inv_def rwspin_new_def)
next
  case (rw_next s i s')
  then show ?case using rd_inv_step wr_inv_step clear_inv_step by blast
qed

definition rw_exclusive :: "rwspin \<Rightarrow> bool" where
  "rw_exclusive s \<longleftrightarrow> (\<forall>i j. wpcs s i = W_Writing \<and> i \<noteq> j \<longrightarrow> wpcs s j \<noteq> W_Writing \<and> wpcs s j \<noteq> L_Reading)"

text \<open>
  C37: with any number of threads, registering at any time, a writer that has waited for the
  readers is alone: no other thread writes or reads. Two threads never hold the spin lock, with
  or without the wait.
\<close>

theorem rwlock_excludes:
  assumes "rw_reach s"
  shows "rw_exclusive s \<and> (holds_writers (wpcs s i) \<and> holds_writers (wpcs s j) \<longrightarrow> i = j)"
proof -
  from rw_reach_inv [OF assms] have inv: "wr_inv s" "clear_inv s" by auto
  have "rw_exclusive s"
    unfolding rw_exclusive_def
  proof (intro allI impI conjI)
    fix i j assume a: "wpcs s i = W_Writing \<and> i \<noteq> j"
    then have "holds_writers (wpcs s i)" "cleared (wpcs s i) j" by simp_all
    then show "wpcs s j \<noteq> W_Writing" "wpcs s j \<noteq> L_Reading"
      using a inv holds_writers.simps(3) unfolding wr_inv_def clear_inv_def by metis+
  qed
  then show ?thesis using inv(1) by (auto simp: wr_inv_def)
qed

theorem rwlock_excludes_witness:
  "\<exists>s. rw_reach s \<and> wpcs s 3 = W_Held \<and> wpcs s 0 = L_Arrived \<and> rw_exclusive s"
proof -
  let ?s1 = "rwspin_new\<lparr>registered := 4\<rparr>"
  let ?s2 = "goto_wpc 3 W_Try ?s1"
  let ?s3 = "goto_wpc 3 W_Cas ?s2"
  let ?s4 = "goto_wpc 3 W_Held (?s3\<lparr>writers := True\<rparr>)"
  let ?s5 = "goto_wpc 0 L_Arrived (?s4\<lparr>reading := (reading ?s4)(0 := True)\<rparr>)"
  have "rw_step 3 rwspin_new ?s1" by (rule rw_register) (simp_all add: rwspin_new_def)
  then have r1: "rw_reach ?s1" by (rule rw_next [OF rw_init])
  have "rw_step 3 ?s1 ?s2" by (rule wr_start) (simp add: rwspin_new_def)
  then have r2: "rw_reach ?s2" by (rule rw_next [OF r1])
  have "rw_step 3 ?s2 ?s3" using wr_load [of ?s2 3] by (simp add: rwspin_new_def)
  then have r3: "rw_reach ?s3" by (rule rw_next [OF r2])
  have "rw_step 3 ?s3 ?s4" by (rule wr_cas_ok) (simp_all add: rwspin_new_def)
  then have r4: "rw_reach ?s4" by (rule rw_next [OF r3])
  have "rw_step 0 ?s4 ?s5" by (rule rd_arrive) (simp_all add: rwspin_new_def)
  then have r5: "rw_reach ?s5" by (rule rw_next [OF r4])
  have "rw_exclusive ?s5" using rwlock_excludes [OF r5] by blast
  then show ?thesis using r5 by (intro exI [of _ ?s5]) simp
qed

end
