(* ===== verification/ThreadRegistry.thy ===== *)
theory ThreadRegistry
  imports PTM_Prelude
begin

text \<open>
  The registry that gives every thread a small id (common/ThreadRegistry.hpp), as the atomic
  steps of any number of threads: registration scans for a free slot and takes it with a
  compare-and-swap, then raises maxTid above its id.
\<close>

subsection \<open>The steps of a thread\<close>

abbreviation (input) REGISTRY_MAX_THREADS :: nat where "REGISTRY_MAX_THREADS \<equiv> 128"

text \<open>
  Where a thread is in getTID: a slot is loaded (T\_Load) and swapped (T\_Cas), maxTid is loaded
  (T\_Max) and swapped (T\_MaxCas, with the value read). T\_Full is the failed assertion.
\<close>

datatype tpc = Unregistered | T_Load nat | T_Cas nat | T_Max nat | T_MaxCas nat int | Registered nat | T_Full | Exited

record registry =
  usedTID :: "nat \<Rightarrow> bool"
  maxTid :: int
  tpcs :: "nat \<Rightarrow> tpc"

definition registry_new :: registry where
  "registry_new = \<lparr>usedTID = (\<lambda>_. False), maxTid = -1, tpcs = (\<lambda>_. Unregistered)\<rparr>"

abbreviation goto_pc :: "nat \<Rightarrow> tpc \<Rightarrow> registry \<Rightarrow> registry" where
  "goto_pc i p s \<equiv> s\<lparr>tpcs := (tpcs s)(i := p)\<rparr>"

text \<open>deregister\_thread runs when the thread-local object of the thread is destroyed.\<close>

inductive reg_step :: "nat \<Rightarrow> registry \<Rightarrow> registry \<Rightarrow> bool" for i where
  t_start: "tpcs s i = Unregistered \<Longrightarrow> reg_step i s (goto_pc i (T_Load 0) s)"
| t_load: "tpcs s i = T_Load k \<Longrightarrow> k < REGISTRY_MAX_THREADS \<Longrightarrow>
    reg_step i s (goto_pc i (if usedTID s k then T_Load (k + 1) else T_Cas k) s)"
| t_full: "tpcs s i = T_Load k \<Longrightarrow> k \<ge> REGISTRY_MAX_THREADS \<Longrightarrow> reg_step i s (goto_pc i T_Full s)"
| t_cas_ok: "tpcs s i = T_Cas k \<Longrightarrow> \<not> usedTID s k \<Longrightarrow>
    reg_step i s (goto_pc i (T_Max k) (s\<lparr>usedTID := (usedTID s)(k := True)\<rparr>))"
| t_cas_fail: "tpcs s i = T_Cas k \<Longrightarrow> usedTID s k \<Longrightarrow> reg_step i s (goto_pc i (T_Load (k + 1)) s)"
| t_max: "tpcs s i = T_Max k \<Longrightarrow>
    reg_step i s (goto_pc i (if maxTid s \<le> int k then T_MaxCas k (maxTid s) else Registered k) s)"
| t_maxcas_ok: "tpcs s i = T_MaxCas k c \<Longrightarrow> maxTid s = c \<Longrightarrow> reg_step i s (goto_pc i (T_Max k) (s\<lparr>maxTid := int k + 1\<rparr>))"
| t_maxcas_fail: "tpcs s i = T_MaxCas k c \<Longrightarrow> maxTid s \<noteq> c \<Longrightarrow> reg_step i s (goto_pc i (T_Max k) s)"
| t_exit: "tpcs s i = Registered k \<Longrightarrow> reg_step i s (goto_pc i Exited (s\<lparr>usedTID := (usedTID s)(k := False)\<rparr>))"

inductive_cases reg_stepE: "reg_step i s s'"

inductive reg_reach :: "registry \<Rightarrow> bool" where
  reg_init: "reg_reach registry_new"
| reg_next: "reg_reach s \<Longrightarrow> reg_step i s s' \<Longrightarrow> reg_reach s'"

subsection \<open>The invariant\<close>

text \<open>The slot a thread has taken, and the slot it is about to take.\<close>

fun slot_of :: "tpc \<Rightarrow> nat option" where
  "slot_of (T_Max k) = Some k" | "slot_of (T_MaxCas k c) = Some k" | "slot_of (Registered k) = Some k" | "slot_of _ = None"

fun pc_ok :: "int \<Rightarrow> tpc \<Rightarrow> bool" where
  "pc_ok m (T_Cas k) \<longleftrightarrow> k < REGISTRY_MAX_THREADS"
| "pc_ok m (T_Max k) \<longleftrightarrow> k < REGISTRY_MAX_THREADS"
| "pc_ok m (T_MaxCas k c) \<longleftrightarrow> k < REGISTRY_MAX_THREADS \<and> c \<le> int k \<and> c \<le> m \<and> -1 \<le> c"
| "pc_ok m (Registered k) \<longleftrightarrow> k < REGISTRY_MAX_THREADS \<and> int k < m"
| "pc_ok m _ \<longleftrightarrow> True"

definition reg_inv :: "registry \<Rightarrow> bool" where
  "reg_inv s \<longleftrightarrow> -1 \<le> maxTid s \<and> maxTid s \<le> int REGISTRY_MAX_THREADS \<and> (\<forall>i. pc_ok (maxTid s) (tpcs s i))
     \<and> (\<forall>i k. slot_of (tpcs s i) = Some k \<longrightarrow> usedTID s k)
     \<and> (\<forall>i j k. slot_of (tpcs s i) = Some k \<and> slot_of (tpcs s j) = Some k \<longrightarrow> i = j)"

lemma maxTid_mono: "reg_inv s \<Longrightarrow> reg_step i s s' \<Longrightarrow> maxTid s \<le> maxTid s'"
proof -
  assume inv: "reg_inv s" and st: "reg_step i s s'"
  from inv have "pc_ok (maxTid s) (tpcs s i)" by (simp add: reg_inv_def)
  with st show ?thesis by cases auto
qed

lemma pc_ok_mono: "pc_ok m p \<Longrightarrow> m \<le> m' \<Longrightarrow> pc_ok m' p"
  by (cases p) auto

lemma reg_inv_step:
  assumes inv: "reg_inv s" and st: "reg_step i s s'"
  shows "reg_inv s'"
proof -
  have mono: "maxTid s \<le> maxTid s'" by (rule maxTid_mono [OF inv st])
  have own: "pc_ok (maxTid s) (tpcs s i)" using inv by (simp add: reg_inv_def)
  have used: "usedTID s k" if "slot_of (tpcs s i) = Some k" for k using inv that by (auto simp: reg_inv_def)
  have "pc_ok (maxTid s') (tpcs s' j)" for j
  proof (cases "j = i")
    case False
    from st have "tpcs s' j = tpcs s j" by cases (use False in auto)
    then show ?thesis using inv pc_ok_mono [OF _ mono, of "tpcs s j"] by (simp add: reg_inv_def)
  next
    case True
    from st show ?thesis by cases (use own inv True in \<open>auto simp: reg_inv_def\<close>)
  qed
  moreover have "-1 \<le> maxTid s' \<and> maxTid s' \<le> int REGISTRY_MAX_THREADS"
    using st by cases (use own inv in \<open>auto simp: reg_inv_def\<close>)
  moreover have "\<forall>j k. slot_of (tpcs s' j) = Some k \<longrightarrow> usedTID s' k"
    using st
  proof cases
    case (t_exit k)
    then have "slot_of (tpcs s i) = Some k" by simp
    then have "slot_of (tpcs s j) \<noteq> Some k" if "j \<noteq> i" for j using inv that by (auto simp: reg_inv_def)
    then show ?thesis using inv t_exit by (auto simp: reg_inv_def)
  qed (use inv used in \<open>auto simp: reg_inv_def\<close>)
  moreover have "\<forall>j l k. slot_of (tpcs s' j) = Some k \<and> slot_of (tpcs s' l) = Some k \<longrightarrow> j = l"
    using st
  proof cases
    case (t_cas_ok k)
    then have "slot_of (tpcs s j) \<noteq> Some k" for j using inv by (auto simp: reg_inv_def)
    then show ?thesis using inv t_cas_ok by (auto simp: reg_inv_def)
  next
    case (t_max k)
    then have "slot_of (tpcs s' j) = slot_of (tpcs s j)" for j by auto
    then show ?thesis using inv by (simp add: reg_inv_def)
  next
    case (t_maxcas_ok k c)
    then have "slot_of (tpcs s' j) = slot_of (tpcs s j)" for j by auto
    then show ?thesis using inv by (simp add: reg_inv_def)
  next
    case (t_maxcas_fail k c)
    then have "slot_of (tpcs s' j) = slot_of (tpcs s j)" for j by auto
    then show ?thesis using inv by (simp add: reg_inv_def)
  qed (use inv in \<open>auto simp: reg_inv_def split: if_splits\<close>)
  ultimately show ?thesis unfolding reg_inv_def by blast
qed

lemma reg_reach_inv: "reg_reach s \<Longrightarrow> reg_inv s"
proof (induction rule: reg_reach.induct)
  case reg_init then show ?case by (simp add: reg_inv_def registry_new_def)
qed (rule reg_inv_step)

subsection \<open>Steps left\<close>

fun steps_left :: "int \<Rightarrow> tpc \<Rightarrow> nat" where
  "steps_left m Unregistered = 519"
| "steps_left m (T_Load k) = 2 * (REGISTRY_MAX_THREADS - k) + 262"
| "steps_left m (T_Cas k) = 2 * (REGISTRY_MAX_THREADS - k) + 261"
| "steps_left m (T_Max k) = 2 * nat (int k + 1 - m) + 1"
| "steps_left m (T_MaxCas k c) = 2 * nat (int k + 1 - c)"
| "steps_left m _ = 0"

lemma steps_left_own:
  assumes "reg_inv s" "reg_step i s s'" "steps_left (maxTid s) (tpcs s i) > 0"
  shows "steps_left (maxTid s') (tpcs s' i) < steps_left (maxTid s) (tpcs s i)"
proof -
  from assms(1) have own: "pc_ok (maxTid s) (tpcs s i)" "-1 \<le> maxTid s" by (simp_all add: reg_inv_def)
  from assms(2) show ?thesis by cases (use own assms(3) in auto)
qed

lemma steps_left_other:
  assumes "reg_inv s" "reg_step j s s'" "i \<noteq> j"
  shows "steps_left (maxTid s') (tpcs s' i) \<le> steps_left (maxTid s) (tpcs s i)"
proof -
  have "tpcs s' i = tpcs s i" using assms(2,3) by cases auto
  moreover have "maxTid s \<le> maxTid s'" by (rule maxTid_mono [OF assms(1,2)])
  ultimately show ?thesis by (cases "tpcs s i") auto
qed

lemma steps_left_enabled: "steps_left m (tpcs s i) > 0 \<Longrightarrow> \<exists>s'. reg_step i s s'"
proof (cases "tpcs s i")
  case (T_Load k) then show ?thesis by (cases "k < REGISTRY_MAX_THREADS") (use t_load t_full in \<open>fastforce+\<close>)
next
  case (T_Cas k) then show ?thesis by (cases "usedTID s k") (use t_cas_ok t_cas_fail in blast)+
next
  case (T_MaxCas k c) then show ?thesis by (cases "maxTid s = c") (use t_maxcas_ok t_maxcas_fail in blast)+
qed (auto intro: t_start t_max)

subsection \<open>The failed assertion\<close>

text \<open>
  A thread takes one slot in its life. The ghost map T names the slot each thread has taken, also
  after it has exited; a scan has passed only slots that some thread had taken.
\<close>

fun scanned :: "tpc \<Rightarrow> nat" where
  "scanned (T_Load k) = k" | "scanned (T_Cas k) = k" | "scanned T_Full = REGISTRY_MAX_THREADS" | "scanned _ = 0"

definition taken_inv :: "(nat \<rightharpoonup> nat) \<Rightarrow> registry \<Rightarrow> bool" where
  "taken_inv T s \<longleftrightarrow> (\<forall>j m. T j = Some m \<longrightarrow> slot_of (tpcs s j) = Some m \<or> tpcs s j = Exited)
     \<and> (\<forall>k. usedTID s k \<longrightarrow> k \<in> ran T) \<and> (\<forall>i. {..<scanned (tpcs s i)} \<subseteq> ran T)
     \<and> (\<forall>i k. tpcs s i = T_Load k \<longrightarrow> k \<le> REGISTRY_MAX_THREADS)"

lemma taken_keep:
  assumes inv: "taken_inv T s" and other: "\<And>j. j \<noteq> i \<Longrightarrow> tpcs s' j = tpcs s j"
    and own: "\<And>m. slot_of (tpcs s i) = Some m \<Longrightarrow> slot_of (tpcs s' i) = Some m \<or> tpcs s' i = Exited"
      "tpcs s i \<noteq> Exited" "{..<scanned (tpcs s' i)} \<subseteq> ran T" "\<And>k. tpcs s' i = T_Load k \<Longrightarrow> k \<le> REGISTRY_MAX_THREADS"
    and used: "\<And>k. usedTID s' k \<Longrightarrow> usedTID s k"
  shows "taken_inv T s'"
  unfolding taken_inv_def
proof (intro conjI allI impI)
  fix j m assume "T j = Some m"
  then have "slot_of (tpcs s j) = Some m \<or> tpcs s j = Exited" using inv by (simp add: taken_inv_def)
  then show "slot_of (tpcs s' j) = Some m \<or> tpcs s' j = Exited"
    using own(1,2) other by (cases "j = i") auto
next
  fix k assume "usedTID s' k" then show "k \<in> ran T" using inv used by (simp add: taken_inv_def)
next
  fix j show "{..<scanned (tpcs s' j)} \<subseteq> ran T"
    using inv own(3) other by (cases "j = i") (auto simp: taken_inv_def)
next
  fix j k assume l: "tpcs s' j = T_Load k"
  show "k \<le> REGISTRY_MAX_THREADS"
  proof (cases "j = i")
    case True
    then show ?thesis using l own(4) by simp
  next
    case False
    then show ?thesis using l other inv unfolding taken_inv_def by metis
  qed
qed

lemma taken_step:
  assumes inv: "taken_inv T s" and st: "reg_step i s s'" and ok: "pc_ok (maxTid s) (tpcs s i)"
  shows "\<exists>T'. taken_inv T' s'"
  using st
proof cases
  case (t_load k)
  have "{..<k} \<subseteq> ran T" "usedTID s k \<Longrightarrow> k \<in> ran T"
    using inv t_load(2) unfolding taken_inv_def by (metis scanned.simps(1), blast)
  then have "{..<scanned (tpcs s' i)} \<subseteq> ran T" using t_load(1) by (auto simp: lessThan_Suc)
  then have "taken_inv T s'" by (intro taken_keep [OF inv, of i]) (use t_load in \<open>auto split: if_splits\<close>)
  then show ?thesis by blast
next
  case (t_cas_ok k)
  have none: "T i = None" using inv t_cas_ok(2) unfolding taken_inv_def by fastforce
  then have ran: "ran (T(i \<mapsto> k)) = insert k (ran T)" by simp
  have i: "tpcs s' i = T_Max k" "usedTID s' l \<longleftrightarrow> l = k \<or> usedTID s l" for l using t_cas_ok by auto
  have o: "tpcs s' j = tpcs s j" if "j \<noteq> i" for j using t_cas_ok that by simp
  have "slot_of (tpcs s' j) = Some m \<or> tpcs s' j = Exited" if "(T(i \<mapsto> k)) j = Some m" for j m
    using that inv i o by (cases "j = i") (simp_all add: taken_inv_def)
  moreover have "{..<scanned (tpcs s' j)} \<subseteq> insert k (ran T)" for j
    using inv i o by (cases "j = i") (auto simp: taken_inv_def)
  moreover have "l \<le> REGISTRY_MAX_THREADS" if "tpcs s' j = T_Load l" for j l
  proof (cases "j = i")
    case True then show ?thesis using that i by simp
  next
    case False then show ?thesis using that o inv unfolding taken_inv_def by metis
  qed
  ultimately have "taken_inv (T(i \<mapsto> k)) s'" using inv i(2) unfolding taken_inv_def ran by blast
  then show ?thesis by blast
next
  case (t_cas_fail k)
  have "{..<k} \<subseteq> ran T" "k \<in> ran T"
    using inv t_cas_fail(2,3) unfolding taken_inv_def by (metis scanned.simps(2), blast)
  then have "{..<scanned (tpcs s' i)} \<subseteq> ran T" using t_cas_fail(1) by (auto simp: lessThan_Suc)
  then have "taken_inv T s'" by (intro taken_keep [OF inv, of i]) (use t_cas_fail ok in \<open>auto split: if_splits\<close>)
  then show ?thesis by blast
next
  case (t_full k)
  have "k = REGISTRY_MAX_THREADS" using inv t_full(2,3) unfolding taken_inv_def by (meson le_antisym)
  moreover have "{..<k} \<subseteq> ran T" using inv t_full(2) unfolding taken_inv_def by (metis scanned.simps(1))
  ultimately have "taken_inv T s'" by (intro taken_keep [OF inv, of i]) (use t_full in auto)
  then show ?thesis by blast
qed (intro exI, rule taken_keep [OF inv, of i]; auto split: if_splits)+

lemma reg_reach_taken: "reg_reach s \<Longrightarrow> (\<exists>T. taken_inv T s) \<and> finite {j. tpcs s j \<noteq> Unregistered}"
proof (induction rule: reg_reach.induct)
  case reg_init
  have "taken_inv Map.empty registry_new" by (simp add: taken_inv_def registry_new_def)
  then show ?case by (auto simp: registry_new_def)
next
  case (reg_next s i s')
  then obtain T where T: "taken_inv T s" by blast
  have "pc_ok (maxTid s) (tpcs s i)" using reg_reach_inv [OF reg_next(1)] by (simp add: reg_inv_def)
  note taken_step [OF T reg_next(2) this]
  moreover have "{j. tpcs s' j \<noteq> Unregistered} \<subseteq> insert i {j. tpcs s j \<noteq> Unregistered}"
    using reg_next(2) by cases auto
  ultimately show ?case using reg_next.IH finite_subset by blast
qed

lemma full_needs_threads:
  assumes "reg_reach s" "tpcs s i = T_Full"
  shows "REGISTRY_MAX_THREADS < card {j. tpcs s j \<noteq> Unregistered}"
proof -
  from reg_reach_taken [OF assms(1)] obtain T where T: "taken_inv T s" and fin: "finite {j. tpcs s j \<noteq> Unregistered}" by blast
  have dom: "dom T \<subseteq> {j. tpcs s j \<noteq> Unregistered} - {i}" using T assms(2) unfolding taken_inv_def by fastforce
  have "finite (dom T)" using dom fin by (meson finite_Diff finite_subset)
  have "{..<REGISTRY_MAX_THREADS} \<subseteq> ran T" using T assms(2) unfolding taken_inv_def by (metis scanned.simps(3))
  also have "ran T = (\<lambda>j. the (T j)) ` dom T" by (force simp: ran_def dom_def)
  finally have "REGISTRY_MAX_THREADS \<le> card (dom T)" using surj_card_le [OF \<open>finite (dom T)\<close>] by fastforce
  also have "\<dots> \<le> card ({j. tpcs s j \<noteq> Unregistered} - {i})" by (rule card_mono [OF _ dom]) (use fin in simp)
  also have "\<dots> < card {j. tpcs s j \<noteq> Unregistered}" by (rule card_Diff1_less [OF fin]) (simp add: assms(2))
  finally show ?thesis .
qed

text \<open>What the registry promises.\<close>

definition ids_unique :: "registry \<Rightarrow> bool" where
  "ids_unique s \<longleftrightarrow> (\<forall>i j k. tpcs s i = Registered k \<and> tpcs s j = Registered k \<longrightarrow> i = j)
     \<and> (\<forall>i k. tpcs s i = Registered k \<longrightarrow> k < REGISTRY_MAX_THREADS \<and> int k < maxTid s)"

definition getTID_wait_free :: "nat \<Rightarrow> registry \<Rightarrow> bool" where
  "getTID_wait_free i s \<longleftrightarrow> (let n = steps_left (maxTid s) (tpcs s i) in n \<le> 519
     \<and> (n = 0 \<longleftrightarrow> (\<exists>k. tpcs s i = Registered k) \<or> tpcs s i = T_Full \<or> tpcs s i = Exited)
     \<and> (n > 0 \<longrightarrow> (\<exists>s'. reg_step i s s'))
     \<and> (\<forall>s'. reg_step i s s' \<and> n > 0 \<longrightarrow> steps_left (maxTid s') (tpcs s' i) < n)
     \<and> (\<forall>j s'. reg_step j s s' \<and> i \<noteq> j \<longrightarrow> steps_left (maxTid s') (tpcs s' i) \<le> n))"

text \<open>
  C35: in every reachable state of any number of threads, no two registered threads have the same
  id, and every id is below both the capacity and maxTid. A thread that has not come to an end
  (registered, at the failed assertion, or gone) can always take its next step, and is at most
  519 of its own steps from that end, whatever the other threads do. The assertion fails only
  when more than 128 threads have begun to register since the program started, so with at most
  128 of them every thread gets its id.
\<close>

theorem registry_ids_unique_wait_free:
  assumes "reg_reach s"
  shows "ids_unique s \<and> getTID_wait_free i s
    \<and> (tpcs s i = T_Full \<longrightarrow> REGISTRY_MAX_THREADS < card {j. tpcs s j \<noteq> Unregistered})"
proof -
  from assms have inv: "reg_inv s" by (rule reg_reach_inv)
  then have own: "pc_ok (maxTid s) (tpcs s j)" "-1 \<le> maxTid s" for j by (simp_all add: reg_inv_def)
  have "ids_unique s"
    unfolding ids_unique_def
  proof (intro conjI allI impI)
    fix i j k assume "tpcs s i = Registered k \<and> tpcs s j = Registered k"
    then have "slot_of (tpcs s i) = Some k" "slot_of (tpcs s j) = Some k" by simp_all
    then show "i = j" using inv unfolding reg_inv_def by blast
  next
    fix i k assume "tpcs s i = Registered k"
    then show "k < REGISTRY_MAX_THREADS" "int k < maxTid s" using own(1) [of i] by simp_all
  qed
  moreover have "steps_left (maxTid s) (tpcs s i) \<le> 519
     \<and> (steps_left (maxTid s) (tpcs s i) = 0 \<longleftrightarrow> (\<exists>k. tpcs s i = Registered k) \<or> tpcs s i = T_Full \<or> tpcs s i = Exited)"
    using own(1) [of i] own(2) by (cases "tpcs s i") auto
  ultimately show ?thesis using steps_left_own [OF inv, of i] steps_left_other [OF inv, of _ _ i] steps_left_enabled [of "maxTid s" s i]
      full_needs_threads [OF assms, of i]
    unfolding getTID_wait_free_def Let_def by blast
qed

theorem registry_ids_unique_wait_free_witness:
  "ids_unique (goto_pc 4 (T_Load 0) registry_new) \<and> getTID_wait_free 4 (goto_pc 4 (T_Load 0) registry_new)"
proof -
  have "reg_step 4 registry_new (goto_pc 4 (T_Load 0) registry_new)" by (rule t_start) (simp add: registry_new_def)
  then have "reg_reach (goto_pc 4 (T_Load 0) registry_new)" by (rule reg_next [OF reg_init])
  from registry_ids_unique_wait_free [OF this, of 4] show ?thesis by blast
qed

end
