(* ===== verification/RedoLog.thy ===== *)
theory RedoLog
  imports PMem
begin

text \<open>
  The volatile write set of a RedoOpt transaction (ptms/redoopt/RedoOpt.hpp): the log of stores
  with the old and the new value of each word, from which a replica is rolled back
  (apply\_undolog) or another one brought up to date (copy\_redolog), and the sets of cache lines
  to write back. All three are lists of fixed-size nodes, each with a hash table into its own
  entries whose buckets are not cleared between transactions.
\<close>

subsection \<open>The persistent region\<close>

abbreviation MAX_THREADS :: nat where "MAX_THREADS \<equiv> 41"
abbreviation MAX_COMBINEDS :: nat where "MAX_COMBINEDS \<equiv> 42"
abbreviation MAXLOGSIZE :: nat where "MAXLOGSIZE \<equiv> 256"
abbreviation HASH_BUCKETS :: nat where "HASH_BUCKETS \<equiv> 64"

record region =
  g_main_addr :: nat
  g_main_size :: nat

definition ADDR_IS_IN_MAIN :: "region \<Rightarrow> nat \<Rightarrow> bool" where
  "ADDR_IS_IN_MAIN L a \<longleftrightarrow> g_main_addr L \<le> a \<and> a < g_main_addr L + g_main_size L"

definition ADDR_IS_IN_REGION :: "region \<Rightarrow> nat \<Rightarrow> bool" where
  "ADDR_IS_IN_REGION L a \<longleftrightarrow> g_main_addr L \<le> a \<and> a < g_main_addr L + MAX_COMBINEDS * g_main_size L"

text \<open>Little-endian integers of n bytes in memory.\<close>

fun get_bytes :: "nat \<Rightarrow> nat \<Rightarrow> pm \<Rightarrow> u64" where
  "get_bytes 0 a m = 0"
| "get_bytes (Suc n) a m = take_bit 8 (pm_cur m (LByte a)) OR push_bit 8 (get_bytes n (a + 1) m)"

fun put_bytes :: "nat \<Rightarrow> nat \<Rightarrow> u64 \<Rightarrow> pm \<Rightarrow> pm" where
  "put_bytes 0 a v m = m"
| "put_bytes (Suc n) a v m = put_bytes n (a + 1) (drop_bit 8 v) (pm_exec1 (St (LByte a) (take_bit 8 v)) m)"

subsection \<open>Nodes with a hash table of their entries\<close>

text \<open>
  A bucket holds the index of an entry of the node (the source has a pointer to it), initially
  the last one.
\<close>

record 'e hnode =
  hn_buckets :: "nat list"
  hn_log :: "'e list"

text \<open>The chain of a bucket: entries are compared until one has the key or there is no next.\<close>

partial_function (option) chain_search ::
    "('e \<Rightarrow> nat) \<Rightarrow> ('e \<Rightarrow> nat option) \<Rightarrow> 'e list \<Rightarrow> nat \<Rightarrow> nat option \<Rightarrow> nat option option" where
  "chain_search key nxt log a be =
     (case be of None \<Rightarrow> Some None
      | Some k \<Rightarrow> if key (log ! k) = a then Some (Some k) else chain_search key nxt log a (nxt (log ! k)))"

declare chain_search.simps [code]

text \<open>
  The search through the k nodes before and including node j, of which at most W are visited.
  The test live tells whether the bucket of the i-th visited node may be used.
\<close>

fun log_search ::
    "('e \<Rightarrow> nat) \<Rightarrow> ('e \<Rightarrow> nat option) \<Rightarrow> (nat \<Rightarrow> nat) \<Rightarrow> nat \<Rightarrow> (nat \<Rightarrow> nat \<Rightarrow> bool) \<Rightarrow>
     'e hnode list \<Rightarrow> nat \<Rightarrow> nat \<Rightarrow> nat \<Rightarrow> nat \<Rightarrow> (nat \<times> nat) option option" where
  "log_search key nxt hash W live nds a i 0 j = Some None"
| "log_search key nxt hash W live nds a i (Suc k) j =
     (if i = W then Some None
      else let node = nds ! j; be = hn_buckets node ! hash a
           in if hash (key (hn_log node ! be)) = hash a \<and> live i be
              then chain_search key nxt (hn_log node) a (Some be) \<bind>
                     (\<lambda>r. case r of Some e \<Rightarrow> Some (Some (j, e))
                          | None \<Rightarrow> log_search key nxt hash W live nds a (i + 1) k (j - 1))
              else log_search key nxt hash W live nds a (i + 1) k (j - 1))"

text \<open>
  A new entry at index e of node j: it is chained to the entry of its bucket, unless that is of
  an earlier transaction or of another bucket.
\<close>

definition log_insert ::
    "('e \<Rightarrow> nat) \<Rightarrow> (nat \<Rightarrow> nat) \<Rightarrow> (nat option \<Rightarrow> 'e) \<Rightarrow> nat \<Rightarrow> nat \<Rightarrow> 'e hnode list \<Rightarrow> nat \<Rightarrow> 'e hnode list" where
  "log_insert key hash mk j e nds a =
     (let node = nds ! j; be = hn_buckets node ! hash a;
          nx = (if be < e \<and> hash (key (hn_log node ! be)) = hash a then Some be else None)
      in nds[j := \<lparr>hn_buckets = (hn_buckets node)[hash a := e], hn_log = (hn_log node)[e := mk nx]\<rparr>])"

subsection \<open>The representation of a log\<close>

text \<open>The first n entries of a node are current; its table and its chains index exactly those.\<close>

definition node_ok :: "('e \<Rightarrow> nat) \<Rightarrow> ('e \<Rightarrow> nat option) \<Rightarrow> (nat \<Rightarrow> nat) \<Rightarrow> nat \<Rightarrow> nat \<Rightarrow> 'e hnode \<Rightarrow> bool" where
  "node_ok key nxt hash B n nd \<longleftrightarrow>
     length (hn_buckets nd) = B \<and> length (hn_log nd) = B \<and> (\<forall>b\<in>set (hn_buckets nd). b < B) \<and>
     (\<forall>h k. last_index (\<lambda>k. hash (key (hn_log nd ! k)) = h) n = Some k \<longrightarrow> hn_buckets nd ! h = k) \<and>
     (\<forall>k<n. nxt (hn_log nd ! k) = last_index (\<lambda>l. hash (key (hn_log nd ! l)) = hash (key (hn_log nd ! k))) k)"

lemma chain_search_ok:
  assumes "node_ok key nxt hash B n nd" "k < n" "hash (key (hn_log nd ! k)) = hash a"
  shows "chain_search key nxt (hn_log nd) a (Some k) = Some (last_index (\<lambda>l. key (hn_log nd ! l) = a) (Suc k))"
  using assms(2,3)
proof (induction k rule: less_induct)
  case (less k)
  let ?key = "\<lambda>l. key (hn_log nd ! l)"
  show ?case
  proof (cases "?key k = a")
    case True then show ?thesis by (subst chain_search.simps) simp
  next
    case False
    have nx: "nxt (hn_log nd ! k) = last_index (\<lambda>l. hash (?key l) = hash a) k"
      using assms(1) less.prems by (simp add: node_ok_def)
    have "chain_search key nxt (hn_log nd) a (Some k) = chain_search key nxt (hn_log nd) a (nxt (hn_log nd ! k))"
      using False by (subst chain_search.simps) simp
    also have "\<dots> = Some (last_index (\<lambda>l. ?key l = a) k)"
    proof (cases "last_index (\<lambda>l. hash (?key l) = hash a) k")
      case None
      then have "last_index (\<lambda>l. ?key l = a) k = None" by (auto simp: last_index_None)
      with None nx show ?thesis by (subst chain_search.simps) simp
    next
      case (Some l)
      then have l: "l < k" "hash (?key l) = hash a" "\<forall>m<k. l < m \<longrightarrow> hash (?key m) \<noteq> hash a"
        by (auto simp: last_index_Some)
      from less.IH [OF l(1) _ l(2)] l(1) less.prems(1)
      have "chain_search key nxt (hn_log nd) a (Some l) = Some (last_index (\<lambda>l. ?key l = a) (Suc l))" by simp
      also have "last_index (\<lambda>l. ?key l = a) (Suc l) = last_index (\<lambda>l. ?key l = a) k"
        using l by (intro last_index_skip [symmetric]) (auto simp: Suc_le_eq)
      finally show ?thesis using Some nx by simp
    qed
    finally show ?thesis using False by simp
  qed
qed

text \<open>What the bucket of a key leads to: the last current entry with that key.\<close>

lemma bucket_search_ok:
  assumes ok: "node_ok key nxt hash B n nd" and be: "be = hn_buckets nd ! hash a"
  shows "(if hash (key (hn_log nd ! be)) = hash a \<and> be < n then chain_search key nxt (hn_log nd) a (Some be) else Some None)
       = Some (last_index (\<lambda>l. key (hn_log nd ! l) = a) n)"
proof (cases "last_index (\<lambda>k. hash (key (hn_log nd ! k)) = hash a) n")
  case None
  then have no: "\<not> (hash (key (hn_log nd ! be)) = hash a \<and> be < n)" by (auto simp: last_index_None)
  have "last_index (\<lambda>l. key (hn_log nd ! l) = a) n = None" using None by (auto simp: last_index_None)
  then show ?thesis using no by auto
next
  case (Some k)
  then have "be = k" using ok be by (simp add: node_ok_def)
  with Some have b: "be < n" "hash (key (hn_log nd ! be)) = hash a" "\<forall>m<n. be < m \<longrightarrow> hash (key (hn_log nd ! m)) \<noteq> hash a"
    by (auto simp: last_index_Some)
  from chain_search_ok [OF ok b(1,2)]
  have "chain_search key nxt (hn_log nd) a (Some be) = Some (last_index (\<lambda>l. key (hn_log nd ! l) = a) (Suc be))" .
  also have "last_index (\<lambda>l. key (hn_log nd ! l) = a) (Suc be) = last_index (\<lambda>l. key (hn_log nd ! l) = a) n"
    using b by (intro last_index_skip [symmetric]) (auto simp: Suc_le_eq)
  finally show ?thesis using b by simp
qed

lemma last_index_add:
  "last_index P (m + n) = (case last_index (\<lambda>l. P (m + l)) n of Some l \<Rightarrow> Some (m + l) | None \<Rightarrow> last_index P m)"
  by (induction n) auto

text \<open>
  A log of sz entries in nodes of B, with tail node tj. Nodes after the tail are left over from
  earlier transactions.
\<close>

definition log_ok :: "('e \<Rightarrow> nat) \<Rightarrow> ('e \<Rightarrow> nat option) \<Rightarrow> (nat \<Rightarrow> nat) \<Rightarrow> nat \<Rightarrow> 'e hnode list \<Rightarrow> nat \<Rightarrow> nat \<Rightarrow> bool" where
  "log_ok key nxt hash B nds tj sz \<longleftrightarrow> 0 < B \<and> (\<forall>a. hash a < B) \<and> tj < length nds \<and> tj = (sz - 1) div B \<and>
     (\<forall>j<length nds. node_ok key nxt hash B (min B (sz - B * j)) (nds ! j))"

definition log_entry :: "nat \<Rightarrow> 'e hnode list \<Rightarrow> nat \<Rightarrow> 'e" where
  "log_entry B nds p = hn_log (nds ! (p div B)) ! (p mod B)"

definition log_entries :: "nat \<Rightarrow> 'e hnode list \<Rightarrow> nat \<Rightarrow> 'e list" where
  "log_entries B nds sz = map (log_entry B nds) [0..<sz]"

lemma log_tail_bounds:
  assumes "0 < B" "tj = (sz - 1) div B" "0 < (sz :: nat)"
  shows "B * tj < sz" "sz \<le> B * (tj + 1)"
proof -
  have "B * tj \<le> sz - 1" using assms(2) by simp
  then show "B * tj < sz" using assms(3) by linarith
  have "sz - 1 < B * tj + B" using assms(1,2) by (metis add.commute dividend_less_div_times mult.commute)
  then show "sz \<le> B * (tj + 1)" using assms(3) by simp
qed

lemma log_search_from:
  assumes ok: "log_ok key nxt hash B nds tj sz" and sz: "0 < sz" and j: "k \<le> tj + 1" "i + k = tj + 1"
    and live: "\<And>j be. j \<le> tj \<Longrightarrow> be < B \<Longrightarrow> live (tj - j) be \<longleftrightarrow> be < min B (sz - B * j)"
    and W: "i \<le> W"
  shows "log_search key nxt hash W live nds a i k (k - 1) =
    Some (map_option (\<lambda>p. (p div B, p mod B))
      (last_index (\<lambda>p. B * (tj + 1 - W) \<le> p \<and> key (log_entry B nds p) = a) (min sz (B * k))))"
  using j W
proof (induction k arbitrary: i)
  case 0 then show ?case by simp
next
  case (Suc j)
  let ?Q = "\<lambda>p. B * (tj + 1 - W) \<le> p \<and> key (log_entry B nds p) = a"
  let ?node = "nds ! j" and ?be = "hn_buckets (nds ! j) ! hash a" and ?n = "min B (sz - B * j)"
  from ok have B: "0 < B" "hash a < B" "tj < length nds" "tj = (sz - 1) div B" by (auto simp: log_ok_def)
  have jt: "j \<le> tj" using Suc.prems by simp
  have "B * j \<le> B * tj" using jt by simp
  then have js: "B * j < sz" using log_tail_bounds(1) [OF B(1,4) sz] by linarith
  show ?case
  proof (cases "i = W")
    case True
    then have "tj + 1 - W = Suc j" using Suc.prems by simp
    then have "last_index ?Q (min sz (B * Suc j)) = None"
      unfolding last_index_None by (auto simp only: not_le not_less min_less_iff_conj)
    then show ?thesis using True by simp
  next
    case False
    have node: "node_ok key nxt hash B ?n ?node" using ok jt by (simp add: log_ok_def)
    have be: "?be < B" using node B(2) nth_mem [of "hash a" "hn_buckets ?node"] by (simp add: node_ok_def)
    have i: "i = tj - j" using Suc.prems by simp
    have lv: "live i ?be \<longleftrightarrow> ?be < ?n" using live [OF jt be] i by simp
    have lo: "B * (tj + 1 - W) \<le> B * j" using False Suc.prems by (intro mult_le_mono2) simp
    have ent: "log_entry B nds (B * j + l) = hn_log ?node ! l" if "l < ?n" for l
      using that B(1) by (simp add: log_entry_def)
    have n: "min sz (B * Suc j) = B * j + ?n" using js unfolding min_def mult_Suc_right by arith
    have split: "last_index ?Q (min sz (B * Suc j)) =
      (case last_index (\<lambda>l. key (hn_log ?node ! l) = a) ?n of Some l \<Rightarrow> Some (B * j + l) | None \<Rightarrow> last_index ?Q (B * j))"
    proof -
      have "last_index (\<lambda>l. ?Q (B * j + l)) ?n = last_index (\<lambda>l. key (hn_log ?node ! l) = a) ?n"
        using trans_le_add1 [OF lo] ent by (intro last_index_cong) simp
      then show ?thesis unfolding n last_index_add by simp
    qed
    have IH: "log_search key nxt hash W live nds a (i + 1) j (j - 1) =
        Some (map_option (\<lambda>p. (p div B, p mod B)) (last_index ?Q (B * j)))"
      using Suc.IH [of "i + 1"] Suc.prems False js by (simp add: min_def)
    note bs = bucket_search_ok [OF node refl, of a, unfolded lv [symmetric]]
    show ?thesis
    proof (cases "last_index (\<lambda>l. key (hn_log ?node ! l) = a) ?n")
      case None
      then show ?thesis using IH bs False unfolding split
        by (auto simp: Let_def simp del: Suc_eq_plus1 add_Suc_right split: if_splits)
    next
      case (Some l)
      then have l: "l < B" by (auto simp: last_index_Some)
      then show ?thesis using IH bs False Some unfolding split
        by (auto simp: Let_def simp del: Suc_eq_plus1 add_Suc_right split: if_splits)
    qed
  qed
qed

lemma log_search_ok:
  assumes ok: "log_ok key nxt hash B nds tj sz" and sz: "0 < sz" and k: "k = tj + 1" "j = tj"
    and live: "\<And>j be. j \<le> tj \<Longrightarrow> be < B \<Longrightarrow> live (tj - j) be \<longleftrightarrow> be < min B (sz - B * j)"
  shows "log_search key nxt hash W live nds a 0 k j =
    Some (map_option (\<lambda>p. (p div B, p mod B))
      (last_index (\<lambda>p. B * (tj + 1 - W) \<le> p \<and> key (log_entry B nds p) = a) sz))"
proof -
  have "min sz (B * (tj + 1)) = sz"
    using log_tail_bounds(2) [of B tj sz] ok sz by (simp add: log_ok_def min_def)
  with log_search_from [OF ok sz, of "tj + 1" 0 live W a] live show ?thesis by (simp add: k)
qed

lemma tail_full: "0 < B \<Longrightarrow> sz mod B = 0 \<Longrightarrow> 0 < (sz :: nat) \<Longrightarrow> sz div B = (sz - 1) div B + 1"
proof -
  assume a: "0 < B" "sz mod B = 0" "0 < sz"
  then obtain q where q: "sz = B * q" "0 < q" by (metis mod_0_imp_dvd dvd_def mult_0_right gr0I)
  have "B * q - 1 = (B - 1) + B * (q - 1)" using q(2) a(1) by (cases q) auto
  also have "\<dots> div B = q - 1" using a(1) by (simp only: div_mult_self2) simp
  finally show ?thesis using q a(1) by simp
qed

lemma tail_part: "0 < B \<Longrightarrow> sz mod B \<noteq> 0 \<Longrightarrow> (sz :: nat) div B = (sz - 1) div B"
proof -
  assume a: "0 < B" "sz mod B \<noteq> 0"
  then have "sz - 1 = (sz mod B - 1) + B * (sz div B)" using mult_div_mod_eq [of B sz] by linarith
  also have "\<dots> div B = sz div B" using a(1) mod_less_divisor [OF a(1), of sz] by (simp only: div_mult_self2) simp
  finally show ?thesis by simp
qed

text \<open>The two ways the source searches: a full tail needs no test of its bucket.\<close>

lemma log_search_two:
  assumes lok: "log_ok key nxt hash B nds tj sz" and sz: "0 < sz"
  shows "(if sz mod B = 0 then log_search key nxt hash W (\<lambda>i be. True) nds a 0 (sz div B) tj
          else log_search key nxt hash W (\<lambda>i be. i \<noteq> 0 \<or> be < sz mod B) nds a 0 (sz div B + 1) tj)
       = Some (map_option (\<lambda>p. (p div B, p mod B))
           (last_index (\<lambda>p. B * (tj + 1 - W) \<le> p \<and> key (log_entry B nds p) = a) sz))"
proof -
  from lok have B: "0 < B" and t: "tj = (sz - 1) div B" by (auto simp: log_ok_def)
  have full: "min B (sz - B * j) = B" if "B * (j + 1) \<le> sz" for j using that by (simp add: min_def)
  show ?thesis
  proof (cases "sz mod B = 0")
    case True
    from tail_full [OF B True sz] t have n: "sz div B = tj + 1" by simp
    have "B * (j + 1) \<le> sz" if "j \<le> tj" for j
    proof -
      have "B * (j + 1) \<le> B * (sz div B)" using that n by (intro mult_le_mono2) simp
      then show ?thesis using True by (metis add.right_neutral mult_div_mod_eq)
    qed
    then show ?thesis unfolding if_P [OF True]
      by (intro log_search_ok [OF lok sz]) (simp_all only: n full True simp_thms)
  next
    case False
    from tail_part [OF B False] t have n: "sz div B = tj" by simp
    have "sz - B * tj = sz mod B" unfolding n [symmetric] by (rule minus_mult_div_eq_mod)
    moreover have "B * (j + 1) \<le> sz" if "j < tj" for j
    proof -
      have "B * (j + 1) \<le> B * tj" using that by (intro mult_le_mono2) simp
      also have "\<dots> \<le> sz" unfolding n [symmetric] by simp
      finally show ?thesis by simp
    qed
    ultimately have "tj - j \<noteq> 0 \<or> be < sz mod B \<longleftrightarrow> be < min B (sz - B * j)" if "j \<le> tj" "be < B" for j be
      using that full [of j] by (cases "j = tj") auto
    then show ?thesis unfolding if_not_P [OF False] using n by (intro log_search_ok [OF lok sz]) simp_all
  qed
qed

lemma node_insert_ok:
  assumes ok: "node_ok key nxt hash B n nd" and n: "n < B" and h: "hash a < B"
    and mk: "\<And>x. key (mk x) = a" "\<And>x. nxt (mk x) = x"
    and nx: "nx = (if hn_buckets nd ! hash a < n \<and> hash (key (hn_log nd ! (hn_buckets nd ! hash a))) = hash a
                   then Some (hn_buckets nd ! hash a) else None)"
  shows "node_ok key nxt hash B (Suc n) \<lparr>hn_buckets = (hn_buckets nd)[hash a := n], hn_log = (hn_log nd)[n := mk nx]\<rparr>"
proof -
  let ?log = "(hn_log nd)[n := mk nx]"
  have len: "length (hn_buckets nd) = B" "length (hn_log nd) = B" using ok by (auto simp: node_ok_def)
  have same: "last_index (\<lambda>l. hash (key (?log ! l)) = g) k = last_index (\<lambda>l. hash (key (hn_log nd ! l)) = g) k"
    if "k \<le> n" for g k using that by (intro last_index_cong) simp
  have "nx = last_index (\<lambda>l. hash (key (hn_log nd ! l)) = hash a) n"
  proof (cases "last_index (\<lambda>l. hash (key (hn_log nd ! l)) = hash a) n")
    case None
    then have "nx = None" by (auto simp: nx last_index_None)
    with None show ?thesis by simp
  next
    case (Some k)
    then have "hn_buckets nd ! hash a = k" using ok by (simp add: node_ok_def)
    moreover from Some have "k < n" "hash (key (hn_log nd ! k)) = hash a" by (simp_all add: last_index_Some)
    ultimately have "nx = Some k" by (simp add: nx)
    with Some show ?thesis by simp
  qed
  note nx' = this
  have "nxt (?log ! k) = last_index (\<lambda>l. hash (key (?log ! l)) = hash (key (?log ! k))) k" if "k < Suc n" for k
  proof (cases "k = n")
    case True
    then have "?log ! k = mk nx" using n len by simp
    then show ?thesis using same [of n "hash a"] nx' by (simp only: mk True)
  next
    case False
    then have "k < n" "?log ! k = hn_log nd ! k" using that by auto
    then show ?thesis using ok same [of k] by (simp add: node_ok_def)
  qed
  moreover have "(hn_buckets nd)[hash a := n] ! g = k"
    if "last_index (\<lambda>k. hash (key (?log ! k)) = g) (Suc n) = Some k" for g k
  proof (cases "g = hash a")
    case True
    then show ?thesis using that n h len by (simp add: mk)
  next
    case False
    then have "last_index (\<lambda>k. hash (key (hn_log nd ! k)) = g) n = Some k"
      using that n len same [of n g] by (simp add: mk)
    then show ?thesis using ok False by (simp add: node_ok_def)
  qed
  moreover have "\<forall>b\<in>set ((hn_buckets nd)[hash a := n]). b < B"
    using ok n set_update_subset_insert [of "hn_buckets nd" "hash a" n] by (auto simp: node_ok_def)
  ultimately show ?thesis using len by (simp add: node_ok_def)
qed

lemma log_insert_ok:
  assumes ok: "log_ok key nxt hash B nds tj sz" and j: "sz div B < length nds"
    and mk: "\<And>x. key (mk x) = a" "\<And>x. nxt (mk x) = x"
  defines "nds' \<equiv> log_insert key hash mk (sz div B) (sz mod B) nds a"
  shows "log_ok key nxt hash B nds' (sz div B) (sz + 1)"
    "\<exists>x. log_entries B nds' (sz + 1) = log_entries B nds sz @ [mk x]" "length nds' = length nds"
proof -
  let ?j = "sz div B" and ?e = "sz mod B"
  let ?nd = "nds ! ?j"
  define nx where "nx = (if hn_buckets ?nd ! hash a < ?e \<and> hash (key (hn_log ?nd ! (hn_buckets ?nd ! hash a))) = hash a
                   then Some (hn_buckets ?nd ! hash a) else None)"
  have nds': "nds' = nds[?j := \<lparr>hn_buckets = (hn_buckets ?nd)[hash a := ?e], hn_log = (hn_log ?nd)[?e := mk nx]\<rparr>]"
    by (simp add: nds'_def log_insert_def nx_def Let_def)
  have B: "0 < B" "hash a < B" using ok by (auto simp: log_ok_def)
  have e: "?e < B" "min B (sz - B * ?j) = ?e" "min B (sz + 1 - B * ?j) = Suc ?e"
    using mod_less_divisor [OF B(1), of sz]
    by (simp_all add: minus_mult_div_eq_mod min_def Suc_diff_le less_eq_Suc_le)
  have node: "node_ok key nxt hash B (min B (sz - B * i)) (nds ! i)" if "i < length nds" for i
    using ok that by (simp add: log_ok_def)
  have other: "min B (sz + 1 - B * i) = min B (sz - B * i)" if "i \<noteq> ?j" for i
  proof (cases "i < ?j")
    case True
    then have "B * (i + 1) \<le> B * ?j" by (intro mult_le_mono2) simp
    also have "\<dots> \<le> sz" by simp
    finally have "B * i + B \<le> sz" by simp
    then show ?thesis unfolding min_def by arith
  next
    case False
    then have "B * (?j + 1) \<le> B * i" using that by (intro mult_le_mono2) simp
    moreover have "sz < B * ?j + B" using e(1) by (metis add_less_cancel_left mult_div_mod_eq)
    ultimately show ?thesis by simp
  qed
  show "log_ok key nxt hash B nds' ?j (sz + 1)"
    unfolding log_ok_def
  proof (intro conjI allI impI)
    fix i assume i: "i < length nds'"
    show "node_ok key nxt hash B (min B (sz + 1 - B * i)) (nds' ! i)"
    proof (cases "i = ?j")
      case True
      from node_insert_ok [OF node [OF j, unfolded e(2)] e(1) B(2) mk nx_def] j show ?thesis
        unfolding True e(3) by (simp add: nds')
    next
      case False
      with other [OF False] node [of i] i show ?thesis by (simp add: nds')
    qed
  qed (use ok j in \<open>auto simp: log_ok_def nds'\<close>)
  have len: "length (hn_log ?nd) = B" using node [OF j] by (simp add: node_ok_def)
  have "log_entry B nds' p = log_entry B nds p" if "p < sz" for p
  proof (cases "p div B = ?j")
    case True
    then have "p mod B \<noteq> ?e" using that by (metis mult_div_mod_eq less_irrefl)
    then show ?thesis using True j by (simp add: log_entry_def nds')
  qed (simp add: log_entry_def nds')
  moreover have "log_entry B nds' sz = mk nx" using j e(1) len by (simp add: log_entry_def nds')
  ultimately show "\<exists>x. log_entries B nds' (sz + 1) = log_entries B nds sz @ [mk x]"
    by (auto simp: log_entries_def)
  show "length nds' = length nds" by (simp add: nds')
qed

text \<open>Changing an entry without its key and chain, and forgetting all entries.\<close>

lemma node_update_ok:
  assumes "node_ok key nxt hash B n nd" "\<And>x. key (f x) = key x" "\<And>x. nxt (f x) = nxt x"
  shows "node_ok key nxt hash B n (nd\<lparr>hn_log := (hn_log nd)[k := f (hn_log nd ! k)]\<rparr>)"
proof -
  have 2: "key ((hn_log nd)[k := f (hn_log nd ! k)] ! l) = key (hn_log nd ! l)"
    "nxt ((hn_log nd)[k := f (hn_log nd ! k)] ! l) = nxt (hn_log nd ! l)" for l
    by (cases "k < length (hn_log nd)"; cases "l = k"; simp add: list_update_beyond assms(2,3))+
  show ?thesis using assms(1) by (simp add: node_ok_def 2)
qed

definition log_modify :: "('e \<Rightarrow> 'e) \<Rightarrow> nat \<Rightarrow> nat \<Rightarrow> 'e hnode list \<Rightarrow> 'e hnode list" where
  "log_modify f j k nds = nds[j := (nds ! j)\<lparr>hn_log := (hn_log (nds ! j))[k := f (hn_log (nds ! j) ! k)]\<rparr>]"

lemma log_modify_ok:
  assumes ok: "log_ok key nxt hash B nds tj sz" and p: "p < sz" and f: "\<And>x. key (f x) = key x" "\<And>x. nxt (f x) = nxt x"
  defines "nds' \<equiv> log_modify f (p div B) (p mod B) nds"
  shows "log_ok key nxt hash B nds' tj sz"
    "log_entries B nds' sz = (log_entries B nds sz)[p := f (log_entries B nds sz ! p)]"
proof -
  have B: "0 < B" "tj < length nds" "tj = (sz - 1) div B" using ok by (auto simp: log_ok_def)
  have node: "node_ok key nxt hash B (min B (sz - B * i)) (nds ! i)" if "i < length nds" for i
    using ok that by (simp add: log_ok_def)
  have "p div B \<le> tj" using p B(3) by (simp add: div_le_mono)
  then have pj: "p div B < length nds" using B(2) by simp
  have len: "p mod B < length (hn_log (nds ! (p div B)))" using node [OF pj] B(1) by (simp add: node_ok_def)
  have "node_ok key nxt hash B (min B (sz - B * i)) (nds' ! i)" if "i < length nds" for i
    using node [OF that] node_update_ok [OF node [OF pj] f] pj
    by (cases "i = p div B") (auto simp: nds'_def log_modify_def)
  then show "log_ok key nxt hash B nds' tj sz" using ok by (simp add: log_ok_def nds'_def log_modify_def)
  have "log_entry B nds' q = (if q = p then f (log_entry B nds p) else log_entry B nds q)" for q
  proof (cases "q div B = p div B")
    case True
    then have "q = p \<longleftrightarrow> q mod B = p mod B" by (metis mult_div_mod_eq)
    then show ?thesis using True pj len by (auto simp: log_entry_def nds'_def log_modify_def nth_list_update)
  next
    case False
    then have "q \<noteq> p" by auto
    with False show ?thesis by (simp add: log_entry_def nds'_def log_modify_def)
  qed
  then show "log_entries B nds' sz = (log_entries B nds sz)[p := f (log_entries B nds sz ! p)]"
    using p by (intro nth_equalityI) (auto simp: log_entries_def nth_list_update)
qed

lemma log_reset_ok: "log_ok key nxt hash B nds tj sz \<Longrightarrow> log_ok key nxt hash B nds 0 0"
  by (fastforce simp: log_ok_def node_ok_def)

definition log_fresh :: "nat \<Rightarrow> 'e \<Rightarrow> 'e hnode" where
  "log_fresh B e = \<lparr>hn_buckets = replicate B (B - 1), hn_log = replicate B e\<rparr>"

lemma node_fresh_ok: "0 < B \<Longrightarrow> node_ok key nxt hash B 0 (log_fresh B e)"
  by (simp add: log_fresh_def node_ok_def)

lemma log_init_ok: "0 < B \<Longrightarrow> (\<And>a. hash a < B) \<Longrightarrow> log_ok key nxt hash B [log_fresh B e] 0 0"
  by (simp add: log_ok_def node_fresh_ok)

text \<open>The node of the next entry: a new one is linked when the tail is full and the last.\<close>

definition log_advance :: "'e hnode \<Rightarrow> 'e hnode list \<Rightarrow> nat \<Rightarrow> 'e hnode list \<times> nat" where
  "log_advance fresh nds tj = (if tj + 1 = length nds then nds @ [fresh] else nds, tj + 1)"

lemma log_advance_ok:
  assumes ok: "log_ok key nxt hash B nds tj sz" and full: "sz mod B = 0" "0 < sz"
    and adv: "log_advance (log_fresh B e) nds tj = (nds', t')"
  shows "log_ok key nxt hash B nds' tj sz" "t' = sz div B" "t' < length nds'" "log_entries B nds' sz = log_entries B nds sz"
proof -
  have B: "0 < B" "tj < length nds" "tj = (sz - 1) div B" using ok by (auto simp: log_ok_def)
  have tj: "tj + 1 = sz div B" using tail_full [OF B(1) full] B(3) by simp
  then show t': "t' = sz div B" using adv by (simp add: log_advance_def)
  show "t' < length nds'" using adv B(2) by (auto simp: log_advance_def)
  have "B * (tj + 1) \<le> B * length nds" using B(2) by (intro mult_le_mono2) simp
  then have "sz \<le> B * length nds" unfolding tj using full(1) by (metis add.right_neutral mult_div_mod_eq)
  then have "sz - B * length nds = 0" by simp
  then show "log_ok key nxt hash B nds' tj sz"
    using ok adv node_fresh_ok [OF B(1), of key nxt hash e]
    by (auto simp: log_ok_def log_advance_def nth_append less_Suc_eq split: if_splits)
  have "p div B < length nds" if "p < sz" for p
  proof -
    have "p div B \<le> tj" using that B(3) by (simp add: div_le_mono)
    with B(2) show ?thesis by simp
  qed
  then show "log_entries B nds' sz = log_entries B nds sz"
    using adv by (auto simp: log_entries_def log_entry_def log_advance_def nth_append split: if_splits)
qed


text \<open>Adding an entry, with the step to the next node when the tail is full.\<close>

lemma log_append_ok:
  assumes ok: "log_ok key nxt hash B nds tj sz" and mk: "\<And>x. key (mk x) = a" "\<And>x. nxt (mk x) = x"
    and adv: "(if 0 < sz \<and> sz mod B = 0 then log_advance (log_fresh B e) nds tj else (nds, tj)) = (nds1, t1)"
  shows "log_ok key nxt hash B (log_insert key hash mk t1 (sz mod B) nds1 a) t1 (sz + 1)"
    "\<exists>x. log_entries B (log_insert key hash mk t1 (sz mod B) nds1 a) (sz + 1) = log_entries B nds sz @ [mk x]"
proof -
  from ok have B: "0 < B" "tj < length nds" "tj = (sz - 1) div B" by (auto simp: log_ok_def)
  have *: "log_ok key nxt hash B nds1 tj sz \<and> sz div B = t1 \<and> t1 < length nds1 \<and> log_entries B nds1 sz = log_entries B nds sz"
  proof (cases "0 < sz \<and> sz mod B = 0")
    case True
    then show ?thesis using log_advance_ok [OF ok, of e nds1 t1] adv by simp
  next
    case False
    then have "sz div B = tj" using B tail_part [OF B(1), of sz] by (cases "sz = 0") auto
    then show ?thesis using adv False ok B(2) by auto
  qed
  with log_insert_ok [where key = key and nxt = nxt and hash = hash and B = B and nds = nds1 and tj = tj and sz = sz and mk = mk and a = a] mk
  show "log_ok key nxt hash B (log_insert key hash mk t1 (sz mod B) nds1 a) t1 (sz + 1)"
    "\<exists>x. log_entries B (log_insert key hash mk t1 (sz mod B) nds1 a) (sz + 1) = log_entries B nds sz @ [mk x]" by auto
qed

text \<open>The entries node by node, as the source visits them.\<close>

lemma log_entries_node:
  assumes "0 < B" "len \<le> B" "length (hn_log (nds ! j)) = B"
  shows "log_entries B nds (B * j + len) = log_entries B nds (B * j) @ take len (hn_log (nds ! j))"
proof (rule nth_equalityI)
  fix p assume p: "p < length (log_entries B nds (B * j + len))"
  show "log_entries B nds (B * j + len) ! p = (log_entries B nds (B * j) @ take len (hn_log (nds ! j))) ! p"
  proof (cases "p < B * j")
    case True then show ?thesis by (simp add: log_entries_def nth_append)
  next
    case False
    then obtain l where l: "p = B * j + l" by (metis le_Suc_ex not_less)
    with p have "l < len" by (simp add: log_entries_def)
    with l assms show ?thesis by (simp add: log_entries_def nth_append log_entry_def)
  qed
qed (use assms in \<open>simp add: log_entries_def\<close>)

definition node_count :: "nat \<Rightarrow> nat \<Rightarrow> nat" where
  "node_count B n = (if n mod B = 0 then n div B else n div B + 1)"

definition node_entries :: "nat \<Rightarrow> 'e hnode list \<Rightarrow> nat \<Rightarrow> 'e list" where
  "node_entries B nds n = concat (map (\<lambda>i.
     take (if i = node_count B n - 1 then (if n mod B = 0 then B else n mod B) else B) (hn_log (nds ! i))) [0..<node_count B n])"

lemma node_entries_ok:
  assumes B: "0 < B" "0 < n" and len: "\<forall>i \<le> (n - 1) div B. length (hn_log (nds ! i)) = B"
  shows "node_entries B nds n = log_entries B nds n"
proof -
  let ?j = "(n - 1) div B" and ?l = "if n mod B = 0 then B else n mod B"
  have cnt: "node_count B n = ?j + 1" using tail_full [OF B(1) _ B(2)] tail_part [OF B(1)] by (simp add: node_count_def)
  have n: "n = B * ?j + ?l"
  proof (cases "n mod B = 0")
    case True
    with tail_full [OF B(1) True B(2)] mult_div_mod_eq [of B n] show ?thesis by simp
  next
    case False
    with tail_part [OF B(1) False] mult_div_mod_eq [of B n] show ?thesis by simp
  qed
  have full: "concat (map (\<lambda>i. take B (hn_log (nds ! i))) [0..<j]) = log_entries B nds (B * j)" if "j \<le> ?j" for j
    using that
  proof (induction j)
    case (Suc j)
    from log_entries_node [OF B(1), of B nds j] len Suc show ?case by (simp add: algebra_simps)
  qed (simp add: log_entries_def)
  have "node_entries B nds n = concat (map (\<lambda>i. take B (hn_log (nds ! i))) [0..<?j]) @ take ?l (hn_log (nds ! ?j))"
    unfolding node_entries_def cnt by (auto intro!: arg_cong [where f = concat] map_cong)
  also have "\<dots> = log_entries B nds (B * ?j + ?l)"
    unfolding full [OF order_refl] using len mod_less_divisor [OF B(1), of n] by (intro log_entries_node [symmetric] B(1)) auto
  finally show ?thesis using n by simp
qed

subsection \<open>The state of a transaction\<close>

record WriteSetEntry =
  we_addr :: nat
  we_oldval :: u64
  we_val :: u64
  we_next :: "nat option"

record WriteSetCL =
  cl_addrCL :: nat
  cl_next :: "nat option"

record State =
  st_ticket :: u64
  st_applied :: "nat \<Rightarrow> bool"
  st_results :: "nat \<Rightarrow> u64"
  st_log :: "WriteSetEntry hnode list"
  st_logTail :: nat
  st_lSize :: nat
  st_logSize :: nat
  st_logCL :: "WriteSetCL hnode list"
  st_logTailCL :: nat
  st_numCL :: nat

definition WriteSetNode_new :: "WriteSetEntry hnode" where
  "WriteSetNode_new = log_fresh MAXLOGSIZE \<lparr>we_addr = 0, we_oldval = 0, we_val = 0, we_next = None\<rparr>"

definition WriteSetNodeCL_new :: "WriteSetCL hnode" where
  "WriteSetNodeCL_new = log_fresh HASH_BUCKETS \<lparr>cl_addrCL = 0, cl_next = None\<rparr>"

definition State_new :: State where
  "State_new = \<lparr>st_ticket = 0, st_applied = (\<lambda>_. False), st_results = (\<lambda>_. 0),
     st_log = [WriteSetNode_new], st_logTail = 0, st_lSize = 0, st_logSize = 0,
     st_logCL = [WriteSetNodeCL_new], st_logTailCL = 0, st_numCL = 0\<rparr>"

definition copyFrom :: "State \<Rightarrow> State \<Rightarrow> State" where
  "copyFrom from st = st\<lparr>st_applied := (\<lambda>i. if i < MAX_THREADS then st_applied from i else st_applied st i),
                        st_results := (\<lambda>i. if i < MAX_THREADS then st_results from i else st_results st i)\<rparr>"

subsection \<open>The log of stores\<close>

definition hashAddress :: "nat \<Rightarrow> nat" where
  "hashAddress addr = addr div 8 mod MAXLOGSIZE"

definition ws_entry :: "nat \<Rightarrow> u64 \<Rightarrow> u64 \<Rightarrow> nat option \<Rightarrow> WriteSetEntry" where
  "ws_entry addr oldval v next' = \<lparr>we_addr = addr, we_oldval = oldval, we_val = v, we_next = next'\<rparr>"

definition addAddress :: "nat \<Rightarrow> nat \<Rightarrow> nat \<Rightarrow> u64 \<Rightarrow> u64 \<Rightarrow> WriteSetEntry hnode list \<Rightarrow> WriteSetEntry hnode list" where
  "addAddress tail lSize addr oldval v nds =
     log_insert we_addr hashAddress (ws_entry addr oldval v) tail (lSize mod MAXLOGSIZE) nds addr"

definition addAddrIfAbsent :: "nat \<Rightarrow> u64 \<Rightarrow> u64 \<Rightarrow> State \<Rightarrow> (bool \<times> State) option" where
  "addAddrIfAbsent addr oldval v st =
     (let lSize = st_lSize st; tail = st_logTail st; nds = st_log st
      in if lSize = 0 then
           Some (True, st\<lparr>st_log := addAddress tail lSize addr oldval v nds, st_lSize := lSize + 1\<rparr>)
         else
           (if lSize mod MAXLOGSIZE = 0
            then log_search we_addr we_next hashAddress 16 (\<lambda>i be. True) nds addr 0 (lSize div MAXLOGSIZE) tail
            else log_search we_addr we_next hashAddress 16 (\<lambda>i be. i \<noteq> 0 \<or> be < lSize mod MAXLOGSIZE)
                   nds addr 0 (lSize div MAXLOGSIZE + 1) tail) \<bind>
           (\<lambda>found. case found of
              Some (j, k) \<Rightarrow> Some (False, st\<lparr>st_log := log_modify (\<lambda>e. e\<lparr>we_val := v\<rparr>) j k nds\<rparr>)
            | None \<Rightarrow>
                let (nds', tail') = (if lSize mod MAXLOGSIZE = 0 then log_advance WriteSetNode_new nds tail else (nds, tail))
                in Some (True, st\<lparr>st_log := addAddress tail' lSize addr oldval v nds', st_logTail := tail',
                                  st_lSize := lSize + 1\<rparr>)))"

text \<open>
  The log as a list of (address, old value, new value), and what adding to it means: the last
  entry of the address among those of the last 16 nodes is changed, or a new one is added.
\<close>

type_synonym ws_view = "(nat \<times> u64 \<times> u64) list"

definition ws_ok :: "State \<Rightarrow> bool" where
  "ws_ok st \<longleftrightarrow> log_ok we_addr we_next hashAddress MAXLOGSIZE (st_log st) (st_logTail st) (st_lSize st)"

definition ws_view :: "State \<Rightarrow> ws_view" where
  "ws_view st = map (\<lambda>e. (we_addr e, we_oldval e, we_val e)) (log_entries MAXLOGSIZE (st_log st) (st_lSize st))"

definition view_find :: "nat \<Rightarrow> ws_view \<Rightarrow> nat option" where
  "view_find addr es =
     last_index (\<lambda>p. MAXLOGSIZE * ((length es - 1) div MAXLOGSIZE + 1 - 16) \<le> p \<and> fst (es ! p) = addr) (length es)"

definition view_add :: "nat \<Rightarrow> u64 \<Rightarrow> u64 \<Rightarrow> ws_view \<Rightarrow> bool \<times> ws_view" where
  "view_add addr oldval v es =
     (case view_find addr es of
        Some p \<Rightarrow> (False, es[p := (addr, fst (snd (es ! p)), v)])
      | None \<Rightarrow> (True, es @ [(addr, oldval, v)]))"

lemma length_ws_view [simp]: "length (ws_view st) = st_lSize st"
  by (simp add: ws_view_def log_entries_def)

lemma ws_view_nth: "p < st_lSize st \<Longrightarrow> ws_view st ! p =
    (we_addr (log_entry MAXLOGSIZE (st_log st) p), we_oldval (log_entry MAXLOGSIZE (st_log st) p), we_val (log_entry MAXLOGSIZE (st_log st) p))"
  by (simp add: ws_view_def log_entries_def)

lemma hashAddress_less [simp]: "hashAddress a < MAXLOGSIZE"
  by (simp add: hashAddress_def)

lemma ws_insert_ok:
  fixes addr oldval v
  assumes ok: "log_ok we_addr we_next hashAddress MAXLOGSIZE nds tj (st_lSize st)" "st_lSize st div MAXLOGSIZE = j" "j < length nds"
    and same: "log_entries MAXLOGSIZE nds (st_lSize st) = log_entries MAXLOGSIZE (st_log st) (st_lSize st)"
  defines "st' \<equiv> st\<lparr>st_log := addAddress j (st_lSize st) addr oldval v nds, st_logTail := j, st_lSize := st_lSize st + 1\<rparr>"
  shows "ws_ok st'" "ws_view st' = ws_view st @ [(addr, oldval, v)]"
proof -
  have "we_addr (ws_entry addr oldval v x) = addr" "we_next (ws_entry addr oldval v x) = x" for x
    by (simp_all add: ws_entry_def)
  note i = log_insert_ok [OF ok(1) ok(3) [folded ok(2)] this, unfolded ok(2)]
  show "ws_ok st'" using i(1) by (simp add: ws_ok_def st'_def addAddress_def)
  from i(2) same obtain x where
    "log_entries MAXLOGSIZE (addAddress j (st_lSize st) addr oldval v nds) (st_lSize st + 1)
       = log_entries MAXLOGSIZE (st_log st) (st_lSize st) @ [ws_entry addr oldval v x]"
    by (auto simp: addAddress_def)
  then show "ws_view st' = ws_view st @ [(addr, oldval, v)]"
    by (simp add: ws_view_def st'_def ws_entry_def)
qed

lemma ws_search_ok:
  assumes ok: "ws_ok st" and sz: "0 < st_lSize st"
  shows "(if st_lSize st mod MAXLOGSIZE = 0
          then log_search we_addr we_next hashAddress 16 (\<lambda>i be. True) (st_log st) addr 0 (st_lSize st div MAXLOGSIZE) (st_logTail st)
          else log_search we_addr we_next hashAddress 16 (\<lambda>i be. i \<noteq> 0 \<or> be < st_lSize st mod MAXLOGSIZE)
                 (st_log st) addr 0 (st_lSize st div MAXLOGSIZE + 1) (st_logTail st))
       = Some (map_option (\<lambda>p. (p div MAXLOGSIZE, p mod MAXLOGSIZE)) (view_find addr (ws_view st)))"
proof -
  let ?sz = "st_lSize st" and ?t = "st_logTail st"
  from ok have lok: "log_ok we_addr we_next hashAddress MAXLOGSIZE (st_log st) ?t ?sz" by (simp add: ws_ok_def)
  then have t: "?t = (?sz - 1) div MAXLOGSIZE" by (simp add: log_ok_def)
  have find: "view_find addr (ws_view st) =
     last_index (\<lambda>p. MAXLOGSIZE * (?t + 1 - 16) \<le> p \<and> we_addr (log_entry MAXLOGSIZE (st_log st) p) = addr) ?sz"
    unfolding view_find_def t length_ws_view by (intro last_index_cong) (simp add: ws_view_nth)
  show ?thesis unfolding find by (rule log_search_two [OF lok sz])
qed

lemma addAddrIfAbsent_ok:
  assumes ok: "ws_ok st"
  shows "\<exists>b nds' t' n'. addAddrIfAbsent addr oldval v st =
       Some (b, st\<lparr>st_log := nds', st_logTail := t', st_lSize := n'\<rparr>)
     \<and> ws_ok (st\<lparr>st_log := nds', st_logTail := t', st_lSize := n'\<rparr>)
     \<and> (b, ws_view (st\<lparr>st_log := nds', st_logTail := t', st_lSize := n'\<rparr>)) = view_add addr oldval v (ws_view st)"
proof -
  let ?sz = "st_lSize st" and ?t = "st_logTail st" and ?nds = "st_log st"
  from ok have lok: "log_ok we_addr we_next hashAddress MAXLOGSIZE ?nds ?t ?sz" by (simp add: ws_ok_def)
  then have t: "?t < length ?nds" "?t = (?sz - 1) div MAXLOGSIZE" by (auto simp: log_ok_def)
  show ?thesis
  proof (cases "?sz = 0")
    case True
    with t have "?t = 0" by simp
    with True have st: "st\<lparr>st_log := addAddress ?t ?sz addr oldval v ?nds, st_lSize := ?sz + 1\<rparr>
      = st\<lparr>st_log := addAddress 0 ?sz addr oldval v ?nds, st_logTail := 0, st_lSize := ?sz + 1\<rparr>" by (cases st) simp
    have run: "addAddrIfAbsent addr oldval v st = Some (True, st\<lparr>st_log := addAddress 0 ?sz addr oldval v ?nds, st_logTail := 0, st_lSize := ?sz + 1\<rparr>)"
      unfolding st [symmetric] using True by (simp add: addAddrIfAbsent_def)
    note i = ws_insert_ok [OF lok _ _ refl, of 0 addr oldval v]
    have "view_find addr (ws_view st) = None" using True by (simp add: view_find_def)
    with run i t \<open>?t = 0\<close> True show ?thesis
      by (intro exI [of _ True] exI [of _ "addAddress 0 ?sz addr oldval v ?nds"] exI [of _ 0] exI [of _ "?sz + 1"])
        (simp add: view_add_def)
  next
    case False
    then have sz: "0 < ?sz" by simp
    note s = ws_search_ok [OF ok sz, of addr]
    show ?thesis
    proof (cases "view_find addr (ws_view st)")
      case None
      obtain nds1 t1 where adv: "(if ?sz mod MAXLOGSIZE = 0 then log_advance WriteSetNode_new ?nds ?t else (?nds, ?t)) = (nds1, t1)"
        by fastforce
      have run: "addAddrIfAbsent addr oldval v st =
        Some (True, st\<lparr>st_log := addAddress t1 ?sz addr oldval v nds1, st_logTail := t1, st_lSize := ?sz + 1\<rparr>)"
        using False unfolding addAddrIfAbsent_def Let_def by (simp only: s None adv if_False) simp
      have "log_ok we_addr we_next hashAddress MAXLOGSIZE nds1 ?t ?sz \<and> ?sz div MAXLOGSIZE = t1 \<and> t1 < length nds1
        \<and> log_entries MAXLOGSIZE nds1 ?sz = log_entries MAXLOGSIZE ?nds ?sz"
      proof (cases "?sz mod MAXLOGSIZE = 0")
        case True
        from log_advance_ok [OF lok True sz, of _ nds1 t1] adv True show ?thesis
          unfolding WriteSetNode_new_def by simp
      next
        case False
        then have "?sz div MAXLOGSIZE = ?t" using t tail_part [of MAXLOGSIZE ?sz] by simp
        with adv False lok t show ?thesis by auto
      qed
      then have i: "log_ok we_addr we_next hashAddress MAXLOGSIZE nds1 ?t ?sz" "?sz div MAXLOGSIZE = t1" "t1 < length nds1"
        "log_entries MAXLOGSIZE nds1 ?sz = log_entries MAXLOGSIZE ?nds ?sz" by auto
      from ws_insert_ok [OF this, of addr oldval v] run None show ?thesis
        by (intro exI [of _ True] exI [of _ "addAddress t1 ?sz addr oldval v nds1"] exI [of _ t1] exI [of _ "?sz + 1"])
          (simp add: view_add_def)
    next
      case (Some p)
      then have p: "p < ?sz" by (simp add: view_find_def last_index_Some)
      let ?nds' = "log_modify (\<lambda>e. e\<lparr>we_val := v\<rparr>) (p div MAXLOGSIZE) (p mod MAXLOGSIZE) ?nds"
      have run: "addAddrIfAbsent addr oldval v st = Some (False, st\<lparr>st_log := ?nds', st_logTail := ?t, st_lSize := ?sz\<rparr>)"
        using False unfolding addAddrIfAbsent_def Let_def by (simp only: s Some if_False) simp
      have f: "we_addr (e\<lparr>we_val := v\<rparr>) = we_addr e" "we_next (e\<lparr>we_val := v\<rparr>) = we_next e" for e :: WriteSetEntry
        by simp_all
      note m = log_modify_ok [OF lok p, where f = "\<lambda>e. e\<lparr>we_val := v\<rparr>", OF f]
      have key: "fst (ws_view st ! p) = addr" using Some by (simp add: view_find_def last_index_Some)
      then have "we_addr (log_entries MAXLOGSIZE ?nds ?sz ! p) = addr" using p by (simp add: ws_view_def log_entries_def)
      then have "ws_view (st\<lparr>st_log := ?nds', st_logTail := ?t, st_lSize := ?sz\<rparr>) =
        (ws_view st)[p := (addr, fst (snd (ws_view st ! p)), v)]"
        using p m(2) by (simp add: ws_view_def map_update log_entries_def)
      with run m(1) Some show ?thesis
        by (intro exI [of _ False] exI [of _ ?nds'] exI [of _ ?t] exI [of _ ?sz]) (simp add: view_add_def ws_ok_def)
    qed
  qed
qed

subsection \<open>Rolling back and replaying a log\<close>

text \<open>Both write 8 bytes per entry, at an offset that selects the replica.\<close>

fun undo_loop :: "WriteSetEntry list \<Rightarrow> nat \<Rightarrow> nat \<Rightarrow> pm \<Rightarrow> pm" where
  "undo_loop log offset 0 m = m"
| "undo_loop log offset (Suc i) m =
     undo_loop log offset i (put_bytes 8 (we_addr (log ! i) + offset) (we_oldval (log ! i)) m)"

fun undo_nodes :: "WriteSetEntry hnode list \<Rightarrow> nat \<Rightarrow> nat \<Rightarrow> nat \<Rightarrow> pm \<Rightarrow> pm" where
  "undo_nodes nds offset 0 len m = undo_loop (hn_log (nds ! 0)) offset len m"
| "undo_nodes nds offset (Suc j) len m =
     undo_nodes nds offset j MAXLOGSIZE (undo_loop (hn_log (nds ! Suc j)) offset len m)"

definition apply_undolog :: "State \<Rightarrow> nat \<Rightarrow> pm \<Rightarrow> pm" where
  "apply_undolog st offset m =
     (let len = st_lSize st
      in if len > 0 then
           (let len' = len mod MAXLOGSIZE; len'' = (if len' = 0 then MAXLOGSIZE else len')
            in undo_nodes (st_log st) offset (st_logTail st) len'' m)
         else m)"

text \<open>The flag says that an address outside main ended the replay.\<close>

fun redo_loop :: "region \<Rightarrow> WriteSetEntry list \<Rightarrow> nat \<Rightarrow> pm \<Rightarrow> bool \<times> pm" where
  "redo_loop L [] offset m = (False, m)"
| "redo_loop L (e # es) offset m =
     (if \<not> ADDR_IS_IN_MAIN L (we_addr e) then (True, m)
      else redo_loop L es offset (put_bytes 8 (we_addr e + offset) (we_val e) m))"

fun redo_nodes :: "region \<Rightarrow> WriteSetEntry hnode list \<Rightarrow> nat \<Rightarrow> nat \<Rightarrow> nat \<Rightarrow> pm \<Rightarrow> pm option" where
  "redo_nodes L [] redoSize j offset m = None"
| "redo_nodes L (nd # nds) redoSize j offset m =
     (let len = (if redoSize - j < MAXLOGSIZE then redoSize mod MAXLOGSIZE else MAXLOGSIZE);
          (stop, m') = redo_loop L (take len (hn_log nd)) offset m
      in if stop \<or> j + len \<ge> redoSize then Some m' else redo_nodes L nds redoSize (j + len) offset m')"

definition copy_redolog :: "region \<Rightarrow> State \<Rightarrow> nat \<Rightarrow> nat \<Rightarrow> pm \<Rightarrow> pm option" where
  "copy_redolog L st redoSize offset m = redo_nodes L (st_log st) redoSize 0 offset m"

lemma undo_loop_fold:
  "n \<le> length log \<Longrightarrow> undo_loop log offset n m =
     fold (\<lambda>e. put_bytes 8 (we_addr e + offset) (we_oldval e)) (rev (take n log)) m"
  by (induction n arbitrary: m) (simp_all add: take_Suc_conv_app_nth)

text \<open>The entries of the nodes before j are full, those of node j up to len.\<close>

lemma undo_nodes_fold:
  assumes "\<forall>i\<le>j. length (hn_log (nds ! i)) = MAXLOGSIZE" "len \<le> MAXLOGSIZE"
  shows "undo_nodes nds offset j len m =
    fold (\<lambda>e. put_bytes 8 (we_addr e + offset) (we_oldval e)) (rev (log_entries MAXLOGSIZE nds (MAXLOGSIZE * j + len))) m"
  using assms
proof (induction j arbitrary: len m)
  case 0
  with log_entries_node [of MAXLOGSIZE len nds 0] show ?case by (simp add: undo_loop_fold log_entries_def [of _ _ 0])
next
  case (Suc j)
  from log_entries_node [of MAXLOGSIZE len nds "Suc j"] Suc show ?case by (simp add: undo_loop_fold add.commute)
qed

subsection \<open>Words of a replica\<close>

lemma cur_put_bytes:
  "pm_cur (put_bytes n a v m) l =
     (case l of LByte b \<Rightarrow> if a \<le> b \<and> b < a + n then take_bit 8 (drop_bit (8 * (b - a)) v) else pm_cur m l
      | _ \<Rightarrow> pm_cur m l)"
proof (induction n arbitrary: a v m)
  case 0 then show ?case by (auto split: pm_loc.split)
next
  case (Suc n)
  show ?case
  proof (cases l)
    case (LByte b)
    have "8 * (b - a) = 8 * (b - Suc a) + 8" if "a < b" using that by simp
    then show ?thesis using Suc LByte
      by (auto simp: pm_store_def drop_bit_drop_bit less_Suc_eq_le le_less)
  qed (insert Suc, simp_all add: pm_store_def)
qed

lemma get_bytes_cong:
  "(\<And>b. a \<le> b \<Longrightarrow> b < a + n \<Longrightarrow> pm_cur m (LByte b) = pm_cur m' (LByte b)) \<Longrightarrow> get_bytes n a m = get_bytes n a m'"
proof (induction n arbitrary: a)
  case (Suc n)
  have "get_bytes n (a + 1) m = get_bytes n (a + 1) m'" by (rule Suc.IH) (simp add: Suc.prems)
  then show ?case using Suc.prems [of a] by simp
qed simp

lemma get_put_other: "b + k \<le> a \<or> a + n \<le> b \<Longrightarrow> get_bytes k b (put_bytes n a v m) = get_bytes k b m"
  by (rule get_bytes_cong) (auto simp: cur_put_bytes)

lemma take_bit_split: "take_bit 8 v OR push_bit 8 (take_bit k (drop_bit 8 v)) = take_bit (k + 8) (v :: u64)"
  by (rule bit_word_eqI) (auto simp: bit_simps)

lemma get_put_same: "get_bytes n a (put_bytes n a v m) = take_bit (8 * n) v"
proof (induction n arbitrary: a v m)
  case (Suc n)
  have "pm_cur (put_bytes n (a + 1) (drop_bit 8 v) (pm_exec1 (St (LByte a) (take_bit 8 v)) m)) (LByte a) = take_bit 8 v"
    by (simp add: cur_put_bytes pm_store_def)
  then show ?case using Suc [of "a + 1" "drop_bit 8 v"] take_bit_split [of v "8 * n"]
    by (simp add: algebra_simps)
qed simp

lemma get_put_word [simp]: "get_bytes 8 a (put_bytes 8 a v m) = v"
proof -
  have "get_bytes 8 a (put_bytes 8 a v m) = take_bit 64 v" using get_put_same [of 8 a v m] by simp
  also have "\<dots> = v" by (rule bit_word_eqI) (simp add: bit_simps)
  finally show ?thesis .
qed

text \<open>Aligned words of main, read in the replica at an offset; other addresses do not matter.\<close>

definition paddr :: "region \<Rightarrow> nat \<Rightarrow> bool" where
  "paddr L a \<longleftrightarrow> ADDR_IS_IN_MAIN L a \<and> a mod 8 = 0"

definition replica :: "region \<Rightarrow> nat \<Rightarrow> pm \<Rightarrow> nat \<Rightarrow> u64" where
  "replica L offset m a = (if paddr L a then get_bytes 8 (a + offset) m else 0)"

lemma aligned_apart:
  assumes "a mod 8 = 0" "b mod 8 = 0" "a \<noteq> (b :: nat)" shows "a + 8 \<le> b \<or> b + 8 \<le> a"
  using assms by presburger

lemma replica_put:
  assumes "paddr L a" "offset mod 8 = 0"
  shows "replica L offset (put_bytes 8 (a + offset) v m) = (replica L offset m)(a := v)"
proof
  fix b
  show "replica L offset (put_bytes 8 (a + offset) v m) b = ((replica L offset m)(a := v)) b"
  proof (cases "paddr L b \<and> b \<noteq> a")
    case True
    then have "b + offset + 8 \<le> a + offset \<or> a + offset + 8 \<le> b + offset"
      using aligned_apart [of b a] assms by (auto simp: paddr_def)
    then show ?thesis using True get_put_other by (simp add: replica_def)
  next
    case False
    then show ?thesis using assms(1) by (cases "b = a") (simp_all add: replica_def)
  qed
qed

text \<open>Replica i is at offset i times the size of main.\<close>

definition region_ok :: "region \<Rightarrow> bool" where
  "region_ok L \<longleftrightarrow> g_main_addr L mod 64 = 0 \<and> g_main_size L mod 64 = 0 \<and> 0 < g_main_size L"

lemma region_offset: "region_ok L \<Longrightarrow> (i * g_main_size L) mod 8 = 0"
proof -
  assume "region_ok L"
  then have "g_main_size L mod 64 = 0" by (simp add: region_ok_def)
  then have "8 dvd g_main_size L" by presburger
  then have "8 dvd i * g_main_size L" by (rule dvd_mult)
  then show ?thesis by (simp add: dvd_eq_mod_eq_0)
qed

lemma replica_put_other:
  assumes L: "region_ok L" and a: "paddr L a" and ij: "i \<noteq> j"
  shows "replica L (i * g_main_size L) (put_bytes 8 (a + j * g_main_size L) v m) = replica L (i * g_main_size L) m"
proof
  fix b
  show "replica L (i * g_main_size L) (put_bytes 8 (a + j * g_main_size L) v m) b = replica L (i * g_main_size L) m b"
  proof (cases "paddr L b")
    case True
    let ?M = "g_main_addr L" and ?S = "g_main_size L"
    from a True obtain x y where xy: "a = ?M + x" "x < ?S" "b = ?M + y" "y < ?S"
      by (auto simp: paddr_def ADDR_IS_IN_MAIN_def dest!: le_Suc_ex)
    have ne: "b + i * ?S \<noteq> a + j * ?S"
    proof
      assume "b + i * ?S = a + j * ?S"
      then have "y + i * ?S = x + j * ?S" using xy by simp
      then have "(y + i * ?S) div ?S = (x + j * ?S) div ?S" by simp
      then show False using xy ij by simp
    qed
    have "(b + i * ?S) mod 8 = 0" "(a + j * ?S) mod 8 = 0"
      using True a region_offset [OF L, of i] region_offset [OF L, of j] by (auto simp: paddr_def mod_add_eq [symmetric])
    from aligned_apart [OF this ne] True show ?thesis by (simp add: replica_def get_put_other)
  qed (simp add: replica_def)
qed

subsection \<open>What a log says about two memories\<close>

text \<open>
  A log lies between the words before and after a transaction: the last new value of an address
  is its final word, the first old value its original one.
\<close>

definition olds :: "ws_view \<Rightarrow> (nat \<times> u64) list" where
  "olds es = map (\<lambda>(a, old, v). (a, old)) es"

definition news :: "ws_view \<Rightarrow> (nat \<times> u64) list" where
  "news es = map (\<lambda>(a, old, v). (a, v)) es"

definition override_words :: "(nat \<Rightarrow> u64) \<Rightarrow> (nat \<rightharpoonup> u64) \<Rightarrow> nat \<Rightarrow> u64" where
  "override_words W f a = (case f a of None \<Rightarrow> W a | Some v \<Rightarrow> v)"

definition log_between :: "ws_view \<Rightarrow> (nat \<Rightarrow> u64) \<Rightarrow> (nat \<Rightarrow> u64) \<Rightarrow> bool" where
  "log_between es W0 W \<longleftrightarrow> W = override_words W0 (map_of (rev (news es))) \<and>
     (\<forall>a old. map_of (olds es) a = Some old \<longrightarrow> old = W0 a)"

lemma fold_upd_override:
  "fold (\<lambda>(a, v) W. W(a := v)) xs W = override_words W (map_of (rev xs))"
  by (induction xs rule: rev_induct) (auto simp: override_words_def fun_eq_iff)

lemma log_between_empty: "log_between [] W W"
  by (simp add: log_between_def olds_def news_def override_words_def fun_eq_iff)

lemma log_between_undo:
  assumes "log_between es W0 W"
  shows "fold (\<lambda>(a, v) W. W(a := v)) (rev (olds es)) W = W0"
proof
  fix a
  have "set (map fst (news es)) = set (map fst (olds es))" by (auto simp: olds_def news_def image_image split_beta)
  then have dom: "map_of (rev (news es)) a = None \<longleftrightarrow> map_of (olds es) a = None" by (simp add: map_of_eq_None_iff)
  show "fold (\<lambda>(a, v) W. W(a := v)) (rev (olds es)) W a = W0 a"
    using assms dom by (auto simp: fold_upd_override log_between_def override_words_def split: option.splits)
qed

lemma log_between_redo: "log_between es W0 W \<Longrightarrow> fold (\<lambda>(a, v) W. W(a := v)) (news es) W0 = W"
  by (simp add: fold_upd_override log_between_def)

lemma view_find_Some:
  assumes "view_find addr es = Some p"
  shows "\<exists>ys old v zs. es = ys @ (addr, old, v) # zs \<and> length ys = p \<and> addr \<notin> fst ` set zs"
proof -
  let ?lo = "MAXLOGSIZE * ((length es - 1) div MAXLOGSIZE + 1 - 16)"
  from assms have p: "p < length es" "?lo \<le> p" "fst (es ! p) = addr" "\<forall>q<length es. p < q \<longrightarrow> \<not> (?lo \<le> q \<and> fst (es ! q) = addr)"
    by (auto simp: view_find_def last_index_Some)
  obtain a old v where e: "es ! p = (a, old, v)" by (cases "es ! p") auto
  have "addr \<notin> fst ` set (drop (Suc p) es)"
  proof
    assume "addr \<in> fst ` set (drop (Suc p) es)"
    then obtain i where i: "i < length es - Suc p" "fst (es ! (Suc p + i)) = addr" by (auto simp: in_set_conv_nth)
    then have "Suc p + i < length es" "p < Suc p + i" "?lo \<le> Suc p + i" using p(2) by linarith+
    then show False using p(4) i(2) by blast
  qed
  then show ?thesis using id_take_nth_drop [OF p(1)] e p(1,3)
    by (intro exI [of _ "take p es"] exI [of _ old] exI [of _ v] exI [of _ "drop (Suc p) es"]) simp
qed

lemma view_add_cases:
  obtains (found) ys old' v' zs where "es = ys @ (addr, old', v') # zs" "addr \<notin> fst ` set zs"
      "view_add addr oldval v es = (False, ys @ (addr, old', v) # zs)"
    | (absent) "view_add addr oldval v es = (True, es @ [(addr, oldval, v)])"
proof (cases "view_find addr es")
  case None with absent show ?thesis by (simp add: view_add_def)
next
  case (Some p)
  from view_find_Some [OF this] obtain ys old' v' zs where
    es: "es = ys @ (addr, old', v') # zs" "length ys = p" "addr \<notin> fst ` set zs" by blast
  show ?thesis by (rule found [OF es(1,3)]) (use Some es in \<open>simp add: view_add_def list_update_append nth_append\<close>)
qed

lemma view_add_between:
  assumes b: "log_between es W0 W"
  shows "log_between (snd (view_add addr (W addr) v es)) W0 (W(addr := v))"
proof (cases rule: view_add_cases [of es addr "W addr" v])
  case (found ys old' v' zs)
  then have "map_of (rev (news zs)) addr = None" by (auto simp: map_of_eq_None_iff news_def image_image split_beta)
  then have "override_words W0 (map_of (rev (news (ys @ (addr, old', v) # zs))))
    = (override_words W0 (map_of (rev (news es))))(addr := v)"
    by (auto simp: found(1) news_def override_words_def fun_eq_iff map_add_def split: option.split)
  moreover have "olds (ys @ (addr, old', v) # zs) = olds es" by (simp add: found(1) olds_def)
  ultimately show ?thesis using b unfolding found(3) snd_conv log_between_def by simp
next
  case absent
  have "override_words W0 (map_of (rev (news (es @ [(addr, W addr, v)])))) = (override_words W0 (map_of (rev (news es))))(addr := v)"
    by (auto simp: news_def override_words_def fun_eq_iff)
  moreover have "old = W0 a" if "map_of (olds (es @ [(addr, W addr, v)])) a = Some old" for a old
  proof (cases "map_of (olds es) a")
    case None
    then have *: "a = addr" "old = W addr" using that by (auto simp: olds_def map_add_def split: if_splits)
    have "set (map fst (news es)) = set (map fst (olds es))" by (auto simp: olds_def news_def image_image split_beta)
    then have "map_of (rev (news es)) addr = None" using None * by (simp add: map_of_eq_None_iff)
    then show ?thesis using b * by (simp add: log_between_def override_words_def)
  next
    case (Some x)
    then have "old = x" using that by (auto simp: olds_def map_add_def)
    then show ?thesis using b Some by (simp add: log_between_def)
  qed
  ultimately show ?thesis using b unfolding absent snd_conv log_between_def by simp
qed

lemma view_add_addrs: "fst ` set (snd (view_add addr old v es)) = insert addr (fst ` set es)"
proof (cases rule: view_add_cases [of es addr old v])
  case (found ys old' v' zs) then show ?thesis by auto
next
  case absent then show ?thesis by auto
qed

definition put_words :: "nat \<Rightarrow> (nat \<times> u64) list \<Rightarrow> pm \<Rightarrow> pm" where
  "put_words offset xs m = fold (\<lambda>(a, v). put_bytes 8 (a + offset) v) xs m"

lemma put_words_Nil [simp]: "put_words offset [] m = m"
  and put_words_Cons [simp]: "put_words offset ((a, v) # xs) m = put_words offset xs (put_bytes 8 (a + offset) v m)"
  by (simp_all add: put_words_def)

lemma replica_put_words:
  assumes "\<forall>a\<in>fst ` set xs. paddr L a" "offset mod 8 = 0"
  shows "replica L offset (put_words offset xs m) = fold (\<lambda>(a, v) W. W(a := v)) xs (replica L offset m)"
  using assms(1) by (induction xs arbitrary: m) (auto simp: replica_put assms(2))

lemma replica_put_words_other:
  assumes "\<forall>a\<in>fst ` set xs. paddr L a" "region_ok L" "i \<noteq> j"
  shows "replica L (i * g_main_size L) (put_words (j * g_main_size L) xs m) = replica L (i * g_main_size L) m"
  using assms(1) by (induction xs arbitrary: m) (auto simp: replica_put_other assms(2,3))

lemma log_node_lengths:
  assumes "log_ok key nxt hash B nds tj sz" "i \<le> tj" shows "length (hn_log (nds ! i)) = B"
  using assms by (auto simp: log_ok_def node_ok_def)

lemma apply_undolog_ok:
  assumes ok: "ws_ok st"
  shows "apply_undolog st offset m = put_words offset (rev (olds (ws_view st))) m"
proof (cases "st_lSize st = 0")
  case True then show ?thesis by (simp add: apply_undolog_def ws_view_def log_entries_def olds_def put_words_def)
next
  case False
  let ?sz = "st_lSize st" and ?t = "st_logTail st"
  define len where "len = (if ?sz mod MAXLOGSIZE = 0 then MAXLOGSIZE else ?sz mod MAXLOGSIZE)"
  from ok have lok: "log_ok we_addr we_next hashAddress MAXLOGSIZE (st_log st) ?t ?sz" by (simp add: ws_ok_def)
  then have t: "?t = (?sz - 1) div MAXLOGSIZE" by (simp add: log_ok_def)
  have sz: "MAXLOGSIZE * ?t + len = ?sz"
  proof (cases "?sz mod MAXLOGSIZE = 0")
    case True
    from tail_full [OF _ True] False t have "?sz div MAXLOGSIZE = ?t + 1" by simp
    with True mult_div_mod_eq [of MAXLOGSIZE ?sz] show ?thesis by (simp add: len_def)
  next
    case nz: False
    from tail_part [OF _ nz] t have "?sz div MAXLOGSIZE = ?t" by simp
    with nz mult_div_mod_eq [of MAXLOGSIZE ?sz] show ?thesis by (simp add: len_def)
  qed
  have "len \<le> MAXLOGSIZE" by (simp add: len_def)
  have "apply_undolog st offset m = undo_nodes (st_log st) offset ?t len m"
    using False by (simp add: apply_undolog_def Let_def len_def)
  also have "\<dots> = fold (\<lambda>e. put_bytes 8 (we_addr e + offset) (we_oldval e)) (rev (log_entries MAXLOGSIZE (st_log st) ?sz)) m"
    using undo_nodes_fold [of ?t "st_log st" len offset m] log_node_lengths [OF lok] \<open>len \<le> MAXLOGSIZE\<close> unfolding sz by simp
  also have "\<dots> = put_words offset (rev (olds (ws_view st))) m"
    by (simp add: put_words_def olds_def ws_view_def rev_map fold_map comp_def)
  finally show ?thesis .
qed

lemma redo_loop_ok:
  "\<forall>e\<in>set es. ADDR_IS_IN_MAIN L (we_addr e) \<Longrightarrow>
     redo_loop L es offset m = (False, put_words offset (map (\<lambda>e. (we_addr e, we_val e)) es) m)"
  by (induction es arbitrary: m) auto

lemma redo_nodes_ok:
  assumes "j = MAXLOGSIZE * q" "j < sz" "sz \<le> MAXLOGSIZE * length nds" "\<forall>i<length nds. length (hn_log (nds ! i)) = MAXLOGSIZE"
    "\<forall>p < sz. ADDR_IS_IN_MAIN L (we_addr (log_entry MAXLOGSIZE nds p))"
  shows "redo_nodes L (drop q nds) sz j offset m = Some (put_words offset
      (map (\<lambda>p. (we_addr (log_entry MAXLOGSIZE nds p), we_val (log_entry MAXLOGSIZE nds p))) [j..< sz]) m)"
  using assms
proof (induction "length nds - q" arbitrary: q j m)
  case 0
  then have "length nds \<le> q" by simp
  then have "MAXLOGSIZE * length nds \<le> MAXLOGSIZE * q" by (rule mult_le_mono2)
  with 0 show ?case by linarith
next
  case (Suc n)
  then have q: "q < length nds" by simp
  let ?len = "if sz - j < MAXLOGSIZE then sz mod MAXLOGSIZE else MAXLOGSIZE"
  have len: "?len = min MAXLOGSIZE (sz - j)"
  proof (cases "sz - j < MAXLOGSIZE")
    case True
    have "sz mod MAXLOGSIZE = (MAXLOGSIZE * q + (sz - j)) mod MAXLOGSIZE" using Suc.prems(1,2) by simp
    also have "\<dots> = sz - j" using True by simp
    finally show ?thesis using True by simp
  qed simp
  have ent: "log_entry MAXLOGSIZE nds (j + l) = hn_log (nds ! q) ! l" if "l < MAXLOGSIZE" for l
    using that Suc.prems(1) by (simp add: log_entry_def)
  have take: "take ?len (hn_log (nds ! q)) = map (log_entry MAXLOGSIZE nds) [j..<j + ?len]"
    using ent Suc.prems(4) q len by (intro nth_equalityI) auto
  have le: "j + ?len \<le> sz" using len Suc.prems(2) by simp
  have "redo_loop L (take ?len (hn_log (nds ! q))) offset m =
      (False, put_words offset (map (\<lambda>e. (we_addr e, we_val e)) (take ?len (hn_log (nds ! q)))) m)"
    using Suc.prems(5) le by (intro redo_loop_ok) (auto simp: take)
  then have step: "redo_loop L (take ?len (hn_log (nds ! q))) offset m =
      (False, put_words offset (map (\<lambda>p. (we_addr (log_entry MAXLOGSIZE nds p), we_val (log_entry MAXLOGSIZE nds p))) [j..<j + ?len]) m)"
    unfolding take by (simp add: comp_def)
  have drop: "drop q nds = nds ! q # drop (Suc q) nds" using q by (simp add: Cons_nth_drop_Suc)
  show ?case
  proof (cases "j + ?len \<ge> sz")
    case True
    then have "j + ?len = sz" using le by simp
    then show ?thesis using step True unfolding drop by (simp add: Let_def)
  next
    case False
    then have l: "?len = MAXLOGSIZE" using len Suc.prems(2) by (auto simp: min_def split: if_splits)
    have "redo_nodes L (drop (Suc q) nds) sz (j + MAXLOGSIZE) offset m' = Some (put_words offset
      (map (\<lambda>p. (we_addr (log_entry MAXLOGSIZE nds p), we_val (log_entry MAXLOGSIZE nds p))) [j + MAXLOGSIZE..< sz]) m')" for m'
    proof (rule Suc.hyps(1))
      show "n = length nds - Suc q" using Suc.hyps(2) by simp
      show "j + MAXLOGSIZE = MAXLOGSIZE * Suc q" using Suc.prems(1) by simp
      show "j + MAXLOGSIZE < sz" using False l by simp
    qed (use Suc.prems in auto)
    moreover have "[j..< sz] = [j..<j + MAXLOGSIZE] @ [j + MAXLOGSIZE..< sz]"
      using False l upt_add_eq_append [of j "j + MAXLOGSIZE" "sz - (j + MAXLOGSIZE)"] by simp
    ultimately show ?thesis using step False l unfolding drop by (simp add: Let_def put_words_def)
  qed
qed

lemma copy_redolog_ok:
  assumes ok: "ws_ok st" and sz: "0 < st_lSize st" and main: "\<forall>a\<in>fst ` set (ws_view st). ADDR_IS_IN_MAIN L a"
  shows "copy_redolog L st (st_lSize st) offset m = Some (put_words offset (news (ws_view st)) m)"
proof -
  from ok have lok: "log_ok we_addr we_next hashAddress MAXLOGSIZE (st_log st) (st_logTail st) (st_lSize st)" by (simp add: ws_ok_def)
  then have t: "st_logTail st < length (st_log st)" "st_logTail st = (st_lSize st - 1) div MAXLOGSIZE"
    "\<forall>i<length (st_log st). length (hn_log (st_log st ! i)) = MAXLOGSIZE" by (auto simp: log_ok_def node_ok_def)
  from log_tail_bounds(2) [OF _ t(2) sz] have "st_lSize st \<le> MAXLOGSIZE * (st_logTail st + 1)" by simp
  also have "\<dots> \<le> MAXLOGSIZE * length (st_log st)" using t(1) by (intro mult_le_mono2) simp
  finally have "st_lSize st \<le> MAXLOGSIZE * length (st_log st)" .
  from redo_nodes_ok [OF _ sz this t(3), of 0 L offset m] main show ?thesis
    by (simp add: copy_redolog_def ws_view_def news_def log_entries_def image_image comp_def)
qed

subsection \<open>Sets of cache lines\<close>

definition ADDR2CL :: "nat \<Rightarrow> nat" where
  "ADDR2CL addr = addr div 64 * 64"

definition hash_CL :: "nat \<Rightarrow> nat" where
  "hash_CL addr = addr div 64 mod HASH_BUCKETS"

definition cl_entry :: "nat \<Rightarrow> nat option \<Rightarrow> WriteSetCL" where
  "cl_entry cl next' = \<lparr>cl_addrCL = cl, cl_next = next'\<rparr>"

text \<open>
  The lines of one transaction. The flag is tlocal.copy: when the lines exceed three quarters of
  the used memory, the set is given up and the whole replica will be written back.
\<close>

definition addIfAbsent :: "nat \<Rightarrow> nat \<Rightarrow> State \<Rightarrow> bool \<Rightarrow> (State \<times> bool) option" where
  "addIfAbsent used addr st copy =
     (let cl = ADDR2CL addr; numCL = st_numCL st; tail = st_logTailCL st; nds = st_logCL st
      in if copy then Some (st, copy)
         else if numCL = 0 then
           Some (st\<lparr>st_logCL := log_insert cl_addrCL hash_CL (cl_entry cl) tail numCL nds cl, st_numCL := numCL + 1\<rparr>, copy)
         else if numCL + 1 > 3 * used div (64 * 4) then Some (st\<lparr>st_numCL := 0\<rparr>, True)
         else
           (if numCL mod HASH_BUCKETS = 0
            then log_search cl_addrCL cl_next hash_CL 16 (\<lambda>i be. True) nds cl 0 (numCL div HASH_BUCKETS) tail
            else log_search cl_addrCL cl_next hash_CL 16 (\<lambda>i be. i \<noteq> 0 \<or> be < numCL mod HASH_BUCKETS)
                   nds cl 0 (numCL div HASH_BUCKETS + 1) tail) \<bind>
           (\<lambda>found. case found of
              Some _ \<Rightarrow> Some (st, copy)
            | None \<Rightarrow>
                let (nds', tail') = (if numCL mod HASH_BUCKETS = 0 then log_advance WriteSetNodeCL_new nds tail else (nds, tail))
                in Some (st\<lparr>st_logCL := log_insert cl_addrCL hash_CL (cl_entry cl) tail' (numCL mod HASH_BUCKETS) nds' cl,
                            st_logTailCL := tail', st_numCL := numCL + 1\<rparr>, copy)))"

definition cl_ok :: "State \<Rightarrow> bool" where
  "cl_ok st \<longleftrightarrow> log_ok cl_addrCL cl_next hash_CL HASH_BUCKETS (st_logCL st) (st_logTailCL st) (st_numCL st)"

definition cl_lines :: "State \<Rightarrow> nat list" where
  "cl_lines st = map cl_addrCL (log_entries HASH_BUCKETS (st_logCL st) (st_numCL st))"

lemma addIfAbsent_ok [consumes 1, case_names added given_up]:
  assumes ok: "cl_ok st"
  obtains (added) nds' t' n' where "addIfAbsent used addr st False = Some (st\<lparr>st_logCL := nds', st_logTailCL := t', st_numCL := n'\<rparr>, False)"
      "cl_ok (st\<lparr>st_logCL := nds', st_logTailCL := t', st_numCL := n'\<rparr>)"
      "set (cl_lines (st\<lparr>st_logCL := nds', st_logTailCL := t', st_numCL := n'\<rparr>)) = insert (ADDR2CL addr) (set (cl_lines st))"
      "n' \<le> st_numCL st + 1"
    | (given_up) "addIfAbsent used addr st False = Some (st\<lparr>st_numCL := 0\<rparr>, True)"
proof -
  let ?sz = "st_numCL st" and ?t = "st_logTailCL st" and ?nds = "st_logCL st" and ?cl = "ADDR2CL addr"
  from ok have lok: "log_ok cl_addrCL cl_next hash_CL HASH_BUCKETS ?nds ?t ?sz" by (simp add: cl_ok_def)
  then have t: "?t = (?sz - 1) div HASH_BUCKETS" by (simp add: log_ok_def)
  have mk: "cl_addrCL (cl_entry ?cl x) = ?cl" "cl_next (cl_entry ?cl x) = x" for x by (simp_all add: cl_entry_def)
  obtain nds1 t1 where adv: "(if 0 < ?sz \<and> ?sz mod HASH_BUCKETS = 0
      then log_advance (log_fresh HASH_BUCKETS \<lparr>cl_addrCL = 0, cl_next = None\<rparr>) ?nds ?t else (?nds, ?t)) = (nds1, t1)" by fastforce
  let ?st' = "st\<lparr>st_logCL := log_insert cl_addrCL hash_CL (cl_entry ?cl) t1 (?sz mod HASH_BUCKETS) nds1 ?cl,
                 st_logTailCL := t1, st_numCL := ?sz + 1\<rparr>"
  note a = log_append_ok [OF lok mk adv]
  then obtain x where x: "log_entries HASH_BUCKETS (st_logCL ?st') (?sz + 1) = log_entries HASH_BUCKETS ?nds ?sz @ [cl_entry ?cl x]" by auto
  have ins: "cl_ok ?st'" "set (cl_lines ?st') = insert ?cl (set (cl_lines st))"
    using a(1) x by (simp_all add: cl_ok_def cl_lines_def mk)
  show ?thesis
  proof (cases "?sz = 0")
    case True
    then have t1: "t1 = ?t" "nds1 = ?nds" "?t = 0" using adv t by auto
    then have "addIfAbsent used addr st False = Some (?st', False)"
      using True by (cases st) (simp add: addIfAbsent_def Let_def)
    with ins show ?thesis by (intro added) auto
  next
    case False
    then have sz: "0 < ?sz" by simp
    show ?thesis
    proof (cases "?sz + 1 > 3 * used div (64 * 4)")
      case True
      then have "addIfAbsent used addr st False = Some (st\<lparr>st_numCL := 0\<rparr>, True)"
        using False unfolding addIfAbsent_def Let_def by (simp only: if_False if_True if_not_P [OF False])
      then show ?thesis by (rule given_up)
    next
      case small: False
      note s = log_search_two [OF lok sz, of 16 ?cl]
      let ?found = "last_index (\<lambda>p. HASH_BUCKETS * (?t + 1 - 16) \<le> p \<and> cl_addrCL (log_entry HASH_BUCKETS ?nds p) = ?cl) ?sz"
      show ?thesis
      proof (cases ?found)
        case None
        have "(if ?sz mod HASH_BUCKETS = 0 then log_advance WriteSetNodeCL_new ?nds ?t else (?nds, ?t)) = (nds1, t1)"
          using adv sz by (simp add: WriteSetNodeCL_new_def split: if_splits)
        then have "addIfAbsent used addr st False = Some (?st', False)"
          using small unfolding addIfAbsent_def Let_def by (simp only: s None if_False if_not_P [OF False]) simp
        with ins show ?thesis by (intro added) auto
      next
        case (Some p)
        then have "addIfAbsent used addr st False = Some (st\<lparr>st_logCL := ?nds, st_logTailCL := ?t, st_numCL := ?sz\<rparr>, False)"
          using small unfolding addIfAbsent_def Let_def by (simp only: s if_False if_not_P [OF False]) simp
        moreover have "?cl \<in> set (cl_lines st)" using Some by (force simp: cl_lines_def log_entries_def last_index_Some)
        ultimately show ?thesis using ok by (intro added [of ?sz ?t ?nds]) auto
      qed
    qed
  qed
qed

text \<open>The lines a replica still has to write back, gathered over several transactions.\<close>

abbreviation AGGR_BUCKETS :: nat where "AGGR_BUCKETS \<equiv> 1024"

record CLAggregate =
  ag_log :: "WriteSetCL hnode list"
  ag_tail :: nat
  ag_numCL :: nat

definition NodeCLAggr_new :: "WriteSetCL hnode" where
  "NodeCLAggr_new = log_fresh AGGR_BUCKETS \<lparr>cl_addrCL = 0, cl_next = None\<rparr>"

definition CLAggregate_new :: CLAggregate where
  "CLAggregate_new = \<lparr>ag_log = [NodeCLAggr_new], ag_tail = 0, ag_numCL = 0\<rparr>"

definition aggr_hash :: "nat \<Rightarrow> nat" where
  "aggr_hash addr = addr div 64 mod AGGR_BUCKETS"

definition aggr_addIfAbsent :: "nat \<Rightarrow> nat \<Rightarrow> CLAggregate \<Rightarrow> bool \<Rightarrow> (CLAggregate \<times> bool) option" where
  "aggr_addIfAbsent used cl ag copy =
     (let numCL = ag_numCL ag; tail = ag_tail ag; nds = ag_log ag; n = node_count AGGR_BUCKETS numCL;
          insert' = (\<lambda>tail' nds'. Some (ag\<lparr>ag_log := log_insert cl_addrCL aggr_hash (cl_entry cl) tail' (numCL mod AGGR_BUCKETS) nds' cl,
                                          ag_tail := tail', ag_numCL := numCL + 1\<rparr>, copy))
      in if numCL = 0 then insert' tail nds
         else if numCL + 1 > 3 * used div (64 * 4) then Some (ag\<lparr>ag_numCL := 0\<rparr>, True)
         else log_search cl_addrCL cl_next aggr_hash 32 (\<lambda>i be. i < n - 1 \<or> (i = n - 1 \<and> be < numCL mod AGGR_BUCKETS)) nds cl 0 n tail \<bind>
           (\<lambda>found. case found of
              Some _ \<Rightarrow> Some (ag, copy)
            | None \<Rightarrow>
                let (nds', tail') = (if numCL mod AGGR_BUCKETS = 0 then log_advance NodeCLAggr_new nds tail else (nds, tail))
                in insert' tail' nds'))"

fun aggr_addAll :: "nat \<Rightarrow> nat list \<Rightarrow> CLAggregate \<Rightarrow> bool \<Rightarrow> (CLAggregate \<times> bool) option" where
  "aggr_addAll used [] ag copy = Some (ag, copy)"
| "aggr_addAll used (cl # cls) ag copy =
     aggr_addIfAbsent used cl ag copy \<bind> (\<lambda>(ag', copy'). aggr_addAll used cls ag' copy')"

definition aggr_merge :: "nat \<Rightarrow> State \<Rightarrow> CLAggregate \<Rightarrow> bool \<Rightarrow> (CLAggregate \<times> bool) option" where
  "aggr_merge used st ag copy =
     (if st_numCL st = 0 then Some (ag, copy)
      else aggr_addAll used (map cl_addrCL (node_entries HASH_BUCKETS (st_logCL st) (st_numCL st))) ag copy)"

definition flushDeferredPWBs :: "CLAggregate \<Rightarrow> nat \<Rightarrow> pm_instr list" where
  "flushDeferredPWBs ag offset =
     (if ag_numCL ag = 0 then []
      else map (\<lambda>e. Pwb (LByte (cl_addrCL e + offset))) (node_entries AGGR_BUCKETS (ag_log ag) (ag_numCL ag)))"

definition aggr_reset :: "CLAggregate \<Rightarrow> CLAggregate" where
  "aggr_reset ag = ag\<lparr>ag_numCL := 0\<rparr>"

definition ag_ok :: "CLAggregate \<Rightarrow> bool" where
  "ag_ok ag \<longleftrightarrow> log_ok cl_addrCL cl_next aggr_hash AGGR_BUCKETS (ag_log ag) (ag_tail ag) (ag_numCL ag)"

definition ag_lines :: "CLAggregate \<Rightarrow> nat list" where
  "ag_lines ag = map cl_addrCL (log_entries AGGR_BUCKETS (ag_log ag) (ag_numCL ag))"

text \<open>
  While everything stays in the first node. The source tests the bucket of the first node, not
  of the tail, and resets the count but not the tail, so that it is right only there.
\<close>

lemma aggr_addIfAbsent_ok [consumes 2, case_names added given_up]:
  assumes ok: "ag_ok ag" and small: "ag_numCL ag < AGGR_BUCKETS"
  obtains (added) ag' where "aggr_addIfAbsent used cl ag copy = Some (ag', copy)" "ag_ok ag'"
      "set (ag_lines ag') = insert cl (set (ag_lines ag))" "ag_numCL ag' \<le> ag_numCL ag + 1"
    | (given_up) "aggr_addIfAbsent used cl ag copy = Some (ag\<lparr>ag_numCL := 0\<rparr>, True)" "ag_ok (ag\<lparr>ag_numCL := 0\<rparr>)"
proof -
  let ?sz = "ag_numCL ag" and ?t = "ag_tail ag" and ?nds = "ag_log ag"
  from ok have lok: "log_ok cl_addrCL cl_next aggr_hash AGGR_BUCKETS ?nds ?t ?sz" by (simp add: ag_ok_def)
  then have t: "?t = 0" using small by (simp add: log_ok_def)
  have mk: "cl_addrCL (cl_entry cl x) = cl" "cl_next (cl_entry cl x) = x" for x by (simp_all add: cl_entry_def)
  have m: "?sz mod AGGR_BUCKETS = ?sz" using small by simp
  let ?ag' = "ag\<lparr>ag_log := log_insert cl_addrCL aggr_hash (cl_entry cl) ?t ?sz ?nds cl, ag_tail := ?t, ag_numCL := ?sz + 1\<rparr>"
  have "(if 0 < ?sz \<and> ?sz mod AGGR_BUCKETS = 0 then log_advance (log_fresh AGGR_BUCKETS \<lparr>cl_addrCL = 0, cl_next = None\<rparr>) ?nds ?t
      else (?nds, ?t)) = (?nds, ?t)" using small by auto
  note a = log_append_ok [OF lok mk this, unfolded m]
  then obtain x where x: "log_entries AGGR_BUCKETS (ag_log ?ag') (?sz + 1) = log_entries AGGR_BUCKETS ?nds ?sz @ [cl_entry cl x]" by auto
  have ins: "ag_ok ?ag'" "set (ag_lines ?ag') = insert cl (set (ag_lines ag))"
    using a(1) x by (simp_all add: ag_ok_def ag_lines_def mk)
  show ?thesis
  proof (cases "?sz = 0")
    case True
    then have "aggr_addIfAbsent used cl ag copy = Some (?ag', copy)" by (simp add: aggr_addIfAbsent_def Let_def)
    with ins show ?thesis by (intro added) auto
  next
    case False
    then have sz: "0 < ?sz" by simp
    show ?thesis
    proof (cases "?sz + 1 > 3 * used div (64 * 4)")
      case True
      then have "aggr_addIfAbsent used cl ag copy = Some (ag\<lparr>ag_numCL := 0\<rparr>, True)"
        using False unfolding aggr_addIfAbsent_def Let_def by (simp only: if_False if_True if_not_P [OF False])
      moreover have "ag_ok (ag\<lparr>ag_numCL := 0\<rparr>)" using log_reset_ok [OF lok] t by (simp add: ag_ok_def)
      ultimately show ?thesis by (rule given_up)
    next
      case fits: False
      let ?n = "node_count AGGR_BUCKETS ?sz"
      let ?found = "last_index (\<lambda>p. AGGR_BUCKETS * (?t + 1 - 32) \<le> p \<and> cl_addrCL (log_entry AGGR_BUCKETS ?nds p) = cl) ?sz"
      have n: "?n = 1" using small sz by (simp add: node_count_def)
      have s: "log_search cl_addrCL cl_next aggr_hash 32 (\<lambda>i be. i < ?n - 1 \<or> (i = ?n - 1 \<and> be < ?sz mod AGGR_BUCKETS)) ?nds cl 0 ?n ?t
        = Some (map_option (\<lambda>p. (p div AGGR_BUCKETS, p mod AGGR_BUCKETS)) ?found)"
        by (intro log_search_ok [OF lok sz]) (use n m t small in auto)
      show ?thesis
      proof (cases ?found)
        case None
        then have "aggr_addIfAbsent used cl ag copy = Some (?ag', copy)"
          using fits unfolding aggr_addIfAbsent_def Let_def by (simp only: s None if_not_P [OF False] if_False) (simp add: small False)
        with ins show ?thesis by (intro added) auto
      next
        case (Some p)
        then have "aggr_addIfAbsent used cl ag copy = Some (ag, copy)"
          using fits unfolding aggr_addIfAbsent_def Let_def by (simp only: s if_not_P [OF False] if_False) simp
        moreover have "cl \<in> set (ag_lines ag)" using Some by (force simp: ag_lines_def log_entries_def last_index_Some)
        ultimately show ?thesis using ok by (intro added) auto
      qed
    qed
  qed
qed

lemma aggr_addAll_ok:
  assumes "ag_ok ag" "ag_numCL ag + length cls \<le> AGGR_BUCKETS"
  shows "\<exists>ag' copy'. aggr_addAll used cls ag copy = Some (ag', copy') \<and> ag_ok ag' \<and> ag_numCL ag' \<le> ag_numCL ag + length cls
    \<and> (copy \<longrightarrow> copy') \<and> (\<not> copy' \<longrightarrow> set (ag_lines ag') = set (ag_lines ag) \<union> set cls)"
  using assms
proof (induction cls arbitrary: ag copy)
  case Nil then show ?case by simp
next
  case (Cons cl cls)
  then have small: "ag_numCL ag < AGGR_BUCKETS" by simp
  from Cons.prems(1) small show ?case
  proof (cases rule: aggr_addIfAbsent_ok [of ag used cl copy])
    case (added ag1)
    from Cons.IH [OF added(2), of copy] Cons.prems(2) added(4) obtain ag' copy' where
      "aggr_addAll used cls ag1 copy = Some (ag', copy')" "ag_ok ag'" "ag_numCL ag' \<le> ag_numCL ag1 + length cls"
      "copy \<longrightarrow> copy'" "\<not> copy' \<longrightarrow> set (ag_lines ag') = set (ag_lines ag1) \<union> set cls" by auto
    with added show ?thesis by auto
  next
    case given_up
    from Cons.IH [OF given_up(2), of True] Cons.prems(2) obtain ag' where
      "aggr_addAll used cls (ag\<lparr>ag_numCL := 0\<rparr>) True = Some (ag', True)" "ag_ok ag'" "ag_numCL ag' \<le> length cls" by auto
    with given_up show ?thesis by auto
  qed
qed

lemma aggr_merge_ok:
  assumes ag: "ag_ok ag" "ag_numCL ag + st_numCL st \<le> AGGR_BUCKETS" and st: "cl_ok st"
  obtains ag' copy' where "aggr_merge used st ag copy = Some (ag', copy')" "ag_ok ag'" "ag_numCL ag' \<le> ag_numCL ag + st_numCL st"
    "copy \<Longrightarrow> copy'" "\<not> copy' \<Longrightarrow> set (ag_lines ag') = set (ag_lines ag) \<union> set (cl_lines st)"
proof (cases "st_numCL st = 0")
  case True
  then show ?thesis using that [of ag copy] ag by (simp add: aggr_merge_def cl_lines_def log_entries_def)
next
  case False
  from st have lok: "log_ok cl_addrCL cl_next hash_CL HASH_BUCKETS (st_logCL st) (st_logTailCL st) (st_numCL st)"
    by (simp add: cl_ok_def)
  then have "node_entries HASH_BUCKETS (st_logCL st) (st_numCL st) = log_entries HASH_BUCKETS (st_logCL st) (st_numCL st)"
    using False by (intro node_entries_ok) (auto simp: log_ok_def node_ok_def)
  then have m: "aggr_merge used st ag copy = aggr_addAll used (cl_lines st) ag copy"
    using False by (simp add: aggr_merge_def cl_lines_def)
  have "length (cl_lines st) = st_numCL st" by (simp add: cl_lines_def log_entries_def)
  with aggr_addAll_ok [OF ag(1), of "cl_lines st" used copy] ag(2) that show ?thesis unfolding m by auto
qed

lemma flushDeferredPWBs_ok:
  assumes "ag_ok ag" shows "flushDeferredPWBs ag offset = map (\<lambda>l. Pwb (LByte (l + offset))) (ag_lines ag)"
proof (cases "ag_numCL ag = 0")
  case False
  then have "node_entries AGGR_BUCKETS (ag_log ag) (ag_numCL ag) = log_entries AGGR_BUCKETS (ag_log ag) (ag_numCL ag)"
    using assms by (intro node_entries_ok) (auto simp: ag_ok_def log_ok_def node_ok_def)
  then show ?thesis using False by (simp add: flushDeferredPWBs_def ag_lines_def comp_def)
qed (simp add: flushDeferredPWBs_def ag_lines_def log_entries_def)

subsection \<open>Interposed loads and stores\<close>

text \<open>The thread-local variables of a running transaction.\<close>

record varLocal =
  tl_st :: State
  tl_cx_size :: nat
  tl_copy :: bool

text \<open>
  Objects of n bytes (persist of a type of that size; a value is its bytes, zero-extended). An
  address in main is redirected to the replica of the transaction.
\<close>

definition pload :: "region \<Rightarrow> nat \<Rightarrow> nat \<Rightarrow> nat \<Rightarrow> pm \<Rightarrow> u64" where
  "pload L cx_size n valaddr m =
     (if cx_size \<noteq> 0 \<and> ADDR_IS_IN_MAIN L valaddr then get_bytes n (valaddr + cx_size) m else get_bytes n valaddr m)"

text \<open>The allocator keeps the top of its pool in the first word of main (theory EsLoco).\<close>

definition used_size :: "region \<Rightarrow> nat \<Rightarrow> pm \<Rightarrow> nat" where
  "used_size L cx_size m = unat (pload L cx_size 8 (g_main_addr L) m - of_nat (g_main_addr L))"

definition pstore_log :: "nat \<Rightarrow> u64 \<Rightarrow> u64 \<Rightarrow> State \<Rightarrow> (bool \<times> State) option" where
  "pstore_log addr oldval newVal st =
     (if oldval \<noteq> newVal then addAddrIfAbsent addr oldval newVal st \<bind> (\<lambda>(new, st'). Some (\<not> new, st')) else Some (False, st))"

definition pstore :: "region \<Rightarrow> nat \<Rightarrow> nat \<Rightarrow> u64 \<Rightarrow> varLocal \<times> pm \<Rightarrow> (varLocal \<times> pm) option" where
  "pstore L n valaddr newVal = (\<lambda>(tv, m).
     let offset = tl_cx_size tv; copy = tl_copy tv
     in if offset \<noteq> 0 \<and> ADDR_IS_IN_MAIN L valaddr then
          (let oldval = get_bytes n (valaddr + offset) m in
           pstore_log valaddr oldval newVal (tl_st tv) \<bind> (\<lambda>(sameAddr, st).
           let m' = (if oldval \<noteq> newVal then put_bytes n (valaddr + offset) newVal m else m) in
           if \<not> copy \<and> \<not> sameAddr
           then addIfAbsent (used_size L offset m') valaddr st (tl_copy tv) \<bind>
                  (\<lambda>(st', copy'). Some (tv\<lparr>tl_st := st', tl_copy := copy'\<rparr>, m'))
           else Some (tv\<lparr>tl_st := st\<rparr>, m')))
        else if ADDR_IS_IN_REGION L valaddr then
          (let oldval = get_bytes n valaddr m in
           pstore_log (valaddr - offset) oldval newVal (tl_st tv) \<bind> (\<lambda>(sameAddr, st).
           let m' = (if oldval \<noteq> newVal then put_bytes n valaddr newVal m else m) in
           if \<not> copy \<and> \<not> sameAddr
           then addIfAbsent (used_size L offset m') (valaddr - offset) st (tl_copy tv) \<bind>
                  (\<lambda>(st', copy'). Some (tv\<lparr>tl_st := st', tl_copy := copy'\<rparr>, m'))
           else Some (tv\<lparr>tl_st := st\<rparr>, m')))
        else Some (tv, put_bytes n valaddr newVal m))"

text \<open>The body of a transaction: a lambda that loads and stores persistent objects.\<close>

datatype tx = Ret u64 | Load nat nat "u64 \<Rightarrow> tx" | Store nat nat u64 tx

primrec tx_run :: "region \<Rightarrow> tx \<Rightarrow> varLocal \<times> pm \<Rightarrow> (u64 \<times> varLocal \<times> pm) option" where
  "tx_run L (Ret r) s = Some (r, s)"
| "tx_run L (Load n a k) s = tx_run L (k (pload L (tl_cx_size (fst s)) n a (snd s))) s"
| "tx_run L (Store n a v t) s = pstore L n a v s \<bind> tx_run L t"

text \<open>What it means on the words of one heap.\<close>

primrec tx_spec :: "tx \<Rightarrow> (nat \<Rightarrow> u64) \<Rightarrow> u64 \<times> (nat \<Rightarrow> u64)" where
  "tx_spec (Ret r) W = (r, W)"
| "tx_spec (Load n a k) W = tx_spec (k (W a)) W"
| "tx_spec (Store n a v t) W = tx_spec t (W(a := v))"

text \<open>It uses aligned 8-byte objects of main.\<close>

primrec tx_ok :: "region \<Rightarrow> tx \<Rightarrow> bool" where
  "tx_ok L (Ret r) \<longleftrightarrow> True"
| "tx_ok L (Load n a k) \<longleftrightarrow> n = 8 \<and> paddr L a \<and> (\<forall>v. tx_ok L (k v))"
| "tx_ok L (Store n a v t) \<longleftrightarrow> n = 8 \<and> paddr L a \<and> tx_ok L t"

text \<open>The log of a state is emptied before a transaction.\<close>

definition st_reset :: "State \<Rightarrow> State" where
  "st_reset st = st\<lparr>st_logTail := 0, st_lSize := 0, st_numCL := 0, st_logTailCL := 0\<rparr>"

definition st_shape :: "State \<Rightarrow> bool" where
  "st_shape st \<longleftrightarrow> ws_ok (st_reset st) \<and> cl_ok (st_reset st)"

lemma ws_ok_reset: "ws_ok st \<Longrightarrow> ws_ok (st_reset st)"
  by (auto simp: ws_ok_def st_reset_def dest: log_reset_ok)

lemma cl_ok_reset: "cl_ok st \<Longrightarrow> cl_ok (st_reset st)"
  by (auto simp: cl_ok_def st_reset_def dest: log_reset_ok)

definition tx_inv :: "region \<Rightarrow> nat \<Rightarrow> varLocal \<Rightarrow> (nat \<Rightarrow> u64) \<Rightarrow> pm \<Rightarrow> bool" where
  "tx_inv L i tv W0 m \<longleftrightarrow> tl_cx_size tv = i * g_main_size L \<and> ws_ok (tl_st tv)
     \<and> log_between (ws_view (tl_st tv)) W0 (replica L (i * g_main_size L) m)
     \<and> (\<forall>a\<in>fst ` set (ws_view (tl_st tv)). paddr L a)
     \<and> st_shape (tl_st tv)
     \<and> (\<not> tl_copy tv \<longrightarrow> cl_ok (tl_st tv) \<and> (\<forall>a\<in>fst ` set (ws_view (tl_st tv)). ADDR2CL a \<in> set (cl_lines (tl_st tv))))"

definition st_frame :: "State \<Rightarrow> State \<Rightarrow> bool" where
  "st_frame st st' \<longleftrightarrow> st_ticket st' = st_ticket st \<and> st_applied st' = st_applied st \<and> st_results st' = st_results st
     \<and> st_logSize st' = st_logSize st"

lemma st_frame_trans: "st_frame a b \<Longrightarrow> st_frame b c \<Longrightarrow> st_frame a c"
  by (simp add: st_frame_def)

lemma st_frame_refl [simp]: "st_frame a a"
  by (simp add: st_frame_def)

lemma pstore_in_main:
  assumes i: "tl_cx_size tv = i * g_main_size L" "i < MAX_COMBINEDS" and a: "paddr L a"
  shows "pstore L 8 a v (tv, m) =
     (let offset = i * g_main_size L; oldval = replica L offset m a in
      pstore_log a oldval v (tl_st tv) \<bind> (\<lambda>(sameAddr, st).
      let m' = (if oldval \<noteq> v then put_bytes 8 (a + offset) v m else m) in
      if \<not> tl_copy tv \<and> \<not> sameAddr
      then addIfAbsent (used_size L offset m') a st (tl_copy tv) \<bind>
             (\<lambda>(st', copy'). Some (tv\<lparr>tl_st := st', tl_copy := copy'\<rparr>, m'))
      else Some (tv\<lparr>tl_st := st\<rparr>, m')))"
proof -
  define off where "off = i * g_main_size L"
  have cx: "tl_cx_size tv = off" using i by (simp add: off_def)
  have main: "ADDR_IS_IN_MAIN L a" using a by (simp add: paddr_def)
  then have reg: "ADDR_IS_IN_REGION L a" by (auto simp: ADDR_IS_IN_MAIN_def ADDR_IS_IN_REGION_def)
  have old: "replica L off m a = get_bytes 8 (a + off) m" using a by (simp add: replica_def)
  show ?thesis unfolding off_def [symmetric] pstore_def prod.case Let_def cx old
    by (cases "off = 0") (simp_all only: main reg simp_thms if_True if_False add_0_right diff_zero)
qed

lemma pstore_ok:
  assumes L: "region_ok L" and i: "i < MAX_COMBINEDS" and a: "paddr L a" and inv: "tx_inv L i tv W0 m"
  shows "\<exists>tv' m'. pstore L 8 a v (tv, m) = Some (tv', m') \<and> tx_inv L i tv' W0 m'
    \<and> replica L (i * g_main_size L) m' = (replica L (i * g_main_size L) m)(a := v)
    \<and> m' = (if replica L (i * g_main_size L) m a = v then m else put_bytes 8 (a + i * g_main_size L) v m)
    \<and> (tl_copy tv \<longrightarrow> tl_copy tv') \<and> st_frame (tl_st tv) (tl_st tv')
    \<and> fst ` set (ws_view (tl_st tv')) = (if replica L (i * g_main_size L) m a = v then {} else {a}) \<union> fst ` set (ws_view (tl_st tv))"
proof -
  let ?off = "i * g_main_size L" and ?st = "tl_st tv"
  let ?old = "replica L ?off m a"
  define m' where "m' = (if ?old = v then m else put_bytes 8 (a + ?off) v m)"
  from inv have cx: "tl_cx_size tv = ?off" and ws: "ws_ok ?st" and btw: "log_between (ws_view ?st) W0 (replica L ?off m)"
    and ad: "\<forall>a\<in>fst ` set (ws_view ?st). paddr L a"
    and shape: "cl_ok (st_reset ?st)"
    and cl: "\<not> tl_copy tv \<Longrightarrow> cl_ok ?st \<and> (\<forall>a\<in>fst ` set (ws_view ?st). ADDR2CL a \<in> set (cl_lines ?st))"
    by (auto simp: tx_inv_def st_shape_def)
  have rep: "replica L ?off m' = (replica L ?off m)(a := v)"
    using replica_put [OF a region_offset [OF L]] by (auto simp: m'_def)
  have "\<exists>same nds' t' n'. pstore_log a ?old v ?st = Some (same, ?st\<lparr>st_log := nds', st_logTail := t', st_lSize := n'\<rparr>)
    \<and> ws_ok (?st\<lparr>st_log := nds', st_logTail := t', st_lSize := n'\<rparr>)
    \<and> log_between (ws_view (?st\<lparr>st_log := nds', st_logTail := t', st_lSize := n'\<rparr>)) W0 ((replica L ?off m)(a := v))
    \<and> fst ` set (ws_view (?st\<lparr>st_log := nds', st_logTail := t', st_lSize := n'\<rparr>))
        = (if ?old = v then {} else {a}) \<union> fst ` set (ws_view ?st)
    \<and> (same \<longrightarrow> a \<in> fst ` set (ws_view ?st))"
  proof (cases "?old = v")
    case True
    have "?st = ?st\<lparr>st_log := st_log ?st, st_logTail := st_logTail ?st, st_lSize := st_lSize ?st\<rparr>" by simp
    moreover have "(replica L ?off m)(a := v) = replica L ?off m" using True by auto
    ultimately show ?thesis using True ws btw
      by (intro exI [of _ False] exI [of _ "st_log ?st"] exI [of _ "st_logTail ?st"] exI [of _ "st_lSize ?st"])
        (auto simp: pstore_log_def)
  next
    case False
    from addAddrIfAbsent_ok [OF ws, of a ?old v] obtain b nds' t' n' where
      add: "addAddrIfAbsent a ?old v ?st = Some (b, ?st\<lparr>st_log := nds', st_logTail := t', st_lSize := n'\<rparr>)"
      "ws_ok (?st\<lparr>st_log := nds', st_logTail := t', st_lSize := n'\<rparr>)"
      "(b, ws_view (?st\<lparr>st_log := nds', st_logTail := t', st_lSize := n'\<rparr>)) = view_add a ?old v (ws_view ?st)" by blast
    have vw: "ws_view (?st\<lparr>st_log := nds', st_logTail := t', st_lSize := n'\<rparr>) = snd (view_add a ?old v (ws_view ?st))"
      and b: "b = fst (view_add a ?old v (ws_view ?st))"
      using add(3) by (metis snd_conv, metis fst_conv)
    have "\<not> b \<longrightarrow> a \<in> fst ` set (ws_view ?st)"
      unfolding b by (cases rule: view_add_cases [of "ws_view ?st" a ?old v]) auto
    then show ?thesis using False add(1,2) view_add_between [OF btw, of a v] view_add_addrs [of a ?old v "ws_view ?st"]
      unfolding pstore_log_def
      by (intro exI [of _ "\<not> b"] exI [of _ nds'] exI [of _ t'] exI [of _ n']) (simp add: vw)
  qed
  then obtain same nds' t' n' where
    p: "pstore_log a ?old v ?st = Some (same, ?st\<lparr>st_log := nds', st_logTail := t', st_lSize := n'\<rparr>)"
    "ws_ok (?st\<lparr>st_log := nds', st_logTail := t', st_lSize := n'\<rparr>)"
    "log_between (ws_view (?st\<lparr>st_log := nds', st_logTail := t', st_lSize := n'\<rparr>)) W0 (replica L ?off m')"
    "fst ` set (ws_view (?st\<lparr>st_log := nds', st_logTail := t', st_lSize := n'\<rparr>))
        = (if ?old = v then {} else {a}) \<union> fst ` set (ws_view ?st)"
    "same \<Longrightarrow> a \<in> fst ` set (ws_view ?st)"
    unfolding rep by blast
  let ?st1 = "?st\<lparr>st_log := nds', st_logTail := t', st_lSize := n'\<rparr>"
  have ad1: "\<forall>a\<in>fst ` set (ws_view ?st1). paddr L a" using p(4) ad a by (auto split: if_splits)
  have cl1: "cl_ok ?st1 \<longleftrightarrow> cl_ok ?st" "cl_lines ?st1 = cl_lines ?st" by (simp_all add: cl_ok_def cl_lines_def)
  have shape1: "st_shape ?st1" using shape ws_ok_reset [OF p(2)] by (simp add: st_shape_def cl_ok_def st_reset_def)
  have m'': "(if ?old \<noteq> v then put_bytes 8 (a + ?off) v m else m) = m'" by (simp add: m'_def)
  note run = pstore_in_main [OF cx i a, of v m, unfolded Let_def p(1) bind.bind_lunit prod.case m'']
  have frame1: "st_frame ?st ?st1" by (simp add: st_frame_def)
  show ?thesis
  proof (cases "\<not> tl_copy tv \<and> \<not> same")
    case False
    have "pstore L 8 a v (tv, m) = Some (tv\<lparr>tl_st := ?st1\<rparr>, m')" using run unfolding if_not_P [OF False] .
    moreover have "cl_ok ?st1 \<and> (\<forall>a\<in>fst ` set (ws_view ?st1). ADDR2CL a \<in> set (cl_lines ?st1))" if c: "\<not> tl_copy tv"
      using p(4,5) cl [OF c] False c unfolding cl1 by (auto split: if_splits)
    then have "tx_inv L i (tv\<lparr>tl_st := ?st1\<rparr>) W0 m'"
      using cx p(2,3) ad1 shape1 by (simp add: tx_inv_def)
    ultimately show ?thesis using rep m'_def frame1 p(4) by (intro exI [of _ "tv\<lparr>tl_st := ?st1\<rparr>"] exI [of _ m']) simp
  next
    case True
    then have copy: "\<not> tl_copy tv" by simp
    from cl [OF copy] have "cl_ok ?st1" by (simp add: cl1)
    then show ?thesis
    proof (cases rule: addIfAbsent_ok [of ?st1 "used_size L ?off m'" a])
      case (added cnds' ct' cn')
      let ?st2 = "?st1\<lparr>st_logCL := cnds', st_logTailCL := ct', st_numCL := cn'\<rparr>"
      have run': "pstore L 8 a v (tv, m) = Some (tv\<lparr>tl_st := ?st2, tl_copy := False\<rparr>, m')"
        using run True added(1) by simp
      have same: "ws_ok ?st2 = ws_ok ?st1" "ws_view ?st2 = ws_view ?st1" by (simp_all add: ws_ok_def ws_view_def)
      have "\<forall>a\<in>fst ` set (ws_view ?st1). ADDR2CL a \<in> set (cl_lines ?st2)"
        using p(4) cl [OF copy] added(3) unfolding cl1 by (auto split: if_splits)
      then have "tx_inv L i (tv\<lparr>tl_st := ?st2, tl_copy := False\<rparr>) W0 m'"
        using cx p(2,3) ad1 added(2) ws_ok_reset [of ?st2] cl_ok_reset [OF added(2)] unfolding tx_inv_def by (simp add: same st_shape_def)
      moreover have "st_frame ?st ?st2" by (simp add: st_frame_def)
      ultimately show ?thesis using rep m'_def run' copy p(4)
        by (intro exI [of _ "tv\<lparr>tl_st := ?st2, tl_copy := False\<rparr>"] exI [of _ m']) (simp add: same)
    next
      case given_up
      let ?st2 = "?st1\<lparr>st_numCL := 0\<rparr>"
      have run': "pstore L 8 a v (tv, m) = Some (tv\<lparr>tl_st := ?st2, tl_copy := True\<rparr>, m')"
        using run True given_up by simp
      have same: "ws_ok ?st2 = ws_ok ?st1" "ws_view ?st2 = ws_view ?st1" by (simp_all add: ws_ok_def ws_view_def)
      have "tx_inv L i (tv\<lparr>tl_st := ?st2, tl_copy := True\<rparr>) W0 m'"
        using cx p(2,3) ad1 shape1 unfolding tx_inv_def by (simp add: same st_shape_def st_reset_def ws_ok_def cl_ok_def)
      moreover have "st_frame ?st ?st2" by (simp add: st_frame_def)
      ultimately show ?thesis using rep m'_def run' p(4)
        by (intro exI [of _ "tv\<lparr>tl_st := ?st2, tl_copy := True\<rparr>"] exI [of _ m']) (simp add: same)
    qed
  qed
qed


lemma tx_run_ok:
  assumes "region_ok L" "i < MAX_COMBINEDS" "tx_ok L t" "tx_inv L i tv W0 m"
  shows "\<exists>r tv' xs. tx_run L t (tv, m) = Some (r, tv', put_words (i * g_main_size L) xs m)
    \<and> tx_inv L i tv' W0 (put_words (i * g_main_size L) xs m)
    \<and> (r, replica L (i * g_main_size L) (put_words (i * g_main_size L) xs m)) = tx_spec t (replica L (i * g_main_size L) m)
    \<and> fst ` set xs \<subseteq> fst ` set (ws_view (tl_st tv')) \<and> fst ` set (ws_view (tl_st tv)) \<subseteq> fst ` set (ws_view (tl_st tv'))
    \<and> (tl_copy tv \<longrightarrow> tl_copy tv') \<and> st_frame (tl_st tv) (tl_st tv')"
  using assms(3,4)
proof (induction t arbitrary: tv m)
  case (Ret r)
  then show ?case by (intro exI [of _ r] exI [of _ tv] exI [of _ "[]"]) simp
next
  case (Load n a k)
  have "pload L (tl_cx_size tv) 8 a m = replica L (i * g_main_size L) m a"
    using Load.prems by (auto simp: pload_def replica_def tx_inv_def paddr_def)
  with Load.IH [OF rangeI _ Load.prems(2)] Load.prems(1) show ?case by simp
next
  case (Store n a v t)
  let ?off = "i * g_main_size L"
  from Store.prems(1) have a: "n = 8" "paddr L a" "tx_ok L t" by auto
  from pstore_ok [OF assms(1,2) a(2) Store.prems(2), of v] obtain tv1 m1 where
    p: "pstore L 8 a v (tv, m) = Some (tv1, m1)" "tx_inv L i tv1 W0 m1"
    "replica L ?off m1 = (replica L ?off m)(a := v)"
    "m1 = (if replica L ?off m a = v then m else put_bytes 8 (a + ?off) v m)"
    "tl_copy tv \<longrightarrow> tl_copy tv1" "st_frame (tl_st tv) (tl_st tv1)"
    "fst ` set (ws_view (tl_st tv1)) = (if replica L ?off m a = v then {} else {a}) \<union> fst ` set (ws_view (tl_st tv))" by auto
  from Store.IH [OF a(3) p(2)] obtain r tv' xs where
    t: "tx_run L t (tv1, m1) = Some (r, tv', put_words ?off xs m1)" "tx_inv L i tv' W0 (put_words ?off xs m1)"
    "(r, replica L ?off (put_words ?off xs m1)) = tx_spec t (replica L ?off m1)"
    "fst ` set xs \<subseteq> fst ` set (ws_view (tl_st tv'))" "fst ` set (ws_view (tl_st tv1)) \<subseteq> fst ` set (ws_view (tl_st tv'))"
    "tl_copy tv1 \<longrightarrow> tl_copy tv'" "st_frame (tl_st tv1) (tl_st tv')" by blast
  let ?xs = "(if replica L ?off m a = v then [] else [(a, v)]) @ xs"
  have m1: "put_words ?off xs m1 = put_words ?off ?xs m" by (simp add: p(4))
  have "fst ` set ?xs \<subseteq> fst ` set (ws_view (tl_st tv'))" using t(4,5) p(7) by auto
  then show ?case using p t a(1) st_frame_trans [OF p(6) t(7)] unfolding m1
    by (intro exI [of _ r] exI [of _ tv'] exI [of _ ?xs]) auto
qed

subsection \<open>Properties\<close>

lemma hash_CL_less [simp]: "hash_CL a < HASH_BUCKETS"
  by (simp add: hash_CL_def)

lemma aggr_hash_less [simp]: "aggr_hash a < AGGR_BUCKETS"
  by (simp add: aggr_hash_def)

lemma State_new_shape: "st_shape State_new"
  by (simp add: log_init_ok st_shape_def ws_ok_def cl_ok_def st_reset_def State_new_def WriteSetNode_new_def WriteSetNodeCL_new_def)

lemma CLAggregate_new_ok: "ag_ok CLAggregate_new" "ag_lines CLAggregate_new = []"
  by (simp_all add: log_init_ok ag_ok_def ag_lines_def CLAggregate_new_def NodeCLAggr_new_def log_entries_def)

lemma st_shape_reset: "st_shape (st_reset st) = st_shape st"
  by (simp add: st_shape_def st_reset_def)

lemma ws_view_reset [simp]: "ws_view (st_reset st) = []"
  by (simp add: ws_view_def st_reset_def log_entries_def)

lemma tx_start:
  assumes "st_shape st"
  shows "tx_inv L i \<lparr>tl_st = st_reset st, tl_cx_size = i * g_main_size L, tl_copy = c\<rparr> (replica L (i * g_main_size L) m) m"
  using assms log_between_empty by (simp add: tx_inv_def st_shape_reset) (simp add: st_shape_def)

lemma olds_addrs: "fst ` set (olds es) = fst ` set es" and news_addrs: "fst ` set (news es) = fst ` set es"
  by (force simp: olds_def news_def image_image split_beta)+

lemma tx_inv_addrs: "tx_inv L i tv W0 m \<Longrightarrow> \<forall>a\<in>fst ` set (ws_view (tl_st tv)). paddr L a"
  by (simp add: tx_inv_def)

text \<open>Rolling back the log of a transaction that ran to the end.\<close>

lemma tx_inv_undo:
  assumes L: "region_ok L" and inv: "tx_inv L i tv W0 m"
  shows "replica L (i * g_main_size L) (apply_undolog (tl_st tv) (i * g_main_size L) m) = W0"
    "j \<noteq> i \<Longrightarrow> replica L (j * g_main_size L) (apply_undolog (tl_st tv) (i * g_main_size L) m) = replica L (j * g_main_size L) m"
proof -
  let ?es = "ws_view (tl_st tv)"
  from inv have ok: "ws_ok (tl_st tv)" and b: "log_between ?es W0 (replica L (i * g_main_size L) m)"
    and ad: "\<forall>a\<in>fst ` set (rev (olds ?es)). paddr L a" by (auto simp: tx_inv_def olds_addrs)
  note u = apply_undolog_ok [OF ok]
  show "replica L (i * g_main_size L) (apply_undolog (tl_st tv) (i * g_main_size L) m) = W0"
    unfolding u replica_put_words [OF ad region_offset [OF L]] by (rule log_between_undo [OF b])
  show "replica L (j * g_main_size L) (apply_undolog (tl_st tv) (i * g_main_size L) m) = replica L (j * g_main_size L) m" if "j \<noteq> i"
    unfolding u by (rule replica_put_words_other [OF ad L that])
qed

lemma tx_inv_redo:
  assumes L: "region_ok L" and inv: "tx_inv L i tv W0 m" and sz: "0 < st_lSize (tl_st tv)"
  shows "\<exists>m2. copy_redolog L (tl_st tv) (st_lSize (tl_st tv)) (j * g_main_size L) m1 = Some m2
    \<and> (replica L (j * g_main_size L) m1 = W0 \<longrightarrow> replica L (j * g_main_size L) m2 = replica L (i * g_main_size L) m)
    \<and> (\<forall>k. k \<noteq> j \<longrightarrow> replica L (k * g_main_size L) m2 = replica L (k * g_main_size L) m1)
    \<and> m2 = put_words (j * g_main_size L) (news (ws_view (tl_st tv))) m1"
proof -
  let ?es = "ws_view (tl_st tv)"
  from inv have ok: "ws_ok (tl_st tv)" and b: "log_between ?es W0 (replica L (i * g_main_size L) m)"
    and ad: "\<forall>a\<in>fst ` set (news ?es). paddr L a" by (auto simp: tx_inv_def news_addrs)
  then have "\<forall>a\<in>fst ` set ?es. ADDR_IS_IN_MAIN L a" by (auto simp: news_addrs paddr_def)
  note r = copy_redolog_ok [OF ok sz this, of "j * g_main_size L" m1]
  show ?thesis unfolding r
    using replica_put_words [OF ad region_offset [OF L], of j m1] log_between_redo [OF b] replica_put_words_other [OF ad L, of _ j m1]
    by auto
qed

text \<open>
  C14: a transaction body runs on its replica as it would on a plain heap of words, whatever
  earlier transactions left in the buckets and nodes of its log, and apply\_undolog then takes
  every replica back to exactly the words it had.
\<close>

theorem undo_restores_replicas:
  assumes "region_ok L" "i < MAX_COMBINEDS" "tx_ok L t" "st_shape st"
  shows "\<exists>r tv m'. tx_run L t (\<lparr>tl_st = st_reset st, tl_cx_size = i * g_main_size L, tl_copy = c\<rparr>, m) = Some (r, tv, m')
    \<and> (r, replica L (i * g_main_size L) m') = tx_spec t (replica L (i * g_main_size L) m)
    \<and> (\<forall>j. replica L (j * g_main_size L) (apply_undolog (tl_st tv) (i * g_main_size L) m') = replica L (j * g_main_size L) m)"
proof -
  let ?off = "i * g_main_size L"
  from tx_run_ok [OF assms(1-3) tx_start [OF assms(4), of L i c m]] obtain r tv xs where
    t: "tx_run L t (\<lparr>tl_st = st_reset st, tl_cx_size = ?off, tl_copy = c\<rparr>, m) = Some (r, tv, put_words ?off xs m)"
    "tx_inv L i tv (replica L ?off m) (put_words ?off xs m)"
    "(r, replica L ?off (put_words ?off xs m)) = tx_spec t (replica L ?off m)" "fst ` set xs \<subseteq> fst ` set (ws_view (tl_st tv))" by blast
  have "\<forall>a\<in>fst ` set xs. paddr L a" using t(4) tx_inv_addrs [OF t(2)] by blast
  from replica_put_words_other [OF this assms(1)] tx_inv_undo [OF assms(1) t(2)]
  have "replica L (j * g_main_size L) (apply_undolog (tl_st tv) ?off (put_words ?off xs m)) = replica L (j * g_main_size L) m" for j
    by (cases "j = i") auto
  with t show ?thesis by blast
qed

definition ex_region :: region where
  "ex_region = \<lparr>g_main_addr = 1024, g_main_size = 1024\<rparr>"

definition ex_tx :: tx where
  "ex_tx = Load 8 1088 (\<lambda>x. Store 8 1088 (x + 1) (Store 8 1096 7 (Ret x)))"

lemma ex_region_ok: "region_ok ex_region" "tx_ok ex_region ex_tx"
  by (simp_all add: region_ok_def ex_region_def ex_tx_def paddr_def ADDR_IS_IN_MAIN_def)

theorem undo_restores_replicas_witness:
  "\<exists>r tv m'. tx_run ex_region ex_tx (\<lparr>tl_st = st_reset State_new, tl_cx_size = 3 * g_main_size ex_region, tl_copy = False\<rparr>,
       pm_boot (\<lambda>_. 5)) = Some (r, tv, m')
    \<and> (r, replica ex_region (3 * g_main_size ex_region) m') = tx_spec ex_tx (replica ex_region (3 * g_main_size ex_region) (pm_boot (\<lambda>_. 5)))
    \<and> (\<forall>j. replica ex_region (j * g_main_size ex_region) (apply_undolog (tl_st tv) (3 * g_main_size ex_region) m')
          = replica ex_region (j * g_main_size ex_region) (pm_boot (\<lambda>_. 5)))"
  by (rule undo_restores_replicas [OF ex_region_ok(1) _ ex_region_ok(2) State_new_shape]) simp

text \<open>
  C15: replaying the log of a transaction (copy\_redolog) on any replica that has the words the
  transaction started from gives that replica the words the transaction ended with, and
  touches no other replica; a transaction without log entries changed nothing.
\<close>

theorem redo_reproduces_transaction:
  assumes "region_ok L" "i < MAX_COMBINEDS" "tx_ok L t" "st_shape st"
    "replica L (j * g_main_size L) m1 = replica L (i * g_main_size L) m"
  shows "\<exists>r tv m'. tx_run L t (\<lparr>tl_st = st_reset st, tl_cx_size = i * g_main_size L, tl_copy = c\<rparr>, m) = Some (r, tv, m')
    \<and> (if st_lSize (tl_st tv) = 0 then snd (tx_spec t (replica L (i * g_main_size L) m)) = replica L (i * g_main_size L) m
       else \<exists>m2. copy_redolog L (tl_st tv) (st_lSize (tl_st tv)) (j * g_main_size L) m1 = Some m2
         \<and> (\<lambda>k. replica L (k * g_main_size L) m2)
             = (\<lambda>k. replica L (k * g_main_size L) m1)(j := snd (tx_spec t (replica L (i * g_main_size L) m))))"
proof -
  let ?off = "i * g_main_size L"
  from tx_run_ok [OF assms(1-3) tx_start [OF assms(4), of L i c m]] obtain r tv xs where
    t: "tx_run L t (\<lparr>tl_st = st_reset st, tl_cx_size = ?off, tl_copy = c\<rparr>, m) = Some (r, tv, put_words ?off xs m)"
    "tx_inv L i tv (replica L ?off m) (put_words ?off xs m)"
    "(r, replica L ?off (put_words ?off xs m)) = tx_spec t (replica L ?off m)" "fst ` set xs \<subseteq> fst ` set (ws_view (tl_st tv))" by blast
  from t(3) have fin: "snd (tx_spec t (replica L ?off m)) = replica L ?off (put_words ?off xs m)" by (metis snd_conv)
  show ?thesis
  proof (cases "st_lSize (tl_st tv) = 0")
    case True
    then have "ws_view (tl_st tv) = []" using length_ws_view [of "tl_st tv"] by (metis length_0_conv)
    then have "xs = []" using t(4) by simp
    then show ?thesis using t(1) True fin by (intro exI [of _ r] exI [of _ tv] exI [of _ "put_words ?off xs m"]) simp
  next
    case False
    with tx_inv_redo [OF assms(1) t(2), of j m1] assms(5) obtain m2 where
      m2: "copy_redolog L (tl_st tv) (st_lSize (tl_st tv)) (j * g_main_size L) m1 = Some m2"
      "replica L (j * g_main_size L) m2 = snd (tx_spec t (replica L ?off m))"
      "\<And>k. k \<noteq> j \<Longrightarrow> replica L (k * g_main_size L) m2 = replica L (k * g_main_size L) m1" unfolding fin by auto
    then have "(\<lambda>k. replica L (k * g_main_size L) m2) = (\<lambda>k. replica L (k * g_main_size L) m1)(j := snd (tx_spec t (replica L ?off m)))"
      by (simp add: fun_eq_iff)
    with t(1) m2(1) False show ?thesis by (intro exI [of _ r] exI [of _ tv] exI [of _ "put_words ?off xs m"]) simp
  qed
qed

lemma boot_bytes: "get_bytes n a (pm_boot (\<lambda>_. c)) = get_bytes n b (pm_boot (\<lambda>_. c))"
proof (induction n arbitrary: a b)
  case (Suc n)
  from Suc [of "a + 1" "b + 1"] show ?case by (simp add: pm_boot_def)
qed simp

lemma boot_replicas_equal: "replica L a (pm_boot (\<lambda>_. c)) = replica L b (pm_boot (\<lambda>_. c))"
  using boot_bytes by (auto simp: replica_def fun_eq_iff)

theorem redo_reproduces_transaction_witness:
  "\<exists>r tv m'. tx_run ex_region ex_tx (\<lparr>tl_st = st_reset State_new, tl_cx_size = 3 * g_main_size ex_region, tl_copy = False\<rparr>,
       pm_boot (\<lambda>_. 5)) = Some (r, tv, m')
    \<and> (if st_lSize (tl_st tv) = 0 then snd (tx_spec ex_tx (replica ex_region (3 * g_main_size ex_region) (pm_boot (\<lambda>_. 5))))
            = replica ex_region (3 * g_main_size ex_region) (pm_boot (\<lambda>_. 5))
       else \<exists>m2. copy_redolog ex_region (tl_st tv) (st_lSize (tl_st tv)) (2 * g_main_size ex_region) (pm_boot (\<lambda>_. 5)) = Some m2
         \<and> (\<lambda>k. replica ex_region (k * g_main_size ex_region) m2)
             = (\<lambda>k. replica ex_region (k * g_main_size ex_region) (pm_boot (\<lambda>_. 5)))
                 (2 := snd (tx_spec ex_tx (replica ex_region (3 * g_main_size ex_region) (pm_boot (\<lambda>_. 5))))))"
  by (rule redo_reproduces_transaction [OF ex_region_ok(1) _ ex_region_ok(2) State_new_shape]) (simp, rule boot_replicas_equal)

lemma view_add_distinct:
  assumes "distinct (map fst es)" "length es \<le> 4096"
  shows "distinct (map fst (snd (view_add addr old v es))) \<and> (fst (view_add addr old v es) \<longleftrightarrow> addr \<notin> fst ` set es)"
proof -
  have "(length es - 1) div MAXLOGSIZE + 1 \<le> 16" using assms(2) by (simp add: Suc_le_eq less_mult_imp_div_less)
  then have find: "view_find addr es = last_index (\<lambda>p. fst (es ! p) = addr) (length es)" by (simp add: view_find_def)
  show ?thesis
  proof (cases "view_find addr es")
    case None
    then have "addr \<notin> fst ` set es" unfolding find last_index_None by (force simp: in_set_conv_nth)
    then show ?thesis using None assms(1) by (auto simp: view_add_def)
  next
    case (Some p)
    from view_find_Some [OF Some] obtain ys old' v' zs where "es = ys @ (addr, old', v') # zs" "length ys = p" by blast
    then show ?thesis using Some assms(1) by (simp add: view_add_def list_update_append)
  qed
qed

text \<open>
  C16: the hashed log is the plain list of its entries: adding a store changes the value of the
  last entry of its address, or appends one, and says which. With at most 4096 entries no
  address is logged twice; a longer log is only searched through its last 16 nodes.
\<close>

theorem addAddrIfAbsent_is_list_update:
  assumes "ws_ok st"
  shows "\<exists>b st'. addAddrIfAbsent addr oldval v st = Some (b, st') \<and> ws_ok st'
    \<and> (b, ws_view st') = view_add addr oldval v (ws_view st)
    \<and> (if distinct (map fst (ws_view st)) \<and> st_lSize st \<le> 4096
       then distinct (map fst (ws_view st')) \<and> (b \<longleftrightarrow> addr \<notin> fst ` set (ws_view st)) else True)"
proof -
  from addAddrIfAbsent_ok [OF assms, of addr oldval v] obtain b nds' t' n' where
    *: "addAddrIfAbsent addr oldval v st = Some (b, st\<lparr>st_log := nds', st_logTail := t', st_lSize := n'\<rparr>)"
    "ws_ok (st\<lparr>st_log := nds', st_logTail := t', st_lSize := n'\<rparr>)"
    "(b, ws_view (st\<lparr>st_log := nds', st_logTail := t', st_lSize := n'\<rparr>)) = view_add addr oldval v (ws_view st)" by blast
  have "distinct (map fst es') \<and> (b \<longleftrightarrow> addr \<notin> fst ` set es)"
    if "distinct (map fst es)" "length es \<le> 4096" "(b, es') = view_add addr oldval v es" for es es'
    using view_add_distinct [of es addr oldval v] that by (metis fst_conv snd_conv)
  with * show ?thesis by (intro exI [of _ b] exI conjI) auto
qed


lemma State_new_ok: "ws_ok State_new"
  by (simp add: ws_ok_def State_new_def WriteSetNode_new_def log_init_ok)

theorem addAddrIfAbsent_is_list_update_witness:
  "\<exists>b st'. addAddrIfAbsent 1088 5 6 State_new = Some (b, st') \<and> ws_ok st'
    \<and> (b, ws_view st') = view_add 1088 5 6 (ws_view State_new)
    \<and> (if distinct (map fst (ws_view State_new)) \<and> st_lSize State_new \<le> 4096
       then distinct (map fst (ws_view st')) \<and> (b \<longleftrightarrow> 1088 \<notin> fst ` set (ws_view State_new)) else True)"
  by (rule addAddrIfAbsent_is_list_update [OF State_new_ok])

text \<open>A fresh line is appended to an aggregate, also where it starts its second node.\<close>

lemma aggr_append:
  assumes ok: "ag_ok ag" and sz: "ag_numCL ag \<le> AGGR_BUCKETS" and fresh: "cl \<notin> set (ag_lines ag)"
    and used: "3 * used div (64 * 4) \<ge> ag_numCL ag + 1"
  shows "\<exists>ag'. aggr_addIfAbsent used cl ag copy = Some (ag', copy) \<and> ag_ok ag'
    \<and> ag_numCL ag' = ag_numCL ag + 1 \<and> ag_lines ag' = ag_lines ag @ [cl]"
proof -
  let ?sz = "ag_numCL ag" and ?t = "ag_tail ag" and ?nds = "ag_log ag"
  from ok have lok: "log_ok cl_addrCL cl_next aggr_hash AGGR_BUCKETS ?nds ?t ?sz" by (simp add: ag_ok_def)
  then have t: "?t = 0" using sz by (simp add: log_ok_def)
  have mk: "cl_addrCL (cl_entry cl x) = cl" "cl_next (cl_entry cl x) = x" for x by (simp_all add: cl_entry_def)
  obtain nds1 t1 where adv: "(if 0 < ?sz \<and> ?sz mod AGGR_BUCKETS = 0
      then log_advance (log_fresh AGGR_BUCKETS \<lparr>cl_addrCL = 0, cl_next = None\<rparr>) ?nds ?t else (?nds, ?t)) = (nds1, t1)" by fastforce
  let ?ag' = "ag\<lparr>ag_log := log_insert cl_addrCL aggr_hash (cl_entry cl) t1 (?sz mod AGGR_BUCKETS) nds1 cl,
                 ag_tail := t1, ag_numCL := ?sz + 1\<rparr>"
  note a = log_append_ok [OF lok mk adv]
  then obtain x where x: "log_entries AGGR_BUCKETS (ag_log ?ag') (?sz + 1) = log_entries AGGR_BUCKETS ?nds ?sz @ [cl_entry cl x]" by auto
  have ins: "ag_ok ?ag'" "ag_lines ?ag' = ag_lines ag @ [cl]"
    using a(1) x by (simp_all add: ag_ok_def ag_lines_def mk)
  have "aggr_addIfAbsent used cl ag copy = Some (?ag', copy)"
  proof (cases "?sz = 0")
    case True
    then have "t1 = ?t" "nds1 = ?nds" using adv by auto
    then show ?thesis using True by (simp add: aggr_addIfAbsent_def Let_def)
  next
    case False
    then have pos: "0 < ?sz" by simp
    let ?n = "node_count AGGR_BUCKETS ?sz"
    let ?live = "\<lambda>i be. i < ?n - 1 \<or> (i = ?n - 1 \<and> be < ?sz mod AGGR_BUCKETS)"
    have n: "?n = 1" using sz pos by (cases "?sz = AGGR_BUCKETS") (auto simp: node_count_def)
    have s: "log_search cl_addrCL cl_next aggr_hash 32 ?live ?nds cl 0 ?n ?t = Some None"
    proof (cases "?sz = AGGR_BUCKETS")
      case True
      then show ?thesis unfolding n by (simp add: Let_def)
    next
      case False
      then have m: "?sz mod AGGR_BUCKETS = ?sz" "?sz < AGGR_BUCKETS" using sz by auto
      have "last_index (\<lambda>p. AGGR_BUCKETS * (?t + 1 - 32) \<le> p \<and> cl_addrCL (log_entry AGGR_BUCKETS ?nds p) = cl) ?sz = None"
        using fresh by (force simp: last_index_None ag_lines_def log_entries_def)
      moreover have "log_search cl_addrCL cl_next aggr_hash 32 ?live ?nds cl 0 ?n ?t
        = Some (map_option (\<lambda>p. (p div AGGR_BUCKETS, p mod AGGR_BUCKETS))
            (last_index (\<lambda>p. AGGR_BUCKETS * (?t + 1 - 32) \<le> p \<and> cl_addrCL (log_entry AGGR_BUCKETS ?nds p) = cl) ?sz))"
        by (intro log_search_ok [OF lok pos]) (use n m t in auto)
      ultimately show ?thesis by simp
    qed
    have adv': "(if ?sz mod AGGR_BUCKETS = 0 then log_advance NodeCLAggr_new ?nds ?t else (?nds, ?t)) = (nds1, t1)"
      using adv pos by (simp add: NodeCLAggr_new_def split: if_splits)
    have fits: "\<not> 3 * used div (64 * 4) < ?sz + 1" using used by simp
    show ?thesis unfolding aggr_addIfAbsent_def Let_def
      by (simp only: s if_not_P [OF False] if_not_P [OF fits] adv' bind.bind_lunit option.case prod.case)
  qed
  with ins show ?thesis by (intro exI [of _ ?ag']) simp
qed

lemma aggr_append_all:
  assumes "ag_ok ag" "ag_numCL ag + length cls \<le> AGGR_BUCKETS + 1" "distinct (ag_lines ag @ cls)"
    "3 * used div (64 * 4) \<ge> ag_numCL ag + length cls"
  shows "\<exists>ag'. aggr_addAll used cls ag copy = Some (ag', copy) \<and> ag_ok ag'
    \<and> ag_numCL ag' = ag_numCL ag + length cls \<and> ag_lines ag' = ag_lines ag @ cls"
  using assms
proof (induction cls arbitrary: ag)
  case (Cons cl cls)
  then have "ag_numCL ag \<le> AGGR_BUCKETS" "cl \<notin> set (ag_lines ag)" "3 * used div (64 * 4) \<ge> ag_numCL ag + 1" by auto
  from aggr_append [OF Cons.prems(1) this, of copy] obtain ag1 where
    1: "aggr_addIfAbsent used cl ag copy = Some (ag1, copy)" "ag_ok ag1" "ag_numCL ag1 = ag_numCL ag + 1" "ag_lines ag1 = ag_lines ag @ [cl]" by blast
  from Cons.IH [OF 1(2)] Cons.prems(2-4) 1 show ?case by auto
qed simp

text \<open>
  C17: CLAggregate::reset sets the count to 0 but leaves the tail at the node it had reached, while
  flushDeferredPWBs starts from the first node. Once a replica has gathered 1025 lines, the
  next transaction writes back an old line instead of its own.
\<close>

theorem aggregate_forgets_lines_after_reset:
  assumes "87467 \<le> used"
  shows "\<exists>ag1 ag2. aggr_addAll used (map (\<lambda>k. 64 * k) [0..<1025]) CLAggregate_new False = Some (ag1, False)
    \<and> aggr_addIfAbsent used 131072 (aggr_reset ag1) False = Some (ag2, False)
    \<and> flushDeferredPWBs ag2 offset = [Pwb (LByte offset)]"
proof -
  have inj: "distinct (map (\<lambda>k. 64 * k :: nat) [0..<1025])" by (simp add: distinct_map inj_on_def)
  have n0: "ag_numCL CLAggregate_new = 0" by (simp add: CLAggregate_new_def)
  have u: "1025 \<le> 3 * used div (64 * 4)" using assms by (simp add: less_eq_div_iff_mult_less_eq)
  from aggr_append_all [OF CLAggregate_new_ok(1), of "map (\<lambda>k. 64 * k) [0..<1025]" used False] inj u
  obtain ag1 where a: "aggr_addAll used (map (\<lambda>k. 64 * k) [0..<1025]) CLAggregate_new False = Some (ag1, False)"
    "ag_ok ag1" "ag_numCL ag1 = 1025" "ag_lines ag1 = map (\<lambda>k. 64 * k) [0..<1025]"
    by (auto simp: CLAggregate_new_ok n0)
  from a(2,3) have lok: "log_ok cl_addrCL cl_next aggr_hash AGGR_BUCKETS (ag_log ag1) (ag_tail ag1) 1025" by (simp add: ag_ok_def)
  then have t: "ag_tail ag1 = 1" "1 < length (ag_log ag1)" "length (hn_log (ag_log ag1 ! 0)) = AGGR_BUCKETS"
    using log_node_lengths [OF lok, of 0] by (simp_all add: log_ok_def)
  have "map cl_addrCL (log_entries AGGR_BUCKETS (ag_log ag1) 1025) ! 0 = 0"
    using a(3,4) unfolding ag_lines_def by simp
  then have first: "cl_addrCL (hn_log (ag_log ag1 ! 0) ! 0) = 0" by (simp add: log_entries_def log_entry_def)
  let ?ag2 = "aggr_reset ag1\<lparr>ag_log := log_insert cl_addrCL aggr_hash (cl_entry 131072) 1 0 (ag_log ag1) 131072, ag_tail := 1, ag_numCL := 1\<rparr>"
  have "aggr_addIfAbsent used 131072 (aggr_reset ag1) False = Some (?ag2, False)"
    using t by (simp add: aggr_addIfAbsent_def aggr_reset_def Let_def)
  moreover have "flushDeferredPWBs ?ag2 offset = [Pwb (LByte offset)]"
    using t(3) first by (simp add: flushDeferredPWBs_def node_entries_def node_count_def log_insert_def Let_def take_Suc_conv_app_nth)
  ultimately show ?thesis using a(1) by blast
qed

theorem aggregate_forgets_lines_after_reset_witness:
  "\<exists>ag1 ag2. aggr_addAll 100000 (map (\<lambda>k. 64 * k) [0..<1025]) CLAggregate_new False = Some (ag1, False)
    \<and> aggr_addIfAbsent 100000 131072 (aggr_reset ag1) False = Some (ag2, False)
    \<and> flushDeferredPWBs ag2 4096 = [Pwb (LByte 4096)]"
  by (rule aggregate_forgets_lines_after_reset) simp

lemma get_put_part: "d + k \<le> n \<Longrightarrow> get_bytes k (a + d) (put_bytes n a v m) = take_bit (8 * k) (drop_bit (8 * d) v)"
proof (induction k arbitrary: d)
  case (Suc k)
  from Suc.prems have "pm_cur (put_bytes n a v m) (LByte (a + d)) = take_bit 8 (drop_bit (8 * d) v)"
    by (simp add: cur_put_bytes)
  moreover from Suc have "get_bytes k (a + d + 1) (put_bytes n a v m) = take_bit (8 * k) (drop_bit 8 (drop_bit (8 * d) v))"
    using Suc.IH [of "Suc d"] by (simp add: drop_bit_drop_bit add.commute)
  ultimately show ?case using take_bit_split [of "drop_bit (8 * d) v" "8 * k"] by (simp add: algebra_simps)
qed simp

text \<open>
  Undo and redo entries are 8 bytes wide whatever the type of the object. Replaying a store
  to a 4-byte object clears the 4 bytes behind it, on a replica where they held anything, while
  the replica of the transaction itself keeps them.
\<close>

theorem redo_clobbers_narrow_neighbour:
  assumes L: "region_ok L" "0 < i" and a: "paddr L a" and st: "st_shape st"
    and v: "take_bit 32 v = v" "get_bytes 4 (a + i * g_main_size L) m \<noteq> v"
  shows "\<exists>tv m' m2. pstore L 4 a v (\<lparr>tl_st = st_reset st, tl_cx_size = i * g_main_size L, tl_copy = True\<rparr>, m) = Some (tv, m')
    \<and> get_bytes 4 (a + 4 + i * g_main_size L) m' = get_bytes 4 (a + 4 + i * g_main_size L) m
    \<and> copy_redolog L (tl_st tv) (st_lSize (tl_st tv)) offset m' = Some m2
    \<and> get_bytes 4 (a + offset) m2 = v \<and> get_bytes 4 (a + 4 + offset) m2 = 0"
proof -
  let ?off = "i * g_main_size L"
  let ?old = "get_bytes 4 (a + ?off) m" and ?m' = "put_bytes 4 (a + ?off) v m"
  from st have ok: "ws_ok (st_reset st)" by (simp add: st_shape_def)
  from addAddrIfAbsent_ok [OF ok, of a ?old v] obtain b nds' t' n' where
    add: "addAddrIfAbsent a ?old v (st_reset st) = Some (b, (st_reset st)\<lparr>st_log := nds', st_logTail := t', st_lSize := n'\<rparr>)"
    "ws_ok ((st_reset st)\<lparr>st_log := nds', st_logTail := t', st_lSize := n'\<rparr>)"
    "(b, ws_view ((st_reset st)\<lparr>st_log := nds', st_logTail := t', st_lSize := n'\<rparr>)) = view_add a ?old v []" by auto
  let ?st1 = "(st_reset st)\<lparr>st_log := nds', st_logTail := t', st_lSize := n'\<rparr>"
  from add(3) have vw: "ws_view ?st1 = [(a, ?old, v)]" by (simp add: view_add_def view_find_def)
  then have n: "0 < st_lSize ?st1" using length_ws_view [of ?st1] by simp
  have main: "ADDR_IS_IN_MAIN L a" using a by (simp add: paddr_def)
  have off: "?off \<noteq> 0" using L by (simp add: region_ok_def)
  let ?tv = "\<lparr>tl_st = st_reset st, tl_cx_size = ?off, tl_copy = True\<rparr>"
  have run: "pstore L 4 a v (?tv, m) = Some (?tv\<lparr>tl_st := ?st1\<rparr>, ?m')"
    using off main v(2) add(1) by (simp add: pstore_def Let_def pstore_log_def)
  have redo: "copy_redolog L ?st1 (st_lSize ?st1) offset ?m' = Some (put_bytes 8 (a + offset) v ?m')"
    using copy_redolog_ok [OF add(2) n, of L offset ?m'] main unfolding vw by (simp add: news_def)
  have "drop_bit 32 v = drop_bit 32 (take_bit 32 v)" using v(1) by simp
  also have "\<dots> = 0" by (rule bit_word_eqI) (simp add: bit_simps)
  finally have d: "drop_bit 32 v = 0" .
  have "get_bytes 4 (a + offset) (put_bytes 8 (a + offset) v ?m') = v"
    using get_put_part [of 0 4 8 "a + offset" v ?m'] v(1) by simp
  moreover have "get_bytes 4 (a + 4 + offset) (put_bytes 8 (a + offset) v ?m') = 0"
    using get_put_part [of 4 4 8 "a + offset" v ?m'] d by (simp add: ac_simps)
  moreover have "get_bytes 4 (a + 4 + ?off) ?m' = get_bytes 4 (a + 4 + ?off) m" by (rule get_put_other) simp
  ultimately show ?thesis using run redo by (intro exI [of _ "?tv\<lparr>tl_st := ?st1\<rparr>"] exI [of _ ?m'] exI [of _ "put_bytes 8 (a + offset) v ?m'"]) simp
qed

theorem redo_clobbers_narrow_neighbour_witness:
  "\<exists>tv m' m2. pstore ex_region 4 1088 1 (\<lparr>tl_st = st_reset State_new, tl_cx_size = 1 * g_main_size ex_region, tl_copy = True\<rparr>,
       pm_boot (\<lambda>_. 5)) = Some (tv, m')
    \<and> get_bytes 4 (1088 + 4 + 1 * g_main_size ex_region) m' = get_bytes 4 (1088 + 4 + 1 * g_main_size ex_region) (pm_boot (\<lambda>_. 5))
    \<and> copy_redolog ex_region (tl_st tv) (st_lSize (tl_st tv)) 2048 m' = Some m2
    \<and> get_bytes 4 (1088 + 2048) m2 = 1 \<and> get_bytes 4 (1088 + 4 + 2048) m2 = 0"
proof (rule redo_clobbers_narrow_neighbour [OF ex_region_ok(1) _ _ State_new_shape])
  show "paddr ex_region 1088" by (simp add: ex_region_def paddr_def ADDR_IS_IN_MAIN_def)
  have "get_bytes (Suc 3) (1088 + 1 * g_main_size ex_region) (pm_boot (\<lambda>_. 5)) \<noteq> 1"
  proof
    assume "get_bytes (Suc 3) (1088 + 1 * g_main_size ex_region) (pm_boot (\<lambda>_. 5)) = 1"
    then have "bit (get_bytes (Suc 3) (1088 + 1 * g_main_size ex_region) (pm_boot (\<lambda>_. 5))) 2 = bit (1 :: u64) 2" by simp
    then show False unfolding get_bytes.simps by (simp add: pm_boot_def bit_simps)
  qed
  moreover have "get_bytes 4 = get_bytes (Suc 3)" by simp
  ultimately show "get_bytes 4 (1088 + 1 * g_main_size ex_region) (pm_boot (\<lambda>_. 5)) \<noteq> 1" by metis
qed simp_all

end
