(* ===== verification/RedoReplica.thy ===== *)
theory RedoReplica
  imports RedoLog TryLock
begin

text \<open>
  The pieces of RedoOpt (ptms/redoopt/RedoOpt.hpp) that the transactions are made of: tickets
  (a sequence number, a thread and an index packed in 64 bits), non-temporal stores
  (common/pfences.h), and the loops that copy a replica and write it back.
\<close>

subsection \<open>Tickets\<close>

type_synonym SeqTidIdx = u64

abbreviation (input) SEQ_BITS :: nat where "SEQ_BITS \<equiv> 40"
abbreviation (input) TID_BITS :: nat where "TID_BITS \<equiv> 8"
abbreviation (input) IDX_BITS :: nat where "IDX_BITS \<equiv> 16"

definition makeSeqTidIdx :: "u64 \<Rightarrow> u64 \<Rightarrow> u64 \<Rightarrow> SeqTidIdx" where
  "makeSeqTidIdx sq tid idx = push_bit (TID_BITS + IDX_BITS) sq OR push_bit IDX_BITS tid OR idx"

definition sti2seq :: "SeqTidIdx \<Rightarrow> u64" where
  "sti2seq sti = drop_bit (TID_BITS + IDX_BITS) sti"

definition sti2tid :: "SeqTidIdx \<Rightarrow> u64" where
  "sti2tid sti = drop_bit IDX_BITS sti AND (push_bit TID_BITS 1 - 1)"

definition sti2idx :: "SeqTidIdx \<Rightarrow> u64" where
  "sti2idx sti = sti AND (push_bit IDX_BITS 1 - 1)"

lemma sti_fields:
  "unat (sti2seq sti) = unat sti div 2 ^ 24"
  "unat (sti2tid sti) = unat sti div 2 ^ 16 mod 2 ^ 8"
  "unat (sti2idx sti) = unat sti mod 2 ^ 16"
proof -
  have m: "push_bit 8 (1 :: u64) - 1 = mask 8" "push_bit 16 (1 :: u64) - 1 = mask 16" by (simp_all add: mask_eq_exp_minus_1)
  show "unat (sti2seq sti) = unat sti div 2 ^ 24" by (simp add: sti2seq_def unat_drop_bit)
  show "unat (sti2tid sti) = unat sti div 2 ^ 16 mod 2 ^ 8" unfolding sti2tid_def m by (simp only: unat_and_mask unat_drop_bit)
  show "unat (sti2idx sti) = unat sti mod 2 ^ 16" unfolding sti2idx_def m by (simp only: unat_and_mask)
qed

lemma sti_bounds: "unat (sti2seq sti) < 2 ^ 40" "unat (sti2tid sti) < 2 ^ 8" "unat (sti2idx sti) < 2 ^ 16"
proof -
  have "unat sti < 2 ^ LENGTH(64)" by (rule unsigned_less)
  then have "unat sti < 2 ^ 64" by simp
  then have "unat sti div 2 ^ 24 < 2 ^ 40" by (simp add: less_mult_imp_div_less)
  then show "unat (sti2seq sti) < 2 ^ 40" by (simp only: sti_fields)
qed (simp_all add: sti_fields)

lemma make_fields:
  assumes "unat sq < 2 ^ 40" "unat tid < 2 ^ 8" "unat idx < 2 ^ 16"
  shows "sti2seq (makeSeqTidIdx sq tid idx) = sq" "sti2tid (makeSeqTidIdx sq tid idx) = tid"
    "sti2idx (makeSeqTidIdx sq tid idx) = idx"
proof -
  have t: "take_bit 40 sq = sq" "take_bit 8 tid = tid" "take_bit 16 idx = idx"
    using assms by (simp_all add: word_unat_eq_iff unsigned_take_bit_eq take_bit_nat_eq_self)
  have b: "bit sq n \<Longrightarrow> n < 40" "bit tid n \<Longrightarrow> n < 8" "bit idx n \<Longrightarrow> n < 16" for n
    using bit_take_bit_iff [of 40 sq n] bit_take_bit_iff [of 8 tid n] bit_take_bit_iff [of 16 idx n] unfolding t by blast+
  have m: "push_bit 8 (1 :: u64) - 1 = mask 8" "push_bit 16 (1 :: u64) - 1 = mask 16" by (simp_all add: mask_eq_exp_minus_1)
  show "sti2seq (makeSeqTidIdx sq tid idx) = sq"
    by (intro bit_word_eqI) (auto simp: sti2seq_def makeSeqTidIdx_def bit_simps dest: b)
  show "sti2tid (makeSeqTidIdx sq tid idx) = tid" unfolding sti2tid_def m
    by (intro bit_word_eqI) (auto simp: makeSeqTidIdx_def bit_simps dest: b)
  show "sti2idx (makeSeqTidIdx sq tid idx) = idx" unfolding sti2idx_def m
    by (intro bit_word_eqI) (auto simp: makeSeqTidIdx_def bit_simps dest: b)
qed
subsection \<open>Non-temporal stores and write-backs\<close>

text \<open>
  A non-temporal store goes around the cache: its bytes are on their way to the medium, where
  the next fence waits for them.
\<close>

definition pm_ntstore :: "pm_loc \<Rightarrow> u64 \<Rightarrow> pm \<Rightarrow> pm" where
  "pm_ntstore l v m = (pm_store l v m)\<lparr>pm_since := (pm_since m)(l := {v}), pm_flush := (pm_flush m)(l := True)\<rparr>"

fun nt_bytes :: "nat \<Rightarrow> nat \<Rightarrow> u64 \<Rightarrow> pm \<Rightarrow> pm" where
  "nt_bytes 0 a v m = m"
| "nt_bytes (Suc n) a v m = nt_bytes n (a + 1) (drop_bit 8 v) (pm_ntstore (LByte a) (take_bit 8 v) m)"

definition ntstore :: "nat \<Rightarrow> nat \<Rightarrow> pm \<Rightarrow> pm" where
  "ntstore dst src m = nt_bytes 8 dst (get_bytes 8 src m) m"

text \<open>Eight words are loaded before the first is stored.\<close>

definition quadntstore :: "nat \<Rightarrow> nat \<Rightarrow> pm \<Rightarrow> pm" where
  "quadntstore dst src m =
     fold (\<lambda>k m'. nt_bytes 8 (dst + 8 * k) (get_bytes 8 (src + 8 * k) m) m') [0..<8] m"

fun flush_range :: "nat \<Rightarrow> nat \<Rightarrow> pm \<Rightarrow> pm" where
  "flush_range ptr sz m = (if sz = 0 then m else flush_range (ptr + 64) (sz - 64) (pm_exec1 (Pwb (LByte ptr)) m))"

fun ntmemcpy :: "nat \<Rightarrow> nat \<Rightarrow> nat \<Rightarrow> pm \<Rightarrow> pm" where
  "ntmemcpy dst ptr sz m = (if sz = 0 then m else ntmemcpy (dst + 8) (ptr + 8) (sz - 8) (ntstore dst ptr m))"

fun quadntmemcpy :: "nat \<Rightarrow> nat \<Rightarrow> nat \<Rightarrow> pm \<Rightarrow> pm" where
  "quadntmemcpy dst ptr sz m = (if sz = 0 then m else quadntmemcpy (dst + 64) (ptr + 64) (sz - 64) (quadntstore dst ptr m))"

declare flush_range.simps [simp del] ntmemcpy.simps [simp del] quadntmemcpy.simps [simp del]

definition memcmp_eq :: "nat \<Rightarrow> nat \<Rightarrow> nat \<Rightarrow> pm \<Rightarrow> bool" where
  "memcmp_eq a b n m = list_all (\<lambda>k. take_bit 8 (pm_cur m (LByte (a + k))) = take_bit 8 (pm_cur m (LByte (b + k)))) [0..<n]"

subsection \<open>Copying a replica\<close>

text \<open>Up to a cache line boundary of the source of the copy, then in chunks of 16 KB.\<close>

fun copy_align :: "nat \<Rightarrow> nat \<Rightarrow> nat \<Rightarrow> pm \<Rightarrow> nat \<times> nat \<times> nat \<times> pm" where
  "copy_align from to sz m =
     (if sz = 0 \<or> from mod 64 = 0 then (from, to, sz, m)
      else copy_align (from + 8) (to + 8) (sz - 8) (ntstore to from m))"

fun copy_chunks :: "u64 \<Rightarrow> nat \<Rightarrow> nat \<Rightarrow> nat \<Rightarrow> pm \<Rightarrow> bool \<times> pm" where
  "copy_chunks initComb from to sz m =
     (if sz = 0 then (True, m)
      else if 16 * 1024 > sz then (True, ntmemcpy to from sz m)
      else let m' = (if \<not> memcmp_eq to from (16 * 1024) m then quadntmemcpy to from (16 * 1024) m else m)
           in if pm_cur m' LState \<noteq> initComb then (False, m')
              else copy_chunks initComb (from + 16 * 1024) (to + 16 * 1024) (sz - 16 * 1024) m')"

declare copy_align.simps [simp del] copy_chunks.simps [simp del]

text \<open>The time the copy took is stored in copyTime by the caller in this model.\<close>

definition copyFromTo :: "region \<Rightarrow> nat \<Rightarrow> nat \<Rightarrow> nat \<Rightarrow> u64 \<Rightarrow> pm \<Rightarrow> (bool \<times> pm) option" where
  "copyFromTo L from to fromIdx initComb m =
     (let usedSize = used_size L (fromIdx * g_main_size L) m
      in if from mod 8 = 0 \<and> usedSize mod 8 = 0 then
           (let (from', to', sz, m1) = copy_align from to usedSize m;
                (go, m2) = copy_chunks initComb from' to' sz m1
            in if \<not> go then Some (False, m2)
               else if pm_cur m2 LState \<noteq> initComb then Some (False, m2)
               else Some (True, m2))
         else None)"

subsection \<open>What a copy does\<close>

lemma cur_nt_bytes: "pm_cur (nt_bytes n a v m) = pm_cur (put_bytes n a v m)"
proof (induction n arbitrary: a v m)
  case (Suc n)
  have c: "pm_cur (put_bytes n a v m) = pm_cur (put_bytes n a v m')" if "pm_cur m = pm_cur m'" for a v m m'
    using that by (auto simp: fun_eq_iff cur_put_bytes split: pm_loc.split)
  show ?case unfolding nt_bytes.simps put_bytes.simps Suc
    by (rule c) (simp add: pm_ntstore_def pm_store_def)
qed simp

text \<open>
  The relation of two memories of which the second has a copy of n bytes; bytes are compared by
  their 8 bits.
\<close>

definition copied :: "nat \<Rightarrow> nat \<Rightarrow> nat \<Rightarrow> pm \<Rightarrow> pm \<Rightarrow> bool" where
  "copied from to n m m' \<longleftrightarrow>
     (\<forall>l. (\<forall>k<n. l \<noteq> LByte (to + k)) \<longrightarrow> pm_cur m' l = pm_cur m l) \<and>
     (\<forall>k<n. take_bit 8 (pm_cur m' (LByte (to + k))) = take_bit 8 (pm_cur m (LByte (from + k))))"

definition apart :: "nat \<Rightarrow> nat \<Rightarrow> nat \<Rightarrow> bool" where
  "apart from to n \<longleftrightarrow> from + n \<le> to \<or> to + n \<le> from"

lemma copied_0: "copied from to 0 m m"
  by (simp add: copied_def)

lemma copied_trans:
  assumes a: "copied from to n m m1" and b: "copied (from + n) (to + n) n' m1 m2" and ap: "apart from to (n + n')"
  shows "copied from to (n + n') m m2"
proof -
  have "take_bit 8 (pm_cur m2 (LByte (to + k))) = take_bit 8 (pm_cur m (LByte (from + k)))" if k: "k < n + n'" for k
  proof (cases "k < n")
    case True
    then have "pm_cur m2 (LByte (to + k)) = pm_cur m1 (LByte (to + k))" using b by (auto simp: copied_def)
    then show ?thesis using a True by (simp add: copied_def)
  next
    case False
    then obtain i where i: "k = n + i" "i < n'" using k by (metis add_diff_inverse_nat nat_add_left_cancel_less)
    have "take_bit 8 (pm_cur m2 (LByte (to + k))) = take_bit 8 (pm_cur m1 (LByte (from + k)))"
      using b i by (simp add: copied_def add.assoc)
    moreover have "pm_cur m1 (LByte (from + k)) = pm_cur m (LByte (from + k))"
      using a ap k i unfolding copied_def apart_def by (metis add_less_cancel_left add_mono_thms_linordered_field(1)
        le_add1 less_le_not_le linorder_not_le nat_add_left_cancel_le order_less_le_trans pm_loc.inject trans_less_add1)
    ultimately show ?thesis by simp
  qed
  moreover have "pm_cur m2 l = pm_cur m l" if l: "\<forall>k<n + n'. l \<noteq> LByte (to + k)" for l
  proof -
    have "pm_cur m2 l = pm_cur m1 l" using b l by (auto simp: copied_def add.assoc)
    also have "\<dots> = pm_cur m l" using a l by (auto simp: copied_def)
    finally show ?thesis .
  qed
  ultimately show ?thesis by (simp add: copied_def)
qed
lemma bit_get_bytes:
  "bit (get_bytes n a m) i \<longleftrightarrow> i < 8 * n \<and> i < 64 \<and> bit (pm_cur m (LByte (a + i div 8))) (i mod 8)"
proof (induction n arbitrary: a i)
  case (Suc n)
  show ?case
  proof (cases "i < 8")
    case True
    then show ?thesis by (simp add: bit_simps)
  next
    case False
    then obtain j where j: "i = 8 + j" using le_Suc_ex not_less by blast
    have "i div 8 = 1 + j div 8" "i mod 8 = j mod 8" unfolding j by simp_all
    then show ?thesis using Suc [of "a + 1" j] unfolding j by (auto simp: bit_simps)
  qed
qed simp

lemma byte_get_bytes:
  assumes "k < n" "n \<le> 8"
  shows "take_bit 8 (drop_bit (8 * k) (get_bytes n a m)) = take_bit 8 (pm_cur m (LByte (a + k)))"
proof (rule bit_word_eqI)
  fix i assume "i < LENGTH(64)"
  have "(8 * k + i) div 8 = k" "(8 * k + i) mod 8 = i" "8 * k + i < 8 * n" "8 * k + i < 64" if "i < 8" using that assms by auto
  then show "bit (take_bit 8 (drop_bit (8 * k) (get_bytes n a m))) i = bit (take_bit 8 (pm_cur m (LByte (a + k)))) i"
    by (auto simp: bit_simps bit_get_bytes)
qed

lemma cur_nt_word:
  "pm_cur (nt_bytes 8 dst (get_bytes 8 src m) m') l =
     (case l of LByte b \<Rightarrow> if dst \<le> b \<and> b < dst + 8 then take_bit 8 (pm_cur m (LByte (src + (b - dst)))) else pm_cur m' l
      | _ \<Rightarrow> pm_cur m' l)"
  by (auto simp: cur_nt_bytes cur_put_bytes byte_get_bytes split: pm_loc.split)

lemma copied_word: "copied src dst 8 m (nt_bytes 8 dst (get_bytes 8 src m) m)"
  unfolding copied_def cur_nt_word by (auto split: pm_loc.splits) (metis le_add_diff_inverse nat_add_left_cancel_less)

lemma copied_cong:
  "copied from to n m m1 \<Longrightarrow> pm_cur m1 = pm_cur m2 \<Longrightarrow> copied from to n m m2"
  by (simp add: copied_def)

lemma quadntstore_copied:
  assumes ap: "apart src dst 64" shows "copied src dst 64 m (quadntstore dst src m)"
proof -
  have "n \<le> 8 \<Longrightarrow> copied src dst (8 * n) m (fold (\<lambda>k m'. nt_bytes 8 (dst + 8 * k) (get_bytes 8 (src + 8 * k) m) m') [0..<n] m)" for n
  proof (induction n)
    case 0 then show ?case by (simp add: copied_0)
  next
    case (Suc n)
    let ?m1 = "fold (\<lambda>k m'. nt_bytes 8 (dst + 8 * k) (get_bytes 8 (src + 8 * k) m) m') [0..<n] m"
    from Suc have IH: "copied src dst (8 * n) m ?m1" by simp
    have "get_bytes 8 (src + 8 * n) m = get_bytes 8 (src + 8 * n) ?m1"
    proof (rule get_bytes_cong)
      fix b assume b: "src + 8 * n \<le> b" "b < src + 8 * n + 8"
      have "\<forall>k<8 * n. LByte b \<noteq> LByte (dst + k)" using b ap Suc.prems by (auto simp: apart_def)
      then show "pm_cur m (LByte b) = pm_cur ?m1 (LByte b)" using IH by (simp add: copied_def)
    qed
    moreover have "copied (src + 8 * n) (dst + 8 * n) 8 ?m1
        (nt_bytes 8 (dst + 8 * n) (get_bytes 8 (src + 8 * n) ?m1) ?m1)" by (rule copied_word)
    ultimately have "copied (src + 8 * n) (dst + 8 * n) 8 ?m1 (nt_bytes 8 (dst + 8 * n) (get_bytes 8 (src + 8 * n) m) ?m1)" by simp
    moreover have "apart src dst (8 * n + 8)" using ap Suc.prems by (auto simp: apart_def)
    ultimately show ?case using copied_trans [OF IH] by (simp add: add.commute)
  qed
  from this [of 8] show ?thesis by (simp add: quadntstore_def)
qed

text \<open>A copy in steps of a fixed size.\<close>

lemma copied_step:
  assumes "copied from to s m m1" "s \<le> n" "copied (from + s) (to + s) (n - s) m1 m2" "apart from to n"
  shows "copied from to n m m2"
  using copied_trans [OF assms(1,3)] assms(2,4) by simp

lemma apart_step: "apart from to n \<Longrightarrow> s \<le> n \<Longrightarrow> apart (from + s) (to + s) (n - s)"
  and apart_first: "apart from to n \<Longrightarrow> s \<le> n \<Longrightarrow> apart from to s"
  by (auto simp: apart_def)

lemma ntmemcpy_copied:
  assumes "n mod 8 = 0" "apart ptr dst n" shows "copied ptr dst n m (ntmemcpy dst ptr n m)"
  using assms
proof (induction dst ptr n m rule: ntmemcpy.induct)
  case (1 dst ptr n m)
  show ?case
  proof (cases "n = 0")
    case True then show ?thesis by (simp add: ntmemcpy.simps copied_0)
  next
    case False
    then have n: "8 \<le> n" "(n - 8) mod 8 = 0" using 1(2) by presburger+
    have "copied (ptr + 8) (dst + 8) (n - 8) (ntstore dst ptr m) (ntmemcpy dst ptr n m)"
      using 1(1) [OF False n(2) apart_step [OF 1(3) n(1)]] False by (subst ntmemcpy.simps) simp
    with copied_word [of ptr dst m] copied_step [OF _ n(1) _ 1(3)] show ?thesis by (simp add: ntstore_def)
  qed
qed

lemma quadntmemcpy_copied:
  assumes "n mod 64 = 0" "apart ptr dst n" shows "copied ptr dst n m (quadntmemcpy dst ptr n m)"
  using assms
proof (induction dst ptr n m rule: quadntmemcpy.induct)
  case (1 dst ptr n m)
  show ?case
  proof (cases "n = 0")
    case True then show ?thesis by (simp add: quadntmemcpy.simps copied_0)
  next
    case False
    then have n: "64 \<le> n" "(n - 64) mod 64 = 0" using 1(2) by presburger+
    have "copied (ptr + 64) (dst + 64) (n - 64) (quadntstore dst ptr m) (quadntmemcpy dst ptr n m)"
      using 1(1) [OF False n(2) apart_step [OF 1(3) n(1)]] False by (subst quadntmemcpy.simps) simp
    with quadntstore_copied [OF apart_first [OF 1(3) n(1)]] copied_step [OF _ n(1) _ 1(3)] show ?thesis by blast
  qed
qed
lemma copy_align_ok:
  assumes "n mod 8 = 0" "from mod 8 = 0" "apart from to n" "copy_align from to n m = (from', to', n', m')"
  shows "\<exists>s. from' = from + s \<and> to' = to + s \<and> n = s + n' \<and> n' mod 8 = 0 \<and> (n' = 0 \<or> from' mod 64 = 0)
    \<and> copied from to s m m'"
  using assms
proof (induction "from" to n m rule: copy_align.induct)
  case (1 "from" to n m)
  show ?case
  proof (cases "n = 0 \<or> from mod 64 = 0")
    case True
    then have "copy_align from to n m = (from, to, n, m)" by (subst copy_align.simps) simp
    with 1(5) have e: "from' = from" "to' = to" "n' = n" "m' = m" by simp_all
    show ?thesis unfolding e using 1(2) True copied_0 [of "from" to m] by (intro exI [of _ 0]) simp
  next
    case False
    then have n: "8 \<le> n" "(n - 8) mod 8 = 0" "(from + 8) mod 8 = 0" using 1(2,3) by presburger+
    have "copy_align (from + 8) (to + 8) (n - 8) (ntstore to from m) = (from', to', n', m')"
      using 1(5) False by (subst (asm) copy_align.simps) simp
    from 1(1) [OF False n(2,3) apart_step [OF 1(4) n(1)] this] obtain s where
      s: "from' = from + 8 + s" "to' = to + 8 + s" "n - 8 = s + n'" "n' mod 8 = 0" "n' = 0 \<or> from' mod 64 = 0"
      "copied (from + 8) (to + 8) s (ntstore to from m) m'" by (elim exE conjE) (rule that)
    have "copied from to 8 m (ntstore to from m)" by (simp add: ntstore_def copied_word)
    moreover have "apart from to (8 + s)" using 1(4) s(3) n(1) by (auto simp: apart_def)
    ultimately have "copied from to (8 + s) m m'" using copied_trans s(6) by blast
    then show ?thesis using s n(1) by (intro exI [of _ "8 + s"]) auto
  qed
qed

lemma memcmp_copied: "memcmp_eq to from n m \<Longrightarrow> copied from to n m m"
  by (auto simp: memcmp_eq_def copied_def list_all_iff)

lemma copied_state: "copied from to n m m' \<Longrightarrow> pm_cur m' LState = pm_cur m LState \<and> pm_cur m' LUsed = pm_cur m LUsed"
  by (simp add: copied_def)

lemma copy_chunks_ok:
  assumes "n mod 8 = 0" "apart from to n" "pm_cur m LState = c"
  shows "\<exists>m'. copy_chunks c from to n m = (True, m') \<and> copied from to n m m'"
  using assms
proof (induction c "from" to n m rule: copy_chunks.induct)
  case (1 c "from" to n m)
  let ?s = "16 * 1024 :: nat"
  show ?case
  proof (cases "n = 0 \<or> ?s > n")
    case True
    then show ?thesis using ntmemcpy_copied [OF 1(2,3), of m] copied_0 by (subst copy_chunks.simps) auto
  next
    case False
    then have n: "?s \<le> n" "n \<noteq> 0" "\<not> ?s > n" "(n - ?s) mod 8 = 0" using 1(2) by presburger+
    define m1 where "m1 = (if \<not> memcmp_eq to from ?s m then quadntmemcpy to from ?s m else m)"
    have c1: "copied from to ?s m m1"
      unfolding m1_def using quadntmemcpy_copied [OF _ apart_first [OF 1(3) n(1)], of m] memcmp_copied by simp
    then have l: "pm_cur m1 LState = c" using copied_state 1(4) by metis
    from 1(1) [OF n(2,3) m1_def _ n(4) apart_step [OF 1(3) n(1)] l] l obtain m' where
      m': "copy_chunks c (from + ?s) (to + ?s) (n - ?s) m1 = (True, m')" "copied (from + ?s) (to + ?s) (n - ?s) m1 m'" by blast
    have "copy_chunks c from to n m = (True, m')"
      by (subst copy_chunks.simps) (simp only: n(2,3) m1_def [symmetric] Let_def l if_False simp_thms m'(1))
    with copied_step [OF c1 n(1) m'(2) 1(3)] show ?thesis by blast
  qed
qed

lemma copyFromTo_ok:
  assumes "n = used_size L (fromIdx * g_main_size L) m" "n mod 8 = 0" "from mod 8 = 0" "apart from to n" "pm_cur m LState = c"
  shows "\<exists>m'. copyFromTo L from to fromIdx c m = Some (True, m') \<and> copied from to n m m'"
proof -
  obtain from' to' n' m1 where a: "copy_align from to n m = (from', to', n', m1)"
    by (rule prod_cases4)
  from copy_align_ok [OF assms(2,3,4) a] obtain s where
    s: "from' = from + s" "to' = to + s" "n = s + n'" "n' mod 8 = 0" "copied from to s m m1" by (elim exE conjE) (rule that)
  have "apart from' to' n'" using apart_step [OF assms(4), of s] s by simp
  moreover have l: "pm_cur m1 LState = c" using copied_state [OF s(5)] assms(5) by simp
  ultimately obtain m2 where m2: "copy_chunks c from' to' n' m1 = (True, m2)" "copied from' to' n' m1 m2"
    using copy_chunks_ok [OF s(4)] by blast
  have "copied from to n m m2" using copied_trans [OF s(5)] m2(2) assms(4) s by blast
  moreover have "pm_cur m2 LState = c" using copied_state [OF m2(2)] l by simp
  ultimately show ?thesis using a m2(1) assms(1-3) by (simp add: copyFromTo_def)
qed

text \<open>In words: what a copy of the used part of one replica does to it and to the others.\<close>

lemma get_bytes_cong8:
  assumes "n \<le> 8"
    "\<And>b. a \<le> b \<Longrightarrow> b < a + n \<Longrightarrow> take_bit 8 (pm_cur m (LByte b)) = take_bit 8 (pm_cur m' (LByte (b - a + a')))"
  shows "get_bytes n a m = get_bytes n a' m'"
proof -
  have "bit (get_bytes n a m) i = bit (get_bytes n a' m') i" for i
  proof (cases "i < 8 * n")
    case True
    then have "i div 8 < n" by (simp add: less_mult_imp_div_less mult.commute)
    with assms(2) [of "a + i div 8"] have "take_bit 8 (pm_cur m (LByte (a + i div 8))) = take_bit 8 (pm_cur m' (LByte (a' + i div 8)))"
      by (simp add: add.commute)
    then have "bit (pm_cur m (LByte (a + i div 8))) (i mod 8) = bit (pm_cur m' (LByte (a' + i div 8))) (i mod 8)"
      by (metis bit_take_bit_iff mod_less_divisor zero_less_numeral)
    then show ?thesis by (simp add: bit_get_bytes)
  qed (simp add: bit_get_bytes)
  then show ?thesis by (simp add: bit_eq_iff)
qed

lemma paddr_split:
  assumes "region_ok L" "paddr L a"
  obtains y where "a = g_main_addr L + y" "y + 8 \<le> g_main_size L" "y mod 8 = 0"
proof
  from assms have *: "g_main_addr L mod 64 = 0" "g_main_size L mod 64 = 0" "g_main_addr L \<le> a" "a < g_main_addr L + g_main_size L" "a mod 8 = 0"
    by (auto simp: region_ok_def paddr_def ADDR_IS_IN_MAIN_def)
  show "a = g_main_addr L + (a - g_main_addr L)" using * by simp
  show "(a - g_main_addr L) mod 8 = 0" using * by presburger
  show "a - g_main_addr L + 8 \<le> g_main_size L" using * by presburger
qed

lemma replica_copied:
  assumes L: "region_ok L" and ij: "i \<noteq> j" and n: "n \<le> g_main_size L" "n mod 8 = 0"
    and c: "copied (g_main_addr L + i * g_main_size L) (g_main_addr L + j * g_main_size L) n m m'"
  shows "replica L (j * g_main_size L) m' =
      (\<lambda>a. if a < g_main_addr L + n then replica L (i * g_main_size L) m a else replica L (j * g_main_size L) m a)"
    "k \<noteq> j \<Longrightarrow> replica L (k * g_main_size L) m' = replica L (k * g_main_size L) m"
proof -
  let ?M = "g_main_addr L" and ?S = "g_main_size L"
  have other: "pm_cur m' (LByte b) = pm_cur m (LByte b)" if "\<forall>k<n. b \<noteq> ?M + j * ?S + k" for b
    using c that by (auto simp: copied_def)
  show "replica L (j * ?S) m' = (\<lambda>a. if a < ?M + n then replica L (i * ?S) m a else replica L (j * ?S) m a)"
  proof
    fix a
    show "replica L (j * ?S) m' a = (if a < ?M + n then replica L (i * ?S) m a else replica L (j * ?S) m a)"
    proof (cases "paddr L a")
      case False then show ?thesis by (simp add: replica_def)
    next
      case True
      from paddr_split [OF L this] obtain y where y: "a = ?M + y" "y + 8 \<le> ?S" "y mod 8 = 0" by blast
      show ?thesis
      proof (cases "y < n")
        case lt: True
        then have yn: "y + 8 \<le> n" using y(3) n(2) by presburger
        have "get_bytes 8 (a + j * ?S) m' = get_bytes 8 (a + i * ?S) m"
        proof (rule get_bytes_cong8)
          fix b assume b: "a + j * ?S \<le> b" "b < a + j * ?S + 8"
          define k where "k = b - (?M + j * ?S)"
          have k: "b = ?M + j * ?S + k" "k < n" "b - (a + j * ?S) + (a + i * ?S) = ?M + i * ?S + k"
            using b y yn by (auto simp: k_def)
          show "take_bit 8 (pm_cur m' (LByte b)) = take_bit 8 (pm_cur m (LByte (b - (a + j * ?S) + (a + i * ?S))))"
            unfolding k(3) unfolding k(1) using c k(2) by (simp add: copied_def)
        qed simp
        then show ?thesis using True y lt by (simp add: replica_def)
      next
        case ge: False
        have "get_bytes 8 (a + j * ?S) m' = get_bytes 8 (a + j * ?S) m"
          by (rule get_bytes_cong) (intro other, use y ge in auto)
        then show ?thesis using y ge by (simp add: replica_def)
      qed
    qed
  qed
  show "replica L (k * ?S) m' = replica L (k * ?S) m" if kj: "k \<noteq> j"
  proof
    fix a
    show "replica L (k * ?S) m' a = replica L (k * ?S) m a"
    proof (cases "paddr L a")
      case True
      from paddr_split [OF L this] obtain y where y: "a = ?M + y" "y + 8 \<le> ?S" "y mod 8 = 0" by blast
      have "get_bytes 8 (a + k * ?S) m' = get_bytes 8 (a + k * ?S) m"
      proof (rule get_bytes_cong, rule other, intro allI impI)
        fix b x assume b: "a + k * ?S \<le> b" "b < a + k * ?S + 8" and x: "x < n"
        define z where "z = b - (?M + k * ?S)"
        have z: "b = ?M + k * ?S + z" "z < ?S" using b y by (auto simp: z_def)
        show "b \<noteq> ?M + j * ?S + x"
        proof
          assume "b = ?M + j * ?S + x"
          then have "z + k * ?S = x + j * ?S" using z(1) by simp
          then have "(z + k * ?S) div ?S = (x + j * ?S) div ?S" by (rule arg_cong)
          moreover have "(z + k * ?S) div ?S = k" using z(2) by simp
          moreover have "(x + j * ?S) div ?S = j" using less_le_trans [OF x n(1)] by simp
          ultimately have "k = j" by simp
          then show False using kj by simp
        qed
      qed
      then show ?thesis by (simp add: replica_def)
    qed (simp add: replica_def)
  qed
qed
subsection \<open>The lines of a replica\<close>

text \<open>Only the cached values matter to a replica.\<close>

lemma get_bytes_cur: "pm_cur m = pm_cur m' \<Longrightarrow> get_bytes n a m = get_bytes n a m'"
  by (rule get_bytes_cong) simp

lemma replica_cur: "pm_cur m = pm_cur m' \<Longrightarrow> replica L off m = replica L off m'"
  using get_bytes_cur [of m m'] by (simp add: replica_def fun_eq_iff)

lemma cur_pwb [simp]: "pm_cur (pm_exec1 (Pwb l) m) = pm_cur m"
  and cur_fence [simp]: "pm_cur (pm_exec1 Fence m) = pm_cur m"
  by simp_all

lemma cur_flush_range [simp]: "pm_cur (flush_range p n m) = pm_cur m"
proof (induction p n m rule: flush_range.induct)
  case (1 p n m)
  then show ?case by (cases "n = 0") (subst flush_range.simps, simp)+
qed

lemma cur_pwbs: "pm_cur (pm_exec (map (\<lambda>e. Pwb (f e)) xs) m) = pm_cur m"
  by (induction xs arbitrary: m) simp_all

lemma cur_flushDeferredPWBs [simp]: "pm_cur (pm_exec (flushDeferredPWBs ag off) m) = pm_cur m"
  by (simp add: flushDeferredPWBs_def cur_pwbs)

text \<open>
  What keeps the lists of lines in their arrays, whether or not they are complete: the chain of
  every entry, current or not, leads down, and the tail is at least the node the count needs.
\<close>

definition ag_node :: "WriteSetCL hnode \<Rightarrow> bool" where
  "ag_node nd \<longleftrightarrow> length (hn_log nd) = AGGR_BUCKETS \<and> length (hn_buckets nd) = AGGR_BUCKETS
     \<and> (\<forall>b\<in>set (hn_buckets nd). b < AGGR_BUCKETS) \<and> (\<forall>k<AGGR_BUCKETS. \<forall>l. cl_next (hn_log nd ! k) = Some l \<longrightarrow> l < k)"

definition ag_wf :: "CLAggregate \<Rightarrow> bool" where
  "ag_wf ag \<longleftrightarrow> (\<forall>nd\<in>set (ag_log ag). ag_node nd) \<and> ag_tail ag < length (ag_log ag)
     \<and> node_count AGGR_BUCKETS (ag_numCL ag) \<le> ag_tail ag + 1"

lemma ag_chain:
  assumes nd: "ag_node nd" and k: "k < AGGR_BUCKETS"
  shows "\<exists>r. chain_search cl_addrCL cl_next (hn_log nd) a (Some k) = Some r"
  using k
proof (induction k rule: less_induct)
  case (less k)
  show ?case
  proof (cases "cl_next (hn_log nd ! k)")
    case None
    then show ?thesis by (subst chain_search.simps) (simp add: chain_search.simps)
  next
    case (Some l)
    then have "l < k" using nd less.prems by (simp add: ag_node_def)
    with less.IH [of l] less.prems Some show ?thesis by (subst chain_search.simps) simp
  qed
qed

lemma ag_search:
  assumes nds: "\<forall>nd\<in>set nds. ag_node nd" and j: "j < length nds" "k \<le> j + 1"
    and h: "h a < AGGR_BUCKETS"
  shows "\<exists>r. log_search cl_addrCL cl_next h W live nds a i k j = Some r"
  using j
proof (induction k arbitrary: i j)
  case 0 then show ?case by simp
next
  case (Suc k)
  let ?be = "hn_buckets (nds ! j) ! h a"
  have nd: "ag_node (nds ! j)" using nds Suc.prems(1) by simp
  have next': "\<exists>r. log_search cl_addrCL cl_next h W live nds a (i + 1) k (j - 1) = Some r"
  proof (cases "k = 0")
    case False
    then show ?thesis using Suc.prems by (intro Suc.IH) auto
  qed simp
  show ?case
  proof (cases "h (cl_addrCL (hn_log (nds ! j) ! ?be)) = h a \<and> live i ?be")
    case True
    have "?be < AGGR_BUCKETS" using nd h nth_mem [of "h a" "hn_buckets (nds ! j)"] by (simp add: ag_node_def)
    from ag_chain [OF nd this, of a] obtain r where "chain_search cl_addrCL cl_next (hn_log (nds ! j)) a (Some ?be) = Some r" ..
    then show ?thesis using next' True by (simp add: Let_def split: option.split)
  qed (use next' in \<open>auto simp: Let_def\<close>)
qed

lemma ag_insert:
  assumes "\<forall>nd\<in>set nds. ag_node nd" "j < length nds" "e < AGGR_BUCKETS" "h a < AGGR_BUCKETS"
  shows "\<forall>nd\<in>set (log_insert cl_addrCL h (cl_entry cl) j e nds a). ag_node nd"
proof -
  let ?nd = "nds ! j"
  have nd: "ag_node ?nd" using assms(1,2) by simp
  have "ag_node \<lparr>hn_buckets = (hn_buckets ?nd)[h a := e], hn_log = (hn_log ?nd)[e := cl_entry cl nx]\<rparr>"
    if "\<forall>l. nx = Some l \<longrightarrow> l < e" for nx
    using nd that assms(3) set_update_subset_insert [of "hn_buckets ?nd" "h a" e] unfolding ag_node_def
    by (auto simp: nth_list_update cl_entry_def)
  then show ?thesis using assms(1) unfolding log_insert_def Let_def
    by (auto dest!: subsetD [OF set_update_subset_insert])
qed

lemma ag_advance:
  assumes "\<forall>nd\<in>set nds. ag_node nd" "t < length nds" "log_advance NodeCLAggr_new nds t = (nds', t')"
  shows "\<forall>nd\<in>set nds'. ag_node nd" "t' < length nds'" "t' = t + 1"
proof -
  have "ag_node NodeCLAggr_new" by (simp add: ag_node_def NodeCLAggr_new_def log_fresh_def)
  with assms show "\<forall>nd\<in>set nds'. ag_node nd" "t' < length nds'" "t' = t + 1"
    by (auto simp: log_advance_def split: if_splits)
qed

lemma aggr_addIfAbsent_total:
  assumes "ag_wf ag"
  shows "\<exists>ag' c'. aggr_addIfAbsent used cl ag c = Some (ag', c') \<and> ag_wf ag' \<and> (c \<longrightarrow> c')"
proof -
  let ?n = "ag_numCL ag" and ?t = "ag_tail ag" and ?nds = "ag_log ag"
  from assms have nds: "\<forall>nd\<in>set ?nds. ag_node nd" "?t < length ?nds" "node_count AGGR_BUCKETS ?n \<le> ?t + 1" by (auto simp: ag_wf_def)
  have ins: "ag_wf (ag\<lparr>ag_log := log_insert cl_addrCL aggr_hash (cl_entry cl) t' (?n mod AGGR_BUCKETS) nds' cl, ag_tail := t', ag_numCL := ?n + 1\<rparr>)"
    if "\<forall>nd\<in>set nds'. ag_node nd" "t' < length nds'" "node_count AGGR_BUCKETS (?n + 1) \<le> t' + 1" for nds' t'
    using ag_insert [OF that(1,2), of "?n mod AGGR_BUCKETS" aggr_hash cl cl] that
    by (simp add: ag_wf_def aggr_hash_def log_insert_def Let_def)
  consider "?n = 0" | "?n \<noteq> 0" "?n + 1 > 3 * used div (64 * 4)" | "?n \<noteq> 0" "\<not> ?n + 1 > 3 * used div (64 * 4)" by blast
  then show ?thesis
  proof cases
    case 1
    then show ?thesis using ins [OF nds(1,2)] by (simp add: aggr_addIfAbsent_def Let_def node_count_def)
  next
    case 2
    then show ?thesis using nds
      by (intro exI [of _ "ag\<lparr>ag_numCL := 0\<rparr>"] exI [of _ True]) (simp add: aggr_addIfAbsent_def Let_def ag_wf_def node_count_def)
  next
    case 3
    obtain r where
      r: "log_search cl_addrCL cl_next aggr_hash 32 (\<lambda>i be. i < node_count AGGR_BUCKETS ?n - 1 \<or>
        (i = node_count AGGR_BUCKETS ?n - 1 \<and> be < ?n mod AGGR_BUCKETS)) ?nds cl 0 (node_count AGGR_BUCKETS ?n) ?t = Some r"
      using aggr_hash_less ag_search [OF nds(1,2,3)] by blast
    show ?thesis
    proof (cases r)
      case (Some x)
      then show ?thesis using 3 r assms by (simp add: aggr_addIfAbsent_def Let_def)
    next
      case None
      obtain nds' t' where a: "(if ?n mod AGGR_BUCKETS = 0 then log_advance NodeCLAggr_new ?nds ?t else (?nds, ?t)) = (nds', t')"
        by (rule prod.exhaust)
      have w: "\<forall>nd\<in>set nds'. ag_node nd" "t' < length nds'" "node_count AGGR_BUCKETS (?n + 1) \<le> t' + 1"
      proof -
        have "node_count AGGR_BUCKETS (?n + 1) \<le> node_count AGGR_BUCKETS ?n + (if ?n mod AGGR_BUCKETS = 0 then 1 else 0)"
          unfolding node_count_def by (auto simp: div_Suc mod_Suc)
        then show "\<forall>nd\<in>set nds'. ag_node nd" "t' < length nds'" "node_count AGGR_BUCKETS (?n + 1) \<le> t' + 1"
          using a nds ag_advance [OF nds(1,2)] by (auto split: if_splits)
      qed
      show ?thesis using 3 r None a ins [OF w] by (simp add: aggr_addIfAbsent_def Let_def)
    qed
  qed
qed

lemma aggr_addAll_total:
  "ag_wf ag \<Longrightarrow> \<exists>ag' c'. aggr_addAll used cls ag c = Some (ag', c') \<and> ag_wf ag' \<and> (c \<longrightarrow> c')"
proof (induction cls arbitrary: ag c)
  case (Cons cl cls)
  from aggr_addIfAbsent_total [OF Cons.prems, of used cl c] obtain ag1 c1 where
    "aggr_addIfAbsent used cl ag c = Some (ag1, c1)" "ag_wf ag1" "c \<longrightarrow> c1" by blast
  with Cons.IH [of ag1 c1] show ?case by auto
qed simp

lemma aggr_merge_total:
  "ag_wf ag \<Longrightarrow> \<exists>ag' c'. aggr_merge used st ag c = Some (ag', c') \<and> ag_wf ag' \<and> (c \<longrightarrow> c')"
  using aggr_addAll_total by (auto simp: aggr_merge_def)

lemma aggr_reset_wf: "ag_wf ag \<Longrightarrow> ag_wf (aggr_reset ag)"
  by (simp add: ag_wf_def aggr_reset_def node_count_def)

lemma CLAggregate_new_wf: "ag_wf CLAggregate_new"
  by (simp add: ag_wf_def CLAggregate_new_def NodeCLAggr_new_def log_fresh_def ag_node_def node_count_def)

end
