(* ===== verification/RedoOpt.thy ===== *)
theory RedoOpt
  imports RedoReplica ThreadRegistry
begin

text \<open>
  The transactions of RedoOpt (ptms/redoopt/RedoOpt.hpp), from a published request to the commit
  of a new version of the heap. A call is one function on the state of the engine: the threads
  whose requests it helps, or that read replicas, stand still while it runs, and every guard of
  the source on what they may have changed is evaluated where the source evaluates it.
\<close>

subsection \<open>The state of the engine\<close>

abbreviation (input) MAX_COMBS :: nat where "MAX_COMBS \<equiv> 2"
abbreviation (input) MAX_READ_TRIES :: nat where "MAX_READ_TRIES \<equiv> 10"
abbreviation (input) NUM_OBJS :: nat where "NUM_OBJS \<equiv> 100"
abbreviation (input) RINGSIZE :: nat where "RINGSIZE \<equiv> 16192"
abbreviation (input) STATESSIZE :: nat where "STATESSIZE \<equiv> 2096"
definition checkParams :: bool where
  "checkParams \<longleftrightarrow> \<not> MAX_THREADS > REGISTRY_MAX_THREADS \<and> \<not> REGISTRY_MAX_THREADS \<ge> 2 ^ TID_BITS
     \<and> \<not> SEQ_BITS + TID_BITS + IDX_BITS \<noteq> 64 \<and> \<not> STATESSIZE \<ge> 2 ^ IDX_BITS"

record Combined =
  cb_head :: SeqTidIdx
  cb_root :: nat
  cb_rwLock :: rwlock
  cb_flushcopy :: bool
  cb_clsets :: CLAggregate

definition Combined_new :: Combined where
  "Combined_new = \<lparr>cb_head = 0, cb_root = 0, cb_rwLock = rwlock_new, cb_flushcopy = False, cb_clsets = CLAggregate_new\<rparr>"

record States =
  ss_states :: "nat \<Rightarrow> State"
  ss_lastIdx :: nat

definition States_new :: States where
  "States_new = \<lparr>ss_states = (\<lambda>_. State_new), ss_lastIdx = 1\<rparr>"

text \<open>
  The persistent word curComb is the location LState of the memory; of the thread-local
  variables only copy outlives a transaction.
\<close>

record redo =
  rd_mem :: pm
  rd_combs :: "nat \<Rightarrow> Combined"
  rd_sauron :: "nat \<Rightarrow> States"
  rd_ring :: "nat \<Rightarrow> SeqTidIdx"
  rd_enqueuers :: "nat \<Rightarrow> tx option"
  rd_announce :: "nat \<Rightarrow> bool"
  rd_copyTime :: nat
  rd_copy :: "nat \<Rightarrow> bool"

abbreviation curComb :: "redo \<Rightarrow> SeqTidIdx" where "curComb rd \<equiv> pm_cur (rd_mem rd) LState"

text \<open>
  What a run depends on besides: the registered threads, the time a copy takes, the rounds of
  back-off the clock allows, and the value of the local variable ringTicket of apply\_redologs
  where it is not initialised.
\<close>

record env =
  ev_maxThreads :: nat
  ev_elapsed :: nat
  ev_spins :: nat
  ev_junk :: SeqTidIdx

abbreviation upd_comb :: "nat \<Rightarrow> (Combined \<Rightarrow> Combined) \<Rightarrow> redo \<Rightarrow> redo" where
  "upd_comb i f rd \<equiv> rd\<lparr>rd_combs := (rd_combs rd)(i := f (rd_combs rd i))\<rparr>"

abbreviation upd_lock :: "nat \<Rightarrow> (rwlock \<Rightarrow> rwlock) \<Rightarrow> redo \<Rightarrow> redo" where
  "upd_lock i f rd \<equiv> upd_comb i (\<lambda>cb. cb\<lparr>cb_rwLock := f (cb_rwLock cb)\<rparr>) rd"

text \<open>The State a ticket names; its arrays have MAX\_THREADS and STATESSIZE elements.\<close>

definition ticket_ok :: "SeqTidIdx \<Rightarrow> bool" where
  "ticket_ok t \<longleftrightarrow> unat (sti2tid t) < MAX_THREADS \<and> unat (sti2idx t) < STATESSIZE"

definition state_at :: "redo \<Rightarrow> SeqTidIdx \<Rightarrow> State option" where
  "state_at rd t = (if ticket_ok t then Some (ss_states (rd_sauron rd (unat (sti2tid t))) (unat (sti2idx t))) else None)"

definition set_state :: "nat \<Rightarrow> nat \<Rightarrow> State \<Rightarrow> redo \<Rightarrow> redo" where
  "set_state tid idx st rd =
     rd\<lparr>rd_sauron := (rd_sauron rd)(tid := (rd_sauron rd tid)\<lparr>ss_states := (ss_states (rd_sauron rd tid))(idx := st)\<rparr>)\<rparr>"

text \<open>The header lies before main; curComb shares its first cache line with id and objects.\<close>

definition base_addr :: "region \<Rightarrow> nat" where
  "base_addr L = g_main_addr L - 1024"

definition pwb_curComb :: "region \<Rightarrow> pm \<Rightarrow> pm" where
  "pwb_curComb L m = pm_exec [Pwb LState, Pwb (LByte (base_addr L))] m"

text \<open>A locked instruction also waits for the write-backs before it, as a fence does.\<close>

definition ring_cas :: "nat \<Rightarrow> SeqTidIdx \<Rightarrow> SeqTidIdx \<Rightarrow> redo \<Rightarrow> redo" where
  "ring_cas k expected new rd =
     (let rd' = rd\<lparr>rd_mem := pm_exec1 Fence (rd_mem rd)\<rparr>
      in if rd_ring rd k = expected then rd'\<lparr>rd_ring := (rd_ring rd)(k := new)\<rparr> else rd')"

definition curComb_cas :: "SeqTidIdx \<Rightarrow> SeqTidIdx \<Rightarrow> pm \<Rightarrow> bool \<times> pm" where
  "curComb_cas expected new m =
     (let m' = pm_exec1 Fence m in if pm_cur m' LState = expected then (True, pm_exec1 (St LState new) m') else (False, m'))"

definition mark :: SeqTidIdx where
  "mark = makeSeqTidIdx 0 1 0"

subsection \<open>Replicas\<close>

definition getCombined_step :: "nat \<Rightarrow> redo \<Rightarrow> (nat option \<times> redo)" where
  "getCombined_step tid rd =
     (let cComb = curComb rd; curCombIndex = unat (sti2idx cComb);
          (ok, lk) = sharedTryLock tid (cb_rwLock (rd_combs rd curCombIndex));
          rd1 = upd_lock curCombIndex (\<lambda>_. lk) rd
      in if \<not> ok then (None, rd1)
         else if cComb = curComb rd1 then (Some curCombIndex, rd1)
         else (None, upd_lock curCombIndex (sharedUnlock tid) rd1))"

fun getCombined_loop :: "u64 \<Rightarrow> nat \<Rightarrow> nat \<Rightarrow> redo \<Rightarrow> nat option \<times> redo" where
  "getCombined_loop limit tid 0 rd = (None, rd)"
| "getCombined_loop limit tid (Suc n) rd =
     (if sti2seq (curComb rd) \<ge> limit then (None, rd)
      else case getCombined_step tid rd of (Some i, rd1) \<Rightarrow> (Some i, rd1) | (None, rd1) \<Rightarrow> getCombined_loop limit tid n rd1)"

text \<open>The first sequence number is kept in an int.\<close>

definition getCombined :: "nat \<Rightarrow> redo \<Rightarrow> nat option \<times> redo" where
  "getCombined tid rd = getCombined_loop (scast ((ucast (sti2seq (curComb rd)) :: u32) + 2)) tid 2 rd"

text \<open>The copy of the current replica is tried twice; None is the assertion after the loop.\<close>

fun makeCopy_loop :: "env \<Rightarrow> region \<Rightarrow> nat \<Rightarrow> nat \<Rightarrow> u64 \<Rightarrow> SeqTidIdx \<Rightarrow> nat \<Rightarrow> redo \<Rightarrow> (bool \<times> redo) option" where
  "makeCopy_loop ev L newComb tid initCombSeq initComb 0 rd = None"
| "makeCopy_loop ev L newComb tid initCombSeq initComb (Suc n) rd =
     (let lCombIndex = unat (sti2idx initComb); lcomb = rd_combs rd lCombIndex; head = cb_head lcomb;
          retry = (\<lambda>rd. let initComb' = curComb rd
                        in if sti2seq initComb' \<ge> initCombSeq + 2 then Some (False, rd)
                           else makeCopy_loop ev L newComb tid initCombSeq initComb' n rd)
      in if initComb \<noteq> curComb rd then retry rd
         else state_at rd head \<bind> (\<lambda>tail_state.
           if rd_announce rd tid = st_applied tail_state tid then
             (if initComb = curComb rd then Some (False, rd) else retry rd)
           else copyFromTo L (cb_root lcomb) (cb_root (rd_combs rd newComb)) lCombIndex initComb (rd_mem rd) \<bind> (\<lambda>(ok, m).
             if \<not> ok then retry (rd\<lparr>rd_mem := m\<rparr>)
             else Some (True, upd_comb newComb (\<lambda>cb. cb\<lparr>cb_flushcopy := False, cb_head := head\<rparr>)
                    (rd\<lparr>rd_mem := m, rd_copyTime := ev_elapsed ev, rd_copy := (rd_copy rd)(tid := False)\<rparr>)))))"

definition makeCopy :: "env \<Rightarrow> region \<Rightarrow> nat \<Rightarrow> nat \<Rightarrow> redo \<Rightarrow> (bool \<times> redo) option" where
  "makeCopy ev L newComb tid rd =
     (let rd1 = upd_comb newComb (\<lambda>cb. cb\<lparr>cb_clsets := aggr_reset (cb_clsets cb), cb_head := mark\<rparr>) rd;
          initComb = curComb rd
      in makeCopy_loop ev L newComb tid (sti2seq initComb) initComb 2 rd1)"
text \<open>The index of a replica locked for writing, if one could be had before curComb changed.\<close>

datatype found = Found nat | Gone | Nothing

fun getNewComb_scan :: "SeqTidIdx \<Rightarrow> nat list \<Rightarrow> redo \<Rightarrow> found \<times> redo" where
  "getNewComb_scan cComb [] rd = (Nothing, rd)"
| "getNewComb_scan cComb (i # is) rd =
     (if cComb \<noteq> curComb rd then (Gone, rd)
      else let (ok, lk) = exclusiveTryLock MAX_THREADS (cb_rwLock (rd_combs rd i)); rd1 = upd_lock i (\<lambda>_. lk) rd
           in if ok then (Found i, rd1) else getNewComb_scan cComb is rd1)"

fun getNewComb_spin :: "SeqTidIdx \<Rightarrow> nat \<Rightarrow> redo \<Rightarrow> found \<times> redo" where
  "getNewComb_spin cComb 0 rd = (Nothing, rd)"
| "getNewComb_spin cComb (Suc n) rd =
     (case getNewComb_scan cComb [0..<MAX_COMBS] rd of
        (Nothing, rd1) \<Rightarrow> getNewComb_spin cComb n rd1 | r \<Rightarrow> r)"

definition or_else :: "found \<times> redo \<Rightarrow> (redo \<Rightarrow> found \<times> redo) \<Rightarrow> found \<times> redo" where
  "or_else r f = (case r of (Nothing, rd) \<Rightarrow> f rd | _ \<Rightarrow> r)"

definition getNewComb :: "env \<Rightarrow> SeqTidIdx \<Rightarrow> redo \<Rightarrow> nat option \<times> redo" where
  "getNewComb ev cComb rd =
     (let (r, rd') = or_else (or_else (or_else
           (if ev_maxThreads ev > 1 then getNewComb_scan cComb [unat (sti2idx (curComb rd)) + 1..<MAX_COMBS] rd else (Nothing, rd))
           (\<lambda>rd. if rd_copyTime rd = 0 then getNewComb_scan cComb [0..<MAX_COMBINEDS] rd else (Nothing, rd)))
           (\<lambda>rd. getNewComb_spin cComb (if rd_copyTime rd = 0 then 0 else ev_spins ev) rd))
           (getNewComb_scan cComb [0..<MAX_COMBINEDS])
      in (case r of Found i \<Rightarrow> Some i | _ \<Rightarrow> None, rd'))"

text \<open>
  The logs of the versions after the one a replica has are replayed from the ring. The result
  is the sequence number where this stopped, the last ticket read, and whether two newer
  versions made it pointless.
\<close>

function apply_loop ::
    "region \<Rightarrow> nat \<Rightarrow> u64 \<Rightarrow> nat \<Rightarrow> nat \<Rightarrow> SeqTidIdx option \<Rightarrow> redo \<Rightarrow> (nat \<times> SeqTidIdx option \<times> bool \<times> redo) option" where
  "apply_loop L newComb initCombSeq lastSeq i tk rd =
     (if i > lastSeq then Some (i, tk, False, rd)
      else let offset = newComb * g_main_size L; ringTicket = rd_ring rd (i mod RINGSIZE);
               stop = Some (i, Some ringTicket, False, rd)
           in if i \<noteq> unat (sti2seq ringTicket) then stop
              else state_at rd ringTicket \<bind> (\<lambda>apply_state.
                let redoSize = st_logSize apply_state
                in if ringTicket \<noteq> st_ticket apply_state then stop
                   else if redoSize > used_size L offset (rd_mem rd) div (8 * 10) then stop
                   else (if redoSize > 0 then copy_redolog L apply_state redoSize offset (rd_mem rd) else Some (rd_mem rd)) \<bind> (\<lambda>m.
                     let rd1 = rd\<lparr>rd_mem := m\<rparr>
                     in if redoSize > 0 \<and> Some ringTicket \<noteq> map_option st_ticket (state_at rd1 ringTicket)
                        then Some (i, Some ringTicket, False, rd1)
                        else if sti2seq (curComb rd1) \<ge> initCombSeq + 2
                        then Some (i, Some ringTicket, True, upd_comb newComb (\<lambda>cb. cb\<lparr>cb_head := ringTicket\<rparr>) rd1)
                        else apply_loop L newComb initCombSeq lastSeq (i + 1) (Some ringTicket) rd1)))"
  by pat_completeness auto
termination by (relation "measure (\<lambda>(L, newComb, initCombSeq, lastSeq, i, tk, rd). lastSeq + 1 - i)") auto

declare apply_loop.simps [simp del]

definition apply_redologs :: "env \<Rightarrow> region \<Rightarrow> nat \<Rightarrow> u64 \<Rightarrow> SeqTidIdx \<Rightarrow> SeqTidIdx \<Rightarrow> nat \<Rightarrow> redo \<Rightarrow> (bool \<times> redo) option" where
  "apply_redologs ev L newComb initCombSeq lastAppliedTicket ltail tid rd =
     (let start = unat (sti2seq lastAppliedTicket); lastSeq = unat (sti2seq ltail)
      in apply_loop L newComb initCombSeq lastSeq (start + 1) None rd \<bind> (\<lambda>(i, ringTicket, gone, rd1).
         if gone then Some (False, rd1)
         else if i \<noteq> lastSeq + 1 then makeCopy ev L newComb tid rd1
         else Some (True, upd_comb newComb
                (\<lambda>cb. cb\<lparr>cb_head := (case ringTicket of Some t \<Rightarrow> t | None \<Rightarrow> ev_junk ev)\<rparr>) rd1)))"

text \<open>The part of a replica left to write back when flushCopy stops; the volatile state is that of rd.\<close>

fun flushCopy_loop :: "redo \<Rightarrow> nat \<Rightarrow> u64 \<Rightarrow> SeqTidIdx \<Rightarrow> nat \<Rightarrow> nat \<Rightarrow> pm \<Rightarrow> (nat \<times> pm) option" where
  "flushCopy_loop rd tid initCombSeq curC to sz m =
     (if sz = 0 then Some (0, m)
      else let flushSize = min 4096 sz; m1 = flush_range to flushSize m; cComb = pm_cur m1 LState
           in if cComb \<noteq> curC then
                (if sti2seq cComb \<ge> initCombSeq + 2 then Some (sz, m1)
                 else let ltail = cb_head (rd_combs rd (unat (sti2idx cComb)))
                      in if cComb \<noteq> pm_cur m1 LState then Some (sz, m1)
                         else state_at rd ltail \<bind> (\<lambda>st.
                           if rd_announce rd tid = st_applied st tid \<and> cComb = pm_cur m1 LState then Some (sz, m1)
                           else flushCopy_loop rd tid initCombSeq cComb (to + flushSize) (sz - flushSize) m1))
              else flushCopy_loop rd tid initCombSeq curC (to + flushSize) (sz - flushSize) m1)"

declare flushCopy_loop.simps [simp del]

definition flushCopy :: "nat \<Rightarrow> nat \<Rightarrow> nat \<Rightarrow> redo \<Rightarrow> (bool \<times> redo) option" where
  "flushCopy tid to usedSize rd =
     flushCopy_loop rd tid (sti2seq (curComb rd)) (curComb rd) to usedSize (rd_mem rd) \<bind>
       (\<lambda>(sz, m). Some (\<not> sz > 0, rd\<lparr>rd_mem := m\<rparr>))"
subsection \<open>Write transactions\<close>

text \<open>A request becomes visible when announce is flipped; the result is the new value of it.\<close>

definition publish :: "nat \<Rightarrow> tx \<Rightarrow> redo \<Rightarrow> bool \<times> redo" where
  "publish tid t rd =
     (let newrequest = (\<not> rd_announce rd tid)
      in (newrequest, rd\<lparr>rd_enqueuers := (rd_enqueuers rd)(tid := Some t), rd_announce := (rd_announce rd)(tid := newrequest)\<rparr>))"

text \<open>The state of the new version starts with an empty log and what the last version applied.\<close>

definition prepare_state :: "SeqTidIdx \<Rightarrow> State \<Rightarrow> State \<Rightarrow> State" where
  "prepare_state newTicket tail_state st =
     (copyFrom tail_state (st_reset (st\<lparr>st_ticket := newTicket\<rparr>)))\<lparr>st_logSize := 0\<rparr>"

text \<open>None: the ring is already ahead of the version this thread has read.\<close>

definition help_ring :: "region \<Rightarrow> u64 \<Rightarrow> SeqTidIdx \<Rightarrow> redo \<Rightarrow> redo option" where
  "help_ring L seqltail ltail rd =
     (let k = unat seqltail mod RINGSIZE; ringtail = rd_ring rd k
      in if ltail \<noteq> ringtail then
           (if sti2seq ringtail > seqltail then None
            else Some (ring_cas k ringtail ltail (rd\<lparr>rd_mem := pwb_curComb L (rd_mem rd)\<rparr>)))
         else Some rd)"

text \<open>
  The open requests of all threads are run on the new replica, in the order of the threads.
  A request without a published lambda would be a call through a null pointer.
\<close>

fun help_loop :: "region \<Rightarrow> redo \<Rightarrow> SeqTidIdx \<Rightarrow> nat list \<Rightarrow> bool \<Rightarrow> varLocal \<Rightarrow> pm \<Rightarrow> (bool \<times> varLocal \<times> pm) option" where
  "help_loop L rd cComb [] atleastone tv m = Some (atleastone, tv, m)"
| "help_loop L rd cComb (i # is) atleastone tv m =
     (let applied = st_applied (tl_st tv) i
      in if rd_announce rd i = applied then help_loop L rd cComb is atleastone tv m
         else case rd_enqueuers rd i of
           None \<Rightarrow> None
         | Some mutation \<Rightarrow>
             if cComb \<noteq> pm_cur m LState then Some (atleastone, tv, m)
             else tx_run L mutation (tv, m) \<bind> (\<lambda>(r, tv1, m1).
               let st = tl_st tv1;
                   st1 = st\<lparr>st_results := (st_results st)(i := r), st_applied := (st_applied st)(i := \<not> applied)\<rparr>
               in help_loop L rd cComb is True (tv1\<lparr>tl_st := st1\<rparr>) m1))"

text \<open>How an attempt ends: with a result, with another attempt, or with help from another thread.\<close>

datatype attempt = Done u64 redo | Again "nat option" redo | Leave "nat option" redo

text \<open>
  The commit: the lines of the replica are written back, all of them after a copy, and curComb
  is switched to the new version.
\<close>

definition undo :: "nat \<Rightarrow> State \<Rightarrow> redo \<Rightarrow> redo" where
  "undo offset st rd = rd\<lparr>rd_mem := apply_undolog st offset (rd_mem rd)\<rparr>"

definition collect_lines :: "region \<Rightarrow> nat \<Rightarrow> nat \<Rightarrow> State \<Rightarrow> redo \<Rightarrow> redo option" where
  "collect_lines L tid newCombIndex newState rd =
     (if \<not> rd_copy rd tid
      then aggr_merge (used_size L (newCombIndex * g_main_size L) (rd_mem rd)) newState
             (cb_clsets (rd_combs rd newCombIndex)) (rd_copy rd tid) \<bind>
           (\<lambda>(ag, copy). Some (upd_comb newCombIndex (\<lambda>cb. cb\<lparr>cb_clsets := ag\<rparr>) (rd\<lparr>rd_copy := (rd_copy rd)(tid := copy)\<rparr>)))
      else Some (upd_comb newCombIndex (\<lambda>cb. cb\<lparr>cb_flushcopy := rd_copy rd tid\<rparr>) rd))"

definition flush_lines :: "region \<Rightarrow> nat \<Rightarrow> nat \<Rightarrow> redo \<Rightarrow> (bool \<times> redo) option" where
  "flush_lines L tid newCombIndex rd =
     (let offset = newCombIndex * g_main_size L
      in if rd_copy rd tid then
           flushCopy tid (cb_root (rd_combs rd newCombIndex)) (used_size L offset (rd_mem rd)) rd \<bind> (\<lambda>(ok, rd1).
             Some (ok, if ok then upd_comb newCombIndex (\<lambda>cb. cb\<lparr>cb_flushcopy := False\<rparr>)
                                    (rd1\<lparr>rd_copy := (rd_copy rd1)(tid := False)\<rparr>) else rd1))
         else Some (True, rd\<lparr>rd_mem := pm_exec (flushDeferredPWBs (cb_clsets (rd_combs rd newCombIndex)) offset) (rd_mem rd)\<rparr>))"

definition switch :: "region \<Rightarrow> nat \<Rightarrow> SeqTidIdx \<Rightarrow> SeqTidIdx \<Rightarrow> SeqTidIdx \<Rightarrow> nat \<Rightarrow> nat \<Rightarrow> State \<Rightarrow> redo \<Rightarrow> attempt" where
  "switch L tid cComb ltail newTicket newCombIndex lastIdx newState rd =
     (let seqltail = sti2seq cComb;
          newState' = newState\<lparr>st_logSize := st_lSize newState\<rparr>;
          rd1 = set_state tid lastIdx newState' (upd_comb newCombIndex
            (\<lambda>cb. cb\<lparr>cb_clsets := aggr_reset (cb_clsets cb), cb_head := newTicket, cb_rwLock := downgrade MAX_THREADS (cb_rwLock cb)\<rparr>) rd);
          newcComb = makeSeqTidIdx (seqltail + 1) (of_nat tid) (of_nat newCombIndex);
          (won, m) = curComb_cas cComb newcComb (rd_mem rd1);
          rd2 = rd1\<lparr>rd_mem := m\<rparr>
      in if won then
           (let rd3 = upd_lock (unat (sti2idx cComb)) setReadUnlock rd2;
                k = unat (seqltail + 1) mod RINGSIZE; oldTicket = rd_ring rd3 k;
                rd4 = (if sti2seq oldTicket < seqltail + 1
                       then ring_cas k oldTicket newTicket (rd3\<lparr>rd_mem := pwb_curComb L (rd_mem rd3)\<rparr>) else rd3);
                last = lastIdx + 1;
                rd5 = rd4\<lparr>rd_sauron := (rd_sauron rd4)(tid := (rd_sauron rd4 tid)\<lparr>ss_lastIdx := (if last = STATESSIZE then 0 else last)\<rparr>)\<rparr>
            in Done (st_results newState' tid) rd5)
         else Again None (upd_comb newCombIndex
                (\<lambda>cb. cb\<lparr>cb_head := ltail, cb_rwLock := setReadUnlock (cb_rwLock cb)\<rparr>)
                (undo (newCombIndex * g_main_size L) newState' rd2)))"

definition commit :: "region \<Rightarrow> nat \<Rightarrow> SeqTidIdx \<Rightarrow> SeqTidIdx \<Rightarrow> SeqTidIdx \<Rightarrow> nat \<Rightarrow> nat \<Rightarrow> State \<Rightarrow> redo \<Rightarrow> attempt option" where
  "commit L tid cComb ltail newTicket newCombIndex lastIdx newState rd =
     (let offset = newCombIndex * g_main_size L
      in collect_lines L tid newCombIndex newState rd \<bind> (\<lambda>rd1.
         if cComb \<noteq> curComb rd1 then Some (Again (Some newCombIndex) (undo offset newState rd1))
         else flush_lines L tid newCombIndex rd1 \<bind> (\<lambda>(ok, rd2).
           if \<not> ok then Some (Leave (Some newCombIndex) (undo offset newState rd2))
           else Some (switch L tid cComb ltail newTicket newCombIndex lastIdx newState rd2))))"

text \<open>Bringing a replica up to date, and running the requests on it.\<close>

definition update_replica :: "env \<Rightarrow> region \<Rightarrow> nat \<Rightarrow> nat \<Rightarrow> u64 \<Rightarrow> SeqTidIdx \<Rightarrow> redo \<Rightarrow> (bool \<times> redo) option" where
  "update_replica ev L tid newCombIndex initCombSeq ltail rd =
     (let lastAppliedTicket = cb_head (rd_combs rd newCombIndex)
      in if lastAppliedTicket = mark then makeCopy ev L newCombIndex tid rd
         else apply_redologs ev L newCombIndex initCombSeq lastAppliedTicket ltail tid
                (rd\<lparr>rd_copy := (rd_copy rd)(tid := cb_flushcopy (rd_combs rd newCombIndex))\<rparr>))"

definition run_requests :: "region \<Rightarrow> nat \<Rightarrow> SeqTidIdx \<Rightarrow> SeqTidIdx \<Rightarrow> SeqTidIdx \<Rightarrow> nat \<Rightarrow> nat \<Rightarrow> redo \<Rightarrow> attempt option" where
  "run_requests L tid cComb ltail newTicket newCombIndex lastIdx rd =
     (let offset = newCombIndex * g_main_size L;
          newState = ss_states (rd_sauron rd tid) lastIdx;
          tv = \<lparr>tl_st = newState, tl_cx_size = offset, tl_copy = rd_copy rd tid\<rparr>
      in help_loop L rd cComb [0..<MAX_THREADS] False tv (rd_mem rd) \<bind> (\<lambda>(atleastone, tv1, m1).
         let newState1 = tl_st tv1;
             rd1 = set_state tid lastIdx newState1 (rd\<lparr>rd_mem := m1, rd_copy := (rd_copy rd)(tid := tl_copy tv1)\<rparr>)
         in if \<not> atleastone then Some (Again (Some newCombIndex) rd1)
            else commit L tid cComb ltail newTicket newCombIndex lastIdx newState1 rd1))"

definition write_iter :: "env \<Rightarrow> region \<Rightarrow> nat \<Rightarrow> bool \<Rightarrow> u64 \<Rightarrow> nat option \<Rightarrow> redo \<Rightarrow> attempt option" where
  "write_iter ev L tid newrequest initCombSeq newComb rd =
     (let lastIdx = ss_lastIdx (rd_sauron rd tid);
          cComb = curComb rd; seqltail = sti2seq cComb; ltail = cb_head (rd_combs rd (unat (sti2idx cComb)))
      in if seqltail \<ge> initCombSeq + 2 then Some (Leave newComb rd)
         else if cComb \<noteq> curComb rd then Some (Again newComb rd)
         else state_at rd ltail \<bind> (\<lambda>tail_state.
         if newrequest = st_applied tail_state tid
         then Some (if cComb = curComb rd then Leave newComb rd else Again newComb rd)
         else let newTicket = makeSeqTidIdx (seqltail + 1) (of_nat tid) (of_nat lastIdx);
                  rd1 = set_state tid lastIdx (prepare_state newTicket tail_state (ss_states (rd_sauron rd tid) lastIdx)) rd
              in if cComb \<noteq> curComb rd1 then Some (Again newComb rd1)
                 else case help_ring L seqltail ltail rd1 of
                   None \<Rightarrow> Some (Again newComb rd1)
                 | Some rd2 \<Rightarrow>
                     (case (case newComb of None \<Rightarrow> getNewComb ev cComb rd2 | Some i \<Rightarrow> (Some i, rd2)) of
                        (None, rd3) \<Rightarrow> Some (Again None rd3)
                      | (Some newCombIndex, rd3) \<Rightarrow>
                          update_replica ev L tid newCombIndex initCombSeq ltail rd3 \<bind> (\<lambda>(ok, rd4).
                          if \<not> ok then Some (Leave (Some newCombIndex) rd4)
                          else if cComb \<noteq> curComb rd4 then Some (Again (Some newCombIndex) rd4)
                          else run_requests L tid cComb ltail newTicket newCombIndex lastIdx rd4))))"

text \<open>The result another thread left for the request.\<close>

definition write_helped :: "region \<Rightarrow> nat \<Rightarrow> nat option \<Rightarrow> redo \<Rightarrow> (u64 \<times> redo) option" where
  "write_helped L tid newComb rd =
     (let rd1 = (case newComb of None \<Rightarrow> rd | Some i \<Rightarrow> upd_lock i (exclusiveUnlock MAX_THREADS) rd);
          cComb = curComb rd1; combSeq = sti2seq cComb;
          head = cb_head (rd_combs rd1 (unat (sti2idx cComb)));
          k = unat combSeq mod RINGSIZE;
          (t, rd2) = (if sti2seq head \<noteq> combSeq then (rd_ring rd1 k, rd1)
                      else (head, let oldTicket = rd_ring rd1 k
                                  in if sti2seq oldTicket < combSeq
                                     then ring_cas k oldTicket head (rd1\<lparr>rd_mem := pwb_curComb L (rd_mem rd1)\<rparr>) else rd1))
      in state_at rd2 t \<bind> (\<lambda>tstate. Some (st_results tstate tid, rd2)))"

fun write_loop :: "env \<Rightarrow> region \<Rightarrow> nat \<Rightarrow> bool \<Rightarrow> u64 \<Rightarrow> nat \<Rightarrow> nat option \<Rightarrow> redo \<Rightarrow> (u64 \<times> redo) option" where
  "write_loop ev L tid newrequest initCombSeq 0 newComb rd = write_helped L tid newComb rd"
| "write_loop ev L tid newrequest initCombSeq (Suc n) newComb rd =
     write_iter ev L tid newrequest initCombSeq newComb rd \<bind> (\<lambda>a.
       case a of
         Done r rd1 \<Rightarrow> Some (r, rd1)
       | Again nc rd1 \<Rightarrow> write_loop ev L tid newrequest initCombSeq n nc rd1
       | Leave nc rd1 \<Rightarrow> write_helped L tid nc rd1)"

text \<open>A transaction within one runs its lambda in place; it is part of the body here.\<close>

definition ns_write_transaction :: "env \<Rightarrow> region \<Rightarrow> nat \<Rightarrow> tx \<Rightarrow> redo \<Rightarrow> (u64 \<times> redo) option" where
  "ns_write_transaction ev L tid t rd =
     (let (newrequest, rd1) = publish tid t rd
      in write_loop ev L tid newrequest (sti2seq (curComb rd1)) 2 None rd1)"
subsection \<open>Read-only transactions\<close>

text \<open>A store in a read-only transaction would go through the null pointer st.\<close>

primrec tx_read :: "region \<Rightarrow> nat \<Rightarrow> tx \<Rightarrow> pm \<Rightarrow> u64 option" where
  "tx_read L cx_size (Ret r) m = Some r"
| "tx_read L cx_size (Load n a k) m = tx_read L cx_size (k (pload L cx_size n a m)) m"
| "tx_read L cx_size (Store n a v t) m = None"

datatype read_attempt = Answer u64 redo | Retry redo

definition read_iter :: "region \<Rightarrow> nat \<Rightarrow> tx \<Rightarrow> redo \<Rightarrow> read_attempt option" where
  "read_iter L tid t rd =
     (let cComb = curComb rd; curCombIndex = unat (sti2idx cComb);
          (ok, lk) = sharedTryLock tid (cb_rwLock (rd_combs rd curCombIndex));
          rd1 = upd_lock curCombIndex (\<lambda>_. lk) rd;
          unlocked = upd_lock curCombIndex (sharedUnlock tid) rd1;
          ticket = cb_head (rd_combs rd1 curCombIndex)
      in if ok then
           (if cComb = curComb rd1 \<and> sti2seq ticket = sti2seq cComb then
              tx_read L (curCombIndex * g_main_size L) t (rd_mem rd1) \<bind> (\<lambda>ret.
                let ringtail = rd_ring unlocked (unat (sti2seq ticket) mod RINGSIZE)
                in Some (Answer ret (if sti2seq ringtail < sti2seq ticket
                     then unlocked\<lparr>rd_mem := pm_exec1 Fence (pwb_curComb L (rd_mem unlocked))\<rparr> else unlocked)))
            else Some (Retry unlocked))
         else Some (Retry rd1))"

text \<open>After ten failed attempts the transaction is published as a request; two more follow.\<close>

definition read_helped :: "region \<Rightarrow> nat \<Rightarrow> redo \<Rightarrow> (u64 \<times> redo) option" where
  "read_helped L tid rd =
     (let cComb = curComb rd; rd1 = rd\<lparr>rd_mem := pm_exec1 Fence (pwb_curComb L (rd_mem rd))\<rparr>;
          t0 = cb_head (rd_combs rd1 (unat (sti2idx cComb))); combSeq = sti2seq cComb;
          t = (if sti2seq t0 \<noteq> combSeq then rd_ring rd1 (unat combSeq mod RINGSIZE) else t0)
      in state_at rd1 t \<bind> (\<lambda>tstate. Some (st_results tstate tid, rd1)))"

function read_loop :: "region \<Rightarrow> nat \<Rightarrow> tx \<Rightarrow> nat \<Rightarrow> redo \<Rightarrow> (u64 \<times> redo) option" where
  "read_loop L tid t i rd =
     (if i < MAX_READ_TRIES + 2 then
        (let rd1 = (if i = MAX_READ_TRIES then snd (publish tid t rd) else rd)
         in read_iter L tid t rd1 \<bind> (\<lambda>a. case a of Answer r rd2 \<Rightarrow> Some (r, rd2) | Retry rd2 \<Rightarrow> read_loop L tid t (i + 1) rd2))
      else read_helped L tid rd)"
  by pat_completeness auto
termination by (relation "measure (\<lambda>(L, tid, t, i, rd). MAX_READ_TRIES + 2 - i)") auto

declare read_loop.simps [simp del]

definition ns_read_transaction :: "region \<Rightarrow> nat \<Rightarrow> tx \<Rightarrow> redo \<Rightarrow> (u64 \<times> redo) option" where
  "ns_read_transaction L tid t rd = read_loop L tid t 0 rd"

subsection \<open>Opening the region\<close>

abbreviation (input) MAGIC_ID :: u64 where "MAGIC_ID \<equiv> 0x1337BAB8"

definition objects_ptr :: "region \<Rightarrow> pm \<Rightarrow> nat" where
  "objects_ptr L m = unat (get_bytes 8 (base_addr L + 16) m)"

definition get_object :: "region \<Rightarrow> nat \<Rightarrow> nat \<Rightarrow> pm \<Rightarrow> u64" where
  "get_object L cx_size idx m = pload L cx_size 8 (objects_ptr L m + 8 * idx) m"

definition put_object :: "region \<Rightarrow> nat \<Rightarrow> u64 \<Rightarrow> varLocal \<times> pm \<Rightarrow> (varLocal \<times> pm) option" where
  "put_object L idx obj = (\<lambda>(tv, m). pstore L 8 (objects_ptr L m + 8 * idx) obj (tv, m))"

text \<open>The sizes that follow from the size of the file.\<close>

definition layout :: "nat \<Rightarrow> nat \<Rightarrow> region" where
  "layout base max_size = (let sz = (max_size - 1024) div MAX_COMBINEDS in \<lparr>g_main_addr = base + 1024, g_main_size = sz div 1024 * 1024\<rparr>)"

definition redo_new :: "pm \<Rightarrow> redo" where
  "redo_new m = \<lparr>rd_mem = m, rd_combs = (\<lambda>_. Combined_new), rd_sauron = (\<lambda>_. States_new), rd_ring = (\<lambda>_. 0),
     rd_enqueuers = (\<lambda>_. None), rd_announce = (\<lambda>_. False), rd_copyTime = 100000, rd_copy = (\<lambda>_. False)\<rparr>"

definition set_roots :: "region \<Rightarrow> redo \<Rightarrow> redo" where
  "set_roots L rd = rd\<lparr>rd_combs := (\<lambda>i. if i < MAX_COMBINEDS
     then (rd_combs rd i)\<lparr>cb_root := g_main_addr L + i * g_main_size L\<rparr> else rd_combs rd i)\<rparr>"

text \<open>
  The first transaction clears the pool and allocates the directory of objects, whose address
  is a plain word of the header. The allocator's operations are given as what they add to the
  body of a transaction.
\<close>

definition create_tx :: "region \<Rightarrow> (tx \<Rightarrow> tx) \<Rightarrow> (nat \<Rightarrow> (u64 \<Rightarrow> tx) \<Rightarrow> tx) \<Rightarrow> tx" where
  "create_tx L esloco_init esloco_malloc =
     esloco_init (esloco_malloc (8 * NUM_OBJS) (\<lambda>objects. Store 8 (base_addr L + 16) objects
       (foldr (\<lambda>i t. Store 8 (unat objects + 8 * i) 0 t) [0..<NUM_OBJS] (Ret 1))))"

definition createFile :: "env \<Rightarrow> region \<Rightarrow> (tx \<Rightarrow> tx) \<Rightarrow> (nat \<Rightarrow> (u64 \<Rightarrow> tx) \<Rightarrow> tx) \<Rightarrow> nat \<Rightarrow> redo \<Rightarrow> redo option" where
  "createFile ev L esloco_init esloco_malloc tid rd =
     (let m1 = put_bytes 8 (base_addr L) 0 (rd_mem rd); m2 = pm_exec1 (St LState 0) m1; m3 = put_bytes 8 (base_addr L + 16) 0 m2;
          rd1 = set_roots L (rd\<lparr>rd_mem := pwb_curComb L m3\<rparr>);
          rd2 = upd_lock (unat (sti2idx (curComb rd1))) setReadLock rd1
      in ns_write_transaction ev L tid (create_tx L esloco_init esloco_malloc) rd2 \<bind> (\<lambda>(_, rd3).
         let m4 = put_bytes 8 (base_addr L) MAGIC_ID (pm_exec1 Fence (rd_mem rd3))
         in Some (rd3\<lparr>rd_mem := pm_exec [Pwb (LByte (base_addr L)), Fence] m4\<rparr>)))"

text \<open>After a restart only the current replica is trusted; the others are to be copied.\<close>

definition open_region :: "region \<Rightarrow> redo \<Rightarrow> redo" where
  "open_region L rd =
     (let combidx = unat (sti2idx (curComb rd));
          rd1 = set_roots L rd;
          rd2 = rd1\<lparr>rd_combs := (\<lambda>i. if i < MAX_COMBINEDS
                   then (rd_combs rd1 i)\<lparr>cb_head := (if i \<noteq> combidx then mark else 0)\<rparr> else rd_combs rd1 i)\<rparr>;
          rd3 = upd_lock combidx setReadLock rd2
      in rd3\<lparr>rd_mem := pm_exec1 (St LState (makeSeqTidIdx 0 0 (of_nat combidx))) (rd_mem rd3)\<rparr>)"

definition RedoOpt :: "env \<Rightarrow> region \<Rightarrow> (tx \<Rightarrow> tx) \<Rightarrow> (nat \<Rightarrow> (u64 \<Rightarrow> tx) \<Rightarrow> tx) \<Rightarrow> bool \<Rightarrow> nat \<Rightarrow> pm \<Rightarrow> redo option" where
  "RedoOpt ev L esloco_init esloco_malloc file_exists tid m =
     (let rd = redo_new m
      in if \<not> file_exists then createFile ev L esloco_init esloco_malloc tid rd
         else (if get_bytes 8 (base_addr L) m \<noteq> MAGIC_ID then createFile ev L esloco_init esloco_malloc tid rd else Some rd) \<bind>
              (\<lambda>rd1. Some (open_region L rd1)))"
subsection \<open>Locks of the replicas\<close>

text \<open>Alone, a search finds a replica that is not read and not the current one.\<close>

definition lockable :: "redo \<Rightarrow> nat \<Rightarrow> bool" where
  "lockable rd i \<longleftrightarrow> fst (exclusiveTryLock MAX_THREADS (cb_rwLock (rd_combs rd i)))"

abbreviation locked :: "nat \<Rightarrow> redo \<Rightarrow> redo" where
  "locked i rd \<equiv> upd_lock i (\<lambda>lk. snd (exclusiveTryLock MAX_THREADS lk)) rd"

definition scan_ok :: "redo \<Rightarrow> found \<times> redo \<Rightarrow> bool" where
  "scan_ok rd r \<longleftrightarrow> r = (Nothing, rd) \<or> (\<exists>j < MAX_COMBINEDS. lockable rd j \<and> r = (Found j, locked j rd))"

lemma scan_cases:
  assumes "\<forall>i\<in>set is. i < MAX_COMBINEDS"
  shows "scan_ok rd (getNewComb_scan (curComb rd) is rd)
    \<and> ((\<exists>i\<in>set is. lockable rd i) \<longrightarrow> fst (getNewComb_scan (curComb rd) is rd) \<noteq> Nothing)"
  using assms
proof (induction "is")
  case Nil then show ?case by (simp add: scan_ok_def)
next
  case (Cons i "is")
  let ?lk = "cb_rwLock (rd_combs rd i)"
  obtain ok lk where e: "exclusiveTryLock MAX_THREADS ?lk = (ok, lk)" by (rule prod.exhaust)
  show ?case
  proof (cases ok)
    case True
    then show ?thesis using e Cons.prems by (auto simp: scan_ok_def lockable_def)
  next
    case False
    then have "lk = ?lk" using exclusiveTryLock_failed [of MAX_THREADS ?lk] e by simp
    then show ?thesis using False e Cons by (auto simp: lockable_def)
  qed
qed

lemma or_else_ok: "scan_ok rd r \<Longrightarrow> scan_ok rd (f rd) \<Longrightarrow> scan_ok rd (or_else r f)"
  "scan_ok rd r \<Longrightarrow> fst (f rd) \<noteq> Nothing \<Longrightarrow> fst (or_else r f) \<noteq> Nothing"
  by (auto simp: scan_ok_def or_else_def)

lemma spin_ok: "scan_ok rd (getNewComb_spin (curComb rd) n rd)"
proof (induction n)
  case 0 then show ?case by (simp add: scan_ok_def)
next
  case (Suc n)
  have "scan_ok rd (getNewComb_scan (curComb rd) [0..<2] rd)" using scan_cases [of "[0..<2]" rd] by simp
  with Suc show ?case by (auto simp: scan_ok_def)
qed

lemma getNewComb_ok:
  assumes "\<exists>i<MAX_COMBINEDS. lockable rd i"
  obtains j where "j < MAX_COMBINEDS" "lockable rd j" "getNewComb ev (curComb rd) rd = (Some j, locked j rd)"
proof -
  have nil: "scan_ok rd (Nothing, rd)" by (simp add: scan_ok_def)
  have all: "\<forall>i\<in>set [0..<MAX_COMBINEDS]. i < MAX_COMBINEDS" by simp
  have low: "\<forall>i\<in>set [k..<2]. i < MAX_COMBINEDS" for k by simp
  define r where "r = or_else (or_else (or_else
           (if ev_maxThreads ev > 1 then getNewComb_scan (curComb rd) [unat (sti2idx (curComb rd)) + 1..<2] rd else (Nothing, rd))
           (\<lambda>rd'. if rd_copyTime rd' = 0 then getNewComb_scan (curComb rd) [0..<MAX_COMBINEDS] rd' else (Nothing, rd')))
           (\<lambda>rd'. getNewComb_spin (curComb rd) (if rd_copyTime rd' = 0 then 0 else ev_spins ev) rd'))
           (getNewComb_scan (curComb rd) [0..<MAX_COMBINEDS])"
  have first: "scan_ok rd (or_else (or_else
           (if ev_maxThreads ev > 1 then getNewComb_scan (curComb rd) [unat (sti2idx (curComb rd)) + 1..<2] rd else (Nothing, rd))
           (\<lambda>rd'. if rd_copyTime rd' = 0 then getNewComb_scan (curComb rd) [0..<MAX_COMBINEDS] rd' else (Nothing, rd')))
           (\<lambda>rd'. getNewComb_spin (curComb rd) (if rd_copyTime rd' = 0 then 0 else ev_spins ev) rd'))"
    using scan_cases [OF all, of rd] scan_cases [OF low, of rd] nil spin_ok by (intro or_else_ok(1)) auto
  have ok: "scan_ok rd r" "fst r \<noteq> Nothing"
    unfolding r_def using scan_cases [OF all, of rd] assms by (intro or_else_ok [OF first]; auto)+
  then obtain j where j: "j < MAX_COMBINEDS" "lockable rd j" "r = (Found j, locked j rd)" by (auto simp: scan_ok_def)
  have "getNewComb ev (curComb rd) rd = (case r of (r, rd') \<Rightarrow> (case r of Found i \<Rightarrow> Some i | _ \<Rightarrow> None, rd'))"
    by (simp only: getNewComb_def r_def Let_def)
  then show thesis using that j by simp
qed

subsection \<open>Specification and invariant\<close>

text \<open>The requests are served one after the other, each on the heap the last one left.\<close>

fun serve :: "(nat \<Rightarrow> tx option) \<Rightarrow> nat list \<Rightarrow> (nat \<Rightarrow> u64) \<Rightarrow> (nat \<Rightarrow> u64) \<Rightarrow> (nat \<Rightarrow> u64) \<times> (nat \<Rightarrow> u64)" where
  "serve enq [] res W = (res, W)"
| "serve enq (i # is) res W =
     (let (r, W') = tx_spec (the (enq i)) W in serve enq is (res(i := r)) W')"

text \<open>The pool grows upwards from the start of the heap; its top is the first word (EsLoco).\<close>

definition heap_used :: "region \<Rightarrow> (nat \<Rightarrow> u64) \<Rightarrow> nat" where
  "heap_used L W = unat (W (g_main_addr L) - of_nat (g_main_addr L))"

definition zero_beyond :: "region \<Rightarrow> nat \<Rightarrow> (nat \<Rightarrow> u64) \<Rightarrow> bool" where
  "zero_beyond L n W \<longleftrightarrow> (\<forall>a. g_main_addr L + n \<le> a \<longrightarrow> W a = 0)"

definition heap_ok :: "region \<Rightarrow> (nat \<Rightarrow> u64) \<Rightarrow> bool" where
  "heap_ok L W \<longleftrightarrow> heap_used L W \<le> g_main_size L \<and> heap_used L W mod 8 = 0 \<and> zero_beyond L (heap_used L W) W"

text \<open>A request is a body that keeps to the pool.\<close>

definition req_ok :: "region \<Rightarrow> tx \<Rightarrow> bool" where
  "req_ok L t \<longleftrightarrow> tx_ok L t \<and>
     (\<forall>W. heap_ok L W \<longrightarrow> heap_ok L (snd (tx_spec t W)) \<and> heap_used L W \<le> heap_used L (snd (tx_spec t W)))"

abbreviation rep :: "region \<Rightarrow> redo \<Rightarrow> nat \<Rightarrow> nat \<Rightarrow> u64" where
  "rep L rd j \<equiv> replica L (j * g_main_size L) (rd_mem rd)"

definition cur_idx :: "redo \<Rightarrow> nat" where "cur_idx rd = unat (sti2idx (curComb rd))"
definition cur_seq :: "redo \<Rightarrow> nat" where "cur_seq rd = unat (sti2seq (curComb rd))"

definition last_state :: "redo \<Rightarrow> State" where
  "last_state rd = the (state_at rd (cb_head (rd_combs rd (cur_idx rd))))"

definition open_requests :: "redo \<Rightarrow> nat list" where
  "open_requests rd = filter (\<lambda>i. rd_announce rd i \<noteq> st_applied (last_state rd) i) [0..<MAX_THREADS]"

text \<open>The versions of the heap by sequence number: each replica has one of them, or is to be copied.\<close>

definition rep_inv :: "region \<Rightarrow> redo \<Rightarrow> (nat \<Rightarrow> nat \<Rightarrow> u64) \<Rightarrow> bool" where
  "rep_inv L rd hist \<longleftrightarrow> cur_idx rd < MAX_COMBINEDS \<and> rep L rd (cur_idx rd) = hist (cur_seq rd) \<and> heap_ok L (hist (cur_seq rd))
     \<and> (\<forall>s\<le>cur_seq rd. zero_beyond L (heap_used L (hist (cur_seq rd))) (hist s))
     \<and> (\<forall>j<MAX_COMBINEDS. zero_beyond L (heap_used L (hist (cur_seq rd))) (rep L rd j))
     \<and> (\<forall>j<MAX_COMBINEDS. j \<noteq> cur_idx rd \<and> cb_head (rd_combs rd j) \<noteq> mark \<longrightarrow>
          unat (sti2seq (cb_head (rd_combs rd j))) \<le> cur_seq rd \<and> rep L rd j = hist (unat (sti2seq (cb_head (rd_combs rd j)))))"

definition comb_inv :: "region \<Rightarrow> redo \<Rightarrow> bool" where
  "comb_inv L rd \<longleftrightarrow> (\<forall>j<MAX_COMBINEDS. cb_root (rd_combs rd j) = g_main_addr L + j * g_main_size L
       \<and> ticket_ok (cb_head (rd_combs rd j)) \<and> ag_wf (cb_clsets (rd_combs rd j)))
     \<and> unat (sti2seq (cb_head (rd_combs rd (cur_idx rd)))) = cur_seq rd
     \<and> (\<forall>k. ticket_ok (rd_ring rd k) \<and> unat (sti2seq (rd_ring rd k)) \<le> cur_seq rd)"

text \<open>Only the current replica is locked, for readers.\<close>

definition locks_inv :: "redo \<Rightarrow> bool" where
  "locks_inv rd \<longleftrightarrow> (\<forall>j<MAX_COMBINEDS. if j = cur_idx rd then snd (wstate (cb_rwLock (rd_combs rd j))) = RLOCK
     else snd (wstate (cb_rwLock (rd_combs rd j))) = NOLOCK \<or> snd (wstate (cb_rwLock (rd_combs rd j))) = HLOCK)"

text \<open>The log of a version leads to it from the version before, as long as its state is not reused.\<close>

definition log_inv :: "region \<Rightarrow> State \<Rightarrow> nat \<Rightarrow> (nat \<Rightarrow> nat \<Rightarrow> u64) \<Rightarrow> bool" where
  "log_inv L st q hist \<longleftrightarrow> (let s = unat (sti2seq (st_ticket st)) in 1 \<le> s \<and> s \<le> q \<longrightarrow>
     ws_ok st \<and> st_logSize st = st_lSize st \<and> log_between (ws_view st) (hist (s - 1)) (hist s)
     \<and> (\<forall>a\<in>fst ` set (ws_view st). paddr L a))"

definition state_inv :: "region \<Rightarrow> redo \<Rightarrow> (nat \<Rightarrow> nat \<Rightarrow> u64) \<Rightarrow> bool" where
  "state_inv L rd hist \<longleftrightarrow> (\<forall>tid<MAX_THREADS. ss_lastIdx (rd_sauron rd tid) < STATESSIZE
     \<and> (\<forall>idx<STATESSIZE. st_shape (ss_states (rd_sauron rd tid) idx)
          \<and> log_inv L (ss_states (rd_sauron rd tid) idx) (cur_seq rd) hist))"

definition fresh_inv :: "redo \<Rightarrow> bool" where
  "fresh_inv rd \<longleftrightarrow> (\<forall>tid<MAX_THREADS. \<forall>idx<STATESSIZE.
     unat (sti2seq (st_ticket (ss_states (rd_sauron rd tid) idx))) \<le> cur_seq rd)"

definition request_inv :: "region \<Rightarrow> redo \<Rightarrow> bool" where
  "request_inv L rd \<longleftrightarrow> (\<forall>i\<in>set (open_requests rd). \<exists>t. rd_enqueuers rd i = Some t \<and> req_ok L t)"

definition redo_inv :: "region \<Rightarrow> redo \<Rightarrow> (nat \<Rightarrow> nat \<Rightarrow> u64) \<Rightarrow> bool" where
  "redo_inv L rd hist \<longleftrightarrow> region_ok L \<and> rep_inv L rd hist \<and> comb_inv L rd \<and> locks_inv rd
     \<and> state_inv L rd hist \<and> fresh_inv rd \<and> request_inv L rd"
subsection \<open>Bringing a replica up to date\<close>

text \<open>What stays as it was while replica j is written.\<close>

definition same_others :: "region \<Rightarrow> nat \<Rightarrow> pm \<Rightarrow> pm \<Rightarrow> bool" where
  "same_others L j m m' \<longleftrightarrow> pm_cur m' LState = pm_cur m LState
     \<and> (\<forall>k. k \<noteq> j \<longrightarrow> replica L (k * g_main_size L) m' = replica L (k * g_main_size L) m)"

lemma same_others_refl [simp]: "same_others L j m m"
  by (simp add: same_others_def)

lemma same_others_trans: "same_others L j m1 m2 \<Longrightarrow> same_others L j m2 m3 \<Longrightarrow> same_others L j m1 m3"
  by (simp add: same_others_def)

lemma same_others_cur: "pm_cur m' = pm_cur m \<Longrightarrow> same_others L j m m'"
  using replica_cur [of m' m] by (simp add: same_others_def)

lemma put_words_state: "pm_cur (put_words off xs m) LState = pm_cur m LState"
  by (induction xs arbitrary: m) (auto simp: cur_put_bytes)

lemma same_others_put_words:
  assumes "region_ok L" "\<forall>a\<in>fst ` set xs. paddr L a"
  shows "same_others L j m (put_words (j * g_main_size L) xs m)"
  using replica_put_words_other [OF assms(2,1)] by (simp add: same_others_def put_words_state)

definition comb_frame :: "region \<Rightarrow> nat \<Rightarrow> redo \<Rightarrow> redo \<Rightarrow> bool" where
  "comb_frame L j rd rd' \<longleftrightarrow> same_others L j (rd_mem rd) (rd_mem rd')
     \<and> (\<forall>k. k \<noteq> j \<longrightarrow> rd_combs rd' k = rd_combs rd k)
     \<and> cb_root (rd_combs rd' j) = cb_root (rd_combs rd j) \<and> cb_rwLock (rd_combs rd' j) = cb_rwLock (rd_combs rd j)
     \<and> (ag_wf (cb_clsets (rd_combs rd j)) \<longrightarrow> ag_wf (cb_clsets (rd_combs rd' j)))
     \<and> rd_sauron rd' = rd_sauron rd \<and> rd_ring rd' = rd_ring rd \<and> rd_enqueuers rd' = rd_enqueuers rd \<and> rd_announce rd' = rd_announce rd"

lemma comb_frame_refl [simp]: "comb_frame L j rd rd"
  by (simp add: comb_frame_def)

lemma comb_frame_trans: "comb_frame L j a b \<Longrightarrow> comb_frame L j b c \<Longrightarrow> comb_frame L j a c"
  unfolding comb_frame_def by (auto intro: same_others_trans)

lemma comb_frame_cur: "comb_frame L j rd rd' \<Longrightarrow> curComb rd' = curComb rd"
  by (simp add: comb_frame_def same_others_def)

lemma comb_frame_state_at: "comb_frame L j rd rd' \<Longrightarrow> state_at rd' t = state_at rd t"
  by (simp add: comb_frame_def state_at_def)

lemma comb_frame_mem: "same_others L j (rd_mem rd) m \<Longrightarrow> comb_frame L j rd (rd\<lparr>rd_mem := m\<rparr>)"
  by (simp add: comb_frame_def)

lemma used_size_rep:
  assumes "region_ok L"
  shows "used_size L (j * g_main_size L) m = heap_used L (replica L (j * g_main_size L) m)"
proof -
  from assms have "g_main_addr L mod 64 = 0" "0 < g_main_size L" by (auto simp: region_ok_def)
  then have "g_main_addr L mod 8 = 0" "ADDR_IS_IN_MAIN L (g_main_addr L)" unfolding ADDR_IS_IN_MAIN_def by presburger+
  then show ?thesis by (simp add: used_size_def heap_used_def pload_def replica_def paddr_def)
qed

text \<open>Sequence numbers stay below 2 ^ 40, so that one and two more do not wrap.\<close>

lemma seq_add:
  assumes "unat (s :: u64) < 2 ^ 40" "unat k \<le> 2"
  shows "unat (s + k) = unat s + unat k"
proof -
  have "unat s + unat k < 2 ^ LENGTH(64)" using assms by simp
  then show ?thesis by (simp add: unat_word_ariths)
qed

lemma seq_not_ahead: "\<not> sti2seq c \<ge> sti2seq c + 2"
proof -
  have "unat (sti2seq c + 2) = unat (sti2seq c) + 2" using seq_add [OF sti_bounds(1), of 2] by simp
  then show ?thesis unfolding word_le_nat_alt by simp
qed

lemma copy_log_step:
  assumes L: "region_ok L" and ok: "ws_ok st" "st_logSize st = st_lSize st" "\<forall>a\<in>fst ` set (ws_view st). paddr L a"
    and b: "log_between (ws_view st) W W'" and r: "replica L (j * g_main_size L) m = W"
  shows "\<exists>m'. (if st_logSize st > 0 then copy_redolog L st (st_logSize st) (j * g_main_size L) m else Some m) = Some m'
    \<and> same_others L j m m' \<and> replica L (j * g_main_size L) m' = W'"
proof (cases "st_lSize st = 0")
  case True
  then have "ws_view st = []" using length_ws_view [of st] by (metis length_0_conv)
  then have "W' = W" using log_between_redo [OF b] by (simp add: news_def)
  then show ?thesis using True ok(2) r by simp
next
  case False
  have ad: "\<forall>a\<in>fst ` set (news (ws_view st)). paddr L a" using ok(3) by (simp add: news_addrs)
  have main: "\<forall>a\<in>fst ` set (ws_view st). ADDR_IS_IN_MAIN L a" using ok(3) by (simp add: paddr_def)
  let ?m' = "put_words (j * g_main_size L) (news (ws_view st)) m"
  have "copy_redolog L st (st_lSize st) (j * g_main_size L) m = Some ?m'"
    using copy_redolog_ok [OF ok(1) _ main] False by simp
  moreover have "replica L (j * g_main_size L) ?m' = W'"
    using replica_put_words [OF ad region_offset [OF L], of j m] log_between_redo [OF b] r by simp
  ultimately show ?thesis using False ok(2) same_others_put_words [OF L ad] by simp
qed

lemma apply_loop_ok:
  assumes L: "region_ok L" and st: "state_inv L rd hist" and ring: "\<forall>k. ticket_ok (rd_ring rd k)"
    and q: "lastSeq = cur_seq rd" "init = sti2seq (curComb rd)"
    and i: "1 \<le> i" "i \<le> lastSeq + 1" and r: "rep L rd j = hist (i - 1)"
  shows "\<exists>i' tk' m'. apply_loop L j init lastSeq i tk rd = Some (i', tk', False, rd\<lparr>rd_mem := m'\<rparr>)
    \<and> same_others L j (rd_mem rd) m' \<and> 1 \<le> i' \<and> i' \<le> lastSeq + 1 \<and> replica L (j * g_main_size L) m' = hist (i' - 1)"
  using assms
proof (induction "lastSeq + 1 - i" arbitrary: i tk rd)
  case 0
  then show ?case by (subst apply_loop.simps) (auto intro!: exI [of _ "rd_mem rd"])
next
  case (Suc n)
  let ?off = "j * g_main_size L" and ?t = "rd_ring rd (i mod RINGSIZE)"
  have i: "i \<le> lastSeq" using Suc.hyps(2) by simp
  then have ni: "\<not> i > lastSeq" by simp
  define as where "as = ss_states (rd_sauron rd (unat (sti2tid ?t))) (unat (sti2idx ?t))"
  have tok: "ticket_ok ?t" using Suc.prems(3) by blast
  then have at: "state_at rd ?t = Some as" by (simp add: state_at_def as_def)
  have at': "state_at (rd\<lparr>rd_mem := m\<rparr>) ?t = Some as" for m using tok by (simp add: state_at_def as_def)
  have stop: "\<exists>i' tk' m'. Some (i, Some ?t, False, rd) = Some (i', tk', False, rd\<lparr>rd_mem := m'\<rparr>)
    \<and> same_others L j (rd_mem rd) m' \<and> 1 \<le> i' \<and> i' \<le> lastSeq + 1 \<and> replica L ?off m' = hist (i' - 1)"
    using Suc.prems by (intro exI [of _ i] exI [of _ "Some ?t"] exI [of _ "rd_mem rd"]) simp
  consider "i \<noteq> unat (sti2seq ?t) \<or> ?t \<noteq> st_ticket as \<or> st_logSize as > used_size L ?off (rd_mem rd) div (8 * 10)"
    | (go) "i = unat (sti2seq ?t)" "?t = st_ticket as" "\<not> st_logSize as > used_size L ?off (rd_mem rd) div (8 * 10)" by blast
  then show ?case
  proof cases
    case 1
    then have "apply_loop L j init lastSeq i tk rd = Some (i, Some ?t, False, rd)"
      using i at by (subst apply_loop.simps) (auto simp: Let_def)
    then show ?thesis using stop by simp
  next
    case go
    have "log_inv L as (cur_seq rd) hist"
      using Suc.prems(2) tok by (simp add: state_inv_def as_def ticket_ok_def)
    then have as: "ws_ok as" "st_logSize as = st_lSize as" "log_between (ws_view as) (hist (i - 1)) (hist i)"
      "\<forall>a\<in>fst ` set (ws_view as). paddr L a"
      using go(1,2) Suc.prems(4,6) i by (auto simp: log_inv_def Let_def)
    from copy_log_step [OF L as(1,2,4,3) Suc.prems(8)] obtain m1 where
      m1: "(if st_logSize as > 0 then copy_redolog L as (st_logSize as) ?off (rd_mem rd) else Some (rd_mem rd)) = Some m1"
      "same_others L j (rd_mem rd) m1" "replica L ?off m1 = hist i" by blast
    let ?rd1 = "rd\<lparr>rd_mem := m1\<rparr>"
    have c1: "curComb ?rd1 = curComb rd" using m1(2) by (simp add: same_others_def)
    have step: "apply_loop L j init lastSeq i tk rd = apply_loop L j init lastSeq (i + 1) (Some ?t) ?rd1"
    proof -
      have "\<not> sti2seq (curComb ?rd1) \<ge> init + 2" unfolding c1 Suc.prems(5) by (rule seq_not_ahead)
      then show ?thesis using go ni at at' m1(1) by (subst apply_loop.simps) (simp add: Let_def)
    qed
    have "\<exists>i' tk' m'. apply_loop L j init lastSeq (i + 1) (Some ?t) ?rd1 = Some (i', tk', False, ?rd1\<lparr>rd_mem := m'\<rparr>)
      \<and> same_others L j (rd_mem ?rd1) m' \<and> 1 \<le> i' \<and> i' \<le> lastSeq + 1 \<and> replica L ?off m' = hist (i' - 1)"
    proof (rule Suc.hyps(1))
      show "n = lastSeq + 1 - (i + 1)" using Suc.hyps(2) by simp
      show "state_inv L ?rd1 hist" using Suc.prems(2) c1 by (simp add: state_inv_def cur_seq_def)
      show "lastSeq = cur_seq ?rd1" "init = sti2seq (curComb ?rd1)" using Suc.prems(4,5) c1 by (simp_all add: cur_seq_def)
    qed (use L Suc.prems(3) i m1(3) in auto)
    then show ?thesis unfolding step using same_others_trans [OF m1(2)] by fastforce
  qed
qed
lemma makeCopy_ok:
  assumes L: "region_ok L" and c: "cur_idx rd = c" and j: "j \<noteq> c"
    and root: "cb_root (rd_combs rd c) = g_main_addr L + c * g_main_size L" "cb_root (rd_combs rd j) = g_main_addr L + j * g_main_size L"
    and hd: "ticket_ok (cb_head (rd_combs rd c))" and op: "rd_announce rd tid \<noteq> st_applied (last_state rd) tid"
    and W: "rep L rd c = W" "heap_ok L W" "zero_beyond L (heap_used L W) (rep L rd j)"
  shows "\<exists>rd'. makeCopy ev L j tid rd = Some (True, rd') \<and> comb_frame L j rd rd' \<and> rep L rd' j = W"
proof -
  let ?rd1 = "upd_comb j (\<lambda>cb. cb\<lparr>cb_clsets := aggr_reset (cb_clsets cb), cb_head := mark\<rparr>) rd"
  let ?from = "g_main_addr L + c * g_main_size L" and ?to = "g_main_addr L + j * g_main_size L" and ?n = "heap_used L W"
  have f1: "comb_frame L j rd ?rd1" by (simp add: comb_frame_def aggr_reset_wf)
  have idx: "unat (sti2idx (curComb rd)) = c" using c by (simp add: cur_idx_def)
  have at: "state_at rd (cb_head (rd_combs rd c)) = Some (last_state rd)" using hd by (simp add: last_state_def state_at_def c)
  from W(2) have n: "?n \<le> g_main_size L" "?n mod 8 = 0" by (auto simp: heap_ok_def)
  have ap: "apart ?from ?to ?n"
  proof (cases "c < j")
    case True
    then have "(c + 1) * g_main_size L \<le> j * g_main_size L" by (intro mult_le_mono1) simp
    then show ?thesis using n(1) unfolding apart_def by simp
  next
    case False
    then have "(j + 1) * g_main_size L \<le> c * g_main_size L" using j by (intro mult_le_mono1) simp
    then show ?thesis using n(1) unfolding apart_def by simp
  qed
  have fm: "?from mod 8 = 0" using L region_offset [OF L, of c] unfolding region_ok_def by presburger
  have us: "?n = used_size L (c * g_main_size L) (rd_mem rd)" using used_size_rep [OF L, of c "rd_mem rd"] W(1) by simp
  from copyFromTo_ok [OF us n(2) fm ap refl] obtain m where
    m: "copyFromTo L ?from ?to c (curComb rd) (rd_mem rd) = Some (True, m)" "copied ?from ?to ?n (rd_mem rd) m" by blast
  have o: "same_others L j (rd_mem rd) m"
    using replica_copied(2) [OF L j [symmetric] n m(2)] copied_state [OF m(2)] by (simp add: same_others_def)
  have new: "replica L (j * g_main_size L) m = W"
  proof
    fix a
    have "W a = 0" "rep L rd j a = 0" if "\<not> a < g_main_addr L + ?n" using W that by (auto simp: heap_ok_def zero_beyond_def)
    then show "replica L (j * g_main_size L) m a = W a"
      unfolding replica_copied(1) [OF L j [symmetric] n m(2)] using W(1) by auto
  qed
  define rd2 where "rd2 = upd_comb j (\<lambda>cb. cb\<lparr>cb_flushcopy := False, cb_head := cb_head (rd_combs rd c)\<rparr>)
                    (?rd1\<lparr>rd_mem := m, rd_copyTime := ev_elapsed ev, rd_copy := (rd_copy rd)(tid := False)\<rparr>)"
  have at1: "state_at ?rd1 t = state_at rd t" for t by (simp add: state_at_def)
  have two: "(2 :: nat) = Suc 1" by simp
  have "makeCopy ev L j tid rd = Some (True, rd2)"
    unfolding makeCopy_def Let_def two makeCopy_loop.simps(2)
    using j idx at m(1) op root by (simp add: at1 rd2_def)
  moreover have "comb_frame L j rd rd2" using f1 o by (simp add: comb_frame_def rd2_def)
  moreover have "rep L rd2 j = W" using new by (simp add: rd2_def)
  ultimately show ?thesis by blast
qed

text \<open>Either way the replica gets the current version.\<close>

lemma apply_redologs_ok:
  assumes L: "region_ok L" and inv: "rep_inv L rd hist" "comb_inv L rd" "state_inv L rd hist"
    and j: "j < MAX_COMBINEDS" "j \<noteq> cur_idx rd" and op: "rd_announce rd tid \<noteq> st_applied (last_state rd) tid"
    and t: "unat (sti2seq t) \<le> cur_seq rd" "rep L rd j = hist (unat (sti2seq t))"
    and lt: "unat (sti2seq ltail) = cur_seq rd"
  shows "\<exists>rd'. apply_redologs ev L j (sti2seq (curComb rd)) t ltail tid rd = Some (True, rd')
    \<and> comb_frame L j rd rd' \<and> rep L rd' j = hist (cur_seq rd)"
proof -
  let ?c = "cur_idx rd" and ?q = "cur_seq rd"
  have ring: "\<forall>k. ticket_ok (rd_ring rd k)" using inv(2) by (simp add: comb_inv_def)
  have i0: "rep L rd j = hist (unat (sti2seq t) + 1 - 1)" using t(2) by simp
  from apply_loop_ok [OF L inv(3) ring lt refl _ _ i0, of None] t(1) lt obtain i' tk' m' where
    a: "apply_loop L j (sti2seq (curComb rd)) (unat (sti2seq ltail)) (unat (sti2seq t) + 1) None rd = Some (i', tk', False, rd\<lparr>rd_mem := m'\<rparr>)"
    "same_others L j (rd_mem rd) m'" "1 \<le> i'" "i' \<le> ?q + 1" "replica L (j * g_main_size L) m' = hist (i' - 1)" by auto
  let ?rd1 = "rd\<lparr>rd_mem := m'\<rparr>"
  have f1: "comb_frame L j rd ?rd1" using a(2) by (rule comb_frame_mem)
  show ?thesis
  proof (cases "i' = ?q + 1")
    case True
    let ?rd2 = "upd_comb j (\<lambda>cb. cb\<lparr>cb_head := (case tk' of Some t \<Rightarrow> t | None \<Rightarrow> ev_junk ev)\<rparr>) ?rd1"
    have "apply_redologs ev L j (sti2seq (curComb rd)) t ltail tid rd = Some (True, ?rd2)"
      using a(1) True lt by (simp add: apply_redologs_def Let_def)
    moreover have "comb_frame L j rd ?rd2" using f1 by (simp add: comb_frame_def)
    ultimately show ?thesis using a(5) True by (intro exI [of _ ?rd2]) simp
  next
    case False
    from inv(1) have r: "heap_ok L (hist ?q)" "rep L rd ?c = hist ?q" "?c < MAX_COMBINEDS"
      "\<And>s. s \<le> ?q \<Longrightarrow> zero_beyond L (heap_used L (hist ?q)) (hist s)" by (auto simp: rep_inv_def)
    have "\<exists>rd'. makeCopy ev L j tid ?rd1 = Some (True, rd') \<and> comb_frame L j ?rd1 rd' \<and> rep L rd' j = hist ?q"
    proof (rule makeCopy_ok [OF L _ j(2)])
      show c: "cur_idx ?rd1 = ?c" using a(2) by (simp add: cur_idx_def same_others_def)
      show "rd_announce ?rd1 tid \<noteq> st_applied (last_state ?rd1) tid"
        using op by (simp add: last_state_def c comb_frame_state_at [OF f1])
      show "rep L ?rd1 ?c = hist ?q" using a(2) r(2) j(2) by (auto simp: same_others_def)
      show "zero_beyond L (heap_used L (hist ?q)) (rep L ?rd1 j)" using a(3-5) r(4) [of "i' - 1"] by simp
    qed (use inv(2) r j(1) in \<open>auto simp: comb_inv_def\<close>)
    then obtain rd' where rd': "makeCopy ev L j tid ?rd1 = Some (True, rd')" "comb_frame L j ?rd1 rd'" "rep L rd' j = hist ?q" by blast
    have "apply_redologs ev L j (sti2seq (curComb rd)) t ltail tid rd = Some (True, rd')"
      using a(1) False lt rd'(1) by (simp add: apply_redologs_def Let_def)
    then show ?thesis using comb_frame_trans [OF f1 rd'(2)] rd'(3) by blast
  qed
qed

lemma update_replica_ok:
  assumes L: "region_ok L" and inv: "rep_inv L rd hist" "comb_inv L rd" "state_inv L rd hist"
    and j: "j < MAX_COMBINEDS" "j \<noteq> cur_idx rd" and op: "rd_announce rd tid \<noteq> st_applied (last_state rd) tid"
    and lt: "unat (sti2seq ltail) = cur_seq rd"
  shows "\<exists>rd'. update_replica ev L tid j (sti2seq (curComb rd)) ltail rd = Some (True, rd')
    \<and> comb_frame L j rd rd' \<and> rep L rd' j = hist (cur_seq rd)"
proof (cases "cb_head (rd_combs rd j) = mark")
  case True
  from makeCopy_ok [OF L refl j(2), of tid "hist (cur_seq rd)" ev] inv j(1) op True show ?thesis
    by (simp add: update_replica_def rep_inv_def comb_inv_def)
next
  case False
  let ?rd1 = "rd\<lparr>rd_copy := (rd_copy rd)(tid := cb_flushcopy (rd_combs rd j))\<rparr>"
  have same: "rep L ?rd1 = rep L rd" "cur_idx ?rd1 = cur_idx rd" "cur_seq ?rd1 = cur_seq rd" "curComb ?rd1 = curComb rd"
    "last_state ?rd1 = last_state rd" by (simp_all add: cur_idx_def cur_seq_def last_state_def state_at_def)
  have "rep_inv L ?rd1 hist" "comb_inv L ?rd1" "state_inv L ?rd1 hist"
    using inv by (simp_all add: rep_inv_def comb_inv_def state_inv_def same)
  from apply_redologs_ok [OF L this, of j tid "cb_head (rd_combs rd j)" ltail ev] j op lt inv(1) False
  obtain rd' where "apply_redologs ev L j (sti2seq (curComb ?rd1)) (cb_head (rd_combs rd j)) ltail tid ?rd1 = Some (True, rd')"
    "comb_frame L j ?rd1 rd'" "rep L rd' j = hist (cur_seq rd)" by (auto simp: rep_inv_def same)
  then show ?thesis using False by (simp add: update_replica_def comb_frame_def)
qed
subsection \<open>Running the requests\<close>

lemma tx_inv_results [simp]:
  "tx_inv L i (tv\<lparr>tl_st := (tl_st tv)\<lparr>st_results := r, st_applied := ap\<rparr>\<rparr>) W0 m \<longleftrightarrow> tx_inv L i tv W0 m"
  by (simp add: tx_inv_def ws_ok_def ws_view_def st_shape_def st_reset_def cl_ok_def cl_lines_def)

lemma help_loop_ok:
  assumes L: "region_ok L" and j: "j < MAX_COMBINEDS"
    and "pm_cur m LState = cComb" "tx_inv L j tv W0 m" "distinct is"
    and "\<forall>i\<in>set is. rd_announce rd i \<noteq> st_applied (tl_st tv) i \<longrightarrow> (\<exists>t. rd_enqueuers rd i = Some t \<and> tx_ok L t)"
    and "os = filter (\<lambda>i. rd_announce rd i \<noteq> st_applied (tl_st tv) i) is"
  shows "\<exists>tv' m'. help_loop L rd cComb is b tv m = Some (b \<or> os \<noteq> [], tv', m') \<and> tx_inv L j tv' W0 m' \<and> same_others L j m m'
    \<and> (st_results (tl_st tv'), replica L (j * g_main_size L) m')
        = serve (rd_enqueuers rd) os (st_results (tl_st tv)) (replica L (j * g_main_size L) m)
    \<and> st_applied (tl_st tv') = (\<lambda>i. if i \<in> set os then rd_announce rd i else st_applied (tl_st tv) i)
    \<and> st_ticket (tl_st tv') = st_ticket (tl_st tv)"
  using assms(3-)
proof (induction "is" arbitrary: b tv m os)
  case Nil then show ?case by simp
next
  case (Cons i "is")
  let ?ap = "st_applied (tl_st tv)"
  show ?case
  proof (cases "rd_announce rd i = ?ap i")
    case True
    from Cons.IH [OF Cons.prems(1,2) _ _ refl, of b] Cons.prems(3-5) True show ?thesis by simp
  next
    case False
    let ?off = "j * g_main_size L"
    from Cons.prems(4) False obtain t where t: "rd_enqueuers rd i = Some t" "tx_ok L t" by auto
    from tx_run_ok [OF L j t(2) Cons.prems(2)] obtain r tv1 xs where
      x: "tx_run L t (tv, m) = Some (r, tv1, put_words ?off xs m)" "tx_inv L j tv1 W0 (put_words ?off xs m)"
      "(r, replica L ?off (put_words ?off xs m)) = tx_spec t (replica L ?off m)"
      "fst ` set xs \<subseteq> fst ` set (ws_view (tl_st tv1))" "st_frame (tl_st tv) (tl_st tv1)" by blast
    have "\<forall>a\<in>fst ` set xs. paddr L a" using x(4) tx_inv_addrs [OF x(2)] by blast
    then have o: "same_others L j m (put_words ?off xs m)" by (rule same_others_put_words [OF L])
    from x(5) have fr: "st_applied (tl_st tv1) = ?ap" "st_results (tl_st tv1) = st_results (tl_st tv)" "st_ticket (tl_st tv1) = st_ticket (tl_st tv)"
      by (simp_all add: st_frame_def)
    define tv2 where "tv2 = tv1\<lparr>tl_st := (tl_st tv1)\<lparr>st_results := (st_results (tl_st tv))(i := r), st_applied := ?ap(i := \<not> ?ap i)\<rparr>\<rparr>"
    have st2: "st_applied (tl_st tv2) = ?ap(i := \<not> ?ap i)" "st_results (tl_st tv2) = (st_results (tl_st tv))(i := r)"
      "st_ticket (tl_st tv2) = st_ticket (tl_st tv)" by (simp_all add: tv2_def fr)
    define os' where "os' = filter (\<lambda>k. rd_announce rd k \<noteq> st_applied (tl_st tv2) k) is"
    have os: "os = i # os'" using Cons.prems(3,5) False by (auto simp: os'_def st2 intro: filter_cong)
    have "\<exists>tv' m'. help_loop L rd cComb is True tv2 (put_words ?off xs m) = Some (True \<or> os' \<noteq> [], tv', m') \<and> tx_inv L j tv' W0 m'
      \<and> same_others L j (put_words ?off xs m) m'
      \<and> (st_results (tl_st tv'), replica L ?off m') = serve (rd_enqueuers rd) os' (st_results (tl_st tv2)) (replica L ?off (put_words ?off xs m))
      \<and> st_applied (tl_st tv') = (\<lambda>i. if i \<in> set os' then rd_announce rd i else st_applied (tl_st tv2) i)
      \<and> st_ticket (tl_st tv') = st_ticket (tl_st tv2)"
    proof (rule Cons.IH)
      show "pm_cur (put_words ?off xs m) LState = cComb" using Cons.prems(1) by (simp add: put_words_state)
      show "tx_inv L j tv2 W0 (put_words ?off xs m)" using x(2) by (simp add: tv2_def)
      show "distinct is" using Cons.prems(3) by simp
      show "\<forall>k\<in>set is. rd_announce rd k \<noteq> st_applied (tl_st tv2) k \<longrightarrow> (\<exists>t. rd_enqueuers rd k = Some t \<and> tx_ok L t)"
        using Cons.prems(3,4) by (auto simp: st2)
    qed (rule os'_def)
    then obtain tv' m' where h: "help_loop L rd cComb is True tv2 (put_words ?off xs m) = Some (True, tv', m')" "tx_inv L j tv' W0 m'"
      "same_others L j (put_words ?off xs m) m'"
      "(st_results (tl_st tv'), replica L ?off m') = serve (rd_enqueuers rd) os' (st_results (tl_st tv2)) (replica L ?off (put_words ?off xs m))"
      "st_applied (tl_st tv') = (\<lambda>i. if i \<in> set os' then rd_announce rd i else st_applied (tl_st tv2) i)"
      "st_ticket (tl_st tv') = st_ticket (tl_st tv2)" by auto
    have "help_loop L rd cComb (i # is) b tv m = Some (True, tv', m')"
      using False t(1) x(1) Cons.prems(1) h(1) by (simp add: Let_def fr tv2_def)
    moreover have "serve (rd_enqueuers rd) os (st_results (tl_st tv)) (replica L ?off m) = (st_results (tl_st tv'), replica L ?off m')"
      using t(1) x(3) [symmetric] h(4) by (simp add: os st2)
    moreover have "st_applied (tl_st tv') = (\<lambda>k. if k \<in> set os then rd_announce rd k else ?ap k)"
      unfolding h(5) os st2 using False by (auto simp: fun_eq_iff)
    ultimately show ?thesis using h(2,6) same_others_trans [OF o h(3)] by (simp add: os st2)
  qed
qed

subsection \<open>The commit\<close>

lemma flushCopy_loop_ok:
  "pm_cur m LState = c \<Longrightarrow> \<exists>m'. flushCopy_loop rd tid s c to n m = Some (0, m') \<and> pm_cur m' = pm_cur m"
proof (induction rd tid s c to n m rule: flushCopy_loop.induct)
  case (1 rd tid s c to n m)
  show ?case
  proof (cases "n = 0")
    case True then show ?thesis by (simp add: flushCopy_loop.simps)
  next
    case False
    from 1(2) [OF False refl refl refl] 1(3) False show ?thesis by (subst flushCopy_loop.simps) (simp add: Let_def)
  qed
qed

lemma flushCopy_ok: "\<exists>m'. flushCopy tid to n rd = Some (True, rd\<lparr>rd_mem := m'\<rparr>) \<and> pm_cur m' = pm_cur (rd_mem rd)"
proof -
  from flushCopy_loop_ok [OF refl, of rd tid "sti2seq (curComb rd)" "rd_mem rd" to n] show ?thesis
    by (auto simp: flushCopy_def)
qed

lemma collect_lines_ok:
  assumes "ag_wf (cb_clsets (rd_combs rd j))"
  shows "\<exists>rd'. collect_lines L tid j st rd = Some rd' \<and> comb_frame L j rd rd' \<and> pm_cur (rd_mem rd') = pm_cur (rd_mem rd)"
proof -
  from aggr_merge_total [OF assms, of "used_size L (j * g_main_size L) (rd_mem rd)" st "rd_copy rd tid"] obtain ag c where
    "aggr_merge (used_size L (j * g_main_size L) (rd_mem rd)) st (cb_clsets (rd_combs rd j)) (rd_copy rd tid) = Some (ag, c)" "ag_wf ag" by blast
  then show ?thesis by (cases "rd_copy rd tid") (simp_all add: collect_lines_def comb_frame_def)
qed

lemma flush_lines_ok:
  "\<exists>rd'. flush_lines L tid j rd = Some (True, rd') \<and> comb_frame L j rd rd' \<and> pm_cur (rd_mem rd') = pm_cur (rd_mem rd)"
proof (cases "rd_copy rd tid")
  case True
  from flushCopy_ok [of tid "cb_root (rd_combs rd j)" "used_size L (j * g_main_size L) (rd_mem rd)" rd] obtain m' where
    "flushCopy tid (cb_root (rd_combs rd j)) (used_size L (j * g_main_size L) (rd_mem rd)) rd = Some (True, rd\<lparr>rd_mem := m'\<rparr>)"
    "pm_cur m' = pm_cur (rd_mem rd)" by blast
  then show ?thesis using True same_others_cur [of m' "rd_mem rd" L j] by (simp add: flush_lines_def Let_def comb_frame_def)
next
  case False
  then show ?thesis using same_others_cur [of _ "rd_mem rd" L j] by (simp add: flush_lines_def Let_def comb_frame_def)
qed
lemma serve_heap:
  assumes "\<forall>i\<in>set is. \<exists>t. enq i = Some t \<and> req_ok L t" "heap_ok L W"
  shows "heap_ok L (snd (serve enq is res W)) \<and> heap_used L W \<le> heap_used L (snd (serve enq is res W))"
  using assms
proof (induction "is" arbitrary: res W)
  case (Cons i "is")
  then obtain t where t: "enq i = Some t" "req_ok L t" by auto
  obtain r W' where e: "tx_spec t W = (r, W')" by (rule prod.exhaust)
  with t Cons.prems(2) have W': "heap_ok L W'" "heap_used L W \<le> heap_used L W'" unfolding req_ok_def by (metis snd_conv)+
  from W'(1) have "heap_ok L (snd (serve enq is (res(i := r)) W')) \<and> heap_used L W' \<le> heap_used L (snd (serve enq is (res(i := r)) W'))"
    using Cons.prems(1) by (intro Cons.IH) auto
  with W'(2) show ?case unfolding serve.simps t(1) option.sel e Let_def prod.case by linarith
qed simp

lemma serve_results:
  "i \<notin> set is \<Longrightarrow> res i = res' i \<Longrightarrow> fst (serve enq is res W) i = fst (serve enq is res' W) i"
  "i \<in> set is \<Longrightarrow> fst (serve enq is res W) i = fst (serve enq is res' W) i"
  "snd (serve enq is res W) = snd (serve enq is res' W)"
proof (induction "is" arbitrary: res res' W)
  case (Cons k "is")
  { case 1 then show ?case unfolding serve.simps Let_def split_beta by (intro Cons.IH(1)) auto }
  { case 2
    show ?case
    proof (cases "i \<in> set is")
      case True then show ?thesis unfolding serve.simps Let_def split_beta by (rule Cons.IH(2))
    next
      case False
      then have "i = k" using 2 by simp
      then show ?thesis using False unfolding serve.simps Let_def split_beta by (intro Cons.IH(1)) auto
    qed }
  { case 3 show ?case unfolding serve.simps Let_def split_beta by (rule Cons.IH(3)) }
qed simp_all

lemma ws_ok_more [simp]: "ws_ok (st\<lparr>st_logSize := n\<rparr>) = ws_ok st" "ws_view (st\<lparr>st_logSize := n\<rparr>) = ws_view st"
  "st_shape (st\<lparr>st_logSize := n\<rparr>) = st_shape st"
  by (simp_all add: ws_ok_def ws_view_def st_shape_def st_reset_def cl_ok_def)

lemma prepare_state_fields:
  "st_reset (prepare_state tk tail st) = prepare_state tk tail st"
  "st_shape st \<Longrightarrow> st_shape (prepare_state tk tail st)"
  "i < MAX_THREADS \<Longrightarrow> st_applied (prepare_state tk tail st) i = st_applied tail i"
  "i < MAX_THREADS \<Longrightarrow> st_results (prepare_state tk tail st) i = st_results tail i"
  "st_ticket (prepare_state tk tail st) = tk"
  by (simp_all add: prepare_state_def copyFrom_def st_reset_def st_shape_def ws_ok_def cl_ok_def)

text \<open>The switch to the new version.\<close>

definition switched :: "region \<Rightarrow> nat \<Rightarrow> nat \<Rightarrow> nat \<Rightarrow> nat \<Rightarrow> SeqTidIdx \<Rightarrow> SeqTidIdx \<Rightarrow> State \<Rightarrow> redo \<Rightarrow> redo \<Rightarrow> bool" where
  "switched L tid c j lastIdx newTicket newcComb st rd rd' \<longleftrightarrow>
     pm_cur (rd_mem rd') = (pm_cur (rd_mem rd))(LState := newcComb) \<and> settled (rd_mem rd') LState
     \<and> rd_combs rd' = (rd_combs rd)
         (j := (rd_combs rd j)\<lparr>cb_clsets := aggr_reset (cb_clsets (rd_combs rd j)), cb_head := newTicket,
                               cb_rwLock := downgrade MAX_THREADS (cb_rwLock (rd_combs rd j))\<rparr>,
          c := (rd_combs rd c)\<lparr>cb_rwLock := setReadUnlock (cb_rwLock (rd_combs rd c))\<rparr>)
     \<and> (\<forall>t. ss_states (rd_sauron rd' t) = (if t = tid then (ss_states (rd_sauron rd tid))(lastIdx := st) else ss_states (rd_sauron rd t)))
     \<and> (\<forall>t. ss_lastIdx (rd_sauron rd' t) = (if t = tid then if lastIdx + 1 = STATESSIZE then 0 else lastIdx + 1
                                        else ss_lastIdx (rd_sauron rd t)))
     \<and> (\<forall>k. rd_ring rd' k = newTicket \<or> rd_ring rd' k = rd_ring rd k)
     \<and> rd_enqueuers rd' = rd_enqueuers rd \<and> rd_announce rd' = rd_announce rd"

lemma settled_state_ring_cas:
  "settled (rd_mem (ring_cas k e n (rd\<lparr>rd_mem := pwb_curComb L m\<rparr>))) LState"
  "pm_cur (rd_mem (ring_cas k e n (rd\<lparr>rd_mem := pwb_curComb L m\<rparr>))) = pm_cur m"
  by (simp_all add: ring_cas_def pwb_curComb_def Let_def settled_def)

lemma ring_cas_fields [simp]:
  "rd_combs (ring_cas k e n rd) = rd_combs rd" "rd_sauron (ring_cas k e n rd) = rd_sauron rd"
  "rd_enqueuers (ring_cas k e n rd) = rd_enqueuers rd" "rd_announce (ring_cas k e n rd) = rd_announce rd"
  "rd_ring (ring_cas k e n rd) k' = n \<or> rd_ring (ring_cas k e n rd) k' = rd_ring rd k'"
  by (auto simp: ring_cas_def Let_def)

lemma switch_ok:
  assumes c: "c = cur_idx rd" "c \<noteq> j" "cComb = curComb rd" and q: "cur_seq rd + 1 < 2 ^ 40"
    and ring: "\<forall>k. unat (sti2seq (rd_ring rd k)) \<le> cur_seq rd" and st': "st' = st\<lparr>st_logSize := st_lSize st\<rparr>"
  shows "\<exists>rd'. switch L tid cComb ltail newTicket j lastIdx st rd = Done (st_results st tid) rd'
    \<and> switched L tid c j lastIdx newTicket (makeSeqTidIdx (sti2seq cComb + 1) (of_nat tid) (of_nat j)) st' rd rd'"
proof -
  let ?new = "makeSeqTidIdx (sti2seq cComb + 1) (of_nat tid) (of_nat j)"
  have "unat (sti2seq cComb) < 2 ^ 40" by (rule sti_bounds(1))
  then have "unat (sti2seq cComb + 1) = cur_seq rd + 1" using seq_add [of "sti2seq cComb" 1] by (simp add: cur_seq_def c(3))
  then have lt: "sti2seq (rd_ring rd k) < sti2seq cComb + 1" for k
    using ring [THEN spec, of k] by (simp add: word_less_nat_alt)
  have idx: "unat (sti2idx cComb) = c" by (simp add: c(1,3) cur_idx_def)
  define rd1 where "rd1 = set_state tid lastIdx st' (upd_comb j
            (\<lambda>cb. cb\<lparr>cb_clsets := aggr_reset (cb_clsets cb), cb_head := newTicket, cb_rwLock := downgrade MAX_THREADS (cb_rwLock cb)\<rparr>) rd)"
  define m where "m = pm_exec1 (St LState ?new) (pm_exec1 Fence (rd_mem rd1))"
  have mem1: "rd_mem rd1 = rd_mem rd" and ring1: "rd_ring rd1 = rd_ring rd" by (simp_all add: rd1_def set_state_def)
  have cas: "curComb_cas cComb ?new (rd_mem rd1) = (True, m)" by (simp add: curComb_cas_def m_def mem1 c(3))
  define rd3 where "rd3 = upd_lock c setReadUnlock (rd1\<lparr>rd_mem := m\<rparr>)"
  define k where "k = unat (sti2seq cComb + 1) mod RINGSIZE"
  define rd4 where "rd4 = ring_cas k (rd_ring rd3 k) newTicket (rd3\<lparr>rd_mem := pwb_curComb L (rd_mem rd3)\<rparr>)"
  define rd5 where "rd5 = rd4\<lparr>rd_sauron := (rd_sauron rd4)(tid := (rd_sauron rd4 tid)\<lparr>ss_lastIdx := (if lastIdx + 1 = STATESSIZE then 0 else lastIdx + 1)\<rparr>)\<rparr>"
  have ring3: "rd_ring rd3 = rd_ring rd" by (simp add: rd3_def ring1)
  have "switch L tid cComb ltail newTicket j lastIdx st rd = Done (st_results st tid) rd5"
    unfolding switch_def Let_def st' [symmetric] rd1_def [symmetric] cas prod.case if_True idx rd3_def [symmetric] k_def [symmetric]
      if_P [OF lt [of k, folded ring3]] rd4_def [symmetric] rd5_def [symmetric] by (simp add: st')
  moreover have "switched L tid c j lastIdx newTicket ?new st' rd rd5"
  proof -
    have cur: "pm_cur (rd_mem rd5) = (pm_cur (rd_mem rd))(LState := ?new)"
      by (simp add: rd5_def rd4_def settled_state_ring_cas rd3_def m_def mem1 pm_store_def)
    have "settled (rd_mem rd5) LState" by (simp add: rd5_def rd4_def settled_state_ring_cas)
    moreover have "rd_ring rd5 i = newTicket \<or> rd_ring rd5 i = rd_ring rd i" for i
      using ring_cas_fields(5) [of k "rd_ring rd3 k" newTicket "rd3\<lparr>rd_mem := pwb_curComb L (rd_mem rd3)\<rparr>" i]
      by (simp add: rd5_def rd4_def ring3)
    ultimately show ?thesis using cur c(2)
      by (simp add: switched_def rd5_def rd4_def rd3_def rd1_def set_state_def)
  qed
  ultimately show ?thesis by blast
qed
subsection \<open>A whole attempt\<close>

text \<open>What holds when the replica of the new version is about to become the current one.\<close>

definition ready :: "region \<Rightarrow> nat \<Rightarrow> nat \<Rightarrow> State \<Rightarrow> (nat \<Rightarrow> u64) \<Rightarrow> redo \<Rightarrow> redo \<Rightarrow> bool" where
  "ready L tid j st W rd rd' \<longleftrightarrow> curComb rd' = curComb rd \<and> (\<forall>k. k \<noteq> j \<longrightarrow> rep L rd' k = rep L rd k) \<and> rep L rd' j = W
     \<and> (\<forall>k. k \<noteq> j \<longrightarrow> rd_combs rd' k = rd_combs rd k) \<and> cb_root (rd_combs rd' j) = cb_root (rd_combs rd j)
     \<and> ag_wf (cb_clsets (rd_combs rd' j))
     \<and> (\<forall>t. ss_states (rd_sauron rd' t) = (if t = tid then (ss_states (rd_sauron rd tid))(ss_lastIdx (rd_sauron rd tid) := st)
                                        else ss_states (rd_sauron rd t)))
     \<and> (\<forall>t. ss_lastIdx (rd_sauron rd' t) = ss_lastIdx (rd_sauron rd t))
     \<and> (\<forall>k. rd_ring rd' k = cb_head (rd_combs rd (cur_idx rd)) \<or> rd_ring rd' k = rd_ring rd k)
     \<and> rd_enqueuers rd' = rd_enqueuers rd \<and> rd_announce rd' = rd_announce rd"

text \<open>The log that leads from the last version to the new one.\<close>

definition version_state :: "region \<Rightarrow> State \<Rightarrow> SeqTidIdx \<Rightarrow> (nat \<Rightarrow> u64) \<Rightarrow> (nat \<Rightarrow> u64) \<Rightarrow> bool" where
  "version_state L st tk W W' \<longleftrightarrow> st_ticket st = tk \<and> ws_ok st \<and> st_shape st \<and> log_between (ws_view st) W W'
     \<and> (\<forall>a\<in>fst ` set (ws_view st). paddr L a)"

lemma help_ring_ok:
  assumes "\<forall>k. unat (sti2seq (rd_ring rd k)) \<le> cur_seq rd"
  shows "\<exists>rd'. help_ring L (sti2seq (curComb rd)) ltail rd = Some rd' \<and> pm_cur (rd_mem rd') = pm_cur (rd_mem rd)
    \<and> rd_combs rd' = rd_combs rd \<and> rd_sauron rd' = rd_sauron rd \<and> (\<forall>k. rd_ring rd' k = ltail \<or> rd_ring rd' k = rd_ring rd k)
    \<and> rd_enqueuers rd' = rd_enqueuers rd \<and> rd_announce rd' = rd_announce rd"
proof -
  define k where "k = unat (sti2seq (curComb rd)) mod RINGSIZE"
  have "\<not> sti2seq (rd_ring rd k) > sti2seq (curComb rd)"
    using assms [THEN spec, of k] by (simp add: word_less_nat_alt cur_seq_def)
  then show ?thesis
    using ring_cas_fields(5) [of k "rd_ring rd k" ltail "rd\<lparr>rd_mem := pwb_curComb L (rd_mem rd)\<rparr>"]
    by (simp add: help_ring_def Let_def k_def [symmetric] settled_state_ring_cas)
qed

lemma run_requests_ok:
  assumes L: "region_ok L" and j: "j < MAX_COMBINEDS" "j \<noteq> cur_idx rd" and wf: "ag_wf (cb_clsets (rd_combs rd j))"
    and lastIdx: "lastIdx = ss_lastIdx (rd_sauron rd tid)" and c: "cComb = curComb rd"
    and st: "ss_states (rd_sauron rd tid) lastIdx = prepare_state tk tail st0" "st_shape st0"
    and os: "os = filter (\<lambda>i. rd_announce rd i \<noteq> st_applied tail i) [0..<MAX_THREADS]" "os \<noteq> []"
    and req: "\<forall>i\<in>set os. \<exists>t. rd_enqueuers rd i = Some t \<and> req_ok L t"
    and S: "S = serve (rd_enqueuers rd) os (st_results tail) (rep L rd j)"
  shows "\<exists>st rd'. run_requests L tid cComb ltail tk j lastIdx rd = Some (switch L tid cComb ltail tk j lastIdx st rd')
    \<and> ready L tid j st (snd S) rd rd' \<and> version_state L st tk (rep L rd j) (snd S)
    \<and> (\<forall>i<MAX_THREADS. st_results st i = fst S i \<and> st_applied st i = rd_announce rd i)"
proof -
  let ?off = "j * g_main_size L" and ?ps = "prepare_state tk tail st0"
  define tv where "tv = \<lparr>tl_st = ?ps, tl_cx_size = ?off, tl_copy = rd_copy rd tid\<rparr>"
  have inv0: "tx_inv L j tv (rep L rd j) (rd_mem rd)"
    using tx_start [OF prepare_state_fields(2) [OF st(2)], of L j tk tail "rd_copy rd tid" "rd_mem rd"] prepare_state_fields(1) by (simp add: tv_def)
  have os': "os = filter (\<lambda>i. rd_announce rd i \<noteq> st_applied (tl_st tv) i) [0..<MAX_THREADS]"
    unfolding os(1) by (rule filter_cong) (simp_all add: tv_def prepare_state_fields)
  have enq: "\<forall>i\<in>set [0..<MAX_THREADS]. rd_announce rd i \<noteq> st_applied (tl_st tv) i \<longrightarrow> (\<exists>t. rd_enqueuers rd i = Some t \<and> tx_ok L t)"
    using req unfolding os' by (auto simp: req_ok_def)
  from help_loop_ok [OF L j(1) refl inv0 distinct_upt enq os', of False] os(2) obtain tv' m' where
    h: "help_loop L rd (curComb rd) [0..<MAX_THREADS] False tv (rd_mem rd) = Some (True, tv', m')" "tx_inv L j tv' (rep L rd j) m'"
    "same_others L j (rd_mem rd) m'"
    "(st_results (tl_st tv'), replica L ?off m') = serve (rd_enqueuers rd) os (st_results (tl_st tv)) (rep L rd j)"
    "st_applied (tl_st tv') = (\<lambda>i. if i \<in> set os then rd_announce rd i else st_applied (tl_st tv) i)"
    "st_ticket (tl_st tv') = st_ticket (tl_st tv)" by auto
  define st where "st = tl_st tv'"
  define rd5 where "rd5 = set_state tid lastIdx st (rd\<lparr>rd_mem := m', rd_copy := (rd_copy rd)(tid := tl_copy tv')\<rparr>)"
  have res: "fst S i = st_results st i" if "i < MAX_THREADS" for i
  proof -
    have "st_results tail i = st_results (tl_st tv) i" using that by (simp add: tv_def prepare_state_fields)
    then have "fst S i = fst (serve (rd_enqueuers rd) os (st_results (tl_st tv)) (rep L rd j)) i"
      unfolding S by (cases "i \<in> set os") (rule serve_results(2), assumption, rule serve_results(1))
    then show ?thesis by (simp add: h(4) [symmetric] st_def)
  qed
  have W: "snd S = replica L ?off m'" unfolding S using h(4) serve_results(3) by (metis snd_conv)
  have wf5: "ag_wf (cb_clsets (rd_combs rd5 j))" using wf by (simp add: rd5_def set_state_def)
  from collect_lines_ok [OF wf5, of L tid st] obtain rd6 where
    r6: "collect_lines L tid j st rd5 = Some rd6" "comb_frame L j rd5 rd6" "pm_cur (rd_mem rd6) = pm_cur (rd_mem rd5)" by blast
  from flush_lines_ok [of L tid j rd6] obtain rd7 where
    r7: "flush_lines L tid j rd6 = Some (True, rd7)" "comb_frame L j rd6 rd7" "pm_cur (rd_mem rd7) = pm_cur (rd_mem rd6)" by blast
  have f: "comb_frame L j rd5 rd7" using comb_frame_trans [OF r6(2) r7(2)] .
  have c5: "curComb rd5 = curComb rd" using h(3) by (simp add: rd5_def set_state_def same_others_def)
  have "commit L tid cComb ltail tk j lastIdx st rd5 = Some (switch L tid cComb ltail tk j lastIdx st rd7)"
    using r6(1) comb_frame_cur [OF r6(2)] c5 r7(1) by (simp add: commit_def Let_def c)
  then have "run_requests L tid cComb ltail tk j lastIdx rd = Some (switch L tid cComb ltail tk j lastIdx st rd7)"
    using h(1) st(1) by (simp add: run_requests_def Let_def tv_def c rd5_def st_def)
  moreover have "ready L tid j st (snd S) rd rd7"
  proof -
    have m5: "rd_mem rd5 = m'" by (simp add: rd5_def set_state_def)
    have "replica L ?off (rd_mem rd7) = snd S" using replica_cur [of "rd_mem rd7" m'] r6(3) r7(3) W by (simp add: m5)
    moreover have "rep L rd7 k = rep L rd k" if "k \<noteq> j" for k
      using f h(3) that by (simp add: comb_frame_def same_others_def m5)
    moreover have "rd_combs rd7 k = rd_combs rd k" if "k \<noteq> j" for k
      using f that by (simp add: comb_frame_def rd5_def set_state_def)
    ultimately show ?thesis using f wf5 comb_frame_cur [OF f] c5
      by (auto simp: ready_def comb_frame_def rd5_def set_state_def lastIdx)
  qed
  moreover have "version_state L st tk (rep L rd j) (snd S)"
    using h(2,6) by (auto simp: version_state_def tx_inv_def st_def W tv_def prepare_state_fields)
  moreover have "st_applied st i = rd_announce rd i" if "i < MAX_THREADS" for i
    using that h(5) os' by (auto simp: st_def)
  ultimately show ?thesis using res by (intro exI [of _ st] exI [of _ rd7]) simp
qed
text \<open>The ticket of the new version.\<close>

lemma new_ticket:
  assumes "unat (sti2seq cComb) + 1 < 2 ^ 40" "tid < MAX_THREADS" "idx < 2 ^ 16"
  defines "tk \<equiv> makeSeqTidIdx (sti2seq cComb + 1) (of_nat tid) (of_nat idx)"
  shows "unat (sti2seq tk) = unat (sti2seq cComb) + 1" "unat (sti2tid tk) = tid" "unat (sti2idx tk) = idx"
proof -
  have s: "unat (sti2seq cComb + 1) = unat (sti2seq cComb) + 1" using seq_add [OF sti_bounds(1), of 1 cComb] by simp
  have "tid < 2 ^ LENGTH(64)" "idx < 2 ^ LENGTH(64)" using assms(2,3) by simp_all
  then have t: "unat (of_nat tid :: u64) = tid" "unat (of_nat idx :: u64) = idx" 
    by (simp_all only: unsigned_of_nat take_bit_nat_eq_self of_nat_id)
  have b: "unat (sti2seq cComb + 1) < 2 ^ 40" "unat (of_nat tid :: u64) < 2 ^ 8" "unat (of_nat idx :: u64) < 2 ^ 16"
    unfolding s t using assms(1-3) by simp_all
  note make_fields [OF this, folded tk_def]
  then show "unat (sti2seq tk) = unat (sti2seq cComb) + 1" "unat (sti2tid tk) = tid" "unat (sti2idx tk) = idx" by (simp_all only: s t)
qed

lemma lockable_modes: "lockable rd j \<Longrightarrow> snd (wstate (cb_rwLock (rd_combs rd j))) \<noteq> RLOCK"
  unfolding lockable_def exclusiveTryLock_alone(1) by auto

lemma write_iter_ready:
  assumes inv: "redo_inv L rd hist" and tid: "tid < MAX_THREADS" "tid \<in> set (open_requests rd)"
    and q: "cur_seq rd + 1 < 2 ^ 40" and free: "\<exists>i<MAX_COMBINEDS. lockable rd i"
    and S: "S = serve (rd_enqueuers rd) (open_requests rd) (st_results (last_state rd)) (hist (cur_seq rd))"
    and lastIdx: "lastIdx = ss_lastIdx (rd_sauron rd tid)"
    and tk: "tk = makeSeqTidIdx (sti2seq (curComb rd) + 1) (of_nat tid) (of_nat lastIdx)"
  shows "\<exists>j st rd'. j < MAX_COMBINEDS \<and> j \<noteq> cur_idx rd
    \<and> write_iter ev L tid (rd_announce rd tid) (sti2seq (curComb rd)) None rd
        = Some (switch L tid (curComb rd) (cb_head (rd_combs rd (cur_idx rd))) tk j lastIdx st rd')
    \<and> ready L tid j st (snd S) rd rd' \<and> version_state L st tk (hist (cur_seq rd)) (snd S)
    \<and> (\<forall>i<MAX_THREADS. st_results st i = fst S i \<and> st_applied st i = rd_announce rd i)"
proof -
  let ?c = "cur_idx rd" and ?q = "cur_seq rd"
  define ltail where "ltail = cb_head (rd_combs rd ?c)"
  define tail where "tail = last_state rd"
  from inv have L: "region_ok L" and R: "rep_inv L rd hist" and C: "comb_inv L rd" and K: "locks_inv rd"
    and T: "state_inv L rd hist" and req: "request_inv L rd" by (auto simp: redo_inv_def)
  from R have c: "?c < MAX_COMBINEDS" by (simp add: rep_inv_def)
  have lt: "ticket_ok ltail" "unat (sti2seq ltail) = ?q" using C c by (auto simp: comb_inv_def ltail_def)
  have at: "state_at rd ltail = Some tail" using lt(1) by (simp add: tail_def last_state_def ltail_def state_at_def)
  have open': "rd_announce rd tid \<noteq> st_applied tail tid" using tid by (simp add: open_requests_def tail_def)
  define st0 where "st0 = ss_states (rd_sauron rd tid) lastIdx"
  have li: "lastIdx < STATESSIZE" "st_shape st0" using T tid(1) by (auto simp: state_inv_def lastIdx st0_def)
  define ps where "ps = prepare_state tk tail st0"
  define rd1 where "rd1 = set_state tid lastIdx ps rd"
  have cur1: "curComb rd1 = curComb rd" by (simp add: rd1_def set_state_def)
  have ring: "\<forall>k. unat (sti2seq (rd_ring rd1 k)) \<le> cur_seq rd1" using C by (simp add: comb_inv_def rd1_def set_state_def cur_seq_def)
  from help_ring_ok [OF ring, of L ltail] obtain rd2 where
    r2: "help_ring L (sti2seq (curComb rd)) ltail rd1 = Some rd2" "pm_cur (rd_mem rd2) = pm_cur (rd_mem rd)" "rd_combs rd2 = rd_combs rd"
    "rd_sauron rd2 = rd_sauron rd1" "\<forall>k. rd_ring rd2 k = ltail \<or> rd_ring rd2 k = rd_ring rd k"
    "rd_enqueuers rd2 = rd_enqueuers rd" "rd_announce rd2 = rd_announce rd" by (auto simp: rd1_def set_state_def)
  have free2: "\<exists>i<MAX_COMBINEDS. lockable rd2 i" using free by (simp add: lockable_def r2(3))
  have cur2: "curComb rd2 = curComb rd" using r2(2) by simp
  from getNewComb_ok [OF free2, of ev] obtain j where
    j: "j < MAX_COMBINEDS" "lockable rd2 j" "getNewComb ev (curComb rd) rd2 = (Some j, locked j rd2)" unfolding cur2 .
  have jc: "j \<noteq> ?c" using lockable_modes [OF j(2)] K c by (auto simp: locks_inv_def r2(3))
  define rd3 where "rd3 = locked j rd2"
  have cur3: "curComb rd3 = curComb rd" "cur_idx rd3 = ?c" "cur_seq rd3 = ?q" by (simp_all add: rd3_def cur2 cur_idx_def cur_seq_def)
  have rep3: "rep L rd3 k = rep L rd k" for k using replica_cur [of "rd_mem rd2" "rd_mem rd"] r2(2) by (simp add: rd3_def)
  have sau3: "rd_sauron rd3 = rd_sauron rd1" by (simp add: rd3_def r2(4))
  have others3: "k \<noteq> j \<Longrightarrow> rd_combs rd3 k = rd_combs rd k" and hd3: "cb_head (rd_combs rd3 k) = cb_head (rd_combs rd k)"
    "cb_root (rd_combs rd3 k) = cb_root (rd_combs rd k)" "cb_clsets (rd_combs rd3 k) = cb_clsets (rd_combs rd k)" for k
    by (simp_all add: rd3_def r2(3))
  have ring3: "rd_ring rd3 k = ltail \<or> rd_ring rd3 k = rd_ring rd k" for k using r2(5) by (simp add: rd3_def)
  have R3: "rep_inv L rd3 hist" using R by (simp add: rep_inv_def cur3 rep3 hd3)
  have tkr: "ticket_ok (rd_ring rd3 k) \<and> unat (sti2seq (rd_ring rd3 k)) \<le> ?q" for k
    using ring3 [of k] C lt by (auto simp: comb_inv_def)
  have C3: "comb_inv L rd3" using C tkr by (simp add: comb_inv_def cur3 hd3)
  have tkf: "unat (sti2seq tk) = ?q + 1" "unat (sti2tid tk) = tid" "unat (sti2idx tk) = lastIdx"
    using new_ticket [of "curComb rd" tid lastIdx] q tid(1) li(1) by (simp_all add: tk cur_seq_def)
  have "st_shape ps" "log_inv L ps ?q hist"
    using prepare_state_fields(2) [OF li(2)] by (simp_all add: ps_def log_inv_def prepare_state_fields tkf Let_def)
  then have T3: "state_inv L rd3 hist" using T by (auto simp: state_inv_def sau3 rd1_def set_state_def cur3)
  have tl3: "cb_head (rd_combs rd3 ?c) = ltail" by (simp add: hd3 ltail_def)
  have "st_applied (last_state rd3) i = st_applied tail i" if "i < MAX_THREADS" for i
    using that at lt(1) prepare_state_fields(3) [OF that, of tk tail st0]
    by (auto simp: last_state_def cur3 tl3 state_at_def sau3 rd1_def set_state_def ps_def)
  then have op3: "rd_announce rd3 tid \<noteq> st_applied (last_state rd3) tid" using open' tid(1) by (simp add: rd3_def r2(7))
  have j3: "j \<noteq> cur_idx rd3" using jc by (simp add: cur3)
  from update_replica_ok [OF L R3 C3 T3 j(1) j3 op3, of ltail ev] lt(2) obtain rd4 where
    r4: "update_replica ev L tid j (sti2seq (curComb rd)) ltail rd3 = Some (True, rd4)" "comb_frame L j rd3 rd4" "rep L rd4 j = hist ?q"
    by (auto simp: cur3)
  have cur4: "curComb rd4 = curComb rd" "cur_idx rd4 = ?c" using comb_frame_cur [OF r4(2)] by (simp_all add: cur3 cur_idx_def)
  have sau4: "rd_sauron rd4 = rd_sauron rd1" "rd_enqueuers rd4 = rd_enqueuers rd" "rd_announce rd4 = rd_announce rd"
    "rd_ring rd4 = rd_ring rd3" using r4(2) r2(6,7) by (simp_all add: comb_frame_def sau3) (simp_all add: rd3_def r2)
  have os: "open_requests rd = filter (\<lambda>i. rd_announce rd4 i \<noteq> st_applied tail i) [0..<MAX_THREADS]"
    by (simp add: open_requests_def tail_def sau4)
  have "\<exists>st rd'. run_requests L tid (curComb rd) ltail tk j lastIdx rd4 = Some (switch L tid (curComb rd) ltail tk j lastIdx st rd')
    \<and> ready L tid j st (snd S) rd4 rd' \<and> version_state L st tk (rep L rd4 j) (snd S)
    \<and> (\<forall>i<MAX_THREADS. st_results st i = fst S i \<and> st_applied st i = rd_announce rd4 i)"
  proof (rule run_requests_ok [OF L j(1) _ _ _ _ _ li(2) os])
    show "j \<noteq> cur_idx rd4" using jc by (simp add: cur4)
    show "ag_wf (cb_clsets (rd_combs rd4 j))" using r4(2) C3 j(1) by (simp add: comb_frame_def comb_inv_def)
    show "lastIdx = ss_lastIdx (rd_sauron rd4 tid)" by (simp add: sau4 rd1_def set_state_def lastIdx)
    show "ss_states (rd_sauron rd4 tid) lastIdx = prepare_state tk tail st0" by (simp add: sau4 rd1_def set_state_def ps_def)
    show "open_requests rd \<noteq> []" using tid(2) by auto
    show "\<forall>i\<in>set (open_requests rd). \<exists>t. rd_enqueuers rd4 i = Some t \<and> req_ok L t" using req by (simp add: request_inv_def sau4)
    show "S = serve (rd_enqueuers rd4) (open_requests rd) (st_results tail) (rep L rd4 j)" by (simp add: S sau4 tail_def r4(3))
  qed (simp add: cur4)
  then obtain st rd' where r: "run_requests L tid (curComb rd) ltail tk j lastIdx rd4 = Some (switch L tid (curComb rd) ltail tk j lastIdx st rd')"
    "ready L tid j st (snd S) rd4 rd'" "version_state L st tk (hist ?q) (snd S)"
    "\<forall>i<MAX_THREADS. st_results st i = fst S i \<and> st_applied st i = rd_announce rd i" by (auto simp: r4(3) sau4)
  have "write_iter ev L tid (rd_announce rd tid) (sti2seq (curComb rd)) None rd = Some (switch L tid (curComb rd) ltail tk j lastIdx st rd')"
  proof -
    have h: "cb_head (rd_combs rd (unat (sti2idx (curComb rd)))) = ltail" by (simp add: ltail_def cur_idx_def)
    show ?thesis
      unfolding write_iter_def Let_def h lastIdx [symmetric] tk [symmetric] st0_def [symmetric] at
      using open' seq_not_ahead [of "curComb rd"] r2(1) j(3) r4(1) cur4(1) r(1)
      by (simp add: rd1_def [symmetric] ps_def [symmetric] cur1 rd3_def [symmetric])
  qed
  moreover have "ready L tid j st (snd S) rd rd'"
  proof -
    have "cb_root (rd_combs rd4 j) = cb_root (rd_combs rd j)" using r4(2) by (simp add: comb_frame_def hd3)
    moreover have "rd_combs rd4 k = rd_combs rd k" if "k \<noteq> j" for k using r4(2) that others3 by (simp add: comb_frame_def)
    moreover have "rep L rd4 k = rep L rd k" if "k \<noteq> j" for k using r4(2) that rep3 by (simp add: comb_frame_def same_others_def)
    moreover have h4: "cb_head (rd_combs rd4 ?c) = ltail"
      using \<open>\<And>k. k \<noteq> j \<Longrightarrow> rd_combs rd4 k = rd_combs rd k\<close> jc by (simp add: ltail_def)
    moreover have "rd_ring rd' k = ltail \<or> rd_ring rd' k = rd_ring rd k" for k
    proof -
      have "rd_ring rd' k = ltail \<or> rd_ring rd' k = rd_ring rd3 k" using r(2) h4 by (simp add: ready_def cur4 sau4(4))
      then show ?thesis using ring3 [of k] by auto
    qed
    moreover have "ss_lastIdx (rd_sauron rd' t) = ss_lastIdx (rd_sauron rd t)" for t
      using r(2) by (simp add: ready_def sau4(1) rd1_def set_state_def)
    moreover have "ss_states (rd_sauron rd' t) = (if t = tid then (ss_states (rd_sauron rd tid))(lastIdx := st) else ss_states (rd_sauron rd t))" for t
      using r(2) by (simp add: ready_def sau4(1) rd1_def set_state_def lastIdx)
    moreover have "curComb rd' = curComb rd" "\<And>k. k \<noteq> j \<Longrightarrow> rep L rd' k = rep L rd4 k" "rep L rd' j = snd S"
      "\<And>k. k \<noteq> j \<Longrightarrow> rd_combs rd' k = rd_combs rd4 k" "cb_root (rd_combs rd' j) = cb_root (rd_combs rd4 j)"
      "ag_wf (cb_clsets (rd_combs rd' j))" "rd_enqueuers rd' = rd_enqueuers rd" "rd_announce rd' = rd_announce rd"
      using r(2) by (simp_all add: ready_def cur4 sau4(2,3))
    ultimately show ?thesis unfolding ready_def lastIdx [symmetric] ltail_def [symmetric] by simp
  qed
  ultimately show ?thesis using j(1) jc r(3,4) by (intro exI [of _ j] exI [of _ st] exI [of _ rd']) (simp add: ltail_def)
qed
subsection \<open>The invariant after a commit\<close>

lemma zero_beyond_mono: "zero_beyond L n W \<Longrightarrow> n \<le> n' \<Longrightarrow> zero_beyond L n' W"
  by (simp add: zero_beyond_def)

lemma downgrade_mode: "snd (wstate (downgrade n k)) = RLOCK" "snd (wstate (setReadUnlock k)) = NOLOCK"
  by (simp_all add: downgrade_def setReadUnlock_def)

lemma switched_inv:
  assumes inv: "redo_inv L rd hist" and tid: "tid < MAX_THREADS" and q: "cur_seq rd + 1 < 2 ^ 40"
    and j: "j < MAX_COMBINEDS" "j \<noteq> cur_idx rd" and lastIdx: "lastIdx = ss_lastIdx (rd_sauron rd tid)"
    and tk: "tk = makeSeqTidIdx (sti2seq (curComb rd) + 1) (of_nat tid) (of_nat lastIdx)"
    and ready: "ready L tid j st W rd rd7" and ver: "version_state L st tk (hist (cur_seq rd)) W"
    and W: "heap_ok L W" "heap_used L (hist (cur_seq rd)) \<le> heap_used L W"
    and ap: "\<forall>i<MAX_THREADS. st_applied st i = rd_announce rd i"
    and sw: "switched L tid (cur_idx rd) j lastIdx tk (makeSeqTidIdx (sti2seq (curComb rd) + 1) (of_nat tid) (of_nat j))
               (st\<lparr>st_logSize := st_lSize st\<rparr>) rd7 rd'"
  shows "redo_inv L rd' (hist(cur_seq rd + 1 := W))" "cur_seq rd' = cur_seq rd + 1" "open_requests rd' = []"
    "last_state rd' = st\<lparr>st_logSize := st_lSize st\<rparr>" "rep L rd' (cur_idx rd') = W"
proof -
  let ?c = "cur_idx rd" and ?q = "cur_seq rd" and ?h = "hist(cur_seq rd + 1 := W)" and ?st = "st\<lparr>st_logSize := st_lSize st\<rparr>"
  from inv have L: "region_ok L" and R: "rep_inv L rd hist" and C: "comb_inv L rd" and K: "locks_inv rd"
    and T: "state_inv L rd hist" and F: "fresh_inv rd" by (auto simp: redo_inv_def)
  have li: "lastIdx < STATESSIZE" using T tid by (simp add: state_inv_def lastIdx)
  have tkf: "unat (sti2seq tk) = ?q + 1" "unat (sti2tid tk) = tid" "unat (sti2idx tk) = lastIdx"
    using new_ticket [of "curComb rd" tid lastIdx] q tid li by (simp_all add: tk cur_seq_def)
  have tko: "ticket_ok tk" using tkf li tid by (simp add: ticket_ok_def)
  have cur': "cur_idx rd' = j" "cur_seq rd' = ?q + 1"
    using new_ticket [of "curComb rd" tid j] q tid j(1) sw by (simp_all add: switched_def cur_idx_def cur_seq_def)
  then show "cur_seq rd' = cur_seq rd + 1" by simp
  have rep': "rep L rd' k = (if k = j then W else rep L rd k)" for k
  proof -
    have "rep L rd' k = rep L rd7 k"
      using sw get_bytes_cong [of _ 8 "rd_mem rd'" "rd_mem rd7"] by (auto simp: switched_def replica_def fun_eq_iff)
    then show ?thesis using ready by (auto simp: ready_def)
  qed
  then show "rep L rd' (cur_idx rd') = W" by (simp add: cur')
  have cb: "k \<noteq> j \<Longrightarrow> k \<noteq> ?c \<Longrightarrow> rd_combs rd' k = rd_combs rd k"
    "rd_combs rd' ?c = (rd_combs rd ?c)\<lparr>cb_rwLock := setReadUnlock (cb_rwLock (rd_combs rd ?c))\<rparr>"
    "cb_head (rd_combs rd' j) = tk" "cb_root (rd_combs rd' j) = cb_root (rd_combs rd j)" "ag_wf (cb_clsets (rd_combs rd' j))"
    "snd (wstate (cb_rwLock (rd_combs rd' j))) = RLOCK" for k
    using sw ready j(2) by (auto simp: switched_def ready_def aggr_reset_wf downgrade_mode)
  have hd: "k \<noteq> j \<Longrightarrow> cb_head (rd_combs rd' k) = cb_head (rd_combs rd k)" "k \<noteq> j \<Longrightarrow> cb_clsets (rd_combs rd' k) = cb_clsets (rd_combs rd k)"
    "cb_root (rd_combs rd' k) = cb_root (rd_combs rd k)" for k
    using cb(1) [of k] cb(2,4) by (cases "k = ?c"; cases "k = j"; simp)+
  have sau: "ss_states (rd_sauron rd' t) i = (if t = tid \<and> i = lastIdx then ?st else ss_states (rd_sauron rd t) i)" for t i
    using sw ready lastIdx by (simp add: switched_def ready_def)
  show ls: "last_state rd' = ?st" using tko tkf by (simp add: last_state_def cur' cb(3) state_at_def sau)
  have ann: "rd_announce rd' = rd_announce rd" using sw ready by (simp add: switched_def ready_def)
  show os: "open_requests rd' = []" using ap by (simp add: open_requests_def ls ann)
  have lt: "ticket_ok (cb_head (rd_combs rd ?c))" "unat (sti2seq (cb_head (rd_combs rd ?c))) = ?q"
    using C R by (auto simp: comb_inv_def rep_inv_def)
  have "rep_inv L rd' ?h"
    unfolding rep_inv_def cur'
  proof (intro conjI allI impI)
    show "rep L rd' j = ?h (?q + 1)" by (simp add: rep')
    show "zero_beyond L (heap_used L (?h (?q + 1))) (?h s)" if "s \<le> ?q + 1" for s
      using that R W zero_beyond_mono [of L _ "hist s", OF _ W(2)] by (auto simp: rep_inv_def heap_ok_def)
    show "zero_beyond L (heap_used L (?h (?q + 1))) (rep L rd' k)" if "k < MAX_COMBINEDS" for k
      using that R W zero_beyond_mono [of L _ "rep L rd k", OF _ W(2)] by (auto simp: rep_inv_def heap_ok_def rep')
    fix k assume k: "k < MAX_COMBINEDS" "k \<noteq> j \<and> cb_head (rd_combs rd' k) \<noteq> mark"
    then have m: "cb_head (rd_combs rd' k) = cb_head (rd_combs rd k)" by (simp add: hd)
    have "unat (sti2seq (cb_head (rd_combs rd k))) \<le> ?q \<and> rep L rd k = hist (unat (sti2seq (cb_head (rd_combs rd k))))"
    proof (cases "k = ?c")
      case True then show ?thesis using lt(2) R by (simp add: rep_inv_def)
    next
      case False then show ?thesis using R k m by (simp add: rep_inv_def)
    qed
    then show "unat (sti2seq (cb_head (rd_combs rd' k))) \<le> ?q + 1" "rep L rd' k = ?h (unat (sti2seq (cb_head (rd_combs rd' k))))"
      using k(2) by (auto simp: m rep')
  qed (use j(1) W in simp_all)
  moreover have "comb_inv L rd'"
  proof -
    have "ticket_ok (rd_ring rd' k) \<and> unat (sti2seq (rd_ring rd' k)) \<le> ?q + 1" for k
    proof -
      have "rd_ring rd' k = tk \<or> rd_ring rd' k = cb_head (rd_combs rd ?c) \<or> rd_ring rd' k = rd_ring rd k"
      proof -
        have "rd_ring rd' k = tk \<or> rd_ring rd' k = rd_ring rd7 k" using sw by (simp add: switched_def)
        moreover have "rd_ring rd7 k = cb_head (rd_combs rd ?c) \<or> rd_ring rd7 k = rd_ring rd k" using ready by (simp add: ready_def)
        ultimately show ?thesis by auto
      qed
      moreover have "ticket_ok (rd_ring rd k)" "unat (sti2seq (rd_ring rd k)) \<le> ?q" using C by (auto simp: comb_inv_def)
      ultimately show ?thesis using tko tkf(1) lt by auto
    qed
    moreover have "ticket_ok (cb_head (rd_combs rd' k)) \<and> ag_wf (cb_clsets (rd_combs rd' k))" if "k < MAX_COMBINEDS" for k
      using that C cb(3,5) tko hd [of k] by (cases "k = j") (auto simp: comb_inv_def)
    ultimately show ?thesis using C by (simp add: comb_inv_def cur' hd(3) cb(3) tkf(1))
  qed
  moreover have "locks_inv rd'"
    unfolding locks_inv_def cur'
  proof (intro allI impI)
    fix k assume k: "k < MAX_COMBINEDS"
    show "if k = j then snd (wstate (cb_rwLock (rd_combs rd' k))) = RLOCK
      else snd (wstate (cb_rwLock (rd_combs rd' k))) = NOLOCK \<or> snd (wstate (cb_rwLock (rd_combs rd' k))) = HLOCK"
      using K [unfolded locks_inv_def, rule_format, OF k] cb(1) [of k] cb(2,6)
      by (cases "k = j"; cases "k = ?c") (auto simp: downgrade_mode)
  qed
  moreover have "state_inv L rd' ?h"
    unfolding state_inv_def cur'
  proof (intro allI impI conjI)
    fix t assume t: "t < MAX_THREADS"
    show "ss_lastIdx (rd_sauron rd' t) < STATESSIZE"
      using T t sw ready li by (auto simp: state_inv_def switched_def ready_def)
    fix i assume i: "i < STATESSIZE"
    show "st_shape (ss_states (rd_sauron rd' t) i)" using T t i ver by (simp add: sau state_inv_def version_state_def)
    show "log_inv L (ss_states (rd_sauron rd' t) i) (?q + 1) ?h"
    proof (cases "t = tid \<and> i = lastIdx")
      case True
      then show ?thesis using ver by (simp add: sau log_inv_def version_state_def tkf(1) Let_def)
    next
      case False
      have "log_inv L (ss_states (rd_sauron rd t) i) ?q hist" using T t i by (simp add: state_inv_def)
      moreover have "unat (sti2seq (st_ticket (ss_states (rd_sauron rd t) i))) \<le> ?q" using F t i by (simp add: fresh_inv_def)
      ultimately show ?thesis using False by (auto simp: sau log_inv_def Let_def)
    qed
  qed
  moreover have "fresh_inv rd'"
    using F ver by (auto simp: fresh_inv_def cur' sau version_state_def tkf(1) le_SucI)
  moreover have "request_inv L rd'" by (simp add: request_inv_def os)
  ultimately show "redo_inv L rd' ?h" using L by (simp add: redo_inv_def)
qed
lemma publish_open:
  assumes "tid < MAX_THREADS" "tid \<notin> set (open_requests rd)" "rd1 = snd (publish tid t rd)"
  shows "open_requests rd1 = insort tid (open_requests rd)" "last_state rd1 = last_state rd" "cur_idx rd1 = cur_idx rd" "cur_seq rd1 = cur_seq rd"
    "rd_announce rd1 tid = fst (publish tid t rd)"
proof -
  show same: "last_state rd1 = last_state rd" "cur_idx rd1 = cur_idx rd" "cur_seq rd1 = cur_seq rd" "rd_announce rd1 tid = fst (publish tid t rd)"
    by (simp_all add: assms(3) publish_def Let_def last_state_def cur_idx_def cur_seq_def state_at_def)
  have "sorted (open_requests rd1)" "distinct (open_requests rd1)" "sorted (insort tid (open_requests rd))"
    "distinct (insort tid (open_requests rd))"
    using assms(2) by (simp_all add: open_requests_def sorted_insort distinct_insort sorted_filter [of "\<lambda>x. x", simplified])
  moreover have "set (open_requests rd1) = set (insort tid (open_requests rd))"
    using assms(1,2) by (auto simp: open_requests_def same set_insort_key) (auto simp: assms(3) publish_def Let_def split: if_splits)
  ultimately show "open_requests rd1 = insort tid (open_requests rd)" by (rule sorted_distinct_set_unique)
qed

lemma publish_inv:
  assumes inv: "redo_inv L rd hist" and tid: "tid < MAX_THREADS" "tid \<notin> set (open_requests rd)" and t: "req_ok L t"
  shows "redo_inv L (snd (publish tid t rd)) hist"
proof -
  let ?rd1 = "snd (publish tid t rd)"
  note p = publish_open [OF tid refl, of t]
  have "rd_mem ?rd1 = rd_mem rd" "rd_combs ?rd1 = rd_combs rd" "rd_sauron ?rd1 = rd_sauron rd" "rd_ring ?rd1 = rd_ring rd"
    "rd_enqueuers ?rd1 = (rd_enqueuers rd)(tid := Some t)" by (simp_all add: publish_def Let_def)
  then show ?thesis using inv t
    by (auto simp: redo_inv_def rep_inv_def comb_inv_def locks_inv_def state_inv_def fresh_inv_def request_inv_def p set_insort_key)
qed

subsection \<open>Properties\<close>

text \<open>
  C9: a write transaction returns. It serves its own request and every request another thread
  has published and not seen applied, once each, in the order of the threads, on the heap of
  the last version; the heap they leave is the new current version, the result is that of the
  own request, each other thread finds its own in the new state, no request is left open, the
  invariant of the replicas and their logs holds again, and on the medium curComb names the
  new version.
\<close>

theorem write_transaction_serves_requests:
  assumes "redo_inv L rd hist" "tid < MAX_THREADS" "tid \<notin> set (open_requests rd)" "req_ok L t"
    "cur_seq rd + 1 < 2 ^ 40" "\<exists>i<MAX_COMBINEDS. lockable rd i"
  shows "\<exists>r rd' res W. ns_write_transaction ev L tid t rd = Some (r, rd')
    \<and> (res, W) = serve ((rd_enqueuers rd)(tid := Some t)) (insort tid (open_requests rd)) (st_results (last_state rd)) (hist (cur_seq rd))
    \<and> r = res tid \<and> map (st_results (last_state rd')) [0..<MAX_THREADS] = map res [0..<MAX_THREADS]
    \<and> rep L rd' (cur_idx rd') = W \<and> cur_seq rd' = cur_seq rd + 1 \<and> open_requests rd' = []
    \<and> redo_inv L rd' (hist(cur_seq rd + 1 := W)) \<and> pm_dur (rd_mem rd') LState = {curComb rd'}"
proof -
  define rd1 where "rd1 = snd (publish tid t rd)"
  note p = publish_open [OF assms(2,3) rd1_def]
  have inv: "redo_inv L rd1 hist" using publish_inv [OF assms(1-4)] by (simp add: rd1_def)
  have enq: "rd_enqueuers rd1 = (rd_enqueuers rd)(tid := Some t)" by (simp add: rd1_def publish_def Let_def)
  have own: "tid \<in> set (open_requests rd1)" by (simp add: p set_insort_key)
  have free: "\<exists>i<MAX_COMBINEDS. lockable rd1 i" using assms(6) by (simp add: lockable_def rd1_def publish_def Let_def)
  have q1: "cur_seq rd1 + 1 < 2 ^ 40" using assms(5) by (simp add: p)
  define S where "S = serve (rd_enqueuers rd1) (open_requests rd1) (st_results (last_state rd1)) (hist (cur_seq rd1))"
  define lastIdx where "lastIdx = ss_lastIdx (rd_sauron rd1 tid)"
  define tk where "tk = makeSeqTidIdx (sti2seq (curComb rd1) + 1) (of_nat tid) (of_nat lastIdx)"
  from write_iter_ready [OF inv assms(2) own q1 free S_def lastIdx_def tk_def, of ev] obtain j st rd7 where
    w: "j < MAX_COMBINEDS" "j \<noteq> cur_idx rd1"
    "write_iter ev L tid (rd_announce rd1 tid) (sti2seq (curComb rd1)) None rd1
        = Some (switch L tid (curComb rd1) (cb_head (rd_combs rd1 (cur_idx rd1))) tk j lastIdx st rd7)"
    "ready L tid j st (snd S) rd1 rd7" "version_state L st tk (hist (cur_seq rd1)) (snd S)"
    "\<forall>i<MAX_THREADS. st_results st i = fst S i \<and> st_applied st i = rd_announce rd1 i" by auto
  have cur7: "curComb rd7 = curComb rd1" "cur_idx rd7 = cur_idx rd1" "cur_seq rd7 = cur_seq rd1"
    using w(4) by (simp_all add: ready_def cur_idx_def cur_seq_def)
  have hd: "ticket_ok (cb_head (rd_combs rd1 (cur_idx rd1)))" "unat (sti2seq (cb_head (rd_combs rd1 (cur_idx rd1)))) = cur_seq rd1"
    "\<forall>k. unat (sti2seq (rd_ring rd1 k)) \<le> cur_seq rd1"
    using inv by (auto simp: redo_inv_def comb_inv_def rep_inv_def)
  have ring7: "\<forall>k. unat (sti2seq (rd_ring rd7 k)) \<le> cur_seq rd7"
  proof
    fix k
    have "rd_ring rd7 k = cb_head (rd_combs rd1 (cur_idx rd1)) \<or> rd_ring rd7 k = rd_ring rd1 k" using w(4) by (simp add: ready_def)
    then show "unat (sti2seq (rd_ring rd7 k)) \<le> cur_seq rd7" using hd by (auto simp: cur7)
  qed
  have q7: "cur_seq rd7 + 1 < 2 ^ 40" using q1 by (simp add: cur7)
  from switch_ok [OF cur7(2) [symmetric] w(2) [symmetric] cur7(1) [symmetric] q7 ring7 refl, of L tid _ tk lastIdx st] obtain rd' where
    sw: "switch L tid (curComb rd1) (cb_head (rd_combs rd1 (cur_idx rd1))) tk j lastIdx st rd7 = Done (st_results st tid) rd'"
    "switched L tid (cur_idx rd1) j lastIdx tk (makeSeqTidIdx (sti2seq (curComb rd1) + 1) (of_nat tid) (of_nat j))
       (st\<lparr>st_logSize := st_lSize st\<rparr>) rd7 rd'" by blast
  have run: "ns_write_transaction ev L tid t rd = Some (st_results st tid, rd')"
    using w(3) sw(1) by (simp add: ns_write_transaction_def split_beta rd1_def [symmetric] p(5) [symmetric] numeral_2_eq_2)
  have req: "\<forall>i\<in>set (open_requests rd1). \<exists>t. rd_enqueuers rd1 i = Some t \<and> req_ok L t"
    and hp: "heap_ok L (hist (cur_seq rd1))" using inv by (auto simp: redo_inv_def request_inv_def rep_inv_def)
  have W: "heap_ok L (snd S)" "heap_used L (hist (cur_seq rd1)) \<le> heap_used L (snd S)"
    using serve_heap [OF req hp] by (simp_all add: S_def)
  have ap: "\<forall>i<MAX_THREADS. st_applied st i = rd_announce rd1 i" using w(6) by blast
  note fin = switched_inv [OF inv assms(2) q1 w(1,2) lastIdx_def tk_def w(4,5) W ap sw(2)]
  have "(fst S, snd S) = serve ((rd_enqueuers rd)(tid := Some t)) (insort tid (open_requests rd)) (st_results (last_state rd)) (hist (cur_seq rd))"
    by (simp add: S_def enq p(1-4))
  moreover have "map (st_results (last_state rd')) [0..<MAX_THREADS] = map (fst S) [0..<MAX_THREADS]" using w(6) by (simp add: fin(4))
  moreover have "pm_dur (rd_mem rd') LState = {curComb rd'}" using sw(2) by (simp add: switched_def settled_def)
  ultimately show ?thesis using run w(6) assms(2) fin(1,2,3,5)
    by (intro exI [of _ "st_results st tid"] exI [of _ rd'] exI [of _ "fst S"] exI [of _ "snd S"]) (simp add: p(4))
qed
text \<open>The state after a restart on any contents of the medium.\<close>

lemma rwlock_new_free: "fst (exclusiveTryLock MAX_THREADS rwlock_new)"
  unfolding exclusiveTryLock_alone(1) by (simp add: rwlock_new_def isEmpty_ri_def list_all_iff)

lemma mark_fields: "unat (sti2seq mark) = 0" "ticket_ok mark" "mark \<noteq> 0"
proof -
  have "sti2seq mark = 0" "sti2tid mark = 1" "sti2idx mark = 0"
    unfolding mark_def using make_fields [of 0 1 0] by simp_all
  then show "unat (sti2seq mark) = 0" "ticket_ok mark" "mark \<noteq> 0"
    by (simp_all add: ticket_ok_def) (auto simp: sti2tid_def)
qed

lemma zero_fields: "unat (sti2seq 0) = 0" "ticket_ok 0" "unat (sti2idx 0) = 0"
  by (simp_all add: ticket_ok_def sti2seq_def sti2tid_def sti2idx_def)

lemma open_region_ok:
  assumes "region_ok L" "c = unat (sti2idx (pm_cur m LState))" "c < MAX_COMBINEDS" "W = replica L (c * g_main_size L) m"
  shows "(heap_ok L W \<and> (\<forall>j<MAX_COMBINEDS. zero_beyond L (heap_used L W) (replica L (j * g_main_size L) m)) \<longrightarrow>
      redo_inv L (open_region L (redo_new m)) (\<lambda>_. W))
    \<and> (\<forall>k. rep L (open_region L (redo_new m)) k = replica L (k * g_main_size L) m)
    \<and> (\<forall>k<MAX_COMBINEDS. cb_head (rd_combs (open_region L (redo_new m)) k) = (if k = c then 0 else mark))
    \<and> cur_idx (open_region L (redo_new m)) = c \<and> rep L (open_region L (redo_new m)) (cur_idx (open_region L (redo_new m))) = W
    \<and> cur_seq (open_region L (redo_new m)) = 0 \<and> open_requests (open_region L (redo_new m)) = []
    \<and> (\<exists>i<MAX_COMBINEDS. lockable (open_region L (redo_new m)) i)"
proof -
  define rd where "rd = open_region L (redo_new m)"
  let ?new = "makeSeqTidIdx 0 0 (of_nat c)"
  have tf: "sti2seq ?new = 0" "unat (sti2idx ?new) = c"
  proof -
    have "unat (of_nat c :: u64) = c" using assms(3) by (simp add: unsigned_of_nat take_bit_nat_eq_self)
    then show "sti2seq ?new = 0" "unat (sti2idx ?new) = c" using make_fields [of 0 0 "of_nat c"] assms(3) by simp_all
  qed
  have mem: "rd_mem rd = pm_exec1 (St LState ?new) m" by (simp add: rd_def open_region_def redo_new_def set_roots_def assms(2) Let_def)
  have cur: "curComb rd = ?new" "cur_idx rd = c" "cur_seq rd = 0"
    using tf by (simp_all add: mem pm_store_def cur_idx_def cur_seq_def)
  have rp: "rep L rd k = replica L (k * g_main_size L) m" for k
    using get_bytes_cong [of _ 8 "rd_mem rd" m] by (auto simp: mem pm_store_def replica_def fun_eq_iff)
  have cb: "rd_combs rd k = Combined_new\<lparr>cb_root := g_main_addr L + k * g_main_size L, cb_head := (if k \<noteq> c then mark else 0),
      cb_rwLock := (if k = c then setReadLock rwlock_new else rwlock_new)\<rparr>" if "k < MAX_COMBINEDS" for k
    using that by (simp add: rd_def open_region_def redo_new_def set_roots_def Let_def assms(2) Combined_new_def)
  have other: "rd_sauron rd = (\<lambda>_. States_new)" "rd_ring rd = (\<lambda>_. 0)" "rd_announce rd = (\<lambda>_. False)"
    by (simp_all add: rd_def open_region_def redo_new_def set_roots_def Let_def)
  have hd: "cb_head (rd_combs rd c) = 0" by (simp add: cb [OF assms(3)])
  have "last_state rd = State_new" by (simp add: last_state_def cur(2) hd state_at_def zero_fields other States_new_def)
  then have os: "open_requests rd = []" by (simp add: open_requests_def other State_new_def)
  have "rep_inv L rd (\<lambda>_. W)"
    if "heap_ok L W \<and> (\<forall>j<MAX_COMBINEDS. zero_beyond L (heap_used L W) (replica L (j * g_main_size L) m))"
    using assms(3,4) that by (simp add: rep_inv_def cur rp cb heap_ok_def)
  moreover have "comb_inv L rd"
    using assms(3) by (simp add: comb_inv_def cb other cur zero_fields mark_fields Combined_new_def CLAggregate_new_wf)
  moreover have "locks_inv rd"
    by (simp add: locks_inv_def cb cur setReadLock_def) (simp add: rwlock_new_def)
  moreover have "state_inv L rd (\<lambda>_. W)" "fresh_inv rd"
    using State_new_shape by (simp_all add: state_inv_def fresh_inv_def other States_new_def log_inv_def cur Let_def State_new_def zero_fields)
  moreover have "request_inv L rd" by (simp add: request_inv_def os)
  ultimately have inv: "heap_ok L W \<and> (\<forall>j<MAX_COMBINEDS. zero_beyond L (heap_used L W) (replica L (j * g_main_size L) m)) \<longrightarrow>
      redo_inv L rd (\<lambda>_. W)" using assms(1) by (simp add: redo_inv_def)
  have "\<exists>i<MAX_COMBINEDS. lockable rd i"
  proof (cases "c = 0")
    case True
    then show ?thesis using rwlock_new_free by (intro exI [of _ 1]) (simp add: lockable_def cb)
  next
    case False
    then show ?thesis using rwlock_new_free by (intro exI [of _ 0]) (simp add: lockable_def cb)
  qed
  then show ?thesis unfolding rd_def [symmetric] using inv os cur rp cb assms(4) by simp
qed

text \<open>A region whose first replica holds a pool of 64 bytes.\<close>

definition ex_pool :: pm where
  "ex_pool = put_bytes 8 1024 1088 (pm_boot (\<lambda>_. 0))"

lemma zero_boot: "get_bytes n a (pm_boot (\<lambda>_. 0)) = 0"
  by (induction n arbitrary: a) (simp_all add: pm_boot_def)

lemma ex_pool_replica: "replica ex_region (k * g_main_size ex_region) ex_pool = (\<lambda>a. if k = 0 \<and> a = 1024 then 1088 else 0)"
proof -
  have p: "paddr ex_region 1024" by (simp add: paddr_def ADDR_IS_IN_MAIN_def ex_region_def)
  have z: "replica ex_region off (pm_boot (\<lambda>_. 0)) = (\<lambda>_. 0)" for off by (simp add: replica_def zero_boot fun_eq_iff)
  have e: "ex_pool = put_bytes 8 (1024 + 0 * g_main_size ex_region) 1088 (pm_boot (\<lambda>_. 0))" by (simp add: ex_pool_def)
  show ?thesis
  proof (cases "k = 0")
    case True
    then show ?thesis using replica_put [OF p, of 0 1088 "pm_boot (\<lambda>_. 0)"] z by (simp add: ex_pool_def fun_eq_iff)
  next
    case False
    then show ?thesis unfolding e replica_put_other [OF ex_region_ok(1) p False] by (simp add: z)
  qed
qed

lemma ex_pool_ok:
  "pm_cur ex_pool LState = 0" "heap_ok ex_region (replica ex_region (0 * g_main_size ex_region) ex_pool)"
  "\<forall>j<MAX_COMBINEDS. zero_beyond ex_region (heap_used ex_region (replica ex_region (0 * g_main_size ex_region) ex_pool))
     (replica ex_region (j * g_main_size ex_region) ex_pool)"
proof -
  have u: "heap_used ex_region (replica ex_region (0 * g_main_size ex_region) ex_pool) = 64"
    unfolding ex_pool_replica heap_used_def by (simp add: ex_region_def)
  show "pm_cur ex_pool LState = 0" by (simp add: ex_pool_def cur_put_bytes pm_boot_def)
  show "heap_ok ex_region (replica ex_region (0 * g_main_size ex_region) ex_pool)"
    "\<forall>j<MAX_COMBINEDS. zero_beyond ex_region (heap_used ex_region (replica ex_region (0 * g_main_size ex_region) ex_pool))
     (replica ex_region (j * g_main_size ex_region) ex_pool)"
    unfolding heap_ok_def u unfolding ex_pool_replica by (simp_all add: zero_beyond_def ex_region_def)
qed

definition ex_redo :: redo where
  "ex_redo = open_region ex_region (redo_new ex_pool)"

text \<open>
  C39: after a restart, on any contents of the medium whose curComb names one of the replicas,
  that replica is current, no replica has been touched, every other one is marked to be copied
  before use, the history starts afresh with version 0 and no request, and a writer finds a
  free replica. When moreover the current replica holds a well-formed pool and every replica is
  zero beyond its used size, the invariant of the engine holds, on which the theorems on
  transactions rest. (The second condition holds of a fresh region; a crash can break it, as a
  copy stops at the used size.)
\<close>

theorem restart_recovers_current_replica:
  assumes "region_ok L" "c = unat (sti2idx (pm_cur m LState))" "c < MAX_COMBINEDS" "W = replica L (c * g_main_size L) m"
  shows "(\<forall>k. rep L (open_region L (redo_new m)) k = replica L (k * g_main_size L) m)
    \<and> cur_idx (open_region L (redo_new m)) = c
    \<and> (\<forall>k<MAX_COMBINEDS. cb_head (rd_combs (open_region L (redo_new m)) k) = (if k = c then 0 else mark))
    \<and> cur_seq (open_region L (redo_new m)) = 0 \<and> open_requests (open_region L (redo_new m)) = []
    \<and> (\<exists>i<MAX_COMBINEDS. lockable (open_region L (redo_new m)) i)
    \<and> (heap_ok L W \<and> (\<forall>j<MAX_COMBINEDS. zero_beyond L (heap_used L W) (replica L (j * g_main_size L) m)) \<longrightarrow>
        redo_inv L (open_region L (redo_new m)) (\<lambda>_. W))"
  using open_region_ok [OF assms] by blast

theorem restart_recovers_current_replica_witness:
  "redo_inv ex_region (open_region ex_region (redo_new ex_pool)) (\<lambda>_. replica ex_region (0 * g_main_size ex_region) ex_pool)
    \<and> cur_idx (open_region ex_region (redo_new ex_pool)) = 0
    \<and> cur_seq (open_region ex_region (redo_new ex_pool)) = 0 \<and> open_requests (open_region ex_region (redo_new ex_pool)) = []"
proof -
  have c: "0 = unat (sti2idx (pm_cur ex_pool LState))" by (simp add: ex_pool_ok(1) zero_fields)
  from restart_recovers_current_replica [OF ex_region_ok(1) c _ refl] ex_pool_ok(2,3) show ?thesis by simp
qed

lemma ex_redo_ok: "redo_inv ex_region ex_redo (\<lambda>_. replica ex_region (0 * g_main_size ex_region) ex_pool)" "cur_seq ex_redo = 0"
  "open_requests ex_redo = []" "\<exists>i<MAX_COMBINEDS. lockable ex_redo i"
  using open_region_ok [OF ex_region_ok(1) _ _ refl, of 0 ex_pool] ex_pool_ok(2,3)
  by (simp_all add: ex_redo_def ex_pool_ok(1) zero_fields)

text \<open>A counter in the second word of the pool.\<close>

definition ex_count :: tx where
  "ex_count = Load 8 1024 (\<lambda>top. if unat (top - 1024) \<ge> 16 then Load 8 1032 (\<lambda>x. Store 8 1032 (x + 1) (Ret x)) else Ret 0)"

lemma ex_count_ok: "req_ok ex_region ex_count"
  unfolding req_ok_def
proof (intro conjI allI impI)
  show "tx_ok ex_region ex_count" by (simp add: ex_count_def paddr_def ADDR_IS_IN_MAIN_def ex_region_def)
  fix W assume W: "heap_ok ex_region W"
  let ?W' = "snd (tx_spec ex_count W)"
  have e: "?W' = (if unat (W 1024 - 1024) \<ge> 16 then W(1032 := W 1032 + 1) else W)" by (simp add: ex_count_def)
  have u: "heap_used ex_region V = unat (V 1024 - 1024)" for V by (simp add: heap_used_def ex_region_def)
  have same: "heap_used ex_region ?W' = heap_used ex_region W" unfolding e u by simp
  then show "heap_used ex_region W \<le> heap_used ex_region ?W'" by simp
  have "zero_beyond ex_region (heap_used ex_region W) ?W'"
    using W unfolding e u heap_ok_def zero_beyond_def by (auto simp: ex_region_def)
  then show "heap_ok ex_region ?W'" using W unfolding heap_ok_def same by simp
qed

text \<open>Two requests: one published by thread 2, and the own one of thread 5.\<close>

definition ex_redo2 :: redo where
  "ex_redo2 = snd (publish 2 ex_count ex_redo)"

lemma ex_redo2_ok: "redo_inv ex_region ex_redo2 (\<lambda>_. replica ex_region (0 * g_main_size ex_region) ex_pool)" "cur_seq ex_redo2 = 0"
  "open_requests ex_redo2 = [2]" "\<exists>i<MAX_COMBINEDS. lockable ex_redo2 i"
proof -
  have n: "2 \<notin> set (open_requests ex_redo)" by (simp add: ex_redo_ok(3))
  show "redo_inv ex_region ex_redo2 (\<lambda>_. replica ex_region (0 * g_main_size ex_region) ex_pool)"
    unfolding ex_redo2_def using publish_inv [OF ex_redo_ok(1) _ n ex_count_ok] by simp
  note p = publish_open [OF _ n ex_redo2_def]
  show "cur_seq ex_redo2 = 0" "open_requests ex_redo2 = [2]" using p(1,4) by (simp_all add: ex_redo_ok)
  show "\<exists>i<MAX_COMBINEDS. lockable ex_redo2 i" using ex_redo_ok(4) by (simp add: ex_redo2_def publish_def Let_def lockable_def)
qed

theorem write_transaction_serves_requests_witness:
  "\<exists>r rd' res W. ns_write_transaction \<lparr>ev_maxThreads = 6, ev_elapsed = 7, ev_spins = 1, ev_junk = 0\<rparr> ex_region 5 ex_count ex_redo2 = Some (r, rd')
    \<and> (res, W) = serve ((rd_enqueuers ex_redo2)(5 := Some ex_count)) (insort 5 (open_requests ex_redo2)) (st_results (last_state ex_redo2))
        (replica ex_region (0 * g_main_size ex_region) ex_pool)
    \<and> r = res 5 \<and> map (st_results (last_state rd')) [0..<MAX_THREADS] = map res [0..<MAX_THREADS]
    \<and> rep ex_region rd' (cur_idx rd') = W \<and> cur_seq rd' = cur_seq ex_redo2 + 1 \<and> open_requests rd' = []
    \<and> redo_inv ex_region rd' ((\<lambda>_. replica ex_region (0 * g_main_size ex_region) ex_pool)(cur_seq ex_redo2 + 1 := W))
    \<and> pm_dur (rd_mem rd') LState = {curComb rd'}"
  by (rule write_transaction_serves_requests [OF ex_redo2_ok(1) _ _ ex_count_ok _ ex_redo2_ok(4)]) (simp_all add: ex_redo2_ok(2,3))

text \<open>Reading.\<close>

primrec read_only :: "tx \<Rightarrow> bool" where
  "read_only (Ret r) \<longleftrightarrow> True"
| "read_only (Load n a k) \<longleftrightarrow> (\<forall>v. read_only (k v))"
| "read_only (Store n a v t) \<longleftrightarrow> False"

lemma tx_read_ok:
  "tx_ok L t \<Longrightarrow> read_only t \<Longrightarrow> tx_read L (i * g_main_size L) t m = Some (fst (tx_spec t (replica L (i * g_main_size L) m)))"
proof (induction t)
  case (Load n a k)
  have "pload L (i * g_main_size L) 8 a m = replica L (i * g_main_size L) m a"
    using Load.prems(1) by (auto simp: pload_def replica_def paddr_def)
  with Load.IH [OF rangeI] Load.prems show ?case by simp
qed simp_all


definition ex_peek :: tx where
  "ex_peek = Load 8 1032 Ret"


lemma lingers_put_bytes: "lingers v l m \<Longrightarrow> lingers v l (put_bytes n a w m)"
proof (induction n arbitrary: a w m)
  case (Suc n)
  show ?case unfolding put_bytes.simps by (rule Suc.IH, rule lingers_exec1 [OF Suc.prems]) simp
qed simp

lemma lingers_put_words: "lingers v l m \<Longrightarrow> lingers v l (put_words off xs m)"
  by (induction xs arbitrary: m) (auto simp: lingers_put_bytes)

lemma lingers_redo_loop: "lingers v l m \<Longrightarrow> lingers v l (snd (redo_loop L es off m))"
  by (induction es arbitrary: m) (auto simp: lingers_put_bytes)

lemma lingers_redo_nodes: "lingers v l m \<Longrightarrow> redo_nodes L nds n j off m = Some m' \<Longrightarrow> lingers v l m'"
proof (induction nds arbitrary: j m)
  case (Cons nd nds)
  define len where "len = (if n - j < MAXLOGSIZE then n mod MAXLOGSIZE else MAXLOGSIZE)"
  obtain stop m1 where e: "redo_loop L (take len (hn_log nd)) off m = (stop, m1)" by (rule prod.exhaust)
  then have "lingers v l m1" using lingers_redo_loop [OF Cons.prems(1), of L "take len (hn_log nd)" off] by simp
  with Cons.IH [of m1] Cons.prems(2) e show ?case by (simp add: Let_def len_def [symmetric] split: if_splits)
qed simp

lemma lingers_ring_cas: "lingers v l (rd_mem rd) \<Longrightarrow> lingers v l (rd_mem (ring_cas k e n rd))"
proof -
  assume "lingers v l (rd_mem rd)"
  then have "lingers v l (pm_exec1 Fence (rd_mem rd))" by (rule lingers_exec1) simp
  then show ?thesis by (simp add: ring_cas_def Let_def)
qed

lemma lingers_pwb_curComb: "lingers v (LByte b) m \<Longrightarrow> b div 64 \<noteq> base_addr L div 64 \<Longrightarrow> lingers v (LByte b) (pwb_curComb L m)"
  unfolding pwb_curComb_def by (rule lingers_exec) auto

lemma lingers_switch:
  assumes "lingers v (LByte b) (rd_mem rd)" "b div 64 \<noteq> base_addr L div 64" "switch L tid (curComb rd) ltail tk j k st rd = Done r rd'"
  shows "lingers v (LByte b) (rd_mem rd')"
proof -
  let ?new = "makeSeqTidIdx (sti2seq (curComb rd) + 1) (of_nat tid) (of_nat j)"
  let ?m = "pm_exec1 (St LState ?new) (pm_exec1 Fence (rd_mem rd))"
  have "lingers v (LByte b) (pm_exec1 Fence (rd_mem rd))" by (rule lingers_exec1 [OF assms(1)]) simp
  then have m: "lingers v (LByte b) ?m" by (rule lingers_exec1) simp
  have "lingers v (LByte b) (pwb_curComb L ?m)" by (rule lingers_pwb_curComb [OF m assms(2)])
  then have m': "lingers v (LByte b) (rd_mem (ring_cas k e n rd'))" if "rd_mem rd' = pwb_curComb L ?m" for k e n and rd' :: redo
    using that lingers_ring_cas by simp
  from assms(3) have "rd_mem rd' = ?m \<or> (\<exists>k e n rd''. rd_mem rd'' = pwb_curComb L ?m \<and> rd_mem rd' = rd_mem (ring_cas k e n rd''))"
    unfolding switch_def Let_def curComb_cas_def set_state_def
    by (auto split: if_splits intro!: exI)
  then show ?thesis using m m' by auto
qed

text \<open>
  Replaying the log of an earlier transaction brings a replica up to date in the cache only.
  Whatever the medium may have held of a replayed byte before, it may still hold after the next
  transaction has run on that replica, has written back the lines it collected and has switched
  curComb: unless a line collected from the transaction's own stores happens to contain it, a
  crash then restarts on the new replica without the earlier, committed transaction.
\<close>

theorem replayed_words_are_not_written_back:
  assumes "copy_redolog L as n (j * g_main_size L) (rd_mem rd) = Some m"
    "collect_lines L tid j st (rd\<lparr>rd_mem := put_words (j * g_main_size L) xs m\<rparr>) = Some rd1" "\<not> rd_copy rd1 tid"
    "flush_lines L tid j rd1 = Some (ok, rd2)" "switch L tid (curComb rd2) ltail tk j k st rd2 = Done r rd3"
    "pm_ok (rd_mem rd)" "v \<in> pm_dur (rd_mem rd) (LByte b)" "\<not> pm_flush (rd_mem rd) (LByte b)"
    "b div 64 \<notin> (\<lambda>e. (cl_addrCL e + j * g_main_size L) div 64) `
       set (node_entries AGGR_BUCKETS (ag_log (cb_clsets (rd_combs rd1 j))) (ag_numCL (cb_clsets (rd_combs rd1 j))))"
    "b div 64 \<noteq> base_addr L div 64"
  shows "v \<in> pm_dur (rd_mem rd3) (LByte b) \<and> (\<exists>img. crash_image (rd_mem rd3) img \<and> img (LByte b) = v \<and> img LState = curComb rd3)"
proof -
  have "lingers v (LByte b) (rd_mem rd)" using assms(6-8) by (simp add: lingers_def)
  then have "lingers v (LByte b) m" using assms(1) lingers_redo_nodes unfolding copy_redolog_def by blast
  then have "lingers v (LByte b) (put_words (j * g_main_size L) xs m)" by (rule lingers_put_words)
  moreover have "rd_mem rd1 = put_words (j * g_main_size L) xs m"
    using assms(2) by (auto simp: collect_lines_def bind_eq_Some split: if_splits)
  ultimately have l1: "lingers v (LByte b) (rd_mem rd1)" by simp
  let ?ag = "cb_clsets (rd_combs rd1 j)"
  have "rd_mem rd2 = pm_exec (flushDeferredPWBs ?ag (j * g_main_size L)) (rd_mem rd1)"
    using assms(3,4) by (auto simp: flush_lines_def Let_def)
  moreover have "\<not> same_line l' (LByte b)" if "Pwb l' \<in> set (flushDeferredPWBs ?ag (j * g_main_size L))" for l'
  proof -
    from that obtain e where "e \<in> set (node_entries AGGR_BUCKETS (ag_log ?ag) (ag_numCL ?ag))" "l' = LByte (cl_addrCL e + j * g_main_size L)"
      by (auto simp: flushDeferredPWBs_def split: if_splits)
    then show ?thesis using assms(9) by force
  qed
  ultimately have "lingers v (LByte b) (rd_mem rd2)" using lingers_exec [OF l1] by simp
  from lingers_switch [OF this assms(10,5)] have l3: "v \<in> pm_dur (rd_mem rd3) (LByte b)" "pm_ok (rd_mem rd3)" by (simp_all add: lingers_def)
  then have "crash_image (rd_mem rd3) ((pm_cur (rd_mem rd3))(LByte b := v))" by (simp add: crash_image_def pm_ok_def)
  then show ?thesis using l3(1) by (intro conjI exI [of _ "(pm_cur (rd_mem rd3))(LByte b := v)"]) simp_all
qed

text \<open>A log of one store, of 1 to the word at 1032, replayed on replica 1.\<close>

definition ex_log :: State where
  "ex_log = State_new\<lparr>st_log := [\<lparr>hn_buckets = replicate MAXLOGSIZE 0, hn_log = [ws_entry 1032 0 1 None]\<rparr>], st_lSize := 1, st_logSize := 1\<rparr>"

theorem replayed_words_are_not_written_back_witness:
  "\<exists>m rd1 rd2 r rd3. copy_redolog ex_region ex_log 1 (1 * g_main_size ex_region) (rd_mem ex_redo) = Some m \<and> pm_cur m (LByte 2056) = 1
    \<and> collect_lines ex_region 0 1 State_new (ex_redo\<lparr>rd_mem := put_words (1 * g_main_size ex_region) [(1096, 5)] m\<rparr>) = Some rd1
    \<and> flush_lines ex_region 0 1 rd1 = Some (True, rd2) \<and> switch ex_region 0 (curComb rd2) 0 0 1 1 State_new rd2 = Done r rd3
    \<and> 0 \<in> pm_dur (rd_mem rd3) (LByte 2056)
    \<and> (\<exists>img. crash_image (rd_mem rd3) img \<and> img (LByte 2056) = 0 \<and> img LState = curComb rd3)"
proof -
  let ?S = "g_main_size ex_region"
  define m where "m = put_bytes 8 2056 1 (rd_mem ex_redo)"
  have m: "copy_redolog ex_region ex_log 1 (1 * ?S) (rd_mem ex_redo) = Some m"
    by (simp add: copy_redolog_def ex_log_def Let_def ws_entry_def ADDR_IS_IN_MAIN_def m_def) (simp add: ex_region_def)
  have one: "pm_cur m (LByte 2056) = 1" by (simp add: m_def cur_put_bytes)
  have mem: "rd_mem ex_redo = pm_exec1 (St LState 0) ex_pool"
    by (simp add: ex_redo_def open_region_def redo_new_def set_roots_def Let_def ex_pool_ok(1) zero_fields makeSeqTidIdx_def)
  have dur: "pm_ok (rd_mem ex_redo)" "0 \<in> pm_dur (rd_mem ex_redo) (LByte 2056)" "\<not> pm_flush (rd_mem ex_redo) (LByte 2056)"
  proof -
    have "lingers 0 (LByte 2056) (pm_boot (\<lambda>_. 0))" by (simp add: lingers_def pm_ok_boot) (simp add: pm_boot_def)
    then have "lingers 0 (LByte 2056) (rd_mem ex_redo)" unfolding mem ex_pool_def by (intro lingers_exec1 lingers_put_bytes) simp_all
    then show "pm_ok (rd_mem ex_redo)" "0 \<in> pm_dur (rd_mem ex_redo) (LByte 2056)" "\<not> pm_flush (rd_mem ex_redo) (LByte 2056)" by (simp_all add: lingers_def)
  qed
  define m2 where "m2 = put_words (1 * ?S) [(1096, 5)] m"
  have cb: "cb_clsets (rd_combs ex_redo 1) = CLAggregate_new" "\<not> rd_copy ex_redo 0"
    by (simp_all add: ex_redo_def open_region_def redo_new_def set_roots_def Let_def ex_pool_ok(1) zero_fields Combined_new_def)
  define rd1 where "rd1 = upd_comb 1 (\<lambda>cb. cb\<lparr>cb_clsets := CLAggregate_new\<rparr>) (ex_redo\<lparr>rd_mem := m2, rd_copy := (rd_copy ex_redo)(0 := False)\<rparr>)"
  have c1: "collect_lines ex_region 0 1 State_new (ex_redo\<lparr>rd_mem := m2\<rparr>) = Some rd1"
    using cb by (simp add: collect_lines_def aggr_merge_def State_new_def rd1_def)
  have ag: "ag_numCL (cb_clsets (rd_combs rd1 1)) = 0" "\<not> rd_copy rd1 0" using cb by (simp_all add: rd1_def CLAggregate_new_def)
  then have f1: "flush_lines ex_region 0 1 rd1 = Some (True, rd1)" by (simp add: flush_lines_def Let_def flushDeferredPWBs_def)
  have st: "pm_cur m2 LState = 0" by (simp add: m2_def m_def put_words_def cur_put_bytes mem pm_store_def)
  have idx: "cur_idx rd1 = 0" "cur_seq rd1 = 0" using st by (simp_all add: rd1_def cur_idx_def cur_seq_def zero_fields)
  have ring: "\<forall>k. unat (sti2seq (rd_ring rd1 k)) \<le> cur_seq rd1"
    by (simp add: rd1_def ex_redo_def open_region_def redo_new_def set_roots_def Let_def zero_fields)
  from switch_ok [OF idx(1) [symmetric] _ refl _ ring refl, of 1 ex_region 0 0 0 1 State_new] idx obtain rd3 where
    s: "switch ex_region 0 (curComb rd1) 0 0 1 1 State_new rd1 = Done (st_results State_new 0) rd3" by auto
  have n: "2056 div 64 \<notin> (\<lambda>e. (cl_addrCL e + 1 * ?S) div 64) `
       set (node_entries AGGR_BUCKETS (ag_log (cb_clsets (rd_combs rd1 1))) (ag_numCL (cb_clsets (rd_combs rd1 1))))"
    unfolding ag(1) node_entries_def node_count_def by simp
  have b: "2056 div 64 \<noteq> base_addr ex_region div 64" by (simp add: base_addr_def ex_region_def)
  from replayed_words_are_not_written_back [OF m c1 [unfolded m2_def] ag(2) f1 s dur n b] show ?thesis
    using m one c1 f1 s unfolding m2_def by blast
qed

end
