(* ===== verification/OneFileLog.thy ===== *)
theory OneFileLog
  imports PTM_Prelude
begin

text \<open>
  The write set of the persistent transactional memory OneFile
  (ptms/ponefilewf/OneFilePTMWF.hpp): an array of the words a transaction has stored, searched
  from the front while it is short and through an intrusive hash table of its entries when it
  is long. The table is never cleared: the entries of earlier transactions are told apart by
  their index and their hash.
\<close>

subsection \<open>State\<close>

definition MAX_ARRAY_LOOKUP :: nat where "MAX_ARRAY_LOOKUP = 30"

definition TX_MAX_STORES :: nat where "TX_MAX_STORES = 8 * 1024 * 1024"

definition HASH_BUCKETS :: nat where "HASH_BUCKETS = 2048"

text \<open>A pointer to an entry of the log is its index, the null pointer is None.\<close>

record wsentry =
  e_addr :: u64
  e_val :: u64
  e_next :: "nat option"

record wset =
  w_log :: "nat \<Rightarrow> wsentry"
  numStores :: nat
  w_buckets :: "nat \<Rightarrow> nat"

definition wset_new :: "(nat \<Rightarrow> wsentry) \<Rightarrow> wset" where
  "wset_new log = \<lparr>w_log = log, numStores = 0, w_buckets = (\<lambda>_. TX_MAX_STORES - 1)\<rparr>"

definition ws_hash :: "u64 \<Rightarrow> nat" where
  "ws_hash addr = unat (drop_bit 3 addr) mod HASH_BUCKETS"

subsection \<open>Operations\<close>

text \<open>The loop over the array, and the loop over the chain of a bucket.\<close>

fun array_search :: "u64 \<Rightarrow> (nat \<Rightarrow> wsentry) \<Rightarrow> nat \<Rightarrow> nat \<Rightarrow> nat option" where
  "array_search addr log idx 0 = None"
| "array_search addr log idx (Suc k) = (if e_addr (log idx) = addr then Some idx else array_search addr log (idx + 1) k)"

partial_function (option) bucket_search :: "u64 \<Rightarrow> (nat \<Rightarrow> wsentry) \<Rightarrow> nat option \<Rightarrow> nat option option" where
  "bucket_search addr log be =
     (case be of None \<Rightarrow> Some None
      | Some k \<Rightarrow> if e_addr (log k) = addr then Some (Some k) else bucket_search addr log (e_next (log k)))"

declare bucket_search.simps [code]

definition ws_search :: "u64 \<Rightarrow> wset \<Rightarrow> nat option option" where
  "ws_search addr w =
     (if numStores w < MAX_ARRAY_LOOKUP then Some (array_search addr (w_log w) 0 (numStores w))
      else let be = w_buckets w (ws_hash addr)
           in if be < numStores w \<and> ws_hash (e_addr (w_log w be)) = ws_hash addr
              then bucket_search addr (w_log w) (Some be) else Some None)"

text \<open>
  addToLog overwrites the value of the entry it finds, or adds an entry and puts it at the head
  of its bucket. None is a failed assertion (a misaligned address, a full log).
\<close>

definition ws_append :: "u64 \<Rightarrow> u64 \<Rightarrow> wset \<Rightarrow> wset" where
  "ws_append addr val w =
     (let e = numStores w; be = w_buckets w (ws_hash addr);
          nx = (if be < e \<and> ws_hash (e_addr (w_log w be)) = ws_hash addr then Some be else None)
      in w\<lparr>w_log := (w_log w)(e := \<lparr>e_addr = addr, e_val = val, e_next = nx\<rparr>), numStores := e + 1,
           w_buckets := (w_buckets w)(ws_hash addr := e)\<rparr>)"

definition ws_overwrite :: "nat \<Rightarrow> u64 \<Rightarrow> wset \<Rightarrow> wset" where
  "ws_overwrite i val w = w\<lparr>w_log := (w_log w)(i := (w_log w i)\<lparr>e_val := val\<rparr>)\<rparr>"

definition addToLog :: "u64 \<Rightarrow> u64 \<Rightarrow> wset \<Rightarrow> wset option" where
  "addToLog addr val w =
     (if addr AND NOT 0xF \<noteq> addr then None
      else ws_search addr w \<bind>
        (\<lambda>r. case r of Some i \<Rightarrow> Some (ws_overwrite i val w)
         | None \<Rightarrow> if numStores w + 1 < TX_MAX_STORES then Some (ws_append addr val w) else None))"

definition lookupAddr :: "u64 \<Rightarrow> u64 \<Rightarrow> wset \<Rightarrow> u64 option" where
  "lookupAddr addr lval w =
     ws_search addr w \<bind> (\<lambda>r. Some (case r of Some i \<Rightarrow> e_val (w_log w i) | None \<Rightarrow> lval))"

text \<open>A new transaction resets the number of stores only.\<close>

definition ws_clear :: "wset \<Rightarrow> wset" where
  "ws_clear w = w\<lparr>numStores := 0\<rparr>"

text \<open>
  The constant ~0x3F, an int, is compared with the cache line before the address is masked with
  the result: == binds tighter than \& in the expression addr \& (~0x3F) == cl.
\<close>

definition same_line_test :: "u64 \<Rightarrow> u64 \<Rightarrow> bool" where
  "same_line_test addr cl \<longleftrightarrow> addr AND (if NOT 0x3F = cl then 1 else 0) \<noteq> 0"

fun line_array :: "u64 \<Rightarrow> (nat \<Rightarrow> wsentry) \<Rightarrow> nat \<Rightarrow> nat \<Rightarrow> bool" where
  "line_array cl log idx 0 = False"
| "line_array cl log idx (Suc k) = (same_line_test (e_addr (log idx)) cl \<or> line_array cl log (idx + 1) k)"

partial_function (option) line_bucket :: "u64 \<Rightarrow> (nat \<Rightarrow> wsentry) \<Rightarrow> nat option \<Rightarrow> bool option" where
  "line_bucket cl log be =
     (case be of None \<Rightarrow> Some False
      | Some k \<Rightarrow> if same_line_test (e_addr (log k)) cl then Some True else line_bucket cl log (e_next (log k)))"

definition lookupCacheLine :: "u64 \<Rightarrow> nat \<Rightarrow> wset \<Rightarrow> bool option" where
  "lookupCacheLine addr myidx w =
     (let cl = addr AND NOT 0x3F
      in if numStores w < MAX_ARRAY_LOOKUP then Some (line_array cl (w_log w) 0 myidx)
         else let be = w_buckets w (ws_hash addr)
              in if be < numStores w then line_bucket cl (w_log w) (Some be) else Some False)"

subsection \<open>The list of the words stored\<close>

text \<open>
  The contract: a list of addresses and values without duplicates, where a store of an address
  that is present replaces its value in place.
\<close>

fun put_word :: "u64 \<Rightarrow> u64 \<Rightarrow> (u64 \<times> u64) list \<Rightarrow> (u64 \<times> u64) list" where
  "put_word a v [] = [(a, v)]"
| "put_word a v (x # xs) = (if fst x = a then (a, v) # xs else x # put_word a v xs)"

fun get_word :: "u64 \<Rightarrow> u64 \<Rightarrow> (u64 \<times> u64) list \<Rightarrow> u64" where
  "get_word a d [] = d"
| "get_word a d (x # xs) = (if fst x = a then snd x else get_word a d xs)"

definition ws_words :: "wset \<Rightarrow> (u64 \<times> u64) list" where
  "ws_words w = map (\<lambda>i. (e_addr (w_log w i), e_val (w_log w i))) [0..<numStores w]"

definition ws_inv :: "wset \<Rightarrow> bool" where
  "ws_inv w \<longleftrightarrow> (\<forall>i<numStores w. \<forall>j<numStores w. e_addr (w_log w i) = e_addr (w_log w j) \<longrightarrow> i = j)
     \<and> (\<forall>i<numStores w. e_next (w_log w i) = last_index (\<lambda>k. ws_hash (e_addr (w_log w k)) = ws_hash (e_addr (w_log w i))) i)
     \<and> (\<forall>h. last_index (\<lambda>k. ws_hash (e_addr (w_log w k)) = h) (numStores w) =
           (if w_buckets w h < numStores w \<and> ws_hash (e_addr (w_log w (w_buckets w h))) = h then Some (w_buckets w h) else None))"

text \<open>Whatever the log and the buckets hold, a cleared write set is sound and empty.\<close>

lemma ws_clear_inv: "ws_inv (ws_clear w)" "ws_words (ws_clear w) = []"
  by (simp_all add: ws_inv_def ws_clear_def ws_words_def)

lemma wset_new_inv: "ws_inv (wset_new log)" "ws_words (wset_new log) = []"
  by (simp_all add: ws_inv_def wset_new_def ws_words_def)

subsection \<open>Searches\<close>

text \<open>The index of an address, if any: both searches find it.\<close>

definition word_index :: "u64 \<Rightarrow> wset \<Rightarrow> nat option" where
  "word_index a w = last_index (\<lambda>k. e_addr (w_log w k) = a) (numStores w)"

lemma array_search_spec:
  assumes "\<And>i j. i < idx + n \<Longrightarrow> j < idx + n \<Longrightarrow> e_addr (log i) = e_addr (log j) \<Longrightarrow> i = j"
    "\<And>k. k < idx \<Longrightarrow> e_addr (log k) \<noteq> a"
  shows "array_search a log idx n = last_index (\<lambda>k. e_addr (log k) = a) (idx + n)"
  using assms
proof (induction n arbitrary: idx)
  case 0
  then show ?case by (simp add: last_index_None eq_commute [of None])
next
  case (Suc n)
  show ?case
  proof (cases "e_addr (log idx) = a")
    case True
    have "last_index (\<lambda>k. e_addr (log k) = a) (idx + Suc n) = Some idx"
      unfolding last_index_Some using True Suc.prems(1) [of idx] by (metis add_Suc_right less_add_Suc1 nat_neq_iff)
    then show ?thesis using True by simp
  next
    case False
    have "array_search a log (idx + 1) n = last_index (\<lambda>k. e_addr (log k) = a) (idx + 1 + n)"
      using False Suc.prems by (intro Suc.IH) (auto simp: less_Suc_eq)
    then show ?thesis using False by simp
  qed
qed

lemma bucket_search_spec:
  assumes inv: "ws_inv w" and n: "n \<le> numStores w"
  shows "bucket_search a (w_log w) (last_index (\<lambda>k. ws_hash (e_addr (w_log w k)) = ws_hash a) n) =
     Some (last_index (\<lambda>k. e_addr (w_log w k) = a) n)"
  using n
proof (induction n rule: less_induct)
  case (less n)
  let ?h = "\<lambda>k. ws_hash (e_addr (w_log w k)) = ws_hash a" and ?a = "\<lambda>k. e_addr (w_log w k) = a"
  show ?case
  proof (cases "last_index ?h n")
    case None
    then have "last_index ?a n = None" by (auto simp: last_index_None)
    with None show ?thesis by (simp add: bucket_search.simps)
  next
    case (Some j)
    then have j: "j < n" "?h j" "\<And>l. j < l \<Longrightarrow> l < n \<Longrightarrow> \<not> ?h l" by (auto simp: last_index_Some)
    have "last_index ?a n = last_index ?a (Suc j)" using j by (intro last_index_skip) (auto simp: Suc_le_eq)
    moreover have "e_next (w_log w j) = last_index ?h j" using inv j less.prems by (simp add: ws_inv_def)
    ultimately show ?thesis
      using Some less.IH [of j] less.prems j(1) by (simp add: bucket_search.simps)
  qed
qed

lemma ws_search_spec:
  assumes inv: "ws_inv w" shows "ws_search a w = Some (word_index a w)"
proof (cases "numStores w < MAX_ARRAY_LOOKUP")
  case True
  have "array_search a (w_log w) 0 (numStores w) = last_index (\<lambda>k. e_addr (w_log w k) = a) (0 + numStores w)"
    using inv by (intro array_search_spec) (auto simp: ws_inv_def)
  with True show ?thesis by (simp add: ws_search_def word_index_def)
next
  case False
  let ?b = "w_buckets w (ws_hash a)"
  have li: "last_index (\<lambda>k. ws_hash (e_addr (w_log w k)) = ws_hash a) (numStores w) =
     (if ?b < numStores w \<and> ws_hash (e_addr (w_log w ?b)) = ws_hash a then Some ?b else None)"
    using inv by (simp add: ws_inv_def)
  have "ws_search a w = bucket_search a (w_log w) (last_index (\<lambda>k. ws_hash (e_addr (w_log w k)) = ws_hash a) (numStores w))"
    using False unfolding li by (auto simp: ws_search_def Let_def bucket_search.simps [of a _ None])
  then show ?thesis using bucket_search_spec [OF inv order_refl] by (simp add: word_index_def)
qed
subsection \<open>The write set keeps the list of its words\<close>

lemma word_index_Some:
  assumes "word_index a w = Some i" shows "i < numStores w" "e_addr (w_log w i) = a"
  using assms by (auto simp: word_index_def last_index_Some)

lemma get_word_nth:
  "distinct (map fst xs) \<Longrightarrow> i < length xs \<Longrightarrow> fst (xs ! i) = a \<Longrightarrow> get_word a d xs = snd (xs ! i)"
proof (induction xs arbitrary: i)
  case (Cons x xs)
  then show ?case by (cases i) (auto dest: nth_mem)
qed simp

lemma get_word_absent: "a \<notin> fst ` set xs \<Longrightarrow> get_word a d xs = d"
  by (induction xs) auto

lemma put_word_nth:
  "distinct (map fst xs) \<Longrightarrow> i < length xs \<Longrightarrow> fst (xs ! i) = a \<Longrightarrow> put_word a v xs = xs[i := (a, v)]"
proof (induction xs arbitrary: i)
  case (Cons x xs)
  then show ?case by (cases i) (auto dest: nth_mem)
qed simp

lemma put_word_absent: "a \<notin> fst ` set xs \<Longrightarrow> put_word a v xs = xs @ [(a, v)]"
  by (induction xs) auto

lemma fst_put_word: "fst ` set (put_word a v xs) = insert a (fst ` set xs)"
  by (induction xs) auto

lemma distinct_put_word: "distinct (map fst xs) \<Longrightarrow> distinct (map fst (put_word a v xs))"
  by (induction xs) (use fst_put_word in \<open>auto simp: image_iff\<close>)

lemma get_word_put: "get_word b d (put_word a v xs) = (if b = a then v else get_word b d xs)"
  by (induction xs) auto

lemma ws_words_facts:
  assumes "ws_inv w"
  shows "length (ws_words w) = numStores w" "distinct (map fst (ws_words w))"
    "i < numStores w \<Longrightarrow> ws_words w ! i = (e_addr (w_log w i), e_val (w_log w i))"
    "a \<in> fst ` set (ws_words w) \<longleftrightarrow> word_index a w \<noteq> None"
proof -
  show "distinct (map fst (ws_words w))"
    using assms by (auto simp: ws_words_def ws_inv_def distinct_map inj_on_def comp_def)
  show "a \<in> fst ` set (ws_words w) \<longleftrightarrow> word_index a w \<noteq> None"
    by (auto simp: ws_words_def word_index_def last_index_None image_iff)
qed (simp_all add: ws_words_def)

lemma overwrite_ok:
  assumes inv: "ws_inv w" and i: "word_index a w = Some i"
  shows "ws_inv (ws_overwrite i v w)" "ws_words (ws_overwrite i v w) = put_word a v (ws_words w)"
proof -
  have addr: "e_addr (w_log (ws_overwrite i v w) k) = e_addr (w_log w k)" "e_next (w_log (ws_overwrite i v w) k) = e_next (w_log w k)"
    and rest: "numStores (ws_overwrite i v w) = numStores w" "w_buckets (ws_overwrite i v w) = w_buckets w" for k
    by (simp_all add: ws_overwrite_def)
  show "ws_inv (ws_overwrite i v w)" using inv unfolding ws_inv_def addr rest .
  note wi = word_index_Some [OF i]
  have "put_word a v (ws_words w) = (ws_words w)[i := (a, v)]"
    using wi ws_words_facts [OF inv] by (intro put_word_nth) auto
  also have "\<dots> = ws_words (ws_overwrite i v w)"
    using wi by (intro nth_equalityI) (auto simp: ws_words_def nth_list_update ws_overwrite_def)
  finally show "ws_words (ws_overwrite i v w) = put_word a v (ws_words w)" by simp
qed

lemma append_ok:
  assumes inv: "ws_inv w" and new: "word_index a w = None"
  shows "ws_inv (ws_append a v w)" "ws_words (ws_append a v w) = put_word a v (ws_words w)"
proof -
  let ?n = "numStores w" and ?w = "ws_append a v w"
  have num: "numStores ?w = Suc ?n" by (simp add: ws_append_def Let_def)
  have old: "w_log ?w k = w_log w k" if "k < ?n" for k using that by (simp add: ws_append_def Let_def)
  have at: "e_addr (w_log ?w ?n) = a" "e_val (w_log ?w ?n) = v" by (simp_all add: ws_append_def Let_def)
  have bk: "w_buckets ?w = (w_buckets w)(ws_hash a := ?n)" by (simp add: ws_append_def Let_def)
  have fresh: "e_addr (w_log w k) \<noteq> a" if "k < ?n" for k using new that by (simp add: word_index_def last_index_None)
  let ?P = "\<lambda>h k. ws_hash (e_addr (w_log ?w k)) = h"
  have li: "last_index (?P h) ?n = last_index (\<lambda>k. ws_hash (e_addr (w_log w k)) = h) ?n" for h
    by (rule last_index_cong) (simp add: old)
  have head: "e_next (w_log ?w ?n) = last_index (?P (ws_hash a)) ?n"
    using inv unfolding li by (simp add: ws_inv_def) (simp add: ws_append_def Let_def)
  show "ws_inv ?w"
    unfolding ws_inv_def num
  proof (intro conjI allI impI)
    fix i j assume "i < Suc ?n" "j < Suc ?n" "e_addr (w_log ?w i) = e_addr (w_log ?w j)"
    then show "i = j" using inv fresh [of i] fresh [of j] by (auto simp: less_Suc_eq old at ws_inv_def)
  next
    fix i assume i: "i < Suc ?n"
    show "e_next (w_log ?w i) = last_index (?P (ws_hash (e_addr (w_log ?w i)))) i"
    proof (cases "i = ?n")
      case True then show ?thesis using head at by simp
    next
      case False
      with i have lt: "i < ?n" by simp
      have "last_index (?P h) i = last_index (\<lambda>k. ws_hash (e_addr (w_log w k)) = h) i" for h
        using lt by (intro last_index_cong) (simp add: old)
      then show ?thesis using lt inv by (simp add: old ws_inv_def)
    qed
  next
    fix h
    show "last_index (?P h) (Suc ?n) =
      (if w_buckets ?w h < Suc ?n \<and> ?P h (w_buckets ?w h) then Some (w_buckets ?w h) else None)"
    proof (cases "h = ws_hash a")
      case True then show ?thesis by (simp add: at bk)
    next
      case False
      have "last_index (?P h) (Suc ?n) = last_index (\<lambda>k. ws_hash (e_addr (w_log w k)) = h) ?n"
        using False by (simp add: at li)
      also have "\<dots> = (if w_buckets w h < ?n \<and> ws_hash (e_addr (w_log w (w_buckets w h))) = h then Some (w_buckets w h) else None)"
        using inv by (simp add: ws_inv_def)
      finally show ?thesis using False at old [of "w_buckets w h"] by (auto simp: bk less_Suc_eq)
    qed
  qed
  have "a \<notin> fst ` set (ws_words w)" using new ws_words_facts(4) [OF inv] by simp
  then have "put_word a v (ws_words w) = ws_words w @ [(a, v)]" by (rule put_word_absent)
  also have "\<dots> = ws_words ?w" unfolding ws_words_def num using old at by simp
  finally show "ws_words ?w = put_word a v (ws_words w)" by simp
qed

text \<open>
  C40: on every write set, cleared or built by earlier stores, whatever entries of earlier
  transactions its array and buckets still hold, addToLog stores an aligned address exactly as
  the list of the words does, unless the address is new and the log full, and lookupAddr
  answers what the list holds; the search in the array and the search in the hash table agree.
\<close>

theorem write_set_is_word_list:
  assumes "ws_inv w" "addr AND NOT 0xF = addr" "addr \<in> fst ` set (ws_words w) \<or> numStores w + 1 < TX_MAX_STORES"
  shows "\<exists>w'. addToLog addr val w = Some w' \<and> ws_inv w' \<and> ws_words w' = put_word addr val (ws_words w)
     \<and> lookupAddr a d w' = Some (get_word a d (put_word addr val (ws_words w)))"
proof -
  have "\<exists>w'. addToLog addr val w = Some w' \<and> ws_inv w' \<and> ws_words w' = put_word addr val (ws_words w)"
  proof (cases "word_index addr w")
    case None
    then show ?thesis using assms append_ok [OF assms(1) None] ws_words_facts(4) [OF assms(1), of addr]
      by (simp add: addToLog_def ws_search_spec)
  next
    case (Some i)
    then show ?thesis using assms(1,2) overwrite_ok [OF assms(1) Some] by (simp add: addToLog_def ws_search_spec)
  qed
  moreover have "lookupAddr a d w' = Some (get_word a d (ws_words w'))" if "ws_inv w'" for w'
  proof (cases "word_index a w'")
    case None
    then show ?thesis using that ws_words_facts(4) [OF that, of a] by (simp add: lookupAddr_def ws_search_spec get_word_absent)
  next
    case (Some i)
    note wi = word_index_Some [OF Some] and wf = ws_words_facts [OF that]
    have "get_word a d (ws_words w') = snd (ws_words w' ! i)" using wi wf by (intro get_word_nth) auto
    then show ?thesis using Some that wi wf(3) by (simp add: lookupAddr_def ws_search_spec)
  qed
  ultimately show ?thesis by metis
qed

text \<open>A store over the remains of an earlier transaction, and a load of another address of its bucket.\<close>

definition ex_used_wset :: wset where
  "ex_used_wset = ws_clear (ws_append 0x40 7 (ws_append 0x4040 5 (wset_new (\<lambda>_. \<lparr>e_addr = 0, e_val = 0, e_next = None\<rparr>))))"

theorem write_set_is_word_list_witness:
  "\<exists>w'. addToLog 0x4040 9 ex_used_wset = Some w' \<and> lookupAddr 0x40 1 w' = Some 1 \<and> ws_words w' = [(0x4040, 9)]"
proof -
  have "ws_inv ex_used_wset" "ws_words ex_used_wset = []" "numStores ex_used_wset + 1 < TX_MAX_STORES"
    by (simp_all add: ex_used_wset_def ws_clear_inv) (simp add: ws_clear_def TX_MAX_STORES_def)
  with write_set_is_word_list [of ex_used_wset "0x4040" 9 "0x40" 1] show ?thesis by auto
qed

text \<open>The test for an earlier entry of the same cache line never succeeds on aligned addresses.\<close>

lemma same_line_test_aligned: "addr AND NOT 0xF = addr \<Longrightarrow> \<not> same_line_test addr cl"
proof -
  assume "addr AND NOT 0xF = addr"
  then have "addr AND 1 = (addr AND NOT 0xF) AND 1" by simp
  also have "\<dots> = addr AND (NOT 0xF AND 1)" by (rule and.assoc)
  finally show "\<not> same_line_test addr cl" by (auto simp: same_line_test_def)
qed

end
