(* ===== verification/OneFile.thy ===== *)
theory OneFile
  imports OneFileLog
begin

text \<open>
  The wait-free persistent transactional memory OneFile (ptms/ponefilewf/OneFilePTMWF.hpp) as
  the atomic steps of any number of threads. Every word of the heap carries the sequence number
  of the transaction that wrote it last, and is changed by a double-word compare-and-swap. An
  update transaction announces its function, runs the announced functions of all threads into
  its write set, commits by a compare-and-swap of curTx, and applies the write set; any thread
  may help to apply it. A read transaction runs its function and starts again when it meets a
  word that is too new.
\<close>

subsection \<open>Transaction identifiers\<close>

text \<open>
  A transaction identifier packs a sequence number and the index of a thread in one word. The
  steps below use the pair; the packing loses nothing for 54-bit numbers and 10-bit indices.
\<close>

definition seqidx2trans :: "u64 \<Rightarrow> u64 \<Rightarrow> u64" where
  "seqidx2trans seq idx = push_bit 10 seq OR idx"

definition trans2seq :: "u64 \<Rightarrow> u64" where
  "trans2seq tx = drop_bit 10 tx"

definition trans2idx :: "u64 \<Rightarrow> u64" where
  "trans2idx tx = tx AND 0x3FF"

type_synonym txid = "nat \<times> nat"

subsection \<open>Transaction bodies\<close>

text \<open>A body loads and stores words of the heap, and returns a word; loads decide how it goes on.\<close>

datatype prog = Return u64 | Read u64 "u64 \<Rightarrow> prog" | Write u64 u64 prog

primrec prog_run :: "prog \<Rightarrow> (u64 \<Rightarrow> u64) \<Rightarrow> u64 \<times> (u64 \<Rightarrow> u64)" where
  "prog_run (Return v) m = (v, m)"
| "prog_run (Read a k) m = prog_run (k (m a)) m"
| "prog_run (Write a v p) m = prog_run p (m(a := v))"

text \<open>Where the mapped region and the array of results lie; a tmtype takes 16 bytes.\<close>

record ofcfg =
  PREGION_ADDR :: u64
  PREGION_END :: u64
  results_addr :: u64

definition in_region :: "ofcfg \<Rightarrow> u64 \<Rightarrow> bool" where
  "in_region C a \<longleftrightarrow> PREGION_ADDR C \<le> a \<and> a \<le> PREGION_END C"

definition result_at :: "ofcfg \<Rightarrow> nat \<Rightarrow> u64" where
  "result_at C i = results_addr C + 16 * of_nat i"

primrec prog_ok :: "ofcfg \<Rightarrow> prog \<Rightarrow> bool" where
  "prog_ok C (Return v) = True"
| "prog_ok C (Read a k) = (in_region C a \<and> (\<forall>v. prog_ok C (k v)))"
| "prog_ok C (Write a v p) = (in_region C a \<and> prog_ok C p)"

subsection \<open>State\<close>

text \<open>
  Where a thread is: announcing its function (innerUpdateTx), at the start of an attempt, in
  helpApply (P\_Help..., and WriteSet::apply from P\_Val), in transformAll, in the body of a
  function, in commitTx, and about to return. P\_Crashed is a call of a null function.
\<close>

datatype ofpc = P_Idle | P_Result | P_Announce | P_Publish
  | P_Loop | P_Load | P_Check
  | P_Request | P_Num | P_Copy | P_Cur | P_Request2 | P_Val | P_Seq | P_Dcas | P_Open | P_Close
  | P_Reset | P_Recheck
  | P_Scan | P_OpSeq | P_OpVal | P_OpSeq2 | P_ResSeq | P_ResSeq2 | P_TxCur | P_Run | P_LoadSeq
  | P_CommitCur | P_CommitOpen | P_CommitLog | P_CommitCas | P_Done | P_Crashed

text \<open>
  The variables of a thread: the attempt, whether it is an update, its function, curTx as it was
  loaded, the transaction it helps, whether that is its own commit, the loop counters of the
  copy and of apply, the value and sequence loaded last, the index of the scan, and the function,
  operationsSeq and resultSeq read there, what is left of the body, and the value returned. The
  list of what it has served in this attempt, and the number of the transaction that was current
  when the call began, are not kept by the code.
\<close>

record ofthread =
  t_pc :: ofpc
  t_iter :: nat
  t_upd :: bool
  t_fun :: prog
  t_my :: txid
  t_help :: txid
  t_commit :: bool
  t_k :: nat
  t_val :: u64
  t_seq :: nat
  t_i :: nat
  t_f :: "prog option"
  t_q :: nat
  t_r :: nat
  t_prog :: prog
  t_ret :: u64
  t_served :: "(nat \<times> prog \<times> u64) list"
  t_begin :: nat

definition thread_new :: ofthread where
  "thread_new = \<lparr>t_pc = P_Idle, t_iter = 0, t_upd = False, t_fun = Return 0, t_my = (0, 0), t_help = (0, 0), t_commit = False,
     t_k = 0, t_val = 0, t_seq = 0, t_i = 0, t_f = None, t_q = 0, t_r = 0, t_prog = Return 0, t_ret = 0, t_served = [], t_begin = 0\<rparr>"

text \<open>
  The shared state: the words of the heap and the results, with their sequence numbers; curTx;
  the requests and the redo logs in persistent memory; the announced operations; the write
  sets; the number of threads. The last five record the history: the memory as each transaction
  made it, its thread, what it served, and which announcements are under way, since which
  transaction.
\<close>

record oftm =
  of_mem :: "u64 \<Rightarrow> u64 \<times> nat"
  of_curTx :: txid
  of_request :: "nat \<Rightarrow> txid"
  of_plog :: "nat \<Rightarrow> nat \<Rightarrow> u64 \<times> u64"
  of_pnum :: "nat \<Rightarrow> nat"
  of_ops :: "nat \<Rightarrow> prog option \<times> nat"
  of_log :: "nat \<Rightarrow> nat \<Rightarrow> u64 \<times> u64"
  of_n :: "nat \<Rightarrow> nat"
  of_tids :: nat
  of_thr :: "nat \<Rightarrow> ofthread"
  of_vers :: "nat \<Rightarrow> u64 \<Rightarrow> u64 \<times> nat"
  of_ids :: "nat \<Rightarrow> nat"
  of_served :: "nat \<Rightarrow> (nat \<times> prog \<times> u64) list"
  of_active :: "nat \<Rightarrow> bool"
  of_pub :: "nat \<Rightarrow> nat"

text \<open>The memory, the requests and the persistent logs are as recovery left them, the other variables are new.\<close>

definition of_init :: "(u64 \<Rightarrow> u64 \<times> nat) \<Rightarrow> txid \<Rightarrow> (nat \<Rightarrow> txid) \<Rightarrow> (nat \<Rightarrow> nat \<Rightarrow> u64 \<times> u64) \<Rightarrow> (nat \<Rightarrow> nat) \<Rightarrow> oftm" where
  "of_init m cur req pl pn = \<lparr>of_mem = m, of_curTx = cur, of_request = req, of_plog = pl, of_pnum = pn, of_ops = (\<lambda>_. (None, 0)),
     of_log = (\<lambda>_ _. (0, 0)), of_n = (\<lambda>_. 0), of_tids = 0, of_thr = (\<lambda>_. thread_new),
     of_vers = (\<lambda>_. m), of_ids = (\<lambda>_. snd cur), of_served = (\<lambda>_. []), of_active = (\<lambda>_. False), of_pub = (\<lambda>_. 0)\<rparr>"

abbreviation set_thr :: "nat \<Rightarrow> (ofthread \<Rightarrow> ofthread) \<Rightarrow> oftm \<Rightarrow> oftm" where
  "set_thr t f S \<equiv> S\<lparr>of_thr := (of_thr S)(t := f (of_thr S t))\<rparr>"

abbreviation goto :: "nat \<Rightarrow> ofpc \<Rightarrow> oftm \<Rightarrow> oftm" where
  "goto t p S \<equiv> set_thr t (\<lambda>T. T\<lparr>t_pc := p\<rparr>) S"

definition words_of :: "oftm \<Rightarrow> nat \<Rightarrow> (u64 \<times> u64) list" where
  "words_of S t = map (of_log S t) [0..<of_n S t]"

text \<open>A store of the transaction goes to the write set, whose contract is put_word.\<close>

definition log_store :: "nat \<Rightarrow> u64 \<Rightarrow> u64 \<Rightarrow> oftm \<Rightarrow> oftm" where
  "log_store t a v S = (let xs = put_word a v (words_of S t)
     in S\<lparr>of_log := (of_log S)(t := (\<lambda>i. if i < length xs then xs ! i else of_log S t i)),
          of_n := (of_n S)(t := length xs)\<rparr>)"

definition apply_words :: "nat \<Rightarrow> (u64 \<times> u64) list \<Rightarrow> (u64 \<Rightarrow> u64 \<times> nat) \<Rightarrow> u64 \<Rightarrow> u64 \<times> nat" where
  "apply_words seq xs m = (\<lambda>a. if a \<in> fst ` set xs then (get_word a 0 xs, seq) else m a)"

subsection \<open>Steps\<close>

text \<open>Another attempt.\<close>

definition again :: "nat \<Rightarrow> oftm \<Rightarrow> oftm" where
  "again t S = set_thr t (\<lambda>T. T\<lparr>t_iter := t_iter T + 1, t_pc := P_Loop\<rparr>) S"

definition help_return :: "nat \<Rightarrow> oftm \<Rightarrow> oftm" where
  "help_return t S = set_thr t (\<lambda>T. T\<lparr>t_commit := False, t_pc := (if t_commit T then P_Done else P_Reset)\<rparr>) S"

text \<open>
  The announcement of innerUpdateTx, the attempts of innerUpdateTx and readTransaction, which
  share their loops, and the end of an update.
\<close>

definition announce_step :: "ofcfg \<Rightarrow> nat \<Rightarrow> oftm \<Rightarrow> oftm" where
  "announce_step C t S = (let T = of_thr S t in
     case t_pc T of
       P_Result \<Rightarrow> set_thr t (\<lambda>T. T\<lparr>t_q := snd (of_mem S (result_at C t)), t_pc := P_Announce\<rparr>) S
     | P_Announce \<Rightarrow> goto t P_Publish (S\<lparr>of_ops := (of_ops S)(t := (Some (t_fun T), snd (of_ops S t)))\<rparr>)
     | P_Publish \<Rightarrow> goto t P_Loop (S\<lparr>of_ops := (of_ops S)(t := (fst (of_ops S t), t_q T)),
           of_active := (of_active S)(t := True), of_pub := (of_pub S)(t := fst (of_curTx S))\<rparr>)
     | P_Done \<Rightarrow> set_thr t (\<lambda>T. T\<lparr>t_ret := fst (of_mem S (result_at C t)), t_pc := P_Idle\<rparr>)
           (S\<lparr>of_active := (of_active S)(t := False)\<rparr>)
     | _ \<Rightarrow> S)"

definition attempt_step :: "ofcfg \<Rightarrow> nat \<Rightarrow> oftm \<Rightarrow> oftm" where
  "attempt_step C t S = (let T = of_thr S t in
     case t_pc T of
       P_Loop \<Rightarrow>
         if t_upd T then if t_iter T < 4 then goto t P_Load (S\<lparr>of_n := (of_n S)(t := 0)\<rparr>) else goto t P_Done S
         else if t_iter T < 4 then goto t P_Load S
         else set_thr t (\<lambda>T. T\<lparr>t_upd := True, t_iter := 0, t_pc := P_Result\<rparr>) S
     | P_Load \<Rightarrow> set_thr t (\<lambda>T. T\<lparr>t_my := of_curTx S, t_help := of_curTx S, t_pc := (if t_upd T then P_Check else P_Request)\<rparr>) S
     | P_Check \<Rightarrow> goto t (if snd (of_ops S t) < snd (of_mem S (result_at C t)) then P_Done else P_Request) S
     | P_Reset \<Rightarrow> goto t P_Recheck (S\<lparr>of_n := (of_n S)(t := 0)\<rparr>)
     | P_Recheck \<Rightarrow>
         if t_my T \<noteq> of_curTx S then again t S
         else if t_upd T then set_thr t (\<lambda>T. T\<lparr>t_i := 0, t_served := [], t_pc := P_Scan\<rparr>) S
         else set_thr t (\<lambda>T. T\<lparr>t_prog := t_fun T, t_served := [], t_pc := P_Run\<rparr>) S
     | _ \<Rightarrow> S)"

text \<open>helpApply, with the copy of a write set and its application.\<close>

definition help_entry :: "nat \<Rightarrow> oftm \<Rightarrow> u64 \<times> u64" where
  "help_entry t S = of_log S t ((t * 8 + t_k (of_thr S t)) mod of_n S t)"

definition help_step :: "nat \<Rightarrow> oftm \<Rightarrow> oftm" where
  "help_step t S = (let T = of_thr S t; (seq, idx) = t_help T in
     case t_pc T of
       P_Request \<Rightarrow> if of_request S idx \<noteq> (seq, idx) then help_return t S
           else set_thr t (\<lambda>T. T\<lparr>t_k := 0, t_pc := (if idx \<noteq> t then P_Num else P_Val)\<rparr>) S
     | P_Num \<Rightarrow> goto t P_Copy (S\<lparr>of_n := (of_n S)(t := of_n S idx)\<rparr>)
     | P_Copy \<Rightarrow> if t_k T < of_n S t
           then set_thr t (\<lambda>T. T\<lparr>t_k := t_k T + 1\<rparr>) (S\<lparr>of_log := (of_log S)(t := (of_log S t)(t_k T := of_log S idx (t_k T)))\<rparr>)
           else goto t P_Cur S
     | P_Cur \<Rightarrow> if of_curTx S \<noteq> (seq, idx) then help_return t S else goto t P_Request2 S
     | P_Request2 \<Rightarrow> if of_request S idx \<noteq> (seq, idx) then help_return t S
           else set_thr t (\<lambda>T. T\<lparr>t_k := 0, t_pc := P_Val\<rparr>) S
     | P_Val \<Rightarrow> if t_k T < of_n S t
           then set_thr t (\<lambda>T. T\<lparr>t_val := fst (of_mem S (fst (help_entry t S))), t_pc := P_Seq\<rparr>) S
           else goto t P_Open S
     | P_Seq \<Rightarrow> (let q = snd (of_mem S (fst (help_entry t S))) in
           set_thr t (\<lambda>T. if q < seq then T\<lparr>t_seq := q, t_pc := P_Dcas\<rparr> else T\<lparr>t_k := t_k T + 1, t_pc := P_Val\<rparr>) S)
     | P_Dcas \<Rightarrow> set_thr t (\<lambda>T. T\<lparr>t_k := t_k T + 1, t_pc := P_Val\<rparr>)
           (if of_mem S (fst (help_entry t S)) = (t_val T, t_seq T)
            then S\<lparr>of_mem := (of_mem S)(fst (help_entry t S) := (snd (help_entry t S), seq))\<rparr> else S)
     | P_Open \<Rightarrow> if of_request S idx = (seq, idx) then goto t P_Close S else help_return t S
     | P_Close \<Rightarrow> help_return t
           (if of_request S idx = (seq, idx) then S\<lparr>of_request := (of_request S)(idx := (seq + 1, idx))\<rparr> else S)
     | _ \<Rightarrow> S)"

text \<open>transformAll; an entry that cannot be read consistently is passed over.\<close>

definition next_op :: "nat \<Rightarrow> oftm \<Rightarrow> oftm" where
  "next_op t S = set_thr t (\<lambda>T. T\<lparr>t_i := t_i T + 1, t_pc := P_Scan\<rparr>) S"

definition transform_step :: "ofcfg \<Rightarrow> nat \<Rightarrow> oftm \<Rightarrow> oftm" where
  "transform_step C t S = (let T = of_thr S t; i = t_i T in
     case t_pc T of
       P_Scan \<Rightarrow> goto t (if i < of_tids S then P_OpSeq else P_CommitCur) S
     | P_OpSeq \<Rightarrow> set_thr t (\<lambda>T. T\<lparr>t_q := snd (of_ops S i), t_pc := P_OpVal\<rparr>) S
     | P_OpVal \<Rightarrow> set_thr t (\<lambda>T. T\<lparr>t_f := fst (of_ops S i), t_pc := P_OpSeq2\<rparr>) S
     | P_OpSeq2 \<Rightarrow> if snd (of_ops S i) = t_q T then goto t P_ResSeq S else next_op t S
     | P_ResSeq \<Rightarrow> set_thr t (\<lambda>T. T\<lparr>t_r := snd (of_mem S (result_at C i)), t_pc := P_ResSeq2\<rparr>) S
     | P_ResSeq2 \<Rightarrow> if snd (of_mem S (result_at C i)) \<noteq> t_r T then next_op t S
           else if t_q T < t_r T then next_op t S else goto t P_TxCur S
     | P_TxCur \<Rightarrow> if t_my T \<noteq> of_curTx S then again t S
           else (case t_f T of None \<Rightarrow> goto t P_Crashed S | Some f \<Rightarrow> set_thr t (\<lambda>T. T\<lparr>t_prog := f, t_pc := P_Run\<rparr>) S)
     | _ \<Rightarrow> S)"

text \<open>
  A body: pload loads the value, then the sequence, and aborts the attempt if that is newer than
  curTx was; stores go to the write set. What an operation returns is stored as its result; what
  a read transaction returns is its value.
\<close>

definition run_step :: "ofcfg \<Rightarrow> nat \<Rightarrow> oftm \<Rightarrow> oftm" where
  "run_step C t S = (let T = of_thr S t in
     case t_pc T of
       P_Run \<Rightarrow> (case t_prog T of
           Return v \<Rightarrow>
             if t_upd T then set_thr t (\<lambda>T. T\<lparr>t_served := t_served T @ [(t_i T, the (t_f T), v)], t_i := t_i T + 1, t_pc := P_Scan\<rparr>)
               (log_store t (result_at C (t_i T)) v S)
             else set_thr t (\<lambda>T. T\<lparr>t_ret := v, t_pc := P_Idle\<rparr>) S
         | Write a v p \<Rightarrow> set_thr t (\<lambda>T. T\<lparr>t_prog := p\<rparr>) (log_store t a v S)
         | Read a k \<Rightarrow> set_thr t (\<lambda>T. T\<lparr>t_val := fst (of_mem S a), t_pc := P_LoadSeq\<rparr>) S)
     | P_LoadSeq \<Rightarrow> (case t_prog T of
           Read a k \<Rightarrow>
             if \<not> in_region C a then set_thr t (\<lambda>T. T\<lparr>t_prog := k (t_val T), t_pc := P_Run\<rparr>) S
             else if fst (t_my T) < snd (of_mem S a) then again t S
             else set_thr t (\<lambda>T. T\<lparr>t_prog := k (get_word a (t_val T) (words_of S t)), t_pc := P_Run\<rparr>) S
         | _ \<Rightarrow> S)
     | _ \<Rightarrow> S)"

text \<open>commitTx: the request and the log are written before the compare-and-swap of curTx.\<close>

definition commit_step :: "nat \<Rightarrow> oftm \<Rightarrow> oftm" where
  "commit_step t S = (let T = of_thr S t; newTx = (fst (t_my T) + 1, t) in
     case t_pc T of
       P_CommitCur \<Rightarrow> if of_n S t = 0 then goto t P_Done S
           else if t_my T \<noteq> of_curTx S then again t S else goto t P_CommitOpen S
     | P_CommitOpen \<Rightarrow> set_thr t (\<lambda>T. T\<lparr>t_k := 0, t_pc := P_CommitLog\<rparr>) (S\<lparr>of_request := (of_request S)(t := newTx)\<rparr>)
     | P_CommitLog \<Rightarrow> if t_k T < of_n S t
           then set_thr t (\<lambda>T. T\<lparr>t_k := t_k T + 1\<rparr>) (S\<lparr>of_plog := (of_plog S)(t := (of_plog S t)(t_k T := of_log S t (t_k T)))\<rparr>)
           else goto t P_CommitCas (S\<lparr>of_pnum := (of_pnum S)(t := of_n S t)\<rparr>)
     | P_CommitCas \<Rightarrow> if of_curTx S \<noteq> t_my T then again t S
           else set_thr t (\<lambda>T. T\<lparr>t_help := newTx, t_commit := True, t_pc := P_Request\<rparr>)
             (S\<lparr>of_curTx := newTx,
                of_vers := (of_vers S)(fst newTx := apply_words (fst newTx) (words_of S t) (of_vers S (fst (t_my T)))),
                of_ids := (of_ids S)(fst newTx := t), of_served := (of_served S)(fst newTx := t_served T)\<rparr>)
     | _ \<Rightarrow> S)"

definition of_step :: "ofcfg \<Rightarrow> nat \<Rightarrow> oftm \<Rightarrow> oftm" where
  "of_step C t S = (let pc = t_pc (of_thr S t) in
     if pc \<in> {P_Result, P_Announce, P_Publish, P_Done} then announce_step C t S
     else if pc \<in> {P_Loop, P_Load, P_Check, P_Reset, P_Recheck} then attempt_step C t S
     else if pc \<in> {P_Request, P_Num, P_Copy, P_Cur, P_Request2, P_Val, P_Seq, P_Dcas, P_Open, P_Close} then help_step t S
     else if pc \<in> {P_Scan, P_OpSeq, P_OpVal, P_OpSeq2, P_ResSeq, P_ResSeq2, P_TxCur} then transform_step C t S
     else if pc \<in> {P_Run, P_LoadSeq} then run_step C t S
     else commit_step t S)"

text \<open>A thread starts an update or a read transaction; the registry admits more threads.\<close>

definition call_update :: "nat \<Rightarrow> prog \<Rightarrow> oftm \<Rightarrow> oftm" where
  "call_update t f S = set_thr t (\<lambda>T. T\<lparr>t_fun := f, t_upd := True, t_iter := 0, t_begin := fst (of_curTx S), t_pc := P_Result\<rparr>) S"

definition call_read :: "nat \<Rightarrow> prog \<Rightarrow> oftm \<Rightarrow> oftm" where
  "call_read t f S = set_thr t (\<lambda>T. T\<lparr>t_fun := f, t_upd := False, t_iter := 0, t_begin := fst (of_curTx S), t_pc := P_Loop\<rparr>) (S\<lparr>of_n := (of_n S)(t := 0)\<rparr>)"

inductive of_reach :: "ofcfg \<Rightarrow> oftm \<Rightarrow> oftm \<Rightarrow> bool" for C S0 where
  of_start: "of_reach C S0 S0"
| of_register: "of_reach C S0 S \<Longrightarrow> of_tids S \<le> n \<Longrightarrow> n \<le> 128 \<Longrightarrow> of_reach C S0 (S\<lparr>of_tids := n\<rparr>)"
| of_update: "of_reach C S0 S \<Longrightarrow> t_pc (of_thr S t) = P_Idle \<Longrightarrow> t < of_tids S \<Longrightarrow> prog_ok C f \<Longrightarrow> of_reach C S0 (call_update t f S)"
| of_read: "of_reach C S0 S \<Longrightarrow> t_pc (of_thr S t) = P_Idle \<Longrightarrow> t < of_tids S \<Longrightarrow> prog_ok C f \<Longrightarrow> of_reach C S0 (call_read t f S)"
| of_thread: "of_reach C S0 S \<Longrightarrow> t_pc (of_thr S t) \<notin> {P_Idle, P_Crashed} \<Longrightarrow> of_reach C S0 (of_step C t S)"

text \<open>A thread that goes on alone for some steps; and moves of any kind, for infinite runs.\<close>

primrec of_steps :: "ofcfg \<Rightarrow> nat \<Rightarrow> nat \<Rightarrow> oftm \<Rightarrow> oftm" where
  "of_steps C t 0 S = S"
| "of_steps C t (Suc n) S = (if t_pc (of_thr S t) \<in> {P_Idle, P_Crashed} then S else of_steps C t n (of_step C t S))"

datatype ofmove = Register nat | Update nat prog | ReadOnly nat prog | Step nat

definition of_move :: "ofcfg \<Rightarrow> ofmove \<Rightarrow> oftm \<Rightarrow> oftm" where
  "of_move C mv S = (case mv of
       Register n \<Rightarrow> if of_tids S \<le> n \<and> n \<le> 128 then S\<lparr>of_tids := n\<rparr> else S
     | Update t f \<Rightarrow> if t_pc (of_thr S t) = P_Idle \<and> t < of_tids S \<and> prog_ok C f then call_update t f S else S
     | ReadOnly t f \<Rightarrow> if t_pc (of_thr S t) = P_Idle \<and> t < of_tids S \<and> prog_ok C f then call_read t f S else S
     | Step t \<Rightarrow> if t_pc (of_thr S t) \<notin> {P_Idle, P_Crashed} then of_step C t S else S)"

primrec of_run :: "ofcfg \<Rightarrow> (nat \<Rightarrow> ofmove) \<Rightarrow> oftm \<Rightarrow> nat \<Rightarrow> oftm" where
  "of_run C mvs S 0 = S"
| "of_run C mvs S (Suc i) = of_move C (mvs i) (of_run C mvs S i)"

lemma of_reach_steps: "of_reach C S0 S \<Longrightarrow> of_reach C S0 (of_steps C t n S)"
  by (induction n arbitrary: S) (auto intro: of_thread)

lemma of_reach_move: "of_reach C S0 S \<Longrightarrow> of_reach C S0 (of_move C mv S)"
  by (cases mv) (auto simp: of_move_def intro: of_reach.intros)

lemma of_reach_run: "of_reach C S0 S \<Longrightarrow> of_reach C S0 (of_run C mvs S i)"
  by (induction i) (auto intro: of_reach_move)

text \<open>recover: applyFromRecover writes the persistent log of the thread of curTx, in order.\<close>

definition of_recover :: "oftm \<Rightarrow> (u64 \<Rightarrow> u64) \<Rightarrow> u64 \<Rightarrow> u64" where
  "of_recover S m = (let idx = snd (of_curTx S)
     in fold (\<lambda>(a, v) m. m(a := v)) (map (of_plog S idx) [0..<of_pnum S idx]) m)"

end
