(* ===== verification/OneFileInv.thy ===== *)
theory OneFileInv
  imports OneFile
begin

text \<open>
  The invariant of OneFile: what holds of the shared words and of the history of transactions in
  every reachable state, what holds of each thread by the place it has reached, and that the
  latter is stable under the steps of the other threads.
\<close>

subsection \<open>The history\<close>

abbreviation cur :: "oftm \<Rightarrow> nat" where "cur S \<equiv> fst (of_curTx S)"

abbreviation pc :: "oftm \<Rightarrow> nat \<Rightarrow> ofpc" where "pc S t \<equiv> t_pc (of_thr S t)"

abbreviation my :: "oftm \<Rightarrow> nat \<Rightarrow> nat" where "my S t \<equiv> fst (t_my (of_thr S t))"

abbreviation res :: "ofcfg \<Rightarrow> oftm \<Rightarrow> nat \<Rightarrow> u64 \<times> nat" where "res C S i \<equiv> of_mem S (result_at C i)"

text \<open>
  The words a transaction leaves, where it has served its list of operations one after the
  other; and the words of the memory seen through a write set.
\<close>

fun serve_ok :: "ofcfg \<Rightarrow> (nat \<times> prog \<times> u64) list \<Rightarrow> (u64 \<Rightarrow> u64) \<Rightarrow> (u64 \<Rightarrow> u64) \<Rightarrow> bool" where
  "serve_ok C [] m m' \<longleftrightarrow> m' = m"
| "serve_ok C ((i, f, r) # sv) m m' \<longleftrightarrow> fst (prog_run f m) = r \<and> serve_ok C sv ((snd (prog_run f m))(result_at C i := r)) m'"

definition overlay :: "(u64 \<times> u64) list \<Rightarrow> (u64 \<Rightarrow> u64) \<Rightarrow> u64 \<Rightarrow> u64" where
  "overlay xs m = (\<lambda>a. get_word a (m a) xs)"

lemma serve_ok_append: "serve_ok C (sv @ sw) m m' \<longleftrightarrow> (\<exists>m1. serve_ok C sv m m1 \<and> serve_ok C sw m1 m')"
  by (induction sv arbitrary: m) auto

lemma overlay_simps [simp]: "overlay [] m = m" "overlay (put_word a v xs) m = (overlay xs m)(a := v)"
  by (auto simp: overlay_def get_word_put)

lemma get_word_default: "a \<in> fst ` set xs \<Longrightarrow> get_word a d xs = get_word a d' xs"
  by (induction xs) auto

lemma fst_apply_words: "fst \<circ> apply_words s xs m = overlay xs (fst \<circ> m)"
  by (auto simp: apply_words_def overlay_def get_word_absent fun_eq_iff intro: get_word_default)

text \<open>A transaction is applied when its request is closed.\<close>

definition applied :: "oftm \<Rightarrow> nat \<Rightarrow> bool" where
  "applied S s \<longleftrightarrow> of_request S (of_ids S s) \<noteq> (s, of_ids S s)"

definition is_log :: "oftm \<Rightarrow> nat \<Rightarrow> (u64 \<times> u64) list \<Rightarrow> bool" where
  "is_log S s xs \<longleftrightarrow> distinct (map fst xs) \<and> of_vers S s = apply_words s xs (of_vers S (s - 1))"

definition own_open :: "oftm \<Rightarrow> nat \<Rightarrow> bool" where
  "own_open S t \<longleftrightarrow> snd (of_curTx S) = t \<and> \<not> applied S (cur S)"

definition closed :: "ofcfg \<Rightarrow> oftm \<Rightarrow> nat \<Rightarrow> bool" where
  "closed C S i \<longleftrightarrow> snd (of_ops S i) < snd (res C S i)"

subsection \<open>The invariant of the shared state\<close>

definition hist_inv :: "nat \<Rightarrow> oftm \<Rightarrow> bool" where
  "hist_inv s0 S \<longleftrightarrow> 1 \<le> s0 \<and> s0 \<le> cur S \<and> of_ids S (cur S) = snd (of_curTx S) \<and> (\<forall>a. snd (of_vers S (cur S) a) \<le> cur S)
     \<and> (\<forall>s<cur S. \<forall>a. of_vers S (s + 1) a = of_vers S s a \<or> snd (of_vers S s a) \<le> s \<and> snd (of_vers S (s + 1) a) = s + 1)"

definition mem_inv :: "oftm \<Rightarrow> bool" where
  "mem_inv S \<longleftrightarrow> (\<forall>a. of_mem S a = of_vers S (cur S) a \<or> of_mem S a = of_vers S (cur S - 1) a)
     \<and> (applied S (cur S) \<longrightarrow> of_mem S = of_vers S (cur S))"

definition req_inv :: "nat \<Rightarrow> oftm \<Rightarrow> bool" where
  "req_inv s0 S \<longleftrightarrow> (\<forall>s. s0 \<le> s \<longrightarrow> s < cur S \<longrightarrow> applied S s)
     \<and> (\<not> applied S (cur S) \<longrightarrow> is_log S (cur S) (words_of S (snd (of_curTx S))))"

definition op_active :: "ofcfg \<Rightarrow> oftm \<Rightarrow> nat \<Rightarrow> bool" where
  "op_active C S i \<longleftrightarrow> i < of_tids S \<and> snd (of_ops S i) \<le> of_pub S i \<and> of_pub S i \<le> cur S
     \<and> (\<exists>f. fst (of_ops S i) = Some f \<and> prog_ok C f)
     \<and> snd (of_vers S (of_pub S i) (result_at C i)) = snd (of_ops S i)
     \<and> (\<forall>s. of_pub S i + 2 \<le> s \<longrightarrow> s \<le> cur S \<longrightarrow> snd (of_ops S i) < snd (of_vers S s (result_at C i)))"

definition op_inv :: "ofcfg \<Rightarrow> oftm \<Rightarrow> nat \<Rightarrow> bool" where
  "op_inv C S i \<longleftrightarrow> snd (of_ops S i) \<le> snd (res C S i) \<and> snd (of_ops S i) \<le> cur S
     \<and> (\<not> of_active S i \<longrightarrow> closed C S i \<and> res C S i = of_vers S (cur S) (result_at C i))
     \<and> (of_active S i \<longrightarrow> op_active C S i)
     \<and> (\<forall>s\<le>cur S. snd (of_ops S i) < snd (of_vers S s (result_at C i)) \<longrightarrow> of_vers S (cur S) (result_at C i) = of_vers S s (result_at C i))"

definition served_at :: "ofcfg \<Rightarrow> oftm \<Rightarrow> nat \<Rightarrow> nat \<Rightarrow> bool" where
  "served_at C S i s \<longleftrightarrow> (i \<in> fst ` set (of_served S s) \<longleftrightarrow> snd (of_vers S s (result_at C i)) = s)
     \<and> (\<forall>f r. (i, f, r) \<in> set (of_served S s) \<longrightarrow> fst (of_ops S i) = Some f \<and> fst (of_vers S s (result_at C i)) = r)"

definition serves :: "ofcfg \<Rightarrow> (nat \<times> prog \<times> u64) list \<Rightarrow> (u64 \<Rightarrow> u64) \<Rightarrow> (u64 \<Rightarrow> u64) \<Rightarrow> bool" where
  "serves C sv m m' \<longleftrightarrow> distinct (map fst sv) \<and> serve_ok C sv m m'"

definition served_inv :: "ofcfg \<Rightarrow> nat \<Rightarrow> oftm \<Rightarrow> bool" where
  "served_inv C s0 S \<longleftrightarrow> (\<forall>s. s0 \<le> s \<longrightarrow> s < cur S \<longrightarrow> serves C (of_served S (s + 1)) (fst \<circ> of_vers S s) (fst \<circ> of_vers S (s + 1)))
     \<and> (\<forall>i<128. of_active S i \<longrightarrow> (\<forall>s. of_pub S i < s \<longrightarrow> s \<le> cur S \<longrightarrow> served_at C S i s))"

definition shared_inv :: "ofcfg \<Rightarrow> nat \<Rightarrow> oftm \<Rightarrow> bool" where
  "shared_inv C s0 S \<longleftrightarrow> hist_inv s0 S \<and> mem_inv S \<and> req_inv s0 S \<and> of_tids S \<le> 128 \<and> (\<forall>i<128. op_inv C S i) \<and> served_inv C s0 S"

subsection \<open>The invariant of a thread\<close>

definition helping :: "ofpc set" where
  "helping = {P_Request, P_Num, P_Copy, P_Cur, P_Request2, P_Val, P_Seq, P_Dcas, P_Open, P_Close}"

definition committing :: "ofpc set" where
  "committing = {P_CommitCur, P_CommitOpen, P_CommitLog, P_CommitCas}"

definition scanning :: "ofpc set" where
  "scanning = {P_OpSeq, P_OpVal, P_OpSeq2, P_ResSeq, P_ResSeq2, P_TxCur}"

definition running :: "ofpc set" where
  "running = {P_Run, P_LoadSeq}"

definition transforming :: "ofpc set" where
  "transforming = insert P_Scan (scanning \<union> running \<union> committing)"

definition loaded :: "ofpc set" where
  "loaded = {P_Check, P_Reset, P_Recheck} \<union> helping \<union> transforming"

lemmas pc_sets = helping_def committing_def scanning_def running_def transforming_def loaded_def

definition mode_inv :: "ofcfg \<Rightarrow> oftm \<Rightarrow> nat \<Rightarrow> bool" where
  "mode_inv C S t \<longleftrightarrow> (let T = of_thr S t; p = t_pc T in
     p \<noteq> P_Crashed \<and> (p \<noteq> P_Idle \<longrightarrow> prog_ok C (t_fun T)) \<and> (t_commit T \<longrightarrow> t_upd T \<and> p \<in> helping)
     \<and> (of_active S t \<longleftrightarrow> t_upd T \<and> p \<notin> {P_Idle, P_Result, P_Announce, P_Publish})
     \<and> (of_active S t \<or> p = P_Publish \<longrightarrow> fst (of_ops S t) = Some (t_fun T))
     \<and> (p \<in> {P_Result, P_Announce, P_Publish, P_Check, P_Done, P_Scan} \<union> scanning \<union> committing \<longrightarrow> t_upd T)
     \<and> (p \<in> {P_Result, P_Announce, P_Publish} \<longrightarrow> t_iter T = 0))"

definition basic_inv :: "ofcfg \<Rightarrow> oftm \<Rightarrow> nat \<Rightarrow> bool" where
  "basic_inv C S t \<longleftrightarrow> mode_inv C S t \<and> (pc S t \<noteq> P_Idle \<longrightarrow> t < of_tids S)
     \<and> (pc S t \<in> {P_Announce, P_Publish} \<longrightarrow> t_q (of_thr S t) = snd (res C S t)) \<and> (pc S t = P_Done \<longrightarrow> closed C S t)"

definition iter_inv :: "oftm \<Rightarrow> nat \<Rightarrow> bool" where
  "iter_inv S t \<longleftrightarrow> (let T = of_thr S t; p = t_pc T in of_active S t \<longrightarrow> t_begin T \<le> of_pub S t \<and>
     (p \<in> {P_Loop, P_Load} \<longrightarrow> t_iter T \<le> 3 \<and> of_pub S t + t_iter T \<le> cur S)
     \<and> (p \<in> loaded \<longrightarrow> t_iter T \<le> (if p = P_Check then 3 else 2) \<and> of_pub S t + t_iter T \<le> fst (t_my T)))"

definition my_facts :: "ofcfg \<Rightarrow> nat \<Rightarrow> oftm \<Rightarrow> nat \<Rightarrow> bool" where
  "my_facts C s0 S t \<longleftrightarrow> (let T = of_thr S t; p = t_pc T; s = fst (t_my T) in
     s0 \<le> s \<and> s \<le> cur S \<and> of_ids S s = snd (t_my T) \<and> t_begin T \<le> s
     \<and> (\<forall>s'. (if t_commit T then s + 1 else s) < s' \<longrightarrow> s' \<le> cur S \<longrightarrow> of_ids S s' \<noteq> t)
     \<and> (t_commit T \<longrightarrow> s + 1 \<le> cur S \<and> of_ids S (s + 1) = t \<and> snd (of_ops S t) < snd (of_vers S (s + 1) (result_at C t)))
     \<and> (p \<in> insert P_Check helping \<longrightarrow> t_help T = (if t_commit T then (s + 1, t) else t_my T))
     \<and> (p \<in> {P_CommitLog, P_CommitCas} \<longrightarrow> of_request S t = (s + 1, t)))"

definition my_inv :: "ofcfg \<Rightarrow> nat \<Rightarrow> oftm \<Rightarrow> nat \<Rightarrow> bool" where
  "my_inv C s0 S t \<longleftrightarrow> t_begin (of_thr S t) \<le> cur S \<and> (pc S t \<in> loaded \<longrightarrow> my_facts C s0 S t)"

definition own_inv :: "oftm \<Rightarrow> nat \<Rightarrow> bool" where
  "own_inv S t \<longleftrightarrow> (own_open S t \<longrightarrow> t_commit (of_thr S t) \<and> t_help (of_thr S t) = of_curTx S \<or> of_n S t = 0)"

definition entry :: "oftm \<Rightarrow> nat \<Rightarrow> nat \<Rightarrow> u64 \<times> u64" where
  "entry S t k = of_log S t ((t * 8 + k) mod of_n S t)"

definition copy_inv :: "oftm \<Rightarrow> nat \<Rightarrow> bool" where
  "copy_inv S t \<longleftrightarrow> (let T = of_thr S t; p = t_pc T; (s, y) = t_help T in
     (p \<in> {P_Num, P_Copy, P_Cur, P_Request2} \<longrightarrow> y \<noteq> t) \<and> (p = P_Num \<longrightarrow> t_k T = 0)
     \<and> (p = P_Copy \<longrightarrow> t_k T \<le> of_n S t \<and> (of_request S y = (s, y) \<longrightarrow> of_n S t = of_n S y \<and> (\<forall>j<t_k T. of_log S t j = of_log S y j)))
     \<and> (p \<in> {P_Cur, P_Request2} \<longrightarrow> of_request S y = (s, y) \<longrightarrow> words_of S t = words_of S y))"

definition apply_inv :: "oftm \<Rightarrow> nat \<Rightarrow> bool" where
  "apply_inv S t \<longleftrightarrow> (let T = of_thr S t; p = t_pc T; s = fst (t_help T); a = fst (entry S t (t_k T)) in
     (p \<in> {P_Val, P_Seq, P_Dcas, P_Open, P_Close} \<longrightarrow> is_log S s (words_of S t)
        \<and> (\<forall>j<(if p \<in> {P_Open, P_Close} then of_n S t else t_k T). s \<le> snd (of_mem S (fst (entry S t j)))))
     \<and> (p \<in> {P_Seq, P_Dcas} \<longrightarrow> t_k T < of_n S t) \<and> (p = P_Val \<longrightarrow> t_k T \<le> of_n S t)
     \<and> (p = P_Seq \<longrightarrow> s \<le> snd (of_mem S a) \<or> of_mem S a = of_vers S (s - 1) a \<and> t_val T = fst (of_vers S (s - 1) a))
     \<and> (p = P_Dcas \<longrightarrow> s \<le> snd (of_mem S a) \<or> of_mem S a = (t_val T, t_seq T))
     \<and> (p = P_Dcas \<longrightarrow> t_seq T < s))"

text \<open>The operation a scan is looking at.\<close>

definition scan_inv :: "ofcfg \<Rightarrow> oftm \<Rightarrow> nat \<Rightarrow> bool" where
  "scan_inv C S t \<longleftrightarrow> (let T = of_thr S t; p = t_pc T; i = t_i T; s = fst (t_my T) in
     (p \<in> scanning \<or> p \<in> running \<and> t_upd T \<longrightarrow> i < of_tids S)
     \<and> (p \<in> {P_OpVal, P_OpSeq2, P_ResSeq, P_ResSeq2, P_TxCur} \<longrightarrow> t_q T \<le> snd (of_ops S i)
          \<and> (snd (of_ops S i) = t_q T \<or> t_q T < snd (res C S i)) \<and> (i = t \<longrightarrow> snd (of_ops S t) = t_q T)
          \<and> (cur S = s \<longrightarrow> snd (of_ops S i) = t_q T \<or> s \<le> of_pub S i))
     \<and> (p \<in> {P_OpSeq2, P_ResSeq, P_ResSeq2, P_TxCur} \<longrightarrow>
          snd (of_ops S i) = t_q T \<longrightarrow> snd (res C S i) \<le> t_q T \<longrightarrow> t_f T = fst (of_ops S i))
     \<and> (p \<in> {P_ResSeq2, P_TxCur} \<longrightarrow> t_r T \<le> snd (res C S i) \<and> (cur S = s \<longrightarrow> snd (of_vers S s (result_at C i)) = t_r T)
          \<and> (t_r T \<le> t_q T \<longrightarrow> (\<exists>f. t_f T = Some f \<and> prog_ok C f)) \<and> (i = t \<longrightarrow> snd (of_ops S t) \<le> t_r T))
     \<and> (p = P_TxCur \<longrightarrow> t_r T \<le> t_q T)
     \<and> (p \<in> running \<and> t_upd T \<longrightarrow> t_f T \<noteq> None \<and>
          (cur S = s \<longrightarrow> of_active S i \<and> fst (of_ops S i) = t_f T \<and> snd (of_vers S s (result_at C i)) \<le> snd (of_ops S i))))"

text \<open>What has been served so far, and what must have been.\<close>

definition list_inv :: "ofcfg \<Rightarrow> oftm \<Rightarrow> nat \<Rightarrow> bool" where
  "list_inv C S t \<longleftrightarrow> (let T = of_thr S t; p = t_pc T; i = t_i T; s = fst (t_my T); sv = t_served T in
     p \<in> transforming \<and> t_upd T \<longrightarrow>
       distinct (map fst sv) \<and> (\<forall>j\<in>fst ` set sv. j < i \<and> j < 128)
       \<and> (\<forall>j<128. result_at C j \<in> fst ` set (words_of S t) \<longleftrightarrow> j \<in> fst ` set sv)
       \<and> (\<forall>j f r. (j, f, r) \<in> set sv \<longrightarrow> get_word (result_at C j) 0 (words_of S t) = r)
       \<and> (cur S = s \<longrightarrow> (\<forall>j f r. (j, f, r) \<in> set sv \<longrightarrow>
            of_active S j \<and> fst (of_ops S j) = Some f \<and> snd (of_vers S s (result_at C j)) \<le> snd (of_ops S j)))
       \<and> (cur S = s \<longrightarrow> (\<forall>j<128. j < i \<or> p \<in> committing \<longrightarrow> of_active S j \<longrightarrow> of_pub S j < s \<longrightarrow>
            snd (of_vers S s (result_at C j)) \<le> snd (of_ops S j) \<longrightarrow> j \<in> fst ` set sv))
       \<and> (t < i \<longrightarrow> t \<in> fst ` set sv \<or> closed C S t) \<and> (p \<in> committing \<longrightarrow> t < i))"

text \<open>The body that runs, on the memory of the transaction before.\<close>

definition run_inv :: "ofcfg \<Rightarrow> oftm \<Rightarrow> nat \<Rightarrow> bool" where
  "run_inv C S t \<longleftrightarrow> (let T = of_thr S t; p = t_pc T; s = fst (t_my T); m = fst \<circ> of_vers S s; m' = overlay (words_of S t) m in
     (p \<in> {P_Reset, P_Recheck} \<union> transforming \<longrightarrow> applied S s)
     \<and> (p \<in> transforming \<longrightarrow> distinct (map fst (words_of S t)))
     \<and> (p \<in> transforming - running \<longrightarrow> serve_ok C (t_served T) m m')
     \<and> (p \<in> running \<longrightarrow> prog_ok C (t_prog T) \<and> (if t_upd T
          then \<exists>m1. serve_ok C (t_served T) m m1 \<and> prog_run (the (t_f T)) m1 = prog_run (t_prog T) m'
          else prog_run (t_fun T) m = prog_run (t_prog T) m'))
     \<and> (p = P_LoadSeq \<longrightarrow> (\<exists>a k. t_prog T = Read a k \<and> (snd (of_mem S a) \<le> s \<longrightarrow> t_val T = fst (of_vers S s a))))
     \<and> (p = P_Recheck \<longrightarrow> of_n S t = 0))"

definition thread_inv :: "ofcfg \<Rightarrow> nat \<Rightarrow> oftm \<Rightarrow> nat \<Rightarrow> bool" where
  "thread_inv C s0 S t \<longleftrightarrow> basic_inv C S t \<and> iter_inv S t \<and> my_inv C s0 S t \<and> own_inv S t \<and> copy_inv S t \<and> apply_inv S t
     \<and> scan_inv C S t \<and> list_inv C S t \<and> run_inv C S t"

definition of_inv :: "ofcfg \<Rightarrow> nat \<Rightarrow> oftm \<Rightarrow> bool" where
  "of_inv C s0 S \<longleftrightarrow> shared_inv C s0 S \<and> (\<forall>t<128. thread_inv C s0 S t) \<and> (\<forall>t\<ge>128. pc S t = P_Idle)"

text \<open>The results lie outside of the region, apart from each other.\<close>

definition cfg_ok :: "ofcfg \<Rightarrow> bool" where
  "cfg_ok C \<longleftrightarrow> (\<forall>i<128. \<not> in_region C (result_at C i))"

lemma result_at_inj: "i < 128 \<Longrightarrow> j < 128 \<Longrightarrow> result_at C i = result_at C j \<Longrightarrow> i = j"
proof -
  assume b: "i < 128" "j < 128" and "result_at C i = result_at C j"
  then have "unat (16 * of_nat i :: u64) = unat (16 * of_nat j :: u64)" by (simp add: result_at_def)
  moreover have "unat (16 * of_nat k :: u64) = 16 * k" if "k < 128" for k
  proof -
    have "(16 * of_nat k :: u64) = of_nat (16 * k)" by simp
    then show ?thesis using that by (simp only: unat_of_nat) simp
  qed
  ultimately show "i = j" using b by simp
qed
subsection \<open>What other threads may do\<close>

definition rely :: "ofcfg \<Rightarrow> nat \<Rightarrow> nat \<Rightarrow> oftm \<Rightarrow> oftm \<Rightarrow> bool" where
  "rely C s0 t S S' \<longleftrightarrow> of_tids S \<le> of_tids S' \<and> cur S \<le> cur S' \<and> (cur S' = cur S \<longrightarrow> of_curTx S' = of_curTx S)
     \<and> (\<forall>s. cur S < s \<longrightarrow> s \<le> cur S' \<longrightarrow> of_ids S' s \<noteq> t)
     \<and> (\<forall>s\<le>cur S. of_vers S' s = of_vers S s \<and> of_ids S' s = of_ids S s)
     \<and> (\<forall>s. s0 \<le> s \<longrightarrow> s \<le> cur S \<longrightarrow> applied S s \<longrightarrow> applied S' s)
     \<and> (\<forall>a. of_mem S' a = of_mem S a \<or> snd (of_mem S a) < cur S \<and> snd (of_mem S' a) = cur S)
     \<and> (of_request S' t = of_request S t \<or> (\<exists>s. s0 \<le> s \<and> s \<le> cur S \<and> of_ids S s = t \<and> of_request S t = (s, t)))
     \<and> of_log S' t = of_log S t \<and> of_n S' t = of_n S t \<and> of_thr S' t = of_thr S t
     \<and> of_ops S' t = of_ops S t \<and> of_active S' t = of_active S t \<and> of_pub S' t = of_pub S t
     \<and> (\<not> of_active S t \<longrightarrow> res C S' t = res C S t)
     \<and> (\<forall>y. own_open S y \<longrightarrow> of_n S' y = of_n S y \<and> (\<forall>j<of_n S y. of_log S' y j = of_log S y j))
     \<and> (\<forall>i<128. of_ops S' i = of_ops S i \<or> closed C S i \<and> snd (of_ops S i) \<le> snd (of_ops S' i) \<and>
          (snd (of_ops S' i) \<noteq> snd (of_ops S i) \<longrightarrow> cur S \<le> of_pub S' i))
     \<and> (\<forall>i<128. of_pub S' i = of_pub S i \<or> cur S \<le> of_pub S' i)
     \<and> (\<forall>i<128. of_active S i \<longrightarrow> \<not> closed C S i \<longrightarrow> of_active S' i)
     \<and> (\<forall>i<128. of_active S' i \<longrightarrow> of_pub S' i < cur S \<longrightarrow> of_active S i \<and> of_ops S' i = of_ops S i)"

lemma rely_refl: "rely C s0 t S S"
  by (simp add: rely_def)

lemma vers_change:
  assumes "hist_inv s0 S" "s \<le> s'" "s' \<le> cur S"
  shows "of_vers S s' a = of_vers S s a \<or> s < snd (of_vers S s' a) \<and> snd (of_vers S s a) < snd (of_vers S s' a)"
  using assms(2,3)
proof (induction s')
  case (Suc n)
  show ?case
  proof (cases "s = Suc n")
    case False
    then have "of_vers S n a = of_vers S s a \<or> s < snd (of_vers S n a) \<and> snd (of_vers S s a) < snd (of_vers S n a)" using Suc by simp
    moreover have "of_vers S (Suc n) a = of_vers S n a \<or> snd (of_vers S n a) \<le> n \<and> snd (of_vers S (Suc n) a) = Suc n"
      using assms(1) Suc.prems by (simp add: hist_inv_def)
    ultimately show ?thesis using False Suc.prems(1) by auto
  qed simp
qed simp

lemma vers_bound:
  assumes "hist_inv s0 S" "s \<le> cur S" shows "snd (of_vers S s a) \<le> cur S"
proof -
  have "snd (of_vers S (cur S) a) \<le> cur S" using assms(1) by (simp add: hist_inv_def)
  then show ?thesis using vers_change [OF assms(1) assms(2) order_refl, of a] by auto
qed

lemma mem_version:
  assumes "hist_inv s0 S" "mem_inv S" "s < cur S \<or> s = cur S \<and> applied S s"
  shows "of_mem S a = of_vers S s a \<or> s < snd (of_mem S a) \<and> snd (of_vers S s a) < snd (of_mem S a)"
proof -
  from assms(2,3) have "(of_mem S a = of_vers S (cur S) a \<or> s < cur S \<and> of_mem S a = of_vers S (cur S - 1) a)"
    by (auto simp: mem_inv_def)
  then show ?thesis using vers_change [OF assms(1), of s "cur S" a] vers_change [OF assms(1), of s "cur S - 1" a] assms(3) by auto
qed

lemma mem_bound: "hist_inv s0 S \<Longrightarrow> mem_inv S \<Longrightarrow> snd (of_mem S a) \<le> cur S"
proof -
  assume h: "hist_inv s0 S" and "mem_inv S"
  then have "of_mem S a = of_vers S (cur S) a \<or> of_mem S a = of_vers S (cur S - 1) a" by (simp add: mem_inv_def)
  then show ?thesis using vers_bound [OF h, of "cur S" a] vers_bound [OF h, of "cur S - 1" a] by auto
qed

lemma rely_mem_le: "rely C s0 t S S' \<Longrightarrow> snd (of_mem S a) \<le> snd (of_mem S' a)"
proof -
  assume "rely C s0 t S S'"
  then have "of_mem S' a = of_mem S a \<or> snd (of_mem S a) < cur S \<and> snd (of_mem S' a) = cur S" by (simp add: rely_def)
  then show ?thesis by auto
qed

lemma rely_closed:
  assumes "rely C s0 t S S'" shows "closed C S t \<Longrightarrow> closed C S' t"
  using rely_mem_le [OF assms, of "result_at C t"] assms by (simp add: closed_def rely_def)

lemma rely_thread:
  assumes "rely C s0 t S S'"
  shows "of_thr S' t = of_thr S t" "of_n S' t = of_n S t" "of_log S' t = of_log S t" "of_ops S' t = of_ops S t"
    "of_active S' t = of_active S t" "of_pub S' t = of_pub S t" "words_of S' t = words_of S t" "entry S' t k = entry S t k"
  using assms by (simp_all add: rely_def words_of_def entry_def)

lemma rely_history:
  assumes "rely C s0 t S S'"
  shows "s \<le> cur S \<Longrightarrow> of_vers S' s = of_vers S s" "s \<le> cur S \<Longrightarrow> of_ids S' s = of_ids S s" "cur S \<le> cur S'"
    "s0 \<le> s \<Longrightarrow> s \<le> cur S \<Longrightarrow> applied S s \<Longrightarrow> applied S' s" "of_tids S \<le> of_tids S'"
    "cur S < s \<Longrightarrow> s \<le> cur S' \<Longrightarrow> of_ids S' s \<noteq> t"
  using assms by (auto simp: rely_def)

lemma rely_result: "rely C s0 t S S' \<Longrightarrow> \<not> of_active S t \<Longrightarrow> res C S' t = res C S t"
  by (simp add: rely_def)

lemma basic_stable:
  assumes inv: "basic_inv C S t" and r: "rely C s0 t S S'" shows "basic_inv C S' t"
proof -
  have m: "mode_inv C S' t" using inv unfolding basic_inv_def mode_inv_def rely_thread [OF r] by blast
  have "pc S t \<in> {P_Announce, P_Publish} \<Longrightarrow> \<not> of_active S t" using inv by (auto simp: basic_inv_def mode_inv_def Let_def)
  then have "pc S t \<in> {P_Announce, P_Publish} \<Longrightarrow> res C S' t = res C S t" using rely_result [OF r] by blast
  then show ?thesis
    using m inv rely_closed [OF r] rely_history(5) [OF r] unfolding basic_inv_def rely_thread [OF r] by auto
qed

lemma basic_commit: "basic_inv C S t \<Longrightarrow> t_commit (of_thr S t) \<Longrightarrow> t_upd (of_thr S t) \<and> pc S t \<in> helping"
  unfolding basic_inv_def mode_inv_def Let_def by blast

lemma iter_stable:
  assumes inv: "iter_inv S t" and r: "rely C s0 t S S'" shows "iter_inv S' t"
  using inv rely_history(3) [OF r] unfolding iter_inv_def Let_def rely_thread [OF r] by auto

lemma rely_request:
  "rely C s0 t S S' \<Longrightarrow> of_request S' t = of_request S t \<or> (\<exists>s. s0 \<le> s \<and> s \<le> cur S \<and> of_ids S s = t \<and> of_request S t = (s, t))"
  by (simp add: rely_def)

lemma my_stable:
  assumes inv: "my_inv C s0 S t" and r: "rely C s0 t S S'" and b: "basic_inv C S t" shows "my_inv C s0 S' t"
  unfolding my_inv_def rely_thread [OF r]
proof (intro conjI impI)
  let ?T = "of_thr S t" let ?s = "fst (t_my ?T)"
  note th = rely_thread [OF r] and h = rely_history [OF r]
  show "t_begin ?T \<le> cur S'" using inv h(3) by (simp add: my_inv_def)
  assume l: "t_pc ?T \<in> loaded"
  with inv have i: "my_facts C s0 S t" by (simp add: my_inv_def)
  have ids: "of_ids S' s' \<noteq> t" if "(if t_commit ?T then ?s + 1 else ?s) < s'" "s' \<le> cur S'" for s'
  proof (cases "s' \<le> cur S")
    case True
    then have "of_ids S s' \<noteq> t" using i that(1) by (simp add: my_facts_def Let_def)
    then show ?thesis using h(2) [OF True] by simp
  next
    case False
    then show ?thesis using h(6) that(2) by simp
  qed
  have req: "of_request S' t = (?s + 1, t)" if p: "t_pc ?T \<in> {P_CommitLog, P_CommitCas}"
  proof -
    have "t_pc ?T \<notin> helping" using p by (auto simp: helping_def)
    then have nc: "\<not> t_commit ?T" using basic_commit [OF b] by blast
    have rq: "of_request S t = (?s + 1, t)" using i p unfolding my_facts_def Let_def by blast
    have "\<not> (?s + 1 \<le> cur S \<and> of_ids S (?s + 1) = t)" using i nc by (simp add: my_facts_def Let_def)
    then show ?thesis using rely_request [OF r] rq by auto
  qed
  have v: "of_vers S' (?s + 1) = of_vers S (?s + 1) \<and> of_ids S' (?s + 1) = of_ids S (?s + 1) \<and> ?s + 1 \<le> cur S'"
    if "t_commit ?T" using i that h(1,2) [of "?s + 1"] h(3) by (simp add: my_facts_def Let_def)
  have s: "s0 \<le> ?s" "?s \<le> cur S'" "of_ids S' ?s = snd (t_my ?T)" "t_begin ?T \<le> ?s" using i h(2) [of ?s] h(3) by (auto simp: my_facts_def Let_def)
  show "my_facts C s0 S' t"
    unfolding my_facts_def Let_def th
  proof (intro conjI)
    show "\<forall>s'. (if t_commit ?T then ?s + 1 else ?s) < s' \<longrightarrow> s' \<le> cur S' \<longrightarrow> of_ids S' s' \<noteq> t" using ids by blast
    show "t_commit ?T \<longrightarrow> ?s + 1 \<le> cur S' \<and> of_ids S' (?s + 1) = t \<and> snd (of_ops S t) < snd (of_vers S' (?s + 1) (result_at C t))"
      using v i by (simp add: my_facts_def Let_def)
    show "t_pc ?T \<in> insert P_Check helping \<longrightarrow> t_help ?T = (if t_commit ?T then (?s + 1, t) else t_my ?T)"
      using i by (simp add: my_facts_def Let_def)
    show "t_pc ?T \<in> {P_CommitLog, P_CommitCas} \<longrightarrow> of_request S' t = (?s + 1, t)" using req by blast
  qed (use s in auto)
qed
lemma own_stable:
  assumes inv: "own_inv S t" and r: "rely C s0 t S S'" and h: "hist_inv s0 S" "hist_inv s0 S'"
  shows "own_inv S' t"
proof (cases "own_open S' t")
  case True
  have "own_open S t \<and> of_curTx S' = of_curTx S"
  proof (cases "cur S' = cur S")
    case True
    then have "of_curTx S' = of_curTx S" using r by (simp add: rely_def)
    moreover have "s0 \<le> cur S" using h by (simp add: hist_inv_def)
    ultimately show ?thesis using \<open>own_open S' t\<close> rely_history(4) [OF r] by (auto simp: own_open_def)
  next
    case False
    then have "of_ids S' (cur S') \<noteq> t" using rely_history(3,6) [OF r] by simp
    then show ?thesis using \<open>own_open S' t\<close> h by (simp add: own_open_def hist_inv_def)
  qed
  then show ?thesis using inv by (simp add: own_inv_def rely_thread [OF r])
qed (simp add: own_inv_def)

text \<open>An open request of a committed transaction is that of the current one.\<close>

lemma open_current:
  assumes "hist_inv s0 S" "req_inv s0 S" "s0 \<le> s" "s \<le> cur S" "\<not> applied S s"
  shows "s = cur S" "own_open S (of_ids S s)"
proof -
  show "s = cur S" using assms by (auto simp: req_inv_def intro: ccontr)
  then show "own_open S (of_ids S s)" using assms by (simp add: own_open_def hist_inv_def)
qed

lemma own_words:
  assumes "rely C s0 t S S'" "own_open S y"
  shows "of_n S' y = of_n S y" "j < of_n S y \<Longrightarrow> of_log S' y j = of_log S y j" "words_of S' y = words_of S y"
  using assms by (auto simp: rely_def words_of_def)

lemma help_facts:
  assumes "my_inv C s0 S t" "pc S t \<in> helping"
  shows "s0 \<le> fst (t_help (of_thr S t)) \<and> fst (t_help (of_thr S t)) \<le> cur S \<and> of_ids S (fst (t_help (of_thr S t))) = snd (t_help (of_thr S t))"
  using assms by (auto simp: my_inv_def my_facts_def Let_def loaded_def)

lemma copy_stable:
  assumes inv: "copy_inv S t" and r: "rely C s0 t S S'" and h: "hist_inv s0 S" "req_inv s0 S" and m: "my_inv C s0 S t"
  shows "copy_inv S' t"
proof -
  obtain s y where hp: "t_help (of_thr S t) = (s, y)" by fastforce
  have req: "of_request S y = (s, y) \<and> own_open S y" if "of_request S' y = (s, y)" "pc S t \<in> helping"
  proof -
    have hf: "s0 \<le> s" "s \<le> cur S" "of_ids S s = y" using help_facts [OF m that(2)] hp by auto
    then have "\<not> applied S' s" using that(1) rely_history(2) [OF r] by (simp add: applied_def)
    then have "\<not> applied S s" using rely_history(4) [OF r] hf by blast
    then show ?thesis using open_current(2) [OF h hf(1,2)] hf by (simp add: applied_def)
  qed
  have hel: "P_Copy \<in> helping" "P_Cur \<in> helping" "P_Request2 \<in> helping" by (simp_all add: helping_def)
  show ?thesis
    unfolding copy_inv_def Let_def rely_thread [OF r] hp prod.case
  proof (intro conjI impI)
    show "y \<noteq> t" if "pc S t \<in> {P_Num, P_Copy, P_Cur, P_Request2}" using inv hp that by (auto simp: copy_inv_def Let_def)
    show "t_k (of_thr S t) = 0" if "pc S t = P_Num" using inv hp that by (simp add: copy_inv_def Let_def)
    show "t_k (of_thr S t) \<le> of_n S t" if "pc S t = P_Copy" using inv hp that by (simp add: copy_inv_def Let_def)
    assume c: "pc S t = P_Copy" "of_request S' y = (s, y)"
    with req hel have o: "of_request S y = (s, y)" "own_open S y" by auto
    then have i: "t_k (of_thr S t) \<le> of_n S t" "of_n S t = of_n S y" "\<forall>j<t_k (of_thr S t). of_log S t j = of_log S y j"
      using inv hp c by (simp_all add: copy_inv_def Let_def)
    show "of_n S t = of_n S' y" using i own_words(1) [OF r o(2)] by simp
    show "\<forall>j<t_k (of_thr S t). of_log S t j = of_log S' y j" using i own_words(2) [OF r o(2)] by simp
  next
    assume c: "pc S t \<in> {P_Cur, P_Request2}" "of_request S' y = (s, y)"
    with req hel have o: "of_request S y = (s, y)" "own_open S y" by auto
    then show "words_of S t = words_of S' y" using inv hp c own_words(3) [OF r o(2)] by (auto simp: copy_inv_def Let_def)
  qed
qed

lemma is_log_stable: "rely C s0 t S S' \<Longrightarrow> s \<le> cur S \<Longrightarrow> is_log S s xs \<Longrightarrow> is_log S' s xs"
  using rely_history(1) [of C s0 t S S' s] rely_history(1) [of C s0 t S S' "s - 1"] by (simp add: is_log_def)

lemma rely_mem:
  assumes "rely C s0 t S S'" shows "of_mem S' a = of_mem S a \<or> snd (of_mem S a) < cur S \<and> snd (of_mem S' a) = cur S"
  using assms by (simp add: rely_def)

lemma apply_invD:
  assumes "apply_inv S t"
  shows "pc S t \<in> {P_Val, P_Seq, P_Dcas, P_Open, P_Close} \<Longrightarrow> is_log S (fst (t_help (of_thr S t))) (words_of S t)"
    "pc S t \<in> {P_Val, P_Seq, P_Dcas, P_Open, P_Close} \<Longrightarrow>
       \<forall>j<(if pc S t \<in> {P_Open, P_Close} then of_n S t else t_k (of_thr S t)). fst (t_help (of_thr S t)) \<le> snd (of_mem S (fst (entry S t j)))"
    "pc S t \<in> {P_Seq, P_Dcas} \<Longrightarrow> t_k (of_thr S t) < of_n S t" "pc S t = P_Val \<Longrightarrow> t_k (of_thr S t) \<le> of_n S t"
    "pc S t = P_Seq \<Longrightarrow> a = fst (entry S t (t_k (of_thr S t))) \<Longrightarrow> s = fst (t_help (of_thr S t)) \<Longrightarrow>
       s \<le> snd (of_mem S a) \<or> of_mem S a = of_vers S (s - 1) a \<and> t_val (of_thr S t) = fst (of_vers S (s - 1) a)"
    "pc S t = P_Dcas \<Longrightarrow> a = fst (entry S t (t_k (of_thr S t))) \<Longrightarrow> s = fst (t_help (of_thr S t)) \<Longrightarrow>
       s \<le> snd (of_mem S a) \<or> of_mem S a = (t_val (of_thr S t), t_seq (of_thr S t))"
    "pc S t = P_Dcas \<Longrightarrow> t_seq (of_thr S t) < fst (t_help (of_thr S t))"
  using assms unfolding apply_inv_def Let_def by blast+

lemma apply_stable:
  assumes inv: "apply_inv S t" and r: "rely C s0 t S S'" and m: "my_inv C s0 S t"
  shows "apply_inv S' t"
proof -
  let ?T = "of_thr S t" let ?s = "fst (t_help ?T)"
  have hf: "?s \<le> cur S" if "pc S t \<in> {P_Val, P_Seq, P_Dcas, P_Open, P_Close}"
    using help_facts [OF m] that by (auto simp: helping_def)
  have le: "?s \<le> snd (of_mem S a) \<Longrightarrow> ?s \<le> snd (of_mem S' a)" for a using rely_mem_le [OF r, of a] by simp
  let ?a = "fst (entry S t (t_k ?T))"
  have v: "of_vers S' (?s - 1) = of_vers S (?s - 1)" if "?s \<le> cur S" using rely_history(1) [OF r, of "?s - 1"] that by simp
  have ch: "of_mem S' a = of_mem S a \<or> ?s \<le> snd (of_mem S' a)" if "?s \<le> cur S" for a using rely_mem [OF r, of a] that by auto
  note i = apply_invD [OF inv]
  show ?thesis
    unfolding apply_inv_def Let_def rely_thread [OF r]
  proof (intro conjI impI)
    assume p: "pc S t \<in> {P_Val, P_Seq, P_Dcas, P_Open, P_Close}"
    show "is_log S' ?s (words_of S t)" by (rule is_log_stable [OF r hf [OF p] i(1) [OF p]])
    show "\<forall>j<(if pc S t \<in> {P_Open, P_Close} then of_n S t else t_k ?T). ?s \<le> snd (of_mem S' (fst (entry S t j)))"
      using i(2) [OF p] le by blast
  next
    assume p: "pc S t = P_Seq"
    then have c: "?s \<le> cur S" using hf by simp
    show "?s \<le> snd (of_mem S' ?a) \<or> of_mem S' ?a = of_vers S' (?s - 1) ?a \<and> t_val ?T = fst (of_vers S' (?s - 1) ?a)"
      using i(5) [OF p refl refl] le [of ?a] ch [OF c, of ?a] v [OF c] by auto
  next
    assume p: "pc S t = P_Dcas"
    then have c: "?s \<le> cur S" using hf by simp
    show "?s \<le> snd (of_mem S' ?a) \<or> of_mem S' ?a = (t_val ?T, t_seq ?T)"
      using i(6) [OF p refl refl] le [of ?a] ch [OF c, of ?a] by auto
  qed (use i in auto)
qed

lemma rely_ops:
  assumes "rely C s0 t S S'" "i < 128"
  shows "of_ops S' i = of_ops S i \<or> closed C S i \<and> snd (of_ops S i) \<le> snd (of_ops S' i) \<and>
      (snd (of_ops S' i) \<noteq> snd (of_ops S i) \<longrightarrow> cur S \<le> of_pub S' i)"
    "of_pub S' i = of_pub S i \<or> cur S \<le> of_pub S' i"
    "of_active S i \<Longrightarrow> \<not> closed C S i \<Longrightarrow> of_active S' i \<and> of_ops S' i = of_ops S i"
    "of_active S' i \<Longrightarrow> of_pub S' i < cur S \<Longrightarrow> of_active S i \<and> of_ops S' i = of_ops S i \<and> of_pub S' i = of_pub S i"
proof -
  show o: "of_ops S' i = of_ops S i \<or> closed C S i \<and> snd (of_ops S i) \<le> snd (of_ops S' i) \<and>
      (snd (of_ops S' i) \<noteq> snd (of_ops S i) \<longrightarrow> cur S \<le> of_pub S' i)"
    and p: "of_pub S' i = of_pub S i \<or> cur S \<le> of_pub S' i" using assms by (simp_all add: rely_def)
  have a: "of_active S i \<Longrightarrow> \<not> closed C S i \<Longrightarrow> of_active S' i"
    and b: "of_active S' i \<Longrightarrow> of_pub S' i < cur S \<Longrightarrow> of_active S i \<and> of_ops S' i = of_ops S i"
    using assms by (simp_all add: rely_def)
  show "of_active S i \<Longrightarrow> \<not> closed C S i \<Longrightarrow> of_active S' i \<and> of_ops S' i = of_ops S i" using a o by blast
  show "of_active S' i \<Longrightarrow> of_pub S' i < cur S \<Longrightarrow> of_active S i \<and> of_ops S' i = of_ops S i \<and> of_pub S' i = of_pub S i"
    using b p by fastforce
qed
lemma scan_invD:
  assumes "scan_inv C S t" "T = of_thr S t" "i = t_i T" "s = fst (t_my T)"
  shows "t_pc T \<in> scanning \<or> t_pc T \<in> running \<and> t_upd T \<Longrightarrow> i < of_tids S"
    "t_pc T \<in> {P_OpVal, P_OpSeq2, P_ResSeq, P_ResSeq2, P_TxCur} \<Longrightarrow> t_q T \<le> snd (of_ops S i)
          \<and> (snd (of_ops S i) = t_q T \<or> t_q T < snd (res C S i)) \<and> (i = t \<longrightarrow> snd (of_ops S t) = t_q T)
          \<and> (cur S = s \<longrightarrow> snd (of_ops S i) = t_q T \<or> s \<le> of_pub S i)"
    "t_pc T \<in> {P_OpSeq2, P_ResSeq, P_ResSeq2, P_TxCur} \<Longrightarrow> snd (of_ops S i) = t_q T \<Longrightarrow> snd (res C S i) \<le> t_q T \<Longrightarrow> t_f T = fst (of_ops S i)"
    "t_pc T \<in> {P_ResSeq2, P_TxCur} \<Longrightarrow> t_r T \<le> snd (res C S i) \<and> (cur S = s \<longrightarrow> snd (of_vers S s (result_at C i)) = t_r T)
          \<and> (t_r T \<le> t_q T \<longrightarrow> (\<exists>f. t_f T = Some f \<and> prog_ok C f)) \<and> (i = t \<longrightarrow> snd (of_ops S t) \<le> t_r T)"
    "t_pc T = P_TxCur \<Longrightarrow> t_r T \<le> t_q T"
    "t_pc T \<in> running \<Longrightarrow> t_upd T \<Longrightarrow> t_f T \<noteq> None \<and>
          (cur S = s \<longrightarrow> of_active S i \<and> fst (of_ops S i) = t_f T \<and> snd (of_vers S s (result_at C i)) \<le> snd (of_ops S i))"
  using assms(1) unfolding scan_inv_def Let_def assms(2-4) by blast+

lemma scan_invI:
  assumes "T = of_thr S t" "i = t_i T" "s = fst (t_my T)"
    "t_pc T \<in> scanning \<or> t_pc T \<in> running \<and> t_upd T \<Longrightarrow> i < of_tids S"
    "t_pc T \<in> {P_OpVal, P_OpSeq2, P_ResSeq, P_ResSeq2, P_TxCur} \<Longrightarrow> t_q T \<le> snd (of_ops S i)
          \<and> (snd (of_ops S i) = t_q T \<or> t_q T < snd (res C S i)) \<and> (i = t \<longrightarrow> snd (of_ops S t) = t_q T)
          \<and> (cur S = s \<longrightarrow> snd (of_ops S i) = t_q T \<or> s \<le> of_pub S i)"
    "t_pc T \<in> {P_OpSeq2, P_ResSeq, P_ResSeq2, P_TxCur} \<Longrightarrow> snd (of_ops S i) = t_q T \<Longrightarrow> snd (res C S i) \<le> t_q T \<Longrightarrow> t_f T = fst (of_ops S i)"
    "t_pc T \<in> {P_ResSeq2, P_TxCur} \<Longrightarrow> t_r T \<le> snd (res C S i) \<and> (cur S = s \<longrightarrow> snd (of_vers S s (result_at C i)) = t_r T)
          \<and> (t_r T \<le> t_q T \<longrightarrow> (\<exists>f. t_f T = Some f \<and> prog_ok C f)) \<and> (i = t \<longrightarrow> snd (of_ops S t) \<le> t_r T)"
    "t_pc T = P_TxCur \<Longrightarrow> t_r T \<le> t_q T"
    "t_pc T \<in> running \<Longrightarrow> t_upd T \<Longrightarrow> t_f T \<noteq> None \<and>
          (cur S = s \<longrightarrow> of_active S i \<and> fst (of_ops S i) = t_f T \<and> snd (of_vers S s (result_at C i)) \<le> snd (of_ops S i))"
  shows "scan_inv C S t"
  using assms(4-) unfolding scan_inv_def Let_def assms(1-3) by blast

lemma current_mem: "mem_inv S \<Longrightarrow> applied S (cur S) \<Longrightarrow> of_mem S a = of_vers S (cur S) a"
  by (simp add: mem_inv_def)

lemma scan_stable:
  assumes inv: "scan_inv C S t" and r: "rely C s0 t S S'" and h: "mem_inv S" "of_tids S \<le> 128"
    and m: "my_inv C s0 S t" and run: "run_inv C S t"
  shows "scan_inv C S' t"
proof (rule scan_invI [OF refl refl refl]; unfold rely_thread [OF r])
  let ?T = "of_thr S t" let ?i = "t_i ?T" let ?s = "fst (t_my ?T)"
  note i = scan_invD [OF inv refl refl refl]
  have res: "snd (res C S ?i) \<le> snd (res C S' ?i)" by (rule rely_mem_le [OF r])
  have tr: "t_pc ?T \<in> scanning \<union> running \<Longrightarrow> ?s \<le> cur S \<and> applied S ?s"
    using m run unfolding my_inv_def my_facts_def run_inv_def Let_def pc_sets by blast
  have cur: "cur S = ?s" if "t_pc ?T \<in> scanning \<union> running" "cur S' = ?s"
    using tr [OF that(1)] that(2) rely_history(3) [OF r] by simp
  have v: "of_vers S' ?s = of_vers S ?s" if "t_pc ?T \<in> scanning \<union> running"
    using tr [OF that] by (intro rely_history(1) [OF r]) simp
  have lt: "?i < 128" if "t_pc ?T \<in> scanning \<or> t_pc ?T \<in> running \<and> t_upd ?T" using i(1) [OF that] h(2) by simp
  note ops = rely_ops [OF r lt]
  show "?i < of_tids S'" if "t_pc ?T \<in> scanning \<or> t_pc ?T \<in> running \<and> t_upd ?T" using i(1) [OF that] rely_history(5) [OF r] by simp
  have scn: "t_pc ?T \<in> {P_OpVal, P_OpSeq2, P_ResSeq, P_ResSeq2, P_TxCur} \<Longrightarrow> t_pc ?T \<in> scanning" by (auto simp: scanning_def)
  have opt: "of_ops S' t = of_ops S t" by (rule rely_thread(4) [OF r])
  show "t_q ?T \<le> snd (of_ops S' ?i) \<and> (snd (of_ops S' ?i) = t_q ?T \<or> t_q ?T < snd (res C S' ?i)) \<and> (?i = t \<longrightarrow> snd (of_ops S t) = t_q ?T)
      \<and> (cur S' = ?s \<longrightarrow> snd (of_ops S' ?i) = t_q ?T \<or> ?s \<le> of_pub S' ?i)"
    if p: "t_pc ?T \<in> {P_OpVal, P_OpSeq2, P_ResSeq, P_ResSeq2, P_TxCur}"
  proof -
    have ps: "t_pc ?T \<in> scanning \<union> running" using scn [OF p] by simp
    note i2 = i(2) [OF p] and o = ops(1,2) [OF disjI1 [OF scn [OF p]]]
    have "snd (of_ops S' ?i) = t_q ?T \<or> ?s \<le> of_pub S' ?i" if "cur S' = ?s"
      using cur [OF ps that] i2 o by auto
    moreover have "t_q ?T \<le> snd (of_ops S' ?i) \<and> (snd (of_ops S' ?i) = t_q ?T \<or> t_q ?T < snd (res C S' ?i))"
      using i2 o res by (auto simp: closed_def)
    ultimately show ?thesis using i2 by blast
  qed
  show "t_f ?T = fst (of_ops S' ?i)" if p: "t_pc ?T \<in> {P_OpSeq2, P_ResSeq, P_ResSeq2, P_TxCur}"
    and "snd (of_ops S' ?i) = t_q ?T" "snd (res C S' ?i) \<le> t_q ?T"
  proof -
    have p2: "t_pc ?T \<in> {P_OpVal, P_OpSeq2, P_ResSeq, P_ResSeq2, P_TxCur}" using p by blast
    have "of_ops S' ?i = of_ops S ?i"
      using ops(1) [OF disjI1 [OF scn [OF p2]]] i(2) [OF p2] that(2,3) res by (auto simp: closed_def)
    then show ?thesis using i(3) [OF p] that(2,3) res by simp
  qed
  show "t_r ?T \<le> snd (res C S' ?i) \<and> (cur S' = ?s \<longrightarrow> snd (of_vers S' ?s (result_at C ?i)) = t_r ?T)
      \<and> (t_r ?T \<le> t_q ?T \<longrightarrow> (\<exists>f. t_f ?T = Some f \<and> prog_ok C f)) \<and> (?i = t \<longrightarrow> snd (of_ops S t) \<le> t_r ?T)"
    if p: "t_pc ?T \<in> {P_ResSeq2, P_TxCur}"
  proof -
    have ps: "t_pc ?T \<in> scanning \<union> running" using p by (auto simp: scanning_def)
    have "snd (of_vers S' ?s (result_at C ?i)) = t_r ?T" if "cur S' = ?s" using i(4) [OF p] cur [OF ps that] v [OF ps] by simp
    then show ?thesis using i(4) [OF p] res by (meson le_trans)
  qed
  show "t_r ?T \<le> t_q ?T" if "t_pc ?T = P_TxCur" by (rule i(5) [OF that])
  show "t_f ?T \<noteq> None \<and> (cur S' = ?s \<longrightarrow> of_active S' ?i \<and> fst (of_ops S' ?i) = t_f ?T \<and> snd (of_vers S' ?s (result_at C ?i)) \<le> snd (of_ops S' ?i))"
    if p: "t_pc ?T \<in> running" "t_upd ?T"
  proof -
    have ps: "t_pc ?T \<in> scanning \<union> running" using p by simp
    have "of_active S' ?i \<and> fst (of_ops S' ?i) = t_f ?T \<and> snd (of_vers S' ?s (result_at C ?i)) \<le> snd (of_ops S' ?i)" if c: "cur S' = ?s"
    proof -
      note c1 = cur [OF ps c]
      have "\<not> closed C S ?i" using i(6) [OF p] c1 tr [OF ps] current_mem [OF h(1)] by (simp add: closed_def)
      then have "of_active S' ?i \<and> of_ops S' ?i = of_ops S ?i" using ops(3) p i(6) [OF p] c1 by blast
      then show ?thesis using i(6) [OF p] c1 v [OF ps] by simp
    qed
    then show ?thesis using i(6) [OF p] by blast
  qed
qed

lemma list_invD:
  assumes "list_inv C S t" "T = of_thr S t" "t_pc T \<in> transforming" "t_upd T" "i = t_i T" "s = fst (t_my T)" "sv = t_served T"
  shows "distinct (map fst sv)" "j \<in> fst ` set sv \<Longrightarrow> j < i \<and> j < 128"
    "j < 128 \<Longrightarrow> result_at C j \<in> fst ` set (words_of S t) \<longleftrightarrow> j \<in> fst ` set sv"
    "(j, f, r) \<in> set sv \<Longrightarrow> get_word (result_at C j) 0 (words_of S t) = r"
    "cur S = s \<Longrightarrow> (j, f, r) \<in> set sv \<Longrightarrow> of_active S j \<and> fst (of_ops S j) = Some f \<and> snd (of_vers S s (result_at C j)) \<le> snd (of_ops S j)"
    "cur S = s \<Longrightarrow> j < 128 \<Longrightarrow> j < i \<or> t_pc T \<in> committing \<Longrightarrow> of_active S j \<Longrightarrow> of_pub S j < s \<Longrightarrow>
       snd (of_vers S s (result_at C j)) \<le> snd (of_ops S j) \<Longrightarrow> j \<in> fst ` set sv"
    "t < i \<Longrightarrow> t \<in> fst ` set sv \<or> closed C S t" "t_pc T \<in> committing \<Longrightarrow> t < i"
proof -
  note b = mp [OF assms(1) [unfolded list_inv_def Let_def] conjI [OF assms(3,4) [unfolded assms(2)]]]
  note c = b [folded assms(2), folded assms(5-7)]
  note c2 = conjunct2 [OF c] and c3 = conjunct2 [OF conjunct2 [OF c]]
  note c4 = conjunct2 [OF c3] note c5 = conjunct2 [OF c4] note c6 = conjunct2 [OF c5] note c7 = conjunct2 [OF c6]
  show "distinct (map fst sv)" by (rule conjunct1 [OF c])
  show "j \<in> fst ` set sv \<Longrightarrow> j < i \<and> j < 128" using conjunct1 [OF c2] by blast
  show "j < 128 \<Longrightarrow> result_at C j \<in> fst ` set (words_of S t) \<longleftrightarrow> j \<in> fst ` set sv" using conjunct1 [OF c3] by blast
  show "(j, f, r) \<in> set sv \<Longrightarrow> get_word (result_at C j) 0 (words_of S t) = r" using conjunct1 [OF c4] by blast
  show "cur S = s \<Longrightarrow> (j, f, r) \<in> set sv \<Longrightarrow> of_active S j \<and> fst (of_ops S j) = Some f \<and> snd (of_vers S s (result_at C j)) \<le> snd (of_ops S j)"
    using conjunct1 [OF c5] by blast
  show "cur S = s \<Longrightarrow> j < 128 \<Longrightarrow> j < i \<or> t_pc T \<in> committing \<Longrightarrow> of_active S j \<Longrightarrow> of_pub S j < s \<Longrightarrow>
       snd (of_vers S s (result_at C j)) \<le> snd (of_ops S j) \<Longrightarrow> j \<in> fst ` set sv"
    using conjunct1 [OF c6] by blast
  show "t < i \<Longrightarrow> t \<in> fst ` set sv \<or> closed C S t" "t_pc T \<in> committing \<Longrightarrow> t < i" using c7 by blast+
qed

lemma list_invI:
  assumes "T = of_thr S t" "i = t_i T" "s = fst (t_my T)" "sv = t_served T"
    "t_pc T \<in> transforming \<Longrightarrow> t_upd T \<Longrightarrow>
       distinct (map fst sv) \<and> (\<forall>j\<in>fst ` set sv. j < i \<and> j < 128)
       \<and> (\<forall>j<128. result_at C j \<in> fst ` set (words_of S t) \<longleftrightarrow> j \<in> fst ` set sv)
       \<and> (\<forall>j f r. (j, f, r) \<in> set sv \<longrightarrow> get_word (result_at C j) 0 (words_of S t) = r)"
    "\<And>j f r. t_pc T \<in> transforming \<Longrightarrow> t_upd T \<Longrightarrow> cur S = s \<Longrightarrow> (j, f, r) \<in> set sv \<Longrightarrow>
       of_active S j \<and> fst (of_ops S j) = Some f \<and> snd (of_vers S s (result_at C j)) \<le> snd (of_ops S j)"
    "\<And>j. t_pc T \<in> transforming \<Longrightarrow> t_upd T \<Longrightarrow> cur S = s \<Longrightarrow> j < 128 \<Longrightarrow> j < i \<or> t_pc T \<in> committing \<Longrightarrow> of_active S j \<Longrightarrow>
       of_pub S j < s \<Longrightarrow> snd (of_vers S s (result_at C j)) \<le> snd (of_ops S j) \<Longrightarrow> j \<in> fst ` set sv"
    "t_pc T \<in> transforming \<Longrightarrow> t_upd T \<Longrightarrow> t < i \<Longrightarrow> t \<in> fst ` set sv \<or> closed C S t" "t_pc T \<in> committing \<Longrightarrow> t_upd T \<Longrightarrow> t < i"
  shows "list_inv C S t"
  unfolding list_inv_def Let_def assms(1) [symmetric] assms(2-4) [symmetric]
proof
  assume p: "t_pc T \<in> transforming \<and> t_upd T"
  note q = conjunct1 [OF p] conjunct2 [OF p]
  note a = assms(5) [OF q]
  have b: "\<forall>j f r. (j, f, r) \<in> set sv \<longrightarrow> of_active S j \<and> fst (of_ops S j) = Some f \<and> snd (of_vers S s (result_at C j)) \<le> snd (of_ops S j)"
    if "cur S = s" using assms(6) [OF q that] by blast
  have c: "\<forall>j<128. j < i \<or> t_pc T \<in> committing \<longrightarrow> of_active S j \<longrightarrow> of_pub S j < s \<longrightarrow>
            snd (of_vers S s (result_at C j)) \<le> snd (of_ops S j) \<longrightarrow> j \<in> fst ` set sv" if "cur S = s" using assms(7) [OF q that] by blast
  from a show "distinct (map fst sv) \<and> (\<forall>j\<in>fst ` set sv. j < i \<and> j < 128)
       \<and> (\<forall>j<128. result_at C j \<in> fst ` set (words_of S t) \<longleftrightarrow> j \<in> fst ` set sv)
       \<and> (\<forall>j f r. (j, f, r) \<in> set sv \<longrightarrow> get_word (result_at C j) 0 (words_of S t) = r)
       \<and> (cur S = s \<longrightarrow> (\<forall>j f r. (j, f, r) \<in> set sv \<longrightarrow>
            of_active S j \<and> fst (of_ops S j) = Some f \<and> snd (of_vers S s (result_at C j)) \<le> snd (of_ops S j)))
       \<and> (cur S = s \<longrightarrow> (\<forall>j<128. j < i \<or> t_pc T \<in> committing \<longrightarrow> of_active S j \<longrightarrow> of_pub S j < s \<longrightarrow>
            snd (of_vers S s (result_at C j)) \<le> snd (of_ops S j) \<longrightarrow> j \<in> fst ` set sv))
       \<and> (t < i \<longrightarrow> t \<in> fst ` set sv \<or> closed C S t) \<and> (t_pc T \<in> committing \<longrightarrow> t < i)"
    by (elim conjE) (intro conjI impI; (assumption | erule b | erule c | rule assms(8) [OF q] | rule assms(9) [OF _ q(2)]; assumption))
qed

lemma list_stable:
  assumes inv: "list_inv C S t" and r: "rely C s0 t S S'" and h: "mem_inv S"
    and m: "my_inv C s0 S t" and run: "run_inv C S t"
  shows "list_inv C S' t"
proof (rule list_invI [OF refl refl refl refl]; unfold rely_thread [OF r])
  let ?T = "of_thr S t" let ?i = "t_i ?T" let ?s = "fst (t_my ?T)" let ?sv = "t_served ?T"
  note i = list_invD [OF inv refl _ _ refl refl refl]
  have tr: "t_pc ?T \<in> transforming \<Longrightarrow> ?s \<le> cur S \<and> applied S ?s"
    using m run unfolding my_inv_def my_facts_def run_inv_def Let_def loaded_def by blast
  have cur: "cur S = ?s" if "t_pc ?T \<in> transforming" "cur S' = ?s" using tr [OF that(1)] that(2) rely_history(3) [OF r] by simp
  have v: "of_vers S' ?s = of_vers S ?s" if "t_pc ?T \<in> transforming" using tr [OF that] by (intro rely_history(1) [OF r]) simp
  show "distinct (map fst ?sv) \<and> (\<forall>j\<in>fst ` set ?sv. j < ?i \<and> j < 128)
       \<and> (\<forall>j<128. result_at C j \<in> fst ` set (words_of S t) \<longleftrightarrow> j \<in> fst ` set ?sv)
       \<and> (\<forall>j f r. (j, f, r) \<in> set ?sv \<longrightarrow> get_word (result_at C j) 0 (words_of S t) = r)"
    if "t_pc ?T \<in> transforming" "t_upd ?T" using i(1-4) [OF that] by blast
  show "of_active S' j \<and> fst (of_ops S' j) = Some f \<and> snd (of_vers S' ?s (result_at C j)) \<le> snd (of_ops S' j)"
    if p: "t_pc ?T \<in> transforming" "t_upd ?T" and c: "cur S' = ?s" and j: "(j, f, r) \<in> set ?sv" for j f r
  proof -
    note c1 = cur [OF p(1) c]
    have "j \<in> fst ` set ?sv" using j by force
    then have lt: "j < 128" using i(2) [OF p] by blast
    note a = i(5) [OF p c1 j]
    have "\<not> closed C S j" using a c1 tr [OF p(1)] current_mem [OF h] by (simp add: closed_def)
    then show ?thesis using rely_ops(3) [OF r lt] a v [OF p(1)] by simp
  qed
  show "j \<in> fst ` set ?sv"
    if p: "t_pc ?T \<in> transforming" "t_upd ?T" and c: "cur S' = ?s" and j: "j < 128" "j < ?i \<or> t_pc ?T \<in> committing" "of_active S' j"
      "of_pub S' j < ?s" "snd (of_vers S' ?s (result_at C j)) \<le> snd (of_ops S' j)" for j
  proof -
    note c1 = cur [OF p(1) c]
    have "of_active S j \<and> of_ops S' j = of_ops S j \<and> of_pub S' j = of_pub S j" using rely_ops(4) [OF r j(1,3)] j(4) c1 by simp
    then show ?thesis using i(6) [OF p c1 j(1,2)] j v [OF p(1)] by simp
  qed
  show "t \<in> fst ` set ?sv \<or> closed C S' t" if "t_pc ?T \<in> transforming" "t_upd ?T" "t < ?i"
    using i(7) [OF that] rely_closed [OF r] by blast
  show "t < ?i" if "t_pc ?T \<in> committing" "t_upd ?T" using i(8) [OF _ that(2,1)] that by (auto simp: transforming_def)
qed

lemma run_invD:
  assumes "run_inv C S t" "T = of_thr S t" "s = fst (t_my T)" "m = fst \<circ> of_vers S s" "m' = overlay (words_of S t) m"
  shows "t_pc T \<in> {P_Reset, P_Recheck} \<union> transforming \<Longrightarrow> applied S s"
    "t_pc T \<in> transforming \<Longrightarrow> distinct (map fst (words_of S t))"
    "t_pc T \<in> transforming - running \<Longrightarrow> serve_ok C (t_served T) m m'"
    "t_pc T \<in> running \<Longrightarrow> prog_ok C (t_prog T)"
    "t_pc T \<in> running \<Longrightarrow> t_upd T \<Longrightarrow> \<exists>m1. serve_ok C (t_served T) m m1 \<and> prog_run (the (t_f T)) m1 = prog_run (t_prog T) m'"
    "t_pc T \<in> running \<Longrightarrow> \<not> t_upd T \<Longrightarrow> prog_run (t_fun T) m = prog_run (t_prog T) m'"
    "t_pc T = P_LoadSeq \<Longrightarrow> \<exists>a k. t_prog T = Read a k \<and> (snd (of_mem S a) \<le> s \<longrightarrow> t_val T = fst (of_vers S s a))"
  using assms(1) unfolding run_inv_def Let_def assms(2-5) by (auto split: if_splits)

lemma run_stable:
  assumes inv: "run_inv C S t" and r: "rely C s0 t S S'" and m: "my_inv C s0 S t"
  shows "run_inv C S' t"
proof -
  let ?T = "of_thr S t" let ?s = "fst (t_my ?T)"
  note i = run_invD [OF inv refl refl refl refl]
  have s: "s0 \<le> ?s \<and> ?s \<le> cur S" if "t_pc ?T \<in> {P_Reset, P_Recheck} \<union> transforming"
    using m that unfolding my_inv_def my_facts_def Let_def loaded_def by blast
  show ?thesis
  proof (cases "t_pc ?T \<in> {P_Reset, P_Recheck} \<union> transforming")
    case False
    have "P_LoadSeq \<in> transforming" "running \<subseteq> transforming" by (auto simp: pc_sets)
    then show ?thesis unfolding run_inv_def Let_def rely_thread [OF r] using False by auto
  next
    case True
    note s1 = s [OF True]
    have v: "of_vers S' ?s = of_vers S ?s" using s1 by (intro rely_history(1) [OF r]) simp
    have ap: "applied S' ?s" using i(1) [OF True] s1 rely_history(4) [OF r] by blast
    have ld: "\<exists>a k. t_prog ?T = Read a k \<and> (snd (of_mem S' a) \<le> ?s \<longrightarrow> t_val ?T = fst (of_vers S ?s a))" if p: "t_pc ?T = P_LoadSeq"
    proof -
      obtain a k where a: "t_prog ?T = Read a k" "snd (of_mem S a) \<le> ?s \<longrightarrow> t_val ?T = fst (of_vers S ?s a)" using i(7) [OF p] by blast
      have "snd (of_mem S a) \<le> snd (of_mem S' a)" by (rule rely_mem_le [OF r])
      then show ?thesis using a by auto
    qed
    show ?thesis using inv ap ld unfolding run_inv_def Let_def rely_thread [OF r] v by blast
  qed
qed

lemma thread_stable:
  assumes "thread_inv C s0 S t" "rely C s0 t S S'" "shared_inv C s0 S" "hist_inv s0 S'"
  shows "thread_inv C s0 S' t"
  using assms basic_stable [of C S t] iter_stable [of S t] my_stable [of C s0 S t S'] own_stable [of S t C s0 S'] copy_stable [of S t C s0 S']
    apply_stable [of S t C s0 S'] scan_stable [of C S t s0 S'] list_stable [of C S t s0 S'] run_stable [of C S t s0 S']
  unfolding thread_inv_def shared_inv_def by blast

end
