(* ===== verification/OneFileSteps.thy ===== *)
theory OneFileSteps
  imports OneFileInv
begin

text \<open>
  Every step of OneFile keeps the invariant of OneFileInv: first what a step must show, then the
  steps that change the variables of their thread only, then those that change shared words.
\<close>

subsection \<open>What a step must show\<close>

lemma step_inv:
  assumes inv: "of_inv C s0 S" and t: "t < 128" and sh: "shared_inv C s0 S'"
    and oth: "\<And>u. u < 128 \<Longrightarrow> u \<noteq> t \<Longrightarrow> rely C s0 u S S'" and own: "thread_inv C s0 S' t"
    and thr: "\<And>u. u \<noteq> t \<Longrightarrow> of_thr S' u = of_thr S u"
  shows "of_inv C s0 S'"
proof -
  have "thread_inv C s0 S' u" if u: "u < 128" for u
  proof (cases "u = t")
    case False
    have "thread_inv C s0 S u" "shared_inv C s0 S" using inv u by (simp_all add: of_inv_def)
    moreover have "hist_inv s0 S'" using sh by (simp add: shared_inv_def)
    ultimately show ?thesis using thread_stable oth [OF u False] by blast
  qed (use own in simp)
  then show ?thesis using inv sh t thr by (simp add: of_inv_def)
qed

lemma set_thr_shared [simp]:
  "words_of (S\<lparr>of_thr := x\<rparr>) u = words_of S u" "applied (S\<lparr>of_thr := x\<rparr>) s = applied S s"
  "own_open (S\<lparr>of_thr := x\<rparr>) u = own_open S u" "entry (S\<lparr>of_thr := x\<rparr>) u k = entry S u k" "closed C (S\<lparr>of_thr := x\<rparr>) i = closed C S i"
  "is_log (S\<lparr>of_thr := x\<rparr>) s xs = is_log S s xs"
  by (simp_all add: words_of_def applied_def own_open_def entry_def closed_def is_log_def)

lemma set_thr_shared_inv: "shared_inv C s0 (S\<lparr>of_thr := x\<rparr>) = shared_inv C s0 S"
  by (simp add: shared_inv_def hist_inv_def mem_inv_def req_inv_def op_inv_def op_active_def served_inv_def served_at_def)

lemma local_step:
  assumes inv: "of_inv C s0 S" and t: "t < 128" and own: "thread_inv C s0 (set_thr t f S) t"
  shows "of_inv C s0 (set_thr t f S)"
proof (rule step_inv [OF inv t])
  show "shared_inv C s0 (set_thr t f S)" using inv by (simp add: set_thr_shared_inv of_inv_def)
  show "rely C s0 u S (set_thr t f S)" if "u \<noteq> t" for u using that by (simp add: rely_def)
qed (use own in auto)

lemma thread_invI:
  assumes "mode_inv C S t" "pc S t \<noteq> P_Idle \<Longrightarrow> t < of_tids S"
    "pc S t \<in> {P_Announce, P_Publish} \<Longrightarrow> t_q (of_thr S t) = snd (res C S t)" "pc S t = P_Done \<Longrightarrow> closed C S t"
    "iter_inv S t" "my_inv C s0 S t" "own_inv S t" "copy_inv S t" "apply_inv S t" "scan_inv C S t" "list_inv C S t" "run_inv C S t"
  shows "thread_inv C s0 S t"
  using assms by (simp add: thread_inv_def basic_inv_def)

lemma inv_thread:
  assumes "of_inv C s0 S" "t < 128"
  shows "mode_inv C S t" "pc S t \<noteq> P_Idle \<Longrightarrow> t < of_tids S"
    "pc S t \<in> {P_Announce, P_Publish} \<Longrightarrow> t_q (of_thr S t) = snd (res C S t)" "pc S t = P_Done \<Longrightarrow> closed C S t"
    "iter_inv S t" "my_inv C s0 S t" "own_inv S t" "copy_inv S t" "apply_inv S t" "scan_inv C S t" "list_inv C S t" "run_inv C S t"
  using assms unfolding of_inv_def thread_inv_def basic_inv_def by blast+

lemma inv_shared:
  assumes "of_inv C s0 S"
  shows "hist_inv s0 S" "mem_inv S" "req_inv s0 S" "of_tids S \<le> 128" "i < 128 \<Longrightarrow> op_inv C S i" "served_inv C s0 S"
  using assms by (simp_all add: of_inv_def shared_inv_def)

lemmas thr_defs = mode_inv_def iter_inv_def my_inv_def my_facts_def own_inv_def copy_inv_def apply_inv_def scan_inv_def list_inv_def run_inv_def

subsection \<open>Steps that change the variables of their thread only\<close>

text \<open>How an attempt ends, and what a thread knows when it begins the next one.\<close>

lemma step_load:
  assumes inv: "of_inv C s0 S" and t: "t < 128" and p: "pc S t = P_Load"
  shows "of_inv C s0 (attempt_step C t S)"
  unfolding attempt_step_def Let_def p ofpc.case
  by (rule local_step [OF inv t], rule thread_invI)
    (use inv_thread [OF inv t] p inv_shared(1) [OF inv] in \<open>simp_all add: thr_defs Let_def pc_sets hist_inv_def split: if_splits\<close>)

lemma step_check:
  assumes inv: "of_inv C s0 S" and t: "t < 128" and p: "pc S t = P_Check"
  shows "of_inv C s0 (attempt_step C t S)"
proof -
  note th = inv_thread [OF inv t]
  have nc: "\<not> t_commit (of_thr S t)" using th(1) p by (simp add: mode_inv_def Let_def helping_def)
  have upd: "t_upd (of_thr S t)" "of_active S t" using th(1) p by (simp_all add: mode_inv_def Let_def pc_sets)
  have sh: "hist_inv s0 S" "mem_inv S" "op_inv C S t" using inv_shared [OF inv] t by auto
  have it: "t_iter (of_thr S t) \<le> 3" "of_pub S t + t_iter (of_thr S t) \<le> my S t" "my S t \<le> cur S"
    using th(5,6) p upd by (simp_all add: iter_inv_def my_inv_def my_facts_def Let_def pc_sets)
  have three: "closed C S t" if "t_iter (of_thr S t) = 3"
  proof -
    have "of_pub S t + 2 \<le> cur S - 1" using it that by simp
    then have "snd (of_ops S t) < snd (of_vers S (cur S - 1) (result_at C t))" "snd (of_ops S t) < snd (of_vers S (cur S) (result_at C t))"
      using sh(3) upd by (simp_all add: op_inv_def op_active_def)
    then show ?thesis using sh(2) by (auto simp: mem_inv_def closed_def dest: spec [of _ "result_at C t"])
  qed
  show ?thesis
  proof (cases "closed C S t")
    case True
    then have e: "attempt_step C t S = goto t P_Done S" using p by (simp add: attempt_step_def closed_def)
    show ?thesis unfolding e
      by (rule local_step [OF inv t], rule thread_invI)
        (use th p True nc upd in \<open>simp_all add: thr_defs Let_def pc_sets\<close>)
  next
    case False
    then have e: "attempt_step C t S = goto t P_Request S" using p by (simp add: attempt_step_def closed_def)
    have "t_iter (of_thr S t) \<le> 2" using it three False by force
    then show ?thesis unfolding e
      by (intro local_step [OF inv t] thread_invI)
        (use th p nc upd in \<open>simp_all add: thr_defs Let_def pc_sets\<close>)
  qed
qed

lemma loaded_facts:
  assumes inv: "of_inv C s0 S" and t: "t < 128" and p: "pc S t \<in> loaded - {P_Check}"
  shows "prog_ok C (t_fun (of_thr S t))" "t < of_tids S" "of_active S t = t_upd (of_thr S t)"
    "t_upd (of_thr S t) \<Longrightarrow> fst (of_ops S t) = Some (t_fun (of_thr S t))"
    "t_upd (of_thr S t) \<Longrightarrow> t_begin (of_thr S t) \<le> of_pub S t \<and> t_iter (of_thr S t) \<le> 2 \<and> of_pub S t + t_iter (of_thr S t) \<le> my S t"
    "my_facts C s0 S t" "own_inv S t" "t_begin (of_thr S t) \<le> cur S"
proof -
  note th = inv_thread [OF inv t]
  have np: "pc S t \<notin> {P_Idle, P_Result, P_Announce, P_Publish, P_Loop, P_Load}" using p by (auto simp: pc_sets)
  then show act: "of_active S t = t_upd (of_thr S t)" using th(1) unfolding mode_inv_def Let_def by blast
  show "prog_ok C (t_fun (of_thr S t))" "t_upd (of_thr S t) \<Longrightarrow> fst (of_ops S t) = Some (t_fun (of_thr S t))"
    using th(1) np act unfolding mode_inv_def Let_def by blast+
  show "t < of_tids S" using th(2) np by blast
  show "t_upd (of_thr S t) \<Longrightarrow> t_begin (of_thr S t) \<le> of_pub S t \<and> t_iter (of_thr S t) \<le> 2 \<and> of_pub S t + t_iter (of_thr S t) \<le> my S t"
    using th(5) p act by (auto simp: iter_inv_def Let_def)
  show "my_facts C s0 S t" "t_begin (of_thr S t) \<le> cur S" using th(6) p by (simp_all add: my_inv_def)
qed (rule inv_thread [OF inv t])

lemma again_inv:
  assumes inv: "of_inv C s0 S" and t: "t < 128" and p: "pc S t \<in> loaded - {P_Check}" "\<not> t_commit (of_thr S t)" and c: "my S t < cur S"
  shows "of_inv C s0 (again t S)"
proof -
  note lf = loaded_facts [OF inv t p(1)]
  have "t_upd (of_thr S t) \<Longrightarrow> Suc (of_pub S t + t_iter (of_thr S t)) \<le> cur S" using lf(5) c by simp
  then show ?thesis unfolding again_def
  by (intro local_step [OF inv t] thread_invI)
    (use lf p(2) in \<open>simp_all add: mode_inv_def iter_inv_def my_inv_def own_inv_def copy_inv_def apply_inv_def
       scan_inv_def list_inv_def run_inv_def Let_def pc_sets split: prod.split\<close>)
qed

lemma help_return_inv:
  assumes inv: "of_inv C s0 S" and t: "t < 128" and p: "pc S t \<in> helping" and ap: "applied S (fst (t_help (of_thr S t)))"
  shows "of_inv C s0 (help_return t S)"
proof -
  note lf = loaded_facts [OF inv t]
  have l: "pc S t \<in> loaded - {P_Check}" using p by (auto simp: pc_sets)
  note lf = loaded_facts [OF inv t l]
  note sh = inv_shared [OF inv]
  show ?thesis
  proof (cases "t_commit (of_thr S t)")
    case True
    note f = lf(6) [unfolded my_facts_def Let_def]
    have hp: "t_help (of_thr S t) = (my S t + 1, t)" "my S t + 1 \<le> cur S" "of_ids S (my S t + 1) = t"
      "snd (of_ops S t) < snd (of_vers S (my S t + 1) (result_at C t))"
      "\<forall>s'. my S t + 1 < s' \<longrightarrow> s' \<le> cur S \<longrightarrow> of_ids S s' \<noteq> t"
      using f p True by auto
    have "my S t + 1 < cur S \<or> my S t + 1 = cur S \<and> applied S (my S t + 1)" using hp ap by auto
    then have cl: "closed C S t" using mem_version [OF sh(1,2), of "my S t + 1" "result_at C t"] hp(4) by (auto simp: closed_def)
    have no: "\<not> own_open S t"
    proof
      assume o: "own_open S t"
      then have "of_ids S (cur S) = t" using sh(1) by (simp add: own_open_def hist_inv_def)
      then have "my S t + 1 = cur S" using hp(2,5) by (metis le_neq_implies_less order_refl)
      then show False using o ap hp(1) by (simp add: own_open_def)
    qed
    have upd: "t_upd (of_thr S t)" using inv_thread(1) [OF inv t] True by (simp add: mode_inv_def Let_def)
    have e: "help_return t S = set_thr t (\<lambda>T. T\<lparr>t_commit := False, t_pc := P_Done\<rparr>) S" using True by (simp add: help_return_def)
    show ?thesis unfolding e
      by (rule local_step [OF inv t], rule thread_invI)
        (use lf cl no upd in \<open>simp_all add: mode_inv_def iter_inv_def my_inv_def own_inv_def copy_inv_def apply_inv_def
         scan_inv_def list_inv_def run_inv_def Let_def pc_sets split: prod.split\<close>)
  next
    case False
    have e: "help_return t S = set_thr t (\<lambda>T. T\<lparr>t_commit := False, t_pc := P_Reset\<rparr>) S" using False by (simp add: help_return_def)
    have "applied S (my S t)" using ap lf(6) p False by (simp add: my_facts_def Let_def)
    then show ?thesis unfolding e
      by (intro local_step [OF inv t] thread_invI)
        (use lf False in \<open>simp_all add: mode_inv_def iter_inv_def my_inv_def my_facts_def own_inv_def copy_inv_def apply_inv_def
         scan_inv_def list_inv_def run_inv_def Let_def pc_sets split: prod.split\<close>)
  qed
qed
text \<open>A step within an attempt that keeps what the attempt is about.\<close>

definition keeps :: "oftm \<Rightarrow> nat \<Rightarrow> ofthread \<Rightarrow> bool" where
  "keeps S t T' \<longleftrightarrow> (let T = of_thr S t; p = t_pc T' in
     (t_iter T', t_upd T', t_fun T', t_my T', t_help T', t_commit T', t_begin T') = (t_iter T, t_upd T, t_fun T, t_my T, t_help T, t_commit T, t_begin T)
     \<and> p \<in> loaded - {P_Check} \<and> (t_commit T \<longrightarrow> p \<in> helping) \<and> (p \<in> insert P_Scan (scanning \<union> committing) \<longrightarrow> t_upd T)
     \<and> (p \<in> helping \<longrightarrow> t_pc T \<in> helping) \<and> (p \<in> {P_CommitLog, P_CommitCas} \<longrightarrow> of_request S t = (fst (t_my T) + 1, t)))"

lemma keep_step:
  assumes inv: "of_inv C s0 S" and t: "t < 128" and p: "pc S t \<in> loaded - {P_Check}" and k: "keeps S t (f (of_thr S t))"
    and own: "copy_inv (set_thr t f S) t" "apply_inv (set_thr t f S) t" "scan_inv C (set_thr t f S) t" "list_inv C (set_thr t f S) t" "run_inv C (set_thr t f S) t"
  shows "of_inv C s0 (set_thr t f S)"
proof (rule local_step [OF inv t], rule thread_invI)
  let ?S = "set_thr t f S" and ?T = "of_thr S t" let ?T' = "f ?T"
  note lf = loaded_facts [OF inv t p]
  have T: "of_thr ?S t = ?T'" by simp
  have k1: "t_iter ?T' = t_iter ?T" "t_upd ?T' = t_upd ?T" "t_fun ?T' = t_fun ?T" "t_my ?T' = t_my ?T" "t_help ?T' = t_help ?T" "t_commit ?T' = t_commit ?T" "t_begin ?T' = t_begin ?T"
    and k2: "t_pc ?T' \<in> loaded - {P_Check}" "t_commit ?T \<Longrightarrow> t_pc ?T' \<in> helping" "t_pc ?T' \<in> insert P_Scan (scanning \<union> committing) \<Longrightarrow> t_upd ?T"
      "t_pc ?T' \<in> helping \<Longrightarrow> t_pc ?T \<in> helping" "t_pc ?T' \<in> {P_CommitLog, P_CommitCas} \<Longrightarrow> of_request S t = (fst (t_my ?T) + 1, t)"
    using k unfolding keeps_def Let_def by blast+
  have np: "t_pc ?T' \<notin> {P_Idle, P_Result, P_Announce, P_Publish, P_Loop, P_Load, P_Done, P_Crashed}" using k2(1) by (auto simp: pc_sets)
  show "mode_inv C ?S t"
    unfolding mode_inv_def Let_def T k1 using np k2(1-3) lf(1,3,4) basic_commit [of C S t] inv_thread(1-4) [OF inv t]
    by (auto simp: basic_inv_def)
  show "t < of_tids ?S" using lf(2) by simp
  show "iter_inv ?S t" unfolding iter_inv_def Let_def T k1 using np lf(3,5) k2(1) by auto
  have hp: "t_pc ?T' \<in> insert P_Check helping \<longrightarrow> t_help ?T = (if t_commit ?T then (fst (t_my ?T) + 1, t) else t_my ?T)"
    using lf(6) k2(1,4) unfolding my_facts_def Let_def by blast
  have "t_pc ?T' \<in> {P_CommitLog, P_CommitCas} \<longrightarrow> of_request ?S t = (fst (t_my ?T) + 1, t)" using k2(5) by simp
  with lf(6) hp have "my_facts C s0 ?S t" unfolding my_facts_def Let_def T k1 by simp
  then show "my_inv C s0 ?S t" using inv_thread(6) [OF inv t] k1(7) by (simp add: my_inv_def)
  show "own_inv ?S t" using lf(7) unfolding own_inv_def T k1 by simp
  show "t_pc (of_thr ?S t) \<in> {P_Announce, P_Publish} \<Longrightarrow> t_q (of_thr ?S t) = snd (res C ?S t)"
    "t_pc (of_thr ?S t) = P_Done \<Longrightarrow> closed C ?S t" using np unfolding T by auto
qed (use own in simp_all)

lemmas quiet_defs = copy_inv_def apply_inv_def scan_inv_def list_inv_def run_inv_def Let_def pc_sets
subsection \<open>helpApply\<close>

lemma help_applied:
  assumes "of_inv C s0 S" "t < 128" "pc S t \<in> helping" "t_help (of_thr S t) = (seq, idx)"
  shows "s0 \<le> seq" "seq \<le> cur S" "of_ids S seq = idx" "applied S seq \<longleftrightarrow> of_request S idx \<noteq> (seq, idx)"
    "of_curTx S \<noteq> (seq, idx) \<Longrightarrow> applied S seq"
    "\<not> applied S seq \<Longrightarrow> seq = cur S \<and> is_log S seq (words_of S idx)"
proof -
  note sh = inv_shared [OF assms(1)]
  show a: "s0 \<le> seq" "seq \<le> cur S" "of_ids S seq = idx" using help_facts [OF inv_thread(6) [OF assms(1,2)] assms(3)] assms(4) by auto
  then show "applied S seq \<longleftrightarrow> of_request S idx \<noteq> (seq, idx)" by (simp add: applied_def)
  show na: "seq = cur S \<and> is_log S seq (words_of S idx)" if "\<not> applied S seq"
  proof -
    have "seq = cur S" by (rule open_current(1) [OF sh(1,3) a(1,2) that])
    then show ?thesis using sh(1,3) a that by (simp add: req_inv_def hist_inv_def)
  qed
  show "applied S seq" if "of_curTx S \<noteq> (seq, idx)"
    using na that a(3) sh(1) by (auto simp: hist_inv_def intro: ccontr prod_eqI)
qed

lemma entry_in_words: "k < of_n S t \<Longrightarrow> entry S t k \<in> set (words_of S t)"
proof -
  assume "k < of_n S t"
  then have "(t * 8 + k) mod of_n S t < of_n S t" by simp
  then show ?thesis by (simp add: entry_def words_of_def)
qed

lemma pending_word:
  assumes "hist_inv s0 S" "mem_inv S" "is_log S s xs" "a \<in> fst ` set xs" "s \<le> cur S"
  shows "s \<le> snd (of_mem S a) \<or> cur S = s \<and> of_mem S a = of_vers S (s - 1) a"
proof -
  have sn: "snd (of_vers S s a) = s" using assms(3,4) by (simp add: is_log_def apply_words_def)
  have ge: "s \<le> snd (of_vers S s' a)" if "s \<le> s'" "s' \<le> cur S" for s'
    using vers_change [OF assms(1) that, of a] sn by auto
  have "of_mem S a = of_vers S (cur S) a \<or> of_mem S a = of_vers S (cur S - 1) a" using assms(2) by (simp add: mem_inv_def)
  then show ?thesis using ge [of "cur S"] ge [of "cur S - 1"] assms(5) by (cases "s = cur S") auto
qed

lemma step_request:
  assumes inv: "of_inv C s0 S" and t: "t < 128" and p: "pc S t = P_Request"
  shows "of_inv C s0 (help_step t S)"
proof -
  obtain seq idx where h: "t_help (of_thr S t) = (seq, idx)" by fastforce
  have hp: "pc S t \<in> helping" using p by (simp add: helping_def)
  then have l: "pc S t \<in> loaded - {P_Check}" using p by (simp add: pc_sets)
  note ha = help_applied [OF inv t hp h] and lf = loaded_facts [OF inv t l]
  show ?thesis
  proof (cases "applied S seq")
    case True
    then have "help_step t S = help_return t S" using p h ha(4) by (simp add: help_step_def)
    then show ?thesis using help_return_inv [OF inv t hp] True h by simp
  next
    case False
    then have e: "help_step t S = set_thr t (\<lambda>T. T\<lparr>t_k := 0, t_pc := (if idx \<noteq> t then P_Num else P_Val)\<rparr>) S"
      using p h ha(4) by (simp add: help_step_def)
    show ?thesis unfolding e
      by (rule keep_step [OF inv t l]) (use p h ha(6) [OF False] in \<open>auto simp: keeps_def quiet_defs\<close>)
  qed
qed

lemma step_copied:
  assumes inv: "of_inv C s0 S" and t: "t < 128" and p: "pc S t = P_Copy" and k: "\<not> t_k (of_thr S t) < of_n S t"
  shows "of_inv C s0 (help_step t S)"
proof -
  obtain seq idx where h: "t_help (of_thr S t) = (seq, idx)" by fastforce
  have l: "pc S t \<in> loaded - {P_Check}" using p by (simp add: pc_sets)
  have c: "idx \<noteq> t" "t_k (of_thr S t) \<le> of_n S t"
    "of_request S idx = (seq, idx) \<Longrightarrow> of_n S t = of_n S idx \<and> (\<forall>j<t_k (of_thr S t). of_log S t j = of_log S idx j)"
    using inv_thread(8) [OF inv t] p h by (simp_all add: copy_inv_def Let_def)
  have w: "words_of S t = words_of S idx" if "of_request S idx = (seq, idx)"
    using c(3) [OF that] c(2) k by (simp add: words_of_def)
  have e: "help_step t S = goto t P_Cur S" using p h k by (simp add: help_step_def)
  show ?thesis unfolding e
    by (rule keep_step [OF inv t l]) (use p h w c(1) in \<open>simp_all add: keeps_def quiet_defs\<close>)
qed

lemma step_cur:
  assumes inv: "of_inv C s0 S" and t: "t < 128" and p: "pc S t = P_Cur"
  shows "of_inv C s0 (help_step t S)"
proof -
  obtain seq idx where h: "t_help (of_thr S t) = (seq, idx)" by fastforce
  have hp: "pc S t \<in> helping" using p by (simp add: helping_def)
  then have l: "pc S t \<in> loaded - {P_Check}" using p by (simp add: pc_sets)
  note ha = help_applied [OF inv t hp h]
  show ?thesis
  proof (cases "of_curTx S = (seq, idx)")
    case False
    then have "help_step t S = help_return t S" using p h by (simp add: help_step_def)
    then show ?thesis using help_return_inv [OF inv t hp] ha(5) [OF False] h by simp
  next
    case True
    then have e: "help_step t S = goto t P_Request2 S" using p h by (simp add: help_step_def)
    show ?thesis unfolding e
      by (rule keep_step [OF inv t l]) (use p h inv_thread(8) [OF inv t] in \<open>simp_all add: keeps_def quiet_defs\<close>)
  qed
qed

lemma step_request2:
  assumes inv: "of_inv C s0 S" and t: "t < 128" and p: "pc S t = P_Request2"
  shows "of_inv C s0 (help_step t S)"
proof -
  obtain seq idx where h: "t_help (of_thr S t) = (seq, idx)" by fastforce
  have hp: "pc S t \<in> helping" using p by (simp add: helping_def)
  then have l: "pc S t \<in> loaded - {P_Check}" using p by (simp add: pc_sets)
  note ha = help_applied [OF inv t hp h]
  show ?thesis
  proof (cases "applied S seq")
    case True
    then have "help_step t S = help_return t S" using p h ha(4) by (simp add: help_step_def)
    then show ?thesis using help_return_inv [OF inv t hp] True h by simp
  next
    case False
    then have e: "help_step t S = set_thr t (\<lambda>T. T\<lparr>t_k := 0, t_pc := P_Val\<rparr>) S"
      using p h ha(4) by (simp add: help_step_def)
    have "words_of S t = words_of S idx" using inv_thread(8) [OF inv t] p h False ha(4) by (simp add: copy_inv_def Let_def)
    then show ?thesis unfolding e
      by (intro keep_step [OF inv t l]) (use p h ha(6) [OF False] in \<open>auto simp: keeps_def quiet_defs\<close>)
  qed
qed

lemma step_val:
  assumes inv: "of_inv C s0 S" and t: "t < 128" and p: "pc S t = P_Val"
  shows "of_inv C s0 (help_step t S)"
proof -
  obtain seq idx where h: "t_help (of_thr S t) = (seq, idx)" by fastforce
  have hp: "pc S t \<in> helping" using p by (simp add: helping_def)
  then have l: "pc S t \<in> loaded - {P_Check}" using p by (simp add: pc_sets)
  note ha = help_applied [OF inv t hp h] and sh = inv_shared [OF inv] and ai = inv_thread(9) [OF inv t]
  let ?k = "t_k (of_thr S t)"
  have a: "is_log S seq (words_of S t)" "?k \<le> of_n S t" "\<forall>j<?k. seq \<le> snd (of_mem S (fst (entry S t j)))"
    using ai p h by (simp_all add: apply_inv_def Let_def)
  show ?thesis
  proof (cases "?k < of_n S t")
    case False
    then have e: "help_step t S = goto t P_Open S" using p h by (simp add: help_step_def)
    show ?thesis unfolding e
      by (rule keep_step [OF inv t l]) (use p h a False in \<open>simp_all add: keeps_def quiet_defs\<close>)
  next
    case True
    then have e: "help_step t S = set_thr t (\<lambda>T. T\<lparr>t_val := fst (of_mem S (fst (entry S t ?k))), t_pc := P_Seq\<rparr>) S"
      using p h by (simp add: help_step_def help_entry_def entry_def Let_def)
    have "seq \<le> snd (of_mem S (fst (entry S t ?k))) \<or> cur S = seq \<and> of_mem S (fst (entry S t ?k)) = of_vers S (seq - 1) (fst (entry S t ?k))"
      using entry_in_words [OF True] by (intro pending_word [OF sh(1,2) a(1) _ ha(2)]) simp
    then show ?thesis unfolding e
      by (intro keep_step [OF inv t l]) (use p h a True in \<open>auto simp: keeps_def quiet_defs\<close>)
  qed
qed

lemma step_seq:
  assumes inv: "of_inv C s0 S" and t: "t < 128" and p: "pc S t = P_Seq"
  shows "of_inv C s0 (help_step t S)"
proof -
  obtain seq idx where h: "t_help (of_thr S t) = (seq, idx)" by fastforce
  have l: "pc S t \<in> loaded - {P_Check}" using p by (simp add: pc_sets)
  let ?k = "t_k (of_thr S t)" let ?w = "of_mem S (fst (entry S t ?k))"
  have a: "is_log S seq (words_of S t)" "?k < of_n S t" "\<forall>j<?k. seq \<le> snd (of_mem S (fst (entry S t j)))"
    "seq \<le> snd ?w \<or> t_val (of_thr S t) = fst ?w"
    using inv_thread(9) [OF inv t] p h by (auto simp: apply_inv_def Let_def)
  show ?thesis
  proof (cases "snd ?w < seq")
    case True
    then have e: "help_step t S = set_thr t (\<lambda>T. T\<lparr>t_seq := snd ?w, t_pc := P_Dcas\<rparr>) S"
      using p h by (simp add: help_step_def help_entry_def entry_def Let_def)
    show ?thesis unfolding e
      by (rule keep_step [OF inv t l]) (use p h a True in \<open>simp_all add: keeps_def quiet_defs\<close>)
  next
    case False
    then have e: "help_step t S = set_thr t (\<lambda>T. T\<lparr>t_k := t_k T + 1, t_pc := P_Val\<rparr>) S"
      using p h by (simp add: help_step_def help_entry_def entry_def Let_def)
    show ?thesis unfolding e
      by (rule keep_step [OF inv t l]) (use p h a False in \<open>auto simp: keeps_def quiet_defs less_Suc_eq\<close>)
  qed
qed

lemma step_open:
  assumes inv: "of_inv C s0 S" and t: "t < 128" and p: "pc S t = P_Open"
  shows "of_inv C s0 (help_step t S)"
proof -
  obtain seq idx where h: "t_help (of_thr S t) = (seq, idx)" by fastforce
  have hp: "pc S t \<in> helping" using p by (simp add: helping_def)
  then have l: "pc S t \<in> loaded - {P_Check}" using p by (simp add: pc_sets)
  note ha = help_applied [OF inv t hp h]
  show ?thesis
  proof (cases "applied S seq")
    case True
    then have "help_step t S = help_return t S" using p h ha(4) by (simp add: help_step_def)
    then show ?thesis using help_return_inv [OF inv t hp] True h by simp
  next
    case False
    then have e: "help_step t S = goto t P_Close S" using p h ha(4) by (simp add: help_step_def)
    show ?thesis unfolding e
      by (rule keep_step [OF inv t l]) (use p h inv_thread(9) [OF inv t] in \<open>simp_all add: keeps_def quiet_defs\<close>)
  qed
qed
subsection \<open>transformAll and the bodies\<close>

lemma my_not_current:
  assumes "of_inv C s0 S" "t < 128" "pc S t \<in> loaded - {P_Check}" "t_my (of_thr S t) \<noteq> of_curTx S"
  shows "my S t < cur S"
proof -
  have "my S t \<le> cur S" "of_ids S (my S t) = snd (t_my (of_thr S t))" using loaded_facts(6) [OF assms(1-3)] by (simp_all add: my_facts_def Let_def)
  then show ?thesis using assms(4) inv_shared(1) [OF assms(1)] by (cases "my S t = cur S") (auto simp: hist_inv_def prod_eq_iff)
qed

lemma transforming_facts:
  assumes inv: "of_inv C s0 S" and t: "t < 128" and p: "pc S t \<in> transforming"
  shows "pc S t \<in> loaded - {P_Check}" "\<not> t_commit (of_thr S t)" "s0 \<le> my S t" "my S t \<le> cur S" "applied S (my S t)"
    "cur S = my S t \<Longrightarrow> of_mem S = of_vers S (my S t)" "t < of_tids S"
proof -
  have np: "pc S t \<notin> {P_Check} \<union> helping" using p by (auto simp: pc_sets)
  then show l: "pc S t \<in> loaded - {P_Check}" using p by (simp add: loaded_def)
  show "\<not> t_commit (of_thr S t)" using inv_thread(1) [OF inv t] np unfolding mode_inv_def Let_def by blast
  show "s0 \<le> my S t" "my S t \<le> cur S" using loaded_facts(6) [OF inv t l] by (simp_all add: my_facts_def Let_def)
  show ap: "applied S (my S t)" using run_invD(1) [OF inv_thread(12) [OF inv t] refl refl refl refl] p by blast
  show "cur S = my S t \<Longrightarrow> of_mem S = of_vers S (my S t)" using inv_shared(2) [OF inv] ap by (simp add: mem_inv_def)
  show "t < of_tids S" by (rule loaded_facts(2) [OF inv t l])
qed

lemma upd_facts:
  assumes inv: "of_inv C s0 S" and t: "t < 128" and p: "pc S t \<in> insert P_Scan (scanning \<union> committing)"
  shows "t_upd (of_thr S t)" "pc S t \<in> transforming" "pc S t \<notin> running"
proof -
  show "t_upd (of_thr S t)" using inv_thread(1) [OF inv t] p unfolding mode_inv_def Let_def by blast
qed (use p in \<open>auto simp: pc_sets\<close>)

lemma scan_sets:
  assumes "p \<in> insert P_Scan scanning"
  shows "p \<in> transforming" "p \<notin> running" "p \<notin> committing" "p \<notin> helping" "p \<noteq> P_Check" "p \<in> loaded" "p \<noteq> P_Recheck"
  using assms by (auto simp: pc_sets)

text \<open>A step that only looks at the announced operations.\<close>

lemma scan_keep:
  assumes inv: "of_inv C s0 S" and t: "t < 128" and p: "pc S t \<in> insert P_Scan scanning"
    and p': "t_pc (f (of_thr S t)) \<in> insert P_Scan scanning"
    and k: "(t_iter (f (of_thr S t)), t_upd (f (of_thr S t)), t_fun (f (of_thr S t)), t_my (f (of_thr S t)), t_help (f (of_thr S t)), t_commit (f (of_thr S t)), t_begin (f (of_thr S t)), t_served (f (of_thr S t)))
      = (t_iter (of_thr S t), t_upd (of_thr S t), t_fun (of_thr S t), t_my (of_thr S t), t_help (of_thr S t), t_commit (of_thr S t), t_begin (of_thr S t), t_served (of_thr S t))"
    and sc: "scan_inv C (set_thr t f S) t"
    and i: "t_i (of_thr S t) \<le> t_i (f (of_thr S t))"
    and l1: "\<And>j. cur S = my S t \<Longrightarrow> t_i (of_thr S t) \<le> j \<Longrightarrow> j < t_i (f (of_thr S t)) \<Longrightarrow> of_active S j \<Longrightarrow> of_pub S j < my S t \<Longrightarrow>
        snd (of_vers S (my S t) (result_at C j)) \<le> snd (of_ops S j) \<Longrightarrow> False"
    and l2: "t_i (of_thr S t) \<le> t \<Longrightarrow> t < t_i (f (of_thr S t)) \<Longrightarrow> closed C S t"
  shows "of_inv C s0 (set_thr t f S)"
proof -
  let ?T = "of_thr S t" let ?T' = "f ?T" let ?S = "set_thr t f S"
  have u: "t_upd ?T" "pc S t \<in> transforming" "pc S t \<notin> running" by (rule upd_facts [OF inv t], use p in blast)+
  note tf = transforming_facts [OF inv t u(2)]
  have T: "of_thr ?S t = ?T'" by simp
  have np: "t_pc ?T' \<in> transforming" "t_pc ?T' \<notin> running" "t_pc ?T' \<notin> committing" "t_pc ?T' \<notin> helping" "t_pc ?T' \<noteq> P_Check" "t_pc ?T' \<in> loaded" "t_pc ?T' \<noteq> P_Recheck"
    "pc S t \<notin> committing" using scan_sets [OF p] scan_sets [OF p'] by simp_all
  note li = list_invD [OF inv_thread(11) [OF inv t] refl u(2,1) refl refl refl]
  note ru = run_invD [OF inv_thread(12) [OF inv t] refl refl refl refl]
  show ?thesis
  proof (rule keep_step [OF inv t tf(1)])
    show "keeps S t ?T'" unfolding keeps_def Let_def using k np tf(2) u(1) by (auto simp: committing_def)
    show "copy_inv ?S t" "apply_inv ?S t" using np(4) unfolding copy_inv_def apply_inv_def Let_def T by (auto simp: helping_def split: prod.split)
    show "list_inv C ?S t"
    proof (rule list_invI [OF refl refl refl refl]; unfold T)
      have sv: "t_served ?T' = t_served ?T" "t_my ?T' = t_my ?T" using k by simp_all
      show "distinct (map fst (t_served ?T')) \<and> (\<forall>j\<in>fst ` set (t_served ?T'). j < t_i ?T' \<and> j < 128)
       \<and> (\<forall>j<128. result_at C j \<in> fst ` set (words_of ?S t) \<longleftrightarrow> j \<in> fst ` set (t_served ?T'))
       \<and> (\<forall>j f r. (j, f, r) \<in> set (t_served ?T') \<longrightarrow> get_word (result_at C j) 0 (words_of ?S t) = r)"
        unfolding sv set_thr_shared
      proof (intro conjI ballI allI impI)
        show "distinct (map fst (t_served ?T))" by (rule li(1))
        show "j < t_i ?T'" "j < 128" if "j \<in> fst ` set (t_served ?T)" for j using li(2) [OF that] i by simp_all
        show "(result_at C j \<in> fst ` set (words_of S t)) = (j \<in> fst ` set (t_served ?T))" if "j < 128" for j by (rule li(3) [OF that])
        show "get_word (result_at C j) 0 (words_of S t) = r" if "(j, g, r) \<in> set (t_served ?T)" for j g r by (rule li(4) [OF that])
      qed
      show "of_active ?S j \<and> fst (of_ops ?S j) = Some g \<and> snd (of_vers ?S (fst (t_my ?T')) (result_at C j)) \<le> snd (of_ops ?S j)"
        if "cur ?S = fst (t_my ?T')" "(j, g, r) \<in> set (t_served ?T')" for j g r using li(5) that sv by simp
      show "j \<in> fst ` set (t_served ?T')"
        if "cur ?S = fst (t_my ?T')" "j < 128" "j < t_i ?T' \<or> t_pc ?T' \<in> committing" "of_active ?S j" "of_pub ?S j < fst (t_my ?T')"
          "snd (of_vers ?S (fst (t_my ?T')) (result_at C j)) \<le> snd (of_ops ?S j)" for j
        using li(6) [of j] l1 [of j] that sv np(3) by (cases "j < t_i ?T") auto
      show "t \<in> fst ` set (t_served ?T') \<or> closed C ?S t" if "t < t_i ?T'"
        using li(7) l2 that sv by (cases "t < t_i ?T") auto
      show "t < t_i ?T'" if "t_pc ?T' \<in> committing" using that np by blast
    qed
    have "serve_ok C (t_served ?T) (fst \<circ> of_vers S (my S t)) (overlay (words_of S t) (fst \<circ> of_vers S (my S t)))"
      using ru(3) u by blast
    moreover have "distinct (map fst (words_of S t))" using ru(2) u by blast
    moreover have "t_my ?T' = t_my ?T" "t_served ?T' = t_served ?T" using k by simp_all
    moreover have "t_pc ?T' \<noteq> P_LoadSeq" using np(2) by (auto simp: running_def)
    ultimately show "run_inv C ?S t" unfolding run_inv_def Let_def T using np tf(5) by simp
  qed (use sc in simp)
qed
lemma scan_case:
  assumes inv: "of_inv C s0 S" and t: "t < 128" and p: "pc S t \<in> insert P_Scan scanning"
  shows "t_upd (of_thr S t)" "pc S t \<in> transforming" "pc S t \<notin> committing" "pc S t \<notin> running"
  using upd_facts [OF inv t] p by (auto simp: pc_sets)

lemma step_scan:
  assumes inv: "of_inv C s0 S" and t: "t < 128" and p: "pc S t = P_Scan"
  shows "of_inv C s0 (transform_step C t S)"
proof -
  let ?T = "of_thr S t"
  have ps: "pc S t \<in> insert P_Scan scanning" using p by simp
  note u = scan_case [OF inv t ps] and tf = transforming_facts [OF inv t scan_case(2) [OF inv t ps]]
  show ?thesis
  proof (cases "t_i ?T < of_tids S")
    case True
    then have e: "transform_step C t S = goto t P_OpSeq S" using p by (simp add: transform_step_def Let_def)
    show ?thesis unfolding e
      by (rule scan_keep [OF inv t ps]) (use True in \<open>simp_all add: scanning_def running_def scan_inv_def Let_def\<close>)
  next
    case False
    then have e: "transform_step C t S = goto t P_CommitCur S" using p by (simp add: transform_step_def Let_def)
    note li = list_invD [OF inv_thread(11) [OF inv t] refl u(2,1) refl refl refl] and ru = run_invD [OF inv_thread(12) [OF inv t] refl refl refl refl]
    have lt: "t < t_i ?T" using False tf(7) by simp
    have act: "j < t_i ?T" if "j < 128" "of_active S j" for j
      using inv_shared(5) [OF inv that(1)] that False by (simp add: op_inv_def op_active_def)
    have "list_inv C (goto t P_CommitCur S) t"
    proof (rule list_invI [OF refl refl refl refl])
      show "j \<in> fst ` set (t_served (of_thr (goto t P_CommitCur S) t))"
        if "cur (goto t P_CommitCur S) = my (goto t P_CommitCur S) t" "j < 128" "of_active (goto t P_CommitCur S) j"
          "of_pub (goto t P_CommitCur S) j < my (goto t P_CommitCur S) t"
          "snd (of_vers (goto t P_CommitCur S) (my (goto t P_CommitCur S) t) (result_at C j)) \<le> snd (of_ops (goto t P_CommitCur S) j)" for j
        using li(6) [of j] act [of j] that by simp
      show "distinct (map fst (t_served (of_thr (goto t P_CommitCur S) t))) \<and> (\<forall>j\<in>fst ` set (t_served (of_thr (goto t P_CommitCur S) t)). j < t_i (of_thr (goto t P_CommitCur S) t) \<and> j < 128)
       \<and> (\<forall>j<128. result_at C j \<in> fst ` set (words_of (goto t P_CommitCur S) t) \<longleftrightarrow> j \<in> fst ` set (t_served (of_thr (goto t P_CommitCur S) t)))
       \<and> (\<forall>j f r. (j, f, r) \<in> set (t_served (of_thr (goto t P_CommitCur S) t)) \<longrightarrow> get_word (result_at C j) 0 (words_of (goto t P_CommitCur S) t) = r)"
        using li(1-4) by simp
    qed (use li(5,7) lt in simp_all)
    then show ?thesis unfolding e
      by (intro keep_step [OF inv t tf(1)]) (use u tf(2,5) ru(2,3) p in \<open>simp_all add: keeps_def copy_inv_def apply_inv_def scan_inv_def run_inv_def Let_def pc_sets split: prod.split\<close>)
  qed
qed

lemma next_op_inv:
  assumes inv: "of_inv C s0 S" and t: "t < 128" and p: "pc S t \<in> {P_OpSeq2, P_ResSeq2}"
    and l1: "cur S = my S t \<Longrightarrow> of_active S (t_i (of_thr S t)) \<Longrightarrow> of_pub S (t_i (of_thr S t)) < my S t \<Longrightarrow>
        snd (of_vers S (my S t) (result_at C (t_i (of_thr S t)))) \<le> snd (of_ops S (t_i (of_thr S t))) \<Longrightarrow> False"
    and l2: "t_i (of_thr S t) = t \<Longrightarrow> closed C S t"
  shows "of_inv C s0 (next_op t S)"
  unfolding next_op_def
proof (rule scan_keep [OF inv t])
  show "pc S t \<in> insert P_Scan scanning" using p by (auto simp: scanning_def)
  show False if "cur S = my S t" "t_i (of_thr S t) \<le> j" "j < t_i ((of_thr S t)\<lparr>t_i := t_i (of_thr S t) + 1, t_pc := P_Scan\<rparr>)" "of_active S j" "of_pub S j < my S t"
    "snd (of_vers S (my S t) (result_at C j)) \<le> snd (of_ops S j)" for j
  proof -
    have "j = t_i (of_thr S t)" using that by simp
    then show False using l1 that by simp
  qed
  show "closed C S t" if "t_i (of_thr S t) \<le> t" "t < t_i ((of_thr S t)\<lparr>t_i := t_i (of_thr S t) + 1, t_pc := P_Scan\<rparr>)"
    using l2 that by simp
qed (simp_all add: scan_inv_def Let_def scanning_def running_def)

text \<open>What a scan knows of the operation it looks at.\<close>

lemma scan_facts:
  assumes inv: "of_inv C s0 S" and t: "t < 128" and p: "pc S t \<in> scanning"
  shows "t_i (of_thr S t) < of_tids S" "op_inv C S (t_i (of_thr S t))" "pc S t \<in> insert P_Scan scanning"
  using scan_invD(1) [OF inv_thread(10) [OF inv t] refl refl refl] p inv_shared(4) [OF inv]
    inv_shared(5) [OF inv, of "t_i (of_thr S t)"] by auto

lemma step_opseq:
  assumes inv: "of_inv C s0 S" and t: "t < 128" and p: "pc S t = P_OpSeq"
  shows "of_inv C s0 (transform_step C t S)"
proof -
  have ps: "pc S t \<in> scanning" using p by (simp add: scanning_def)
  note f = scan_facts [OF inv t ps]
  have e: "transform_step C t S = set_thr t (\<lambda>T. T\<lparr>t_q := snd (of_ops S (t_i T)), t_pc := P_OpVal\<rparr>) S"
    using p by (simp add: transform_step_def Let_def)
  show ?thesis unfolding e
    by (rule scan_keep [OF inv t f(3)]) (use f in \<open>simp_all add: scanning_def running_def scan_inv_def Let_def\<close>)
qed

lemma step_opval:
  assumes inv: "of_inv C s0 S" and t: "t < 128" and p: "pc S t = P_OpVal"
  shows "of_inv C s0 (transform_step C t S)"
proof -
  have ps: "pc S t \<in> scanning" using p by (simp add: scanning_def)
  note f = scan_facts [OF inv t ps]
  have e: "transform_step C t S = set_thr t (\<lambda>T. T\<lparr>t_f := fst (of_ops S (t_i T)), t_pc := P_OpSeq2\<rparr>) S"
    using p by (simp add: transform_step_def Let_def)
  show ?thesis unfolding e
    by (rule scan_keep [OF inv t f(3)]) (use f inv_thread(10) [OF inv t] p in \<open>simp_all add: scanning_def running_def scan_inv_def Let_def\<close>)
qed

lemma step_opseq2:
  assumes inv: "of_inv C s0 S" and t: "t < 128" and p: "pc S t = P_OpSeq2"
  shows "of_inv C s0 (transform_step C t S)"
proof -
  have ps: "pc S t \<in> scanning" using p by (simp add: scanning_def)
  note f = scan_facts [OF inv t ps] and sd = scan_invD [OF inv_thread(10) [OF inv t] refl refl refl]
  let ?T = "of_thr S t"
  show ?thesis
  proof (cases "snd (of_ops S (t_i ?T)) = t_q ?T")
    case True
    then have e: "transform_step C t S = goto t P_ResSeq S" using p by (simp add: transform_step_def Let_def)
    show ?thesis unfolding e
      by (rule scan_keep [OF inv t f(3)]) (use f inv_thread(10) [OF inv t] p in \<open>simp_all add: scanning_def running_def scan_inv_def Let_def\<close>)
  next
    case False
    then have e: "transform_step C t S = next_op t S" using p by (simp add: transform_step_def Let_def)
    show ?thesis unfolding e by (rule next_op_inv [OF inv t]) (use p sd(2) False in auto)
  qed
qed

lemma step_resseq:
  assumes inv: "of_inv C s0 S" and t: "t < 128" and p: "pc S t = P_ResSeq"
  shows "of_inv C s0 (transform_step C t S)"
proof -
  have ps: "pc S t \<in> scanning" using p by (simp add: scanning_def)
  note f = scan_facts [OF inv t ps] and sd = scan_invD [OF inv_thread(10) [OF inv t] refl refl refl]
  note tf = transforming_facts [OF inv t scan_case(2) [OF inv t f(3)]]
  let ?T = "of_thr S t" let ?i = "t_i ?T"
  have p2: "t_pc ?T \<in> {P_OpVal, P_OpSeq2, P_ResSeq, P_ResSeq2, P_TxCur}" "t_pc ?T \<in> {P_OpSeq2, P_ResSeq, P_ResSeq2, P_TxCur}" using p by simp_all
  have func: "\<exists>g. t_f ?T = Some g \<and> prog_ok C g" if q: "snd (res C S ?i) \<le> t_q ?T"
  proof -
    have o: "snd (of_ops S ?i) = t_q ?T" using sd(2) [OF p2(1)] q by auto
    then have "of_active S ?i" using f(2) q by (auto simp: op_inv_def closed_def)
    then have "\<exists>g. fst (of_ops S ?i) = Some g \<and> prog_ok C g" using f(2) by (simp add: op_inv_def op_active_def)
    then show ?thesis using sd(3) [OF p2(2) o q] by simp
  qed
  have e: "transform_step C t S = set_thr t (\<lambda>T. T\<lparr>t_r := snd (res C S (t_i T)), t_pc := P_ResSeq2\<rparr>) S"
    using p by (simp add: transform_step_def Let_def)
  have "snd (of_ops S ?i) \<le> snd (res C S ?i)" using f(2) by (simp add: op_inv_def)
  moreover have "cur S = my S t \<Longrightarrow> of_mem S = of_vers S (my S t)" by (rule tf(6))
  ultimately show ?thesis unfolding e
    by (intro scan_keep [OF inv t f(3)]) (use f(1) sd(2) [OF p2(1)] sd(3) [OF p2(2)] func in \<open>auto simp: scanning_def running_def scan_inv_def Let_def\<close>)
qed

lemma step_resseq2:
  assumes inv: "of_inv C s0 S" and t: "t < 128" and p: "pc S t = P_ResSeq2"
  shows "of_inv C s0 (transform_step C t S)"
proof -
  have ps: "pc S t \<in> scanning" using p by (simp add: scanning_def)
  note f = scan_facts [OF inv t ps] and sd = scan_invD [OF inv_thread(10) [OF inv t] refl refl refl]
  note tf = transforming_facts [OF inv t scan_case(2) [OF inv t f(3)]]
  let ?T = "of_thr S t" let ?i = "t_i ?T"
  have p2: "t_pc ?T \<in> {P_OpVal, P_OpSeq2, P_ResSeq, P_ResSeq2, P_TxCur}" "t_pc ?T \<in> {P_ResSeq2, P_TxCur}" using p by simp_all
  show ?thesis
  proof (cases "snd (res C S ?i) = t_r ?T \<and> t_r ?T \<le> t_q ?T")
    case True
    then have e: "transform_step C t S = goto t P_TxCur S" using p by (simp add: transform_step_def Let_def)
    show ?thesis unfolding e
      by (rule scan_keep [OF inv t f(3)]) (use f(1) sd(2) [OF p2(1)] sd(3) sd(4) [OF p2(2)] p True in \<open>auto simp: scanning_def running_def scan_inv_def Let_def\<close>)
  next
    case False
    then have e: "transform_step C t S = next_op t S" using p by (auto simp: transform_step_def Let_def)
    show ?thesis unfolding e
    proof (rule next_op_inv [OF inv t])
      show "pc S t \<in> {P_OpSeq2, P_ResSeq2}" using p by simp
      show False if c: "cur S = my S t" "of_pub S ?i < my S t" "snd (of_vers S (my S t) (result_at C ?i)) \<le> snd (of_ops S ?i)"
        using sd(2) [OF p2(1)] sd(4) [OF p2(2)] tf(6) [OF c(1)] c False by auto
      show "closed C S t" if "?i = t"
        using sd(2) [OF p2(1)] sd(4) [OF p2(2)] that False by (auto simp: closed_def)
    qed
  qed
qed
lemma running_sets:
  assumes "p \<in> running"
  shows "p \<in> transforming" "p \<notin> committing" "p \<notin> helping" "p \<noteq> P_Check" "p \<in> loaded" "p \<notin> insert P_Scan (scanning \<union> committing)"
    "p \<notin> scanning" "p \<notin> {P_CommitLog, P_CommitCas}"
  using assms by (auto simp: pc_sets)

text \<open>A step of a body that leaves the write set alone.\<close>

lemma run_keep:
  assumes inv: "of_inv C s0 S" and t: "t < 128" and p: "pc S t \<in> insert P_TxCur running"
    and p': "t_pc (f (of_thr S t)) \<in> running"
    and k: "(t_iter (f (of_thr S t)), t_upd (f (of_thr S t)), t_fun (f (of_thr S t)), t_my (f (of_thr S t)), t_help (f (of_thr S t)), t_commit (f (of_thr S t)), t_begin (f (of_thr S t)),
        t_served (f (of_thr S t)), t_i (f (of_thr S t)), t_f (f (of_thr S t)))
      = (t_iter (of_thr S t), t_upd (of_thr S t), t_fun (of_thr S t), t_my (of_thr S t), t_help (of_thr S t), t_commit (of_thr S t), t_begin (of_thr S t),
        t_served (of_thr S t), t_i (of_thr S t), t_f (of_thr S t))"
    and sc: "t_upd (of_thr S t) \<Longrightarrow> t_i (of_thr S t) < of_tids S \<and> t_f (of_thr S t) \<noteq> None \<and>
          (cur S = my S t \<longrightarrow> of_active S (t_i (of_thr S t)) \<and> fst (of_ops S (t_i (of_thr S t))) = t_f (of_thr S t) \<and>
             snd (of_vers S (my S t) (result_at C (t_i (of_thr S t)))) \<le> snd (of_ops S (t_i (of_thr S t))))"
    and run: "run_inv C (set_thr t f S) t"
  shows "of_inv C s0 (set_thr t f S)"
proof -
  let ?T = "of_thr S t" let ?T' = "f ?T" let ?S = "set_thr t f S"
  have tp: "pc S t \<in> transforming" "pc S t \<notin> committing" using p running_sets [of "pc S t"] by (auto simp: pc_sets)
  note tf = transforming_facts [OF inv t tp(1)] and np = running_sets [OF p']
  have T: "of_thr ?S t = ?T'" by simp
  have eq: "t_upd ?T' = t_upd ?T" "t_my ?T' = t_my ?T" "t_served ?T' = t_served ?T" "t_i ?T' = t_i ?T" "t_f ?T' = t_f ?T" using k by simp_all
  show ?thesis
  proof (rule keep_step [OF inv t tf(1)])
    show "keeps S t ?T'" unfolding keeps_def Let_def using k np tf(2) by simp
    show "copy_inv ?S t" "apply_inv ?S t" using np(3) unfolding copy_inv_def apply_inv_def Let_def T by (auto simp: helping_def split: prod.split)
    show "scan_inv C ?S t"
      by (rule scan_invI [OF refl refl refl]; unfold T eq) (use np p' sc in \<open>auto simp: scanning_def\<close>)
    show "list_inv C ?S t"
    proof (rule list_invI [OF refl refl refl refl]; unfold T eq set_thr_shared)
      assume u: "t_upd ?T"
      note li = list_invD [OF inv_thread(11) [OF inv t] refl tp(1) u refl refl refl]
      show "distinct (map fst (t_served ?T)) \<and> (\<forall>j\<in>fst ` set (t_served ?T). j < t_i ?T \<and> j < 128)
       \<and> (\<forall>j<128. result_at C j \<in> fst ` set (words_of S t) \<longleftrightarrow> j \<in> fst ` set (t_served ?T))
       \<and> (\<forall>j f r. (j, f, r) \<in> set (t_served ?T) \<longrightarrow> get_word (result_at C j) 0 (words_of S t) = r)" using li(1-4) by blast
      show "of_active ?S j \<and> fst (of_ops ?S j) = Some g \<and> snd (of_vers ?S (my S t) (result_at C j)) \<le> snd (of_ops ?S j)"
        if "cur ?S = my S t" "(j, g, r) \<in> set (t_served ?T)" for j g r using li(5) that by simp
      show "j \<in> fst ` set (t_served ?T)"
        if "cur ?S = my S t" "j < 128" "j < t_i ?T \<or> t_pc ?T' \<in> committing" "of_active ?S j" "of_pub ?S j < my S t"
          "snd (of_vers ?S (my S t) (result_at C j)) \<le> snd (of_ops ?S j)" for j
        using li(6) [of j] that np(2) by simp
      show "t \<in> fst ` set (t_served ?T) \<or> closed C S t" if "t < t_i ?T" using li(7) that by simp
    next
      show "t < t_i ?T" if "t_pc ?T' \<in> committing" using that np(2) by blast
    qed
  qed (rule run)
qed

lemma step_txcur:
  assumes inv: "of_inv C s0 S" and t: "t < 128" and p: "pc S t = P_TxCur"
  shows "of_inv C s0 (transform_step C t S)"
proof -
  have ps: "pc S t \<in> scanning" using p by (simp add: scanning_def)
  note f = scan_facts [OF inv t ps] and sd = scan_invD [OF inv_thread(10) [OF inv t] refl refl refl]
  note u = scan_case [OF inv t f(3)] note tf = transforming_facts [OF inv t u(2)]
  let ?T = "of_thr S t" let ?i = "t_i ?T"
  have p2: "t_pc ?T \<in> {P_OpVal, P_OpSeq2, P_ResSeq, P_ResSeq2, P_TxCur}" "t_pc ?T \<in> {P_ResSeq2, P_TxCur}"
    "t_pc ?T \<in> {P_OpSeq2, P_ResSeq, P_ResSeq2, P_TxCur}" using p by simp_all
  show ?thesis
  proof (cases "t_my ?T = of_curTx S")
    case False
    then have e: "transform_step C t S = again t S" using p by (simp add: transform_step_def Let_def)
    show ?thesis unfolding e by (rule again_inv [OF inv t tf(1,2) my_not_current [OF inv t tf(1) False]])
  next
    case True
    then have c: "cur S = my S t" by simp
    have q: "t_r ?T \<le> t_q ?T" by (rule sd(5) [OF p])
    obtain g where g: "t_f ?T = Some g" "prog_ok C g" using sd(4) [OF p2(2)] q by blast
    have e: "transform_step C t S = set_thr t (\<lambda>T. T\<lparr>t_prog := g, t_pc := P_Run\<rparr>) S"
      using p True g by (simp add: transform_step_def Let_def)
    have r: "snd (of_vers S (my S t) (result_at C ?i)) = t_r ?T" "snd (res C S ?i) = t_r ?T"
      using sd(4) [OF p2(2)] c tf(6) [OF c] by auto
    have o: "snd (of_ops S ?i) = t_q ?T" using sd(2) [OF p2(1)] r q by auto
    have a: "of_active S ?i" using f(2) o r q by (auto simp: op_inv_def closed_def)
    have fn: "fst (of_ops S ?i) = t_f ?T" using sd(3) [OF p2(3) o] r q by simp
    note ru = run_invD [OF inv_thread(12) [OF inv t] refl refl refl refl]
    show ?thesis unfolding e
    proof (rule run_keep [OF inv t])
      show "run_inv C (set_thr t (\<lambda>T. T\<lparr>t_prog := g, t_pc := P_Run\<rparr>) S) t"
        using ru(2,3) u tf(5) g by (auto simp: run_inv_def Let_def running_def transforming_def)
    qed (use p f(1) a fn o r q g in \<open>simp_all add: running_def\<close>)
  qed
qed

lemma run_scan_facts:
  assumes inv: "of_inv C s0 S" and t: "t < 128" and p: "pc S t \<in> running"
  shows "t_upd (of_thr S t) \<Longrightarrow> t_i (of_thr S t) < of_tids S \<and> t_f (of_thr S t) \<noteq> None \<and>
          (cur S = my S t \<longrightarrow> of_active S (t_i (of_thr S t)) \<and> fst (of_ops S (t_i (of_thr S t))) = t_f (of_thr S t) \<and>
             snd (of_vers S (my S t) (result_at C (t_i (of_thr S t)))) \<le> snd (of_ops S (t_i (of_thr S t))))"
  using scan_invD(1,6) [OF inv_thread(10) [OF inv t] refl refl refl] p by blast

lemma step_read:
  assumes inv: "of_inv C s0 S" and t: "t < 128" and p: "pc S t = P_Run" and pr: "t_prog (of_thr S t) = Read a k"
  shows "of_inv C s0 (run_step C t S)"
proof -
  have ps: "pc S t \<in> running" using p by (simp add: running_def)
  note tp = running_sets [OF ps] note tf = transforming_facts [OF inv t tp(1)] and sh = inv_shared [OF inv]
  have e: "run_step C t S = set_thr t (\<lambda>T. T\<lparr>t_val := fst (of_mem S a), t_pc := P_LoadSeq\<rparr>) S"
    using p pr by (simp add: run_step_def Let_def)
  have "my S t < cur S \<or> my S t = cur S \<and> applied S (my S t)" using tf(4,5) by auto
  then have "of_mem S a = of_vers S (my S t) a \<or> my S t < snd (of_mem S a)"
    using mem_version [OF sh(1,2), of "my S t" a] by auto
  then have v: "snd (of_mem S a) \<le> my S t \<longrightarrow> fst (of_mem S a) = fst (of_vers S (my S t) a)" by auto
  note ru = inv_thread(12) [OF inv t]
  show ?thesis unfolding e
  proof (rule run_keep [OF inv t])
    show "run_inv C (set_thr t (\<lambda>T. T\<lparr>t_val := fst (of_mem S a), t_pc := P_LoadSeq\<rparr>) S) t"
      using ru p pr v by (simp add: run_inv_def Let_def running_def transforming_def split: if_splits)
  qed (use p run_scan_facts [OF inv t ps] in \<open>simp_all add: running_def\<close>)
qed

lemma step_loadseq:
  assumes inv: "of_inv C s0 S" and t: "t < 128" and p: "pc S t = P_LoadSeq"
  shows "of_inv C s0 (run_step C t S)"
proof -
  have ps: "pc S t \<in> running" using p by (simp add: running_def)
  note tp = running_sets [OF ps] note tf = transforming_facts [OF inv t tp(1)] and sh = inv_shared [OF inv]
  note ru = run_invD [OF inv_thread(12) [OF inv t] refl refl refl refl]
  let ?T = "of_thr S t"
  obtain a k where pr: "t_prog ?T = Read a k" and v: "snd (of_mem S a) \<le> my S t \<longrightarrow> t_val ?T = fst (of_vers S (my S t) a)"
    using ru(7) [OF p] by blast
  have ok: "in_region C a" "\<And>v. prog_ok C (k v)" using ru(4) [OF ps] pr by simp_all
  show ?thesis
  proof (cases "my S t < snd (of_mem S a)")
    case True
    then have e: "run_step C t S = again t S" using p pr ok by (simp add: run_step_def Let_def)
    have "my S t < cur S" using True mem_bound [OF sh(1,2), of a] by simp
    then show ?thesis unfolding e by (rule again_inv [OF inv t tf(1,2)])
  next
    case False
    let ?x = "get_word a (t_val ?T) (words_of S t)"
    have e: "run_step C t S = set_thr t (\<lambda>T. T\<lparr>t_prog := k ?x, t_pc := P_Run\<rparr>) S"
      using p pr ok False by (simp add: run_step_def Let_def)
    have "t_val ?T = fst (of_vers S (my S t) a)" using v False by simp
    then have x: "prog_run (t_prog ?T) (overlay (words_of S t) (fst \<circ> of_vers S (my S t))) =
        prog_run (k ?x) (overlay (words_of S t) (fst \<circ> of_vers S (my S t)))" by (simp add: pr overlay_def)
    have "run_inv C (set_thr t (\<lambda>T. T\<lparr>t_prog := k ?x, t_pc := P_Run\<rparr>) S) t"
      using inv_thread(12) [OF inv t] p x ok(2) by (simp add: run_inv_def Let_def running_def transforming_def split: if_splits)
    then show ?thesis unfolding e
      by (intro run_keep [OF inv t]) (use p run_scan_facts [OF inv t ps] in \<open>simp_all add: running_def\<close>)
  qed
qed

lemma step_return_read:
  assumes inv: "of_inv C s0 S" and t: "t < 128" and p: "pc S t = P_Run" and pr: "t_prog (of_thr S t) = Return v" and u: "\<not> t_upd (of_thr S t)"
  shows "of_inv C s0 (run_step C t S)"
proof -
  have ps: "pc S t \<in> running" using p by (simp add: running_def)
  note tf = transforming_facts [OF inv t running_sets(1) [OF ps]] note lf = loaded_facts [OF inv t tf(1)]
  have e: "run_step C t S = set_thr t (\<lambda>T. T\<lparr>t_ret := v, t_pc := P_Idle\<rparr>) S" using p pr u by (simp add: run_step_def Let_def)
  have "own_inv S t" by (rule lf(7))
  then show ?thesis unfolding e
    by (intro local_step [OF inv t] thread_invI) (use u lf(3,8) tf(2) in \<open>simp_all add: mode_inv_def iter_inv_def my_inv_def own_inv_def quiet_defs split: prod.split\<close>)
qed
subsection \<open>The remaining steps of this kind\<close>

lemma committing_sets:
  assumes "p \<in> committing"
  shows "p \<in> transforming" "p \<notin> running" "p \<notin> helping" "p \<noteq> P_Check" "p \<in> loaded" "p \<in> insert P_Scan (scanning \<union> committing)" "p \<notin> scanning" "p \<noteq> P_Recheck"
  using assms by (auto simp: pc_sets)

lemma commit_keep:
  assumes inv: "of_inv C s0 S" and t: "t < 128" and p: "pc S t \<in> committing" "p' \<in> committing"
    and rq: "p' \<in> {P_CommitLog, P_CommitCas} \<Longrightarrow> of_request S t = (my S t + 1, t)"
  shows "of_inv C s0 (set_thr t (\<lambda>T. T\<lparr>t_k := k, t_pc := p'\<rparr>) S)"
proof -
  note u = upd_facts(1) [OF inv t] and np = committing_sets [OF p(1)] and np' = committing_sets [OF p(2)]
  note tf = transforming_facts [OF inv t np(1)]
  have upd: "t_upd (of_thr S t)" using u np by blast
  let ?S = "set_thr t (\<lambda>T. T\<lparr>t_k := k, t_pc := p'\<rparr>) S"
  note li = list_invD [OF inv_thread(11) [OF inv t] refl np(1) upd refl refl refl] and ru = run_invD [OF inv_thread(12) [OF inv t] refl refl refl refl]
  show ?thesis
  proof (rule keep_step [OF inv t tf(1)])
    show "keeps S t (of_thr S t\<lparr>t_k := k, t_pc := p'\<rparr>)" unfolding keeps_def Let_def using np' tf(2) upd rq by simp
    show "copy_inv ?S t" "apply_inv ?S t" using np'(3) by (auto simp: copy_inv_def apply_inv_def Let_def helping_def split: prod.split)
    show "scan_inv C ?S t" using np'(2,7) by (auto simp: scan_inv_def Let_def scanning_def)
    show "run_inv C ?S t" using np' ru(2,3) np(1,2) tf(5) by (auto simp: run_inv_def Let_def running_def)
    show "list_inv C ?S t"
    proof (rule list_invI [OF refl refl refl refl])
      show "distinct (map fst (t_served (of_thr ?S t))) \<and> (\<forall>j\<in>fst ` set (t_served (of_thr ?S t)). j < t_i (of_thr ?S t) \<and> j < 128)
       \<and> (\<forall>j<128. result_at C j \<in> fst ` set (words_of ?S t) \<longleftrightarrow> j \<in> fst ` set (t_served (of_thr ?S t)))
       \<and> (\<forall>j f r. (j, f, r) \<in> set (t_served (of_thr ?S t)) \<longrightarrow> get_word (result_at C j) 0 (words_of ?S t) = r)"
        using li(1-4) by simp
    qed (use li(5-8) p in simp_all)
  qed
qed

text \<open>An empty write set: the operation of the thread has been served by another.\<close>

lemma step_commitcur:
  assumes inv: "of_inv C s0 S" and t: "t < 128" and p: "pc S t = P_CommitCur"
  shows "of_inv C s0 (commit_step t S)"
proof -
  have ps: "pc S t \<in> committing" using p by (simp add: committing_def)
  note np = committing_sets [OF ps] note tf = transforming_facts [OF inv t np(1)]
  have upd: "t_upd (of_thr S t)" using upd_facts(1) [OF inv t] np by blast
  note li = list_invD [OF inv_thread(11) [OF inv t] refl np(1) upd refl refl refl] and lf = loaded_facts [OF inv t tf(1)]
  show ?thesis
  proof (cases "of_n S t = 0")
    case True
    then have e: "commit_step t S = goto t P_Done S" using p by (simp add: commit_step_def Let_def)
    have "words_of S t = []" using True by (simp add: words_of_def)
    then have "closed C S t" using li(7,8) li(3) [OF t] ps by auto
    then show ?thesis unfolding e
      by (intro local_step [OF inv t] thread_invI)
        (use upd lf(1-5,7,8) tf(2) in \<open>simp_all add: mode_inv_def iter_inv_def my_inv_def own_inv_def quiet_defs split: prod.split\<close>)
  next
    case False
    show ?thesis
    proof (cases "t_my (of_thr S t) = of_curTx S")
      case True
      then have e: "commit_step t S = set_thr t (\<lambda>T. T\<lparr>t_k := t_k (of_thr S t), t_pc := P_CommitOpen\<rparr>) S"
        using p False by (simp add: commit_step_def Let_def)
      show ?thesis unfolding e by (rule commit_keep [OF inv t ps]) (simp_all add: committing_def)
    next
      case neq: False
      then have e: "commit_step t S = again t S" using p False by (simp add: commit_step_def Let_def)
      show ?thesis unfolding e by (rule again_inv [OF inv t tf(1,2) my_not_current [OF inv t tf(1) neq]])
    qed
  qed
qed

lemma plog_inv: "of_inv C s0 (S\<lparr>of_plog := x\<rparr>) = of_inv C s0 S"
proof -
  have w: "words_of (S\<lparr>of_plog := x\<rparr>) = words_of S" "applied (S\<lparr>of_plog := x\<rparr>) = applied S" "closed C (S\<lparr>of_plog := x\<rparr>) = closed C S"
    "own_open (S\<lparr>of_plog := x\<rparr>) = own_open S" "entry (S\<lparr>of_plog := x\<rparr>) = entry S" "is_log (S\<lparr>of_plog := x\<rparr>) = is_log S"
    by (simp_all add: words_of_def applied_def own_open_def entry_def closed_def is_log_def fun_eq_iff)
  have "shared_inv C s0 (S\<lparr>of_plog := x\<rparr>) = shared_inv C s0 S"
    by (simp add: shared_inv_def hist_inv_def mem_inv_def req_inv_def op_inv_def op_active_def served_inv_def served_at_def w)
  moreover have "thread_inv C s0 (S\<lparr>of_plog := x\<rparr>) t = thread_inv C s0 S t" for t
    by (simp add: thread_inv_def basic_inv_def thr_defs w)
  ultimately show ?thesis by (simp add: of_inv_def)
qed

lemma pnum_inv: "of_inv C s0 (S\<lparr>of_pnum := x\<rparr>) = of_inv C s0 S"
proof -
  have w: "words_of (S\<lparr>of_pnum := x\<rparr>) = words_of S" "applied (S\<lparr>of_pnum := x\<rparr>) = applied S" "closed C (S\<lparr>of_pnum := x\<rparr>) = closed C S"
    "own_open (S\<lparr>of_pnum := x\<rparr>) = own_open S" "entry (S\<lparr>of_pnum := x\<rparr>) = entry S" "is_log (S\<lparr>of_pnum := x\<rparr>) = is_log S"
    by (simp_all add: words_of_def applied_def own_open_def entry_def closed_def is_log_def fun_eq_iff)
  have "shared_inv C s0 (S\<lparr>of_pnum := x\<rparr>) = shared_inv C s0 S"
    by (simp add: shared_inv_def hist_inv_def mem_inv_def req_inv_def op_inv_def op_active_def served_inv_def served_at_def w)
  moreover have "thread_inv C s0 (S\<lparr>of_pnum := x\<rparr>) t = thread_inv C s0 S t" for t
    by (simp add: thread_inv_def basic_inv_def thr_defs w)
  ultimately show ?thesis by (simp add: of_inv_def)
qed

lemma step_commitlog:
  assumes inv: "of_inv C s0 S" and t: "t < 128" and p: "pc S t = P_CommitLog"
  shows "of_inv C s0 (commit_step t S)"
proof -
  have ps: "pc S t \<in> committing" using p by (simp add: committing_def)
  note tf = transforming_facts [OF inv t committing_sets(1) [OF ps]]
  have rq: "of_request S t = (my S t + 1, t)" using loaded_facts(6) [OF inv t tf(1)] p by (simp add: my_facts_def Let_def)
  have commit_loop: "of_thr S t\<lparr>t_k := k, t_pc := P_CommitLog\<rparr> = of_thr S t\<lparr>t_k := k\<rparr>" for k using p by (cases "of_thr S t") simp
  show ?thesis
  proof (cases "t_k (of_thr S t) < of_n S t")
    case True
    then have e: "commit_step t S = (set_thr t (\<lambda>T. T\<lparr>t_k := t_k (of_thr S t) + 1, t_pc := P_CommitLog\<rparr>) S)
        \<lparr>of_plog := (of_plog S)(t := (of_plog S t)(t_k (of_thr S t) := of_log S t (t_k (of_thr S t))))\<rparr>"
      using p by (simp add: commit_step_def Let_def commit_loop)
    show ?thesis unfolding e plog_inv by (rule commit_keep [OF inv t ps]) (simp_all add: committing_def rq)
  next
    case False
    then have e: "commit_step t S = (set_thr t (\<lambda>T. T\<lparr>t_k := t_k (of_thr S t), t_pc := P_CommitCas\<rparr>) S)\<lparr>of_pnum := (of_pnum S)(t := of_n S t)\<rparr>"
      using p by (simp add: commit_step_def Let_def)
    show ?thesis unfolding e pnum_inv by (rule commit_keep [OF inv t ps]) (simp_all add: committing_def rq)
  qed
qed

lemma step_cas_lost:
  assumes inv: "of_inv C s0 S" and t: "t < 128" and p: "pc S t = P_CommitCas" and c: "of_curTx S \<noteq> t_my (of_thr S t)"
  shows "of_inv C s0 (commit_step t S)"
proof -
  have ps: "pc S t \<in> committing" using p by (simp add: committing_def)
  note tf = transforming_facts [OF inv t committing_sets(1) [OF ps]]
  have e: "commit_step t S = again t S" using p c by (simp add: commit_step_def Let_def)
  show ?thesis unfolding e by (rule again_inv [OF inv t tf(1,2) my_not_current [OF inv t tf(1) c [symmetric]]])
qed

lemma step_recheck:
  assumes inv: "of_inv C s0 S" and t: "t < 128" and p: "pc S t = P_Recheck"
  shows "of_inv C s0 (attempt_step C t S)"
proof -
  have l: "pc S t \<in> loaded - {P_Check}" using p by (simp add: pc_sets)
  note lf = loaded_facts [OF inv t l]
  have nc: "\<not> t_commit (of_thr S t)" using inv_thread(1) [OF inv t] p by (auto simp: mode_inv_def Let_def helping_def)
  have w: "words_of S t = []" using inv_thread(12) [OF inv t] p by (simp add: run_inv_def Let_def words_of_def)
  have ap: "applied S (my S t)" using inv_thread(12) [OF inv t] p by (simp add: run_inv_def Let_def)
  show ?thesis
  proof (cases "t_my (of_thr S t) = of_curTx S")
    case False
    then have e: "attempt_step C t S = again t S" using p by (simp add: attempt_step_def Let_def)
    show ?thesis unfolding e by (rule again_inv [OF inv t l nc my_not_current [OF inv t l False]])
  next
    case True
    show ?thesis
    proof (cases "t_upd (of_thr S t)")
      case upd: True
      then have e: "attempt_step C t S = set_thr t (\<lambda>T. T\<lparr>t_i := 0, t_served := [], t_pc := P_Scan\<rparr>) S"
        using p True by (simp add: attempt_step_def Let_def)
      show ?thesis unfolding e
        by (rule keep_step [OF inv t l]) (use upd nc w ap in \<open>simp_all add: keeps_def quiet_defs split: prod.split\<close>)
    next
      case rd: False
      then have e: "attempt_step C t S = set_thr t (\<lambda>T. T\<lparr>t_prog := t_fun T, t_served := [], t_pc := P_Run\<rparr>) S"
        using p True by (simp add: attempt_step_def Let_def)
      show ?thesis unfolding e
        by (rule keep_step [OF inv t l]) (use rd nc w ap lf(1) in \<open>simp_all add: keeps_def quiet_defs split: prod.split\<close>)
    qed
  qed
qed

lemma step_loop_read:
  assumes inv: "of_inv C s0 S" and t: "t < 128" and p: "pc S t = P_Loop" and u: "\<not> t_upd (of_thr S t)"
  shows "of_inv C s0 (attempt_step C t S)"
proof -
  note th = inv_thread [OF inv t]
  have a: "\<not> of_active S t" "prog_ok C (t_fun (of_thr S t))" "t < of_tids S" "\<not> t_commit (of_thr S t)"
    using th(1,2) p u by (simp_all add: mode_inv_def Let_def pc_sets)
  show ?thesis
  proof (cases "t_iter (of_thr S t) < 4")
    case True
    then have e: "attempt_step C t S = goto t P_Load S" using p u by (simp add: attempt_step_def Let_def)
    show ?thesis unfolding e
      by (intro local_step [OF inv t] thread_invI)
        (use u a th(6,7) p in \<open>simp_all add: mode_inv_def iter_inv_def my_inv_def own_inv_def quiet_defs split: prod.split\<close>)
  next
    case False
    then have e: "attempt_step C t S = set_thr t (\<lambda>T. T\<lparr>t_upd := True, t_iter := 0, t_pc := P_Result\<rparr>) S"
      using p u by (simp add: attempt_step_def Let_def)
    show ?thesis unfolding e
      by (intro local_step [OF inv t] thread_invI)
        (use u a th(6,7) p in \<open>simp_all add: mode_inv_def iter_inv_def my_inv_def own_inv_def quiet_defs split: prod.split\<close>)
  qed
qed

lemma step_result:
  assumes inv: "of_inv C s0 S" and t: "t < 128" and p: "pc S t = P_Result"
  shows "of_inv C s0 (announce_step C t S)"
proof -
  note th = inv_thread [OF inv t]
  have a: "\<not> of_active S t" "prog_ok C (t_fun (of_thr S t))" "t < of_tids S" "\<not> t_commit (of_thr S t)" "t_upd (of_thr S t)" "t_iter (of_thr S t) = 0"
    using th(1,2) p by (simp_all add: mode_inv_def Let_def pc_sets)
  have e: "announce_step C t S = set_thr t (\<lambda>T. T\<lparr>t_q := snd (res C S t), t_pc := P_Announce\<rparr>) S"
    using p by (simp add: announce_step_def Let_def)
  show ?thesis unfolding e
    by (intro local_step [OF inv t] thread_invI)
      (use a th(6,7) p in \<open>simp_all add: mode_inv_def iter_inv_def my_inv_def own_inv_def quiet_defs split: prod.split\<close>)
qed

lemma call_update_inv:
  assumes inv: "of_inv C s0 S" and t: "t < 128" and p: "pc S t = P_Idle" "t < of_tids S" "prog_ok C f"
  shows "of_inv C s0 (call_update t f S)"
proof -
  note th = inv_thread [OF inv t]
  have a: "\<not> of_active S t" "\<not> t_commit (of_thr S t)" using th(1) p by (auto simp: mode_inv_def Let_def pc_sets)
  show ?thesis unfolding call_update_def
    by (intro local_step [OF inv t] thread_invI)
      (use a th(6,7) p in \<open>simp_all add: mode_inv_def iter_inv_def my_inv_def own_inv_def quiet_defs split: prod.split\<close>)
qed

end
