(* ===== verification/OneFileShared.thy ===== *)
theory OneFileShared
  imports OneFileSteps
begin

text \<open>
  The steps of OneFile that change what other threads see keep the invariant: stores to a write
  set, requests, the words of the heap, curTx, and announcements. With OneFileSteps this gives
  the invariant for every reachable state.
\<close>

subsection \<open>Steps that change the write set of their thread\<close>

abbreviation with_log :: "nat \<Rightarrow> (nat \<Rightarrow> u64 \<times> u64) \<Rightarrow> nat \<Rightarrow> oftm \<Rightarrow> oftm" where
  "with_log t l n S \<equiv> S\<lparr>of_log := (of_log S)(t := l), of_n := (of_n S)(t := n)\<rparr>"

lemma with_log_shared [simp]:
  "applied (S\<lparr>of_log := x\<rparr>) s = applied S s" "own_open (S\<lparr>of_log := x\<rparr>) u = own_open S u"
  "closed C (S\<lparr>of_log := x\<rparr>) i = closed C S i" "is_log (S\<lparr>of_log := x\<rparr>) s xs = is_log S s xs"
  "applied (S\<lparr>of_n := y\<rparr>) s = applied S s" "own_open (S\<lparr>of_n := y\<rparr>) u = own_open S u"
  "closed C (S\<lparr>of_n := y\<rparr>) i = closed C S i" "is_log (S\<lparr>of_n := y\<rparr>) s xs = is_log S s xs"
  by (simp_all add: applied_def own_open_def closed_def is_log_def)

lemma log_step:
  assumes inv: "of_inv C s0 S" and t: "t < 128" and o: "own_open S t \<Longrightarrow> n = 0 \<and> of_n S t = 0"
    and own: "thread_inv C s0 (set_thr t f (with_log t l n S)) t"
  shows "of_inv C s0 (set_thr t f (with_log t l n S))"
proof (rule step_inv [OF inv t])
  let ?S = "set_thr t f (with_log t l n S)"
  note sh = inv_shared [OF inv]
  have w: "words_of ?S u = words_of S u" if "u \<noteq> t" for u using that by (simp add: words_of_def)
  have "is_log S (cur S) (words_of (with_log t l n S) (snd (of_curTx S)))" if na: "\<not> applied S (cur S)"
  proof (cases "snd (of_curTx S) = t")
    case True
    then have "own_open S t" using na by (simp add: own_open_def)
    then have "words_of (with_log t l n S) t = words_of S t" using o by (simp add: words_of_def)
    then show ?thesis using sh(3) na True by (simp add: req_inv_def)
  next
    case False
    then show ?thesis using sh(3) na w [OF False] by (simp add: req_inv_def)
  qed
  then show "shared_inv C s0 ?S"
    using sh by (simp add: shared_inv_def hist_inv_def mem_inv_def req_inv_def op_inv_def op_active_def served_inv_def served_at_def)
  show "rely C s0 u S ?S" if "u \<noteq> t" for u
    using that o by (auto simp: rely_def)
qed (use own in auto)

text \<open>The write set of a thread is not that of an open request while the thread builds or copies one.\<close>

lemma own_not_open:
  assumes inv: "of_inv C s0 S" and t: "t < 128" and p: "pc S t \<in> loaded - {P_Check}" "\<not> t_commit (of_thr S t)"
    and ap: "applied S (my S t) \<or> snd (t_my (of_thr S t)) \<noteq> t"
  shows "\<not> own_open S t"
proof
  assume o: "own_open S t"
  note f = loaded_facts(6) [OF inv t p(1)]
  have ids: "of_ids S (cur S) = t" using o inv_shared(1) [OF inv] by (simp add: own_open_def hist_inv_def)
  have "my S t \<le> cur S" "of_ids S (my S t) = snd (t_my (of_thr S t))" "\<forall>s'. my S t < s' \<longrightarrow> s' \<le> cur S \<longrightarrow> of_ids S s' \<noteq> t"
    using f p(2) by (simp_all add: my_facts_def Let_def)
  then have "my S t = cur S" using ids by (metis le_neq_implies_less order_refl)
  then show False using ap o ids \<open>of_ids S (my S t) = _\<close> by (auto simp: own_open_def)
qed

lemma log_keep:
  assumes inv: "of_inv C s0 S" and t: "t < 128" and p: "pc S t \<in> loaded - {P_Check}" and k: "keeps S t (f (of_thr S t))"
    and o: "\<not> own_open S t \<or> n = 0 \<and> of_n S t = 0"
    and own: "copy_inv (set_thr t f (with_log t l n S)) t" "apply_inv (set_thr t f (with_log t l n S)) t"
      "scan_inv C (set_thr t f (with_log t l n S)) t" "list_inv C (set_thr t f (with_log t l n S)) t" "run_inv C (set_thr t f (with_log t l n S)) t"
  shows "of_inv C s0 (set_thr t f (with_log t l n S))"
proof (rule log_step [OF inv t], use o in blast, rule thread_invI)
  let ?S = "set_thr t f (with_log t l n S)" and ?T = "of_thr S t" let ?T' = "f ?T"
  note lf = loaded_facts [OF inv t p]
  have T: "of_thr ?S t = ?T'" by simp
  have k1: "t_iter ?T' = t_iter ?T" "t_upd ?T' = t_upd ?T" "t_fun ?T' = t_fun ?T" "t_my ?T' = t_my ?T" "t_help ?T' = t_help ?T" "t_commit ?T' = t_commit ?T" "t_begin ?T' = t_begin ?T"
    and k2: "t_pc ?T' \<in> loaded - {P_Check}" "t_commit ?T \<Longrightarrow> t_pc ?T' \<in> helping" "t_pc ?T' \<in> insert P_Scan (scanning \<union> committing) \<Longrightarrow> t_upd ?T"
      "t_pc ?T' \<in> helping \<Longrightarrow> t_pc ?T \<in> helping" "t_pc ?T' \<in> {P_CommitLog, P_CommitCas} \<Longrightarrow> of_request S t = (fst (t_my ?T) + 1, t)"
    using k unfolding keeps_def Let_def by blast+
  have np: "t_pc ?T' \<notin> {P_Idle, P_Result, P_Announce, P_Publish, P_Loop, P_Load, P_Done, P_Crashed}" using k2(1) by (auto simp: pc_sets)
  show "mode_inv C ?S t"
    unfolding mode_inv_def Let_def T k1 using np k2(1-3) lf(1,3,4) basic_commit [of C S t] inv_thread(1-4) [OF inv t]
    by (auto simp: basic_inv_def)
  show "t < of_tids ?S" using lf(2) by simp
  show "iter_inv ?S t" unfolding iter_inv_def Let_def T k1 using np lf(3,5) k2(1) by auto
  have hp: "t_pc ?T' \<in> insert P_Check helping \<longrightarrow> t_help ?T = (if t_commit ?T then (fst (t_my ?T) + 1, t) else t_my ?T)"
    using lf(6) k2(1,4) unfolding my_facts_def Let_def by blast
  have "t_pc ?T' \<in> {P_CommitLog, P_CommitCas} \<longrightarrow> of_request ?S t = (fst (t_my ?T) + 1, t)" using k2(5) by simp
  with lf(6) hp have "my_facts C s0 ?S t" unfolding my_facts_def Let_def T k1 by simp
  then show "my_inv C s0 ?S t" using inv_thread(6) [OF inv t] k1(7) by (simp add: my_inv_def)
  show "own_inv ?S t" using lf(7) o unfolding own_inv_def T k1 by auto
  show "t_pc (of_thr ?S t) \<in> {P_Announce, P_Publish} \<Longrightarrow> t_q (of_thr ?S t) = snd (res C ?S t)"
    "t_pc (of_thr ?S t) = P_Done \<Longrightarrow> closed C ?S t" using np unfolding T by auto
qed (use own in simp_all)

text \<open>The write set is emptied at the start of an attempt, and after helping.\<close>

lemma own_quiet:
  assumes inv: "of_inv C s0 S" and t: "t < 128" and "\<not> t_commit (of_thr S t)"
  shows "own_open S t \<Longrightarrow> 0 = (0::nat) \<and> of_n S t = 0"
  using inv_thread(7) [OF inv t] assms(3) by (simp add: own_inv_def)

lemma clear_eq: "S\<lparr>of_n := (of_n S)(t := 0)\<rparr> = with_log t (of_log S t) 0 S"
  by simp

lemma step_loop_update:
  assumes inv: "of_inv C s0 S" and t: "t < 128" and p: "pc S t = P_Loop" and u: "t_upd (of_thr S t)"
  shows "of_inv C s0 (attempt_step C t S)"
proof -
  note th = inv_thread [OF inv t]
  have a: "of_active S t" "prog_ok C (t_fun (of_thr S t))" "t < of_tids S" "\<not> t_commit (of_thr S t)" "fst (of_ops S t) = Some (t_fun (of_thr S t))"
    using th(1,2) p u by (simp_all add: mode_inv_def Let_def pc_sets)
  have it: "t_iter (of_thr S t) \<le> 3" "of_pub S t + t_iter (of_thr S t) \<le> cur S" "t_begin (of_thr S t) \<le> of_pub S t"
    using th(5) p a by (simp_all add: iter_inv_def Let_def)
  have e: "attempt_step C t S = set_thr t (\<lambda>T. T\<lparr>t_pc := P_Load\<rparr>) (with_log t (of_log S t) 0 S)"
    using p u it by (simp add: attempt_step_def Let_def)
  show ?thesis unfolding e
    by (rule log_step [OF inv t own_quiet [OF inv t a(4)]], assumption, rule thread_invI)
      (use u a it in \<open>simp_all add: mode_inv_def iter_inv_def my_inv_def own_inv_def quiet_defs split: prod.split\<close>)
qed

lemma call_read_inv:
  assumes inv: "of_inv C s0 S" and t: "t < 128" and p: "pc S t = P_Idle" "t < of_tids S" "prog_ok C f"
  shows "of_inv C s0 (call_read t f S)"
proof -
  have a: "\<not> of_active S t" "\<not> t_commit (of_thr S t)" using inv_thread(1) [OF inv t] p by (auto simp: mode_inv_def Let_def pc_sets)
  have e: "call_read t f S = set_thr t (\<lambda>T. T\<lparr>t_fun := f, t_upd := False, t_iter := 0, t_begin := cur S, t_pc := P_Loop\<rparr>) (with_log t (of_log S t) 0 S)"
    by (simp add: call_read_def)
  show ?thesis unfolding e
    by (rule log_step [OF inv t own_quiet [OF inv t a(2)]], assumption, rule thread_invI)
      (use a p in \<open>simp_all add: mode_inv_def iter_inv_def my_inv_def own_inv_def quiet_defs split: prod.split\<close>)
qed

lemma step_reset:
  assumes inv: "of_inv C s0 S" and t: "t < 128" and p: "pc S t = P_Reset"
  shows "of_inv C s0 (attempt_step C t S)"
proof -
  have l: "pc S t \<in> loaded - {P_Check}" using p by (simp add: pc_sets)
  have nc: "\<not> t_commit (of_thr S t)" using inv_thread(1) [OF inv t] p by (auto simp: mode_inv_def Let_def helping_def)
  have e: "attempt_step C t S = set_thr t (\<lambda>T. T\<lparr>t_pc := P_Recheck\<rparr>) (with_log t (of_log S t) 0 S)"
    using p by (simp add: attempt_step_def Let_def)
  have ap: "applied S (my S t)" using inv_thread(12) [OF inv t] p by (simp add: run_inv_def Let_def)
  show ?thesis unfolding e
    by (rule log_keep [OF inv t l]) (use nc ap own_not_open [OF inv t l nc] in \<open>simp_all add: keeps_def quiet_defs split: prod.split\<close>)
qed

subsection \<open>Copying the write set of another thread\<close>

lemma copying:
  assumes inv: "of_inv C s0 S" and t: "t < 128" and p: "pc S t \<in> {P_Num, P_Copy}" and h: "t_help (of_thr S t) = (seq, idx)"
  shows "idx \<noteq> t" "\<not> own_open S t" "pc S t \<in> loaded - {P_Check}" "\<not> t_commit (of_thr S t)"
proof -
  show i: "idx \<noteq> t" using inv_thread(8) [OF inv t] p h by (auto simp: copy_inv_def)
  show l: "pc S t \<in> loaded - {P_Check}" using p by (auto simp: pc_sets)
  have hm: "pc S t \<in> insert P_Check helping" using p by (auto simp: helping_def)
  have "t_help (of_thr S t) = (if t_commit (of_thr S t) then (my S t + 1, t) else t_my (of_thr S t))"
    using loaded_facts(6) [OF inv t l] hm unfolding my_facts_def Let_def by blast
  then have "\<not> t_commit (of_thr S t) \<and> snd (t_my (of_thr S t)) \<noteq> t" using h i by (metis snd_conv)
  then show "\<not> own_open S t" "\<not> t_commit (of_thr S t)" using own_not_open [OF inv t l] by blast+
qed

lemma step_num:
  assumes inv: "of_inv C s0 S" and t: "t < 128" and p: "pc S t = P_Num"
  shows "of_inv C s0 (help_step t S)"
proof -
  obtain seq idx where h: "t_help (of_thr S t) = (seq, idx)" by fastforce
  have ps: "pc S t \<in> {P_Num, P_Copy}" using p by simp
  note c = copying [OF inv t ps h]
  have k: "t_k (of_thr S t) = 0" using inv_thread(8) [OF inv t] p h by (simp add: copy_inv_def Let_def)
  have e: "help_step t S = set_thr t (\<lambda>T. T\<lparr>t_pc := P_Copy\<rparr>) (with_log t (of_log S t) (of_n S idx) S)"
    using p h by (simp add: help_step_def Let_def)
  show ?thesis unfolding e
    by (rule log_keep [OF inv t c(3)]) (use c k p h in \<open>simp_all add: keeps_def quiet_defs\<close>)
qed

lemma step_copy:
  assumes inv: "of_inv C s0 S" and t: "t < 128" and p: "pc S t = P_Copy" and k: "t_k (of_thr S t) < of_n S t"
  shows "of_inv C s0 (help_step t S)"
proof -
  obtain seq idx where h: "t_help (of_thr S t) = (seq, idx)" by fastforce
  have ps: "pc S t \<in> {P_Num, P_Copy}" using p by simp
  note c = copying [OF inv t ps h]
  let ?k = "t_k (of_thr S t)"
  have ci: "of_request S idx = (seq, idx) \<longrightarrow> of_n S t = of_n S idx \<and> (\<forall>j<?k. of_log S t j = of_log S idx j)"
    using inv_thread(8) [OF inv t] p h by (simp add: copy_inv_def Let_def)
  have e: "help_step t S = set_thr t (\<lambda>T. T\<lparr>t_k := t_k T + 1\<rparr>) (with_log t ((of_log S t)(?k := of_log S idx ?k)) (of_n S t) S)"
    using p h k by (simp add: help_step_def Let_def)
  show ?thesis unfolding e
    by (rule log_keep [OF inv t c(3)]) (use c k p h ci in \<open>auto simp: keeps_def quiet_defs less_Suc_eq\<close>)
qed
subsection \<open>Stores of a body\<close>

lemma words_with_log: "words_of (with_log t (\<lambda>i. if i < length xs then xs ! i else d i) (length xs) S) t = xs"
  by (rule nth_equalityI) (simp_all add: words_of_def)

lemma log_store_eq: "\<exists>l n. log_store t a v S = with_log t l n S \<and> words_of (with_log t l n S) t = put_word a v (words_of S t)"
  unfolding log_store_def Let_def using words_with_log by blast

lemma words_set_thr: "words_of (set_thr t f S) u = words_of S u"
  by simp

lemma step_write:
  assumes inv: "of_inv C s0 S" and t: "t < 128" and cfg: "cfg_ok C" and p: "pc S t = P_Run" and pr: "t_prog (of_thr S t) = Write a v q"
  shows "of_inv C s0 (run_step C t S)"
proof -
  have ps: "pc S t \<in> running" using p by (simp add: running_def)
  note np = running_sets [OF ps] note tf = transforming_facts [OF inv t np(1)]
  note ru = run_invD [OF inv_thread(12) [OF inv t] refl refl refl refl] and rs = run_scan_facts [OF inv t ps]
  let ?T = "of_thr S t" let ?f = "\<lambda>T. T\<lparr>t_prog := q\<rparr>" let ?m = "fst \<circ> of_vers S (my S t)"
  obtain l n where w: "log_store t a v S = with_log t l n S" "words_of (with_log t l n S) t = put_word a v (words_of S t)"
    using log_store_eq by blast
  have e: "run_step C t S = set_thr t ?f (with_log t l n S)" using p pr w(1) by (simp add: run_step_def Let_def)
  let ?S = "set_thr t ?f (with_log t l n S)"
  have ok: "in_region C a" "prog_ok C q" using ru(4) [OF ps] pr by simp_all
  have neq: "result_at C j \<noteq> a" if "j < 128" for j using cfg ok that by (auto simp: cfg_ok_def)
  have no: "\<not> own_open S t" using own_not_open [OF inv t tf(1,2)] tf(5) by blast
  have T: "of_thr ?S t = ?T\<lparr>t_prog := q\<rparr>" by simp
  have W: "words_of ?S t = put_word a v (words_of S t)" using w(2) by simp
  have step: "prog_run (t_prog ?T) (overlay (words_of S t) ?m) = prog_run q (overlay (put_word a v (words_of S t)) ?m)" by (simp add: pr)
  show ?thesis unfolding e
  proof (rule log_keep [OF inv t tf(1)])
    show "keeps S t (?T\<lparr>t_prog := q\<rparr>)" unfolding keeps_def Let_def using np tf(1,2) by simp
    show "\<not> own_open S t \<or> n = 0 \<and> of_n S t = 0" using no by blast
    show "copy_inv ?S t" "apply_inv ?S t" using p by (simp_all add: copy_inv_def apply_inv_def Let_def split: prod.split)
    show "scan_inv C ?S t"
      by (rule scan_invI [OF refl refl refl]; unfold T) (use p rs in \<open>simp_all add: running_def scanning_def\<close>)
    show "run_inv C ?S t"
      using ru(2,5,6) np(1) ps p tf(5) ok step distinct_put_word [of "words_of S t" a v]
      unfolding run_inv_def Let_def T W by (simp add: running_def)
    show "list_inv C ?S t"
    proof (rule list_invI [OF refl refl refl refl]; unfold T W)
      assume u: "t_upd (?T\<lparr>t_prog := q\<rparr>)"
      then have u: "t_upd ?T" by simp
      note li = list_invD [OF inv_thread(11) [OF inv t] refl np(1) u refl refl refl]
      have g: "get_word (result_at C j) 0 (put_word a v (words_of S t)) = r" if "(j, g, r) \<in> set (t_served ?T)" for j g r
      proof -
        have "j \<in> fst ` set (t_served ?T)" using that by force
        then have "j < 128" using li(2) by blast
        then show ?thesis using li(4) [OF that] neq by (simp add: get_word_put)
      qed
      have m: "result_at C j \<in> fst ` set (put_word a v (words_of S t)) \<longleftrightarrow> j \<in> fst ` set (t_served ?T)" if "j < 128" for j
        using li(3) [OF that] neq [OF that] by (simp add: fst_put_word)
      show "distinct (map fst (t_served (?T\<lparr>t_prog := q\<rparr>))) \<and> (\<forall>j\<in>fst ` set (t_served (?T\<lparr>t_prog := q\<rparr>)). j < t_i (?T\<lparr>t_prog := q\<rparr>) \<and> j < 128)
       \<and> (\<forall>j<128. result_at C j \<in> fst ` set (put_word a v (words_of S t)) \<longleftrightarrow> j \<in> fst ` set (t_served (?T\<lparr>t_prog := q\<rparr>)))
       \<and> (\<forall>j f r. (j, f, r) \<in> set (t_served (?T\<lparr>t_prog := q\<rparr>)) \<longrightarrow> get_word (result_at C j) 0 (put_word a v (words_of S t)) = r)"
        using li(1,2) g m by simp
      show "of_active ?S j \<and> fst (of_ops ?S j) = Some g \<and> snd (of_vers ?S (fst (t_my (?T\<lparr>t_prog := q\<rparr>))) (result_at C j)) \<le> snd (of_ops ?S j)"
        if "cur ?S = fst (t_my (?T\<lparr>t_prog := q\<rparr>))" "(j, g, r) \<in> set (t_served (?T\<lparr>t_prog := q\<rparr>))" for j g r using li(5) that by simp
      show "j \<in> fst ` set (t_served (?T\<lparr>t_prog := q\<rparr>))"
        if "cur ?S = fst (t_my (?T\<lparr>t_prog := q\<rparr>))" "j < 128" "j < t_i (?T\<lparr>t_prog := q\<rparr>) \<or> t_pc (?T\<lparr>t_prog := q\<rparr>) \<in> committing" "of_active ?S j"
          "of_pub ?S j < fst (t_my (?T\<lparr>t_prog := q\<rparr>))" "snd (of_vers ?S (fst (t_my (?T\<lparr>t_prog := q\<rparr>))) (result_at C j)) \<le> snd (of_ops ?S j)" for j
        using li(6) [of j] that np(2) by simp
      show "t \<in> fst ` set (t_served (?T\<lparr>t_prog := q\<rparr>)) \<or> closed C ?S t" if "t < t_i (?T\<lparr>t_prog := q\<rparr>)" using li(7) that by simp
    next
      show "t < t_i (?T\<lparr>t_prog := q\<rparr>)" if "t_pc (?T\<lparr>t_prog := q\<rparr>) \<in> committing" using that np(2) by simp
    qed
  qed
qed

lemma step_return_update:
  assumes inv: "of_inv C s0 S" and t: "t < 128" and p: "pc S t = P_Run" and pr: "t_prog (of_thr S t) = Return v" and u: "t_upd (of_thr S t)"
  shows "of_inv C s0 (run_step C t S)"
proof -
  have ps: "pc S t \<in> running" using p by (simp add: running_def)
  note np = running_sets [OF ps] note tf = transforming_facts [OF inv t np(1)]
  note ru = run_invD [OF inv_thread(12) [OF inv t] refl refl refl refl] and rs = run_scan_facts [OF inv t ps u]
  note li = list_invD [OF inv_thread(11) [OF inv t] refl np(1) u refl refl refl]
  let ?T = "of_thr S t" let ?i = "t_i ?T" let ?a = "result_at C ?i" let ?m = "fst \<circ> of_vers S (my S t)"
  let ?sv = "t_served ?T @ [(?i, the (t_f ?T), v)]"
  let ?f = "\<lambda>T. T\<lparr>t_served := t_served T @ [(t_i T, the (t_f T), v)], t_i := t_i T + 1, t_pc := P_Scan\<rparr>"
  obtain l n where w: "log_store t ?a v S = with_log t l n S" "words_of (with_log t l n S) t = put_word ?a v (words_of S t)"
    using log_store_eq by blast
  have e: "run_step C t S = set_thr t ?f (with_log t l n S)" using p pr u w(1) by (simp add: run_step_def Let_def)
  let ?S = "set_thr t ?f (with_log t l n S)"
  have lt: "?i < 128" using rs inv_shared(4) [OF inv] by simp
  have no: "\<not> own_open S t" using own_not_open [OF inv t tf(1,2)] tf(5) by blast
  have T: "of_thr ?S t = ?T\<lparr>t_served := ?sv, t_i := ?i + 1, t_pc := P_Scan\<rparr>" by simp
  have sel: "t_served (of_thr ?S t) = ?sv" "t_i (of_thr ?S t) = ?i + 1" "t_pc (of_thr ?S t) = P_Scan" "t_my (of_thr ?S t) = t_my ?T" by simp_all
  have W: "words_of ?S t = put_word ?a v (words_of S t)" using w(2) by simp
  have fresh: "?i \<notin> fst ` set (t_served ?T)" using li(2) by blast
  have inj: "result_at C j = ?a \<longleftrightarrow> j = ?i" if "j < 128" for j using result_at_inj [OF that lt] by blast
  obtain m1 where m1: "serve_ok C (t_served ?T) ?m m1" "prog_run (the (t_f ?T)) m1 = prog_run (t_prog ?T) (overlay (words_of S t) ?m)"
    using ru(5) [OF ps u] by blast
  then have "prog_run (the (t_f ?T)) m1 = (v, overlay (words_of S t) ?m)" by (simp add: pr)
  then have sok: "serve_ok C ?sv ?m (overlay (put_word ?a v (words_of S t)) ?m)" using m1(1) by (auto simp: serve_ok_append)
  show ?thesis unfolding e
  proof (rule log_keep [OF inv t tf(1)])
    show "keeps S t (?T\<lparr>t_served := ?sv, t_i := ?i + 1, t_pc := P_Scan\<rparr>)" unfolding keeps_def Let_def using u tf(2) by (simp add: pc_sets)
    show "\<not> own_open S t \<or> n = 0 \<and> of_n S t = 0" using no by blast
    show "copy_inv ?S t" "apply_inv ?S t" by (simp_all add: copy_inv_def apply_inv_def Let_def split: prod.split)
    show "scan_inv C ?S t" by (rule scan_invI [OF refl refl refl]; unfold T) (simp_all add: running_def scanning_def)
    show "run_inv C ?S t"
      using ru(2) np(1) tf(5) sok distinct_put_word [of "words_of S t" ?a v]
      unfolding run_inv_def Let_def W sel by (simp add: pc_sets)
    show "list_inv C ?S t"
    proof (rule list_invI [OF refl refl refl refl]; unfold sel W)
      have g: "get_word (result_at C j) 0 (put_word ?a v (words_of S t)) = r" if "(j, g, r) \<in> set ?sv" for j g r
      proof (cases "j = ?i")
        case True
        then have "r = v" using that fresh by (auto simp: image_iff)
        then show ?thesis using True by (simp add: get_word_put)
      next
        case False
        then have j: "(j, g, r) \<in> set (t_served ?T)" using that by auto
        then have "j \<in> fst ` set (t_served ?T)" by force
        then have "j < 128" using li(2) by blast
        then show ?thesis using li(4) [OF j] inj False by (simp add: get_word_put)
      qed
      have m: "result_at C j \<in> fst ` set (put_word ?a v (words_of S t)) \<longleftrightarrow> j \<in> fst ` set ?sv" if "j < 128" for j
        using li(3) [OF that] inj [OF that] by (auto simp: fst_put_word)
      have d: "distinct (map fst ?sv)" using li(1) fresh by simp
      have b: "\<forall>j\<in>fst ` set ?sv. j < ?i + 1 \<and> j < 128" using li(2) lt by force
      show "distinct (map fst ?sv) \<and> (\<forall>j\<in>fst ` set ?sv. j < ?i + 1 \<and> j < 128)
       \<and> (\<forall>j<128. result_at C j \<in> fst ` set (put_word ?a v (words_of S t)) \<longleftrightarrow> j \<in> fst ` set ?sv)
       \<and> (\<forall>j f r. (j, f, r) \<in> set ?sv \<longrightarrow> get_word (result_at C j) 0 (put_word ?a v (words_of S t)) = r)"
        using d b g m by blast
      show "of_active ?S j \<and> fst (of_ops ?S j) = Some g \<and> snd (of_vers ?S (my S t) (result_at C j)) \<le> snd (of_ops ?S j)"
        if c: "cur ?S = my S t" and j: "(j, g, r) \<in> set ?sv" for j g r
      proof (cases "(j, g, r) \<in> set (t_served ?T)")
        case True then show ?thesis using li(5) c by simp
      next
        case False
        then have "j = ?i" "g = the (t_f ?T)" using j by auto
        then show ?thesis using rs c by auto
      qed
      show "j \<in> fst ` set ?sv"
        if "cur ?S = my S t" "j < 128" "j < ?i + 1 \<or> P_Scan \<in> committing" "of_active ?S j" "of_pub ?S j < my S t"
          "snd (of_vers ?S (my S t) (result_at C j)) \<le> snd (of_ops ?S j)" for j
        using li(6) [of j] that by (cases "j = ?i") (auto simp: committing_def)
      show "t \<in> fst ` set ?sv \<or> closed C ?S t" if "t < ?i + 1" using li(7) that by (cases "t = ?i") auto
      show "t < ?i + 1" if "P_Scan \<in> committing" using that by (simp add: committing_def)
    qed
  qed
qed
subsection \<open>Requests\<close>

lemma env_step:
  assumes inv: "of_inv C s0 S" and sh: "shared_inv C s0 S'" and oth: "\<And>u. u < 128 \<Longrightarrow> rely C s0 u S S'" and thr: "of_thr S' = of_thr S"
  shows "of_inv C s0 S'"
proof -
  have "thread_inv C s0 S' u" if u: "u < 128" for u
  proof -
    have "thread_inv C s0 S u" "shared_inv C s0 S" using inv u by (simp_all add: of_inv_def)
    moreover have "hist_inv s0 S'" using sh by (simp add: shared_inv_def)
    ultimately show ?thesis using thread_stable oth [OF u] by blast
  qed
  then show ?thesis using inv sh thr by (simp add: of_inv_def)
qed

abbreviation with_request :: "nat \<Rightarrow> txid \<Rightarrow> oftm \<Rightarrow> oftm" where
  "with_request y r S \<equiv> S\<lparr>of_request := (of_request S)(y := r)\<rparr>"

lemma with_request_shared [simp]:
  "words_of (with_request y r S) u = words_of S u" "entry (with_request y r S) u k = entry S u k"
  "closed C (with_request y r S) i = closed C S i" "is_log (with_request y r S) s xs = is_log S s xs"
  by (simp_all add: words_of_def entry_def closed_def is_log_def)

text \<open>A request changes only to a value that reopens no transaction.\<close>

lemma request_shared:
  assumes sh: "shared_inv C s0 S" and ids: "\<And>s. s0 \<le> s \<Longrightarrow> s \<le> cur S \<Longrightarrow> of_ids S s = y \<Longrightarrow> r \<noteq> (s, y)"
    and mem: "snd (of_curTx S) = y \<Longrightarrow> of_mem S = of_vers S (cur S)"
  shows "shared_inv C s0 (with_request y r S)" "\<And>s. s0 \<le> s \<Longrightarrow> s \<le> cur S \<Longrightarrow> applied S s \<Longrightarrow> applied (with_request y r S) s"
proof -
  let ?S = "with_request y r S"
  have c: "s0 \<le> cur S" "of_ids S (cur S) = snd (of_curTx S)" using sh by (simp_all add: shared_inv_def hist_inv_def)
  show ap: "applied ?S s" if "s0 \<le> s" "s \<le> cur S" "applied S s" for s
    using ids [OF that(1,2)] that(3) by (auto simp: applied_def)
  have bk: "of_mem S = of_vers S (cur S)" if "applied ?S (cur S)"
    using that c mem sh by (cases "snd (of_curTx S) = y") (auto simp: applied_def shared_inv_def mem_inv_def)
  have na: "\<not> applied S (cur S)" if "\<not> applied ?S (cur S)" using ap [OF c(1) order_refl] that by blast
  show "shared_inv C s0 ?S"
    using sh bk na ap
    by (auto simp: shared_inv_def hist_inv_def mem_inv_def req_inv_def op_inv_def op_active_def served_inv_def served_at_def)
qed

lemma request_rely:
  assumes "\<And>s. s0 \<le> s \<Longrightarrow> s \<le> cur S \<Longrightarrow> applied S s \<Longrightarrow> applied (with_request y r S) s"
    "u \<noteq> y \<or> (\<exists>s. s0 \<le> s \<and> s \<le> cur S \<and> of_ids S s = y \<and> of_request S y = (s, y))"
  shows "rely C s0 u S (with_request y r S)"
  using assms by (auto simp: rely_def)

lemma mod_cover:
  assumes "i < (n::nat)" shows "\<exists>j<n. (m + j) mod n = i"
proof -
  let ?j = "(i + n - m mod n) mod n"
  have "(m + ?j) mod n = (m mod n + (i + n - m mod n)) mod n" by (simp add: mod_simps)
  also have "m mod n + (i + n - m mod n) = i + n"
  proof -
    have "m mod n < n" using assms by simp
    then show ?thesis by linarith
  qed
  finally show ?thesis using assms by (intro exI [of _ ?j]) simp
qed

text \<open>Once every entry of the log has been seen applied, the memory is the version.\<close>

lemma all_applied:
  assumes sh: "hist_inv s0 S" "mem_inv S" and lg: "is_log S (cur S) (words_of S t)"
    and al: "\<forall>j<of_n S t. cur S \<le> snd (of_mem S (fst (entry S t j)))"
  shows "of_mem S = of_vers S (cur S)"
proof
  fix a
  have m: "of_mem S a = of_vers S (cur S) a \<or> of_mem S a = of_vers S (cur S - 1) a" using sh(2) by (simp add: mem_inv_def)
  show "of_mem S a = of_vers S (cur S) a"
  proof (cases "a \<in> fst ` set (words_of S t)")
    case False
    then have "of_vers S (cur S) a = of_vers S (cur S - 1) a" using lg by (simp add: is_log_def apply_words_def)
    then show ?thesis using m by simp
  next
    case True
    then obtain i where i: "i < of_n S t" "a = fst (of_log S t i)" by (auto simp: words_of_def)
    obtain j where "j < of_n S t" "(t * 8 + j) mod of_n S t = i" using mod_cover [OF i(1)] by blast
    then have "cur S \<le> snd (of_mem S a)" using al i(2) by (auto simp: entry_def)
    moreover have "1 \<le> cur S" using sh(1) by (simp add: hist_inv_def)
    then have "cur S - 1 < cur S" "cur S - 1 + 1 = cur S" by simp_all
    then have "of_vers S (cur S) a = of_vers S (cur S - 1) a \<or> snd (of_vers S (cur S - 1) a) \<le> cur S - 1"
      using sh(1) unfolding hist_inv_def by (metis (no_types))
    ultimately show ?thesis using m \<open>1 \<le> cur S\<close> by auto
  qed
qed

lemma step_close:
  assumes inv: "of_inv C s0 S" and t: "t < 128" and p: "pc S t = P_Close"
  shows "of_inv C s0 (help_step t S)"
proof -
  obtain seq idx where h: "t_help (of_thr S t) = (seq, idx)" by fastforce
  have hp: "pc S t \<in> helping" using p by (simp add: helping_def)
  note ha = help_applied [OF inv t hp h] and sh = inv_shared [OF inv]
  show ?thesis
  proof (cases "applied S seq")
    case True
    then have "help_step t S = help_return t S" using p h ha(4) by (simp add: help_step_def)
    then show ?thesis using help_return_inv [OF inv t hp] True h by simp
  next
    case False
    then have rq: "of_request S idx = (seq, idx)" using ha(4) by simp
    let ?S = "with_request idx (seq + 1, idx) S"
    have e: "help_step t S = help_return t ?S" using p h rq by (simp add: help_step_def)
    have c: "seq = cur S" using ha(6) [OF False] by blast
    have ai: "is_log S seq (words_of S t)" "\<forall>j<of_n S t. seq \<le> snd (of_mem S (fst (entry S t j)))"
      using apply_invD(1,2) [OF inv_thread(9) [OF inv t]] p h by simp_all
    have mem: "of_mem S = of_vers S (cur S)" by (rule all_applied [OF sh(1,2)]) (use ai c in simp_all)
    have ids: "(seq + 1, idx) \<noteq> (s, idx)" if "s \<le> cur S" for s using that c by auto
    note rs = request_shared [OF _ ids mem, of C s0]
    have s1: "shared_inv C s0 S" using inv by (simp add: of_inv_def)
    have "of_inv C s0 ?S"
    proof (rule env_step [OF inv])
      show "shared_inv C s0 ?S" by (rule request_shared(1) [OF s1 ids mem])
      show "rely C s0 u S ?S" for u
        by (rule request_rely [OF request_shared(2) [OF s1 ids mem]]) (use ha rq in auto)
    qed simp
    moreover have "applied ?S seq" using ha(3) by (simp add: applied_def)
    ultimately show ?thesis unfolding e using p h by (intro help_return_inv [OF _ t]) (simp_all add: helping_def)
  qed
qed

lemma step_commitopen:
  assumes inv: "of_inv C s0 S" and t: "t < 128" and p: "pc S t = P_CommitOpen"
  shows "of_inv C s0 (commit_step t S)"
proof -
  have ps: "pc S t \<in> committing" using p by (simp add: committing_def)
  note np = committing_sets [OF ps] note tf = transforming_facts [OF inv t np(1)]
  let ?r = "(my S t + 1, t)" let ?S = "with_request t ?r S"
  have e: "commit_step t S = set_thr t (\<lambda>T. T\<lparr>t_k := 0, t_pc := P_CommitLog\<rparr>) ?S" using p by (simp add: commit_step_def Let_def)
  have f: "\<forall>s'. my S t < s' \<longrightarrow> s' \<le> cur S \<longrightarrow> of_ids S s' \<noteq> t" using loaded_facts(6) [OF inv t tf(1)] tf(2) by (simp add: my_facts_def Let_def)
  have ids: "?r \<noteq> (s, t)" if "s \<le> cur S" "of_ids S s = t" for s using f that by auto
  have no: "\<not> own_open S t" using own_not_open [OF inv t tf(1,2)] tf(5) by blast
  have mem: "of_mem S = of_vers S (cur S)" if "snd (of_curTx S) = t"
    using no that inv_shared(2) [OF inv] by (simp add: own_open_def mem_inv_def)
  have s1: "shared_inv C s0 S" using inv by (simp add: of_inv_def)
  note ap = request_shared(2) [OF s1 ids mem]
  have "thread_inv C s0 ?S t"
  proof (rule thread_invI)
    note th = inv_thread [OF inv t]
    have nos: "\<not> own_open ?S t"
    proof
      assume "own_open ?S t"
      then have "snd (of_curTx S) = t" "of_ids S (cur S) = t" "?r = (cur S, t)"
        using inv_shared(1) [OF inv] by (auto simp: own_open_def applied_def hist_inv_def)
      then show False using ids [of "cur S"] by simp
    qed
    then show "own_inv ?S t" by (simp add: own_inv_def)
    show "mode_inv C ?S t" "iter_inv ?S t" using th(1,5) by (simp_all add: mode_inv_def iter_inv_def)
    show "t < of_tids ?S" using tf(7) by simp
    show "my_inv C s0 ?S t" using th(6) p by (simp add: my_inv_def my_facts_def Let_def)
    show "copy_inv ?S t" "apply_inv ?S t" using p by (simp_all add: copy_inv_def apply_inv_def Let_def split: prod.split)
    show "scan_inv C ?S t" "list_inv C ?S t" using th(10,11) by (simp_all add: scan_inv_def list_inv_def)
    show "run_inv C ?S t" using th(12) ap [of "my S t"] tf(3-5) by (simp add: run_inv_def Let_def)
  qed (use p in simp_all)
  then have "of_inv C s0 ?S"
    by (intro step_inv [OF inv t]) (use request_shared(1) [OF s1 ids mem] request_rely [OF ap] in auto)
  then show ?thesis unfolding e by (rule commit_keep [OF _ t]) (simp_all add: p committing_def)
qed
subsection \<open>The words of the heap\<close>

abbreviation with_word :: "u64 \<Rightarrow> u64 \<times> nat \<Rightarrow> oftm \<Rightarrow> oftm" where
  "with_word a w S \<equiv> S\<lparr>of_mem := (of_mem S)(a := w)\<rparr>"

lemma with_word_shared [simp]:
  "words_of (with_word a w S) u = words_of S u" "entry (with_word a w S) u k = entry S u k"
  "applied (with_word a w S) s = applied S s" "own_open (with_word a w S) u = own_open S u" "is_log (with_word a w S) s xs = is_log S s xs"
  by (simp_all add: words_of_def entry_def applied_def own_open_def is_log_def)

text \<open>A word of the current transaction is brought up to date.\<close>

lemma word_inv:
  assumes inv: "of_inv C s0 S" and old: "snd (of_mem S a) < cur S" and new: "snd (of_vers S (cur S) a) = cur S"
  shows "of_inv C s0 (with_word a (of_vers S (cur S) a) S)"
proof (rule env_step [OF inv])
  let ?w = "of_vers S (cur S) a" let ?S = "with_word a ?w S"
  note sh = inv_shared [OF inv]
  have neq: "of_mem S a \<noteq> ?w" using old new by force
  have le: "snd (of_mem S b) \<le> snd (of_mem ?S b)" for b using old new by simp
  have res: "res C ?S i = res C S i" if "i < 128" "\<not> of_active S i" for i
    using sh(5) [OF that(1)] that(2) neq by (auto simp: op_inv_def)
  have mem: "mem_inv ?S" using sh(2) by (auto simp: mem_inv_def)
  have op: "op_inv C ?S i" if "i < 128" for i
  proof -
    have o: "op_inv C S i" by (rule sh(5) [OF that])
    have "closed C ?S i \<and> res C ?S i = of_vers S (cur S) (result_at C i)" if "\<not> of_active S i"
      using o that res [OF \<open>i < 128\<close> that] by (auto simp: op_inv_def closed_def)
    moreover have "snd (of_ops S i) \<le> snd (res C ?S i)" using o le [of "result_at C i"] by (simp add: op_inv_def)
    ultimately show ?thesis using o unfolding op_inv_def by (simp add: op_active_def)
  qed
  show "shared_inv C s0 ?S"
    using sh mem op by (simp add: shared_inv_def hist_inv_def req_inv_def served_inv_def served_at_def)
  have r: "res C ?S u = res C S u" if "u < 128" "\<not> of_active S u" for u using res that by simp
  show "rely C s0 u S ?S" if u: "u < 128" for u
    using r [OF u] old new by (auto simp: rely_def closed_def)
qed simp

lemma step_dcas:
  assumes inv: "of_inv C s0 S" and t: "t < 128" and p: "pc S t = P_Dcas"
  shows "of_inv C s0 (help_step t S)"
proof -
  obtain seq idx where h: "t_help (of_thr S t) = (seq, idx)" by fastforce
  have hp: "pc S t \<in> helping" using p by (simp add: helping_def)
  note ha = help_applied [OF inv t hp h] and sh = inv_shared [OF inv]
  let ?T = "of_thr S t" let ?k = "t_k ?T" let ?a = "fst (entry S t ?k)"
  have ps: "pc S t \<in> {P_Val, P_Seq, P_Dcas, P_Open, P_Close}" "pc S t \<in> {P_Seq, P_Dcas}" using p by simp_all
  note ad = apply_invD [OF inv_thread(9) [OF inv t]]
  have lg: "is_log S seq (words_of S t)" and k: "?k < of_n S t" and al: "\<forall>j<?k. seq \<le> snd (of_mem S (fst (entry S t j)))"
    using ad(1) [OF ps(1)] ad(2) [OF ps(1)] ad(3) [OF ps(2)] p h by simp_all
  have w: "seq \<le> snd (of_mem S ?a) \<or> of_mem S ?a = (t_val ?T, t_seq ?T)" using ad(6) [OF p refl refl] h by simp
  have en: "entry S t ?k \<in> set (words_of S t)" by (rule entry_in_words [OF k])
  let ?w = "of_vers S seq ?a"
  have val: "?w = (snd (entry S t ?k), seq)"
  proof -
    obtain i where i: "i < length (words_of S t)" "words_of S t ! i = entry S t ?k" using en by (auto simp: in_set_conv_nth)
    have "distinct (map fst (words_of S t))" using lg by (simp add: is_log_def)
    then have "get_word ?a 0 (words_of S t) = snd (words_of S t ! i)" using i by (intro get_word_nth) simp_all
    then show ?thesis using lg en i by (simp add: is_log_def apply_words_def)
  qed
  have pend: "seq \<le> snd (of_mem S ?a) \<or> cur S = seq" using pending_word [OF sh(1,2) lg _ ha(2), of ?a] en by auto
  let ?f = "\<lambda>T. T\<lparr>t_k := t_k T + 1, t_pc := P_Val\<rparr>"
  define S1 where "S1 = (if of_mem S ?a = (t_val ?T, t_seq ?T) then with_word ?a ?w S else S)"
  have e: "help_step t S = set_thr t ?f S1"
    using p h val by (simp add: help_step_def Let_def help_entry_def entry_def S1_def)
  have S1: "of_thr S1 = of_thr S" "words_of S1 u = words_of S u" "entry S1 u j = entry S u j" "of_n S1 = of_n S" "is_log S1 = is_log S" for u j
    by (simp_all add: S1_def is_log_def fun_eq_iff)
  have inv1: "of_inv C s0 S1"
  proof (cases "of_mem S ?a = (t_val ?T, t_seq ?T)")
    case True
    then have lt: "snd (of_mem S ?a) < seq" using ad(7) [OF p] h by simp
    then have c: "cur S = seq" using pend by simp
    have "snd (of_mem S ?a) < cur S" "snd (of_vers S (cur S) ?a) = cur S" using lt c val by simp_all
    then have "of_inv C s0 (with_word ?a (of_vers S (cur S) ?a) S)" by (rule word_inv [OF inv])
    then show ?thesis using True c by (simp add: S1_def)
  next
    case False
    then show ?thesis using inv by (simp add: S1_def)
  qed
  have mem: "seq \<le> snd (of_mem S1 b)" if "seq \<le> snd (of_mem S b) \<or> b = ?a" for b
    using that w val by (auto simp: S1_def)
  have l: "pc S1 t \<in> loaded - {P_Check}" using p by (simp add: S1 pc_sets)
  have al': "\<forall>j<?k + 1. seq \<le> snd (of_mem S1 (fst (entry S1 t j)))"
    using al mem by (auto simp: less_Suc_eq S1)
  show ?thesis unfolding e
    by (rule keep_step [OF inv1 t l]) (use p h lg k al' in \<open>simp_all add: keeps_def quiet_defs S1\<close>)
qed

subsection \<open>Announcements\<close>

abbreviation with_op :: "nat \<Rightarrow> prog option \<times> nat \<Rightarrow> bool \<Rightarrow> nat \<Rightarrow> oftm \<Rightarrow> oftm" where
  "with_op t x b p S \<equiv> S\<lparr>of_ops := (of_ops S)(t := x), of_active := (of_active S)(t := b), of_pub := (of_pub S)(t := p)\<rparr>"

lemma with_op_shared [simp]:
  "words_of (S\<lparr>of_ops := x\<rparr>) u = words_of S u" "entry (S\<lparr>of_ops := x\<rparr>) u k = entry S u k"
  "applied (S\<lparr>of_ops := x\<rparr>) s = applied S s" "own_open (S\<lparr>of_ops := x\<rparr>) u = own_open S u" "is_log (S\<lparr>of_ops := x\<rparr>) s xs = is_log S s xs"
  "words_of (S\<lparr>of_active := y\<rparr>) u = words_of S u" "entry (S\<lparr>of_active := y\<rparr>) u k = entry S u k"
  "applied (S\<lparr>of_active := y\<rparr>) s = applied S s" "own_open (S\<lparr>of_active := y\<rparr>) u = own_open S u" "is_log (S\<lparr>of_active := y\<rparr>) s xs = is_log S s xs"
  "words_of (S\<lparr>of_pub := z\<rparr>) u = words_of S u" "entry (S\<lparr>of_pub := z\<rparr>) u k = entry S u k"
  "applied (S\<lparr>of_pub := z\<rparr>) s = applied S s" "own_open (S\<lparr>of_pub := z\<rparr>) u = own_open S u" "is_log (S\<lparr>of_pub := z\<rparr>) s xs = is_log S s xs"
  by (simp_all add: words_of_def entry_def applied_def own_open_def is_log_def)

lemma op_step:
  assumes inv: "of_inv C s0 S" and t: "t < 128" and cl: "closed C S t" and le: "snd (of_ops S t) \<le> snd x"
    and ch: "snd x \<noteq> snd (of_ops S t) \<Longrightarrow> cur S \<le> p" and pb: "p = of_pub S t \<or> cur S \<le> p" and act: "b \<Longrightarrow> cur S \<le> p"
    and op: "op_inv C (with_op t x b p S) t" and own: "thread_inv C s0 (set_thr t f (with_op t x b p S)) t"
  shows "of_inv C s0 (set_thr t f (with_op t x b p S))"
proof (rule step_inv [OF inv t])
  let ?S = "with_op t x b p S"
  note sh = inv_shared [OF inv]
  have o: "op_inv C ?S i" if "i < 128" for i
  proof (cases "i = t")
    case True then show ?thesis using op by blast
  next
    case False
    then have "op_inv C ?S i = op_inv C S i" by (simp add: op_inv_def op_active_def closed_def)
    then show ?thesis using sh(5) [OF that] by simp
  qed
  have sv: "served_at C ?S i s" if "i < 128" "of_active ?S i" "of_pub ?S i < s" "s \<le> cur S" for i s
  proof (cases "i = t")
    case True then show ?thesis using that act by simp
  next
    case False
    then have "served_at C S i s" using that sh(6) by (simp add: served_inv_def)
    then show ?thesis using False by (simp add: served_at_def)
  qed
  have "served_inv C s0 ?S" unfolding served_inv_def using sv sh(6) by (simp add: served_inv_def)
  then have "shared_inv C s0 ?S"
    using sh(1-4) o by (simp add: shared_inv_def hist_inv_def mem_inv_def req_inv_def)
  then show "shared_inv C s0 (set_thr t f ?S)" by (simp add: set_thr_shared_inv)
  show "rely C s0 u S (set_thr t f ?S)" if "u < 128" "u \<noteq> t" for u
  proof -
    let ?S' = "set_thr t f ?S"
    have 1: "\<forall>i<128. of_ops ?S' i = of_ops S i \<or> closed C S i \<and> snd (of_ops S i) \<le> snd (of_ops ?S' i) \<and>
        (snd (of_ops ?S' i) \<noteq> snd (of_ops S i) \<longrightarrow> cur S \<le> of_pub ?S' i)"
      using cl le ch by simp
    have 2: "\<forall>i<128. of_pub ?S' i = of_pub S i \<or> cur S \<le> of_pub ?S' i" using pb by simp
    have 3: "\<forall>i<128. of_active S i \<longrightarrow> \<not> closed C S i \<longrightarrow> of_active ?S' i" using cl by auto
    have 4: "\<forall>i<128. of_active ?S' i \<longrightarrow> of_pub ?S' i < cur S \<longrightarrow> of_active S i \<and> of_ops ?S' i = of_ops S i"
      using act by (auto simp: not_less [symmetric])
    show ?thesis
      unfolding rely_def by (intro conjI; (rule 1 2 3 4 | (use that in simp)))
  qed
qed (use own in auto)

lemma with_op_id: "S\<lparr>of_ops := (of_ops S)(t := x)\<rparr> = with_op t x (of_active S t) (of_pub S t) S"
  "S\<lparr>of_active := (of_active S)(t := b)\<rparr> = with_op t (of_ops S t) b (of_pub S t) S"
  by simp_all

lemma step_announce:
  assumes inv: "of_inv C s0 S" and t: "t < 128" and p: "pc S t = P_Announce"
  shows "of_inv C s0 (announce_step C t S)"
proof -
  note th = inv_thread [OF inv t] and o = inv_shared(5) [OF inv t]
  have a: "\<not> of_active S t" "prog_ok C (t_fun (of_thr S t))" "t < of_tids S" "\<not> t_commit (of_thr S t)" "t_upd (of_thr S t)" "t_iter (of_thr S t) = 0"
    using th(1,2) p by (simp_all add: mode_inv_def Let_def pc_sets)
  have cl: "closed C S t" using o a by (simp add: op_inv_def)
  let ?x = "(Some (t_fun (of_thr S t)), snd (of_ops S t))"
  have e: "announce_step C t S = set_thr t (\<lambda>T. T\<lparr>t_pc := P_Publish\<rparr>) (with_op t ?x (of_active S t) (of_pub S t) S)"
    using p by (simp add: announce_step_def Let_def)
  show ?thesis unfolding e
  proof (rule op_step [OF inv t cl])
    show "op_inv C (with_op t ?x (of_active S t) (of_pub S t) S) t" using o a by (auto simp: op_inv_def closed_def)
    show "thread_inv C s0 (set_thr t (\<lambda>T. T\<lparr>t_pc := P_Publish\<rparr>) (with_op t ?x (of_active S t) (of_pub S t) S)) t"
      by (rule thread_invI)
        (use a th(3,6,7) p in \<open>simp_all add: mode_inv_def iter_inv_def my_inv_def own_inv_def quiet_defs split: prod.split\<close>)
  qed (use a in simp_all)
qed

lemma step_publish:
  assumes inv: "of_inv C s0 S" and t: "t < 128" and p: "pc S t = P_Publish"
  shows "of_inv C s0 (announce_step C t S)"
proof -
  note th = inv_thread [OF inv t] and o = inv_shared(5) [OF inv t] and sh = inv_shared [OF inv]
  have a: "\<not> of_active S t" "prog_ok C (t_fun (of_thr S t))" "t < of_tids S" "\<not> t_commit (of_thr S t)" "t_upd (of_thr S t)" "t_iter (of_thr S t) = 0"
    "fst (of_ops S t) = Some (t_fun (of_thr S t))" using th(1,2) p by (simp_all add: mode_inv_def Let_def pc_sets)
  have cl: "closed C S t" "res C S t = of_vers S (cur S) (result_at C t)" using o a by (simp_all add: op_inv_def)
  have q: "t_q (of_thr S t) = snd (res C S t)" using th(3) p by simp
  let ?x = "(fst (of_ops S t), t_q (of_thr S t))"
  have e: "announce_step C t S = set_thr t (\<lambda>T. T\<lparr>t_pc := P_Loop\<rparr>) (with_op t ?x True (cur S) S)"
    using p by (simp add: announce_step_def Let_def)
  have old: "snd (of_vers S s (result_at C t)) \<le> snd (res C S t)" if "s \<le> cur S" for s
    using vers_change [OF sh(1) that order_refl, of "result_at C t"] cl(2) by auto
  have le: "snd (res C S t) \<le> cur S" by (rule mem_bound [OF sh(1,2)])
  show ?thesis unfolding e
  proof (rule op_step [OF inv t cl(1)])
    show "op_inv C (with_op t ?x True (cur S) S) t"
      using a q le old cl(2) by (fastforce simp: op_inv_def op_active_def)
    show "thread_inv C s0 (set_thr t (\<lambda>T. T\<lparr>t_pc := P_Loop\<rparr>) (with_op t ?x True (cur S) S)) t"
      by (rule thread_invI)
        (use a th(6,7) p in \<open>simp_all add: mode_inv_def iter_inv_def my_inv_def own_inv_def quiet_defs split: prod.split\<close>)
  qed (use q cl(1) in \<open>simp_all add: closed_def\<close>)
qed

lemma step_done:
  assumes inv: "of_inv C s0 S" and t: "t < 128" and p: "pc S t = P_Done"
  shows "of_inv C s0 (announce_step C t S)"
proof -
  note th = inv_thread [OF inv t] and o = inv_shared(5) [OF inv t] and sh = inv_shared [OF inv]
  have cl: "closed C S t" using th(4) p by simp
  have a: "\<not> t_commit (of_thr S t)" using th(1) p by (auto simp: mode_inv_def Let_def pc_sets)
  have e: "announce_step C t S = set_thr t (\<lambda>T. T\<lparr>t_ret := fst (res C S t), t_pc := P_Idle\<rparr>) (with_op t (of_ops S t) False (of_pub S t) S)"
    using p by (simp add: announce_step_def Let_def)
  have "res C S t = of_vers S (cur S) (result_at C t) \<or> res C S t = of_vers S (cur S - 1) (result_at C t)" using sh(2) by (simp add: mem_inv_def)
  then have r: "res C S t = of_vers S (cur S) (result_at C t)"
    using o cl by (auto simp: op_inv_def closed_def dest!: spec [of _ "cur S - 1"])
  show ?thesis unfolding e
  proof (rule op_step [OF inv t cl])
    show "op_inv C (with_op t (of_ops S t) False (of_pub S t) S) t" using o cl r by (simp add: op_inv_def closed_def)
    show "thread_inv C s0 (set_thr t (\<lambda>T. T\<lparr>t_ret := fst (res C S t), t_pc := P_Idle\<rparr>) (with_op t (of_ops S t) False (of_pub S t) S)) t"
      by (rule thread_invI)
        (use a th(6,7) p in \<open>simp_all add: mode_inv_def iter_inv_def my_inv_def own_inv_def quiet_defs split: prod.split\<close>)
  qed simp_all
qed

lemma register_inv:
  assumes inv: "of_inv C s0 S" and n: "of_tids S \<le> n" "n \<le> 128"
  shows "of_inv C s0 (S\<lparr>of_tids := n\<rparr>)"
proof (rule env_step [OF inv])
  have w: "words_of (S\<lparr>of_tids := n\<rparr>) = words_of S" "applied (S\<lparr>of_tids := n\<rparr>) = applied S" "closed C (S\<lparr>of_tids := n\<rparr>) = closed C S"
    "is_log (S\<lparr>of_tids := n\<rparr>) = is_log S" by (simp_all add: words_of_def applied_def closed_def is_log_def fun_eq_iff)
  note sh = inv_shared [OF inv]
  have "op_inv C (S\<lparr>of_tids := n\<rparr>) i" if "i < 128" for i using sh(5) [OF that] n unfolding op_inv_def op_active_def w by auto
  then show "shared_inv C s0 (S\<lparr>of_tids := n\<rparr>)"
    using sh n by (simp add: shared_inv_def hist_inv_def mem_inv_def req_inv_def served_inv_def served_at_def w)
  show "rely C s0 u S (S\<lparr>of_tids := n\<rparr>)" for u using n by (simp add: rely_def w)
qed simp
subsection \<open>The commit\<close>

lemma step_cas_won:
  assumes inv: "of_inv C s0 S" and t: "t < 128" and p: "pc S t = P_CommitCas" and won: "of_curTx S = t_my (of_thr S t)"
  shows "of_inv C s0 (commit_step t S)"
proof -
  have ps: "pc S t \<in> committing" using p by (simp add: committing_def)
  note np = committing_sets [OF ps] note tf = transforming_facts [OF inv t np(1)] and sh = inv_shared [OF inv]
  have upd: "t_upd (of_thr S t)" using upd_facts(1) [OF inv t] np by blast
  note li = list_invD [OF inv_thread(11) [OF inv t] refl np(1) upd refl refl refl] and lf = loaded_facts [OF inv t tf(1)]
  note ru = run_invD [OF inv_thread(12) [OF inv t] refl refl refl refl]
  let ?T = "of_thr S t" let ?s = "cur S" let ?xs = "words_of S t" let ?sv = "t_served ?T"
  define W where "W = apply_words (?s + 1) ?xs (of_vers S ?s)"
  have my: "my S t = ?s" using won by simp
  have mem: "of_mem S = of_vers S ?s" using tf(6) my by simp
  have ap: "applied S ?s" using tf(5) my by simp
  let ?f = "\<lambda>T. T\<lparr>t_help := (?s + 1, t), t_commit := True, t_pc := P_Request\<rparr>"
  define S1 where "S1 = S\<lparr>of_curTx := (?s + 1, t), of_vers := (of_vers S)(?s + 1 := W), of_ids := (of_ids S)(?s + 1 := t),
     of_served := (of_served S)(?s + 1 := ?sv)\<rparr>"
  have e: "commit_step t S = set_thr t ?f S1"
    using p won my by (simp add: commit_step_def Let_def S1_def W_def)
  have f1: "of_curTx S1 = (?s + 1, t)" "of_vers S1 = (of_vers S)(?s + 1 := W)" "of_ids S1 = (of_ids S)(?s + 1 := t)"
    "of_served S1 = (of_served S)(?s + 1 := ?sv)" "of_mem S1 = of_mem S" "of_request S1 = of_request S" "of_ops S1 = of_ops S"
    "of_log S1 = of_log S" "of_n S1 = of_n S" "of_tids S1 = of_tids S" "of_thr S1 = of_thr S" "of_active S1 = of_active S" "of_pub S1 = of_pub S"
    by (simp_all add: S1_def)
  have w1: "words_of S1 u = words_of S u" "closed C S1 i = closed C S i" for u i by (simp_all add: words_of_def closed_def f1)
  have ap1: "applied S1 s = applied S s" if "s \<le> ?s" for s using that by (simp add: applied_def f1)
  have rq: "of_request S t = (?s + 1, t)" using lf(6) p my by (simp add: my_facts_def Let_def)
  have nap: "\<not> applied S1 (?s + 1)" using rq by (simp add: applied_def f1)
  have bound: "snd (of_vers S ?s a) \<le> ?s" for a using sh(1) by (simp add: hist_inv_def)
  have Wa: "W a = of_vers S ?s a \<or> snd (W a) = ?s + 1" for a by (simp add: W_def apply_words_def)
  have Wle: "snd (W a) \<le> ?s + 1" for a using Wa [of a] bound [of a] by auto
  text \<open>What the transaction does to the results.\<close>
  have Wi: "W (result_at C i) = (if i \<in> fst ` set ?sv then (get_word (result_at C i) 0 ?xs, ?s + 1) else of_vers S ?s (result_at C i))"
    if "i < 128" for i using li(3) [OF that] by (simp add: W_def apply_words_def)
  have sv: "of_active S i \<and> snd (of_vers S ?s (result_at C i)) \<le> snd (of_ops S i) \<and> snd (of_ops S i) \<le> ?s" if "i < 128" "i \<in> fst ` set ?sv" for i
    using li(5) [of i] that(2) my sh(5) [OF that(1)] by (auto simp: op_inv_def)
  have snd_eq: "i \<in> fst ` set ?sv \<longleftrightarrow> snd (W (result_at C i)) = ?s + 1" if "i < 128" for i
    using Wi [OF that] bound [of "result_at C i"] by (auto split: if_splits)
  have closes: "snd (of_ops S i) < snd (W (result_at C i))" if "i < 128" "of_active S i" "of_pub S i < ?s" for i
    using li(6) [of i] that my ps Wi [OF that(1)] sh(5) [OF that(1)] by (cases "i \<in> fst ` set ?sv") (auto simp: op_inv_def)
  have hist: "hist_inv s0 S1"
    using sh(1) Wa bound Wle by (auto simp: hist_inv_def f1 less_Suc_eq)
  have dist: "distinct (map fst ?xs)" using ru(2) np(1) by blast
  have req: "req_inv s0 S1"
  proof -
    have "applied S1 s" if "s0 \<le> s" "s < ?s + 1" for s
    proof -
      have "applied S s" using sh(3) that ap by (cases "s = ?s") (auto simp: req_inv_def)
      then show ?thesis using ap1 that by simp
    qed
    then show ?thesis using dist by (simp add: req_inv_def f1 w1 is_log_def W_def)
  qed
  have op: "op_inv C S1 i" if i: "i < 128" for i
  proof -
    have o: "op_inv C S i" by (rule sh(5) [OF i])
    have inact: "W (result_at C i) = of_vers S ?s (result_at C i)" if "\<not> of_active S i" using Wi [OF i] sv [OF i] that by auto
    have act: "op_active C S1 i" if a: "of_active S i"
    proof -
      have oa: "op_active C S i" using o a by (simp add: op_inv_def)
      have "snd (of_ops S i) < snd (((of_vers S)(?s + 1 := W)) s (result_at C i))" if "of_pub S i + 2 \<le> s" "s \<le> ?s + 1" for s
        using oa that closes [OF i a] by (cases "s = ?s + 1") (auto simp: op_active_def)
      moreover have "of_pub S i \<noteq> ?s + 1" using oa by (simp add: op_active_def)
      ultimately show ?thesis using oa by (simp add: op_active_def f1)
    qed
    have froz: "W (result_at C i) = of_vers S s (result_at C i)" if "s \<le> ?s" "snd (of_ops S i) < snd (of_vers S s (result_at C i))" for s
    proof -
      have "of_vers S ?s (result_at C i) = of_vers S s (result_at C i)" using o that by (simp add: op_inv_def)
      then show ?thesis using Wi [OF i] sv [OF i] that(2) by auto
    qed
    show ?thesis
      unfolding op_inv_def f1 w1 using o inact act froz by (auto simp: op_inv_def le_Suc_eq)
  qed
  have served: "served_inv C s0 S1"
  proof -
    have "serve_ok C ?sv (fst \<circ> of_vers S ?s) (fst \<circ> W)" using ru(3) np(1,2) my by (simp add: W_def fst_apply_words)
    then have new: "serves C ?sv (fst \<circ> of_vers S ?s) (fst \<circ> W)" using li(1) by (simp add: serves_def)
    have at: "served_at C S1 i (?s + 1)" if "i < 128" for i
    proof -
      have "fst (of_ops S i) = Some g \<and> fst (W (result_at C i)) = r" if m: "(i, g, r) \<in> set ?sv" for g r
      proof -
        have "i \<in> fst ` set ?sv" using m by force
        then show ?thesis using li(4) [OF m] li(5) [OF _ m] my Wi [OF \<open>i < 128\<close>] by simp
      qed
      then show ?thesis using snd_eq [OF that] by (simp add: served_at_def f1)
    qed
    have old: "served_at C S1 i s" if "i < 128" "of_active S i" "of_pub S i < s" "s \<le> ?s" for i s
    proof -
      have "served_at C S i s" using sh(6) that by (simp add: served_inv_def)
      then show ?thesis using that by (simp add: served_at_def f1)
    qed
    show ?thesis unfolding served_inv_def f1
    proof (intro conjI allI impI)
      fix s assume "s0 \<le> s" "s < fst (?s + 1, t)"
      then show "serves C (((of_served S)(?s + 1 := ?sv)) (s + 1)) (fst \<circ> ((of_vers S)(?s + 1 := W)) s) (fst \<circ> ((of_vers S)(?s + 1 := W)) (s + 1))"
        using new sh(6) by (cases "s = ?s") (auto simp: served_inv_def)
    next
      fix i s assume "i < 128" "of_active S i" "of_pub S i < s" "s \<le> fst (?s + 1, t)"
      then show "served_at C S1 i s" using at old by (cases "s = ?s + 1") auto
    qed
  qed
  have shared: "shared_inv C s0 S1"
    using hist req op served sh(4) mem nap by (auto simp: shared_inv_def mem_inv_def f1)
  have rel: "rely C s0 u S S1" if "u \<noteq> t" for u
    using that ap1 by (simp add: rely_def f1 own_open_def le_Suc_eq)
  have own_t: "snd (of_ops S t) < snd (W (result_at C t))"
  proof (cases "t \<in> fst ` set ?sv")
    case True
    then show ?thesis using Wi [OF t] sv [OF t] by simp
  next
    case False
    then have "closed C S t" using li(7,8) ps by blast
    then show ?thesis using Wi [OF t] False mem by (simp add: closed_def)
  qed
  show ?thesis unfolding e
  proof (rule step_inv [OF inv t])
    show "shared_inv C s0 (set_thr t ?f S1)" using shared by (simp add: set_thr_shared_inv)
    show "rely C s0 u S (set_thr t ?f S1)" if "u \<noteq> t" for u using rel [OF that] that by (simp add: rely_def)
    show "thread_inv C s0 (set_thr t ?f S1) t"
    proof (rule thread_invI)
      show "mode_inv C (set_thr t ?f S1) t" using lf upd by (simp add: mode_inv_def f1 Let_def pc_sets)
      show "iter_inv (set_thr t ?f S1) t" using lf upd by (simp add: iter_inv_def f1 Let_def pc_sets)
      have "of_ids S ?s = snd (t_my ?T)" "s0 \<le> ?s" using sh(1) won by (simp_all add: hist_inv_def)
      then show "my_inv C s0 (set_thr t ?f S1) t"
        using my own_t lf(8) by (simp add: my_inv_def my_facts_def f1 Let_def pc_sets)
      show "own_inv (set_thr t ?f S1) t" by (simp add: own_inv_def f1)
      show "t < of_tids (set_thr t ?f S1)" using lf by (simp add: f1)
    qed (simp_all add: quiet_defs f1)
  qed (simp add: f1)
qed

subsection \<open>Every step keeps the invariant\<close>

lemma of_step_inv:
  assumes inv: "of_inv C s0 S" and cfg: "cfg_ok C" and p: "pc S t \<notin> {P_Idle, P_Crashed}"
  shows "of_inv C s0 (of_step C t S)"
proof -
  have t: "t < 128" using inv p by (auto simp: of_inv_def not_le [symmetric])
  have thr: "pc S t \<notin> {P_Run, P_LoadSeq} \<or> t_prog (of_thr S t) = t_prog (of_thr S t)" by simp
  show ?thesis
  proof (cases "pc S t")
    case P_Loop
    then show ?thesis using step_loop_update [OF inv t] step_loop_read [OF inv t] by (cases "t_upd (of_thr S t)") (simp_all add: of_step_def)
  next
    case P_Copy
    then show ?thesis using step_copy [OF inv t] step_copied [OF inv t] by (cases "t_k (of_thr S t) < of_n S t") (simp_all add: of_step_def)
  next
    case P_Run
    then show ?thesis
      using step_read [OF inv t] step_write [OF inv t cfg] step_return_read [OF inv t] step_return_update [OF inv t]
      by (cases "t_prog (of_thr S t)"; cases "t_upd (of_thr S t)") (simp_all add: of_step_def)
  next
    case P_CommitCas
    then show ?thesis using step_cas_won [OF inv t] step_cas_lost [OF inv t] by (cases "of_curTx S = t_my (of_thr S t)") (simp_all add: of_step_def)
  qed (use p step_result [OF inv t] step_announce [OF inv t] step_publish [OF inv t] step_done [OF inv t] step_load [OF inv t] step_check [OF inv t]
      step_reset [OF inv t] step_recheck [OF inv t] step_request [OF inv t] step_num [OF inv t] step_cur [OF inv t] step_request2 [OF inv t]
      step_val [OF inv t] step_seq [OF inv t] step_dcas [OF inv t] step_open [OF inv t] step_close [OF inv t] step_scan [OF inv t] step_opseq [OF inv t]
      step_opval [OF inv t] step_opseq2 [OF inv t] step_resseq [OF inv t] step_resseq2 [OF inv t] step_txcur [OF inv t] step_loadseq [OF inv t]
      step_commitcur [OF inv t] step_commitopen [OF inv t] step_commitlog [OF inv t] in \<open>simp_all add: of_step_def\<close>)
qed

text \<open>The states transactions start from: closed announcements, and sequence numbers not ahead of curTx.\<close>

definition of_fresh :: "ofcfg \<Rightarrow> (u64 \<Rightarrow> u64 \<times> nat) \<Rightarrow> txid \<Rightarrow> bool" where
  "of_fresh C m curTx \<longleftrightarrow> 1 \<le> fst curTx \<and> (\<forall>a. snd (m a) \<le> fst curTx) \<and> (\<forall>i<128. snd (m (result_at C i)) = 1)"

lemma init_inv:
  assumes "of_fresh C m curTx" shows "of_inv C (fst curTx) (of_init m curTx req pl pn)"
proof -
  let ?S = "of_init m curTx req pl pn"
  have th: "thread_inv C (fst curTx) ?S t" for t
    by (rule thread_invI) (simp_all add: of_init_def thread_new_def mode_inv_def iter_inv_def my_inv_def own_inv_def quiet_defs)
  have "shared_inv C (fst curTx) ?S"
    using assms by (auto simp: of_init_def of_fresh_def shared_inv_def hist_inv_def mem_inv_def req_inv_def op_inv_def served_inv_def closed_def
        is_log_def words_of_def apply_words_def)
  then show ?thesis using th by (simp add: of_inv_def) (simp add: of_init_def thread_new_def)
qed

lemma of_reach_inv:
  assumes "of_reach C (of_init m curTx req pl pn) S" "of_fresh C m curTx" "cfg_ok C"
  shows "of_inv C (fst curTx) S"
  using assms(1)
proof induction
  case of_start
  show ?case by (rule init_inv [OF assms(2)])
next
  case (of_register S n)
  then show ?case using register_inv by blast
next
  case (of_update S t f)
  have "t < 128" using of_update inv_shared(4) [OF of_update.IH] by simp
  then show ?case using call_update_inv of_update by blast
next
  case (of_read S t f)
  have "t < 128" using of_read inv_shared(4) [OF of_read.IH] by simp
  then show ?case using call_read_inv of_read by blast
next
  case (of_thread S t)
  then show ?case using of_step_inv assms(3) by blast
qed

end
