(* ===== verification/OneFileProps.thy ===== *)
theory OneFileProps
  imports OneFileShared
begin

text \<open>
  What OneFile promises, from the invariant of OneFileInv: update transactions take effect once,
  one after the other; reads see the memory of one transaction; every call returns after finitely
  many of its steps; and what recovery does to a log that is being written.
\<close>

subsection \<open>Transaction identifiers\<close>

text \<open>The packing of a transaction identifier in one word loses nothing below its bounds.\<close>

lemma bits_above: "idx < 2 ^ k \<Longrightarrow> k \<le> n \<Longrightarrow> \<not> bit (idx :: u64) n"
proof -
  assume "idx < 2 ^ k" "k \<le> n"
  then have "take_bit n idx = idx"
    by (metis (no_types) le_less_trans less_mask_eq min.absorb2 mask_eq_exp_minus_1 take_bit_eq_mask take_bit_take_bit)
  then show "\<not> bit idx n" by (metis bit_take_bit_iff order_less_irrefl)
qed

lemma transaction_ids_roundtrip:
  assumes "seq < 2 ^ 54" "idx < 2 ^ 10"
  shows "trans2seq (seqidx2trans seq idx) = seq" "trans2idx (seqidx2trans seq idx) = idx"
proof -
  have hi: "\<not> bit seq n" if "54 \<le> n" for n by (rule bits_above [OF assms(1) that])
  have lo: "\<not> bit idx n" if "10 \<le> n" for n by (rule bits_above [OF assms(2) that])
  show "trans2seq (seqidx2trans seq idx) = seq"
  proof (rule bit_eqI)
    fix n
    show "bit (trans2seq (seqidx2trans seq idx)) n \<longleftrightarrow> bit seq n"
      using hi [of n] lo [of "n + 10"] by (auto simp: trans2seq_def seqidx2trans_def bit_simps add.commute not_le intro: ccontr)
  qed
  show "trans2idx (seqidx2trans seq idx) = idx"
  proof (rule bit_eqI)
    fix n
    have m: "(0x3FF :: u64) = mask 10" by (simp add: mask_eq_exp_minus_1)
    show "bit (trans2idx (seqidx2trans seq idx)) n \<longleftrightarrow> bit idx n"
      using lo [of n] unfolding trans2idx_def seqidx2trans_def m by (cases "10 \<le> n") (auto simp: bit_simps)
  qed
qed

subsection \<open>Linearizability\<close>

lemma done_facts:
  assumes inv: "of_inv C s0 S" and t: "t < 128" and p: "pc S t = P_Done"
  shows "closed C S t" "of_active S t" "fst (of_ops S t) = Some (t_fun (of_thr S t))" "t_begin (of_thr S t) \<le> of_pub S t"
    "res C S t = of_vers S (cur S) (result_at C t)"
proof -
  note th = inv_thread [OF inv t] and o = inv_shared(5) [OF inv t] and sh = inv_shared [OF inv]
  show cl: "closed C S t" using th(4) p by simp
  show a: "of_active S t" using th(1) p by (simp add: mode_inv_def Let_def)
  show "fst (of_ops S t) = Some (t_fun (of_thr S t))" using th(1) a by (simp add: mode_inv_def Let_def)
  show "t_begin (of_thr S t) \<le> of_pub S t" using th(5) a by (simp add: iter_inv_def Let_def)
  have "res C S t = of_vers S (cur S) (result_at C t) \<or> res C S t = of_vers S (cur S - 1) (result_at C t)" using sh(2) by (simp add: mem_inv_def)
  then show "res C S t = of_vers S (cur S) (result_at C t)"
    using o cl by (auto simp: op_inv_def closed_def dest!: spec [of _ "cur S - 1"])
qed

lemma served_exactly_once:
  assumes inv: "of_inv C s0 S" and t: "t < 128" and p: "pc S t = P_Done"
  shows "\<exists>!s. of_pub S t < s \<and> s \<le> cur S \<and> t \<in> fst ` set (of_served S s)"
    "\<exists>s. of_pub S t < s \<and> s \<le> cur S \<and> (t, t_fun (of_thr S t), fst (res C S t)) \<in> set (of_served S s)"
proof -
  note d = done_facts [OF inv t p] and o = inv_shared(5) [OF inv t] and sh = inv_shared [OF inv]
  let ?R = "result_at C t" let ?s = "snd (of_vers S (cur S) ?R)"
  have oa: "snd (of_ops S t) \<le> of_pub S t" "of_pub S t \<le> cur S" "snd (of_vers S (of_pub S t) ?R) = snd (of_ops S t)"
    using o d(2) by (simp_all add: op_inv_def op_active_def)
  have lt: "snd (of_ops S t) < ?s" using d(1,5) by (simp add: closed_def)
  have froz: "of_vers S (cur S) ?R = of_vers S s ?R" if "s \<le> cur S" "snd (of_ops S t) < snd (of_vers S s ?R)" for s
    using o that by (simp add: op_inv_def)
  have at: "served_at C S t s" if "of_pub S t < s" "s \<le> cur S" for s using sh(6) t d(2) that by (simp add: served_inv_def)
  have pub: "of_pub S t < ?s" using vers_change [OF sh(1) oa(2) order_refl, of ?R] oa(3) lt by auto
  have le: "?s \<le> cur S" using vers_bound [OF sh(1) order_refl] by simp
  have V: "of_vers S ?s ?R = of_vers S (cur S) ?R" using vers_change [OF sh(1) le order_refl, of ?R] by auto
  have mem: "t \<in> fst ` set (of_served S ?s)" using at [OF pub le] V by (simp add: served_at_def)
  then obtain f r where fr: "(t, f, r) \<in> set (of_served S ?s)" by force
  have "f = t_fun (of_thr S t)" "r = fst (res C S t)" using at [OF pub le] fr V d(3,5) by (auto simp: served_at_def)
  then show "\<exists>s. of_pub S t < s \<and> s \<le> cur S \<and> (t, t_fun (of_thr S t), fst (res C S t)) \<in> set (of_served S s)" using fr pub le by blast
  have uniq: "s = ?s" if "of_pub S t < s" "s \<le> cur S" "t \<in> fst ` set (of_served S s)" for s
  proof -
    have "snd (of_vers S s ?R) = s" using at [OF that(1,2)] that(3) by (simp add: served_at_def)
    then show ?thesis using froz [of s] that(1,2) oa(1) by simp
  qed
  show "\<exists>!s. of_pub S t < s \<and> s \<le> cur S \<and> t \<in> fst ` set (of_served S s)"
    using pub le mem uniq by (intro ex1I [of _ ?s]) blast+
qed

lemma reach_busy:
  assumes "of_reach C (of_init m curTx req pl pn) S" "of_fresh C m curTx" "cfg_ok C" "pc S t \<noteq> P_Idle"
  shows "of_inv C (fst curTx) S" "t < 128"
proof -
  show i: "of_inv C (fst curTx) S" by (rule of_reach_inv [OF assms(1-3)])
  show "t < 128" using i assms(4) by (auto simp: of_inv_def not_le [symmetric])
qed

text \<open>The history only grows.\<close>

lemma again_history [simp]:
  "of_vers (again t S) = of_vers S" "of_served (again t S) = of_served S" "of_curTx (again t S) = of_curTx S"
  "of_vers (help_return t S) = of_vers S" "of_served (help_return t S) = of_served S" "of_curTx (help_return t S) = of_curTx S"
  "of_vers (next_op t S) = of_vers S" "of_served (next_op t S) = of_served S" "of_curTx (next_op t S) = of_curTx S"
  "of_vers (log_store t a v S) = of_vers S" "of_served (log_store t a v S) = of_served S" "of_curTx (log_store t a v S) = of_curTx S"
  by (simp_all add: again_def help_return_def next_op_def log_store_def Let_def)

lemma of_step_history:
  "cur S \<le> cur (of_step C t S) \<and> (\<forall>s\<le>cur S. of_vers (of_step C t S) s = of_vers S s \<and> of_served (of_step C t S) s = of_served S s)"
proof -
  let ?P = "\<lambda>S'. of_vers S' = of_vers S \<and> of_served S' = of_served S \<and> of_curTx S' = of_curTx S"
  have 1: "?P (announce_step C t S)" by (cases "pc S t") (simp_all add: announce_step_def Let_def)
  have 2: "?P (attempt_step C t S)" by (cases "pc S t") (simp_all add: attempt_step_def Let_def)
  have 3: "?P (help_step t S)" by (cases "pc S t") (simp_all add: help_step_def Let_def split: prod.split)
  have 4: "?P (transform_step C t S)" by (cases "pc S t") (simp_all add: transform_step_def Let_def split: option.split)
  have 5: "?P (run_step C t S)" by (cases "pc S t") (simp_all add: run_step_def Let_def split: prog.split)
  have 6: "cur S \<le> cur (commit_step t S) \<and> (\<forall>s\<le>cur S. of_vers (commit_step t S) s = of_vers S s \<and> of_served (commit_step t S) s = of_served S s)"
    by (cases "pc S t") (simp_all add: commit_step_def Let_def)
  show ?thesis unfolding of_step_def Let_def using 1 2 3 4 5 6 by simp
qed

lemma of_reach_history:
  assumes "of_reach C S S'"
  shows "cur S \<le> cur S' \<and> (\<forall>s\<le>cur S. of_vers S' s = of_vers S s \<and> of_served S' s = of_served S s)"
  using assms
proof induction
  case (of_thread S' t)
  then show ?case using of_step_history [of S' C t] by (metis order_trans)
qed (simp_all add: call_update_def call_read_def)

text \<open>
  C2: OneFile's update transactions are serializable: the history starts with the memory that
  recovery left; each transaction s+1 committed since then leaves exactly the words that running
  the functions it served, one after the other, on the words of transaction s leaves, each
  returning the result that is stored for it, and it serves no thread twice; and whenever the last
  transaction is applied (its request is closed), the memory is what that transaction left.
\<close>

theorem onefile_serial:
  assumes "of_reach C (of_init m curTx req pl pn) S" "of_fresh C m curTx" "cfg_ok C"
  shows "of_vers S (fst curTx) = m \<and> fst curTx \<le> cur S
     \<and> (\<forall>s\<in>{fst curTx..<cur S}. serves C (of_served S (s + 1)) (fst \<circ> of_vers S s) (fst \<circ> of_vers S (s + 1)))
     \<and> (applied S (cur S) \<longrightarrow> of_mem S = of_vers S (cur S))"
proof -
  note sh = inv_shared [OF of_reach_inv [OF assms]]
  have "of_vers S (fst curTx) = m" using of_reach_history [OF assms(1)] by (simp add: of_init_def)
  then show ?thesis using sh(1,2,6) by (simp add: hist_inv_def mem_inv_def served_inv_def)
qed

text \<open>
  C3: an update transaction of OneFile takes effect exactly once: when a thread is about to
  return from an update, its function has been served by exactly one transaction committed since
  it was announced, which is since the call began; and the value it returns is the result that
  this transaction computed for it, which serializability says is the function's result on the
  memory the functions before it left.
\<close>

theorem onefile_update_once:
  assumes "of_reach C (of_init m curTx req pl pn) S" "of_fresh C m curTx" "cfg_ok C" "pc S t = P_Done"
  shows "t_begin (of_thr S t) \<le> of_pub S t \<and> (\<exists>!s. of_pub S t < s \<and> s \<le> cur S \<and> t \<in> fst ` set (of_served S s))
     \<and> (\<exists>s. of_pub S t < s \<and> s \<le> cur S \<and> (t, t_fun (of_thr S t), t_ret (of_thr (of_step C t S) t)) \<in> set (of_served S s))"
proof -
  note b = reach_busy [OF assms(1-3), of t, unfolded assms(4), simplified]
  have "t_ret (of_thr (of_step C t S) t) = fst (res C S t)" using assms(4) by (simp add: of_step_def announce_step_def)
  then show ?thesis using served_exactly_once [OF b assms(4)] done_facts(4) [OF b assms(4)] by simp
qed

text \<open>
  C4: a read transaction of OneFile is atomic: the value it returns is the result of its function
  on the memory that one transaction left, whose number lies between the one that was current
  when the call began and the one that is current when it returns, however many transactions are
  committed and applied while the function runs.
\<close>

theorem onefile_read_snapshot:
  assumes "of_reach C (of_init m curTx req pl pn) S" "of_fresh C m curTx" "cfg_ok C"
    "pc S t = P_Run" "t_prog (of_thr S t) = Return v" "\<not> t_upd (of_thr S t)"
  shows "\<exists>s. t_begin (of_thr S t) \<le> s \<and> s \<le> cur S \<and> pc (of_step C t S) t = P_Idle
     \<and> t_ret (of_thr (of_step C t S) t) = fst (prog_run (t_fun (of_thr S t)) (fst \<circ> of_vers S s))"
proof -
  note b = reach_busy [OF assms(1-3), of t, unfolded assms(4), simplified]
  have ret: "pc (of_step C t S) t = P_Idle \<and> t_ret (of_thr (of_step C t S) t) = v" using assms(4-6) by (simp add: of_step_def run_step_def)
  have "pc S t \<in> running" using assms(4) by (simp add: running_def)
  then have "prog_run (t_fun (of_thr S t)) (fst \<circ> of_vers S (my S t)) = prog_run (Return v) (overlay (words_of S t) (fst \<circ> of_vers S (my S t)))"
    using run_invD(6) [OF inv_thread(12) [OF b] refl refl refl refl] assms(5,6) by simp
  moreover have "pc S t \<in> loaded - {P_Check}" using assms(4) by (simp add: pc_sets)
  then have "my_facts C (fst curTx) S t" by (rule loaded_facts(6) [OF b])
  then have "t_begin (of_thr S t) \<le> my S t \<and> my S t \<le> cur S" by (simp add: my_facts_def Let_def)
  ultimately show ?thesis using ret by (intro exI [of _ "my S t"]) simp
qed

subsection \<open>Every call returns\<close>

text \<open>How long a body can run: a load goes on in as many ways as there are words.\<close>

primrec prog_depth :: "prog \<Rightarrow> nat" where
  "prog_depth (Return v) = 0"
| "prog_depth (Read a k) = Suc (Max (range (\<lambda>v. prog_depth (k v))))"
| "prog_depth (Write a v p) = Suc (prog_depth p)"

lemma prog_depth_read: "prog_depth (k v) < prog_depth (Read a k)"
  unfolding prog_depth.simps less_Suc_eq_le by (intro Max_ge) simp_all

text \<open>
  What a thread still has to do, in lexicographic order: a read transaction that becomes an
  update; the attempts left; the phases of an attempt; the operations left to scan, or the steps of
  helpApply; the words left to copy or apply, or the steps of the scan; and the rest of the body.
\<close>

definition attempt_rank :: "ofthread \<Rightarrow> nat" where
  "attempt_rank T = (if t_pc T \<in> {P_Result, P_Announce, P_Publish} then 6 else if t_pc T \<in> {P_Done, P_Idle} then 0
     else if t_iter T < 4 then 5 - t_iter T else if t_pc T = P_Loop then 0 else 1)"

definition phase_rank :: "ofthread \<Rightarrow> nat" where
  "phase_rank T = (case t_pc T of P_Result \<Rightarrow> 22 | P_Announce \<Rightarrow> 21 | P_Publish \<Rightarrow> 20 | P_Loop \<Rightarrow> 19 | P_Load \<Rightarrow> 18 | P_Check \<Rightarrow> 17
     | P_Reset \<Rightarrow> 15 | P_Recheck \<Rightarrow> 14 | P_CommitCur \<Rightarrow> 12 | P_CommitOpen \<Rightarrow> 11 | P_CommitLog \<Rightarrow> 10 | P_CommitCas \<Rightarrow> 9
     | P_Done \<Rightarrow> 1 | P_Idle \<Rightarrow> 0 | P_Crashed \<Rightarrow> 0
     | _ \<Rightarrow> if t_pc T \<in> helping then (if t_commit T then 8 else 16) else 13)"

definition stage_rank :: "ofthread \<Rightarrow> nat \<Rightarrow> nat" where
  "stage_rank T n = (case t_pc T of P_Request \<Rightarrow> 9 | P_Num \<Rightarrow> 8 | P_Copy \<Rightarrow> 7 | P_Cur \<Rightarrow> 6 | P_Request2 \<Rightarrow> 5 | P_Val \<Rightarrow> 4 | P_Seq \<Rightarrow> 4 | P_Dcas \<Rightarrow> 4
     | P_Open \<Rightarrow> 3 | P_Close \<Rightarrow> 2 | P_CommitLog \<Rightarrow> n - t_k T
     | _ \<Rightarrow> if t_pc T \<in> insert P_Scan (scanning \<union> running) then 128 - t_i T else 0)"

definition item_rank :: "ofthread \<Rightarrow> nat \<Rightarrow> nat" where
  "item_rank T n = (case t_pc T of P_Copy \<Rightarrow> n - t_k T | P_Val \<Rightarrow> n - t_k T | P_Seq \<Rightarrow> n - t_k T | P_Dcas \<Rightarrow> n - t_k T
     | P_Scan \<Rightarrow> 9 | P_OpSeq \<Rightarrow> 8 | P_OpVal \<Rightarrow> 7 | P_OpSeq2 \<Rightarrow> 6 | P_ResSeq \<Rightarrow> 5 | P_ResSeq2 \<Rightarrow> 4 | P_TxCur \<Rightarrow> 3 | _ \<Rightarrow> 0)"

definition body_rank :: "ofthread \<Rightarrow> nat" where
  "body_rank T = (case t_pc T of P_Val \<Rightarrow> 2 | P_Seq \<Rightarrow> 1 | P_Run \<Rightarrow> 2 * prog_depth (t_prog T) + 1 | P_LoadSeq \<Rightarrow> 2 * prog_depth (t_prog T) | _ \<Rightarrow> 0)"

definition of_rank :: "oftm \<Rightarrow> nat \<Rightarrow> nat \<times> nat \<times> nat \<times> nat \<times> nat \<times> nat" where
  "of_rank S t = (let T = of_thr S t; n = of_n S t in
     (if t_upd T \<or> t_pc T = P_Idle then 0 else 1, attempt_rank T, phase_rank T, stage_rank T n, item_rank T n, body_rank T))"

definition rank_less :: "((nat \<times> nat \<times> nat \<times> nat \<times> nat \<times> nat) \<times> (nat \<times> nat \<times> nat \<times> nat \<times> nat \<times> nat)) set" where
  "rank_less = less_than <*lex*> less_than <*lex*> less_than <*lex*> less_than <*lex*> less_than <*lex*> less_than"

lemma rank_less_wf: "wf rank_less" "trans rank_less"
  by (auto simp: rank_less_def intro!: wf_lex_prod trans_lex_prod)

lemmas rank_defs = of_rank_def rank_less_def Let_def attempt_rank_def phase_rank_def stage_rank_def item_rank_def body_rank_def pc_sets

lemma again_rank: "pc S t \<in> loaded - {P_Check} \<Longrightarrow> (of_rank (again t S) t, of_rank S t) \<in> rank_less"
  by (cases "pc S t") (auto simp: again_def rank_defs)

lemma help_return_rank: "pc S t \<in> helping \<Longrightarrow> (of_rank (help_return t S) t, of_rank S t) \<in> rank_less"
  by (cases "pc S t") (auto simp: help_return_def rank_defs)

lemma help_return_rank': "pc S t \<in> helping \<Longrightarrow> of_thr S' t = of_thr S t \<Longrightarrow> of_n S' t = of_n S t \<Longrightarrow> (of_rank (help_return t S') t, of_rank S t) \<in> rank_less"
  by (cases "pc S t") (auto simp: help_return_def rank_defs)

lemma next_op_rank: "pc S t \<in> scanning \<Longrightarrow> t_i (of_thr S t) < 128 \<Longrightarrow> (of_rank (next_op t S) t, of_rank S t) \<in> rank_less"
  by (cases "pc S t") (auto simp: next_op_def rank_defs)

lemma announce_rank: "pc S t \<in> {P_Result, P_Announce, P_Publish, P_Done} \<Longrightarrow> t_upd (of_thr S t) \<Longrightarrow> (of_rank (announce_step C t S) t, of_rank S t) \<in> rank_less"
  by (cases "pc S t") (auto simp: announce_step_def rank_defs)

lemma attempt_step_rank:
  assumes p: "pc S t \<in> {P_Loop, P_Load, P_Check, P_Reset, P_Recheck}"
  shows "(of_rank (attempt_step C t S) t, of_rank S t) \<in> rank_less"
proof -
  consider "pc S t = P_Loop" | "pc S t = P_Load" | "pc S t = P_Check" | "pc S t = P_Reset" | "pc S t = P_Recheck" using p by auto
  then show ?thesis
  proof cases
    case 5
    show ?thesis
    proof (cases "t_my (of_thr S t) = of_curTx S")
      case True
      then show ?thesis using 5 by (simp add: attempt_step_def rank_defs)
    next
      case False
      then have "attempt_step C t S = again t S" using 5 by (simp add: attempt_step_def)
      then show ?thesis using again_rank [of S t] 5 by (simp add: loaded_def)
    qed
  qed (simp_all add: attempt_step_def rank_defs)
qed

lemma help_rank:
  assumes p: "pc S t \<in> helping" and ai: "pc S t \<in> {P_Seq, P_Dcas} \<Longrightarrow> t_k (of_thr S t) < of_n S t"
  shows "(of_rank (help_step t S) t, of_rank S t) \<in> rank_less"
proof -
  obtain seq idx where h: "t_help (of_thr S t) = (seq, idx)" by fastforce
  note hr = help_return_rank [OF p] help_return_rank' [OF p]
  show ?thesis
    using p h ai hr
    by (cases "pc S t") (auto simp: help_step_def Let_def helping_def, auto simp: rank_defs)
qed

lemma transform_rank:
  assumes p: "pc S t \<in> insert P_Scan scanning" and i: "pc S t \<in> scanning \<Longrightarrow> t_i (of_thr S t) < 128"
  shows "(of_rank (transform_step C t S) t, of_rank S t) \<in> rank_less"
proof (cases "pc S t \<in> scanning")
  case True
  note n = next_op_rank [OF True i [OF True]]
  have "pc S t \<in> loaded - {P_Check}" using True by (auto simp: pc_sets)
  note a = again_rank [OF this]
  show ?thesis using True n a
    by (cases "pc S t") (auto simp: transform_step_def Let_def scanning_def split: option.split, auto simp: rank_defs)
next
  case False
  then show ?thesis using p by (auto simp: transform_step_def rank_defs)
qed

lemma log_store_thr [simp]: "of_thr (log_store t a v S) = of_thr S"
  by (simp add: log_store_def Let_def)

lemma run_rank:
  assumes p: "pc S t \<in> running" and i: "t_upd (of_thr S t) \<Longrightarrow> t_i (of_thr S t) < 128" and r: "pc S t = P_LoadSeq \<Longrightarrow> \<exists>a k. t_prog (of_thr S t) = Read a k"
  shows "(of_rank (run_step C t S) t, of_rank S t) \<in> rank_less"
proof -
  have "pc S t \<in> loaded - {P_Check}" using p by (auto simp: pc_sets)
  note a = again_rank [OF this]
  consider "pc S t = P_Run" | "pc S t = P_LoadSeq" using p by (auto simp: running_def)
  then show ?thesis
  proof cases
    case 1
    then show ?thesis using i by (cases "t_prog (of_thr S t)") (auto simp: run_step_def rank_defs)
  next
    case 2
    then obtain b k where pr: "t_prog (of_thr S t) = Read b k" using r by blast
    have d: "2 * prog_depth (k v) + 1 < 2 * prog_depth (Read b k)" for v using prog_depth_read [of k v b] by simp
    have "(of_rank (set_thr t (\<lambda>T. T\<lparr>t_prog := k v, t_pc := P_Run\<rparr>) S) t, of_rank S t) \<in> rank_less" for v
      using 2 pr d [of v] by (simp add: rank_defs del: prog_depth.simps)
    then show ?thesis using 2 pr a by (simp add: run_step_def Let_def)
  qed
qed

lemma commit_rank:
  assumes p: "pc S t \<in> committing"
  shows "(of_rank (commit_step t S) t, of_rank S t) \<in> rank_less"
proof -
  have "pc S t \<in> loaded - {P_Check}" using p by (auto simp: pc_sets)
  note a = again_rank [OF this]
  show ?thesis using p a
    by (cases "pc S t") (auto simp: commit_step_def Let_def committing_def, auto simp: rank_defs)
qed

lemma step_rank:
  assumes inv: "of_inv C s0 S" and t: "t < 128" and p: "pc S t \<noteq> P_Idle"
  shows "(of_rank (of_step C t S) t, of_rank S t) \<in> rank_less"
proof -
  note th = inv_thread [OF inv t] and sh = inv_shared [OF inv]
  have nc: "pc S t \<noteq> P_Crashed" using th(1) by (simp add: mode_inv_def Let_def)
  have k: "t_k (of_thr S t) < of_n S t" if "pc S t \<in> {P_Seq, P_Dcas}" using th(9) that unfolding apply_inv_def Let_def by blast
  have i: "t_i (of_thr S t) < 128" if "pc S t \<in> scanning \<or> pc S t \<in> running \<and> t_upd (of_thr S t)"
  proof -
    have "t_i (of_thr S t) < of_tids S" using th(10) that unfolding scan_inv_def Let_def by blast
    then show ?thesis using sh(4) by simp
  qed
  have r: "\<exists>a k. t_prog (of_thr S t) = Read a k" if "pc S t = P_LoadSeq" using run_invD(7) [OF th(12) refl refl refl refl that] by blast
  have u: "t_upd (of_thr S t)" if "pc S t \<in> {P_Result, P_Announce, P_Publish, P_Done}" using th(1) that unfolding mode_inv_def Let_def by blast
  consider "pc S t \<in> {P_Result, P_Announce, P_Publish, P_Done}" | "pc S t \<in> {P_Loop, P_Load, P_Check, P_Reset, P_Recheck}"
    | "pc S t \<in> helping" | "pc S t \<in> insert P_Scan scanning" | "pc S t \<in> running" | "pc S t \<in> committing"
    using p nc by (cases "pc S t") (simp_all add: pc_sets)
  then show ?thesis
  proof cases
    case 1
    then have "of_step C t S = announce_step C t S" by (simp add: of_step_def Let_def)
    then show ?thesis using announce_rank [OF 1 u [OF 1]] by simp
  next
    case 2
    then have "of_step C t S = attempt_step C t S" by (auto simp: of_step_def Let_def)
    then show ?thesis using attempt_step_rank [OF 2] by simp
  next
    case 3
    then have "of_step C t S = help_step t S" by (auto simp: of_step_def Let_def helping_def)
    then show ?thesis using help_rank [OF 3 k] by simp
  next
    case 4
    then have "of_step C t S = transform_step C t S" by (auto simp: of_step_def Let_def scanning_def)
    then show ?thesis using transform_rank [OF 4] i by simp
  next
    case 5
    then have "of_step C t S = run_step C t S" by (auto simp: of_step_def Let_def running_def)
    then show ?thesis using run_rank [OF 5 _ r] i 5 by simp
  next
    case 6
    then have "of_step C t S = commit_step t S" by (auto simp: of_step_def Let_def committing_def)
    then show ?thesis using commit_rank [OF 6] by simp
  qed
qed


text \<open>The steps of other threads leave the rank of a thread alone.\<close>

lemma others_thread:
  assumes "u \<noteq> t" shows "of_thr (of_step C u S) t = of_thr S t \<and> of_n (of_step C u S) t = of_n S t"
proof -
  let ?P = "\<lambda>S'. of_thr S' t = of_thr S t \<and> of_n S' t = of_n S t"
  note d = again_def help_return_def next_op_def log_store_def Let_def
  have "?P (announce_step C u S)" using assms by (cases "pc S u") (simp_all add: announce_step_def Let_def)
  moreover have "?P (attempt_step C u S)" using assms by (cases "pc S u") (simp_all add: attempt_step_def d)
  moreover have "?P (help_step u S)" using assms by (cases "pc S u") (simp_all add: help_step_def d split: prod.split)
  moreover have "?P (transform_step C u S)" using assms by (cases "pc S u") (simp_all add: transform_step_def d split: option.split)
  moreover have "?P (run_step C u S)" using assms by (cases "pc S u") (simp_all add: run_step_def d split: prog.split)
  moreover have "?P (commit_step u S)" using assms by (cases "pc S u") (simp_all add: commit_step_def d)
  ultimately show ?thesis unfolding of_step_def Let_def by simp
qed

lemma others_rank: "u \<noteq> t \<Longrightarrow> of_rank (of_step C u S) t = of_rank S t"
  using others_thread [of u t C S] by (simp add: of_rank_def)

lemma move_rank:
  assumes inv: "of_inv C s0 S" and p: "pc S t \<noteq> P_Idle"
  shows "of_rank (of_move C mv S) t = of_rank S t \<or> (of_rank (of_move C mv S) t, of_rank S t) \<in> rank_less"
    "(of_rank (of_move C (Step t) S) t, of_rank S t) \<in> rank_less"
proof -
  have t: "t < 128" using inv p by (auto simp: of_inv_def not_le [symmetric])
  have nc: "pc S t \<noteq> P_Crashed" using inv_thread(1) [OF inv t] by (simp add: mode_inv_def Let_def)
  show s: "(of_rank (of_move C (Step t) S) t, of_rank S t) \<in> rank_less" using step_rank [OF inv t p] p nc by (simp add: of_move_def)
  show "of_rank (of_move C mv S) t = of_rank S t \<or> (of_rank (of_move C mv S) t, of_rank S t) \<in> rank_less"
  proof (cases mv)
    case (Register n)
    then show ?thesis by (simp add: of_move_def of_rank_def)
  next
    case (Update u f)
    then show ?thesis using p by (cases "u = t") (simp_all add: of_move_def of_rank_def call_update_def)
  next
    case (ReadOnly u f)
    then show ?thesis using p by (cases "u = t") (simp_all add: of_move_def of_rank_def call_read_def)
  next
    case (Step u)
    then show ?thesis using s others_rank [of u t C S] by (cases "u = t") (simp_all add: of_move_def)
  qed
qed

text \<open>A sequence that never goes up in a well-founded order goes down finitely often.\<close>

lemma finitely_many_descents:
  assumes wf: "wf r" "trans r" and step: "\<And>i::nat. f (Suc i) = f i \<or> (f (Suc i), f i) \<in> r"
  shows "finite {i. (f (Suc i), f i) \<in> r}"
proof (rule ccontr)
  assume inf: "infinite {i. (f (Suc i), f i) \<in> r}"
  have down: "f j = f i \<or> (f j, f i) \<in> r" if "i \<le> j" for i j
    using that
  proof (induction j)
    case (Suc j)
    then show ?case using step [of j] wf(2) by (cases "i = Suc j") (auto dest: transD)
  qed simp
  have "\<forall>i. f i \<noteq> x" for x
    using wf(1)
  proof (induction x rule: wf_induct_rule)
    case (less x)
    show ?case
    proof
      fix i
      show "f i \<noteq> x"
      proof
        assume x: "f i = x"
        have "\<exists>j\<ge>i. (f (Suc j), f j) \<in> r" 
          using inf unfolding finite_nat_set_iff_bounded_le by (auto simp: not_le intro: less_imp_le)
        then obtain j where j: "i \<le> j" "(f (Suc j), f j) \<in> r" by blast
        then have "(f (Suc j), x) \<in> r" using down [OF j(1)] x wf(2) by (auto dest: transD)
        then show False using less.IH by blast
      qed
    qed
  qed
  then show False by blast
qed

text \<open>
  C5: OneFile is wait-free: from every state it can reach, in every infinite sequence of moves of
  the threads (registrations, calls, and atomic steps in any order) in which a thread takes
  infinitely many steps, this thread returns from the call it is in, whatever the others do: the
  attempts, the loops over the operations, the copies of write sets and their application, and
  the bodies all end.
\<close>

theorem onefile_wait_free:
  assumes "of_reach C (of_init m curTx req pl pn) S" "of_fresh C m curTx" "cfg_ok C" "infinite {i. mvs i = Step t}"
  shows "\<exists>i. pc (of_run C mvs S i) t = P_Idle"
proof (rule ccontr)
  assume "\<nexists>i. pc (of_run C mvs S i) t = P_Idle"
  then have np: "pc (of_run C mvs S i) t \<noteq> P_Idle" for i by simp
  have inv: "of_inv C (fst curTx) (of_run C mvs S i)" for i
    by (rule of_reach_inv [OF of_reach_run [OF assms(1)] assms(2,3)])
  let ?f = "\<lambda>i. of_rank (of_run C mvs S i) t"
  have "finite {i. (?f (Suc i), ?f i) \<in> rank_less}"
  proof (rule finitely_many_descents [OF rank_less_wf])
    show "?f (Suc i) = ?f i \<or> (?f (Suc i), ?f i) \<in> rank_less" for i using move_rank(1) [OF inv np] by simp
  qed
  moreover have "{i. mvs i = Step t} \<subseteq> {i. (?f (Suc i), ?f i) \<in> rank_less}" using move_rank(2) [OF inv np] by auto
  ultimately show False using assms(4) finite_subset by blast
qed

subsection \<open>Recovery\<close>

text \<open>
  What the persistent log of a thread holds: all of its write set from the moment it tries to
  commit until its transaction is applied; and where the transaction that recovery found is
  still open, words that it left.
\<close>

definition log_written :: "oftm \<Rightarrow> nat \<Rightarrow> bool" where
  "log_written S t \<longleftrightarrow> (let T = of_thr S t in
     (t_commit T \<or> t_pc T = P_CommitCas \<longrightarrow> of_pnum S t = of_n S t \<and> (\<forall>j<of_n S t. of_plog S t j = of_log S t j))
     \<and> (t_pc T = P_CommitLog \<longrightarrow> t_k T \<le> of_n S t \<and> (\<forall>j<t_k T. of_plog S t j = of_log S t j))
     \<and> (own_open S t \<longrightarrow> \<not> t_commit T \<longrightarrow> (\<forall>j<of_pnum S t. fst (of_vers S (cur S) (fst (of_plog S t j))) = snd (of_plog S t j))))"

definition log_fresh :: "(u64 \<Rightarrow> u64 \<times> nat) \<Rightarrow> txid \<Rightarrow> (nat \<Rightarrow> nat \<Rightarrow> u64 \<times> u64) \<Rightarrow> (nat \<Rightarrow> nat) \<Rightarrow> bool" where
  "log_fresh m curTx pl pn \<longleftrightarrow> snd curTx < 128 \<and> (\<forall>j<pn (snd curTx). fst (m (fst (pl (snd curTx) j))) = snd (pl (snd curTx) j))"

lemma others_log:
  assumes "u \<noteq> t" shows "of_log (of_step C u S) t = of_log S t \<and> of_plog (of_step C u S) t = of_plog S t \<and> of_pnum (of_step C u S) t = of_pnum S t"
proof -
  let ?P = "\<lambda>S'. of_log S' t = of_log S t \<and> of_plog S' t = of_plog S t \<and> of_pnum S' t = of_pnum S t"
  note d = again_def help_return_def next_op_def log_store_def Let_def
  have "?P (announce_step C u S)" using assms by (cases "pc S u") (simp_all add: announce_step_def Let_def)
  moreover have "?P (attempt_step C u S)" using assms by (cases "pc S u") (simp_all add: attempt_step_def d)
  moreover have "?P (help_step u S)" using assms by (cases "pc S u") (simp_all add: help_step_def d split: prod.split)
  moreover have "?P (transform_step C u S)" using assms by (cases "pc S u") (simp_all add: transform_step_def d split: option.split)
  moreover have "?P (run_step C u S)" using assms by (cases "pc S u") (simp_all add: run_step_def d split: prog.split)
  moreover have "?P (commit_step u S)" using assms by (cases "pc S u") (simp_all add: commit_step_def d)
  ultimately show ?thesis unfolding of_step_def Let_def by simp
qed

text \<open>Only the request of the current transaction is ever closed, and only its commit makes a thread the owner.\<close>

lemma quiet_requests [simp]:
  "of_request (again t S) = of_request S" "of_request (help_return t S) = of_request S" "of_request (next_op t S) = of_request S"
  "of_request (log_store t a v S) = of_request S"
  by (simp_all add: again_def help_return_def next_op_def log_store_def Let_def)

lemma step_own_open:
  assumes inv: "of_inv C s0 S" and u: "u < 128" and p: "pc S u \<notin> {P_Close, P_CommitOpen, P_CommitCas}"
  shows "of_request (of_step C u S) = of_request S \<and> of_curTx (of_step C u S) = of_curTx S"
proof -
  let ?P = "\<lambda>S'. of_request S' = of_request S \<and> of_curTx S' = of_curTx S"
  have "?P (announce_step C u S)" by (cases "pc S u") (simp_all add: announce_step_def Let_def)
  moreover have "?P (attempt_step C u S)" by (cases "pc S u") (simp_all add: attempt_step_def Let_def)
  moreover have "?P (help_step u S)" using p by (cases "pc S u") (simp_all add: help_step_def Let_def split: prod.split)
  moreover have "?P (transform_step C u S)" by (cases "pc S u") (simp_all add: transform_step_def Let_def split: option.split)
  moreover have "?P (run_step C u S)" by (cases "pc S u") (simp_all add: run_step_def Let_def split: prog.split)
  moreover have "?P (commit_step u S)" using p by (cases "pc S u") (simp_all add: commit_step_def Let_def)
  ultimately show ?thesis unfolding of_step_def Let_def by simp
qed

lemma own_open_iff: "of_inv C s0 S \<Longrightarrow> own_open S t \<longleftrightarrow> snd (of_curTx S) = t \<and> of_request S t = (cur S, t)"
  using inv_shared(1) [of C s0 S] by (auto simp: own_open_def applied_def hist_inv_def)

lemma opens_late:
  assumes inv: "of_inv C s0 S" "of_inv C s0 (of_step C u S)" and u: "u < 128" and o: "own_open (of_step C u S) t"
    and nw: "u = t \<Longrightarrow> pc S u \<notin> {P_CommitOpen, P_CommitCas}"
  shows "own_open S t \<and> of_curTx (of_step C u S) = of_curTx S"
proof -
  let ?S = "of_step C u S"
  have o': "snd (of_curTx ?S) = t" "of_request ?S t = (cur ?S, t)" using o own_open_iff [OF inv(2)] by auto
  have "snd (of_curTx S) = t \<and> of_request S t = (cur S, t) \<and> of_curTx ?S = of_curTx S"
  proof -
    consider "pc S u \<notin> {P_Close, P_CommitOpen, P_CommitCas}" | "pc S u = P_Close" | "pc S u = P_CommitOpen" | "pc S u = P_CommitCas" by auto
    then show ?thesis
    proof cases
      case 1
      then show ?thesis using step_own_open [OF inv(1) u 1] o' by simp
    next
      case 2
      obtain seq idx where h: "t_help (of_thr S u) = (seq, idx)" by fastforce
      have hp: "pc S u \<in> helping" using 2 by (simp add: helping_def)
      note ha = help_applied [OF inv(1) u hp h]
      have e: "of_curTx ?S = of_curTx S" "of_request ?S = (if of_request S idx = (seq, idx) then (of_request S)(idx := (seq + 1, idx)) else of_request S)"
        using 2 h by (simp_all add: of_step_def help_step_def)
      show ?thesis
      proof (cases "of_request S idx = (seq, idx)")
        case True
        then have "seq = cur S" using ha(4,6) by blast
        then show ?thesis using e o' True by (auto split: if_splits)
      next
        case False
        then show ?thesis using e o' by simp
      qed
    next
      case 3
      then have "of_curTx ?S = of_curTx S" "of_request ?S t = of_request S t"
        using nw by (auto simp: of_step_def commit_step_def Let_def)
      then show ?thesis using o' by simp
    next
      case 4
      then have "u \<noteq> t" using nw by blast
      then have "of_curTx S \<noteq> t_my (of_thr S u)" using o'(1) 4 by (auto simp: of_step_def commit_step_def Let_def)
      then have "?S = again u S" using 4 by (simp add: of_step_def commit_step_def Let_def)
      then show ?thesis using o' by simp
    qed
  qed
  then show ?thesis using own_open_iff [OF inv(1)] by blast
qed

lemma others_written:
  assumes inv: "of_inv C s0 S" "of_inv C s0 (of_step C u S)" and u: "u < 128" and n: "u \<noteq> t" and w: "log_written S t"
  shows "log_written (of_step C u S) t"
proof -
  note th = others_thread [OF n, of C S] and lg = others_log [OF n, of C S]
  have "fst (of_vers (of_step C u S) (cur (of_step C u S)) (fst (of_plog S t j))) = snd (of_plog S t j)"
    if "own_open (of_step C u S) t" "\<not> t_commit (of_thr S t)" "j < of_pnum S t" for j
  proof -
    have "own_open S t \<and> of_curTx (of_step C u S) = of_curTx S" using opens_late [OF inv u that(1)] n by blast
    then show ?thesis using w that of_step_history [of S C u] by (simp add: log_written_def Let_def)
  qed
  then show ?thesis using w th lg unfolding log_written_def Let_def by simp
qed

text \<open>The steps of the thread itself.\<close>

lemma commit_written:
  assumes p: "pc S t \<in> {P_CommitOpen, P_CommitLog, P_CommitCas}" and nc: "\<not> t_commit (of_thr S t)" and w: "log_written S t"
  shows "let S' = of_step C t S; T = of_thr S' t in
      (t_commit T \<or> t_pc T = P_CommitCas \<longrightarrow> of_pnum S' t = of_n S' t \<and> (\<forall>j<of_n S' t. of_plog S' t j = of_log S' t j))
     \<and> (t_pc T = P_CommitLog \<longrightarrow> t_k T \<le> of_n S' t \<and> (\<forall>j<t_k T. of_plog S' t j = of_log S' t j))"
proof -
  consider "pc S t = P_CommitOpen" | "pc S t = P_CommitLog" | "pc S t = P_CommitCas" using p by auto
  then show ?thesis
    by cases (use nc w in \<open>auto simp: of_step_def commit_step_def again_def log_written_def Let_def less_Suc_eq\<close>)
qed

lemma other_steps:
  assumes p: "pc S t \<notin> {P_CommitOpen, P_CommitLog, P_CommitCas}"
  shows "of_plog (of_step C t S) t = of_plog S t" "of_pnum (of_step C t S) t = of_pnum S t"
    "pc (of_step C t S) t \<notin> {P_CommitLog, P_CommitCas}" "t_commit (of_thr (of_step C t S) t) \<Longrightarrow> t_commit (of_thr S t)"
proof -
  let ?P = "\<lambda>S'. of_plog S' t = of_plog S t \<and> of_pnum S' t = of_pnum S t \<and> pc S' t \<notin> {P_CommitLog, P_CommitCas}
    \<and> (t_commit (of_thr S' t) \<longrightarrow> t_commit (of_thr S t))"
  note d = again_def help_return_def next_op_def log_store_def Let_def
  have "?P (announce_step C t S)" using p by (cases "pc S t") (simp_all add: announce_step_def Let_def)
  moreover have "?P (attempt_step C t S)" using p by (cases "pc S t") (simp_all add: attempt_step_def d)
  moreover have "?P (help_step t S)" using p by (cases "pc S t") (simp_all add: help_step_def d split: prod.split)
  moreover have "?P (transform_step C t S)" using p by (cases "pc S t") (simp_all add: transform_step_def d split: option.split)
  moreover have "?P (run_step C t S)" using p by (cases "pc S t") (simp_all add: run_step_def d split: prog.split)
  moreover have "?P (commit_step t S)" using p by (cases "pc S t") (simp_all add: commit_step_def d)
  ultimately have "?P (of_step C t S)" unfolding of_step_def Let_def by simp
  then show "of_plog (of_step C t S) t = of_plog S t" "of_pnum (of_step C t S) t = of_pnum S t"
    "pc (of_step C t S) t \<notin> {P_CommitLog, P_CommitCas}" "t_commit (of_thr (of_step C t S) t) \<Longrightarrow> t_commit (of_thr S t)" by blast+
qed

lemma committed_log:
  assumes inv: "of_inv C s0 S" and t: "t < 128" and c: "t_commit (of_thr S t)"
  shows "of_log (of_step C t S) t = of_log S t \<and> of_n (of_step C t S) t = of_n S t"
proof -
  have hp: "pc S t \<in> helping" using inv_thread(1) [OF inv t] c unfolding mode_inv_def Let_def by blast
  then have l: "pc S t \<in> loaded - {P_Check}" "pc S t \<in> insert P_Check helping" by (auto simp: pc_sets)
  have h: "t_help (of_thr S t) = (my S t + 1, t)" using loaded_facts(6) [OF inv t l(1)] l(2) c unfolding my_facts_def Let_def by auto
  have "pc S t \<notin> {P_Num, P_Copy}" using inv_thread(8) [OF inv t] h unfolding copy_inv_def Let_def by auto
  then have "of_log (help_step t S) t = of_log S t \<and> of_n (help_step t S) t = of_n S t"
    using hp h by (cases "pc S t") (simp_all add: help_step_def help_return_def Let_def helping_def)
  moreover have "of_step C t S = help_step t S" using hp by (auto simp: of_step_def helping_def)
  ultimately show ?thesis by simp
qed

lemma committing_not_open: "of_inv C s0 S \<Longrightarrow> t < 128 \<Longrightarrow> pc S t \<in> transforming \<Longrightarrow> \<not> own_open S t"
proof -
  assume a: "of_inv C s0 S" "t < 128" "pc S t \<in> transforming"
  note tf = transforming_facts [OF a]
  show "\<not> own_open S t" using own_not_open [OF a(1,2) tf(1,2)] tf(5) by blast
qed

lemma own_written:
  assumes inv: "of_inv C s0 S" "of_inv C s0 (of_step C t S)" and t: "t < 128" and w: "log_written S t"
  shows "log_written (of_step C t S) t"
proof -
  let ?S = "of_step C t S"
  have "(t_commit (of_thr ?S t) \<or> pc ?S t = P_CommitCas \<longrightarrow> of_pnum ?S t = of_n ?S t \<and> (\<forall>j<of_n ?S t. of_plog ?S t j = of_log ?S t j))
     \<and> (pc ?S t = P_CommitLog \<longrightarrow> t_k (of_thr ?S t) \<le> of_n ?S t \<and> (\<forall>j<t_k (of_thr ?S t). of_plog ?S t j = of_log ?S t j))"
  proof (cases "pc S t \<in> {P_CommitOpen, P_CommitLog, P_CommitCas}")
    case True
    then have "pc S t \<in> transforming" by (auto simp: pc_sets)
    then have "\<not> t_commit (of_thr S t)" by (rule transforming_facts(2) [OF inv(1) t])
    then show ?thesis using commit_written [OF True _ w, of C] by (simp add: Let_def)
  next
    case False
    note o = other_steps [OF False, of C]
    have "of_pnum ?S t = of_n ?S t \<and> (\<forall>j<of_n ?S t. of_plog ?S t j = of_log ?S t j)" if "t_commit (of_thr ?S t)"
      using o(1,2) o(4) [OF that] committed_log [OF inv(1) t o(4) [OF that]] w by (simp add: log_written_def Let_def)
    then show ?thesis using o(3) by blast
  qed
  moreover have "fst (of_vers ?S (cur ?S) (fst (of_plog ?S t j))) = snd (of_plog ?S t j)"
    if a: "own_open ?S t" "\<not> t_commit (of_thr ?S t)" "j < of_pnum ?S t" for j
  proof (cases "pc S t \<in> {P_CommitOpen, P_CommitLog, P_CommitCas}")
    case True
    have "t_commit (of_thr ?S t) \<or> pc ?S t \<in> {P_CommitLog, P_CommitCas} \<or> ?S = again t S"
      using True by (cases "pc S t") (auto simp: of_step_def commit_step_def Let_def)
    moreover have "pc ?S t \<notin> transforming" using committing_not_open [OF inv(2) t] a(1) by blast
    ultimately have e: "?S = again t S" using a(2) by (auto simp: pc_sets)
    have "own_open S t" using a(1) own_open_iff [OF inv(1)] own_open_iff [OF inv(2)] unfolding e by simp
    then show ?thesis using committing_not_open [OF inv(1) t] True by (auto simp: pc_sets)
  next
    case False
    note o = other_steps [OF False, of C]
    have ol: "own_open S t" "of_curTx ?S = of_curTx S" using opens_late [OF inv t a(1)] False by blast+
    show ?thesis
    proof (cases "t_commit (of_thr S t)")
      case True
      have "of_n ?S t = 0" using inv_thread(7) [OF inv(2) t] a(1,2) by (simp add: own_inv_def)
      then have "of_pnum ?S t = 0" using committed_log [OF inv(1) t True] w True o(2) by (simp add: log_written_def Let_def)
      then show ?thesis using a(3) by simp
    next
      case nc: False
      then show ?thesis using w ol a(3) o(1,2) of_step_history [of S C t] by (simp add: log_written_def Let_def)
    qed
  qed
  ultimately show ?thesis unfolding log_written_def Let_def by blast
qed

lemma reach_written:
  assumes "of_reach C (of_init m curTx req pl pn) S" "of_fresh C m curTx" "cfg_ok C" "log_fresh m curTx pl pn"
  shows "snd (of_curTx S) < 128 \<and> (\<forall>t<128. log_written S t)"
  using assms(1)
proof induction
  case of_start
  then show ?case using assms(4) by (auto simp: log_written_def log_fresh_def of_init_def thread_new_def own_open_def)
next
  case (of_register S n)
  have "own_open (S\<lparr>of_tids := n\<rparr>) t = own_open S t" for t by (simp add: own_open_def applied_def)
  then show ?case using of_register by (simp add: log_written_def)
next
  case (of_update S t f)
  have "own_open (call_update t f S) u = own_open S u" for u by (simp add: call_update_def)
  then show ?case using of_update by (auto simp: log_written_def call_update_def Let_def)
next
  case (of_read S t f)
  note inv = of_reach_inv [OF of_read.hyps(1) assms(2,3)]
  have t: "t < 128" using of_read.hyps(3) inv_shared(4) [OF inv] by simp
  have nc: "\<not> t_commit (of_thr S t)" using inv_thread(1) [OF inv t] of_read.hyps(2) by (auto simp: mode_inv_def Let_def helping_def)
  have "own_open (call_read t f S) u = own_open S u" for u by (simp add: call_read_def own_open_def applied_def)
  then show ?case using of_read.IH nc by (auto simp: log_written_def call_read_def Let_def)
next
  case (of_thread S u)
  note inv = of_reach_inv [OF of_thread.hyps(1) assms(2,3)]
  have inv': "of_inv C (fst curTx) (of_step C u S)" by (rule of_reach_inv [OF of_reach.of_thread [OF of_thread.hyps] assms(2,3)])
  have u: "u < 128" using inv of_thread.hyps(2) by (auto simp: of_inv_def not_le [symmetric])
  have "log_written (of_step C u S) t" if "t < 128" for t
    using own_written [OF inv inv' u] others_written [OF inv inv' u, of t] of_thread.IH that u by (cases "u = t") auto
  moreover have "snd (of_curTx (of_step C u S)) < 128"
  proof -
    have "of_curTx (of_step C u S) = of_curTx S \<or> snd (of_curTx (of_step C u S)) = u"
    proof (cases "pc S u \<in> {P_Close, P_CommitOpen, P_CommitCas}")
      case True
      then consider "pc S u = P_Close" | "pc S u = P_CommitOpen" | "pc S u = P_CommitCas" by auto
      then show ?thesis
        by cases (simp_all add: of_step_def help_step_def commit_step_def Let_def split: prod.split)
    qed (use step_own_open [OF inv u] in blast)
    then show ?thesis using of_thread.IH u by auto
  qed
  ultimately show ?case by blast
qed


text \<open>
  C11: recover does not look whether the log it finds belongs to curTx. Once the last transaction
  is applied, its thread may write the log of its next attempt over the one of curTx, entry by
  entry; a crash then makes recover store the first words of an attempt that was never committed
  and may be abandoned, followed by what is left of the old log.
\<close>

theorem onefile_recovers_uncommitted:
  assumes "of_reach C (of_init m curTx req pl pn) S" "of_fresh C m curTx" "cfg_ok C" "log_fresh m curTx pl pn"
    "snd (of_curTx S) = t" "pc S t = P_CommitLog" "t_k (of_thr S t) \<le> of_pnum S t"
  shows "applied S (cur S) \<and> of_request S t = (my S t + 1, t) \<and> cur S \<noteq> my S t + 1
     \<and> of_recover S M = fold (\<lambda>(a, v) m. m(a := v))
         (map (of_log S t) [0..<t_k (of_thr S t)] @ map (of_plog S t) [t_k (of_thr S t)..<of_pnum S t]) M"
proof -
  note inv = of_reach_inv [OF assms(1-3)]
  have t: "t < 128" and w: "log_written S t" using reach_written [OF assms(1-4)] assms(5) by auto
  have tf: "pc S t \<in> transforming" using assms(6) by (simp add: pc_sets)
  note f = transforming_facts [OF inv t tf]
  have no: "applied S (cur S)" using committing_not_open [OF inv t tf] assms(5) by (simp add: own_open_def)
  have mf: "my_facts C (fst curTx) S t" by (rule loaded_facts(6) [OF inv t f(1)])
  have rq: "of_request S t = (my S t + 1, t)" using mf assms(6) by (simp add: my_facts_def Let_def)
  have "cur S \<noteq> my S t + 1"
  proof
    assume "cur S = my S t + 1"
    then show False using no rq inv_shared(1) [OF inv] assms(5) by (simp add: applied_def hist_inv_def)
  qed
  moreover have "map (of_plog S t) [0..<of_pnum S t] = map (of_plog S t) [0..<t_k (of_thr S t)] @ map (of_plog S t) [t_k (of_thr S t)..<of_pnum S t]"
    using upt_add_eq_append [of 0 "t_k (of_thr S t)" "of_pnum S t - t_k (of_thr S t)"] assms(7) by (simp flip: map_append)
  moreover have "map (of_plog S t) [0..<t_k (of_thr S t)] = map (of_log S t) [0..<t_k (of_thr S t)]"
    using w assms(6) by (simp add: log_written_def Let_def)
  ultimately show ?thesis using no rq assms(5) by (simp add: of_recover_def Let_def)
qed

subsection \<open>Runs of one thread\<close>

text \<open>
  A thread that stores two words; the state when it returns, the state of its next update where
  it writes its log, and a reader.
\<close>

definition ex_cfg :: ofcfg where "ex_cfg = \<lparr>PREGION_ADDR = 0x1000, PREGION_END = 0x2000, results_addr = 0x8000\<rparr>"

definition ex_start :: oftm where
  "ex_start = of_init (\<lambda>_. (0, 1)) (1, 0) (\<lambda>_. (0, 0)) (\<lambda>_ _. (0, 0)) (\<lambda>_. 0)"

definition ex_store :: "u64 \<Rightarrow> prog" where "ex_store v = Write 0x1000 v (Write 0x1010 v (Return v))"

definition ex_called :: oftm where "ex_called = call_update 0 (ex_store 7) (ex_start\<lparr>of_tids := 1\<rparr>)"

definition ex_done :: oftm where "ex_done = of_steps ex_cfg 0 40 ex_called"

definition ex_overwriting :: oftm where
  "ex_overwriting = of_steps ex_cfg 0 23 (call_update 0 (ex_store 8) (of_steps ex_cfg 0 1 ex_done))"

definition ex_reading :: oftm where
  "ex_reading = of_steps ex_cfg 0 7 (call_read 0 (Read 0x1010 Return) (of_steps ex_cfg 0 1 ex_done))"

text \<open>The write set that log_store leaves, as a list in front of what was there.\<close>

definition log_front :: "(u64 \<times> u64) list \<Rightarrow> (nat \<Rightarrow> u64 \<times> u64) \<Rightarrow> nat \<Rightarrow> u64 \<times> u64" where
  "log_front xs l = (\<lambda>i. if i < length xs then xs ! i else l i)"

lemma log_front_at: "log_front xs l i = (if i < length xs then xs ! i else l i)"
  by (simp add: log_front_def)

lemma log_front_again: "length ys \<le> length xs \<Longrightarrow> log_front xs (log_front ys l) = log_front xs l"
  by (auto simp: log_front_def)

lemma log_store_front: "log_store t a v S = (let xs = put_word a v (words_of S t)
     in S\<lparr>of_log := (of_log S)(t := log_front xs (of_log S t)), of_n := (of_n S)(t := length xs)\<rparr>)"
  by (simp add: log_store_def log_front_def)

lemma apply_words_at: "apply_words seq xs m a = (if a \<in> fst ` set xs then (get_word a 0 xs, seq) else m a)"
  by (simp add: apply_words_def)

lemma of_steps_numeral:
  "of_steps C t (numeral k) S = (if t_pc (of_thr S t) \<in> {P_Idle, P_Crashed} then S else of_steps C t (pred_numeral k) (of_step C t S))"
  by (simp add: numeral_eq_Suc)

lemmas of_eval = of_step_def announce_step_def attempt_step_def help_step_def transform_step_def run_step_def commit_step_def
  again_def help_return_def next_op_def log_store_front log_front_at log_front_again help_entry_def words_of_def result_at_def in_region_def
  apply_words_at of_steps_numeral Let_def call_update_def call_read_def of_init_def thread_new_def

lemmas ex_defs = ex_cfg_def ex_start_def ex_store_def ex_called_def ex_done_def ex_overwriting_def ex_reading_def

lemma ex_done_eval: "pc ex_done 0 = P_Done" "of_curTx ex_done = (2, 0)" "of_request ex_done 0 = (3, 0)" "of_ids ex_done 2 = 0" "of_tids ex_done = 1"
  by (simp_all add: ex_defs of_eval)

lemma ex_idle_eval: "pc (of_steps ex_cfg 0 1 ex_done) 0 = P_Idle" "of_tids (of_steps ex_cfg 0 1 ex_done) = 1"
  by (simp_all add: ex_defs of_eval)

lemma ex_overwriting_eval: "pc ex_overwriting 0 = P_CommitLog" "of_curTx ex_overwriting = (2, 0)"
  "t_k (of_thr ex_overwriting 0) = 1" "of_pnum ex_overwriting 0 = 3"
  "of_log ex_overwriting 0 0 = (0x1000, 8)" "of_plog ex_overwriting 0 1 = (0x1010, 7)" "of_plog ex_overwriting 0 2 = (0x8000, 7)"
  by (simp_all add: ex_defs of_eval)

lemma ex_reading_eval: "pc ex_reading 0 = P_Run" "t_prog (of_thr ex_reading 0) = Return 7" "\<not> t_upd (of_thr ex_reading 0)"
  by (simp_all add: ex_defs of_eval)

lemma ex_fresh: "of_fresh ex_cfg (\<lambda>_. (0, 1)) (1, 0)" "log_fresh (\<lambda>_. (0, 1)) (1, 0) (\<lambda>_ _. (0, 0)) (\<lambda>_. 0)"
  by (simp_all add: of_fresh_def log_fresh_def)

lemma ex_cfg_ok: "cfg_ok ex_cfg"
  by (auto simp: cfg_ok_def in_region_def result_at_def ex_cfg_def word_le_nat_alt unat_word_ariths unat_of_nat)

lemma ex_store_ok: "prog_ok ex_cfg (ex_store v)"
  by (simp add: ex_store_def ex_cfg_def in_region_def)

lemma ex_reach:
  "of_reach ex_cfg ex_start ex_called" "of_reach ex_cfg ex_start ex_done"
  "of_reach ex_cfg ex_start ex_overwriting" "of_reach ex_cfg ex_start ex_reading"
proof -
  have "of_reach ex_cfg ex_start (ex_start\<lparr>of_tids := 1\<rparr>)"
    by (rule of_register [OF of_start]) (simp_all add: ex_start_def of_init_def)
  then show c: "of_reach ex_cfg ex_start ex_called"
    unfolding ex_called_def by (rule of_update) (simp_all add: ex_start_def of_init_def thread_new_def ex_store_ok)
  show "of_reach ex_cfg ex_start ex_done" unfolding ex_done_def by (rule of_reach_steps [OF c])
  then have i: "of_reach ex_cfg ex_start (of_steps ex_cfg 0 1 ex_done)" by (intro of_reach_steps)
  show "of_reach ex_cfg ex_start ex_overwriting"
    unfolding ex_overwriting_def by (rule of_reach_steps [OF of_update [OF i]]) (simp_all only: ex_idle_eval ex_store_ok zero_less_one)
  show "of_reach ex_cfg ex_start ex_reading"
    unfolding ex_reading_def by (rule of_reach_steps [OF of_read [OF i]]) (simp_all only: ex_idle_eval zero_less_one prog_ok.simps, simp add: ex_cfg_def in_region_def)
qed


theorem onefile_serial_witness:
  "of_vers ex_done 1 = (\<lambda>_. (0, 1)) \<and> of_mem ex_done = of_vers ex_done 2
   \<and> serves ex_cfg (of_served ex_done 2) (fst \<circ> of_vers ex_done 1) (fst \<circ> of_vers ex_done 2)"
proof -
  note w = onefile_serial [OF ex_reach(2) [unfolded ex_start_def] ex_fresh(1) ex_cfg_ok, unfolded ex_done_eval(2) fst_conv]
  have "1 \<in> {1..<2::nat}" by simp
  then have "serves ex_cfg (of_served ex_done (1 + 1)) (fst \<circ> of_vers ex_done 1) (fst \<circ> of_vers ex_done (1 + 1))" using w by blast
  moreover have "applied ex_done 2" using ex_done_eval by (simp add: applied_def)
  ultimately show ?thesis using w unfolding one_add_one by blast
qed

theorem onefile_update_once_witness:
  "\<exists>s. of_pub ex_done 0 < s \<and> s \<le> 2 \<and> (0, t_fun (of_thr ex_done 0), t_ret (of_thr (of_step ex_cfg 0 ex_done) 0)) \<in> set (of_served ex_done s)"
  using onefile_update_once [OF ex_reach(2) [unfolded ex_start_def] ex_fresh(1) ex_cfg_ok ex_done_eval(1)] ex_done_eval(2) by simp

theorem onefile_read_snapshot_witness:
  "\<exists>s. t_begin (of_thr ex_reading 0) \<le> s \<and> s \<le> cur ex_reading
     \<and> t_ret (of_thr (of_step ex_cfg 0 ex_reading) 0) = fst (prog_run (t_fun (of_thr ex_reading 0)) (fst \<circ> of_vers ex_reading s))"
  using onefile_read_snapshot [OF ex_reach(4) [unfolded ex_start_def] ex_fresh(1) ex_cfg_ok ex_reading_eval] by blast

theorem onefile_wait_free_witness: "\<exists>i. pc (of_run ex_cfg (\<lambda>_. Step 0) ex_called i) 0 = P_Idle"
  using onefile_wait_free [OF ex_reach(1) [unfolded ex_start_def] ex_fresh(1) ex_cfg_ok, of "\<lambda>_. Step 0" 0] by simp

theorem onefile_recovers_uncommitted_witness:
  "of_recover ex_overwriting (fst \<circ> of_mem ex_overwriting) 0x1000 = 8
   \<and> of_recover ex_overwriting (fst \<circ> of_mem ex_overwriting) 0x1010 = 7 \<and> of_curTx ex_overwriting = (2, 0)"
proof -
  let ?M = "fst \<circ> of_mem ex_overwriting"
  have o: "snd (of_curTx ex_overwriting) = 0" "t_k (of_thr ex_overwriting 0) \<le> of_pnum ex_overwriting 0" using ex_overwriting_eval by simp_all
  have l: "[Suc 0..<3] = [Suc 0, 2]" by (simp add: upt_rec)
  have p: "of_plog ex_overwriting 0 (Suc 0) = (0x1010, 7)" using ex_overwriting_eval(6) by simp
  have "of_recover ex_overwriting ?M = fold (\<lambda>(a, v) m. m(a := v)) [(0x1000, 8), (0x1010, 7), (0x8000, 7)] ?M"
    using onefile_recovers_uncommitted [OF ex_reach(3) [unfolded ex_start_def] ex_fresh(1) ex_cfg_ok ex_fresh(2) o(1) ex_overwriting_eval(1) o(2), of ?M]
    by (simp add: ex_overwriting_eval l p)
  then show ?thesis using ex_overwriting_eval(2) by simp
qed

end
