(* ===== verification/OneFileCrash.thy ===== *)
theory OneFileCrash
  imports OneFileProps
begin

text \<open>
  What a crash leaves of OneFile. The stores to persistent memory, the write-backs (PWB) and the
  fences are steps of their own: a store may reach the medium at any time and in any order, and is
  only sure to have done so when it was written back and the same thread went through a fence.
  OneFile has no explicit fences; the compare-and-swaps (lock cmpxchg) act as such. From every
  medium that a crash in a reachable state can leave on which curTx is current, recovery restores
  the last transaction, unless its thread is committing its next attempt (see OneFileProps).
\<close>

subsection \<open>The medium\<close>

text \<open>
  The values that each word, curTx, and each entry and the length of the persistent logs may have
  on the medium; the values they may have there once the write-backs that a thread has issued are
  completed, or everything where it has issued none; and how many of the write-backs of the place
  where it stands a thread has issued.
\<close>

record medium =
  md_word :: "u64 \<Rightarrow> (u64 \<times> nat) set"
  md_cur :: "txid set"
  md_log :: "nat \<Rightarrow> nat \<Rightarrow> (u64 \<times> u64) set"
  md_num :: "nat \<Rightarrow> nat set"
  md_pword :: "nat \<Rightarrow> u64 \<Rightarrow> (u64 \<times> nat) set"
  md_pcur :: "nat \<Rightarrow> txid set"
  md_plog :: "nat \<Rightarrow> nat \<Rightarrow> (u64 \<times> u64) set"
  md_pnum :: "nat \<Rightarrow> nat set"
  md_k :: "nat \<Rightarrow> nat"

definition medium_boot :: "(u64 \<Rightarrow> u64 \<times> nat) \<Rightarrow> txid \<Rightarrow> (nat \<Rightarrow> nat \<Rightarrow> u64 \<times> u64) \<Rightarrow> (nat \<Rightarrow> nat) \<Rightarrow> medium" where
  "medium_boot m curTx pl pn = \<lparr>md_word = (\<lambda>a. {m a}), md_cur = {curTx}, md_log = (\<lambda>t k. {pl t k}), md_num = (\<lambda>t. {pn t}),
     md_pword = (\<lambda>_ _. UNIV), md_pcur = (\<lambda>_. UNIV), md_plog = (\<lambda>_ _. UNIV), md_pnum = (\<lambda>_. UNIV), md_k = (\<lambda>_. 0)\<rparr>"

text \<open>A store may reach the medium by itself, also after a write-back that was issued before.\<close>

definition store_word :: "u64 \<Rightarrow> u64 \<times> nat \<Rightarrow> medium \<Rightarrow> medium" where
  "store_word a x D = D\<lparr>md_word := (md_word D)(a := insert x (md_word D a)),
     md_pword := (\<lambda>u. (md_pword D u)(a := insert x (md_pword D u a)))\<rparr>"

definition store_cur :: "txid \<Rightarrow> medium \<Rightarrow> medium" where
  "store_cur x D = D\<lparr>md_cur := insert x (md_cur D), md_pcur := (\<lambda>u. insert x (md_pcur D u))\<rparr>"

definition store_log :: "nat \<Rightarrow> nat \<Rightarrow> u64 \<times> u64 \<Rightarrow> medium \<Rightarrow> medium" where
  "store_log t k x D = D\<lparr>md_log := (md_log D)(t := (md_log D t)(k := insert x (md_log D t k))),
     md_plog := (md_plog D)(t := (md_plog D t)(k := insert x (md_plog D t k)))\<rparr>"

definition store_num :: "nat \<Rightarrow> nat \<Rightarrow> medium \<Rightarrow> medium" where
  "store_num t n D = D\<lparr>md_num := (md_num D)(t := insert n (md_num D t)), md_pnum := (md_pnum D)(t := insert n (md_pnum D t))\<rparr>"

text \<open>
  PWB of a word and of curTx; the write-back of a log and its length by persistAndFlushLog, which
  no other thread writes; and a fence.
\<close>

definition pwb_word :: "nat \<Rightarrow> u64 \<Rightarrow> oftm \<Rightarrow> medium \<Rightarrow> medium" where
  "pwb_word t a S D = D\<lparr>md_pword := (md_pword D)(t := (md_pword D t)(a := {of_mem S a}))\<rparr>"

definition pwb_cur :: "nat \<Rightarrow> oftm \<Rightarrow> medium \<Rightarrow> medium" where
  "pwb_cur t S D = D\<lparr>md_pcur := (md_pcur D)(t := {of_curTx S})\<rparr>"

definition flush_log :: "nat \<Rightarrow> oftm \<Rightarrow> medium \<Rightarrow> medium" where
  "flush_log t S D = D\<lparr>md_plog := (md_plog D)(t := (\<lambda>k. if k \<le> of_pnum S t then {of_plog S t k} else md_plog D t k)),
     md_pnum := (md_pnum D)(t := {of_pnum S t})\<rparr>"

definition fence :: "nat \<Rightarrow> medium \<Rightarrow> medium" where
  "fence t D = D\<lparr>md_word := (\<lambda>a. md_word D a \<inter> md_pword D t a), md_cur := md_cur D \<inter> md_pcur D t,
     md_log := (md_log D)(t := (\<lambda>k. md_log D t k \<inter> md_plog D t k)), md_num := (md_num D)(t := md_num D t \<inter> md_pnum D t),
     md_pword := (md_pword D)(t := (\<lambda>_. UNIV)), md_pcur := (md_pcur D)(t := UNIV),
     md_plog := (md_plog D)(t := (\<lambda>_. UNIV)), md_pnum := (md_pnum D)(t := UNIV)\<rparr>"

text \<open>
  The write-backs between the atomic steps: of curTx, by the thread whose compare-and-swap has
  just moved it (line 982), and of the words of the write set, one by one, when it has been
  applied (flushModifications). A thread issues them before it goes on.
\<close>

definition flush_due :: "nat \<Rightarrow> oftm \<Rightarrow> medium \<Rightarrow> bool" where
  "flush_due t S D \<longleftrightarrow> t_pc (of_thr S t) = P_Request \<and> t_commit (of_thr S t) \<and> md_k D t = 0
     \<or> t_pc (of_thr S t) = P_Open \<and> md_k D t < of_n S t"

definition flush_step :: "nat \<Rightarrow> oftm \<Rightarrow> medium \<Rightarrow> medium" where
  "flush_step t S D = (let D' = (if t_pc (of_thr S t) = P_Request then pwb_cur t S D else pwb_word t (fst (of_log S t (md_k D t))) S D)
     in D'\<lparr>md_k := (md_k D)(t := md_k D t + 1)\<rparr>)"

text \<open>
  What an atomic step of OneFile does to the medium: the entries of the log and its length are
  stored, and written back at the end; the compare-and-swap of curTx, the double-word one of a
  word and the one that closes a request are fences, whether they succeed or not, and the first
  two store what they write.
\<close>

definition persist_step :: "ofcfg \<Rightarrow> nat \<Rightarrow> oftm \<Rightarrow> medium \<Rightarrow> medium" where
  "persist_step C t S D = (let T = of_thr S t; S' = of_step C t S; D = D\<lparr>md_k := (md_k D)(t := 0)\<rparr> in
     case t_pc T of
       P_CommitLog \<Rightarrow> if t_k T < of_n S t then store_log t (t_k T) (of_plog S' t (t_k T)) D
           else flush_log t S' (store_num t (of_pnum S' t) D)
     | P_CommitCas \<Rightarrow> if of_curTx S \<noteq> t_my T then fence t D else store_cur (of_curTx S') (fence t D)
     | P_Dcas \<Rightarrow> (let a = fst (help_entry t S) in
           if of_mem S a = (t_val T, t_seq T) then store_word a (of_mem S' a) (fence t D) else fence t D)
     | P_Close \<Rightarrow> fence t D
     | _ \<Rightarrow> D)"

text \<open>OneFile with its medium: the moves of of\_reach, and the write-backs in between.\<close>

inductive pm_reach :: "ofcfg \<Rightarrow> oftm \<Rightarrow> medium \<Rightarrow> oftm \<Rightarrow> medium \<Rightarrow> bool" for C S0 D0 where
  pm_start: "pm_reach C S0 D0 S0 D0"
| pm_register: "pm_reach C S0 D0 S D \<Longrightarrow> of_tids S \<le> n \<Longrightarrow> n \<le> 128 \<Longrightarrow> pm_reach C S0 D0 (S\<lparr>of_tids := n\<rparr>) D"
| pm_update: "pm_reach C S0 D0 S D \<Longrightarrow> t_pc (of_thr S t) = P_Idle \<Longrightarrow> t < of_tids S \<Longrightarrow> prog_ok C f \<Longrightarrow> pm_reach C S0 D0 (call_update t f S) D"
| pm_read: "pm_reach C S0 D0 S D \<Longrightarrow> t_pc (of_thr S t) = P_Idle \<Longrightarrow> t < of_tids S \<Longrightarrow> prog_ok C f \<Longrightarrow> pm_reach C S0 D0 (call_read t f S) D"
| pm_flush: "pm_reach C S0 D0 S D \<Longrightarrow> flush_due t S D \<Longrightarrow> pm_reach C S0 D0 S (flush_step t S D)"
| pm_thread: "pm_reach C S0 D0 S D \<Longrightarrow> t_pc (of_thr S t) \<notin> {P_Idle, P_Crashed} \<Longrightarrow> \<not> flush_due t S D \<Longrightarrow>
    pm_reach C S0 D0 (of_step C t S) (persist_step C t S D)"

lemma pm_reach_of: "pm_reach C S0 D0 S D \<Longrightarrow> of_reach C S0 S"
  by (induction rule: pm_reach.induct) (auto intro: of_reach.intros)

subsection \<open>A crash and recovery\<close>

text \<open>
  What is found after a crash: of each word, curTx, each length and each half of the entries of
  the logs, one of the values that may be on the medium.
\<close>

record ofimage =
  im_word :: "u64 \<Rightarrow> u64 \<times> nat"
  im_cur :: txid
  im_log :: "nat \<Rightarrow> nat \<Rightarrow> u64 \<times> u64"
  im_num :: "nat \<Rightarrow> nat"

definition medium_image :: "medium \<Rightarrow> ofimage \<Rightarrow> bool" where
  "medium_image D I \<longleftrightarrow> (\<forall>a. im_word I a \<in> md_word D a) \<and> im_cur I \<in> md_cur D \<and> (\<forall>t. im_num I t \<in> md_num D t)
     \<and> (\<forall>t k. fst (im_log I t k) \<in> fst ` md_log D t k \<and> snd (im_log I t k) \<in> snd ` md_log D t k)"

text \<open>recover, with applyFromRecover; it stores values, and leaves the sequence numbers.\<close>

definition put_value :: "u64 \<times> u64 \<Rightarrow> (u64 \<Rightarrow> u64 \<times> nat) \<Rightarrow> u64 \<Rightarrow> u64 \<times> nat" where
  "put_value e m = m(fst e := (snd e, snd (m (fst e))))"

definition recover_image :: "ofimage \<Rightarrow> u64 \<Rightarrow> u64 \<times> nat" where
  "recover_image I = (let idx = snd (im_cur I)
     in fold put_value (map (im_log I idx) [0..<im_num I idx]) (im_word I))"

text \<open>The memory of the next process: what recovery left, and new results.\<close>

definition restart_mem :: "ofcfg \<Rightarrow> (u64 \<Rightarrow> u64 \<times> nat) \<Rightarrow> u64 \<Rightarrow> u64 \<times> nat" where
  "restart_mem C m = (\<lambda>a. if a \<in> result_at C ` {..<128} then (0, 1) else m a)"

subsection \<open>The invariant of the medium\<close>

text \<open>What may be on the medium once the write-backs of a thread are completed.\<close>

definition seen :: "medium \<Rightarrow> nat \<Rightarrow> u64 \<Rightarrow> (u64 \<times> nat) set" where
  "seen D u a = md_word D a \<inter> md_pword D u a"

definition seen_cur :: "medium \<Rightarrow> nat \<Rightarrow> txid set" where
  "seen_cur D u = md_cur D \<inter> md_pcur D u"

definition seen_log :: "medium \<Rightarrow> nat \<Rightarrow> nat \<Rightarrow> (u64 \<times> u64) set" where
  "seen_log D u k = md_log D u k \<inter> md_plog D u k"

definition seen_num :: "medium \<Rightarrow> nat \<Rightarrow> nat set" where
  "seen_num D u = md_num D u \<inter> md_pnum D u"

lemmas seen_defs = seen_def seen_cur_def seen_log_def seen_num_def

text \<open>
  The values stored last may always be there. Of a word, the medium has the value of the last
  transaction or that of the one before, and the former once the request is closed. A thread that
  is about to close the request of the last transaction has written back the words it flushed. The
  log of curTx is on the medium, and written back before the compare-and-swap. The thread that
  committed the last transaction has written back curTx.
\<close>

definition now_inv :: "oftm \<Rightarrow> medium \<Rightarrow> bool" where
  "now_inv S D \<longleftrightarrow> (\<forall>u a. of_mem S a \<in> seen D u a) \<and> (\<forall>u. of_curTx S \<in> seen_cur D u)
     \<and> (\<forall>u k. of_plog S u k \<in> seen_log D u k) \<and> (\<forall>u. of_pnum S u \<in> seen_num D u)"

definition word_inv :: "oftm \<Rightarrow> medium \<Rightarrow> bool" where
  "word_inv S D \<longleftrightarrow> (\<forall>a. md_word D a \<subseteq> {of_vers S (cur S) a, of_vers S (cur S - 1) a}
     \<and> (applied S (cur S) \<longrightarrow> md_word D a \<subseteq> {of_vers S (cur S) a}))"

definition flushed_inv :: "oftm \<Rightarrow> medium \<Rightarrow> nat \<Rightarrow> bool" where
  "flushed_inv S D u \<longleftrightarrow> (t_help (of_thr S u) = of_curTx S \<longrightarrow> (\<forall>j<of_n S u. pc S u = P_Close \<or> pc S u = P_Open \<and> j < md_k D u \<longrightarrow>
     (\<forall>x\<in>seen D u (fst (of_log S u j)). x = of_vers S (cur S) (fst (of_log S u j)))))"

definition log_inv :: "oftm \<Rightarrow> medium \<Rightarrow> nat \<Rightarrow> bool" where
  "log_inv S D u \<longleftrightarrow> (snd (of_curTx S) = u \<longrightarrow> pc S u \<notin> {P_CommitLog, P_CommitCas} \<longrightarrow>
       md_num D u \<subseteq> {of_pnum S u} \<and> (\<forall>k<of_pnum S u. md_log D u k \<subseteq> {of_plog S u k} \<and>
         snd (of_plog S u k) = fst (of_vers S (cur S) (fst (of_plog S u k)))))
     \<and> (pc S u = P_CommitCas \<longrightarrow> seen_num D u \<subseteq> {of_pnum S u} \<and> (\<forall>k<of_pnum S u. seen_log D u k \<subseteq> {of_plog S u k}))"

definition cur_inv :: "oftm \<Rightarrow> medium \<Rightarrow> nat \<Rightarrow> bool" where
  "cur_inv S D u \<longleftrightarrow> (t_commit (of_thr S u) \<longrightarrow> t_help (of_thr S u) = of_curTx S \<longrightarrow> pc S u = P_Request \<longrightarrow> 0 < md_k D u \<longrightarrow> seen_cur D u \<subseteq> {of_curTx S})
     \<and> (t_commit (of_thr S u) \<longrightarrow> t_help (of_thr S u) = of_curTx S \<longrightarrow> pc S u \<noteq> P_Request \<longrightarrow> seen_cur D u \<subseteq> {of_curTx S})"

definition pm_inv :: "oftm \<Rightarrow> medium \<Rightarrow> bool" where
  "pm_inv S D \<longleftrightarrow> now_inv S D \<and> word_inv S D \<and> (\<forall>u<128. flushed_inv S D u \<and> log_inv S D u \<and> cur_inv S D u)"

subsection \<open>What a step does to the medium\<close>

lemma fence_seen:
  "seen (fence t D) u a = (if u = t then seen D u a else seen D t a \<inter> md_pword D u a)"
  "seen_cur (fence t D) u = (if u = t then seen_cur D u else seen_cur D t \<inter> md_pcur D u)"
  "seen_log (fence t D) u k = seen_log D u k" "seen_num (fence t D) u = seen_num D u"
  "md_word (fence t D) a = seen D t a" "md_cur (fence t D) = seen_cur D t"
  "md_log (fence t D) u k = (if u = t then seen_log D u k else md_log D u k)"
  "md_num (fence t D) u = (if u = t then seen_num D u else md_num D u)" "md_k (fence t D) = md_k D"
  by (auto simp: fence_def seen_defs)

lemma store_seen:
  "seen (store_word b x D) u a = (if a = b then insert x (seen D u a) else seen D u a)"
  "md_word (store_word b x D) a = (if a = b then insert x (md_word D a) else md_word D a)"
  "seen_cur (store_word b x D) u = seen_cur D u" "seen_log (store_word b x D) u k = seen_log D u k" "seen_num (store_word b x D) u = seen_num D u"
  "md_cur (store_word b x D) = md_cur D" "md_log (store_word b x D) = md_log D" "md_num (store_word b x D) = md_num D" "md_k (store_word b x D) = md_k D"
  "seen_cur (store_cur y D) u = insert y (seen_cur D u)" "md_cur (store_cur y D) = insert y (md_cur D)"
  "seen (store_cur y D) u a = seen D u a" "seen_log (store_cur y D) u k = seen_log D u k" "seen_num (store_cur y D) u = seen_num D u"
  "md_word (store_cur y D) = md_word D" "md_log (store_cur y D) = md_log D" "md_num (store_cur y D) = md_num D" "md_k (store_cur y D) = md_k D"
  by (auto simp: store_word_def store_cur_def seen_defs)

text \<open>Steps that leave the shared words of persistent memory and the history.\<close>

definition same_store :: "oftm \<Rightarrow> oftm \<Rightarrow> bool" where
  "same_store S S' \<longleftrightarrow> of_mem S' = of_mem S \<and> of_curTx S' = of_curTx S \<and> of_plog S' = of_plog S \<and> of_pnum S' = of_pnum S
     \<and> of_vers S' = of_vers S \<and> of_ids S' = of_ids S"

lemma quiet_store:
  assumes p: "pc S t \<notin> {P_Dcas, P_CommitLog, P_CommitCas}"
  shows "same_store S (of_step C t S)"
proof -
  note d = again_def help_return_def next_op_def log_store_def Let_def same_store_def
  have "same_store S (announce_step C t S)" by (cases "pc S t") (simp_all add: announce_step_def d)
  moreover have "same_store S (attempt_step C t S)" by (cases "pc S t") (simp_all add: attempt_step_def d)
  moreover have "same_store S (help_step t S)" using p by (cases "pc S t") (simp_all add: help_step_def d split: prod.split)
  moreover have "same_store S (transform_step C t S)" by (cases "pc S t") (simp_all add: transform_step_def d split: option.split)
  moreover have "same_store S (run_step C t S)" by (cases "pc S t") (simp_all add: run_step_def d split: prog.split)
  moreover have "same_store S (commit_step t S)" using p by (cases "pc S t") (simp_all add: commit_step_def d)
  ultimately show ?thesis unfolding of_step_def Let_def by simp
qed

text \<open>The values stored last stay where they may be.\<close>

lemma now_fence: "now_inv S D \<Longrightarrow> now_inv S (fence t D)"
  unfolding now_inv_def fence_seen by (auto simp: seen_defs)

lemma now_k: "now_inv S (D\<lparr>md_k := x\<rparr>) = now_inv S D"
  by (simp add: now_inv_def seen_defs)

lemma now_same: "same_store S S' \<Longrightarrow> now_inv S' D = now_inv S D"
  by (simp add: now_inv_def same_store_def)

lemma now_flush: "now_inv S D \<Longrightarrow> now_inv S (flush_step t S D)"
  by (auto simp: now_inv_def flush_step_def pwb_cur_def pwb_word_def Let_def seen_defs)

lemma now_step:
  assumes n: "now_inv S D" shows "now_inv (of_step C t S) (persist_step C t S D)"
proof -
  let ?D = "D\<lparr>md_k := (md_k D)(t := 0)\<rparr>"
  have n0: "now_inv S ?D" and n1: "now_inv S (fence t ?D)" using n now_fence by (auto simp: now_k)
  consider "pc S t \<notin> {P_Dcas, P_CommitLog, P_CommitCas}" | "pc S t = P_Dcas" | "pc S t = P_CommitLog" | "pc S t = P_CommitCas" by auto
  then show ?thesis
  proof cases
    case 1
    have "persist_step C t S D \<in> {?D, fence t ?D}" using 1 by (cases "pc S t") (simp_all add: persist_step_def Let_def)
    then show ?thesis using now_same [OF quiet_store [OF 1]] n0 n1 by auto
  next
    case 2
    obtain s i where h: "t_help (of_thr S t) = (s, i)" by fastforce
    show ?thesis
      using 2 n1 h by (auto simp: persist_step_def of_step_def help_step_def Let_def now_inv_def store_seen)
  next
    case 3
    then show ?thesis
      using n0 by (auto simp: persist_step_def of_step_def commit_step_def Let_def now_inv_def store_log_def store_num_def flush_log_def seen_defs)
  next
    case 4
    then show ?thesis
      using n1 by (auto simp: persist_step_def of_step_def commit_step_def Let_def now_inv_def store_seen again_def)
  qed
qed

text \<open>Where nothing is stored, less may be on the medium.\<close>

lemma persist_kind:
  obtains "pc S t \<notin> {P_Dcas, P_CommitLog, P_CommitCas, P_Close}" "persist_step C t S D = D\<lparr>md_k := (md_k D)(t := 0)\<rparr>"
  | "pc S t \<notin> {P_CommitLog}" "persist_step C t S D = fence t (D\<lparr>md_k := (md_k D)(t := 0)\<rparr>)"
  | b where "pc S t = P_Dcas" "persist_step C t S D = store_word b (of_mem (of_step C t S) b) (fence t (D\<lparr>md_k := (md_k D)(t := 0)\<rparr>))"
  | "pc S t = P_CommitCas" "persist_step C t S D = store_cur (of_curTx (of_step C t S)) (fence t (D\<lparr>md_k := (md_k D)(t := 0)\<rparr>))"
  | k x where "pc S t = P_CommitLog" "persist_step C t S D = store_log t k x (D\<lparr>md_k := (md_k D)(t := 0)\<rparr>)"
  | n where "pc S t = P_CommitLog" "persist_step C t S D = flush_log t (of_step C t S) (store_num t n (D\<lparr>md_k := (md_k D)(t := 0)\<rparr>))"
proof (cases "pc S t")
  case P_Dcas
  show thesis
  proof (cases "of_mem S (fst (help_entry t S)) = (t_val (of_thr S t), t_seq (of_thr S t))")
    case True
    show thesis by (rule that(3) [OF P_Dcas, of "fst (help_entry t S)"]) (simp add: persist_step_def P_Dcas True Let_def)
  qed (rule that(2); simp add: persist_step_def P_Dcas Let_def)
next
  case P_CommitCas
  show thesis
  proof (cases "of_curTx S = t_my (of_thr S t)")
    case True
    show thesis by (rule that(4) [OF P_CommitCas]) (simp add: persist_step_def P_CommitCas True)
  qed (rule that(2); simp add: persist_step_def P_CommitCas)
next
  case P_CommitLog
  show thesis
  proof (cases "t_k (of_thr S t) < of_n S t")
    case True
    show thesis by (rule that(5) [OF P_CommitLog, of "t_k (of_thr S t)" "of_plog (of_step C t S) t (t_k (of_thr S t))"])
      (simp add: persist_step_def P_CommitLog True Let_def)
  next
    case False
    show thesis by (rule that(6) [OF P_CommitLog, of "of_pnum (of_step C t S) t"]) (simp add: persist_step_def P_CommitLog False Let_def)
  qed
next
  case P_Close
  show thesis by (rule that(2)) (simp_all add: persist_step_def P_Close)
qed (rule that(1); simp add: persist_step_def)+

lemma medium_k [simp]:
  "seen (D\<lparr>md_k := x\<rparr>) u a = seen D u a" "seen_cur (D\<lparr>md_k := x\<rparr>) u = seen_cur D u" "seen_log (D\<lparr>md_k := x\<rparr>) u k = seen_log D u k"
  "seen_num (D\<lparr>md_k := x\<rparr>) u = seen_num D u"
  by (simp_all add: seen_defs)

lemma log_seen:
  "seen (store_log t k x D) u a = seen D u a" "seen_cur (store_log t k x D) u = seen_cur D u" "md_word (store_log t k x D) = md_word D"
  "u \<noteq> t \<Longrightarrow> seen_log (store_log t k x D) u j = seen_log D u j" "seen_num (store_log t k x D) u = seen_num D u"
  "u \<noteq> t \<Longrightarrow> md_log (store_log t k x D) u = md_log D u" "md_num (store_log t k x D) u = md_num D u" "md_k (store_log t k x D) = md_k D"
  "seen (flush_log t S (store_num t n D)) u a = seen D u a" "seen_cur (flush_log t S (store_num t n D)) u = seen_cur D u"
  "md_word (flush_log t S (store_num t n D)) = md_word D"
  "u \<noteq> t \<Longrightarrow> seen_log (flush_log t S (store_num t n D)) u j = seen_log D u j" "u \<noteq> t \<Longrightarrow> seen_num (flush_log t S (store_num t n D)) u = seen_num D u"
  "md_log (flush_log t S (store_num t n D)) = md_log D" "u \<noteq> t \<Longrightarrow> md_num (flush_log t S (store_num t n D)) u = md_num D u"
  "md_k (flush_log t S (store_num t n D)) = md_k D"
  by (simp_all add: store_log_def store_num_def flush_log_def seen_defs)

lemma fence_le: "md_word D a \<inter> Y \<subseteq> md_word D a" "seen D t a \<subseteq> md_word D a" "seen D t a \<inter> md_pword D u a \<subseteq> seen D u a"
  "seen_cur D t \<inter> md_pcur D u \<subseteq> seen_cur D u" "seen_log D u k \<subseteq> md_log D u k" "seen_num D u \<subseteq> md_num D u"
  by (auto simp: seen_defs)

lemma persist_le:
  "seen (persist_step C t S D) u a \<subseteq> insert (of_mem (of_step C t S) a) (seen D u a)"
  "md_word (persist_step C t S D) a \<subseteq> insert (of_mem (of_step C t S) a) (md_word D a)"
  "seen_cur (persist_step C t S D) u \<subseteq> insert (of_curTx (of_step C t S)) (seen_cur D u)"
  "pc S t \<noteq> P_CommitLog \<Longrightarrow> md_log (persist_step C t S D) u k \<subseteq> md_log D u k"
  "pc S t \<noteq> P_CommitLog \<Longrightarrow> md_num (persist_step C t S D) u \<subseteq> md_num D u"
  "u \<noteq> t \<Longrightarrow> md_log (persist_step C t S D) u = md_log D u" "u \<noteq> t \<Longrightarrow> md_num (persist_step C t S D) u = md_num D u"
  "u \<noteq> t \<Longrightarrow> seen_log (persist_step C t S D) u k = seen_log D u k" "u \<noteq> t \<Longrightarrow> seen_num (persist_step C t S D) u = seen_num D u"
  "md_k (persist_step C t S D) u = (if u = t then 0 else md_k D u)"
proof -
  note e = fence_seen store_seen log_seen
  note le = fence_le [of D] fence_le [of "D\<lparr>md_k := (md_k D)(t := 0)\<rparr>", simplified]
  show "seen (persist_step C t S D) u a \<subseteq> insert (of_mem (of_step C t S) a) (seen D u a)"
    by (rule persist_kind [of S t C D]) (use le(3,9) in \<open>auto simp: e\<close>)
  show "md_word (persist_step C t S D) a \<subseteq> insert (of_mem (of_step C t S) a) (md_word D a)"
    by (rule persist_kind [of S t C D]) (use le(2,8) in \<open>auto simp: e\<close>)
  show "seen_cur (persist_step C t S D) u \<subseteq> insert (of_curTx (of_step C t S)) (seen_cur D u)"
    by (rule persist_kind [of S t C D]) (use le(4,10) in \<open>auto simp: e\<close>)
  show "pc S t \<noteq> P_CommitLog \<Longrightarrow> md_log (persist_step C t S D) u k \<subseteq> md_log D u k"
    "pc S t \<noteq> P_CommitLog \<Longrightarrow> md_num (persist_step C t S D) u \<subseteq> md_num D u"
    by (rule persist_kind [of S t C D]; use le(5,6,11,12) in \<open>simp add: e\<close>)+
  show "u \<noteq> t \<Longrightarrow> md_log (persist_step C t S D) u = md_log D u" "u \<noteq> t \<Longrightarrow> md_num (persist_step C t S D) u = md_num D u"
    by (rule persist_kind [of S t C D]; simp add: e fun_eq_iff)+
  show "u \<noteq> t \<Longrightarrow> seen_log (persist_step C t S D) u k = seen_log D u k" "u \<noteq> t \<Longrightarrow> seen_num (persist_step C t S D) u = seen_num D u"
    by (rule persist_kind [of S t C D]; simp add: e)+
  show "md_k (persist_step C t S D) u = (if u = t then 0 else md_k D u)"
    by (rule persist_kind [of S t C D]; simp add: e)
qed

lemma persist_fence:
  assumes "pc S t \<in> {P_Close, P_CommitCas}" shows "md_word (persist_step C t S D) a = seen D t a"
  using assms by (auto simp: persist_step_def Let_def fence_seen store_seen)

text \<open>A thread that has applied the last transaction finds its words in memory.\<close>

lemma helper_done:
  assumes inv: "of_inv C s0 S" and u: "u < 128" and p: "pc S u \<in> {P_Open, P_Close}" and h: "t_help (of_thr S u) = of_curTx S"
  shows "is_log S (cur S) (words_of S u)" "of_mem S = of_vers S (cur S)"
proof -
  have a: "is_log S (cur S) (words_of S u)" "\<forall>j<of_n S u. cur S \<le> snd (of_mem S (fst (entry S u j)))"
    using inv_thread(9) [OF inv u] p h unfolding apply_inv_def Let_def by (elim conjE; simp; fail)+
  show "is_log S (cur S) (words_of S u)" by (rule a(1))
  show "of_mem S = of_vers S (cur S)" by (rule all_applied [OF inv_shared(1,2) [OF inv] a])
qed

lemma help_le:
  assumes "of_inv C s0 S" "u < 128" "pc S u \<in> helping" shows "fst (t_help (of_thr S u)) \<le> cur S"
  using help_applied(2) [OF assms, of "fst (t_help (of_thr S u))" "snd (t_help (of_thr S u))"] by simp

text \<open>Only the thread that closes the request makes the last transaction applied.\<close>

lemma applied_late:
  assumes inv: "of_inv C s0 S" and t: "t < 128" and p: "pc S t \<noteq> P_CommitCas"
    and a: "\<not> applied S (cur S)" "applied (of_step C t S) (cur S)"
  shows "pc S t = P_Close" "t_help (of_thr S t) = of_curTx S"
proof -
  let ?i = "snd (of_curTx S)"
  have ids: "of_ids S (cur S) = ?i" using inv_shared(1) [OF inv] by (simp add: hist_inv_def)
  have same: "of_ids (of_step C t S) = of_ids S"
  proof (cases "pc S t \<in> {P_Dcas, P_CommitLog}")
    case False
    then show ?thesis using quiet_store [of S t C] p by (simp add: same_store_def)
  next
    case True
    then consider "pc S t = P_Dcas" | "pc S t = P_CommitLog" by blast
    then show ?thesis by cases (simp_all add: of_step_def help_step_def commit_step_def split_beta Let_def)
  qed
  have r: "of_request S ?i = (cur S, ?i)" "of_request (of_step C t S) ?i \<noteq> (cur S, ?i)" using a ids same by (simp_all add: applied_def)
  have "pc S t \<in> {P_Close, P_CommitOpen}" using step_own_open [OF inv t] p r by fastforce
  moreover have "pc S t \<noteq> P_CommitOpen"
  proof
    assume o: "pc S t = P_CommitOpen"
    then have "t = ?i" using r by (auto simp: of_step_def commit_step_def Let_def split: if_splits)
    moreover have "pc S t \<in> transforming" using o by (simp add: pc_sets)
    ultimately show False using committing_not_open [OF inv t] a(1) by (simp add: own_open_def)
  qed
  ultimately show cl: "pc S t = P_Close" by blast
  obtain seq idx where h: "t_help (of_thr S t) = (seq, idx)" by fastforce
  have "of_request (of_step C t S) = (if of_request S idx = (seq, idx) then (of_request S)(idx := (seq + 1, idx)) else of_request S)"
    using cl h by (simp add: of_step_def help_step_def help_return_def)
  then have "idx = ?i \<and> seq = cur S" using r by (auto simp: prod_eq_iff split: if_splits)
  then show "t_help (of_thr S t) = of_curTx S" using h by (simp add: prod_eq_iff)
qed

text \<open>The compare-and-swap that commits.\<close>

lemma commit_won:
  assumes inv: "of_inv C s0 S" and t: "t < 128" and p: "pc S t = P_CommitCas" and c: "of_curTx S = t_my (of_thr S t)"
  shows "applied S (cur S)" "of_curTx (of_step C t S) = (cur S + 1, t)" "\<not> applied (of_step C t S) (cur S + 1)"
    "of_vers (of_step C t S) (cur S + 1) = apply_words (cur S + 1) (words_of S t) (of_vers S (cur S))" "of_vers (of_step C t S) (cur S) = of_vers S (cur S)"
    "of_plog (of_step C t S) = of_plog S" "of_pnum (of_step C t S) = of_pnum S" "of_mem (of_step C t S) = of_mem S" "pc (of_step C t S) t = P_Request"
    "distinct (map fst (words_of S t))"
proof -
  have tf: "pc S t \<in> transforming" using p by (simp add: pc_sets)
  note f = transforming_facts [OF inv t tf]
  show "applied S (cur S)" using f(5) c by simp
  have "of_request S t = (cur S + 1, t)" using loaded_facts(6) [OF inv t f(1)] p c by (simp add: my_facts_def Let_def)
  then show "\<not> applied (of_step C t S) (cur S + 1)" using p c by (simp add: of_step_def commit_step_def applied_def Let_def)
  show "distinct (map fst (words_of S t))" using run_invD(2) [OF inv_thread(12) [OF inv t] refl refl refl refl tf] .
qed (use p c in \<open>simp_all add: of_step_def commit_step_def Let_def\<close>)

lemma commit_lost:
  assumes inv: "of_inv C s0 S" and t: "t < 128" and p: "pc S t = P_CommitCas" and c: "of_curTx S \<noteq> t_my (of_thr S t)"
  shows "of_step C t S = again t S" "snd (of_curTx S) \<noteq> t"
proof -
  have tf: "pc S t \<in> transforming" using p by (simp add: pc_sets)
  note f = transforming_facts [OF inv t tf]
  have "my S t < cur S" using my_not_current [OF inv t f(1)] c by auto
  then have "of_ids S (cur S) \<noteq> t" using loaded_facts(6) [OF inv t f(1)] f(2) by (simp add: my_facts_def Let_def)
  then show "snd (of_curTx S) \<noteq> t" using inv_shared(1) [OF inv] by (simp add: hist_inv_def)
qed (use p c in \<open>simp add: of_step_def commit_step_def Let_def\<close>)

text \<open>Every step but a successful commit leaves curTx and the last version.\<close>

lemma no_commit:
  assumes "pc S t \<noteq> P_CommitCas \<or> of_curTx S \<noteq> t_my (of_thr S t)"
  shows "of_curTx (of_step C t S) = of_curTx S \<and> of_vers (of_step C t S) = of_vers S"
proof -
  consider "pc S t \<notin> {P_Dcas, P_CommitLog, P_CommitCas}" | "pc S t = P_Dcas" | "pc S t = P_CommitLog" | "pc S t = P_CommitCas" "of_curTx S \<noteq> t_my (of_thr S t)"
    using assms by auto
  then show ?thesis
  proof cases
    case 1
    then show ?thesis using quiet_store [OF 1, of C] by (simp add: same_store_def)
  qed (simp_all add: of_step_def help_step_def commit_step_def again_def Let_def split: prod.split)
qed

lemma word_step:
  assumes inv: "of_inv C s0 S" "of_inv C s0 (of_step C t S)" and t: "t < 128" and w: "word_inv S D" and fl: "flushed_inv S D t"
  shows "word_inv (of_step C t S) (persist_step C t S D)"
proof (cases "pc S t = P_CommitCas \<and> of_curTx S = t_my (of_thr S t)")
  case True
  note cw = commit_won [OF inv(1) t conjunct1 [OF True] conjunct2 [OF True]]
  have "md_word (persist_step C t S D) a \<subseteq> {of_vers S (cur S) a}" for a
    using persist_fence [of S t C D a] True w cw(1) by (auto simp: word_inv_def seen_def)
  then show ?thesis using cw(2,3,5) by (auto simp: word_inv_def)
next
  case False
  let ?S = "of_step C t S" let ?D = "persist_step C t S D"
  have e: "of_curTx ?S = of_curTx S" "of_vers ?S = of_vers S" using no_commit [of S t C] False by auto
  note m = inv_shared(2) [OF inv(2), unfolded mem_inv_def e]
  have all: "md_word ?D a \<subseteq> {of_vers S (cur S) a, of_vers S (cur S - 1) a}" for a
    using persist_le(2) [of C t S D a] w m unfolding word_inv_def by blast
  have "md_word ?D a \<subseteq> {of_vers S (cur S) a}" if ap: "applied ?S (cur S)" for a
  proof (cases "applied S (cur S)")
    case True
    then show ?thesis using persist_le(2) [of C t S D a] w m ap unfolding word_inv_def by auto
  next
    case na: False
    have nc: "pc S t \<noteq> P_CommitCas"
    proof
      assume p: "pc S t = P_CommitCas"
      then have "?S = again t S" using commit_lost(1) [OF inv(1) t p] False by blast
      then show False using ap na by (simp add: applied_def again_def)
    qed
    note l = applied_late [OF inv(1) t nc na ap]
    have lg: "is_log S (cur S) (words_of S t)" using helper_done(1) [OF inv(1) t] l by simp
    have "x = of_vers S (cur S) a" if x: "x \<in> seen D t a" for x
    proof (cases "a \<in> fst ` set (words_of S t)")
      case True
      then obtain j where "j < of_n S t" "a = fst (of_log S t j)" by (auto simp: words_of_def)
      then show ?thesis using fl l x by (simp add: flushed_inv_def)
    next
      case False
      then have "of_vers S (cur S) a = of_vers S (cur S - 1) a" using lg by (simp add: is_log_def apply_words_def)
      then show ?thesis using w x by (auto simp: word_inv_def seen_def)
    qed
    then show ?thesis using persist_fence [of S t C D a] l by auto
  qed
  then show ?thesis using all by (simp add: word_inv_def e)
qed

text \<open>How a thread gets to where it closes the request, or moves curTx, and what it knows of its commit.\<close>

lemma of_step_any:
  "P (announce_step C t S) \<Longrightarrow> P (attempt_step C t S) \<Longrightarrow> P (help_step t S) \<Longrightarrow> P (transform_step C t S) \<Longrightarrow> P (run_step C t S) \<Longrightarrow>
   P (commit_step t S) \<Longrightarrow> P (of_step C t S)"
  by (simp add: of_step_def Let_def)

lemma to_close:
  assumes "pc (of_step C t S) t = P_Close" "pc S t \<noteq> P_Close" shows "pc S t = P_Open \<and> of_step C t S = goto t P_Close S"
proof -
  let ?P = "\<lambda>S'. pc S' t = P_Close \<longrightarrow> pc S t = P_Open"
  note d = again_def help_return_def next_op_def log_store_def Let_def
  have "?P (announce_step C t S)" using assms(2) by (cases "pc S t") (simp_all add: announce_step_def Let_def)
  moreover have "?P (attempt_step C t S)" using assms(2) by (cases "pc S t") (simp_all add: attempt_step_def d)
  moreover have "?P (help_step t S)" using assms(2) by (cases "pc S t") (simp_all add: help_step_def d split: prod.split)
  moreover have "?P (transform_step C t S)" using assms(2) by (cases "pc S t") (simp_all add: transform_step_def d split: option.split)
  moreover have "?P (run_step C t S)" using assms(2) by (cases "pc S t") (simp_all add: run_step_def d split: prog.split)
  moreover have "?P (commit_step t S)" using assms(2) by (cases "pc S t") (simp_all add: commit_step_def d)
  ultimately have "?P (of_step C t S)" by (rule of_step_any)
  then have o: "pc S t = P_Open" using assms(1) by blast
  then have "of_step C t S \<in> {goto t P_Close S, help_return t S}" by (simp add: of_step_def help_step_def split_beta Let_def)
  then show ?thesis using assms(1) o by (auto simp: help_return_def split: if_splits)
qed

lemma after_close: "pc S t = P_Close \<Longrightarrow> pc (of_step C t S) t \<noteq> P_Close"
  by (simp add: of_step_def help_step_def help_return_def split_beta Let_def)

lemma to_cas:
  assumes "pc (of_step C t S) t = P_CommitCas" shows "pc S t = P_CommitLog \<and> \<not> t_k (of_thr S t) < of_n S t"
proof -
  have "pc S t \<in> {P_CommitOpen, P_CommitLog, P_CommitCas}" using other_steps(3) [of S t C] assms by blast
  then consider "pc S t = P_CommitOpen" | "pc S t = P_CommitLog" | "pc S t = P_CommitCas" by blast
  then show ?thesis using assms by cases (auto simp: of_step_def commit_step_def again_def Let_def split: if_splits)
qed

lemma still_committed:
  assumes inv: "of_inv C s0 S" and t: "t < 128" and c: "t_commit (of_thr (of_step C t S) t)"
    and n: "pc S t \<noteq> P_CommitCas \<or> of_curTx S \<noteq> t_my (of_thr S t)"
  shows "t_commit (of_thr S t)" "t_help (of_thr (of_step C t S) t) = t_help (of_thr S t)"
proof -
  show co: "t_commit (of_thr S t)"
  proof (cases "pc S t \<in> {P_CommitOpen, P_CommitLog, P_CommitCas}")
    case True
    then consider "pc S t = P_CommitOpen" | "pc S t = P_CommitLog" | "pc S t = P_CommitCas" by blast
    then show ?thesis using c n by cases (auto simp: of_step_def commit_step_def again_def Let_def split: if_splits)
  qed (use other_steps(4) c in blast)
  have hp: "pc S t \<in> helping" using inv_thread(1) [OF inv t] co unfolding mode_inv_def Let_def by blast
  then have "t_help (of_thr (help_step t S) t) = t_help (of_thr S t)"
    by (cases "pc S t") (simp_all add: help_step_def help_return_def helping_def split_beta Let_def)
  moreover have "of_step C t S = help_step t S" using hp by (auto simp: of_step_def helping_def)
  ultimately show "t_help (of_thr (of_step C t S) t) = t_help (of_thr S t)" by simp
qed

text \<open>No other thread helps a transaction that is yet to be committed.\<close>

lemma not_ahead:
  assumes inv: "of_inv C s0 S" and t: "t < 128" and u: "u < 128" "pc S u \<in> helping" and h: "t_help (of_thr S u) = of_curTx (of_step C t S)"
  shows "pc S t \<noteq> P_CommitCas \<or> of_curTx S \<noteq> t_my (of_thr S t)"
proof (rule ccontr)
  assume "\<not> ?thesis"
  then have "of_curTx (of_step C t S) = (cur S + 1, t)" using commit_won(2) [OF inv t] by blast
  then show False using help_le [OF inv u] h by simp
qed

lemma flushed_invD:
  "flushed_inv S D u \<Longrightarrow> t_help (of_thr S u) = of_curTx S \<Longrightarrow> j < of_n S u \<Longrightarrow> pc S u = P_Close \<or> pc S u = P_Open \<and> j < md_k D u \<Longrightarrow>
   x \<in> seen D u (fst (of_log S u j)) \<Longrightarrow> x = of_vers S (cur S) (fst (of_log S u j))"
  unfolding flushed_inv_def by blast

lemma flushed_step:
  assumes inv: "of_inv C s0 S" "of_inv C s0 (of_step C t S)" and t: "t < 128" and u: "u < 128" and nd: "\<not> flush_due t S D"
    and f: "flushed_inv S D u"
  shows "flushed_inv (of_step C t S) (persist_step C t S D) u"
  unfolding flushed_inv_def
proof (intro impI allI ballI)
  let ?S = "of_step C t S" let ?D = "persist_step C t S D"
  fix j x
  assume h: "t_help (of_thr ?S u) = of_curTx ?S" and j: "j < of_n ?S u" and p: "pc ?S u = P_Close \<or> pc ?S u = P_Open \<and> j < md_k ?D u"
    and x: "x \<in> seen ?D u (fst (of_log ?S u j))"
  have m: "of_mem ?S = of_vers ?S (cur ?S)" using helper_done(2) [OF inv(2) u] p h by auto
  have "x = of_vers ?S (cur ?S) (fst (of_log ?S u j))" if y: "x \<in> seen D u (fst (of_log ?S u j))"
  proof (cases "u = t")
    case False
    note th = others_thread [OF not_sym [OF False], of C S] and lg = others_log [OF not_sym [OF False], of C S]
    have hp: "pc S u \<in> helping" using p th by (auto simp: helping_def)
    have nc: "pc S t \<noteq> P_CommitCas \<or> of_curTx S \<noteq> t_my (of_thr S t)" using not_ahead [OF inv(1) t u hp] h th by simp
    have n: "of_n ?S u = of_n S u" using lg th by simp
    have k: "md_k ?D u = md_k D u" using persist_le(10) False by simp
    show ?thesis using flushed_invD [OF f, of j x] h j p y th lg n k no_commit [OF nc, of C] by simp
  next
    case True
    have "md_k ?D t = 0" using persist_le(10) [of C t S D t] by simp
    then have c: "pc ?S t = P_Close" using p True by simp
    then have o: "pc S t = P_Open" "?S = goto t P_Close S" using to_close [OF c] after_close [of S t C] by auto
    moreover have "of_n S t \<le> md_k D t" using nd o(1) by (simp add: flush_due_def)
    ultimately show ?thesis using flushed_invD [OF f, of j x] h j y True by simp
  qed
  then show "x = of_vers ?S (cur ?S) (fst (of_log ?S u j))" using persist_le(1) [of C t S D u "fst (of_log ?S u j)"] x m by auto
qed

lemma cur_step:
  assumes inv: "of_inv C s0 S" and t: "t < 128" and u: "u < 128" and nd: "\<not> flush_due t S D" and f: "cur_inv S D u"
  shows "cur_inv (of_step C t S) (persist_step C t S D) u"
proof -
  let ?S = "of_step C t S" let ?D = "persist_step C t S D"
  have "seen_cur ?D u \<subseteq> {of_curTx ?S}"
    if c: "t_commit (of_thr ?S u)" and h: "t_help (of_thr ?S u) = of_curTx ?S" and p: "pc ?S u = P_Request \<Longrightarrow> 0 < md_k ?D u"
  proof (cases "u = t")
    case False
    note th = others_thread [OF not_sym [OF False], of C S]
    have hp: "pc S u \<in> helping" using inv_thread(1) [OF inv u] c th unfolding mode_inv_def Let_def by auto
    have nc: "pc S t \<noteq> P_CommitCas \<or> of_curTx S \<noteq> t_my (of_thr S t)" using not_ahead [OF inv t u hp] h th by simp
    have k: "md_k ?D u = md_k D u" using persist_le(10) False by simp
    have "seen_cur D u \<subseteq> {of_curTx S}" using f c h p th k no_commit [OF nc, of C] by (auto simp: cur_inv_def)
    then show ?thesis using persist_le(3) [of C t S D u] no_commit [OF nc, of C] by auto
  next
    case True
    have k: "md_k ?D t = 0" using persist_le(10) [of C t S D t] by simp
    have nc: "pc S t \<noteq> P_CommitCas \<or> of_curTx S \<noteq> t_my (of_thr S t)"
      using commit_won(9) [OF inv t, of] p k True by auto
    note s = still_committed [OF inv t _ nc, of] 
    have co: "t_commit (of_thr S t)" "t_help (of_thr ?S t) = t_help (of_thr S t)" using s c True by auto
    have "pc S t = P_Request \<Longrightarrow> 0 < md_k D t" using nd co(1) by (simp add: flush_due_def)
    then have "seen_cur D t \<subseteq> {of_curTx S}" using f co h no_commit [OF nc, of C] True by (auto simp: cur_inv_def)
    then show ?thesis using persist_le(3) [of C t S D t] no_commit [OF nc, of C] True by auto
  qed
  then show ?thesis unfolding cur_inv_def by blast
qed

lemma plog_same:
  assumes "pc S t \<noteq> P_CommitLog"
  shows "of_plog (of_step C t S) = of_plog S \<and> of_pnum (of_step C t S) = of_pnum S"
proof -
  consider "pc S t \<notin> {P_Dcas, P_CommitLog, P_CommitCas}" | "pc S t = P_Dcas" | "pc S t = P_CommitCas" using assms by auto
  then show ?thesis
  proof cases
    case 1
    then show ?thesis using quiet_store [OF 1, of C] by (simp add: same_store_def)
  qed (simp_all add: of_step_def help_step_def commit_step_def again_def split_beta Let_def)
qed

lemma get_word_in: "distinct (map fst xs) \<Longrightarrow> (a, v) \<in> set xs \<Longrightarrow> get_word a d xs = v"
  by (induction xs) (auto simp: rev_image_eqI)

text \<open>The log of a thread while it is the one of curTx, and when it is about to become it.\<close>

definition log_kept :: "oftm \<Rightarrow> medium \<Rightarrow> nat \<Rightarrow> bool" where
  "log_kept S D u \<longleftrightarrow> md_num D u \<subseteq> {of_pnum S u} \<and> (\<forall>k<of_pnum S u. md_log D u k \<subseteq> {of_plog S u k} \<and>
     snd (of_plog S u k) = fst (of_vers S (cur S) (fst (of_plog S u k))))"

definition log_flushed :: "oftm \<Rightarrow> medium \<Rightarrow> nat \<Rightarrow> bool" where
  "log_flushed S D u \<longleftrightarrow> seen_num D u \<subseteq> {of_pnum S u} \<and> (\<forall>k<of_pnum S u. seen_log D u k \<subseteq> {of_plog S u k})"

lemma log_inv_iff: "log_inv S D u \<longleftrightarrow> (snd (of_curTx S) = u \<longrightarrow> pc S u \<notin> {P_CommitLog, P_CommitCas} \<longrightarrow> log_kept S D u)
    \<and> (pc S u = P_CommitCas \<longrightarrow> log_flushed S D u)"
  unfolding log_inv_def log_kept_def log_flushed_def by blast

lemma log_won:
  assumes inv: "of_inv C s0 S" and t: "t < 128" and p: "pc S t = P_CommitCas" and c: "of_curTx S = t_my (of_thr S t)"
    and w: "log_written S t" and f: "log_flushed S D t"
  shows "log_kept (of_step C t S) (persist_step C t S D) t"
proof -
  note cw = commit_won [OF inv t p c]
  have l: "of_pnum S t = of_n S t" "\<And>k. k < of_n S t \<Longrightarrow> of_plog S t k = of_log S t k" using w p by (simp_all add: log_written_def Let_def)
  have d: "md_num (persist_step C t S D) t = seen_num D t" "md_log (persist_step C t S D) t k = seen_log D t k" for k
    using p c by (simp_all add: persist_step_def Let_def store_seen fence_seen)
  have "snd (of_log S t k) = fst (apply_words (cur S + 1) (words_of S t) (of_vers S (cur S)) (fst (of_log S t k)))" if k: "k < of_n S t" for k
  proof -
    have "of_log S t k \<in> set (words_of S t)" using k by (simp add: words_of_def)
    then show ?thesis using get_word_in [OF cw(10), of "fst (of_log S t k)" "snd (of_log S t k)" 0] by (simp add: apply_words_def)
  qed
  then show ?thesis using f l by (simp add: log_kept_def log_flushed_def d cw(2,4,6,7) cw(4) [simplified])
qed

lemma medlog_step:
  assumes inv: "of_inv C s0 S" and t: "t < 128" and w: "log_written S t" and f: "log_inv S D u" "log_inv S D t"
  shows "log_inv (of_step C t S) (persist_step C t S D) u"
proof -
  let ?S = "of_step C t S" let ?D = "persist_step C t S D"
  have 1: "log_kept ?S ?D u" if o: "snd (of_curTx ?S) = u" and p: "pc ?S u \<notin> {P_CommitLog, P_CommitCas}"
  proof (cases "pc S t = P_CommitCas \<and> of_curTx S = t_my (of_thr S t)")
    case True
    then have "log_flushed S D t" using f(2) by (simp add: log_inv_iff)
    then show ?thesis using log_won [OF inv t _ _ w] True commit_won(2) [OF inv t] o by force
  next
    case False
    then have e: "of_curTx ?S = of_curTx S" "of_vers ?S = of_vers S" using no_commit [of S t C] by auto
    show ?thesis
    proof (cases "u = t")
      case ut: False
      note th = others_thread [OF not_sym [OF ut], of C S] and lg = others_log [OF not_sym [OF ut], of C S]
      have "log_kept S D u" using f(1) o p e th by (simp add: log_inv_iff)
      then show ?thesis using e lg persist_le(6,7) [OF ut, of C S D] by (simp add: log_kept_def)
    next
      case True
      have nl: "pc S t \<noteq> P_CommitLog" using p True by (auto simp: of_step_def commit_step_def Let_def split: if_splits)
      have "pc S t \<noteq> P_CommitCas" using commit_lost(2) [OF inv t] False o e True by auto
      then have "log_kept S D t" using f(1) o e nl True by (simp add: log_inv_iff)
      then show ?thesis
        using e True plog_same [OF nl, of C] persist_le(4) [OF nl, of C D t] persist_le(5) [OF nl, of C D t] unfolding log_kept_def by fastforce
    qed
  qed
  have 2: "log_flushed ?S ?D u" if p: "pc ?S u = P_CommitCas"
  proof (cases "u = t")
    case False
    note th = others_thread [OF not_sym [OF False], of C S] and lg = others_log [OF not_sym [OF False], of C S]
    have "log_flushed S D u" using f(1) p th by (simp add: log_inv_iff)
    then show ?thesis using lg persist_le(8,9) [OF False, of C S D] by (simp add: log_flushed_def)
  next
    case True
    note c = to_cas [of C t S]
    have "?D = flush_log t ?S (store_num t (of_pnum ?S t) (D\<lparr>md_k := (md_k D)(t := 0)\<rparr>))" using c p True by (simp add: persist_step_def Let_def)
    then show ?thesis using True by (auto simp: log_flushed_def flush_log_def store_num_def seen_defs)
  qed
  show ?thesis using 1 2 by (simp add: log_inv_iff)
qed

text \<open>A write-back between two steps.\<close>

lemma flush_same:
  "md_word (flush_step t S D) = md_word D" "md_cur (flush_step t S D) = md_cur D" "md_log (flush_step t S D) = md_log D"
  "md_num (flush_step t S D) = md_num D" "seen_log (flush_step t S D) u k = seen_log D u k" "seen_num (flush_step t S D) u = seen_num D u"
  "md_k (flush_step t S D) u = (if u = t then md_k D t + 1 else md_k D u)"
  "u \<noteq> t \<Longrightarrow> seen (flush_step t S D) u a = seen D u a" "u \<noteq> t \<Longrightarrow> seen_cur (flush_step t S D) u = seen_cur D u"
  "pc S t = P_Request \<Longrightarrow> seen_cur (flush_step t S D) t = md_cur D \<inter> {of_curTx S}"
  "pc S t \<noteq> P_Request \<Longrightarrow> seen_cur (flush_step t S D) t = seen_cur D t"
  "pc S t \<noteq> P_Request \<Longrightarrow> seen (flush_step t S D) t a =
     (if a = fst (of_log S t (md_k D t)) then md_word D a \<inter> {of_mem S a} else seen D t a)"
  by (auto simp: flush_step_def pwb_cur_def pwb_word_def Let_def seen_defs)

lemma flush_inv:
  assumes inv: "of_inv C s0 S" and d: "flush_due t S D" and p: "pm_inv S D"
  shows "pm_inv S (flush_step t S D)"
proof -
  let ?D = "flush_step t S D"
  have t: "t < 128" using inv d by (auto simp: of_inv_def flush_due_def not_le [symmetric])
  have f: "flushed_inv S ?D u" if u: "u < 128" for u
    unfolding flushed_inv_def
  proof (intro impI allI ballI)
    fix j x
    assume h: "t_help (of_thr S u) = of_curTx S" "j < of_n S u" "pc S u = P_Close \<or> pc S u = P_Open \<and> j < md_k ?D u"
      and x: "x \<in> seen ?D u (fst (of_log S u j))"
    have m: "of_mem S = of_vers S (cur S)" using helper_done(2) [OF inv u] h by auto
    have i: "flushed_inv S D u" using p u by (simp add: pm_inv_def)
    show "x = of_vers S (cur S) (fst (of_log S u j))"
    proof (cases "u = t")
      case False
      then show ?thesis using flushed_invD [OF i h(1,2)] h(3) x by (simp add: flush_same)
    next
      case True
      then have o: "pc S t = P_Open" using d h(3) by (auto simp: flush_due_def)
      show ?thesis
      proof (cases "fst (of_log S t j) = fst (of_log S t (md_k D t))")
        case True
        then show ?thesis using x \<open>u = t\<close> o m by (simp add: flush_same)
      next
        case False
        then have "j \<noteq> md_k D t" by auto
        then have "j < md_k D t" using h(3) o \<open>u = t\<close> by (simp add: flush_same)
        then show ?thesis using flushed_invD [OF i h(1,2)] x \<open>u = t\<close> o False by (simp add: flush_same)
      qed
    qed
  qed
  have c: "cur_inv S ?D u" if u: "u < 128" for u
    using p u d by (cases "u = t"; cases "pc S t = P_Request") (auto simp: pm_inv_def cur_inv_def flush_same flush_due_def)
  show ?thesis using p f c now_flush by (simp add: pm_inv_def word_inv_def log_inv_def flush_same)
qed

text \<open>Every reachable state.\<close>

lemma boot_inv:
  assumes "log_fresh m curTx pl pn"
  shows "pm_inv (of_init m curTx req pl pn) (medium_boot m curTx pl pn)"
  using assms
  by (auto simp: pm_inv_def now_inv_def word_inv_def flushed_inv_def log_inv_def cur_inv_def of_init_def thread_new_def medium_boot_def seen_defs log_fresh_def)

lemma pm_inv_thread:
  assumes inv: "of_inv C s0 S" "of_inv C s0 (of_step C t S)" and t: "t < 128" and nd: "\<not> flush_due t S D" and w: "log_written S t" and p: "pm_inv S D"
  shows "pm_inv (of_step C t S) (persist_step C t S D)"
  using now_step [of S D C t] word_step [OF inv t, of D] flushed_step [OF inv t _ nd] cur_step [OF inv(1) t _ nd] medlog_step [OF inv(1) t w] p t
  unfolding pm_inv_def by blast

lemma pm_inv_call:
  assumes s: "same_store S S'" "of_request S' = of_request S" and o: "\<And>u. u \<noteq> t \<Longrightarrow> of_thr S' u = of_thr S u \<and> of_n S' u = of_n S u \<and> of_log S' u = of_log S u"
    and p: "pc S' t \<notin> {P_Open, P_Close, P_CommitLog, P_CommitCas}" "\<not> t_commit (of_thr S' t)" "pc S t = P_Idle" and i: "pm_inv S D"
  shows "pm_inv S' D"
proof -
  note e = s(1) [unfolded same_store_def]
  have ap: "applied S' (cur S') = applied S (cur S)" using e s(2) by (simp add: applied_def)
  have "word_inv S' D" using i ap e by (simp add: pm_inv_def word_inv_def)
  moreover have "flushed_inv S' D u" if "u < 128" for u
    using i that p o [of u] e by (cases "u = t") (simp_all add: pm_inv_def flushed_inv_def)
  moreover have "log_inv S' D u" if "u < 128" for u
    using i that p o [of u] e by (cases "u = t") (simp_all add: pm_inv_def log_inv_def)
  moreover have "cur_inv S' D u" if "u < 128" for u
    using i that p o [of u] e by (cases "u = t") (simp_all add: pm_inv_def cur_inv_def)
  ultimately show ?thesis using i now_same [OF s(1)] by (simp add: pm_inv_def)
qed

lemma pm_reach_inv:
  assumes "pm_reach C (of_init m curTx req pl pn) (medium_boot m curTx pl pn) S D" "of_fresh C m curTx" "cfg_ok C" "log_fresh m curTx pl pn"
  shows "pm_inv S D"
  using assms(1)
proof induction
  case pm_start
  show ?case by (rule boot_inv [OF assms(4)])
next
  case (pm_register S D n)
  then show ?case by (simp add: pm_inv_def now_inv_def word_inv_def flushed_inv_def log_inv_def cur_inv_def applied_def)
next
  case (pm_update S D t f)
  note inv = of_reach_inv [OF pm_reach_of [OF pm_update.hyps(1)] assms(2,3)]
  have "t < 128" using pm_update.hyps(3) inv_shared(4) [OF inv] by simp
  then have "\<not> t_commit (of_thr S t)" using inv_thread(1) [OF inv, of t] pm_update.hyps(2) by (auto simp: mode_inv_def Let_def helping_def)
  then show ?case
    by (intro pm_inv_call [OF _ _ _ _ _ pm_update.hyps(2) pm_update.IH]) (simp_all add: call_update_def same_store_def)
next
  case (pm_read S D t f)
  note inv = of_reach_inv [OF pm_reach_of [OF pm_read.hyps(1)] assms(2,3)]
  have "t < 128" using pm_read.hyps(3) inv_shared(4) [OF inv] by simp
  then have "\<not> t_commit (of_thr S t)" using inv_thread(1) [OF inv, of t] pm_read.hyps(2) by (auto simp: mode_inv_def Let_def helping_def)
  then show ?case
    by (intro pm_inv_call [OF _ _ _ _ _ pm_read.hyps(2) pm_read.IH]) (simp_all add: call_read_def same_store_def)
next
  case (pm_flush S D t)
  show ?case by (rule flush_inv [OF of_reach_inv [OF pm_reach_of [OF pm_flush.hyps(1)] assms(2,3)] pm_flush.hyps(2) pm_flush.IH])
next
  case (pm_thread S D t)
  note r = pm_reach_of [OF pm_thread.hyps(1)]
  note inv = of_reach_inv [OF r assms(2,3)] of_reach_inv [OF of_thread [OF r pm_thread.hyps(2)] assms(2,3)]
  have t: "t < 128" using inv(1) pm_thread.hyps(2) by (auto simp: of_inv_def not_le [symmetric])
  have "log_written S t" using reach_written [OF r assms(2-4)] t by blast
  then show ?case using pm_inv_thread [OF inv t pm_thread.hyps(3)] pm_thread.IH by blast
qed

subsection \<open>Recovery of the last transaction\<close>

text \<open>Every run of OneFile is one with its medium: the write-backs are never in the way.\<close>

lemma flush_all:
  "pm_reach C S0 D0 S D \<Longrightarrow> \<exists>D'. pm_reach C S0 D0 S D' \<and> \<not> flush_due t S D'"
proof (induction "of_n S t - md_k D t" arbitrary: D rule: less_induct)
  case less
  show ?case
  proof (cases "flush_due t S D")
    case True
    note r = pm_flush [OF less.prems True]
    show ?thesis
    proof (cases "pc S t = P_Open")
      case o: True
      then have "md_k D t < of_n S t" using True by (simp add: flush_due_def)
      then show ?thesis using less.hyps [OF _ r] by (simp add: flush_same)
    next
      case False
      then have "\<not> flush_due t S (flush_step t S D)" by (simp add: flush_due_def flush_same)
      then show ?thesis using r by blast
    qed
  qed (use less.prems in blast)
qed

lemma pm_reach_all: "of_reach C S0 S \<Longrightarrow> \<exists>D. pm_reach C S0 D0 S D"
proof (induction rule: of_reach.induct)
  case (of_thread S t)
  then obtain D where "pm_reach C S0 D0 S D" "\<not> flush_due t S D" using flush_all by blast
  then show ?case using pm_thread of_thread.hyps(2) by blast
qed (blast intro: pm_reach.intros)+

text \<open>What applyFromRecover stores, where the log agrees with a memory.\<close>

lemma recover_words:
  assumes "\<And>a v. (a, v) \<in> set xs \<Longrightarrow> v = f a"
  shows "fold put_value xs m a = (if a \<in> fst ` set xs then (f a, snd (m a)) else m a)"
  using assms
proof (induction xs arbitrary: m)
  case (Cons x xs)
  have v: "snd x = f (fst x)" using Cons.prems [of "fst x" "snd x"] by simp
  have "fold put_value xs (put_value x m) a = (if a \<in> fst ` set xs then (f a, snd (put_value x m a)) else put_value x m a)"
    using Cons.prems by (intro Cons.IH) simp
  then show ?case using v by (cases "a = fst x") (simp_all add: put_value_def [of x m])
qed simp

text \<open>The words that the log does not hold are those of the last transaction already.\<close>

lemma log_covers:
  assumes inv: "of_inv C s0 S" and t: "t = snd (of_curTx S)" "t < 128" and w: "log_written S t"
    and a: "a \<notin> fst ` of_plog S t ` {..<of_pnum S t}" and na: "\<not> applied S (cur S)"
  shows "of_vers S (cur S) a = of_vers S (cur S - 1) a"
proof -
  have lg: "is_log S (cur S) (words_of S t)" using inv_shared(3) [OF inv] na t(1) by (simp add: req_inv_def)
  have o: "own_open S t" using na t(1) by (simp add: own_open_def)
  have "a \<notin> fst ` set (words_of S t)"
  proof (cases "t_commit (of_thr S t)")
    case True
    then have "of_pnum S t = of_n S t" "\<forall>j<of_n S t. of_plog S t j = of_log S t j" using w by (simp_all add: log_written_def Let_def)
    then show ?thesis using a by (auto simp: words_of_def)
  next
    case False
    then show ?thesis using inv_thread(7) [OF inv t(2)] o by (simp add: own_inv_def words_of_def)
  qed
  then show ?thesis using lg by (simp add: is_log_def apply_words_def)
qed

lemma image_log:
  assumes "pm_inv S D" "medium_image D I" "im_cur I = of_curTx S" "t = snd (of_curTx S)" "t < 128" "pc S t \<notin> {P_CommitLog, P_CommitCas}"
  shows "im_num I t = of_pnum S t" "k < of_pnum S t \<Longrightarrow> im_log I t k = of_plog S t k"
    "k < of_pnum S t \<Longrightarrow> snd (of_plog S t k) = fst (of_vers S (cur S) (fst (of_plog S t k)))"
proof -
  have k: "log_kept S D t" using assms by (simp add: pm_inv_def log_inv_iff)
  have i: "im_num I t \<in> md_num D t" "fst (im_log I t k) \<in> fst ` md_log D t k" "snd (im_log I t k) \<in> snd ` md_log D t k"
    using assms(2) by (simp_all add: medium_image_def)
  show "im_num I t = of_pnum S t" using k i(1) by (auto simp: log_kept_def)
  show "im_log I t k = of_plog S t k" if "k < of_pnum S t"
  proof -
    have "md_log D t k \<subseteq> {of_plog S t k}" using k that by (simp add: log_kept_def)
    then have "fst (im_log I t k) = fst (of_plog S t k) \<and> snd (im_log I t k) = snd (of_plog S t k)" using i(2,3) by blast
    then show ?thesis by (simp add: prod_eq_iff)
  qed
  show "k < of_pnum S t \<Longrightarrow> snd (of_plog S t k) = fst (of_vers S (cur S) (fst (of_plog S t k)))" using k by (simp add: log_kept_def)
qed

lemma recover_last:
  assumes inv: "of_inv C s0 S" and p: "pm_inv S D" and w: "log_written S t" and t: "t = snd (of_curTx S)" "t < 128" "pc S t \<notin> {P_CommitLog, P_CommitCas}"
    and I: "medium_image D I" "im_cur I = of_curTx S" and M: "\<And>a. fst (M a) = fst (im_word I a) \<or> fst (M a) = fst (of_vers S (cur S) a)"
  shows "fst (recover_image (I\<lparr>im_word := M\<rparr>) a) = fst (of_vers S (cur S) a)" "snd (recover_image (I\<lparr>im_word := M\<rparr>) a) = snd (M a)"
proof -
  note il = image_log [OF p I t]
  let ?xs = "map (of_plog S t) [0..<of_pnum S t]"
  have xs: "map (im_log I t) [0..<im_num I t] = ?xs" using il(1,2) by simp
  have r: "recover_image (I\<lparr>im_word := M\<rparr>) a = (if a \<in> fst ` set ?xs then (fst (of_vers S (cur S) a), snd (M a)) else M a)"
  proof -
    have "v = fst (of_vers S (cur S) b)" if bv: "(b, v) \<in> set ?xs" for b v
    proof -
      obtain k where "k < of_pnum S t" "(b, v) = of_plog S t k" using bv by auto
      then show ?thesis using il(3) [of k] by (metis fst_conv snd_conv)
    qed
    then have "fold put_value ?xs M a = (if a \<in> fst ` set ?xs then (fst (of_vers S (cur S) a), snd (M a)) else M a)"
      by (rule recover_words [where f = "\<lambda>b. fst (of_vers S (cur S) b)"])
    then show ?thesis using I(2) t(1) xs by (simp add: recover_image_def Let_def)
  qed
  then show "snd (recover_image (I\<lparr>im_word := M\<rparr>) a) = snd (M a)" by simp
  show "fst (recover_image (I\<lparr>im_word := M\<rparr>) a) = fst (of_vers S (cur S) a)"
  proof (cases "a \<in> fst ` set ?xs")
    case False
    have wi: "word_inv S D" and im: "im_word I a \<in> md_word D a" using p I(1) by (simp_all add: pm_inv_def medium_image_def)
    have "im_word I a = of_vers S (cur S) a"
    proof (cases "applied S (cur S)")
      case na: False
      have "a \<notin> fst ` of_plog S t ` {..<of_pnum S t}" using False by auto
      then have "of_vers S (cur S) a = of_vers S (cur S - 1) a" by (rule log_covers [OF inv t(1,2) w _ na])
      moreover have "im_word I a \<in> {of_vers S (cur S) a, of_vers S (cur S - 1) a}" using wi im unfolding word_inv_def by blast
      ultimately show ?thesis by simp
    qed (use wi im in \<open>auto simp: word_inv_def\<close>)
    then show ?thesis using M [of a] r False by auto
  qed (use r in simp)
qed

definition image_now :: "oftm \<Rightarrow> ofimage" where
  "image_now S = \<lparr>im_word = of_mem S, im_cur = of_curTx S, im_log = of_plog S, im_num = of_pnum S\<rparr>"

lemma image_now_crash: "now_inv S D \<Longrightarrow> medium_image D (image_now S)"
  by (auto simp: now_inv_def medium_image_def image_now_def seen_defs)

text \<open>
  C10: OneFile's recovery, with stores, write-backs and fences as steps. In every state that any
  number of threads can reach, and for everything a crash there can leave on the medium (what the
  memory holds is always among it), if the medium names the last transaction as curTx and its
  thread is not writing or committing the log of its next attempt, then recover leaves the
  words of exactly that transaction, also when an earlier recovery was itself cut short after any
  part of its stores; what it leaves is a state from which the theorems on OneFile start again,
  for any new array of results that the log does not name. And curTx is on the medium for good
  once the thread that committed the transaction has gone through the compare-and-swap that closes
  the request; before that, the medium may name an earlier transaction.
\<close>

theorem onefile_recovers:
  assumes "pm_reach C (of_init m curTx req pl pn) (medium_boot m curTx pl pn) S D" "of_fresh C m curTx" "cfg_ok C" "log_fresh m curTx pl pn"
  shows "medium_image D (image_now S)
    \<and> (\<forall>I M. medium_image D I \<longrightarrow> im_cur I = of_curTx S \<longrightarrow> pc S (snd (of_curTx S)) \<notin> {P_CommitLog, P_CommitCas} \<longrightarrow>
        (\<forall>a. M a \<in> {im_word I a, recover_image I a}) \<longrightarrow> (let R = recover_image (I\<lparr>im_word := M\<rparr>) in
          fst \<circ> R = fst \<circ> of_vers S (cur S)
          \<and> (\<forall>C'. (\<forall>j<im_num I (snd (im_cur I)). fst (im_log I (snd (im_cur I)) j) \<notin> result_at C' ` {..<128}) \<longrightarrow>
               of_fresh C' (restart_mem C' R) (im_cur I) \<and> log_fresh (restart_mem C' R) (im_cur I) (im_log I) (im_num I))))
    \<and> (\<forall>t. pc S t = P_Close \<longrightarrow> t_commit (of_thr S t) \<longrightarrow> t_help (of_thr S t) = of_curTx S \<longrightarrow> md_cur (persist_step C t S D) = {of_curTx S})"
proof (intro conjI allI impI)
  note p = pm_reach_inv [OF assms] and r = pm_reach_of [OF assms(1)]
  note inv = of_reach_inv [OF r assms(2,3)]
  let ?t = "snd (of_curTx S)"
  have t: "?t < 128" "log_written S ?t" using reach_written [OF r assms(2-4)] by auto
  show "medium_image D (image_now S)" using p image_now_crash by (simp add: pm_inv_def)
  show "md_cur (persist_step C u S D) = {of_curTx S}"
    if u: "pc S u = P_Close" "t_commit (of_thr S u)" "t_help (of_thr S u) = of_curTx S" for u
  proof -
    have lt: "u < 128" using inv u(1) by (auto simp: of_inv_def not_le [symmetric])
    have "seen_cur D u \<subseteq> {of_curTx S}" using p lt u by (simp add: pm_inv_def cur_inv_def)
    moreover have "of_curTx S \<in> seen_cur D u" using p by (simp add: pm_inv_def now_inv_def)
    ultimately show ?thesis using u(1) by (auto simp: persist_step_def Let_def fence_seen)
  qed
  fix I M
  assume I: "medium_image D I" "im_cur I = of_curTx S" and np: "pc S ?t \<notin> {P_CommitLog, P_CommitCas}"
    and M: "\<forall>a. M a \<in> {im_word I a, recover_image I a}"
  note rl = recover_last [OF inv p t(2) refl t(1) np I]
  have ri: "fst (recover_image I a) = fst (of_vers S (cur S) a)" "snd (recover_image I a) = snd (im_word I a)" for a
    using rl [of "im_word I" a] by simp_all
  have M1: "fst (M a) = fst (im_word I a) \<or> fst (M a) = fst (of_vers S (cur S) a)" "snd (M a) = snd (im_word I a)" for a
  proof -
    have "M a = im_word I a \<or> M a = recover_image I a" using M by blast
    then show "fst (M a) = fst (im_word I a) \<or> fst (M a) = fst (of_vers S (cur S) a)" "snd (M a) = snd (im_word I a)" using ri [of a] by auto
  qed
  define R where "R = recover_image (I\<lparr>im_word := M\<rparr>)"
  have R: "fst (R a) = fst (of_vers S (cur S) a)" "snd (R a) = snd (im_word I a)" for a
    using rl [of M a] M1 unfolding R_def by simp_all
  have sq: "snd (im_word I a) \<le> cur S" for a
  proof -
    have "im_word I a \<in> {of_vers S (cur S) a, of_vers S (cur S - 1) a}" using p I(1) unfolding pm_inv_def word_inv_def medium_image_def by blast
    then show ?thesis using vers_bound [OF inv_shared(1) [OF inv], of "cur S" a] vers_bound [OF inv_shared(1) [OF inv], of "cur S - 1" a] by auto
  qed
  have one: "1 \<le> cur S" using inv_shared(1) [OF inv] by (simp add: hist_inv_def)
  note il = image_log [OF p I refl t(1) np]
  have "of_fresh C' (restart_mem C' R) (im_cur I) \<and> log_fresh (restart_mem C' R) (im_cur I) (im_log I) (im_num I)"
    if d: "\<forall>j<im_num I (snd (im_cur I)). fst (im_log I (snd (im_cur I)) j) \<notin> result_at C' ` {..<128}" for C'
  proof
    show "of_fresh C' (restart_mem C' R) (im_cur I)" using one sq R(2) I(2) by (auto simp: of_fresh_def restart_mem_def)
    have "fst (restart_mem C' R (fst (im_log I ?t j))) = snd (im_log I ?t j)" if j: "j < im_num I ?t" for j
      using d j I(2) R(1) il by (simp add: restart_mem_def)
    then show "log_fresh (restart_mem C' R) (im_cur I) (im_log I) (im_num I)" using t(1) I(2) by (simp add: log_fresh_def)
  qed
  moreover have "fst \<circ> R = fst \<circ> of_vers S (cur S)" using R(1) by auto
  ultimately show "let R = recover_image (I\<lparr>im_word := M\<rparr>) in fst \<circ> R = fst \<circ> of_vers S (cur S)
      \<and> (\<forall>C'. (\<forall>j<im_num I (snd (im_cur I)). fst (im_log I (snd (im_cur I)) j) \<notin> result_at C' ` {..<128}) \<longrightarrow>
           of_fresh C' (restart_mem C' R) (im_cur I) \<and> log_fresh (restart_mem C' R) (im_cur I) (im_log I) (im_num I))"
    unfolding Let_def R_def by blast
qed

subsection \<open>A crash in a run of one thread\<close>

text \<open>The first double-word compare-and-swap of the run, and a crash at which its store is not yet on the medium.\<close>

definition ex_dcas :: oftm where "ex_dcas = of_steps ex_cfg 0 30 ex_called"

definition ex_open :: oftm where "ex_open = of_step ex_cfg 0 ex_dcas"

definition ex_medium :: medium where "ex_medium = medium_boot (\<lambda>_. (0, 1)) (1, 0) (\<lambda>_ _. (0, 0)) (\<lambda>_. 0)"

definition ex_image :: ofimage where "ex_image = (image_now ex_open)\<lparr>im_word := (of_mem ex_open)(0x1000 := (0, 1))\<rparr>"

lemma ex_open_eval:
  "pc ex_dcas 0 = P_Dcas" "fst (help_entry 0 ex_dcas) = 0x1000" "of_mem ex_dcas 0x1000 = (0, 1)" "t_val (of_thr ex_dcas 0) = 0" "t_seq (of_thr ex_dcas 0) = 1"
  "of_mem ex_open 0x1000 = (7, 2)" "of_curTx ex_open = (2, 0)" "pc ex_open 0 = P_Val" "fst (of_vers ex_open 2 0x1000) = 7"
  by (simp_all add: ex_defs ex_dcas_def ex_open_def of_eval)

lemma ex_crash:
  "\<exists>D. pm_reach ex_cfg ex_start ex_medium ex_open D \<and> medium_image D ex_image"
proof -
  have "of_reach ex_cfg ex_start ex_dcas" unfolding ex_dcas_def by (rule of_reach_steps [OF ex_reach(1)])
  then obtain D where D: "pm_reach ex_cfg ex_start ex_medium ex_dcas D" using pm_reach_all by blast
  have nd: "\<not> flush_due 0 ex_dcas D" using ex_open_eval(1) by (simp add: flush_due_def)
  have np: "pc ex_dcas 0 \<notin> {P_Idle, P_Crashed}" using ex_open_eval(1) by simp
  let ?D = "persist_step ex_cfg 0 ex_dcas D"
  have r: "pm_reach ex_cfg ex_start ex_medium ex_open ?D" unfolding ex_open_def by (rule pm_thread [OF D np nd])
  note i = pm_reach_inv [where req = "\<lambda>_. (0, 0)", OF _ ex_fresh(1) ex_cfg_ok ex_fresh(2), folded ex_start_def ex_medium_def, unfolded pm_inv_def]
  have c: "medium_image ?D (image_now ex_open)" using i [OF r] image_now_crash by blast
  have "(0, 1) \<in> seen D 0 0x1000" using i [OF D] ex_open_eval(3) unfolding now_inv_def by metis
  then have "(0, 1) \<in> md_word ?D 0x1000" using ex_open_eval(1-5) by (simp add: persist_step_def store_seen fence_seen)
  then have "medium_image ?D ex_image" using c by (simp add: medium_image_def ex_image_def image_now_def)
  then show ?thesis using r by blast
qed

theorem onefile_recovers_witness:
  "\<exists>D. pm_reach ex_cfg ex_start ex_medium ex_open D \<and> medium_image D ex_image \<and> of_mem ex_open 0x1000 = (7, 2) \<and> im_word ex_image 0x1000 = (0, 1)
     \<and> fst \<circ> recover_image ex_image = fst \<circ> of_vers ex_open 2 \<and> fst (recover_image ex_image 0x1000) = 7"
proof -
  obtain D where D: "pm_reach ex_cfg ex_start ex_medium ex_open D" "medium_image D ex_image" using ex_crash by blast
  have cu: "im_cur ex_image = of_curTx ex_open" "im_word ex_image 0x1000 = (0, 1)" by (simp_all add: ex_image_def image_now_def)
  have np: "pc ex_open (snd (of_curTx ex_open)) \<notin> {P_CommitLog, P_CommitCas}" using ex_open_eval by simp
  have M: "\<forall>a. im_word ex_image a \<in> {im_word ex_image a, recover_image ex_image a}" by simp
  have "fst \<circ> recover_image ex_image = fst \<circ> of_vers ex_open 2"
    using onefile_recovers [OF D(1) [unfolded ex_start_def ex_medium_def] ex_fresh(1) ex_cfg_ok ex_fresh(2)] D(2) cu(1) np M ex_open_eval(7)
    by (auto simp: Let_def dest!: spec [of _ ex_image] spec [of _ "im_word ex_image"])
  then show ?thesis using D cu ex_open_eval(6,9) by (metis comp_apply)
qed

end
