(* ===== verification/Slices.thy ===== *)
theory Slices
  imports PTM_Prelude "HOL-Library.Sublist"
begin

text \<open>
  Byte strings of the database front end: ptmdb/slice.h (Slice, a pointer and a size),
  ptmdb/status.h and status.cc (Status, a result packed into one heap array) and
  ptmdb/write_batch.h and write_batch.cc (WriteBatch, a vector of buffered updates). A char is
  a signed 8-bit integer, as on the platforms the Makefile builds for; a char array is the
  list of its bytes.
\<close>

subsection \<open>Bytes\<close>

type_synonym bytes = "u8 list"

definition lit :: "string \<Rightarrow> bytes" where
  "lit s = map of_char s"

text \<open>A char in integer arithmetic: sign-extended, then converted to uint64\_t.\<close>

definition char_u64 :: "u8 \<Rightarrow> u64" where
  "char_u64 c = scast c"

text \<open>memcmp on the first n bytes: the sign of the first difference, as unsigned bytes.\<close>

fun memcmp :: "bytes \<Rightarrow> bytes \<Rightarrow> nat \<Rightarrow> int" where
  "memcmp (a # as) (b # bs) (Suc n) = (if a < b then -1 else if b < a then 1 else memcmp as bs n)"
| "memcmp _ _ _ = 0"

text \<open>strlen: the bytes in front of the first NUL.\<close>

definition c_str :: "bytes \<Rightarrow> bytes" where
  "c_str bs = takeWhile (\<lambda>c. c \<noteq> 0) bs"

subsection \<open>Slice\<close>

text \<open>
  The array behind data\_ is kept whole, from data\_ to its end: a slice may refer to a prefix
  of it. isreplica marks a slice that owns its array.
\<close>

record slice =
  sl_data :: bytes
  sl_size :: u64
  sl_isreplica :: bool

definition slice_empty :: slice where
  "slice_empty = \<lparr>sl_data = [0], sl_size = 0, sl_isreplica = False\<rparr>"

definition slice_of_array :: "bytes \<Rightarrow> u64 \<Rightarrow> slice" where
  "slice_of_array d n = \<lparr>sl_data = d, sl_size = n, sl_isreplica = False\<rparr>"

text \<open>data() of a std::string is followed by a NUL.\<close>

definition slice_of_string :: "bytes \<Rightarrow> slice" where
  "slice_of_string s = \<lparr>sl_data = s @ [0], sl_size = of_nat (length s), sl_isreplica = False\<rparr>"

definition slice_of_cstr :: "bytes \<Rightarrow> slice option" where
  "slice_of_cstr s =
     (if 0 \<in> set s
      then Some \<lparr>sl_data = s, sl_size = of_nat (length (c_str s)), sl_isreplica = False\<rparr> else None)"

text \<open>The copy constructor copies size\_+1 bytes, so there must be one behind the slice.\<close>

definition slice_copy :: "slice \<Rightarrow> slice option" where
  "slice_copy other =
     (let n = unat (sl_size other + 1)
      in if n \<le> length (sl_data other)
         then Some \<lparr>sl_data = take n (sl_data other), sl_size = sl_size other, sl_isreplica = True\<rparr>
         else None)"

definition slice_empty_test :: "slice \<Rightarrow> bool" where
  "slice_empty_test s \<longleftrightarrow> sl_size s = 0"

definition slice_at :: "slice \<Rightarrow> u64 \<Rightarrow> u8 option" where
  "slice_at s n = (if n < sl_size s then Some (sl_data s ! unat n) else None)"

definition slice_clear :: "slice \<Rightarrow> slice" where
  "slice_clear s = s\<lparr>sl_data := [0], sl_size := 0\<rparr>"

definition remove_prefix :: "u64 \<Rightarrow> slice \<Rightarrow> slice option" where
  "remove_prefix n s =
     (if n \<le> sl_size s
      then Some (s\<lparr>sl_data := drop (unat n) (sl_data s), sl_size := sl_size s - n\<rparr>) else None)"

definition slice_ToString :: "slice \<Rightarrow> bytes" where
  "slice_ToString s = take (unat (sl_size s)) (sl_data s)"

definition slice_starts_with :: "slice \<Rightarrow> slice \<Rightarrow> bool" where
  "slice_starts_with s x \<longleftrightarrow>
     sl_size x \<le> sl_size s \<and> memcmp (sl_data s) (sl_data x) (unat (sl_size x)) = 0"

definition hash_step :: "u64 \<Rightarrow> u8 \<Rightarrow> u64" where
  "hash_step h c = (push_bit 5 h + h) + char_u64 c"

definition slice_toHash :: "slice \<Rightarrow> u64" where
  "slice_toHash s = fold (\<lambda>i h. hash_step h (sl_data s ! i)) [0..<unat (sl_size s)] 5381"

definition slice_eq :: "slice \<Rightarrow> slice \<Rightarrow> bool" where
  "slice_eq x y \<longleftrightarrow> sl_size x = sl_size y \<and> memcmp (sl_data x) (sl_data y) (unat (sl_size x)) = 0"

definition slice_compare :: "slice \<Rightarrow> slice \<Rightarrow> int" where
  "slice_compare s b =
     (let min_len = (if sl_size s < sl_size b then sl_size s else sl_size b);
          r = memcmp (sl_data s) (sl_data b) (unat min_len)
      in if r = 0
         then (if sl_size s < sl_size b then -1 else if sl_size s > sl_size b then 1 else r)
         else r)"

text \<open>A slice that stays inside its array, and the string it refers to.\<close>

definition slice_wf :: "slice \<Rightarrow> bool" where
  "slice_wf s \<longleftrightarrow> unat (sl_size s) \<le> length (sl_data s)"

abbreviation str :: "slice \<Rightarrow> bytes" where "str \<equiv> slice_ToString"
subsection \<open>Comparison\<close>

lemma memcmp_range: "memcmp as bs n \<in> {-1, 0, 1}"
  by (induction as bs n rule: memcmp.induct) auto

lemma memcmp_take: "memcmp (take n as) (take n bs) n = memcmp as bs n"
  by (induction as bs n rule: memcmp.induct) auto

lemma memcmp_0_iff:
  "n \<le> length as \<Longrightarrow> n \<le> length bs \<Longrightarrow> memcmp as bs n = 0 \<longleftrightarrow> take n as = take n bs"
  by (induction as bs n rule: memcmp.induct) auto

lemma memcmp_swap: "memcmp bs as n = - memcmp as bs n"
  by (induction as bs n rule: memcmp.induct) auto

text \<open>The lexicographic order of byte strings, bytes compared as unsigned.\<close>

fun bytes_less :: "bytes \<Rightarrow> bytes \<Rightarrow> bool" where
  "bytes_less [] ys \<longleftrightarrow> ys \<noteq> []"
| "bytes_less (x # xs) [] \<longleftrightarrow> False"
| "bytes_less (x # xs) (y # ys) \<longleftrightarrow> x < y \<or> x = y \<and> bytes_less xs ys"

lemma bytes_less_irrefl: "\<not> bytes_less xs xs"
  by (induction xs) auto

lemma bytes_less_trans: "bytes_less xs ys \<Longrightarrow> bytes_less ys zs \<Longrightarrow> bytes_less xs zs"
proof (induction xs ys arbitrary: zs rule: bytes_less.induct)
  case (1 ys) then show ?case by (cases zs; cases ys) auto
next
  case (3 x xs y ys) then show ?case by (cases zs) auto
qed simp

lemma bytes_less_total: "bytes_less xs ys \<or> xs = ys \<or> bytes_less ys xs"
proof (induction xs ys rule: bytes_less.induct)
  case (1 ys) then show ?case by (cases ys) auto
qed auto

lemma memcmp_less:
  "memcmp xs ys (min (length xs) (length ys)) < 0
     \<or> memcmp xs ys (min (length xs) (length ys)) = 0 \<and> length xs < length ys \<longleftrightarrow> bytes_less xs ys"
  by (induction xs ys rule: bytes_less.induct) (auto simp: neq_Nil_conv)

lemma str_length: "slice_wf s \<Longrightarrow> length (str s) = unat (sl_size s)"
  by (simp add: slice_ToString_def slice_wf_def)

lemma slice_compare_str:
  assumes "slice_wf s" "slice_wf b"
  shows "slice_compare s b =
    (let r = memcmp (str s) (str b) (min (length (str s)) (length (str b)))
     in if r = 0 then (if length (str s) < length (str b) then -1
                       else if length (str s) > length (str b) then 1 else 0) else r)"
proof -
  let ?m = "min (unat (sl_size s)) (unat (sl_size b))"
  have "memcmp (str s) (str b) ?m = memcmp (sl_data s) (sl_data b) ?m"
    using memcmp_take [of ?m "str s" "str b"] memcmp_take [of ?m "sl_data s" "sl_data b"]
    by (simp add: slice_ToString_def take_take min_def split: if_splits)
  then show ?thesis
    using assms by (auto simp: slice_compare_def str_length Let_def min_def word_less_nat_alt)
qed

lemma slice_eq_str:
  assumes "slice_wf x" "slice_wf y" shows "slice_eq x y \<longleftrightarrow> str x = str y"
proof (cases "sl_size x = sl_size y")
  case True
  with assms show ?thesis by (simp add: slice_eq_def memcmp_0_iff slice_wf_def slice_ToString_def)
next
  case False
  then have "length (str x) \<noteq> length (str y)" using assms by (simp add: str_length unsigned_word_eqI word_unat_eq_iff)
  with False show ?thesis by (auto simp: slice_eq_def)
qed

lemma slice_toHash_str: "slice_wf s \<Longrightarrow> slice_toHash s = fold (\<lambda>c h. hash_step h c) (str s) 5381"
proof -
  assume wf: "slice_wf s"
  have *: "map ((!) (sl_data s)) [0..<unat (sl_size s)] = str s"
    using wf by (intro nth_equalityI) (simp_all add: slice_ToString_def slice_wf_def)
  have "slice_toHash s = fold (\<lambda>c h. hash_step h c) (map ((!) (sl_data s)) [0..<unat (sl_size s)]) 5381"
    by (simp only: slice_toHash_def fold_map comp_def)
  then show ?thesis by (simp only: *)
qed

lemma slice_starts_with_str:
  assumes "slice_wf s" "slice_wf x" shows "slice_starts_with s x \<longleftrightarrow> prefix (str x) (str s)"
proof (cases "sl_size x \<le> sl_size s")
  case True
  then have "take (unat (sl_size x)) (str s) = take (unat (sl_size x)) (sl_data s)"
    by (simp add: slice_ToString_def take_take word_le_nat_alt min_def)
  moreover have "slice_starts_with s x \<longleftrightarrow> take (unat (sl_size x)) (sl_data s) = str x"
    using True assms by (subst slice_starts_with_def, subst memcmp_0_iff)
      (simp_all add: slice_wf_def slice_ToString_def word_le_nat_alt)
  moreover have "prefix (str x) (str s) \<longleftrightarrow> take (unat (sl_size x)) (str s) = str x"
    using str_length [OF assms(2)] by (auto simp: prefix_def) (metis append_take_drop_id)
  ultimately show ?thesis by simp
next
  case False
  then have "length (str s) < length (str x)" using assms by (simp add: str_length word_le_nat_alt)
  with False show ?thesis by (auto simp: slice_starts_with_def dest: prefix_length_le)
qed
subsection \<open>Heap arrays of chars\<close>

text \<open>A fresh array holds no value (None) until it is written; an access outside it fails.\<close>

type_synonym buffer = "u8 option list"

definition new_chars :: "nat \<Rightarrow> buffer" where
  "new_chars n = replicate n None"

definition buf_write :: "nat \<Rightarrow> bytes \<Rightarrow> buffer \<Rightarrow> buffer option" where
  "buf_write off bs buf =
     (if off + length bs \<le> length buf
      then Some (take off buf @ map Some bs @ drop (off + length bs) buf) else None)"

definition buf_read :: "nat \<Rightarrow> nat \<Rightarrow> buffer \<Rightarrow> bytes option" where
  "buf_read off n buf = (if off + n \<le> length buf then those (take n (drop off buf)) else None)"

text \<open>memcpy out of a slice: n bytes that must lie inside its array.\<close>

definition slice_read :: "slice \<Rightarrow> nat \<Rightarrow> bytes option" where
  "slice_read s n = (if n \<le> length (sl_data s) then Some (take n (sl_data s)) else None)"

lemma those_map_Some [simp]: "those (map Some xs) = Some xs"
  by (induction xs) auto

lemma buf_write_fill: "length bs = n \<Longrightarrow> buf_write 0 bs (new_chars n) = Some (map Some bs)"
  by (simp add: buf_write_def new_chars_def)

lemma buf_write_next:
  "off = length pre \<Longrightarrow> length bs \<le> n \<Longrightarrow>
     buf_write off bs (map Some pre @ new_chars n) = Some (map Some (pre @ bs) @ new_chars (n - length bs))"
  by (simp add: buf_write_def new_chars_def)

lemma buf_read_map: "off + n \<le> length bs \<Longrightarrow> buf_read off n (map Some bs) = Some (take n (drop off bs))"
  by (simp add: buf_read_def take_map drop_map)

lemma buf_read_all: "n = length bs \<Longrightarrow> buf_read 0 n (map Some bs) = Some bs"
  by (simp add: buf_read_map)

lemma buf_read_length: "buf_read off n buf = Some bs \<Longrightarrow> length bs = n"
proof -
  have "those xs = Some ys \<Longrightarrow> length ys = length xs" for xs :: buffer and ys
    by (induction xs arbitrary: ys) (auto split: option.splits)
  then show "buf_read off n buf = Some bs \<Longrightarrow> length bs = n"
    by (auto simp: buf_read_def split: if_splits)
qed

lemma slice_read_str: "slice_wf s \<Longrightarrow> n = unat (sl_size s) \<Longrightarrow> slice_read s n = Some (str s)"
  by (simp add: slice_read_def slice_wf_def slice_ToString_def)

subsection \<open>Status\<close>

text \<open>
  state\_ is null for success, otherwise an array of the length of the message (a uint32\_t in
  memory order, little-endian), the code and the message.
\<close>

type_synonym status = "buffer option"

abbreviation (input) kOk :: u8 where "kOk \<equiv> 0"

definition kNotFound :: u8 where "kNotFound = 1"
definition kCorruption :: u8 where "kCorruption = 2"
definition kNotSupported :: u8 where "kNotSupported = 3"
definition kInvalidArgument :: u8 where "kInvalidArgument = 4"
definition kIOError :: u8 where "kIOError = 5"

definition le32 :: "u32 \<Rightarrow> bytes" where
  "le32 w = [ucast w, ucast (drop_bit 8 w), ucast (drop_bit 16 w), ucast (drop_bit 24 w)]"

fun of_le32 :: "bytes \<Rightarrow> u32" where
  "of_le32 [a, b, c, d] = ucast a OR push_bit 8 (ucast b) OR push_bit 16 (ucast c) OR push_bit 24 (ucast d)"
| "of_le32 _ = 0"

definition status_OK :: status where "status_OK = None"

definition status_new :: "u8 \<Rightarrow> slice \<Rightarrow> slice \<Rightarrow> status option" where
  "status_new code msg msg2 =
     (if code = kOk then None
      else do {
        let len1 = (ucast (sl_size msg) :: u32);
        let len2 = (ucast (sl_size msg2) :: u32);
        let size = len1 + (if len2 \<noteq> 0 then 2 + len2 else 0);
        let result = new_chars (unat (size + 5));
        r1 \<leftarrow> buf_write 0 (le32 size) result;
        r2 \<leftarrow> buf_write 4 [code] r1;
        m1 \<leftarrow> slice_read msg (unat len1);
        r3 \<leftarrow> buf_write 5 m1 r2;
        if len2 \<noteq> 0
        then do {
          r4 \<leftarrow> buf_write (5 + unat len1) (lit '':'') r3;
          r5 \<leftarrow> buf_write (6 + unat len1) (lit '' '') r4;
          m2 \<leftarrow> slice_read msg2 (unat len2);
          r6 \<leftarrow> buf_write (7 + unat len1) m2 r5;
          Some (Some r6) }
        else Some (Some r3) })"

definition status_NotFound :: "slice \<Rightarrow> slice \<Rightarrow> status option" where
  "status_NotFound msg msg2 = status_new kNotFound msg msg2"
definition status_Corruption :: "slice \<Rightarrow> slice \<Rightarrow> status option" where
  "status_Corruption msg msg2 = status_new kCorruption msg msg2"
definition status_NotSupported :: "slice \<Rightarrow> slice \<Rightarrow> status option" where
  "status_NotSupported msg msg2 = status_new kNotSupported msg msg2"
definition status_InvalidArgument :: "slice \<Rightarrow> slice \<Rightarrow> status option" where
  "status_InvalidArgument msg msg2 = status_new kInvalidArgument msg msg2"
definition status_IOError :: "slice \<Rightarrow> slice \<Rightarrow> status option" where
  "status_IOError msg msg2 = status_new kIOError msg msg2"

definition status_ok :: "status \<Rightarrow> bool" where
  "status_ok s \<longleftrightarrow> s = None"

definition status_code :: "status \<Rightarrow> u8 option" where
  "status_code s =
     (case s of None \<Rightarrow> Some kOk | Some st \<Rightarrow> map_option hd (buf_read 4 1 st))"

definition status_is :: "u8 \<Rightarrow> status \<Rightarrow> bool option" where
  "status_is k s = map_option (\<lambda>c. c = k) (status_code s)"

text \<open>CopyState, and the copy constructor and assignment that call it.\<close>

definition copy_state :: "buffer \<Rightarrow> buffer option" where
  "copy_state state =
     do { sz \<leftarrow> buf_read 0 4 state;
          let n = unat (of_le32 sz + 5);
          bs \<leftarrow> buf_read 0 n state;
          buf_write 0 bs (new_chars n) }"

definition status_copy :: "status \<Rightarrow> status option" where
  "status_copy s = (case s of None \<Rightarrow> Some None | Some st \<Rightarrow> map_option Some (copy_state st))"

fun decimal_nat :: "nat \<Rightarrow> bytes" where
  "decimal_nat n = (if n < 10 then [of_nat (48 + n)] else decimal_nat (n div 10) @ [of_nat (48 + n mod 10)])"

declare decimal_nat.simps [simp del]

definition decimal_int :: "int \<Rightarrow> bytes" where
  "decimal_int i = (if i < 0 then lit ''-'' @ decimal_nat (nat (- i)) else decimal_nat (nat i))"

definition status_type :: "u8 \<Rightarrow> bytes" where
  "status_type c =
     (if c = kOk then lit ''OK''
      else if c = kNotFound then lit ''NotFound: ''
      else if c = kCorruption then lit ''Corruption: ''
      else if c = kNotSupported then lit ''Not implemented: ''
      else if c = kInvalidArgument then lit ''Invalid argument: ''
      else if c = kIOError then lit ''IO error: ''
      else lit ''Unknown code('' @ decimal_int (sint c) @ lit ''): '')"

definition status_ToString :: "status \<Rightarrow> bytes option" where
  "status_ToString s =
     (case s of None \<Rightarrow> Some (lit ''OK'')
      | Some st \<Rightarrow> do {
          c \<leftarrow> status_code s;
          len \<leftarrow> buf_read 0 4 st;
          msg \<leftarrow> buf_read 5 (unat (of_le32 len)) st;
          Some (status_type c @ msg) })"

lemma of_le32_le32 [simp]: "of_le32 (le32 w) = w"
proof (rule bit_word_eqI)
  fix n assume "n < LENGTH(32)"
  then have "n < 8 \<or> 8 \<le> n \<and> n < 16 \<or> 16 \<le> n \<and> n < 24 \<or> 24 \<le> n \<and> n < 32" by auto
  then show "bit (of_le32 (le32 w)) n = bit w n" by (elim disjE) (auto simp: le32_def bit_simps)
qed

lemma le32_length [simp]: "length (le32 w) = 4"
  by (simp add: le32_def)

text \<open>The array of a status, and reading it back.\<close>

definition status_msg :: "slice \<Rightarrow> slice \<Rightarrow> bytes" where
  "status_msg msg msg2 = str msg @ (if str msg2 = [] then [] else lit '': '' @ str msg2)"

definition status_bytes :: "u8 \<Rightarrow> bytes \<Rightarrow> bytes" where
  "status_bytes code m = le32 (of_nat (length m)) @ [code] @ m"

lemma lit_simps [simp]: "length (lit s) = length s" "lit [] = []"
  by (simp_all add: lit_def)

lemma status_new_bytes:
  assumes "slice_wf msg" "slice_wf msg2" "code \<noteq> kOk"
    "length (str msg) + length (str msg2) + 7 < 2 ^ 32"
  shows "status_new code msg msg2 = Some (Some (map Some (status_bytes code (status_msg msg msg2))))"
proof -
  let ?n1 = "length (str msg)" and ?n2 = "length (str msg2)"
  let ?len1 = "ucast (sl_size msg) :: u32" and ?len2 = "ucast (sl_size msg2) :: u32"
  have n: "unat ?len1 = ?n1" "unat ?len2 = ?n2"
    using assms by (simp_all add: str_length unat_ucast_mod)
  let ?N = "length (status_msg msg msg2)"
  have N: "?N = ?n1 + (if ?n2 = 0 then 0 else 2 + ?n2)" by (simp add: status_msg_def)
  have z: "?len2 = 0 \<longleftrightarrow> ?n2 = 0" using n(2) by (metis unat_eq_zero)
  have size: "?len1 + (if ?len2 \<noteq> 0 then 2 + ?len2 else 0) = of_nat ?N"
    unfolding N z using n by (auto simp flip: n)
  have "?N < 2 ^ LENGTH(32)" using assms(4) N by (simp split: if_splits)
  then have "unat (of_nat ?N :: u32) = ?N" by (simp only: unat_of_nat mod_less)
  then have tot: "unat (of_nat ?N + 5 :: u32) = ?N + 5"
    using assms(4) N by (subst unat_add_lem [THEN iffD1]) (simp_all split: if_splits)
  let ?L = "le32 (of_nat ?N)"
  have r1: "buf_write 0 ?L (new_chars (?N + 5)) = Some (map Some ?L @ new_chars (?N + 1))"
    using buf_write_next [of 0 "[]" ?L "?N + 5"] by simp
  have r2: "buf_write 4 [code] (map Some ?L @ new_chars (?N + 1)) = Some (map Some (?L @ [code]) @ new_chars ?N)"
    using buf_write_next [of 4 ?L "[code]" "?N + 1"] by simp
  have r3: "buf_write 5 (str msg) (map Some (?L @ [code]) @ new_chars ?N)
      = Some (map Some (?L @ [code] @ str msg) @ new_chars (?N - ?n1))"
    using buf_write_next [of 5 "?L @ [code]" "str msg" ?N] N by simp
  have m: "slice_read msg ?n1 = Some (str msg)" "slice_read msg2 ?n2 = Some (str msg2)"
    using assms(1,2) by (simp_all add: slice_read_str str_length)
  note run = status_new_def Let_def n size tot r1 r2 r3 m bind.bind_lunit assms(3) if_False
  show ?thesis
  proof (cases "?n2 = 0")
    case True
    then have e: "(?len2 \<noteq> 0) = False" "?N - ?n1 = 0" using z N by simp_all
    from size have "?len1 + 0 = of_nat ?N" unfolding e if_False .
    then show ?thesis using True
      by (simp only: run e) (simp add: new_chars_def status_bytes_def status_msg_def)
  next
    case False
    then have z': "(?len2 \<noteq> 0) = True" and N': "?N - ?n1 = 2 + ?n2" using z N by simp_all
    have r4: "buf_write (5 + ?n1) (lit '':'') (map Some (?L @ [code] @ str msg) @ new_chars (2 + ?n2))
        = Some (map Some (?L @ [code] @ str msg @ lit '':'') @ new_chars (1 + ?n2))"
      using buf_write_next [of "5 + ?n1" "?L @ [code] @ str msg" "lit '':''" "2 + ?n2"] by simp
    have r5: "buf_write (6 + ?n1) (lit '' '') (map Some (?L @ [code] @ str msg @ lit '':'') @ new_chars (1 + ?n2))
        = Some (map Some (?L @ [code] @ str msg @ lit '':'' @ lit '' '') @ new_chars ?n2)"
      using buf_write_next [of "6 + ?n1" "?L @ [code] @ str msg @ lit '':''" "lit '' ''" "1 + ?n2"] by simp
    have r6: "buf_write (7 + ?n1) (str msg2) (map Some (?L @ [code] @ str msg @ lit '':'' @ lit '' '') @ new_chars ?n2)
        = Some (map Some (?L @ [code] @ str msg @ lit '':'' @ lit '' '' @ str msg2))"
      using buf_write_next [of "7 + ?n1" "?L @ [code] @ str msg @ lit '':'' @ lit '' ''" "str msg2" ?n2]
      by (simp add: new_chars_def)
    from size have "?len1 + (2 + ?len2) = of_nat ?N" unfolding z' if_True .
    then show ?thesis using False
      by (simp only: run r4 r5 r6 N' z' if_True)
         (simp add: status_bytes_def status_msg_def lit_def)
  qed
qed
lemma buf_read_status:
  "buf_read 0 4 (map Some (status_bytes c m)) = Some (le32 (of_nat (length m)))"
  "buf_read 4 1 (map Some (status_bytes c m)) = Some [c]"
  "buf_read 5 (length m) (map Some (status_bytes c m)) = Some m"
  by (simp_all add: buf_read_map status_bytes_def del: list.map map_append)

lemma status_msg_length:
  "length (status_msg msg msg2) \<le> length (str msg) + length (str msg2) + 2"
  by (simp add: status_msg_def)

text \<open>
  Factories in the order of the codes, so that a property of all of them is one statement.
\<close>

definition status_make :: "u8 \<Rightarrow> slice \<Rightarrow> slice \<Rightarrow> status option" where
  "status_make c msg msg2 =
     (if c = kNotFound then status_NotFound msg msg2
      else if c = kCorruption then status_Corruption msg msg2
      else if c = kNotSupported then status_NotSupported msg msg2
      else if c = kInvalidArgument then status_InvalidArgument msg msg2
      else if c = kIOError then status_IOError msg msg2 else None)"

lemmas status_codes = kNotFound_def kCorruption_def kNotSupported_def kInvalidArgument_def kIOError_def

lemmas status_factories = status_NotFound_def status_Corruption_def status_NotSupported_def
  status_InvalidArgument_def status_IOError_def

lemma status_make_new:
  "c \<in> {kNotFound, kCorruption, kNotSupported, kInvalidArgument, kIOError} \<Longrightarrow>
     status_make c msg msg2 = status_new c msg msg2"
  by (elim insertE emptyE) (simp_all add: status_make_def status_factories status_codes)

subsection \<open>WriteBatch\<close>

text \<open>
  An operation owns NUL-terminated copies of its key and value; a deletion has no value
  (nullptr). The sizes are kept as 32-bit ints.
\<close>

record batch_op =
  op_operation :: bool
  op_key :: bytes
  op_key_size :: u32
  op_value :: "bytes option"
  op_value_size :: u32

type_synonym write_batch = "batch_op list"

text \<open>new char[size+1], memcpy, and a NUL at the end.\<close>

definition nul_copy :: "slice \<Rightarrow> bytes option" where
  "nul_copy s =
     do { m \<leftarrow> slice_read s (unat (sl_size s));
          b1 \<leftarrow> buf_write 0 m (new_chars (unat (sl_size s + 1)));
          b2 \<leftarrow> buf_write (unat (sl_size s)) [0] b1;
          those b2 }"

definition batch_Put :: "slice \<Rightarrow> slice \<Rightarrow> write_batch \<Rightarrow> write_batch option" where
  "batch_Put key val ops =
     do { k \<leftarrow> nul_copy key;
          v \<leftarrow> nul_copy val;
          Some (ops @ [\<lparr>op_operation = True, op_key = k, op_key_size = ucast (sl_size key),
                          op_value = Some v, op_value_size = ucast (sl_size val)\<rparr>]) }"

definition batch_Delete :: "slice \<Rightarrow> write_batch \<Rightarrow> write_batch option" where
  "batch_Delete key ops =
     do { k \<leftarrow> nul_copy key;
          Some (ops @ [\<lparr>op_operation = False, op_key = k, op_key_size = ucast (sl_size key),
                          op_value = None, op_value_size = 0\<rparr>]) }"

definition batch_Clear :: "write_batch \<Rightarrow> write_batch" where
  "batch_Clear ops = []"

text \<open>
  Op's copy constructor copies key\_size and value\_size bytes and terminates both copies; the
  copy of a deletion has an empty string for its value.
\<close>

definition op_copy :: "batch_op \<Rightarrow> batch_op option" where
  "op_copy other =
     (let kn = unat (op_key_size other); vn = unat (op_value_size other);
          val = (case op_value other of None \<Rightarrow> [] | Some v \<Rightarrow> v)
      in if kn \<le> length (op_key other) \<and> vn \<le> length val
         then Some (other\<lparr>op_key := take kn (op_key other) @ [0],
                          op_value := Some (take vn val @ [0])\<rparr>)
         else None)"

lemma nul_copy_str:
  assumes "slice_wf s" "sl_size s \<noteq> - 1" shows "nul_copy s = Some (str s @ [0])"
proof -
  have u: "unat (sl_size s + 1) = unat (sl_size s) + 1"
  proof -
    have "1 + sl_size s \<noteq> 0" using assms(2) by (metis add_eq_0_iff)
    from unatSuc [OF this] show ?thesis by (simp add: add.commute)
  qed
  let ?n = "length (str s)"
  have n: "unat (sl_size s) = ?n" using assms(1) by (simp add: str_length)
  have 1: "buf_write 0 (str s) (new_chars (?n + 1)) = Some (map Some (str s) @ new_chars 1)"
    using buf_write_next [of 0 "[]" "str s" "?n + 1"] by simp
  have 2: "buf_write ?n [0] (map Some (str s) @ new_chars 1) = Some (map Some (str s @ [0]))"
    using buf_write_next [of ?n "str s" "[0]" 1] by (simp add: new_chars_def)
  show ?thesis
    using slice_read_str [OF assms(1) refl] u using those_map_Some [of "str s @ [0]"] 1 2
    by (simp add: nul_copy_def n del: map_append those_map_Some)
qed

subsection \<open>Properties\<close>

text \<open>
  C33: Slice::compare orders well-formed slices as byte strings: it is negative exactly when the
  first string is lexicographically smaller (bytes unsigned), zero exactly when the strings are
  equal, which is also what operator== decides, and it changes its sign when the arguments are
  swapped. starts\_with decides the prefix relation of the strings.
\<close>

theorem slice_compare_lexicographic:
  assumes "slice_wf a" "slice_wf b"
  shows "(slice_compare a b < 0) = bytes_less (str a) (str b)
    \<and> (slice_compare a b = 0) = (str a = str b) \<and> slice_eq a b = (str a = str b)
    \<and> slice_compare b a = - slice_compare a b
    \<and> slice_starts_with a b = prefix (str b) (str a)"
proof -
  let ?n = "min (length (str a)) (length (str b))"
  note c = slice_compare_str [OF assms] slice_compare_str [OF assms(2,1)]
  have r: "memcmp (str a) (str b) ?n \<in> {-1, 0, 1}" by (rule memcmp_range)
  have less: "(slice_compare a b < 0) = bytes_less (str a) (str b)"
    unfolding memcmp_less [symmetric] using r by (auto simp: c Let_def)
  have eq: "(slice_compare a b = 0) = (str a = str b)"
    using memcmp_0_iff [of ?n "str a" "str b"] by (auto simp: c Let_def)
  have swap: "slice_compare b a = - slice_compare a b"
    using memcmp_swap [of "str b" "str a" ?n] by (auto simp: c Let_def min.commute)
  from less eq swap show ?thesis using assms by (simp add: slice_eq_str slice_starts_with_str)
qed

theorem slice_compare_lexicographic_witness:
  "slice_compare (slice_of_string (lit ''ab'')) (slice_of_string (lit ''abc'')) = -1
    \<and> bytes_less (lit ''ab'') (lit ''abc'')"
proof -
  let ?a = "slice_of_string (lit ''ab'')" and ?b = "slice_of_string (lit ''abc'')"
  have wf: "slice_wf ?a" "slice_wf ?b" by code_simp+
  have "slice_compare ?a ?b = -1" "str ?a = lit ''ab''" "str ?b = lit ''abc''" by code_simp+
  with slice_compare_lexicographic [OF wf] show ?thesis by simp
qed

text \<open>
  C34: A Status made by any of the factories from two well-formed messages (shorter than 2^32
  together) keeps its code and its message: it is not ok, exactly the predicate of its own code
  holds, ToString prints the name of the code, the first message and, if the second is not
  empty, a colon, a space and the second; a copy is the same array.
\<close>

theorem status_make_print_copy:
  assumes "slice_wf msg" "slice_wf msg2" "c \<in> {kNotFound, kCorruption, kNotSupported, kInvalidArgument, kIOError}"
    "length (str msg) + length (str msg2) + 7 < 2 ^ 32"
  shows "\<exists>s. status_make c msg msg2 = Some s \<and> \<not> status_ok s
    \<and> (\<forall>k. status_is k s = Some (k = c))
    \<and> status_ToString s =
        Some (status_type c @ str msg @ (if str msg2 = [] then [] else lit '': '' @ str msg2))
    \<and> status_copy s = Some s"
proof -
  let ?m = "status_msg msg msg2" and ?st = "map Some (status_bytes c (status_msg msg msg2))"
  have len: "length ?m < 2 ^ LENGTH(32)" "length ?m + 5 < 2 ^ LENGTH(32)"
    using status_msg_length [of msg msg2] assms(4) by simp_all
  then have n: "unat (of_nat (length ?m) :: u32) = length ?m" by (simp only: unat_of_nat mod_less)
  have n5: "unat (of_nat (length ?m) + 5 :: u32) = length ?m + 5"
    using len n by (subst unat_add_lem [THEN iffD1]) simp_all
  have "c \<noteq> kOk" using assms(3) by (auto simp: status_codes)
  from status_new_bytes [OF assms(1,2) this assms(4)] assms(3)
  have "status_make c msg msg2 = Some (Some ?st)" by (simp only: status_make_new)
  moreover have "status_code (Some ?st) = Some c" by (simp only: status_code_def option.case buf_read_status) simp
  moreover have "status_ToString (Some ?st) = Some (status_type c @ ?m)"
    by (simp only: status_ToString_def option.case calculation(2) buf_read_status of_le32_le32 n bind.bind_lunit)
  moreover have "copy_state ?st = Some ?st"
  proof -
    have l: "length (status_bytes c ?m) = length ?m + 5" by (simp add: status_bytes_def)
    show ?thesis
      by (simp only: copy_state_def buf_read_status of_le32_le32 n5 bind.bind_lunit Let_def
          buf_read_all [OF l [symmetric]] buf_write_fill [OF l])
  qed
  ultimately show ?thesis
    by (intro exI [of _ "Some ?st"]) (auto simp: status_ok_def status_is_def status_copy_def status_msg_def)
qed

theorem status_make_print_copy_witness:
  "Option.bind (status_make kIOError (slice_of_string (lit ''f'')) (slice_of_string (lit ''gone'')))
     status_ToString = Some (lit ''IO error: f: gone'')"
proof -
  let ?f = "slice_of_string (lit ''f'')" and ?g = "slice_of_string (lit ''gone'')"
  have wf: "slice_wf ?f" "slice_wf ?g" by code_simp+
  have str: "str ?f = lit ''f''" "str ?g = lit ''gone''" by code_simp+
  have "length (str ?f) + length (str ?g) + 7 < 2 ^ 32" by (simp add: str)
  from status_make_print_copy [OF wf _ this, of kIOError]
  obtain s where s: "status_make kIOError ?f ?g = Some s"
    "status_ToString s = Some (status_type kIOError @ lit ''f'' @ lit '': '' @ lit ''gone'')"
    unfolding str by (auto simp: lit_def[of "''gone''"])
  moreover have "status_type kIOError @ lit ''f'' @ lit '': '' @ lit ''gone'' = lit ''IO error: f: gone''"
    by code_simp
  ultimately show ?thesis by simp
qed

end
