(* ===== verification/DBHashMap.thy ===== *)
theory DBHashMap
  imports HashMap Slices
begin

text \<open>
  The hash map of the database, ptmdb/TMHashMap.hpp, with the persistent strings of
  ptmdb/slice.h (PSlice) as keys and values. Nodes, strings and the map object itself are
  objects of one persistent heap. Unlike the generic map of theory HashMap it never grows and
  never counts its entries (both statements are commented out in the source).

  The proofs do not repeat those of HashMap: the heap is viewed as a heap of that theory, whose
  nodes hold byte strings, and each loop is shown to follow the generic loop. The allocations
  the generic loop makes are replayed by an allocator that hands out the addresses of a given
  list.
\<close>

subsection \<open>Objects\<close>

record pslice =
  ps_data :: ptr
  ps_size :: u64

record dbnode =
  dn_key :: pslice
  dn_val :: pslice
  dn_next :: ptr

record dbmap =
  dm_capacity :: u64
  dm_sizeHM :: u64
  dm_buckets :: ptr

datatype dbcell = Chars buffer | DNode dbnode | DMap dbmap

type_synonym 'a dbheap = "(dbcell, 'a) tmheap"

text \<open>TM\_PMALLOC of a char array and its TM\_PFREE; loads and stores of its bytes.\<close>

definition chars_malloc :: "'a tm \<Rightarrow> u64 \<Rightarrow> 'a dbheap \<Rightarrow> (ptr \<times> 'a dbheap) option" where
  "chars_malloc TM sz h = tmNew TM sz (Chars (new_chars (unat sz))) h"

definition chars_free :: "'a tm \<Rightarrow> ptr \<Rightarrow> 'a dbheap \<Rightarrow> 'a dbheap option" where
  "chars_free TM p h =
     (case nodes h p of
        Some (Chars _) \<Rightarrow> tmDelete TM p h
      | _ \<Rightarrow> if p = nullptr then Some h else None)"

definition chars_write :: "ptr \<Rightarrow> nat \<Rightarrow> bytes \<Rightarrow> 'a dbheap \<Rightarrow> 'a dbheap option" where
  "chars_write p off bs h =
     (case nodes h p of
        Some (Chars buf) \<Rightarrow>
          map_option (\<lambda>buf'. h\<lparr>nodes := (nodes h)(p \<mapsto> Chars buf')\<rparr>) (buf_write off bs buf)
      | _ \<Rightarrow> None)"

definition chars_read :: "ptr \<Rightarrow> nat \<Rightarrow> nat \<Rightarrow> 'a dbheap \<Rightarrow> bytes option" where
  "chars_read p off n h =
     (case nodes h p of Some (Chars buf) \<Rightarrow> buf_read off n buf | _ \<Rightarrow> None)"

definition load_node :: "(dbnode \<Rightarrow> 'f) \<Rightarrow> ptr \<Rightarrow> 'a dbheap \<Rightarrow> 'f option" where
  "load_node f p h = (case nodes h p of Some (DNode n) \<Rightarrow> Some (f n) | _ \<Rightarrow> None)"

definition store_node :: "(dbnode \<Rightarrow> dbnode) \<Rightarrow> ptr \<Rightarrow> 'a dbheap \<Rightarrow> 'a dbheap option" where
  "store_node g p h =
     (case nodes h p of
        Some (DNode n) \<Rightarrow> Some (h\<lparr>nodes := (nodes h)(p \<mapsto> DNode (g n))\<rparr>) | _ \<Rightarrow> None)"

definition load_map :: "(dbmap \<Rightarrow> 'f) \<Rightarrow> ptr \<Rightarrow> 'a dbheap \<Rightarrow> 'f option" where
  "load_map f p h = (case nodes h p of Some (DMap m) \<Rightarrow> Some (f m) | _ \<Rightarrow> None)"

definition store_map :: "(dbmap \<Rightarrow> dbmap) \<Rightarrow> ptr \<Rightarrow> 'a dbheap \<Rightarrow> 'a dbheap option" where
  "store_map g p h =
     (case nodes h p of
        Some (DMap m) \<Rightarrow> Some (h\<lparr>nodes := (nodes h)(p \<mapsto> DMap (g m))\<rparr>) | _ \<Rightarrow> None)"

subsection \<open>PSlice\<close>

text \<open>A copy of a Slice: size+1 bytes, the string and a NUL.\<close>

definition pslice_new :: "'a tm \<Rightarrow> slice \<Rightarrow> 'a dbheap \<Rightarrow> (pslice \<times> 'a dbheap) option" where
  "pslice_new TM sl h =
     do { let size = sl_size sl;
          (addr, h1) \<leftarrow> chars_malloc TM (size + 1) h;
          bs \<leftarrow> slice_read sl (unat size);
          h2 \<leftarrow> chars_write addr 0 bs h1;
          h3 \<leftarrow> chars_write addr (unat size) [0] h2;
          Some (\<lparr>ps_data = addr, ps_size = size\<rparr>, h3) }"

text \<open>A copy of a PSlice, its NUL included; the assignment first frees the old array.\<close>

definition pslice_copy :: "'a tm \<Rightarrow> pslice \<Rightarrow> 'a dbheap \<Rightarrow> (pslice \<times> 'a dbheap) option" where
  "pslice_copy TM psl h =
     do { let size = ps_size psl;
          (addr, h1) \<leftarrow> chars_malloc TM (size + 1) h;
          bs \<leftarrow> chars_read (ps_data psl) 0 (unat (size + 1)) h1;
          h2 \<leftarrow> chars_write addr 0 bs h1;
          Some (\<lparr>ps_data = addr, ps_size = size\<rparr>, h2) }"

definition pslice_assign :: "'a tm \<Rightarrow> pslice \<Rightarrow> pslice \<Rightarrow> 'a dbheap \<Rightarrow> (pslice \<times> 'a dbheap) option" where
  "pslice_assign TM this psl h =
     do { let size = ps_size psl;
          h0 \<leftarrow> chars_free TM (ps_data this) h;
          (addr, h1) \<leftarrow> chars_malloc TM (size + 1) h0;
          bs \<leftarrow> chars_read (ps_data psl) 0 (unat (size + 1)) h1;
          h2 \<leftarrow> chars_write addr 0 bs h1;
          Some (\<lparr>ps_data = addr, ps_size = size\<rparr>, h2) }"

definition pslice_delete :: "'a tm \<Rightarrow> pslice \<Rightarrow> 'a dbheap \<Rightarrow> 'a dbheap option" where
  "pslice_delete TM this h = chars_free TM (ps_data this) h"

definition pslice_eq :: "pslice \<Rightarrow> slice \<Rightarrow> 'a dbheap \<Rightarrow> bool option" where
  "pslice_eq this other h =
     (if ps_size this = sl_size other
      then do { let n = unat (ps_size this);
                d \<leftarrow> chars_read (ps_data this) 0 n h;
                d' \<leftarrow> slice_read other n;
                Some (memcmp d d' n = 0) }
      else Some False)"

definition pslice_toHash :: "pslice \<Rightarrow> 'a dbheap \<Rightarrow> u64 option" where
  "pslice_toHash this h =
     do { let n = unat (ps_size this);
          d \<leftarrow> chars_read (ps_data this) 0 n h;
          Some (fold (\<lambda>i h. hash_step h (d ! i)) [0..<n] 5381) }"

subsection \<open>Nodes\<close>

text \<open>
  PTM\_NEW<Node>(k, v) allocates the node and constructs key and value in it; PTM\_DELETE
  destroys them in the opposite order and frees the node.
\<close>

definition dbnode_new :: "'a tm \<Rightarrow> u64 \<Rightarrow> slice \<Rightarrow> slice \<Rightarrow> 'a dbheap \<Rightarrow> (ptr \<times> 'a dbheap) option" where
  "dbnode_new TM sz k v h =
     do { let none = \<lparr>ps_data = nullptr, ps_size = 0\<rparr>;
          (node, h1) \<leftarrow> tmNew TM sz (DNode \<lparr>dn_key = none, dn_val = none, dn_next = nullptr\<rparr>) h;
          (pk, h2) \<leftarrow> pslice_new TM k h1;
          h3 \<leftarrow> store_node (\<lambda>n. n\<lparr>dn_key := pk\<rparr>) node h2;
          (pv, h4) \<leftarrow> pslice_new TM v h3;
          h5 \<leftarrow> store_node (\<lambda>n. n\<lparr>dn_val := pv\<rparr>) node h4;
          Some (node, h5) }"

definition dbnode_delete :: "'a tm \<Rightarrow> ptr \<Rightarrow> 'a dbheap \<Rightarrow> 'a dbheap option" where
  "dbnode_delete TM node h =
     do { k \<leftarrow> load_node dn_key node h;
          v \<leftarrow> load_node dn_val node h;
          h1 \<leftarrow> pslice_delete TM v h;
          h2 \<leftarrow> pslice_delete TM k h1;
          tmDelete TM node h2 }"

text \<open>
  node->val = value: the Slice is first converted to a temporary PSlice, which is destroyed
  after the assignment.
\<close>

definition dbnode_set_val :: "'a tm \<Rightarrow> ptr \<Rightarrow> slice \<Rightarrow> 'a dbheap \<Rightarrow> 'a dbheap option" where
  "dbnode_set_val TM node v h =
     do { (temp, h1) \<leftarrow> pslice_new TM v h;
          old \<leftarrow> load_node dn_val node h1;
          (new, h2) \<leftarrow> pslice_assign TM old temp h1;
          h3 \<leftarrow> store_node (\<lambda>n. n\<lparr>dn_val := new\<rparr>) node h2;
          pslice_delete TM temp h3 }"
subsection \<open>TMHashMap\<close>

text \<open>
  Operations take the address of the map object. The constructor's default is 10 M buckets; its
  loop counts with the 32-bit int capacity itself, so it has no defined result for a capacity
  of 2^31 or more.
\<close>

definition kDefaultCapacity :: u64 where
  "kDefaultCapacity = 10 * 1024 * 1024"

definition dbhm_new :: "'a tm \<Rightarrow> u64 \<Rightarrow> u64 \<Rightarrow> 'a dbheap \<Rightarrow> (ptr \<times> 'a dbheap) option" where
  "dbhm_new TM sz capacity h =
     do { (this, h1) \<leftarrow> tmNew TM sz (DMap \<lparr>dm_capacity = capacity, dm_sizeHM = 0, dm_buckets = nullptr\<rparr>) h;
          (p, h2) \<leftarrow> pmalloc TM (capacity * 8) h1;
          h3 \<leftarrow> store_map (\<lambda>m. m\<lparr>dm_buckets := p\<rparr>) this h2;
          h4 \<leftarrow> (if int_counter_ok capacity then init_loop p [0..<unat capacity] h3 else None);
          Some (this, h4) }"

partial_function (option) db_free_chain :: "'a tm \<Rightarrow> ptr \<Rightarrow> 'a dbheap \<Rightarrow> 'a dbheap option" where
  "db_free_chain TM node h =
     (if node = nullptr then Some h
      else do { nxt \<leftarrow> load_node dn_next node h; h1 \<leftarrow> dbnode_delete TM node h; db_free_chain TM nxt h1 })"

declare db_free_chain.simps [code]

fun db_free_chains :: "'a tm \<Rightarrow> ptr \<Rightarrow> nat list \<Rightarrow> 'a dbheap \<Rightarrow> 'a dbheap option" where
  "db_free_chains TM buckets [] h = Some h"
| "db_free_chains TM buckets (i # is) h =
     do { node \<leftarrow> load_arr buckets i h; h1 \<leftarrow> db_free_chain TM node h; db_free_chains TM buckets is h1 }"

definition dbhm_delete :: "'a tm \<Rightarrow> ptr \<Rightarrow> 'a dbheap \<Rightarrow> 'a dbheap option" where
  "dbhm_delete TM this h =
     do { capacity \<leftarrow> load_map dm_capacity this h;
          buckets \<leftarrow> load_map dm_buckets this h;
          h1 \<leftarrow> (if int_counter_ok capacity then db_free_chains TM buckets [0..<unat capacity] h else None);
          h2 \<leftarrow> pfree TM buckets h1;
          tmDelete TM this h2 }"

partial_function (option) db_put_loop ::
  "'a tm \<Rightarrow> u64 \<Rightarrow> slice \<Rightarrow> slice \<Rightarrow> ptr \<Rightarrow> nat \<Rightarrow> ptr \<Rightarrow> ptr \<Rightarrow> 'a dbheap \<Rightarrow> (bool \<times> 'a dbheap) option" where
  "db_put_loop TM sz key val buckets i node prev h =
     (if node = nullptr
      then do { (newnode, h1) \<leftarrow> dbnode_new TM sz key val h;
                h2 \<leftarrow> (if node = prev then store_arr buckets i newnode h1
                       else store_node (\<lambda>n. n\<lparr>dn_next := newnode\<rparr>) prev h1);
                Some (True, h2) }
      else do { k \<leftarrow> load_node dn_key node h;
                eq \<leftarrow> pslice_eq k key h;
                if eq then do { h1 \<leftarrow> dbnode_set_val TM node val h; Some (False, h1) }
                else do { nxt \<leftarrow> load_node dn_next node h;
                          db_put_loop TM sz key val buckets i nxt node h } })"

declare db_put_loop.simps [code]

definition dbhm_innerPut ::
  "'a tm \<Rightarrow> u64 \<Rightarrow> slice \<Rightarrow> slice \<Rightarrow> ptr \<Rightarrow> 'a dbheap \<Rightarrow> (bool \<times> 'a dbheap) option" where
  "dbhm_innerPut TM sz key val this h =
     do { capacity \<leftarrow> load_map dm_capacity this h;
          i \<leftarrow> hm_index slice_toHash key capacity;
          buckets \<leftarrow> load_map dm_buckets this h;
          node \<leftarrow> load_arr buckets i h;
          db_put_loop TM sz key val buckets i node node h }"

partial_function (option) db_remove_loop ::
  "'a tm \<Rightarrow> slice \<Rightarrow> ptr \<Rightarrow> nat \<Rightarrow> ptr \<Rightarrow> ptr \<Rightarrow> 'a dbheap \<Rightarrow> (bool \<times> 'a dbheap) option" where
  "db_remove_loop TM key buckets i node prev h =
     (if node = nullptr then Some (False, h)
      else do { k \<leftarrow> load_node dn_key node h;
                eq \<leftarrow> pslice_eq k key h;
                nxt \<leftarrow> load_node dn_next node h;
                if eq
                then do { h1 \<leftarrow> (if node = prev then store_arr buckets i nxt h
                                 else store_node (\<lambda>n. n\<lparr>dn_next := nxt\<rparr>) prev h);
                          h2 \<leftarrow> dbnode_delete TM node h1;
                          Some (True, h2) }
                else db_remove_loop TM key buckets i nxt node h })"

declare db_remove_loop.simps [code]

definition dbhm_innerRemove :: "'a tm \<Rightarrow> slice \<Rightarrow> ptr \<Rightarrow> 'a dbheap \<Rightarrow> (bool \<times> 'a dbheap) option" where
  "dbhm_innerRemove TM key this h =
     do { capacity \<leftarrow> load_map dm_capacity this h;
          i \<leftarrow> hm_index slice_toHash key capacity;
          buckets \<leftarrow> load_map dm_buckets this h;
          node \<leftarrow> load_arr buckets i h;
          db_remove_loop TM key buckets i node node h }"

text \<open>oldValue, a std::string, is assigned the bytes of the value when the key is found.\<close>

partial_function (option) db_get_loop :: "slice \<Rightarrow> bytes \<Rightarrow> ptr \<Rightarrow> 'a dbheap \<Rightarrow> (bool \<times> bytes) option" where
  "db_get_loop key oldValue node h =
     (if node = nullptr then Some (False, oldValue)
      else do { k \<leftarrow> load_node dn_key node h;
                eq \<leftarrow> pslice_eq k key h;
                if eq
                then do { v \<leftarrow> load_node dn_val node h;
                          bs \<leftarrow> chars_read (ps_data v) 0 (unat (ps_size v)) h;
                          Some (True, bs) }
                else do { nxt \<leftarrow> load_node dn_next node h; db_get_loop key oldValue nxt h } })"

declare db_get_loop.simps [code]

definition dbhm_innerGet :: "slice \<Rightarrow> bytes \<Rightarrow> ptr \<Rightarrow> 'a dbheap \<Rightarrow> (bool \<times> bytes) option" where
  "dbhm_innerGet key oldValue this h =
     do { capacity \<leftarrow> load_map dm_capacity this h;
          i \<leftarrow> hm_index slice_toHash key capacity;
          buckets \<leftarrow> load_map dm_buckets this h;
          node \<leftarrow> load_arr buckets i h;
          db_get_loop key oldValue node h }"

definition dbhm_getBucket :: "slice \<Rightarrow> ptr \<Rightarrow> 'a dbheap \<Rightarrow> nat option" where
  "dbhm_getBucket key this h = do { capacity \<leftarrow> load_map dm_capacity this h; hm_index slice_toHash key capacity }"

text \<open>
  rebuild, which no operation calls: the new capacity is an int, and the nodes are hashed
  through their PSlice keys.
\<close>

partial_function (option) db_rehash_chain :: "u64 \<Rightarrow> ptr \<Rightarrow> ptr \<Rightarrow> 'a dbheap \<Rightarrow> 'a dbheap option" where
  "db_rehash_chain newcapacity newbuckets node h =
     (if node = nullptr then Some h
      else do { nxt \<leftarrow> load_node dn_next node h;
                k \<leftarrow> load_node dn_key node h;
                hash \<leftarrow> pslice_toHash k h;
                i \<leftarrow> hm_index id hash newcapacity;
                b \<leftarrow> load_arr newbuckets i h;
                h1 \<leftarrow> store_node (\<lambda>n. n\<lparr>dn_next := b\<rparr>) node h;
                h2 \<leftarrow> store_arr newbuckets i node h1;
                db_rehash_chain newcapacity newbuckets nxt h2 })"

declare db_rehash_chain.simps [code]

fun db_rehash_all :: "u64 \<Rightarrow> ptr \<Rightarrow> ptr \<Rightarrow> nat list \<Rightarrow> 'a dbheap \<Rightarrow> 'a dbheap option" where
  "db_rehash_all newcapacity newbuckets buckets [] h = Some h"
| "db_rehash_all newcapacity newbuckets buckets (i # is) h =
     do { node \<leftarrow> load_arr buckets i h;
          h1 \<leftarrow> db_rehash_chain newcapacity newbuckets node h;
          db_rehash_all newcapacity newbuckets buckets is h1 }"

definition dbhm_rebuild :: "'a tm \<Rightarrow> ptr \<Rightarrow> 'a dbheap \<Rightarrow> 'a dbheap option" where
  "dbhm_rebuild TM this h =
     do { capacity \<leftarrow> load_map dm_capacity this h;
          buckets \<leftarrow> load_map dm_buckets this h;
          let newcapacity = 2 * capacity;
          (newbuckets, h1) \<leftarrow> (if int_counter_ok newcapacity then alloc_buckets TM newcapacity h else None);
          h2 \<leftarrow> db_rehash_all newcapacity newbuckets buckets [0..<unat capacity] h1;
          h3 \<leftarrow> pfree TM buckets h2;
          store_map (\<lambda>m. m\<lparr>dm_buckets := newbuckets, dm_capacity := newcapacity\<rparr>) this h3 }"
subsection \<open>The heap seen as a heap of the generic map\<close>

definition bytes_hash :: "bytes \<Rightarrow> u64" where
  "bytes_hash bs = fold (\<lambda>c h. hash_step h c) bs 5381"

lemma slice_toHash_bytes: "slice_wf s \<Longrightarrow> slice_toHash s = bytes_hash (str s)"
  by (simp add: slice_toHash_str bytes_hash_def)

definition str_at :: "(ptr \<rightharpoonup> dbcell) \<Rightarrow> pslice \<Rightarrow> bytes option" where
  "str_at m s = (case m (ps_data s) of Some (Chars buf) \<Rightarrow> buf_read 0 (unat (ps_size s)) buf | _ \<Rightarrow> None)"

definition view :: "(ptr \<rightharpoonup> dbcell) \<Rightarrow> ptr \<rightharpoonup> (bytes, bytes) hnode" where
  "view m p =
     (case m p of
        Some (DNode n) \<Rightarrow> do { k \<leftarrow> str_at m (dn_key n); v \<leftarrow> str_at m (dn_val n);
                               Some \<lparr>hkey = k, hval = v, hnext = dn_next n\<rparr> }
      | _ \<Rightarrow> None)"

text \<open>
  Every string of a node is a NUL-terminated array of its own, and there is no other array of
  chars: each is freed exactly once and none is lost.
\<close>

definition chars_of :: "bytes \<Rightarrow> dbcell" where
  "chars_of bs = Chars (map Some (bs @ [0]))"

definition str_ok :: "(ptr \<rightharpoonup> dbcell) \<Rightarrow> pslice \<Rightarrow> bool" where
  "str_ok m s \<longleftrightarrow> ps_size s \<noteq> - 1 \<and> (\<exists>bs. m (ps_data s) = Some (chars_of bs) \<and> length bs = unat (ps_size s))"

definition own :: "(ptr \<rightharpoonup> dbcell) \<Rightarrow> bool" where
  "own m \<longleftrightarrow>
     (\<forall>p n. m p = Some (DNode n) \<longrightarrow> str_ok m (dn_key n) \<and> str_ok m (dn_val n))
     \<and> (\<forall>p n q n'. m p = Some (DNode n) \<longrightarrow> m q = Some (DNode n') \<longrightarrow>
          ps_data (dn_key n) \<noteq> ps_data (dn_val n')
          \<and> (p \<noteq> q \<longrightarrow> ps_data (dn_key n) \<noteq> ps_data (dn_key n') \<and> ps_data (dn_val n) \<noteq> ps_data (dn_val n')))
     \<and> (\<forall>q buf. m q = Some (Chars buf) \<longrightarrow>
          (\<exists>p n. m p = Some (DNode n) \<and> (q = ps_data (dn_key n) \<or> q = ps_data (dn_val n))))"

lemma chars_of_neq [simp]: "chars_of bs \<noteq> DNode n" "DNode n \<noteq> chars_of bs" "chars_of bs \<noteq> DMap d"
  by (simp_all add: chars_of_def)

lemma str_at_ok: "m (ps_data s) = Some (chars_of bs) \<Longrightarrow> length bs = unat (ps_size s) \<Longrightarrow> str_at m s = Some bs"
  by (simp add: str_at_def chars_of_def buf_read_map del: map_append list.map)

lemma str_okE:
  assumes "str_ok m s"
  obtains bs where "m (ps_data s) = Some (chars_of bs)" "length bs = unat (ps_size s)" "str_at m s = Some bs"
    "ps_size s \<noteq> - 1"
  using assms str_at_ok by (auto simp: str_ok_def)

lemma str_at_cong: "m' (ps_data s) = m (ps_data s) \<Longrightarrow> str_at m' s = str_at m s"
  by (simp add: str_at_def)

lemma str_ok_cong: "m' (ps_data s) = m (ps_data s) \<Longrightarrow> str_ok m' s = str_ok m s"
  by (simp add: str_ok_def)

lemma ownD:
  assumes "own m" "m p = Some (DNode n)"
  shows "str_ok m (dn_key n)" "str_ok m (dn_val n)" "ps_data (dn_key n) \<noteq> ps_data (dn_val n)"
    "p \<noteq> ps_data (dn_key n)" "p \<noteq> ps_data (dn_val n)"
proof -
  show *: "str_ok m (dn_key n)" "str_ok m (dn_val n)" "ps_data (dn_key n) \<noteq> ps_data (dn_val n)"
    using assms by (auto simp: own_def)
  show "p \<noteq> ps_data (dn_key n)" "p \<noteq> ps_data (dn_val n)"
    using * assms(2) by (auto simp: str_ok_def chars_of_def)
qed

lemma own_distinct:
  assumes "own m" "m p = Some (DNode n)" "m q = Some (DNode n')" "p \<noteq> q"
  shows "ps_data (dn_key n) \<noteq> ps_data (dn_key n')" "ps_data (dn_val n) \<noteq> ps_data (dn_val n')"
    "ps_data (dn_key n) \<noteq> ps_data (dn_val n')" "ps_data (dn_val n) \<noteq> ps_data (dn_key n')"
  using assms unfolding own_def by metis+

lemma own_view:
  assumes "own m" "m p = Some (DNode n)"
  obtains k v where "str_at m (dn_key n) = Some k" "str_at m (dn_val n) = Some v"
    "view m p = Some \<lparr>hkey = k, hval = v, hnext = dn_next n\<rparr>"
    "m (ps_data (dn_key n)) = Some (chars_of k)" "m (ps_data (dn_val n)) = Some (chars_of v)"
    "length k = unat (ps_size (dn_key n))" "length v = unat (ps_size (dn_val n))"
  using ownD(1,2) [OF assms] assms(2) by (elim str_okE) (auto simp: view_def)

lemma view_Some: "view m p = Some nd \<Longrightarrow> \<exists>n. m p = Some (DNode n)"
  by (auto simp: view_def split: option.splits dbcell.splits)

lemma view_None: "own m \<Longrightarrow> view m p = None \<longleftrightarrow> \<not> (\<exists>n. m p = Some (DNode n))"
  by (metis own_view view_Some not_None_eq option.distinct(1))

lemma dom_view: "dom (view m) \<subseteq> dom m"
  using view_Some by fastforce

lemma view_other: "m q = None \<Longrightarrow> view m q = None" "m q = Some (chars_of bs) \<Longrightarrow> view m q = None"
    "m q = Some (DMap d) \<Longrightarrow> view m q = None"
  by (simp_all add: view_def chars_of_def)

lemma view_cong:
  "m' p = m p \<Longrightarrow> (\<And>n. m p = Some (DNode n) \<Longrightarrow>
       m' (ps_data (dn_key n)) = m (ps_data (dn_key n)) \<and> m' (ps_data (dn_val n)) = m (ps_data (dn_val n)))
     \<Longrightarrow> view m' p = view m p"
  by (auto simp: view_def str_at_def split: option.splits dbcell.splits)

text \<open>The four updates of the operations: a new node, a new value, a new link, a deletion.\<close>

lemma own_insert:
  assumes own: "own m" and fresh: "p \<notin> dom m" "a \<notin> dom m" "b \<notin> dom m" "p \<noteq> a" "p \<noteq> b" "a \<noteq> b"
    and len: "length k = unat ks" "length v = unat vs" "ks \<noteq> - 1" "vs \<noteq> - 1"
    and m': "m' = m(a \<mapsto> chars_of k, b \<mapsto> chars_of v, p \<mapsto> DNode \<lparr>dn_key = \<lparr>ps_data = a, ps_size = ks\<rparr>,
              dn_val = \<lparr>ps_data = b, ps_size = vs\<rparr>, dn_next = nx\<rparr>)"
  shows "own m'" "view m' = (view m)(p \<mapsto> \<lparr>hkey = k, hval = v, hnext = nx\<rparr>)"
proof -
  have old: "q \<noteq> p \<and> q \<noteq> a \<and> q \<noteq> b \<and> {ps_data (dn_key n), ps_data (dn_val n)} \<inter> {p, a, b} = {}"
    if "m q = Some (DNode n)" for q n
    using ownD(1,2) [OF own that] that fresh by (auto simp: str_ok_def)
  show "own m'"
    unfolding own_def
  proof (intro conjI allI impI)
    fix q n assume q: "m' q = Some (DNode n)"
    have "str_ok m' (dn_key n) \<and> str_ok m' (dn_val n)"
    proof (cases "q = p")
      case True
      with q fresh len show ?thesis by (auto simp: m' str_ok_def)
    next
      case False
      with q have mq: "m q = Some (DNode n)" by (auto simp: m' split: if_splits)
      from old [OF mq] have "m' (ps_data (dn_key n)) = m (ps_data (dn_key n))"
        "m' (ps_data (dn_val n)) = m (ps_data (dn_val n))" by (auto simp: m')
      with ownD(1,2) [OF own mq] show ?thesis by (simp add: str_ok_cong [of m' _ m])
    qed
    then show "str_ok m' (dn_key n)" "str_ok m' (dn_val n)" by auto
  next
    fix q n q' n' assume q: "m' q = Some (DNode n)" "m' q' = Some (DNode n')"
    have c: "(q = p \<and> dn_key n = \<lparr>ps_data = a, ps_size = ks\<rparr> \<and> dn_val n = \<lparr>ps_data = b, ps_size = vs\<rparr>)
         \<or> q \<noteq> p \<and> m q = Some (DNode n)" if "m' q = Some (DNode n)" for q n
      using that by (auto simp: m' split: if_splits)
    show "ps_data (dn_key n) \<noteq> ps_data (dn_val n')"
      using c [OF q(1)] c [OF q(2)] old own fresh(6) unfolding own_def by fastforce
    show "ps_data (dn_key n) \<noteq> ps_data (dn_key n')" "ps_data (dn_val n) \<noteq> ps_data (dn_val n')" if "q \<noteq> q'"
      using c [OF q(1)] c [OF q(2)] old own_distinct [OF own _ _ that] that by fastforce+
  next
    fix q buf assume q: "m' q = Some (Chars buf)"
    show "\<exists>p n. m' p = Some (DNode n) \<and> (q = ps_data (dn_key n) \<or> q = ps_data (dn_val n))"
    proof (cases "q \<in> {a, b}")
      case True then show ?thesis using fresh by (intro exI [of _ p]) (auto simp: m')
    next
      case False
      with q have "m q = Some (Chars buf)" by (auto simp: m' split: if_splits)
      with own obtain r n where r: "m r = Some (DNode n)" "q = ps_data (dn_key n) \<or> q = ps_data (dn_val n)"
        unfolding own_def by blast
      with old [OF r(1)] have "m' r = Some (DNode n)" by (simp add: m')
      with r(2) show ?thesis by blast
    qed
  qed
  show "view m' = (view m)(p \<mapsto> \<lparr>hkey = k, hval = v, hnext = nx\<rparr>)"
  proof
    fix q
    show "view m' q = ((view m)(p \<mapsto> \<lparr>hkey = k, hval = v, hnext = nx\<rparr>)) q"
    proof (cases "q = p")
      case True
      have "str_at m' \<lparr>ps_data = a, ps_size = ks\<rparr> = Some k" "str_at m' \<lparr>ps_data = b, ps_size = vs\<rparr> = Some v"
        using fresh len by (auto intro!: str_at_ok simp: m')
      with True show ?thesis by (simp add: view_def m')
    next
      case False
      show ?thesis
      proof (cases "q = a \<or> q = b")
        case True
        then have "m q = None" "\<exists>bs. m' q = Some (chars_of bs)" using fresh False by (auto simp: m' domIff)
        with False show ?thesis by (auto simp: view_other)
      next
        case nab: False
        have "view m' q = view m q"
          by (rule view_cong) (use False nab old in \<open>auto simp: m'\<close>)
        with False show ?thesis by simp
      qed
    qed
  qed
qed
lemma own_delete:
  assumes own: "own m" and p: "m p = Some (DNode n)"
    and m': "m' = m(ps_data (dn_val n) := None, ps_data (dn_key n) := None, p := None)"
  shows "own m'" "view m' = (view m)(p := None)"
proof -
  let ?a = "ps_data (dn_key n)" and ?b = "ps_data (dn_val n)"
  have ab: "\<exists>k. m ?a = Some (chars_of k)" "\<exists>v. m ?b = Some (chars_of v)"
    using ownD(1,2) [OF own p] by (auto simp: str_ok_def)
  have other: "q \<noteq> p \<and> m q = Some (DNode n')" if "m' q = Some (DNode n')" for q n'
    using that by (auto simp: m' split: if_splits)
  have keep: "m' (ps_data (dn_key n')) = m (ps_data (dn_key n'))" "m' (ps_data (dn_val n')) = m (ps_data (dn_val n'))"
    "m' q = Some (DNode n')" if "m q = Some (DNode n')" "q \<noteq> p" for q n'
  proof -
    have "ps_data (dn_key n') \<noteq> p" "ps_data (dn_val n') \<noteq> p"
      using ownD(1,2) [OF own that(1)] p by (auto simp: str_ok_def)
    with own_distinct [OF own that(1) p that(2)]
    show "m' (ps_data (dn_key n')) = m (ps_data (dn_key n'))" "m' (ps_data (dn_val n')) = m (ps_data (dn_val n'))"
      by (auto simp: m')
    show "m' q = Some (DNode n')" using that ab by (auto simp: m')
  qed
  show "own m'"
    unfolding own_def
  proof (intro conjI allI impI)
    fix q n' assume "m' q = Some (DNode n')"
    from other [OF this] have q: "q \<noteq> p" "m q = Some (DNode n')" by auto
    with ownD(1,2) [OF own q(2)] keep [OF q(2,1)] show "str_ok m' (dn_key n')" "str_ok m' (dn_val n')"
      by (simp_all add: str_ok_cong [of m' _ m])
  next
    fix q n1 q' n2 assume "m' q = Some (DNode n1)" "m' q' = Some (DNode n2)"
    with other own_distinct [OF own] ownD(3) [OF own]
    show "ps_data (dn_key n1) \<noteq> ps_data (dn_val n2)" by (metis (no_types) dbcell.inject(2) option.inject)
    show "ps_data (dn_key n1) \<noteq> ps_data (dn_key n2)" "ps_data (dn_val n1) \<noteq> ps_data (dn_val n2)" if "q \<noteq> q'"
      using other own_distinct [OF own _ _ that] \<open>m' q = _\<close> \<open>m' q' = _\<close> by blast+
  next
    fix q buf assume q: "m' q = Some (Chars buf)"
    then have "m q = Some (Chars buf)" "q \<noteq> ?a" "q \<noteq> ?b" by (auto simp: m' split: if_splits)
    with own obtain r n' where r: "m r = Some (DNode n')" "q = ps_data (dn_key n') \<or> q = ps_data (dn_val n')"
      unfolding own_def by blast
    with p \<open>q \<noteq> ?a\<close> \<open>q \<noteq> ?b\<close> have "r \<noteq> p" by auto
    from keep(3) [OF r(1) this] r(2) show "\<exists>p n. m' p = Some (DNode n) \<and> (q = ps_data (dn_key n) \<or> q = ps_data (dn_val n))"
      by blast
  qed
  show "view m' = (view m)(p := None)"
  proof
    fix q show "view m' q = ((view m)(p := None)) q"
    proof (cases "q = p \<or> q = ?a \<or> q = ?b")
      case True
      with ab have "m' q = None" "q = p \<or> view m q = None" by (auto simp: m' view_other)
      then show ?thesis by (auto simp: view_other)
    next
      case False
      have "view m' q = view m q" by (rule view_cong) (use False keep in \<open>auto simp: m'\<close>)
      with False show ?thesis by simp
    qed
  qed
qed

text \<open>An update of a node is its deletion followed by an insertion at the same address.\<close>

lemma own_replace:
  assumes own: "own m" and p: "m p = Some (DNode n)"
    and len: "length v' = unat vs" "vs \<noteq> - 1" and b: "b \<notin> dom m - {ps_data (dn_val n)}"
    and k: "str_at m (dn_key n) = Some k"
    and m': "m' = m(ps_data (dn_val n) := None, b \<mapsto> chars_of v',
               p \<mapsto> DNode \<lparr>dn_key = dn_key n, dn_val = \<lparr>ps_data = b, ps_size = vs\<rparr>, dn_next = nx\<rparr>)"
  shows "own m'" "view m' = (view m)(p \<mapsto> \<lparr>hkey = k, hval = v', hnext = nx\<rparr>)"
proof -
  let ?a = "ps_data (dn_key n)" and ?o = "ps_data (dn_val n)"
  let ?m0 = "m(?o := None, ?a := None, p := None)"
  note del = own_delete [OF own p refl] and D = ownD [OF own p]
  from own_view [OF own p] k have kk: "m ?a = Some (chars_of k)" "length k = unat (ps_size (dn_key n))"
    by (metis option.inject)+
  have sk: "ps_size (dn_key n) \<noteq> - 1" using D(1) by (simp add: str_ok_def)
  have dist: "b \<noteq> ?a" "b \<noteq> p" "b \<notin> dom ?m0" using b kk(1) p D(3-5) by auto
  have eq: "m' = ?m0(?a \<mapsto> chars_of k, b \<mapsto> chars_of v', p \<mapsto> DNode \<lparr>dn_key = \<lparr>ps_data = ?a, ps_size = ps_size (dn_key n)\<rparr>,
      dn_val = \<lparr>ps_data = b, ps_size = vs\<rparr>, dn_next = nx\<rparr>)"
    using kk(1) D(3-5) dist by (auto simp: m' fun_eq_iff)
  have fr: "p \<notin> dom ?m0" "?a \<notin> dom ?m0" by auto
  have pa: "p \<noteq> ?a" "p \<noteq> b" "?a \<noteq> b" using D(4) dist by auto
  note ins = own_insert [OF del(1) fr dist(3) pa kk(2) len(1) sk len(2) eq]
  from ins(1) show "own m'" .
  from ins(2) show "view m' = (view m)(p \<mapsto> \<lparr>hkey = k, hval = v', hnext = nx\<rparr>)" by (simp add: del(2))
qed

lemma own_set_next:
  assumes own: "own m" and p: "m p = Some (DNode n)" and vp: "view m p = Some nd"
    and m': "m' = m(p \<mapsto> DNode (n\<lparr>dn_next := nx\<rparr>))"
  shows "own m'" "view m' = (view m)(p \<mapsto> nd\<lparr>hnext := nx\<rparr>)"
proof -
  let ?o = "ps_data (dn_val n)"
  from own_view [OF own p] obtain k v where kv: "str_at m (dn_key n) = Some k" 
    "view m p = Some \<lparr>hkey = k, hval = v, hnext = dn_next n\<rparr>" "m ?o = Some (chars_of v)"
    "length v = unat (ps_size (dn_val n))" by metis
  have s: "ps_size (dn_val n) \<noteq> - 1" using ownD(2) [OF own p] by (simp add: str_ok_def)
  have "m' = m(?o := None, ?o \<mapsto> chars_of v,
       p \<mapsto> DNode \<lparr>dn_key = dn_key n, dn_val = \<lparr>ps_data = ?o, ps_size = ps_size (dn_val n)\<rparr>, dn_next = nx\<rparr>)"
    using kv(3) ownD(5) [OF own p] by (auto simp: m' fun_eq_iff)
  from own_replace [OF own p kv(4) s _ kv(1) this] kv(2) vp
  show "own m'" "view m' = (view m)(p \<mapsto> nd\<lparr>hnext := nx\<rparr>)" by auto
qed
subsection \<open>The operations on strings and nodes\<close>

text \<open>A slice that a persistent copy has room for.\<close>

definition fits :: "nat \<Rightarrow> slice \<Rightarrow> bool" where
  "fits mx s \<longleftrightarrow> slice_wf s \<and> sl_size s \<noteq> - 1 \<and> unat (sl_size s) + 1 \<le> mx"

lemma unat_plus_one: "w \<noteq> - 1 \<Longrightarrow> unat (w + 1) = unat (w :: u64) + 1"
  using unatSuc [of w] by (metis add.commute add_eq_0_iff plus_1_eq_Suc)

definition maps_of :: "(ptr \<rightharpoonup> dbcell) \<Rightarrow> ptr \<rightharpoonup> dbmap" where
  "maps_of m p = (case m p of Some (DMap d) \<Rightarrow> Some d | _ \<Rightarrow> None)"

lemma maps_of_upd [simp]:
  "maps_of (m(p \<mapsto> Chars buf)) = (maps_of m)(p := None)"
  "maps_of (m(p \<mapsto> chars_of bs)) = (maps_of m)(p := None)"
  "maps_of (m(p \<mapsto> DNode n)) = (maps_of m)(p := None)"
  "maps_of (m(p \<mapsto> DMap d)) = (maps_of m)(p \<mapsto> d)"
  "maps_of (m(p := None)) = (maps_of m)(p := None)"
  by (auto simp: maps_of_def chars_of_def fun_eq_iff)

lemma maps_of_other [simp]: "m p = None \<Longrightarrow> (maps_of m)(p := None) = maps_of m"
  "m p = Some (DNode n) \<Longrightarrow> (maps_of m)(p := None) = maps_of m"
  "m p = Some (chars_of bs) \<Longrightarrow> (maps_of m)(p := None) = maps_of m"
  by (auto simp: maps_of_def chars_of_def fun_eq_iff)

lemma chars_write_ok:
  "nodes h p = Some (Chars buf) \<Longrightarrow> buf_write off bs buf = Some buf' \<Longrightarrow>
     chars_write p off bs h = Some (h\<lparr>nodes := (nodes h)(p \<mapsto> Chars buf')\<rparr>)"
  by (simp add: chars_write_def)

lemma chars_read_str: "nodes h p = Some (chars_of bs) \<Longrightarrow> n = length bs \<Longrightarrow> chars_read p 0 n h = Some bs"
  by (simp add: chars_read_def chars_of_def buf_read_map del: map_append list.map)

lemma chars_read_nul:
  "nodes h p = Some (chars_of bs) \<Longrightarrow> n = length bs + 1 \<Longrightarrow> chars_read p 0 n h = Some (bs @ [0])"
  by (simp add: chars_read_def chars_of_def buf_read_map del: map_append list.map)

context tm_alloc
begin

lemma chars_free_ok:
  assumes "heap_ok ainv h" "nodes h p = Some (chars_of bs)"
  shows "\<exists>h'. chars_free TM p h = Some h' \<and> heap_ok ainv h' \<and> nodes h' = (nodes h)(p := None)
          \<and> arrays h' = arrays h"
  using tmDelete_ok [OF assms] assms(2) by (simp add: chars_free_def chars_of_def)

lemma pslice_new_ok:
  assumes ok: "heap_ok ainv h" and sl: "fits max_request sl" and ret: "pslice_new TM sl h = Some (ps, h')"
  shows "heap_ok ainv h'" "nodes h' = (nodes h)(ps_data ps \<mapsto> chars_of (str sl))" "arrays h' = arrays h"
    "ps_size ps = sl_size sl" "ps_data ps \<notin> dom (nodes h)" "ps_data ps \<notin> dom (arrays h)"
proof -
  let ?n = "length (str sl)"
  from sl have wf: "slice_wf sl" and n: "unat (sl_size sl) = ?n" "unat (sl_size sl + 1) = ?n + 1"
    and sz: "unat (sl_size sl + 1) \<le> max_request"
    by (auto simp: fits_def str_length unat_plus_one)
  from ret obtain a h1 h2 h3 where
    m: "tmNew TM (sl_size sl + 1) (Chars (new_chars (?n + 1))) h = Some (a, h1)"
    and w1: "chars_write a 0 (str sl) h1 = Some h2" and w2: "chars_write a ?n [0] h2 = Some h3"
    and r: "ps = \<lparr>ps_data = a, ps_size = sl_size sl\<rparr>" "h' = h3"
    by (auto simp: pslice_new_def Let_def ret_simps n chars_malloc_def slice_read_str [OF wf])
  note f = tmNew_ok [OF ok sz m]
  have 1: "buf_write 0 (str sl) (new_chars (?n + 1)) = Some (map Some (str sl) @ new_chars 1)"
    using buf_write_next [of 0 "[]" "str sl" "?n + 1"] by simp
  have 2: "buf_write ?n [0] (map Some (str sl) @ new_chars 1) = Some (map Some (str sl @ [0]))"
    using buf_write_next [of ?n "str sl" "[0]" 1] by (simp add: new_chars_def)
  have "h2 = h1\<lparr>nodes := (nodes h1)(a \<mapsto> Chars (map Some (str sl) @ new_chars 1))\<rparr>"
    using w1 chars_write_ok [of h1 a, OF _ 1] f(2) by simp
  with w2 chars_write_ok [OF _ 2, of h2 a]
  have h': "h' = h1\<lparr>nodes := (nodes h1)(a \<mapsto> chars_of (str sl))\<rparr>" by (simp add: r chars_of_def)
  have "nodes h1 a = Some (Chars (new_chars (?n + 1)))" by (simp add: f(2))
  with heap_ok_upd [OF this] f(1) show "heap_ok ainv h'" by (simp add: h')
  show "nodes h' = (nodes h)(ps_data ps \<mapsto> chars_of (str sl))" "arrays h' = arrays h"
    "ps_size ps = sl_size sl" "ps_data ps \<notin> dom (nodes h)" "ps_data ps \<notin> dom (arrays h)"
    using f by (simp_all add: h' r domIff)
qed

lemma pslice_assign_ok:
  assumes ok: "heap_ok ainv h" and old: "nodes h (ps_data this) = Some (chars_of old)"
    and src: "nodes h (ps_data psl) = Some (chars_of bs)" "length bs = unat (ps_size psl)"
      "ps_data psl \<noteq> ps_data this" "ps_size psl \<noteq> - 1" "unat (ps_size psl) + 1 \<le> max_request"
    and ret: "pslice_assign TM this psl h = Some (ps, h')"
  shows "heap_ok ainv h'" "nodes h' = (nodes h)(ps_data this := None, ps_data ps \<mapsto> chars_of bs)"
    "arrays h' = arrays h" "ps_size ps = ps_size psl" "ps_data ps \<notin> dom (nodes h) - {ps_data this}"
proof -
  let ?n = "length bs"
  have n: "unat (ps_size psl + 1) = ?n + 1" and sz: "unat (ps_size psl + 1) \<le> max_request"
    using src by (simp_all add: unat_plus_one)
  from chars_free_ok [OF ok old] obtain h0 where h0: "chars_free TM (ps_data this) h = Some h0" "heap_ok ainv h0"
    "nodes h0 = (nodes h)(ps_data this := None)" "arrays h0 = arrays h" by blast
  from ret h0(1) obtain a h1 b h2 where
    m: "tmNew TM (ps_size psl + 1) (Chars (new_chars (?n + 1))) h0 = Some (a, h1)"
    and rd: "chars_read (ps_data psl) 0 (?n + 1) h1 = Some b" and w: "chars_write a 0 b h1 = Some h2"
    and r: "ps = \<lparr>ps_data = a, ps_size = ps_size psl\<rparr>" "h' = h2"
    by (auto simp: pslice_assign_def Let_def ret_simps n chars_malloc_def)
  note f = tmNew_ok [OF h0(2) sz m]
  have "a \<noteq> ps_data psl" using f(4) h0(3) src(1,3) by auto
  then have b: "b = bs @ [0]" using rd chars_read_nul [of h1 "ps_data psl" bs] f(2) h0(3) src(1,3) by simp
  have "buf_write 0 (bs @ [0]) (new_chars (?n + 1)) = Some (map Some (bs @ [0]))" by (rule buf_write_fill) simp
  with w b chars_write_ok [of h1 a "new_chars (?n + 1)" 0 "bs @ [0]"] f(2)
  have h': "h' = h1\<lparr>nodes := (nodes h1)(a \<mapsto> chars_of bs)\<rparr>" by (simp add: r chars_of_def)
  have "nodes h1 a = Some (Chars (new_chars (?n + 1)))" by (simp add: f(2))
  with heap_ok_upd [OF this] f(1) show "heap_ok ainv h'" by (simp add: h')
  show "nodes h' = (nodes h)(ps_data this := None, ps_data ps \<mapsto> chars_of bs)"
    "arrays h' = arrays h" "ps_size ps = ps_size psl" "ps_data ps \<notin> dom (nodes h) - {ps_data this}"
    using f(2-5) h0(3,4) by (auto simp: h' r domIff fun_eq_iff split: if_splits)
qed

end
lemma load_node_Some [heap_simps]: "nodes h p = Some (DNode n) \<Longrightarrow> load_node f p h = Some (f n)"
  by (simp add: load_node_def)

lemma store_node_Some [heap_simps]:
  "nodes h p = Some (DNode n) \<Longrightarrow> store_node g p h = Some (h\<lparr>nodes := (nodes h)(p \<mapsto> DNode (g n))\<rparr>)"
  by (simp add: store_node_def)

lemma load_map_Some [heap_simps]: "nodes h p = Some (DMap d) \<Longrightarrow> load_map f p h = Some (f d)"
  by (simp add: load_map_def)

text \<open>What an operation on the strings and nodes leaves alone: the buckets and the map object.\<close>

definition same_rest :: "'a dbheap \<Rightarrow> 'a dbheap \<Rightarrow> bool" where
  "same_rest h h' \<longleftrightarrow> arrays h' = arrays h \<and> maps_of (nodes h') = maps_of (nodes h)"

context tm_alloc
begin

lemma dbnode_new_ok:
  assumes ok: "heap_ok ainv h" and own: "own (nodes h)" and sz: "unat sz \<le> max_request"
    and k: "fits max_request k" and v: "fits max_request v"
    and ret: "dbnode_new TM sz k v h = Some (p, h')"
  shows "heap_ok ainv h'" "own (nodes h')"
    "view (nodes h') = (view (nodes h))(p \<mapsto> hnode_of (str k) (str v))" "same_rest h h'"
    "p \<notin> dom (nodes h)" "p \<notin> dom (arrays h)" "p \<noteq> nullptr"
proof -
  let ?nil = "\<lparr>ps_data = nullptr, ps_size = 0\<rparr>"
  let ?n0 = "\<lparr>dn_key = ?nil, dn_val = ?nil, dn_next = nullptr\<rparr>"
  from ret obtain h1 pk h2 h3 pv h4 where m: "tmNew TM sz (DNode ?n0) h = Some (p, h1)"
    and nk: "pslice_new TM k h1 = Some (pk, h2)" and s1: "store_node (\<lambda>n. n\<lparr>dn_key := pk\<rparr>) p h2 = Some h3"
    and nv: "pslice_new TM v h3 = Some (pv, h4)" and s2: "store_node (\<lambda>n. n\<lparr>dn_val := pv\<rparr>) p h4 = Some h'"
    by (auto simp: dbnode_new_def Let_def ret_simps)
  note f = tmNew_ok [OF ok sz m]
  note K = pslice_new_ok [OF f(1) k nk]
  have p2: "nodes h2 p = Some (DNode ?n0)" using K(2,5) f(2) by auto
  from s1 have h3: "h3 = h2\<lparr>nodes := (nodes h2)(p \<mapsto> DNode (?n0\<lparr>dn_key := pk\<rparr>))\<rparr>" by (simp add: store_node_Some [OF p2])
  with heap_ok_upd [OF p2] K(1) have ok3: "heap_ok ainv h3" by simp
  note V = pslice_new_ok [OF ok3 v nv]
  have p4: "nodes h4 p = Some (DNode (?n0\<lparr>dn_key := pk\<rparr>))" using V(2,5) h3 by auto
  from s2 have h': "h' = h4\<lparr>nodes := (nodes h4)(p \<mapsto> DNode (?n0\<lparr>dn_key := pk, dn_val := pv\<rparr>))\<rparr>" by (simp add: store_node_Some [OF p4])
  with heap_ok_upd [OF p4] V(1) show "heap_ok ainv h'" by simp
  have fr: "p \<notin> dom (nodes h)" "ps_data pk \<notin> dom (nodes h)" "ps_data pv \<notin> dom (nodes h)"
    "p \<noteq> ps_data pk" "p \<noteq> ps_data pv" "ps_data pk \<noteq> ps_data pv"
    using f(2,4) K(2,5) V(5) by (auto simp: h3)
  have l: "length (str k) = unat (ps_size pk)" "length (str v) = unat (ps_size pv)" "ps_size pk \<noteq> - 1" "ps_size pv \<noteq> - 1"
    using k v K(4) V(4) by (auto simp: fits_def str_length)
  have eq: "nodes h' = (nodes h)(ps_data pk \<mapsto> chars_of (str k), ps_data pv \<mapsto> chars_of (str v),
      p \<mapsto> DNode \<lparr>dn_key = \<lparr>ps_data = ps_data pk, ps_size = ps_size pk\<rparr>,
                 dn_val = \<lparr>ps_data = ps_data pv, ps_size = ps_size pv\<rparr>, dn_next = nullptr\<rparr>)"
    using fr f(2) K(2) V(2) by (auto simp: h' h3 fun_eq_iff)
  note ins = own_insert [OF own fr l eq]
  show "own (nodes h')" by (fact ins(1))
  show "view (nodes h') = (view (nodes h))(p \<mapsto> hnode_of (str k) (str v))" using ins(2) by (simp add: hnode_of_def)
  show "same_rest h h'"
    using K(3) V(3) f(3) fr by (auto simp: same_rest_def eq h3 fun_upd_twist domIff) (simp add: h' h3)
  show "p \<notin> dom (nodes h)" "p \<notin> dom (arrays h)" "p \<noteq> nullptr" using f by (simp_all add: domIff)
qed

lemma dbnode_delete_ok:
  assumes ok: "heap_ok ainv h" and own: "own (nodes h)" and p: "nodes h p = Some (DNode n)"
  shows "\<exists>h'. dbnode_delete TM p h = Some h' \<and> heap_ok ainv h' \<and> own (nodes h')
     \<and> view (nodes h') = (view (nodes h))(p := None) \<and> same_rest h h'"
proof -
  let ?a = "ps_data (dn_key n)" and ?b = "ps_data (dn_val n)"
  note D = ownD [OF own p]
  from own_view [OF own p] obtain k v where kv: "nodes h ?a = Some (chars_of k)" "nodes h ?b = Some (chars_of v)" by metis
  from chars_free_ok [OF ok kv(2)] obtain h1 where h1: "chars_free TM ?b h = Some h1" "heap_ok ainv h1"
    "nodes h1 = (nodes h)(?b := None)" "arrays h1 = arrays h" by blast
  have "nodes h1 ?a = Some (chars_of k)" using h1(3) kv(1) D(3) by simp
  from chars_free_ok [OF h1(2) this] obtain h2 where h2: "chars_free TM ?a h1 = Some h2" "heap_ok ainv h2"
    "nodes h2 = (nodes h)(?b := None, ?a := None)" "arrays h2 = arrays h" using h1(3,4) by auto
  have "nodes h2 p = Some (DNode n)" using h2(3) p D(4,5) by simp
  from tmDelete_ok [OF h2(2) this] obtain h3 where h3: "tmDelete TM p h2 = Some h3" "heap_ok ainv h3"
    "nodes h3 = (nodes h)(?b := None, ?a := None, p := None)" "arrays h3 = arrays h" using h2(3,4) by auto
  have "dbnode_delete TM p h = Some h3"
    using h1(1) h2(1) h3(1) p by (simp add: dbnode_delete_def pslice_delete_def heap_simps)
  moreover have "same_rest h h3"
    using h3(3,4) kv p D by (auto simp: same_rest_def maps_of_def fun_eq_iff chars_of_def split: option.splits)
  ultimately show ?thesis using own_delete [OF own p h3(3)] h3(2) by blast
qed

lemma dbnode_set_val_ok:
  assumes ok: "heap_ok ainv h" and own: "own (nodes h)" and p: "nodes h p = Some (DNode n)"
    and vp: "view (nodes h) p = Some nd" and v: "fits max_request v"
    and ret: "dbnode_set_val TM p v h = Some h'"
  shows "heap_ok ainv h'" "own (nodes h')"
    "view (nodes h') = (view (nodes h))(p \<mapsto> nd\<lparr>hval := str v\<rparr>)" "same_rest h h'"
proof -
  let ?o = "ps_data (dn_val n)"
  note D = ownD [OF own p]
  from own_view [OF own p] obtain k old where kv: "str_at (nodes h) (dn_key n) = Some k" "nodes h ?o = Some (chars_of old)"
    "view (nodes h) p = Some \<lparr>hkey = k, hval = old, hnext = dn_next n\<rparr>"
    "nodes h (ps_data (dn_key n)) = Some (chars_of k)" by metis
  from ret obtain t h1 o1 new h2 h3 where nt: "pslice_new TM v h = Some (t, h1)"
    and ld: "load_node dn_val p h1 = Some o1" and asg: "pslice_assign TM o1 t h1 = Some (new, h2)"
    and st: "store_node (\<lambda>n. n\<lparr>dn_val := new\<rparr>) p h2 = Some h3" and del: "chars_free TM (ps_data t) h3 = Some h'"
    by (auto simp: dbnode_set_val_def pslice_delete_def ret_simps)
  note T = pslice_new_ok [OF ok v nt]
  have t: "ps_data t \<noteq> p" "ps_data t \<noteq> ?o" using T(5) p kv(2) by auto
  have p1: "nodes h1 p = Some (DNode n)" using T(2) p t(1) by simp
  with ld have o1: "o1 = dn_val n" by (simp add: load_node_Some)
  have pre: "nodes h1 (ps_data o1) = Some (chars_of old)" "nodes h1 (ps_data t) = Some (chars_of (str v))"
    "length (str v) = unat (ps_size t)" "ps_data t \<noteq> ps_data o1" "ps_size t \<noteq> - 1" "unat (ps_size t) + 1 \<le> max_request"
    using T(2,4) kv(2) t(2) v by (auto simp: o1 fits_def str_length)
  note A = pslice_assign_ok [OF T(1) pre asg]
  have np: "ps_data new \<noteq> p" using A(5) p1 D(5) by (auto simp: o1)
  have p2: "nodes h2 p = Some (DNode n)" using A(2) p1 D(5) np by (simp add: o1)
  from st have h3: "h3 = h2\<lparr>nodes := (nodes h2)(p \<mapsto> DNode (n\<lparr>dn_val := new\<rparr>))\<rparr>" by (simp add: store_node_Some [OF p2])
  with heap_ok_upd [OF p2] A(1) have ok3: "heap_ok ainv h3" by simp
  have nt': "ps_data new \<noteq> ps_data t" using A(5) T(2) pre(4) by auto
  have t3: "nodes h3 (ps_data t) = Some (chars_of (str v))" using A(2) pre(2,4) t(1) nt' by (simp add: h3)
  from chars_free_ok [OF ok3 t3] del have h': "heap_ok ainv h'" "nodes h' = (nodes h3)(ps_data t := None)"
    "arrays h' = arrays h3" by auto
  have n0: "nodes h (ps_data t) = None" using T(5) by auto
  have eq: "nodes h' = (nodes h)(?o := None, ps_data new \<mapsto> chars_of (str v),
      p \<mapsto> DNode \<lparr>dn_key = dn_key n, dn_val = \<lparr>ps_data = ps_data new, ps_size = ps_size new\<rparr>, dn_next = dn_next n\<rparr>)"
    using A(2) T(2) t np nt' n0 by (auto simp: h' h3 o1 fun_eq_iff)
  have b: "ps_data new \<notin> dom (nodes h) - {?o}" using A(5) T(2) by (auto simp: o1)
  have l: "length (str v) = unat (ps_size new)" "ps_size new \<noteq> - 1" using A(4) pre(3,5) by simp_all
  note rep = own_replace [OF own p l b kv(1) eq]
  show "heap_ok ainv h'" "own (nodes h')" using h'(1) rep(1) by auto
  show "view (nodes h') = (view (nodes h))(p \<mapsto> nd\<lparr>hval := str v\<rparr>)" using rep(2) kv(3) vp by simp
  have "maps_of (nodes h') = maps_of (nodes h)"
    using b p kv(2) by (auto simp: eq maps_of_def fun_eq_iff chars_of_def split: option.splits)
  then show "same_rest h h'" using A(3) T(3) h'(3) by (simp add: same_rest_def h3)
qed

end
subsection \<open>An allocator that replays given addresses\<close>

text \<open>
  Whatever addresses the allocator of the database returned, the generic map can be run on an
  allocator that returns the same ones.
\<close>

type_synonym replay = "ptr list \<times> ptr set"

definition replay_malloc :: "u64 \<Rightarrow> replay \<Rightarrow> ptr \<times> replay" where
  "replay_malloc sz s =
     (case s of
        (p # ps, L) \<Rightarrow> if p \<noteq> nullptr \<and> p \<notin> L then (p, (ps, insert p L)) else (nullptr, s)
      | ([], L) \<Rightarrow> (nullptr, s))"

definition replay_free :: "ptr \<Rightarrow> replay \<Rightarrow> replay" where
  "replay_free p s = (fst s, snd s - {p})"

definition replay_inv :: "replay \<Rightarrow> ptr set \<Rightarrow> bool" where
  "replay_inv s L \<longleftrightarrow> snd s = L \<and> nullptr \<notin> L"

definition replay_tm :: "replay tm" where
  "replay_tm = \<lparr>tm_malloc = replay_malloc, tm_free = replay_free\<rparr>"

interpretation rp: tm_alloc replay_tm replay_inv 1
  by unfold_locales
    (auto simp: replay_tm_def replay_malloc_def replay_free_def replay_inv_def
       split: list.splits prod.splits if_splits)

text \<open>The heap of the database and the heap of the generic map.\<close>

definition hrel :: "('a \<Rightarrow> ptr set \<Rightarrow> bool) \<Rightarrow> (ptr \<rightharpoonup> dbmap) \<Rightarrow> 'a dbheap \<Rightarrow> ((bytes, bytes) hnode, replay) tmheap \<Rightarrow> bool" where
  "hrel ainv D h H \<longleftrightarrow>
     nodes H = view (nodes h) \<and> arrays H = arrays h \<and> heap_ok ainv h \<and> own (nodes h) \<and> maps_of (nodes h) = D"

lemma hrel_arr: "hrel ainv D h H \<Longrightarrow> load_arr p i H = load_arr p i h"
  by (simp add: hrel_def load_arr_def)

lemma hrel_store_arr:
  "hrel ainv D h H \<Longrightarrow> rel_option (hrel ainv D) (store_arr p i v h) (store_arr p i v H)"
  by (cases "arrays h p") (auto simp: hrel_def store_arr_def heap_ok_upd_arr)

lemma hrel_store_next:
  assumes r: "hrel ainv D h H"
  shows "rel_option (hrel ainv D) (store_node (\<lambda>n. n\<lparr>dn_next := q\<rparr>) p h) (store (\<lambda>n. n\<lparr>hnext := q\<rparr>) p H)"
proof (cases "\<exists>n. nodes h p = Some (DNode n)")
  case True
  then obtain n where n: "nodes h p = Some (DNode n)" by blast
  from r have own: "own (nodes h)" by (simp add: hrel_def)
  from own_view [OF own n] obtain nd where nd: "view (nodes h) p = Some nd" by metis
  have "D(p := None) = D" using maps_of_other(2) [of "nodes h" p n, OF n] r by (simp add: hrel_def)
  with own_set_next [OF own n nd refl, of q] r n nd show ?thesis
    by (simp add: heap_simps store_def hrel_def)
next
  case False
  then have "view (nodes h) p = None" using view_Some by fastforce
  with r False show ?thesis
    by (auto simp: store_def hrel_def store_node_def split: option.splits dbcell.splits)
qed

lemma hrel_node:
  assumes "hrel ainv D h H" "nodes H p = Some nd"
  obtains n where "nodes h p = Some (DNode n)" "dn_next n = hnext nd"
    "\<And>key. slice_wf key \<Longrightarrow> pslice_eq (dn_key n) key h = Some (hkey nd = str key)"
    "chars_read (ps_data (dn_val n)) 0 (unat (ps_size (dn_val n))) h = Some (hval nd)"
proof -
  from assms have own: "own (nodes h)" and vp: "view (nodes h) p = Some nd" by (simp_all add: hrel_def)
  from view_Some [OF vp] obtain n where n: "nodes h p = Some (DNode n)" by blast
  from own_view [OF own n] vp obtain k v where kv: "nd = \<lparr>hkey = k, hval = v, hnext = dn_next n\<rparr>"
    "nodes h (ps_data (dn_key n)) = Some (chars_of k)" "nodes h (ps_data (dn_val n)) = Some (chars_of v)"
    "length k = unat (ps_size (dn_key n))" "length v = unat (ps_size (dn_val n))" by (metis option.inject)
  have "pslice_eq (dn_key n) key h = Some (hkey nd = str key)" if wf: "slice_wf key" for key
  proof (cases "ps_size (dn_key n) = sl_size key")
    case True
    then have "length k = length (str key)" using kv(4) str_length [OF wf] by simp
    then show ?thesis
      using True kv(1) chars_read_str [OF kv(2) refl] slice_read_str [OF wf refl] str_length [OF wf] kv(4)
      by (simp add: pslice_eq_def memcmp_0_iff)
  next
    case False
    then have "length k \<noteq> length (str key)" using kv(4) str_length [OF wf] by (simp add: word_unat_eq_iff)
    with False kv(1) show ?thesis by (auto simp: pslice_eq_def)
  qed
  with that [OF n] kv(1) chars_read_str [OF kv(3)] kv(5) show ?thesis by simp
qed

lemma hrel_skip_node:
  assumes "hrel ainv D h H" "lseg hnext (nodes H) node (p # ps) q"
    "\<forall>p\<in>set (p # ps). \<exists>n. nodes H p = Some n \<and> hkey n \<noteq> str key" "slice_wf key"
  obtains nd n where "node = p" "lseg hnext (nodes H) (dn_next n) ps q" "nodes h p = Some (DNode n)"
    "pslice_eq (dn_key n) key h = Some False"
proof -
  from skip_node [OF assms(2,3)] obtain nd where nd: "node = p" "nodes H p = Some nd" "hkey nd \<noteq> str key"
    "lseg hnext (nodes H) (hnext nd) ps q" .
  from hrel_node [OF assms(1) nd(2)] obtain n where n: "nodes h p = Some (DNode n)" "dn_next n = hnext nd"
    "pslice_eq (dn_key n) key h = Some (hkey nd = str key)" using assms(4) by metis
  from that [OF nd(1) _ n(1)] nd(3,4) n(2,3) show ?thesis by simp
qed

lemma db_put_loop_skip:
  assumes "hrel ainv D h H" "slice_wf key" "lseg hnext (nodes H) node ps q" "nullptr \<notin> set ps"
    "\<forall>p\<in>set ps. \<exists>n. nodes H p = Some n \<and> hkey n \<noteq> str key"
  shows "db_put_loop TM sz key v bk i node prev h = db_put_loop TM sz key v bk i q (last (prev # ps)) h"
  using assms(3-)
proof (induction ps arbitrary: node prev)
  case (Cons p ps)
  from hrel_skip_node [OF assms(1) Cons.prems(1,3) assms(2)] obtain n where n: "node = p"
    "lseg hnext (nodes H) (dn_next n) ps q" "nodes h p = Some (DNode n)" "pslice_eq (dn_key n) key h = Some False" .
  with Cons.prems(2) have "db_put_loop TM sz key v bk i node prev h = db_put_loop TM sz key v bk i (dn_next n) p h"
    by (subst db_put_loop.simps) (simp add: heap_simps)
  with Cons.IH [OF n(2)] Cons.prems show ?case by simp
qed simp

lemma db_remove_loop_skip:
  assumes "hrel ainv D h H" "slice_wf key" "lseg hnext (nodes H) node ps q" "nullptr \<notin> set ps"
    "\<forall>p\<in>set ps. \<exists>n. nodes H p = Some n \<and> hkey n \<noteq> str key"
  shows "db_remove_loop TM key bk i node prev h = db_remove_loop TM key bk i q (last (prev # ps)) h"
  using assms(3-)
proof (induction ps arbitrary: node prev)
  case (Cons p ps)
  from hrel_skip_node [OF assms(1) Cons.prems(1,3) assms(2)] obtain n where n: "node = p"
    "lseg hnext (nodes H) (dn_next n) ps q" "nodes h p = Some (DNode n)" "pslice_eq (dn_key n) key h = Some False" .
  with Cons.prems(2) have "db_remove_loop TM key bk i node prev h = db_remove_loop TM key bk i (dn_next n) p h"
    by (subst db_remove_loop.simps) (simp add: heap_simps)
  with Cons.IH [OF n(2)] Cons.prems show ?case by simp
qed simp

lemma db_get_loop_ok:
  assumes r: "hrel ainv D h H" and wf: "slice_wf key" and ch: "hchain (nodes H) b ps kvs"
  shows "db_get_loop key old b h =
     Some (case map_of kvs (str key) of None \<Rightarrow> (False, old) | Some v \<Rightarrow> (True, v))"
  using ch
proof (induction ps arbitrary: b kvs)
  case Nil then show ?case by (simp add: db_get_loop.simps [of _ _ 0])
next
  case (Cons p ps)
  from Cons.prems obtain nd kvs' where nd: "p = b" "b \<noteq> nullptr" "nodes H b = Some nd" "kvs = kv_of nd # kvs'"
    and rest: "hchain (nodes H) (hnext nd) ps kvs'" by (auto simp: hchain_Cons)
  from hrel_node [OF r nd(3)] obtain n where n: "nodes h b = Some (DNode n)" "dn_next n = hnext nd"
    "pslice_eq (dn_key n) key h = Some (hkey nd = str key)"
    "chars_read (ps_data (dn_val n)) 0 (unat (ps_size (dn_val n))) h = Some (hval nd)" using wf by metis
  show ?case using nd n Cons.IH [OF rest] by (subst db_get_loop.simps) (simp add: heap_simps)
qed
lemma db_put_missing:
  assumes r: "hrel ainv D h H" and ch: "hchain (nodes H) b ps kvs" and wf: "slice_wf key"
    and None: "map_of kvs (str key) = None"
  shows "db_put_loop TM sz key v bk i b b h =
     do { (newnode, h1) \<leftarrow> dbnode_new TM sz key v h;
          h2 \<leftarrow> (if ps = [] then store_arr bk i newnode h1
                else store_node (\<lambda>n. n\<lparr>dn_next := newnode\<rparr>) (last (b # ps)) h1);
          Some (True, h2) }"
proof -
  from hchain_lookup [OF ch, of "str key"] None
  have neq: "\<forall>p\<in>set ps. \<exists>n. nodes H p = Some n \<and> hkey n \<noteq> str key" by simp
  have seg: "lseg hnext (nodes H) b ps nullptr" "nullptr \<notin> set ps" using ch by (auto simp: hchain_def)
  have "ps \<noteq> [] \<Longrightarrow> last ps \<noteq> nullptr" using seg(2) last_in_set [of ps] by metis
  then have lst: "nullptr = last (b # ps) \<longleftrightarrow> ps = []" using seg(1) by (cases ps) auto
  show ?thesis
    unfolding db_put_loop_skip [OF r wf seg neq] by (subst db_put_loop.simps) (simp only: lst if_True refl)
qed

context tm_alloc
begin

text \<open>Insertion: the concrete loop, run to the end, and the generic one on its new address.\<close>

lemma db_put_sim:
  assumes r: "hrel ainv D h (hm_heap s)" and ch: "hchain (nodes (hm_heap s)) b ps kvs"
    and wf: "fits max_request key" "fits max_request v" and sz: "unat sz \<le> max_request"
    and ret: "db_put_loop TM sz key v (hm_buckets s) i b b h = Some (res, h')"
    and pl: "snd (pool (hm_heap s)) = dom (nodes (hm_heap s)) \<union> dom (arrays (hm_heap s))"
  shows "\<exists>p s'. hm_put_loop replay_tm 0 (str key) (str v) None False i b b
        (s\<lparr>hm_heap := (hm_heap s)\<lparr>pool := ([p], snd (pool (hm_heap s)))\<rparr>\<rparr>) = Some (res, None, s')
      \<and> hrel ainv D h' (hm_heap s') \<and> hm_capacity s' = hm_capacity s \<and> hm_buckets s' = hm_buckets s"
proof -
  let ?H = "\<lambda>p. (hm_heap s)\<lparr>pool := ([p], snd (pool (hm_heap s)))\<rparr>" and ?s = "\<lambda>p. s\<lparr>hm_heap := (hm_heap s)\<lparr>pool := ([p], snd (pool (hm_heap s)))\<rparr>\<rparr>"
  from wf have wfk: "slice_wf key" by (simp add: fits_def)
  from r have own: "own (nodes h)" and ok: "heap_ok ainv h" and H: "nodes (hm_heap s) = view (nodes h)"
    "arrays (hm_heap s) = arrays h" and D: "maps_of (nodes h) = D" by (simp_all add: hrel_def)
  show ?thesis
  proof (cases "map_of kvs (str key)")
    case None
    from ret [unfolded db_put_missing [OF r ch wfk None]]
    obtain p h1 where new: "dbnode_new TM sz key v h = Some (p, h1)" and res: "res"
      and st: "(if ps = [] then store_arr (hm_buckets s) i p h1
                else store_node (\<lambda>n. n\<lparr>dn_next := p\<rparr>) (last (b # ps)) h1) = Some h'"
      by (auto simp only: ret_simps prod.case prod.inject split_paired_Ex option.inject)
    note N = dbnode_new_ok [OF ok own sz wf new]
    let ?H1 = "(hm_heap s)\<lparr>nodes := (nodes (hm_heap s))(p \<mapsto> hnode_of (str key) (str v)),
      pool := ([], insert p (snd (pool (hm_heap s))))\<rparr>"
    have "p \<notin> dom (view (nodes h))" using N(5) dom_view by blast
    then have mal: "tmNew replay_tm 0 (hnode_of (str key) (str v)) (?H p) = Some (p, ?H1)"
      using N(6,7) pl H by (simp add: tmNew_def replay_tm_def replay_malloc_def)
    have r1: "hrel ainv D h1 ?H1" using N(1-4) H D by (simp add: hrel_def same_rest_def)
    from st hrel_store_arr [OF r1, of "hm_buckets s" i p] hrel_store_next [OF r1, of p "last (b # ps)"]
    obtain H2 where H2: "(if ps = [] then store_arr (hm_buckets s) i p ?H1
        else store (\<lambda>n. n\<lparr>hnext := p\<rparr>) (last (b # ps)) ?H1) = Some H2" "hrel ainv D h' H2"
      by (auto simp: option_rel_Some1 split: if_splits)
    have ch': "hchain (nodes (hm_heap (?s p))) b ps kvs" using ch by simp
    have lb: "ps \<noteq> [] \<Longrightarrow> last (b # ps) = last ps" by simp
    from hm_put_missing [OF ch' None, of replay_tm 0 "str v" None False i] mal H2(1) res
    have "hm_put_loop replay_tm 0 (str key) (str v) None False i b b (?s p) = Some (res, None,
       ?s p\<lparr>hm_heap := H2, hm_size := hm_size s + 1\<rparr>)"
      by (auto simp: lb split: if_splits)
    with H2(2) show ?thesis by (intro exI conjI) (assumption, simp_all)
  next
    case (Some w)
    with hchain_lookup [OF ch, of "str key"] obtain ps1 p ps2 nd where *: "ps = ps1 @ p # ps2"
      "nodes (hm_heap s) p = Some nd" "kv_of nd = (str key, w)" "lseg hnext (nodes (hm_heap s)) b ps1 p"
      "\<forall>q\<in>set ps1. \<exists>n. nodes (hm_heap s) q = Some n \<and> hkey n \<noteq> str key" by blast
    have nn: "nullptr \<notin> set ps1" "p \<noteq> nullptr" using ch *(1) by (auto simp: hchain_def)
    from hrel_node [OF r *(2)] obtain n where n: "nodes h p = Some (DNode n)"
      "pslice_eq (dn_key n) key h = Some True"
      by (rule hrel_node [OF r *(2)]) (rule that, assumption, use wfk *(3) in auto)
    have "db_put_loop TM sz key v (hm_buckets s) i b b h = do { h1 \<leftarrow> dbnode_set_val TM p v h; Some (False, h1) }"
      unfolding db_put_loop_skip [OF r wfk *(4) nn(1) *(5)] using nn(2) n
      by (subst db_put_loop.simps) (simp add: heap_simps)
    with ret have st: "dbnode_set_val TM p v h = Some h'" and res: "\<not> res" by (auto simp: ret_simps)
    have vp: "view (nodes h) p = Some nd" using *(2) H by simp
    note V = dbnode_set_val_ok [OF ok own n(1) vp wf(2) st]
    let ?H1 = "(hm_heap s)\<lparr>nodes := (nodes (hm_heap s))(p \<mapsto> nd\<lparr>hval := str v\<rparr>), pool := ([0], snd (pool (hm_heap s)))\<rparr>"
    have sq: "lseg hnext (nodes (hm_heap (?s 0))) b ps1 p"
      "\<forall>q\<in>set ps1. \<exists>n. nodes (hm_heap (?s 0)) q = Some n \<and> hkey n \<noteq> str key" using *(4,5) by simp_all
    have "hm_put_loop replay_tm 0 (str key) (str v) None False i b b (?s 0) = Some (res, None, ?s 0\<lparr>hm_heap := ?H1\<rparr>)"
      unfolding hm_put_loop_skip [OF sq(1) nn(1) sq(2)] using nn(2) *(2,3) res
      by (subst hm_put_loop.simps) (simp add: heap_simps)
    moreover have "hrel ainv D h' ?H1" using V H D by (simp add: hrel_def same_rest_def)
    ultimately show ?thesis by (intro exI conjI) (assumption, simp_all)
  qed
qed

end
context tm_alloc
begin

lemma hrel_delete:
  assumes r: "hrel ainv D h H" and p: "nodes H p = Some nd"
  shows "\<exists>h'. dbnode_delete TM p h = Some h' \<and> hrel ainv D h' (H\<lparr>nodes := (nodes H)(p := None), pool := pl\<rparr>)"
proof -
  from hrel_node [OF r p] obtain n where n: "nodes h p = Some (DNode n)" .
  from r have "heap_ok ainv h" "own (nodes h)" by (simp_all add: hrel_def)
  from dbnode_delete_ok [OF this n] r show ?thesis by (auto simp: hrel_def same_rest_def)
qed

text \<open>Removal: the generic loop that returned, and the concrete one that does the same.\<close>

lemma db_remove_sim:
  assumes r: "hrel ainv D h (hm_heap s)" and ch: "hchain (nodes (hm_heap s)) b ps kvs" and wf: "slice_wf key"
    and ret: "hm_remove_loop replay_tm (str key) None False i b b s = Some (res, old, s')"
  shows "\<exists>h'. db_remove_loop TM key (hm_buckets s) i b b h = Some (res, h') \<and> hrel ainv D h' (hm_heap s')
      \<and> hm_capacity s' = hm_capacity s \<and> hm_buckets s' = hm_buckets s"
proof (cases "map_of kvs (str key)")
  case None
  with hchain_lookup [OF ch, of "str key"]
  have neq: "\<forall>p\<in>set ps. \<exists>n. nodes (hm_heap s) p = Some n \<and> hkey n \<noteq> str key" by simp
  have seg: "lseg hnext (nodes (hm_heap s)) b ps nullptr" "nullptr \<notin> set ps" using ch by (auto simp: hchain_def)
  from ret hm_remove_missing [OF ch None] have "\<not> res" "s' = s" by auto
  with r show ?thesis
    unfolding db_remove_loop_skip [OF r wf seg neq] by (simp add: db_remove_loop.simps [of _ _ _ _ 0])
next
  case (Some w)
  with hchain_lookup [OF ch, of "str key"] obtain ps1 p ps2 nd where *: "ps = ps1 @ p # ps2"
    "nodes (hm_heap s) p = Some nd" "kv_of nd = (str key, w)" "lseg hnext (nodes (hm_heap s)) b ps1 p"
    "\<forall>q\<in>set ps1. \<exists>n. nodes (hm_heap s) q = Some n \<and> hkey n \<noteq> str key" by blast
  have nn: "nullptr \<notin> set ps1" "p \<noteq> nullptr" using ch *(1) by (auto simp: hchain_def)
  obtain n where n: "nodes h p = Some (DNode n)" "dn_next n = hnext nd" "pslice_eq (dn_key n) key h = Some True"
    by (rule hrel_node [OF r *(2)]) (rule that, assumption, use wf *(3) in auto)
  let ?prev = "last (b # ps1)"
  have "hm_remove_loop replay_tm (str key) None False i b b s =
     do { h1 \<leftarrow> (if p = ?prev then store_arr (hm_buckets s) i (hnext nd) (hm_heap s)
                else store (\<lambda>n. n\<lparr>hnext := hnext nd\<rparr>) ?prev (hm_heap s));
          h2 \<leftarrow> tmDelete replay_tm p h1;
          Some (True, None, s\<lparr>hm_heap := h2, hm_size := hm_size s - 1\<rparr>) }"
    unfolding hm_remove_loop_skip [OF *(4) nn(1) *(5)] using nn(2) *(2,3)
    by (subst hm_remove_loop.simps) (simp add: heap_simps del: last.simps)
  with ret obtain H1 H2 where H1: "(if p = ?prev then store_arr (hm_buckets s) i (hnext nd) (hm_heap s)
                else store (\<lambda>n. n\<lparr>hnext := hnext nd\<rparr>) ?prev (hm_heap s)) = Some H1"
      and H2: "tmDelete replay_tm p H1 = Some H2" and res: "res" "s' = s\<lparr>hm_heap := H2, hm_size := hm_size s - 1\<rparr>"
    by (auto simp only: ret_simps prod.inject)
  from H1 hrel_store_arr [OF r, of "hm_buckets s" i "hnext nd"] hrel_store_next [OF r, of "hnext nd" ?prev]
  obtain h1 where h1: "(if p = ?prev then store_arr (hm_buckets s) i (hnext nd) h
                else store_node (\<lambda>n. n\<lparr>dn_next := hnext nd\<rparr>) ?prev h) = Some h1" "hrel ainv D h1 H1"
    by (auto simp: option_rel_Some2 split: if_splits simp del: last.simps)
  from H2 nn(2) obtain nd' where nd': "nodes H1 p = Some nd'"
    "H2 = H1\<lparr>nodes := (nodes H1)(p := None), pool := tm_free replay_tm p (pool H1)\<rparr>"
    by (auto simp: tmDelete_def split: if_splits)
  from hrel_delete [OF h1(2) nd'(1)] obtain h2 where h2: "dbnode_delete TM p h1 = Some h2" "hrel ainv D h2 H2"
    unfolding nd'(2) by blast
  have "db_remove_loop TM key (hm_buckets s) i b b h = Some (True, h2)"
    unfolding db_remove_loop_skip [OF r wf *(4) nn(1) *(5)] using nn(2) n h1(1) h2(1)
    by (subst db_remove_loop.simps) (simp add: heap_simps del: last.simps)
  with h2(2) res show ?thesis by auto
qed

lemma db_free_chain_ok:
  assumes "hrel ainv D h H" "hchain (nodes H) b ps kvs"
  shows "\<exists>h' H'. db_free_chain TM b h = Some h' \<and> hrel ainv D h' H' \<and> arrays H' = arrays H
     \<and> nodes H' = (\<lambda>x. if x \<in> set ps then None else nodes H x)"
  using assms
proof (induction ps arbitrary: b kvs h H)
  case Nil
  then show ?case by (intro exI [of _ h] exI [of _ H]) (simp add: db_free_chain.simps [of _ 0])
next
  case (Cons p ps)
  from Cons.prems(2) obtain nd kvs' where nd: "p = b" "b \<noteq> nullptr" "nodes H b = Some nd" "b \<notin> set ps"
    and ch: "hchain (nodes H) (hnext nd) ps kvs'" by (auto simp: hchain_Cons)
  from hrel_node [OF Cons.prems(1) nd(3)] obtain n where n: "nodes h b = Some (DNode n)" "dn_next n = hnext nd" by metis
  let ?H1 = "H\<lparr>nodes := (nodes H)(b := None), pool := undefined\<rparr>"
  from hrel_delete [OF Cons.prems(1) nd(3)] obtain h1 where h1: "dbnode_delete TM b h = Some h1" "hrel ainv D h1 ?H1"
    by blast
  have "hchain (nodes ?H1) (hnext nd) ps kvs' = hchain (nodes H) (hnext nd) ps kvs'"
    by (rule hchain_cong) (use nd(4) in auto)
  with ch have "hchain (nodes ?H1) (hnext nd) ps kvs'" by simp
  from Cons.IH [OF h1(2) this] obtain h' H' where h': "db_free_chain TM (hnext nd) h1 = Some h'" "hrel ainv D h' H'"
    "arrays H' = arrays H" "nodes H' = (\<lambda>x. if x \<in> set ps then None else nodes ?H1 x)" by auto
  have "db_free_chain TM b h = Some h'" using nd n h1(1) h'(1) by (subst db_free_chain.simps) (simp add: heap_simps)
  then show ?case using h'(2-4) nd(1) by (intro exI [of _ h'] exI [of _ H']) (auto simp: fun_eq_iff)
qed

lemma db_free_chains_ok:
  assumes "hrel ainv D h H" "arrays H p = Some bs" "distinct is"
    "\<forall>i\<in>set is. i < length bs \<and> (\<exists>b. bs ! i = Some b \<and> hchain (nodes H) b (ps i) (kv i))"
    "\<forall>i\<in>set is. \<forall>j\<in>set is. i \<noteq> j \<longrightarrow> set (ps i) \<inter> set (ps j) = {}"
  shows "\<exists>h' H'. db_free_chains TM p is h = Some h' \<and> hrel ainv D h' H' \<and> arrays H' = arrays H
     \<and> nodes H' = (\<lambda>x. if x \<in> (\<Union>i\<in>set is. set (ps i)) then None else nodes H x)"
  using assms
proof (induction "is" arbitrary: h H)
  case Nil then show ?case by (intro exI [of _ h] exI [of _ H]) simp
next
  case (Cons i "is")
  from Cons.prems(4) obtain b where b: "i < length bs" "bs ! i = Some b" "hchain (nodes H) b (ps i) (kv i)" by auto
  from db_free_chain_ok [OF Cons.prems(1) b(3)] obtain h1 H1 where h1: "db_free_chain TM b h = Some h1" "hrel ainv D h1 H1"
    "arrays H1 = arrays H" "nodes H1 = (\<lambda>x. if x \<in> set (ps i) then None else nodes H x)" by blast
  have keep: "hchain (nodes H1) c (ps j) (kv j) = hchain (nodes H) c (ps j) (kv j)" if "j \<in> set is" for c j
  proof (rule hchain_cong)
    fix x assume "x \<in> set (ps j)"
    moreover have "set (ps i) \<inter> set (ps j) = {}" using Cons.prems(3,5) that by auto
    ultimately show "nodes H1 x = nodes H x" by (auto simp: h1(4))
  qed
  have "\<exists>h' H'. db_free_chains TM p is h1 = Some h' \<and> hrel ainv D h' H' \<and> arrays H' = arrays H1
     \<and> nodes H' = (\<lambda>x. if x \<in> (\<Union>i\<in>set is. set (ps i)) then None else nodes H1 x)"
    by (rule Cons.IH [OF h1(2)]) (use Cons.prems(2-5) h1(3) keep in auto)
  then obtain h' H' where h': "db_free_chains TM p is h1 = Some h'" "hrel ainv D h' H'" "arrays H' = arrays H1"
    "nodes H' = (\<lambda>x. if x \<in> (\<Union>i\<in>set is. set (ps i)) then None else nodes H1 x)" by blast
  have "load_arr p i h = Some b" using Cons.prems(2) b hrel_arr [OF Cons.prems(1), of p i] by (simp add: load_arr_def)
  then show ?case using h1 h' by (intro exI [of _ h'] exI [of _ H']) (auto simp: fun_eq_iff)
qed

end
subsection \<open>The map the database represents\<close>

definition db_at :: "('a \<Rightarrow> ptr set \<Rightarrow> bool) \<Rightarrow> dbmap \<Rightarrow> ptr \<Rightarrow> 'a dbheap \<Rightarrow> (bytes \<rightharpoonup> bytes) \<Rightarrow> bool" where
  "db_at ainv d this h M \<longleftrightarrow>
     (\<exists>s. hrel ainv [this \<mapsto> d] h (hm_heap s) \<and> hm_capacity s = dm_capacity d \<and> hm_buckets s = dm_buckets d
        \<and> hm_rep replay_inv bytes_hash s M)"

definition db_rep :: "('a \<Rightarrow> ptr set \<Rightarrow> bool) \<Rightarrow> ptr \<Rightarrow> 'a dbheap \<Rightarrow> (bytes \<rightharpoonup> bytes) \<Rightarrow> bool" where
  "db_rep ainv this h M \<longleftrightarrow> (\<exists>d. dm_sizeHM d = 0 \<and> db_at ainv d this h M)"

lemma maps_of_iff: "maps_of m p = Some d \<longleftrightarrow> m p = Some (DMap d)"
  by (auto simp: maps_of_def split: option.splits dbcell.splits)

lemma hrel_this: "hrel ainv [this \<mapsto> d] h H \<Longrightarrow> nodes h this = Some (DMap d)"
  by (simp add: hrel_def flip: maps_of_iff)

lemma hm_rep_supply:
  "hm_rep replay_inv hash s M \<Longrightarrow>
     hm_rep replay_inv hash (s\<lparr>hm_heap := (hm_heap s)\<lparr>pool := (ps, snd (pool (hm_heap s)))\<rparr>\<rparr>) M"
  by (auto simp: hm_rep_def heap_ok_def replay_inv_def)

lemma hm_rep_pool:
  "hm_rep replay_inv hash s M \<Longrightarrow> snd (pool (hm_heap s)) = dom (nodes (hm_heap s)) \<union> dom (arrays (hm_heap s))"
  by (auto simp: hm_rep_def heap_ok_def replay_inv_def)

text \<open>Everything an operation looks up before it enters the chain of its key.\<close>

lemma db_repE:
  assumes "db_rep ainv this h M" "slice_wf key"
  obtains d s i b ps kvs where "dm_sizeHM d = 0" "hrel ainv [this \<mapsto> d] h (hm_heap s)"
    "hm_capacity s = dm_capacity d" "hm_buckets s = dm_buckets d" "hm_rep replay_inv bytes_hash s M"
    "i = hidx bytes_hash (hm_capacity s) (str key)" "load_arr (hm_buckets s) i (hm_heap s) = Some b"
    "hchain (nodes (hm_heap s)) b ps kvs" "M (str key) = map_of kvs (str key)"
    "load_map dm_capacity this h = Some (hm_capacity s)" "load_map dm_buckets this h = Some (hm_buckets s)"
    "hm_index slice_toHash key (hm_capacity s) = Some i" "load_arr (hm_buckets s) i h = Some b"
proof -
  from assms(1) obtain d s where *: "dm_sizeHM d = 0" "hrel ainv [this \<mapsto> d] h (hm_heap s)"
    "hm_capacity s = dm_capacity d" "hm_buckets s = dm_buckets d" "hm_rep replay_inv bytes_hash s M"
    by (auto simp: db_rep_def db_at_def)
  from *(5) obtain ps kv b where b:
    "hm_index bytes_hash (str key) (hm_capacity s) = Some (hidx bytes_hash (hm_capacity s) (str key))"
    "load_arr (hm_buckets s) (hidx bytes_hash (hm_capacity s) (str key)) (hm_heap s) = Some b"
    "hchain (nodes (hm_heap s)) b (ps (hidx bytes_hash (hm_capacity s) (str key))) (kv (hidx bytes_hash (hm_capacity s) (str key)))"
    "M (str key) = map_of (kv (hidx bytes_hash (hm_capacity s) (str key))) (str key)"
    by (rule hm_repE [where key = "str key"])
  have "hm_index slice_toHash key (hm_capacity s) = Some (hidx bytes_hash (hm_capacity s) (str key))"
    using b(1) by (simp add: hm_index_def hidx_def slice_toHash_bytes [OF assms(2)] split: if_splits)
  moreover have "load_arr (hm_buckets s) (hidx bytes_hash (hm_capacity s) (str key)) h = Some b"
    using b(2) hrel_arr [OF *(2)] by simp
  ultimately show ?thesis
    using that [OF * refl b(2,3,4)] hrel_this [OF *(2)] *(3,4) by (simp add: heap_simps)
qed

context tm_alloc
begin

lemma dbhm_innerPut_ok:
  assumes rep: "db_rep ainv this h M" and sz: "unat sz \<le> max_request"
    and wf: "fits max_request key" "fits max_request v"
    and ret: "dbhm_innerPut TM sz key v this h = Some (r, h')"
  shows "r = (M (str key) = None)" "db_rep ainv this h' (M(str key \<mapsto> str v))"
proof -
  from wf have wfk: "slice_wf key" by (simp add: fits_def)
  from db_repE [OF rep wfk] obtain d s i b ps kvs where d: "dm_sizeHM d = 0" "hrel ainv [this \<mapsto> d] h (hm_heap s)"
    "hm_capacity s = dm_capacity d" "hm_buckets s = dm_buckets d" and hm: "hm_rep replay_inv bytes_hash s M"
    and i: "i = hidx bytes_hash (hm_capacity s) (str key)" and ld: "load_arr (hm_buckets s) i (hm_heap s) = Some b"
    and ch: "hchain (nodes (hm_heap s)) b ps kvs"
    and look: "load_map dm_capacity this h = Some (hm_capacity s)" "load_map dm_buckets this h = Some (hm_buckets s)"
    "hm_index slice_toHash key (hm_capacity s) = Some i" "load_arr (hm_buckets s) i h = Some b" by metis
  from ret look have "db_put_loop TM sz key v (hm_buckets s) i b b h = Some (r, h')"
    by (simp add: dbhm_innerPut_def)
  from db_put_sim [OF d(2) ch wf sz this hm_rep_pool [OF hm]] obtain p s' where
    put: "hm_put_loop replay_tm 0 (str key) (str v) None False i b b
        (s\<lparr>hm_heap := (hm_heap s)\<lparr>pool := ([p], snd (pool (hm_heap s)))\<rparr>\<rparr>) = Some (r, None, s')"
    and s': "hrel ainv [this \<mapsto> d] h' (hm_heap s')" "hm_capacity s' = hm_capacity s" "hm_buckets s' = hm_buckets s"
    by blast
  let ?s = "s\<lparr>hm_heap := (hm_heap s)\<lparr>pool := ([p], snd (pool (hm_heap s)))\<rparr>\<rparr>"
  have "load_arr (hm_buckets ?s) (hidx bytes_hash (hm_capacity ?s) (str key)) (hm_heap ?s) = Some b"
    using ld i by (simp add: load_arr_def)
  from rp.hm_put_loop_ok [OF hm_rep_supply [OF hm] _ this, of 0 "str v" None False r None s'] put i
  have "r = (M (str key) = None)" "hm_rep replay_inv bytes_hash s' (M(str key \<mapsto> str v))" by simp_all
  with d s' show "r = (M (str key) = None)" "db_rep ainv this h' (M(str key \<mapsto> str v))"
    by (auto simp: db_rep_def db_at_def simp del: fun_upd_apply intro!: exI [of _ d] exI [of _ s'])
qed

lemma dbhm_innerRemove_ok:
  assumes rep: "db_rep ainv this h M" and wf: "slice_wf key"
  shows "\<exists>h'. dbhm_innerRemove TM key this h = Some (M (str key) \<noteq> None, h')
     \<and> db_rep ainv this h' (M(str key := None))"
proof -
  from db_repE [OF rep wf] obtain d s i b ps kvs where d: "dm_sizeHM d = 0" "hrel ainv [this \<mapsto> d] h (hm_heap s)"
    "hm_capacity s = dm_capacity d" "hm_buckets s = dm_buckets d" and hm: "hm_rep replay_inv bytes_hash s M"
    and i: "i = hidx bytes_hash (hm_capacity s) (str key)" and ld: "load_arr (hm_buckets s) i (hm_heap s) = Some b"
    and ch: "hchain (nodes (hm_heap s)) b ps kvs"
    and look: "load_map dm_capacity this h = Some (hm_capacity s)" "load_map dm_buckets this h = Some (hm_buckets s)"
    "hm_index slice_toHash key (hm_capacity s) = Some i" "load_arr (hm_buckets s) i h = Some b" by metis
  from rp.hm_innerRemove_ok [OF hm, of "str key" None False] obtain s' where
    rm: "hm_innerRemove replay_tm bytes_hash (str key) None False s = Some (M (str key) \<noteq> None, None, s')"
    and s': "hm_rep replay_inv bytes_hash s' (M(str key := None))" by auto
  have "hm_remove_loop replay_tm (str key) None False i b b s = Some (M (str key) \<noteq> None, None, s')"
    using rm ld by (simp add: hm_innerRemove_def hm_index_def hidx_def i split: if_splits)
  from db_remove_sim [OF d(2) ch wf this] obtain h' where
    "db_remove_loop TM key (hm_buckets s) i b b h = Some (M (str key) \<noteq> None, h')"
    "hrel ainv [this \<mapsto> d] h' (hm_heap s')" "hm_capacity s' = hm_capacity s" "hm_buckets s' = hm_buckets s" by blast
  with look d s' show ?thesis
    by (auto simp: dbhm_innerRemove_def db_rep_def db_at_def simp del: fun_upd_apply intro!: exI [of _ h'] exI [of _ d] exI [of _ s'])
qed

lemma dbhm_innerGet_ok:
  assumes rep: "db_rep ainv this h M" and wf: "slice_wf key"
  shows "dbhm_innerGet key old this h = Some (case M (str key) of None \<Rightarrow> (False, old) | Some v \<Rightarrow> (True, v))"
proof -
  from db_repE [OF rep wf] obtain d s i b ps kvs where d: "dm_sizeHM d = 0" "hrel ainv [this \<mapsto> d] h (hm_heap s)"
    "hm_capacity s = dm_capacity d" "hm_buckets s = dm_buckets d" "hm_rep replay_inv bytes_hash s M"
    "i = hidx bytes_hash (hm_capacity s) (str key)" "load_arr (hm_buckets s) i (hm_heap s) = Some b"
    and ch: "hchain (nodes (hm_heap s)) b ps kvs" "M (str key) = map_of kvs (str key)"
    and look: "load_map dm_capacity this h = Some (hm_capacity s)" "load_map dm_buckets this h = Some (hm_buckets s)"
    "hm_index slice_toHash key (hm_capacity s) = Some i" "load_arr (hm_buckets s) i h = Some b" by metis
  with db_get_loop_ok [OF d(2) wf ch(1)] show ?thesis by (simp add: dbhm_innerGet_def)
qed

lemma dbhm_new_ok:
  assumes ok: "heap_ok ainv h" and e: "nodes h = Map.empty" "arrays h = Map.empty"
    and sz: "unat sz \<le> max_request" "8 * unat cap \<le> max_request" "8 * unat cap < 2 ^ 64" and cap: "cap \<noteq> 0"
    and ret: "dbhm_new TM sz cap h = Some (this, h')"
  shows "db_rep ainv this h' Map.empty"
proof -
  let ?d = "\<lparr>dm_capacity = cap, dm_sizeHM = 0, dm_buckets = nullptr\<rparr>"
  from ret obtain h1 p h2 h3 where m: "tmNew TM sz (DMap ?d) h = Some (this, h1)"
    and a: "pmalloc TM (cap * 8) h1 = Some (p, h2)"
    and s: "store_map (\<lambda>m. m\<lparr>dm_buckets := p\<rparr>) this h2 = Some h3"
    and c: "int_counter_ok cap" and il: "init_loop p [0..<unat cap] h3 = Some h'"
    by (auto simp: dbhm_new_def ret_simps split: if_splits)
  note f = tmNew_ok [OF ok sz(1) m]
  have u: "unat (cap * 8) = 8 * unat cap" using sz(3) by (subst unat_mult_lem [THEN iffD1]) simp_all
  have "unat (cap * 8) \<le> max_request" using sz(2) by (simp add: u)
  note g = pmalloc_ok [OF f(1) this a]
  have n2: "nodes h2 = [this \<mapsto> DMap ?d]" using g(2) f(2) e(1) by simp
  with s have h3: "h3 = h2\<lparr>nodes := [this \<mapsto> DMap (?d\<lparr>dm_buckets := p\<rparr>)]\<rparr>" by (simp add: store_map_def)
  have ok3: "heap_ok ainv h3"
    using g(1) heap_ok_upd [of h2 this "DMap ?d" ainv "DMap (?d\<lparr>dm_buckets := p\<rparr>)"] n2 by (simp add: h3)
  have a3: "arrays h3 p = Some (replicate (unat cap) None)" using g(3) by (simp add: h3 u)
  from init_loop_ok [OF a3, of "[0..<unat cap]"] il obtain bs' where
    n': "nodes h' = nodes h3" "pool h' = pool h3" "arrays h' = (arrays h3)(p \<mapsto> bs')" "length bs' = unat cap"
    "\<forall>i < unat cap. bs' ! i = Some nullptr" by auto
  have ok': "heap_ok ainv h'" by (rule heap_ok_cong [OF ok3]) (use n' a3 in auto)
  have v: "view (nodes h') = Map.empty" using n'(1) by (auto simp: h3 view_def fun_eq_iff)
  have own': "own (nodes h')" using n'(1) by (auto simp: h3 own_def split: if_splits)
  have arr: "arrays h' = [p \<mapsto> bs']" using n'(3) g(3) f(3) e(2) by (simp add: h3)
  have nz: "nullptr \<notin> dom (arrays h')" using null_not_live ok' by (auto simp: heap_ok_def)
  let ?s = "\<lparr>hm_capacity = cap, hm_size = 0, hm_buckets = p, hm_heap = \<lparr>nodes = Map.empty, arrays = arrays h', pool = ([], dom (arrays h'))\<rparr>\<rparr>"
  have "hm_rep replay_inv bytes_hash ?s Map.empty"
    unfolding hm_rep_def
    by (rule exI [of _ bs'], rule exI [of _ "\<lambda>_. []"], rule exI [of _ "\<lambda>_. []"])
       (use cap c arr nz hm_at_empty [OF n'(4,5)] in
          \<open>auto simp: hm_map_def heap_ok_def replay_inv_def fun_eq_iff\<close>)
  moreover have "hrel ainv [this \<mapsto> ?d\<lparr>dm_buckets := p\<rparr>] h' (hm_heap ?s)"
  proof -
    have "maps_of (nodes h') = [this \<mapsto> ?d\<lparr>dm_buckets := p\<rparr>]" using n'(1) by (auto simp: h3 maps_of_def fun_eq_iff)
    then show ?thesis using v own' ok' by (simp add: hrel_def)
  qed
  ultimately show ?thesis
    unfolding db_rep_def db_at_def by (intro exI [of _ "?d\<lparr>dm_buckets := p\<rparr>"] conjI exI [of _ ?s]) simp_all
qed

lemma dbhm_delete_ok:
  assumes rep: "db_rep ainv this h M"
  shows "\<exists>h'. dbhm_delete TM this h = Some h' \<and> heap_ok ainv h' \<and> nodes h' = Map.empty \<and> arrays h' = Map.empty"
proof -
  from rep obtain d s where d: "hrel ainv [this \<mapsto> d] h (hm_heap s)"
    "hm_capacity s = dm_capacity d" "hm_buckets s = dm_buckets d" "hm_rep replay_inv bytes_hash s M"
    by (auto simp: db_rep_def db_at_def)
  let ?c = "hm_capacity s" and ?H = "hm_heap s"
  from d(4) obtain bs ps kv where r: "int_counter_ok ?c" "arrays ?H = [hm_buckets s \<mapsto> bs]"
    "hm_at bytes_hash ?c (nodes ?H) bs ps kv" "dom (nodes ?H) = (\<Union>i < unat ?c. set (ps i))" by (auto simp: hm_rep_def)
  have "\<exists>h' H'. db_free_chains TM (hm_buckets s) [0..<unat ?c] h = Some h' \<and> hrel ainv [this \<mapsto> d] h' H'
     \<and> arrays H' = arrays ?H
     \<and> nodes H' = (\<lambda>x. if x \<in> (\<Union>i\<in>set [0..<unat ?c]. set (ps i)) then None else nodes ?H x)"
    by (rule db_free_chains_ok [OF d(1)]) (use r(2,3) in \<open>auto simp: hm_at_def\<close>)
  then obtain h1 H1 where h1: "db_free_chains TM (hm_buckets s) [0..<unat ?c] h = Some h1" "hrel ainv [this \<mapsto> d] h1 H1"
    "arrays H1 = [hm_buckets s \<mapsto> bs]" "nodes H1 = (\<lambda>x. if x \<in> dom (nodes ?H) then None else nodes ?H x)"
    using r(2,4) by (auto simp: atLeast0LessThan)
  have "nodes H1 = Map.empty" using h1(4) by (auto simp: fun_eq_iff domIff)
  then have v: "view (nodes h1) = Map.empty" and a1: "arrays h1 = [hm_buckets s \<mapsto> bs]"
    and ok1: "heap_ok ainv h1" and own1: "own (nodes h1)" and m1: "maps_of (nodes h1) = [this \<mapsto> d]"
    using h1(2,3) by (auto simp: hrel_def)
  have no: "nodes h1 q \<noteq> Some (DNode n)" for q n
  proof
    assume "nodes h1 q = Some (DNode n)"
    from own_view [OF own1 this] v show False by auto
  qed
  moreover have "nodes h1 q \<noteq> Some (Chars buf)" for q buf
    using own1 no unfolding own_def by blast
  ultimately have "nodes h1 q = map_option DMap (maps_of (nodes h1) q)" for q
    by (auto simp: maps_of_def split: option.splits dbcell.splits)
  then have n1: "nodes h1 = [this \<mapsto> DMap d]" by (auto simp: fun_eq_iff m1)
  from a1 have "arrays h1 (hm_buckets s) = Some bs" by simp
  from pfree_ok [OF ok1 this] a1 obtain h2 where h2: "pfree TM (hm_buckets s) h1 = Some h2" "heap_ok ainv h2"
    "arrays h2 = Map.empty" "nodes h2 = [this \<mapsto> DMap d]" by (auto simp: n1)
  then have "nodes h2 this = Some (DMap d)" by simp
  from tmDelete_ok [OF h2(2) this] h2(3,4) obtain h3 where "tmDelete TM this h2 = Some h3" "heap_ok ainv h3"
    "nodes h3 = Map.empty" "arrays h3 = Map.empty" by auto
  with h1(1) h2(1) r(1) hrel_this [OF d(1)] d(2,3) show ?thesis
    by (intro exI [of _ h3]) (simp add: dbhm_delete_def heap_simps)
qed

end


subsection \<open>Memory\<close>

text \<open>
  The allocator calls an operation makes: when each of them finds memory, the operation returns.
\<close>

datatype mem_req = Alloc u64 | Release ptr

fun mem_room :: "'a tm \<Rightarrow> mem_req list \<Rightarrow> 'a \<Rightarrow> bool" where
  "mem_room TM [] a \<longleftrightarrow> True"
| "mem_room TM (Alloc sz # rs) a \<longleftrightarrow>
     fst (tm_malloc TM sz a) \<noteq> nullptr \<and> mem_room TM rs (snd (tm_malloc TM sz a))"
| "mem_room TM (Release p # rs) a \<longleftrightarrow> mem_room TM rs (tm_free TM p a)"

lemma tmNew_returns:
  "fst (tm_malloc TM sz (pool h)) \<noteq> nullptr \<Longrightarrow>
     tmNew TM sz obj h = Some (fst (tm_malloc TM sz (pool h)),
       h\<lparr>nodes := (nodes h)(fst (tm_malloc TM sz (pool h)) \<mapsto> obj), pool := snd (tm_malloc TM sz (pool h))\<rparr>)"
  by (simp add: tmNew_def split_def Let_def)

context tm_alloc
begin

lemma pslice_new_returns:
  assumes sl: "fits max_request sl" and room: "fst (tm_malloc TM (sl_size sl + 1) (pool h)) \<noteq> nullptr"
  shows "\<exists>ps h'. pslice_new TM sl h = Some (ps, h') \<and> pool h' = snd (tm_malloc TM (sl_size sl + 1) (pool h))"
proof -
  let ?n = "length (str sl)"
  from sl have wf: "slice_wf sl" and n: "unat (sl_size sl) = ?n" "unat (sl_size sl + 1) = ?n + 1"
    by (auto simp: fits_def str_length unat_plus_one)
  have 1: "buf_write 0 (str sl) (new_chars (?n + 1)) = Some (map Some (str sl) @ new_chars 1)"
    using buf_write_next [of 0 "[]" "str sl" "?n + 1"] by simp
  have 2: "buf_write ?n [0] (map Some (str sl) @ new_chars 1) = Some (map Some (str sl @ [0]))"
    using buf_write_next [of ?n "str sl" "[0]" 1] by (simp add: new_chars_def)
  show ?thesis
    using tmNew_returns [OF room] n 1 2
    by (simp add: pslice_new_def Let_def chars_malloc_def slice_read_str [OF wf] chars_write_def)
qed

lemma dbnode_new_returns:
  assumes ok: "heap_ok ainv h" and sz: "unat sz \<le> max_request" and k: "fits max_request k" and v: "fits max_request v"
    and room: "mem_room TM [Alloc sz, Alloc (sl_size k + 1), Alloc (sl_size v + 1)] (pool h)"
  shows "dbnode_new TM sz k v h \<noteq> None"
proof -
  let ?nil = "\<lparr>ps_data = nullptr, ps_size = 0\<rparr>"
  let ?n0 = "\<lparr>dn_key = ?nil, dn_val = ?nil, dn_next = nullptr\<rparr>"
  from room tmNew_returns [of TM sz h "DNode ?n0"] obtain p h1 where
    m: "tmNew TM sz (DNode ?n0) h = Some (p, h1)" and p1: "pool h1 = snd (tm_malloc TM sz (pool h))" by auto
  note f = tmNew_ok [OF ok sz m]
  from pslice_new_returns [OF k, of h1] room p1 obtain pk h2 where nk: "pslice_new TM k h1 = Some (pk, h2)"
    and p2: "pool h2 = snd (tm_malloc TM (sl_size k + 1) (pool h1))" by auto
  note K = pslice_new_ok [OF f(1) k nk]
  have n2: "nodes h2 p = Some (DNode ?n0)" using K(2,5) f(2) by auto
  let ?h3 = "h2\<lparr>nodes := (nodes h2)(p \<mapsto> DNode (?n0\<lparr>dn_key := pk\<rparr>))\<rparr>"
  have ok3: "heap_ok ainv ?h3" using heap_ok_upd [OF n2] K(1) by simp
  from pslice_new_returns [OF v, of ?h3] room p1 p2 obtain pv h4 where nv: "pslice_new TM v ?h3 = Some (pv, h4)" by auto
  note V = pslice_new_ok [OF ok3 v nv]
  have n4: "nodes h4 p = Some (DNode (?n0\<lparr>dn_key := pk\<rparr>))" using V(2,5) by auto
  show ?thesis using m nk nv store_node_Some [OF n2] store_node_Some [OF n4] by (simp add: dbnode_new_def Let_def)
qed

lemma dbnode_set_val_returns:
  assumes ok: "heap_ok ainv h" and own: "own (nodes h)" and p: "nodes h p = Some (DNode n)"
    and v: "fits max_request v"
    and room: "mem_room TM [Alloc (sl_size v + 1), Release (ps_data (dn_val n)), Alloc (sl_size v + 1)] (pool h)"
  shows "dbnode_set_val TM p v h \<noteq> None"
proof -
  let ?o = "ps_data (dn_val n)"
  from own_view [OF own p] obtain old where old: "nodes h ?o = Some (chars_of old)" by metis
  from pslice_new_returns [OF v, of h] room obtain t h1 where nt: "pslice_new TM v h = Some (t, h1)"
    and p1: "pool h1 = snd (tm_malloc TM (sl_size v + 1) (pool h))" by auto
  note T = pslice_new_ok [OF ok v nt]
  have t: "ps_data t \<noteq> p" "ps_data t \<noteq> ?o" using T(5) p old by auto
  have n1: "nodes h1 p = Some (DNode n)" "nodes h1 ?o = Some (chars_of old)"
    "nodes h1 (ps_data t) = Some (chars_of (str v))" using T(2) p t old by auto
  from chars_free_ok [OF T(1) n1(2)] n1(2) ownD(5) [OF own p] obtain h2 where
    fr: "chars_free TM ?o h1 = Some h2" and ok2: "heap_ok ainv h2" and N2: "nodes h2 = (nodes h1)(?o := None)"
    and p2: "pool h2 = tm_free TM ?o (pool h1)"
    by (auto simp: chars_free_def chars_of_def tmDelete_def split: if_splits)
       (metis dom_fun_upd null_not_live ok old heap_ok_def Un_iff domI)
  have l: "length (str v) = unat (ps_size t)" "unat (ps_size t + 1) = length (str v) + 1" "ps_size t = sl_size v"
    "unat (ps_size t + 1) \<le> max_request"
    using T(4) v by (auto simp: fits_def str_length unat_plus_one)
  let ?C = "Chars (new_chars (length (str v) + 1))"
  from tmNew_returns [of TM "sl_size v + 1" h2 ?C] room p1 p2 obtain a h3 where
    m: "tmNew TM (sl_size v + 1) ?C h2 = Some (a, h3)" by auto
  note f = tmNew_ok [OF ok2 l(4) [unfolded l(3)] m]
  have at: "a \<noteq> ps_data t" "a \<noteq> p" using f(4) N2 n1 t(2) ownD(5) [OF own p] by auto
  have rd: "chars_read (ps_data t) 0 (length (str v) + 1) h3 = Some (str v @ [0])"
    by (rule chars_read_nul) (use f(2) N2 n1(3) t(2) at in auto)
  have "buf_write 0 (str v @ [0]) (new_chars (length (str v) + 1)) = Some (map Some (str v @ [0]))" by (rule buf_write_fill) simp
  from chars_write_ok [OF _ this, of h3 a] f(2)
  have w: "chars_write a 0 (str v @ [0]) h3 = Some (h3\<lparr>nodes := (nodes h3)(a \<mapsto> chars_of (str v))\<rparr>)"
    by (simp add: chars_of_def)
  let ?h4 = "h3\<lparr>nodes := (nodes h3)(a \<mapsto> chars_of (str v))\<rparr>"
  have asg: "pslice_assign TM (dn_val n) t h1 = Some (\<lparr>ps_data = a, ps_size = ps_size t\<rparr>, ?h4)"
    using fr m rd w l(2,3) by (simp add: pslice_assign_def Let_def chars_malloc_def del: fun_upd_apply)
  have n4: "nodes ?h4 p = Some (DNode n)" using f(2) N2 n1(1) at ownD(5) [OF own p] by simp
  let ?h5 = "?h4\<lparr>nodes := (nodes ?h4)(p \<mapsto> DNode (n\<lparr>dn_val := \<lparr>ps_data = a, ps_size = ps_size t\<rparr>\<rparr>))\<rparr>"
  have "nodes h3 a = Some ?C" using f(2) by simp
  from heap_ok_upd [OF this] f(1) have "heap_ok ainv ?h4" by simp
  with heap_ok_upd [OF n4] have ok5: "heap_ok ainv ?h5" by simp
  have "nodes ?h5 (ps_data t) = Some (chars_of (str v))" using f(2) N2 n1(3) t at by simp
  from chars_free_ok [OF ok5 this] obtain h6 where "chars_free TM (ps_data t) ?h5 = Some h6" by blast
  then show ?thesis
    using nt asg n1(1) store_node_Some [OF n4] by (simp add: dbnode_set_val_def heap_simps pslice_delete_def)
qed

lemma dbhm_innerPut_returns:
  assumes rep: "db_rep ainv this h M" and sz: "unat sz \<le> max_request"
    and wf: "fits max_request key" "fits max_request v"
    and new: "M (str key) = None \<Longrightarrow> mem_room TM [Alloc sz, Alloc (sl_size key + 1), Alloc (sl_size v + 1)] (pool h)"
    and set: "\<And>old. M (str key) \<noteq> None \<Longrightarrow> mem_room TM [Alloc (sl_size v + 1), Release old, Alloc (sl_size v + 1)] (pool h)"
  shows "dbhm_innerPut TM sz key v this h \<noteq> None"
proof -
  from wf have wfk: "slice_wf key" by (simp add: fits_def)
  from db_repE [OF rep wfk] obtain d s i b ps kvs where d: "dm_sizeHM d = 0" "hrel ainv [this \<mapsto> d] h (hm_heap s)"
    "hm_capacity s = dm_capacity d" "hm_buckets s = dm_buckets d" and hm: "hm_rep replay_inv bytes_hash s M"
    and i: "i = hidx bytes_hash (hm_capacity s) (str key)" and ld: "load_arr (hm_buckets s) i (hm_heap s) = Some b"
    and ch: "hchain (nodes (hm_heap s)) b ps kvs" "M (str key) = map_of kvs (str key)"
    and look: "load_map dm_capacity this h = Some (hm_capacity s)" "load_map dm_buckets this h = Some (hm_buckets s)"
    "hm_index slice_toHash key (hm_capacity s) = Some i" "load_arr (hm_buckets s) i h = Some b" by metis
  from d(2) have own: "own (nodes h)" and ok: "heap_ok ainv h" and H: "nodes (hm_heap s) = view (nodes h)"
    "arrays (hm_heap s) = arrays h" by (simp_all add: hrel_def)
  have "db_put_loop TM sz key v (hm_buckets s) i b b h \<noteq> None"
  proof (cases "map_of kvs (str key)")
    case None
    with new ch(2) dbnode_new_returns [OF ok sz wf] obtain p h1 where n: "dbnode_new TM sz key v h = Some (p, h1)" by fastforce
    note N = dbnode_new_ok [OF ok own sz wf n]
    have "store_arr (hm_buckets s) i p h1 \<noteq> None"
      using look(4) N(4) by (auto simp: same_rest_def store_arr_def load_arr_def split: option.splits if_splits)
    moreover have "store_node (\<lambda>n. n\<lparr>dn_next := p\<rparr>) (last (b # ps)) h1 \<noteq> None" if "ps \<noteq> []"
    proof -
      have "last ps \<in> dom (view (nodes h))" using ch(1) last_in_set [OF that] lseg_dom H(1) by (fastforce simp: hchain_def)
      then have "last ps \<in> dom (view (nodes h1))" using N(3) by simp
      then have "\<exists>nd. view (nodes h1) (last ps) = Some nd" by blast
      with view_Some [of "nodes h1" "last ps"] show ?thesis using that by (auto simp: store_node_def)
    qed
    ultimately show ?thesis using n by (auto simp: db_put_missing [OF d(2) ch(1) wfk None]) (rule exI [of _ True], rule TrueI)
  next
    case (Some w)
    with hchain_lookup [OF ch(1), of "str key"] obtain ps1 p ps2 nd where *: "ps = ps1 @ p # ps2"
      "nodes (hm_heap s) p = Some nd" "kv_of nd = (str key, w)" "lseg hnext (nodes (hm_heap s)) b ps1 p"
      "\<forall>q\<in>set ps1. \<exists>n. nodes (hm_heap s) q = Some n \<and> hkey n \<noteq> str key" by blast
    have nn: "nullptr \<notin> set ps1" "p \<noteq> nullptr" using ch(1) *(1) by (auto simp: hchain_def)
    obtain n where n: "nodes h p = Some (DNode n)" "pslice_eq (dn_key n) key h = Some True"
      by (rule hrel_node [OF d(2) *(2)]) (rule that, assumption, use wfk *(3) in auto)
    have "dbnode_set_val TM p v h \<noteq> None"
      by (rule dbnode_set_val_returns [OF ok own n(1) wf(2)]) (use set Some ch(2) in simp)
    then show ?thesis
      unfolding db_put_loop_skip [OF d(2) wfk *(4) nn(1) *(5)] using nn(2) n
      by (subst db_put_loop.simps) (auto simp: heap_simps)
  qed
  then show ?thesis using look by (simp add: dbhm_innerPut_def)
qed

end

end
