(* ===== verification/DBIterator.thy ===== *)
theory DBIterator
  imports DBHashMap
begin

text \<open>
  The iterator of the database, ptmdb/TMHashMapIterator.h: a bucket index (-1 when the iterator
  is not valid) and a node of that bucket. Entries come in the order of the buckets and, within
  a bucket, of its chain.
\<close>

record iter =
  it_bucket :: int
  it_node :: ptr

definition it_new :: iter where
  "it_new = \<lparr>it_bucket = -1, it_node = nullptr\<rparr>"

definition it_Valid :: "iter \<Rightarrow> bool" where
  "it_Valid it \<longleftrightarrow> it_bucket it \<noteq> -1"

text \<open>The first non-empty bucket among the indices the loop visits; without one the state is unchanged.\<close>

fun it_first_loop :: "ptr \<Rightarrow> nat list \<Rightarrow> iter \<Rightarrow> 'a dbheap \<Rightarrow> iter option" where
  "it_first_loop buckets [] it h = Some it"
| "it_first_loop buckets (i # is) it h =
     do { b \<leftarrow> load_arr buckets i h;
          if b \<noteq> nullptr then Some \<lparr>it_bucket = int i, it_node = b\<rparr> else it_first_loop buckets is it h }"

definition it_SeekToFirst :: "ptr \<Rightarrow> iter \<Rightarrow> 'a dbheap \<Rightarrow> iter option" where
  "it_SeekToFirst this it h =
     do { n \<leftarrow> load_map dm_sizeHM this h;
          if n = 0 then Some (it\<lparr>it_bucket := -1\<rparr>)
          else do { capacity \<leftarrow> load_map dm_capacity this h;
                    buckets \<leftarrow> load_map dm_buckets this h;
                    it_first_loop buckets [0..<unat capacity] it h } }"

partial_function (option) it_last_node :: "ptr \<Rightarrow> 'a dbheap \<Rightarrow> ptr option" where
  "it_last_node nodeLast h =
     do { nxt \<leftarrow> load_node dn_next nodeLast h;
          if nxt = nullptr then Some nodeLast else it_last_node nxt h }"

declare it_last_node.simps [code]

fun it_last_loop :: "ptr \<Rightarrow> nat list \<Rightarrow> iter \<Rightarrow> 'a dbheap \<Rightarrow> iter option" where
  "it_last_loop buckets [] it h = Some it"
| "it_last_loop buckets (i # is) it h =
     do { b \<leftarrow> load_arr buckets i h;
          if b \<noteq> nullptr
          then do { p \<leftarrow> it_last_node b h; Some \<lparr>it_bucket = int i, it_node = p\<rparr> }
          else it_last_loop buckets is it h }"

definition it_SeekToLast :: "ptr \<Rightarrow> iter \<Rightarrow> 'a dbheap \<Rightarrow> iter option" where
  "it_SeekToLast this it h =
     do { n \<leftarrow> load_map dm_sizeHM this h;
          if n = 0 then Some (it\<lparr>it_bucket := -1\<rparr>)
          else do { capacity \<leftarrow> load_map dm_capacity this h;
                    buckets \<leftarrow> load_map dm_buckets this h;
                    it_last_loop buckets (rev [0..<unat capacity]) it h } }"

partial_function (option) it_seek_loop :: "slice \<Rightarrow> nat \<Rightarrow> ptr \<Rightarrow> ptr \<Rightarrow> iter \<Rightarrow> 'a dbheap \<Rightarrow> iter option" where
  "it_seek_loop target i nodeSeek prev it h =
     (if nodeSeek = nullptr
      then (if prev = nullptr then Some (it\<lparr>it_bucket := -1\<rparr>)
            else Some \<lparr>it_bucket = int i, it_node = prev\<rparr>)
      else do { k \<leftarrow> load_node dn_key nodeSeek h;
                eq \<leftarrow> pslice_eq k target h;
                if eq then Some \<lparr>it_bucket = int i, it_node = nodeSeek\<rparr>
                else do { nxt \<leftarrow> load_node dn_next nodeSeek h; it_seek_loop target i nxt nodeSeek it h } })"

declare it_seek_loop.simps [code]

definition it_Seek :: "slice \<Rightarrow> ptr \<Rightarrow> iter \<Rightarrow> 'a dbheap \<Rightarrow> iter option" where
  "it_Seek target this it h =
     do { n \<leftarrow> load_map dm_sizeHM this h;
          if n = 0 then Some (it\<lparr>it_bucket := -1\<rparr>)
          else do { i \<leftarrow> dbhm_getBucket target this h;
                    buckets \<leftarrow> load_map dm_buckets this h;
                    node \<leftarrow> load_arr buckets i h;
                    it_seek_loop target i node node it h } }"

definition it_Next :: "ptr \<Rightarrow> iter \<Rightarrow> 'a dbheap \<Rightarrow> iter option" where
  "it_Next this it h =
     (if it_bucket it = -1 then Some it
      else do { nxt \<leftarrow> load_node dn_next (it_node it) h;
                if nxt \<noteq> nullptr then Some (it\<lparr>it_node := nxt\<rparr>)
                else do { cap \<leftarrow> load_map dm_capacity this h;
                          buckets \<leftarrow> load_map dm_buckets this h;
                          it_first_loop buckets [nat (it_bucket it + 1)..<unat cap] (it\<lparr>it_bucket := -1\<rparr>) h } })"

text \<open>
  Prev from the first node of a bucket walks down to the next non-empty bucket, and to the end
  of its chain; from another node it walks the chain up to the node in front of it.
\<close>

fun it_down_loop :: "ptr \<Rightarrow> nat \<Rightarrow> iter \<Rightarrow> 'a dbheap \<Rightarrow> iter option" where
  "it_down_loop buckets 0 it h = Some (it\<lparr>it_bucket := -1\<rparr>)"
| "it_down_loop buckets (Suc i) it h =
     do { nodeAt \<leftarrow> load_arr buckets i h;
          if nodeAt \<noteq> nullptr
          then do { p \<leftarrow> it_last_node nodeAt h; Some \<lparr>it_bucket = int i, it_node = p\<rparr> }
          else it_down_loop buckets i it h }"

partial_function (option) it_before :: "ptr \<Rightarrow> ptr \<Rightarrow> 'a dbheap \<Rightarrow> ptr option" where
  "it_before node nodeAt h =
     (if nodeAt = node then Some node
      else do { nxt \<leftarrow> load_node dn_next nodeAt h;
                if nxt = node then Some nodeAt else it_before node nxt h })"

declare it_before.simps [code]

definition it_Prev :: "ptr \<Rightarrow> iter \<Rightarrow> 'a dbheap \<Rightarrow> iter option" where
  "it_Prev this it h =
     (if it_bucket it = -1 then Some it
      else do { buckets \<leftarrow> load_map dm_buckets this h;
                nodeAt \<leftarrow> load_arr buckets (nat (it_bucket it)) h;
                if it_node it = nodeAt then it_down_loop buckets (nat (it_bucket it)) it h
                else do { p \<leftarrow> it_before (it_node it) nodeAt h; Some (it\<lparr>it_node := p\<rparr>) } })"

text \<open>key() and value() make a Slice of a char pointer: it ends at the first NUL of the string.\<close>

definition pslice_cstr :: "pslice \<Rightarrow> 'a dbheap \<Rightarrow> slice option" where
  "pslice_cstr s h =
     (case nodes h (ps_data s) of
        Some (Chars buf) \<Rightarrow> do { bs \<leftarrow> those buf; slice_of_cstr bs } | _ \<Rightarrow> None)"

definition it_key :: "iter \<Rightarrow> 'a dbheap \<Rightarrow> slice option" where
  "it_key it h = do { k \<leftarrow> load_node dn_key (it_node it) h; pslice_cstr k h }"

definition it_value :: "iter \<Rightarrow> 'a dbheap \<Rightarrow> slice option" where
  "it_value it h = do { v \<leftarrow> load_node dn_val (it_node it) h; pslice_cstr v h }"

text \<open>The loops of a client, forwards and backwards.\<close>

partial_function (option) it_scan ::
  "(iter \<Rightarrow> 'a dbheap \<Rightarrow> iter option) \<Rightarrow> iter \<Rightarrow> 'a dbheap \<Rightarrow> (bytes \<times> bytes) list option" where
  "it_scan step it h =
     (if \<not> it_Valid it then Some []
      else do { k \<leftarrow> it_key it h;
                v \<leftarrow> it_value it h;
                it' \<leftarrow> step it h;
                rest \<leftarrow> it_scan step it' h;
                Some ((str k, str v) # rest) })"

declare it_scan.simps [code]

definition scan_forward :: "ptr \<Rightarrow> 'a dbheap \<Rightarrow> (bytes \<times> bytes) list option" where
  "scan_forward this h = do { it \<leftarrow> it_SeekToFirst this it_new h; it_scan (it_Next this) it h }"

definition scan_backward :: "ptr \<Rightarrow> 'a dbheap \<Rightarrow> (bytes \<times> bytes) list option" where
  "scan_backward this h = do { it \<leftarrow> it_SeekToLast this it_new h; it_scan (it_Prev this) it h }"

subsection \<open>Positions\<close>

text \<open>What a scan reports of a mapping: both strings up to their first NUL.\<close>

definition cut :: "bytes \<times> bytes \<Rightarrow> bytes \<times> bytes" where
  "cut = map_prod c_str c_str"

lemma c_str_nul: "c_str (bs @ [0]) = c_str bs"
  by (induction bs) (auto simp: c_str_def)

lemma slice_of_cstr_str:
  "length bs < 2 ^ 64 \<Longrightarrow> \<exists>s. slice_of_cstr (bs @ [0]) = Some s \<and> str s = c_str bs"
proof -
  assume "length bs < 2 ^ 64"
  moreover have "length (c_str bs) \<le> length bs" unfolding c_str_def by (rule length_takeWhile_le)
  ultimately have "length (c_str bs) < 2 ^ LENGTH(64)" by simp
  then have "unat (of_nat (length (c_str bs)) :: u64) = length (c_str bs)" by (simp only: unat_of_nat mod_less)
  moreover have "take (length (c_str bs)) (bs @ [0]) = c_str bs"
    unfolding c_str_def by (induction bs) auto
  ultimately show ?thesis by (simp add: slice_of_cstr_def c_str_nul slice_ToString_def)
qed

lemma it_key_value:
  assumes r: "hrel ainv D h H" and p: "nodes H (it_node it) = Some nd"
  shows "\<exists>k v. it_key it h = Some k \<and> it_value it h = Some v \<and> (str k, str v) = cut (kv_of nd)"
proof -
  from r have own: "own (nodes h)" and vp: "view (nodes h) (it_node it) = Some nd" using p by (simp_all add: hrel_def)
  from view_Some [OF vp] obtain n where n: "nodes h (it_node it) = Some (DNode n)" by blast
  from own_view [OF own n] vp obtain k v where kv: "nd = \<lparr>hkey = k, hval = v, hnext = dn_next n\<rparr>"
    "nodes h (ps_data (dn_key n)) = Some (chars_of k)" "nodes h (ps_data (dn_val n)) = Some (chars_of v)"
    "length k = unat (ps_size (dn_key n))" "length v = unat (ps_size (dn_val n))" by (metis option.inject)
  have l: "length k < 2 ^ 64" "length v < 2 ^ 64"
    using kv(4,5) unsigned_less [of "ps_size (dn_key n)"] unsigned_less [of "ps_size (dn_val n)"] by simp_all
  have "those (map Some (xs @ [0])) = Some (xs @ [0])" for xs :: bytes by (rule those_map_Some)
  moreover obtain sk sv where "slice_of_cstr (k @ [0]) = Some sk" "str sk = c_str k"
    "slice_of_cstr (v @ [0]) = Some sv" "str sv = c_str v"
    using slice_of_cstr_str [OF l(1)] slice_of_cstr_str [OF l(2)] by blast
  ultimately show ?thesis using n kv(1-3)
    by (simp add: it_key_def it_value_def pslice_cstr_def chars_of_def heap_simps cut_def del: map_append those_map_Some)
qed

text \<open>The chains behind the buckets of a database.\<close>

definition db_chains ::
  "dbmap \<Rightarrow> 'a dbheap \<Rightarrow> (ptr \<rightharpoonup> (bytes, bytes) hnode) \<Rightarrow> (nat \<Rightarrow> ptr list) \<Rightarrow> (nat \<Rightarrow> (bytes \<times> bytes) list) \<Rightarrow> bool" where
  "db_chains d h m ps kv \<longleftrightarrow>
     (\<forall>i < unat (dm_capacity d). \<exists>b. load_arr (dm_buckets d) i h = Some b \<and> hchain m b (ps i) (kv i))"

lemma chains_first:
  assumes "db_chains d h m ps kv" "i < unat (dm_capacity d)"
  shows "load_arr (dm_buckets d) i h = Some (if ps i = [] then nullptr else hd (ps i))"
    "ps i \<noteq> [] \<Longrightarrow> hd (ps i) \<noteq> nullptr"
proof -
  from assms obtain b where b: "load_arr (dm_buckets d) i h = Some b" "hchain m b (ps i) (kv i)"
    by (auto simp: db_chains_def)
  then have seg: "lseg hnext m b (ps i) nullptr" "nullptr \<notin> set (ps i)" by (auto simp: hchain_def)
  show "load_arr (dm_buckets d) i h = Some (if ps i = [] then nullptr else hd (ps i))"
    using b(1) lseg_hd [OF seg(1)] seg(1) by auto
  show "ps i \<noteq> [] \<Longrightarrow> hd (ps i) \<noteq> nullptr" using seg(2) hd_in_set by metis
qed
subsection \<open>Scanning forwards\<close>

lemma scan_step:
  assumes "hrel ainv D h H" "nodes H (it_node it) = Some nd" "it_Valid it" "step it h = Some it'"
    "it_scan step it' h = Some R"
  shows "it_scan step it h = Some (cut (kv_of nd) # R)"
proof -
  from it_key_value [OF assms(1,2)] obtain k v where "it_key it h = Some k" "it_value it h = Some v"
    "(str k, str v) = cut (kv_of nd)" by blast
  with assms(3-5) show ?thesis by (subst it_scan.simps) simp
qed

lemma scan_end: "it_bucket it = -1 \<Longrightarrow> it_scan step it h = Some []"
  by (subst it_scan.simps) (simp add: it_Valid_def)

lemma hchain_length: "hchain m b ps kvs \<Longrightarrow> length kvs = length ps"
  by (auto simp: hchain_def field_seq_def dest!: arg_cong [where f = length])

lemma hchain_split:
  assumes "hchain m b (xs @ p # ys) kvs"
  obtains nd ks1 ks2 where "m p = Some nd" "kvs = ks1 @ kv_of nd # ks2" "length ks1 = length xs"
    "hnext nd = hd (ys @ [nullptr])"
proof -
  from assms have seg: "lseg hnext m b (xs @ p # ys) nullptr" and f: "field_seq kv_of m (xs @ p # ys) = map Some kvs"
    by (auto simp: hchain_def)
  from seg obtain nd where nd: "m p = Some nd" by (auto split: option.splits)
  have "map Some kvs = field_seq kv_of m xs @ Some (kv_of nd) # field_seq kv_of m ys" using f nd by simp
  then obtain ks1 ks2 where "kvs = ks1 @ kv_of nd # ks2" "map Some ks1 = field_seq kv_of m xs"
    by (auto simp: map_eq_append_conv map_eq_Cons_conv append_eq_map_conv)
  moreover from this(2) have "length (map Some ks1) = length (field_seq kv_of m xs)" by (rule arg_cong)
  then have "length ks1 = length xs" by (simp add: field_seq_def)
  ultimately show ?thesis using that [OF nd _ _ lseg_next [OF seg nd]] by blast
qed

text \<open>Next inside a chain, and at its end.\<close>

lemma it_Next_chain:
  assumes r: "hrel ainv [this \<mapsto> d] h H" and ch: "hchain (nodes H) b (xs @ p # ys) kvs"
  shows "it_Next this \<lparr>it_bucket = int i, it_node = p\<rparr> h =
    (if ys = [] then it_first_loop (dm_buckets d) [Suc i..<unat (dm_capacity d)] \<lparr>it_bucket = -1, it_node = p\<rparr> h
     else Some \<lparr>it_bucket = int i, it_node = hd ys\<rparr>)"
proof -
  from hchain_split [OF ch] obtain nd where nd: "nodes H p = Some nd" "hnext nd = hd (ys @ [nullptr])" .
  from hrel_node [OF r nd(1)] obtain n where n: "nodes h p = Some (DNode n)" "dn_next n = hnext nd" by metis
  have "nullptr \<notin> set ys" using ch by (auto simp: hchain_def)
  then have "ys \<noteq> [] \<Longrightarrow> hd ys \<noteq> nullptr" by (metis hd_in_set)
  then show ?thesis using n nd(2) hrel_this [OF r] by (simp add: it_Next_def heap_simps nat_add_distrib)
qed

definition entries :: "(nat \<Rightarrow> (bytes \<times> bytes) list) \<Rightarrow> nat list \<Rightarrow> (bytes \<times> bytes) list" where
  "entries kv is = concat (map kv is)"

lemma scan_chain:
  assumes r: "hrel ainv [this \<mapsto> d] h H"
    and rest: "\<And>p. do { it \<leftarrow> it_first_loop (dm_buckets d) [Suc i..<unat (dm_capacity d)] \<lparr>it_bucket = -1, it_node = p\<rparr> h;
                it_scan (it_Next this) it h } = Some R"
    and ch: "hchain (nodes H) b (xs @ p # ys) (ks @ ks')" "length ks = length xs"
  shows "it_scan (it_Next this) \<lparr>it_bucket = int i, it_node = p\<rparr> h = Some (map cut ks' @ R)"
  using ch
proof (induction ys arbitrary: p xs ks ks')
  case Nil
  from hchain_split [OF Nil.prems(1)] obtain nd ks1 ks2 where nd: "nodes H p = Some nd" "ks @ ks' = ks1 @ kv_of nd # ks2"
    "length ks1 = length xs" by metis
  have len: "length (ks @ ks') = Suc (length xs)" using hchain_length [OF Nil.prems(1)] by simp
  with nd Nil.prems(2) have ks': "ks' = [kv_of nd]" by (auto simp: append_eq_append_conv)
  obtain it' where it': "it_first_loop (dm_buckets d) [Suc i..<unat (dm_capacity d)] \<lparr>it_bucket = -1, it_node = p\<rparr> h = Some it'"
    "it_scan (it_Next this) it' h = Some R" using rest [of p] by (auto simp: ret_simps)
  have "it_Next this \<lparr>it_bucket = int i, it_node = p\<rparr> h = Some it'"
    using it_Next_chain [OF r Nil.prems(1)] it'(1) by simp
  from scan_step [OF r _ _ this it'(2)] nd(1) ks' show ?case by (simp add: it_Valid_def)
next
  case (Cons q ys)
  from hchain_split [OF Cons.prems(1)] obtain nd ks1 ks2 where nd: "nodes H p = Some nd" "ks @ ks' = ks1 @ kv_of nd # ks2"
    "length ks1 = length xs" by metis
  then have ks': "ks1 = ks" "ks' = kv_of nd # ks2" using Cons.prems(2) by (auto simp: append_eq_append_conv)
  have "hchain (nodes H) b ((xs @ [p]) @ q # ys) ((ks @ [kv_of nd]) @ ks2)" using Cons.prems(1) ks'(2) by simp
  from Cons.IH [OF this] Cons.prems(2)
  have ih: "it_scan (it_Next this) \<lparr>it_bucket = int i, it_node = q\<rparr> h = Some (map cut ks2 @ R)" by simp
  have "it_Next this \<lparr>it_bucket = int i, it_node = p\<rparr> h = Some \<lparr>it_bucket = int i, it_node = q\<rparr>"
    using it_Next_chain [OF r Cons.prems(1)] by simp
  from scan_step [OF r _ _ this ih] nd(1) ks'(2) show ?case by (simp add: it_Valid_def)
qed

lemma scan_buckets:
  assumes r: "hrel ainv [this \<mapsto> d] h H" and ch: "db_chains d h (nodes H) ps kv" and i: "i \<le> unat (dm_capacity d)"
  shows "do { it \<leftarrow> it_first_loop (dm_buckets d) [i..<unat (dm_capacity d)] \<lparr>it_bucket = -1, it_node = p\<rparr> h;
              it_scan (it_Next this) it h } = Some (map cut (entries kv [i..<unat (dm_capacity d)]))"
  using i
proof (induction i arbitrary: p rule: inc_induct)
  case base then show ?case by (simp add: scan_end entries_def)
next
  case (step i)
  note first = chains_first [OF ch step.hyps(2)]
  have up: "[i..<unat (dm_capacity d)] = i # [Suc i..<unat (dm_capacity d)]" using step.hyps(2) by (rule upt_conv_Cons)
  from ch step.hyps(2) obtain b where b: "hchain (nodes H) b (ps i) (kv i)" by (auto simp: db_chains_def)
  show ?case
  proof (cases "ps i")
    case Nil
    with b have "kv i = []" by (auto simp: hchain_def)
    with Nil first(1) step.IH [of p] show ?thesis by (simp add: up entries_def)
  next
    case (Cons q qs)
    with first have q: "load_arr (dm_buckets d) i h = Some q" "q \<noteq> nullptr" by simp_all
    have "hchain (nodes H) b ([] @ q # qs) ([] @ kv i)" using b Cons by simp
    from scan_chain [OF r step.IH this] q show ?thesis by (simp add: up entries_def)
  qed
qed
subsection \<open>Scanning backwards\<close>

lemma it_last_node_chain:
  assumes r: "hrel ainv D h H" and ch: "hchain (nodes H) b (xs @ p # ys) kvs"
  shows "it_last_node p h = Some (last (p # ys))"
  using ch
proof (induction ys arbitrary: xs p)
  case Nil
  from hchain_split [OF Nil] obtain nd where nd: "nodes H p = Some nd" "hnext nd = nullptr" by auto
  from hrel_node [OF r nd(1)] obtain n where "nodes h p = Some (DNode n)" "dn_next n = hnext nd" by metis
  with nd(2) show ?case by (subst it_last_node.simps) (simp add: heap_simps)
next
  case (Cons q ys)
  from hchain_split [OF Cons.prems] obtain nd where nd: "nodes H p = Some nd" "hnext nd = q" by auto
  from hrel_node [OF r nd(1)] obtain n where n: "nodes h p = Some (DNode n)" "dn_next n = hnext nd" by metis
  have "q \<noteq> nullptr" using Cons.prems by (auto simp: hchain_def)
  with nd n Cons.IH [of "xs @ [p]" q] Cons.prems show ?case by (subst it_last_node.simps) (simp add: heap_simps)
qed

lemma it_before_chain:
  assumes r: "hrel ainv D h H" and ch: "hchain (nodes H) b (ws @ a # xs @ p # ys) kvs"
  shows "it_before p a h = Some (last (a # xs))"
  using ch
proof (induction xs arbitrary: ws a)
  case Nil
  then have "a \<noteq> p" by (auto simp: hchain_def)
  from Nil hchain_split [of "nodes H" b ws a "p # ys"] obtain nd where nd: "nodes H a = Some nd" "hnext nd = p" by auto
  from hrel_node [OF r nd(1)] obtain n where "nodes h a = Some (DNode n)" "dn_next n = hnext nd" by metis
  with nd(2) \<open>a \<noteq> p\<close> show ?case by (subst it_before.simps) (simp add: heap_simps)
next
  case (Cons q xs)
  then have ne: "a \<noteq> p" "q \<noteq> p" by (auto simp: hchain_def)
  from Cons.prems hchain_split [of "nodes H" b ws a "q # xs @ p # ys"] obtain nd where nd: "nodes H a = Some nd" "hnext nd = q" by auto
  from hrel_node [OF r nd(1)] obtain n where n: "nodes h a = Some (DNode n)" "dn_next n = hnext nd" by metis
  have "hchain (nodes H) b ((ws @ [a]) @ q # xs @ p # ys) kvs" using Cons.prems by simp
  from Cons.IH [OF this] nd n ne show ?case by (subst it_before.simps) (simp add: heap_simps)
qed

lemma it_Prev_chain:
  assumes r: "hrel ainv [this \<mapsto> d] h H" and ch: "hchain (nodes H) b (xs @ p # ys) kvs"
    and ld: "load_arr (dm_buckets d) i h = Some b"
  shows "it_Prev this \<lparr>it_bucket = int i, it_node = p\<rparr> h =
    (if xs = [] then it_down_loop (dm_buckets d) i \<lparr>it_bucket = int i, it_node = p\<rparr> h
     else Some \<lparr>it_bucket = int i, it_node = last xs\<rparr>)"
proof (cases xs)
  case Nil
  with ch have "p = b" by (auto simp: hchain_def)
  with Nil ld hrel_this [OF r] show ?thesis by (simp add: it_Prev_def heap_simps)
next
  case (Cons a as)
  with ch have a: "a = b" "p \<noteq> b" by (auto simp: hchain_def)
  have "hchain (nodes H) b ([] @ a # as @ p # ys) kvs" using ch Cons by simp
  from it_before_chain [OF r this] a Cons ld hrel_this [OF r] show ?thesis by (simp add: it_Prev_def heap_simps)
qed

lemma scan_back_chain:
  assumes r: "hrel ainv [this \<mapsto> d] h H" and ld: "load_arr (dm_buckets d) i h = Some b"
    and rest: "\<And>it. do { it \<leftarrow> it_down_loop (dm_buckets d) i it h; it_scan (it_Prev this) it h } = Some R"
    and ch: "hchain (nodes H) b (xs @ p # ys) (ks @ ks')" "length ks = Suc (length xs)"
  shows "it_scan (it_Prev this) \<lparr>it_bucket = int i, it_node = p\<rparr> h = Some (map cut (rev ks) @ R)"
  using ch
proof (induction xs arbitrary: p ys ks ks' rule: rev_induct)
  case Nil
  from hchain_split [OF Nil.prems(1)] obtain nd ks2 where nd: "nodes H p = Some nd" "ks @ ks' = kv_of nd # ks2"
    by (metis append_Nil length_0_conv list.size(3))
  with Nil.prems(2) have ks: "ks = [kv_of nd]" by (cases ks) auto
  obtain it' where it': "it_down_loop (dm_buckets d) i \<lparr>it_bucket = int i, it_node = p\<rparr> h = Some it'"
    "it_scan (it_Prev this) it' h = Some R" using rest by (auto simp: ret_simps)
  have "it_Prev this \<lparr>it_bucket = int i, it_node = p\<rparr> h = Some it'"
    using it_Prev_chain [OF r Nil.prems(1) ld] it'(1) by simp
  from scan_step [OF r _ _ this it'(2)] nd(1) ks show ?case by (simp add: it_Valid_def)
next
  case (snoc q xs)
  from hchain_split [OF snoc.prems(1)] obtain nd ks1 ks2 where nd: "nodes H p = Some nd" "ks @ ks' = ks1 @ kv_of nd # ks2"
    "length ks1 = length (xs @ [q])" by metis
  have ks: "ks = ks1 @ [kv_of nd]" "ks' = ks2"
  proof -
    have "ks @ ks' = (ks1 @ [kv_of nd]) @ ks2" "length ks = length (ks1 @ [kv_of nd])" using nd snoc.prems(2) by simp_all
    with append_eq_append_conv [of ks "ks1 @ [kv_of nd]" ks' ks2] show "ks = ks1 @ [kv_of nd]" "ks' = ks2" by blast+
  qed
  have "hchain (nodes H) b (xs @ q # p # ys) (ks1 @ kv_of nd # ks')" using snoc.prems(1) ks by simp
  from snoc.IH [OF this] nd(3)
  have ih: "it_scan (it_Prev this) \<lparr>it_bucket = int i, it_node = q\<rparr> h = Some (map cut (rev ks1) @ R)" by simp
  have "it_Prev this \<lparr>it_bucket = int i, it_node = p\<rparr> h = Some \<lparr>it_bucket = int i, it_node = q\<rparr>"
    using it_Prev_chain [OF r snoc.prems(1) ld] by simp
  from scan_step [OF r _ _ this ih] nd(1) ks show ?case by (simp add: it_Valid_def)
qed

lemma scan_down:
  assumes r: "hrel ainv [this \<mapsto> d] h H" and ch: "db_chains d h (nodes H) ps kv" and i: "i \<le> unat (dm_capacity d)"
  shows "do { it \<leftarrow> it_down_loop (dm_buckets d) i it h; it_scan (it_Prev this) it h }
    = Some (map cut (rev (entries kv [0..<i])))"
  using i
proof (induction i arbitrary: it)
  case 0 then show ?case by (simp add: scan_end entries_def)
next
  case (Suc i)
  then have i: "i < unat (dm_capacity d)" by simp
  note first = chains_first [OF ch i]
  from ch i obtain b where b: "load_arr (dm_buckets d) i h = Some b" "hchain (nodes H) b (ps i) (kv i)" by (auto simp: db_chains_def)
  show ?case
  proof (cases "ps i" rule: rev_cases)
    case Nil
    with b(2) have "kv i = []" by (auto simp: hchain_def)
    with Nil first(1) Suc show ?thesis by (simp add: entries_def)
  next
    case (snoc qs q)
    with first have nz: "b \<noteq> nullptr" using b(1) by auto
    have c: "hchain (nodes H) b (qs @ q # []) (kv i @ [])" using b(2) snoc by simp
    have "length (kv i) = Suc (length qs)" using hchain_length [OF b(2)] snoc by simp
    from scan_back_chain [OF r b(1) _ c this] Suc.IH i
    have sc: "it_scan (it_Prev this) \<lparr>it_bucket = int i, it_node = q\<rparr> h
        = Some (map cut (rev (kv i)) @ map cut (rev (entries kv [0..<i])))" by simp
    have "it_last_node b h = Some q"
    proof (cases qs)
      case Nil
      then have "hchain (nodes H) b ([] @ q # []) (kv i)" "q = b" using c by (auto simp: hchain_def)
      from it_last_node_chain [OF r this(1)] this(2) show ?thesis by simp
    next
      case (Cons a as)
      then have "hchain (nodes H) b ([] @ a # as @ [q]) (kv i)" "a = b" using c by (auto simp: hchain_def)
      from it_last_node_chain [OF r this(1)] this(2) show ?thesis by simp
    qed
    with b(1) nz sc show ?thesis by (simp add: entries_def)
  qed
qed

lemma it_last_loop_down:
  "it_bucket it = -1 \<Longrightarrow> it_last_loop bk (rev [0..<i]) it h = it_down_loop bk i it h"
proof (induction i)
  case 0 then show ?case by (cases it) simp
next
  case (Suc i) show ?case by (simp add: Suc.IH [OF Suc.prems] cong: if_cong)
qed


subsection \<open>Every entry once\<close>

text \<open>The entries of a generic map, bucket after bucket, are its mappings without repetition.\<close>

lemma map_of_entries:
  assumes keys: "\<And>i. i < n \<Longrightarrow> distinct (map fst (kv i)) \<and> (\<forall>x\<in>set (kv i). idx (fst x) = i)" and m: "m \<le> n"
  shows "distinct (map fst (entries kv [0..<m]))"
    "map_of (entries kv [0..<m]) k = (if idx k < m then map_of (kv (idx k)) k else None)"
proof -
  have "distinct (map fst (entries kv [0..<m]))
     \<and> (\<forall>k. map_of (entries kv [0..<m]) k = (if idx k < m then map_of (kv (idx k)) k else None))
     \<and> (\<forall>x\<in>set (entries kv [0..<m]). idx (fst x) < m)"
    using m
  proof (induction m)
    case 0 then show ?case by (simp add: entries_def)
  next
    case (Suc m)
    then have IH: "distinct (map fst (entries kv [0..<m]))"
      "\<And>k. map_of (entries kv [0..<m]) k = (if idx k < m then map_of (kv (idx k)) k else None)"
      "\<forall>x\<in>set (entries kv [0..<m]). idx (fst x) < m" and m: "m < n" by auto
    have e: "entries kv [0..<Suc m] = entries kv [0..<m] @ kv m" by (simp add: entries_def)
    have "map_of (kv m) k = None" if "idx k \<noteq> m" for k
      using keys [OF m] that by (force simp: map_of_eq_None_iff)
    then have "map_of (entries kv [0..<Suc m]) k = (if idx k < Suc m then map_of (kv (idx k)) k else None)" for k
      unfolding e using IH(2) [of k] by (auto simp: map_add_def less_Suc_eq split: option.splits)
    moreover have "distinct (map fst (entries kv [0..<Suc m]))" unfolding e using IH(1,3) keys [OF m] by fastforce
    moreover have "\<forall>x\<in>set (entries kv [0..<Suc m]). idx (fst x) < Suc m"
      unfolding e using IH(3) keys [OF m] by (auto simp: less_Suc_eq)
    ultimately show ?case by blast
  qed
  then show "distinct (map fst (entries kv [0..<m]))"
    "map_of (entries kv [0..<m]) k = (if idx k < m then map_of (kv (idx k)) k else None)" by auto
qed

lemma db_at_chains:
  assumes "db_at ainv d this h M"
  obtains H ps kv where "hrel ainv [this \<mapsto> d] h H" "db_chains d h (nodes H) ps kv"
    "distinct (map fst (entries kv [0..<unat (dm_capacity d)]))" "map_of (entries kv [0..<unat (dm_capacity d)]) = M"
proof -
  from assms obtain s where s: "hrel ainv [this \<mapsto> d] h (hm_heap s)" "hm_capacity s = dm_capacity d"
    "hm_buckets s = dm_buckets d" "hm_rep replay_inv bytes_hash s M" by (auto simp: db_at_def)
  from s(4) obtain bs ps kv where r: "hm_capacity s \<noteq> 0" "arrays (hm_heap s) = [hm_buckets s \<mapsto> bs]"
    "hm_at bytes_hash (hm_capacity s) (nodes (hm_heap s)) bs ps kv" "M = hm_map bytes_hash (hm_capacity s) kv"
    by (auto simp: hm_rep_def)
  have ch: "db_chains d h (nodes (hm_heap s)) ps kv"
    unfolding db_chains_def
  proof (intro allI impI)
    fix i assume "i < unat (dm_capacity d)"
    with hm_at_bucket [OF r(3), of i] s(2) obtain b where b: "bs ! i = Some b" "hchain (nodes (hm_heap s)) b (ps i) (kv i)" by metis
    have "load_arr (hm_buckets s) i (hm_heap s) = Some b"
      using r(2,3) \<open>i < _\<close> s(2) b(1) by (simp add: load_arr_def hm_at_def)
    with b(2) hrel_arr [OF s(1), of "hm_buckets s" i] s(3)
    show "\<exists>b. load_arr (dm_buckets d) i h = Some b \<and> hchain (nodes (hm_heap s)) b (ps i) (kv i)" by auto
  qed
  have k: "distinct (map fst (kv i)) \<and> (\<forall>x\<in>set (kv i). hidx bytes_hash (dm_capacity d) (fst x) = i)"
    if "i < unat (dm_capacity d)" for i
    using hm_at_bucket [OF r(3), of i] that s(2) by (metis hchain_def)
  have E: "distinct (map fst (entries kv [0..<unat (dm_capacity d)]))"
    "map_of (entries kv [0..<unat (dm_capacity d)]) k
      = (if hidx bytes_hash (dm_capacity d) k < unat (dm_capacity d) then map_of (kv (hidx bytes_hash (dm_capacity d) k)) k else None)" for k
    by (rule map_of_entries [OF k order_refl], assumption)+
  have "map_of (entries kv [0..<unat (dm_capacity d)]) = M"
    using E(2) hidx_less [OF r(1) [unfolded s(2)], of bytes_hash] s(2) by (simp add: fun_eq_iff r(4) hm_map_def)
  with that [OF s(1) ch E(1)] show ?thesis by blast
qed

lemma scan_forward_ok:
  assumes "hrel ainv [this \<mapsto> d] h H" "db_chains d h (nodes H) ps kv" "dm_sizeHM d \<noteq> 0"
  shows "scan_forward this h = Some (map cut (entries kv [0..<unat (dm_capacity d)]))"
  using scan_buckets [OF assms(1,2), of 0 nullptr] assms(3) hrel_this [OF assms(1)]
  by (simp add: scan_forward_def it_SeekToFirst_def it_new_def heap_simps)

lemma scan_backward_ok:
  assumes "hrel ainv [this \<mapsto> d] h H" "db_chains d h (nodes H) ps kv" "dm_sizeHM d \<noteq> 0"
  shows "scan_backward this h = Some (rev (map cut (entries kv [0..<unat (dm_capacity d)])))"
  using scan_down [OF assms(1,2) order_refl, of it_new] assms(3) hrel_this [OF assms(1)]
  by (simp add: scan_backward_def it_SeekToLast_def heap_simps it_last_loop_down it_new_def rev_map)

text \<open>
  The iterator of a map whose entry count were maintained: a scan with SeekToFirst and Next
  visits every mapping of the map exactly once, a scan with SeekToLast and Prev visits the same
  mappings in the opposite order, and both end. Strings are reported up to their first NUL. The
  map of this program never gets there, see below.
\<close>

lemma iterator_visits_all:
  assumes "db_at ainv d this h M" "dm_sizeHM d \<noteq> 0"
  shows "\<exists>kvs. map_of kvs = M \<and> distinct (map fst kvs)
    \<and> scan_forward this h = Some (map (map_prod c_str c_str) kvs)
    \<and> scan_backward this h = Some (rev (map (map_prod c_str c_str) kvs))"
  by (rule db_at_chains [OF assms(1)])
     (use scan_forward_ok scan_backward_ok assms(2) in \<open>(metis cut_def)\<close>)

text \<open>Every Seek tests the entry count first, and with a count of zero leaves the iterator at -1.\<close>

lemma empty_count_invalid:
  assumes "dm_sizeHM d = 0" "nodes h this = Some (DMap d)"
  shows "it_SeekToFirst this it h = Some (it\<lparr>it_bucket := -1\<rparr>)"
    "it_SeekToLast this it h = Some (it\<lparr>it_bucket := -1\<rparr>)"
    "it_Seek target this it h = Some (it\<lparr>it_bucket := -1\<rparr>)"
    "scan_forward this h = Some []" "scan_backward this h = Some []"
  using assms
  by (simp_all add: it_SeekToFirst_def it_SeekToLast_def it_Seek_def heap_simps scan_forward_def scan_backward_def
      it_scan.simps it_Valid_def it_new_def)

end
