(* ===== verification/MapContract.thy ===== *)
theory MapContract
  imports PTM_Prelude
begin

text \<open>
  What a key-value store promises: Put, Delete and Get behave as update, removal and lookup of
  an abstract map, and only a Put can fail, when memory runs out. The client is a sequence of
  requests; each is answered by whether it succeeded and by the value a Get found.
\<close>

datatype ('k, 'v) kv_op = KPut 'k 'v | KDelete 'k | KGet 'k

fun kv_step :: "('k, 'v) kv_op \<Rightarrow> ('k \<rightharpoonup> 'v) \<Rightarrow> (bool \<times> 'v option) \<times> ('k \<rightharpoonup> 'v)" where
  "kv_step (KPut k v) M = ((True, None), M(k \<mapsto> v))"
| "kv_step (KDelete k) M = ((M k \<noteq> None, None), M(k := None))"
| "kv_step (KGet k) M = ((M k \<noteq> None, M k), M)"

fun kv_run :: "('k, 'v) kv_op list \<Rightarrow> ('k \<rightharpoonup> 'v) \<Rightarrow> (bool \<times> 'v option) list \<times> ('k \<rightharpoonup> 'v)" where
  "kv_run [] M = ([], M)"
| "kv_run (x # xs) M = (let (r, M1) = kv_step x M; (rs, M2) = kv_run xs M1 in (r # rs, M2))"

text \<open>The same requests on an implementation, given as one step function.\<close>

fun kv_impl_run :: "('op \<Rightarrow> 's \<Rightarrow> ('r \<times> 's) option) \<Rightarrow> 'op list \<Rightarrow> 's \<Rightarrow> ('r list \<times> 's) option" where
  "kv_impl_run step [] s = Some ([], s)"
| "kv_impl_run step (x # xs) s =
     do { (r, s1) \<leftarrow> step x s; (rs, s2) \<leftarrow> kv_impl_run step xs s1; Some (r # rs, s2) }"

locale kv_contract =
  fixes rep :: "'s \<Rightarrow> ('k \<rightharpoonup> 'v) \<Rightarrow> bool"
    and valid :: "('k, 'v) kv_op \<Rightarrow> bool"
    and room :: "('k, 'v) kv_op \<Rightarrow> 's \<Rightarrow> bool"
    and step :: "('k, 'v) kv_op \<Rightarrow> 's \<Rightarrow> ((bool \<times> 'v option) \<times> 's) option"
  assumes step_correct: "rep s M \<Longrightarrow> valid x \<Longrightarrow> step x s = Some (r, s') \<Longrightarrow>
      r = fst (kv_step x M) \<and> rep s' (snd (kv_step x M))"
    and step_returns: "rep s M \<Longrightarrow> valid x \<Longrightarrow> room x s \<Longrightarrow> step x s \<noteq> None"
begin

lemma run_correct:
  "rep s M \<Longrightarrow> \<forall>x\<in>set xs. valid x \<Longrightarrow> kv_impl_run step xs s = Some (rs, s') \<Longrightarrow>
     rs = fst (kv_run xs M) \<and> rep s' (snd (kv_run xs M))"
proof (induction xs arbitrary: s M rs)
  case Nil then show ?case by simp
next
  case (Cons x xs)
  from Cons.prems(3) obtain r s1 rs1 where st: "step x s = Some (r, s1)"
    and run: "kv_impl_run step xs s1 = Some (rs1, s')" and rs: "rs = r # rs1" by (auto simp: ret_simps)
  from step_correct [OF Cons.prems(1) _ st] Cons.prems(2)
  have "r = fst (kv_step x M)" "rep s1 (snd (kv_step x M))" by auto
  with Cons.IH [OF this(2) _ run] Cons.prems(2) rs show ?case by (auto simp: Let_def split: prod.splits)
qed

lemma run_stuck:
  "rep s M \<Longrightarrow> \<forall>x\<in>set xs. valid x \<Longrightarrow> kv_impl_run step xs s = None \<Longrightarrow>
     \<exists>ys x zs rs s1. xs = ys @ x # zs \<and> kv_impl_run step ys s = Some (rs, s1) \<and> \<not> room x s1"
proof (induction xs arbitrary: s M)
  case Nil then show ?case by simp
next
  case (Cons x xs)
  show ?case
  proof (cases "step x s")
    case None
    have "valid x" using Cons.prems(2) by simp
    from step_returns [OF Cons.prems(1) this] None have "\<not> room x s" by blast
    then show ?thesis by (intro exI [of _ "[]"]) simp
  next
    case (Some y)
    obtain r s1 where y: "y = (r, s1)" by (cases y)
    have rep1: "rep s1 (snd (kv_step x M))" using step_correct [OF Cons.prems(1)] Cons.prems(2) Some y by auto
    have "kv_impl_run step xs s1 = None"
      using Cons.prems(3) Some y by (cases "kv_impl_run step xs s1") auto
    from Cons.IH [OF rep1 _ this] Cons.prems(2) obtain ys x' zs rs s2 where
      "xs = ys @ x' # zs" "kv_impl_run step ys s1 = Some (rs, s2)" "\<not> room x' s2" by auto
    then show ?thesis using Some y
      by (intro exI [of _ "x # ys"] exI [of _ x'] exI [of _ zs] exI [of _ "r # rs"] exI [of _ s2]) simp
  qed
qed

end

end
