(* ===== verification/Database.thy ===== *)
theory Database
  imports DBIterator MapContract
begin

text \<open>
  The database itself, ptmdb/db\_impl.h and db\_impl.cc (class DBImpl): one hash map per persistent
  heap, found through root pointer 0, and the operations of the LevelDB interface as one
  transaction each. The build either captures the arguments of an operation by reference or by
  copy (PTMDB\_CAPTURE\_BY\_COPY, defined for every PTM but RomulusLog); the flag bycopy of the
  operations is that choice. A transaction is atomic here: theories RomulusLog and RedoOpt model
  the transactional memories.
\<close>

record 'a db =
  db_root :: ptr
  db_hashMap :: ptr
  db_heap :: "'a dbheap"

text \<open>The allocator and the sizes of the two classes.\<close>

record 'a db_env =
  env_tm :: "'a tm"
  env_node :: u64
  env_map :: u64

definition capture :: "bool \<Rightarrow> slice \<Rightarrow> slice option" where
  "capture bycopy s = (if bycopy then slice_copy s else Some s)"

text \<open>DB::Open and the constructor: use the map of root 0, or create it.\<close>

definition db_open :: "'a db_env \<Rightarrow> u64 \<Rightarrow> 'a db \<Rightarrow> (status \<times> 'a db) option" where
  "db_open E capacity s =
     (if db_root s = nullptr
      then do { (this, h) \<leftarrow> dbhm_new (env_tm E) (env_map E) capacity (db_heap s);
                Some (status_OK, s\<lparr>db_hashMap := this, db_root := this, db_heap := h\<rparr>) }
      else Some (status_OK, s\<lparr>db_hashMap := db_root s\<rparr>))"

text \<open>The destructor deletes the map and leaves the root pointer alone.\<close>

definition db_close :: "'a db_env \<Rightarrow> 'a db \<Rightarrow> 'a db option" where
  "db_close E s =
     do { h \<leftarrow> dbhm_delete (env_tm E) (db_hashMap s) (db_heap s);
          Some (s\<lparr>db_heap := h\<rparr>) }"

definition db_Put :: "'a db_env \<Rightarrow> bool \<Rightarrow> slice \<Rightarrow> slice \<Rightarrow> 'a db \<Rightarrow> (status \<times> 'a db) option" where
  "db_Put E bycopy k v s =
     do { key \<leftarrow> capture bycopy k;
          val \<leftarrow> capture bycopy v;
          (_, h) \<leftarrow> dbhm_innerPut (env_tm E) (env_node E) key val (db_hashMap s) (db_heap s);
          Some (status_OK, s\<lparr>db_heap := h\<rparr>) }"

definition key_not_found :: "status option" where
  "key_not_found = do { msg \<leftarrow> slice_of_cstr (lit ''key Not Found'' @ [0]); status_NotFound msg slice_empty }"

definition db_Delete :: "'a db_env \<Rightarrow> bool \<Rightarrow> slice \<Rightarrow> 'a db \<Rightarrow> (status \<times> 'a db) option" where
  "db_Delete E bycopy k s =
     do { key \<leftarrow> capture bycopy k;
          (found, h) \<leftarrow> dbhm_innerRemove (env_tm E) key (db_hashMap s) (db_heap s);
          st \<leftarrow> (if \<not> found then key_not_found else Some status_OK);
          Some (st, s\<lparr>db_heap := h\<rparr>) }"

definition db_Get :: "bool \<Rightarrow> slice \<Rightarrow> bytes \<Rightarrow> 'a db \<Rightarrow> (status \<times> bytes) option" where
  "db_Get bycopy k svalue s =
     do { key \<leftarrow> capture bycopy k;
          (found, sv) \<leftarrow> dbhm_innerGet key svalue (db_hashMap s) (db_heap s);
          st \<leftarrow> (if \<not> found then key_not_found else Some status_OK);
          Some (st, sv) }"

definition db_size :: "'a db \<Rightarrow> u64 option" where
  "db_size s = load_map dm_sizeHM (db_hashMap s) (db_heap s)"

definition db_NewIterator :: "'a db \<Rightarrow> iter" where
  "db_NewIterator s = it_new"

text \<open>One buffered operation; its key and value are char pointers.\<close>

definition db_apply :: "'a db_env \<Rightarrow> batch_op \<Rightarrow> 'a db \<Rightarrow> 'a db option" where
  "db_apply E oper s =
     do { key \<leftarrow> slice_of_cstr (op_key oper);
          if op_operation oper
          then do { v \<leftarrow> op_value oper;
                    val \<leftarrow> slice_of_cstr v;
                    (_, h) \<leftarrow> dbhm_innerPut (env_tm E) (env_node E) key val (db_hashMap s) (db_heap s);
                    Some (s\<lparr>db_heap := h\<rparr>) }
          else do { (_, h) \<leftarrow> dbhm_innerRemove (env_tm E) key (db_hashMap s) (db_heap s);
                    Some (s\<lparr>db_heap := h\<rparr>) } }"

text \<open>By reference: one transaction over the vector, front to back.\<close>

fun db_write_ref :: "'a db_env \<Rightarrow> write_batch \<Rightarrow> 'a db \<Rightarrow> 'a db option" where
  "db_write_ref E [] s = Some s"
| "db_write_ref E (oper # ops) s = do { s1 \<leftarrow> db_apply E oper s; db_write_ref E ops s1 }"

text \<open>By copy: one transaction per operation, each on a copy of the last element, which is then removed.\<close>

function db_write_copy :: "'a db_env \<Rightarrow> write_batch \<Rightarrow> 'a db \<Rightarrow> 'a db option" where
  "db_write_copy E ops s =
     (if ops = [] then Some s
      else do { oper \<leftarrow> op_copy (last ops); s1 \<leftarrow> db_apply E oper s; db_write_copy E (butlast ops) s1 })"
  by auto
termination by (relation "measure (\<lambda>(E, ops, s). length ops)") auto

declare db_write_copy.simps [simp del]

definition db_Write :: "'a db_env \<Rightarrow> bool \<Rightarrow> write_batch \<Rightarrow> 'a db \<Rightarrow> (status \<times> write_batch \<times> 'a db) option" where
  "db_Write E bycopy my_batch s =
     (if bycopy then do { s1 \<leftarrow> db_write_copy E my_batch s; Some (status_OK, [], s1) }
      else do { s1 \<leftarrow> db_write_ref E my_batch s; Some (status_OK, my_batch, s1) })"

subsection \<open>Requests over strings\<close>

text \<open>A client that holds its keys and values in std::string.\<close>

fun db_step :: "'a db_env \<Rightarrow> bool \<Rightarrow> (bytes, bytes) kv_op \<Rightarrow> 'a db \<Rightarrow> ((bool \<times> bytes option) \<times> 'a db) option" where
  "db_step E bycopy (KPut k v) s =
     do { (st, s1) \<leftarrow> db_Put E bycopy (slice_of_string k) (slice_of_string v) s; Some ((status_ok st, None), s1) }"
| "db_step E bycopy (KDelete k) s =
     do { (st, s1) \<leftarrow> db_Delete E bycopy (slice_of_string k) s; Some ((status_ok st, None), s1) }"
| "db_step E bycopy (KGet k) s =
     do { (st, v) \<leftarrow> db_Get bycopy (slice_of_string k) [] s;
          Some ((status_ok st, if status_ok st then Some v else None), s) }"
subsection \<open>Strings and captured strings\<close>

lemma slice_of_string_facts:
  assumes "length b + 1 < 2 ^ 64"
  shows "slice_wf (slice_of_string b)" "str (slice_of_string b) = b"
    "unat (sl_size (slice_of_string b)) = length b" "sl_size (slice_of_string b) \<noteq> - 1"
proof -
  have "length b < 2 ^ LENGTH(64)" using assms by simp
  then have n: "unat (of_nat (length b) :: u64) = length b" by (simp only: unat_of_nat mod_less)
  then show "slice_wf (slice_of_string b)" "str (slice_of_string b) = b"
    "unat (sl_size (slice_of_string b)) = length b"
    by (simp_all add: slice_wf_def slice_of_string_def slice_ToString_def)
  have "unat (- 1 :: u64) = 2 ^ 64 - 1" by (simp add: unsigned_minus_1_eq_mask mask_eq_exp_minus_1)
  with n assms have "(of_nat (length b) :: u64) \<noteq> - 1" by auto
  then show "sl_size (slice_of_string b) \<noteq> - 1" by (simp add: slice_of_string_def)
qed

lemma capture_string:
  assumes "length b + 1 < 2 ^ 64"
  shows "\<exists>t. capture bycopy (slice_of_string b) = Some t \<and> slice_wf t \<and> str t = b
    \<and> sl_size t = sl_size (slice_of_string b)"
proof -
  note f = slice_of_string_facts [OF assms]
  have "unat (sl_size (slice_of_string b) + 1) = length b + 1" using f(3,4) by (simp add: unat_plus_one)
  with f show ?thesis
    by (cases bycopy) (simp_all add: capture_def slice_copy_def Let_def slice_wf_def slice_ToString_def slice_of_string_def)
qed

lemma capture_fits:
  assumes "length b + 1 < 2 ^ 64" "length b + 1 \<le> mx" "capture bycopy (slice_of_string b) = Some t"
  shows "fits mx t" "str t = b" "sl_size t = of_nat (length b)"
  using capture_string [OF assms(1), of bycopy] assms slice_of_string_facts [OF assms(1)]
  by (auto simp: fits_def) (simp add: slice_of_string_def)

text \<open>
  Capturing by copy reads one byte behind the string: a slice of an array without a byte to
  spare has no defined copy.
\<close>

lemma capture_exact_array:
  "n \<noteq> - 1 \<Longrightarrow> length d = unat n \<Longrightarrow> capture True (slice_of_array d n) = None"
  by (simp add: capture_def slice_copy_def slice_of_array_def unat_plus_one)

lemma key_not_found_ok: "\<exists>st. key_not_found = Some st \<and> \<not> status_ok st \<and> status_is kNotFound st = Some True"
proof -
  let ?m = "lit ''key Not Found''"
  have "length ?m < 2 ^ 64" by simp
  from slice_of_cstr_str [OF this] obtain msg where msg: "slice_of_cstr (?m @ [0]) = Some msg" "str msg = c_str ?m" by blast
  have wf: "slice_wf msg" "slice_wf slice_empty"
    using msg(1) by (auto simp: slice_of_cstr_def slice_wf_def slice_empty_def lit_def c_str_def split: if_splits)
  have "length (str msg) \<le> 13" using length_takeWhile_le [of "\<lambda>c. c \<noteq> 0" ?m] by (simp add: msg(2) c_str_def)
  then have len: "length (str msg) + length (str slice_empty) + 7 < 2 ^ 32" by (simp add: slice_ToString_def slice_empty_def)
  have "kNotFound \<noteq> 0" by (simp add: kNotFound_def)
  from status_new_bytes [OF wf this len] msg(1) show ?thesis
    by (simp add: key_not_found_def status_NotFound_def status_ok_def status_is_def status_code_def
        buf_read_status [unfolded One_nat_def] del: list.map map_append)
qed

lemma status_ok_OK [simp]: "status_ok status_OK"
  by (simp add: status_ok_def status_OK_def)

subsection \<open>The operations\<close>

context tm_alloc
begin

lemma db_Put_ok:
  assumes E: "env_tm E = TM" "unat (env_node E) \<le> max_request"
    and rep: "db_rep ainv (db_hashMap s) (db_heap s) M"
    and len: "length k + 1 < 2 ^ 64" "length k + 1 \<le> max_request" "length v + 1 < 2 ^ 64" "length v + 1 \<le> max_request"
    and ret: "db_Put E bycopy (slice_of_string k) (slice_of_string v) s = Some (st, s')"
  shows "status_ok st" "db_rep ainv (db_hashMap s') (db_heap s') (M(k \<mapsto> v))" "db_root s' = db_root s"
    "db_hashMap s' = db_hashMap s"
proof -
  from ret obtain key val r h where c: "capture bycopy (slice_of_string k) = Some key"
    "capture bycopy (slice_of_string v) = Some val"
    and p: "dbhm_innerPut TM (env_node E) key val (db_hashMap s) (db_heap s) = Some (r, h)"
    and s': "st = status_OK" "s' = s\<lparr>db_heap := h\<rparr>" by (auto simp: db_Put_def ret_simps E(1))
  note K = capture_fits [OF len(1,2) c(1)] and V = capture_fits [OF len(3,4) c(2)]
  from dbhm_innerPut_ok [OF rep E(2) K(1) V(1) p] K(2) V(2) s'
  show "status_ok st" "db_rep ainv (db_hashMap s') (db_heap s') (M(k \<mapsto> v))" "db_root s' = db_root s"
    "db_hashMap s' = db_hashMap s" by simp_all
qed

lemma db_Put_returns:
  assumes E: "env_tm E = TM" "unat (env_node E) \<le> max_request"
    and rep: "db_rep ainv (db_hashMap s) (db_heap s) M"
    and len: "length k + 1 < 2 ^ 64" "length k + 1 \<le> max_request" "length v + 1 < 2 ^ 64" "length v + 1 \<le> max_request"
    and room: "mem_room TM [Alloc (env_node E), Alloc (of_nat (length k) + 1), Alloc (of_nat (length v) + 1)] (pool (db_heap s))"
      "\<And>old. mem_room TM [Alloc (of_nat (length v) + 1), Release old, Alloc (of_nat (length v) + 1)] (pool (db_heap s))"
  shows "db_Put E bycopy (slice_of_string k) (slice_of_string v) s \<noteq> None"
proof -
  from capture_string [OF len(1), of bycopy] capture_string [OF len(3), of bycopy] obtain key val where
    c: "capture bycopy (slice_of_string k) = Some key" "capture bycopy (slice_of_string v) = Some val" by blast
  note K = capture_fits [OF len(1,2) c(1)] and V = capture_fits [OF len(3,4) c(2)]
  have "dbhm_innerPut TM (env_node E) key val (db_hashMap s) (db_heap s) \<noteq> None"
    by (rule dbhm_innerPut_returns [OF rep E(2) K(1) V(1)]) (use room in \<open>simp_all only: K(3) V(3)\<close>)
  with c show ?thesis by (auto simp: db_Put_def E(1))
qed

lemma db_Delete_ok:
  assumes E: "env_tm E = TM" and rep: "db_rep ainv (db_hashMap s) (db_heap s) M" and len: "length k + 1 < 2 ^ 64"
  shows "\<exists>st s'. db_Delete E bycopy (slice_of_string k) s = Some (st, s') \<and> status_ok st = (M k \<noteq> None)
    \<and> db_rep ainv (db_hashMap s') (db_heap s') (M(k := None)) \<and> db_root s' = db_root s \<and> db_hashMap s' = db_hashMap s"
proof -
  from capture_string [OF len, of bycopy] obtain key where c: "capture bycopy (slice_of_string k) = Some key"
    "slice_wf key" "str key = k" by blast
  from dbhm_innerRemove_ok [OF rep c(2)] c(3) obtain h where
    "dbhm_innerRemove TM key (db_hashMap s) (db_heap s) = Some (M k \<noteq> None, h)"
    "db_rep ainv (db_hashMap s) h (M(k := None))" by auto
  moreover obtain nf where nf [simp]: "key_not_found = Some nf" and "\<not> status_ok nf" using key_not_found_ok by blast
  ultimately show ?thesis
    using c(1) by (cases "M k") (simp_all add: db_Delete_def E)
qed

lemma db_Get_ok:
  assumes rep: "db_rep ainv (db_hashMap s) (db_heap s) M" and len: "length k + 1 < 2 ^ 64"
  shows "\<exists>st. db_Get bycopy (slice_of_string k) svalue s
      = Some (st, case M k of None \<Rightarrow> svalue | Some v \<Rightarrow> v) \<and> status_ok st = (M k \<noteq> None)"
proof -
  from capture_string [OF len, of bycopy] obtain key where c: "capture bycopy (slice_of_string k) = Some key"
    "slice_wf key" "str key = k" by blast
  moreover obtain nf where nf [simp]: "key_not_found = Some nf" and "\<not> status_ok nf" using key_not_found_ok by blast
  ultimately show ?thesis
    using dbhm_innerGet_ok [OF rep c(2), of svalue]
    by (cases "M k") (simp_all add: db_Get_def)
qed

end

text \<open>The database on the repository's allocator.\<close>

definition esl_env :: "u64 \<Rightarrow> u64 \<Rightarrow> esloco db_env" where
  "esl_env szNode szMap = \<lparr>env_tm = esl_tm, env_node = szNode, env_map = szMap\<rparr>"

definition db_inv :: "u64 \<Rightarrow> esloco db \<Rightarrow> (bytes \<rightharpoonup> bytes) \<Rightarrow> bool" where
  "db_inv szNode s M \<longleftrightarrow> unat szNode \<le> esl_max_request \<and> db_root s = db_hashMap s
     \<and> db_rep esl_inv (db_hashMap s) (db_heap s) M"

fun kv_valid :: "(bytes, bytes) kv_op \<Rightarrow> bool" where
  "kv_valid (KPut k v) \<longleftrightarrow> length k + 1 \<le> esl_max_request \<and> length v + 1 \<le> esl_max_request"
| "kv_valid (KDelete k) \<longleftrightarrow> length k + 1 < 2 ^ 64"
| "kv_valid (KGet k) \<longleftrightarrow> length k + 1 < 2 ^ 64"

fun db_room :: "u64 \<Rightarrow> (bytes, bytes) kv_op \<Rightarrow> esloco db \<Rightarrow> bool" where
  "db_room szNode (KPut k v) s \<longleftrightarrow>
     mem_room esl_tm [Alloc szNode, Alloc (of_nat (length k) + 1), Alloc (of_nat (length v) + 1)] (pool (db_heap s))
     \<and> (\<forall>old. mem_room esl_tm [Alloc (of_nat (length v) + 1), Release old, Alloc (of_nat (length v) + 1)] (pool (db_heap s)))"
| "db_room szNode _ s \<longleftrightarrow> True"

interpretation kvdb: kv_contract "db_inv szNode" kv_valid "db_room szNode" "db_step (esl_env szNode szMap) bycopy"
proof
  fix s M x r s'
  assume inv: "db_inv szNode s M" and v: "kv_valid x" and st: "db_step (esl_env szNode szMap) bycopy x s = Some (r, s')"
  have E: "env_tm (esl_env szNode szMap) = esl_tm" "unat (env_node (esl_env szNode szMap)) \<le> esl_max_request"
    using inv by (simp_all add: esl_env_def db_inv_def)
  from inv have rep: "db_rep esl_inv (db_hashMap s) (db_heap s) M" by (simp add: db_inv_def)
  show "r = fst (kv_step x M) \<and> db_inv szNode s' (snd (kv_step x M))"
  proof (cases x)
    case (KPut k w)
    with v have "length k + 1 < 2 ^ 64" "length k + 1 \<le> esl_max_request" "length w + 1 < 2 ^ 64" "length w + 1 \<le> esl_max_request"
      by (simp_all add: esl_max_request_def)
    from eslh.db_Put_ok [OF E rep this] st KPut inv show ?thesis by (auto simp: ret_simps db_inv_def)
  next
    case (KDelete k)
    with v have "length k + 1 < 2 ^ 64" by simp
    from eslh.db_Delete_ok [OF E(1) rep this, of bycopy] st KDelete inv show ?thesis by (auto simp: ret_simps db_inv_def)
  next
    case (KGet k)
    with v have "length k + 1 < 2 ^ 64" by simp
    from eslh.db_Get_ok [OF rep this, of bycopy "[]"] st KGet inv show ?thesis
      by (auto simp: ret_simps db_inv_def split: option.splits)
  qed
next
  fix s M x
  assume inv: "db_inv szNode s M" and v: "kv_valid x" and room: "db_room szNode x s"
  have E: "env_tm (esl_env szNode szMap) = esl_tm" "unat (env_node (esl_env szNode szMap)) \<le> esl_max_request"
    "env_node (esl_env szNode szMap) = szNode"
    using inv by (simp_all add: esl_env_def db_inv_def)
  from inv have rep: "db_rep esl_inv (db_hashMap s) (db_heap s) M" by (simp add: db_inv_def)
  show "db_step (esl_env szNode szMap) bycopy x s \<noteq> None"
  proof (cases x)
    case (KPut k w)
    with v have l: "length k + 1 < 2 ^ 64" "length k + 1 \<le> esl_max_request" "length w + 1 < 2 ^ 64" "length w + 1 \<le> esl_max_request"
      by (simp_all add: esl_max_request_def)
    have "db_Put (esl_env szNode szMap) bycopy (slice_of_string k) (slice_of_string w) s \<noteq> None"
      by (rule eslh.db_Put_returns [OF E(1,2) rep l]) (use room in \<open>simp_all only: KPut E(3) db_room.simps\<close>)
    then show ?thesis by (auto simp: KPut)
  next
    case (KDelete k)
    with v have "length k + 1 < 2 ^ 64" by simp
    from eslh.db_Delete_ok [OF E(1) rep this, of bycopy] KDelete show ?thesis by auto
  next
    case (KGet k)
    with v have "length k + 1 < 2 ^ 64" by simp
    from eslh.db_Get_ok [OF rep this, of bycopy "[]"] KGet show ?thesis by (auto simp: bind_eq_None_conv)
  qed
qed
subsection \<open>Batches\<close>

text \<open>
  A batch filled by the client: each update is a key with the value to put, or with none to
  delete the key. What db\_Write makes of an update: strings end at their first NUL.
\<close>

type_synonym update = "bytes \<times> bytes option"

fun fill_batch :: "update list \<Rightarrow> write_batch \<Rightarrow> write_batch option" where
  "fill_batch [] b = Some b"
| "fill_batch ((k, Some v) # xs) b =
     do { b1 \<leftarrow> batch_Put (slice_of_string k) (slice_of_string v) b; fill_batch xs b1 }"
| "fill_batch ((k, None) # xs) b =
     do { b1 \<leftarrow> batch_Delete (slice_of_string k) b; fill_batch xs b1 }"

definition apply_update :: "update \<Rightarrow> (bytes \<rightharpoonup> bytes) \<Rightarrow> (bytes \<rightharpoonup> bytes)" where
  "apply_update x M = M(c_str (fst x) := map_option c_str (snd x))"

definition update_ok :: "update \<Rightarrow> bool" where
  "update_ok x \<longleftrightarrow> length (fst x) + 1 \<le> esl_max_request
     \<and> (case snd x of None \<Rightarrow> True | Some v \<Rightarrow> length v + 1 \<le> esl_max_request)"

definition op_of :: "update \<Rightarrow> batch_op" where
  "op_of x = \<lparr>op_operation = (snd x \<noteq> None), op_key = fst x @ [0], op_key_size = of_nat (length (fst x)),
     op_value = map_option (\<lambda>v. v @ [0]) (snd x),
     op_value_size = (case snd x of None \<Rightarrow> 0 | Some v \<Rightarrow> of_nat (length v))\<rparr>"

lemma slice_of_string_size: "sl_size (slice_of_string b) = of_nat (length b)"
  by (simp add: slice_of_string_def)

lemma ucast_of_nat_32: "(ucast (of_nat n :: u64) :: u32) = of_nat n"
  by (simp add: word_unat_eq_iff unat_ucast_mod unat_of_nat mod_mod_cancel)

lemma fill_batch_ops:
  "\<forall>x\<in>set xs. update_ok x \<Longrightarrow> fill_batch xs b = Some (b @ map op_of xs)"
proof (induction xs b rule: fill_batch.induct)
  case (2 k v xs b)
  then have "length k + 1 < 2 ^ 64" "length v + 1 < 2 ^ 64"
    by (simp_all add: update_ok_def esl_max_request_def)
  note K = slice_of_string_facts [OF this(1)] and V = slice_of_string_facts [OF this(2)]
  from 2 nul_copy_str [OF K(1,4)] nul_copy_str [OF V(1,4)] K(2) V(2) show ?case
    by (simp add: batch_Put_def op_of_def slice_of_string_size ucast_of_nat_32)
next
  case (3 k xs b)
  then have "length k + 1 < 2 ^ 64" by (simp add: update_ok_def esl_max_request_def)
  note K = slice_of_string_facts [OF this]
  from 3 nul_copy_str [OF K(1,4)] K(2) show ?case
    by (simp add: batch_Delete_def op_of_def slice_of_string_size ucast_of_nat_32)
qed simp

lemma slice_of_cstr_fits:
  assumes "length b + 1 \<le> mx" "length b + 1 < 2 ^ 64"
  shows "\<exists>s. slice_of_cstr (b @ [0]) = Some s \<and> fits mx s \<and> str s = c_str b"
proof -
  have "length b < 2 ^ 64" using assms(2) by simp
  from slice_of_cstr_str [OF this] obtain s where s: "slice_of_cstr (b @ [0]) = Some s" "str s = c_str b" by blast
  have le: "length (c_str b) \<le> length b" unfolding c_str_def by (rule length_takeWhile_le)
  then have "length (c_str b) < 2 ^ LENGTH(64)" using assms(2) by simp
  then have n: "unat (of_nat (length (c_str b)) :: u64) = length (c_str b)" by (simp only: unat_of_nat mod_less)
  moreover have "unat (- 1 :: u64) = 2 ^ 64 - 1" by (simp add: unsigned_minus_1_eq_mask mask_eq_exp_minus_1)
  moreover have "length (c_str b) < 2 ^ 64 - 1" using le assms(2) by simp
  ultimately have "(of_nat (length (c_str b)) :: u64) \<noteq> - 1" by (metis nat_neq_iff)
  moreover have "sl_size s = of_nat (length (c_str b))" "sl_data s = b @ [0]"
    using s(1) by (auto simp: slice_of_cstr_def c_str_nul)
  ultimately show ?thesis using s n le assms(1) by (simp add: fits_def slice_wf_def)
qed

lemma op_copy_of:
  assumes "update_ok x" obtains o' where "op_copy (op_of x) = Some o'" "op_operation o' = op_operation (op_of x)"
    "op_key o' = op_key (op_of x)" "snd x \<noteq> None \<Longrightarrow> op_value o' = op_value (op_of x)"
proof -
  have "length (fst x) < 2 ^ LENGTH(32)" using assms by (simp add: update_ok_def esl_max_request_def)
  then have k: "unat (of_nat (length (fst x)) :: u32) = length (fst x)" by (simp only: unat_of_nat mod_less)
  have v: "unat (of_nat (length v) :: u32) = length v" if "snd x = Some v" for v
  proof -
    have "length v < 2 ^ LENGTH(32)" using assms that by (simp add: update_ok_def esl_max_request_def)
    then show ?thesis by (simp only: unat_of_nat mod_less)
  qed
  show ?thesis
    by (cases "snd x") (use that k v in \<open>simp_all add: op_copy_def op_of_def Let_def\<close>)
qed

context tm_alloc
begin

lemma db_apply_ok:
  assumes E: "env_tm E = TM" "unat (env_node E) \<le> max_request" and rep: "db_rep ainv (db_hashMap s) (db_heap s) M"
    and len: "length (fst x) + 1 \<le> max_request" "length (fst x) + 1 < 2 ^ 64"
      "\<And>v. snd x = Some v \<Longrightarrow> length v + 1 \<le> max_request \<and> length v + 1 < 2 ^ 64"
    and oper: "op_operation oper = op_operation (op_of x)" "op_key oper = op_key (op_of x)"
      "snd x \<noteq> None \<Longrightarrow> op_value oper = op_value (op_of x)"
    and ret: "db_apply E oper s = Some s'"
  shows "db_rep ainv (db_hashMap s') (db_heap s') (apply_update x M)" "db_root s' = db_root s" "db_hashMap s' = db_hashMap s"
proof -
  from slice_of_cstr_fits [OF len(1,2)] obtain key where
    key: "slice_of_cstr (fst x @ [0]) = Some key" "fits max_request key" "str key = c_str (fst x)" by blast
  then have wf: "slice_wf key" by (simp add: fits_def)
  have "db_rep ainv (db_hashMap s') (db_heap s') (apply_update x M) \<and> db_root s' = db_root s \<and> db_hashMap s' = db_hashMap s"
  proof (cases "snd x")
    case None
    from dbhm_innerRemove_ok [OF rep wf] key ret oper None show ?thesis
      by (auto simp: db_apply_def op_of_def ret_simps apply_update_def E(1))
  next
    case (Some v)
    from slice_of_cstr_fits [of v max_request] len(3) [OF Some] obtain val where
      val: "slice_of_cstr (v @ [0]) = Some val" "fits max_request val" "str val = c_str v" by blast
    from ret oper Some key(1) val(1) obtain r h where
      p: "dbhm_innerPut TM (env_node E) key val (db_hashMap s) (db_heap s) = Some (r, h)" and s': "s' = s\<lparr>db_heap := h\<rparr>"
      by (auto simp: db_apply_def op_of_def ret_simps E(1))
    from dbhm_innerPut_ok(2) [OF rep E(2) key(2) val(2) p] key(3) val(3) s' Some show ?thesis
      by (simp add: apply_update_def)
  qed
  then show "db_rep ainv (db_hashMap s') (db_heap s') (apply_update x M)" "db_root s' = db_root s" "db_hashMap s' = db_hashMap s"
    by auto
qed

end

lemma db_apply_update:
  assumes inv: "db_inv szNode s M" and x: "update_ok x"
    and oper: "op_operation oper = op_operation (op_of x)" "op_key oper = op_key (op_of x)"
      "snd x \<noteq> None \<Longrightarrow> op_value oper = op_value (op_of x)"
    and ret: "db_apply (esl_env szNode szMap) oper s = Some s'"
  shows "db_inv szNode s' (apply_update x M)"
proof -
  have E: "env_tm (esl_env szNode szMap) = esl_tm" "unat (env_node (esl_env szNode szMap)) \<le> esl_max_request"
    using inv by (simp_all add: esl_env_def db_inv_def)
  from inv have rep: "db_rep esl_inv (db_hashMap s) (db_heap s) M" by (simp add: db_inv_def)
  have len: "length (fst x) + 1 \<le> esl_max_request" "length (fst x) + 1 < 2 ^ 64"
    "\<And>v. snd x = Some v \<Longrightarrow> length v + 1 \<le> esl_max_request \<and> length v + 1 < 2 ^ 64"
    using x by (auto simp: update_ok_def esl_max_request_def)
  from eslh.db_apply_ok [OF E rep len oper ret] inv show ?thesis by (simp add: db_inv_def)
qed

lemma db_write_ref_ok:
  "db_inv szNode s M \<Longrightarrow> \<forall>x\<in>set xs. update_ok x \<Longrightarrow>
     db_write_ref (esl_env szNode szMap) (map op_of xs) s = Some s' \<Longrightarrow> db_inv szNode s' (fold apply_update xs M)"
proof (induction xs arbitrary: s M)
  case Nil then show ?case by simp
next
  case (Cons x xs)
  from Cons.prems(3) obtain s1 where "db_apply (esl_env szNode szMap) (op_of x) s = Some s1"
    and rest: "db_write_ref (esl_env szNode szMap) (map op_of xs) s1 = Some s'" by (auto simp: ret_simps)
  from db_apply_update [OF Cons.prems(1) _ refl refl refl this(1)] Cons.prems(2)
  have "db_inv szNode s1 (apply_update x M)" by simp
  from Cons.IH [OF this _ rest] Cons.prems(2) show ?case by simp
qed

lemma db_write_copy_ok:
  "db_inv szNode s M \<Longrightarrow> \<forall>x\<in>set xs. update_ok x \<Longrightarrow>
     db_write_copy (esl_env szNode szMap) (map op_of xs) s = Some s' \<Longrightarrow> db_inv szNode s' (fold apply_update (rev xs) M)"
proof (induction xs arbitrary: s M rule: rev_induct)
  case Nil then show ?case by (simp add: db_write_copy.simps [of _ "[]"])
next
  case (snoc x xs)
  have x: "update_ok x" using snoc.prems(2) by simp
  from op_copy_of [OF x] obtain oper where cp: "op_copy (op_of x) = Some oper"
    and o: "op_operation oper = op_operation (op_of x)" "op_key oper = op_key (op_of x)"
      "snd x \<noteq> None \<Longrightarrow> op_value oper = op_value (op_of x)" by metis
  from snoc.prems(3) cp obtain s1 where ap: "db_apply (esl_env szNode szMap) oper s = Some s1"
    and rest: "db_write_copy (esl_env szNode szMap) (map op_of xs) s1 = Some s'"
    by (subst (asm) db_write_copy.simps) (auto simp: ret_simps)
  from db_apply_update [OF snoc.prems(1) x o ap] have "db_inv szNode s1 (apply_update x M)" .
  from snoc.IH [OF this _ rest] snoc.prems(2) show ?case by simp
qed
subsection \<open>Opening and closing\<close>

lemma db_open_new:
  assumes fresh: "db_root s = nullptr" "nodes (db_heap s) = Map.empty" "arrays (db_heap s) = Map.empty"
      "heap_ok esl_inv (db_heap s)"
    and sz: "unat szNode \<le> esl_max_request" "unat szMap \<le> esl_max_request"
    and cap: "capacity \<noteq> 0" "8 * unat capacity \<le> esl_max_request"
    and ret: "db_open (esl_env szNode szMap) capacity s = Some (st, s')"
  shows "status_ok st" "db_inv szNode s' Map.empty"
proof -
  from ret fresh(1) obtain this h where n: "dbhm_new esl_tm szMap capacity (db_heap s) = Some (this, h)"
    and s': "st = status_OK" "s' = s\<lparr>db_hashMap := this, db_root := this, db_heap := h\<rparr>"
    by (auto simp: db_open_def esl_env_def ret_simps)
  have "8 * unat capacity < 2 ^ 64" using cap(2) by (simp add: esl_max_request_def)
  from eslh.dbhm_new_ok [OF fresh(4,2,3) sz(2) cap(2) this cap(1) n] sz(1) s'
  show "status_ok st" "db_inv szNode s' Map.empty" by (simp_all add: db_inv_def)
qed

lemma db_inv_not_null: "db_inv szNode s M \<Longrightarrow> db_root s \<noteq> nullptr"
proof -
  assume "db_inv szNode s M"
  then obtain d where "nodes (db_heap s) (db_root s) = Some (DMap d)" "heap_ok esl_inv (db_heap s)"
    by (auto simp: db_inv_def db_rep_def db_at_def hrel_def maps_of_iff dest: hrel_this)
      (metis fun_upd_same maps_of_iff)
  then show ?thesis using eslh.null_not_live by (fastforce simp: heap_ok_def)
qed

lemma db_close_ok:
  assumes "db_inv szNode s M"
  shows "\<exists>s'. db_close (esl_env szNode szMap) s = Some s' \<and> nodes (db_heap s') = Map.empty
    \<and> arrays (db_heap s') = Map.empty \<and> heap_ok esl_inv (db_heap s') \<and> db_root s' = db_root s"
proof -
  from assms have "db_rep esl_inv (db_hashMap s) (db_heap s) M" by (simp add: db_inv_def)
  from eslh.dbhm_delete_ok [OF this] show ?thesis by (auto simp: db_close_def esl_env_def)
qed

lemma dangling_fails:
  assumes "nodes (db_heap s) = Map.empty"
  shows "db_Put E bycopy k v s = None" "db_Delete E bycopy k s = None" "db_Get bycopy k old s = None"
proof -
  have "load_map f p (db_heap s) = None" for f :: "dbmap \<Rightarrow> u64" and p using assms by (simp add: load_map_def)
  then show "db_Put E bycopy k v s = None" "db_Delete E bycopy k s = None" "db_Get bycopy k old s = None"
    by (simp_all add: db_Put_def db_Delete_def db_Get_def dbhm_innerPut_def dbhm_innerRemove_def
        dbhm_innerGet_def bind_eq_None_conv)
qed

subsection \<open>An example\<close>

definition db_fresh :: "esloco db" where
  "db_fresh = \<lparr>db_root = nullptr, db_hashMap = nullptr, db_heap = esl_heap\<rparr>"

definition db_example_open :: "(status \<times> esloco db) option" where
  "db_example_open = db_open (esl_env 64 128) 2 db_fresh"

definition db_example :: "esloco db" where
  "db_example = snd (the db_example_open)"

lemma db_example_open_Some: "db_open (esl_env 64 128) 2 db_fresh = Some (fst (the db_example_open), db_example)"
proof -
  have "\<not> Option.is_none db_example_open" by code_simp
  then show ?thesis by (auto simp: Option.is_none_def db_example_def db_example_open_def)
qed

lemma db_example_inv: "db_inv 64 db_example Map.empty"
  by (rule db_open_new(2) [OF _ _ _ _ _ _ _ _ db_example_open_Some])
    (simp_all add: db_fresh_def esl_heap_ok esl_max_request_def)

definition db_example_ops :: "(bytes, bytes) kv_op list" where
  "db_example_ops = [KPut (lit ''a'') (lit ''1''), KGet (lit ''a''), KDelete (lit ''a''), KGet (lit ''a'')]"

definition db_example_run :: "((bool \<times> bytes option) list \<times> esloco db) option" where
  "db_example_run = kv_impl_run (db_step (esl_env 64 128) True) db_example_ops db_example"

lemma db_example_valid: "\<forall>x\<in>set db_example_ops. kv_valid x"
  by (simp add: db_example_ops_def esl_max_request_def)

lemma db_example_run_Some:
  "kv_impl_run (db_step (esl_env 64 128) True) db_example_ops db_example = Some (the db_example_run)"
proof -
  have "\<not> Option.is_none db_example_run" by code_simp
  then show ?thesis by (auto simp: Option.is_none_def db_example_run_def)
qed

definition db_filled :: "esloco db" where
  "db_filled = snd (the db_example_run)"

subsection \<open>Properties\<close>

text \<open>
  C27: The database is a map from byte strings to byte strings: every sequence of Put, Delete and
  Get requests that returns, in either capture mode, answers each request as the abstract map
  does (Delete and Get are NotFound exactly for a key without a mapping, for Delete against the
  comment of db.h) and leaves the database representing the resulting map. The strings of the
  map are plain memory here; under the Redo PTMs their bytes are written unlogged to replica 0
  (slice.h:137), which is not modelled.
\<close>

theorem db_requests_correct:
  assumes "db_inv szNode s M" "\<forall>x\<in>set xs. kv_valid x"
    "kv_impl_run (db_step (esl_env szNode szMap) bycopy) xs s = Some (rs, s')"
  shows "rs = fst (kv_run xs M) \<and> db_inv szNode s' (snd (kv_run xs M))"
  by (rule kvdb.run_correct [OF assms])

theorem db_requests_correct_witness:
  "map_option fst db_example_run
     = Some [(True, None), (True, Some (lit ''1'')), (True, None), (False, None)]"
proof -
  have "kv_impl_run (db_step (esl_env 64 128) True) db_example_ops db_example
      = Some (fst (the db_example_run), snd (the db_example_run))" using db_example_run_Some by simp
  from db_requests_correct [OF db_example_inv db_example_valid this]
  have "fst (the db_example_run) = fst (kv_run db_example_ops Map.empty)" by simp
  also have "\<dots> = [(True, None), (True, Some (lit ''1'')), (True, None), (False, None)]"
    by (simp add: db_example_ops_def lit_def)
  finally have "fst (the db_example_run) = [(True, None), (True, Some (lit ''1'')), (True, None), (False, None)]" .
  moreover have "db_example_run \<noteq> None" using db_example_run_Some by (metis db_example_run_def option.distinct(1))
  then obtain y where y: "db_example_run = Some y" by blast
  ultimately show ?thesis unfolding y option.sel option.map by metis
qed

text \<open>
  C28: Only memory stops the database: a sequence of valid requests that does not return has a
  Put whose allocations (node, key and value, or two copies of the value) found no memory, and
  every request in front of it returned.
\<close>

theorem db_requests_return:
  assumes "db_inv szNode s M" "\<forall>x\<in>set xs. kv_valid x"
    "kv_impl_run (db_step (esl_env szNode szMap) bycopy) xs s = None"
  shows "\<exists>ys k v zs rs s1. xs = ys @ KPut k v # zs
    \<and> kv_impl_run (db_step (esl_env szNode szMap) bycopy) ys s = Some (rs, s1) \<and> \<not> db_room szNode (KPut k v) s1"
proof -
  from kvdb.run_stuck [OF assms] obtain ys x zs rs s1 where
    "xs = ys @ x # zs" "kv_impl_run (db_step (esl_env szNode szMap) bycopy) ys s = Some (rs, s1)"
    "\<not> db_room szNode x s1" by blast
  moreover from this(3) obtain k v where "x = KPut k v" by (cases x) auto
  ultimately show ?thesis by blast
qed

text \<open>With nodes of 8192 bytes the example's pool of 4096 has no room for one.\<close>

theorem db_requests_return_witness:
  "\<not> db_room 8192 (KPut (lit ''a'') (lit ''1'')) db_example"
proof -
  let ?xs = "[KPut (lit ''a'') (lit ''1'')]"
  have inv: "db_inv 8192 db_example Map.empty" using db_example_inv by (simp add: db_inv_def esl_max_request_def)
  have "Option.is_none (kv_impl_run (db_step (esl_env 8192 128) True) ?xs db_example)" by code_simp
  then have none: "kv_impl_run (db_step (esl_env 8192 128) True) ?xs db_example = None" by (simp add: Option.is_none_def)
  have valid: "\<forall>x\<in>set ?xs. kv_valid x" by (simp add: esl_max_request_def)
  from db_requests_return [OF inv valid none] obtain ys k v zs rs s1 where
    r: "?xs = ys @ KPut k v # zs" "kv_impl_run (db_step (esl_env 8192 128) True) ys db_example = Some (rs, s1)"
    "\<not> db_room 8192 (KPut k v) s1" by blast
  have "ys = []" "k = lit ''a''" "v = lit ''1''" using r(1) by (cases ys; simp)+
  with r(2,3) show ?thesis by (simp del: db_room.simps)
qed

text \<open>
  C29: Write applies a batch to the map: captured by reference it applies the updates in the
  order they were added and keeps the batch; captured by copy it applies them in the opposite
  order and empties the batch. Keys and values end at their first NUL.
\<close>

theorem db_write_batch:
  assumes "db_inv szNode s M" "\<forall>x\<in>set xs. update_ok x" "fill_batch xs [] = Some batch"
    "db_Write (esl_env szNode szMap) bycopy batch s = Some (st, batch', s')"
  shows "status_ok st \<and> batch' = (if bycopy then [] else batch)
    \<and> db_inv szNode s' (fold apply_update (if bycopy then rev xs else xs) M)"
proof -
  have b: "batch = map op_of xs" using fill_batch_ops [OF assms(2), of "[]"] assms(3) by simp
  show ?thesis
  proof (cases bycopy)
    case True
    with assms(4) have "db_write_copy (esl_env szNode szMap) (map op_of xs) s = Some s'" "st = status_OK" "batch' = []"
      by (auto simp: db_Write_def b ret_simps)
    with True db_write_copy_ok [OF assms(1,2) this(1)] show ?thesis by simp
  next
    case False
    with assms(4) have "db_write_ref (esl_env szNode szMap) (map op_of xs) s = Some s'" "st = status_OK" "batch' = batch"
      by (auto simp: db_Write_def b ret_simps)
    with False db_write_ref_ok [OF assms(1,2) this(1)] show ?thesis by simp
  qed
qed

text \<open>
  Two updates of one key. The comment of write\_batch.h has the last one win; captured by copy
  the first one does.
\<close>

definition db_doc_updates :: "update list" where
  "db_doc_updates = [(lit ''k'', Some (lit ''1'')), (lit ''k'', Some (lit ''2''))]"

definition db_doc_write :: "bool \<Rightarrow> (status \<times> write_batch \<times> esloco db) option" where
  "db_doc_write bycopy = do { b \<leftarrow> fill_batch db_doc_updates []; db_Write (esl_env 64 128) bycopy b db_example }"

theorem db_write_batch_witness:
  "\<exists>st s'. db_doc_write True = Some (st, [], s') \<and> db_inv 64 s' [lit ''k'' \<mapsto> lit ''1'']"
proof -
  have ok: "\<forall>x\<in>set db_doc_updates. update_ok x"
    by (simp add: db_doc_updates_def update_ok_def esl_max_request_def)
  note fb = fill_batch_ops [OF ok, of "[]"]
  have "\<not> Option.is_none (db_doc_write True)" by code_simp
  then obtain st b' s' where w: "db_doc_write True = Some (st, b', s')" by (auto simp: Option.is_none_def)
  then have "db_Write (esl_env 64 128) True ([] @ map op_of db_doc_updates) db_example = Some (st, b', s')"
    by (simp add: db_doc_write_def fb)
  from db_write_batch [OF db_example_inv ok fb this]
  have "b' = []" "db_inv 64 s' (fold apply_update (rev db_doc_updates) Map.empty)" by simp_all
  moreover have "fold apply_update (rev db_doc_updates) Map.empty = [lit ''k'' \<mapsto> lit ''1'']"
    by (simp add: db_doc_updates_def apply_update_def lit_def c_str_def)
  ultimately show ?thesis using w by auto
qed

text \<open>
  C30: Opening a heap without a database creates an empty one; opening it again (a restart, which
  loses the volatile object) finds the same map through the root pointer.
\<close>

theorem db_open_creates_then_finds:
  assumes "db_root s = nullptr" "nodes (db_heap s) = Map.empty" "arrays (db_heap s) = Map.empty"
    "heap_ok esl_inv (db_heap s)" "unat szNode \<le> esl_max_request" "unat szMap \<le> esl_max_request"
    "capacity \<noteq> 0" "8 * unat capacity \<le> esl_max_request"
    "db_open (esl_env szNode szMap) capacity s = Some (st, s1)"
    "kv_impl_run (db_step (esl_env szNode szMap) bycopy) xs s1 = Some (rs, s2)" "\<forall>x\<in>set xs. kv_valid x"
  shows "status_ok st \<and> db_inv szNode s1 Map.empty
    \<and> db_open (esl_env szNode szMap) capacity' (s2\<lparr>db_hashMap := p\<rparr>) = Some (status_OK, s2)"
proof -
  note new = db_open_new [OF assms(1-9)]
  from kvdb.run_correct [OF new(2) assms(11,10)] have inv: "db_inv szNode s2 (snd (kv_run xs Map.empty))" by simp
  then have "db_root s2 = db_hashMap s2" by (simp add: db_inv_def)
  with db_inv_not_null [OF inv] new show ?thesis by (simp add: db_open_def)
qed

theorem db_open_creates_then_finds_witness:
  "db_open (esl_env 64 128) 2 (db_filled\<lparr>db_hashMap := 7\<rparr>) = Some (status_OK, db_filled)"
proof -
  have "kv_impl_run (db_step (esl_env 64 128) True) db_example_ops db_example = Some (fst (the db_example_run), db_filled)"
    using db_example_run_Some by (simp add: db_filled_def)
  from db_open_creates_then_finds [OF _ _ _ _ _ _ _ _ db_example_open_Some this db_example_valid, of 2 7]
  show ?thesis by (simp add: db_fresh_def esl_heap_ok esl_max_request_def)
qed

text \<open>
  C31: Closing the database deletes its map: no object is left on the heap, the allocator has no
  live block, and the root pointer keeps the address of the deleted map. A later open therefore
  takes a pointer to no object for the map, and every Put, Delete and Get on it fails.
\<close>

theorem db_close_leaves_dangling_root:
  assumes "db_inv szNode s M"
  shows "\<exists>s1 s2. db_close (esl_env szNode szMap) s = Some s1 \<and> nodes (db_heap s1) = Map.empty
    \<and> arrays (db_heap s1) = Map.empty \<and> heap_ok esl_inv (db_heap s1) \<and> db_root s1 = db_root s
    \<and> db_open E capacity s1 = Some (status_OK, s2)
    \<and> (\<forall>k v old. db_Put E bycopy k v s2 = None \<and> db_Delete E bycopy k s2 = None \<and> db_Get bycopy k old s2 = None)"
proof -
  from db_close_ok [OF assms] obtain s1 where s1: "db_close (esl_env szNode szMap) s = Some s1"
    "nodes (db_heap s1) = Map.empty" "arrays (db_heap s1) = Map.empty" "heap_ok esl_inv (db_heap s1)"
    "db_root s1 = db_root s" by blast
  let ?s2 = "s1\<lparr>db_hashMap := db_root s1\<rparr>"
  have "db_open E capacity s1 = Some (status_OK, ?s2)" using db_inv_not_null [OF assms] s1(5) by (simp add: db_open_def)
  moreover have "nodes (db_heap ?s2) = Map.empty" using s1(2) by simp
  note dangling_fails [OF this]
  ultimately show ?thesis using s1 by blast
qed

theorem db_close_leaves_dangling_root_witness:
  "\<exists>s1 s2. db_close (esl_env 64 128) db_example = Some s1 \<and> db_open (esl_env 64 128) 2 s1 = Some (status_OK, s2)
    \<and> db_Get True (slice_of_string (lit ''a'')) [] s2 = None"
  using db_close_leaves_dangling_root [OF db_example_inv, of 128 "esl_env 64 128" 2 True] by blast

text \<open>
  C32: The iterators of the database show nothing of what it holds. After the database has been
  created and any sequence of Put, Delete and Get has run, the map holds exactly what the
  requests left, but size() answers 0, SeekToFirst, SeekToLast and Seek of any key leave the
  iterator not valid, and a forward or backward scan yields no entry: no operation maintains
  the entry count, which every Seek tests first.
\<close>

theorem iterator_never_valid:
  assumes "db_root s = nullptr" "nodes (db_heap s) = Map.empty" "arrays (db_heap s) = Map.empty"
    "heap_ok esl_inv (db_heap s)" "unat szNode \<le> esl_max_request" "unat szMap \<le> esl_max_request"
    "capacity \<noteq> 0" "8 * unat capacity \<le> esl_max_request"
    "db_open (esl_env szNode szMap) capacity s = Some (st, s1)"
    "kv_impl_run (db_step (esl_env szNode szMap) bycopy) xs s1 = Some (rs, s2)" "\<forall>x\<in>set xs. kv_valid x"
  shows "db_inv szNode s2 (snd (kv_run xs Map.empty)) \<and> db_size s2 = Some 0
    \<and> it_SeekToFirst (db_hashMap s2) it (db_heap s2) = Some (it\<lparr>it_bucket := -1\<rparr>)
    \<and> it_SeekToLast (db_hashMap s2) it (db_heap s2) = Some (it\<lparr>it_bucket := -1\<rparr>)
    \<and> it_Seek target (db_hashMap s2) it (db_heap s2) = Some (it\<lparr>it_bucket := -1\<rparr>)
    \<and> scan_forward (db_hashMap s2) (db_heap s2) = Some [] \<and> scan_backward (db_hashMap s2) (db_heap s2) = Some []"
proof -
  from kvdb.run_correct [OF db_open_new(2) [OF assms(1-9)] assms(11,10)]
  have inv: "db_inv szNode s2 (snd (kv_run xs Map.empty))" by simp
  then obtain d where d: "dm_sizeHM d = 0" "nodes (db_heap s2) (db_hashMap s2) = Some (DMap d)"
    by (auto simp: db_inv_def db_rep_def db_at_def dest: hrel_this)
  then have "db_size s2 = Some 0" by (simp add: db_size_def heap_simps)
  with inv empty_count_invalid [OF d] show ?thesis by simp
qed

definition db_example_put :: "((bool \<times> bytes option) list \<times> esloco db) option" where
  "db_example_put = kv_impl_run (db_step (esl_env 64 128) True) [KPut (lit ''a'') (lit ''1'')] db_example"

theorem iterator_never_valid_witness:
  "\<exists>rs s. db_example_put = Some (rs, s) \<and> db_inv 64 s [lit ''a'' \<mapsto> lit ''1'']
     \<and> it_Seek (slice_of_string (lit ''a'')) (db_hashMap s) it_new (db_heap s) = Some it_new
     \<and> scan_forward (db_hashMap s) (db_heap s) = Some []"
proof -
  have "\<not> Option.is_none db_example_put" by code_simp
  then obtain rs s where run: "db_example_put = Some (rs, s)" by (auto simp: Option.is_none_def)
  from iterator_never_valid [OF _ _ _ _ _ _ _ _ db_example_open_Some run [unfolded db_example_put_def],
      of it_new "slice_of_string (lit ''a'')"]
  have "db_inv 64 s [lit ''a'' \<mapsto> lit ''1'']"
    "it_Seek (slice_of_string (lit ''a'')) (db_hashMap s) it_new (db_heap s) = Some it_new"
    "scan_forward (db_hashMap s) (db_heap s) = Some []"
    by (simp_all add: db_fresh_def esl_heap_ok esl_max_request_def it_new_def)
  with run show ?thesis by blast
qed

end
