(* ===== verification/Spec2Isabelle.thy ===== *)
theory Spec2Isabelle
  imports RandomGen EsLoco EsHeap LinkedListSet SkipList Queues FatQueue HashMap RedBlackTree RomulusLog RomulusLR TryLock RWLock ThreadRegistry RedoOpt OneFileCrash Database
begin

text \<open>
  RedoDB: persistent transactional memories and the key-value store built on them.

  THE PROGRAM. RedoDB has three layers. At the bottom, a persistent transactional memory (PTM)
  maps a file into memory, keeps two or more replicas of a heap in it, and runs lambdas as
  transactions that survive a crash (ptms/). In the middle, an allocator carves objects out of
  that heap (common/EsLoco.hpp), and data structures are written as ordinary sequential code
  whose fields are of type persist (pdatastructures/). At the top, a LevelDB-like database is
  one hash map of byte strings in the heap (ptmdb/). A caller of the database runs, through all
  three layers: DBImpl::Put opens a transaction, the transaction edits the hash map, the hash map
  allocates its nodes and strings from EsLoco, every store is interposed and logged by the PTM,
  and the PTM makes the whole durable.

  WHICH THEORY MODELS WHAT (paths under src/).
  \<^item> PTM_Prelude: error monads, counters of type int and the fact collections the others share.
  \<^item> RandomGen: ptmdb/util/random.h and testutil.cc, the generator of the benchmarks.
  \<^item> EsLoco: common/EsLoco.hpp, on a memory of 64-bit cells that holds the pool's own metadata.
    Allocator is the locale of what malloc and free promise; EsLoco interprets it.
  \<^item> TMHeap: tmNew, tmDelete, pmalloc and pfree of the PTMs over a typed heap; EsHeap
    instantiates it with EsLoco. LinkedSeg holds the list-segment lemmas the structures share.
  \<^item> LinkedListSet, SkipList, Queues, FatQueue, HashMap, RedBlackTree: the structures of
    pdatastructures/ with the same names. SetContract, QueueContract and MapContract are the locales of what a
    set, a queue and a map promise for a sequence of requests; each structure interprets one.
  \<^item> PMem: common/pfences.h, a memory with a volatile and a persistent value per byte, whose
    flushes may or may not have happened before a fence; a crash keeps what must have reached
    the medium and a choice of the rest.
  \<^item> RomulusLog: ptms/romuluslog/RomulusLog.hpp and .cpp, every function as the sequence of
    memory instructions it issues, with a crash possible between any two. RomulusLR:
    ptms/romuluslr/RomulusLR.hpp, the atomic steps of its writer and of the readers it redirects;
    its log, copies and recovery repeat RomulusLog's and are taken from there.
  \<^item> TryLock: common/StrongTryRIRWLock.hpp, as functions of a thread that runs alone and as the
    atomic steps of any number of threads. RWLock: ptms/rwlocks/CRWWP_SpinLock.hpp, and
    ThreadRegistry: common/ThreadRegistry.hpp, as such steps.
  \<^item> RedoLog: the write set, the sets of cache lines, undo, redo, pload and pstore of
    ptms/redoopt/RedoOpt.hpp; transaction bodies as a datatype of loads and stores.
  \<^item> RedoReplica: tickets, non-temporal stores (common/pfences.h), and the loops that copy a
    replica or write it back. RedoOpt: the engine state (replicas, ring, states, requests) and
    getNewComb, makeCopy, apply\_redologs, flushCopy, ns\_write\_transaction,
    ns\_read\_transaction, createFile and the constructor.
  \<^item> OneFileLog: the write set of ptms/ponefilewf/OneFilePTMWF.hpp. OneFile: its transactions
    (updateTx, readTransaction, transformAll, commitTx, helpApply, pload, recover) as the atomic
    steps of any number of threads; OneFileInv, OneFileSteps and OneFileShared: the invariant and
    that every step keeps it; OneFileProps: what follows for callers. OneFileCrash: the same
    steps with the medium, that is the stores, write-backs and fences, and recovery from it.
  \<^item> Slices: ptmdb/slice.h, status.h, status.cc, write_batch.h and write_batch.cc.
  \<^item> DBHashMap: ptmdb/TMHashMap.hpp and the PSlice of slice.h, by refinement of HashMap.
  \<^item> DBIterator: ptmdb/TMHashMapIterator.h. Database: ptmdb/db_impl.h and db_impl.cc.

  HOW CODE BECOMES DEFINITIONS. A class is a record of its fields, a method a function from the
  record (and the heap) to an option or a sum; None is undefined behaviour, a failed assertion or
  a loop that does not end, and Inl is an exception. Pointers and size_t are 64-bit words, int is
  a 32-bit word, char is a signed 8-bit word, and arithmetic wraps as it does on the machine the
  Makefile builds for. Loops that follow pointers are partial functions of the option type, so
  that a theorem that an operation returns is a theorem about termination too. Sizes of C++ types
  and the hash function are parameters.

  WHAT THE LEMMAS SHOW. Each component has a representation predicate (esl_inv, lls_rep, sk_rep, llq_rep,
  aq_rep, fq_rep, hm_rep, rb_inv, dbhm_rep, db_rep), lemmas that every operation preserves it and
  answers as the abstract set, queue or map does (the ..._ok lemmas), and lemmas that operations
  return (the ..._returns lemmas), which need only that the allocator finds memory. The locales
  lift these from one operation to any sequence. For RomulusLog the invariant is on crash images:
  after every prefix of the instructions of a transaction, recovery gives the state before it or
  the state after it. The layouts of RomulusLog.cpp and RomulusLR.cpp do not start back on a cache
  line, and the write-back of back is computed with a mask that misses the tail of some lines. The theorems
  hold of any layout: they keep apart the offsets on which main holds the committed contents durably
  and those on which back does too (at\_rest), and say which the stores of a transaction are added to
  (written\_back: those whose copy in back lies in a line that is written back, back\_in\_line); recovery
  before the commit restores the latter, and one theorem shows a committed store outside of them being lost. For RomulusLR they are on
  reachable states: readers load one version, and no version they have seen is lost by a crash, with the
  same proviso on the old version (kept\_back) while a writer commits. For RedoOpt the invariant (redo\_inv) is on a history of versions: every
  replica is the version its ticket names or is marked to be copied, every log leads from one
  version to the next, and only the current replica is locked for reading; undo, replay and copy
  are shown to keep it, and a write transaction to add one version that serves all open requests.
  For OneFile the invariant (of\_inv) has a part for the shared words, which relates them to a
  history of the memories that transactions left, and a part for each thread by its place in the
  code, which is stable under what the other threads may do (rely); from it the theory OneFileProps
  has that updates take effect once and in an order, that reads see one memory, that
  every call returns (by a lexicographic rank of what is left to do, of\_rank), and what recovery
  does to a log that is being written. In OneFileCrash a store may be on the medium at any time, and
  is sure to be after a write-back and a fence of the same thread; its invariant (pm\_inv) says that
  every word has the value of the last transaction or the one before, the log of curTx is whole, and
  the words are written back before the request is closed, from which recovery restores the last
  transaction. For EsLoco a client that allocates, frees and writes to its objects in any order
  (esl\_serve) sees its objects as if each had a memory of its own. The iterator of the database is
  never valid in any run, because the count it is tested against is never raised. A call of RedoOpt runs alone, between the calls of other threads whose requests it helps or
  whose read locks it meets; the trylock is also modelled with all interleavings (TryLock).

  BOUNDS. The theorems on EsLoco need requests of at most 2 ^ 30 - 16 bytes (esl_max_request): the
  block size is computed as an int shifted left, which is exact up to 2 ^ 30. The theorem on the
  hash map needs at most 2 ^ 20 requests and an initial capacity of at most 2 ^ 22, below which the loop counters of type int and the float
  load factor are exact. A history of RedoOpt has fewer than 2 ^ 40 versions, the width of a
  sequence number in a ticket. Recursion on a count follows the loops of the source that have a
  bound (two attempts of a write, twelve of a read); other loops are partial functions. The sequence
  numbers of OneFile are natural numbers; the packing in a word is exact below 2 ^ 54
  transactions and 2 ^ 10 threads (transaction\_ids\_roundtrip).

  NOT MODELLED. malloc.cpp in every ptms directory is Doug Lea's allocator, third-party code that
  is compiled only without USE_ESLOCO. The benchmarks (graphs/, ptmdb/db_bench.cc), the examples,
  and the platform layer (ptmdb/util/env_posix.cc, ptmdb/port, histogram, mutexlock) are I/O and
  measurement. The copies of a PTM under ptmdb/ptms are older versions of the files of ptms/.
  PMDKTM.hpp wraps libpmemobj, which is not in the repository. RedoOpt is modelled without
  interference within a call, without hazard pointers, and with the clock as an input. OneFile is
  modelled on a sequentially consistent memory, without the reclamation of functions and objects
  (hazard eras), without nested transactions and without the limit on stores, which OneFileLog
  has as a failed assertion; a crash may find curTx older than the last transaction as long as
  the compare-and-swap after its write-back is not done, and of this nothing is claimed. The draws of
  the skip list are not negative, that is, rand() is not 0 (the negative level it gives is a finding). The
  options of the database are no parameter, as the code ignores them; db\_close is the destructor of
  DBImpl, which a delete through a pointer to DB does not reach, as that of DB is not virtual; and
  the bytes that PSlice writes past the interposition of a PTM are plain writes to the heap, where
  under the Redo PTMs they go to replica 0 unlogged. The size of a tree is an integer without bound. Redo and RedoTimed are earlier versions of RedoOpt; CX
  and the hazard pointers reclaim by reference counts and hazards, which the models
  above do not need, as their values are never freed. CRWWP.hpp is included nowhere.
\<close>

end
